(* ===== verification/Prelude.thy ===== *)
theory Prelude
  imports Main "HOL-Library.Word"
begin

section \<open>Shared types, results and word arithmetic\<close>

text \<open>
  What every component of the allocator model shares: the machine types of the
  C++ code (a \<open>size_t\<close>, a \<open>uintptr_t\<close> and a pointer are 64-bit words, the
  \<open>uint32_t\<close> fields of the headers 32-bit words), the exceptions it throws, the
  result type of an operation that may throw, and the arithmetic lemmas that move
  a word computation to the natural numbers where it does not wrap.
\<close>

subsection \<open>Machine types and exceptions\<close>

type_synonym u8 = "8 word"
type_synonym u32 = "32 word"
type_synonym u64 = "64 word"
type_synonym ptr = u64

abbreviation (input) nullptr :: ptr where
  "nullptr \<equiv> 0"

abbreviation (input) size_max :: u64 where
  "size_max \<equiv> - 1"

datatype exn =
    Bad_alloc
  | Bad_array_new_length
  | Out_of_range
  | Invalid_argument
  | Length_error

type_synonym 'a res = "exn + 'a"

subsection \<open>Hint collections\<close>

named_theorems frame_simps \<open>reads that a write elsewhere does not change\<close>
named_theorems footprint \<open>which bytes an operation may change\<close>
named_theorems layout \<open>where the fields and blocks of a slab lie\<close>

subsection \<open>Word arithmetic without wrap-around\<close>

lemma unat_u64_bound [simp]: "unat (x :: u64) < 18446744073709551616"
  using unsigned_less [of x, where 'a = nat] by simp

lemma unat_u32_bound [simp]: "unat (x :: u32) < 4294967296"
  using unsigned_less [of x, where 'a = nat] by simp

lemma unat_u8_bound [simp]: "unat (x :: u8) < 256"
  using unsigned_less [of x, where 'a = nat] by simp

lemma unat_size_max: "unat (size_max :: u64) = 18446744073709551615"
  by (simp add: unsigned_minus_1_eq_mask mask_eq_exp_minus_1)

lemma unat_add_u64:
  "unat (x :: u64) + unat y < 18446744073709551616 \<Longrightarrow> unat (x + y) = unat x + unat y"
  using unat_add_lem [of x y] by simp

lemma unat_add_mod_u64:
  "unat ((x :: u64) + y) = (unat x + unat y) mod 18446744073709551616"
  by (simp add: unat_word_ariths)

lemma unat_mult_u64:
  "unat (x :: u64) * unat y < 18446744073709551616 \<Longrightarrow> unat (x * y) = unat x * unat y"
  using unat_mult_lem [of x y] by simp

lemma unat_sub_u64:
  "unat (y :: u64) \<le> unat x \<Longrightarrow> unat (x - y) = unat x - unat y"
  by (simp add: unat_sub word_le_nat_alt)

lemma unat_of_nat_u64:
  "n < 18446744073709551616 \<Longrightarrow> unat (of_nat n :: u64) = n"
  by (simp add: unat_of_nat)

lemma unat_of_nat_u32:
  "n < 4294967296 \<Longrightarrow> unat (of_nat n :: u32) = n"
  by (simp add: unat_of_nat)

lemma unat_ucast_u32_u64 [simp]: "unat (ucast (x :: u32) :: u64) = unat x"
  by (simp add: unsigned_ucast_eq take_bit_nat_eq_self less_trans [OF unat_u32_bound])

lemma unat_ucast_u64_u32:
  "unat (ucast (x :: u64) :: u32) = unat x mod 4294967296"
  by (simp add: unsigned_ucast_eq take_bit_eq_mod)

lemma ptr_eq_iff_unat: "(p :: u64) = q \<longleftrightarrow> unat p = unat q"
  by (simp add: word_unat_eq_iff)

lemma unat_gt_0_u64: "(p :: u64) \<noteq> 0 \<Longrightarrow> 0 < unat p"
  by (simp add: unat_gt_0)

subsection \<open>Rounding up\<close>

text \<open>Rounding a number up to a multiple, on the naturals: what \<open>align_up\<close> computes
  where it does not wrap.\<close>

definition round_up :: "nat \<Rightarrow> nat \<Rightarrow> nat" where
  "round_up n a = ((n + a - 1) div a) * a"

lemma round_up_ge: "0 < a \<Longrightarrow> n \<le> round_up n a"
proof -
  assume a: "0 < a"
  have "n + a - 1 < ((n + a - 1) div a) * a + a"
    using dividend_less_div_times [OF a] by (simp add: add.commute)
  then show ?thesis using a by (simp add: round_up_def)
qed

lemma round_up_less: "0 < a \<Longrightarrow> round_up n a < n + a"
proof -
  assume a: "0 < a"
  have "((n + a - 1) div a) * a \<le> n + a - 1" by simp
  also have "\<dots> < n + a" using a by simp
  finally show ?thesis by (simp add: round_up_def)
qed

lemma round_up_dvd [simp]: "a dvd round_up n a"
  by (simp add: round_up_def)

lemma round_up_least:
  assumes "a dvd m" "n \<le> m"
  shows "round_up n a \<le> m"
proof (cases "a = 0")
  case True
  then show ?thesis by (simp add: round_up_def)
next
  case False
  obtain k where k: "m = a * k" using assms(1) by blast
  have "(n + a - 1) div a < k + 1"
  proof (rule ccontr)
    assume "\<not> ?thesis"
    then have "(k + 1) * a \<le> ((n + a - 1) div a) * a" by (simp only: mult_le_mono1)
    also have "\<dots> \<le> n + a - 1" by simp
    also have "\<dots> < m + a" using False assms(2) by simp
    finally show False by (simp add: k algebra_simps)
  qed
  then have "((n + a - 1) div a) * a \<le> k * a" by (simp only: mult_le_mono1)
  then show ?thesis by (simp add: round_up_def k mult.commute)
qed

lemma round_up_id: "0 < a \<Longrightarrow> a dvd n \<Longrightarrow> round_up n a = n"
  using round_up_ge [of a n] round_up_least [of a n n] by simp

lemma round_up_mono: "0 < a \<Longrightarrow> n \<le> m \<Longrightarrow> round_up n a \<le> round_up m a"
  by (meson le_trans round_up_dvd round_up_ge round_up_least)

lemma round_up_pos: "0 < a \<Longrightarrow> 0 < n \<Longrightarrow> 0 < round_up n a"
  by (meson less_le_trans round_up_ge)

lemma round_up_0 [simp]: "0 < a \<Longrightarrow> round_up 0 a = 0"
  by (simp add: round_up_def)

subsection \<open>Lists\<close>

lemma sum_list_update_nat:
  "i < length xs \<Longrightarrow> sum_list (xs[i := v]) = sum_list xs + v - (xs ! i :: nat)"
proof (induction xs arbitrary: i)
  case Nil
  then show ?case by simp
next
  case (Cons x xs)
  show ?case
  proof (cases i)
    case 0
    then show ?thesis by simp
  next
    case (Suc j)
    with Cons.prems have "xs ! j \<le> sum_list xs"
      by (simp add: member_le_sum_list)
    with Cons Suc show ?thesis by simp
  qed
qed

lemma nth_le_sum_list: "i < length xs \<Longrightarrow> (xs ! i :: nat) \<le> sum_list xs"
  by (simp add: member_le_sum_list)

lemma find_SomeD: "find P xs = Some x \<Longrightarrow> x \<in> set xs \<and> P x"
  by (auto simp: find_Some_iff)

lemma find_NoneD: "find P xs = None \<Longrightarrow> x \<in> set xs \<Longrightarrow> \<not> P x"
  by (auto simp: find_None_iff)

lemma sint_of_int32:
  assumes "- (2 ^ 31) \<le> n" and "n < 2 ^ 31"
  shows "sint (of_int n :: u32) = n"
  using assms by (simp add: sint_word_ariths signed_take_bit_int_eq_self sint_sbintrunc')

end
