(* ===== verification/Byte_Memory.thy ===== *)
theory Byte_Memory
  imports Prelude
begin

section \<open>Byte-addressed memory and scalar fields\<close>

text \<open>
  The allocator keeps its metadata inside the memory it manages: slab headers, block
  headers and the links of its free lists are scalars written at computed addresses.
  The model keeps that: memory is a map from byte addresses to bytes, a field is loaded
  and stored little-endian at its address, and two fields alias exactly when their bytes
  overlap. The locale \<open>scalar_store\<close> states the laws that the components use, and is
  interpreted on the 32-bit and the 64-bit accessors.
\<close>

type_synonym mem = "nat \<Rightarrow> u8"

subsection \<open>Little-endian access\<close>

fun load_le :: "nat \<Rightarrow> mem \<Rightarrow> nat \<Rightarrow> nat" where
  "load_le 0 m a = 0"
| "load_le (Suc n) m a = unat (m a) + 256 * load_le n m (Suc a)"

fun store_le :: "nat \<Rightarrow> mem \<Rightarrow> nat \<Rightarrow> nat \<Rightarrow> mem" where
  "store_le 0 m a v = m"
| "store_le (Suc n) m a v = store_le n (m(a := of_nat v)) (Suc a) (v div 256)"

definition load64 :: "mem \<Rightarrow> ptr \<Rightarrow> u64" where
  "load64 m p = of_nat (load_le 8 m (unat p))"

definition store64 :: "mem \<Rightarrow> ptr \<Rightarrow> u64 \<Rightarrow> mem" where
  "store64 m p v = store_le 8 m (unat p) (unat v)"

definition load32 :: "mem \<Rightarrow> ptr \<Rightarrow> u32" where
  "load32 m p = of_nat (load_le 4 m (unat p))"

definition store32 :: "mem \<Rightarrow> ptr \<Rightarrow> u32 \<Rightarrow> mem" where
  "store32 m p v = store_le 4 m (unat p) (unat v)"

text \<open>The bytes of an object of \<open>n\<close> bytes at \<open>p\<close>.\<close>

definition bytes_of :: "ptr \<Rightarrow> nat \<Rightarrow> nat set" where
  "bytes_of p n = {unat p ..< unat p + n}"

text \<open>Two memories agree on a set of bytes; a write changes nothing outside a set.\<close>

definition agree_on :: "nat set \<Rightarrow> mem \<Rightarrow> mem \<Rightarrow> bool" where
  "agree_on A m m' \<longleftrightarrow> (\<forall>x\<in>A. m' x = m x)"

lemma bytes_of_iff: "x \<in> bytes_of p n \<longleftrightarrow> unat p \<le> x \<and> x < unat p + n"
  by (simp add: bytes_of_def)

lemma agree_onI: "(\<And>x. x \<in> A \<Longrightarrow> m' x = m x) \<Longrightarrow> agree_on A m m'"
  by (simp add: agree_on_def)

lemma agree_onD: "agree_on A m m' \<Longrightarrow> x \<in> A \<Longrightarrow> m' x = m x"
  by (simp add: agree_on_def)

lemma agree_on_refl [simp]: "agree_on A m m"
  by (simp add: agree_on_def)

lemma agree_on_mono: "agree_on B m m' \<Longrightarrow> A \<subseteq> B \<Longrightarrow> agree_on A m m'"
  by (auto simp: agree_on_def)

lemma agree_on_trans: "agree_on A m m' \<Longrightarrow> agree_on A m' m'' \<Longrightarrow> agree_on A m m''"
  by (simp add: agree_on_def)

lemma agree_on_sym: "agree_on A m m' \<Longrightarrow> agree_on A m' m"
  by (simp add: agree_on_def)

subsection \<open>Laws of the little-endian accessors\<close>

lemma load_le_cong:
  "(\<And>x. a \<le> x \<Longrightarrow> x < a + n \<Longrightarrow> m' x = m x) \<Longrightarrow> load_le n m' a = load_le n m a"
  by (induction n arbitrary: a) auto

lemma store_le_outside:
  "x < a \<or> a + n \<le> x \<Longrightarrow> store_le n m a v x = m x"
  by (induction n arbitrary: a m v) auto

lemma load_le_less: "load_le n m a < 256 ^ n"
proof (induction n arbitrary: a)
  case 0
  then show ?case by simp
next
  case (Suc n)
  have "unat (m a) < 256" by simp
  moreover have "load_le n m (Suc a) < 256 ^ n" by (rule Suc.IH)
  ultimately have "unat (m a) + 256 * load_le n m (Suc a) < 256 + 256 * (256 ^ n - 1)"
    by (simp add: add_less_le_mono)
  then show ?case by (simp add: diff_mult_distrib2)
qed

lemma load_store_le: "load_le n (store_le n m a v) a = v mod 256 ^ n"
proof (induction n arbitrary: m a v)
  case 0
  then show ?case by simp
next
  case (Suc n)
  have "store_le n (m(a := of_nat v)) (Suc a) (v div 256) a = of_nat v"
    by (simp add: store_le_outside)
  then have "load_le (Suc n) (store_le (Suc n) m a v) a
      = unat (of_nat v :: u8) + 256 * (v div 256 mod 256 ^ n)"
    using Suc.IH by simp
  also have "\<dots> = v mod 256 + 256 * (v div 256 mod 256 ^ n)"
    by (simp add: unat_of_nat)
  also have "\<dots> = v mod 256 ^ Suc n"
    using mod_mult2_eq [of v 256 "256 ^ n"] by simp
  finally show ?case .
qed

text \<open>Storing what is there changes nothing.\<close>

lemma store_load_le: "store_le n m a (load_le n m a) = m"
proof (induction n arbitrary: a)
  case 0
  then show ?case by simp
next
  case (Suc n)
  have lt: "unat (m a) < 256" by simp
  have "(of_nat (unat (m a) + 256 * load_le n m (Suc a)) :: u8) = m a"
    by (rule word_unat_eq_iff [THEN iffD2]) (simp add: unat_of_nat del: of_nat_add of_nat_mult)
  moreover have "(unat (m a) + 256 * load_le n m (Suc a)) div 256 = load_le n m (Suc a)" using lt by simp
  ultimately show ?case using Suc.IH [of "Suc a"] by simp
qed

lemma store32_same: "store32 m p (load32 m p) = m" and store64_same: "store64 m p (load64 m p) = m"
  using load_le_less [of 4 m "unat p"] load_le_less [of 8 m "unat p"]
  by (simp_all add: store32_def load32_def store64_def load64_def unat_of_nat store_load_le)

subsection \<open>The scalar interface\<close>

text \<open>
  What the components rely on when they read and write a field: a load returns the last
  value stored there, depends on the bytes of the field alone, and a store changes the
  bytes of its field alone.
\<close>

locale scalar_store =
  fixes get :: "mem \<Rightarrow> ptr \<Rightarrow> 'v"
    and put :: "mem \<Rightarrow> ptr \<Rightarrow> 'v \<Rightarrow> mem"
    and width :: nat
  assumes get_put_same: "get (put m p v) p = v"
    and get_local: "agree_on (bytes_of p width) m m' \<Longrightarrow> get m' p = get m p"
    and put_local: "x \<notin> bytes_of p width \<Longrightarrow> put m p v x = m x"
begin

lemma put_agree: "A \<inter> bytes_of p width = {} \<Longrightarrow> agree_on A m (put m p v)"
  by (auto intro!: agree_onI put_local)

lemma get_put_apart:
  "bytes_of q width \<inter> bytes_of p width = {} \<Longrightarrow> get (put m p v) q = get m q"
  by (rule get_local) (rule put_agree)

lemma put_agree_outside: "bytes_of p width \<subseteq> B \<Longrightarrow> agree_on (- B) m (put m p v)"
  by (rule put_agree) auto

end

interpretation s64: scalar_store load64 store64 8
proof
  fix m :: mem and p v
  show "load64 (store64 m p v) p = v"
    by (simp only: load64_def store64_def load_store_le) (simp add: unat_of_nat)
next
  fix p :: ptr and m m'
  assume "agree_on (bytes_of p 8) m m'"
  then have "load_le 8 m' (unat p) = load_le 8 m (unat p)"
    by (intro load_le_cong) (simp add: agree_on_def bytes_of_def)
  then show "load64 m' p = load64 m p"
    by (simp only: load64_def)
next
  fix x p m v
  assume "x \<notin> bytes_of p 8"
  then have "x < unat p \<or> unat p + 8 \<le> x" by (auto simp: bytes_of_def)
  then show "store64 m p v x = m x"
    unfolding store64_def by (rule store_le_outside)
qed

interpretation s32: scalar_store load32 store32 4
proof
  fix m :: mem and p v
  show "load32 (store32 m p v) p = v"
    by (simp only: load32_def store32_def load_store_le) (simp add: unat_of_nat)
next
  fix p :: ptr and m m'
  assume "agree_on (bytes_of p 4) m m'"
  then have "load_le 4 m' (unat p) = load_le 4 m (unat p)"
    by (intro load_le_cong) (simp add: agree_on_def bytes_of_def)
  then show "load32 m' p = load32 m p"
    by (simp only: load32_def)
next
  fix x p m v
  assume "x \<notin> bytes_of p 4"
  then have "x < unat p \<or> unat p + 4 \<le> x" by (auto simp: bytes_of_def)
  then show "store32 m p v x = m x"
    unfolding store32_def by (rule store_le_outside)
qed

lemmas scalar_same [simp] = s64.get_put_same s32.get_put_same

lemma load64_store32_apart:
  "bytes_of q 8 \<inter> bytes_of p 4 = {} \<Longrightarrow> load64 (store32 m p v) q = load64 m q"
  by (rule s64.get_local) (rule s32.put_agree)

lemma load32_store64_apart:
  "bytes_of q 4 \<inter> bytes_of p 8 = {} \<Longrightarrow> load32 (store64 m p v) q = load32 m q"
  by (rule s32.get_local) (rule s64.put_agree)

lemmas scalar_apart [frame_simps] =
  s64.get_put_apart s32.get_put_apart load64_store32_apart load32_store64_apart

end
