(* ===== verification/Virtual_Memory.thy ===== *)
theory Virtual_Memory
  imports Byte_Memory
begin

section \<open>The kernel interface and VirtualMemory\<close>

text \<open>
  Models \<open>src/virtual_memory\<close>: \<open>reserve\<close>, \<open>alloc_on_node\<close>, \<open>release\<close>,
  \<open>bind_to_node\<close>, the three \<open>advise_\<close> calls, \<open>align_up\<close> and \<open>max_nodes\<close>.
  The kernel and libnuma are not part of the repository: what a system call answers is
  a field of the record \<open>os\<close>, which every definition takes as an argument (the answer may
  depend on how many calls came before, so any sequence of answers, failures included,
  is an instance). The effect of a call on the address space is written out: the mapped
  ranges, the bytes, and the NUMA policy of each byte. \<open>os_ok\<close> is the documented
  behaviour of \<open>mmap\<close> that the proofs use.
\<close>

subsection \<open>The external interface\<close>

datatype mbind_mode = MPOL_BIND | MPOL_INTERLEAVE

datatype madvice = MADV_HUGEPAGE | MADV_NOHUGEPAGE | MADV_DONTNEED

datatype numa_policy = FirstTouch | Bind | Interleave

record os =
  os_page_size :: u64
  os_mmap :: "nat \<Rightarrow> (nat \<times> nat) list \<Rightarrow> nat \<Rightarrow> ptr option"
  os_mbind :: "nat \<Rightarrow> nat \<times> nat \<Rightarrow> mbind_mode \<Rightarrow> u64 \<Rightarrow> bool"
  os_numa_available :: int
  os_vector_grow :: "nat \<Rightarrow> nat"

record world =
  w_mem :: mem
  w_maps :: "(nat \<times> nat) list"
  w_policy :: "nat \<Rightarrow> (mbind_mode \<times> u64) option"
  w_tick :: nat

definition in_ranges :: "(nat \<times> nat) list \<Rightarrow> nat \<Rightarrow> bool" where
  "in_ranges rs x = list_ex (\<lambda>(lo, hi). lo \<le> x \<and> x < hi) rs"

definition mapped :: "world \<Rightarrow> nat set" where
  "mapped w = {x. in_ranges (w_maps w) x}"

definition cut_range :: "nat \<times> nat \<Rightarrow> nat \<times> nat \<Rightarrow> (nat \<times> nat) list" where
  "cut_range = (\<lambda>(a, b) (lo, hi). filter (\<lambda>(l, h). l < h) [(lo, min hi a), (max lo b, hi)])"

subsection \<open>Effects of the system calls\<close>

text \<open>\<open>mmap\<close> of an anonymous private region: \<open>EINVAL\<close> for length 0, otherwise a new
  zero-filled range with the default policy.\<close>

definition sys_mmap :: "os \<Rightarrow> u64 \<Rightarrow> world \<Rightarrow> ptr option \<times> world" where
  "sys_mmap os len w =
    (let w1 = w\<lparr>w_tick := Suc (w_tick w)\<rparr> in
     if len = 0 then (None, w1)
     else case os_mmap os (w_tick w) (w_maps w) (unat len) of
       None \<Rightarrow> (None, w1)
     | Some p \<Rightarrow>
         (let lo = unat p; hi = unat p + unat len in
          (Some p,
           w1\<lparr>w_mem := (\<lambda>x. if lo \<le> x \<and> x < hi then 0 else w_mem w x),
              w_maps := (lo, hi) # w_maps w,
              w_policy := (\<lambda>x. if lo \<le> x \<and> x < hi then None else w_policy w x)\<rparr>)))"

text \<open>\<open>munmap\<close>: \<open>EINVAL\<close> for length 0 or an unaligned address (the callers ignore the
  result), otherwise the range leaves the address space.\<close>

definition sys_munmap :: "os \<Rightarrow> ptr \<Rightarrow> u64 \<Rightarrow> world \<Rightarrow> world" where
  "sys_munmap os p len w =
    (let w1 = w\<lparr>w_tick := Suc (w_tick w)\<rparr> in
     if len = 0 \<or> unat p mod unat (os_page_size os) \<noteq> 0 then w1
     else w1\<lparr>w_maps := concat (map (cut_range (unat p, unat p + unat len)) (w_maps w))\<rparr>)"

text \<open>\<open>mbind\<close> with flags 0 sets the policy of the range when it succeeds.\<close>

definition sys_mbind :: "os \<Rightarrow> ptr \<Rightarrow> u64 \<Rightarrow> mbind_mode \<Rightarrow> u64 \<Rightarrow> world \<Rightarrow> bool \<times> world" where
  "sys_mbind os p len mode nodemask w =
    (let w1 = w\<lparr>w_tick := Suc (w_tick w)\<rparr>; lo = unat p; hi = unat p + unat len in
     if os_mbind os (w_tick w) (lo, hi) mode nodemask
     then (True, w1\<lparr>w_policy :=
             (\<lambda>x. if lo \<le> x \<and> x < hi then Some (mode, nodemask) else w_policy w x)\<rparr>)
     else (False, w1))"

text \<open>\<open>madvise\<close>: only \<open>MADV_DONTNEED\<close> changes contents (anonymous pages read as zero).\<close>

definition sys_madvise :: "ptr \<Rightarrow> u64 \<Rightarrow> madvice \<Rightarrow> world \<Rightarrow> world" where
  "sys_madvise p len advice w =
    (let w1 = w\<lparr>w_tick := Suc (w_tick w)\<rparr>; lo = unat p; hi = unat p + unat len in
     case advice of
       MADV_DONTNEED \<Rightarrow> w1\<lparr>w_mem := (\<lambda>x. if lo \<le> x \<and> x < hi then 0 else w_mem w x)\<rparr>
     | _ \<Rightarrow> w1)"

subsection \<open>VirtualMemory\<close>

definition align_up :: "u64 \<Rightarrow> u64 \<Rightarrow> u64" where
  "align_up x align = (if align = 0 then x else ((x + align - 1) div align) * align)"

definition page_size :: "os \<Rightarrow> u64" where
  "page_size os = os_page_size os"

definition max_nodes :: u64 where
  "max_nodes = 8 * 8"

definition numa_is_available :: "os \<Rightarrow> bool" where
  "numa_is_available os \<longleftrightarrow> os_numa_available os \<ge> 0"

definition vm_reserve :: "os \<Rightarrow> u64 \<Rightarrow> world \<Rightarrow> ptr res \<times> world" where
  "vm_reserve os sz w =
    (let sz = (if sz = 0 then page_size os else sz);
         sz = align_up sz (page_size os)
     in case sys_mmap os sz w of
          (None, w1) \<Rightarrow> (Inl Bad_alloc, w1)
        | (Some p, w1) \<Rightarrow> (Inr p, w1))"

definition vm_release :: "os \<Rightarrow> ptr \<Rightarrow> u64 \<Rightarrow> world \<Rightarrow> world" where
  "vm_release os p sz w =
    (if p = nullptr then w
     else if sz = 0 then w
     else sys_munmap os p (align_up sz (page_size os)) w)"

definition vm_bind_to_node ::
  "os \<Rightarrow> ptr \<Rightarrow> u64 \<Rightarrow> int \<Rightarrow> numa_policy \<Rightarrow> world \<Rightarrow> bool \<times> world" where
  "vm_bind_to_node os p sz node policy w =
    (if policy = FirstTouch then (True, w)
     else if p = nullptr then (False, w)
     else if \<not> numa_is_available os then (node = 0, w)
     else
       let sz = align_up sz (page_size os) in
       if node < 0 \<or> of_int node \<ge> max_nodes then (False, w)
       else
         let nodemask = push_bit (nat node) 1;
             mode = (if policy = Interleave then MPOL_INTERLEAVE else MPOL_BIND)
         in sys_mbind os p sz mode nodemask w)"

definition vm_alloc_on_node ::
  "os \<Rightarrow> u64 \<Rightarrow> int \<Rightarrow> numa_policy \<Rightarrow> world \<Rightarrow> ptr res \<times> world" where
  "vm_alloc_on_node os sz node policy w =
    (case vm_reserve os sz w of
       (Inl e, w1) \<Rightarrow> (Inl e, w1)
     | (Inr p, w1) \<Rightarrow>
         (case vm_bind_to_node os p sz node policy w1 of
            (False, w2) \<Rightarrow> (Inl Bad_alloc, vm_release os p sz w2)
          | (True, w2) \<Rightarrow> (Inr p, w2)))"

definition vm_advise :: "os \<Rightarrow> madvice \<Rightarrow> ptr \<Rightarrow> u64 \<Rightarrow> world \<Rightarrow> world" where
  "vm_advise os advice p sz w =
    (if p = nullptr then w else sys_madvise p (align_up sz (page_size os)) advice w)"

definition advise_hugepage :: "os \<Rightarrow> ptr \<Rightarrow> u64 \<Rightarrow> world \<Rightarrow> world" where
  "advise_hugepage os = vm_advise os MADV_HUGEPAGE"

definition advise_no_hugepage :: "os \<Rightarrow> ptr \<Rightarrow> u64 \<Rightarrow> world \<Rightarrow> world" where
  "advise_no_hugepage os = vm_advise os MADV_NOHUGEPAGE"

definition advise_release :: "os \<Rightarrow> ptr \<Rightarrow> u64 \<Rightarrow> world \<Rightarrow> world" where
  "advise_release os = vm_advise os MADV_DONTNEED"

subsection \<open>Documented behaviour of the kernel\<close>

text \<open>
  The page size is a multiple of 4096 that divides 65536 (the sizes Linux offers), and a
  successful \<open>mmap\<close> returns a page-aligned user-space address whose range meets no range
  that is mapped already. \<open>std::vector\<close> grows to a larger capacity.
\<close>

definition os_ok :: "os \<Rightarrow> bool" where
  "os_ok os \<longleftrightarrow>
     4096 dvd unat (os_page_size os) \<and> unat (os_page_size os) dvd 65536 \<and>
     (\<forall>t maps n p. os_mmap os t maps n = Some p \<longrightarrow>
        p \<noteq> nullptr \<and> unat (os_page_size os) dvd unat p \<and> unat p + n \<le> 2 ^ 63 \<and>
        (\<forall>x. in_ranges maps x \<longrightarrow> \<not> (unat p \<le> x \<and> x < unat p + n))) \<and>
     (\<forall>n. n < os_vector_grow os n)"

text \<open>A kernel that satisfies it: it maps above everything mapped so far, and fails when
  the address space is used up. The witnesses run on it.\<close>

definition bump_mmap :: "u64 \<Rightarrow> nat \<Rightarrow> (nat \<times> nat) list \<Rightarrow> nat \<Rightarrow> ptr option" where
  "bump_mmap ps t maps n =
    (let lo = round_up (fold (\<lambda>(l, h) m. max h m) maps 65536) (unat ps) in
     if lo + n \<le> 2 ^ 63 then Some (of_nat lo) else None)"

definition bump_os :: os where
  "bump_os =
    \<lparr>os_page_size = 4096, os_mmap = bump_mmap 4096,
     os_mbind = (\<lambda>t r mode mask. True), os_numa_available = 0,
     os_vector_grow = (\<lambda>n. max 1 (2 * n))\<rparr>"

definition empty_world :: world where
  "empty_world = \<lparr>w_mem = (\<lambda>x. 0), w_maps = [], w_policy = (\<lambda>x. None), w_tick = 0\<rparr>"

subsection \<open>Footprint steps\<close>

text \<open>
  The contract of an operation of a component that owns the bytes \<open>F\<close>: bytes mapped
  before and not owned keep their contents, their policy and their mapping; afterwards the
  component owns \<open>F'\<close>, which meets no other mapped byte, and nothing else became mapped
  or unmapped. So an operation neither disturbs another component nor loses a mapping.
\<close>

definition frame_step :: "nat set \<Rightarrow> world \<Rightarrow> nat set \<Rightarrow> world \<Rightarrow> bool" where
  "frame_step F w F' w' \<longleftrightarrow>
     mapped w' = F' \<union> (mapped w - F) \<and>
     F' \<inter> (mapped w - F) = {} \<and>
     (\<forall>x \<in> mapped w - F. w_mem w' x = w_mem w x \<and> w_policy w' x = w_policy w x)"

lemma frame_step_trans [trans]:
  assumes a: "frame_step F w F' w'" and b: "frame_step F' w' F'' w''"
  shows "frame_step F w F'' w''"
proof -
  have rest: "mapped w' - F' = mapped w - F"
    using a by (auto simp: frame_step_def)
  then show ?thesis
    using a b by (auto simp: frame_step_def)
qed

lemma frame_step_mem:
  "A \<inter> F = {} \<Longrightarrow> A \<subseteq> mapped w \<Longrightarrow> frame_step F w F' w' \<Longrightarrow>
   agree_on A (w_mem w) (w_mem w') \<and> A \<subseteq> mapped w' \<and> A \<inter> F' = {} \<and>
   (\<forall>x\<in>A. w_policy w' x = w_policy w x)"
  by (auto simp: frame_step_def agree_on_def)

lemma frame_step_refl: "F \<subseteq> mapped w \<Longrightarrow> frame_step F w F w"
  by (auto simp: frame_step_def)

text \<open>A step inside a part of the footprint is a step of the whole.\<close>

lemma frame_step_extend:
  assumes "frame_step F w F' w'" and "G \<subseteq> mapped w" and "G \<inter> F = {}"
  shows "frame_step (F \<union> G) w (F' \<union> G) w'"
  using assms by (auto simp: frame_step_def)

lemma frame_step_write:
  assumes "F \<subseteq> mapped w" and "agree_on (- F) (w_mem w) m'"
  shows "frame_step F w F (w\<lparr>w_mem := m'\<rparr>)"
  using assms by (auto simp: frame_step_def mapped_def agree_on_def)


subsection \<open>Address ranges\<close>

lemma in_ranges_Nil [simp]: "\<not> in_ranges [] x"
  by (simp add: in_ranges_def)

lemma in_ranges_Cons [simp]:
  "in_ranges ((lo, hi) # rs) x \<longleftrightarrow> lo \<le> x \<and> x < hi \<or> in_ranges rs x"
  by (simp add: in_ranges_def)

lemma in_ranges_append [simp]: "in_ranges (rs @ ts) x \<longleftrightarrow> in_ranges rs x \<or> in_ranges ts x"
  by (simp add: in_ranges_def)

lemma in_ranges_cut_range:
  "a \<le> b \<Longrightarrow> in_ranges (cut_range (a, b) (lo, hi)) x \<longleftrightarrow> lo \<le> x \<and> x < hi \<and> \<not> (a \<le> x \<and> x < b)"
  by (auto simp: cut_range_def in_ranges_def)

lemma in_ranges_cut:
  "a \<le> b \<Longrightarrow> in_ranges (concat (map (cut_range (a, b)) rs)) x \<longleftrightarrow>
     in_ranges rs x \<and> \<not> (a \<le> x \<and> x < b)"
proof (induction rs)
  case Nil
  then show ?case by simp
next
  case (Cons r rs)
  obtain lo hi where r: "r = (lo, hi)" by (cases r)
  from Cons show ?case by (auto simp: r in_ranges_cut_range)
qed

lemma mapped_iff: "x \<in> mapped w \<longleftrightarrow> in_ranges (w_maps w) x"
  by (simp add: mapped_def)

lemma mapped_update [simp]:
  "mapped (w\<lparr>w_mem := m\<rparr>) = mapped w"
  "mapped (w\<lparr>w_policy := pl\<rparr>) = mapped w"
  "mapped (w\<lparr>w_tick := t\<rparr>) = mapped w"
  by (simp_all add: mapped_def)

lemma mapped_empty_world [simp]: "mapped empty_world = {}"
  by (simp add: mapped_def empty_world_def)

subsection \<open>Page sizes and rounding\<close>

lemma os_ok_page:
  assumes "os_ok os"
  shows os_ok_page_ge: "4096 \<le> unat (page_size os)"
    and os_ok_page_le: "unat (page_size os) \<le> 65536"
    and os_ok_page_dvd: "unat (page_size os) dvd 65536"
    and os_ok_page_4096: "4096 dvd unat (page_size os)"
    and os_ok_page_nz: "page_size os \<noteq> 0"
proof -
  from assms show d: "unat (page_size os) dvd 65536" and e: "4096 dvd unat (page_size os)"
    by (simp_all add: os_ok_def page_size_def)
  from d have "0 < unat (page_size os)" by (cases "unat (page_size os) = 0") auto
  with d e show "4096 \<le> unat (page_size os)" and "unat (page_size os) \<le> 65536"
    by (auto intro: dvd_imp_le)
  from \<open>0 < unat (page_size os)\<close> show "page_size os \<noteq> 0" by auto
qed

text \<open>Where \<open>x + align - 1\<close> does not wrap, \<open>align_up\<close> rounds up to the least multiple.\<close>

lemma unat_align_up:
  assumes "a \<noteq> 0" and "unat x + unat a \<le> 18446744073709551616"
  shows "unat (align_up x a) = round_up (unat x) (unat a)"
proof -
  have a: "0 < unat a" using assms(1) by (rule unat_gt_0_u64)
  have "unat (x + a - 1) = unat x + unat a - 1"
  proof -
    have am: "unat (a - 1) = unat a - 1" using a by (simp add: unat_sub_u64)
    have "unat (x + (a - 1)) = unat x + unat (a - 1)"
      by (rule unat_add_u64) (use am a assms(2) in linarith)
    then show ?thesis using am a by (simp add: add_diff_eq)
  qed
  then have d: "unat ((x + a - 1) div a) = (unat x + unat a - 1) div unat a"
    by (simp add: unat_div)
  have "(unat x + unat a - 1) div unat a * unat a \<le> unat x + unat a - 1" by simp
  then have "(unat x + unat a - 1) div unat a * unat a < 18446744073709551616"
    using assms(2) a by linarith
  then show ?thesis
    using assms(1) by (simp add: align_up_def round_up_def unat_mult_u64 d)
qed

text \<open>Where it does wrap the result is 0: the rounding of a size just below \<open>2 ^ 64\<close>.\<close>

lemma align_up_wraps:
  assumes "a \<noteq> 0" and "18446744073709551616 < unat x + unat a"
  shows "align_up x a = 0"
proof -
  have a: "0 < unat a" using assms(1) by (rule unat_gt_0_u64)
  have am: "unat (a - 1) = unat a - 1" using a by (simp add: unat_sub_u64)
  have "unat (x + a - 1) = (unat x + (unat a - 1)) mod 18446744073709551616"
    by (simp only: add_diff_eq [symmetric] unat_add_mod_u64 am)
  also have "\<dots> = unat x + (unat a - 1) - 18446744073709551616"
  proof -
    have ge: "18446744073709551616 \<le> unat x + (unat a - 1)" using assms(2) a by linarith
    have "unat x + (unat a - 1) - 18446744073709551616 < 18446744073709551616"
      using unat_u64_bound [of x] unat_u64_bound [of a] by linarith
    then show ?thesis by (simp only: le_mod_geq [OF ge] mod_less)
  qed
  also have "\<dots> < unat a" using unat_u64_bound [of x] a by linarith
  finally have "unat (x + a - 1) div unat a = 0" by simp
  then have "(x + a - 1) div a = 0"
    by (metis unat_div unat_eq_zero)
  then show ?thesis using assms(1) by (simp add: align_up_def)
qed

subsection \<open>System calls as footprint steps\<close>

lemma sys_mmap_Some:
  assumes "os_ok os" and "sys_mmap os len w = (Some p, w')"
  shows "frame_step {} w (bytes_of p (unat len)) w' \<and> p \<noteq> nullptr \<and>
    unat (page_size os) dvd unat p \<and> unat p + unat len \<le> 2 ^ 63 \<and>
    (\<forall>x \<in> bytes_of p (unat len). w_mem w' x = 0 \<and> w_policy w' x = None)"
proof -
  from assms(2) have m: "os_mmap os (w_tick w) (w_maps w) (unat len) = Some p"
    and w': "w' = w\<lparr>w_tick := Suc (w_tick w),
        w_mem := (\<lambda>x. if unat p \<le> x \<and> x < unat p + unat len then 0 else w_mem w x),
        w_maps := (unat p, unat p + unat len) # w_maps w,
        w_policy := (\<lambda>x. if unat p \<le> x \<and> x < unat p + unat len then None else w_policy w x)\<rparr>"
    by (auto simp: sys_mmap_def Let_def split: if_splits option.splits)
  from assms(1) m have k: "p \<noteq> nullptr" "unat (page_size os) dvd unat p"
    "unat p + unat len \<le> 2 ^ 63"
    "\<forall>x. in_ranges (w_maps w) x \<longrightarrow> \<not> (unat p \<le> x \<and> x < unat p + unat len)"
    unfolding os_ok_def page_size_def by blast+
  then have "frame_step {} w (bytes_of p (unat len)) w'"
    by (auto simp: frame_step_def w' mapped_iff bytes_of_def)
  with k show ?thesis by (simp add: w' bytes_of_def)
qed

lemma sys_mmap_None:
  "sys_mmap os len w = (None, w') \<Longrightarrow> w' = w\<lparr>w_tick := Suc (w_tick w)\<rparr>"
  by (auto simp: sys_mmap_def Let_def split: if_splits option.splits)

lemma frame_step_tick: "frame_step {} w {} (w\<lparr>w_tick := t\<rparr>)"
  by (simp add: frame_step_def)

lemma frame_step_munmap:
  assumes "len \<noteq> 0" and "unat (page_size os) dvd unat p"
    and "bytes_of p (unat len) \<subseteq> mapped w"
  shows "frame_step (bytes_of p (unat len)) w {} (sys_munmap os p len w)"
  using assms
  by (auto simp: frame_step_def sys_munmap_def Let_def mapped_iff in_ranges_cut bytes_of_def
      page_size_def dvd_eq_mod_eq_0)

lemma frame_step_mbind:
  "sys_mbind os p len mode nodemask w = (r, w') \<Longrightarrow> bytes_of p (unat len) \<subseteq> F \<Longrightarrow> F \<subseteq> mapped w \<Longrightarrow>
   frame_step F w F w' \<and> w_mem w' = w_mem w \<and>
   (r \<longrightarrow> (\<forall>x \<in> bytes_of p (unat len). w_policy w' x = Some (mode, nodemask)))"
  by (auto simp: sys_mbind_def Let_def frame_step_def bytes_of_def mapped_def split: if_splits)


subsection \<open>VirtualMemory operations as footprint steps\<close>

text \<open>The bytes of the mapping behind a request, and the policy that placement on a node
  gives them: \<open>MPOL_BIND\<close> to the node, or the default when NUMA is not available.\<close>

definition span_bytes :: "os \<Rightarrow> u64 \<Rightarrow> nat" where
  "span_bytes os sz = round_up (unat sz) (unat (page_size os))"

definition node_policy :: "os \<Rightarrow> int \<Rightarrow> (mbind_mode \<times> u64) option" where
  "node_policy os node =
     (if numa_is_available os then Some (MPOL_BIND, push_bit (nat node) 1) else None)"

definition fits_page :: "os \<Rightarrow> u64 \<Rightarrow> bool" where
  "fits_page os sz \<longleftrightarrow> unat sz + unat (page_size os) \<le> 18446744073709551616"

lemma align_up_page:
  "os_ok os \<Longrightarrow> fits_page os sz \<Longrightarrow> unat (align_up sz (page_size os)) = span_bytes os sz"
  by (simp add: span_bytes_def fits_page_def unat_align_up os_ok_page_nz)

lemma span_bytes_pos: "os_ok os \<Longrightarrow> sz \<noteq> 0 \<Longrightarrow> 0 < span_bytes os sz"
  using os_ok_page_ge [of os] by (simp add: span_bytes_def round_up_pos unat_gt_0_u64)

lemma span_bytes_ge: "os_ok os \<Longrightarrow> unat sz \<le> span_bytes os sz"
  using os_ok_page_ge [of os] by (simp add: span_bytes_def round_up_ge)

lemma align_up_page_nz:
  "os_ok os \<Longrightarrow> fits_page os sz \<Longrightarrow> sz \<noteq> 0 \<Longrightarrow> align_up sz (page_size os) \<noteq> 0"
  using align_up_page [of os sz] span_bytes_pos [of os sz] by auto

lemma vm_release_frame:
  assumes "os_ok os" and "p \<noteq> nullptr" and "sz \<noteq> 0" and "fits_page os sz"
    and "unat (page_size os) dvd unat p" and "bytes_of p (span_bytes os sz) \<subseteq> mapped w"
  shows "frame_step (bytes_of p (span_bytes os sz)) w {} (vm_release os p sz w)"
  using assms frame_step_munmap [of "align_up sz (page_size os)" os p w]
  by (simp add: vm_release_def align_up_page align_up_page_nz)

lemma vm_reserve_Inr:
  assumes "os_ok os" and "sz \<noteq> 0" and "fits_page os sz" and "vm_reserve os sz w = (Inr p, w')"
  shows "frame_step {} w (bytes_of p (span_bytes os sz)) w' \<and> p \<noteq> nullptr \<and>
    unat (page_size os) dvd unat p \<and> unat p + span_bytes os sz \<le> 2 ^ 63 \<and>
    (\<forall>x \<in> bytes_of p (span_bytes os sz). w_mem w' x = 0 \<and> w_policy w' x = None)"
proof -
  from assms have "sys_mmap os (align_up sz (page_size os)) w = (Some p, w')"
    by (auto simp: vm_reserve_def Let_def split: prod.splits option.splits)
  from sys_mmap_Some [OF assms(1) this] show ?thesis
    by (simp add: align_up_page assms)
qed

lemma vm_reserve_Inl:
  "vm_reserve os sz w = (Inl e, w') \<Longrightarrow> e = Bad_alloc \<and> w' = w\<lparr>w_tick := Suc (w_tick w)\<rparr>"
  by (auto simp: vm_reserve_def Let_def dest!: sys_mmap_None split: prod.splits option.splits)

text \<open>A successful \<open>alloc_on_node\<close>: one new mapping of the rounded size, placed on the node.\<close>

lemma vm_bind_frame:
  assumes "os_ok os" and "sz \<noteq> 0" and "fits_page os sz"
    and "bytes_of p (span_bytes os sz) \<subseteq> mapped w"
    and "vm_bind_to_node os p sz node Bind w = (r, w')"
    and "\<forall>x \<in> bytes_of p (span_bytes os sz). w_policy w x = None"
  shows "frame_step (bytes_of p (span_bytes os sz)) w (bytes_of p (span_bytes os sz)) w' \<and>
    w_mem w' = w_mem w \<and>
    (r \<longrightarrow> (\<forall>x \<in> bytes_of p (span_bytes os sz). w_policy w' x = node_policy os node))"
proof -
  note ps = align_up_page [OF assms(1,3)]
  show ?thesis
    using assms(4-6) frame_step_mbind [of os p "align_up sz (page_size os)"]
    by (fastforce simp: vm_bind_to_node_def Let_def ps node_policy_def frame_step_refl
        split: if_splits)
qed

lemma vm_alloc_on_node_Inr:
  assumes "os_ok os" and "sz \<noteq> 0" and "fits_page os sz"
    and "vm_alloc_on_node os sz node Bind w = (Inr p, w')"
  shows "frame_step {} w (bytes_of p (span_bytes os sz)) w'"
    and "p \<noteq> nullptr"
    and "unat (page_size os) dvd unat p"
    and "unat p + span_bytes os sz \<le> 2 ^ 63"
    and "\<forall>x \<in> bytes_of p (span_bytes os sz).
           w_mem w' x = 0 \<and> w_policy w' x = node_policy os node"
proof -
  from assms(4) obtain w1 where r: "vm_reserve os sz w = (Inr p, w1)"
    and b: "vm_bind_to_node os p sz node Bind w1 = (True, w')"
    by (auto simp: vm_alloc_on_node_def split: prod.splits sum.splits bool.splits)
  note R = vm_reserve_Inr [OF assms(1-3) r]
  then have "bytes_of p (span_bytes os sz) \<subseteq> mapped w1" by (auto simp: frame_step_def)
  note B = vm_bind_frame [OF assms(1-3) this b]
  show "frame_step {} w (bytes_of p (span_bytes os sz)) w'"
    using R B frame_step_trans by blast
  show "p \<noteq> nullptr" "unat (page_size os) dvd unat p" "unat p + span_bytes os sz \<le> 2 ^ 63"
    using R by auto
  show "\<forall>x \<in> bytes_of p (span_bytes os sz).
           w_mem w' x = 0 \<and> w_policy w' x = node_policy os node"
    using R B by auto
qed

text \<open>A failed one throws \<open>bad_alloc\<close> and leaves every mapping as it was.\<close>

lemma vm_alloc_on_node_Inl:
  assumes "os_ok os" and "sz \<noteq> 0" and "fits_page os sz"
    and "vm_alloc_on_node os sz node Bind w = (Inl e, w')"
  shows "e = Bad_alloc" and "frame_step {} w {} w'"
proof -
  have "e = Bad_alloc \<and> frame_step {} w {} w'"
  proof (cases "vm_reserve os sz w")
    case (Pair r w1)
    show ?thesis
    proof (cases r)
      case (Inl e')
      with Pair assms(4) show ?thesis
        by (auto simp: vm_alloc_on_node_def dest!: vm_reserve_Inl intro: frame_step_tick)
    next
      case (Inr p)
      with Pair have r': "vm_reserve os sz w = (Inr p, w1)" by simp
      with assms(4) obtain w2 where b: "vm_bind_to_node os p sz node Bind w1 = (False, w2)"
        and e: "e = Bad_alloc" and w': "w' = vm_release os p sz w2"
        by (auto simp: vm_alloc_on_node_def split: prod.splits sum.splits bool.splits)
      note R = vm_reserve_Inr [OF assms(1-3) r']
      then have "bytes_of p (span_bytes os sz) \<subseteq> mapped w1" by (auto simp: frame_step_def)
      note B = vm_bind_frame [OF assms(1-3) this b]
      then have "bytes_of p (span_bytes os sz) \<subseteq> mapped w2"
        using R by (auto simp: frame_step_def)
      then have "frame_step (bytes_of p (span_bytes os sz)) w2 {} w'"
        unfolding w' using R assms by (intro vm_release_frame) auto
      with R B e show ?thesis using frame_step_trans by blast
    qed
  qed
  then show "e = Bad_alloc" and "frame_step {} w {} w'" by auto
qed


subsection \<open>A request of no bytes\<close>

text \<open>\<open>reserve\<close> maps a page for size 0, but \<open>release\<close> ignores size 0.\<close>

lemma vm_reserve_0: "os_ok os \<Longrightarrow> vm_reserve os 0 w = vm_reserve os (page_size os) w"
  using os_ok_page_nz [of os] by (simp add: vm_reserve_def)

lemma os_ok_page_span:
  assumes "os_ok os"
  shows "fits_page os (page_size os)" and "span_bytes os (page_size os) = unat (page_size os)"
  using os_ok_page_le [OF assms] os_ok_page_ge [OF assms]
  by (simp_all add: fits_page_def span_bytes_def round_up_id)

lemma vm_bind_maps:
  "vm_bind_to_node os p sz node policy w = (r, w') \<Longrightarrow> mapped w' = mapped w \<and> w_mem w' = w_mem w"
  by (auto simp: vm_bind_to_node_def sys_mbind_def Let_def mapped_def split: if_splits)

lemma vm_alloc_0:
  assumes os: "os_ok os" and al: "vm_alloc_on_node os 0 node policy w = (r, w')"
    and rs: "vm_reserve os 0 w = (Inr p, w1)"
  shows "mapped w' = bytes_of p (unat (page_size os)) \<union> mapped w"
    and "bytes_of p (unat (page_size os)) \<inter> mapped w = {}" and "r = Inl Bad_alloc \<or> r = Inr p"
    and "p \<noteq> nullptr \<and> unat (page_size os) dvd unat p \<and> unat p + unat (page_size os) \<le> 2 ^ 63"
proof -
  note rs' = rs [unfolded vm_reserve_0 [OF os]]
  note R = vm_reserve_Inr [OF os os_ok_page_nz [OF os] os_ok_page_span(1) [OF os] rs', unfolded os_ok_page_span(2) [OF os]]
  obtain b w2 where b: "vm_bind_to_node os p 0 node policy w1 = (b, w2)" by fastforce
  have w': "w' = w2" and x: "r = Inl Bad_alloc \<or> r = Inr p"
    using al b by (auto simp: vm_alloc_on_node_def rs vm_release_def split: bool.splits)
  show "mapped w' = bytes_of p (unat (page_size os)) \<union> mapped w"
    using R vm_bind_maps [OF b] by (simp add: w' frame_step_def)
  show "bytes_of p (unat (page_size os)) \<inter> mapped w = {}" using R by (simp add: frame_step_def)
  show "r = Inl Bad_alloc \<or> r = Inr p" by (rule x)
  show "p \<noteq> nullptr \<and> unat (page_size os) dvd unat p \<and> unat p + unat (page_size os) \<le> 2 ^ 63" using R by blast
qed

subsection \<open>A kernel that satisfies the documented behaviour\<close>

lemma fold_max_ge: "m \<le> fold (\<lambda>(l, h) m. max h m) maps (m :: nat)"
proof (induction maps arbitrary: m)
  case Nil
  then show ?case by simp
next
  case (Cons r maps)
  obtain l h where r: "r = (l, h)" by (cases r)
  have "m \<le> max h m" by simp
  also have "\<dots> \<le> fold (\<lambda>(l, h) m. max h m) maps (max h m)" by (rule Cons.IH)
  finally show ?case by (simp add: r)
qed

lemma in_ranges_below_fold_max:
  "in_ranges maps x \<Longrightarrow> x < fold (\<lambda>(l, h) m. max h m) maps m"
proof (induction maps arbitrary: m)
  case Nil
  then show ?case by simp
next
  case (Cons r maps)
  obtain l h where r: "r = (l, h)" by (cases r)
  from Cons.prems consider "x < h" | "in_ranges maps x" by (auto simp: r)
  then show ?case
  proof cases
    case 1
    also have "h \<le> max h m" by simp
    also have "\<dots> \<le> fold (\<lambda>(l, h) m. max h m) maps (max h m)" by (rule fold_max_ge)
    finally show ?thesis by (simp add: r)
  next
    case 2
    then show ?thesis by (simp add: r Cons.IH)
  qed
qed

lemma bump_mmap_Some:
  assumes "bump_mmap ps t maps n = Some p" and "0 < unat ps"
  shows "unat p = round_up (fold (\<lambda>(l, h) m. max h m) maps 65536) (unat ps)"
    and "unat p + n \<le> 2 ^ 63"
  using assms by (auto simp: bump_mmap_def Let_def unat_of_nat_u64 split: if_splits)

lemma os_ok_bump [simp]: "os_ok bump_os"
  unfolding os_ok_def
proof (intro conjI allI impI)
  show "4096 dvd unat (os_page_size bump_os)" "unat (os_page_size bump_os) dvd 65536"
    by (simp_all add: bump_os_def)
next
  fix t maps n p
  assume "os_mmap bump_os t maps n = Some p"
  then have m: "bump_mmap 4096 t maps n = Some p" by (simp add: bump_os_def)
  define top where "top = fold (\<lambda>(l, h) m. max h m) maps 65536"
  have p: "unat p = round_up top 4096" and n: "unat p + n \<le> 2 ^ 63"
    using bump_mmap_Some [OF m] by (simp_all add: top_def)
  have t: "65536 \<le> top" unfolding top_def by (rule fold_max_ge)
  have lo: "top \<le> unat p" unfolding p by (rule round_up_ge) simp
  show "unat p + n \<le> 2 ^ 63" by (rule n)
  show "p \<noteq> nullptr" using t lo by auto
  show "unat (os_page_size bump_os) dvd unat p" by (simp add: bump_os_def p)
  fix x
  assume "in_ranges maps x"
  then have "x < top" unfolding top_def by (rule in_ranges_below_fold_max)
  with lo show "\<not> (unat p \<le> x \<and> x < unat p + n)" by simp
next
  fix n
  show "n < os_vector_grow bump_os n" by (simp add: bump_os_def)
qed


lemma os_ok_grow: "os_ok os \<Longrightarrow> n < os_vector_grow os n"
  by (simp add: os_ok_def)

end
