(* ===== verification/Size_Tables.thy ===== *)
theory Size_Tables
  imports Virtual_Memory
begin

section \<open>Size classes and large span bins\<close>

text \<open>
  Models the compile-time tables: \<open>SizeClassConfig\<close> and \<open>LargeObjectConfig\<close> of
  \<open>size_divide/block.hpp\<close>, \<open>SizeClassTable\<close>, \<open>kNumSizeClasses\<close> and \<open>kClassSizes\<close>
  of \<open>small_object_allocator.hpp\<close>. The C++ loops over the thresholds and over the sizes
  1 to 4096 are recursions and folds with the same loop variables; the lemmas give the
  closed form of the class list and show that the index computed by arithmetic and the
  size computed by rounding name the same class.
\<close>

subsection \<open>Definitions\<close>

definition SMALL_LARGE_THRESHOLD :: u64 where
  "SMALL_LARGE_THRESHOLD = 4096"

definition SLAB_SIZE :: u64 where
  "SLAB_SIZE = 64 * 1024"

definition ALIGNMENT :: u64 where
  "ALIGNMENT = 16"

definition kNumBounds :: nat where
  "kNumBounds = 3"

definition thresholds :: "u64 list" where
  "thresholds = [256, 1024, SMALL_LARGE_THRESHOLD]"

definition alignments :: "u64 list" where
  "alignments = [16, 64, 256]"

fun max_cached_loop :: "u64 list \<Rightarrow> u64 \<Rightarrow> u64" where
  "max_cached_loop [] class_size = SMALL_LARGE_THRESHOLD div 2 * 1024"
| "max_cached_loop (t # ts) class_size =
     (if class_size \<le> t then t div 2 * 1024 else max_cached_loop ts class_size)"

definition max_cached_bytes_for_class :: "u64 \<Rightarrow> u64" where
  "max_cached_bytes_for_class class_size = max_cached_loop thresholds class_size"

text \<open>\<open>SizeClassTable::class_size\<close>.\<close>

fun class_size_loop :: "(u64 \<times> u64) list \<Rightarrow> u64 \<Rightarrow> u64" where
  "class_size_loop [] sz = align_up sz (alignments ! (kNumBounds - 1))"
| "class_size_loop ((t, a) # bs) sz = (if sz \<le> t then align_up sz a else class_size_loop bs sz)"

definition class_size :: "u64 \<Rightarrow> u64" where
  "class_size sz = class_size_loop (zip thresholds alignments) sz"

text \<open>\<open>SizeClassTable::class_index_for_size\<close>, which throws \<open>std::out_of_range\<close>.\<close>

definition class_index_for_size :: "u64 \<Rightarrow> u64 res" where
  "class_index_for_size sz =
    (let first_threshold = thresholds ! 0;
         second_threshold = thresholds ! 1;
         first_alignment = alignments ! 0;
         second_alignment = alignments ! 1;
         third_alignment = alignments ! 2;
         first_count = first_threshold div first_alignment;
         second_count = (second_threshold - first_threshold) div second_alignment;
         sz = (if sz = 0 then 1 else sz)
     in if sz \<le> first_threshold then
          Inr (align_up sz first_alignment div first_alignment - 1)
        else if sz \<le> second_threshold then
          Inr (first_count +
               (align_up sz second_alignment - first_threshold) div second_alignment - 1)
        else if sz \<le> SMALL_LARGE_THRESHOLD then
          Inr (first_count + second_count +
               (align_up sz third_alignment - second_threshold) div third_alignment - 1)
        else Inl Out_of_range)"

text \<open>The two compile-time loops over the sizes \<open>1 \<dots> SMALL_LARGE_THRESHOLD\<close>.\<close>

definition small_sizes :: "u64 list" where
  "small_sizes = map of_nat [1..<Suc (unat SMALL_LARGE_THRESHOLD)]"

definition count_step :: "u64 \<Rightarrow> nat \<times> u64 \<Rightarrow> nat \<times> u64" where
  "count_step s = (\<lambda>(count, prev).
     let cls = class_size s in if cls \<noteq> prev then (Suc count, cls) else (count, prev))"

definition count_distinct_size_classes :: nat where
  "count_distinct_size_classes = fst (fold count_step small_sizes (0, 0))"

definition kNumSizeClasses :: nat where
  "kNumSizeClasses = count_distinct_size_classes"

definition collect_step :: "u64 \<Rightarrow> u64 list \<times> u64 \<Rightarrow> u64 list \<times> u64" where
  "collect_step s = (\<lambda>(arr, prev).
     let cls = class_size s in if cls \<noteq> prev then (arr @ [cls], cls) else (arr, prev))"

definition kClassSizes :: "u64 list" where
  "kClassSizes = fst (fold collect_step small_sizes ([], 0))"

text \<open>\<open>LargeObjectConfig\<close>.\<close>

definition kLargeBinSizes :: "u64 list" where
  "kLargeBinSizes =
    [8 * 1024, 12 * 1024, 16 * 1024, 24 * 1024, 32 * 1024, 48 * 1024, 64 * 1024, 96 * 1024,
     128 * 1024, 192 * 1024, 256 * 1024, 384 * 1024, 512 * 1024, 768 * 1024, 1024 * 1024,
     2 * 1024 * 1024]"

definition kNumLargeBins :: nat where
  "kNumLargeBins = length kLargeBinSizes"

definition kMaxSpansPerLargeBin :: nat where
  "kMaxSpansPerLargeBin = 8"

definition kMaxLargeCachedSpans :: nat where
  "kMaxLargeCachedSpans = kNumLargeBins * kMaxSpansPerLargeBin"

definition kMaxLargeCacheBytes :: u64 where
  "kMaxLargeCacheBytes = 64 * 1024 * 1024"

definition kLargeBinSearchLimit :: nat where
  "kLargeBinSearchLimit = 3"

definition npos :: u64 where
  "npos = size_max"

definition large_class_size_for :: "u64 \<Rightarrow> u64" where
  "large_class_size_for required_size =
    (if required_size \<le> 8 * 1024 then 8 * 1024
     else if required_size \<le> 12 * 1024 then 12 * 1024
     else if required_size \<le> 16 * 1024 then 16 * 1024
     else if required_size \<le> 24 * 1024 then 24 * 1024
     else if required_size \<le> 32 * 1024 then 32 * 1024
     else if required_size \<le> 48 * 1024 then 48 * 1024
     else if required_size \<le> 64 * 1024 then 64 * 1024
     else if required_size \<le> 96 * 1024 then 96 * 1024
     else if required_size \<le> 128 * 1024 then 128 * 1024
     else if required_size \<le> 192 * 1024 then 192 * 1024
     else if required_size \<le> 256 * 1024 then 256 * 1024
     else if required_size \<le> 384 * 1024 then 384 * 1024
     else if required_size \<le> 512 * 1024 then 512 * 1024
     else if required_size \<le> 768 * 1024 then 768 * 1024
     else if required_size \<le> 1024 * 1024 then 1024 * 1024
     else if required_size \<le> 2 * 1024 * 1024 then 2 * 1024 * 1024
     else required_size)"

definition bin_index_for :: "u64 \<Rightarrow> u64" where
  "bin_index_for span_size =
    (if span_size = 8 * 1024 then 0
     else if span_size = 12 * 1024 then 1
     else if span_size = 16 * 1024 then 2
     else if span_size = 24 * 1024 then 3
     else if span_size = 32 * 1024 then 4
     else if span_size = 48 * 1024 then 5
     else if span_size = 64 * 1024 then 6
     else if span_size = 96 * 1024 then 7
     else if span_size = 128 * 1024 then 8
     else if span_size = 192 * 1024 then 9
     else if span_size = 256 * 1024 then 10
     else if span_size = 384 * 1024 then 11
     else if span_size = 512 * 1024 then 12
     else if span_size = 768 * 1024 then 13
     else if span_size = 1024 * 1024 then 14
     else if span_size = 2 * 1024 * 1024 then 15
     else npos)"


subsection \<open>Closed forms\<close>

lemmas size_consts =
  SMALL_LARGE_THRESHOLD_def SLAB_SIZE_def ALIGNMENT_def kNumBounds_def thresholds_def alignments_def

lemma SLAB_SIZE_unat [simp]: "unat SLAB_SIZE = 65536"
  by (simp add: SLAB_SIZE_def)

lemma SLAB_SIZE_nz [simp]: "SLAB_SIZE \<noteq> 0"
  by (simp add: SLAB_SIZE_def)

text \<open>The class of a size in \<open>1 \<dots> 4096\<close>, on the naturals.\<close>

definition nat_class :: "nat \<Rightarrow> nat" where
  "nat_class n = (if n \<le> 256 then round_up n 16 else if n \<le> 1024 then round_up n 64 else round_up n 256)"

lemma unat_class_size:
  "unat sz \<le> 4096 \<Longrightarrow> unat (class_size sz) = nat_class (unat sz)"
  by (simp add: class_size_def size_consts nat_class_def word_le_nat_alt unat_align_up)

lemma nat_class_ge: "n \<le> nat_class n"
  by (simp add: nat_class_def round_up_ge)

lemma nat_class_le: "n \<le> 4096 \<Longrightarrow> nat_class n \<le> 4096"
  by (auto simp: nat_class_def intro: round_up_least order_trans [OF round_up_least, of _ 256]
      order_trans [OF round_up_least, of _ 1024])

lemma nat_class_waste: "0 < n \<Longrightarrow> nat_class n < n + 256"
  using round_up_less [of 16 n] round_up_less [of 64 n] round_up_less [of 256 n]
  by (auto simp: nat_class_def)

lemma nat_class_dvd: "16 dvd nat_class n"
proof -
  have "16 dvd round_up n 64" "16 dvd round_up n 256"
    by (rule dvd_trans [OF _ round_up_dvd]; simp)+
  then show ?thesis by (simp add: nat_class_def)
qed

text \<open>A band of sizes above \<open>a\<close> in which the classes are \<open>d\<close> apart.\<close>

definition band :: "nat \<Rightarrow> nat \<Rightarrow> nat \<Rightarrow> bool" where
  "band a d k \<longleftrightarrow> 0 < d \<and> a + d * k \<le> 4096 \<and>
     (\<forall>i<k. \<forall>n. a + d * i < n \<and> n \<le> a + d * Suc i \<longrightarrow> nat_class n = a + d * Suc i)"

lemma class_size_of_nat:
  assumes "nat_class n = c" and "n \<le> 4096"
  shows "class_size (of_nat n) = of_nat c"
proof -
  have "unat (of_nat n :: u64) = n" using assms(2) by (simp add: unat_of_nat_u64)
  then have "unat (class_size (of_nat n)) = c"
    using assms by (simp add: unat_class_size)
  then show ?thesis by (metis of_nat_unat ucast_id)
qed

lemma fold_collect_same:
  assumes "\<forall>s\<in>set ss. class_size s = c" and "ss \<noteq> []" and "p \<noteq> c"
  shows "fold collect_step ss (arr, p) = (arr @ [c], c)"
proof -
  have stay: "\<forall>s\<in>set ts. class_size s = c \<Longrightarrow> fold collect_step ts (arr', c) = (arr', c)" for ts arr'
    by (induction ts) (simp_all add: collect_step_def)
  from assms show ?thesis
    by (cases ss) (simp_all add: collect_step_def stay)
qed

lemma upt_split:
  assumes "a \<le> l" and "l \<le> h"
  shows "[Suc a..<Suc h] = [Suc a..<Suc l] @ [Suc l..<Suc h]"
proof -
  have "Suc l + (h - l) = Suc h" using assms by simp
  with upt_add_eq_append [of "Suc a" "Suc l" "h - l"] assms show ?thesis by simp
qed

lemma fold_collect_band:
  assumes "band a d k"
  shows "fold collect_step (map of_nat [Suc a..<Suc (a + d * k)]) (arr, of_nat a) =
    (arr @ map (\<lambda>i. of_nat (a + d * Suc i)) [0..<k], of_nat (a + d * k))"
  using assms
proof (induction k)
  case 0
  then show ?case by simp
next
  case (Suc k)
  have d: "0 < d" and top: "a + d * Suc k \<le> 4096"
    and cls: "\<forall>n. a + d * k < n \<and> n \<le> a + d * Suc k \<longrightarrow> nat_class n = a + d * Suc k"
    using Suc.prems by (auto simp: band_def)
  have "a + d * k \<le> a + d * Suc k" by simp
  with top have le: "a + d * k \<le> 4096" by (rule le_trans [rotated])
  with Suc.prems have "band a d k" by (simp add: band_def)
  note IH = Suc.IH [OF this]
  define l where "l = a + d * k"
  define h where "h = a + d * Suc k"
  have lh: "a \<le> l" "l < h" using d by (simp_all add: l_def h_def)
  have cls': "class_size (of_nat n) = of_nat h" if "l < n" "n \<le> h" for n
    using that cls top by (intro class_size_of_nat) (simp_all add: l_def h_def)
  have seg: "\<forall>s\<in>set (map of_nat [Suc l..<Suc h]). class_size s = (of_nat h :: u64)"
    using cls' by (auto simp del: upt_Suc)
  have nonempty: "map of_nat [Suc l..<Suc h] \<noteq> ([] :: u64 list)"
    using lh by simp
  have "unat (of_nat l :: u64) \<noteq> unat (of_nat h :: u64)"
    using lh top [folded h_def] le [folded l_def] by (simp add: unat_of_nat_u64)
  then have ne: "(of_nat l :: u64) \<noteq> of_nat h" by metis
  have "fold collect_step (map of_nat [Suc a..<Suc h]) (arr, of_nat a) =
      (arr @ map (\<lambda>i. of_nat (a + d * Suc i)) [0..<k] @ [of_nat h], of_nat h)"
    unfolding upt_split [OF lh(1) less_imp_le [OF lh(2)]] map_append fold_append comp_apply
      IH [folded l_def] fold_collect_same [OF seg nonempty ne]
    by simp
  then show ?case by (simp add: h_def)
qed

lemma nat_class_band:
  assumes "0 < d" and "a + d * i < n" and "n \<le> a + d * Suc i" and "d dvd a"
  shows "round_up n d = a + d * Suc i"
proof (rule le_antisym)
  show "round_up n d \<le> a + d * Suc i"
    using assms by (intro round_up_least) auto
  show "a + d * Suc i \<le> round_up n d"
  proof (rule ccontr)
    assume less: "\<not> ?thesis"
    obtain j where j: "round_up n d = d * j" using round_up_dvd by blast
    obtain b where b: "a = d * b" using assms(4) by blast
    have "d * (b + i) < d * j"
      using round_up_ge [OF assms(1), of n] assms(2) by (simp add: j b distrib_left)
    then have "b + i < j" using assms(1) by simp
    then have "d * (b + i + 1) \<le> d * j" by (intro mult_le_mono2) simp
    with less show False by (simp add: j b algebra_simps)
  qed
qed

lemma bands: "band 0 16 16" "band 256 64 12" "band 1024 256 12"
proof -
  have step: "n \<le> a + d * k" if "n \<le> a + d * Suc i" "i < k" for n a d i k :: nat
  proof -
    have "d * Suc i \<le> d * k" using that(2) by (intro mult_le_mono2) simp
    with that(1) show ?thesis by simp
  qed
  show "band 0 16 16"
    using step [of _ 0 16 _ 16] nat_class_band [of 16 0]
    by (fastforce simp: band_def nat_class_def)
  show "band 256 64 12"
    using step [of _ 256 64 _ 12] nat_class_band [of 64 256]
    by (fastforce simp: band_def nat_class_def)
  show "band 1024 256 12"
    using step [of _ 1024 256 _ 12] nat_class_band [of 256 1024]
    by (fastforce simp: band_def nat_class_def)
qed

text \<open>The closed form of the class list: 16, 32, \<open>\<dots>\<close>, 256, 320, \<open>\<dots>\<close>, 1024, 1280, \<open>\<dots>\<close>, 4096.\<close>

lemma kClassSizes_closed:
  "kClassSizes =
     map (\<lambda>i. of_nat (16 * Suc i)) [0..<16] @
     map (\<lambda>i. of_nat (256 + 64 * Suc i)) [0..<12] @
     map (\<lambda>i. of_nat (1024 + 256 * Suc i)) [0..<12]"
proof -
  have e: "Suc (0 + 16 * 16) = Suc 256" "Suc (256 + 64 * 12) = Suc 1024"
    "Suc (1024 + 256 * 12) = Suc 4096" "unat SMALL_LARGE_THRESHOLD = 4096" "1 = Suc 0"
    by (simp_all add: SMALL_LARGE_THRESHOLD_def)
  have l: "0 \<le> (256 :: nat)" "256 \<le> (1024 :: nat)" "256 \<le> (4096 :: nat)" "1024 \<le> (4096 :: nat)"
    by simp_all
  have a: "small_sizes = map of_nat [Suc 0..<Suc (0 + 16 * 16)] @
      map of_nat [Suc 256..<Suc (256 + 64 * 12)] @ map of_nat [Suc 1024..<Suc (1024 + 256 * 12)]"
    unfolding small_sizes_def e map_append [symmetric]
      upt_split [OF l(1) l(3)] upt_split [OF l(2) l(4)] ..
  note b = fold_collect_band [OF bands(1), of "[]"]
    fold_collect_band [OF bands(2)] fold_collect_band [OF bands(3)]
  have n: "0 + 16 * 16 = (256 :: nat)" "256 + 64 * 12 = (1024 :: nat)" by simp_all
  have z: "([], 0 :: u64) = ([], of_nat 0)" by simp
  show ?thesis
    unfolding kClassSizes_def a fold_append comp_apply z b(1) [unfolded n] b(2) [unfolded n] b(3) n
    by (simp only: fst_conv append_Nil append_assoc add_0)
qed

lemma count_collect:
  "fold count_step ss (length arr, p) =
     (length (fst (fold collect_step ss (arr, p))), snd (fold collect_step ss (arr, p)))"
proof (induction ss arbitrary: arr p)
  case Nil
  then show ?case by simp
next
  case (Cons s ss)
  from Cons [of "arr @ [class_size s]" "class_size s"] Cons [of arr p]
  show ?case
    by (cases "class_size s = p") (simp_all add: count_step_def [of s] collect_step_def [of s] Let_def)
qed

lemma kNumSizeClasses_length: "kNumSizeClasses = length kClassSizes"
  using count_collect [of small_sizes "[]" 0]
  by (simp add: kNumSizeClasses_def count_distinct_size_classes_def kClassSizes_def)

lemma kNumSizeClasses_40 [simp]: "kNumSizeClasses = 40"
  by (simp add: kNumSizeClasses_length kClassSizes_closed)

lemma length_kClassSizes [simp]: "length kClassSizes = 40"
  using kNumSizeClasses_length by simp

lemma kClassSizes_list:
  "map unat kClassSizes =
    [16, 32, 48, 64, 80, 96, 112, 128, 144, 160, 176, 192, 208, 224, 240, 256,
     320, 384, 448, 512, 576, 640, 704, 768, 832, 896, 960, 1024,
     1280, 1536, 1792, 2048, 2304, 2560, 2816, 3072, 3328, 3584, 3840, 4096]"
  by (simp add: kClassSizes_closed upt_rec comp_def)

text \<open>The class of an index, on the naturals.\<close>

definition nat_size_of_class :: "nat \<Rightarrow> nat" where
  "nat_size_of_class i =
     (if i < 16 then 16 * (i + 1) else if i < 28 then 256 + 64 * (i - 15) else 1024 + 256 * (i - 27))"

lemma unat_kClassSizes_nth: "i < 40 \<Longrightarrow> unat (kClassSizes ! i) = nat_size_of_class i"
  by (auto simp: kClassSizes_closed nth_append nat_size_of_class_def unat_of_nat_u64
      simp del: of_nat_add of_nat_mult of_nat_Suc)

subsection \<open>Index and size agree\<close>

definition nat_index :: "nat \<Rightarrow> nat" where
  "nat_index n =
     (if n \<le> 256 then round_up n 16 div 16 - 1
      else if n \<le> 1024 then 16 + (round_up n 64 - 256) div 64 - 1
      else 28 + (round_up n 256 - 1024) div 256 - 1)"

lemma class_index_for_size_0: "class_index_for_size 0 = class_index_for_size 1"
  by (simp add: class_index_for_size_def Let_def)

lemma class_index_error: "4096 < unat sz \<Longrightarrow> class_index_for_size sz = Inl Out_of_range"
  by (auto simp: class_index_for_size_def Let_def size_consts word_le_nat_alt)


lemma nat_class_bands:
  assumes "0 < n" and "n \<le> 4096"
  obtains q where "n \<le> 256" "round_up n 16 = 16 * q" "1 \<le> q" "q \<le> 16"
  | q where "256 < n" "n \<le> 1024" "round_up n 64 = 64 * q" "5 \<le> q" "q \<le> 16"
  | q where "1024 < n" "round_up n 256 = 256 * q" "5 \<le> q" "q \<le> 16"
proof -
  consider "n \<le> 256" | "256 < n" "n \<le> 1024" | "1024 < n" by linarith
  then show thesis
  proof cases
    case 1
    obtain q where q: "round_up n 16 = 16 * q" using round_up_dvd by blast
    show thesis
      using that(1) [OF 1 q] round_up_least [of 16 256 n] round_up_pos [of 16 n] assms 1 q by simp
  next
    case 2
    obtain q where q: "round_up n 64 = 64 * q" using round_up_dvd by blast
    show thesis
      using that(2) [OF 2 q] round_up_least [of 64 1024 n] round_up_ge [of 64 n] 2 q by simp
  next
    case 3
    obtain q where q: "round_up n 256 = 256 * q" using round_up_dvd by blast
    show thesis
      using that(3) [OF 3 q] round_up_least [of 256 4096 n] round_up_ge [of 256 n] assms 3 q by simp
  qed
qed

lemma nat_index_correct:
  assumes "0 < n" and "n \<le> 4096"
  shows "nat_index n < 40" and "nat_size_of_class (nat_index n) = nat_class n"
proof -
  have "nat_index n < 40 \<and> nat_size_of_class (nat_index n) = nat_class n"
  proof (cases rule: nat_class_bands [OF assms])
    case (1 q)
    then have "nat_index n = q - 1" and "nat_class n = 16 * q"
      by (simp_all add: nat_index_def nat_class_def)
    with 1 show ?thesis by (simp add: nat_size_of_class_def) linarith
  next
    case (2 q)
    then have "nat_index n = q + 11" and "nat_class n = 64 * q"
      using diff_mult_distrib2 [of 64 q 4] by (simp_all add: nat_index_def nat_class_def)
    with 2 show ?thesis by (simp add: nat_size_of_class_def)
  next
    case (3 q)
    then have "nat_index n = q + 23" and "nat_class n = 256 * q"
      using diff_mult_distrib2 [of 256 q 4] by (simp_all add: nat_index_def nat_class_def)
    with 3 show ?thesis by (simp add: nat_size_of_class_def)
  qed
  then show "nat_index n < 40" and "nat_size_of_class (nat_index n) = nat_class n" by simp_all
qed

lemma class_index_for_size_Inr:
  assumes "0 < unat sz" and "unat sz \<le> 4096"
  shows "\<exists>i. class_index_for_size sz = Inr i \<and> unat i = nat_index (unat sz)"
  using assms
proof (cases rule: nat_class_bands [OF assms])
  case (1 q)
  then show ?thesis
    using assms
    by (auto simp: class_index_for_size_def Let_def size_consts word_le_nat_alt nat_index_def
        unat_align_up unat_sub_u64 unat_div)
next
  case (2 q)
  then show ?thesis
    using assms
    by (auto simp: class_index_for_size_def Let_def size_consts word_le_nat_alt nat_index_def
        unat_align_up unat_sub_u64 unat_div unat_add_u64)
next
  case (3 q)
  then show ?thesis
    using assms
    by (auto simp: class_index_for_size_def Let_def size_consts word_le_nat_alt nat_index_def
        unat_align_up unat_sub_u64 unat_div unat_add_u64)
qed


lemma class_index_for_size_kClass:
  assumes "unat sz \<le> 4096"
  shows "\<exists>i. class_index_for_size sz = Inr i \<and> unat i < 40 \<and>
           kClassSizes ! unat i = class_size (if sz = 0 then 1 else sz)"
proof -
  define s where "s = (if sz = 0 then 1 else sz)"
  have s: "0 < unat s" "unat s \<le> 4096" "class_index_for_size s = class_index_for_size sz"
    using assms by (auto simp: s_def class_index_for_size_0 unat_gt_0)
  obtain i where i: "class_index_for_size s = Inr i" "unat i = nat_index (unat s)"
    using class_index_for_size_Inr [OF s(1,2)] by blast
  have "unat (kClassSizes ! unat i) = unat (class_size s)"
    using nat_index_correct [OF s(1,2)] s by (simp add: i(2) unat_kClassSizes_nth unat_class_size)
  then have "kClassSizes ! unat i = class_size s" by (simp add: ptr_eq_iff_unat)
  moreover have "class_index_for_size sz = Inr i" using i(1) s(3) by simp
  moreover have "unat i < 40" using i(2) nat_index_correct(1) [OF s(1,2)] by simp
  ultimately show ?thesis unfolding s_def by blast
qed

lemma class_size_ge:
  assumes "0 < unat sz" and "unat sz \<le> 4096"
  shows "sz \<le> class_size sz"
  using assms by (simp add: unat_class_size nat_class_ge word_le_nat_alt)

lemma sorted_kClassSizes: "sorted_wrt (<) (map unat kClassSizes)"
  by (simp add: kClassSizes_list)

lemma kClassSizes_mono: "i < j \<Longrightarrow> j < 40 \<Longrightarrow> unat (kClassSizes ! i) < unat (kClassSizes ! j)"
  using sorted_wrt_nth_less [OF sorted_kClassSizes, of i j] by simp

lemma kClassSizes_inj: "i < 40 \<Longrightarrow> j < 40 \<Longrightarrow> kClassSizes ! i = kClassSizes ! j \<Longrightarrow> i = j"
  using kClassSizes_mono [of i j] kClassSizes_mono [of j i] by (cases i j rule: linorder_cases) auto

lemma kClassSizes_bounds:
  assumes "i < 40"
  shows "16 \<le> unat (kClassSizes ! i)" and "unat (kClassSizes ! i) \<le> 4096"
    and "16 dvd unat (kClassSizes ! i)"
proof -
  have "\<forall>c\<in>set (map unat kClassSizes). 16 \<le> c \<and> c \<le> 4096 \<and> 16 dvd c"
    unfolding kClassSizes_list by simp
  then show "16 \<le> unat (kClassSizes ! i)" "unat (kClassSizes ! i) \<le> 4096"
    "16 dvd unat (kClassSizes ! i)"
    using assms by (simp_all add: set_conv_nth) auto
qed

lemma class_size_kClassSizes:
  assumes "i < 40"
  shows "class_size (kClassSizes ! i) = kClassSizes ! i"
proof -
  have "\<forall>c\<in>set (map unat kClassSizes). nat_class c = c"
    unfolding kClassSizes_list by (simp add: nat_class_def round_up_id)
  then have "nat_class (unat (kClassSizes ! i)) = unat (kClassSizes ! i)"
    using assms by simp
  then show ?thesis
    using kClassSizes_bounds [OF assms] by (simp add: ptr_eq_iff_unat unat_class_size)
qed

lemma class_index_of_class:
  assumes "j < 40"
  shows "class_index_for_size (kClassSizes ! j) = Inr (of_nat j)"
proof -
  obtain i where i: "class_index_for_size (kClassSizes ! j) = Inr i" "unat i < 40"
    "kClassSizes ! unat i = class_size (if kClassSizes ! j = 0 then 1 else kClassSizes ! j)"
    using class_index_for_size_kClass [of "kClassSizes ! j"] kClassSizes_bounds [OF assms] by blast
  have "kClassSizes ! j \<noteq> 0" using kClassSizes_bounds(1) [OF assms] by auto
  with i have "kClassSizes ! unat i = kClassSizes ! j"
    by (simp add: class_size_kClassSizes assms)
  then have "unat i = j" using i(2) assms kClassSizes_inj by blast
  then have "i = of_nat j" by auto
  with i(1) show ?thesis by simp
qed

lemma class_size_least:
  assumes "0 < unat sz" and "unat sz \<le> 4096" and "c \<in> set kClassSizes" and "sz \<le> c"
  shows "class_size sz \<le> c"
proof -
  from assms(3) obtain j where j: "j < 40" "c = kClassSizes ! j"
    by (metis in_set_conv_nth length_kClassSizes)
  have mono: "nat_class a \<le> nat_class b" if "a \<le> b" "b \<le> 4096" for a b
  proof -
    have "round_up a 16 \<le> round_up b 64" "round_up a 16 \<le> round_up b 256"
      "round_up a 64 \<le> round_up b 256"
      using that round_up_ge [of 64 b] round_up_ge [of 256 b]
      by (auto intro!: round_up_least dvd_trans [OF _ round_up_dvd])
    with that show ?thesis by (auto simp: nat_class_def round_up_mono)
  qed
  have "unat c \<le> 4096" using kClassSizes_bounds(2) [OF j(1)] j(2) by simp
  with mono [of "unat sz" "unat c"] assms have "unat (class_size sz) \<le> unat (class_size c)"
    by (simp add: unat_class_size word_le_nat_alt)
  then show ?thesis by (simp add: j class_size_kClassSizes word_le_nat_alt)
qed

subsection \<open>Large span classes and bins\<close>

lemma kLargeBinSizes_list:
  "map unat kLargeBinSizes =
    [8192, 12288, 16384, 24576, 32768, 49152, 65536, 98304, 131072, 196608, 262144, 393216,
     524288, 786432, 1048576, 2097152]"
  by (simp add: kLargeBinSizes_def)

lemma length_kLargeBinSizes [simp]: "length kLargeBinSizes = 16"
  by (simp add: kLargeBinSizes_def)

lemma kNumLargeBins_16 [simp]: "kNumLargeBins = 16"
  by (simp add: kNumLargeBins_def)

lemma bin_index_for_cases:
  "bin_index_for s = npos \<and> s \<notin> set kLargeBinSizes \<or>
   unat (bin_index_for s) < 16 \<and> bin_index_for s \<noteq> npos \<and> kLargeBinSizes ! unat (bin_index_for s) = s"
  by (simp add: bin_index_for_def kLargeBinSizes_def npos_def)

lemma bin_index_for_nth:
  assumes "i < 16"
  shows "bin_index_for (kLargeBinSizes ! i) = of_nat i"
proof -
  have "map bin_index_for kLargeBinSizes = map of_nat [0..<16]"
    by (simp add: kLargeBinSizes_def bin_index_for_def upt_rec)
  then have "map bin_index_for kLargeBinSizes ! i = map of_nat [0..<16] ! i" by simp
  with assms show ?thesis by simp
qed

lemma large_class_size_for_ge: "x \<le> large_class_size_for x"
  by (simp add: large_class_size_for_def)

lemma large_class_size_for_bin: "x \<le> 2097152 \<Longrightarrow> large_class_size_for x \<in> set kLargeBinSizes"
  by (simp add: large_class_size_for_def kLargeBinSizes_def)

lemma large_class_size_for_huge: "2097152 < x \<Longrightarrow> large_class_size_for x = x"
  by (auto simp: large_class_size_for_def word_le_nat_alt word_less_nat_alt)

end
