(* ===== verification/Block_List.thy ===== *)
theory Block_List
  imports Size_Tables
begin

section \<open>Block headers and the lists threaded through free blocks\<close>

text \<open>
  Models \<open>pointer_utils\<close> and \<open>BlockHeader\<close> of \<open>size_divide/block.hpp\<close>: the 32-byte
  header that stands immediately below every user pointer. A free block stores the
  pointer to the next one in the first word of its user area; slabs, foreign free lists
  and thread caches all thread their lists through that word. The locale
  \<open>linked_store\<close> is the interface such a list needs, interpreted on that word.
\<close>

subsection \<open>Definitions\<close>

definition add_bytes :: "ptr \<Rightarrow> u64 \<Rightarrow> ptr" where
  "add_bytes p offset = p + offset"

definition sub_bytes :: "ptr \<Rightarrow> u64 \<Rightarrow> ptr" where
  "sub_bytes p offset = p - offset"

definition sizeof_BlockHeader :: u64 where
  "sizeof_BlockHeader = 32"

definition from_user_ptr :: "ptr \<Rightarrow> ptr" where
  "from_user_ptr p = sub_bytes p sizeof_BlockHeader"

definition to_user_ptr :: "ptr \<Rightarrow> ptr" where
  "to_user_ptr header = add_bytes header sizeof_BlockHeader"

text \<open>The fields, at their offsets in the struct.\<close>

definition bh_node_id :: "mem \<Rightarrow> ptr \<Rightarrow> u32" where
  "bh_node_id m h = load32 m h"

definition bh_size_class :: "mem \<Rightarrow> ptr \<Rightarrow> u32" where
  "bh_size_class m h = load32 m (h + 4)"

definition bh_size :: "mem \<Rightarrow> ptr \<Rightarrow> u64" where
  "bh_size m h = load64 m (h + 8)"

definition bh_raw_ptr :: "mem \<Rightarrow> ptr \<Rightarrow> ptr" where
  "bh_raw_ptr m h = load64 m (h + 16)"

definition bh_total_size :: "mem \<Rightarrow> ptr \<Rightarrow> u64" where
  "bh_total_size m h = load64 m (h + 24)"

definition set_bh_node_id :: "ptr \<Rightarrow> u32 \<Rightarrow> mem \<Rightarrow> mem" where
  "set_bh_node_id h v m = store32 m h v"

definition set_bh_size_class :: "ptr \<Rightarrow> u32 \<Rightarrow> mem \<Rightarrow> mem" where
  "set_bh_size_class h v m = store32 m (h + 4) v"

definition set_bh_size :: "ptr \<Rightarrow> u64 \<Rightarrow> mem \<Rightarrow> mem" where
  "set_bh_size h v m = store64 m (h + 8) v"

definition set_bh_raw_ptr :: "ptr \<Rightarrow> ptr \<Rightarrow> mem \<Rightarrow> mem" where
  "set_bh_raw_ptr h v m = store64 m (h + 16) v"

definition set_bh_total_size :: "ptr \<Rightarrow> u64 \<Rightarrow> mem \<Rightarrow> mem" where
  "set_bh_total_size h v m = store64 m (h + 24) v"

text \<open>The link of a free block: \<open>*reinterpret_cast<void**>(header->to_user_ptr())\<close>.\<close>

definition next_link :: "mem \<Rightarrow> ptr \<Rightarrow> ptr" where
  "next_link m h = load64 m (to_user_ptr h)"

definition set_next_link :: "ptr \<Rightarrow> ptr \<Rightarrow> mem \<Rightarrow> mem" where
  "set_next_link h v m = store64 m (to_user_ptr h) v"

subsection \<open>Chains\<close>

text \<open>\<open>chain nx p xs\<close>: starting at \<open>p\<close> and following \<open>nx\<close>, the nodes are \<open>xs\<close> and
  the last link is null. \<open>walk\<close> is the list met in at most \<open>n\<close> steps.\<close>

primrec chain :: "(ptr \<Rightarrow> ptr) \<Rightarrow> ptr \<Rightarrow> ptr list \<Rightarrow> bool" where
  "chain nx p [] = (p = nullptr)"
| "chain nx p (x # xs) = (p = x \<and> x \<noteq> nullptr \<and> chain nx (nx x) xs)"

primrec walk :: "(ptr \<Rightarrow> ptr) \<Rightarrow> ptr \<Rightarrow> nat \<Rightarrow> ptr list" where
  "walk nx p 0 = []"
| "walk nx p (Suc n) = (if p = nullptr then [] else p # walk nx (nx p) n)"

lemma chain_cong: "(\<And>x. x \<in> set xs \<Longrightarrow> nx' x = nx x) \<Longrightarrow> chain nx' p xs = chain nx p xs"
  by (induction xs arbitrary: p) auto

lemma chain_null [simp]: "chain nx 0 xs \<longleftrightarrow> xs = []"
  by (cases xs) auto

lemma chain_not_null: "p \<noteq> 0 \<Longrightarrow> chain nx p xs \<longleftrightarrow> (\<exists>ys. xs = p # ys \<and> chain nx (nx p) ys)"
  by (cases xs) auto

lemma chain_unique: "chain nx p xs \<Longrightarrow> chain nx p ys \<Longrightarrow> xs = ys"
  by (induction xs arbitrary: p ys) (auto simp: chain_not_null)

lemma chain_nonnull: "chain nx p xs \<Longrightarrow> x \<in> set xs \<Longrightarrow> x \<noteq> 0"
  by (induction xs arbitrary: p) auto

lemma chain_head: "chain nx p xs \<Longrightarrow> p \<noteq> 0 \<Longrightarrow> xs \<noteq> [] \<and> hd xs = p"
  by (cases xs) auto

lemma walk_chain: "chain nx p xs \<Longrightarrow> length xs \<le> n \<Longrightarrow> walk nx p n = xs"
proof (induction xs arbitrary: p n)
  case Nil
  then show ?case by (cases n) auto
next
  case (Cons x xs)
  then show ?case by (cases n) auto
qed

text \<open>A chain never repeats a node: a repeated node would have to be followed by two
  chains of different length.\<close>

lemma chain_append: "chain nx p (xs @ ys) \<Longrightarrow> \<exists>q. chain nx q ys"
  by (induction xs arbitrary: p) auto

lemma chain_distinct: "chain nx p xs \<Longrightarrow> distinct xs"
proof (induction xs arbitrary: p)
  case Nil
  then show ?case by simp
next
  case (Cons x xs)
  have "x \<notin> set xs"
  proof
    assume "x \<in> set xs"
    then obtain as bs where xs: "xs = as @ x # bs" by (auto dest: split_list)
    with Cons.prems obtain q where "chain nx q (x # bs)"
      using chain_append [of nx "nx x" as "x # bs"] by auto
    then have "chain nx (nx x) bs" by simp
    moreover have "chain nx (nx x) xs" using Cons.prems by simp
    ultimately have "bs = xs" by (rule chain_unique)
    with xs show False by simp
  qed
  then show ?case using Cons.IH [of "nx x"] Cons.prems by simp
qed

subsection \<open>The interface of a threaded list\<close>

text \<open>
  Pushing writes the link of the new node alone, so it keeps every list whose links are
  apart from it; popping only reads.
\<close>

locale linked_store =
  fixes link :: "mem \<Rightarrow> ptr \<Rightarrow> ptr"
    and set_link :: "ptr \<Rightarrow> ptr \<Rightarrow> mem \<Rightarrow> mem"
    and cell :: "ptr \<Rightarrow> nat set"
  assumes link_set_same: "link (set_link x v m) x = v"
    and link_local: "agree_on (cell x) m m' \<Longrightarrow> link m' x = link m x"
    and set_link_local: "b \<notin> cell x \<Longrightarrow> set_link x v m b = m b"
begin

lemma chain_frame:
  assumes "\<And>x. x \<in> set xs \<Longrightarrow> agree_on (cell x) m m'"
  shows "chain (link m') p xs = chain (link m) p xs"
  using assms by (intro chain_cong link_local)

lemma set_link_agree: "A \<inter> cell x = {} \<Longrightarrow> agree_on A m (set_link x v m)"
  by (auto intro!: agree_onI set_link_local)

lemma chain_push:
  assumes "chain (link m) p xs" and "x \<noteq> nullptr"
    and "\<And>y. y \<in> set xs \<Longrightarrow> cell y \<inter> cell x = {}"
  shows "chain (link (set_link x p m)) x (x # xs)"
proof -
  have "chain (link (set_link x p m)) p xs"
    using assms(1) chain_frame [of xs m "set_link x p m" p] assms(3) by (simp add: set_link_agree)
  then show ?thesis using assms(2) by (simp add: link_set_same)
qed

lemma chain_pop:
  assumes "chain (link m) p xs" and "p \<noteq> nullptr"
  shows "xs = p # tl xs \<and> chain (link m) (link m p) (tl xs)"
  using assms by (cases xs) auto

end

interpretation fl: linked_store next_link set_next_link "\<lambda>h. bytes_of (to_user_ptr h) 8"
  by unfold_locales
    (auto simp: next_link_def set_next_link_def intro: s64.get_local s64.put_local)

lemmas header_field_defs =
  bh_node_id_def bh_size_class_def bh_size_def bh_raw_ptr_def bh_total_size_def
  set_bh_node_id_def set_bh_size_class_def set_bh_size_def set_bh_raw_ptr_def
  set_bh_total_size_def next_link_def set_next_link_def

lemmas user_ptr_defs =
  add_bytes_def sub_bytes_def sizeof_BlockHeader_def from_user_ptr_def to_user_ptr_def

lemma from_to_user_ptr [simp]: "from_user_ptr (to_user_ptr h) = h"
  by (simp add: user_ptr_defs)

lemma to_from_user_ptr [simp]: "to_user_ptr (from_user_ptr p) = p"
  by (simp add: user_ptr_defs)

subsection \<open>Bytes of adjacent fields\<close>

lemma unat_plus_offset:
  "unat (p :: u64) + k < 18446744073709551616 \<Longrightarrow> unat (p + of_nat k) = unat p + k"
  by (simp add: unat_add_u64 unat_of_nat_u64)

lemma unat_plus_numeral:
  "unat (p :: u64) + numeral k < 18446744073709551616 \<Longrightarrow> unat (p + numeral k) = unat p + numeral k"
  using unat_plus_offset [of p "numeral k"] by simp

lemma bytes_of_offset:
  "unat p + numeral k < 18446744073709551616 \<Longrightarrow>
   bytes_of (p + numeral k) n = {unat p + numeral k ..< unat p + numeral k + n}"
  by (simp add: bytes_of_def unat_plus_numeral)


lemma bytes_apart:
  "unat p + n \<le> unat q \<or> unat q + k \<le> unat p \<Longrightarrow> bytes_of p n \<inter> bytes_of q k = {}"
  by (auto simp: bytes_of_def)

end
