(* ===== verification/Slab.thy ===== *)
theory Slab
  imports Block_List
begin

section \<open>Slabs\<close>

text \<open>
  Models class \<open>Slab\<close> of \<open>size_divide/small_object\<close>: a 64 KB region of equal blocks with
  its header at the base and its free list threaded through the free blocks. The operations
  act on the bytes of the slab. \<open>slab_ok\<close> ties those bytes to the list of free blocks; the
  lemmas give each operation's effect on that list and the bytes it may touch, which never
  include the user area of a block that is in use.
\<close>

subsection \<open>The header\<close>

definition sizeof_SlabHeader :: u64 where
  "sizeof_SlabHeader = 24"

definition sh_node_id :: "mem \<Rightarrow> ptr \<Rightarrow> u32" where
  "sh_node_id m s = load32 m s"

definition sh_block_size :: "mem \<Rightarrow> ptr \<Rightarrow> u32" where
  "sh_block_size m s = load32 m (s + 4)"

definition sh_capacity :: "mem \<Rightarrow> ptr \<Rightarrow> u32" where
  "sh_capacity m s = load32 m (s + 8)"

definition sh_free_count :: "mem \<Rightarrow> ptr \<Rightarrow> u32" where
  "sh_free_count m s = load32 m (s + 12)"

definition sh_free_list :: "mem \<Rightarrow> ptr \<Rightarrow> ptr" where
  "sh_free_list m s = load64 m (s + 16)"

definition set_sh_node_id :: "ptr \<Rightarrow> u32 \<Rightarrow> mem \<Rightarrow> mem" where
  "set_sh_node_id s v m = store32 m s v"

definition set_sh_block_size :: "ptr \<Rightarrow> u32 \<Rightarrow> mem \<Rightarrow> mem" where
  "set_sh_block_size s v m = store32 m (s + 4) v"

definition set_sh_capacity :: "ptr \<Rightarrow> u32 \<Rightarrow> mem \<Rightarrow> mem" where
  "set_sh_capacity s v m = store32 m (s + 8) v"

definition set_sh_free_count :: "ptr \<Rightarrow> u32 \<Rightarrow> mem \<Rightarrow> mem" where
  "set_sh_free_count s v m = store32 m (s + 12) v"

definition set_sh_free_list :: "ptr \<Rightarrow> ptr \<Rightarrow> mem \<Rightarrow> mem" where
  "set_sh_free_list s v m = store64 m (s + 16) v"

subsection \<open>Operations\<close>

text \<open>One iteration of the loop of \<open>Slab::init\<close>: block \<open>i\<close> goes on the free list.\<close>

definition slab_init_step :: "ptr \<Rightarrow> ptr \<Rightarrow> u64 \<Rightarrow> nat \<Rightarrow> mem \<Rightarrow> mem" where
  "slab_init_step this p total_block_size i m =
    (let raw_block = p + of_nat i * total_block_size;
         m1 = set_next_link raw_block (sh_free_list m this) m
     in set_sh_free_list this raw_block m1)"

definition slab_init :: "ptr \<Rightarrow> u64 \<Rightarrow> int \<Rightarrow> mem \<Rightarrow> mem" where
  "slab_init this block_size node_id m =
    (let m1 = set_sh_node_id this (of_int node_id) m;
         m2 = set_sh_block_size this (ucast block_size) m1;
         raw = this + sizeof_SlabHeader;
         p = align_up raw ALIGNMENT;
         usable = SLAB_SIZE - (p - this);
         payload_size = max block_size 8;
         total_block_size = align_up (sizeof_BlockHeader + payload_size) ALIGNMENT;
         m3 = set_sh_capacity this (ucast (usable div total_block_size)) m2;
         m4 = set_sh_free_count this (sh_capacity m3 this) m3;
         m5 = set_sh_free_list this nullptr m4
     in fold (slab_init_step this p total_block_size) [0..<unat (sh_capacity m5 this)] m5)"

definition slab_create :: "os \<Rightarrow> u64 \<Rightarrow> int \<Rightarrow> world \<Rightarrow> ptr res \<times> world" where
  "slab_create os block_size node_id w =
    (case vm_alloc_on_node os SLAB_SIZE node_id Bind w of
       (Inl e, w1) \<Rightarrow> (Inl e, w1)
     | (Inr p, w1) \<Rightarrow> (Inr p, w1\<lparr>w_mem := slab_init p block_size node_id (w_mem w1)\<rparr>))"

definition slab_allocate_block :: "ptr \<Rightarrow> mem \<Rightarrow> ptr \<times> mem" where
  "slab_allocate_block this m =
    (if sh_free_list m this = nullptr then (nullptr, m)
     else
       let block = sh_free_list m this;
           m1 = set_bh_raw_ptr block this m;
           m2 = set_bh_total_size block SLAB_SIZE m1;
           m3 = set_sh_free_list this (next_link m2 block) m2;
           m4 = set_sh_free_count this (sh_free_count m3 this - 1) m3
       in (block, m4))"

definition slab_free_block :: "ptr \<Rightarrow> ptr \<Rightarrow> mem \<Rightarrow> mem" where
  "slab_free_block this block m =
    (let m1 = set_next_link block (sh_free_list m this) m;
         m2 = set_sh_free_list this block m1
     in set_sh_free_count this (sh_free_count m2 this + 1) m2)"

definition slab_has_free :: "mem \<Rightarrow> ptr \<Rightarrow> bool" where
  "slab_has_free m this \<longleftrightarrow> sh_free_count m this > 0"

definition slab_is_empty :: "mem \<Rightarrow> ptr \<Rightarrow> bool" where
  "slab_is_empty m this \<longleftrightarrow> sh_free_count m this = sh_capacity m this"

subsection \<open>Geometry\<close>

text \<open>Stride, capacity and block addresses, on the naturals.\<close>

definition slab_stride :: "u64 \<Rightarrow> nat" where
  "slab_stride bs = round_up (32 + max (unat bs) 8) 16"

definition slab_cap :: "u64 \<Rightarrow> nat" where
  "slab_cap bs = 65504 div slab_stride bs"

definition slab_block :: "ptr \<Rightarrow> u64 \<Rightarrow> nat \<Rightarrow> ptr" where
  "slab_block s bs i = s + of_nat (32 + i * slab_stride bs)"

definition slab_blocks :: "ptr \<Rightarrow> u64 \<Rightarrow> ptr list" where
  "slab_blocks s bs = map (slab_block s bs) [0..<slab_cap bs]"

text \<open>Where a slab may stand: what \<open>mmap\<close> promises about its base.\<close>

definition slab_place :: "ptr \<Rightarrow> u64 \<Rightarrow> bool" where
  "slab_place s bs \<longleftrightarrow> s \<noteq> nullptr \<and> 16 dvd unat s \<and> unat s + 65536 \<le> 2 ^ 63 \<and>
     0 < unat bs \<and> unat bs \<le> 4096"

text \<open>The free list and the blocks in use, read off the bytes.\<close>

definition slab_free :: "mem \<Rightarrow> ptr \<Rightarrow> ptr list" where
  "slab_free m s = walk (next_link m) (sh_free_list m s) (unat (sh_free_count m s))"

definition slab_live :: "mem \<Rightarrow> u64 \<Rightarrow> ptr \<Rightarrow> ptr set" where
  "slab_live m bs s = set (slab_blocks s bs) - set (slab_free m s)"

definition slab_ok :: "mem \<Rightarrow> u64 \<Rightarrow> ptr \<Rightarrow> bool" where
  "slab_ok m bs s \<longleftrightarrow>
     sh_capacity m s = of_nat (slab_cap bs) \<and>
     sh_free_count m s = of_nat (length (slab_free m s)) \<and>
     chain (next_link m) (sh_free_list m s) (slab_free m s) \<and>
     set (slab_free m s) \<subseteq> set (slab_blocks s bs) \<and>
     (\<forall>b \<in> slab_live m bs s. bh_raw_ptr m b = s \<and> bh_total_size m b = SLAB_SIZE)"

lemmas sh_field_defs =
  sh_node_id_def sh_block_size_def sh_capacity_def sh_free_count_def sh_free_list_def
  set_sh_node_id_def set_sh_block_size_def set_sh_capacity_def set_sh_free_count_def
  set_sh_free_list_def


lemma slab_stride_bounds:
  assumes "unat bs \<le> 4096"
  shows "48 \<le> slab_stride bs" and "slab_stride bs \<le> 4128" and "16 dvd slab_stride bs"
    and "32 + unat bs \<le> slab_stride bs"
proof -
  show "16 dvd slab_stride bs" by (simp add: slab_stride_def)
  show "32 + unat bs \<le> slab_stride bs"
    using round_up_ge [of 16 "32 + max (unat bs) 8"] by (simp add: slab_stride_def)
  show "slab_stride bs \<le> 4128"
    unfolding slab_stride_def by (rule round_up_least) (use assms in auto)
  have "round_up 40 16 \<le> slab_stride bs"
    unfolding slab_stride_def by (rule round_up_mono) auto
  then show "48 \<le> slab_stride bs" by (simp add: round_up_def)
qed

lemma slab_cap_bounds:
  assumes "unat bs \<le> 4096"
  shows "15 \<le> slab_cap bs" and "slab_cap bs \<le> 1364" and "32 + slab_cap bs * slab_stride bs \<le> 65536"
proof -
  note st = slab_stride_bounds [OF assms]
  have "65504 div 4128 \<le> slab_cap bs"
    unfolding slab_cap_def using st(1,2) by (intro div_le_mono2) auto
  then show "15 \<le> slab_cap bs" by simp
  have "slab_cap bs \<le> 65504 div 48"
    unfolding slab_cap_def using st(1) by (intro div_le_mono2) auto
  then show "slab_cap bs \<le> 1364" by simp
  have "slab_cap bs * slab_stride bs \<le> 65504" by (simp add: slab_cap_def)
  then show "32 + slab_cap bs * slab_stride bs \<le> 65536" by simp
qed

lemma slab_block_offset:
  assumes "unat bs \<le> 4096" and "i < slab_cap bs"
  shows "32 + i * slab_stride bs + slab_stride bs \<le> 65536"
proof -
  have "(i + 1) * slab_stride bs \<le> slab_cap bs * slab_stride bs"
    using assms(2) by (intro mult_le_mono1) simp
  with slab_cap_bounds(3) [OF assms(1)] show ?thesis by (simp add: algebra_simps)
qed

lemma unat_slab_block:
  assumes "slab_place s bs" and "i < slab_cap bs"
  shows "unat (slab_block s bs i) = unat s + 32 + i * slab_stride bs"
  using assms slab_block_offset [OF _ assms(2)]
  unfolding slab_block_def by (subst unat_plus_offset) (auto simp: slab_place_def)

lemma set_slab_blocks: "set (slab_blocks s bs) = slab_block s bs ` {..<slab_cap bs}"
  by (auto simp: slab_blocks_def)

lemma slab_block_bounds:
  assumes "slab_place s bs" and "b \<in> set (slab_blocks s bs)"
  shows "unat s + 32 \<le> unat b" and "unat b + slab_stride bs \<le> unat s + 65536"
    and "16 dvd unat b" and "b \<noteq> nullptr" and "unat b + 65536 < 18446744073709551616"
proof -
  from assms(2) obtain i where i: "i < slab_cap bs" "b = slab_block s bs i"
    by (auto simp: set_slab_blocks)
  have bs: "unat bs \<le> 4096" "16 dvd unat s" "unat s + 65536 \<le> 2 ^ 63"
    using assms(1) by (simp_all add: slab_place_def)
  note u = unat_slab_block [OF assms(1) i(1), folded i(2)]
  note o = slab_block_offset [OF bs(1) i(1)]
  show "unat s + 32 \<le> unat b" "unat b + slab_stride bs \<le> unat s + 65536"
    using u o by auto
  have "16 dvd 32 + i * slab_stride bs"
    using slab_stride_bounds(3) [OF bs(1)] by (intro dvd_add dvd_mult) auto
  with bs(2) show "16 dvd unat b" unfolding u add.assoc by (rule dvd_add)
  show "b \<noteq> nullptr" using u by auto
  show "unat b + 65536 < 18446744073709551616" using u o bs(3) by simp
qed

lemma slab_block_apart:
  assumes "slab_place s bs" and "b \<in> set (slab_blocks s bs)" and "c \<in> set (slab_blocks s bs)"
    and "b \<noteq> c"
  shows "unat b + slab_stride bs \<le> unat c \<or> unat c + slab_stride bs \<le> unat b"
proof -
  from assms(2,3) obtain i j where i: "i < slab_cap bs" "b = slab_block s bs i"
    and j: "j < slab_cap bs" "c = slab_block s bs j"
    by (auto simp: set_slab_blocks)
  have u: "unat b = unat s + 32 + i * slab_stride bs" "unat c = unat s + 32 + j * slab_stride bs"
    using unat_slab_block assms(1) i j by auto
  have "i \<noteq> j" using i j assms(4) by auto
  then consider "i + 1 \<le> j" | "j + 1 \<le> i" by linarith
  then show ?thesis
  proof cases
    case 1
    then have "(i + 1) * slab_stride bs \<le> j * slab_stride bs" by (rule mult_le_mono1)
    then show ?thesis by (simp add: u)
  next
    case 2
    then have "(j + 1) * slab_stride bs \<le> i * slab_stride bs" by (rule mult_le_mono1)
    then show ?thesis by (simp add: u)
  qed
qed

lemma distinct_slab_blocks:
  assumes "slab_place s bs"
  shows "distinct (slab_blocks s bs)"
proof -
  have st: "0 < slab_stride bs"
    using slab_stride_bounds(1) [of bs] assms by (simp add: slab_place_def)
  have "inj_on (slab_block s bs) (set [0..<slab_cap bs])"
  proof (rule inj_onI)
    fix i j
    assume ij: "i \<in> set [0..<slab_cap bs]" "j \<in> set [0..<slab_cap bs]"
      and eq: "slab_block s bs i = slab_block s bs j"
    have "unat (slab_block s bs i) = unat (slab_block s bs j)" using eq by simp
    then show "i = j"
      using unat_slab_block [OF assms, of i] unat_slab_block [OF assms, of j] ij st by auto
  qed
  then show ?thesis by (simp add: slab_blocks_def distinct_map)
qed

lemma length_slab_blocks [simp]: "length (slab_blocks s bs) = slab_cap bs"
  by (simp add: slab_blocks_def)

subsection \<open>Fields of a slab and of its blocks, as intervals\<close>

lemma sh_bytes:
  assumes "slab_place s bs"
  shows "bytes_of (s + 4) n = {unat s + 4 ..< unat s + 4 + n}"
    and "bytes_of (s + 8) n = {unat s + 8 ..< unat s + 8 + n}"
    and "bytes_of (s + 12) n = {unat s + 12 ..< unat s + 12 + n}"
    and "bytes_of (s + 16) n = {unat s + 16 ..< unat s + 16 + n}"
    and "bytes_of s n = {unat s ..< unat s + n}"
proof -
  have "unat s + 65536 < 18446744073709551616" using assms by (simp add: slab_place_def)
  then show "bytes_of (s + 4) n = {unat s + 4 ..< unat s + 4 + n}"
    "bytes_of (s + 8) n = {unat s + 8 ..< unat s + 8 + n}"
    "bytes_of (s + 12) n = {unat s + 12 ..< unat s + 12 + n}"
    "bytes_of (s + 16) n = {unat s + 16 ..< unat s + 16 + n}"
    "bytes_of s n = {unat s ..< unat s + n}"
    by (simp_all add: bytes_of_def unat_plus_numeral)
qed

lemma bh_bytes:
  assumes "unat b + 65536 < 18446744073709551616"
  shows "bytes_of (b + 4) n = {unat b + 4 ..< unat b + 4 + n}"
    and "bytes_of (b + 8) n = {unat b + 8 ..< unat b + 8 + n}"
    and "bytes_of (b + 16) n = {unat b + 16 ..< unat b + 16 + n}"
    and "bytes_of (b + 24) n = {unat b + 24 ..< unat b + 24 + n}"
    and "bytes_of (b + 32) n = {unat b + 32 ..< unat b + 32 + n}"
    and "bytes_of (to_user_ptr b) n = {unat b + 32 ..< unat b + 32 + n}"
    and "bytes_of b n = {unat b ..< unat b + n}"
  using assms by (simp_all add: bytes_of_offset bytes_of_def user_ptr_defs unat_plus_numeral)

text \<open>Reads of header fields depend on their bytes alone.\<close>

lemma sh_local:
  assumes "slab_place s bs" and "agree_on {unat s + 8 ..< unat s + 24} m m'"
  shows "sh_capacity m' s = sh_capacity m s" and "sh_free_count m' s = sh_free_count m s"
    and "sh_free_list m' s = sh_free_list m s"
  unfolding sh_field_defs
  by ((rule s32.get_local s64.get_local, rule agree_on_mono [OF assms(2)],
      simp add: sh_bytes [OF assms(1)])+)

lemma bh_local:
  assumes "unat b + 65536 < 18446744073709551616" and "agree_on {unat b + 16 ..< unat b + 32} m m'"
  shows "bh_raw_ptr m' b = bh_raw_ptr m b" and "bh_total_size m' b = bh_total_size m b"
  unfolding header_field_defs
  by ((rule s64.get_local, rule agree_on_mono [OF assms(2)], simp add: bh_bytes [OF assms(1)])+)

lemma link_local_block:
  assumes "unat b + 65536 < 18446744073709551616" and "agree_on {unat b + 32 ..< unat b + 40} m m'"
  shows "next_link m' b = next_link m b"
  by (rule fl.link_local, rule agree_on_mono [OF assms(2)], simp add: bh_bytes [OF assms(1)])


subsection \<open>What the slab invariant depends on\<close>

lemma slab_live_subset: "slab_live m bs s \<subseteq> set (slab_blocks s bs)"
  by (simp add: slab_live_def)

lemma slab_free_eq:
  assumes "chain (next_link m) (sh_free_list m s) xs" and "unat (sh_free_count m s) = length xs"
  shows "slab_free m s = xs"
  unfolding slab_free_def using assms by (simp add: walk_chain)

text \<open>A list of free blocks justifies the invariant: the form in which the operations
  re-establish it.\<close>

lemma slab_okI:
  assumes "slab_place s bs"
    and "sh_capacity m s = of_nat (slab_cap bs)"
    and "sh_free_count m s = of_nat (length xs)"
    and "chain (next_link m) (sh_free_list m s) xs"
    and "set xs \<subseteq> set (slab_blocks s bs)"
    and "\<And>b. b \<in> set (slab_blocks s bs) \<Longrightarrow> b \<notin> set xs \<Longrightarrow>
           bh_raw_ptr m b = s \<and> bh_total_size m b = SLAB_SIZE"
  shows "slab_ok m bs s" and "slab_free m s = xs"
proof -
  have "length xs = card (set xs)" using chain_distinct [OF assms(4)] by (simp add: distinct_card)
  also have "\<dots> \<le> card (set (slab_blocks s bs))" using assms(5) by (intro card_mono) auto
  also have "\<dots> \<le> slab_cap bs" using card_length [of "slab_blocks s bs"] by simp
  also have "\<dots> \<le> 1364" using slab_cap_bounds(2) [of bs] assms(1) by (simp add: slab_place_def)
  finally have "unat (sh_free_count m s) = length xs" using assms(3) by (simp add: unat_of_nat_u32)
  with assms(4) show free: "slab_free m s = xs" by (rule slab_free_eq)
  show "slab_ok m bs s"
    using assms by (simp add: slab_ok_def slab_live_def free)
qed

lemma slab_ok_count:
  assumes "slab_place s bs" and "slab_ok m bs s"
  shows "unat (sh_free_count m s) = length (slab_free m s)"
    and "length (slab_free m s) \<le> slab_cap bs"
    and "unat (sh_capacity m s) = slab_cap bs"
    and "distinct (slab_free m s)"
proof -
  have c: "chain (next_link m) (sh_free_list m s) (slab_free m s)"
    and sub: "set (slab_free m s) \<subseteq> set (slab_blocks s bs)"
    using assms(2) by (simp_all add: slab_ok_def)
  show d: "distinct (slab_free m s)" using c by (rule chain_distinct)
  have "length (slab_free m s) = card (set (slab_free m s))" using d by (simp add: distinct_card)
  also have "\<dots> \<le> card (set (slab_blocks s bs))" using sub by (intro card_mono) auto
  also have "\<dots> \<le> slab_cap bs" using card_length [of "slab_blocks s bs"] by simp
  finally show le: "length (slab_free m s) \<le> slab_cap bs" .
  have cap: "slab_cap bs \<le> 1364" using slab_cap_bounds(2) [of bs] assms(1) by (simp add: slab_place_def)
  show "unat (sh_free_count m s) = length (slab_free m s)"
    using assms(2) le cap by (simp add: slab_ok_def unat_of_nat_u32)
  show "unat (sh_capacity m s) = slab_cap bs"
    using assms(2) cap by (simp add: slab_ok_def unat_of_nat_u32)
qed

text \<open>The invariant reads the header, the links of the free blocks and the owner fields of
  the blocks in use; it holds in every memory that agrees on those.\<close>

lemma slab_ok_frame:
  assumes place: "slab_place s bs" and ok: "slab_ok m bs s"
    and hdr: "agree_on {unat s + 8 ..< unat s + 24} m m'"
    and links: "\<And>b. b \<in> set (slab_free m s) \<Longrightarrow> agree_on {unat b + 32 ..< unat b + 40} m m'"
    and owner: "\<And>b. b \<in> slab_live m bs s \<Longrightarrow> agree_on {unat b + 16 ..< unat b + 32} m m'"
  shows "slab_ok m' bs s" and "slab_free m' s = slab_free m s"
proof -
  note h = sh_local [OF place hdr]
  have sub: "set (slab_free m s) \<subseteq> set (slab_blocks s bs)" using ok by (simp add: slab_ok_def)
  have link: "next_link m' b = next_link m b" if "b \<in> set (slab_free m s)" for b
    using that sub slab_block_bounds(5) [OF place] links by (intro link_local_block) auto
  have c: "chain (next_link m') (sh_free_list m' s) (slab_free m s)"
    using ok link chain_cong [of "slab_free m s" "next_link m'" "next_link m"]
    by (simp add: slab_ok_def h)
  have o: "bh_raw_ptr m' b = s \<and> bh_total_size m' b = SLAB_SIZE"
    if "b \<in> set (slab_blocks s bs)" "b \<notin> set (slab_free m s)" for b
  proof -
    have b: "b \<in> slab_live m bs s" using that by (simp add: slab_live_def)
    then show ?thesis
      using bh_local [OF slab_block_bounds(5) [OF place that(1)] owner [OF b]] ok
      by (simp add: slab_ok_def)
  qed
  have cap: "sh_capacity m' s = of_nat (slab_cap bs)"
    and cnt: "sh_free_count m' s = of_nat (length (slab_free m s))"
    using ok by (simp_all add: slab_ok_def h)
  show "slab_ok m' bs s" and "slab_free m' s = slab_free m s"
    using slab_okI [OF place cap cnt c sub o] by auto
qed

text \<open>In particular it survives any write outside the slab, any write a user makes in the
  user area of a block in use, and any write to the first 16 bytes of a block header.\<close>

lemma slab_ok_outside:
  assumes "slab_place s bs" and "slab_ok m bs s" and "agree_on (bytes_of s 65536) m m'"
  shows "slab_ok m' bs s" and "slab_free m' s = slab_free m s"
    and "slab_live m' bs s = slab_live m bs s"
proof -
  have sub: "set (slab_free m s) \<subseteq> set (slab_blocks s bs)"
    using assms(2) by (simp add: slab_ok_def)
  have bs: "unat bs \<le> 4096" using assms(1) by (simp add: slab_place_def)
  have inside: "agree_on {unat b ..< unat b + 48} m m'" if "b \<in> set (slab_blocks s bs)" for b
    using slab_block_bounds(1,2) [OF assms(1) that] slab_stride_bounds(1) [OF bs]
    by (intro agree_on_mono [OF assms(3)]) (auto simp: bytes_of_def)
  have hdr: "agree_on {unat s + 8 ..< unat s + 24} m m'"
    by (rule agree_on_mono [OF assms(3)]) (auto simp: bytes_of_def)
  have r: "slab_ok m' bs s \<and> slab_free m' s = slab_free m s"
    using slab_ok_frame [OF assms(1,2) hdr] agree_on_mono [OF inside] sub slab_live_subset
    by (fastforce)
  then show "slab_ok m' bs s" and "slab_free m' s = slab_free m s" by auto
  then show "slab_live m' bs s = slab_live m bs s" by (simp add: slab_live_def)
qed


subsection \<open>Taking and returning a block\<close>

lemma slab_has_free_iff:
  assumes "slab_place s bs" and "slab_ok m bs s"
  shows "slab_has_free m s \<longleftrightarrow> slab_free m s \<noteq> []"
proof -
  have "slab_has_free m s \<longleftrightarrow> 0 < unat (sh_free_count m s)"
    by (simp add: slab_has_free_def word_less_nat_alt)
  then show ?thesis by (simp add: slab_ok_count(1) [OF assms])
qed

lemma slab_is_empty_iff:
  assumes "slab_place s bs" and "slab_ok m bs s"
  shows "slab_is_empty m s \<longleftrightarrow> slab_live m bs s = {}"
proof -
  note cnt = slab_ok_count [OF assms]
  have sub: "set (slab_free m s) \<subseteq> set (slab_blocks s bs)"
    using assms(2) by (simp add: slab_ok_def)
  have "slab_is_empty m s \<longleftrightarrow> length (slab_free m s) = slab_cap bs"
    by (simp add: slab_is_empty_def word_unat_eq_iff cnt)
  also have "\<dots> \<longleftrightarrow> card (set (slab_free m s)) = card (set (slab_blocks s bs))"
    using cnt(4) distinct_slab_blocks [OF assms(1)] by (simp add: distinct_card)
  also have "\<dots> \<longleftrightarrow> set (slab_free m s) = set (slab_blocks s bs)"
    using sub by (auto dest: card_subset_eq [rotated 1])
  also have "\<dots> \<longleftrightarrow> slab_live m bs s = {}"
    using sub by (auto simp: slab_live_def)
  finally show ?thesis .
qed

text \<open>The bytes that taking or returning a block may change: the counters of the slab header
  and a part of the block itself.\<close>

definition take_bytes :: "ptr \<Rightarrow> ptr \<Rightarrow> nat set" where
  "take_bytes s b = {unat s + 12 ..< unat s + 24} \<union> {unat b + 16 ..< unat b + 32}"

definition give_bytes :: "ptr \<Rightarrow> ptr \<Rightarrow> nat set" where
  "give_bytes s b = {unat s + 12 ..< unat s + 24} \<union> {unat b + 32 ..< unat b + 40}"

lemma slab_allocate_block_writes:
  assumes place: "slab_place s bs" and b: "b \<in> set (slab_blocks s bs)"
    and fl: "sh_free_list m s = b"
    and alloc: "slab_allocate_block s m = (r, m')"
  shows "r = b" and "agree_on (- take_bytes s b) m m'"
    and "sh_free_list m' s = next_link m b" and "sh_free_count m' s = sh_free_count m s - 1"
    and "bh_raw_ptr m' b = s" and "bh_total_size m' b = SLAB_SIZE"
proof -
  note bb = slab_block_bounds [OF place b]
  note iv = sh_bytes [OF place] bh_bytes [OF bb(5)]
  define m1 where "m1 = set_bh_raw_ptr b s m"
  define m2 where "m2 = set_bh_total_size b SLAB_SIZE m1"
  define m3 where "m3 = set_sh_free_list s (next_link m2 b) m2"
  have r: "r = b" and m': "m' = set_sh_free_count s (sh_free_count m3 s - 1) m3"
    using alloc fl bb(4) by (auto simp: slab_allocate_block_def Let_def m1_def m2_def m3_def)
  have nl: "next_link m2 b = next_link m b"
    unfolding m2_def m1_def header_field_defs to_user_ptr_def add_bytes_def sizeof_BlockHeader_def
    by (subst s64.get_put_apart, simp add: iv, subst s64.get_put_apart, simp_all add: iv)
  have cnt: "sh_free_count m3 s = sh_free_count m s"
    unfolding m3_def m2_def m1_def header_field_defs sh_field_defs
    using bb by (subst load32_store64_apart, simp add: iv, subst load32_store64_apart,
        simp add: iv, subst load32_store64_apart, simp_all add: iv)
  show "r = b" by (rule r)
  show "sh_free_count m' s = sh_free_count m s - 1"
    unfolding m' cnt by (simp add: sh_field_defs)
  have "load64 (store32 m3 (s + 12) v) (s + 16) = load64 m3 (s + 16)" for v
    by (rule load64_store32_apart) (simp add: iv)
  then show "sh_free_list m' s = next_link m b"
    unfolding m' m3_def nl by (simp add: sh_field_defs)
  have raw2: "load64 m2 (b + 16) = s"
    unfolding m2_def m1_def header_field_defs
    by (subst s64.get_put_apart, simp add: iv, simp)
  have tot2: "load64 m2 (b + 24) = SLAB_SIZE"
    unfolding m2_def header_field_defs by simp
  have ow: "load64 m' x = load64 m2 x"
    if "bytes_of x 8 \<inter> {unat s + 12 ..< unat s + 24} = {}" for x
  proof -
    have "bytes_of x 8 \<inter> bytes_of (s + 12) 4 = {}" "bytes_of x 8 \<inter> bytes_of (s + 16) 8 = {}"
      using that unfolding iv by auto
    then show ?thesis
      unfolding m' m3_def sh_field_defs by (simp add: load64_store32_apart s64.get_put_apart)
  qed
  show "bh_raw_ptr m' b = s" "bh_total_size m' b = SLAB_SIZE"
    unfolding bh_raw_ptr_def bh_total_size_def using bb
    by (subst ow; simp add: iv raw2 tot2)+
  show "agree_on (- take_bytes s b) m m'"
    unfolding m' m3_def m2_def m1_def sh_field_defs header_field_defs
    by (auto intro!: agree_onI simp: take_bytes_def s64.put_local s32.put_local iv)
qed


text \<open>\<open>allocate_block\<close> pops the free list and hands out the block with its owner written.\<close>

lemma slab_allocate_block_ok:
  assumes place: "slab_place s bs" and ok: "slab_ok m bs s" and hf: "slab_has_free m s"
    and alloc: "slab_allocate_block s m = (b, m')"
  shows "slab_free m s = b # slab_free m' s" and "slab_ok m' bs s"
    and "b \<in> set (slab_blocks s bs)" and "b \<notin> slab_live m bs s"
    and "slab_live m' bs s = insert b (slab_live m bs s)"
    and "agree_on (- take_bytes s b) m m'"
proof -
  have sub: "set (slab_free m s) \<subseteq> set (slab_blocks s bs)"
    and c: "chain (next_link m) (sh_free_list m s) (slab_free m s)"
    using ok by (simp_all add: slab_ok_def)
  have "slab_free m s \<noteq> []" using hf slab_has_free_iff [OF place ok] by simp
  then obtain x xs where xs: "slab_free m s = x # xs" by (cases "slab_free m s") auto
  have fl: "sh_free_list m s = x" and cx: "chain (next_link m) (next_link m x) xs"
    using c by (simp_all add: xs)
  have xb: "x \<in> set (slab_blocks s bs)" using sub by (simp add: xs)
  note W = slab_allocate_block_writes [OF place xb fl alloc]
  note cnt = slab_ok_count [OF place ok]
  have d: "x \<notin> set xs" using cnt(4) by (simp add: xs)
  have bs: "unat bs \<le> 4096" using place by (simp add: slab_place_def)
  note st = slab_stride_bounds [OF bs]
  note xbb = slab_block_bounds [OF place xb]
  have keep: "agree_on {unat c + 16 ..< unat c + 40} m m'"
    if "c \<in> set (slab_blocks s bs)" "c \<noteq> x" for c
    using slab_block_bounds [OF place that(1)] slab_block_apart [OF place that(1) xb that(2)] st xbb
    by (intro agree_on_mono [OF W(2)]) (auto simp: take_bytes_def)
  have linkx: "next_link m' y = next_link m y" if "y \<in> set xs" for y
  proof -
    have "y \<in> set (slab_blocks s bs)" "y \<noteq> x" using that sub d xs by auto
    then show ?thesis
      using slab_block_bounds(5) [OF place] agree_on_mono [OF keep] by (intro link_local_block) auto
  qed
  have c': "chain (next_link m') (sh_free_list m' s) xs"
    using cx chain_cong [of xs "next_link m'" "next_link m"] linkx by (simp add: W(3))
  have "sh_capacity m' s = sh_capacity m s"
    unfolding sh_capacity_def using xbb
    by (intro s32.get_local agree_on_mono [OF W(2)]) (auto simp: take_bytes_def sh_bytes [OF place])
  then have cap: "sh_capacity m' s = of_nat (slab_cap bs)"
    using ok by (simp add: slab_ok_def)
  have fc: "sh_free_count m' s = of_nat (length xs)"
    using ok by (simp add: W(4) slab_ok_def xs)
  have own: "bh_raw_ptr m' c = s \<and> bh_total_size m' c = SLAB_SIZE"
    if "c \<in> set (slab_blocks s bs)" "c \<notin> set xs" for c
  proof (cases "c = x")
    case True
    then show ?thesis using W(5,6) by simp
  next
    case False
    then have "c \<in> slab_live m bs s" using that by (simp add: slab_live_def xs)
    then show ?thesis
      using ok bh_local [OF slab_block_bounds(5) [OF place that(1)]
          agree_on_mono [OF keep [OF that(1) False]]]
      by (simp add: slab_ok_def)
  qed
  have sub': "set xs \<subseteq> set (slab_blocks s bs)" using sub xs by auto
  note R = slab_okI [OF place cap fc c' sub' own]
  show "slab_free m s = b # slab_free m' s" using R(2) W(1) xs by simp
  show "slab_ok m' bs s" by (rule R(1))
  show "b \<in> set (slab_blocks s bs)" using xb W(1) by simp
  show "b \<notin> slab_live m bs s" using W(1) by (simp add: slab_live_def xs)
  show "slab_live m' bs s = insert b (slab_live m bs s)"
    using R(2) W(1) d xb by (auto simp: slab_live_def xs)
  show "agree_on (- take_bytes s b) m m'" using W(1,2) by simp
qed

text \<open>\<open>free_block\<close> pushes the block back.\<close>

lemma slab_free_block_ok:
  assumes place: "slab_place s bs" and ok: "slab_ok m bs s" and b: "b \<in> slab_live m bs s"
  shows "slab_free (slab_free_block s b m) s = b # slab_free m s"
    and "slab_ok (slab_free_block s b m) bs s"
    and "slab_live (slab_free_block s b m) bs s = slab_live m bs s - {b}"
    and "agree_on (- give_bytes s b) m (slab_free_block s b m)"
proof -
  have bb: "b \<in> set (slab_blocks s bs)" "b \<notin> set (slab_free m s)"
    using b by (simp_all add: slab_live_def)
  note B = slab_block_bounds [OF place bb(1)]
  note iv = sh_bytes [OF place] bh_bytes [OF B(5)]
  have bs: "unat bs \<le> 4096" using place by (simp add: slab_place_def)
  note st = slab_stride_bounds [OF bs]
  have sub: "set (slab_free m s) \<subseteq> set (slab_blocks s bs)"
    and c: "chain (next_link m) (sh_free_list m s) (slab_free m s)"
    using ok by (simp_all add: slab_ok_def)
  define m1 where "m1 = set_next_link b (sh_free_list m s) m"
  define m2 where "m2 = set_sh_free_list s b m1"
  define m' where "m' = set_sh_free_count s (sh_free_count m2 s + 1) m2"
  have eq: "slab_free_block s b m = m'"
    by (simp add: slab_free_block_def Let_def m1_def m2_def m'_def)
  have ag: "agree_on (- give_bytes s b) m m'"
    unfolding m'_def m2_def m1_def sh_field_defs header_field_defs
    by (auto intro!: agree_onI simp: give_bytes_def s64.put_local s32.put_local iv)
  have keep: "agree_on {unat y + 16 ..< unat y + 40} m m'"
    if "y \<in> set (slab_blocks s bs)" "y \<noteq> b" for y
    using slab_block_bounds [OF place that(1)] slab_block_apart [OF place that(1) bb(1) that(2)] st B
    by (intro agree_on_mono [OF ag]) (auto simp: give_bytes_def)
  have c1: "chain (next_link m1) b (b # slab_free m s)"
  proof -
    have "bytes_of (to_user_ptr y) 8 \<inter> bytes_of (to_user_ptr b) 8 = {}" if "y \<in> set (slab_free m s)" for y
    proof -
      have y: "y \<in> set (slab_blocks s bs)" "y \<noteq> b" using that sub bb by auto
      show ?thesis
        using slab_block_apart [OF place y(1) bb(1) y(2)] st
        by (auto simp: bh_bytes [OF B(5)] bh_bytes [OF slab_block_bounds(5) [OF place y(1)]])
    qed
    then show ?thesis unfolding m1_def by (intro fl.chain_push [OF c B(4)])
  qed
  have "agree_on (- {unat s + 12 ..< unat s + 24}) m1 m'"
    unfolding m'_def m2_def sh_field_defs
    by (auto intro!: agree_onI simp: s64.put_local s32.put_local iv)
  then have "agree_on (bytes_of (to_user_ptr y) 8) m1 m'" if "y \<in> set (slab_blocks s bs)" for y
    using slab_block_bounds [OF place that]
    by (elim agree_on_mono) (auto simp: bh_bytes [OF slab_block_bounds(5) [OF place that]])
  then have c2: "chain (next_link m') b (b # slab_free m s)"
    using c1 fl.chain_frame [of "b # slab_free m s" m1 m' b] sub bb(1) by auto
  have "load64 (store32 m2 (s + 12) v) (s + 16) = load64 m2 (s + 16)" for v
    by (rule load64_store32_apart) (simp add: iv)
  then have fl': "sh_free_list m' s = b"
    unfolding m'_def m2_def sh_field_defs by simp
  have "sh_free_count m2 s = sh_free_count m s"
    unfolding m2_def m1_def sh_field_defs header_field_defs
    using B by (subst load32_store64_apart, simp add: iv, subst load32_store64_apart, simp_all add: iv)
  then have fc: "sh_free_count m' s = of_nat (length (b # slab_free m s))"
    using ok unfolding m'_def by (simp add: sh_field_defs slab_ok_def)
  have "sh_capacity m' s = sh_capacity m s"
    unfolding sh_capacity_def using B
    by (intro s32.get_local agree_on_mono [OF ag]) (auto simp: give_bytes_def iv)
  then have cap: "sh_capacity m' s = of_nat (slab_cap bs)" using ok by (simp add: slab_ok_def)
  have own: "bh_raw_ptr m' y = s \<and> bh_total_size m' y = SLAB_SIZE"
    if "y \<in> set (slab_blocks s bs)" "y \<notin> set (b # slab_free m s)" for y
  proof -
    have y: "y \<in> slab_live m bs s" "y \<noteq> b" using that by (simp_all add: slab_live_def)
    then show ?thesis
      using ok bh_local [OF slab_block_bounds(5) [OF place that(1)]
          agree_on_mono [OF keep [OF that(1) y(2)]]]
      by (simp add: slab_ok_def)
  qed
  have sub': "set (b # slab_free m s) \<subseteq> set (slab_blocks s bs)" using sub bb by simp
  have c3: "chain (next_link m') (sh_free_list m' s) (b # slab_free m s)" using c2 fl' by simp
  note R = slab_okI [OF place cap fc c3 sub' own]
  show "slab_free (slab_free_block s b m) s = b # slab_free m s"
    and "slab_ok (slab_free_block s b m) bs s"
    using R by (simp_all add: eq)
  show "slab_live (slab_free_block s b m) bs s = slab_live m bs s - {b}"
    using R(2) by (auto simp: slab_live_def eq)
  show "agree_on (- give_bytes s b) m (slab_free_block s b m)" using ag by (simp add: eq)
qed


subsection \<open>Initialisation\<close>

lemma of_nat_unat_eq: "unat (x :: u64) = n \<Longrightarrow> x = of_nat n"
  by auto

lemma slab_init_values:
  assumes "slab_place s bs"
  shows "align_up (s + sizeof_SlabHeader) ALIGNMENT = s + 32"
    and "align_up (sizeof_BlockHeader + max bs 8) ALIGNMENT = of_nat (slab_stride bs)"
    and "ucast ((SLAB_SIZE - (s + 32 - s)) div of_nat (slab_stride bs)) = (of_nat (slab_cap bs) :: u32)"
proof -
  have pl: "16 dvd unat s" "unat s + 65536 \<le> 2 ^ 63" "unat bs \<le> 4096"
    using assms by (simp_all add: slab_place_def)
  have s24: "unat (s + 24) = unat s + 24" using pl(2) by (intro unat_plus_numeral) simp
  have "round_up (unat s + 24) 16 = unat s + 32"
    using pl(1) by (intro nat_class_band [of 16 "unat s" 1, simplified]) auto
  moreover have "unat (align_up (s + 24) 16) = round_up (unat (s + 24)) (unat (16 :: u64))"
    using pl(2) s24 by (intro unat_align_up) auto
  ultimately have "unat (align_up (s + 24) 16) = unat (s + 32)"
    using pl(2) by (simp add: s24 unat_plus_numeral)
  then show "align_up (s + sizeof_SlabHeader) ALIGNMENT = s + 32"
    unfolding sizeof_SlabHeader_def ALIGNMENT_def by (rule ptr_eq_iff_unat [THEN iffD2])
  have mx: "unat (max bs 8) = max (unat bs) 8" by (simp add: max_def word_le_nat_alt)
  have u: "unat (32 + max bs 8) = 32 + max (unat bs) 8"
    using pl(3) by (subst unat_add_u64) (auto simp: mx)
  have "unat (align_up (32 + max bs 8) 16) = slab_stride bs"
    unfolding slab_stride_def using pl(3) by (subst unat_align_up) (auto simp: u)
  then show "align_up (sizeof_BlockHeader + max bs 8) ALIGNMENT = of_nat (slab_stride bs)"
    unfolding sizeof_BlockHeader_def ALIGNMENT_def by (rule of_nat_unat_eq)
  have st: "slab_stride bs < 18446744073709551616" using slab_stride_bounds(2) [OF pl(3)] by simp
  have "unat ((65504 :: u64) div of_nat (slab_stride bs)) = slab_cap bs"
    using st by (simp add: unat_div unat_of_nat_u64 slab_cap_def)
  moreover have "slab_cap bs < 4294967296" using slab_cap_bounds(2) [OF pl(3)] by simp
  ultimately have "unat (ucast ((65504 :: u64) div of_nat (slab_stride bs)) :: u32) = slab_cap bs"
    by (simp add: unat_ucast_u64_u32)
  then have "ucast ((65504 :: u64) div of_nat (slab_stride bs)) = (of_nat (slab_cap bs) :: u32)"
    by (metis of_nat_unat ucast_id)
  then show "ucast ((SLAB_SIZE - (s + 32 - s)) div of_nat (slab_stride bs)) = (of_nat (slab_cap bs) :: u32)"
    by (simp add: SLAB_SIZE_def)
qed

definition init_bytes :: "ptr \<Rightarrow> u64 \<Rightarrow> nat \<Rightarrow> nat set" where
  "init_bytes s bs k = {unat s + 16 ..< unat s + 24} \<union>
     (\<Union>i<k. {unat (slab_block s bs i) + 32 ..< unat (slab_block s bs i) + 40})"

lemma slab_init_loop:
  assumes place: "slab_place s bs" and "k \<le> slab_cap bs"
    and m0: "sh_free_list m s = nullptr"
    and mk: "mk = fold (slab_init_step s (s + 32) (of_nat (slab_stride bs))) [0..<k] m"
  shows "chain (next_link mk) (sh_free_list mk s) (rev (map (slab_block s bs) [0..<k])) \<and>
    agree_on (- init_bytes s bs k) m mk"
  using assms(2) mk
proof (induction k arbitrary: mk)
  case 0
  then show ?case by (simp add: m0)
next
  case (Suc k)
  define mj where "mj = fold (slab_init_step s (s + 32) (of_nat (slab_stride bs))) [0..<k] m"
  define b where "b = slab_block s bs k"
  have IH: "chain (next_link mj) (sh_free_list mj s) (rev (map (slab_block s bs) [0..<k]))"
    "agree_on (- init_bytes s bs k) m mj"
    using Suc.IH [OF _ mj_def] Suc.prems(1) by auto
  have bb: "b \<in> set (slab_blocks s bs)" using Suc.prems(1) by (auto simp: b_def set_slab_blocks)
  note B = slab_block_bounds [OF place bb]
  note iv = sh_bytes [OF place] bh_bytes [OF B(5)]
  have raw: "s + 32 + of_nat k * of_nat (slab_stride bs) = b"
    by (simp add: b_def slab_block_def)
  define m1 where "m1 = set_next_link b (sh_free_list mj s) mj"
  have "mk = slab_init_step s (s + 32) (of_nat (slab_stride bs)) k mj"
    using Suc.prems(2) by (simp add: mj_def)
  then have mk: "mk = set_sh_free_list s b m1"
    by (simp only: slab_init_step_def Let_def raw m1_def)
  have others: "c \<in> set (slab_blocks s bs) \<and> c \<noteq> b" if "c \<in> set (map (slab_block s bs) [0..<k])" for c
  proof -
    from that obtain i where i: "i < k" "c = slab_block s bs i" by auto
    then have "unat c \<noteq> unat b"
      using unat_slab_block [OF place, of i] unat_slab_block [OF place, of k] Suc.prems(1)
        slab_stride_bounds(1) [of bs] place by (auto simp: b_def slab_place_def)
    with i Suc.prems(1) show ?thesis by (auto simp: set_slab_blocks)
  qed
  have st: "48 \<le> slab_stride bs" using slab_stride_bounds(1) [of bs] place by (simp add: slab_place_def)
  have c1: "chain (next_link m1) b (b # rev (map (slab_block s bs) [0..<k]))"
    unfolding m1_def
  proof (rule fl.chain_push [OF IH(1) B(4)])
    fix y assume "y \<in> set (rev (map (slab_block s bs) [0..<k]))"
    then have y: "y \<in> set (slab_blocks s bs)" "y \<noteq> b" using others by auto
    show "bytes_of (to_user_ptr y) 8 \<inter> bytes_of (to_user_ptr b) 8 = {}"
      using slab_block_apart [OF place y(1) bb y(2)] st
      by (auto simp: bh_bytes [OF B(5)] bh_bytes [OF slab_block_bounds(5) [OF place y(1)]])
  qed
  have ag: "agree_on (- {unat s + 16 ..< unat s + 24}) m1 mk"
    unfolding mk sh_field_defs by (auto intro!: agree_onI simp: s64.put_local iv)
  have "agree_on (bytes_of (to_user_ptr y) 8) m1 mk" if "y \<in> set (slab_blocks s bs)" for y
    using slab_block_bounds [OF place that]
    by (intro agree_on_mono [OF ag]) (auto simp: bh_bytes [OF slab_block_bounds(5) [OF place that]])
  then have c2: "chain (next_link mk) b (b # rev (map (slab_block s bs) [0..<k]))"
    using c1 fl.chain_frame [of "b # rev (map (slab_block s bs) [0..<k])" m1 mk b] others bb by auto
  have "sh_free_list mk s = b" unfolding mk by (simp add: sh_field_defs)
  moreover have "agree_on (- {unat b + 32 ..< unat b + 40}) mj m1"
    unfolding m1_def header_field_defs by (auto intro!: agree_onI simp: s64.put_local iv)
  ultimately show ?case
    using c2 IH(2) ag by (auto simp: b_def init_bytes_def agree_on_def lessThan_Suc)
qed

text \<open>A fresh slab: every block free, the last one first.\<close>

lemma slab_init_ok:
  assumes place: "slab_place s bs"
  shows "slab_ok (slab_init s bs node m) bs s"
    and "slab_free (slab_init s bs node m) s = rev (slab_blocks s bs)"
    and "slab_live (slab_init s bs node m) bs s = {}"
    and "sh_node_id (slab_init s bs node m) s = of_int node"
    and "agree_on (- bytes_of s 65536) m (slab_init s bs node m)"
proof -
  note iv = sh_bytes [OF place]
  define m2 where "m2 = set_sh_block_size s (ucast bs) (set_sh_node_id s (of_int node) m)"
  define m3 where "m3 = set_sh_capacity s (of_nat (slab_cap bs)) m2"
  define m4 where "m4 = set_sh_free_count s (sh_capacity m3 s) m3"
  define m5 where "m5 = set_sh_free_list s nullptr m4"
  have cap3: "sh_capacity m3 s = of_nat (slab_cap bs)" unfolding m3_def by (simp add: sh_field_defs)
  have cap5: "sh_capacity m5 s = of_nat (slab_cap bs)"
    unfolding m5_def m4_def cap3 unfolding sh_field_defs
    by (subst load32_store64_apart, simp add: iv, subst s32.get_put_apart, simp add: iv)
      (use cap3 in \<open>simp add: sh_field_defs\<close>)
  have cnt5: "sh_free_count m5 s = of_nat (slab_cap bs)"
    unfolding m5_def m4_def cap3 unfolding sh_field_defs
    by (subst load32_store64_apart, simp_all add: iv)
  have fl5: "sh_free_list m5 s = nullptr" unfolding m5_def by (simp add: sh_field_defs)
  have node5: "sh_node_id m5 s = of_int node"
    unfolding m5_def m4_def m3_def m2_def sh_field_defs
    by (subst load32_store64_apart, simp add: iv, subst s32.get_put_apart, simp add: iv,
        subst s32.get_put_apart, simp add: iv, subst s32.get_put_apart, simp_all add: iv)
  have bs: "unat bs \<le> 4096" using place by (simp add: slab_place_def)
  have u: "unat (of_nat (slab_cap bs) :: u32) = slab_cap bs"
    using slab_cap_bounds(2) [OF bs] by (simp add: unat_of_nat_u32)
  define m' where "m' = fold (slab_init_step s (s + 32) (of_nat (slab_stride bs))) [0..<slab_cap bs] m5"
  have eq: "slab_init s bs node m = m'"
    unfolding slab_init_def Let_def slab_init_values [OF place] m'_def
    using cap5 u by (simp add: m5_def m4_def m3_def m2_def)
  note L = slab_init_loop [OF place le_refl fl5 m'_def]
  have out: "init_bytes s bs (slab_cap bs) \<subseteq> bytes_of s 65536 \<and>
      init_bytes s bs (slab_cap bs) \<inter> {unat s ..< unat s + 16} = {}"
  proof -
    have "unat s + 32 \<le> unat (slab_block s bs i) \<and> unat (slab_block s bs i) + 48 \<le> unat s + 65536"
      if "i < slab_cap bs" for i
      using slab_block_bounds(1,2) [OF place, of "slab_block s bs i"] slab_stride_bounds(1) [OF bs] that
      by (auto simp: set_slab_blocks)
    then show ?thesis by (fastforce simp: init_bytes_def bytes_of_def)
  qed
  have l16: "agree_on {unat s ..< unat s + 16} m5 m'" using L out by (auto simp: agree_on_def)
  have cap': "sh_capacity m' s = of_nat (slab_cap bs)"
    unfolding cap5 [symmetric] sh_capacity_def
    by (rule s32.get_local, rule agree_on_mono [OF l16]) (simp add: iv)
  have cnt': "sh_free_count m' s = of_nat (length (rev (slab_blocks s bs)))"
    unfolding length_rev length_slab_blocks cnt5 [symmetric] sh_free_count_def
    by (rule s32.get_local, rule agree_on_mono [OF l16]) (simp add: iv)
  have node': "sh_node_id m' s = of_int node"
    unfolding node5 [symmetric] sh_node_id_def
    by (rule s32.get_local, rule agree_on_mono [OF l16]) (simp add: iv)
  have ch: "chain (next_link m') (sh_free_list m' s) (rev (slab_blocks s bs))"
    using L by (simp add: slab_blocks_def)
  note R = slab_okI [OF place cap' cnt' ch]
  show "slab_ok (slab_init s bs node m) bs s"
    and free: "slab_free (slab_init s bs node m) s = rev (slab_blocks s bs)"
    using R by (simp_all add: eq)
  then show "slab_live (slab_init s bs node m) bs s = {}" by (simp add: slab_live_def)
  show "sh_node_id (slab_init s bs node m) s = of_int node" by (simp add: eq node')
  have "agree_on (- bytes_of s 65536) m m5"
    unfolding m5_def m4_def m3_def m2_def sh_field_defs
    by (auto intro!: agree_onI simp: s64.put_local s32.put_local iv)
  moreover have "agree_on (- bytes_of s 65536) m5 m'" using L out by (auto simp: agree_on_def)
  ultimately show "agree_on (- bytes_of s 65536) m (slab_init s bs node m)"
    unfolding eq by (rule agree_on_trans)
qed


subsection \<open>Creating a slab\<close>

lemma span_bytes_slab: "os_ok os \<Longrightarrow> span_bytes os SLAB_SIZE = 65536"
  using os_ok_page_ge [of os] by (simp add: span_bytes_def round_up_id os_ok_page_dvd)

lemma fits_page_slab: "os_ok os \<Longrightarrow> fits_page os SLAB_SIZE"
  using os_ok_page_le [of os] by (simp add: fits_page_def)

lemma slab_create_Inr:
  assumes "os_ok os" and "0 < unat bs" and "unat bs \<le> 4096"
    and "slab_create os bs node w = (Inr s, w')"
  shows "frame_step {} w (bytes_of s 65536) w'" and "slab_place s bs"
    and "unat (page_size os) dvd unat s" and "slab_ok (w_mem w') bs s"
    and "slab_live (w_mem w') bs s = {}" and "slab_free (w_mem w') s = rev (slab_blocks s bs)"
    and "\<forall>x\<in>bytes_of s 65536. w_policy w' x = node_policy os node"
    and "sh_node_id (w_mem w') s = of_int node"
proof -
  from assms(4) obtain w1 where a: "vm_alloc_on_node os SLAB_SIZE node Bind w = (Inr s, w1)"
    and w': "w' = w1\<lparr>w_mem := slab_init s bs node (w_mem w1)\<rparr>"
    by (auto simp: slab_create_def split: prod.splits sum.splits)
  note A = vm_alloc_on_node_Inr [OF assms(1) SLAB_SIZE_nz fits_page_slab [OF assms(1)] a,
      unfolded span_bytes_slab [OF assms(1)]]
  have "4096 dvd unat s" using A(3) os_ok_page_4096 [OF assms(1)] dvd_trans by blast
  then have "16 dvd unat s" by (rule dvd_trans [rotated]) simp
  then show place: "slab_place s bs" using A(2,4) assms(2,3) by (simp add: slab_place_def)
  note I = slab_init_ok [OF place, where node = node and m = "w_mem w1"]
  show "unat (page_size os) dvd unat s" by (rule A(3))
  have "frame_step (bytes_of s 65536) w1 (bytes_of s 65536) w'"
    unfolding w' using A(1) I(5) by (intro frame_step_write) (auto simp: frame_step_def)
  with A(1) show "frame_step {} w (bytes_of s 65536) w'" by (rule frame_step_trans)
  show "\<forall>x\<in>bytes_of s 65536. w_policy w' x = node_policy os node" using A(5) by (simp add: w')
  show "slab_ok (w_mem w') bs s" "slab_live (w_mem w') bs s = {}"
    "slab_free (w_mem w') s = rev (slab_blocks s bs)" "sh_node_id (w_mem w') s = of_int node"
    using I by (simp_all add: w')
qed

lemma slab_create_Inl:
  assumes "os_ok os" and "slab_create os bs node w = (Inl e, w')"
  shows "e = Bad_alloc" and "frame_step {} w {} w'"
proof -
  from assms(2) have a: "vm_alloc_on_node os SLAB_SIZE node Bind w = (Inl e, w')"
    by (auto simp: slab_create_def split: prod.splits sum.splits)
  note A = vm_alloc_on_node_Inl [OF assms(1) SLAB_SIZE_nz fits_page_slab [OF assms(1)] a]
  show "e = Bad_alloc" and "frame_step {} w {} w'" by (rule A)+
qed

text \<open>A user may write the whole user area of a block in use, and the arena the first fields
  of its header: the slab stays intact.\<close>

definition client_bytes :: "u64 \<Rightarrow> ptr \<Rightarrow> nat set" where
  "client_bytes bs b = {unat b ..< unat b + 16} \<union> {unat b + 32 ..< unat b + slab_stride bs}"

lemma slab_ok_client_write:
  assumes place: "slab_place s bs" and ok: "slab_ok m bs s"
    and w: "agree_on (- (\<Union>b\<in>slab_live m bs s. client_bytes bs b)) m m'"
  shows "slab_ok m' bs s" and "slab_free m' s = slab_free m s"
    and "slab_live m' bs s = slab_live m bs s"
proof -
  have sub: "set (slab_free m s) \<subseteq> set (slab_blocks s bs)" using ok by (simp add: slab_ok_def)
  have bs: "unat bs \<le> 4096" using place by (simp add: slab_place_def)
  note st = slab_stride_bounds(1) [OF bs]
  have live: "b \<in> set (slab_blocks s bs)" "b \<notin> set (slab_free m s)" if "b \<in> slab_live m bs s" for b
    using that by (simp_all add: slab_live_def)
  have hdr: "agree_on {unat s + 8 ..< unat s + 24} m m'"
    using slab_block_bounds(1) [OF place live(1)]
    by (intro agree_on_mono [OF w]) (fastforce simp: client_bytes_def)
  have links: "agree_on {unat c + 32 ..< unat c + 40} m m'" if c: "c \<in> set (slab_free m s)" for c
  proof (rule agree_on_mono [OF w], rule subsetI)
    fix x assume x: "x \<in> {unat c + 32 ..< unat c + 40}"
    have "x \<notin> client_bytes bs b" if b: "b \<in> slab_live m bs s" for b
    proof -
      have "c \<in> set (slab_blocks s bs)" "b \<noteq> c" using sub c live(2) [OF b] by auto
      then show ?thesis
        using slab_block_apart [OF place live(1) [OF b], of c] x st by (auto simp: client_bytes_def)
    qed
    then show "x \<in> - (\<Union>b\<in>slab_live m bs s. client_bytes bs b)" by blast
  qed
  have owner: "agree_on {unat c + 16 ..< unat c + 32} m m'" if c: "c \<in> slab_live m bs s" for c
  proof (rule agree_on_mono [OF w], rule subsetI)
    fix x assume x: "x \<in> {unat c + 16 ..< unat c + 32}"
    have "x \<notin> client_bytes bs b" if b: "b \<in> slab_live m bs s" for b
      using slab_block_apart [OF place live(1) [OF b] live(1) [OF c]] x st
      by (cases "b = c") (auto simp: client_bytes_def)
    then show "x \<in> - (\<Union>b\<in>slab_live m bs s. client_bytes bs b)" by blast
  qed
  show "slab_ok m' bs s" and f: "slab_free m' s = slab_free m s"
    using slab_ok_frame [OF place ok hdr links owner] by auto
  then show "slab_live m' bs s = slab_live m bs s" by (simp add: slab_live_def)
qed

end
