(* ===== verification/Allocator_Contract.thy ===== *)
theory Allocator_Contract
  imports Virtual_Memory
begin

section \<open>The contract of an allocator\<close>

text \<open>
  What every layer of the program promises to the layer above it: \<open>SizeClass\<close>,
  \<open>SmallObjectAllocator\<close>, \<open>LargeObjectAllocator\<close> and \<open>NumaArena\<close> hand out blocks, take
  them back, and never touch the part of a block that belongs to its user. The abstract
  state of an allocator is the map from the blocks in use to the bytes granted with them.
  The locale \<open>allocator\<close> states the laws, its lemmas run arbitrary client scripts against
  them, and each layer's theory interprets it on the definitions of that layer.
\<close>

subsection \<open>Client scripts\<close>

type_synonym grants = "ptr \<Rightarrow> nat set option"

text \<open>What a client does: take a block, give one back, write in the bytes it was granted.\<close>

datatype 'r action = Take 'r | Give ptr | Fill ptr mem

text \<open>One action; \<open>None\<close> when the operation does not return. A client only gives back and
  fills blocks that it holds; anything else is not an action of a client and is skipped.\<close>

fun act ::
  "('r \<Rightarrow> 's \<Rightarrow> world \<Rightarrow> (ptr res \<times> 's \<times> world) option) \<Rightarrow>
   (ptr \<Rightarrow> 's \<Rightarrow> world \<Rightarrow> (unit res \<times> 's \<times> world) option) \<Rightarrow>
   ('s \<Rightarrow> 'r \<Rightarrow> ptr \<Rightarrow> nat set) \<Rightarrow> 'r action \<Rightarrow> 's \<times> world \<times> grants \<Rightarrow>
   ('s \<times> world \<times> grants) option" where
  "act alloc free area (Take r) (s, w, U) =
     (case alloc r s w of
        None \<Rightarrow> None
      | Some (Inr p, s', w') \<Rightarrow> Some (s', w', U(p \<mapsto> area s r p))
      | Some (Inl e, s', w') \<Rightarrow> Some (s', w', U))"
| "act alloc free area (Give p) (s, w, U) =
     (if U p = None then Some (s, w, U)
      else case free p s w of
        None \<Rightarrow> None
      | Some (r, s', w') \<Rightarrow> Some (s', w', U(p := None)))"
| "act alloc free area (Fill p f) (s, w, U) =
     (case U p of
        None \<Rightarrow> Some (s, w, U)
      | Some A \<Rightarrow> Some (s, w\<lparr>w_mem := (\<lambda>x. if x \<in> A then f x else w_mem w x)\<rparr>, U))"

fun run_script where
  "run_script alloc free area [] st = Some st"
| "run_script alloc free area (a # script) st =
     (case act alloc free area a st of
        None \<Rightarrow> None
      | Some st' \<Rightarrow> run_script alloc free area script st')"

definition touches :: "ptr \<Rightarrow> 'r action \<Rightarrow> bool" where
  "touches p a \<longleftrightarrow> (case a of Take r \<Rightarrow> False | Give q \<Rightarrow> q = p | Fill q f \<Rightarrow> q = p)"

definition granted :: "grants \<Rightarrow> nat set" where
  "granted U = \<Union> (ran U)"

text \<open>No two blocks in use share a byte.\<close>

definition grants_apart :: "grants \<Rightarrow> bool" where
  "grants_apart U \<longleftrightarrow> (\<forall>p A q B. U p = Some A \<and> U q = Some B \<and> p \<noteq> q \<longrightarrow> A \<inter> B = {})"

text \<open>A block that no action of the script names is still in use, with the contents it had.\<close>

definition undisturbed :: "'r action list \<Rightarrow> grants \<Rightarrow> world \<Rightarrow> grants \<Rightarrow> world \<Rightarrow> bool" where
  "undisturbed script U w U' w' \<longleftrightarrow>
     (\<forall>q A. U q = Some A \<and> (\<forall>a\<in>set script. \<not> touches q a) \<longrightarrow>
        U' q = Some A \<and> agree_on A (w_mem w) (w_mem w'))"

lemma granted_part: "U p = Some A \<Longrightarrow> A \<subseteq> granted U"
  by (auto simp: granted_def ran_def)

lemma granted_upd_None: "granted (U(p := None)) \<subseteq> granted U"
  by (auto simp: granted_def ran_def split: if_splits)

lemma granted_empty [simp]: "granted Map.empty = {}"
  by (simp add: granted_def)

subsection \<open>The laws\<close>

text \<open>
  \<open>owns s w F U\<close>: in the world \<open>w\<close> the allocator in state \<open>s\<close> owns the bytes \<open>F\<close>,
  and the blocks in use are granted as \<open>U\<close> says. The laws: the grants are separate parts of
  \<open>F\<close>; a step elsewhere and a write of a user to granted bytes change nothing; the
  allocation of a \<open>legal\<close> request yields a block that is not in use; a block in use can
  always be returned; both operations return; and both leave
  the bytes of every block that stays in use, and all the rest of the address space, alone.
  The laws of a state and of the allocation are the locale \<open>owner\<close>; an \<open>allocator\<close> adds those
  of the way back, of which an arena has two.
\<close>

locale owner =
  fixes owns :: "'s \<Rightarrow> world \<Rightarrow> nat set \<Rightarrow> grants \<Rightarrow> bool"
    and alloc :: "'r \<Rightarrow> 's \<Rightarrow> world \<Rightarrow> (ptr res \<times> 's \<times> world) option"
    and area :: "'s \<Rightarrow> 'r \<Rightarrow> ptr \<Rightarrow> nat set"
    and legal :: "'r \<Rightarrow> bool"
  assumes owns_mapped: "owns s w F U \<Longrightarrow> F \<subseteq> mapped w"
    and owns_part: "owns s w F U \<Longrightarrow> U p = Some A \<Longrightarrow> A \<subseteq> F \<and> p \<noteq> nullptr"
    and owns_apart: "owns s w F U \<Longrightarrow> U p = Some A \<Longrightarrow> U q = Some B \<Longrightarrow> p \<noteq> q \<Longrightarrow> A \<inter> B = {}"
    and owns_frame: "owns s w F U \<Longrightarrow> frame_step G w G' w' \<Longrightarrow> F \<inter> G = {} \<Longrightarrow> owns s w' F U"
    and owns_write: "owns s w F U \<Longrightarrow> agree_on (- granted U) (w_mem w) m' \<Longrightarrow>
          owns s (w\<lparr>w_mem := m'\<rparr>) F U"
    and alloc_returns: "owns s w F U \<Longrightarrow> legal r \<Longrightarrow> alloc r s w \<noteq> None"
    and alloc_ok: "owns s w F U \<Longrightarrow> legal r \<Longrightarrow> alloc r s w = Some (Inr p, s', w') \<Longrightarrow>
          U p = None \<and> agree_on (granted U) (w_mem w) (w_mem w') \<and>
          (\<exists>F'. owns s' w' F' (U(p \<mapsto> area s r p)) \<and> frame_step F w F' w')"
    and alloc_err: "owns s w F U \<Longrightarrow> legal r \<Longrightarrow> alloc r s w = Some (Inl e, s', w') \<Longrightarrow>
          agree_on (granted U) (w_mem w) (w_mem w') \<and>
          (\<exists>F'. owns s' w' F' U \<and> frame_step F w F' w')"
begin

lemma owns_granted: "owns s w F U \<Longrightarrow> granted U \<subseteq> F"
  using owns_part by (fastforce simp: granted_def ran_def)

end

locale allocator = owner owns alloc area legal
  for owns :: "'s \<Rightarrow> world \<Rightarrow> nat set \<Rightarrow> grants \<Rightarrow> bool"
    and alloc :: "'r \<Rightarrow> 's \<Rightarrow> world \<Rightarrow> (ptr res \<times> 's \<times> world) option"
    and free :: "ptr \<Rightarrow> 's \<Rightarrow> world \<Rightarrow> (unit res \<times> 's \<times> world) option"
    and area :: "'s \<Rightarrow> 'r \<Rightarrow> ptr \<Rightarrow> nat set"
    and legal :: "'r \<Rightarrow> bool" +
  assumes free_returns: "owns s w F U \<Longrightarrow> U p \<noteq> None \<Longrightarrow> free p s w \<noteq> None"
    and free_ok: "owns s w F U \<Longrightarrow> U p \<noteq> None \<Longrightarrow> free p s w = Some (x, s', w') \<Longrightarrow>
          x = Inr () \<and> agree_on (granted (U(p := None))) (w_mem w) (w_mem w') \<and>
          (\<exists>F'. owns s' w' F' (U(p := None)) \<and> frame_step F w F' w')"
begin

text \<open>One action: the allocator owns its new state, and a block that the action does not name
  keeps its grant and its contents.\<close>

lemma act_ok:
  assumes o: "owns s w F U" and a: "act alloc free area a (s, w, U) = Some (s', w', U')"
    and lg: "\<And>r. a = Take r \<Longrightarrow> legal r"
  shows "\<exists>F'. owns s' w' F' U' \<and> frame_step F w F' w'"
    and "U q = Some A \<Longrightarrow> \<not> touches q a \<Longrightarrow> U' q = Some A \<and> agree_on A (w_mem w) (w_mem w')"
proof -
  have "(\<exists>F'. owns s' w' F' U' \<and> frame_step F w F' w') \<and>
    (U q = Some A \<longrightarrow> \<not> touches q a \<longrightarrow> U' q = Some A \<and> agree_on A (w_mem w) (w_mem w'))"
  proof (cases a)
    case (Take r)
    obtain x s1 w1 where al: "alloc r s w = Some (x, s1, w1)"
      using alloc_returns [OF o lg [OF Take]] by (cases "alloc r s w") auto
    show ?thesis
    proof (cases x)
      case (Inr p)
      then have eq: "s' = s1" "w' = w1" "U' = U(p \<mapsto> area s r p)" using a Take al by auto
      note A = alloc_ok [OF o lg [OF Take] al [unfolded Inr]]
      have "U' q = Some A \<and> agree_on A (w_mem w) (w_mem w')" if "U q = Some A"
      proof -
        have "q \<noteq> p" using A that by auto
        moreover have "agree_on A (w_mem w) (w_mem w')"
          using A agree_on_mono [OF _ granted_part [of U q A, OF that]] by (auto simp: eq)
        ultimately show ?thesis using that by (simp add: eq)
      qed
      with A show ?thesis unfolding eq by blast
    next
      case (Inl e)
      then have eq: "s' = s1" "w' = w1" "U' = U" using a Take al by auto
      note A = alloc_err [OF o lg [OF Take] al [unfolded Inl]]
      have "agree_on A (w_mem w) (w_mem w')" if "U q = Some A"
        using A agree_on_mono [OF _ granted_part [of U q A, OF that]] by (auto simp: eq)
      with A show ?thesis unfolding eq by blast
    qed
  next
    case (Give p)
    show ?thesis
    proof (cases "U p")
      case None
      then have "s' = s" "w' = w" "U' = U" using a Give by auto
      then show ?thesis using o frame_step_refl [OF owns_mapped [OF o]] by auto
    next
      case (Some B)
      have ne: "U p \<noteq> None" using Some by simp
      obtain x s1 w1 where fr: "free p s w = Some (x, s1, w1)"
        using free_returns [OF o ne] by (cases "free p s w") auto
      then have eq: "s' = s1" "w' = w1" "U' = U(p := None)" using a Give Some by auto
      note A = free_ok [OF o ne fr]
      have "U' q = Some A \<and> agree_on A (w_mem w) (w_mem w')" if "U q = Some A" "\<not> touches q a"
      proof -
        have "U' q = Some A" using that Give by (auto simp: eq touches_def)
        then show ?thesis using A agree_on_mono [OF _ granted_part [of U' q A]] by (auto simp: eq)
      qed
      with A show ?thesis unfolding eq by blast
    qed
  next
    case (Fill p f)
    show ?thesis
    proof (cases "U p")
      case None
      then have "s' = s" "w' = w" "U' = U" using a Fill by auto
      then show ?thesis using o frame_step_refl [OF owns_mapped [OF o]] by auto
    next
      case (Some B)
      define m' where "m' = (\<lambda>x. if x \<in> B then f x else w_mem w x)"
      have eq: "s' = s" "w' = w\<lparr>w_mem := m'\<rparr>" "U' = U" using a Fill Some by (auto simp: m'_def)
      have ag: "agree_on (- B) (w_mem w) m'" by (simp add: agree_on_def m'_def)
      have "owns s (w\<lparr>w_mem := m'\<rparr>) F U"
        using granted_part [of U p B, OF Some] by (intro owns_write [OF o] agree_on_mono [OF ag]) auto
      moreover have "B \<subseteq> F" using owns_part [OF o Some] by simp
      then have "frame_step F w F (w\<lparr>w_mem := m'\<rparr>)"
        by (intro frame_step_write owns_mapped [OF o] agree_on_mono [OF ag]) auto
      moreover have "agree_on A (w_mem w) m'" if "U q = Some A" "\<not> touches q a"
      proof -
        have "q \<noteq> p" using that Fill by (auto simp: touches_def)
        from owns_apart [OF o that(1) Some this] show ?thesis
          by (intro agree_on_mono [OF ag]) auto
      qed
      ultimately show ?thesis by (auto simp: eq)
    qed
  qed
  then show "\<exists>F'. owns s' w' F' U' \<and> frame_step F w F' w'"
    and "U q = Some A \<Longrightarrow> \<not> touches q a \<Longrightarrow> U' q = Some A \<and> agree_on A (w_mem w) (w_mem w')"
    by auto
qed

lemma act_returns:
  assumes o: "owns s w F U" and lg: "\<And>r. a = Take r \<Longrightarrow> legal r"
  shows "act alloc free area a (s, w, U) \<noteq> None"
proof (cases a)
  case (Take r)
  then show ?thesis
    using alloc_returns [OF o lg [OF Take]] by (auto split: option.splits sum.splits)
next
  case (Give p)
  then show ?thesis
    using free_returns [OF o, of p] by (cases "U p"; cases "free p s w") auto
next
  case (Fill p f)
  then show ?thesis by (auto split: option.splits)
qed

text \<open>Any script: it returns, and the same holds of it, by induction.\<close>

lemma run_returns:
  assumes "owns s w F U" and "\<And>r. Take r \<in> set script \<Longrightarrow> legal r"
  shows "run_script alloc free area script (s, w, U) \<noteq> None"
  using assms
proof (induction script arbitrary: s w F U)
  case Nil
  then show ?case by simp
next
  case (Cons a script)
  have lg: "legal r" if "a = Take r" for r using Cons.prems(2) [of r] that by simp
  obtain s1 w1 U1 where st: "act alloc free area a (s, w, U) = Some (s1, w1, U1)"
    using act_returns [OF Cons.prems(1), of a] lg by (cases "act alloc free area a (s, w, U)") auto
  obtain F1 where "owns s1 w1 F1 U1" using act_ok(1) [OF Cons.prems(1) st lg] by blast
  from Cons.IH [OF this] Cons.prems(2) st show ?case by simp
qed

lemma run_ok:
  assumes "owns s w F U" and "run_script alloc free area script (s, w, U) = Some (s', w', U')"
    and "\<And>r. Take r \<in> set script \<Longrightarrow> legal r"
  shows "\<exists>F'. owns s' w' F' U' \<and> frame_step F w F' w'"
    and "U q = Some A \<Longrightarrow> \<forall>a\<in>set script. \<not> touches q a \<Longrightarrow>
           U' q = Some A \<and> agree_on A (w_mem w) (w_mem w')"
proof -
  have "(\<exists>F'. owns s' w' F' U' \<and> frame_step F w F' w') \<and>
    (U q = Some A \<longrightarrow> (\<forall>a\<in>set script. \<not> touches q a) \<longrightarrow>
      U' q = Some A \<and> agree_on A (w_mem w) (w_mem w'))"
    using assms
  proof (induction script arbitrary: s w F U)
    case Nil
    then show ?case using frame_step_refl [OF owns_mapped] by auto
  next
    case (Cons a script)
    obtain s1 w1 U1 where st: "act alloc free area a (s, w, U) = Some (s1, w1, U1)"
      using Cons.prems(2) by (cases "act alloc free area a (s, w, U)") auto
    have lg: "legal r" if "a = Take r" for r using Cons.prems(3) [of r] that by simp
    obtain F1 where F1: "owns s1 w1 F1 U1" "frame_step F w F1 w1"
      using act_ok(1) [OF Cons.prems(1) st lg] by blast
    have rest: "run_script alloc free area script (s1, w1, U1) = Some (s', w', U')"
      using Cons.prems(2) st by simp
    note IH = Cons.IH [OF F1(1) rest Cons.prems(3), simplified]
    have "U' q = Some A \<and> agree_on A (w_mem w) (w_mem w')"
      if q: "U q = Some A" "\<forall>b\<in>set (a # script). \<not> touches q b"
    proof -
      have "U1 q = Some A \<and> agree_on A (w_mem w) (w_mem w1)"
        using act_ok(2) [OF Cons.prems(1) st lg q(1)] q(2) by simp
      with IH q(2) show ?thesis using agree_on_trans by auto
    qed
    with IH F1(2) show ?case using frame_step_trans by blast
  qed
  then show "\<exists>F'. owns s' w' F' U' \<and> frame_step F w F' w'"
    and "U q = Some A \<Longrightarrow> \<forall>a\<in>set script. \<not> touches q a \<Longrightarrow>
           U' q = Some A \<and> agree_on A (w_mem w) (w_mem w')" by auto
qed

text \<open>So after any script no two blocks in use share a byte, every granted byte is mapped, and
  memory that was not the allocator's is as it was.\<close>

lemma run_safe:
  assumes "owns s w F U" and "run_script alloc free area script (s, w, U) = Some (s', w', U')"
    and "\<And>r. Take r \<in> set script \<Longrightarrow> legal r"
  shows "U' p = Some A \<Longrightarrow> U' q = Some B \<Longrightarrow> p \<noteq> q \<Longrightarrow> A \<inter> B = {}"
    and "granted U' \<subseteq> mapped w'"
    and "G \<subseteq> mapped w \<Longrightarrow> G \<inter> F = {} \<Longrightarrow>
           agree_on G (w_mem w) (w_mem w') \<and> G \<subseteq> mapped w' \<and> G \<inter> granted U' = {}"
proof -
  obtain F' where F': "owns s' w' F' U'" "frame_step F w F' w'" using run_ok(1) [OF assms] by blast
  show "U' p = Some A \<Longrightarrow> U' q = Some B \<Longrightarrow> p \<noteq> q \<Longrightarrow> A \<inter> B = {}"
    using owns_apart [OF F'(1)] by blast
  show "granted U' \<subseteq> mapped w'" using owns_granted [OF F'(1)] owns_mapped [OF F'(1)] by blast
  show "agree_on G (w_mem w) (w_mem w') \<and> G \<subseteq> mapped w' \<and> G \<inter> granted U' = {}"
    if "G \<subseteq> mapped w" "G \<inter> F = {}"
    using frame_step_mem [OF that(2,1) F'(2)] owns_granted [OF F'(1)] by blast
qed

text \<open>The whole guarantee of a run, in one statement.\<close>

lemma run_spec:
  assumes o: "owns s w F U" and lg: "\<forall>r. Take r \<in> set script \<longrightarrow> legal r"
  shows "\<exists>s' w' U' F'. run_script alloc free area script (s, w, U) = Some (s', w', U') \<and>
    owns s' w' F' U' \<and> frame_step F w F' w' \<and> granted U' \<subseteq> mapped w' \<and> grants_apart U' \<and>
    undisturbed script U w U' w'"
proof -
  have lg': "\<And>r. Take r \<in> set script \<Longrightarrow> legal r" using lg by simp
  have "run_script alloc free area script (s, w, U) \<noteq> None" by (rule run_returns [OF o]) (rule lg')
  then obtain s' w' U' where run: "run_script alloc free area script (s, w, U) = Some (s', w', U')"
    by (cases "run_script alloc free area script (s, w, U)") auto
  obtain F' where F': "owns s' w' F' U'" "frame_step F w F' w'"
    using run_ok(1) [OF o run lg'] by blast
  have "grants_apart U'" using owns_apart [OF F'(1)] unfolding grants_apart_def by blast
  moreover have "undisturbed script U w U' w'"
    using run_ok(2) [OF o run lg'] unfolding undisturbed_def by blast
  moreover have "granted U' \<subseteq> mapped w'" using owns_granted [OF F'(1)] owns_mapped [OF F'(1)] by blast
  ultimately show ?thesis using run F' by blast
qed

end

end
