(* ===== verification/Size_Class.thy ===== *)
theory Size_Class
  imports Slab Allocator_Contract "HOL-Library.Multiset"
begin

section \<open>Size classes\<close>

text \<open>
  Models \<open>NodeLocalAllocator\<close>, the vector of slabs it backs, and class \<open>SizeClass\<close> of
  \<open>size_divide/small_object\<close>. One critical section of a size class is one function: the
  mutex makes it atomic. The list of a batch could be cyclic in memory, so its loop is a
  partial function whose value is \<open>None\<close> when it does not return. The invariant
  \<open>sc_inv\<close> says which bytes the class owns and how they are laid out; the relation
  \<open>sc_rep\<close> ties a class to the set of blocks in use, and every operation refines the
  corresponding operation on that set.
\<close>

subsection \<open>NodeLocalAllocator and the slab vector\<close>

text \<open>\<open>sizeof(Slab*)\<close> is 8. The vector keeps its elements, its capacity and its storage.\<close>

definition nla_allocate :: "os \<Rightarrow> int \<Rightarrow> u64 \<Rightarrow> u64 \<Rightarrow> world \<Rightarrow> ptr res \<times> world" where
  "nla_allocate os node_id sizeof_T n w =
    (if n > size_max div sizeof_T then (Inl Bad_array_new_length, w)
     else vm_alloc_on_node os (n * sizeof_T) node_id Bind w)"

definition nla_deallocate :: "os \<Rightarrow> u64 \<Rightarrow> ptr \<Rightarrow> u64 \<Rightarrow> world \<Rightarrow> world" where
  "nla_deallocate os sizeof_T p n w = vm_release os p (n * sizeof_T) w"

definition nla_eq :: "int \<Rightarrow> int \<Rightarrow> bool" where
  "nla_eq lhs_node rhs_node \<longleftrightarrow> lhs_node = rhs_node"

definition nla_neq :: "int \<Rightarrow> int \<Rightarrow> bool" where
  "nla_neq lhs_node rhs_node \<longleftrightarrow> \<not> nla_eq lhs_node rhs_node"

record node_vec =
  nv_items :: "ptr list"
  nv_cap :: nat
  nv_data :: ptr

definition empty_vec :: node_vec where
  "empty_vec = \<lparr>nv_items = [], nv_cap = 0, nv_data = nullptr\<rparr>"

text \<open>\<open>max_size()\<close> of a vector of pointers.\<close>

definition vec_max :: nat where
  "vec_max = (2 ^ 63 - 1) div 8"

definition vec_push_back :: "os \<Rightarrow> int \<Rightarrow> node_vec \<Rightarrow> ptr \<Rightarrow> world \<Rightarrow> node_vec res \<times> world" where
  "vec_push_back os node_id v x w =
    (if length (nv_items v) < nv_cap v then (Inr (v\<lparr>nv_items := nv_items v @ [x]\<rparr>), w)
     else if vec_max \<le> length (nv_items v) then (Inl Length_error, w)
     else
       let n = min (os_vector_grow os (length (nv_items v))) vec_max in
       case nla_allocate os node_id 8 (of_nat n) w of
         (Inl e, w1) \<Rightarrow> (Inl e, w1)
       | (Inr p, w1) \<Rightarrow>
           (Inr \<lparr>nv_items = nv_items v @ [x], nv_cap = n, nv_data = p\<rparr>,
            (if nv_cap v = 0 then w1 else nla_deallocate os 8 (nv_data v) (of_nat (nv_cap v)) w1)))"

definition vec_destroy :: "os \<Rightarrow> node_vec \<Rightarrow> world \<Rightarrow> world" where
  "vec_destroy os v w =
    (if nv_cap v = 0 then w else nla_deallocate os 8 (nv_data v) (of_nat (nv_cap v)) w)"

subsection \<open>SizeClass\<close>

record size_class =
  sc_block_size :: u64
  sc_node_id :: int
  sc_sync :: bool
  sc_current :: ptr
  sc_slabs :: node_vec

definition sc_new :: "u64 \<Rightarrow> int \<Rightarrow> bool \<Rightarrow> size_class" where
  "sc_new block_size node_id sync =
    \<lparr>sc_block_size = block_size, sc_node_id = node_id, sc_sync = sync, sc_current = nullptr,
     sc_slabs = empty_vec\<rparr>"

definition sc_destroy :: "os \<Rightarrow> size_class \<Rightarrow> world \<Rightarrow> world" where
  "sc_destroy os sc w =
    (let w1 = fold (\<lambda>slab w. vm_release os slab SLAB_SIZE w) (nv_items (sc_slabs sc)) w
     in vec_destroy os (sc_slabs sc) w1)"

text \<open>The part that the three allocation functions share: \<open>current_\<close> if it has a free
  block, else the first slab that has one, which becomes \<open>current_\<close>.\<close>

definition sc_take_from :: "ptr \<Rightarrow> size_class \<Rightarrow> world \<Rightarrow> ptr \<times> size_class \<times> world" where
  "sc_take_from slab sc w =
    (let (b, m) = slab_allocate_block slab (w_mem w) in (b, sc, w\<lparr>w_mem := m\<rparr>))"

definition sc_scan :: "size_class \<Rightarrow> world \<Rightarrow> (ptr \<times> size_class \<times> world) option" where
  "sc_scan sc w =
    (if sc_current sc \<noteq> nullptr \<and> slab_has_free (w_mem w) (sc_current sc)
     then Some (sc_take_from (sc_current sc) sc w)
     else case find (slab_has_free (w_mem w)) (nv_items (sc_slabs sc)) of
       Some slab \<Rightarrow> Some (sc_take_from slab (sc\<lparr>sc_current := slab\<rparr>) w)
     | None \<Rightarrow> None)"

definition sc_grow :: "os \<Rightarrow> size_class \<Rightarrow> world \<Rightarrow> ptr res \<times> size_class \<times> world" where
  "sc_grow os sc w =
    (case slab_create os (sc_block_size sc) (sc_node_id sc) w of
       (Inl e, w1) \<Rightarrow> (Inl e, sc, w1)
     | (Inr slab, w1) \<Rightarrow>
         (let sc1 = sc\<lparr>sc_current := slab\<rparr> in
          case vec_push_back os (sc_node_id sc1) (sc_slabs sc1) slab w1 of
            (Inl e, w2) \<Rightarrow> (Inl e, sc1, w2)
          | (Inr v, w2) \<Rightarrow>
              (let (b, sc2, w3) = sc_take_from slab (sc1\<lparr>sc_slabs := v\<rparr>) w2
               in (Inr b, sc2, w3))))"

definition sc_allocate :: "os \<Rightarrow> size_class \<Rightarrow> world \<Rightarrow> ptr res \<times> size_class \<times> world" where
  "sc_allocate os sc w =
    (case sc_scan sc w of
       Some (b, sc1, w1) \<Rightarrow> (Inr b, sc1, w1)
     | None \<Rightarrow> sc_grow os sc w)"

definition sc_allocate_existing :: "size_class \<Rightarrow> world \<Rightarrow> ptr \<times> size_class \<times> world" where
  "sc_allocate_existing sc w =
    (case sc_scan sc w of
       Some r \<Rightarrow> r
     | None \<Rightarrow> (nullptr, sc, w))"

definition sc_allocate_new_slab ::
  "os \<Rightarrow> size_class \<Rightarrow> world \<Rightarrow> ptr res \<times> size_class \<times> world" where
  "sc_allocate_new_slab os sc w =
    (case sc_scan sc w of
       Some (b, sc1, w1) \<Rightarrow> (Inr b, sc1, w1)
     | None \<Rightarrow> sc_grow os sc w)"

text \<open>\<open>std::swap(slabs_[i], slabs_.back()); slabs_.pop_back();\<close>\<close>

definition swap_pop :: "nat \<Rightarrow> ptr list \<Rightarrow> ptr list" where
  "swap_pop i slabs =
     butlast (slabs[i := slabs ! (length slabs - 1), length slabs - 1 := slabs ! i])"

lemma length_swap_pop [simp]: "length (swap_pop i slabs) = length slabs - 1"
  by (simp add: swap_pop_def)

text \<open>The loop of \<open>release_extra_empty_slabs_locked\<close>, over \<open>i\<close>, \<open>slabs_\<close>,
  \<open>retained_empty_slab\<close>, \<open>current_\<close> and the memory.\<close>

function sc_release_loop ::
  "os \<Rightarrow> nat \<Rightarrow> ptr list \<Rightarrow> ptr \<Rightarrow> ptr \<Rightarrow> world \<Rightarrow> ptr list \<times> ptr \<times> ptr \<times> world" where
  "sc_release_loop os i slabs retained current w =
    (if i < length slabs then
       let slab = slabs ! i in
       if \<not> slab_is_empty (w_mem w) slab then
         sc_release_loop os (Suc i) slabs retained current w
       else if retained = nullptr then
         sc_release_loop os (Suc i) slabs slab current w
       else
         sc_release_loop os i (swap_pop i slabs) retained
           (if current = slab then nullptr else current)
           (vm_release os slab SLAB_SIZE w)
     else (slabs, retained, current, w))"
  by pat_completeness auto
termination
  by (relation "measure (\<lambda>(os, i, slabs, retained, current, w). length slabs - i)") auto

declare sc_release_loop.simps [simp del]

definition sc_release_extra :: "os \<Rightarrow> size_class \<Rightarrow> world \<Rightarrow> size_class \<times> world" where
  "sc_release_extra os sc w =
    (let (slabs, retained, current, w1) =
           sc_release_loop os 0 (nv_items (sc_slabs sc)) nullptr (sc_current sc) w;
         current = (if current \<noteq> nullptr \<and> current \<notin> set slabs then nullptr else current);
         current = (if (current = nullptr \<or> \<not> slab_has_free (w_mem w1) current) \<and>
                       retained \<noteq> nullptr
                    then retained else current)
     in (sc\<lparr>sc_slabs := (sc_slabs sc)\<lparr>nv_items := slabs\<rparr>, sc_current := current\<rparr>, w1))"

definition sc_deallocate ::
  "os \<Rightarrow> ptr \<Rightarrow> size_class \<Rightarrow> world \<Rightarrow> unit res \<times> size_class \<times> world" where
  "sc_deallocate os p sc w =
    (let slab = bh_raw_ptr (w_mem w) p in
     if slab = nullptr then (Inl Invalid_argument, sc, w)
     else
       let w1 = w\<lparr>w_mem := slab_free_block slab p (w_mem w)\<rparr> in
       if slab_is_empty (w_mem w1) slab then
         let (sc1, w2) = sc_release_extra os sc w1 in (Inr (), sc1, w2)
       else (Inr (), sc, w1))"

text \<open>The loop of \<open>deallocate_batch\<close>: the flag says whether an empty slab was seen.\<close>

partial_function (option) sc_batch_loop :: "ptr \<Rightarrow> bool \<Rightarrow> mem \<Rightarrow> (bool res \<times> mem) option" where
  "sc_batch_loop head saw m =
    (if head = nullptr then Some (Inr saw, m)
     else
       let head' = next_link m head;
           slab = bh_raw_ptr m head
       in if slab = nullptr then Some (Inl Invalid_argument, m)
          else
            let m1 = slab_free_block slab head m
            in sc_batch_loop head' (saw \<or> slab_is_empty m1 slab) m1)"

definition sc_deallocate_batch ::
  "os \<Rightarrow> ptr \<Rightarrow> size_class \<Rightarrow> world \<Rightarrow> (unit res \<times> size_class \<times> world) option" where
  "sc_deallocate_batch os head sc w =
    (if head = nullptr then Some (Inr (), sc, w)
     else case sc_batch_loop head False (w_mem w) of
       None \<Rightarrow> None
     | Some (Inl e, m) \<Rightarrow> Some (Inl e, sc, w\<lparr>w_mem := m\<rparr>)
     | Some (Inr saw, m) \<Rightarrow>
         (if saw then
            let (sc1, w1) = sc_release_extra os sc (w\<lparr>w_mem := m\<rparr>) in Some (Inr (), sc1, w1)
          else Some (Inr (), sc, w\<lparr>w_mem := m\<rparr>)))"

subsection \<open>What a size class owns\<close>

text \<open>
  When the vector cannot grow, a slab that was just created stays \<open>current_\<close> without
  being in \<open>slabs_\<close>. Such slabs are the ghost argument \<open>orph\<close>: they are served from
  and freed into like the others, but no loop over \<open>slabs_\<close> finds them.
\<close>

definition sc_all :: "size_class \<Rightarrow> ptr list \<Rightarrow> ptr list" where
  "sc_all sc orph = nv_items (sc_slabs sc) @ orph"

definition vec_bytes :: "os \<Rightarrow> node_vec \<Rightarrow> nat set" where
  "vec_bytes os v = (if nv_cap v = 0 then {} else
     bytes_of (nv_data v) (span_bytes os (of_nat (nv_cap v) * 8)))"

definition slabs_bytes :: "ptr list \<Rightarrow> nat set" where
  "slabs_bytes ss = (\<Union>s\<in>set ss. bytes_of s 65536)"

definition sc_foot :: "os \<Rightarrow> size_class \<Rightarrow> ptr list \<Rightarrow> nat set" where
  "sc_foot os sc orph = slabs_bytes (sc_all sc orph) \<union> vec_bytes os (sc_slabs sc)"

definition sc_live :: "size_class \<Rightarrow> ptr list \<Rightarrow> mem \<Rightarrow> ptr set" where
  "sc_live sc orph m = (\<Union>s\<in>set (sc_all sc orph). slab_live m (sc_block_size sc) s)"

definition slabs_apart :: "ptr list \<Rightarrow> bool" where
  "slabs_apart ss \<longleftrightarrow> distinct ss \<and>
     (\<forall>s\<in>set ss. \<forall>t\<in>set ss. s \<noteq> t \<longrightarrow> bytes_of s 65536 \<inter> bytes_of t 65536 = {})"

definition vec_ok :: "os \<Rightarrow> node_vec \<Rightarrow> bool" where
  "vec_ok os v \<longleftrightarrow> length (nv_items v) \<le> nv_cap v \<and> nv_cap v \<le> vec_max \<and>
     (nv_cap v \<noteq> 0 \<longrightarrow> nv_data v \<noteq> nullptr \<and> unat (page_size os) dvd unat (nv_data v))"

definition slab_inv :: "os \<Rightarrow> u64 \<Rightarrow> int \<Rightarrow> world \<Rightarrow> ptr \<Rightarrow> bool" where
  "slab_inv os bs node w s \<longleftrightarrow> slab_place s bs \<and> unat (page_size os) dvd unat s \<and>
     slab_ok (w_mem w) bs s \<and> (\<forall>x\<in>bytes_of s 65536. w_policy w x = node_policy os node)"

definition sc_inv :: "os \<Rightarrow> size_class \<Rightarrow> ptr list \<Rightarrow> world \<Rightarrow> bool" where
  "sc_inv os sc orph w \<longleftrightarrow>
     0 < unat (sc_block_size sc) \<and> unat (sc_block_size sc) \<le> 4096 \<and>
     (\<forall>s\<in>set (sc_all sc orph). slab_inv os (sc_block_size sc) (sc_node_id sc) w s) \<and>
     slabs_apart (sc_all sc orph) \<and>
     vec_ok os (sc_slabs sc) \<and>
     slabs_bytes (sc_all sc orph) \<inter> vec_bytes os (sc_slabs sc) = {} \<and>
     sc_foot os sc orph \<subseteq> mapped w \<and>
     (sc_current sc = nullptr \<or> sc_current sc \<in> set (sc_all sc orph))"


subsection \<open>Vector storage\<close>

lemma vec_max_value: "vec_max = 1152921504606846975"
  by (simp add: vec_max_def)

lemma unat_vec_size:
  assumes "n \<le> vec_max"
  shows "unat (of_nat n * 8 :: u64) = n * 8" and "os_ok os \<Longrightarrow> fits_page os (of_nat n * 8)"
    and "n \<noteq> 0 \<Longrightarrow> (of_nat n * 8 :: u64) \<noteq> 0"
proof -
  have n: "n \<le> 1152921504606846975" using assms by (simp add: vec_max_value)
  have u: "unat (of_nat n :: u64) = n" using n by (simp add: unat_of_nat_u64)
  then show v: "unat (of_nat n * 8 :: u64) = n * 8"
    using n by (subst unat_mult_u64) auto
  show "os_ok os \<Longrightarrow> fits_page os (of_nat n * 8)"
    using os_ok_page_le [of os] n by (simp add: fits_page_def v)
  show "n \<noteq> 0 \<Longrightarrow> (of_nat n * 8 :: u64) \<noteq> 0"
  proof
    assume "n \<noteq> 0" and "(of_nat n * 8 :: u64) = 0"
    then show False using v by simp
  qed
qed

lemma vec_bytes_nonempty: "nv_cap v \<noteq> 0 \<Longrightarrow> vec_bytes os v = bytes_of (nv_data v) (span_bytes os (of_nat (nv_cap v) * 8))"
  by (simp add: vec_bytes_def)

lemma vec_release_frame:
  assumes "os_ok os" and "vec_ok os v" and "vec_bytes os v \<subseteq> mapped w"
  shows "frame_step (vec_bytes os v) w {} (vec_destroy os v w)"
proof (cases "nv_cap v = 0")
  case True
  then show ?thesis by (simp add: vec_destroy_def vec_bytes_def frame_step_refl)
next
  case False
  have c: "nv_cap v \<le> vec_max" using assms(2) by (simp add: vec_ok_def)
  show ?thesis
    using assms False unat_vec_size [OF c]
    by (simp add: vec_destroy_def nla_deallocate_def vec_bytes_nonempty vec_ok_def vm_release_frame)
qed

lemma vec_push_back_Inr:
  assumes os: "os_ok os" and v: "vec_ok os v" and sub: "vec_bytes os v \<subseteq> mapped w"
    and push: "vec_push_back os node v x w = (Inr v', w')"
  shows "nv_items v' = nv_items v @ [x]" and "vec_ok os v'"
    and "frame_step (vec_bytes os v) w (vec_bytes os v') w'"
proof -
  have "nv_items v' = nv_items v @ [x] \<and> vec_ok os v' \<and>
      frame_step (vec_bytes os v) w (vec_bytes os v') w'"
  proof (cases "length (nv_items v) < nv_cap v")
    case True
    then show ?thesis
      using push v sub by (auto simp: vec_push_back_def vec_ok_def vec_bytes_def intro: frame_step_refl)
  next
    case False
    define n where "n = min (os_vector_grow os (length (nv_items v))) vec_max"
    from push False obtain p w1 where
      lt: "\<not> vec_max \<le> length (nv_items v)" and
      a: "nla_allocate os node 8 (of_nat n) w = (Inr p, w1)" and
      v': "v' = \<lparr>nv_items = nv_items v @ [x], nv_cap = n, nv_data = p\<rparr>" and
      w': "w' = vec_destroy os v w1"
      by (auto simp: vec_push_back_def n_def [symmetric] Let_def vec_destroy_def
          split: if_splits prod.splits sum.splits)
    have n: "n \<le> vec_max" "length (nv_items v) < n" "n \<noteq> 0"
      using lt os_ok_grow [OF os, of "length (nv_items v)"] by (auto simp: n_def)
    note u = unat_vec_size [OF n(1)]
    from a have al: "vm_alloc_on_node os (of_nat n * 8) node Bind w = (Inr p, w1)"
      by (simp add: nla_allocate_def split: if_splits)
    note A = vm_alloc_on_node_Inr [OF os u(3) [OF n(3)] u(2) [OF os] al]
    have vb: "vec_bytes os v' = bytes_of p (span_bytes os (of_nat n * 8))"
      using n(3) by (simp add: v' vec_bytes_def)
    have "frame_step (vec_bytes os v) w (vec_bytes os v' \<union> vec_bytes os v) w1"
      using frame_step_extend [OF A(1) sub] by (simp add: vb)
    moreover have "frame_step (vec_bytes os v) w1 {} w'"
      unfolding w' using A(1) sub by (intro vec_release_frame [OF os v]) (auto simp: frame_step_def)
    then have "frame_step (vec_bytes os v \<union> vec_bytes os v') w1 ({} \<union> vec_bytes os v') w'"
      using A(1) sub by (intro frame_step_extend) (auto simp: frame_step_def vb)
    ultimately have "frame_step (vec_bytes os v) w (vec_bytes os v') w'"
      using frame_step_trans by (simp add: Un_commute)
    then show ?thesis using n A by (simp add: v' vec_ok_def)
  qed
  then show "nv_items v' = nv_items v @ [x]" and "vec_ok os v'"
    and "frame_step (vec_bytes os v) w (vec_bytes os v') w'" by auto
qed

lemma vec_push_back_Inl:
  assumes os: "os_ok os" and push: "vec_push_back os node v x w = (Inl e, w')"
  shows "frame_step {} w {} w'"
proof -
  define n where "n = min (os_vector_grow os (length (nv_items v))) vec_max"
  consider "w' = w" | "n \<noteq> 0" "n \<le> vec_max" "nla_allocate os node 8 (of_nat n) w = (Inl e, w')"
    using push os_ok_grow [OF os, of "length (nv_items v)"]
    by (fastforce simp: vec_push_back_def n_def [symmetric] Let_def n_def vec_max_value
        split: if_splits prod.splits sum.splits)
  then show ?thesis
  proof cases
    case 1
    then show ?thesis by (simp add: frame_step_refl)
  next
    case 2
    note u = unat_vec_size [OF 2(2)]
    from 2(3) consider "w' = w"
      | "vm_alloc_on_node os (of_nat n * 8) node Bind w = (Inl e, w')"
      by (auto simp: nla_allocate_def split: if_splits)
    then show ?thesis
    proof cases
      case 1
      then show ?thesis by (simp add: frame_step_refl)
    next
      case 2
      then show ?thesis
        using vm_alloc_on_node_Inl(2) [OF os u(3) u(2) [OF os]] \<open>n \<noteq> 0\<close> by blast
    qed
  qed
qed

subsection \<open>Slabs of one class\<close>

lemma slab_block_in_bytes:
  assumes "slab_place s bs" and "b \<in> set (slab_blocks s bs)"
  shows "{unat b ..< unat b + slab_stride bs} \<subseteq> bytes_of s 65536" and "unat b \<in> bytes_of s 65536"
proof -
  have "48 \<le> slab_stride bs" using slab_stride_bounds(1) assms(1) by (simp add: slab_place_def)
  then show "{unat b ..< unat b + slab_stride bs} \<subseteq> bytes_of s 65536"
    and "unat b \<in> bytes_of s 65536"
    using slab_block_bounds(1,2) [OF assms] by (auto simp: bytes_of_def)
qed

lemma slabs_apart_block:
  assumes "slabs_apart ss" and "s \<in> set ss" and "t \<in> set ss"
    and "slab_place s bs" and "slab_place t bs"
    and "b \<in> set (slab_blocks s bs)" and "b \<in> set (slab_blocks t bs)"
  shows "s = t"
  using assms slab_block_in_bytes(2) [OF assms(4,6)] slab_block_in_bytes(2) [OF assms(5,7)]
  unfolding slabs_apart_def by blast

lemma sc_inv_slab: "sc_inv os sc orph w \<Longrightarrow> s \<in> set (sc_all sc orph) \<Longrightarrow>
    slab_place s (sc_block_size sc) \<and> slab_ok (w_mem w) (sc_block_size sc) s \<and>
    unat (page_size os) dvd unat s"
  by (simp add: sc_inv_def slab_inv_def)

lemma sc_live_obtain:
  assumes "sc_inv os sc orph w" and "b \<in> sc_live sc orph (w_mem w)"
  obtains s where "s \<in> set (sc_all sc orph)" and "b \<in> slab_live (w_mem w) (sc_block_size sc) s"
    and "bh_raw_ptr (w_mem w) b = s" and "bh_total_size (w_mem w) b = SLAB_SIZE"
    and "b \<in> set (slab_blocks s (sc_block_size sc))"
proof -
  from assms(2) obtain s where s: "s \<in> set (sc_all sc orph)"
    "b \<in> slab_live (w_mem w) (sc_block_size sc) s"
    by (auto simp: sc_live_def)
  with sc_inv_slab [OF assms(1) s(1)] show thesis
    by (intro that) (auto simp: slab_ok_def slab_live_def)
qed

lemma sc_live_nonnull:
  assumes inv: "sc_inv os sc orph w" and b: "b \<in> sc_live sc orph (w_mem w)"
  shows "b \<noteq> nullptr"
proof -
  obtain s where s: "s \<in> set (sc_all sc orph)" "b \<in> set (slab_blocks s (sc_block_size sc))"
    using sc_live_obtain [OF inv b] by metis
  from slab_block_bounds(4) [OF _ s(2)] sc_inv_slab [OF inv s(1)] show ?thesis by simp
qed

text \<open>The whole of every block in use: header and user area.\<close>

definition live_bytes :: "size_class \<Rightarrow> ptr set \<Rightarrow> nat set" where
  "live_bytes sc L = (\<Union>b\<in>L. {unat b ..< unat b + slab_stride (sc_block_size sc)})"

text \<open>Changing one slab of the class.\<close>

lemma sc_inv_slab_update:
  assumes inv: "sc_inv os sc orph w" and s: "s \<in> set (sc_all sc orph)"
    and ag: "agree_on (- bytes_of s 65536) (w_mem w) m'"
    and ok: "slab_ok m' (sc_block_size sc) s"
  shows "sc_inv os sc orph (w\<lparr>w_mem := m'\<rparr>)"
    and "frame_step (sc_foot os sc orph) w (sc_foot os sc orph) (w\<lparr>w_mem := m'\<rparr>)"
    and "sc_live sc orph m' =
           (sc_live sc orph (w_mem w) - slab_live (w_mem w) (sc_block_size sc) s) \<union>
           slab_live m' (sc_block_size sc) s"
proof -
  let ?bs = "sc_block_size sc"
  have other: "slab_ok m' ?bs t \<and> slab_live m' ?bs t = slab_live (w_mem w) ?bs t"
    if t: "t \<in> set (sc_all sc orph)" "t \<noteq> s" for t
  proof -
    have "bytes_of t 65536 \<inter> bytes_of s 65536 = {}"
      using inv s t by (simp add: sc_inv_def slabs_apart_def)
    then have "agree_on (bytes_of t 65536) (w_mem w) m'"
      by (intro agree_on_mono [OF ag]) auto
    then show ?thesis
      using slab_ok_outside sc_inv_slab [OF inv t(1)] by blast
  qed
  have "slab_inv os ?bs (sc_node_id sc) (w\<lparr>w_mem := m'\<rparr>) t" if "t \<in> set (sc_all sc orph)" for t
    using inv that other [OF that] ok by (cases "t = s") (auto simp: sc_inv_def slab_inv_def)
  then show "sc_inv os sc orph (w\<lparr>w_mem := m'\<rparr>)"
    using inv by (simp add: sc_inv_def)
  have "bytes_of s 65536 \<subseteq> sc_foot os sc orph" using s by (auto simp: sc_foot_def slabs_bytes_def)
  then show "frame_step (sc_foot os sc orph) w (sc_foot os sc orph) (w\<lparr>w_mem := m'\<rparr>)"
    using inv ag by (intro frame_step_write agree_on_mono [OF ag]) (auto simp: sc_inv_def)
  have disj: "slab_live (w_mem w) ?bs t \<inter> slab_live (w_mem w) ?bs s = {}"
    if t: "t \<in> set (sc_all sc orph)" "t \<noteq> s" for t
    using slabs_apart_block [of "sc_all sc orph" t s ?bs] inv s t sc_inv_slab [OF inv]
    by (fastforce simp: sc_inv_def slab_live_def)
  have "sc_live sc orph m' = (\<Union>t\<in>set (sc_all sc orph) - {s}. slab_live m' ?bs t) \<union> slab_live m' ?bs s"
    using s by (auto simp: sc_live_def)
  also have "(\<Union>t\<in>set (sc_all sc orph) - {s}. slab_live m' ?bs t) =
      (\<Union>t\<in>set (sc_all sc orph) - {s}. slab_live (w_mem w) ?bs t)"
    using other by auto
  also have "\<dots> = sc_live sc orph (w_mem w) - slab_live (w_mem w) ?bs s"
    using disj by (fastforce simp: sc_live_def)
  finally show "sc_live sc orph m' =
      (sc_live sc orph (w_mem w) - slab_live (w_mem w) ?bs s) \<union> slab_live m' ?bs s" .
qed

lemma sc_inv_current:
  "sc_inv os sc orph w \<Longrightarrow> c = nullptr \<or> c \<in> set (sc_all sc orph) \<Longrightarrow>
   sc_inv os (sc\<lparr>sc_current := c\<rparr>) orph w"
  by (simp add: sc_inv_def sc_all_def sc_foot_def)

lemma sc_update_simps [simp]:
  "sc_all (sc\<lparr>sc_current := c\<rparr>) orph = sc_all sc orph"
  "sc_foot os (sc\<lparr>sc_current := c\<rparr>) orph = sc_foot os sc orph"
  "sc_live (sc\<lparr>sc_current := c\<rparr>) orph m = sc_live sc orph m"
  "live_bytes (sc\<lparr>sc_current := c\<rparr>) L = live_bytes sc L"
  by (simp_all add: sc_all_def sc_foot_def sc_live_def live_bytes_def)


subsection \<open>Allocation\<close>

text \<open>Taking from a slab of the class that has a free block.\<close>

lemma sc_take_from_ok:
  assumes inv: "sc_inv os sc orph w" and s: "s \<in> set (sc_all sc orph)"
    and hf: "slab_has_free (w_mem w) s" and take: "sc_take_from s sc w = (b, sc', w')"
  shows "sc' = sc" and "sc_inv os sc orph w'"
    and "frame_step (sc_foot os sc orph) w (sc_foot os sc orph) w'"
    and "b \<noteq> nullptr" and "b \<notin> sc_live sc orph (w_mem w)"
    and "sc_live sc orph (w_mem w') = insert b (sc_live sc orph (w_mem w))"
    and "agree_on (live_bytes sc (sc_live sc orph (w_mem w))) (w_mem w) (w_mem w')"
    and "w_maps w' = w_maps w"
proof -
  let ?bs = "sc_block_size sc" and ?L = "sc_live sc orph (w_mem w)"
  obtain m' where a: "slab_allocate_block s (w_mem w) = (b, m')" and w': "w' = w\<lparr>w_mem := m'\<rparr>"
    and sc': "sc' = sc"
    using take by (auto simp: sc_take_from_def split: prod.splits)
  note S = sc_inv_slab [OF inv s]
  then have place: "slab_place s ?bs" and ok: "slab_ok (w_mem w) ?bs s" by auto
  note A = slab_allocate_block_ok [OF place ok hf a]
  have bs: "unat ?bs \<le> 4096" using place by (simp add: slab_place_def)
  note st = slab_stride_bounds(1) [OF bs]
  have tb: "take_bytes s b \<subseteq> bytes_of s 65536"
    using slab_block_bounds(1,2) [OF place A(3)] st by (auto simp: take_bytes_def bytes_of_def)
  then have ag: "agree_on (- bytes_of s 65536) (w_mem w) m'"
    by (intro agree_on_mono [OF A(6)]) auto
  note U = sc_inv_slab_update [OF inv s ag A(2)]
  have b: "b \<notin> slab_live (w_mem w) ?bs t" if "t \<in> set (sc_all sc orph)" for t
    using slabs_apart_block [of "sc_all sc orph" t s ?bs b] inv s that sc_inv_slab [OF inv] A(3,4)
    by (fastforce simp: sc_inv_def slab_live_def)
  then show nl: "b \<notin> ?L" by (auto simp: sc_live_def)
  show "sc' = sc" by (rule sc')
  show "sc_inv os sc orph w'" "frame_step (sc_foot os sc orph) w (sc_foot os sc orph) w'"
    using U by (simp_all add: w')
  show "b \<noteq> nullptr" using slab_block_bounds(4) [OF place A(3)] .
  show "w_maps w' = w_maps w" by (simp add: w')
  show "sc_live sc orph (w_mem w') = insert b ?L"
    using U(3) A(5) s by (auto simp: w' sc_live_def)
  have "{unat c ..< unat c + slab_stride ?bs} \<inter> take_bytes s b = {}" if c: "c \<in> ?L" for c
  proof -
    obtain t where t: "t \<in> set (sc_all sc orph)" "c \<in> set (slab_blocks t ?bs)"
      using sc_live_obtain [OF inv c] by metis
    note C = slab_block_in_bytes [OF sc_inv_slab [OF inv t(1), THEN conjunct1] t(2)]
    show ?thesis
    proof (cases "t = s")
      case True
      have "c \<noteq> b" using c nl by auto
      then show ?thesis
        using slab_block_apart [OF place A(3) t(2) [unfolded True]] st
          slab_block_bounds(1) [OF place t(2) [unfolded True]]
        by (auto simp: take_bytes_def)
    next
      case False
      then have "bytes_of t 65536 \<inter> bytes_of s 65536 = {}"
        using inv s t by (simp add: sc_inv_def slabs_apart_def)
      with C tb show ?thesis by blast
    qed
  qed
  then have "live_bytes sc ?L \<subseteq> - take_bytes s b" by (auto simp: live_bytes_def)
  then show "agree_on (live_bytes sc ?L) (w_mem w) (w_mem w')"
    using agree_on_mono [OF A(6)] w' by simp
qed

lemma sc_scan_Some:
  assumes inv: "sc_inv os sc orph w" and scan: "sc_scan sc w = Some (b, sc', w')"
  shows "sc_inv os sc' orph w'"
    and "frame_step (sc_foot os sc orph) w (sc_foot os sc' orph) w'"
    and "b \<noteq> nullptr" and "b \<notin> sc_live sc orph (w_mem w)"
    and "sc_live sc' orph (w_mem w') = insert b (sc_live sc orph (w_mem w))"
    and "agree_on (live_bytes sc (sc_live sc orph (w_mem w))) (w_mem w) (w_mem w')"
    and "\<exists>c. sc' = sc\<lparr>sc_current := c\<rparr>"
proof -
  obtain s where s: "s \<in> set (sc_all sc orph)" "slab_has_free (w_mem w) s"
    and take: "sc_take_from s (sc\<lparr>sc_current := s\<rparr>) w = (b, sc', w')"
  proof (cases "sc_current sc \<noteq> nullptr \<and> slab_has_free (w_mem w) (sc_current sc)")
    case True
    then have "sc_take_from (sc_current sc) sc w = (b, sc', w')"
      using scan by (simp add: sc_scan_def)
    then have "sc_take_from (sc_current sc) (sc\<lparr>sc_current := sc_current sc\<rparr>) w = (b, sc', w')"
      by simp
    moreover have "sc_current sc \<in> set (sc_all sc orph)" using inv True by (simp add: sc_inv_def)
    ultimately show thesis using True that by blast
  next
    case False
    then obtain s where f: "find (slab_has_free (w_mem w)) (nv_items (sc_slabs sc)) = Some s"
      and t: "sc_take_from s (sc\<lparr>sc_current := s\<rparr>) w = (b, sc', w')"
      using scan by (auto simp: sc_scan_def split: option.splits)
    from find_SomeD [OF f] show thesis using t that by (auto simp: sc_all_def)
  qed
  let ?c = "sc\<lparr>sc_current := s\<rparr>"
  have inv': "sc_inv os ?c orph w" using inv s by (simp add: sc_inv_current)
  note T = sc_take_from_ok [OF inv' _ s(2) take, simplified, OF s(1)]
  show "sc_inv os sc' orph w'" "frame_step (sc_foot os sc orph) w (sc_foot os sc' orph) w'"
    "b \<noteq> nullptr" "b \<notin> sc_live sc orph (w_mem w)"
    "sc_live sc' orph (w_mem w') = insert b (sc_live sc orph (w_mem w))"
    "agree_on (live_bytes sc (sc_live sc orph (w_mem w))) (w_mem w) (w_mem w')"
    using T by simp_all
  show "\<exists>c. sc' = sc\<lparr>sc_current := c\<rparr>" using T(1) by blast
qed

lemma sc_scan_None:
  assumes "sc_scan sc w = None"
  shows "\<forall>s\<in>set (nv_items (sc_slabs sc)). \<not> slab_has_free (w_mem w) s"
    and "sc_current sc \<noteq> nullptr \<Longrightarrow> \<not> slab_has_free (w_mem w) (sc_current sc)"
  using assms by (auto simp: sc_scan_def find_None_iff split: option.splits if_splits)

text \<open>Everything a component keeps, it keeps across a step elsewhere.\<close>

lemma slabs_bytes_Un: "slabs_bytes (ss @ ts) = slabs_bytes ss \<union> slabs_bytes ts"
  by (auto simp: slabs_bytes_def)

lemma sc_inv_frame:
  assumes inv: "sc_inv os sc orph w" and fs: "frame_step F w F' w'"
    and dj: "sc_foot os sc orph \<inter> F = {}"
  shows "sc_inv os sc orph w'" and "sc_live sc orph (w_mem w') = sc_live sc orph (w_mem w)"
    and "sc_foot os sc orph \<inter> F' = {}"
    and "agree_on (sc_foot os sc orph) (w_mem w) (w_mem w')"
proof -
  have sub: "sc_foot os sc orph \<subseteq> mapped w" using inv by (simp add: sc_inv_def)
  note K = frame_step_mem [OF dj sub fs]
  show "sc_foot os sc orph \<inter> F' = {}" "agree_on (sc_foot os sc orph) (w_mem w) (w_mem w')"
    using K by auto
  have in_foot: "bytes_of s 65536 \<subseteq> sc_foot os sc orph" if "s \<in> set (sc_all sc orph)" for s
    using that by (auto simp: sc_foot_def slabs_bytes_def)
  have sl: "slab_ok (w_mem w') (sc_block_size sc) s \<and>
      slab_live (w_mem w') (sc_block_size sc) s = slab_live (w_mem w) (sc_block_size sc) s"
    if s: "s \<in> set (sc_all sc orph)" for s
  proof -
    have "agree_on (bytes_of s 65536) (w_mem w) (w_mem w')"
      using K in_foot [OF s] agree_on_mono by blast
    then show ?thesis using slab_ok_outside sc_inv_slab [OF inv s] by blast
  qed
  have "slab_inv os (sc_block_size sc) (sc_node_id sc) w' s" if s: "s \<in> set (sc_all sc orph)" for s
  proof -
    have "slab_inv os (sc_block_size sc) (sc_node_id sc) w s" using inv s by (simp add: sc_inv_def)
    moreover have "\<forall>x\<in>bytes_of s 65536. w_policy w' x = w_policy w x" using K in_foot [OF s] by blast
    ultimately show ?thesis using sl [OF s] by (simp add: slab_inv_def)
  qed
  then show "sc_inv os sc orph w'" using inv K by (simp add: sc_inv_def)
  show "sc_live sc orph (w_mem w') = sc_live sc orph (w_mem w)" using sl by (simp add: sc_live_def)
qed

text \<open>A slab that the kernel maps for the class: after \<open>Slab::create\<close> the class owns it,
  whether or not the vector takes it.\<close>

lemma sc_inv_new_slab:
  assumes os: "os_ok os" and inv: "sc_inv os sc orph w"
    and cr: "slab_create os (sc_block_size sc) (sc_node_id sc) w = (Inr s, w1)"
  shows "sc_inv os (sc\<lparr>sc_current := s\<rparr>) (s # orph) w1"
    and "frame_step (sc_foot os sc orph) w (sc_foot os sc (s # orph)) w1"
    and "sc_live sc (s # orph) (w_mem w1) = sc_live sc orph (w_mem w)"
    and "agree_on (sc_foot os sc orph) (w_mem w) (w_mem w1)"
    and "slab_has_free (w_mem w1) s" and "s \<notin> set (sc_all sc orph)"
proof -
  let ?bs = "sc_block_size sc"
  have bs: "0 < unat ?bs" "unat ?bs \<le> 4096" using inv by (simp_all add: sc_inv_def)
  note C = slab_create_Inr [OF os bs cr]
  note K = sc_inv_frame [OF inv C(1)]
  have dj: "sc_foot os sc orph \<inter> bytes_of s 65536 = {}" using K(3) by simp
  have map1: "mapped w1 = bytes_of s 65536 \<union> mapped w" using C(1) by (simp add: frame_step_def)
  have sin: "unat s \<in> bytes_of s 65536" by (simp add: bytes_of_def)
  show new: "s \<notin> set (sc_all sc orph)"
  proof
    assume "s \<in> set (sc_all sc orph)"
    then have "unat s \<in> sc_foot os sc orph" using sin by (auto simp: sc_foot_def slabs_bytes_def)
    with dj sin show False by blast
  qed
  have all: "set (sc_all sc (s # orph)) = insert s (set (sc_all sc orph))" by (auto simp: sc_all_def)
  have foot: "sc_foot os sc (s # orph) = bytes_of s 65536 \<union> sc_foot os sc orph"
    by (auto simp: sc_foot_def slabs_bytes_def all)
  show "frame_step (sc_foot os sc orph) w (sc_foot os sc (s # orph)) w1"
    using frame_step_extend [OF C(1), of "sc_foot os sc orph"] inv by (simp add: foot sc_inv_def)
  have apart: "slabs_apart (sc_all sc (s # orph))"
    using inv dj new unfolding sc_inv_def slabs_apart_def all
    by (auto simp: sc_foot_def slabs_bytes_def sc_all_def)
  have sl: "slab_inv os ?bs (sc_node_id sc) w1 s" using C by (simp add: slab_inv_def)
  have vec: "slabs_bytes (sc_all sc (s # orph)) \<inter> vec_bytes os (sc_slabs sc) = {}"
  proof -
    have "bytes_of s 65536 \<inter> vec_bytes os (sc_slabs sc) = {}" using dj by (auto simp: sc_foot_def)
    moreover have "slabs_bytes (sc_all sc (s # orph)) = bytes_of s 65536 \<union> slabs_bytes (sc_all sc orph)"
      by (auto simp: slabs_bytes_def all)
    ultimately show ?thesis using inv by (auto simp: sc_inv_def)
  qed
  have "sc_inv os sc orph w1" using K(1) by simp
  then have "sc_inv os sc (s # orph) w1"
    using apart sl vec foot map1 inv unfolding sc_inv_def all by auto
  then show "sc_inv os (sc\<lparr>sc_current := s\<rparr>) (s # orph) w1" by (rule sc_inv_current) (simp add: all)
  show "agree_on (sc_foot os sc orph) (w_mem w) (w_mem w1)" using K(4) by simp
  show "sc_live sc (s # orph) (w_mem w1) = sc_live sc orph (w_mem w)"
    using K(2) C(5) by (auto simp: sc_live_def all)
  show "slab_has_free (w_mem w1) s"
    using C(6) slab_has_free_iff [OF C(2,4)] slab_cap_bounds(1) [OF bs(2)]
    by (auto simp: slab_blocks_def)
qed

text \<open>The vector takes the new slab: it leaves the ghost list.\<close>

lemma sc_inv_vec:
  assumes inv: "sc_inv os sc (s # orph) w"
    and items: "nv_items v' = nv_items (sc_slabs sc) @ [s]" and v': "vec_ok os v'"
    and fs: "frame_step (vec_bytes os (sc_slabs sc)) w (vec_bytes os v') w'"
  shows "sc_inv os (sc\<lparr>sc_slabs := v'\<rparr>) orph w'"
    and "frame_step (sc_foot os sc (s # orph)) w (sc_foot os (sc\<lparr>sc_slabs := v'\<rparr>) orph) w'"
    and "sc_live (sc\<lparr>sc_slabs := v'\<rparr>) orph (w_mem w') = sc_live sc (s # orph) (w_mem w)"
    and "agree_on (slabs_bytes (sc_all sc (s # orph))) (w_mem w) (w_mem w')"
proof -
  let ?sc = "sc\<lparr>sc_slabs := v'\<rparr>" and ?B = "slabs_bytes (sc_all sc (s # orph))"
  have all: "sc_all ?sc orph = sc_all sc (s # orph)" by (simp add: sc_all_def items)
  have sub: "?B \<subseteq> mapped w" and dj: "?B \<inter> vec_bytes os (sc_slabs sc) = {}"
    using inv by (auto simp: sc_inv_def sc_foot_def)
  note M = frame_step_mem [OF dj sub fs]
  show ag: "agree_on ?B (w_mem w) (w_mem w')" using M by blast
  have in_B: "bytes_of t 65536 \<subseteq> ?B" if "t \<in> set (sc_all sc (s # orph))" for t
    using that by (auto simp: slabs_bytes_def)
  have sl: "slab_ok (w_mem w') (sc_block_size sc) t \<and>
      slab_live (w_mem w') (sc_block_size sc) t = slab_live (w_mem w) (sc_block_size sc) t"
    if t: "t \<in> set (sc_all sc (s # orph))" for t
    using slab_ok_outside [OF _ _ agree_on_mono [OF ag in_B [OF t]]] sc_inv_slab [OF inv t] by blast
  have "slab_inv os (sc_block_size sc) (sc_node_id sc) w' t"
    if t: "t \<in> set (sc_all sc (s # orph))" for t
  proof -
    have "slab_inv os (sc_block_size sc) (sc_node_id sc) w t" using inv t by (simp add: sc_inv_def)
    moreover have "\<forall>x\<in>bytes_of t 65536. w_policy w' x = w_policy w x" using M in_B [OF t] by blast
    ultimately show ?thesis using sl [OF t] by (simp add: slab_inv_def)
  qed
  moreover have "vec_bytes os v' \<subseteq> mapped w'" using fs by (auto simp: frame_step_def)
  ultimately show "sc_inv os ?sc orph w'"
    using inv M v' unfolding sc_inv_def sc_foot_def all by auto
  show "sc_live ?sc orph (w_mem w') = sc_live sc (s # orph) (w_mem w)"
    using sl by (simp add: sc_live_def all)
  show "frame_step (sc_foot os sc (s # orph)) w (sc_foot os ?sc orph) w'"
    unfolding sc_foot_def all using frame_step_extend [OF fs sub dj] by (simp add: Un_commute)
qed

text \<open>
  One operation of the class, on all it owns: the invariant holds again, nothing outside the
  footprint changes or is unmapped, and the blocks in use before and after keep their bytes.
\<close>

definition sc_step ::
  "os \<Rightarrow> size_class \<Rightarrow> ptr list \<Rightarrow> world \<Rightarrow> size_class \<Rightarrow> ptr list \<Rightarrow> world \<Rightarrow> bool" where
  "sc_step os sc orph w sc' orph' w' \<longleftrightarrow>
     sc_inv os sc' orph' w' \<and>
     frame_step (sc_foot os sc orph) w (sc_foot os sc' orph') w' \<and>
     agree_on (live_bytes sc (sc_live sc orph (w_mem w) \<inter> sc_live sc' orph' (w_mem w')))
       (w_mem w) (w_mem w') \<and>
     sc_block_size sc' = sc_block_size sc \<and> sc_node_id sc' = sc_node_id sc \<and>
     sc_sync sc' = sc_sync sc"

lemma sc_stepD:
  assumes "sc_step os sc orph w sc' orph' w'"
  shows "sc_inv os sc' orph' w'"
    and "frame_step (sc_foot os sc orph) w (sc_foot os sc' orph') w'"
    and "agree_on (live_bytes sc (sc_live sc orph (w_mem w) \<inter> sc_live sc' orph' (w_mem w')))
       (w_mem w) (w_mem w')"
    and "sc_block_size sc' = sc_block_size sc" and "sc_node_id sc' = sc_node_id sc"
    and "sc_sync sc' = sc_sync sc"
  using assms by (simp_all add: sc_step_def)

lemma sc_foot_mapped: "sc_inv os sc orph w \<Longrightarrow> sc_foot os sc orph \<subseteq> mapped w"
  by (simp add: sc_inv_def)

lemma sc_step_refl: "sc_inv os sc orph w \<Longrightarrow> sc_step os sc orph w sc orph w"
  by (simp add: sc_step_def frame_step_refl sc_foot_mapped)

lemma live_bytes_mono: "L \<subseteq> M \<Longrightarrow> live_bytes sc L \<subseteq> live_bytes sc M"
  by (auto simp: live_bytes_def)

text \<open>Steps compose when no block in use in the end was returned on the way.\<close>

lemma sc_step_trans:
  assumes a: "sc_step os sc orph w sc1 orph1 w1" and b: "sc_step os sc1 orph1 w1 sc2 orph2 w2"
    and keep: "sc_live sc orph (w_mem w) \<inter> sc_live sc2 orph2 (w_mem w2) \<subseteq> sc_live sc1 orph1 (w_mem w1)"
  shows "sc_step os sc orph w sc2 orph2 w2"
proof -
  let ?L = "sc_live sc orph (w_mem w) \<inter> sc_live sc2 orph2 (w_mem w2)"
  note A = sc_stepD [OF a] and B = sc_stepD [OF b]
  have "agree_on (live_bytes sc ?L) (w_mem w) (w_mem w1)"
    using keep by (intro agree_on_mono [OF A(3)] live_bytes_mono) auto
  moreover have "agree_on (live_bytes sc1 ?L) (w_mem w1) (w_mem w2)"
    using keep by (intro agree_on_mono [OF B(3)] live_bytes_mono) auto
  then have "agree_on (live_bytes sc ?L) (w_mem w1) (w_mem w2)"
    using A(4) by (simp add: live_bytes_def)
  ultimately have "agree_on (live_bytes sc ?L) (w_mem w) (w_mem w2)" by (rule agree_on_trans)
  then show ?thesis
    using A B frame_step_trans [OF A(2) B(2)] by (simp add: sc_step_def)
qed

lemma live_bytes_foot:
  assumes inv: "sc_inv os sc orph w"
  shows "live_bytes sc (sc_live sc orph (w_mem w)) \<subseteq> slabs_bytes (sc_all sc orph)"
proof
  fix x
  assume "x \<in> live_bytes sc (sc_live sc orph (w_mem w))"
  then obtain b where b: "b \<in> sc_live sc orph (w_mem w)"
    and x: "x \<in> {unat b ..< unat b + slab_stride (sc_block_size sc)}"
    by (auto simp: live_bytes_def)
  obtain s where s: "s \<in> set (sc_all sc orph)" "b \<in> set (slab_blocks s (sc_block_size sc))"
    using sc_live_obtain [OF inv b] by metis
  show "x \<in> slabs_bytes (sc_all sc orph)"
    using slab_block_in_bytes(1) [OF sc_inv_slab [OF inv s(1), THEN conjunct1] s(2)] x s(1)
    by (auto simp: slabs_bytes_def)
qed

lemma slabs_bytes_in_foot: "slabs_bytes (sc_all sc orph) \<subseteq> sc_foot os sc orph"
  by (simp add: sc_foot_def)

lemma sc_scan_step:
  assumes inv: "sc_inv os sc orph w" and scan: "sc_scan sc w = Some (b, sc', w')"
  shows "sc_step os sc orph w sc' orph w'"
proof -
  note S = sc_scan_Some [OF inv scan]
  obtain c where c: "sc' = sc\<lparr>sc_current := c\<rparr>" using S(7) by blast
  have "agree_on (live_bytes sc (sc_live sc orph (w_mem w) \<inter> sc_live sc' orph (w_mem w')))
       (w_mem w) (w_mem w')"
    by (intro agree_on_mono [OF S(6)] live_bytes_mono) simp
  then show ?thesis using S(1,2) by (simp add: sc_step_def c)
qed

lemma sc_new_slab_step:
  assumes os: "os_ok os" and inv: "sc_inv os sc orph w"
    and cr: "slab_create os (sc_block_size sc) (sc_node_id sc) w = (Inr s, w1)"
  shows "sc_step os sc orph w (sc\<lparr>sc_current := s\<rparr>) (s # orph) w1"
proof -
  note N = sc_inv_new_slab [OF os inv cr]
  have "live_bytes sc (sc_live sc orph (w_mem w)) \<subseteq> sc_foot os sc orph"
    using live_bytes_foot [OF inv] slabs_bytes_in_foot by blast
  then show ?thesis using N agree_on_mono [OF N(4)] by (simp add: sc_step_def)
qed

lemma sc_vec_step:
  assumes inv: "sc_inv os sc (s # orph) w"
    and items: "nv_items v' = nv_items (sc_slabs sc) @ [s]" and v': "vec_ok os v'"
    and fs: "frame_step (vec_bytes os (sc_slabs sc)) w (vec_bytes os v') w'"
  shows "sc_step os sc (s # orph) w (sc\<lparr>sc_slabs := v'\<rparr>) orph w'"
proof -
  note V = sc_inv_vec [OF inv items v' fs]
  have "agree_on (live_bytes sc (sc_live sc (s # orph) (w_mem w))) (w_mem w) (w_mem w')"
    by (rule agree_on_mono [OF V(4) live_bytes_foot [OF inv]])
  then show ?thesis using V by (simp add: sc_step_def)
qed

text \<open>A step outside the class is a step of the class that does nothing.\<close>

lemma sc_idle_step:
  assumes inv: "sc_inv os sc orph w" and fs: "frame_step {} w {} w'"
  shows "sc_step os sc orph w sc orph w'" and "sc_live sc orph (w_mem w') = sc_live sc orph (w_mem w)"
proof -
  note K = sc_inv_frame [OF inv fs Int_empty_right]
  have "frame_step ({} \<union> sc_foot os sc orph) w ({} \<union> sc_foot os sc orph) w'"
    by (rule frame_step_extend [OF fs sc_foot_mapped [OF inv]]) simp
  moreover have "live_bytes sc (sc_live sc orph (w_mem w)) \<subseteq> sc_foot os sc orph"
    using live_bytes_foot [OF inv] slabs_bytes_in_foot by blast
  ultimately show "sc_step os sc orph w sc orph w'"
    using K agree_on_mono [OF K(4)] by (simp add: sc_step_def)
  show "sc_live sc orph (w_mem w') = sc_live sc orph (w_mem w)" by (rule K(2))
qed

text \<open>
  Growing. On success the block comes from a new slab that is in \<open>slabs_\<close>. On failure the
  set of blocks in use is the old one; the slab list grew by a ghost exactly when the
  kernel gave the slab and the vector then refused it.
\<close>

lemma sc_grow_Inr:
  assumes os: "os_ok os" and inv: "sc_inv os sc orph w" and grow: "sc_grow os sc w = (Inr b, sc', w')"
  shows "sc_step os sc orph w sc' orph w'" and "b \<noteq> nullptr"
    and "b \<notin> sc_live sc orph (w_mem w)"
    and "sc_live sc' orph (w_mem w') = insert b (sc_live sc orph (w_mem w))"
    and "nv_items (sc_slabs sc') = nv_items (sc_slabs sc) @ [sc_current sc']"
proof -
  from grow obtain s w1 v w2 where
    cr: "slab_create os (sc_block_size sc) (sc_node_id sc) w = (Inr s, w1)" and
    push: "vec_push_back os (sc_node_id sc) (sc_slabs sc) s w1 = (Inr v, w2)" and
    take: "sc_take_from s (sc\<lparr>sc_current := s, sc_slabs := v\<rparr>) w2 = (b, sc', w')"
    by (auto simp: sc_grow_def Let_def split: prod.splits sum.splits)
  let ?sc1 = "sc\<lparr>sc_current := s\<rparr>" and ?sc2 = "sc\<lparr>sc_current := s, sc_slabs := v\<rparr>"
  note N = sc_inv_new_slab [OF os inv cr]
  note step1 = sc_new_slab_step [OF os inv cr]
  have vs: "vec_ok os (sc_slabs ?sc1)" "vec_bytes os (sc_slabs ?sc1) \<subseteq> mapped w1"
    using N(1) by (auto simp: sc_inv_def sc_foot_def)
  have push': "vec_push_back os (sc_node_id sc) (sc_slabs ?sc1) s w1 = (Inr v, w2)" using push by simp
  note P = vec_push_back_Inr [OF os vs push']
  note V = sc_inv_vec [OF N(1) P] and step2 = sc_vec_step [OF N(1) P]
  have sB: "bytes_of s 65536 \<subseteq> slabs_bytes (sc_all ?sc1 (s # orph))"
    by (auto simp: slabs_bytes_def sc_all_def)
  have hf: "slab_has_free (w_mem w2) s"
  proof -
    have p: "slab_place s (sc_block_size sc)" "slab_ok (w_mem w1) (sc_block_size sc) s"
      using sc_inv_slab [OF N(1), of s] by (simp_all add: sc_all_def)
    note so = slab_ok_outside [OF p agree_on_mono [OF V(4) sB]]
    show ?thesis using N(5) slab_has_free_iff [OF p] slab_has_free_iff [OF p(1) so(1)] so(2) by simp
  qed
  have inv2: "sc_inv os ?sc2 orph w2" using V(1) by simp
  have sin: "s \<in> set (sc_all ?sc2 orph)" using P(1) by (simp add: sc_all_def)
  note T = sc_take_from_ok [OF inv2 sin hf take]
  have live2: "sc_live ?sc2 orph (w_mem w2) = sc_live sc orph (w_mem w)" using V(3) N(3) by simp
  show "b \<noteq> nullptr" by (rule T(4))
  show "b \<notin> sc_live sc orph (w_mem w)" using T(5) live2 by simp
  show live': "sc_live sc' orph (w_mem w') = insert b (sc_live sc orph (w_mem w))"
    using T(1,6) live2 by simp
  show "nv_items (sc_slabs sc') = nv_items (sc_slabs sc) @ [sc_current sc']"
    using T(1) P(1) by simp
  have step2': "sc_step os ?sc1 (s # orph) w1 ?sc2 orph w2" using step2 by simp
  have s12: "sc_step os sc orph w ?sc2 orph w2"
    using N(3) by (intro sc_step_trans [OF step1 step2']) simp
  have "sc_step os ?sc2 orph w2 sc' orph w'"
    using T by (auto simp: sc_step_def Int_absorb2 subset_insertI)
  with s12 show "sc_step os sc orph w sc' orph w'"
    using live2 by (intro sc_step_trans [OF s12]) auto
qed

lemma sc_grow_Inl:
  assumes os: "os_ok os" and inv: "sc_inv os sc orph w" and grow: "sc_grow os sc w = (Inl e, sc', w')"
  shows "\<exists>orph'. sc_step os sc orph w sc' orph' w' \<and>
    sc_live sc' orph' (w_mem w') = sc_live sc orph (w_mem w) \<and> sc_slabs sc' = sc_slabs sc \<and>
    (orph' = orph \<and> sc' = sc \<and> frame_step {} w {} w' \<or>
     orph' = sc_current sc' # orph \<and> sc_current sc' \<notin> set (sc_all sc orph))"
proof (cases "slab_create os (sc_block_size sc) (sc_node_id sc) w")
  case (Pair r w1)
  show ?thesis
  proof (cases r)
    case (Inl e1)
    then have "slab_create os (sc_block_size sc) (sc_node_id sc) w = (Inl e1, w1)" using Pair by simp
    from slab_create_Inl [OF os this] have fs: "frame_step {} w {} w1" by simp
    have "sc' = sc" "w' = w1" using grow Pair Inl by (simp_all add: sc_grow_def)
    then show ?thesis using sc_idle_step [OF inv fs] fs by blast
  next
    case (Inr s)
    then have cr: "slab_create os (sc_block_size sc) (sc_node_id sc) w = (Inr s, w1)" using Pair by simp
    with grow obtain e2 where push: "vec_push_back os (sc_node_id sc) (sc_slabs sc) s w1 = (Inl e2, w')"
      and sc': "sc' = sc\<lparr>sc_current := s\<rparr>"
      by (auto simp: sc_grow_def Let_def split: prod.splits sum.splits)
    note N = sc_inv_new_slab [OF os inv cr]
    note I = sc_idle_step [OF N(1) vec_push_back_Inl [OF os push]]
    have "sc_step os sc orph w sc' (s # orph) w'"
      unfolding sc' using N(3) I(2) by (intro sc_step_trans [OF sc_new_slab_step [OF os inv cr] I(1)]) simp
    moreover have "sc_live sc' (s # orph) (w_mem w') = sc_live sc orph (w_mem w)"
      using N(3) I(2) by (simp add: sc')
    ultimately show ?thesis using N(6) sc' by auto
  qed
qed

lemma sc_allocate_Inr:
  assumes os: "os_ok os" and inv: "sc_inv os sc orph w"
    and al: "sc_allocate os sc w = (Inr b, sc', w')"
  shows "sc_step os sc orph w sc' orph w'" and "b \<noteq> nullptr"
    and "b \<notin> sc_live sc orph (w_mem w)"
    and "sc_live sc' orph (w_mem w') = insert b (sc_live sc orph (w_mem w))"
proof -
  have "sc_step os sc orph w sc' orph w' \<and> b \<noteq> nullptr \<and> b \<notin> sc_live sc orph (w_mem w) \<and>
     sc_live sc' orph (w_mem w') = insert b (sc_live sc orph (w_mem w))"
  proof (cases "sc_scan sc w")
    case None
    then show ?thesis using al sc_grow_Inr [OF os inv] by (simp add: sc_allocate_def)
  next
    case (Some r)
    then have "sc_scan sc w = Some (b, sc', w')"
      using al by (auto simp: sc_allocate_def split: prod.splits)
    then show ?thesis using sc_scan_step [OF inv] sc_scan_Some [OF inv] by blast
  qed
  then show "sc_step os sc orph w sc' orph w'" and "b \<noteq> nullptr"
    and "b \<notin> sc_live sc orph (w_mem w)"
    and "sc_live sc' orph (w_mem w') = insert b (sc_live sc orph (w_mem w))" by auto
qed

lemma sc_allocate_Inl:
  assumes os: "os_ok os" and inv: "sc_inv os sc orph w"
    and al: "sc_allocate os sc w = (Inl e, sc', w')"
  shows "\<exists>orph'. sc_step os sc orph w sc' orph' w' \<and>
    sc_live sc' orph' (w_mem w') = sc_live sc orph (w_mem w)"
proof (cases "sc_scan sc w")
  case None
  then have "sc_grow os sc w = (Inl e, sc', w')" using al by (simp add: sc_allocate_def)
  from sc_grow_Inl [OF os inv this] show ?thesis by (elim exE conjE) (intro exI conjI)
next
  case (Some r)
  then show ?thesis using al by (auto simp: sc_allocate_def split: prod.splits)
qed

lemma sc_allocate_new_slab_eq: "sc_allocate_new_slab = sc_allocate"
  by (rule ext)+ (simp add: sc_allocate_new_slab_def sc_allocate_def)

lemma sc_allocate_existing_ok:
  assumes inv: "sc_inv os sc orph w" and al: "sc_allocate_existing sc w = (b, sc', w')"
  shows "sc_step os sc orph w sc' orph w'"
    and "b = nullptr \<Longrightarrow> sc' = sc \<and> w' = w \<and>
          (\<forall>s\<in>set (nv_items (sc_slabs sc)). \<not> slab_has_free (w_mem w) s)"
    and "b \<noteq> nullptr \<Longrightarrow> b \<notin> sc_live sc orph (w_mem w) \<and>
          sc_live sc' orph (w_mem w') = insert b (sc_live sc orph (w_mem w))"
proof -
  have "sc_scan sc w = None \<and> b = nullptr \<and> sc' = sc \<and> w' = w \<or> sc_scan sc w = Some (b, sc', w')"
    using al by (cases "sc_scan sc w") (simp_all add: sc_allocate_existing_def)
  then consider "sc_scan sc w = None" "b = nullptr" "sc' = sc" "w' = w"
    | "sc_scan sc w = Some (b, sc', w')" by (elim disjE conjE)
  then have "sc_step os sc orph w sc' orph w' \<and>
     (b = nullptr \<longrightarrow> sc' = sc \<and> w' = w \<and>
          (\<forall>s\<in>set (nv_items (sc_slabs sc)). \<not> slab_has_free (w_mem w) s)) \<and>
     (b \<noteq> nullptr \<longrightarrow> b \<notin> sc_live sc orph (w_mem w) \<and>
          sc_live sc' orph (w_mem w') = insert b (sc_live sc orph (w_mem w)))"
  proof cases
    case 1
    then show ?thesis using sc_step_refl [OF inv] sc_scan_None by blast
  next
    case 2
    then show ?thesis using sc_scan_step [OF inv 2] sc_scan_Some [OF inv 2] by blast
  qed
  then show "sc_step os sc orph w sc' orph w'"
    and "b = nullptr \<Longrightarrow> sc' = sc \<and> w' = w \<and>
          (\<forall>s\<in>set (nv_items (sc_slabs sc)). \<not> slab_has_free (w_mem w) s)"
    and "b \<noteq> nullptr \<Longrightarrow> b \<notin> sc_live sc orph (w_mem w) \<and>
          sc_live sc' orph (w_mem w') = insert b (sc_live sc orph (w_mem w))" by auto
qed

subsection \<open>Deallocation\<close>

text \<open>Returning one block to the slab that its header names.\<close>

lemma sc_free_block_step:
  assumes inv: "sc_inv os sc orph w" and b: "b \<in> sc_live sc orph (w_mem w)"
    and s: "s = bh_raw_ptr (w_mem w) b" and w': "w' = w\<lparr>w_mem := slab_free_block s b (w_mem w)\<rparr>"
  shows "s \<noteq> nullptr" and "s \<in> set (sc_all sc orph)"
    and "sc_step os sc orph w sc orph w'"
    and "sc_live sc orph (w_mem w') = sc_live sc orph (w_mem w) - {b}"
    and "agree_on (- give_bytes s b) (w_mem w) (w_mem w')"
proof -
  let ?bs = "sc_block_size sc" and ?L = "sc_live sc orph (w_mem w)"
  obtain t where t: "t \<in> set (sc_all sc orph)" "b \<in> slab_live (w_mem w) ?bs t"
    "bh_raw_ptr (w_mem w) b = t" "b \<in> set (slab_blocks t ?bs)"
    using sc_live_obtain [OF inv b] by metis
  have ts: "t = s" using t(3) s by simp
  have place: "slab_place s ?bs" and ok: "slab_ok (w_mem w) ?bs s"
    using sc_inv_slab [OF inv t(1)] by (auto simp: ts)
  show "s \<noteq> nullptr" using place by (simp add: slab_place_def)
  show sin: "s \<in> set (sc_all sc orph)" using t(1) by (simp add: ts)
  have bl: "b \<in> slab_live (w_mem w) ?bs s" and bb: "b \<in> set (slab_blocks s ?bs)"
    using t(2,4) by (auto simp: ts)
  note F = slab_free_block_ok [OF place ok bl]
  have bs: "unat ?bs \<le> 4096" using place by (simp add: slab_place_def)
  note st = slab_stride_bounds(1) [OF bs]
  have gb: "give_bytes s b \<subseteq> bytes_of s 65536"
    using slab_block_bounds(1,2) [OF place bb] st by (auto simp: give_bytes_def bytes_of_def)
  have ag: "agree_on (- bytes_of s 65536) (w_mem w) (slab_free_block s b (w_mem w))"
    using gb by (intro agree_on_mono [OF F(4)]) auto
  note U = sc_inv_slab_update [OF inv sin ag F(2)]
  have only: "b \<notin> slab_live (w_mem w) ?bs u" if "u \<in> set (sc_all sc orph)" "u \<noteq> s" for u
    using slabs_apart_block [of "sc_all sc orph" u s ?bs b] inv sin that sc_inv_slab [OF inv] bb
    by (fastforce simp: sc_inv_def slab_live_def)
  show live': "sc_live sc orph (w_mem w') = ?L - {b}"
    unfolding w' using U(3) F(3) bl sin only by (auto simp: sc_live_def)
  show "agree_on (- give_bytes s b) (w_mem w) (w_mem w')" using F(4) by (simp add: w')
  have "{unat c ..< unat c + slab_stride ?bs} \<inter> give_bytes s b = {}" if c: "c \<in> ?L" "c \<noteq> b" for c
  proof -
    obtain u where u: "u \<in> set (sc_all sc orph)" "c \<in> set (slab_blocks u ?bs)"
      using sc_live_obtain [OF inv c(1)] by metis
    note C = slab_block_in_bytes [OF sc_inv_slab [OF inv u(1), THEN conjunct1] u(2)]
    show ?thesis
    proof (cases "u = s")
      case True
      then show ?thesis
        using slab_block_apart [OF place bb u(2) [unfolded True]] c(2) st
          slab_block_bounds(1) [OF place u(2) [unfolded True]]
        by (auto simp: give_bytes_def)
    next
      case False
      then have "bytes_of u 65536 \<inter> bytes_of s 65536 = {}"
        using inv sin u by (simp add: sc_inv_def slabs_apart_def)
      with C gb show ?thesis by blast
    qed
  qed
  then have "live_bytes sc (?L \<inter> (?L - {b})) \<subseteq> - give_bytes s b" by (fastforce simp: live_bytes_def)
  then have "agree_on (live_bytes sc (?L \<inter> sc_live sc orph (w_mem w'))) (w_mem w) (w_mem w')"
    unfolding live' using agree_on_mono [OF F(4)] by (simp add: w')
  then show "sc_step os sc orph w sc orph w'" using U(1,2) by (simp add: sc_step_def w')
qed

subsection \<open>Releasing empty slabs\<close>

lemma swap_pop_nth: "j < i \<Longrightarrow> i < length slabs \<Longrightarrow> swap_pop i slabs ! j = slabs ! j"
  by (simp add: swap_pop_def nth_butlast)

lemma swap_pop_mset:
  assumes "i < length slabs"
  shows "mset (swap_pop i slabs) = mset slabs - {#slabs ! i#}"
proof -
  define sw where "sw = slabs[i := slabs ! (length slabs - 1), length slabs - 1 := slabs ! i]"
  have ne: "slabs \<noteq> []" using assms by auto
  have sw_ne: "sw \<noteq> []" and l: "last sw = slabs ! i" and m: "mset sw = mset slabs"
    using ne assms by (auto simp: sw_def last_conv_nth mset_swap)
  have "mset sw = mset (butlast sw) + {#last sw#}"
    using append_butlast_last_id [OF sw_ne] by (metis mset_append mset_single_iff_right)
  then show ?thesis unfolding swap_pop_def sw_def [symmetric] using m l by simp
qed

lemma swap_pop_set:
  assumes "i < length slabs" and "distinct slabs"
  shows "set (swap_pop i slabs) = set slabs - {slabs ! i}" and "distinct (swap_pop i slabs)"
proof -
  note m = swap_pop_mset [OF assms(1)]
  have "mset (swap_pop i slabs) = mset_set (set slabs - {slabs ! i})"
    using assms m by (simp add: mset_set_Diff mset_set_set)
  then show d: "set (swap_pop i slabs) = set slabs - {slabs ! i}"
    by (metis finite_Diff finite_set finite_set_mset_mset_set set_mset_mset)
  show "distinct (swap_pop i slabs)"
    using assms m \<open>mset (swap_pop i slabs) = mset_set (set slabs - {slabs ! i})\<close>
    by (metis count_mset_set(1) distinct_count_atmost_1 d finite_set count_mset_0_iff)
qed

text \<open>The class with another slab list and another current slab.\<close>

definition sc_with :: "size_class \<Rightarrow> ptr list \<Rightarrow> ptr \<Rightarrow> size_class" where
  "sc_with sc slabs current =
     sc\<lparr>sc_slabs := (sc_slabs sc)\<lparr>nv_items := slabs\<rparr>, sc_current := current\<rparr>"

lemma sc_with_simps [simp]:
  "sc_block_size (sc_with sc slabs current) = sc_block_size sc"
  "sc_node_id (sc_with sc slabs current) = sc_node_id sc"
  "sc_sync (sc_with sc slabs current) = sc_sync sc"
  "sc_current (sc_with sc slabs current) = current"
  "nv_items (sc_slabs (sc_with sc slabs current)) = slabs"
  "sc_all (sc_with sc slabs current) orph = slabs @ orph"
  "vec_bytes os (sc_slabs (sc_with sc slabs current)) = vec_bytes os (sc_slabs sc)"
  "sc_with sc (nv_items (sc_slabs sc)) (sc_current sc) = sc"
  by (simp_all add: sc_with_def sc_all_def vec_bytes_def)

lemma sc_slab_in_foot: "s \<in> set (sc_all sc orph) \<Longrightarrow> bytes_of s 65536 \<subseteq> sc_foot os sc orph"
  by (auto simp: sc_foot_def slabs_bytes_def)

text \<open>Removing one empty slab and unmapping it.\<close>

lemma sc_drop_step:
  assumes os: "os_ok os" and inv: "sc_inv os (sc_with sc slabs current) orph w"
    and i: "i < length slabs" and empty: "slab_is_empty (w_mem w) (slabs ! i)"
  defines "sc' \<equiv> sc_with sc (swap_pop i slabs) (if current = slabs ! i then nullptr else current)"
  shows "sc_step os (sc_with sc slabs current) orph w sc' orph (vm_release os (slabs ! i) SLAB_SIZE w)"
    and "sc_live sc' orph (w_mem (vm_release os (slabs ! i) SLAB_SIZE w)) =
         sc_live (sc_with sc slabs current) orph (w_mem w)"
    and "agree_on (sc_foot os sc' orph) (w_mem w) (w_mem (vm_release os (slabs ! i) SLAB_SIZE w))"
proof -
  let ?sc = "sc_with sc slabs current" and ?s = "slabs ! i" and ?bs = "sc_block_size sc"
  let ?w' = "vm_release os ?s SLAB_SIZE w"
  have all: "sc_all ?sc orph = slabs @ orph" by simp
  have sin: "?s \<in> set (slabs @ orph)" using i by simp
  have place: "slab_place ?s ?bs" and ok: "slab_ok (w_mem w) ?bs ?s"
    and pg: "unat (page_size os) dvd unat ?s"
    using sc_inv_slab [OF inv, of ?s] sin by auto
  have d: "distinct (slabs @ orph)" using inv by (simp add: sc_inv_def slabs_apart_def)
  then have ds: "distinct slabs" and nin: "?s \<notin> set orph"
    using nth_mem [OF i] by (auto simp del: nth_mem)
  note sp = swap_pop_set [OF i ds]
  have set': "set (swap_pop i slabs @ orph) = set (slabs @ orph) - {?s}" using sp nin by auto
  have "bytes_of ?s 65536 \<subseteq> sc_foot os ?sc orph"
    using sin by (intro sc_slab_in_foot) (simp only: all)
  then have B: "bytes_of ?s 65536 \<subseteq> mapped w" using sc_foot_mapped [OF inv] by blast
  have ne: "?s \<noteq> nullptr" using place by (simp add: slab_place_def)
  note fs = vm_release_frame [OF os ne SLAB_SIZE_nz fits_page_slab [OF os] pg,
      unfolded span_bytes_slab [OF os], OF B]
  have len': "vec_ok os ((sc_slabs sc)\<lparr>nv_items := swap_pop i slabs\<rparr>)"
    using inv by (auto simp: sc_inv_def vec_ok_def sc_with_def)
  have apart: "slabs_apart (swap_pop i slabs @ orph)"
  proof -
    have "distinct (swap_pop i slabs @ orph)" using sp d by auto
    then show ?thesis using inv unfolding sc_inv_def all slabs_apart_def set' by auto
  qed
  have foot': "sc_foot os sc' orph \<union> bytes_of ?s 65536 = sc_foot os ?sc orph"
    using sin unfolding sc'_def sc_foot_def slabs_bytes_def sc_with_simps set' by auto
  have dj: "sc_foot os sc' orph \<inter> bytes_of ?s 65536 = {}"
  proof -
    have "bytes_of t 65536 \<inter> bytes_of ?s 65536 = {}" if "t \<in> set (slabs @ orph) - {?s}" for t
      using inv sin that unfolding sc_inv_def all slabs_apart_def by auto
    moreover have "vec_bytes os (sc_slabs sc) \<inter> bytes_of ?s 65536 = {}"
      using inv sin by (auto simp: sc_inv_def slabs_bytes_def)
    ultimately show ?thesis
      unfolding sc'_def sc_foot_def slabs_bytes_def sc_with_simps set' by blast
  qed
  have cur: "sc_current sc' = nullptr \<or> sc_current sc' \<in> set (swap_pop i slabs @ orph)"
    using inv unfolding sc'_def sc_inv_def sc_with_simps set' by auto
  have inv1: "sc_inv os sc' orph w"
  proof -
    have "slabs_bytes (swap_pop i slabs @ orph) \<inter> vec_bytes os (sc_slabs sc) = {}"
      using inv unfolding sc_inv_def slabs_bytes_def sc_with_simps set' by auto
    moreover have "sc_foot os sc' orph \<subseteq> mapped w" using foot' sc_foot_mapped [OF inv] by auto
    moreover have "\<forall>t\<in>set (swap_pop i slabs @ orph). slab_inv os ?bs (sc_node_id sc) w t"
      using inv unfolding sc_inv_def sc_with_simps set' by auto
    moreover have "vec_ok os (sc_slabs sc')" using len' by (simp add: sc'_def sc_with_def)
    moreover have "0 < unat ?bs" "unat ?bs \<le> 4096" using inv by (simp_all add: sc_inv_def)
    ultimately show ?thesis
      using apart cur by (simp add: sc_inv_def sc'_def)
  qed
  note K = sc_inv_frame [OF inv1 fs dj]
  show "agree_on (sc_foot os sc' orph) (w_mem w) (w_mem ?w')" by (rule K(4))
  have "slab_live (w_mem w) ?bs ?s = {}" using empty slab_is_empty_iff [OF place ok] by simp
  then have live1: "sc_live sc' orph (w_mem w) = sc_live ?sc orph (w_mem w)"
    unfolding sc'_def sc_live_def sc_with_simps set' by auto
  with K(2) show live': "sc_live sc' orph (w_mem ?w') = sc_live ?sc orph (w_mem w)" by simp
  have "frame_step (bytes_of ?s 65536 \<union> sc_foot os sc' orph) w ({} \<union> sc_foot os sc' orph) ?w'"
    using foot' sc_foot_mapped [OF inv] dj by (intro frame_step_extend [OF fs]) auto
  then have fr: "frame_step (sc_foot os ?sc orph) w (sc_foot os sc' orph) ?w'"
    using foot' by (simp add: Un_commute)
  have "live_bytes sc' (sc_live sc' orph (w_mem w)) \<subseteq> sc_foot os sc' orph"
    using live_bytes_foot [OF inv1] slabs_bytes_in_foot by blast
  then have "agree_on (live_bytes ?sc (sc_live ?sc orph (w_mem w))) (w_mem w) (w_mem ?w')"
    using live1 agree_on_mono [OF K(4)] by (simp add: live_bytes_def sc'_def)
  then show "sc_step os ?sc orph w sc' orph ?w'"
    using K(1) fr live' by (simp add: sc_step_def sc'_def)
qed

lemma slab_is_empty_local:
  assumes "slab_place s bs" and "agree_on (bytes_of s 65536) m m'"
  shows "slab_is_empty m' s = slab_is_empty m s" and "slab_has_free m' s = slab_has_free m s"
proof -
  have "agree_on {unat s + 8 ..< unat s + 24} m m'"
    by (rule agree_on_mono [OF assms(2)]) (auto simp: bytes_of_def)
  note h = sh_local [OF assms(1) this]
  show "slab_is_empty m' s = slab_is_empty m s" and "slab_has_free m' s = slab_has_free m s"
    by (simp_all add: slab_is_empty_def slab_has_free_def h)
qed

text \<open>The loop: what holds of the slabs already visited, and what it leaves.\<close>

definition rel_pre :: "nat \<Rightarrow> ptr list \<Rightarrow> ptr \<Rightarrow> mem \<Rightarrow> bool" where
  "rel_pre i slabs retained m \<longleftrightarrow>
     (\<forall>j<i. j < length slabs \<longrightarrow> slab_is_empty m (slabs ! j) \<longrightarrow> slabs ! j = retained) \<and>
     (retained = nullptr \<or>
      (\<exists>j<i. j < length slabs \<and> slabs ! j = retained \<and> slab_is_empty m retained))"

definition rel_post :: "ptr list \<Rightarrow> mem \<Rightarrow> ptr list \<Rightarrow> ptr \<Rightarrow> mem \<Rightarrow> bool" where
  "rel_post slabs m slabs' retained' m' \<longleftrightarrow>
     (\<forall>s\<in>set slabs'. slab_is_empty m' s \<longrightarrow> s = retained') \<and>
     (retained' = nullptr \<or> retained' \<in> set slabs' \<and> slab_is_empty m' retained') \<and>
     set slabs' \<subseteq> set slabs \<and> (\<forall>s\<in>set slabs. \<not> slab_is_empty m s \<longrightarrow> s \<in> set slabs')"

lemma rel_pre_post: "rel_pre i slabs retained m \<Longrightarrow> length slabs \<le> i \<Longrightarrow> rel_post slabs m slabs retained m"
  by (fastforce simp: rel_pre_def rel_post_def in_set_conv_nth)

lemma sc_release_loop_spec:
  assumes "os_ok os" and "sc_inv os (sc_with sc slabs current) orph w"
    and "sc_release_loop os i slabs retained current w = (slabs', retained', current', w')"
    and "rel_pre i slabs retained (w_mem w)"
  shows "sc_step os (sc_with sc slabs current) orph w (sc_with sc slabs' current') orph w' \<and>
    sc_live (sc_with sc slabs' current') orph (w_mem w') =
      sc_live (sc_with sc slabs current) orph (w_mem w) \<and>
    rel_post slabs (w_mem w) slabs' retained' (w_mem w')"
  using assms
proof (induction os i slabs retained current w rule: sc_release_loop.induct)
  case (1 os i slabs retained current w)
  note os = 1(4) and inv = 1(5) and res = 1(6) and pre = 1(7)
  have place: "slab_place s (sc_block_size sc)" if "s \<in> set slabs" for s
    using sc_inv_slab [OF inv, of s] that by simp
  have d: "distinct slabs" using inv by (simp add: sc_inv_def slabs_apart_def)
  consider (stop) "\<not> i < length slabs" | (busy) "i < length slabs" "\<not> slab_is_empty (w_mem w) (slabs ! i)"
    | (keep) "i < length slabs" "slab_is_empty (w_mem w) (slabs ! i)" "retained = nullptr"
    | (drop) "i < length slabs" "slab_is_empty (w_mem w) (slabs ! i)" "retained \<noteq> nullptr"
    by blast
  then show ?case
  proof cases
    case stop
    then have "slabs' = slabs" "retained' = retained" "current' = current" "w' = w"
      using res by (simp_all add: sc_release_loop.simps)
    then show ?thesis using sc_step_refl [OF inv] rel_pre_post [OF pre] stop by simp
  next
    case busy
    have "sc_release_loop os (Suc i) slabs retained current w = (slabs', retained', current', w')"
      using res busy by (subst (asm) sc_release_loop.simps) simp
    moreover have "rel_pre (Suc i) slabs retained (w_mem w)"
      using pre busy by (auto simp: rel_pre_def less_Suc_eq)
    ultimately show ?thesis using 1(1) [OF busy(1) refl busy(2) os inv] by blast
  next
    case keep
    have "sc_release_loop os (Suc i) slabs (slabs ! i) current w = (slabs', retained', current', w')"
      using res keep by (subst (asm) sc_release_loop.simps) simp
    moreover have "rel_pre (Suc i) slabs (slabs ! i) (w_mem w)"
      using pre keep chain_nonnull place [of "slabs ! i"] place
      by (fastforce simp: rel_pre_def less_Suc_eq slab_place_def)
    ultimately show ?thesis using 1(2) [OF keep(1) refl _ keep(3) os inv] keep(2) by blast
  next
    case drop
    let ?c = "if current = slabs ! i then nullptr else current"
      and ?w = "vm_release os (slabs ! i) SLAB_SIZE w"
    have loop: "sc_release_loop os i (swap_pop i slabs) retained ?c ?w = (slabs', retained', current', w')"
      using res drop by (subst (asm) sc_release_loop.simps) (simp add: Let_def)
    note D = sc_drop_step [OF os inv drop(1,2)]
    note sp = swap_pop_set [OF drop(1) d]
    have emp: "slab_is_empty (w_mem ?w) s = slab_is_empty (w_mem w) s" if "s \<in> set (swap_pop i slabs)" for s
    proof (rule slab_is_empty_local)
      show "slab_place s (sc_block_size sc)" using that sp place by simp
      show "agree_on (bytes_of s 65536) (w_mem w) (w_mem ?w)"
        using that by (intro agree_on_mono [OF D(3)]) (auto simp: sc_foot_def slabs_bytes_def)
    qed
    have nth: "swap_pop i slabs ! j = slabs ! j" if "j < i" for j
      using that drop(1) by (rule swap_pop_nth)
    have len: "j < length (swap_pop i slabs)" if "j < i" for j using that drop(1) by simp
    have pre': "rel_pre i (swap_pop i slabs) retained (w_mem ?w)"
      unfolding rel_pre_def
    proof (intro conjI allI impI)
      fix j assume j: "j < i" "j < length (swap_pop i slabs)"
        and e: "slab_is_empty (w_mem ?w) (swap_pop i slabs ! j)"
      have "slab_is_empty (w_mem w) (slabs ! j)" using e emp [OF nth_mem [OF j(2)]] nth [OF j(1)] by simp
      then show "swap_pop i slabs ! j = retained"
        using pre nth [OF j(1)] j(1) drop(1) by (simp add: rel_pre_def)
    next
      show "retained = nullptr \<or> (\<exists>j<i. j < length (swap_pop i slabs) \<and>
          swap_pop i slabs ! j = retained \<and> slab_is_empty (w_mem ?w) retained)"
        using pre emp [OF nth_mem] nth len drop(1) unfolding rel_pre_def by metis
    qed
    have R: "sc_step os (sc_with sc (swap_pop i slabs) ?c) orph ?w (sc_with sc slabs' current') orph w' \<and>
      sc_live (sc_with sc slabs' current') orph (w_mem w') =
        sc_live (sc_with sc (swap_pop i slabs) ?c) orph (w_mem ?w) \<and>
      rel_post (swap_pop i slabs) (w_mem ?w) slabs' retained' (w_mem w')"
      using drop(2) by (intro 1(3) [OF drop(1) refl _ drop(3) os _ loop pre'] sc_stepD(1) [OF D(1)]) simp
    then have st: "sc_step os (sc_with sc slabs current) orph w (sc_with sc slabs' current') orph w'"
      using D(2) by (intro sc_step_trans [OF D(1)]) auto
    have "rel_post slabs (w_mem w) slabs' retained' (w_mem w')"
      using R emp drop(2) unfolding rel_post_def sp by auto
    with st R D(2) show ?thesis by auto
  qed
qed

text \<open>At most one slab of the list is empty: what the release loop is for.\<close>

definition sc_trim :: "size_class \<Rightarrow> mem \<Rightarrow> bool" where
  "sc_trim sc m \<longleftrightarrow>
     (\<forall>s\<in>set (nv_items (sc_slabs sc)). \<forall>t\<in>set (nv_items (sc_slabs sc)).
        slab_is_empty m s \<and> slab_is_empty m t \<longrightarrow> s = t)"

lemma sc_current_step:
  assumes inv: "sc_inv os sc orph w" and c: "c = nullptr \<or> c \<in> set (sc_all sc orph)"
  shows "sc_step os sc orph w (sc\<lparr>sc_current := c\<rparr>) orph w"
  using sc_inv_current [OF inv c] frame_step_refl [OF sc_foot_mapped [OF inv]]
  by (simp add: sc_step_def)

lemma sc_release_extra_step:
  assumes os: "os_ok os" and inv: "sc_inv os sc orph w"
    and rel: "sc_release_extra os sc w = (sc', w')"
  shows "sc_step os sc orph w sc' orph w'"
    and "sc_live sc' orph (w_mem w') = sc_live sc orph (w_mem w)"
    and "sc_trim sc' (w_mem w')"
    and "set (nv_items (sc_slabs sc')) \<subseteq> set (nv_items (sc_slabs sc))"
    and "\<And>s. s \<in> set (nv_items (sc_slabs sc)) \<Longrightarrow> \<not> slab_is_empty (w_mem w) s \<Longrightarrow>
           s \<in> set (nv_items (sc_slabs sc'))"
    and "sc_current sc' = nullptr \<or> sc_current sc' \<in> set (nv_items (sc_slabs sc'))"
proof -
  let ?items = "nv_items (sc_slabs sc)"
  obtain slabs retained current where
    loop: "sc_release_loop os 0 ?items nullptr (sc_current sc) w = (slabs, retained, current, w')"
    using rel by (auto simp: sc_release_extra_def Let_def split: prod.splits)
  define c1 where "c1 = (if current \<noteq> nullptr \<and> current \<notin> set slabs then nullptr else current)"
  define c2 where "c2 = (if (c1 = nullptr \<or> \<not> slab_has_free (w_mem w') c1) \<and> retained \<noteq> nullptr
                    then retained else c1)"
  have sc': "sc' = sc_with sc slabs c2"
    using rel by (simp add: sc_release_extra_def loop c1_def [symmetric] c2_def [symmetric] sc_with_def)
  have inv0: "sc_inv os (sc_with sc ?items (sc_current sc)) orph w" using inv by simp
  have pre: "rel_pre 0 ?items nullptr (w_mem w)" by (simp add: rel_pre_def)
  have step1: "sc_step os sc orph w (sc_with sc slabs current) orph w'"
    and live1: "sc_live (sc_with sc slabs current) orph (w_mem w') = sc_live sc orph (w_mem w)"
    and post: "rel_post ?items (w_mem w) slabs retained (w_mem w')"
    using sc_release_loop_spec [OF os inv0 loop pre] by simp_all
  have c2: "c2 = nullptr \<or> c2 \<in> set slabs"
    using post by (auto simp: c2_def c1_def rel_post_def)
  have eq: "sc' = (sc_with sc slabs current)\<lparr>sc_current := c2\<rparr>" by (simp add: sc' sc_with_def)
  have step2: "sc_step os (sc_with sc slabs current) orph w' sc' orph w'"
    unfolding eq using c2 by (intro sc_current_step sc_stepD(1) [OF step1]) auto
  show live': "sc_live sc' orph (w_mem w') = sc_live sc orph (w_mem w)" using live1 by (simp add: eq)
  show "sc_step os sc orph w sc' orph w'"
    using live1 by (intro sc_step_trans [OF step1 step2]) simp
  show "sc_trim sc' (w_mem w')" using post by (auto simp: sc_trim_def sc' rel_post_def)
  show "set (nv_items (sc_slabs sc')) \<subseteq> set ?items" using post by (auto simp: sc' rel_post_def)
  show "s \<in> set (nv_items (sc_slabs sc'))" if "s \<in> set ?items" "\<not> slab_is_empty (w_mem w) s" for s
    using post that by (auto simp: sc' rel_post_def)
  show "sc_current sc' = nullptr \<or> sc_current sc' \<in> set (nv_items (sc_slabs sc'))"
    using c2 by (simp add: sc')
qed

lemma sc_deallocate_ok:
  assumes os: "os_ok os" and inv: "sc_inv os sc orph w" and b: "b \<in> sc_live sc orph (w_mem w)"
    and de: "sc_deallocate os b sc w = (r, sc', w')"
  shows "r = Inr ()" and "sc_step os sc orph w sc' orph w'"
    and "sc_live sc' orph (w_mem w') = sc_live sc orph (w_mem w) - {b}"
proof -
  define s where "s = bh_raw_ptr (w_mem w) b"
  define w1 where "w1 = w\<lparr>w_mem := slab_free_block s b (w_mem w)\<rparr>"
  note F = sc_free_block_step [OF inv b s_def w1_def]
  have "r = Inr () \<and> sc_step os sc orph w sc' orph w' \<and>
    sc_live sc' orph (w_mem w') = sc_live sc orph (w_mem w) - {b}"
  proof (cases "slab_is_empty (w_mem w1) s")
    case True
    then have r: "r = Inr ()" and e: "sc_release_extra os sc w1 = (sc', w')"
      using de F(1) by (simp_all add: sc_deallocate_def s_def [symmetric] w1_def [symmetric] Let_def
          split: prod.splits)
    note E = sc_release_extra_step [OF os sc_stepD(1) [OF F(3)] e]
    have "sc_step os sc orph w sc' orph w'"
      using E(2) by (intro sc_step_trans [OF F(3) E(1)]) auto
    with r E(2) F(4) show ?thesis by simp
  next
    case False
    then have "r = Inr ()" "sc' = sc" "w' = w1"
      using de F(1) by (simp_all add: sc_deallocate_def s_def [symmetric] w1_def [symmetric] Let_def)
    with F(3,4) show ?thesis by simp
  qed
  then show "r = Inr ()" and "sc_step os sc orph w sc' orph w'"
    and "sc_live sc' orph (w_mem w') = sc_live sc orph (w_mem w) - {b}" by auto
qed

subsection \<open>Batches\<close>

text \<open>Blocks in use, linked through the first word of their user areas: the loop visits
  them in order, returns each, and ends.\<close>

lemma next_link_give:
  assumes "c \<in> set (slab_blocks t bs)" and "b \<in> set (slab_blocks s bs)"
    and "slab_place t bs" and "slab_place s bs" and "c \<noteq> b"
    and "s = t \<or> bytes_of s 65536 \<inter> bytes_of t 65536 = {}"
    and ag: "agree_on (- give_bytes s b) m m'"
  shows "next_link m' c = next_link m c"
proof -
  have bs: "unat bs \<le> 4096" using assms(3) by (simp add: slab_place_def)
  note st = slab_stride_bounds(1) [OF bs]
  note C = slab_block_bounds [OF assms(3,1)] and B = slab_block_bounds [OF assms(4,2)]
  have "{unat c + 32 ..< unat c + 40} \<inter> give_bytes s b = {}"
  proof (cases "s = t")
    case True
    then show ?thesis
      using slab_block_apart [OF assms(4) _ assms(2,5)] assms(1) C(1) st by (auto simp: give_bytes_def)
  next
    case False
    have "{unat c + 32 ..< unat c + 40} \<subseteq> bytes_of t 65536"
      using C(1,2) st by (auto simp: bytes_of_def)
    moreover have "give_bytes s b \<subseteq> bytes_of s 65536"
      using B(1,2) st by (auto simp: give_bytes_def bytes_of_def)
    ultimately show ?thesis using assms(6) False by blast
  qed
  then show ?thesis
    using C(5) by (intro link_local_block agree_on_mono [OF ag]) auto
qed

lemma sc_batch_loop_step:
  assumes inv: "sc_inv os sc orph w" and b: "b \<in> sc_live sc orph (w_mem w)"
  defines "m1 \<equiv> slab_free_block (bh_raw_ptr (w_mem w) b) b (w_mem w)"
  shows "sc_batch_loop b saw (w_mem w) =
    sc_batch_loop (next_link (w_mem w) b) (saw \<or> slab_is_empty m1 (bh_raw_ptr (w_mem w) b)) m1"
proof -
  have "b \<noteq> nullptr"
    using sc_live_obtain [OF inv b] slab_block_bounds(4) sc_inv_slab [OF inv] by metis
  then show ?thesis
    using sc_free_block_step(1) [OF inv b refl refl]
    by (subst sc_batch_loop.simps) (simp add: m1_def Let_def)
qed

lemma sc_batch_links:
  assumes inv: "sc_inv os sc orph w" and b: "b \<in> sc_live sc orph (w_mem w)"
    and c: "c \<in> sc_live sc orph (w_mem w)" "c \<noteq> b"
  shows "next_link (slab_free_block (bh_raw_ptr (w_mem w) b) b (w_mem w)) c = next_link (w_mem w) c"
proof -
  obtain s where s: "s \<in> set (sc_all sc orph)" "bh_raw_ptr (w_mem w) b = s"
    "b \<in> set (slab_blocks s (sc_block_size sc))" using sc_live_obtain [OF inv b] by metis
  obtain t where t: "t \<in> set (sc_all sc orph)" "c \<in> set (slab_blocks t (sc_block_size sc))"
    using sc_live_obtain [OF inv c(1)] by metis
  have "s = t \<or> bytes_of s 65536 \<inter> bytes_of t 65536 = {}"
    using inv s(1) t(1) by (auto simp: sc_inv_def slabs_apart_def)
  with sc_free_block_step(5) [OF inv b refl refl] show ?thesis
    using sc_inv_slab [OF inv s(1)] sc_inv_slab [OF inv t(1)] s t c(2)
    by (intro next_link_give [OF t(2) s(3)]) auto
qed

text \<open>Which slabs are empty after one block came back.\<close>

lemma sc_free_block_empty:
  assumes inv: "sc_inv os sc orph w" and b: "b \<in> sc_live sc orph (w_mem w)"
    and t: "t \<in> set (sc_all sc orph)" "t \<noteq> bh_raw_ptr (w_mem w) b"
  shows "slab_is_empty (slab_free_block (bh_raw_ptr (w_mem w) b) b (w_mem w)) t =
    slab_is_empty (w_mem w) t"
proof (rule slab_is_empty_local)
  let ?s = "bh_raw_ptr (w_mem w) b"
  obtain s where s: "s \<in> set (sc_all sc orph)" "?s = s"
    "b \<in> set (slab_blocks s (sc_block_size sc))" using sc_live_obtain [OF inv b] by metis
  show "slab_place t (sc_block_size sc)" using sc_inv_slab [OF inv t(1)] by simp
  have dj: "bytes_of s 65536 \<inter> bytes_of t 65536 = {}"
    using inv s(1,2) t by (auto simp: sc_inv_def slabs_apart_def)
  have place: "slab_place s (sc_block_size sc)" using sc_inv_slab [OF inv s(1)] by simp
  have "unat (sc_block_size sc) \<le> 4096" using place by (simp add: slab_place_def)
  from slab_stride_bounds(1) [OF this]
  have "give_bytes s b \<subseteq> bytes_of s 65536"
    using slab_block_bounds(1,2) [OF place s(3)] by (auto simp: give_bytes_def bytes_of_def)
  then show "agree_on (bytes_of t 65536) (w_mem w) (slab_free_block ?s b (w_mem w))"
    using dj s(2) sc_free_block_step(5) [OF inv b refl refl]
    by (intro agree_on_mono [OF sc_free_block_step(5) [OF inv b refl refl, simplified]]) auto
qed

lemma sc_batch_loop_ok:
  assumes "sc_inv os sc orph w" and "chain (next_link (w_mem w)) head bs"
    and "set bs \<subseteq> sc_live sc orph (w_mem w)"
  shows "\<exists>saw' m'. sc_batch_loop head saw (w_mem w) = Some (Inr saw', m') \<and>
    sc_step os sc orph w sc orph (w\<lparr>w_mem := m'\<rparr>) \<and>
    sc_live sc orph m' = sc_live sc orph (w_mem w) - set bs \<and>
    (\<not> saw' \<longrightarrow> \<not> saw \<and>
      (\<forall>t\<in>set (sc_all sc orph). slab_is_empty m' t \<longrightarrow> slab_is_empty (w_mem w) t))"
  using assms
proof (induction bs arbitrary: head saw w)
  case Nil
  then have "head = nullptr" by simp
  then show ?case using sc_step_refl [OF Nil(1)] by (subst sc_batch_loop.simps) simp
next
  case (Cons b bs)
  define s where "s = bh_raw_ptr (w_mem w) b"
  define m1 where "m1 = slab_free_block s b (w_mem w)"
  let ?w1 = "w\<lparr>w_mem := m1\<rparr>" and ?saw = "saw \<or> slab_is_empty m1 s"
  have b: "b \<in> sc_live sc orph (w_mem w)" and hd: "head = b"
    and ch: "chain (next_link (w_mem w)) (next_link (w_mem w) b) bs"
    using Cons.prems by auto
  have nb: "b \<notin> set bs" using chain_distinct [OF Cons.prems(2)] by simp
  note F = sc_free_block_step [OF Cons.prems(1) b s_def refl, folded m1_def, simplified]
  have ch1: "chain (next_link m1) (next_link (w_mem w) b) bs"
  proof -
    have "next_link m1 c = next_link (w_mem w) c" if "c \<in> set bs" for c
      unfolding m1_def s_def using that Cons.prems(3) nb
      by (intro sc_batch_links [OF Cons.prems(1) b]) auto
    then show ?thesis using ch chain_cong [of bs "next_link m1" "next_link (w_mem w)"] by simp
  qed
  have sub: "set bs \<subseteq> sc_live sc orph m1" using Cons.prems(3) nb F(4) by auto
  obtain saw' m' where R: "sc_batch_loop (next_link (w_mem w) b) ?saw m1 = Some (Inr saw', m')"
    "sc_step os sc orph ?w1 sc orph (?w1\<lparr>w_mem := m'\<rparr>)"
    "sc_live sc orph m' = sc_live sc orph m1 - set bs"
    "\<not> saw' \<longrightarrow> \<not> ?saw \<and> (\<forall>t\<in>set (sc_all sc orph). slab_is_empty m' t \<longrightarrow> slab_is_empty m1 t)"
    using Cons.IH [of ?w1 "next_link (w_mem w) b" ?saw] sc_stepD(1) [OF F(3)] ch1 sub
    by (auto simp del: de_Morgan_disj)
  have "sc_batch_loop head saw (w_mem w) = Some (Inr saw', m')"
    using R(1) sc_batch_loop_step [OF Cons.prems(1) b] by (simp add: hd m1_def s_def)
  moreover have "sc_step os sc orph w sc orph (w\<lparr>w_mem := m'\<rparr>)"
    using R(2,3) F(4) by (intro sc_step_trans [OF F(3)]) auto
  moreover have "sc_live sc orph m' = sc_live sc orph (w_mem w) - set (b # bs)"
    using R(3) F(4) by auto
  moreover have "\<not> saw' \<longrightarrow> \<not> saw \<and>
      (\<forall>t\<in>set (sc_all sc orph). slab_is_empty m' t \<longrightarrow> slab_is_empty (w_mem w) t)"
    using R(4) sc_free_block_empty [OF Cons.prems(1) b, folded s_def, folded m1_def] by blast
  ultimately show ?case by blast
qed

lemma sc_trim_mono:
  "sc_trim sc m \<Longrightarrow> (\<forall>t\<in>set (nv_items (sc_slabs sc)). slab_is_empty m' t \<longrightarrow> slab_is_empty m t) \<Longrightarrow>
   sc_trim sc m'"
  unfolding sc_trim_def by blast

lemma sc_items_all: "set (nv_items (sc_slabs sc)) \<subseteq> set (sc_all sc orph)"
  by (simp add: sc_all_def)

lemma sc_deallocate_batch_ok:
  assumes os: "os_ok os" and inv: "sc_inv os sc orph w"
    and ch: "chain (next_link (w_mem w)) head bs" and sub: "set bs \<subseteq> sc_live sc orph (w_mem w)"
  shows "\<exists>sc' w'. sc_deallocate_batch os head sc w = Some (Inr (), sc', w') \<and>
    sc_step os sc orph w sc' orph w' \<and>
    sc_live sc' orph (w_mem w') = sc_live sc orph (w_mem w) - set bs \<and>
    (sc_trim sc (w_mem w) \<longrightarrow> sc_trim sc' (w_mem w'))"
proof (cases "head = nullptr")
  case True
  then have "bs = []" using ch by simp
  then show ?thesis using True sc_step_refl [OF inv] by (simp add: sc_deallocate_batch_def)
next
  case False
  obtain saw m1 where B: "sc_batch_loop head False (w_mem w) = Some (Inr saw, m1)"
    "sc_step os sc orph w sc orph (w\<lparr>w_mem := m1\<rparr>)"
    "sc_live sc orph m1 = sc_live sc orph (w_mem w) - set bs"
    "\<not> saw \<longrightarrow> (\<forall>t\<in>set (sc_all sc orph). slab_is_empty m1 t \<longrightarrow> slab_is_empty (w_mem w) t)"
    using sc_batch_loop_ok [OF inv ch sub, of False] by blast
  show ?thesis
  proof (cases saw)
    case True
    obtain sc' w' where e: "sc_release_extra os sc (w\<lparr>w_mem := m1\<rparr>) = (sc', w')" by fastforce
    note E = sc_release_extra_step [OF os sc_stepD(1) [OF B(2)] e]
    have "sc_deallocate_batch os head sc w = Some (Inr (), sc', w')"
      using False True B(1) e by (simp add: sc_deallocate_batch_def)
    moreover have "sc_step os sc orph w sc' orph w'"
      using E(2) B(3) by (intro sc_step_trans [OF B(2) E(1)]) auto
    ultimately show ?thesis using E(2,3) B(3) by auto
  next
    case nosaw: False
    have "sc_deallocate_batch os head sc w = Some (Inr (), sc, w\<lparr>w_mem := m1\<rparr>)"
      using False nosaw B(1) by (simp add: sc_deallocate_batch_def)
    moreover have "sc_trim sc (w_mem w) \<longrightarrow> sc_trim sc m1"
      using B(4) nosaw sc_items_all [of sc orph] by (blast intro: sc_trim_mono)
    ultimately show ?thesis using B(2,3) by auto
  qed
qed

lemma sc_deallocate_trim:
  assumes os: "os_ok os" and inv: "sc_inv os sc orph w" and b: "b \<in> sc_live sc orph (w_mem w)"
    and de: "sc_deallocate os b sc w = (r, sc', w')" and trim: "sc_trim sc (w_mem w)"
  shows "sc_trim sc' (w_mem w')"
proof -
  define s where "s = bh_raw_ptr (w_mem w) b"
  define w1 where "w1 = w\<lparr>w_mem := slab_free_block s b (w_mem w)\<rparr>"
  note F = sc_free_block_step [OF inv b s_def w1_def]
  show ?thesis
  proof (cases "slab_is_empty (w_mem w1) s")
    case True
    then have "sc_release_extra os sc w1 = (sc', w')"
      using de F(1) by (simp add: sc_deallocate_def s_def [symmetric] w1_def [symmetric] Let_def
          split: prod.splits)
    from sc_release_extra_step(3) [OF os sc_stepD(1) [OF F(3)] this] show ?thesis .
  next
    case False
    then have eq: "sc' = sc" "w' = w1"
      using de F(1) by (simp_all add: sc_deallocate_def s_def [symmetric] w1_def [symmetric] Let_def)
    show ?thesis
      unfolding eq using False sc_free_block_empty [OF inv b] sc_items_all [of sc orph]
      by (intro sc_trim_mono [OF trim]) (auto simp: w1_def s_def)
  qed
qed

text \<open>Allocation keeps it as well: the slab it takes from is not empty afterwards.\<close>

lemma sc_take_from_empty:
  assumes inv: "sc_inv os sc orph w" and s: "s \<in> set (sc_all sc orph)"
    and hf: "slab_has_free (w_mem w) s" and take: "sc_take_from s sc w = (b, sc', w')"
    and t: "t \<in> set (sc_all sc orph)" and e: "slab_is_empty (w_mem w') t"
  shows "t \<noteq> s \<and> slab_is_empty (w_mem w) t"
proof -
  let ?bs = "sc_block_size sc"
  obtain m' where a: "slab_allocate_block s (w_mem w) = (b, m')" and w': "w' = w\<lparr>w_mem := m'\<rparr>"
    using take by (auto simp: sc_take_from_def split: prod.splits)
  have place: "slab_place s ?bs" and ok: "slab_ok (w_mem w) ?bs s"
    using sc_inv_slab [OF inv s] by auto
  note A = slab_allocate_block_ok [OF place ok hf a]
  have "slab_live m' ?bs s \<noteq> {}" using A(5) by blast
  then have ts: "t \<noteq> s" using e slab_is_empty_iff [OF place A(2)] by (auto simp: w')
  have st: "48 \<le> slab_stride ?bs" using slab_stride_bounds(1) place by (simp add: slab_place_def)
  have tb: "take_bytes s b \<subseteq> bytes_of s 65536"
    using slab_block_bounds(1,2) [OF place A(3)] st by (auto simp: take_bytes_def bytes_of_def)
  have "bytes_of t 65536 \<inter> bytes_of s 65536 = {}"
    using inv s t ts by (simp add: sc_inv_def slabs_apart_def)
  then have "agree_on (bytes_of t 65536) (w_mem w) m'"
    using tb by (intro agree_on_mono [OF A(6)]) auto
  then show ?thesis
    using e ts slab_is_empty_local(1) [of t ?bs "w_mem w" m'] sc_inv_slab [OF inv t] by (simp add: w')
qed

lemma sc_take_from_trim:
  assumes inv: "sc_inv os sc orph w" and s: "s \<in> set (sc_all sc orph)"
    and hf: "slab_has_free (w_mem w) s" and take: "sc_take_from s sc w = (b, sc', w')"
    and trim: "\<And>t u. t \<in> set (nv_items (sc_slabs sc)) - {s} \<Longrightarrow> u \<in> set (nv_items (sc_slabs sc)) - {s} \<Longrightarrow>
      slab_is_empty (w_mem w) t \<Longrightarrow> slab_is_empty (w_mem w) u \<Longrightarrow> t = u"
  shows "sc_trim sc' (w_mem w')"
proof -
  have "sc' = sc" using take by (auto simp: sc_take_from_def split: prod.splits)
  moreover have "t \<noteq> s \<and> slab_is_empty (w_mem w) t"
    if "t \<in> set (nv_items (sc_slabs sc))" "slab_is_empty (w_mem w') t" for t
    using sc_take_from_empty [OF inv s hf take _ that(2)] that(1) sc_items_all by blast
  ultimately show ?thesis using trim by (auto simp: sc_trim_def)
qed

lemma sc_scan_trim:
  assumes inv: "sc_inv os sc orph w" and scan: "sc_scan sc w = Some (b, sc', w')"
    and trim: "sc_trim sc (w_mem w)"
  shows "sc_trim sc' (w_mem w')"
proof (cases "sc_current sc \<noteq> nullptr \<and> slab_has_free (w_mem w) (sc_current sc)")
  case True
  then have "sc_take_from (sc_current sc) sc w = (b, sc', w')" using scan by (simp add: sc_scan_def)
  moreover have "sc_current sc \<in> set (sc_all sc orph)" using inv True by (simp add: sc_inv_def)
  ultimately show ?thesis
    using trim True by (intro sc_take_from_trim [OF inv]) (auto simp: sc_trim_def)
next
  case False
  then obtain s where f: "find (slab_has_free (w_mem w)) (nv_items (sc_slabs sc)) = Some s"
    and t: "sc_take_from s (sc\<lparr>sc_current := s\<rparr>) w = (b, sc', w')"
    using scan by (auto simp: sc_scan_def split: option.splits)
  note fs = find_SomeD [OF f]
  then have sin: "s \<in> set (sc_all sc orph)" using sc_items_all by blast
  have inv': "sc_inv os (sc\<lparr>sc_current := s\<rparr>) orph w" using inv sin by (simp add: sc_inv_current)
  show ?thesis
    using sin fs trim by (intro sc_take_from_trim [OF inv' _ _ t]) (auto simp: sc_trim_def)
qed

lemma sc_grow_trim:
  assumes os: "os_ok os" and inv: "sc_inv os sc orph w" and grow: "sc_grow os sc w = (Inr b, sc', w')"
    and trim: "sc_trim sc (w_mem w)"
  shows "sc_trim sc' (w_mem w')"
proof -
  from grow obtain s w1 v w2 where
    cr: "slab_create os (sc_block_size sc) (sc_node_id sc) w = (Inr s, w1)" and
    push: "vec_push_back os (sc_node_id sc) (sc_slabs sc) s w1 = (Inr v, w2)" and
    take: "sc_take_from s (sc\<lparr>sc_current := s, sc_slabs := v\<rparr>) w2 = (b, sc', w')"
    by (auto simp: sc_grow_def Let_def split: prod.splits sum.splits)
  let ?sc1 = "sc\<lparr>sc_current := s\<rparr>" and ?sc2 = "sc\<lparr>sc_current := s, sc_slabs := v\<rparr>"
  note N = sc_inv_new_slab [OF os inv cr]
  have vs: "vec_ok os (sc_slabs ?sc1)" "vec_bytes os (sc_slabs ?sc1) \<subseteq> mapped w1"
    using N(1) by (auto simp: sc_inv_def sc_foot_def)
  have push': "vec_push_back os (sc_node_id sc) (sc_slabs ?sc1) s w1 = (Inr v, w2)" using push by simp
  note P = vec_push_back_Inr [OF os vs push']
  note V = sc_inv_vec [OF N(1) P]
  have inv2: "sc_inv os ?sc2 orph w2" using V(1) by simp
  have sin: "s \<in> set (sc_all ?sc2 orph)" using P(1) by (simp add: sc_all_def)
  have same: "slab_is_empty (w_mem w2) t = slab_is_empty (w_mem w) t"
    if t: "t \<in> set (nv_items (sc_slabs sc))" for t
  proof (rule slab_is_empty_local)
    have ta: "t \<in> set (sc_all sc orph)" using t sc_items_all by blast
    show "slab_place t (sc_block_size sc)" using sc_inv_slab [OF inv ta] by simp
    have "agree_on (bytes_of t 65536) (w_mem w) (w_mem w1)"
      by (rule agree_on_mono [OF N(4) sc_slab_in_foot [OF ta]])
    moreover have "bytes_of t 65536 \<subseteq> slabs_bytes (sc_all ?sc1 (s # orph))"
      using t by (auto simp: slabs_bytes_def sc_all_def)
    then have "agree_on (bytes_of t 65536) (w_mem w1) (w_mem w2)" by (rule agree_on_mono [OF V(4)])
    ultimately show "agree_on (bytes_of t 65536) (w_mem w) (w_mem w2)" by (rule agree_on_trans)
  qed
  have "slab_ok (w_mem w2) (sc_block_size sc) s" "slab_place s (sc_block_size sc)"
    using sc_inv_slab [OF inv2, of s] sin by simp_all
  have "slab_has_free (w_mem w2) s"
  proof -
    have "bytes_of s 65536 \<subseteq> slabs_bytes (sc_all ?sc1 (s # orph))"
      by (auto simp: slabs_bytes_def sc_all_def)
    with N(5) slab_is_empty_local(2) [of s "sc_block_size sc"] agree_on_mono [OF V(4)] show ?thesis
      using \<open>slab_place s (sc_block_size sc)\<close> by blast
  qed
  then show ?thesis
    using P(1) trim same by (intro sc_take_from_trim [OF inv2 sin _ take]) (auto simp: sc_trim_def)
qed

lemma sc_allocate_trim:
  assumes os: "os_ok os" and inv: "sc_inv os sc orph w"
    and al: "sc_allocate os sc w = (r, sc', w')" and trim: "sc_trim sc (w_mem w)"
  shows "sc_trim sc' (w_mem w')"
proof (cases "sc_scan sc w")
  case (Some x)
  obtain b sc1 w1 where x: "x = (b, sc1, w1)" by (cases x)
  with al Some have "sc' = sc1" "w' = w1" by (simp_all add: sc_allocate_def)
  then show ?thesis using sc_scan_trim [OF inv _ trim] Some x by simp
next
  case None
  then have g: "sc_grow os sc w = (r, sc', w')" using al by (simp add: sc_allocate_def)
  show ?thesis
  proof (cases r)
    case (Inr b)
    then show ?thesis using sc_grow_trim [OF os inv _ trim] g by simp
  next
    case (Inl e)
    obtain orph' where st: "sc_step os sc orph w sc' orph' w'"
      and items: "sc_slabs sc' = sc_slabs sc"
      and o: "orph' = orph \<or> orph' = sc_current sc' # orph"
      and live: "sc_live sc' orph' (w_mem w') = sc_live sc orph (w_mem w)"
      using sc_grow_Inl [OF os inv g [unfolded Inl]] by (elim exE conjE disjE) auto
    have "slab_is_empty (w_mem w') t \<Longrightarrow> slab_is_empty (w_mem w) t"
      if t: "t \<in> set (nv_items (sc_slabs sc))" for t
    proof -
      assume e: "slab_is_empty (w_mem w') t"
      have ta: "t \<in> set (sc_all sc orph)" "t \<in> set (sc_all sc' orph')"
        using t items by (auto simp: sc_all_def)
      note I = sc_inv_slab [OF inv ta(1)] sc_inv_slab [OF sc_stepD(1) [OF st] ta(2)]
      have bs: "sc_block_size sc' = sc_block_size sc" using sc_stepD(4) [OF st] .
      have "slab_live (w_mem w') (sc_block_size sc) t = {}"
        using e slab_is_empty_iff I(2) bs by auto
      show "slab_is_empty (w_mem w) t"
      proof (rule ccontr)
        assume "\<not> slab_is_empty (w_mem w) t"
        then obtain b where b: "b \<in> slab_live (w_mem w) (sc_block_size sc) t"
          using slab_is_empty_iff I(1) by auto
        then have "b \<in> sc_live sc orph (w_mem w)" using ta(1) by (auto simp: sc_live_def)
        then have "b \<in> sc_live sc' orph' (w_mem w')" using live by simp
        then obtain u where u: "u \<in> set (sc_all sc' orph')"
          "b \<in> slab_live (w_mem w') (sc_block_size sc) u"
          by (auto simp: sc_live_def bs)
        have "u = t"
          using sc_stepD(1) [OF st] b u ta(2) I sc_inv_slab [OF sc_stepD(1) [OF st] u(1)] bs
          by (intro slabs_apart_block [of "sc_all sc' orph'" u t "sc_block_size sc" b])
            (auto simp: sc_inv_def slab_live_def)
        with u(2) \<open>slab_live (w_mem w') (sc_block_size sc) t = {}\<close> show False by simp
      qed
    qed
    then show ?thesis using trim items by (auto simp: sc_trim_def)
  qed
qed

subsection \<open>Construction and destruction\<close>

lemma sc_new_inv:
  assumes "0 < unat bs" and "unat bs \<le> 4096"
  shows "sc_inv os (sc_new bs node sync) [] w" and "sc_foot os (sc_new bs node sync) [] = {}"
    and "sc_live (sc_new bs node sync) [] m = {}" and "sc_trim (sc_new bs node sync) m"
  using assms
  by (simp_all add: sc_inv_def sc_new_def empty_vec_def sc_all_def sc_foot_def slabs_bytes_def
      vec_bytes_def slabs_apart_def vec_ok_def sc_live_def sc_trim_def)

lemma release_slabs_frame:
  assumes "os_ok os" and "slabs_apart ss" and "slabs_bytes ss \<subseteq> mapped w"
    and "\<forall>s\<in>set ss. s \<noteq> nullptr \<and> unat (page_size os) dvd unat s"
  shows "frame_step (slabs_bytes ss) w {} (fold (\<lambda>slab w. vm_release os slab SLAB_SIZE w) ss w)"
  using assms(2-)
proof (induction ss arbitrary: w)
  case Nil
  then show ?case by (simp add: slabs_bytes_def frame_step_refl)
next
  case (Cons s ss)
  let ?w1 = "vm_release os s SLAB_SIZE w"
  have dj: "slabs_bytes ss \<inter> bytes_of s 65536 = {}"
    using Cons.prems(1) by (fastforce simp: slabs_apart_def slabs_bytes_def)
  have sub: "bytes_of s 65536 \<subseteq> mapped w" "slabs_bytes ss \<subseteq> mapped w"
    using Cons.prems(2) by (auto simp: slabs_bytes_def)
  have R: "frame_step (bytes_of s 65536) w {} ?w1"
    using vm_release_frame [OF assms(1) _ SLAB_SIZE_nz fits_page_slab [OF assms(1)], of s w]
      Cons.prems(3) sub by (simp add: span_bytes_slab [OF assms(1)])
  have "slabs_bytes ss \<subseteq> mapped ?w1" using R sub dj by (auto simp: frame_step_def)
  then have IH: "frame_step (slabs_bytes ss) ?w1 {}
      (fold (\<lambda>slab w. vm_release os slab SLAB_SIZE w) ss ?w1)"
    using Cons.prems by (intro Cons.IH) (auto simp: slabs_apart_def)
  have "frame_step (bytes_of s 65536 \<union> slabs_bytes ss) w (slabs_bytes ss) ?w1"
    using frame_step_extend [OF R sub(2) dj] by simp
  then have "frame_step (bytes_of s 65536 \<union> slabs_bytes ss) w {}
      (fold (\<lambda>slab w. vm_release os slab SLAB_SIZE w) ss ?w1)"
    using IH by (rule frame_step_trans)
  then show ?case by (simp add: slabs_bytes_def)
qed

text \<open>The destructor unmaps the slabs of the list and the vector; a ghost slab stays mapped.\<close>

lemma sc_destroy_frame:
  assumes os: "os_ok os" and inv: "sc_inv os sc orph w"
  shows "frame_step (sc_foot os sc orph) w (slabs_bytes orph) (sc_destroy os sc w)"
proof -
  let ?items = "nv_items (sc_slabs sc)" and ?V = "vec_bytes os (sc_slabs sc)"
  let ?w1 = "fold (\<lambda>slab w. vm_release os slab SLAB_SIZE w) ?items w"
  have apart: "slabs_apart (?items @ orph)" and sub: "sc_foot os sc orph \<subseteq> mapped w"
    and dv: "slabs_bytes (?items @ orph) \<inter> ?V = {}" and vok: "vec_ok os (sc_slabs sc)"
    using inv by (simp_all add: sc_inv_def sc_all_def)
  have foot: "sc_foot os sc orph = slabs_bytes ?items \<union> (slabs_bytes orph \<union> ?V)"
    by (auto simp: sc_foot_def sc_all_def slabs_bytes_Un)
  have dj: "(slabs_bytes orph \<union> ?V) \<inter> slabs_bytes ?items = {}"
  proof -
    have "bytes_of s 65536 \<inter> bytes_of t 65536 = {}" if "s \<in> set ?items" "t \<in> set orph" for s t
    proof -
      have "s \<noteq> t" using apart that by (auto simp: slabs_apart_def)
      then show ?thesis using apart that by (simp add: slabs_apart_def)
    qed
    then have "slabs_bytes ?items \<inter> slabs_bytes orph = {}" by (auto simp: slabs_bytes_def)
    then show ?thesis using dv by (auto simp: slabs_bytes_Un)
  qed
  have "s \<noteq> nullptr \<and> unat (page_size os) dvd unat s" if "s \<in> set ?items" for s
    using sc_inv_slab [OF inv, of s] that by (simp add: sc_all_def slab_place_def)
  then have "frame_step (slabs_bytes ?items) w {} ?w1"
    using sub foot apart by (intro release_slabs_frame [OF os]) (auto simp: slabs_apart_def)
  from frame_step_extend [OF this _ dj] sub foot
  have f1: "frame_step (sc_foot os sc orph) w (slabs_bytes orph \<union> ?V) ?w1" by simp
  then have sub1: "slabs_bytes orph \<union> ?V \<subseteq> mapped ?w1" by (auto simp: frame_step_def)
  have "frame_step ?V ?w1 {} (vec_destroy os (sc_slabs sc) ?w1)"
    using sub1 by (intro vec_release_frame [OF os vok]) simp
  from frame_step_extend [OF this, of "slabs_bytes orph"] sub1 dv
  have f2: "frame_step (slabs_bytes orph \<union> ?V) ?w1 (slabs_bytes orph) (vec_destroy os (sc_slabs sc) ?w1)"
    by (simp add: Un_commute slabs_bytes_Un Int_Un_distrib2)
  show ?thesis
    unfolding sc_destroy_def Let_def using f1 f2 by (rule frame_step_trans)
qed

subsection \<open>The class as an allocator\<close>

text \<open>The user of a block of the class is the layer above: it may write the user area and the
  first two words of the header, and is granted those bytes.\<close>

definition sc_grants :: "size_class \<Rightarrow> ptr set \<Rightarrow> grants" where
  "sc_grants sc L b = (if b \<in> L then Some (client_bytes (sc_block_size sc) b) else None)"

definition sc_owns :: "os \<Rightarrow> size_class \<Rightarrow> world \<Rightarrow> nat set \<Rightarrow> grants \<Rightarrow> bool" where
  "sc_owns os sc w F U \<longleftrightarrow> os_ok os \<and>
     (\<exists>orph. sc_inv os sc orph w \<and> F = sc_foot os sc orph \<and>
        U = sc_grants sc (sc_live sc orph (w_mem w)))"

lemma sc_grants_simps [simp]:
  "sc_grants sc L b = None \<longleftrightarrow> b \<notin> L"
  "sc_grants sc L b = Some A \<longleftrightarrow> b \<in> L \<and> A = client_bytes (sc_block_size sc) b"
  by (auto simp: sc_grants_def)

lemma sc_grants_upd:
  "(sc_grants sc L)(b \<mapsto> client_bytes (sc_block_size sc) b) = sc_grants sc (insert b L)"
  "(sc_grants sc L)(b := None) = sc_grants sc (L - {b})"
  by (rule ext, simp add: sc_grants_def)+

lemma sc_grants_cong: "sc_block_size sc' = sc_block_size sc \<Longrightarrow> sc_grants sc' L = sc_grants sc L"
  by (simp add: sc_grants_def fun_eq_iff)

lemma granted_sc: "granted (sc_grants sc L) = (\<Union>b\<in>L. client_bytes (sc_block_size sc) b)"
  by (auto simp: granted_def ran_def sc_grants_def)

lemma client_bytes_block:
  "unat bs \<le> 4096 \<Longrightarrow> client_bytes bs b \<subseteq> {unat b ..< unat b + slab_stride bs}"
  using slab_stride_bounds(1) [of bs] by (auto simp: client_bytes_def)

lemma granted_live_bytes:
  "unat (sc_block_size sc) \<le> 4096 \<Longrightarrow> granted (sc_grants sc L) \<subseteq> live_bytes sc L"
  using client_bytes_block [of "sc_block_size sc"] by (fastforce simp: granted_sc live_bytes_def)

lemma sc_inv_write:
  assumes inv: "sc_inv os sc orph w"
    and ag: "agree_on (- granted (sc_grants sc (sc_live sc orph (w_mem w)))) (w_mem w) m'"
  shows "sc_inv os sc orph (w\<lparr>w_mem := m'\<rparr>)" and "sc_live sc orph m' = sc_live sc orph (w_mem w)"
    and "s \<in> set (sc_all sc orph) \<Longrightarrow> slab_is_empty m' s = slab_is_empty (w_mem w) s"
proof -
  let ?bs = "sc_block_size sc" and ?all = "set (sc_all sc orph)"
  have bs: "unat ?bs \<le> 4096" using inv by (simp add: sc_inv_def)
  have loc: "slab_ok m' ?bs s \<and> slab_live m' ?bs s = slab_live (w_mem w) ?bs s" if s: "s \<in> ?all" for s
  proof -
    define m1 where "m1 = (\<lambda>x. if x \<in> bytes_of s 65536 then m' x else w_mem w x)"
    have I: "slab_place s ?bs" "slab_ok (w_mem w) ?bs s" using sc_inv_slab [OF inv s] by auto
    have "x \<in> (\<Union>b\<in>slab_live (w_mem w) ?bs s. client_bytes ?bs b)"
      if x: "x \<in> bytes_of s 65536" "x \<in> granted (sc_grants sc (sc_live sc orph (w_mem w)))" for x
    proof -
      obtain t b where t: "t \<in> ?all" "b \<in> slab_live (w_mem w) ?bs t" "x \<in> client_bytes ?bs b"
        using x(2) by (auto simp: granted_sc sc_live_def)
      have "b \<in> set (slab_blocks t ?bs)" using t(2) by (simp add: slab_live_def)
      then have "x \<in> bytes_of t 65536"
        using slab_block_in_bytes(1) sc_inv_slab [OF inv t(1)] client_bytes_block [OF bs] t(3) by blast
      then have "t = s" using inv x(1) s t(1) unfolding sc_inv_def slabs_apart_def by blast
      with t show ?thesis by blast
    qed
    then have "agree_on (- (\<Union>b\<in>slab_live (w_mem w) ?bs s. client_bytes ?bs b)) (w_mem w) m1"
      using ag by (auto simp: agree_on_def m1_def)
    note C = slab_ok_client_write [OF I this]
    have "agree_on (bytes_of s 65536) m1 m'" by (simp add: agree_on_def m1_def)
    note O = slab_ok_outside [OF I(1) C(1) this]
    from C O show ?thesis by simp
  qed
  then have "slab_inv os ?bs (sc_node_id sc) (w\<lparr>w_mem := m'\<rparr>) s" if "s \<in> ?all" for s
    using inv that by (simp add: sc_inv_def slab_inv_def)
  then show "sc_inv os sc orph (w\<lparr>w_mem := m'\<rparr>)" using inv by (simp add: sc_inv_def)
  show "sc_live sc orph m' = sc_live sc orph (w_mem w)" using loc by (simp add: sc_live_def)
  show "slab_is_empty m' s = slab_is_empty (w_mem w) s" if s: "s \<in> ?all"
    using loc [OF s] sc_inv_slab [OF inv s] slab_is_empty_iff by auto
qed

lemma sc_blocks_apart:
  assumes inv: "sc_inv os sc orph w"
    and b: "b \<in> sc_live sc orph (w_mem w)" and c: "c \<in> sc_live sc orph (w_mem w)" and "b \<noteq> c"
  shows "{unat b ..< unat b + slab_stride (sc_block_size sc)} \<inter>
    {unat c ..< unat c + slab_stride (sc_block_size sc)} = {}"
proof -
  let ?bs = "sc_block_size sc"
  obtain s where s: "s \<in> set (sc_all sc orph)" "b \<in> set (slab_blocks s ?bs)"
    using sc_live_obtain [OF inv b] by metis
  obtain t where t: "t \<in> set (sc_all sc orph)" "c \<in> set (slab_blocks t ?bs)"
    using sc_live_obtain [OF inv c] by metis
  have ps: "slab_place s ?bs" "slab_place t ?bs"
    using sc_inv_slab [OF inv s(1)] sc_inv_slab [OF inv t(1)] by auto
  show ?thesis
  proof (cases "s = t")
    case True
    then show ?thesis using slab_block_apart [OF ps(1) s(2) _ \<open>b \<noteq> c\<close>] t(2) by auto
  next
    case False
    then have "bytes_of s 65536 \<inter> bytes_of t 65536 = {}"
      using inv s(1) t(1) by (simp add: sc_inv_def slabs_apart_def)
    then show ?thesis
      using slab_block_in_bytes(1) [OF ps(1) s(2)] slab_block_in_bytes(1) [OF ps(2) t(2)] by blast
  qed
qed

lemma sc_step_owns:
  assumes "os_ok os" and "sc_inv os sc orph w" and "sc_step os sc orph w sc' orph' w'"
    and "sc_live sc' orph' (w_mem w') = L'"
  shows "sc_owns os sc' w' (sc_foot os sc' orph') (sc_grants sc L')"
    and "agree_on (granted (sc_grants sc (sc_live sc orph (w_mem w) \<inter> L'))) (w_mem w) (w_mem w')"
proof -
  note S = sc_stepD [OF assms(3)]
  show "sc_owns os sc' w' (sc_foot os sc' orph') (sc_grants sc L')"
    using assms(1,4) S(1) sc_grants_cong [OF S(4)] by (auto simp: sc_owns_def)
  have "unat (sc_block_size sc) \<le> 4096" using assms(2) by (simp add: sc_inv_def)
  then show "agree_on (granted (sc_grants sc (sc_live sc orph (w_mem w) \<inter> L'))) (w_mem w) (w_mem w')"
    using S(3) granted_live_bytes assms(4) agree_on_mono by blast
qed

text \<open>A class that was just constructed owns nothing.\<close>

lemma sc_new_owns:
  assumes "os_ok os" and "0 < unat bs" and "unat bs \<le> 4096"
  shows "sc_owns os (sc_new bs node sync) w {} Map.empty"
proof -
  have "sc_grants (sc_new bs node sync) {} = Map.empty" by (rule ext) (simp add: sc_grants_def)
  then show ?thesis
    using sc_new_inv [OF assms(2,3)] assms(1) unfolding sc_owns_def by (metis (no_types, lifting))
qed

text \<open>The operations in the form of the contract: they always return.\<close>

definition sc_alloc_op :: "os \<Rightarrow> unit \<Rightarrow> size_class \<Rightarrow> world \<Rightarrow> (ptr res \<times> size_class \<times> world) option" where
  "sc_alloc_op os r sc w = Some (sc_allocate os sc w)"

definition sc_free_op :: "os \<Rightarrow> ptr \<Rightarrow> size_class \<Rightarrow> world \<Rightarrow> (unit res \<times> size_class \<times> world) option" where
  "sc_free_op os p sc w = Some (sc_deallocate os p sc w)"

interpretation sca: allocator "sc_owns os" "sc_alloc_op os" "sc_free_op os"
    "\<lambda>sc _ b. client_bytes (sc_block_size sc) b" "\<lambda>_. True" for os
proof unfold_locales
  fix sc w F U
  assume "sc_owns os sc w F U"
  then obtain orph where os: "os_ok os" and inv: "sc_inv os sc orph w" and F: "F = sc_foot os sc orph"
    and U: "U = sc_grants sc (sc_live sc orph (w_mem w))" by (auto simp: sc_owns_def)
  have bs: "unat (sc_block_size sc) \<le> 4096" using inv by (simp add: sc_inv_def)
  show "F \<subseteq> mapped w" using sc_foot_mapped [OF inv] by (simp add: F)
  show "A \<subseteq> F \<and> p \<noteq> nullptr" if "U p = Some A" for p A
  proof -
    have p: "p \<in> sc_live sc orph (w_mem w)" "A = client_bytes (sc_block_size sc) p"
      using that by (auto simp: U)
    have "client_bytes (sc_block_size sc) p \<subseteq> live_bytes sc {p}"
      using client_bytes_block [OF bs] by (simp add: live_bytes_def)
    also have "\<dots> \<subseteq> live_bytes sc (sc_live sc orph (w_mem w))" using p(1) by (intro live_bytes_mono) simp
    finally have "A \<subseteq> live_bytes sc (sc_live sc orph (w_mem w))" unfolding p(2) .
    also have "\<dots> \<subseteq> F" using live_bytes_foot [OF inv] slabs_bytes_in_foot unfolding F by (rule order_trans)
    finally show ?thesis using sc_live_nonnull [OF inv p(1)] by simp
  qed
  show "A \<inter> B = {}" if "U p = Some A" "U q = Some B" "p \<noteq> q" for p q A B
  proof -
    have pq: "p \<in> sc_live sc orph (w_mem w)" "q \<in> sc_live sc orph (w_mem w)"
      "A = client_bytes (sc_block_size sc) p" "B = client_bytes (sc_block_size sc) q"
      using that(1,2) by (auto simp: U)
    show ?thesis
      using Int_mono [OF client_bytes_block [OF bs, of p] client_bytes_block [OF bs, of q]]
        sc_blocks_apart [OF inv pq(1,2) that(3)]
      unfolding pq(3,4) by (simp only: subset_empty)
  qed
  show "sc_owns os sc w' F U" if fs: "frame_step G w G' w'" and dj: "F \<inter> G = {}" for G w' G'
    using sc_inv_frame [OF inv fs] dj os by (auto simp: sc_owns_def F U)
  show "sc_owns os sc (w\<lparr>w_mem := m'\<rparr>) F U" if "agree_on (- granted U) (w_mem w) m'" for m'
    using sc_inv_write [OF inv, of m'] that os by (auto simp: sc_owns_def F U)
  show "U p = None \<and> agree_on (granted U) (w_mem w) (w_mem w') \<and>
      (\<exists>F'. sc_owns os sc' w' F' (U(p \<mapsto> client_bytes (sc_block_size sc) p)) \<and> frame_step F w F' w')"
    if al: "sc_alloc_op os r sc w = Some (Inr p, sc', w')" for r p sc' w'
  proof -
    note A = sc_allocate_Inr [OF os inv al [unfolded sc_alloc_op_def option.inject]]
    note O = sc_step_owns [OF os inv A(1,4)]
    show ?thesis
      using A(3) O sc_stepD(2) [OF A(1)] by (auto simp: U F sc_grants_upd Int_absorb2 subset_insertI)
  qed
  show "agree_on (granted U) (w_mem w) (w_mem w') \<and> (\<exists>F'. sc_owns os sc' w' F' U \<and> frame_step F w F' w')"
    if al: "sc_alloc_op os r sc w = Some (Inl e, sc', w')" for r e sc' w'
  proof -
    obtain orph' where A: "sc_step os sc orph w sc' orph' w'"
      "sc_live sc' orph' (w_mem w') = sc_live sc orph (w_mem w)"
      using sc_allocate_Inl [OF os inv al [unfolded sc_alloc_op_def option.inject]] by blast
    show ?thesis using sc_step_owns [OF os inv A] sc_stepD(2) [OF A(1)] by (auto simp: U F)
  qed
  show "x = Inr () \<and> agree_on (granted (U(p := None))) (w_mem w) (w_mem w') \<and>
      (\<exists>F'. sc_owns os sc' w' F' (U(p := None)) \<and> frame_step F w F' w')"
    if p: "U p \<noteq> None" and de: "sc_free_op os p sc w = Some (x, sc', w')" for p x sc' w'
  proof -
    have "p \<in> sc_live sc orph (w_mem w)" using p by (simp add: U)
    note A = sc_deallocate_ok [OF os inv this de [unfolded sc_free_op_def option.inject]]
    have i: "sc_live sc orph (w_mem w) \<inter> (sc_live sc orph (w_mem w) - {p}) =
      sc_live sc orph (w_mem w) - {p}" by auto
    show ?thesis
      using A(1) sc_step_owns [OF os inv A(2,3)] sc_stepD(2) [OF A(2)]
      by (auto simp: U F sc_grants_upd i)
  qed
qed (simp_all add: sc_alloc_op_def sc_free_op_def)

subsection \<open>What the layer above relies on\<close>

text \<open>\<open>SmallObjectAllocator\<close> also asks a class for a block without growing, and returns whole
  lists. The contract extends that of an allocator by these two operations.\<close>

locale batch_allocator = allocator +
  fixes try_alloc :: "'a \<Rightarrow> world \<Rightarrow> ptr \<times> 'a \<times> world"
    and free_batch :: "ptr \<Rightarrow> 'a \<Rightarrow> world \<Rightarrow> (unit res \<times> 'a \<times> world) option"
    and try_area :: "'a \<Rightarrow> ptr \<Rightarrow> nat set"
  assumes try_ok: "owns s w F U \<Longrightarrow> try_alloc s w = (p, s', w') \<Longrightarrow>
      agree_on (granted U) (w_mem w) (w_mem w') \<and>
      (\<exists>F'. owns s' w' F' (if p = nullptr then U else U(p \<mapsto> try_area s p)) \<and> frame_step F w F' w') \<and>
      (p \<noteq> nullptr \<longrightarrow> U p = None)"
    and batch_ok: "owns s w F U \<Longrightarrow> chain (next_link (w_mem w)) head bs \<Longrightarrow> set bs \<subseteq> dom U \<Longrightarrow>
      \<exists>s' w' F'. free_batch head s w = Some (Inr (), s', w') \<and>
        owns s' w' F' (U |` (- set bs)) \<and> frame_step F w F' w' \<and>
        agree_on (granted (U |` (- set bs))) (w_mem w) (w_mem w')"
begin

text \<open>Returning a list leaves nothing of it granted.\<close>

lemma batch_returns_all:
  assumes "owns s w F U" and "chain (next_link (w_mem w)) head bs" and "set bs = dom U"
  shows "\<exists>s' w' F'. free_batch head s w = Some (Inr (), s', w') \<and> owns s' w' F' Map.empty"
proof -
  have sub: "set bs \<subseteq> dom U" using assms(3) by simp
  have "U |` (- set bs) = Map.empty" by (rule ext) (auto simp: restrict_map_def assms(3) domIff)
  with batch_ok [OF assms(1,2) sub] show ?thesis by auto
qed

end

interpretation scb: batch_allocator "sc_owns os" "sc_alloc_op os" "sc_free_op os"
    "\<lambda>sc _ b. client_bytes (sc_block_size sc) b" "\<lambda>_. True"
    sc_allocate_existing "sc_deallocate_batch os" "\<lambda>sc b. client_bytes (sc_block_size sc) b" for os
proof unfold_locales
  fix sc w F U
  assume "sc_owns os sc w F U"
  then obtain orph where os: "os_ok os" and inv: "sc_inv os sc orph w" and F: "F = sc_foot os sc orph"
    and U: "U = sc_grants sc (sc_live sc orph (w_mem w))" by (auto simp: sc_owns_def)
  show "agree_on (granted U) (w_mem w) (w_mem w') \<and>
      (\<exists>F'. sc_owns os sc' w' F' (if p = nullptr then U else U(p \<mapsto> client_bytes (sc_block_size sc) p)) \<and>
        frame_step F w F' w') \<and> (p \<noteq> nullptr \<longrightarrow> U p = None)"
    if al: "sc_allocate_existing sc w = (p, sc', w')" for p sc' w'
  proof (cases "p = nullptr")
    case True
    with sc_allocate_existing_ok(2) [OF inv al] have "sc' = sc" "w' = w" by simp_all
    then show ?thesis
      using True inv os frame_step_refl [OF sc_foot_mapped [OF inv]] by (auto simp: sc_owns_def F U)
  next
    case False
    note A = sc_allocate_existing_ok(1,3) [OF inv al]
    have nl: "p \<notin> sc_live sc orph (w_mem w)"
      and live: "sc_live sc' orph (w_mem w') = insert p (sc_live sc orph (w_mem w))"
      using A(2) [OF False] by simp_all
    note O = sc_step_owns [OF os inv A(1) live]
    show ?thesis
      using False nl O sc_stepD(2) [OF A(1)] by (auto simp: U F sc_grants_upd Int_absorb2 subset_insertI)
  qed
  show "\<exists>sc' w' F'. sc_deallocate_batch os head sc w = Some (Inr (), sc', w') \<and>
      sc_owns os sc' w' F' (U |` (- set bs)) \<and> frame_step F w F' w' \<and>
      agree_on (granted (U |` (- set bs))) (w_mem w) (w_mem w')"
    if ch: "chain (next_link (w_mem w)) head bs" and sub: "set bs \<subseteq> dom U" for head bs
  proof -
    let ?L = "sc_live sc orph (w_mem w)"
    have "set bs \<subseteq> ?L" using sub by (auto simp: U sc_grants_def split: if_splits)
    from sc_deallocate_batch_ok [OF os inv ch this] obtain sc' w' where
      B: "sc_deallocate_batch os head sc w = Some (Inr (), sc', w')" "sc_step os sc orph w sc' orph w'"
      "sc_live sc' orph (w_mem w') = ?L - set bs" by blast
    have g: "U |` (- set bs) = sc_grants sc (?L - set bs)"
      by (rule ext) (simp add: U sc_grants_def restrict_map_def)
    have i: "?L \<inter> (?L - set bs) = ?L - set bs" by auto
    show ?thesis
      using B(1) sc_step_owns [OF os inv B(2,3)] sc_stepD(2) [OF B(2)] unfolding g i F by blast
  qed
qed

text \<open>What the header of a block in use lies in, and how the block is aligned.\<close>

lemma sc_owns_block:
  assumes "sc_owns os sc w F U" and "U b = Some A"
  shows "A = client_bytes (sc_block_size sc) b" and "16 dvd unat b"
    and "unat b + 65536 < 18446744073709551616" and "b \<noteq> nullptr"
    and "unat b + 32 + unat (sc_block_size sc) \<le> 2 ^ 63"
proof -
  obtain orph where inv: "sc_inv os sc orph w" and b: "b \<in> sc_live sc orph (w_mem w)"
    and A: "A = client_bytes (sc_block_size sc) b"
    using assms by (auto simp: sc_owns_def)
  obtain s where s: "s \<in> set (sc_all sc orph)" "b \<in> set (slab_blocks s (sc_block_size sc))"
    using sc_live_obtain [OF inv b] by metis
  have place: "slab_place s (sc_block_size sc)" using sc_inv_slab [OF inv s(1)] by simp
  note B = slab_block_bounds [OF place s(2)]
  show "A = client_bytes (sc_block_size sc) b" by (rule A)
  show "16 dvd unat b" "b \<noteq> nullptr" "unat b + 65536 < 18446744073709551616" by (rule B)+
  have "unat (sc_block_size sc) \<le> 4096" "unat s + 65536 \<le> 2 ^ 63" using place by (simp_all add: slab_place_def)
  then show "unat b + 32 + unat (sc_block_size sc) \<le> 2 ^ 63"
    using B(2) slab_stride_bounds(4) [of "sc_block_size sc"] by linarith
qed

end
