(* ===== verification/Class_Runs.thy ===== *)
theory Class_Runs
  imports Size_Class
begin

section \<open>The life of one size class\<close>

text \<open>
  The states that a \<open>SizeClass\<close> can reach, as a step relation over its operations, errors
  included. A run carries the abstract state next to the concrete one: the set of the blocks
  in use, and the number of allocations that failed. By rule induction the two stay together,
  the class keeps its invariant, and the list of slabs never holds two slabs without a block in use, whatever the order of the
  operations: that is what \<open>release_extra_empty_slabs_locked\<close> is for.
\<close>

inductive class_run :: "os \<Rightarrow> u64 \<Rightarrow> int \<Rightarrow> bool \<Rightarrow> world \<Rightarrow> size_class \<Rightarrow> world \<Rightarrow> ptr set \<Rightarrow> nat \<Rightarrow> bool"
  for os bs node sync w0
where
  start: "class_run os bs node sync w0 (sc_new bs node sync) w0 {} 0"
| take: "class_run os bs node sync w0 sc w L n \<Longrightarrow> sc_allocate os sc w = (Inr b, sc', w') \<Longrightarrow>
    class_run os bs node sync w0 sc' w' (insert b L) n"
| fail: "class_run os bs node sync w0 sc w L n \<Longrightarrow> sc_allocate os sc w = (Inl e, sc', w') \<Longrightarrow>
    class_run os bs node sync w0 sc' w' L (Suc n)"
| reuse: "class_run os bs node sync w0 sc w L n \<Longrightarrow> sc_allocate_existing sc w = (b, sc', w') \<Longrightarrow>
    class_run os bs node sync w0 sc' w' (if b = nullptr then L else insert b L) n"
| give: "class_run os bs node sync w0 sc w L n \<Longrightarrow> b \<in> L \<Longrightarrow> sc_deallocate os b sc w = (r, sc', w') \<Longrightarrow>
    class_run os bs node sync w0 sc' w' (L - {b}) n"
| batch: "class_run os bs node sync w0 sc w L n \<Longrightarrow> chain (next_link (w_mem w)) head hs \<Longrightarrow> set hs \<subseteq> L \<Longrightarrow>
    sc_deallocate_batch os head sc w = Some (r, sc', w') \<Longrightarrow>
    class_run os bs node sync w0 sc' w' (L - set hs) n"
| fill: "class_run os bs node sync w0 sc w L n \<Longrightarrow> agree_on (- granted (sc_grants sc L)) (w_mem w) m \<Longrightarrow>
    class_run os bs node sync w0 sc (w\<lparr>w_mem := m\<rparr>) L n"

definition class_state ::
  "os \<Rightarrow> u64 \<Rightarrow> world \<Rightarrow> size_class \<Rightarrow> world \<Rightarrow> ptr set \<Rightarrow> ptr list \<Rightarrow> bool" where
  "class_state os bs w0 sc w L orph \<longleftrightarrow> sc_inv os sc orph w \<and> sc_block_size sc = bs \<and> sc_trim sc (w_mem w) \<and>
     sc_live sc orph (w_mem w) = L \<and> frame_step {} w0 (sc_foot os sc orph) w"

lemma class_state_step:
  assumes c: "class_state os bs w0 sc w L orph" and st: "sc_step os sc orph w sc' orph' w'"
    and tr: "sc_trim sc' (w_mem w')" and lv: "sc_live sc' orph' (w_mem w') = L'"
  shows "class_state os bs w0 sc' w' L' orph'"
  using assms sc_stepD [OF st] frame_step_trans [of "{}" w0] by (auto simp: class_state_def)

lemma class_run_state:
  assumes run: "class_run os bs node sync w0 sc w L n" and os: "os_ok os"
    and bs: "0 < unat bs" "unat bs \<le> 4096"
  shows "\<exists>orph. class_state os bs w0 sc w L orph \<and> length orph \<le> n"
  using run
proof induction
  case start
  have "sc_block_size (sc_new bs node sync) = bs" by (simp add: sc_new_def)
  then have "class_state os bs w0 (sc_new bs node sync) w0 {} []"
    using sc_new_inv [OF bs] by (simp add: class_state_def frame_step_refl)
  then show ?case by (intro exI [of _ "[]"]) simp
next
  case (take sc w L n b sc' w')
  from take.IH obtain orph where c: "class_state os bs w0 sc w L orph" and n: "length orph \<le> n" by blast
  from c have inv: "sc_inv os sc orph w" and tr: "sc_trim sc (w_mem w)" by (simp_all add: class_state_def)
  note A = sc_allocate_Inr [OF os inv take.hyps(2)]
  have "class_state os bs w0 sc' w' (insert b L) orph"
    using A(4) c by (intro class_state_step [OF c A(1) sc_allocate_trim [OF os inv take.hyps(2) tr]])
      (simp add: class_state_def)
  with n show ?case by blast
next
  case (fail sc w L n e sc' w')
  from fail.IH obtain orph where c: "class_state os bs w0 sc w L orph" and n: "length orph \<le> n" by blast
  from c have inv: "sc_inv os sc orph w" and tr: "sc_trim sc (w_mem w)" by (simp_all add: class_state_def)
  have g: "sc_grow os sc w = (Inl e, sc', w')"
    using fail.hyps(2) by (auto simp: sc_allocate_def split: option.splits prod.splits)
  obtain orph' where A: "sc_step os sc orph w sc' orph' w'" "sc_live sc' orph' (w_mem w') = sc_live sc orph (w_mem w)"
    and o': "orph' = orph \<or> orph' = sc_current sc' # orph"
    using sc_grow_Inl [OF os inv g] by blast
  have n': "length orph' \<le> Suc n" using o' n by auto
  have "class_state os bs w0 sc' w' L orph'"
    using A(2) c by (intro class_state_step [OF c A(1) sc_allocate_trim [OF os inv fail.hyps(2) tr]])
      (simp add: class_state_def)
  with n' show ?case by blast
next
  case (reuse sc w L n b sc' w')
  from reuse.IH obtain orph where c: "class_state os bs w0 sc w L orph" and n: "length orph \<le> n" by blast
  from c have inv: "sc_inv os sc orph w" and tr: "sc_trim sc (w_mem w)" by (simp_all add: class_state_def)
  note A = sc_allocate_existing_ok [OF inv reuse.hyps(2)]
  have lv: "sc_live sc' orph (w_mem w') = (if b = nullptr then L else insert b L)"
    using A(2,3) c by (auto simp: class_state_def)
  have "sc_trim sc' (w_mem w')"
    using reuse.hyps(2) tr sc_scan_trim [OF inv _ tr, of b sc' w'] sc_scan_step(1) [OF inv, of b sc' w']
    by (auto simp: sc_allocate_existing_def split: option.splits)
  from class_state_step [OF c A(1) this lv] n show ?case by blast
next
  case (give sc w L n b r sc' w')
  from give.IH obtain orph where c: "class_state os bs w0 sc w L orph" and n: "length orph \<le> n" by blast
  from c have inv: "sc_inv os sc orph w" and tr: "sc_trim sc (w_mem w)" and b: "b \<in> sc_live sc orph (w_mem w)"
    using give.hyps(2) by (simp_all add: class_state_def)
  note A = sc_deallocate_ok [OF os inv b give.hyps(3)]
  have "class_state os bs w0 sc' w' (L - {b}) orph"
    using A(3) c by (intro class_state_step [OF c A(2) sc_deallocate_trim [OF os inv b give.hyps(3) tr]])
      (simp add: class_state_def)
  with n show ?case by blast
next
  case (batch sc w L n head hs r sc' w')
  from batch.IH obtain orph where c: "class_state os bs w0 sc w L orph" and n: "length orph \<le> n" by blast
  from c have inv: "sc_inv os sc orph w" and tr: "sc_trim sc (w_mem w)" and hs: "set hs \<subseteq> sc_live sc orph (w_mem w)"
    and L: "sc_live sc orph (w_mem w) = L"
    using batch.hyps(3) by (simp_all add: class_state_def)
  have A: "sc_step os sc orph w sc' orph w'" "sc_live sc' orph (w_mem w') = L - set hs" "sc_trim sc' (w_mem w')"
    using sc_deallocate_batch_ok [OF os inv batch.hyps(2) hs] batch.hyps(4) tr L by auto
  from class_state_step [OF c A(1,3,2)] n show ?case by blast
next
  case (fill sc w L n m)
  from fill.IH obtain orph where c: "class_state os bs w0 sc w L orph" and n: "length orph \<le> n" by blast
  from c have inv: "sc_inv os sc orph w" and tr: "sc_trim sc (w_mem w)" and L: "sc_live sc orph (w_mem w) = L"
    and fs: "frame_step {} w0 (sc_foot os sc orph) w" by (simp_all add: class_state_def)
  note W = sc_inv_write [OF inv, unfolded L, OF fill.hyps(2)]
  have "granted (sc_grants sc L) \<subseteq> live_bytes sc L"
    using inv by (intro granted_live_bytes) (simp add: sc_inv_def)
  also have "\<dots> \<subseteq> sc_foot os sc orph" using live_bytes_foot [OF inv] slabs_bytes_in_foot L by blast
  finally have "agree_on (- sc_foot os sc orph) (w_mem w) m" by (intro agree_on_mono [OF fill.hyps(2)]) blast
  then have "frame_step (sc_foot os sc orph) w (sc_foot os sc orph) (w\<lparr>w_mem := m\<rparr>)"
    by (rule frame_step_write [OF sc_foot_mapped [OF inv]])
  with fs have "frame_step {} w0 (sc_foot os sc orph) (w\<lparr>w_mem := m\<rparr>)" by (rule frame_step_trans)
  moreover have "sc_trim sc m" using W(3) tr sc_items_all [of sc orph] unfolding sc_trim_def by blast
  ultimately have "class_state os bs w0 sc (w\<lparr>w_mem := m\<rparr>) L orph"
    using c W(1,2) by (simp add: class_state_def)
  with n show ?case by blast
qed

text \<open>Every block in use lies in one of the slabs, and every slab that is not empty holds one:
  so the list holds at most one slab more than the blocks in use need.\<close>

lemma class_run_slabs:
  assumes run: "class_run os bs node sync w0 sc w L n" and os: "os_ok os" and bs: "0 < unat bs" "unat bs \<le> 4096"
  shows "length (filter (slab_is_empty (w_mem w)) (nv_items (sc_slabs sc))) \<le> 1"
proof -
  obtain orph where "class_state os bs w0 sc w L orph" using class_run_state [OF assms] by blast
  then have inv: "sc_inv os sc orph w" and tr: "sc_trim sc (w_mem w)" by (simp_all add: class_state_def)
  let ?E = "filter (slab_is_empty (w_mem w)) (nv_items (sc_slabs sc))"
  have "distinct (nv_items (sc_slabs sc))" using inv by (simp add: sc_inv_def slabs_apart_def sc_all_def)
  then have "length ?E = card (set ?E)" by (intro distinct_card [symmetric] distinct_filter)
  also have "\<dots> \<le> 1" using tr by (auto simp: sc_trim_def card_le_Suc0_iff_eq)
  finally show ?thesis .
qed

subsection \<open>What the destructor gives back\<close>

text \<open>After the destructor all that stays mapped, beside what was mapped before the class was
  made, are slabs of failed allocations: at most one each.\<close>

lemma class_run_destroyed:
  assumes run: "class_run os bs node sync w0 sc w L n" and os: "os_ok os" and bs: "0 < unat bs" "unat bs \<le> 4096"
  shows "\<exists>orph. length orph \<le> n \<and> mapped (sc_destroy os sc w) = slabs_bytes orph \<union> mapped w0 \<and>
    agree_on (mapped w0) (w_mem w0) (w_mem (sc_destroy os sc w))"
proof -
  obtain orph where c: "class_state os bs w0 sc w L orph" and n: "length orph \<le> n"
    using class_run_state [OF assms] by blast
  then have inv: "sc_inv os sc orph w" and fs: "frame_step {} w0 (sc_foot os sc orph) w"
    by (simp_all add: class_state_def)
  have "frame_step {} w0 (slabs_bytes orph) (sc_destroy os sc w)"
    using fs sc_destroy_frame [OF os inv] by (rule frame_step_trans)
  then show ?thesis using n by (auto simp: frame_step_def agree_on_def)
qed

text \<open>And there are such slabs: when the vector of slabs cannot grow, the new slab is the current
  one but is in no list. Nothing releases it.\<close>

lemma class_growth_leaks:
  assumes run: "class_run os bs node sync w0 sc w L n" and os: "os_ok os" and bs: "0 < unat bs" "unat bs \<le> 4096"
    and full: "sc_scan sc w = None"
    and cr: "slab_create os (sc_block_size sc) (sc_node_id sc) w = (Inr slab, w1)"
    and push: "vec_push_back os (sc_node_id sc) (sc_slabs sc) slab w1 = (Inl e, w2)"
  shows "sc_allocate os sc w = (Inl e, sc\<lparr>sc_current := slab\<rparr>, w2)"
    and "bytes_of slab 65536 \<subseteq> mapped (sc_destroy os (sc\<lparr>sc_current := slab\<rparr>) w2)"
    and "bytes_of slab 65536 \<inter> mapped w = {}"
proof -
  show al: "sc_allocate os sc w = (Inl e, sc\<lparr>sc_current := slab\<rparr>, w2)"
    using full cr push by (simp add: sc_allocate_def sc_grow_def)
  obtain orph where "class_state os bs w0 sc w L orph" using class_run_state [OF run os bs] by blast
  then have inv: "sc_inv os sc orph w" by (simp add: class_state_def)
  note N = sc_inv_new_slab [OF os inv cr]
  note I = sc_idle_step [OF N(1) vec_push_back_Inl [OF os push]]
  have "sc_inv os (sc\<lparr>sc_current := slab\<rparr>) (slab # orph) w2"
    using sc_stepD [OF I(1)] by simp
  from sc_destroy_frame [OF os this]
  show "bytes_of slab 65536 \<subseteq> mapped (sc_destroy os (sc\<lparr>sc_current := slab\<rparr>) w2)"
    by (auto simp: frame_step_def slabs_bytes_def)
  have "0 < unat (sc_block_size sc)" "unat (sc_block_size sc) \<le> 4096" using inv by (simp_all add: sc_inv_def)
  from slab_create_Inr(1) [OF os this cr] show "bytes_of slab 65536 \<inter> mapped w = {}"
    by (simp add: frame_step_def)
qed

end
