(* ===== verification/Small_Object.thy ===== *)
theory Small_Object
  imports Size_Class
begin

section \<open>The small object allocator\<close>

text \<open>
  Models class \<open>SmallObjectAllocator\<close> of \<open>size_divide/small_object\<close>: one \<open>SizeClass\<close> per
  size class of one node. The slow-path callback is a function argument of the definition,
  as it is in the code: it gets the context, the class index and the allocator itself,
  which it may change. What the allocator owns is the family of what its classes own; every
  operation changes one member of the family.
\<close>

subsection \<open>Operations\<close>

record small_alloc =
  sm_node_id :: int
  sm_sync :: bool
  sm_classes :: "size_class list"

definition sm_new :: "int \<Rightarrow> bool \<Rightarrow> small_alloc" where
  "sm_new node_id sync =
    \<lparr>sm_node_id = node_id, sm_sync = sync,
     sm_classes = map (\<lambda>bs. sc_new bs node_id sync) kClassSizes\<rparr>"

definition set_class :: "nat \<Rightarrow> size_class \<Rightarrow> small_alloc \<Rightarrow> small_alloc" where
  "set_class i sc sm = sm\<lparr>sm_classes := (sm_classes sm)[i := sc]\<rparr>"

definition sm_allocate_by_class_index ::
  "os \<Rightarrow> u64 \<Rightarrow> small_alloc \<Rightarrow> world \<Rightarrow> ptr res \<times> small_alloc \<times> world" where
  "sm_allocate_by_class_index os class_index sm w =
    (if class_index \<ge> of_nat kNumSizeClasses then (Inl Out_of_range, sm, w)
     else
       let i = unat class_index;
           (r, sc, w1) = sc_allocate os (sm_classes sm ! i) w
       in (r, set_class i sc sm, w1))"

definition sm_allocate ::
  "os \<Rightarrow> u64 \<Rightarrow> small_alloc \<Rightarrow> world \<Rightarrow> ptr res \<times> small_alloc \<times> world" where
  "sm_allocate os sz sm w =
    (case class_index_for_size sz of
       Inl e \<Rightarrow> (Inl e, sm, w)
     | Inr class_index \<Rightarrow> sm_allocate_by_class_index os class_index sm w)"

type_synonym 'c drain =
  "'c \<Rightarrow> u64 \<Rightarrow> small_alloc \<Rightarrow> world \<Rightarrow> (unit res \<times> 'c \<times> small_alloc \<times> world) option"

text \<open>The overload with a drain callback; the outer option is \<open>None\<close> when the callback does
  not return.\<close>

definition sm_allocate_by_class_index_drain ::
  "os \<Rightarrow> u64 \<Rightarrow> 'c drain option \<Rightarrow> 'c \<Rightarrow> small_alloc \<Rightarrow> world \<Rightarrow>
   (ptr res \<times> 'c \<times> small_alloc \<times> world) option" where
  "sm_allocate_by_class_index_drain os class_index drain ctx sm w =
    (if class_index \<ge> of_nat kNumSizeClasses then Some (Inl Out_of_range, ctx, sm, w)
     else
       let i = unat class_index;
           (b, sc, w1) = sc_allocate_existing (sm_classes sm ! i) w;
           sm1 = set_class i sc sm
       in if b \<noteq> nullptr then Some (Inr b, ctx, sm1, w1)
          else
            case (case drain of
                    None \<Rightarrow> Some (Inr (), ctx, sm1, w1)
                  | Some f \<Rightarrow> f ctx class_index sm1 w1) of
              None \<Rightarrow> None
            | Some (Inl e, ctx2, sm2, w2) \<Rightarrow> Some (Inl e, ctx2, sm2, w2)
            | Some (Inr _, ctx2, sm2, w2) \<Rightarrow>
                (let (b, sc, w3) = sc_allocate_existing (sm_classes sm2 ! i) w2;
                     sm3 = set_class i sc sm2
                 in if b \<noteq> nullptr then Some (Inr b, ctx2, sm3, w3)
                    else
                      let (r, sc, w4) = sc_allocate_new_slab os (sm_classes sm3 ! i) w3
                      in Some (r, ctx2, set_class i sc sm3, w4)))"

definition sm_get_size_class :: "u64 \<Rightarrow> nat res" where
  "sm_get_size_class sz =
    (case class_index_for_size sz of
       Inl e \<Rightarrow> Inl e
     | Inr class_index \<Rightarrow>
         (if class_index \<ge> of_nat kNumSizeClasses \<or> kClassSizes ! unat class_index \<noteq> sz
          then Inl Out_of_range else Inr (unat class_index)))"

definition sm_deallocate ::
  "os \<Rightarrow> ptr \<Rightarrow> small_alloc \<Rightarrow> world \<Rightarrow> unit res \<times> small_alloc \<times> world" where
  "sm_deallocate os block sm w =
    (case sm_get_size_class (ucast (bh_size_class (w_mem w) block)) of
       Inl e \<Rightarrow> (Inl e, sm, w)
     | Inr i \<Rightarrow>
         (let (r, sc, w1) = sc_deallocate os block (sm_classes sm ! i) w
          in (r, set_class i sc sm, w1)))"

definition sm_deallocate_batch ::
  "os \<Rightarrow> u64 \<Rightarrow> ptr \<Rightarrow> small_alloc \<Rightarrow> world \<Rightarrow> (unit res \<times> small_alloc \<times> world) option" where
  "sm_deallocate_batch os class_index head sm w =
    (if class_index \<ge> of_nat kNumSizeClasses then Some (Inl Out_of_range, sm, w)
     else
       let i = unat class_index in
       case sc_deallocate_batch os head (sm_classes sm ! i) w of
         None \<Rightarrow> None
       | Some (r, sc, w1) \<Rightarrow> Some (r, set_class i sc sm, w1))"

text \<open>The array of classes is destroyed from its last element to its first.\<close>

definition sm_destroy :: "os \<Rightarrow> small_alloc \<Rightarrow> world \<Rightarrow> world" where
  "sm_destroy os sm w = fold (sc_destroy os) (rev (sm_classes sm)) w"

subsection \<open>What the allocator owns\<close>

text \<open>\<open>Fs\<close> and \<open>Us\<close> list, per class, the bytes it owns and the blocks in use.\<close>

definition sm_owns :: "os \<Rightarrow> small_alloc \<Rightarrow> world \<Rightarrow> nat set list \<Rightarrow> grants list \<Rightarrow> bool" where
  "sm_owns os sm w Fs Us \<longleftrightarrow> length (sm_classes sm) = 40 \<and> length Fs = 40 \<and> length Us = 40 \<and>
     (\<forall>i<40. sc_owns os (sm_classes sm ! i) w (Fs ! i) (Us ! i) \<and>
        sc_block_size (sm_classes sm ! i) = kClassSizes ! i \<and>
        sc_node_id (sm_classes sm ! i) = sm_node_id sm) \<and>
     (\<forall>i<40. \<forall>j<40. i \<noteq> j \<longrightarrow> Fs ! i \<inter> Fs ! j = {})"

definition fam :: "nat set list \<Rightarrow> nat set" where
  "fam Fs = \<Union> (set Fs)"

definition fam_granted :: "grants list \<Rightarrow> nat set" where
  "fam_granted Us = (\<Union>U\<in>set Us. granted U)"

lemma fam_nth: "length Fs = n \<Longrightarrow> fam Fs = (\<Union>i<n. Fs ! i)"
  by (auto simp: fam_def set_conv_nth)

lemma fam_granted_nth: "length Us = n \<Longrightarrow> fam_granted Us = (\<Union>i<n. granted (Us ! i))"
  by (auto simp: fam_granted_def set_conv_nth)

lemma fam_update:
  assumes "i < length Fs" and "\<And>j. j < length Fs \<Longrightarrow> j \<noteq> i \<Longrightarrow> Fs ! i \<inter> Fs ! j = {}"
  shows "fam (Fs[i := F]) = F \<union> (fam Fs - Fs ! i)"
proof -
  have upd: "Fs[i := F] ! j = (if j = i then F else Fs ! j)" for j using assms(1) by (cases "j = i") auto
  have f: "fam (Fs[i := F]) = (\<Union>j<length Fs. if j = i then F else Fs ! j)"
    by (simp add: fam_nth [of "Fs[i := F]" "length Fs"] upd)
  have g: "fam Fs = (\<Union>j<length Fs. Fs ! j)" by (simp add: fam_nth)
  show ?thesis
  proof (intro set_eqI iffI)
    fix x assume "x \<in> fam (Fs[i := F])"
    then obtain j where j: "j < length Fs" "x \<in> (if j = i then F else Fs ! j)" unfolding f by blast
    then show "x \<in> F \<union> (fam Fs - Fs ! i)" using assms(2) [of j] by (cases "j = i") (auto simp: g)
  next
    fix x assume "x \<in> F \<union> (fam Fs - Fs ! i)"
    then show "x \<in> fam (Fs[i := F])" using assms(1) unfolding f g by (auto split: if_splits)
  qed
qed

lemma sm_owns_class:
  assumes "sm_owns os sm w Fs Us" and "i < 40"
  shows "sc_owns os (sm_classes sm ! i) w (Fs ! i) (Us ! i)"
    and "sc_block_size (sm_classes sm ! i) = kClassSizes ! i" and "Fs ! i \<subseteq> fam Fs"
    and "granted (Us ! i) \<subseteq> fam_granted Us"
proof -
  have a: "sc_owns os (sm_classes sm ! i) w (Fs ! i) (Us ! i) \<and>
        sc_block_size (sm_classes sm ! i) = kClassSizes ! i" and l: "length Fs = 40" "length Us = 40"
    using assms by (auto simp: sm_owns_def)
  then show "sc_owns os (sm_classes sm ! i) w (Fs ! i) (Us ! i)"
    and "sc_block_size (sm_classes sm ! i) = kClassSizes ! i" by auto
  show "Fs ! i \<subseteq> fam Fs" and "granted (Us ! i) \<subseteq> fam_granted Us"
    using l assms(2) by (auto simp: fam_nth fam_granted_nth)
qed

lemma sm_owns_mapped: "sm_owns os sm w Fs Us \<Longrightarrow> fam Fs \<subseteq> mapped w"
proof -
  assume a: "sm_owns os sm w Fs Us"
  then have "length Fs = 40" by (simp add: sm_owns_def)
  moreover have "Fs ! i \<subseteq> mapped w" if "i < 40" for i
    by (rule sca.owns_mapped [OF sm_owns_class(1) [OF a that]])
  ultimately show ?thesis by (auto simp: fam_nth)
qed

lemma sm_owns_os: "sm_owns os sm w Fs Us \<Longrightarrow> os_ok os"
  using sm_owns_class(1) [of os sm w Fs Us 0] by (simp add: sc_owns_def)

lemma sm_granted_fam: "sm_owns os sm w Fs Us \<Longrightarrow> fam_granted Us \<subseteq> fam Fs"
proof -
  assume a: "sm_owns os sm w Fs Us"
  then have "length Fs = 40" "length Us = 40" by (simp_all add: sm_owns_def)
  moreover have "granted (Us ! i) \<subseteq> Fs ! i" if "i < 40" for i
    by (rule sca.owns_granted [OF sm_owns_class(1) [OF a that]])
  ultimately show ?thesis by (auto simp: fam_nth fam_granted_nth)
qed

lemma sm_owns_frame:
  assumes "sm_owns os sm w Fs Us" and "frame_step G w G' w'" and "fam Fs \<inter> G = {}"
  shows "sm_owns os sm w' Fs Us"
proof -
  have "sc_owns os (sm_classes sm ! i) w' (Fs ! i) (Us ! i)" if "i < 40" for i
    using sm_owns_class(3) [OF assms(1) that] assms(3)
    by (intro sca.owns_frame [OF sm_owns_class(1) [OF assms(1) that] assms(2)]) auto
  then show ?thesis using assms(1) by (simp add: sm_owns_def)
qed

text \<open>One class makes a step; the rest of the family is framed.\<close>

lemma sm_owns_step:
  assumes owns: "sm_owns os sm w Fs Us" and i: "i < 40"
    and o': "sc_owns os sc' w' F' U'" and fs: "frame_step (Fs ! i) w F' w'"
    and bs: "sc_block_size sc' = kClassSizes ! i" and nd: "sc_node_id sc' = sm_node_id sm"
  shows "sm_owns os (set_class i sc' sm) w' (Fs[i := F']) (Us[i := U'])"
    and "frame_step (fam Fs) w (fam (Fs[i := F'])) w'"
    and "agree_on (fam Fs - Fs ! i) (w_mem w) (w_mem w')"
proof -
  have len: "length (sm_classes sm) = 40" "length Fs = 40" "length Us = 40"
    and dj: "\<And>j k. j < 40 \<Longrightarrow> k < 40 \<Longrightarrow> j \<noteq> k \<Longrightarrow> Fs ! j \<inter> Fs ! k = {}"
    using owns by (auto simp: sm_owns_def)
  have rest: "fam (Fs[i := F']) = F' \<union> (fam Fs - Fs ! i)"
    using i len dj by (intro fam_update) auto
  have sub: "fam Fs - Fs ! i \<subseteq> mapped w" using sm_owns_mapped [OF owns] by auto
  have disj: "(fam Fs - Fs ! i) \<inter> Fs ! i = {}" by auto
  have all: "Fs ! i \<union> (fam Fs - Fs ! i) = fam Fs" using sm_owns_class(3) [OF owns i] by auto
  show "frame_step (fam Fs) w (fam (Fs[i := F'])) w'"
    using frame_step_extend [OF fs sub disj] unfolding all rest .
  note K = frame_step_mem [OF disj sub fs]
  then show "agree_on (fam Fs - Fs ! i) (w_mem w) (w_mem w')" by simp
  have other: "sc_owns os (sm_classes sm ! j) w' (Fs ! j) (Us ! j) \<and> F' \<inter> Fs ! j = {}"
    if j: "j < 40" "j \<noteq> i" for j
  proof -
    have "Fs ! j \<inter> Fs ! i = {}" using dj [OF j(1) i j(2)] .
    moreover have "Fs ! j \<subseteq> mapped w" by (rule sca.owns_mapped [OF sm_owns_class(1) [OF owns j(1)]])
    ultimately show ?thesis
      using sca.owns_frame [OF sm_owns_class(1) [OF owns j(1)] fs]
        frame_step_mem [of "Fs ! j" "Fs ! i" w F' w'] fs by auto
  qed
  have cls: "sc_owns os ((sm_classes sm)[i := sc'] ! j) w' (Fs[i := F'] ! j) (Us[i := U'] ! j) \<and>
      sc_block_size ((sm_classes sm)[i := sc'] ! j) = kClassSizes ! j \<and>
      sc_node_id ((sm_classes sm)[i := sc'] ! j) = sm_node_id sm" if j: "j < 40" for j
    using other [OF j] o' bs nd owns j i len by (cases "j = i") (auto simp: sm_owns_def)
  have "Fs[i := F'] ! j \<inter> Fs[i := F'] ! k = {}" if jk: "j < 40" "k < 40" "j \<noteq> k" for j k
    using other [OF jk(1)] other [OF jk(2)] dj [OF jk] jk i len
    by (cases "j = i"; cases "k = i") (auto simp: Int_commute)
  with cls len show "sm_owns os (set_class i sc' sm) w' (Fs[i := F']) (Us[i := U'])"
    by (simp add: sm_owns_def set_class_def)
qed

subsection \<open>The parameters of a class never change\<close>

definition same_class :: "size_class \<Rightarrow> size_class \<Rightarrow> bool" where
  "same_class sc' sc \<longleftrightarrow> sc_block_size sc' = sc_block_size sc \<and> sc_node_id sc' = sc_node_id sc \<and>
     sc_sync sc' = sc_sync sc"

lemma same_class_refl [simp]: "same_class sc sc"
  by (simp add: same_class_def)

lemma same_class_take: "sc_take_from s sc w = (b, sc', w') \<Longrightarrow> same_class sc' sc"
  by (auto simp: sc_take_from_def split: prod.splits)

lemma same_class_scan: "sc_scan sc w = Some (b, sc', w') \<Longrightarrow> same_class sc' sc"
  by (auto simp: sc_scan_def same_class_def sc_take_from_def split: if_splits option.splits prod.splits)

lemma same_class_grow: "sc_grow os sc w = (r, sc', w') \<Longrightarrow> same_class sc' sc"
  by (auto simp: sc_grow_def Let_def same_class_def sc_take_from_def split: prod.splits sum.splits)

lemma same_class_release: "sc_release_extra os sc w = (sc', w') \<Longrightarrow> same_class sc' sc"
  by (auto simp: sc_release_extra_def Let_def same_class_def split: prod.splits)

lemma same_class_allocate: "sc_allocate os sc w = (r, sc', w') \<Longrightarrow> same_class sc' sc"
  by (auto simp: sc_allocate_def dest: same_class_scan same_class_grow split: option.splits prod.splits)

lemma same_class_existing: "sc_allocate_existing sc w = (b, sc', w') \<Longrightarrow> same_class sc' sc"
  by (cases "sc_scan sc w") (auto simp: sc_allocate_existing_def dest: same_class_scan)

lemma same_class_deallocate: "sc_deallocate os p sc w = (r, sc', w') \<Longrightarrow> same_class sc' sc"
  by (auto simp: sc_deallocate_def Let_def dest: same_class_release split: if_splits prod.splits)

lemma same_class_batch: "sc_deallocate_batch os p sc w = Some (r, sc', w') \<Longrightarrow> same_class sc' sc"
  by (auto simp: sc_deallocate_batch_def Let_def dest: same_class_release
      split: if_splits prod.splits sum.splits option.splits)

lemmas same_class_ops = same_class_allocate same_class_existing same_class_deallocate same_class_batch

subsection \<open>Operations of the allocator\<close>

text \<open>One operation on class \<open>i\<close>, after which the class is granted as \<open>U'\<close> says: every
  block of any class that stays in use keeps its bytes.\<close>

definition sm_step ::
  "os \<Rightarrow> small_alloc \<Rightarrow> world \<Rightarrow> nat set list \<Rightarrow> grants list \<Rightarrow> nat \<Rightarrow> grants \<Rightarrow>
   small_alloc \<Rightarrow> world \<Rightarrow> bool" where
  "sm_step os sm w Fs Us i U' sm' w' \<longleftrightarrow>
     (\<exists>F'. sm_owns os sm' w' (Fs[i := F']) (Us[i := U']) \<and>
        frame_step (fam Fs) w (fam (Fs[i := F'])) w') \<and>
     agree_on (fam_granted (Us[i := (Us ! i) |` dom U'])) (w_mem w) (w_mem w') \<and>
     sm_node_id sm' = sm_node_id sm"

lemma sm_stepI:
  assumes owns: "sm_owns os sm w Fs Us" and i: "i < 40"
    and o': "sc_owns os sc' w' F' U'" and fs: "frame_step (Fs ! i) w F' w'"
    and same: "same_class sc' (sm_classes sm ! i)"
    and ag: "agree_on (granted ((Us ! i) |` dom U')) (w_mem w) (w_mem w')"
  shows "sm_step os sm w Fs Us i U' (set_class i sc' sm) w'"
proof -
  have len: "length Fs = 40" "length Us = 40"
    and dj: "\<And>j k. j < 40 \<Longrightarrow> k < 40 \<Longrightarrow> j \<noteq> k \<Longrightarrow> Fs ! j \<inter> Fs ! k = {}"
    using owns by (auto simp: sm_owns_def)
  have "sc_block_size sc' = kClassSizes ! i" "sc_node_id sc' = sm_node_id sm"
    using same owns i by (auto simp: same_class_def sm_owns_def)
  note S = sm_owns_step [OF owns i o' fs this]
  have "agree_on (granted (Us[i := (Us ! i) |` dom U'] ! j)) (w_mem w) (w_mem w')" if j: "j < 40" for j
  proof (cases "j = i")
    case True
    then show ?thesis using ag i len by simp
  next
    case False
    have "granted (Us ! j) \<subseteq> Fs ! j" by (rule sca.owns_granted [OF sm_owns_class(1) [OF owns j]])
    also have "\<dots> \<subseteq> fam Fs - Fs ! i" using sm_owns_class(3) [OF owns j] dj [OF j i False] by auto
    finally show ?thesis using False agree_on_mono [OF S(3)] by simp
  qed
  then have "agree_on (fam_granted (Us[i := (Us ! i) |` dom U'])) (w_mem w) (w_mem w')"
    using len by (simp add: fam_granted_nth [of _ 40] agree_on_def)
  with S show ?thesis by (auto simp: sm_step_def set_class_def)
qed

lemma restrict_dom_upd: "U p = None \<Longrightarrow> U |` dom (U(p \<mapsto> A)) = U"
  by (rule ext) (auto simp: restrict_map_def domIff)

lemma restrict_dom_self: "U |` dom U = U"
  by (rule ext) (auto simp: restrict_map_def domIff)

lemma restrict_dom_del: "U |` dom (U(p := None)) = U(p := None)"
  by (rule ext) (auto simp: restrict_map_def domIff)

lemma restrict_dom_sub: "U |` dom (U |` B) = U |` B"
  by (rule ext) (auto simp: restrict_map_def domIff)

lemmas restrict_dom = restrict_dom_upd restrict_dom_self restrict_dom_del restrict_dom_sub

lemma class_index_ok: "unat i < 40 \<Longrightarrow> \<not> (i :: u64) \<ge> of_nat kNumSizeClasses"
  by (simp add: word_le_nat_alt)

lemma sm_new_owns:
  assumes "os_ok os"
  shows "sm_owns os (sm_new node sync) w (replicate 40 {}) (replicate 40 Map.empty)"
    and "fam (replicate 40 {}) = {}" and "fam_granted (replicate 40 Map.empty) = {}"
proof -
  have "sc_owns os (sc_new (kClassSizes ! i) node sync) w {} Map.empty" if "i < 40" for i
    using kClassSizes_bounds [OF that] by (intro sc_new_owns [OF assms]) simp_all
  then show "sm_owns os (sm_new node sync) w (replicate 40 {}) (replicate 40 Map.empty)"
    by (simp add: sm_owns_def sm_new_def sc_new_def [of _ node sync])
  show "fam (replicate 40 {}) = {}" and "fam_granted (replicate 40 Map.empty) = {}"
    by (simp_all add: fam_def fam_granted_def)
qed

lemma sm_allocate_by_class_index_Inr:
  assumes owns: "sm_owns os sm w Fs Us" and i: "unat ci < 40"
    and al: "sm_allocate_by_class_index os ci sm w = (Inr b, sm', w')"
  shows "sm_step os sm w Fs Us (unat ci) ((Us ! unat ci)(b \<mapsto> client_bytes (kClassSizes ! unat ci) b)) sm' w'"
    and "(Us ! unat ci) b = None"
proof -
  let ?i = "unat ci"
  note C = sm_owns_class [OF owns i]
  obtain sc where sc: "sc_allocate os (sm_classes sm ! ?i) w = (Inr b, sc, w')"
    and sm': "sm' = set_class ?i sc sm"
    using al class_index_ok [OF i] by (auto simp: sm_allocate_by_class_index_def Let_def split: prod.splits)
  have L: "(Us ! ?i) b = None \<and> agree_on (granted (Us ! ?i)) (w_mem w) (w_mem w') \<and>
      (\<exists>F'. sc_owns os sc w' F' ((Us ! ?i)(b \<mapsto> client_bytes (sc_block_size (sm_classes sm ! ?i)) b)) \<and>
        frame_step (Fs ! ?i) w F' w')"
    by (rule sca.alloc_ok [OF C(1) TrueI, of "()", unfolded sc_alloc_op_def option.inject, OF sc])
  then show "(Us ! ?i) b = None" by blast
  with L obtain F' where F': "sc_owns os sc w' F' ((Us ! ?i)(b \<mapsto> client_bytes (kClassSizes ! ?i) b))"
    "frame_step (Fs ! ?i) w F' w'" using C(2) by auto
  show "sm_step os sm w Fs Us ?i ((Us ! ?i)(b \<mapsto> client_bytes (kClassSizes ! ?i) b)) sm' w'"
    unfolding sm' using L by (intro sm_stepI [OF owns i F' same_class_allocate [OF sc]]) (simp only: restrict_dom)
qed

lemma sm_allocate_by_class_index_Inl:
  assumes owns: "sm_owns os sm w Fs Us" and i: "unat ci < 40"
    and al: "sm_allocate_by_class_index os ci sm w = (Inl e, sm', w')"
  shows "sm_step os sm w Fs Us (unat ci) (Us ! unat ci) sm' w'"
proof -
  let ?i = "unat ci"
  note C = sm_owns_class [OF owns i]
  obtain sc where sc: "sc_allocate os (sm_classes sm ! ?i) w = (Inl e, sc, w')"
    and sm': "sm' = set_class ?i sc sm"
    using al class_index_ok [OF i] by (auto simp: sm_allocate_by_class_index_def Let_def split: prod.splits)
  have L: "agree_on (granted (Us ! ?i)) (w_mem w) (w_mem w') \<and>
      (\<exists>F'. sc_owns os sc w' F' (Us ! ?i) \<and> frame_step (Fs ! ?i) w F' w')"
    by (rule sca.alloc_err [OF C(1) TrueI, of "()", unfolded sc_alloc_op_def option.inject, OF sc])
  then obtain F' where F': "sc_owns os sc w' F' (Us ! ?i)" "frame_step (Fs ! ?i) w F' w'" by auto
  show ?thesis
    unfolding sm' using L by (intro sm_stepI [OF owns i F' same_class_allocate [OF sc]]) (simp only: restrict_dom)
qed

lemma sm_get_size_class_ok:
  assumes "i < 40"
  shows "sm_get_size_class (kClassSizes ! i) = Inr i"
proof -
  have "unat (of_nat i :: u64) = i" using assms by (simp add: unat_of_nat_u64)
  then show ?thesis
    using assms class_index_of_class [OF assms] class_index_ok [of "of_nat i"]
    by (simp add: sm_get_size_class_def)
qed

text \<open>A size that is not the size of a class is refused: \<open>sm_deallocate\<close> throws, and changes
  nothing, when the header does not hold one of the 40 class sizes.\<close>

lemma sm_get_size_class_Inl:
  assumes "sz \<notin> set kClassSizes"
  shows "sm_get_size_class sz = Inl Out_of_range"
proof (cases "unat sz \<le> 4096")
  case True
  then obtain i where i: "class_index_for_size sz = Inr i" "unat i < 40"
    using class_index_for_size_kClass [of sz] by blast
  then have "kClassSizes ! unat i \<noteq> sz" using assms nth_mem [of "unat i" kClassSizes] by auto
  with i(1) show ?thesis by (simp add: sm_get_size_class_def)
next
  case False
  then have "class_index_for_size sz = Inl Out_of_range" by (intro class_index_error) simp
  then show ?thesis by (simp add: sm_get_size_class_def)
qed

lemma ucast_class_size:
  assumes "i < 40"
  shows "(ucast (ucast (kClassSizes ! i) :: u32) :: u64) = kClassSizes ! i"
proof -
  have "unat (ucast (ucast (kClassSizes ! i) :: u32) :: u64) = unat (kClassSizes ! i)"
    using kClassSizes_bounds(2) [OF assms] by (simp add: unat_ucast_u64_u32)
  then show ?thesis by (rule ptr_eq_iff_unat [THEN iffD2])
qed

lemma ucast_class_inj:
  assumes "i < 40" and "j < 40" and "(ucast (kClassSizes ! i) :: u32) = ucast (kClassSizes ! j)"
  shows "i = j"
proof -
  have "kClassSizes ! i = kClassSizes ! j"
    using arg_cong [OF assms(3), of "ucast :: u32 \<Rightarrow> u64"]
    unfolding ucast_class_size [OF assms(1)] ucast_class_size [OF assms(2)] .
  then show ?thesis by (rule kClassSizes_inj [OF assms(1,2)])
qed

lemma sm_deallocate_ok:
  assumes owns: "sm_owns os sm w Fs Us" and i: "i < 40" and b: "(Us ! i) b \<noteq> None"
    and hdr: "bh_size_class (w_mem w) b = ucast (kClassSizes ! i)"
    and de: "sm_deallocate os b sm w = (r, sm', w')"
  shows "r = Inr ()" and "sm_step os sm w Fs Us i ((Us ! i)(b := None)) sm' w'"
proof -
  note C = sm_owns_class [OF owns i]
  obtain sc where sc: "sc_deallocate os b (sm_classes sm ! i) w = (r, sc, w')"
    and sm': "sm' = set_class i sc sm"
    using de by (auto simp: sm_deallocate_def hdr ucast_class_size [OF i] sm_get_size_class_ok [OF i]
        split: prod.splits)
  have L: "r = Inr () \<and> agree_on (granted ((Us ! i)(b := None))) (w_mem w) (w_mem w') \<and>
      (\<exists>F'. sc_owns os sc w' F' ((Us ! i)(b := None)) \<and> frame_step (Fs ! i) w F' w')"
    by (rule sca.free_ok [OF C(1) b, unfolded sc_free_op_def option.inject, OF sc])
  then show "r = Inr ()" by simp
  from L obtain F' where F': "sc_owns os sc w' F' ((Us ! i)(b := None))" "frame_step (Fs ! i) w F' w'"
    by auto
  show "sm_step os sm w Fs Us i ((Us ! i)(b := None)) sm' w'"
    unfolding sm' using L
    by (intro sm_stepI [OF owns i F' same_class_deallocate [OF sc]]) (simp only: restrict_dom)
qed

lemma sm_deallocate_batch_ok:
  assumes owns: "sm_owns os sm w Fs Us" and i: "unat ci < 40"
    and ch: "chain (next_link (w_mem w)) head bs" and sub: "set bs \<subseteq> dom (Us ! unat ci)"
  shows "\<exists>sm' w'. sm_deallocate_batch os ci head sm w = Some (Inr (), sm', w') \<and>
    sm_step os sm w Fs Us (unat ci) ((Us ! unat ci) |` (- set bs)) sm' w'"
proof -
  let ?i = "unat ci"
  note C = sm_owns_class [OF owns i]
  obtain sc w' F' where B: "sc_deallocate_batch os head (sm_classes sm ! ?i) w = Some (Inr (), sc, w')"
    "sc_owns os sc w' F' ((Us ! ?i) |` (- set bs))" "frame_step (Fs ! ?i) w F' w'"
    "agree_on (granted ((Us ! ?i) |` (- set bs))) (w_mem w) (w_mem w')"
    using scb.batch_ok [OF C(1) ch sub] by blast
  have "sm_step os sm w Fs Us ?i ((Us ! ?i) |` (- set bs)) (set_class ?i sc sm) w'"
    using B(4) by (intro sm_stepI [OF owns i B(2,3) same_class_batch [OF B(1)]]) (simp only: restrict_dom)
  moreover have "sm_deallocate_batch os ci head sm w = Some (Inr (), set_class ?i sc sm, w')"
    using class_index_ok [OF i] B(1) by (simp add: sm_deallocate_batch_def)
  ultimately show ?thesis by blast
qed

lemma sm_try_ok:
  assumes owns: "sm_owns os sm w Fs Us" and i: "i < 40"
    and al: "sc_allocate_existing (sm_classes sm ! i) w = (b, sc, w')"
  shows "sm_step os sm w Fs Us i
      (if b = nullptr then Us ! i else (Us ! i)(b \<mapsto> client_bytes (kClassSizes ! i) b)) (set_class i sc sm) w'"
    and "b \<noteq> nullptr \<Longrightarrow> (Us ! i) b = None"
proof -
  note C = sm_owns_class [OF owns i]
  have L: "agree_on (granted (Us ! i)) (w_mem w) (w_mem w') \<and>
      (\<exists>F'. sc_owns os sc w' F' (if b = nullptr then Us ! i
         else (Us ! i)(b \<mapsto> client_bytes (sc_block_size (sm_classes sm ! i)) b)) \<and>
        frame_step (Fs ! i) w F' w') \<and> (b \<noteq> nullptr \<longrightarrow> (Us ! i) b = None)"
    by (rule scb.try_ok [OF C(1) al])
  then show n: "b \<noteq> nullptr \<Longrightarrow> (Us ! i) b = None" by simp
  from L [unfolded C(2)] obtain F' where F': "sc_owns os sc w' F' (if b = nullptr then Us ! i
         else (Us ! i)(b \<mapsto> client_bytes (kClassSizes ! i) b))" "frame_step (Fs ! i) w F' w'" by auto
  show "sm_step os sm w Fs Us i
      (if b = nullptr then Us ! i else (Us ! i)(b \<mapsto> client_bytes (kClassSizes ! i) b)) (set_class i sc sm) w'"
  proof (rule sm_stepI [OF owns i F' same_class_existing [OF al]])
    show "agree_on (granted ((Us ! i) |` dom (if b = nullptr then Us ! i
         else (Us ! i)(b \<mapsto> client_bytes (kClassSizes ! i) b)))) (w_mem w) (w_mem w')"
    proof -
      have "(Us ! i) |` dom (if b = nullptr then Us ! i
         else (Us ! i)(b \<mapsto> client_bytes (kClassSizes ! i) b)) = Us ! i"
        using n restrict_dom_upd [of "Us ! i" b] restrict_dom_self [of "Us ! i"]
        by (cases "b = nullptr") (simp_all only: if_True if_False refl not_False_eq_True)
      then show ?thesis using L by (simp only:) 
    qed
  qed
qed

text \<open>A write of the users, in blocks of any class.\<close>

lemma sm_owns_write:
  assumes owns: "sm_owns os sm w Fs Us" and ag: "agree_on (- fam_granted Us) (w_mem w) m'"
  shows "sm_owns os sm (w\<lparr>w_mem := m'\<rparr>) Fs Us"
proof -
  have len: "length Fs = 40" "length Us = 40"
    and dj: "\<And>j k. j < 40 \<Longrightarrow> k < 40 \<Longrightarrow> j \<noteq> k \<Longrightarrow> Fs ! j \<inter> Fs ! k = {}"
    using owns by (auto simp: sm_owns_def)
  have "sc_owns os (sm_classes sm ! i) (w\<lparr>w_mem := m'\<rparr>) (Fs ! i) (Us ! i)" if i: "i < 40" for i
  proof -
    note C = sm_owns_class [OF owns i]
    define m1 where "m1 = (\<lambda>x. if x \<in> Fs ! i then m' x else w_mem w x)"
    have "m' x = w_mem w x" if x: "x \<in> Fs ! i" "x \<notin> granted (Us ! i)" for x
    proof -
      have "x \<notin> granted (Us ! j)" if j: "j < 40" for j
      proof (cases "j = i")
        case True
        then show ?thesis using x by simp
      next
        case False
        then show ?thesis
          using sca.owns_granted [OF sm_owns_class(1) [OF owns j]] dj [OF j i False] x(1) by blast
      qed
      then have "x \<notin> fam_granted Us" using len by (auto simp: fam_granted_nth [of _ 40])
      then show ?thesis using ag by (simp add: agree_on_def)
    qed
    then have "agree_on (- granted (Us ! i)) (w_mem w) m1" by (auto simp: agree_on_def m1_def)
    then have o1: "sc_owns os (sm_classes sm ! i) (w\<lparr>w_mem := m1\<rparr>) (Fs ! i) (Us ! i)"
      by (rule sca.owns_write [OF C(1)])
    let ?G = "fam Fs - Fs ! i"
    have out: "m1 x = m' x" if "x \<notin> ?G" for x
    proof (cases "x \<in> Fs ! i")
      case True
      then show ?thesis by (simp add: m1_def)
    next
      case False
      then have "x \<notin> fam_granted Us" using that sm_granted_fam [OF owns] by auto
      then show ?thesis using ag False by (simp add: m1_def agree_on_def)
    qed
    have "?G \<subseteq> mapped (w\<lparr>w_mem := m1\<rparr>)" using sm_owns_mapped [OF owns] by (auto simp: mapped_def)
    then have "frame_step ?G (w\<lparr>w_mem := m1\<rparr>) ?G (w\<lparr>w_mem := m1\<rparr>\<lparr>w_mem := m'\<rparr>)"
      using out by (intro frame_step_write) (simp_all add: agree_on_def)
    then have "sc_owns os (sm_classes sm ! i) (w\<lparr>w_mem := m1\<rparr>\<lparr>w_mem := m'\<rparr>) (Fs ! i) (Us ! i)"
      by (intro sca.owns_frame [OF o1]) auto
    then show ?thesis by simp
  qed
  then show ?thesis using owns by (simp add: sm_owns_def)
qed

text \<open>The header fields and the link that belong to the user of a block.\<close>

lemma sm_block_local:
  assumes owns: "sm_owns os sm w Fs Us" and i: "i < 40" and b: "(Us ! i) b = Some A"
    and ag: "agree_on A m m'"
  shows "bh_node_id m' b = bh_node_id m b" and "bh_size_class m' b = bh_size_class m b"
    and "next_link m' b = next_link m b"
proof -
  note C = sm_owns_class [OF owns i]
  note B = sc_owns_block [OF C(1) b]
  have "unat (kClassSizes ! i) \<le> 4096" using kClassSizes_bounds(2) [OF i] .
  then have st: "48 \<le> slab_stride (kClassSizes ! i)" by (rule slab_stride_bounds(1))
  have hdr: "agree_on {unat b ..< unat b + 16} m m'"
    by (rule agree_on_mono [OF ag]) (auto simp: B(1) client_bytes_def)
  have lnk: "agree_on {unat b + 32 ..< unat b + 40} m m'"
    using st by (intro agree_on_mono [OF ag]) (auto simp: B(1) C(2) client_bytes_def)
  show "bh_node_id m' b = bh_node_id m b" "bh_size_class m' b = bh_size_class m b"
    unfolding header_field_defs
    by ((rule s32.get_local, rule agree_on_mono [OF hdr], simp add: bh_bytes [OF B(3)])+)
  show "next_link m' b = next_link m b" by (rule link_local_block [OF B(3) lnk])
qed

lemma sm_same_area:
  assumes "sm_owns os sm w Fs Us" and "sm_owns os sm' w' Fs' Us'" and "i < 40"
    and "(Us ! i) b = Some A" and "(Us' ! i) b = Some B"
  shows "A = B"
  using sc_owns_block(1) [OF sm_owns_class(1) [OF assms(1,3)] assms(4)]
    sc_owns_block(1) [OF sm_owns_class(1) [OF assms(2,3)] assms(5)]
    sm_owns_class(2) [OF assms(1,3)] sm_owns_class(2) [OF assms(2,3)] by simp

text \<open>So an operation on class \<open>i\<close> changes none of them in a block that stays in use.\<close>

lemma sm_step_block:
  assumes owns: "sm_owns os sm w Fs Us" and i: "i < 40"
    and step: "sm_step os sm w Fs Us i U' sm' w'"
    and j: "j < 40" "b \<in> dom (Us ! j)" "b \<in> dom (Us[i := U'] ! j)"
  shows "bh_node_id (w_mem w') b = bh_node_id (w_mem w) b"
    and "bh_size_class (w_mem w') b = bh_size_class (w_mem w) b"
    and "next_link (w_mem w') b = next_link (w_mem w) b"
proof -
  have len: "length Us = 40" using owns by (simp add: sm_owns_def)
  obtain A where A: "(Us ! j) b = Some A" using j(2) by auto
  let ?V = "Us[i := (Us ! i) |` dom U']"
  have "(?V ! j) b = Some A"
    using A j i len by (cases "j = i") (auto simp: restrict_map_def)
  then have "A \<subseteq> granted (?V ! j)" by (rule granted_part)
  also have "\<dots> \<subseteq> fam_granted ?V" using j(1) len by (auto simp: fam_granted_nth [of _ 40])
  finally have "A \<subseteq> fam_granted ?V" .
  then have "agree_on A (w_mem w) (w_mem w')" using step agree_on_mono by (auto simp: sm_step_def)
  from sm_block_local [OF owns j(1) A this]
  show "bh_node_id (w_mem w') b = bh_node_id (w_mem w) b"
    and "bh_size_class (w_mem w') b = bh_size_class (w_mem w) b"
    and "next_link (w_mem w') b = next_link (w_mem w) b" .
qed

lemma sm_blocks_apart:
  assumes owns: "sm_owns os sm w Fs Us" and ij: "i < 40" "j < 40"
    and b: "(Us ! i) b = Some A" and c: "(Us ! j) c = Some B" and ne: "(i, b) \<noteq> (j, c)"
  shows "A \<inter> B = {}"
proof (cases "i = j")
  case True
  then show ?thesis using sca.owns_apart [OF sm_owns_class(1) [OF owns ij(1)] b] c ne by auto
next
  case False
  have "Fs ! i \<inter> Fs ! j = {}" using owns ij False by (simp add: sm_owns_def)
  moreover have "A \<subseteq> Fs ! i" "B \<subseteq> Fs ! j"
    using sca.owns_part [OF sm_owns_class(1) [OF owns ij(1)] b]
      sca.owns_part [OF sm_owns_class(1) [OF owns ij(2)] c] by auto
  ultimately show ?thesis by blast
qed

lemma sm_grant_part: "i < 40 \<Longrightarrow> length Us = 40 \<Longrightarrow> (Us ! i) b = Some A \<Longrightarrow> A \<subseteq> fam_granted Us"
proof -
  assume i: "i < 40" "length Us = 40" and b: "(Us ! i) b = Some A"
  have "A \<subseteq> granted (Us ! i)" by (rule granted_part [of "Us ! i" b, OF b])
  with i show "A \<subseteq> fam_granted Us" by (auto simp: fam_granted_nth [of _ 40])
qed

end
