(* ===== verification/Large_Object.thy ===== *)
theory Large_Object
  imports Slab Allocator_Contract "HOL-Library.Multiset"
begin

section \<open>The large object allocator\<close>

text \<open>
  Models class \<open>LargeObjectAllocator\<close> of \<open>size_divide/large_object\<close>: spans mapped per
  allocation, rounded to one of 16 sizes, and kept in a bounded cache of bins when they come
  back. The invariant follows every span through its life: granted, or cached in the bin of
  its size. The counters of the cache are proved to agree with the bins, and a legal request
  is served with an aligned user area that lies inside its span behind its header.
\<close>

subsection \<open>State\<close>

type_synonym cached_span = "ptr \<times> u64"

record span_bin =
  sb_spans :: "cached_span list"
  sb_count :: u64
  sb_bytes :: u64

record large_alloc =
  la_node_id :: int
  la_sync :: bool
  la_max_cached_spans :: u64
  la_max_cached_bytes :: u64
  la_bins :: "span_bin list"
  la_cached_spans :: u64
  la_cached_bytes :: u64

definition empty_bin :: span_bin where
  "empty_bin =
    \<lparr>sb_spans = replicate kMaxSpansPerLargeBin (nullptr, 0), sb_count = 0, sb_bytes = 0\<rparr>"

definition la_new :: "int \<Rightarrow> u64 \<Rightarrow> u64 \<Rightarrow> bool \<Rightarrow> large_alloc" where
  "la_new node_id max_cached_spans max_cached_bytes sync =
    \<lparr>la_node_id = node_id, la_sync = sync, la_max_cached_spans = max_cached_spans,
     la_max_cached_bytes = max_cached_bytes, la_bins = replicate kNumLargeBins empty_bin,
     la_cached_spans = 0, la_cached_bytes = 0\<rparr>"

subsection \<open>Operations\<close>

definition page_size_for :: "os \<Rightarrow> u64 \<Rightarrow> u64" where
  "page_size_for os required_size = align_up required_size (page_size os)"

definition span_class_size_for :: "os \<Rightarrow> u64 \<Rightarrow> u64" where
  "span_class_size_for os required_size =
    (let page_size = page_size_for os required_size;
         class_size = large_class_size_for page_size
     in page_size_for os class_size)"

text \<open>The search of \<open>acquire_span\<close> from bin \<open>i\<close> on, in at most \<open>n\<close> bins.\<close>

fun find_bin :: "span_bin list \<Rightarrow> nat \<Rightarrow> nat \<Rightarrow> nat option" where
  "find_bin bins i 0 = None"
| "find_bin bins i (Suc n) =
     (if sb_count (bins ! i) = 0 then find_bin bins (Suc i) n else Some i)"

definition take_cached_span :: "nat \<Rightarrow> large_alloc \<Rightarrow> cached_span \<times> large_alloc" where
  "take_cached_span i la =
    (let bin = la_bins la ! i;
         count = sb_count bin - 1;
         span = sb_spans bin ! unat count;
         bin = bin\<lparr>sb_count := count, sb_bytes := sb_bytes bin - snd span\<rparr>
     in (span, la\<lparr>la_bins := (la_bins la)[i := bin],
                  la_cached_spans := la_cached_spans la - 1,
                  la_cached_bytes := la_cached_bytes la - snd span\<rparr>))"

definition la_acquire_span ::
  "os \<Rightarrow> u64 \<Rightarrow> large_alloc \<Rightarrow> world \<Rightarrow> cached_span res \<times> large_alloc \<times> world" where
  "la_acquire_span os sz la w =
    (let bin_index = bin_index_for sz;
         hit = (if bin_index \<noteq> npos then
                  let last_bin = min (kNumLargeBins - 1) (unat bin_index + kLargeBinSearchLimit)
                  in find_bin (la_bins la) (unat bin_index) (Suc last_bin - unat bin_index)
                else None)
     in case hit of
          Some i \<Rightarrow> (let (span, la1) = take_cached_span i la in (Inr span, la1, w))
        | None \<Rightarrow>
            (case vm_alloc_on_node os sz (la_node_id la) Bind w of
               (Inl e, w1) \<Rightarrow> (Inl e, la, w1)
             | (Inr raw, w1) \<Rightarrow> (Inr (raw, sz), la, w1)))"

definition la_allocate_from_span ::
  "int \<Rightarrow> u64 \<Rightarrow> u64 \<Rightarrow> u64 \<Rightarrow> ptr \<Rightarrow> mem \<Rightarrow> ptr res \<times> mem" where
  "la_allocate_from_span node_id sz alignment span_size raw m =
    (let start = align_up (raw + sizeof_BlockHeader) alignment in
     if start + sz > raw + span_size then (Inl Bad_alloc, m)
     else
       let header = start - sizeof_BlockHeader;
           m1 = set_bh_node_id header (of_int node_id) m;
           m2 = set_bh_size_class header 0 m1;
           m3 = set_bh_size header sz m2;
           m4 = set_bh_raw_ptr header raw m3;
           m5 = set_bh_total_size header span_size m4
       in (Inr start, m5))"

text \<open>\<open>alignof(void*)\<close> is 8.\<close>

definition la_allocate ::
  "os \<Rightarrow> u64 \<Rightarrow> u64 \<Rightarrow> large_alloc \<Rightarrow> world \<Rightarrow> ptr res \<times> large_alloc \<times> world" where
  "la_allocate os sz alignment la w =
    (let alignment = (if alignment < 8 then 8 else alignment) in
     if alignment > size_max - sizeof_BlockHeader \<or>
        sz > size_max - alignment - sizeof_BlockHeader
     then (Inl Bad_alloc, la, w)
     else
       let total = sz + alignment + sizeof_BlockHeader;
           span_size = span_class_size_for os total
       in case la_acquire_span os span_size la w of
            (Inl e, la1, w1) \<Rightarrow> (Inl e, la1, w1)
          | (Inr span, la1, w1) \<Rightarrow>
              (let (r, m) = la_allocate_from_span (la_node_id la) sz alignment (snd span) (fst span)
                              (w_mem w1)
               in (r, la1, w1\<lparr>w_mem := m\<rparr>)))"

definition la_release_to_cache :: "ptr \<Rightarrow> u64 \<Rightarrow> large_alloc \<Rightarrow> bool \<times> large_alloc" where
  "la_release_to_cache raw total_size la =
    (let bin_index = bin_index_for total_size in
     if bin_index = npos then (False, la)
     else
       let bin = la_bins la ! unat bin_index in
       if sb_count bin \<ge> of_nat kMaxSpansPerLargeBin \<or>
          la_cached_spans la \<ge> la_max_cached_spans la \<or>
          la_cached_bytes la + total_size > la_max_cached_bytes la
       then (False, la)
       else
         let bin = bin\<lparr>sb_spans := (sb_spans bin)[unat (sb_count bin) := (raw, total_size)],
                       sb_count := sb_count bin + 1,
                       sb_bytes := sb_bytes bin + total_size\<rparr>
         in (True, la\<lparr>la_bins := (la_bins la)[unat bin_index := bin],
                      la_cached_spans := la_cached_spans la + 1,
                      la_cached_bytes := la_cached_bytes la + total_size\<rparr>))"

definition la_deallocate :: "os \<Rightarrow> ptr \<Rightarrow> large_alloc \<Rightarrow> world \<Rightarrow> large_alloc \<times> world" where
  "la_deallocate os p la w =
    (if p = nullptr then (la, w)
     else
       let header = from_user_ptr p;
           raw = bh_raw_ptr (w_mem w) header;
           total_size = bh_total_size (w_mem w) header
       in case la_release_to_cache raw total_size la of
            (True, la1) \<Rightarrow> (la1, w)
          | (False, la1) \<Rightarrow> (la1, vm_release os raw total_size w))"

definition bin_spans :: "span_bin \<Rightarrow> cached_span list" where
  "bin_spans bin = take (unat (sb_count bin)) (sb_spans bin)"

definition la_destroy :: "os \<Rightarrow> large_alloc \<Rightarrow> world \<Rightarrow> world" where
  "la_destroy os la w =
    fold (\<lambda>bin w. fold (\<lambda>span w. vm_release os (fst span) (snd span) w) (bin_spans bin) w)
      (la_bins la) w"

subsection \<open>The cache and its counters\<close>

definition bin_wf :: "nat \<Rightarrow> span_bin \<Rightarrow> bool" where
  "bin_wf i b \<longleftrightarrow> length (sb_spans b) = 8 \<and> unat (sb_count b) \<le> 8 \<and>
     (\<forall>span\<in>set (bin_spans b). snd span = kLargeBinSizes ! i) \<and>
     unat (sb_bytes b) = unat (sb_count b) * unat (kLargeBinSizes ! i)"

text \<open>The counters agree with the bins and respect the limits of the constructor.\<close>

definition la_wf :: "large_alloc \<Rightarrow> bool" where
  "la_wf la \<longleftrightarrow> length (la_bins la) = 16 \<and> (\<forall>i<16. bin_wf i (la_bins la ! i)) \<and>
     unat (la_cached_spans la) = sum_list (map (\<lambda>b. unat (sb_count b)) (la_bins la)) \<and>
     unat (la_cached_bytes la) = sum_list (map (\<lambda>b. unat (sb_bytes b)) (la_bins la)) \<and>
     la_cached_spans la \<le> la_max_cached_spans la \<and> la_cached_bytes la \<le> la_max_cached_bytes la"

definition la_cached :: "large_alloc \<Rightarrow> cached_span multiset" where
  "la_cached la = mset (concat (map bin_spans (la_bins la)))"

lemma unat_kLargeBinSizes: "i < 16 \<Longrightarrow> 8192 \<le> unat (kLargeBinSizes ! i) \<and> unat (kLargeBinSizes ! i) \<le> 2097152"
proof -
  assume i: "i < 16"
  have "\<forall>c\<in>set (map unat kLargeBinSizes). 8192 \<le> c \<and> c \<le> 2097152"
    unfolding kLargeBinSizes_list by simp
  with i show ?thesis by (metis length_kLargeBinSizes length_map nth_map nth_mem)
qed

lemma bin_wf_bytes: "bin_wf i b \<Longrightarrow> i < 16 \<Longrightarrow> unat (sb_bytes b) \<le> 8 * 2097152"
  using unat_kLargeBinSizes [of i] mult_le_mono [of "unat (sb_count b)" 8 "unat (kLargeBinSizes ! i)" 2097152]
  by (auto simp: bin_wf_def)

text \<open>So the cache never holds more than 128 spans, nor more than 256 MB, and none of its
  counters wraps.\<close>

lemma sum_list_bound: "(\<And>x. x \<in> set xs \<Longrightarrow> f x \<le> c) \<Longrightarrow> sum_list (map f xs) \<le> length xs * (c :: nat)"
  by (induction xs) (auto intro: add_mono)

lemma la_wf_bounds:
  assumes "la_wf la"
  shows "unat (la_cached_spans la) \<le> 128" and "unat (la_cached_bytes la) \<le> 268435456"
proof -
  have l: "length (la_bins la) = 16" and wf: "\<forall>i<16. bin_wf i (la_bins la ! i)"
    using assms by (simp_all add: la_wf_def)
  have "unat (sb_count b) \<le> 8 \<and> unat (sb_bytes b) \<le> 16777216" if "b \<in> set (la_bins la)" for b
  proof -
    from that l obtain i where i: "i < 16" "b = la_bins la ! i" by (metis in_set_conv_nth)
    then show ?thesis using wf bin_wf_bytes [of i b] by (auto simp: bin_wf_def)
  qed
  then have "sum_list (map (\<lambda>b. unat (sb_count b)) (la_bins la)) \<le> length (la_bins la) * 8"
    and "sum_list (map (\<lambda>b. unat (sb_bytes b)) (la_bins la)) \<le> length (la_bins la) * 16777216"
    by (auto intro!: sum_list_bound)
  then show "unat (la_cached_spans la) \<le> 128" and "unat (la_cached_bytes la) \<le> 268435456"
    using assms l by (auto simp: la_wf_def)
qed

lemma la_new_wf [simp]: "la_wf (la_new node_id ms mb sync)" "la_cached (la_new node_id ms mb sync) = {#}"
proof -
  have z: "concat (map bin_spans (replicate n empty_bin)) = []" for n
    by (simp add: bin_spans_def empty_bin_def)
  show "la_cached (la_new node_id ms mb sync) = {#}"
    by (simp only: la_cached_def la_new_def large_alloc.simps z mset.simps)
  have "bin_wf i empty_bin" for i
    by (simp add: bin_wf_def empty_bin_def bin_spans_def kMaxSpansPerLargeBin_def)
  then show "la_wf (la_new node_id ms mb sync)"
    by (simp add: la_wf_def la_new_def sum_list_replicate) (simp add: empty_bin_def)
qed

text \<open>Replacing one bin.\<close>

lemma la_cached_update:
  assumes "i < length bins"
  shows "mset (concat (map bin_spans (bins[i := b]))) + mset (bin_spans (bins ! i)) =
    mset (concat (map bin_spans bins)) + mset (bin_spans b)"
proof -
  have "bins = take i bins @ bins ! i # drop (Suc i) bins" using assms by (simp add: id_take_nth_drop)
  then have "mset (concat (map bin_spans bins)) =
      mset (concat (map bin_spans (take i bins))) + mset (bin_spans (bins ! i)) +
      mset (concat (map bin_spans (drop (Suc i) bins)))"
    by (metis (no_types, lifting) concat.simps(2) concat_append list.simps(9) map_append mset_append add.assoc)
  moreover have "mset (concat (map bin_spans (bins[i := b]))) =
      mset (concat (map bin_spans (take i bins))) + mset (bin_spans b) +
      mset (concat (map bin_spans (drop (Suc i) bins)))"
    using assms by (simp add: upd_conv_take_nth_drop)
  ultimately show ?thesis by (simp add: ac_simps)
qed

text \<open>Taking the last span of a bin that is not empty.\<close>

lemma take_cached_span_ok:
  assumes wf: "la_wf la" and i: "i < 16" and ne: "sb_count (la_bins la ! i) \<noteq> 0"
    and take: "take_cached_span i la = (span, la')"
  shows "la_wf la'" and "la_cached la = add_mset span (la_cached la')"
    and "snd span = kLargeBinSizes ! i"
    and "la_node_id la' = la_node_id la"
proof -
  define bin where "bin = la_bins la ! i"
  define k where "k = unat (sb_count bin)"
  have bw: "bin_wf i bin" and len: "length (la_bins la) = 16" using wf i by (simp_all add: la_wf_def bin_def)
  have k: "0 < k" "k \<le> 8" using ne bw by (auto simp: k_def bin_def bin_wf_def intro: unat_gt_0_u64)
  have c1: "unat (sb_count bin - 1) = k - 1" using k by (simp add: unat_sub_u64 k_def)
  define bin' where "bin' = bin\<lparr>sb_count := sb_count bin - 1, sb_bytes := sb_bytes bin - snd span\<rparr>"
  have span: "span = sb_spans bin ! (k - 1)"
    and la': "la' = la\<lparr>la_bins := (la_bins la)[i := bin'], la_cached_spans := la_cached_spans la - 1,
        la_cached_bytes := la_cached_bytes la - snd span\<rparr>"
    using take c1 by (auto simp: take_cached_span_def Let_def bin_def [symmetric] bin'_def)
  have lenb: "length (sb_spans bin) = 8" using bw by (simp add: bin_wf_def)
  have split: "bin_spans bin = bin_spans bin' @ [span]"
  proof -
    have "take (Suc (k - 1)) (sb_spans bin) = take (k - 1) (sb_spans bin) @ [sb_spans bin ! (k - 1)]"
      using k lenb by (intro take_Suc_conv_app_nth) simp
    then show ?thesis using k by (simp add: bin_spans_def bin'_def c1 span k_def [symmetric])
  qed
  then have sz: "snd span = kLargeBinSizes ! i" using bw by (simp add: bin_wf_def)
  then show "snd span = kLargeBinSizes ! i" .
  have bytes: "unat (sb_bytes bin) = k * unat (snd span)" using bw by (simp add: bin_wf_def sz k_def)
  have le: "unat (snd span) \<le> unat (sb_bytes bin)" using bytes k by simp
  have b': "unat (sb_bytes bin') = (k - 1) * unat (snd span)"
    using le bytes by (simp add: bin'_def unat_sub_u64 diff_mult_distrib)
  have bw': "bin_wf i bin'"
    using bw split c1 b' k by (simp add: bin_wf_def bin'_def sz)
  have nb: "la_bins la ! i = bin" by (simp add: bin_def)
  have il: "i < length (la_bins la)" using i len by simp
  have cs: "k \<le> unat (la_cached_spans la)"
    using wf nth_le_sum_list [of i "map (\<lambda>b. unat (sb_count b)) (la_bins la)"] il
    by (simp add: la_wf_def nb k_def)
  have cb: "unat (sb_bytes bin) \<le> unat (la_cached_bytes la)"
    using wf nth_le_sum_list [of i "map (\<lambda>b. unat (sb_bytes b)) (la_bins la)"] il
    by (simp add: la_wf_def nb)
  have s1: "sum_list (map (\<lambda>b. unat (sb_count b)) ((la_bins la)[i := bin'])) = unat (la_cached_spans la - 1)"
  proof -
    have "unat (la_cached_spans la - 1) = unat (la_cached_spans la) - 1"
      using cs k by (simp add: unat_sub_u64)
    then show ?thesis
      using wf il k cs c1 by (simp add: map_update sum_list_update_nat la_wf_def nb bin'_def k_def)
  qed
  have s2: "sum_list (map (\<lambda>b. unat (sb_bytes b)) ((la_bins la)[i := bin'])) =
      unat (la_cached_bytes la - snd span)"
  proof -
    have "unat (la_cached_bytes la - snd span) = unat (la_cached_bytes la) - unat (snd span)"
      using cb le by (simp add: unat_sub_u64)
    moreover have "unat (sb_bytes bin') = unat (sb_bytes bin) - unat (snd span)"
      using bytes b' by (simp add: diff_mult_distrib)
    ultimately show ?thesis
      using wf il le cb by (simp add: map_update sum_list_update_nat la_wf_def nb)
  qed
  have l1: "la_cached_spans la - 1 \<le> la_cached_spans la"
    using cs k by (simp add: word_le_nat_alt unat_sub_u64)
  have l2: "la_cached_bytes la - snd span \<le> la_cached_bytes la"
    using cb le by (simp add: word_le_nat_alt unat_sub_u64)
  show "la_wf la'"
    using wf bw' s1 s2 l1 l2 len il
    by (auto simp: la_wf_def la' nth_list_update intro: order_trans)
  show "la_cached la = add_mset span (la_cached la')"
    using la_cached_update [OF il, of bin'] by (simp add: la_cached_def la' nb split)
  show "la_node_id la' = la_node_id la" by (simp add: la')
qed

text \<open>Returning a span to the cache: it is cached exactly when \<open>true\<close> is returned, and then
  in the bin of its size.\<close>

lemma sum_list_upd_add:
  "i < length xs \<Longrightarrow> (f (xs ! i) :: nat) + d = f x \<Longrightarrow> sum_list (map f (xs[i := x])) = sum_list (map f xs) + d"
  using nth_le_sum_list [of i "map f xs"] by (auto simp: map_update sum_list_update_nat)

lemma la_release_to_cache_ok:
  assumes wf: "la_wf la" and rel: "la_release_to_cache raw sz la = (r, la')"
  shows "la_wf la'" and "la_cached la' = (if r then add_mset (raw, sz) (la_cached la) else la_cached la)"
    and "\<not> r \<Longrightarrow> la' = la" and "la_node_id la' = la_node_id la"
    and "r \<Longrightarrow> sz \<in> set kLargeBinSizes"
proof -
  have "la_wf la' \<and> la_cached la' = (if r then add_mset (raw, sz) (la_cached la) else la_cached la) \<and>
    (\<not> r \<longrightarrow> la' = la) \<and> la_node_id la' = la_node_id la \<and> (r \<longrightarrow> sz \<in> set kLargeBinSizes)"
  proof (cases r)
    case False
    then have "la' = la"
      using rel by (auto simp: la_release_to_cache_def Let_def split: if_splits)
    with False wf show ?thesis by simp
  next
    case True
    define i where "i = unat (bin_index_for sz)"
    define bin where "bin = la_bins la ! i"
    define k where "k = unat (sb_count bin)"
    define bin' where "bin' = bin\<lparr>sb_spans := (sb_spans bin)[unat (sb_count bin) := (raw, sz)],
      sb_count := sb_count bin + 1, sb_bytes := sb_bytes bin + sz\<rparr>"
    have np: "bin_index_for sz \<noteq> npos" and cnt: "sb_count bin < 8"
      and cs: "la_cached_spans la < la_max_cached_spans la"
      and cb: "la_cached_bytes la + sz \<le> la_max_cached_bytes la"
      and la': "la' = la\<lparr>la_bins := (la_bins la)[i := bin'], la_cached_spans := la_cached_spans la + 1,
        la_cached_bytes := la_cached_bytes la + sz\<rparr>"
      using rel True
      by (auto simp: la_release_to_cache_def Let_def i_def [symmetric] bin_def [symmetric]
          bin'_def kMaxSpansPerLargeBin_def not_le split: if_splits)
    have i: "i < 16" and sz: "kLargeBinSizes ! i = sz" using np bin_index_for_cases [of sz] by (auto simp: i_def)
    have len: "length (la_bins la) = 16" and bw: "bin_wf i bin" using wf i by (auto simp: la_wf_def bin_def)
    have il: "i < length (la_bins la)" using i len by simp
    have nb: "la_bins la ! i = bin" by (simp add: bin_def)
    have k: "k < 8" using cnt by (simp add: k_def word_less_nat_alt)
    have usz: "unat sz \<le> 2097152" using unat_kLargeBinSizes [OF i] by (simp add: sz)
    note bounds = la_wf_bounds [OF wf]
    have c1: "unat (sb_count bin + 1) = k + 1"
      using k by (subst unat_add_u64) (auto simp: k_def)
    have b1: "unat (sb_bytes bin + sz) = unat (sb_bytes bin) + unat sz"
      using bin_wf_bytes [OF bw i] usz by (intro unat_add_u64) simp
    have lenb: "length (sb_spans bin) = 8" using bw by (simp add: bin_wf_def)
    have split: "bin_spans bin' = bin_spans bin @ [(raw, sz)]"
    proof -
      have "bin_spans bin' = take (Suc k) ((sb_spans bin)[k := (raw, sz)])"
        by (simp add: bin_spans_def bin'_def c1 k_def [symmetric])
      also have "\<dots> = take k (sb_spans bin) @ [(raw, sz)]"
        using k lenb by (simp add: take_Suc_conv_app_nth)
      finally show ?thesis by (simp add: bin_spans_def k_def)
    qed
    have bw': "bin_wf i bin'"
      using bw split c1 b1 k by (simp add: bin_wf_def bin'_def sz k_def)
    have s1: "sum_list (map (\<lambda>b. unat (sb_count b)) ((la_bins la)[i := bin'])) =
        unat (la_cached_spans la + 1)"
    proof -
      have "unat (la_cached_spans la + 1) = unat (la_cached_spans la) + 1"
        using bounds by (subst unat_add_u64) auto
      moreover have "sum_list (map (\<lambda>b. unat (sb_count b)) ((la_bins la)[i := bin'])) =
          sum_list (map (\<lambda>b. unat (sb_count b)) (la_bins la)) + 1"
        by (rule sum_list_upd_add [OF il]) (use c1 in \<open>simp add: nb bin'_def k_def\<close>)
      ultimately show ?thesis using wf by (simp add: la_wf_def)
    qed
    have s2: "sum_list (map (\<lambda>b. unat (sb_bytes b)) ((la_bins la)[i := bin'])) =
        unat (la_cached_bytes la + sz)"
    proof -
      have "unat (la_cached_bytes la + sz) = unat (la_cached_bytes la) + unat sz"
        using bounds usz by (intro unat_add_u64) simp
      moreover have "sum_list (map (\<lambda>b. unat (sb_bytes b)) ((la_bins la)[i := bin'])) =
          sum_list (map (\<lambda>b. unat (sb_bytes b)) (la_bins la)) + unat sz"
        by (rule sum_list_upd_add [OF il]) (use b1 in \<open>simp add: nb bin'_def\<close>)
      ultimately show ?thesis using wf by (simp add: la_wf_def)
    qed
    have "la_cached_spans la + 1 \<le> la_max_cached_spans la" using cs by (rule inc_le)
    then have w': "la_wf la'"
      using wf bw' s1 s2 cb len il by (auto simp: la_wf_def la' nth_list_update)
    have "la_cached la' = add_mset (raw, sz) (la_cached la)"
      using la_cached_update [OF il, of bin'] by (simp add: la_cached_def la' nb split)
    moreover have "sz \<in> set kLargeBinSizes" using i sz by (metis length_kLargeBinSizes nth_mem)
    ultimately show ?thesis using True w' by (simp add: la')
  qed
  then show "la_wf la'" and "la_cached la' = (if r then add_mset (raw, sz) (la_cached la) else la_cached la)"
    and "\<not> r \<Longrightarrow> la' = la" and "la_node_id la' = la_node_id la"
    and "r \<Longrightarrow> sz \<in> set kLargeBinSizes" by auto
qed

subsection \<open>Acquiring a span\<close>

lemma find_bin_Some:
  "find_bin bins i n = Some j \<Longrightarrow> i \<le> j \<and> j < i + n \<and> sb_count (bins ! j) \<noteq> 0 \<and>
     (\<forall>l. i \<le> l \<and> l < j \<longrightarrow> sb_count (bins ! l) = 0)"
proof (induction bins i n rule: find_bin.induct)
  case (2 bins i n)
  show ?case
  proof (cases "sb_count (bins ! i) = 0")
    case True
    then have IH: "Suc i \<le> j" "j < Suc i + n" "sb_count (bins ! j) \<noteq> 0"
      "\<forall>l. Suc i \<le> l \<and> l < j \<longrightarrow> sb_count (bins ! l) = 0"
      using 2 by auto
    have "sb_count (bins ! l) = 0" if "i \<le> l" "l < j" for l
      using that True IH(4) by (cases "l = i") auto
    with IH show ?thesis by simp
  next
    case False
    with 2(2) show ?thesis by auto
  qed
qed simp

lemma find_bin_None:
  "find_bin bins i n = None \<Longrightarrow> i \<le> l \<Longrightarrow> l < i + n \<Longrightarrow> sb_count (bins ! l) = 0"
proof (induction bins i n rule: find_bin.induct)
  case (2 bins i n)
  then show ?case by (cases "l = i") (auto split: if_splits)
qed simp

text \<open>Either a cached span of the size asked for or of one of the next three sizes, or a new
  mapping of exactly the size asked for.\<close>

lemma la_acquire_span_cases:
  assumes wf: "la_wf la" and acq: "la_acquire_span os sz la w = (r, la', w')"
  obtains (hit) span i j where "r = Inr span" and "w' = w" and "la_wf la'"
      and "la_cached la = add_mset span (la_cached la')" and "la_node_id la' = la_node_id la"
      and "sz = kLargeBinSizes ! i" and "i \<le> j" and "j \<le> i + 3" and "j < 16"
      and "snd span = kLargeBinSizes ! j"
  | (miss) raw where "r = Inr (raw, sz)" and "la' = la"
      and "vm_alloc_on_node os sz (la_node_id la) Bind w = (Inr raw, w')"
  | (err) e where "r = Inl e" and "la' = la"
      and "vm_alloc_on_node os sz (la_node_id la) Bind w = (Inl e, w')"
proof -
  define bi where "bi = bin_index_for sz"
  define hit where "hit = (if bi \<noteq> npos then find_bin (la_bins la) (unat bi)
      (Suc (min 15 (unat bi + 3)) - unat bi) else None)"
  have eq: "la_acquire_span os sz la w = (case hit of
          Some i \<Rightarrow> (let (span, la1) = take_cached_span i la in (Inr span, la1, w))
        | None \<Rightarrow>
            (case vm_alloc_on_node os sz (la_node_id la) Bind w of
               (Inl e, w1) \<Rightarrow> (Inl e, la, w1)
             | (Inr raw, w1) \<Rightarrow> (Inr (raw, sz), la, w1)))"
    by (simp add: la_acquire_span_def bi_def [symmetric] hit_def Let_def kLargeBinSearchLimit_def)
  show thesis
  proof (cases hit)
    case None
    obtain x w1 where v: "vm_alloc_on_node os sz (la_node_id la) Bind w = (x, w1)" by fastforce
    show thesis
    proof (cases x)
      case (Inl e)
      then show thesis using eq acq None v err by simp
    next
      case (Inr raw)
      then show thesis using eq acq None v miss by simp
    qed
  next
    case (Some j)
    then have np: "bi \<noteq> npos" and f: "find_bin (la_bins la) (unat bi)
      (Suc (min 15 (unat bi + 3)) - unat bi) = Some j" by (auto simp: hit_def split: if_splits)
    note F = find_bin_Some [OF f]
    have bi: "unat bi < 16" "sz = kLargeBinSizes ! unat bi"
      using np bin_index_for_cases [of sz] by (auto simp: bi_def)
    obtain span la1 where t: "take_cached_span j la = (span, la1)" by fastforce
    then have e: "r = Inr span" "la' = la1" "w' = w" using eq acq Some by simp_all
    have j: "j < 16" "unat bi \<le> j" "j \<le> unat bi + 3" using F bi(1) by auto
    note T = take_cached_span_ok [OF wf j(1) _ t]
    show thesis
      by (rule hit [of span "unat bi" j]) (use T F e bi j in auto)
  qed
qed

subsection \<open>Placing the header and the user area\<close>

lemma la_header_writes:
  assumes hb: "unat h + 65536 < 18446744073709551616"
    and m': "m' = set_bh_total_size h t (set_bh_raw_ptr h raw (set_bh_size h sz
      (set_bh_size_class h c (set_bh_node_id h n m))))"
  shows "bh_node_id m' h = n" and "bh_size_class m' h = c" and "bh_size m' h = sz"
    and "bh_raw_ptr m' h = raw" and "bh_total_size m' h = t"
    and "agree_on (- {unat h ..< unat h + 32}) m m'"
proof -
  note iv = bh_bytes [OF hb]
  show "bh_total_size m' h = t" by (simp add: m' header_field_defs)
  show "bh_raw_ptr m' h = raw"
    unfolding m' header_field_defs by (subst s64.get_put_apart, simp add: iv, simp)
  show "bh_size m' h = sz"
    unfolding m' header_field_defs
    by (subst s64.get_put_apart, simp add: iv, subst s64.get_put_apart, simp add: iv, simp)
  show "bh_size_class m' h = c"
    unfolding m' header_field_defs
    by (subst load32_store64_apart, simp add: iv, subst load32_store64_apart, simp add: iv,
        subst load32_store64_apart, simp add: iv, simp)
  show "bh_node_id m' h = n"
    unfolding m' header_field_defs
    by (subst load32_store64_apart, simp add: iv, subst load32_store64_apart, simp add: iv,
        subst load32_store64_apart, simp add: iv, subst s32.get_put_apart, simp add: iv, simp)
  show "agree_on (- {unat h ..< unat h + 32}) m m'"
    unfolding m' header_field_defs
    by (auto intro!: agree_onI simp: s64.put_local s32.put_local iv)
qed

lemma la_allocate_from_span_ok:
  assumes place: "unat raw + unat span \<le> 2 ^ 63" and al: "alignment \<noteq> 0"
    and fits: "unat sz + unat alignment + 32 \<le> unat span"
    and res: "la_allocate_from_span node sz alignment span raw m = (r, m')"
  obtains p where "r = Inr p" and "unat p = round_up (unat raw + 32) (unat alignment)"
    and "unat raw + 32 \<le> unat p" and "unat p + unat sz \<le> unat raw + unat span"
    and "unat (from_user_ptr p) = unat p - 32"
    and "bh_node_id m' (from_user_ptr p) = of_int node" and "bh_size_class m' (from_user_ptr p) = 0"
    and "bh_size m' (from_user_ptr p) = sz" and "bh_raw_ptr m' (from_user_ptr p) = raw"
    and "bh_total_size m' (from_user_ptr p) = span"
    and "agree_on (- {unat p - 32 ..< unat p}) m m'"
proof -
  define p where "p = align_up (raw + 32) alignment"
  have a: "0 < unat alignment" using al by (rule unat_gt_0_u64)
  have r32: "unat (raw + 32) = unat raw + 32" using place fits by (intro unat_plus_numeral) simp
  have up: "unat p = round_up (unat raw + 32) (unat alignment)"
    unfolding p_def using place fits al by (subst unat_align_up) (auto simp: r32)
  have lo: "unat raw + 32 \<le> unat p" unfolding up by (rule round_up_ge [OF a])
  have "unat p < unat raw + 32 + unat alignment" unfolding up by (rule round_up_less [OF a])
  then have hi: "unat p + unat sz \<le> unat raw + unat span" using fits by linarith
  have s1: "unat (p + sz) = unat p + unat sz" using hi place by (intro unat_add_u64) simp
  have s2: "unat (raw + span) = unat raw + unat span" using place by (intro unat_add_u64) simp
  have ok: "\<not> p + sz > raw + span" using hi by (simp add: word_less_nat_alt s1 s2)
  have h: "unat (from_user_ptr p) = unat p - 32"
    using lo by (simp add: user_ptr_defs unat_sub_u64)
  have hb: "unat (from_user_ptr p) + 65536 < 18446744073709551616" using h hi place by simp
  define h where "h = from_user_ptr p"
  have m': "m' = set_bh_total_size h span (set_bh_raw_ptr h raw (set_bh_size h sz
      (set_bh_size_class h 0 (set_bh_node_id h (of_int node) m))))" and r: "r = Inr p"
    using res ok by (simp_all add: la_allocate_from_span_def Let_def p_def [symmetric] h_def
        sizeof_BlockHeader_def from_user_ptr_def sub_bytes_def)
  note W = la_header_writes [OF hb, folded h_def, OF m']
  have "unat h + 32 = unat p" using h lo by (simp add: h_def)
  then show thesis
    using that [OF r up lo hi h] W h by (simp add: h_def)
qed

subsection \<open>What the allocator owns\<close>

text \<open>A span, and a granted block: its user pointer, base, span size and requested size.\<close>

type_synonym la_block = "ptr \<times> ptr \<times> u64 \<times> u64"

definition span_area :: "cached_span \<Rightarrow> nat set" where
  "span_area = (\<lambda>(raw, sz). bytes_of raw (unat sz))"

definition span_ok :: "os \<Rightarrow> int \<Rightarrow> world \<Rightarrow> cached_span \<Rightarrow> bool" where
  "span_ok os node w = (\<lambda>(raw, sz). raw \<noteq> nullptr \<and> sz \<noteq> 0 \<and>
     unat (page_size os) dvd unat raw \<and> unat (page_size os) dvd unat sz \<and>
     unat raw + unat sz \<le> 2 ^ 63 \<and>
     (\<forall>x\<in>bytes_of raw (unat sz). w_policy w x = node_policy os node))"

definition block_ok :: "int \<Rightarrow> mem \<Rightarrow> la_block \<Rightarrow> bool" where
  "block_ok node m = (\<lambda>(p, raw, span, sz).
     unat raw + 32 \<le> unat p \<and> unat p + unat sz \<le> unat raw + unat span \<and>
     bh_node_id m (from_user_ptr p) = of_int node \<and> bh_size_class m (from_user_ptr p) = 0 \<and>
     bh_raw_ptr m (from_user_ptr p) = raw \<and> bh_total_size m (from_user_ptr p) = span)"

definition block_span :: "la_block \<Rightarrow> cached_span" where
  "block_span = (\<lambda>(p, raw, span, sz). (raw, span))"

definition la_pool :: "large_alloc \<Rightarrow> la_block list \<Rightarrow> cached_span multiset" where
  "la_pool la lv = mset (map block_span lv) + la_cached la"

definition spans_apart :: "cached_span multiset \<Rightarrow> bool" where
  "spans_apart M \<longleftrightarrow> (\<forall>a b N. M = add_mset a (add_mset b N) \<longrightarrow> span_area a \<inter> span_area b = {})"

definition pool_area :: "cached_span multiset \<Rightarrow> nat set" where
  "pool_area M = (\<Union>s\<in>set_mset M. span_area s)"

definition la_grants :: "la_block list \<Rightarrow> grants" where
  "la_grants lv = map_of (map (\<lambda>(p, raw, span, sz). (p, bytes_of p (unat sz))) lv)"

definition la_inv :: "os \<Rightarrow> large_alloc \<Rightarrow> la_block list \<Rightarrow> world \<Rightarrow> bool" where
  "la_inv os la lv w \<longleftrightarrow> la_wf la \<and>
     (\<forall>s\<in>#la_pool la lv. span_ok os (la_node_id la) w s) \<and>
     spans_apart (la_pool la lv) \<and>
     (\<forall>b\<in>set lv. block_ok (la_node_id la) (w_mem w) b) \<and> distinct (map fst lv) \<and>
     pool_area (la_pool la lv) \<subseteq> mapped w"

lemma pool_area_simps [simp]:
  "pool_area {#} = {}" "pool_area (add_mset s M) = span_area s \<union> pool_area M"
  "pool_area (M + N) = pool_area M \<union> pool_area N"
  by (auto simp: pool_area_def)

lemma spans_apart_empty [simp]: "spans_apart {#}"
  by (simp add: spans_apart_def)

lemma spans_apartD: "spans_apart (add_mset a (add_mset b N)) \<Longrightarrow> span_area a \<inter> span_area b = {}"
  unfolding spans_apart_def by (drule spec, drule spec, drule spec, erule mp) (rule refl)

lemma spans_apart_add: "spans_apart (add_mset s M) \<longleftrightarrow> spans_apart M \<and> span_area s \<inter> pool_area M = {}"
proof
  assume a: "spans_apart (add_mset s M)"
  have "spans_apart M"
    unfolding spans_apart_def
  proof (intro allI impI)
    fix x y N assume "M = add_mset x (add_mset y N)"
    then have "add_mset s M = add_mset x (add_mset y (add_mset s N))" by (simp add: add_mset_commute)
    with a show "span_area x \<inter> span_area y = {}" unfolding spans_apart_def by blast
  qed
  moreover have "span_area s \<inter> span_area t = {}" if "t \<in># M" for t
  proof -
    have "\<exists>N. M = add_mset t N" by (rule multi_member_split [OF that])
    then obtain N where "M = add_mset t N" ..
    with a show ?thesis by (intro spans_apartD [of s t N]) simp
  qed
  ultimately show "spans_apart M \<and> span_area s \<inter> pool_area M = {}" by (auto simp: pool_area_def)
next
  assume a: "spans_apart M \<and> span_area s \<inter> pool_area M = {}"
  show "spans_apart (add_mset s M)"
    unfolding spans_apart_def
  proof (intro allI impI)
    fix x y N assume e: "add_mset s M = add_mset x (add_mset y N)"
    consider "x = s" | "y = s" | "x \<noteq> s" "y \<noteq> s" by blast
    then show "span_area x \<inter> span_area y = {}"
    proof cases
      case 1
      then have "y \<in># M" using e by simp
      with a 1 show ?thesis by (auto simp: pool_area_def)
    next
      case 2
      then have "M = add_mset x N" using e by (simp add: add_mset_commute [of x])
      with a 2 show ?thesis by auto
    next
      case 3
      have "s \<in># add_mset x (add_mset y N)" unfolding e [symmetric] by simp
      with 3 have "s \<in># N" by simp
      then obtain K where "N = add_mset s K" by (blast dest: multi_member_split)
      then have "M = add_mset x (add_mset y K)" using e by (simp add: add_mset_commute)
      with a show ?thesis unfolding spans_apart_def by blast
    qed
  qed
qed

subsection \<open>Legal requests\<close>

text \<open>A request whose total still leaves room for one page below \<open>2 ^ 64\<close>; beyond it the
  rounding of the span size wraps.\<close>

definition large_legal :: "os \<Rightarrow> u64 \<times> u64 \<Rightarrow> bool" where
  "large_legal os = (\<lambda>(sz, alignment).
     unat sz + max (unat alignment) 8 + 32 + unat (page_size os) \<le> 18446744073709551616)"

lemma page_dvd_2_64: "os_ok os \<Longrightarrow> unat (page_size os) dvd 18446744073709551616"
  using dvd_trans [OF os_ok_page_dvd, of os 18446744073709551616] by simp

lemma page_size_for_ok:
  assumes os: "os_ok os" and n: "unat n + unat (page_size os) \<le> 18446744073709551616"
  shows "unat (page_size_for os n) = round_up (unat n) (unat (page_size os))"
    and "unat (page_size_for os n) + unat (page_size os) \<le> 18446744073709551616"
proof -
  show u: "unat (page_size_for os n) = round_up (unat n) (unat (page_size os))"
    unfolding page_size_for_def using n os_ok_page_nz [OF os] by (rule unat_align_up [rotated])
  have "round_up (unat n) (unat (page_size os)) \<le> 18446744073709551616 - unat (page_size os)"
    using n page_dvd_2_64 [OF os] by (intro round_up_least dvd_diff_nat) auto
  then show "unat (page_size_for os n) + unat (page_size os) \<le> 18446744073709551616"
    using n unfolding u by linarith
qed

lemma span_class_size_for_ok:
  assumes os: "os_ok os" and n: "unat n + unat (page_size os) \<le> 18446744073709551616"
    and pos: "n \<noteq> 0"
  shows "unat n \<le> unat (span_class_size_for os n)"
    and "unat (page_size os) dvd unat (span_class_size_for os n)"
    and "span_class_size_for os n \<noteq> 0" and "fits_page os (span_class_size_for os n)"
proof -
  let ?P = "page_size_for os n"
  define c where "c = large_class_size_for ?P"
  note P = page_size_for_ok [OF os n]
  note pg = os_ok_page_ge [OF os] os_ok_page_le [OF os]
  have ge: "unat n \<le> unat ?P" unfolding P(1) using pg by (intro round_up_ge) linarith
  have pc: "unat ?P \<le> unat c" using large_class_size_for_ge [of ?P] by (simp add: c_def word_le_nat_alt)
  have cfit: "unat c + unat (page_size os) \<le> 18446744073709551616"
  proof (cases "?P \<le> 2097152")
    case True
    then obtain i where "i < 16" "c = kLargeBinSizes ! i"
      using large_class_size_for_bin [of ?P] unfolding c_def by (metis in_set_conv_nth length_kLargeBinSizes)
    then show ?thesis using unat_kLargeBinSizes [of i] pg by simp
  next
    case False
    then have "c = ?P" using large_class_size_for_huge [of ?P] by (simp add: c_def not_le)
    then show ?thesis using P(2) by simp
  qed
  note C = page_size_for_ok [OF os cfit]
  have eq: "span_class_size_for os n = page_size_for os c"
    by (simp add: span_class_size_for_def Let_def c_def)
  have "unat c \<le> unat (page_size_for os c)" unfolding C(1) using pg by (intro round_up_ge) linarith
  then show le: "unat n \<le> unat (span_class_size_for os n)" using ge pc by (simp add: eq)
  show "unat (page_size os) dvd unat (span_class_size_for os n)" by (simp add: eq C(1))
  show "span_class_size_for os n \<noteq> 0"
  proof
    assume "span_class_size_for os n = 0"
    with le unat_gt_0_u64 [OF pos] show False by simp
  qed
  show "fits_page os (span_class_size_for os n)" using C(2) by (simp add: eq fits_page_def)
qed

lemma large_total:
  assumes os: "os_ok os" and legal: "large_legal os (sz, alignment)"
  defines "a \<equiv> if alignment < 8 then 8 else alignment"
  shows "unat (sz + a + sizeof_BlockHeader) = unat sz + unat a + 32"
    and "\<not> (a > size_max - sizeof_BlockHeader \<or> sz > size_max - a - sizeof_BlockHeader)"
    and "unat (sz + a + sizeof_BlockHeader) + unat (page_size os) \<le> 18446744073709551616"
    and "a \<noteq> 0" and "unat a = max (unat alignment) 8"
proof -
  show ua: "unat a = max (unat alignment) 8" by (auto simp: a_def word_less_nat_alt)
  then show "a \<noteq> 0" by auto
  note pg = os_ok_page_ge [OF os]
  have b: "unat sz + unat a + 32 + unat (page_size os) \<le> 18446744073709551616"
    using legal by (simp add: large_legal_def ua)
  have s1: "unat (sz + a) = unat sz + unat a" using b pg by (intro unat_add_u64) simp
  show t: "unat (sz + a + sizeof_BlockHeader) = unat sz + unat a + 32"
    unfolding sizeof_BlockHeader_def using b pg by (subst unat_plus_numeral) (simp_all add: s1)
  show "unat (sz + a + sizeof_BlockHeader) + unat (page_size os) \<le> 18446744073709551616"
    using b by (simp add: t)
  have m32: "unat (size_max - 32 :: u64) = 18446744073709551583"
    by (subst unat_sub_u64) (simp_all only: unat_size_max, simp_all)
  have m1: "unat (size_max - a :: u64) = 18446744073709551615 - unat a"
    using b pg by (subst unat_sub_u64) (simp_all only: unat_size_max)
  have m2: "unat (size_max - a - 32 :: u64) = 18446744073709551583 - unat a"
    using b pg m1 by (subst unat_sub_u64) simp_all
  show "\<not> (a > size_max - sizeof_BlockHeader \<or> sz > size_max - a - sizeof_BlockHeader)"
    unfolding sizeof_BlockHeader_def word_less_nat_alt m32 m2 using b pg by simp
qed

subsection \<open>The invariant and its environment\<close>

lemma block_area:
  assumes "block_ok node m b" and "b = (p, raw, span, sz)"
  shows "{unat p - 32 ..< unat p + unat sz} \<subseteq> span_area (block_span b)"
  using assms by (auto simp: block_ok_def span_area_def block_span_def bytes_of_def)

lemma block_ok_local:
  assumes ok: "block_ok node m b" and sp: "span_ok os n w (block_span b)"
    and ag: "agree_on {unat (fst b) - 32 ..< unat (fst b)} m m'"
  shows "block_ok node m' b"
proof -
  obtain p raw span sz where b: "b = (p, raw, span, sz)" by (cases b)
  define h where "h = from_user_ptr p"
  have geo: "unat raw + 32 \<le> unat p" "unat p + unat sz \<le> unat raw + unat span"
    "unat raw + unat span \<le> 2 ^ 63"
    using ok sp by (simp_all add: b block_ok_def span_ok_def block_span_def)
  have h: "unat h = unat p - 32" using geo by (simp add: h_def user_ptr_defs unat_sub_u64)
  have hb: "unat h + 65536 < 18446744073709551616" using h geo by simp
  have ag': "agree_on {unat h ..< unat h + 32} m m'" using ag geo h by (simp add: b)
  have "bh_node_id m' h = bh_node_id m h" "bh_size_class m' h = bh_size_class m h"
    "bh_raw_ptr m' h = bh_raw_ptr m h" "bh_total_size m' h = bh_total_size m h"
    unfolding header_field_defs
    by ((rule s32.get_local s64.get_local, rule agree_on_mono [OF ag'], simp add: bh_bytes [OF hb])+)
  then show ?thesis using ok by (simp add: b block_ok_def h_def)
qed

lemma la_pool_split: "b \<in> set lv \<Longrightarrow> la_pool la lv = add_mset (block_span b) (la_pool la (remove1 b lv))"
  by (simp add: la_pool_def image_mset_Diff)

lemma la_inv_span:
  "la_inv os la lv w \<Longrightarrow> b \<in> set lv \<Longrightarrow> span_ok os (la_node_id la) w (block_span b)"
  by (simp add: la_inv_def la_pool_split)

lemma la_inv_block: "la_inv os la lv w \<Longrightarrow> b \<in> set lv \<Longrightarrow> block_ok (la_node_id la) (w_mem w) b"
  by (simp add: la_inv_def)

lemma la_inv_span_pool:
  "la_inv os la lv w \<Longrightarrow> b \<in> set lv \<Longrightarrow> span_area (block_span b) \<subseteq> pool_area (la_pool la lv)"
  by (simp add: la_pool_split)

lemma la_blocks_apart:
  assumes inv: "la_inv os la lv w" and b: "b \<in> set lv" and c: "c \<in> set lv" and ne: "b \<noteq> c"
  shows "span_area (block_span b) \<inter> span_area (block_span c) = {}"
proof -
  have "c \<in> set (remove1 b lv)" using c ne by simp
  then have "span_area (block_span c) \<subseteq> pool_area (la_pool la (remove1 b lv))"
    by (simp add: la_pool_split)
  then show ?thesis using inv by (auto simp: la_inv_def la_pool_split [OF b] spans_apart_add)
qed

lemma la_grants_iff:
  assumes "distinct (map fst lv)"
  shows "la_grants lv p = Some A \<longleftrightarrow> (\<exists>raw span sz. (p, raw, span, sz) \<in> set lv \<and> A = bytes_of p (unat sz))"
proof -
  have "map fst (map (\<lambda>(p, raw, span, sz). (p, bytes_of p (unat sz))) lv) = map fst lv" by auto
  with assms have d: "distinct (map fst (map (\<lambda>(p, raw, span, sz). (p, bytes_of p (unat sz))) lv))"
    by (simp only:)
  show ?thesis unfolding la_grants_def map_of_eq_Some_iff [OF d] by force
qed

lemma la_grants_None: "la_grants lv p = None \<longleftrightarrow> p \<notin> fst ` set lv"
  by (force simp: la_grants_def map_of_eq_None_iff image_def)

lemma la_grants_Cons: "la_grants ((p, raw, span, sz) # lv) = (la_grants lv)(p \<mapsto> bytes_of p (unat sz))"
  by (simp add: la_grants_def)

lemma la_grants_remove1:
  "distinct (map fst lv) \<Longrightarrow> b \<in> set lv \<Longrightarrow> la_grants (remove1 b lv) = (la_grants lv)(fst b := None)"
proof (induction lv)
  case Nil
  then show ?case by simp
next
  case (Cons c lv)
  obtain p raw span sz where c: "c = (p, raw, span, sz)" by (cases c)
  show ?case
  proof (cases "b = c")
    case True
    have "la_grants lv p = None" using Cons.prems(1) by (simp add: la_grants_None c)
    then show ?thesis using True by (auto simp: c la_grants_Cons fun_eq_iff)
  next
    case False
    then have "fst b \<noteq> p" using Cons.prems by (force simp: c image_def)
    then show ?thesis using Cons False by (auto simp: c la_grants_Cons fun_eq_iff)
  qed
qed

lemma distinct_fst_remove1: "distinct (map fst lv) \<Longrightarrow> distinct (map fst (remove1 b lv))"
  by (induction lv) (auto dest: notin_set_remove1 simp: image_iff dest!: set_remove1_subset [THEN subsetD])

lemma la_inv_frame:
  assumes inv: "la_inv os la lv w" and fs: "frame_step F w F' w'"
    and dj: "pool_area (la_pool la lv) \<inter> F = {}"
  shows "la_inv os la lv w'"
proof -
  have sub: "pool_area (la_pool la lv) \<subseteq> mapped w" using inv by (simp add: la_inv_def)
  note K = frame_step_mem [OF dj sub fs]
  have in_pool: "span_area s \<subseteq> pool_area (la_pool la lv)" if "s \<in># la_pool la lv" for s
    using that by (auto simp: pool_area_def)
  have sp: "span_ok os (la_node_id la) w' s" if s: "s \<in># la_pool la lv" for s
  proof -
    have "span_ok os (la_node_id la) w s" using inv s by (simp add: la_inv_def)
    moreover have "\<forall>x\<in>span_area s. w_policy w' x = w_policy w x" using K in_pool [OF s] by blast
    ultimately show ?thesis by (auto simp: span_ok_def span_area_def split: prod.splits)
  qed
  have "block_ok (la_node_id la) (w_mem w') b" if b: "b \<in> set lv" for b
  proof -
    obtain p raw span sz where eq: "b = (p, raw, span, sz)" by (cases b)
    have "{unat p - 32 ..< unat p} \<subseteq> {unat p - 32 ..< unat p + unat sz}" by auto
    also have "\<dots> \<subseteq> pool_area (la_pool la lv)"
      using block_area [OF la_inv_block [OF inv b] eq] la_inv_span_pool [OF inv b] by (rule order_trans)
    finally show ?thesis
      using K by (intro block_ok_local [OF la_inv_block [OF inv b] la_inv_span [OF inv b]])
        (auto simp: eq intro: agree_on_mono)
  qed
  then show ?thesis using inv sp K by (simp add: la_inv_def)
qed

lemma la_inv_write:
  assumes inv: "la_inv os la lv w" and ag: "agree_on (- granted (la_grants lv)) (w_mem w) m'"
  shows "la_inv os la lv (w\<lparr>w_mem := m'\<rparr>)"
proof -
  have d: "distinct (map fst lv)" using inv by (simp add: la_inv_def)
  have "block_ok (la_node_id la) m' b" if b: "b \<in> set lv" for b
  proof -
    obtain p raw span sz where eq: "b = (p, raw, span, sz)" by (cases b)
    have "{unat p - 32 ..< unat p} \<inter> granted (la_grants lv) = {}"
    proof -
      have "{unat p - 32 ..< unat p} \<inter> A = {}" if g: "la_grants lv q = Some A" for q A
      proof -
        obtain raw' span' sz' where c: "(q, raw', span', sz') \<in> set lv" "A = bytes_of q (unat sz')"
          using iffD1 [OF la_grants_iff [OF d] g] by (elim exE conjE)
        show ?thesis
        proof (cases "b = (q, raw', span', sz')")
          case True
          then show ?thesis by (auto simp: eq c(2) bytes_of_def)
        next
          case False
          from la_blocks_apart [OF inv b c(1) False] block_area [OF la_inv_block [OF inv b] eq]
            block_area [OF la_inv_block [OF inv c(1)] refl]
          show ?thesis by (fastforce simp: c(2) bytes_of_def)
        qed
      qed
      then show ?thesis by (auto simp: granted_def ran_def)
    qed
    then show ?thesis
      by (intro block_ok_local [OF la_inv_block [OF inv b] la_inv_span [OF inv b]] agree_on_mono [OF ag])
        (auto simp: eq)
  qed
  then show ?thesis using inv by (simp add: la_inv_def span_ok_def)
qed

subsection \<open>Allocation\<close>

text \<open>Between \<open>acquire_span\<close> and the write of the header the span is held by the caller.\<close>

definition la_held :: "os \<Rightarrow> large_alloc \<Rightarrow> la_block list \<Rightarrow> cached_span \<Rightarrow> world \<Rightarrow> bool" where
  "la_held os la lv s w \<longleftrightarrow> la_inv os la lv w \<and> span_ok os (la_node_id la) w s \<and>
     span_area s \<inter> pool_area (la_pool la lv) = {} \<and> span_area s \<subseteq> mapped w"

lemma la_place_ok:
  assumes held: "la_held os la lv (raw, span) w" and al: "alignment \<noteq> 0"
    and fits: "unat sz + unat alignment + 32 \<le> unat span"
    and res: "la_allocate_from_span (la_node_id la) sz alignment span raw (w_mem w) = (r, m')"
  obtains p where "r = Inr p" and "la_inv os la ((p, raw, span, sz) # lv) (w\<lparr>w_mem := m'\<rparr>)"
    and "unat alignment dvd unat p" and "p \<noteq> nullptr" and "p \<notin> fst ` set lv"
    and "bh_size m' (from_user_ptr p) = sz"
    and "frame_step (span_area (raw, span)) w (span_area (raw, span)) (w\<lparr>w_mem := m'\<rparr>)"
proof -
  have inv: "la_inv os la lv w" and sp: "span_ok os (la_node_id la) w (raw, span)"
    and dj: "span_area (raw, span) \<inter> pool_area (la_pool la lv) = {}"
    and sub: "span_area (raw, span) \<subseteq> mapped w" using held by (simp_all add: la_held_def)
  have place: "unat raw + unat span \<le> 2 ^ 63" using sp by (simp add: span_ok_def)
  obtain p where r: "r = Inr p" and up: "unat p = round_up (unat raw + 32) (unat alignment)"
    and lo: "unat raw + 32 \<le> unat p" and hi: "unat p + unat sz \<le> unat raw + unat span"
    and h: "unat (from_user_ptr p) = unat p - 32"
    and f: "bh_node_id m' (from_user_ptr p) = of_int (la_node_id la)"
      "bh_size_class m' (from_user_ptr p) = 0" "bh_size m' (from_user_ptr p) = sz"
      "bh_raw_ptr m' (from_user_ptr p) = raw" "bh_total_size m' (from_user_ptr p) = span"
    and ag: "agree_on (- {unat p - 32 ..< unat p}) (w_mem w) m'"
    using la_allocate_from_span_ok [OF place al fits res] by metis
  let ?w = "w\<lparr>w_mem := m'\<rparr>" and ?b = "(p, raw, span, sz)"
  have hs: "{unat p - 32 ..< unat p} \<subseteq> span_area (raw, span)"
    using lo hi by (auto simp: span_area_def bytes_of_def)
  have out: "agree_on (- span_area (raw, span)) (w_mem w) m'"
    using hs by (intro agree_on_mono [OF ag]) auto
  have fs: "frame_step (span_area (raw, span)) w (span_area (raw, span)) ?w"
    by (rule frame_step_write [OF sub out])
  have inv': "la_inv os la lv ?w" using dj by (intro la_inv_frame [OF inv fs]) auto
  have bok: "block_ok (la_node_id la) m' ?b" using lo hi f by (simp add: block_ok_def)
  have new: "p \<notin> fst ` set lv"
  proof
    assume "p \<in> fst ` set lv"
    then obtain raw' span' sz' where c: "(p, raw', span', sz') \<in> set lv" by auto
    have "{unat p - 32 ..< unat p + unat sz'} \<subseteq> pool_area (la_pool la lv)"
      using block_area [OF la_inv_block [OF inv c] refl] la_inv_span_pool [OF inv c] by (rule order_trans)
    moreover have "unat p - 32 \<in> {unat p - 32 ..< unat p + unat sz'}" using lo by simp
    moreover have "unat p - 32 \<in> span_area (raw, span)" using hs lo by auto
    ultimately show False using dj by blast
  qed
  have pool: "la_pool la (?b # lv) = add_mset (raw, span) (la_pool la lv)"
    by (simp add: la_pool_def block_span_def)
  have "la_inv os la (?b # lv) ?w"
    using inv' bok new sp dj sub by (auto simp: la_inv_def pool spans_apart_add span_ok_def mapped_def)
  moreover have "p \<noteq> nullptr" using lo by auto
  moreover have "unat alignment dvd unat p" by (simp add: up)
  ultimately show thesis using that r new f fs by blast
qed

text \<open>The span that a legal request acquires is large enough.\<close>

lemma la_acquire_held:
  assumes os: "os_ok os" and inv: "la_inv os la lv w"
    and sz: "sz \<noteq> 0" "unat (page_size os) dvd unat sz" "fits_page os sz"
    and acq: "la_acquire_span os sz la w = (Inr s, la1, w1)"
  shows "la_held os la1 lv s w1" and "unat sz \<le> unat (snd s)" and "la_node_id la1 = la_node_id la"
    and "frame_step (pool_area (la_pool la lv)) w (pool_area (add_mset s (la_pool la1 lv))) w1"
    and "agree_on (pool_area (la_pool la lv)) (w_mem w) (w_mem w1)"
proof -
  have wf: "la_wf la" using inv by (simp add: la_inv_def)
  have "la_held os la1 lv s w1 \<and> unat sz \<le> unat (snd s) \<and> la_node_id la1 = la_node_id la \<and>
    frame_step (pool_area (la_pool la lv)) w (pool_area (add_mset s (la_pool la1 lv))) w1 \<and>
    agree_on (pool_area (la_pool la lv)) (w_mem w) (w_mem w1)"
  proof (cases rule: la_acquire_span_cases [OF wf acq])
    case (1 span i j)
    have s: "s = span" using 1(1) by simp
    have pool: "la_pool la lv = add_mset s (la_pool la1 lv)" using 1(4) by (simp add: la_pool_def s)
    have "unat (kLargeBinSizes ! i) \<le> unat (kLargeBinSizes ! j)"
    proof (cases "i = j")
      case False
      have "sorted_wrt (<) (map unat kLargeBinSizes)" by (simp add: kLargeBinSizes_list)
      from sorted_wrt_nth_less [OF this, of i j] False 1(7,9) show ?thesis by simp
    qed simp
    then have le: "unat sz \<le> unat (snd s)" using 1(6,10) by (simp add: s)
    have "la_held os la1 lv s w"
      using inv 1(3,5) unfolding la_held_def la_inv_def pool by (auto simp: spans_apart_add)
    then show ?thesis
      using le inv 1(2,5) pool by (auto simp: frame_step_refl la_inv_def)
  next
    case (2 raw)
    have s: "s = (raw, sz)" using 2(1) by simp
    note V = vm_alloc_on_node_Inr [OF os sz(1,3) 2(3)]
    have sb: "span_bytes os sz = unat sz"
      using sz(2) os_ok_page_ge [OF os] by (simp add: span_bytes_def round_up_id)
    have area: "bytes_of raw (span_bytes os sz) = span_area s" by (simp add: s span_area_def sb)
    have inv1: "la_inv os la lv w1" by (rule la_inv_frame [OF inv V(1)]) simp
    have sub: "pool_area (la_pool la lv) \<subseteq> mapped w" using inv by (simp add: la_inv_def)
    note K = frame_step_mem [OF Int_empty_right sub V(1)]
    have "span_ok os (la_node_id la) w1 s"
      using V sz by (simp add: s span_ok_def sb)
    then have "la_held os la lv s w1"
      using inv1 K V(1) by (auto simp: la_held_def area frame_step_def)
    moreover have "frame_step ({} \<union> pool_area (la_pool la lv)) w
        (span_area s \<union> pool_area (la_pool la lv)) w1"
      using frame_step_extend [OF V(1) sub Int_empty_right] by (simp add: area)
    ultimately show ?thesis using K 2(2) by (simp add: s)
  next
    case (3 e)
    then show ?thesis by simp
  qed
  then show "la_held os la1 lv s w1" and "unat sz \<le> unat (snd s)" and "la_node_id la1 = la_node_id la"
    and "frame_step (pool_area (la_pool la lv)) w (pool_area (add_mset s (la_pool la1 lv))) w1"
    and "agree_on (pool_area (la_pool la lv)) (w_mem w) (w_mem w1)" by auto
qed

lemma la_granted_pool:
  assumes inv: "la_inv os la lv w"
  shows "granted (la_grants lv) \<subseteq> pool_area (la_pool la lv)"
proof -
  have d: "distinct (map fst lv)" using inv by (simp add: la_inv_def)
  have "A \<subseteq> pool_area (la_pool la lv)" if g: "la_grants lv p = Some A" for p A
  proof -
    obtain raw span sz where c: "(p, raw, span, sz) \<in> set lv" "A = bytes_of p (unat sz)"
      using iffD1 [OF la_grants_iff [OF d] g] by (elim exE conjE)
    have "A \<subseteq> {unat p - 32 ..< unat p + unat sz}" by (auto simp: c(2) bytes_of_def)
    also have "\<dots> \<subseteq> pool_area (la_pool la lv)"
      using block_area [OF la_inv_block [OF inv c(1)] refl] la_inv_span_pool [OF inv c(1)] by (rule order_trans)
    finally show ?thesis .
  qed
  then show ?thesis by (auto simp: granted_def ran_def)
qed

lemma la_allocate_Inr:
  assumes os: "os_ok os" and inv: "la_inv os la lv w" and legal: "large_legal os (sz, alignment)"
    and al: "la_allocate os sz alignment la w = (Inr p, la', w')"
  shows "\<exists>raw span. la_inv os la' ((p, raw, span, sz) # lv) w' \<and>
      frame_step (pool_area (la_pool la lv)) w (pool_area (la_pool la' ((p, raw, span, sz) # lv))) w'"
    and "agree_on (granted (la_grants lv)) (w_mem w) (w_mem w')"
    and "p \<noteq> nullptr" and "p \<notin> fst ` set lv" and "max (unat alignment) 8 dvd unat p"
    and "la_node_id la' = la_node_id la" and "bh_size (w_mem w') (from_user_ptr p) = sz"
proof -
  define a where "a = (if alignment < 8 then 8 else alignment)"
  define total where "total = sz + a + sizeof_BlockHeader"
  define ss where "ss = span_class_size_for os total"
  note T = large_total [OF os legal, folded a_def, folded total_def]
  have tnz: "total \<noteq> 0" using T(1) by auto
  note S = span_class_size_for_ok [OF os T(3) tnz, folded ss_def]
  obtain s la1 w1 where acq: "la_acquire_span os ss la w = (Inr s, la1, w1)"
    and "(Inr p, la', w') = (let (r, m) = la_allocate_from_span (la_node_id la) sz a (snd s) (fst s) (w_mem w1)
        in (r, la1, w1\<lparr>w_mem := m\<rparr>))"
    using al T(2) by (auto simp: la_allocate_def a_def [symmetric] total_def [symmetric] ss_def [symmetric] Let_def
        split: prod.splits sum.splits)
  then obtain m where pl: "la_allocate_from_span (la_node_id la) sz a (snd s) (fst s) (w_mem w1) = (Inr p, m)"
    and eq: "la' = la1" "w' = w1\<lparr>w_mem := m\<rparr>" by (auto split: prod.splits)
  note A = la_acquire_held [OF os inv S(3,2,4) acq]
  obtain raw span where s: "s = (raw, span)" by (cases s)
  have fits: "unat sz + unat a + 32 \<le> unat span" using T(1) S(1) A(2) by (simp add: s)
  have pl': "la_allocate_from_span (la_node_id la1) sz a span raw (w_mem w1) = (Inr p, m)"
    using pl A(3) by (simp add: s)
  obtain q where q: "Inr p = (Inr q :: ptr res)" and P: "la_inv os la1 ((q, raw, span, sz) # lv) (w1\<lparr>w_mem := m\<rparr>)"
    "unat a dvd unat q" "q \<noteq> nullptr" "q \<notin> fst ` set lv" "bh_size m (from_user_ptr q) = sz"
    "frame_step (span_area (raw, span)) w1 (span_area (raw, span)) (w1\<lparr>w_mem := m\<rparr>)"
    using la_place_ok [OF A(1) [unfolded s] T(4) fits pl'] by metis
  have pool: "la_pool la1 ((p, raw, span, sz) # lv) = add_mset s (la_pool la1 lv)"
    by (simp add: la_pool_def block_span_def s)
  have pq: "p = q" using q by simp
  have held: "la_held os la1 lv s w1" by (rule A(1))
  have sub: "pool_area (la_pool la1 lv) \<subseteq> mapped w1" and dj: "pool_area (la_pool la1 lv) \<inter> span_area s = {}"
    using held by (auto simp: la_held_def la_inv_def)
  have "frame_step (pool_area (add_mset s (la_pool la1 lv))) w1 (pool_area (add_mset s (la_pool la1 lv))) w'"
    using frame_step_extend [OF P(6) [folded s] sub dj] by (simp add: eq)
  with A(4) have "frame_step (pool_area (la_pool la lv)) w (pool_area (add_mset s (la_pool la1 lv))) w'"
    by (rule frame_step_trans)
  then show "\<exists>raw span. la_inv os la' ((p, raw, span, sz) # lv) w' \<and>
      frame_step (pool_area (la_pool la lv)) w (pool_area (la_pool la' ((p, raw, span, sz) # lv))) w'"
    using P(1) pool pq by (intro exI [of _ raw] exI [of _ span]) (simp add: eq)
  have "agree_on (granted (la_grants lv)) (w_mem w) (w_mem w1)"
    by (rule agree_on_mono [OF A(5) la_granted_pool [OF inv]])
  moreover have "agree_on (granted (la_grants lv)) (w_mem w1) (w_mem w')"
  proof -
    have i1: "la_inv os la1 lv w1" using held by (simp add: la_held_def)
    have "pool_area (la_pool la1 lv) \<inter> span_area (raw, span) = {}" using dj by (simp add: s)
    from frame_step_mem [OF this sub P(6)] have "agree_on (pool_area (la_pool la1 lv)) (w_mem w1) (w_mem w')"
      by (simp add: eq)
    then show ?thesis by (rule agree_on_mono [OF _ la_granted_pool [OF i1]])
  qed
  ultimately show "agree_on (granted (la_grants lv)) (w_mem w) (w_mem w')" by (rule agree_on_trans)
  show "p \<noteq> nullptr" "p \<notin> fst ` set lv" "max (unat alignment) 8 dvd unat p"
    using P pq T(5) by simp_all
  show "la_node_id la' = la_node_id la" using A(3) by (simp add: eq)
  show "bh_size (w_mem w') (from_user_ptr p) = sz" using P(5) pq by (simp add: eq)
qed

text \<open>A legal request fails only when the kernel does, and then nothing changes.\<close>

lemma la_allocate_Inl:
  assumes os: "os_ok os" and inv: "la_inv os la lv w" and legal: "large_legal os (sz, alignment)"
    and al: "la_allocate os sz alignment la w = (Inl e, la', w')"
  shows "e = Bad_alloc" and "la' = la" and "frame_step {} w {} w'"
proof -
  define a where "a = (if alignment < 8 then 8 else alignment)"
  define total where "total = sz + a + sizeof_BlockHeader"
  define ss where "ss = span_class_size_for os total"
  note T = large_total [OF os legal, folded a_def, folded total_def]
  have tnz: "total \<noteq> 0" using T(1) by auto
  note S = span_class_size_for_ok [OF os T(3) tnz, folded ss_def]
  have wf: "la_wf la" using inv by (simp add: la_inv_def)
  obtain x la1 w1 where acq: "la_acquire_span os ss la w = (x, la1, w1)"
    by (cases "la_acquire_span os ss la w")
  have "e = Bad_alloc \<and> la' = la \<and> frame_step {} w {} w'"
  proof (cases x)
    case (Inr s)
    note A = la_acquire_held [OF os inv S(3,2,4) acq [unfolded Inr]]
    obtain raw span where s: "s = (raw, span)" by (cases s)
    have fits: "unat sz + unat a + 32 \<le> unat span" using T(1) S(1) A(2) by (simp add: s)
    obtain r m where pl: "la_allocate_from_span (la_node_id la1) sz a span raw (w_mem w1) = (r, m)"
      by fastforce
    have "\<exists>q. r = Inr q" using la_place_ok [OF A(1) [unfolded s] T(4) fits pl] by metis
    then show ?thesis
      using al T(2) acq pl A(3) unfolding Inr s
      by (auto simp: la_allocate_def a_def [symmetric] total_def [symmetric] ss_def [symmetric] Let_def)
  next
    case (Inl e')
    then have e: "e = e'" "la' = la1" "w' = w1"
      using al T(2) acq by (simp_all add: la_allocate_def a_def [symmetric] total_def [symmetric]
          ss_def [symmetric] Let_def)
    show ?thesis
    proof (cases rule: la_acquire_span_cases [OF wf acq])
      case (3 e'')
      with vm_alloc_on_node_Inl [OF os S(3,4) 3(3)] Inl e show ?thesis by simp
    qed (use Inl in simp_all)
  qed
  then show "e = Bad_alloc" and "la' = la" and "frame_step {} w {} w'" by auto
qed

lemma la_idle:
  assumes inv: "la_inv os la lv w" and fs: "frame_step {} w {} w'"
  shows "la_inv os la lv w'" and "frame_step (pool_area (la_pool la lv)) w (pool_area (la_pool la lv)) w'"
    and "agree_on (pool_area (la_pool la lv)) (w_mem w) (w_mem w')"
proof -
  have sub: "pool_area (la_pool la lv) \<subseteq> mapped w" using inv by (simp add: la_inv_def)
  show "la_inv os la lv w'" by (rule la_inv_frame [OF inv fs Int_empty_right])
  show "frame_step (pool_area (la_pool la lv)) w (pool_area (la_pool la lv)) w'"
    using frame_step_extend [OF fs sub Int_empty_right] by simp
  show "agree_on (pool_area (la_pool la lv)) (w_mem w) (w_mem w')"
    using frame_step_mem [OF Int_empty_right sub fs] by simp
qed

subsection \<open>Deallocation\<close>

lemma la_deallocate_ok:
  assumes os: "os_ok os" and inv: "la_inv os la lv w" and b: "b \<in> set lv"
    and de: "la_deallocate os (fst b) la w = (la', w')"
  shows "la_inv os la' (remove1 b lv) w'"
    and "frame_step (pool_area (la_pool la lv)) w (pool_area (la_pool la' (remove1 b lv))) w'"
    and "agree_on (pool_area (la_pool la (remove1 b lv))) (w_mem w) (w_mem w')"
    and "la_node_id la' = la_node_id la"
    and "pool_area (la_pool la' (remove1 b lv)) = pool_area (la_pool la lv) \<and> w' = w \<or>
         pool_area (la_pool la' (remove1 b lv)) = pool_area (la_pool la lv) - span_area (block_span b)"
proof -
  obtain p raw span sz where eq: "b = (p, raw, span, sz)" by (cases b)
  have bok: "block_ok (la_node_id la) (w_mem w) b" by (rule la_inv_block [OF inv b])
  have sp: "span_ok os (la_node_id la) w (raw, span)" using la_inv_span [OF inv b] by (simp add: eq block_span_def)
  have bs: "block_span b = (raw, span)" by (simp add: eq block_span_def)
  have pn: "p \<noteq> nullptr"
  proof
    assume "p = nullptr"
    then show False using bok by (simp add: eq block_ok_def)
  qed
  have hdr: "bh_raw_ptr (w_mem w) (from_user_ptr p) = raw" "bh_total_size (w_mem w) (from_user_ptr p) = span"
    using bok by (simp_all add: eq block_ok_def)
  obtain r la1 where rel: "la_release_to_cache raw span la = (r, la1)" by fastforce
  have wf: "la_wf la" using inv by (simp add: la_inv_def)
  note R = la_release_to_cache_ok [OF wf rel]
  have la': "la' = la1" and w': "w' = (if r then w else vm_release os raw span w)"
    using de rel pn hdr by (auto simp: la_deallocate_def eq Let_def split: bool.splits)
  note split = la_pool_split [OF b, of la]
  have d: "distinct (map fst lv)" using inv by (simp add: la_inv_def)
  have apart: "spans_apart (la_pool la (remove1 b lv))"
    "span_area (raw, span) \<inter> pool_area (la_pool la (remove1 b lv)) = {}"
    using inv by (simp_all add: la_inv_def split spans_apart_add bs)
  have sub: "pool_area (la_pool la lv) \<subseteq> mapped w" using inv by (simp add: la_inv_def)
  have rest: "\<forall>c\<in>set (remove1 b lv). block_ok (la_node_id la) (w_mem w) c"
    using inv set_remove1_subset [of b lv] by (auto simp: la_inv_def)
  have "la_inv os la' (remove1 b lv) w' \<and>
    frame_step (pool_area (la_pool la lv)) w (pool_area (la_pool la' (remove1 b lv))) w' \<and>
    agree_on (pool_area (la_pool la (remove1 b lv))) (w_mem w) (w_mem w') \<and>
    (pool_area (la_pool la' (remove1 b lv)) = pool_area (la_pool la lv) \<and> w' = w \<or>
     pool_area (la_pool la' (remove1 b lv)) = pool_area (la_pool la lv) - span_area (block_span b))"
  proof (cases r)
    case True
    then have pool: "la_pool la' (remove1 b lv) = la_pool la lv"
      using R(2) by (simp add: la' split bs) (simp add: la_pool_def)
    have "la_inv os la' (remove1 b lv) w'"
      using inv R(1,4) rest d True distinct_fst_remove1 [OF d] unfolding la_inv_def pool by (simp add: la' w')
    then show ?thesis using True pool sub by (simp add: w' frame_step_refl)
  next
    case False
    then have la: "la' = la" using R(3) la' by simp
    have n: "raw \<noteq> nullptr" "span \<noteq> 0" "unat (page_size os) dvd unat raw" "unat (page_size os) dvd unat span"
      "unat raw + unat span \<le> 2 ^ 63" using sp by (simp_all add: span_ok_def)
    have sb: "span_bytes os span = unat span"
      using n(4) os_ok_page_ge [OF os] by (simp add: span_bytes_def round_up_id)
    have fit: "fits_page os span" using n(5) os_ok_page_le [OF os] by (simp add: fits_page_def)
    have area: "bytes_of raw (span_bytes os span) = span_area (raw, span)" by (simp add: span_area_def sb)
    have "span_area (raw, span) \<subseteq> mapped w" using sub by (auto simp: split bs)
    then have fs: "frame_step (span_area (raw, span)) w {} w'"
      using vm_release_frame [OF os n(1,2) fit n(3), of w] False by (simp add: area w')
    have inv0: "la_inv os la (remove1 b lv) w"
      using inv rest apart(1) sub distinct_fst_remove1 [OF d] by (simp add: la_inv_def split)
    have inv1: "la_inv os la (remove1 b lv) w'" using apart(2) by (intro la_inv_frame [OF inv0 fs]) auto
    have sub0: "pool_area (la_pool la (remove1 b lv)) \<subseteq> mapped w" using sub by (simp add: split)
    have dj: "pool_area (la_pool la (remove1 b lv)) \<inter> span_area (raw, span) = {}" using apart(2) by auto
    have "pool_area (la_pool la lv) - span_area (block_span b) = pool_area (la_pool la (remove1 b lv))"
      using dj by (auto simp: split bs)
    then show ?thesis
      using inv1 frame_step_extend [OF fs sub0 dj] frame_step_mem [OF dj sub0 fs]
      by (simp add: la split bs)
  qed
  then show "la_inv os la' (remove1 b lv) w'"
    and "frame_step (pool_area (la_pool la lv)) w (pool_area (la_pool la' (remove1 b lv))) w'"
    and "agree_on (pool_area (la_pool la (remove1 b lv))) (w_mem w) (w_mem w')"
    and "pool_area (la_pool la' (remove1 b lv)) = pool_area (la_pool la lv) \<and> w' = w \<or>
         pool_area (la_pool la' (remove1 b lv)) = pool_area (la_pool la lv) - span_area (block_span b)"
    by auto
  show "la_node_id la' = la_node_id la" using R(4) by (simp add: la')
qed

subsection \<open>Destruction\<close>

lemma release_spans_frame:
  assumes os: "os_ok os" and "spans_apart (mset ss)" and "\<forall>s\<in>set ss. span_ok os node w s"
    and "pool_area (mset ss) \<subseteq> mapped w"
  shows "frame_step (pool_area (mset ss)) w {}
    (fold (\<lambda>span w. vm_release os (fst span) (snd span) w) ss w)"
  using assms(2-)
proof (induction ss arbitrary: w)
  case Nil
  then show ?case by (simp add: frame_step_refl)
next
  case (Cons s ss)
  obtain raw sz where s: "s = (raw, sz)" by (cases s)
  let ?w1 = "vm_release os raw sz w"
  have n: "raw \<noteq> nullptr" "sz \<noteq> 0" "unat (page_size os) dvd unat raw" "unat (page_size os) dvd unat sz"
    "unat raw + unat sz \<le> 2 ^ 63" using Cons.prems(2) by (auto simp: s span_ok_def)
  have sb: "span_bytes os sz = unat sz"
    using n(4) os_ok_page_ge [OF os] by (simp add: span_bytes_def round_up_id)
  have fit: "fits_page os sz" using n(5) os_ok_page_le [OF os] by (simp add: fits_page_def)
  have sub: "span_area s \<subseteq> mapped w" "pool_area (mset ss) \<subseteq> mapped w" using Cons.prems(3) by auto
  have dj: "pool_area (mset ss) \<inter> span_area s = {}" using Cons.prems(1) by (auto simp: spans_apart_add)
  have fs: "frame_step (span_area s) w {} ?w1"
    using vm_release_frame [OF os n(1,2) fit n(3), of w] sub(1) by (simp add: s span_area_def sb)
  note K = frame_step_mem [OF dj sub(2) fs]
  have "span_ok os node ?w1 t" if t: "t \<in> set ss" for t
  proof -
    have "span_area t \<subseteq> pool_area (mset ss)" using t by (auto simp: pool_area_def)
    then have "\<forall>x\<in>span_area t. w_policy ?w1 x = w_policy w x" using K by blast
    moreover have "span_ok os node w t" using Cons.prems(2) t by simp
    ultimately show ?thesis by (auto simp: span_ok_def span_area_def split: prod.splits)
  qed
  then have IH: "frame_step (pool_area (mset ss)) ?w1 {}
      (fold (\<lambda>span w. vm_release os (fst span) (snd span) w) ss ?w1)"
    using Cons.prems(1) K by (intro Cons.IH) (auto simp: spans_apart_add)
  have "frame_step (pool_area (mset (s # ss))) w (pool_area (mset ss)) ?w1"
    using frame_step_extend [OF fs sub(2) dj] by simp
  then show ?case using IH frame_step_trans by (simp add: s)
qed

lemma la_destroy_concat:
  "la_destroy os la w =
     fold (\<lambda>span w. vm_release os (fst span) (snd span) w) (concat (map bin_spans (la_bins la))) w"
proof -
  have "fold (\<lambda>bin w. fold f (bin_spans bin) w) bins w = fold f (concat (map bin_spans bins)) w"
    for f :: "cached_span \<Rightarrow> world \<Rightarrow> world" and bins w
    by (induction bins arbitrary: w) auto
  then show ?thesis by (simp add: la_destroy_def)
qed

text \<open>The destructor unmaps exactly the cached spans: blocks still in use stay mapped.\<close>

lemma la_destroy_frame:
  assumes os: "os_ok os" and inv: "la_inv os la lv w"
  shows "frame_step (pool_area (la_cached la)) w {} (la_destroy os la w)"
proof -
  let ?ss = "concat (map bin_spans (la_bins la))"
  have m: "mset ?ss = la_cached la" by (simp only: la_cached_def)
  have "spans_apart (la_cached la)"
  proof -
    have "spans_apart (M + N) \<Longrightarrow> spans_apart N" for M N
      by (induction M) (auto simp: spans_apart_add)
    moreover have "spans_apart (la_pool la lv)" using inv by (simp add: la_inv_def)
    ultimately show ?thesis unfolding la_pool_def by blast
  qed
  moreover have "\<forall>s\<in>set ?ss. span_ok os (la_node_id la) w s"
  proof
    fix s assume "s \<in> set ?ss"
    then have "s \<in># la_cached la" by (simp only: m [symmetric] set_mset_mset)
    then show "span_ok os (la_node_id la) w s" using inv by (simp add: la_inv_def la_pool_def)
  qed
  moreover have "pool_area (la_cached la) \<subseteq> mapped w" using inv by (simp add: la_inv_def la_pool_def)
  ultimately have "frame_step (pool_area (mset ?ss)) w {} (la_destroy os la w)"
    unfolding la_destroy_concat by (intro release_spans_frame [OF os]) (simp_all only: m)
  then show ?thesis by (simp only: m)
qed

subsection \<open>The allocator as an allocator\<close>

definition la_owns :: "os \<Rightarrow> large_alloc \<Rightarrow> world \<Rightarrow> nat set \<Rightarrow> grants \<Rightarrow> bool" where
  "la_owns os la w F U \<longleftrightarrow> os_ok os \<and>
     (\<exists>lv. la_inv os la lv w \<and> F = pool_area (la_pool la lv) \<and> U = la_grants lv)"

definition la_alloc_req ::
  "os \<Rightarrow> u64 \<times> u64 \<Rightarrow> large_alloc \<Rightarrow> world \<Rightarrow> (ptr res \<times> large_alloc \<times> world) option" where
  "la_alloc_req os r la w = Some (la_allocate os (fst r) (snd r) la w)"

definition la_free_ptr :: "os \<Rightarrow> ptr \<Rightarrow> large_alloc \<Rightarrow> world \<Rightarrow> (unit res \<times> large_alloc \<times> world) option" where
  "la_free_ptr os p la w = (let (la', w') = la_deallocate os p la w in Some (Inr (), la', w'))"

lemma la_new_inv:
  "la_inv os (la_new node ms mb sync) [] w" "la_grants [] = Map.empty"
  "la_pool (la_new node ms mb sync) [] = {#}"
  by (simp_all add: la_inv_def la_pool_def la_grants_def)

interpretation laa: allocator "la_owns os" "la_alloc_req os" "la_free_ptr os"
    "\<lambda>la (sz, alignment) p. bytes_of p (unat sz)" "large_legal os" for os
proof unfold_locales
  fix la w F U
  assume "la_owns os la w F U"
  then obtain lv where os: "os_ok os" and inv: "la_inv os la lv w" and F: "F = pool_area (la_pool la lv)"
    and U: "U = la_grants lv" by (auto simp: la_owns_def)
  have d: "distinct (map fst lv)" using inv by (simp add: la_inv_def)
  note gi = la_grants_iff [OF d]
  show "F \<subseteq> mapped w" using inv by (simp add: F la_inv_def)
  show "A \<subseteq> F \<and> p \<noteq> nullptr" if g: "U p = Some A" for p A
  proof -
    have "A \<subseteq> F" using g la_granted_pool [OF inv] granted_part [of U p A] by (auto simp: F U)
    moreover have "p \<noteq> nullptr"
    proof
      assume z: "p = nullptr"
      obtain raw span sz where "(p, raw, span, sz) \<in> set lv"
        using iffD1 [OF gi g [unfolded U]] by (elim exE conjE)
      then show False using la_inv_block [OF inv] z by (force simp: block_ok_def)
    qed
    ultimately show ?thesis by simp
  qed
  show "A \<inter> B = {}" if g: "U p = Some A" "U q = Some B" and ne: "p \<noteq> q" for p q A B
  proof -
    obtain r s z where b: "(p, r, s, z) \<in> set lv" "A = bytes_of p (unat z)"
      using iffD1 [OF gi g(1) [unfolded U]] by (elim exE conjE)
    obtain r' s' z' where c: "(q, r', s', z') \<in> set lv" "B = bytes_of q (unat z')"
      using iffD1 [OF gi g(2) [unfolded U]] by (elim exE conjE)
    have "A \<subseteq> {unat p - 32 ..< unat p + unat z}" "B \<subseteq> {unat q - 32 ..< unat q + unat z'}"
      by (auto simp: b(2) c(2) bytes_of_def)
    moreover have "(p, r, s, z) \<noteq> (q, r', s', z')" using ne by simp
    ultimately show ?thesis
      using la_blocks_apart [OF inv b(1) c(1)] block_area [OF la_inv_block [OF inv b(1)] refl]
        block_area [OF la_inv_block [OF inv c(1)] refl] by blast
  qed
  show "la_owns os la w' F U" if fs: "frame_step G w G' w'" and dj: "F \<inter> G = {}" for G w' G'
    using la_inv_frame [OF inv fs] dj os by (auto simp: la_owns_def F U)
  show "la_owns os la (w\<lparr>w_mem := m'\<rparr>) F U" if "agree_on (- granted U) (w_mem w) m'" for m'
    using la_inv_write [OF inv, of m'] that os by (auto simp: la_owns_def F U)
  show "U p = None \<and> agree_on (granted U) (w_mem w) (w_mem w') \<and>
      (\<exists>F'. la_owns os la' w' F' (U(p \<mapsto> (case r of (sz, alignment) \<Rightarrow> \<lambda>p. bytes_of p (unat sz)) p)) \<and>
        frame_step F w F' w')"
    if lg: "large_legal os r" and al: "la_alloc_req os r la w = Some (Inr p, la', w')" for r p la' w'
  proof -
    obtain sz a where r: "r = (sz, a)" by (cases r)
    have al': "la_allocate os sz a la w = (Inr p, la', w')" using al by (simp add: r la_alloc_req_def)
    note A = la_allocate_Inr [OF os inv lg [unfolded r] al']
    obtain raw span where B: "la_inv os la' ((p, raw, span, sz) # lv) w'"
      "frame_step (pool_area (la_pool la lv)) w (pool_area (la_pool la' ((p, raw, span, sz) # lv))) w'"
      using A(1) by (elim exE conjE)
    have "la_owns os la' w' (pool_area (la_pool la' ((p, raw, span, sz) # lv)))
        (U(p \<mapsto> bytes_of p (unat sz)))"
      using B(1) os la_grants_Cons [of p raw span sz lv] unfolding la_owns_def U by metis
    then show ?thesis using A(2,4) B(2) by (auto simp: U F r la_grants_None)
  qed
  show "agree_on (granted U) (w_mem w) (w_mem w') \<and> (\<exists>F'. la_owns os la' w' F' U \<and> frame_step F w F' w')"
    if lg: "large_legal os r" and al: "la_alloc_req os r la w = Some (Inl e, la', w')" for r e la' w'
  proof -
    obtain sz a where r: "r = (sz, a)" by (cases r)
    have al': "la_allocate os sz a la w = (Inl e, la', w')" using al by (simp add: r la_alloc_req_def)
    note A = la_allocate_Inl [OF os inv lg [unfolded r] al']
    note I = la_idle [OF inv A(3)]
    show ?thesis
      using I os A(2) agree_on_mono [OF I(3) la_granted_pool [OF inv]] by (auto simp: la_owns_def U F)
  qed
  show "x = Inr () \<and> agree_on (granted (U(p := None))) (w_mem w) (w_mem w') \<and>
      (\<exists>F'. la_owns os la' w' F' (U(p := None)) \<and> frame_step F w F' w')"
    if p: "U p \<noteq> None" and de: "la_free_ptr os p la w = Some (x, la', w')" for p x la' w'
  proof -
    obtain b where b: "b \<in> set lv" "fst b = p" using p by (auto simp: U la_grants_None)
    have de': "la_deallocate os (fst b) la w = (la', w')" and x: "x = Inr ()"
      using de by (auto simp: la_free_ptr_def b(2) split: prod.splits)
    note A = la_deallocate_ok [OF os inv b(1) de']
    have g: "U(p := None) = la_grants (remove1 b lv)"
      using la_grants_remove1 [OF d b(1)] by (simp add: U b(2))
    have inv0: "granted (la_grants (remove1 b lv)) \<subseteq> pool_area (la_pool la (remove1 b lv))"
    proof -
      have "la_inv os la (remove1 b lv) w"
        using inv distinct_fst_remove1 [OF d] set_remove1_subset [of b lv]
        by (auto simp: la_inv_def la_pool_split [OF b(1)] spans_apart_add)
      then show ?thesis by (rule la_granted_pool)
    qed
    have "la_owns os la' w' (pool_area (la_pool la' (remove1 b lv))) (U(p := None))"
      using A(1) os by (auto simp: la_owns_def g)
    then show ?thesis
      using A(2) x agree_on_mono [OF A(3) inv0] by (auto simp: F g)
  qed
qed (auto simp: la_alloc_req_def la_free_ptr_def split: prod.splits)

subsection \<open>Requests close to the top of the address space\<close>

text \<open>
  A request that passes the guard of \<open>allocate\<close> but is not legal: the rounding of its total
  wraps to 0, so the span asked for is the smallest class, and the sum in the containment
  check of \<open>allocate_from_span\<close> wraps as well.
\<close>

lemma span_class_size_for_wraps:
  assumes os: "os_ok os" and big: "18446744073709551616 < unat n + unat (page_size os)"
  shows "span_class_size_for os n = page_size_for os 8192"
  using align_up_wraps [OF os_ok_page_nz [OF os] big]
  by (simp add: span_class_size_for_def page_size_for_def large_class_size_for_def)

lemma la_allocate_wraps:
  assumes os: "os_ok os" and al: "8 \<le> unat alignment" "unat alignment \<le> 4096"
    and guard: "unat sz + unat alignment + 32 < 18446744073709551616"
    and big: "18446744073709551616 < unat sz + unat alignment + 32 + unat (page_size os)"
    and acq: "la_acquire_span os (page_size_for os 8192) la w = (Inr (raw, span), la1, w1)"
    and sp: "span_ok os (la_node_id la) w1 (raw, span)" "8192 \<le> unat span" "131072 \<le> unat raw"
  shows "\<exists>p m. la_allocate os sz alignment la w = (Inr p, la1, w1\<lparr>w_mem := m\<rparr>) \<and>
    bh_raw_ptr m (from_user_ptr p) = raw \<and> bh_total_size m (from_user_ptr p) = span"
proof -
  note pg = os_ok_page_le [OF os]
  define total where "total = sz + alignment + sizeof_BlockHeader"
  have a: "\<not> alignment < 8" using al by (simp add: word_less_nat_alt)
  have s1: "unat (sz + alignment) = unat sz + unat alignment" using guard by (intro unat_add_u64) simp
  have t: "unat total = unat sz + unat alignment + 32"
    unfolding total_def sizeof_BlockHeader_def using guard by (subst unat_plus_numeral) (simp_all add: s1)
  have m32: "unat (size_max - 32 :: u64) = 18446744073709551583"
    by (subst unat_sub_u64) (simp_all only: unat_size_max, simp_all)
  have m1: "unat (size_max - alignment :: u64) = 18446744073709551615 - unat alignment"
    using al by (subst unat_sub_u64) (simp_all only: unat_size_max)
  have m2: "unat (size_max - alignment - 32 :: u64) = 18446744073709551583 - unat alignment"
    using al m1 by (subst unat_sub_u64) simp_all
  have g: "\<not> (alignment > size_max - sizeof_BlockHeader \<or> sz > size_max - alignment - sizeof_BlockHeader)"
    unfolding sizeof_BlockHeader_def word_less_nat_alt m32 m2 using al guard by simp
  have ss: "span_class_size_for os total = page_size_for os 8192"
    using span_class_size_for_wraps [OF os, of total] big by (simp add: t)
  define p where "p = align_up (raw + 32) alignment"
  have place: "unat raw + unat span \<le> 2 ^ 63" using sp(1) by (simp add: span_ok_def)
  have r32: "unat (raw + 32) = unat raw + 32" using place sp(2) by (intro unat_plus_numeral) simp
  have anz: "alignment \<noteq> 0" using al by auto
  have up: "unat p = round_up (unat raw + 32) (unat alignment)"
    unfolding p_def using place sp(2) al anz by (subst unat_align_up) (auto simp: r32)
  have lo: "unat raw + 32 \<le> unat p" and hi: "unat p < unat raw + 32 + unat alignment"
    unfolding up using al by (auto intro: round_up_ge round_up_less)
  have ge: "18446744073709551616 \<le> unat p + unat sz"
    using lo big sp(3) pg al by linarith
  have "unat (p + sz) = (unat p + unat sz) mod 18446744073709551616" by (rule unat_add_mod_u64)
  also have "\<dots> = unat p + unat sz - 18446744073709551616"
  proof -
    have "unat p + unat sz - 18446744073709551616 < 18446744073709551616"
      using unat_u64_bound [of p] unat_u64_bound [of sz] by linarith
    then show ?thesis by (simp only: le_mod_geq [OF ge] mod_less)
  qed
  also have "\<dots> \<le> unat raw + unat span" using hi guard sp(2) al by linarith
  finally have sum: "unat (p + sz) \<le> unat raw + unat span" .
  have s2: "unat (raw + span) = unat raw + unat span" using place by (intro unat_add_u64) simp
  have ok: "\<not> p + sz > raw + span" using sum by (simp add: word_less_nat_alt s2)
  define h where "h = from_user_ptr p"
  define m where "m = set_bh_total_size h span (set_bh_raw_ptr h raw (set_bh_size h sz
      (set_bh_size_class h 0 (set_bh_node_id h (of_int (la_node_id la)) (w_mem w1)))))"
  have hb: "unat h + 65536 < 18446744073709551616"
  proof -
    have "unat h = unat p - 32" using lo by (simp add: h_def user_ptr_defs unat_sub_u64)
    moreover have "unat raw + unat span \<le> 9223372036854775808" using place by simp
    ultimately show ?thesis using hi al by linarith
  qed
  note W = la_header_writes [OF hb m_def]
  have "la_allocate_from_span (la_node_id la) sz alignment span raw (w_mem w1) = (Inr p, m)"
    using ok by (simp add: la_allocate_from_span_def Let_def p_def [symmetric] m_def h_def
        sizeof_BlockHeader_def from_user_ptr_def sub_bytes_def)
  then have "la_allocate os sz alignment la w = (Inr p, la1, w1\<lparr>w_mem := m\<rparr>)"
    using a g acq ss by (simp add: la_allocate_def Let_def total_def [symmetric])
  then show ?thesis using W(4,5) by (auto simp: h_def)
qed

end
