(* ===== verification/Numa_Arena.thy ===== *)
theory Numa_Arena
  imports Small_Object Large_Object
begin

section \<open>Arenas\<close>

text \<open>
  Models class \<open>NumaArena\<close> of \<open>numa_arena\<close>: the allocation facade of one NUMA node, with
  its small and large allocator and the 40 bins in which other threads leave small blocks
  of this node. A bin is a list threaded through the freed blocks; each critical section of
  its mutex is one function. The invariant keeps the bins, their byte counts and the atomic
  total consistent with the blocks of the small allocator; on it the arena is proved to be
  an allocator, whatever the state of its foreign bins.
\<close>

subsection \<open>State\<close>

record foreign_list =
  fl_head :: ptr
  fl_count :: u64
  fl_bytes :: u64

type_synonym foreign_batch = foreign_list
type_synonym foreign_bin = foreign_list

definition empty_foreign :: foreign_list where
  "empty_foreign = \<lparr>fl_head = nullptr, fl_count = 0, fl_bytes = 0\<rparr>"

record arena =
  ar_node_id :: int
  ar_foreign_freelist_enabled :: bool
  ar_route_foreign :: bool
  ar_small :: small_alloc
  ar_large :: large_alloc
  ar_foreign_bins :: "foreign_bin list"
  ar_foreign_bytes :: u64

definition ar_new :: "int \<Rightarrow> bool \<Rightarrow> bool \<Rightarrow> bool \<Rightarrow> arena" where
  "ar_new node_id foreign_freelist_enabled sync route_foreign_deallocations =
    \<lparr>ar_node_id = node_id, ar_foreign_freelist_enabled = foreign_freelist_enabled,
     ar_route_foreign = route_foreign_deallocations,
     ar_small = sm_new node_id sync,
     ar_large = la_new node_id (of_nat kMaxLargeCachedSpans) kMaxLargeCacheBytes sync,
     ar_foreign_bins = replicate kNumSizeClasses empty_foreign,
     ar_foreign_bytes = 0\<rparr>"

subsection \<open>Foreign bins\<close>

definition foreign_high_watermark :: "u64 \<Rightarrow> u64" where
  "foreign_high_watermark cls = max_cached_bytes_for_class cls"

definition foreign_low_watermark :: "u64 \<Rightarrow> u64" where
  "foreign_low_watermark cls = foreign_high_watermark cls div 2"

definition detach_all_foreign_locked :: "foreign_bin \<Rightarrow> foreign_batch \<times> foreign_bin" where
  "detach_all_foreign_locked bin =
    (\<lparr>fl_head = fl_head bin, fl_count = fl_count bin, fl_bytes = fl_bytes bin\<rparr>,
     bin\<lparr>fl_head := nullptr, fl_count := 0, fl_bytes := 0\<rparr>)"

partial_function (option) detach_low_loop ::
  "u64 \<Rightarrow> u64 \<Rightarrow> foreign_batch \<Rightarrow> foreign_bin \<Rightarrow> mem \<Rightarrow> (foreign_batch \<times> foreign_bin \<times> mem) option"
where
  "detach_low_loop cls low batch bin m =
    (if fl_head bin \<noteq> nullptr \<and> fl_bytes bin > low then
       let header = fl_head bin;
           bin = bin\<lparr>fl_head := next_link m header\<rparr>;
           m = set_next_link header (fl_head batch) m;
           batch = \<lparr>fl_head = header, fl_count = fl_count batch + 1,
                    fl_bytes = fl_bytes batch + cls\<rparr>;
           bin = bin\<lparr>fl_count := fl_count bin - 1, fl_bytes := fl_bytes bin - cls\<rparr>
       in detach_low_loop cls low batch bin m
     else Some (batch, bin, m))"

definition detach_foreign_until_low_locked ::
  "foreign_bin \<Rightarrow> u64 \<Rightarrow> u64 \<Rightarrow> mem \<Rightarrow> (foreign_batch \<times> foreign_bin \<times> mem) option" where
  "detach_foreign_until_low_locked bin cls low_watermark m =
    detach_low_loop cls low_watermark empty_foreign bin m"

definition drain_foreign_batch ::
  "os \<Rightarrow> u64 \<Rightarrow> foreign_batch \<Rightarrow> small_alloc \<Rightarrow> world \<Rightarrow> (unit res \<times> small_alloc \<times> world) option" where
  "drain_foreign_batch os class_index batch sm w =
    (if fl_head batch = nullptr then Some (Inr (), sm, w)
     else sm_deallocate_batch os class_index (fl_head batch) sm w)"

text \<open>The slow-path callback: the context it gets is the arena, of which it uses the bins and
  the total beside the small allocator.\<close>

type_synonym foreign_ctx = "foreign_bin list \<times> u64"

definition drain_foreign_bin :: "os \<Rightarrow> foreign_ctx drain" where
  "drain_foreign_bin os ctx class_index sm w =
    (if class_index \<ge> of_nat kNumSizeClasses then Some (Inl Out_of_range, ctx, sm, w)
     else
       let (bins, fbytes) = ctx;
           i = unat class_index;
           (batch, bin) = detach_all_foreign_locked (bins ! i);
           fbytes = (if fl_bytes batch \<noteq> 0 then fbytes - fl_bytes batch else fbytes)
       in case drain_foreign_batch os class_index batch sm w of
            None \<Rightarrow> None
          | Some (r, sm1, w1) \<Rightarrow> Some (r, (bins[i := bin], fbytes), sm1, w1))"

text \<open>The destructor drains every bin and swallows what a drain throws.\<close>

fun drain_foreign_from ::
  "os \<Rightarrow> nat list \<Rightarrow> foreign_ctx \<Rightarrow> small_alloc \<Rightarrow> world \<Rightarrow>
   (foreign_ctx \<times> small_alloc \<times> world) option" where
  "drain_foreign_from os [] ctx sm w = Some (ctx, sm, w)"
| "drain_foreign_from os (i # is) ctx sm w =
     (case drain_foreign_bin os ctx (of_nat i) sm w of
        None \<Rightarrow> None
      | Some (r, ctx1, sm1, w1) \<Rightarrow> drain_foreign_from os is ctx1 sm1 w1)"

definition drain_all_foreign :: "os \<Rightarrow> arena \<Rightarrow> world \<Rightarrow> (arena \<times> world) option" where
  "drain_all_foreign os ar w =
    (case drain_foreign_from os [0..<length (ar_foreign_bins ar)]
            (ar_foreign_bins ar, ar_foreign_bytes ar) (ar_small ar) w of
       None \<Rightarrow> None
     | Some ((bins, fbytes), sm, w1) \<Rightarrow>
         Some (ar\<lparr>ar_foreign_bins := bins, ar_foreign_bytes := fbytes, ar_small := sm\<rparr>, w1))"

text \<open>Members are destroyed in reverse order: the large allocator before the small one.\<close>

definition ar_destroy :: "os \<Rightarrow> arena \<Rightarrow> world \<Rightarrow> world option" where
  "ar_destroy os ar w =
    (case drain_all_foreign os ar w of
       None \<Rightarrow> None
     | Some (ar1, w1) \<Rightarrow> Some (sm_destroy os (ar_small ar1) (la_destroy os (ar_large ar1) w1)))"

definition enqueue_foreign_small ::
  "os \<Rightarrow> ptr \<Rightarrow> arena \<Rightarrow> world \<Rightarrow> (unit res \<times> arena \<times> world) option" where
  "enqueue_foreign_small os header ar w =
    (let cls = ucast (bh_size_class (w_mem w) header) in
     case class_index_for_size cls of
       Inl e \<Rightarrow> Some (Inl e, ar, w)
     | Inr class_index \<Rightarrow>
         (let high = foreign_high_watermark cls;
              low = foreign_low_watermark cls;
              i = unat class_index;
              bin = ar_foreign_bins ar ! i;
              m = set_next_link header (fl_head bin) (w_mem w);
              bin = bin\<lparr>fl_head := header, fl_count := fl_count bin + 1,
                        fl_bytes := fl_bytes bin + cls\<rparr>;
              fbytes = ar_foreign_bytes ar + cls
          in case (if fl_bytes bin > high
                   then detach_foreign_until_low_locked bin cls low m
                   else Some (empty_foreign, bin, m)) of
               None \<Rightarrow> None
             | Some (batch, bin, m) \<Rightarrow>
                 (let fbytes = (if fl_bytes batch \<noteq> 0 then fbytes - fl_bytes batch else fbytes);
                      ar1 = ar\<lparr>ar_foreign_bins := (ar_foreign_bins ar)[i := bin],
                               ar_foreign_bytes := fbytes\<rparr>
                  in case drain_foreign_batch os class_index batch (ar_small ar1) (w\<lparr>w_mem := m\<rparr>) of
                       None \<Rightarrow> None
                     | Some (r, sm, w1) \<Rightarrow> Some (r, ar1\<lparr>ar_small := sm\<rparr>, w1))))"

subsection \<open>Allocation and deallocation\<close>

definition ar_allocate ::
  "os \<Rightarrow> u64 \<Rightarrow> u64 \<Rightarrow> arena \<Rightarrow> world \<Rightarrow> (ptr res \<times> arena \<times> world) option" where
  "ar_allocate os sz alignment ar w =
    (let sz = (if sz = 0 then 1 else sz) in
     if sz \<le> SMALL_LARGE_THRESHOLD \<and> alignment \<le> ALIGNMENT then
       case class_index_for_size sz of
         Inl e \<Rightarrow> Some (Inl e, ar, w)
       | Inr class_index \<Rightarrow>
           (let cls = kClassSizes ! unat class_index in
            case (if \<not> ar_foreign_freelist_enabled ar \<or> ar_foreign_bytes ar = 0 then
                    let (r, sm, w1) = sm_allocate_by_class_index os class_index (ar_small ar) w
                    in Some (r, (ar_foreign_bins ar, ar_foreign_bytes ar), sm, w1)
                  else sm_allocate_by_class_index_drain os class_index (Some (drain_foreign_bin os))
                         (ar_foreign_bins ar, ar_foreign_bytes ar) (ar_small ar) w) of
              None \<Rightarrow> None
            | Some (r, (bins, fbytes), sm, w1) \<Rightarrow>
                (let ar1 = ar\<lparr>ar_small := sm, ar_foreign_bins := bins, ar_foreign_bytes := fbytes\<rparr> in
                 case r of
                   Inl e \<Rightarrow> Some (Inl e, ar1, w1)
                 | Inr header \<Rightarrow>
                     (let m1 = set_bh_node_id header (of_int (ar_node_id ar)) (w_mem w1);
                          m2 = set_bh_size_class header (ucast cls) m1;
                          m3 = set_bh_size header 0 m2
                      in Some (Inr (to_user_ptr header), ar1, w1\<lparr>w_mem := m3\<rparr>))))
     else
       let (r, la, w1) = la_allocate os sz alignment (ar_large ar) w
       in Some (r, ar\<lparr>ar_large := la\<rparr>, w1))"

text \<open>The tail that \<open>deallocate\<close> and \<open>deallocate_foreign\<close> share: the block goes to the
  allocator that its header names.\<close>

definition ar_deallocate_own :: "os \<Rightarrow> ptr \<Rightarrow> arena \<Rightarrow> world \<Rightarrow> unit res \<times> arena \<times> world" where
  "ar_deallocate_own os p ar w =
    (let header = from_user_ptr p in
     if bh_size_class (w_mem w) header \<noteq> 0 then
       let (r, sm, w1) = sm_deallocate os header (ar_small ar) w in (r, ar\<lparr>ar_small := sm\<rparr>, w1)
     else
       let (la, w1) = la_deallocate os p (ar_large ar) w in (Inr (), ar\<lparr>ar_large := la\<rparr>, w1))"

definition ar_deallocate_foreign ::
  "os \<Rightarrow> ptr \<Rightarrow> arena \<Rightarrow> world \<Rightarrow> (unit res \<times> arena \<times> world) option" where
  "ar_deallocate_foreign os p ar w =
    (let header = from_user_ptr p in
     if ar_foreign_freelist_enabled ar \<and> bh_size_class (w_mem w) header \<noteq> 0
     then enqueue_foreign_small os header ar w
     else Some (ar_deallocate_own os p ar w))"

text \<open>\<open>deallocate\<close>. A block of another node leaves this arena for the one that
  \<open>ArenaManager::arena_for_node\<close> gives: \<open>route\<close>, acting on the rest of the arenas. The
  theory of the manager instantiates it.\<close>

definition ar_is_foreign :: "ptr \<Rightarrow> arena \<Rightarrow> mem \<Rightarrow> bool" where
  "ar_is_foreign p ar m \<longleftrightarrow>
     sint (bh_node_id m (from_user_ptr p)) \<noteq> ar_node_id ar \<and> ar_route_foreign ar"

definition ar_deallocate ::
  "os \<Rightarrow> (int \<Rightarrow> ptr \<Rightarrow> 'm \<Rightarrow> world \<Rightarrow> (unit res \<times> 'm \<times> world) option) \<Rightarrow> ptr \<Rightarrow> arena \<Rightarrow> 'm \<Rightarrow>
   world \<Rightarrow> (unit res \<times> arena \<times> 'm \<times> world) option" where
  "ar_deallocate os route p ar rest w =
    (if p = nullptr then Some (Inr (), ar, rest, w)
     else if ar_is_foreign p ar (w_mem w) then
       case route (sint (bh_node_id (w_mem w) (from_user_ptr p))) p rest w of
         None \<Rightarrow> None
       | Some (r, rest1, w1) \<Rightarrow> Some (r, ar, rest1, w1)
     else
       let (r, ar1, w1) = ar_deallocate_own os p ar w in Some (r, ar1, rest, w1))"

subsection \<open>The invariant of the foreign bins\<close>

text \<open>\<open>qs\<close> lists the queued blocks per bin. A bin never holds more than its high watermark.\<close>

definition fbin_ok :: "mem \<Rightarrow> nat \<Rightarrow> foreign_bin \<Rightarrow> ptr list \<Rightarrow> bool" where
  "fbin_ok m i bin q \<longleftrightarrow> chain (next_link m) (fl_head bin) q \<and> unat (fl_count bin) = length q \<and>
     unat (fl_bytes bin) = length q * unat (kClassSizes ! i) \<and>
     fl_bytes bin \<le> foreign_high_watermark (kClassSizes ! i)"

definition bins_ok :: "mem \<Rightarrow> foreign_bin list \<Rightarrow> u64 \<Rightarrow> ptr list list \<Rightarrow> grants list \<Rightarrow> bool" where
  "bins_ok m bins fbytes qs Us \<longleftrightarrow> length bins = 40 \<and> length qs = 40 \<and>
     (\<forall>i<40. fbin_ok m i (bins ! i) (qs ! i) \<and> set (qs ! i) \<subseteq> dom (Us ! i)) \<and>
     unat fbytes = sum_list (map (\<lambda>b. unat (fl_bytes b)) bins)"

text \<open>Every block of the small allocator carries its node and its class.\<close>

definition headers_ok :: "int \<Rightarrow> mem \<Rightarrow> grants list \<Rightarrow> bool" where
  "headers_ok node m Us \<longleftrightarrow> (\<forall>i<40. \<forall>b\<in>dom (Us ! i).
     bh_node_id m b = of_int node \<and> bh_size_class m b = ucast (kClassSizes ! i))"

definition core_ok ::
  "os \<Rightarrow> int \<Rightarrow> small_alloc \<Rightarrow> foreign_bin list \<Rightarrow> u64 \<Rightarrow> nat set list \<Rightarrow> grants list \<Rightarrow>
   ptr list list \<Rightarrow> world \<Rightarrow> bool" where
  "core_ok os node sm bins fbytes Fs Us qs w \<longleftrightarrow> sm_owns os sm w Fs Us \<and> sm_node_id sm = node \<and>
     bins_ok (w_mem w) bins fbytes qs Us \<and> headers_ok node (w_mem w) Us"

lemma high_watermark_value:
  assumes "i < 40"
  shows "unat (foreign_high_watermark (kClassSizes ! i)) \<le> 2097152"
    and "2 * unat (kClassSizes ! i) \<le> unat (foreign_high_watermark (kClassSizes ! i))"
proof -
  have v: "\<forall>c. unat c \<le> 4096 \<longrightarrow> unat (foreign_high_watermark c) =
      (if unat c \<le> 256 then 131072 else if unat c \<le> 1024 then 524288 else 2097152)"
    by (auto simp: foreign_high_watermark_def max_cached_bytes_for_class_def size_consts word_le_nat_alt)
  have c: "unat (kClassSizes ! i) \<le> 4096" by (rule kClassSizes_bounds(2) [OF assms])
  then show "unat (foreign_high_watermark (kClassSizes ! i)) \<le> 2097152"
    and "2 * unat (kClassSizes ! i) \<le> unat (foreign_high_watermark (kClassSizes ! i))"
    using v by auto
qed

text \<open>So the atomic total never exceeds 80 MB and never wraps.\<close>

lemma bins_ok_bound:
  assumes "bins_ok m bins fbytes qs Us"
  shows "unat fbytes \<le> 83886080"
proof -
  have "unat (fl_bytes b) \<le> 2097152" if b: "b \<in> set bins" for b
  proof -
    obtain i where i: "i < 40" "b = bins ! i" using b assms by (auto simp: bins_ok_def in_set_conv_nth)
    have "fl_bytes b \<le> foreign_high_watermark (kClassSizes ! i)"
      using assms i by (auto simp: bins_ok_def fbin_ok_def)
    then have "unat (fl_bytes b) \<le> unat (foreign_high_watermark (kClassSizes ! i))"
      by (simp add: word_le_nat_alt)
    with high_watermark_value(1) [OF i(1)] show ?thesis by linarith
  qed
  then have "sum_list (map (\<lambda>b. unat (fl_bytes b)) bins) \<le> length bins * 2097152"
    by (rule sum_list_bound)
  then show ?thesis using assms by (simp add: bins_ok_def)
qed

lemma bins_ok_chain_cong:
  assumes "bins_ok m bins fbytes qs Us" and "\<And>i b. i < 40 \<Longrightarrow> b \<in> set (qs ! i) \<Longrightarrow> next_link m' b = next_link m b"
    and "\<And>i. i < 40 \<Longrightarrow> set (qs ! i) \<subseteq> dom (Us' ! i)"
  shows "bins_ok m' bins fbytes qs Us'"
proof -
  have "chain (next_link m') p (qs ! i) = chain (next_link m) p (qs ! i)" if "i < 40" for i p
    using assms(2) [OF that] by (rule chain_cong)
  then show ?thesis using assms(1,3) by (simp add: bins_ok_def fbin_ok_def)
qed

text \<open>An operation of the small allocator that grants nothing new and keeps what is queued.\<close>

lemma core_ok_step:
  assumes core: "core_ok os node sm bins fbytes Fs Us qs w" and i: "i < 40"
    and step: "sm_step os sm w Fs Us i U' sm' w'"
    and sub: "dom U' \<subseteq> dom (Us ! i)" and keep: "set (qs ! i) \<subseteq> dom U'"
  shows "\<exists>F'. core_ok os node sm' bins fbytes (Fs[i := F']) (Us[i := U']) qs w' \<and>
    frame_step (fam Fs) w (fam (Fs[i := F'])) w'"
proof -
  have owns: "sm_owns os sm w Fs Us" and bins: "bins_ok (w_mem w) bins fbytes qs Us"
    and hdr: "headers_ok node (w_mem w) Us" using core by (simp_all add: core_ok_def)
  have len: "length Us = 40" using owns by (simp add: sm_owns_def)
  obtain F' where F': "sm_owns os sm' w' (Fs[i := F']) (Us[i := U'])"
    "frame_step (fam Fs) w (fam (Fs[i := F'])) w'" and nd: "sm_node_id sm' = sm_node_id sm"
    using step by (auto simp: sm_step_def)
  note K = sm_step_block [OF owns i step]
  have q: "set (qs ! j) \<subseteq> dom (Us[i := U'] ! j) \<and> set (qs ! j) \<subseteq> dom (Us ! j)" if "j < 40" for j
    using bins keep that len i by (cases "j = i") (auto simp: bins_ok_def)
  have "bins_ok (w_mem w') bins fbytes qs (Us[i := U'])"
    using q K(3) by (intro bins_ok_chain_cong [OF bins]) blast+
  moreover have "headers_ok node (w_mem w') (Us[i := U'])"
    unfolding headers_ok_def
  proof (intro allI impI ballI)
    fix j b assume j: "j < 40" and b: "b \<in> dom (Us[i := U'] ! j)"
    have old: "b \<in> dom (Us ! j)" using b sub len i j by (cases "j = i") auto
    show "bh_node_id (w_mem w') b = of_int node \<and> bh_size_class (w_mem w') b = ucast (kClassSizes ! j)"
      using K(1,2) [OF j old b] hdr j old by (simp add: headers_ok_def)
  qed
  ultimately show ?thesis using F' nd core by (auto simp: core_ok_def)
qed

subsection \<open>Handing out a small block\<close>

text \<open>The three header fields that the arena writes in a new block.\<close>

lemma arena_header_writes:
  assumes hb: "unat h + 65536 < 18446744073709551616"
    and m': "m' = set_bh_size h sz (set_bh_size_class h c (set_bh_node_id h n m))"
  shows "bh_node_id m' h = n" and "bh_size_class m' h = c" and "bh_size m' h = sz"
    and "agree_on (- {unat h ..< unat h + 16}) m m'"
proof -
  note iv = bh_bytes [OF hb]
  show "bh_size m' h = sz" by (simp add: m' header_field_defs)
  show "bh_size_class m' h = c"
    unfolding m' header_field_defs by (subst load32_store64_apart, simp add: iv, simp)
  show "bh_node_id m' h = n"
    unfolding m' header_field_defs
    by (subst load32_store64_apart, simp add: iv, subst s32.get_put_apart, simp add: iv, simp)
  show "agree_on (- {unat h ..< unat h + 16}) m m'"
    unfolding m' header_field_defs
    by (auto intro!: agree_onI simp: s64.put_local s32.put_local iv)
qed

lemma core_ok_alloc:
  assumes core: "core_ok os node sm bins fbytes Fs Us qs w" and i: "i < 40"
    and step: "sm_step os sm w Fs Us i ((Us ! i)(b \<mapsto> client_bytes (kClassSizes ! i) b)) sm' w'"
    and new: "(Us ! i) b = None"
    and m': "m' = set_bh_size b 0 (set_bh_size_class b (ucast (kClassSizes ! i))
      (set_bh_node_id b (of_int node) (w_mem w')))"
  shows "\<exists>F'. core_ok os node sm' bins fbytes (Fs[i := F'])
      (Us[i := (Us ! i)(b \<mapsto> client_bytes (kClassSizes ! i) b)]) qs (w'\<lparr>w_mem := m'\<rparr>) \<and>
    frame_step (fam Fs) w (fam (Fs[i := F'])) (w'\<lparr>w_mem := m'\<rparr>)"
    and "agree_on (fam_granted Us) (w_mem w) m'"
proof -
  let ?A = "client_bytes (kClassSizes ! i) b" and ?w = "w'\<lparr>w_mem := m'\<rparr>"
  define U' where "U' = (Us ! i)(b \<mapsto> ?A)"
  have owns: "sm_owns os sm w Fs Us" and bins: "bins_ok (w_mem w) bins fbytes qs Us"
    and hdr: "headers_ok node (w_mem w) Us" using core by (simp_all add: core_ok_def)
  have len: "length Us = 40" using owns by (simp add: sm_owns_def)
  obtain F' where F': "sm_owns os sm' w' (Fs[i := F']) (Us[i := U'])"
    "frame_step (fam Fs) w (fam (Fs[i := F'])) w'" and nd: "sm_node_id sm' = sm_node_id sm"
    and keep: "agree_on (fam_granted (Us[i := (Us ! i) |` dom U'])) (w_mem w) (w_mem w')"
    using step unfolding sm_step_def U'_def [symmetric] by blast
  note K = sm_step_block [OF owns i step [folded U'_def]]
  have same: "(Us ! i) |` dom U' = Us ! i" unfolding U'_def by (rule restrict_dom_upd [of "Us ! i" b, OF new])
  then have keep': "agree_on (fam_granted Us) (w_mem w) (w_mem w')"
    using keep by (simp only: list_update_id)
  have bA: "(Us[i := U'] ! i) b = Some ?A" using i len by (simp add: U'_def)
  note blk = sc_owns_block [OF sm_owns_class(1) [OF F'(1) i] bA]
  note W = arena_header_writes [OF blk(3) m']
  have hA: "{unat b ..< unat b + 16} \<subseteq> ?A" by (auto simp: client_bytes_def)
  have agA: "agree_on (- ?A) (w_mem w') m'" using hA by (intro agree_on_mono [OF W(4)]) auto
  have Apart: "?A \<subseteq> fam_granted (Us[i := U'])" using len i bA by (intro sm_grant_part [of i _ b]) simp_all
  have owns2: "sm_owns os sm' ?w (Fs[i := F']) (Us[i := U'])"
    using Apart by (intro sm_owns_write [OF F'(1)] agree_on_mono [OF agA]) auto
  have other: "agree_on B (w_mem w') m'" if c: "j < 40" "(Us ! j) c = Some B" for j c B
  proof -
    have ne: "(i, b) \<noteq> (j, c)" using new c by auto
    have "(Us[i := U'] ! j) c = Some B" using c ne i len by (cases "j = i") (auto simp: U'_def)
    from sm_blocks_apart [OF F'(1) i c(1) bA this ne] show ?thesis
      by (intro agree_on_mono [OF agA]) auto
  qed
  have agm: "agree_on (fam_granted Us) (w_mem w') m'"
  proof (rule agree_onI)
    fix x assume "x \<in> fam_granted Us"
    then obtain j where j: "j < 40" "x \<in> granted (Us ! j)" using len by (auto simp: fam_granted_nth [of _ 40])
    then obtain c B where "(Us ! j) c = Some B" "x \<in> B" by (auto simp: granted_def ran_def)
    with other [OF j(1)] show "m' x = w_mem w' x" by (auto simp: agree_on_def)
  qed
  show "agree_on (fam_granted Us) (w_mem w) m'" using keep' agm by (rule agree_on_trans)
  have old: "bh_node_id m' c = bh_node_id (w_mem w) c \<and> bh_size_class m' c = bh_size_class (w_mem w) c \<and>
      next_link m' c = next_link (w_mem w) c" if c: "j < 40" "c \<in> dom (Us ! j)" for j c
  proof -
    obtain B where B: "(Us ! j) c = Some B" using c by auto
    have "agree_on B (w_mem w) m'"
      using sm_grant_part [OF c(1) len B] agree_on_mono [OF agree_on_trans [OF keep' agm]] by blast
    from sm_block_local [OF owns c(1) B this] show ?thesis by simp
  qed
  have qd: "set (qs ! j) \<subseteq> dom (Us ! j)" if "j < 40" for j using bins that by (simp add: bins_ok_def)
  have qd': "set (qs ! j) \<subseteq> dom (Us[i := U'] ! j)" if j: "j < 40" for j
    using qd [OF j] i len by (cases "j = i") (auto simp: U'_def)
  have b2: "bins_ok m' bins fbytes qs (Us[i := U'])"
    using qd qd' old by (intro bins_ok_chain_cong [OF bins]) blast+
  have h2: "headers_ok node m' (Us[i := U'])"
    unfolding headers_ok_def
  proof (intro allI impI ballI)
    fix j c assume j: "j < 40" and c: "c \<in> dom (Us[i := U'] ! j)"
    show "bh_node_id m' c = of_int node \<and> bh_size_class m' c = ucast (kClassSizes ! j)"
    proof (cases "(j, c) = (i, b)")
      case True
      then show ?thesis using W(1,2) by simp
    next
      case False
      then have "c \<in> dom (Us ! j)" using c i len j by (cases "j = i") (auto simp: U'_def)
      with old [OF j] hdr j show ?thesis by (simp add: headers_ok_def)
    qed
  qed
  have sub: "fam (Fs[i := F']) \<subseteq> mapped w'" by (rule sm_owns_mapped [OF F'(1)])
  have "?A \<subseteq> fam (Fs[i := F'])" using Apart sm_granted_fam [OF F'(1)] by blast
  then have "frame_step (fam (Fs[i := F'])) w' (fam (Fs[i := F'])) ?w"
    by (intro frame_step_write [OF sub] agree_on_mono [OF agA]) auto
  with F'(2) have "frame_step (fam Fs) w (fam (Fs[i := F'])) ?w" by (rule frame_step_trans)
  with owns2 b2 h2 nd core show "\<exists>F'. core_ok os node sm' bins fbytes (Fs[i := F'])
      (Us[i := (Us ! i)(b \<mapsto> ?A)]) qs ?w \<and> frame_step (fam Fs) w (fam (Fs[i := F'])) ?w"
    unfolding U'_def [symmetric] core_ok_def by (intro exI [of _ F']) simp
qed

subsection \<open>Draining a bin\<close>

lemma sum_list_upd_sub:
  "i < length xs \<Longrightarrow> (f x :: nat) + d = f (xs ! i) \<Longrightarrow> sum_list (map f (xs[i := x])) + d = sum_list (map f xs)"
  using nth_le_sum_list [of i "map f xs"] by (auto simp: map_update sum_list_update_nat)

lemma drain_foreign_batch_ok:
  assumes core: "core_ok os node sm bins fbytes Fs Us qs w" and i: "unat ci < 40"
    and ch: "chain (next_link (w_mem w)) (fl_head batch) bs" and sub: "set bs \<subseteq> dom (Us ! unat ci)"
    and apart: "set bs \<inter> set (qs ! unat ci) = {}"
  shows "\<exists>sm' w' F'. drain_foreign_batch os ci batch sm w = Some (Inr (), sm', w') \<and>
    core_ok os node sm' bins fbytes (Fs[unat ci := F']) (Us[unat ci := (Us ! unat ci) |` (- set bs)]) qs w' \<and>
    frame_step (fam Fs) w (fam (Fs[unat ci := F'])) w' \<and>
    agree_on (fam_granted (Us[unat ci := (Us ! unat ci) |` (- set bs)])) (w_mem w) (w_mem w')"
proof (cases "fl_head batch = nullptr")
  case True
  then have "bs = []" using ch by simp
  moreover have "(Us ! unat ci) |` UNIV = Us ! unat ci" by (rule ext) (simp add: restrict_map_def)
  moreover have "sm_owns os sm w Fs Us" using core by (simp add: core_ok_def)
  ultimately show ?thesis
    using True core frame_step_refl [OF sm_owns_mapped]
    by (intro exI [of _ sm] exI [of _ w] exI [of _ "Fs ! unat ci"])
      (simp add: drain_foreign_batch_def)
next
  case False
  have owns: "sm_owns os sm w Fs Us" and bins: "bins_ok (w_mem w) bins fbytes qs Us"
    using core by (simp_all add: core_ok_def)
  let ?U = "(Us ! unat ci) |` (- set bs)"
  obtain sm' w' where D: "sm_deallocate_batch os ci (fl_head batch) sm w = Some (Inr (), sm', w')"
    and step: "sm_step os sm w Fs Us (unat ci) ?U sm' w'"
    using sm_deallocate_batch_ok [OF owns i ch sub] by blast
  have "set (qs ! unat ci) \<subseteq> dom (Us ! unat ci)" using bins i by (simp add: bins_ok_def)
  then have "set (qs ! unat ci) \<subseteq> dom ?U" using apart by auto
  moreover have "dom ?U \<subseteq> dom (Us ! unat ci)" by auto
  ultimately obtain F' where "core_ok os node sm' bins fbytes (Fs[unat ci := F']) (Us[unat ci := ?U]) qs w'"
    "frame_step (fam Fs) w (fam (Fs[unat ci := F'])) w'"
    using core_ok_step [OF core i step] by blast
  moreover have "agree_on (fam_granted (Us[unat ci := ?U])) (w_mem w) (w_mem w')"
    using step unfolding sm_step_def restrict_dom_sub by simp
  ultimately show ?thesis using False D by (auto simp: drain_foreign_batch_def)
qed

lemma drain_foreign_bin_ok:
  assumes core: "core_ok os node sm bins fbytes Fs Us qs w" and i: "unat ci < 40"
  shows "\<exists>bins' fbytes' sm' w' F'. drain_foreign_bin os (bins, fbytes) ci sm w =
      Some (Inr (), (bins', fbytes'), sm', w') \<and>
    core_ok os node sm' bins' fbytes' (Fs[unat ci := F'])
      (Us[unat ci := (Us ! unat ci) |` (- set (qs ! unat ci))]) (qs[unat ci := []]) w' \<and>
    frame_step (fam Fs) w (fam (Fs[unat ci := F'])) w' \<and>
    agree_on (fam_granted (Us[unat ci := (Us ! unat ci) |` (- set (qs ! unat ci))])) (w_mem w) (w_mem w') \<and>
    fbytes' \<le> fbytes"
proof -
  let ?i = "unat ci"
  define bin where "bin = bins ! ?i"
  define batch where "batch = fst (detach_all_foreign_locked bin)"
  define bin' where "bin' = snd (detach_all_foreign_locked bin)"
  define fbytes' where "fbytes' = (if fl_bytes batch \<noteq> 0 then fbytes - fl_bytes batch else fbytes)"
  have bins: "bins_ok (w_mem w) bins fbytes qs Us" using core by (simp add: core_ok_def)
  have len: "length bins = 40" "length qs = 40" and ok: "fbin_ok (w_mem w) ?i bin (qs ! ?i)"
    and sub: "set (qs ! ?i) \<subseteq> dom (Us ! ?i)"
    using bins i by (auto simp: bins_ok_def bin_def)
  have sum: "unat fbytes = sum_list (map (\<lambda>b. unat (fl_bytes b)) bins)" using bins by (simp add: bins_ok_def)
  have le: "unat (fl_bytes bin) \<le> unat fbytes"
    using nth_le_sum_list [of ?i "map (\<lambda>b. unat (fl_bytes b)) bins"] i len by (simp add: sum bin_def)
  have b: "fl_bytes batch = fl_bytes bin" "fl_head batch = fl_head bin" "fl_bytes bin' = 0"
    "fl_head bin' = nullptr" "fl_count bin' = 0"
    by (simp_all add: batch_def bin'_def detach_all_foreign_locked_def)
  have fb: "unat fbytes' = unat fbytes - unat (fl_bytes bin)"
    using le by (simp add: fbytes'_def b unat_sub_u64)
  have "sum_list (map (\<lambda>b. unat (fl_bytes b)) (bins[?i := bin'])) + unat (fl_bytes bin) =
      sum_list (map (\<lambda>b. unat (fl_bytes b)) bins)"
    using i len by (intro sum_list_upd_sub) (simp_all add: b bin_def)
  then have sum': "unat fbytes' = sum_list (map (\<lambda>b. unat (fl_bytes b)) (bins[?i := bin']))"
    using fb sum by simp
  have "fbin_ok (w_mem w) j (bins[?i := bin'] ! j) (qs[?i := []] ! j) \<and> set (qs[?i := []] ! j) \<subseteq> dom (Us ! j)"
    if j: "j < 40" for j
    using bins j i len by (cases "j = ?i") (auto simp: bins_ok_def fbin_ok_def b)
  then have core1: "core_ok os node sm (bins[?i := bin']) fbytes' Fs Us (qs[?i := []]) w"
    using core sum' len by (simp add: core_ok_def bins_ok_def)
  have ch: "chain (next_link (w_mem w)) (fl_head batch) (qs ! ?i)" using ok by (simp add: fbin_ok_def b)
  have "set (qs ! ?i) \<inter> set (qs[?i := []] ! ?i) = {}" using i len by simp
  from drain_foreign_batch_ok [OF core1 i ch sub this] obtain sm' w' F' where
    D: "drain_foreign_batch os ci batch sm w = Some (Inr (), sm', w')" and
    R: "core_ok os node sm' (bins[?i := bin']) fbytes' (Fs[?i := F'])
        (Us[?i := (Us ! ?i) |` (- set (qs ! ?i))]) (qs[?i := []]) w'"
       "frame_step (fam Fs) w (fam (Fs[?i := F'])) w'"
       "agree_on (fam_granted (Us[?i := (Us ! ?i) |` (- set (qs ! ?i))])) (w_mem w) (w_mem w')"
    by blast
  have "drain_foreign_bin os (bins, fbytes) ci sm w = Some (Inr (), (bins[?i := bin'], fbytes'), sm', w')"
    using class_index_ok [OF i] D
    by (simp add: drain_foreign_bin_def Let_def bin_def [symmetric] batch_def [symmetric] bin'_def [symmetric]
        fbytes'_def split_beta)
  moreover have "fbytes' \<le> fbytes" using fb by (simp add: word_le_nat_alt)
  ultimately show ?thesis using R by blast
qed

text \<open>The slow path: with or without the bin drained, a block of the class or an error.\<close>

definition alloc_result ::
  "os \<Rightarrow> small_alloc \<Rightarrow> world \<Rightarrow> nat set list \<Rightarrow> grants list \<Rightarrow> nat \<Rightarrow> ptr res \<Rightarrow> small_alloc \<Rightarrow> world \<Rightarrow> bool"
where
  "alloc_result os sm w Fs Us i r sm' w' =
     (case r of
        Inr b \<Rightarrow> (Us ! i) b = None \<and>
          sm_step os sm w Fs Us i ((Us ! i)(b \<mapsto> client_bytes (kClassSizes ! i) b)) sm' w'
      | Inl e \<Rightarrow> sm_step os sm w Fs Us i (Us ! i) sm' w')"

lemma sm_allocate_result:
  assumes "sm_owns os sm w Fs Us" and "unat ci < 40"
    and "sm_allocate_by_class_index os ci sm w = (r, sm', w')"
  shows "alloc_result os sm w Fs Us (unat ci) r sm' w'"
  using assms sm_allocate_by_class_index_Inr sm_allocate_by_class_index_Inl
  by (cases r) (auto simp: alloc_result_def)

lemma core_ok_same:
  assumes core: "core_ok os node sm bins fbytes Fs Us qs w" and i: "i < 40"
    and step: "sm_step os sm w Fs Us i (Us ! i) sm' w'"
  shows "\<exists>Fs'. core_ok os node sm' bins fbytes Fs' Us qs w' \<and> frame_step (fam Fs) w (fam Fs') w'"
    and "agree_on (fam_granted Us) (w_mem w) (w_mem w')"
proof -
  have "set (qs ! i) \<subseteq> dom (Us ! i)" using core i by (simp add: core_ok_def bins_ok_def)
  from core_ok_step [OF core i step order_refl this]
  show "\<exists>Fs'. core_ok os node sm' bins fbytes Fs' Us qs w' \<and> frame_step (fam Fs) w (fam Fs') w'"
    by auto
  show "agree_on (fam_granted Us) (w_mem w) (w_mem w')"
    using step unfolding sm_step_def restrict_dom_self by simp
qed

lemma sm_allocate_drain_ok:
  assumes core: "core_ok os node sm bins fbytes Fs Us qs w" and i: "unat ci < 40"
  shows "\<exists>r bins' fbytes' sm' w' sm1 w1 Fs1 Us1 qs1.
    sm_allocate_by_class_index_drain os ci (Some (drain_foreign_bin os)) (bins, fbytes) sm w =
      Some (r, (bins', fbytes'), sm', w') \<and>
    core_ok os node sm1 bins' fbytes' Fs1 Us1 qs1 w1 \<and> frame_step (fam Fs) w (fam Fs1) w1 \<and>
    agree_on (fam_granted Us1) (w_mem w) (w_mem w1) \<and>
    (Us1 = Us \<and> qs1 = qs \<or>
     Us1 = Us[unat ci := (Us ! unat ci) |` (- set (qs ! unat ci))] \<and> qs1 = qs[unat ci := []]) \<and>
    alloc_result os sm1 w1 Fs1 Us1 (unat ci) r sm' w'"
proof -
  let ?i = "unat ci"
  obtain b sc w2 where e1: "sc_allocate_existing (sm_classes sm ! ?i) w = (b, sc, w2)" by (metis prod_cases3)
  have owns: "sm_owns os sm w Fs Us" using core by (simp add: core_ok_def)
  note T = sm_try_ok [OF owns i e1]
  show ?thesis
  proof (cases "b = nullptr")
    case False
    then have "alloc_result os sm w Fs Us ?i (Inr b) (set_class ?i sc sm) w2"
      using T by (simp add: alloc_result_def)
    moreover have "sm_allocate_by_class_index_drain os ci (Some (drain_foreign_bin os)) (bins, fbytes) sm w =
        Some (Inr b, (bins, fbytes), set_class ?i sc sm, w2)"
      using False class_index_ok [OF i] e1 by (simp add: sm_allocate_by_class_index_drain_def)
    ultimately show ?thesis
      using core frame_step_refl [OF sm_owns_mapped [OF owns]] agree_on_refl by blast
  next
    case True
    let ?sm2 = "set_class ?i sc sm"
    from T(1) True have st2: "sm_step os sm w Fs Us ?i (Us ! ?i) ?sm2 w2" by simp
    obtain Fs2 where c2: "core_ok os node ?sm2 bins fbytes Fs2 Us qs w2" "frame_step (fam Fs) w (fam Fs2) w2"
      using core_ok_same(1) [OF core i st2] by blast
    note a2 = core_ok_same(2) [OF core i st2]
    let ?Us3 = "Us[?i := (Us ! ?i) |` (- set (qs ! ?i))]" and ?qs3 = "qs[?i := []]"
    obtain bins3 fbytes3 sm3 w3 F3 where
      d: "drain_foreign_bin os (bins, fbytes) ci ?sm2 w2 = Some (Inr (), (bins3, fbytes3), sm3, w3)" and
      c3: "core_ok os node sm3 bins3 fbytes3 (Fs2[?i := F3]) ?Us3 ?qs3 w3"
        "frame_step (fam Fs2) w2 (fam (Fs2[?i := F3])) w3" and
      a3: "agree_on (fam_granted ?Us3) (w_mem w2) (w_mem w3)"
      using drain_foreign_bin_ok [OF c2(1) i] by blast
    have sub3: "fam_granted ?Us3 \<subseteq> fam_granted Us"
    proof -
      have len: "length Us = 40" using owns by (simp add: sm_owns_def)
      have "granted (?Us3 ! j) \<subseteq> granted (Us ! j)" if "j < 40" for j
        using that i len by (cases "j = ?i") (auto simp: granted_def ran_def restrict_map_def split: if_splits)
      then show ?thesis using len by (fastforce simp: fam_granted_nth [of _ 40])
    qed
    have f13: "frame_step (fam Fs) w (fam (Fs2[?i := F3])) w3" using c2(2) c3(2) by (rule frame_step_trans)
    have a13: "agree_on (fam_granted ?Us3) (w_mem w) (w_mem w3)"
      using agree_on_mono [OF a2 sub3] a3 by (rule agree_on_trans)
    obtain b4 sc4 w4 where e4: "sc_allocate_existing (sm_classes sm3 ! ?i) w3 = (b4, sc4, w4)"
      by (metis prod_cases3)
    have owns3: "sm_owns os sm3 w3 (Fs2[?i := F3]) ?Us3" using c3(1) by (simp add: core_ok_def)
    note T4 = sm_try_ok [OF owns3 i e4]
    show ?thesis
    proof (cases "b4 = nullptr")
      case False
      then have "alloc_result os sm3 w3 (Fs2[?i := F3]) ?Us3 ?i (Inr b4) (set_class ?i sc4 sm3) w4"
        using T4 by (simp only: alloc_result_def sum.case if_False simp_thms)
      moreover have "sm_allocate_by_class_index_drain os ci (Some (drain_foreign_bin os)) (bins, fbytes) sm w =
          Some (Inr b4, (bins3, fbytes3), set_class ?i sc4 sm3, w4)"
        using True False class_index_ok [OF i] e1 d e4 by (simp add: sm_allocate_by_class_index_drain_def)
      ultimately show ?thesis using c3(1) f13 a13 by blast
    next
      case n4: True
      let ?sm4 = "set_class ?i sc4 sm3"
      from T4(1) n4 have st4: "sm_step os sm3 w3 (Fs2[?i := F3]) ?Us3 ?i (?Us3 ! ?i) ?sm4 w4" by simp
      obtain Fs4 where c4: "core_ok os node ?sm4 bins3 fbytes3 Fs4 ?Us3 ?qs3 w4"
        "frame_step (fam (Fs2[?i := F3])) w3 (fam Fs4) w4"
        using core_ok_same(1) [OF c3(1) i st4] by blast
      have f14: "frame_step (fam Fs) w (fam Fs4) w4" using f13 c4(2) by (rule frame_step_trans)
      have a14: "agree_on (fam_granted ?Us3) (w_mem w) (w_mem w4)"
        using a13 core_ok_same(2) [OF c3(1) i st4] by (rule agree_on_trans)
      obtain r sm5 w5 where e5: "sm_allocate_by_class_index os ci ?sm4 w4 = (r, sm5, w5)" by (metis prod_cases3)
      have owns4: "sm_owns os ?sm4 w4 Fs4 ?Us3" using c4(1) by (simp add: core_ok_def)
      have R: "alloc_result os ?sm4 w4 Fs4 ?Us3 ?i r sm5 w5" by (rule sm_allocate_result [OF owns4 i e5])
      have "sm_allocate_by_class_index_drain os ci (Some (drain_foreign_bin os)) (bins, fbytes) sm w =
          Some (r, (bins3, fbytes3), sm5, w5)"
        using True n4 class_index_ok [OF i] e1 d e4 e5
        by (simp add: sm_allocate_by_class_index_drain_def sm_allocate_by_class_index_def Let_def
            sc_allocate_new_slab_eq split: prod.splits)
      then show ?thesis using c4(1) f14 a14 R by blast
    qed
  qed
qed

subsection \<open>Queueing a block of another thread\<close>

abbreviation cell :: "ptr \<Rightarrow> nat set" where
  "cell h \<equiv> bytes_of (to_user_ptr h) 8"

text \<open>The loop that detaches blocks until the bin is at its low watermark: it returns, moves the
  first \<open>k\<close> blocks of the bin, in reverse order, in front of the batch, and writes in their
  links alone.\<close>

lemma detach_low_loop_ok:
  assumes "chain (next_link m) (fl_head bin) q" and "chain (next_link m) (fl_head batch) bs"
    and "unat (fl_count bin) = length q" and "unat (fl_bytes bin) = length q * unat cs"
    and "unat (fl_bytes batch) = length bs * unat cs"
    and "(length q + length bs) * unat cs < 18446744073709551616" and "cs \<noteq> 0"
    and "distinct (q @ bs)"
    and "\<forall>x\<in>set q. \<forall>y\<in>set (q @ bs). x \<noteq> y \<longrightarrow> cell x \<inter> cell y = {}"
  shows "\<exists>k batch' bin' m'. k \<le> length q \<and>
    detach_low_loop cs low batch bin m = Some (batch', bin', m') \<and>
    chain (next_link m') (fl_head batch') (rev (take k q) @ bs) \<and>
    chain (next_link m') (fl_head bin') (drop k q) \<and>
    unat (fl_count bin') = length q - k \<and> unat (fl_bytes bin') = (length q - k) * unat cs \<and>
    unat (fl_bytes batch') = (k + length bs) * unat cs \<and>
    (k = length q \<or> fl_bytes bin' \<le> low) \<and>
    agree_on (- (\<Union>x\<in>set q. cell x)) m m'"
  using assms
proof (induction q arbitrary: bin batch bs m)
  case Nil
  then have "fl_head bin = nullptr" by simp
  then have "detach_low_loop cs low batch bin m = Some (batch, bin, m)"
    by (subst detach_low_loop.simps) simp
  then show ?case using Nil by auto
next
  case (Cons h q)
  have hd: "fl_head bin = h" "h \<noteq> nullptr" and ch: "chain (next_link m) (next_link m h) q"
    using Cons.prems(1) by auto
  show ?case
  proof (cases "fl_bytes bin > low")
    case False
    then have "detach_low_loop cs low batch bin m = Some (batch, bin, m)"
      by (subst detach_low_loop.simps) simp
    then show ?thesis
      using Cons.prems False by (intro exI [of _ 0] exI [of _ batch] exI [of _ bin] exI [of _ m]) simp
  next
    case True
    define m1 where "m1 = set_next_link h (fl_head batch) m"
    define batch1 where "batch1 = \<lparr>fl_head = h, fl_count = fl_count batch + 1, fl_bytes = fl_bytes batch + cs\<rparr>"
    define bin1 where "bin1 = bin\<lparr>fl_head := next_link m h, fl_count := fl_count bin - 1,
      fl_bytes := fl_bytes bin - cs\<rparr>"
    have loop: "detach_low_loop cs low batch bin m = detach_low_loop cs low batch1 bin1 m1"
      using True hd by (subst detach_low_loop.simps) (simp add: Let_def m1_def batch1_def bin1_def)
    have cell_h: "cell y \<inter> cell h = {}" if y: "y \<in> set q \<union> set bs" for y
    proof -
      have "h \<noteq> y" using Cons.prems(8) y by auto
      moreover have "y \<in> set ((h # q) @ bs)" using y by auto
      ultimately have "cell h \<inter> cell y = {}" using Cons.prems(9) by simp
      then show ?thesis by (simp only: Int_commute)
    qed
    have ch1: "chain (next_link m1) (fl_head bin1) q"
      using ch fl.chain_frame [of q m m1 "next_link m h"] cell_h
      by (simp add: bin1_def m1_def fl.set_link_agree)
    have ch2: "chain (next_link m1) (fl_head batch1) (h # bs)"
      unfolding m1_def using fl.chain_push [OF Cons.prems(2) hd(2)] cell_h by (simp add: batch1_def)
    have u1: "unat (fl_count bin1) = length q"
      using Cons.prems(3) by (simp add: bin1_def unat_sub_u64)
    have u2: "unat (fl_bytes bin1) = length q * unat cs"
      using Cons.prems(4) by (simp add: bin1_def unat_sub_u64)
    have u3: "unat (fl_bytes batch1) = length (h # bs) * unat cs"
      using Cons.prems(5,6) unfolding batch1_def by (simp add: unat_add_u64 algebra_simps)
    have lim: "(length q + length (h # bs)) * unat cs < 18446744073709551616"
      using Cons.prems(6) by (simp add: algebra_simps)
    have dist: "distinct (q @ h # bs)" using Cons.prems(8) by auto
    obtain k batch' bin' m' where R: "k \<le> length q"
      "detach_low_loop cs low batch1 bin1 m1 = Some (batch', bin', m')"
      "chain (next_link m') (fl_head batch') (rev (take k q) @ h # bs)"
      "chain (next_link m') (fl_head bin') (drop k q)"
      "unat (fl_count bin') = length q - k" "unat (fl_bytes bin') = (length q - k) * unat cs"
      "unat (fl_bytes batch') = (k + length (h # bs)) * unat cs"
      "k = length q \<or> fl_bytes bin' \<le> low"
      "agree_on (- (\<Union>x\<in>set q. cell x)) m1 m'"
      using Cons.IH [OF ch1 ch2 u1 u2 u3 lim Cons.prems(7) dist] Cons.prems(9)
      by auto
    have "agree_on (- (\<Union>x\<in>set (h # q). cell x)) m m1"
      unfolding m1_def by (rule fl.set_link_agree) auto
    moreover have "agree_on (- (\<Union>x\<in>set (h # q). cell x)) m1 m'"
      by (rule agree_on_mono [OF R(9)]) auto
    ultimately have "agree_on (- (\<Union>x\<in>set (h # q). cell x)) m m'" by (rule agree_on_trans)
    with R loop show ?thesis
      by (intro exI [of _ "Suc k"] exI [of _ batch'] exI [of _ bin'] exI [of _ m']) simp
  qed
qed

text \<open>What the users hold: the blocks of the small allocator that are not queued.\<close>

definition us_of :: "grants list \<Rightarrow> ptr list list \<Rightarrow> grants list" where
  "us_of Us qs = map (\<lambda>j. (Us ! j) |` (- set (qs ! j))) [0..<40]"

lemma us_of_nth [simp]: "j < 40 \<Longrightarrow> us_of Us qs ! j = (Us ! j) |` (- set (qs ! j))"
  and length_us_of [simp]: "length (us_of Us qs) = 40"
  by (simp_all add: us_of_def)

lemma us_of_granted: "length Us = 40 \<Longrightarrow> fam_granted (us_of Us qs) \<subseteq> fam_granted Us"
  by (fastforce simp: fam_granted_nth [of _ 40] granted_def ran_def restrict_map_def split: if_splits)

text \<open>Draining moves nothing in or out of the hands of the users.\<close>

lemma us_of_drain:
  assumes "i < 40" and "length Us = 40" and "length qs = 40" and "set (qs ! i) = B \<union> set q'"
  shows "us_of (Us[i := (Us ! i) |` (- B)]) (qs[i := q']) = us_of Us qs"
proof (rule nth_equalityI)
  fix j assume "j < length (us_of (Us[i := (Us ! i) |` (- B)]) (qs[i := q']))"
  then have j: "j < 40" by simp
  show "us_of (Us[i := (Us ! i) |` (- B)]) (qs[i := q']) ! j = us_of Us qs ! j"
  proof (cases "j = i")
    case True
    have "(- B \<inter> - set q') = - set (qs ! i)" using assms(4) by auto
    then show ?thesis using True j assms(2,3) by simp
  next
    case False
    then show ?thesis using j by simp
  qed
qed simp

text \<open>Writes to the links of some blocks of class \<open>i\<close>.\<close>

lemma link_writes:
  assumes owns: "sm_owns os sm w Fs Us" and i: "i < 40" and q: "set q \<subseteq> dom (Us ! i)"
    and ag: "agree_on (- (\<Union>x\<in>set q. cell x)) (w_mem w) m'"
  shows "sm_owns os sm (w\<lparr>w_mem := m'\<rparr>) Fs Us"
    and "frame_step (fam Fs) w (fam Fs) (w\<lparr>w_mem := m'\<rparr>)"
    and "j < 40 \<Longrightarrow> (Us ! j) c = Some A \<Longrightarrow> j \<noteq> i \<or> c \<notin> set q \<Longrightarrow> agree_on A (w_mem w) m'"
    and "j < 40 \<Longrightarrow> c \<in> dom (Us ! j) \<Longrightarrow>
           bh_node_id m' c = bh_node_id (w_mem w) c \<and> bh_size_class m' c = bh_size_class (w_mem w) c"
proof -
  have len: "length Us = 40" using owns by (simp add: sm_owns_def)
  have blk: "cell c = {unat c + 32 ..< unat c + 40} \<and> cell c \<subseteq> A \<and> {unat c ..< unat c + 16} \<subseteq> A \<and>
      unat c + 65536 < 18446744073709551616"
    if c: "j < 40" "(Us ! j) c = Some A" for j c A
  proof -
    note B = sc_owns_block [OF sm_owns_class(1) [OF owns c(1)] c(2)] sm_owns_class(2) [OF owns c(1)]
    have "48 \<le> slab_stride (kClassSizes ! j)"
      using slab_stride_bounds(1) kClassSizes_bounds(2) [OF c(1)] by blast
    then show ?thesis using B by (auto simp: client_bytes_def bh_bytes [OF B(3)])
  qed
  have cells: "x \<in> fam_granted Us" if x: "x \<in> (\<Union>y\<in>set q. cell y)" for x
  proof -
    obtain y A where y: "(Us ! i) y = Some A" "x \<in> cell y" using x q by blast
    then show ?thesis using blk [OF i y(1)] sm_grant_part [OF i len y(1)] by blast
  qed
  then have ag': "agree_on (- fam_granted Us) (w_mem w) m'" by (intro agree_on_mono [OF ag]) blast
  show "sm_owns os sm (w\<lparr>w_mem := m'\<rparr>) Fs Us" by (rule sm_owns_write [OF owns ag'])
  show "frame_step (fam Fs) w (fam Fs) (w\<lparr>w_mem := m'\<rparr>)"
    using sm_granted_fam [OF owns]
    by (intro frame_step_write sm_owns_mapped [OF owns] agree_on_mono [OF ag']) auto
  have out: "agree_on A (w_mem w) m'" if c: "j < 40" "(Us ! j) c = Some A" "j \<noteq> i \<or> c \<notin> set q" for j c A
  proof -
    have "A \<inter> cell y = {}" if y: "y \<in> set q" for y
    proof -
      obtain B where B: "(Us ! i) y = Some B" using q y by blast
      have "(j, c) \<noteq> (i, y)" using c(3) y by auto
      from sm_blocks_apart [OF owns c(1) i c(2) B this] blk [OF i B] show ?thesis by blast
    qed
    then show ?thesis by (intro agree_on_mono [OF ag]) blast
  qed
  show "j < 40 \<Longrightarrow> (Us ! j) c = Some A \<Longrightarrow> j \<noteq> i \<or> c \<notin> set q \<Longrightarrow> agree_on A (w_mem w) m'" by (rule out)
  assume j: "j < 40" and "c \<in> dom (Us ! j)"
  then obtain A where c: "(Us ! j) c = Some A" by auto
  note B = blk [OF j c]
  have "{unat c ..< unat c + 16} \<inter> cell y = {}" if y: "y \<in> set q" for y
  proof (cases "j = i \<and> c = y")
    case True
    then show ?thesis using B by auto
  next
    case False
    obtain D where D: "(Us ! i) y = Some D" using q y by blast
    have "A \<inter> D = {}" using False by (intro sm_blocks_apart [OF owns j i c D]) auto
    then show ?thesis using B blk [OF i D] by blast
  qed
  then have h: "agree_on {unat c ..< unat c + 16} (w_mem w) m'" by (intro agree_on_mono [OF ag]) blast
  have hb: "unat c + 65536 < 18446744073709551616" using B by simp
  show "bh_node_id m' c = bh_node_id (w_mem w) c \<and> bh_size_class m' c = bh_size_class (w_mem w) c"
    unfolding header_field_defs
    by (intro conjI; rule s32.get_local, rule agree_on_mono [OF h], simp add: bh_bytes [OF hb])
qed

text \<open>Writing the links of the bin of class \<open>i\<close>, when its new list is known, keeps the rest.\<close>

lemma core_ok_links:
  assumes core: "core_ok os node sm bins fbytes Fs Us qs w" and i: "i < 40"
    and q: "set q \<subseteq> dom (Us ! i)" and q0: "set (qs ! i) \<subseteq> set q"
    and ag: "agree_on (- (\<Union>x\<in>set q. cell x)) (w_mem w) m'"
    and bin: "fbin_ok m' i bin' q'" and q': "set q' \<subseteq> set q"
    and fb: "unat fbytes' + unat (fl_bytes (bins ! i)) = unat fbytes + unat (fl_bytes bin')"
  shows "core_ok os node sm (bins[i := bin']) fbytes' Fs Us (qs[i := q']) (w\<lparr>w_mem := m'\<rparr>)"
proof -
  have owns: "sm_owns os sm w Fs Us" and bins: "bins_ok (w_mem w) bins fbytes qs Us"
    and hdr: "headers_ok node (w_mem w) Us" using core by (simp_all add: core_ok_def)
  note L = link_writes [OF owns i q ag]
  have len: "length bins = 40" "length qs = 40" using bins by (simp_all add: bins_ok_def)
  have "fbin_ok m' j (bins[i := bin'] ! j) (qs[i := q'] ! j) \<and> set (qs[i := q'] ! j) \<subseteq> dom (Us ! j)"
    if j: "j < 40" for j
  proof (cases "j = i")
    case True
    then show ?thesis using bin q q' i len by auto
  next
    case False
    have s: "set (qs ! j) \<subseteq> dom (Us ! j)" and ok: "fbin_ok (w_mem w) j (bins ! j) (qs ! j)"
      using bins j by (simp_all add: bins_ok_def)
    have "next_link m' c = next_link (w_mem w) c" if c: "c \<in> set (qs ! j)" for c
    proof -
      obtain A where A: "(Us ! j) c = Some A" using s c by blast
      have "agree_on A (w_mem w) m'" by (rule L(3) [OF j A]) (use False in simp)
      then show ?thesis by (rule sm_block_local(3) [OF owns j A])
    qed
    then have "chain (next_link m') p (qs ! j) = chain (next_link (w_mem w)) p (qs ! j)" for p
      by (rule chain_cong)
    then show ?thesis using False s ok by (simp add: fbin_ok_def)
  qed
  moreover have "unat fbytes' = sum_list (map (\<lambda>b. unat (fl_bytes b)) (bins[i := bin']))"
  proof -
    have "sum_list (map (\<lambda>b. unat (fl_bytes b)) (bins[i := bin'])) + unat (fl_bytes (bins ! i)) =
        sum_list (map (\<lambda>b. unat (fl_bytes b)) bins) + unat (fl_bytes bin')"
      using i len nth_le_sum_list [of i "map (\<lambda>b. unat (fl_bytes b)) bins"]
      by (simp add: map_update sum_list_update_nat)
    then show ?thesis using fb bins by (simp add: bins_ok_def)
  qed
  ultimately have "bins_ok m' (bins[i := bin']) fbytes' (qs[i := q']) Us" using len by (simp add: bins_ok_def)
  moreover have "headers_ok node m' Us" using hdr L(4) by (simp add: headers_ok_def)
  ultimately show ?thesis using L(1) core by (simp add: core_ok_def)
qed

lemma sm_cells_apart:
  assumes owns: "sm_owns os sm w Fs Us" and i: "i < 40"
    and x: "x \<in> dom (Us ! i)" and y: "y \<in> dom (Us ! i)" and ne: "x \<noteq> y"
  shows "cell x \<inter> cell y = {}"
proof -
  obtain A where A: "(Us ! i) x = Some A" using x by blast
  obtain B where B: "(Us ! i) y = Some B" using y by blast
  note bx = sc_owns_block [OF sm_owns_class(1) [OF owns i] A] and
    by' = sc_owns_block [OF sm_owns_class(1) [OF owns i] B]
  have st: "48 \<le> slab_stride (kClassSizes ! i)"
    using slab_stride_bounds(1) kClassSizes_bounds(2) [OF i] by blast
  have "cell x \<subseteq> A" "cell y \<subseteq> B"
    using bx by' sm_owns_class(2) [OF owns i] st
    by (auto simp: client_bytes_def bh_bytes [OF bx(3)] bh_bytes [OF by'(3)])
  then show ?thesis using sm_blocks_apart [OF owns i i A B] ne by blast
qed

text \<open>The push, and what the loop leaves when the bin overflows: in both cases a bin at or
  below its high watermark and a batch of the blocks taken from it.\<close>

lemma enqueue_bin_ok:
  assumes owns: "sm_owns os sm w Fs Us" and i: "i < 40"
    and ok: "fbin_ok (w_mem w) i bin q" and sub: "set q \<subseteq> dom (Us ! i)"
    and b: "b \<in> dom (Us ! i)" "b \<notin> set q"
  defines "cs \<equiv> kClassSizes ! i"
  defines "m1 \<equiv> set_next_link b (fl_head bin) (w_mem w)"
  defines "bin1 \<equiv> bin\<lparr>fl_head := b, fl_count := fl_count bin + 1,
    fl_bytes := fl_bytes bin + cs\<rparr>"
  shows "\<exists>k batch bin2 m2. k \<le> Suc (length q) \<and>
    (if fl_bytes bin1 > foreign_high_watermark cs
     then detach_foreign_until_low_locked bin1 cs (foreign_low_watermark cs) m1
     else Some (empty_foreign, bin1, m1)) = Some (batch, bin2, m2) \<and>
    fbin_ok m2 i bin2 (drop k (b # q)) \<and>
    chain (next_link m2) (fl_head batch) (rev (take k (b # q))) \<and>
    unat (fl_bytes batch) = k * unat cs \<and>
    unat (fl_bytes bin2) + k * unat cs = unat (fl_bytes bin) + unat cs \<and>
    agree_on (- (\<Union>x\<in>set (b # q). cell x)) (w_mem w) m2"
proof -
  let ?q = q and ?high = "foreign_high_watermark cs"
  have ch: "chain (next_link (w_mem w)) (fl_head bin) ?q"
    and cnt: "unat (fl_count bin) = length ?q" and byt: "unat (fl_bytes bin) = length ?q * unat cs"
    and hi: "fl_bytes bin \<le> ?high" using ok by (simp_all add: fbin_ok_def cs_def)
  note hw = high_watermark_value [OF i, folded cs_def]
  have cs: "16 \<le> unat cs" "unat cs \<le> 4096" using kClassSizes_bounds(1,2) [OF i] by (simp_all add: cs_def)
  have bb: "unat (fl_bytes bin) \<le> 2097152" using hi hw(1) by (simp add: word_le_nat_alt)
  have "length ?q * 16 \<le> length ?q * unat cs" using cs by (intro mult_le_mono2)
  then have lq: "length ?q \<le> 131072" using byt bb by linarith
  have apart: "cell x \<inter> cell y = {}" if "x \<in> insert b (set ?q)" "y \<in> insert b (set ?q)" "x \<noteq> y" for x y
    using that b(1) sub by (intro sm_cells_apart [OF owns i]) auto
  have bn: "b \<noteq> nullptr"
  proof -
    obtain A where "(Us ! i) b = Some A" using b(1) by blast
    from sc_owns_block(4) [OF sm_owns_class(1) [OF owns i] this] show ?thesis .
  qed
  have ch1: "chain (next_link m1) b (b # ?q)"
    unfolding m1_def using apart b(2) by (intro fl.chain_push [OF ch bn]) auto
  have c1: "unat (fl_count bin1) = length (b # ?q)"
    using cnt lq by (simp add: bin1_def unat_add_u64)
  have u1: "unat (fl_bytes bin1) = length (b # ?q) * unat cs"
    using byt bb cs by (simp add: bin1_def unat_add_u64)
  have ag1: "agree_on (- (\<Union>x\<in>set (b # ?q). cell x)) (w_mem w) m1"
    unfolding m1_def by (rule fl.set_link_agree) auto
  show ?thesis
  proof (cases "fl_bytes bin1 > ?high")
    case False
    then have "fbin_ok m1 i bin1 (b # ?q)"
      using ch1 c1 u1 by (simp add: fbin_ok_def cs_def bin1_def)
    then show ?thesis
      using False ag1 u1 byt
      by (intro exI [of _ 0] exI [of _ empty_foreign] exI [of _ bin1] exI [of _ m1])
        (simp add: empty_foreign_def)
  next
    case True
    have lim: "(length (b # ?q) + length ([] :: ptr list)) * unat cs < 18446744073709551616"
      using u1 unat_u64_bound [of "fl_bytes bin1"] by (simp only: list.size add_0_right)
    have dist: "distinct ((b # ?q) @ [])" using chain_distinct [OF ch] b(2) by simp
    have chb: "chain (next_link m1) (fl_head bin1) (b # ?q)" using ch1 by (simp add: bin1_def)
    have e: "chain (next_link m1) (fl_head empty_foreign) []"
      "unat (fl_bytes empty_foreign) = length ([] :: ptr list) * unat cs"
      by (simp_all add: empty_foreign_def)
    have cnz: "cs \<noteq> 0" using cs by auto
    have apart': "\<forall>x\<in>set (b # ?q). \<forall>y\<in>set ((b # ?q) @ []). x \<noteq> y \<longrightarrow> cell x \<inter> cell y = {}"
      using apart by simp
    obtain k batch bin2 m2 where R: "k \<le> length (b # ?q)"
      "detach_low_loop cs (foreign_low_watermark cs) empty_foreign bin1 m1 = Some (batch, bin2, m2)"
      "chain (next_link m2) (fl_head batch) (rev (take k (b # ?q)) @ [])"
      "chain (next_link m2) (fl_head bin2) (drop k (b # ?q))"
      "unat (fl_count bin2) = length (b # ?q) - k" "unat (fl_bytes bin2) = (length (b # ?q) - k) * unat cs"
      "unat (fl_bytes batch) = (k + length ([] :: ptr list)) * unat cs"
      "k = length (b # ?q) \<or> fl_bytes bin2 \<le> foreign_low_watermark cs"
      "agree_on (- (\<Union>x\<in>set (b # ?q). cell x)) m1 m2"
      using detach_low_loop_ok [OF chb e(1) c1 u1 e(2) lim cnz dist apart', of "foreign_low_watermark cs"]
      by (elim exE conjE)
    have low: "foreign_low_watermark cs \<le> ?high"
      by (simp add: foreign_low_watermark_def word_le_nat_alt unat_div)
    have "fl_bytes bin2 \<le> ?high"
    proof (cases "k = length (b # ?q)")
      case True
      then show ?thesis using R(6) by (simp add: word_le_nat_alt)
    next
      case False
      then show ?thesis using R(8) low by simp
    qed
    then have ok2: "fbin_ok m2 i bin2 (drop k (b # ?q))"
      using R(4-6) by (simp add: fbin_ok_def cs_def)
    have sum: "unat (fl_bytes bin2) + k * unat cs = unat (fl_bytes bin) + unat cs"
    proof -
      have "(length (b # ?q) - k) * unat cs + k * unat cs = length (b # ?q) * unat cs"
        using R(1) by (simp only: add_mult_distrib [symmetric] le_add_diff_inverse2)
      then show ?thesis using R(6) byt by simp
    qed
    have "agree_on (- (\<Union>x\<in>set (b # ?q). cell x)) (w_mem w) m2" using ag1 R(9) by (rule agree_on_trans)
    then show ?thesis
      using True R ok2 sum
      by (intro exI [of _ k] exI [of _ batch] exI [of _ bin2] exI [of _ m2])
        (simp add: detach_foreign_until_low_locked_def)
  qed
qed

lemma fam_granted_mono:
  assumes "length Us = 40" and "length Vs = 40"
    and "\<And>j c A. j < 40 \<Longrightarrow> (Us ! j) c = Some A \<Longrightarrow> (Vs ! j) c = Some A"
  shows "fam_granted Us \<subseteq> fam_granted Vs"
proof
  fix x assume "x \<in> fam_granted Us"
  then obtain j c A where j: "j < 40" "(Us ! j) c = Some A" "x \<in> A"
    using assms(1) by (auto simp: fam_granted_nth [of _ 40] granted_def ran_def)
  have "A \<subseteq> fam_granted Vs" by (rule sm_grant_part [OF j(1) assms(2) assms(3) [OF j(1,2)]])
  with j(3) show "x \<in> fam_granted Vs" by blast
qed

lemma enqueue_foreign_small_ok:
  assumes core: "core_ok os node (ar_small ar) (ar_foreign_bins ar) (ar_foreign_bytes ar) Fs Us qs w"
    and i: "i < 40" and b: "b \<in> dom (Us ! i)" "b \<notin> set (qs ! i)"
  shows "\<exists>ar' w' Fs' Us' qs'. enqueue_foreign_small os b ar w = Some (Inr (), ar', w') \<and>
    core_ok os node (ar_small ar') (ar_foreign_bins ar') (ar_foreign_bytes ar') Fs' Us' qs' w' \<and>
    frame_step (fam Fs) w (fam Fs') w' \<and>
    us_of Us' qs' = (us_of Us qs)[i := (us_of Us qs ! i)(b := None)] \<and>
    agree_on (fam_granted (us_of Us' qs')) (w_mem w) (w_mem w') \<and>
    ar' = ar\<lparr>ar_small := ar_small ar', ar_foreign_bins := ar_foreign_bins ar',
             ar_foreign_bytes := ar_foreign_bytes ar'\<rparr>"
proof -
  let ?q = "qs ! i" and ?bin = "ar_foreign_bins ar ! i"
  define cs where "cs = kClassSizes ! i"
  define m1 where "m1 = set_next_link b (fl_head ?bin) (w_mem w)"
  define bin1 where "bin1 = ?bin\<lparr>fl_head := b, fl_count := fl_count ?bin + 1, fl_bytes := fl_bytes ?bin + cs\<rparr>"
  define fb1 where "fb1 = ar_foreign_bytes ar + cs"
  have owns: "sm_owns os (ar_small ar) w Fs Us"
    and bins: "bins_ok (w_mem w) (ar_foreign_bins ar) (ar_foreign_bytes ar) qs Us"
    and hdr: "headers_ok node (w_mem w) Us" using core by (simp_all add: core_ok_def)
  have len: "length Us = 40" "length qs = 40" using owns bins by (simp_all add: sm_owns_def bins_ok_def)
  have sub: "set ?q \<subseteq> dom (Us ! i)" and ok0: "fbin_ok (w_mem w) i ?bin ?q"
    using bins i by (simp_all add: bins_ok_def)
  have hcs: "ucast (bh_size_class (w_mem w) b) = cs"
    using hdr i b(1) ucast_class_size [OF i] by (simp add: headers_ok_def cs_def)
  have ui: "unat (of_nat i :: u64) = i" using i by (simp add: unat_of_nat_u64)
  obtain k batch bin2 m2 where E: "k \<le> Suc (length ?q)"
    "(if fl_bytes bin1 > foreign_high_watermark cs
      then detach_foreign_until_low_locked bin1 cs (foreign_low_watermark cs) m1
      else Some (empty_foreign, bin1, m1)) = Some (batch, bin2, m2)"
    "fbin_ok m2 i bin2 (drop k (b # ?q))"
    "chain (next_link m2) (fl_head batch) (rev (take k (b # ?q)))"
    "unat (fl_bytes batch) = k * unat cs"
    "unat (fl_bytes bin2) + k * unat cs = unat (fl_bytes ?bin) + unat cs"
    "agree_on (- (\<Union>x\<in>set (b # ?q). cell x)) (w_mem w) m2"
    using enqueue_bin_ok [OF owns i ok0 sub b] unfolding cs_def [symmetric] m1_def [symmetric] bin1_def [symmetric]
    by (elim exE conjE)
  define fb2 where "fb2 = (if fl_bytes batch \<noteq> 0 then fb1 - fl_bytes batch else fb1)"
  have cs4: "unat cs \<le> 4096" using kClassSizes_bounds(2) [OF i] by (simp add: cs_def)
  have fb1: "unat fb1 = unat (ar_foreign_bytes ar) + unat cs"
    unfolding fb1_def using bins_ok_bound [OF bins] cs4 by (intro unat_add_u64) simp
  have ble: "unat (fl_bytes ?bin) \<le> unat (ar_foreign_bytes ar)"
    using bins i nth_le_sum_list [of i "map (\<lambda>b. unat (fl_bytes b)) (ar_foreign_bins ar)"]
    by (simp add: bins_ok_def)
  have kle: "unat (fl_bytes batch) \<le> unat fb1" using E(5,6) ble fb1 by linarith
  have fb2: "unat fb2 = unat fb1 - unat (fl_bytes batch)"
    using kle by (simp add: fb2_def unat_sub_u64)
  have sum: "unat fb2 + unat (fl_bytes ?bin) = unat (ar_foreign_bytes ar) + unat (fl_bytes bin2)"
    using fb2 fb1 E(5,6) kle by linarith
  have qsub: "set (b # ?q) \<subseteq> dom (Us ! i)" using b(1) sub by auto
  let ?w2 = "w\<lparr>w_mem := m2\<rparr>" and ?qs2 = "qs[i := drop k (b # ?q)]"
  have core2: "core_ok os node (ar_small ar) ((ar_foreign_bins ar)[i := bin2]) fb2 Fs Us ?qs2 ?w2"
    by (rule core_ok_links [OF core i qsub _ E(7,3) _ sum]) (auto dest: in_set_dropD)
  note L = link_writes [OF owns i qsub E(7)]
  have d: "distinct (b # ?q)"
    using bins i b(2) by (auto simp: bins_ok_def fbin_ok_def dest!: chain_distinct)
  have app: "set (take k (b # ?q)) \<union> set (drop k (b # ?q)) = set (b # ?q)"
    by (metis append_take_drop_id set_append)
  have tsub: "set (rev (take k (b # ?q))) \<subseteq> dom (Us ! unat (of_nat i :: u64))"
    using qsub app by (auto simp: ui)
  have tapart: "set (rev (take k (b # ?q))) \<inter> set (?qs2 ! unat (of_nat i :: u64)) = {}"
    using d i len set_take_disj_set_drop_if_distinct [of "b # ?q" k k] by (simp add: ui)
  have i': "unat (of_nat i :: u64) < 40" using i by (simp add: ui)
  let ?Us3 = "Us[i := (Us ! i) |` (- set (take k (b # ?q)))]"
  obtain sm3 w3 F3 where D: "drain_foreign_batch os (of_nat i) batch (ar_small ar) ?w2 = Some (Inr (), sm3, w3)"
    "core_ok os node sm3 ((ar_foreign_bins ar)[i := bin2]) fb2 (Fs[i := F3]) ?Us3 ?qs2 w3"
    "frame_step (fam Fs) ?w2 (fam (Fs[i := F3])) w3"
    "agree_on (fam_granted ?Us3) (w_mem ?w2) (w_mem w3)"
    using drain_foreign_batch_ok [OF core2 i' _ tsub tapart, of batch] E(4) unfolding ui set_rev by auto
  define ar' where "ar' = ar\<lparr>ar_foreign_bins := (ar_foreign_bins ar)[i := bin2], ar_foreign_bytes := fb2,
    ar_small := sm3\<rparr>"
  have run: "enqueue_foreign_small os b ar w = Some (Inr (), ar', w3)"
    unfolding enqueue_foreign_small_def Let_def hcs class_index_of_class [OF i, folded cs_def] sum.case ui
      m1_def [symmetric] bin1_def [symmetric] E(2) fb1_def [symmetric]
    using D(1) by (simp add: fb2_def [symmetric] ar'_def)
  have us: "us_of ?Us3 ?qs2 = (us_of Us qs)[i := (us_of Us qs ! i)(b := None)]"
  proof (rule nth_equalityI)
    fix j assume "j < length (us_of ?Us3 ?qs2)"
    then have j: "j < 40" by simp
    show "us_of ?Us3 ?qs2 ! j = (us_of Us qs)[i := (us_of Us qs ! i)(b := None)] ! j"
    proof (cases "j = i")
      case True
      have "- set (take k (b # ?q)) \<inter> - set (drop k (b # ?q)) = - insert b (set ?q)" using app by auto
      then show ?thesis
        using True j i len by (auto simp: restrict_map_def fun_eq_iff)
    next
      case False
      then show ?thesis using j by simp
    qed
  qed simp
  have "agree_on (fam_granted (us_of ?Us3 ?qs2)) (w_mem w) m2"
  proof (rule agree_onI)
    fix x assume "x \<in> fam_granted (us_of ?Us3 ?qs2)"
    then obtain j c A where j: "j < 40" "(us_of ?Us3 ?qs2 ! j) c = Some A" "x \<in> A"
      by (auto simp: fam_granted_nth [of _ 40] granted_def ran_def)
    have "(Us ! j) c = Some A \<and> (j \<noteq> i \<or> c \<notin> set (b # ?q))"
      using j(1,2) i unfolding us
      by (cases "j = i") (auto simp: restrict_map_def split: if_splits)
    then have "agree_on A (w_mem w) m2" using L(3) [OF j(1)] by blast
    with j(3) show "m2 x = w_mem w x" by (simp add: agree_on_def)
  qed
  moreover have "agree_on (fam_granted (us_of ?Us3 ?qs2)) m2 (w_mem w3)"
    using D(4) us_of_granted [of ?Us3 ?qs2] len agree_on_mono by simp
  ultimately have "agree_on (fam_granted (us_of ?Us3 ?qs2)) (w_mem w) (w_mem w3)" by (rule agree_on_trans)
  moreover have "frame_step (fam Fs) w (fam (Fs[i := F3])) w3" using L(2) D(3) by (rule frame_step_trans)
  ultimately show ?thesis
    using run D(2) us
    by (intro exI [of _ ar'] exI [of _ w3] exI [of _ "Fs[i := F3]"] exI [of _ ?Us3] exI [of _ ?qs2])
      (simp add: ar'_def)
qed

subsection \<open>What an arena owns\<close>

definition ar_inv ::
  "os \<Rightarrow> arena \<Rightarrow> nat set list \<Rightarrow> grants list \<Rightarrow> ptr list list \<Rightarrow> la_block list \<Rightarrow> world \<Rightarrow> bool" where
  "ar_inv os ar Fs Us qs lv w \<longleftrightarrow>
     core_ok os (ar_node_id ar) (ar_small ar) (ar_foreign_bins ar) (ar_foreign_bytes ar) Fs Us qs w \<and>
     la_inv os (ar_large ar) lv w \<and> la_node_id (ar_large ar) = ar_node_id ar \<and>
     fam Fs \<inter> pool_area (la_pool (ar_large ar) lv) = {} \<and>
     - (2 ^ 31) \<le> ar_node_id ar \<and> ar_node_id ar < 2 ^ 31"

definition ar_foot :: "arena \<Rightarrow> nat set list \<Rightarrow> la_block list \<Rightarrow> nat set" where
  "ar_foot ar Fs lv = fam Fs \<union> pool_area (la_pool (ar_large ar) lv)"

text \<open>The grants of the users: a user area within the class of a block that is not queued, or
  a block of the large allocator.\<close>

definition ar_grants :: "grants list \<Rightarrow> la_block list \<Rightarrow> grants \<Rightarrow> bool" where
  "ar_grants Vs lv U \<longleftrightarrow>
     (\<forall>p A. U p = Some A \<longrightarrow>
        (\<exists>j<40. from_user_ptr p \<in> dom (Vs ! j) \<and> A \<subseteq> bytes_of p (unat (kClassSizes ! j))) \<or>
        la_grants lv p = Some A) \<and>
     (\<forall>j<40. \<forall>b\<in>dom (Vs ! j). U (to_user_ptr b) \<noteq> None) \<and>
     (\<forall>p. la_grants lv p \<noteq> None \<longrightarrow> U p = la_grants lv p)"

definition ar_owns :: "os \<Rightarrow> arena \<Rightarrow> world \<Rightarrow> nat set \<Rightarrow> grants \<Rightarrow> bool" where
  "ar_owns os ar w F U \<longleftrightarrow> (\<exists>Fs Us qs lv. ar_inv os ar Fs Us qs lv w \<and> F = ar_foot ar Fs lv \<and>
     ar_grants (us_of Us qs) lv U)"

lemma core_ok_frame:
  assumes core: "core_ok os node sm bins fbytes Fs Us qs w" and fs: "frame_step G w G' w'"
    and dj: "fam Fs \<inter> G = {}"
  shows "core_ok os node sm bins fbytes Fs Us qs w'"
proof -
  have owns: "sm_owns os sm w Fs Us" and bins: "bins_ok (w_mem w) bins fbytes qs Us"
    and hdr: "headers_ok node (w_mem w) Us" using core by (simp_all add: core_ok_def)
  have len: "length Us = 40" using owns by (simp add: sm_owns_def)
  note K = frame_step_mem [OF dj sm_owns_mapped [OF owns] fs]
  have loc: "bh_node_id (w_mem w') b = bh_node_id (w_mem w) b \<and>
      bh_size_class (w_mem w') b = bh_size_class (w_mem w) b \<and>
      next_link (w_mem w') b = next_link (w_mem w) b" if b: "j < 40" "b \<in> dom (Us ! j)" for j b
  proof -
    obtain A where A: "(Us ! j) b = Some A" using b by blast
    have "A \<subseteq> fam Fs" using sm_grant_part [OF b(1) len A] sm_granted_fam [OF owns] by blast
    then have "agree_on A (w_mem w) (w_mem w')" using K agree_on_mono by blast
    from sm_block_local [OF owns b(1) A this] show ?thesis by simp
  qed
  have qd: "set (qs ! j) \<subseteq> dom (Us ! j)" if "j < 40" for j using bins that by (simp add: bins_ok_def)
  have "bins_ok (w_mem w') bins fbytes qs Us"
    using qd loc by (intro bins_ok_chain_cong [OF bins]) blast+
  moreover have "headers_ok node (w_mem w') Us" using hdr loc by (simp add: headers_ok_def)
  ultimately show ?thesis using sm_owns_frame [OF owns fs dj] core by (simp add: core_ok_def)
qed

text \<open>A write of the users in the user areas of blocks that are not queued.\<close>

lemma core_ok_write:
  assumes core: "core_ok os node sm bins fbytes Fs Us qs w"
    and ag: "agree_on (- (\<Union>j<40. \<Union>b\<in>dom (us_of Us qs ! j). bytes_of (to_user_ptr b) (unat (kClassSizes ! j))))
      (w_mem w) m'"
  shows "core_ok os node sm bins fbytes Fs Us qs (w\<lparr>w_mem := m'\<rparr>)"
proof -
  have owns: "sm_owns os sm w Fs Us" and bins: "bins_ok (w_mem w) bins fbytes qs Us"
    and hdr: "headers_ok node (w_mem w) Us" using core by (simp_all add: core_ok_def)
  have len: "length Us = 40" using owns by (simp add: sm_owns_def)
  let ?W = "\<Union>j<40. \<Union>b\<in>dom (us_of Us qs ! j). bytes_of (to_user_ptr b) (unat (kClassSizes ! j))"
  have area: "bytes_of (to_user_ptr b) (unat (kClassSizes ! j)) \<subseteq> A \<inter> {unat b + 32..} \<and>
      unat b + 65536 < 18446744073709551616 \<and> {unat b ..< unat b + 16} \<subseteq> A \<and> cell b \<subseteq> A"
    if b: "j < 40" "(Us ! j) b = Some A" for j b A
  proof -
    note B = sc_owns_block [OF sm_owns_class(1) [OF owns b(1)] b(2)] sm_owns_class(2) [OF owns b(1)]
    have c: "unat (kClassSizes ! j) \<le> 4096" by (rule kClassSizes_bounds(2) [OF b(1)])
    show ?thesis
      using B slab_stride_bounds(1,4) [OF c]
      by (auto simp: client_bytes_def bh_bytes [OF B(3)])
  qed
  have W: "\<exists>j b A. j < 40 \<and> (Us ! j) b = Some A \<and> b \<notin> set (qs ! j) \<and> x \<in> A \<and> unat b + 32 \<le> x"
    if x: "x \<in> ?W" for x
  proof -
    obtain j b where j: "j < 40" "b \<in> dom (us_of Us qs ! j)"
      "x \<in> bytes_of (to_user_ptr b) (unat (kClassSizes ! j))" using x by blast
    then obtain A where "(Us ! j) b = Some A" "b \<notin> set (qs ! j)"
      by (auto simp: restrict_map_def split: if_splits)
    with area [OF j(1)] j show ?thesis by blast
  qed
  have "?W \<subseteq> fam_granted Us" using W sm_grant_part [OF _ len] by blast
  then have owns': "sm_owns os sm (w\<lparr>w_mem := m'\<rparr>) Fs Us"
    by (intro sm_owns_write [OF owns] agree_on_mono [OF ag]) auto
  have h: "bh_node_id m' c = bh_node_id (w_mem w) c \<and> bh_size_class m' c = bh_size_class (w_mem w) c"
    if c: "j < 40" "c \<in> dom (Us ! j)" for j c
  proof -
    obtain A where A: "(Us ! j) c = Some A" using c by blast
    have "x \<notin> ?W" if x: "x \<in> {unat c ..< unat c + 16}" for x
    proof
      assume "x \<in> ?W"
      from W [OF this] obtain i b B where b: "i < 40" "(Us ! i) b = Some B" "x \<in> B" "unat b + 32 \<le> x" by blast
      have "x \<in> A" using area [OF c(1) A] x by blast
      then have "(j, c) = (i, b)" using sm_blocks_apart [OF owns c(1) b(1) A b(2)] b(3) by blast
      then show False using x b(4) by simp
    qed
    then have ag16: "agree_on {unat c ..< unat c + 16} (w_mem w) m'" by (intro agree_on_mono [OF ag]) blast
    have hb: "unat c + 65536 < 18446744073709551616" using area [OF c(1) A] by simp
    show ?thesis
      unfolding header_field_defs
      by (intro conjI; rule s32.get_local, rule agree_on_mono [OF ag16], simp add: bh_bytes [OF hb])
  qed
  have l: "next_link m' c = next_link (w_mem w) c" if c: "j < 40" "c \<in> set (qs ! j)" for j c
  proof -
    obtain A where A: "(Us ! j) c = Some A" using bins c by (auto simp: bins_ok_def)
    have "x \<notin> ?W" if x: "x \<in> A" for x
    proof
      assume "x \<in> ?W"
      from W [OF this] obtain i b B where b: "i < 40" "(Us ! i) b = Some B" "b \<notin> set (qs ! i)" "x \<in> B" by blast
      have "(j, c) \<noteq> (i, b)" using c b(3) by auto
      from sm_blocks_apart [OF owns c(1) b(1) A b(2) this] show False using x b(4) by blast
    qed
    then have "agree_on A (w_mem w) m'" by (intro agree_on_mono [OF ag]) blast
    then show ?thesis by (rule sm_block_local(3) [OF owns c(1) A])
  qed
  have "bins_ok m' bins fbytes qs Us"
    using l bins by (intro bins_ok_chain_cong [OF bins]) (auto simp: bins_ok_def)
  moreover have "headers_ok node m' Us" using hdr h by (simp add: headers_ok_def)
  ultimately show ?thesis using owns' core by (simp add: core_ok_def)
qed

lemma ar_invD:
  assumes "ar_inv os ar Fs Us qs lv w"
  shows "os_ok os" and "sm_owns os (ar_small ar) w Fs Us" and "length Us = 40" and "length qs = 40"
    and "la_inv os (ar_large ar) lv w" and "ar_foot ar Fs lv \<subseteq> mapped w"
    and "distinct (map fst lv)"
proof -
  show o: "sm_owns os (ar_small ar) w Fs Us" using assms by (simp add: ar_inv_def core_ok_def)
  then show "os_ok os" by (rule sm_owns_os)
  show "length Us = 40" using o by (simp add: sm_owns_def)
  show "length qs = 40" using assms by (simp add: ar_inv_def core_ok_def bins_ok_def)
  show l: "la_inv os (ar_large ar) lv w" using assms by (simp add: ar_inv_def)
  then show "ar_foot ar Fs lv \<subseteq> mapped w" "distinct (map fst lv)"
    using sm_owns_mapped [OF o] by (simp_all add: ar_foot_def la_inv_def)
qed

text \<open>A small block in the hands of a user: its user area lies in the class, in the bytes of the
  small allocator.\<close>

lemma ar_small_block:
  assumes inv: "ar_inv os ar Fs Us qs lv w" and j: "j < 40" and b: "b \<in> dom (us_of Us qs ! j)"
  shows "\<exists>A. (Us ! j) b = Some A \<and> bytes_of (to_user_ptr b) (unat (kClassSizes ! j)) \<subseteq> A \<and>
      unat b \<in> A \<and> A \<subseteq> fam Fs"
    and "b \<notin> set (qs ! j)" and "unat (to_user_ptr b) = unat b + 32" and "16 dvd unat b"
    and "unat b + 32 + unat (kClassSizes ! j) \<le> 2 ^ 63"
proof -
  note I = ar_invD [OF inv]
  obtain A where A: "(Us ! j) b = Some A" and nq: "b \<notin> set (qs ! j)"
    using b j by (auto simp: restrict_map_def split: if_splits)
  note B = sc_owns_block [OF sm_owns_class(1) [OF I(2) j] A] sm_owns_class(2) [OF I(2) j]
  have c: "unat (kClassSizes ! j) \<le> 4096" by (rule kClassSizes_bounds(2) [OF j])
  have "bytes_of (to_user_ptr b) (unat (kClassSizes ! j)) \<subseteq> A \<and> unat b \<in> A"
    using B slab_stride_bounds(4) [OF c] by (auto simp: client_bytes_def bh_bytes [OF B(3)])
  moreover have "A \<subseteq> fam Fs" using sm_grant_part [OF j I(3) A] sm_granted_fam [OF I(2)] by blast
  ultimately show "\<exists>A. (Us ! j) b = Some A \<and> bytes_of (to_user_ptr b) (unat (kClassSizes ! j)) \<subseteq> A \<and>
      unat b \<in> A \<and> A \<subseteq> fam Fs" using A by blast
  show "b \<notin> set (qs ! j)" by (rule nq)
  show "unat (to_user_ptr b) = unat b + 32" using B(3) by (simp add: user_ptr_defs unat_plus_numeral)
  show "16 dvd unat b" by (rule B(2))
  show "unat b + 32 + unat (kClassSizes ! j) \<le> 2 ^ 63" using B(5,6) by simp
qed

lemma ar_large_block:
  assumes inv: "ar_inv os ar Fs Us qs lv w" and p: "la_grants lv p \<noteq> None"
  shows "unat (from_user_ptr p) \<in> pool_area (la_pool (ar_large ar) lv)"
    and "\<exists>b. b \<in> set lv \<and> fst b = p" and "32 \<le> unat p"
proof -
  note I = ar_invD [OF inv]
  obtain raw span sz where b: "(p, raw, span, sz) \<in> set lv"
    using p la_grants_iff [OF I(7), of p] by auto
  then show "\<exists>b. b \<in> set lv \<and> fst b = p" by force
  have bok: "block_ok (la_node_id (ar_large ar)) (w_mem w) (p, raw, span, sz)" by (rule la_inv_block [OF I(5) b])
  then show u: "32 \<le> unat p" by (simp add: block_ok_def)
  have "unat (from_user_ptr p) = unat p - 32" using u by (simp add: user_ptr_defs unat_sub_u64)
  moreover have "unat p - 32 \<in> {unat p - 32 ..< unat p + unat sz}" using u by simp
  ultimately show "unat (from_user_ptr p) \<in> pool_area (la_pool (ar_large ar) lv)"
    using block_area [OF bok refl] la_inv_span_pool [OF I(5) b] by auto
qed

lemma ar_not_both:
  assumes inv: "ar_inv os ar Fs Us qs lv w" and j: "j < 40" and b: "from_user_ptr p \<in> dom (us_of Us qs ! j)"
  shows "la_grants lv p = None"
proof (rule ccontr)
  assume "\<not> ?thesis"
  then have "unat (from_user_ptr p) \<in> pool_area (la_pool (ar_large ar) lv)"
    using ar_large_block(1) [OF inv] by blast
  moreover have "unat (from_user_ptr p) \<in> fam Fs" using ar_small_block(1) [OF inv j b] by blast
  ultimately show False using inv by (auto simp: ar_inv_def)
qed

lemma ar_grants_cases:
  assumes inv: "ar_inv os ar Fs Us qs lv w" and g: "ar_grants (us_of Us qs) lv U" and p: "U p = Some A"
  obtains (small) j where "j < 40" and "from_user_ptr p \<in> dom (us_of Us qs ! j)"
      and "A \<subseteq> bytes_of p (unat (kClassSizes ! j))"
  | (large) "la_grants lv p = Some A"
  using g p unfolding ar_grants_def by blast

lemma ar_granted_parts:
  assumes inv: "ar_inv os ar Fs Us qs lv w" and g: "ar_grants (us_of Us qs) lv U" and x: "x \<in> granted U"
  shows "x \<in> (\<Union>j<40. \<Union>b\<in>dom (us_of Us qs ! j). bytes_of (to_user_ptr b) (unat (kClassSizes ! j))) \<or>
    x \<in> granted (la_grants lv)"
proof -
  obtain p A where p: "U p = Some A" "x \<in> A" using x by (auto simp: granted_def ran_def)
  show ?thesis
  proof (cases rule: ar_grants_cases [OF inv g p(1)])
    case (1 j)
    have "x \<in> bytes_of (to_user_ptr (from_user_ptr p)) (unat (kClassSizes ! j))"
      using 1(3) p(2) by auto
    with 1(1,2) show ?thesis by blast
  next
    case 2
    then show ?thesis using granted_part [of "la_grants lv" p A] p(2) by blast
  qed
qed

lemma ar_small_part_fam:
  assumes inv: "ar_inv os ar Fs Us qs lv w"
  shows "(\<Union>j<40. \<Union>b\<in>dom (us_of Us qs ! j). bytes_of (to_user_ptr b) (unat (kClassSizes ! j))) \<subseteq> fam Fs"
proof
  fix x assume "x \<in> (\<Union>j<40. \<Union>b\<in>dom (us_of Us qs ! j). bytes_of (to_user_ptr b) (unat (kClassSizes ! j)))"
  then obtain j b where j: "j < 40" "b \<in> dom (us_of Us qs ! j)"
    "x \<in> bytes_of (to_user_ptr b) (unat (kClassSizes ! j))" by blast
  from ar_small_block(1) [OF inv j(1,2)] j(3) show "x \<in> fam Fs" by blast
qed

lemma ar_granted_foot:
  assumes inv: "ar_inv os ar Fs Us qs lv w" and g: "ar_grants (us_of Us qs) lv U"
  shows "granted U \<subseteq> ar_foot ar Fs lv"
  using ar_granted_parts [OF inv g] ar_small_part_fam [OF inv] la_granted_pool [OF ar_invD(5) [OF inv]]
  unfolding ar_foot_def by blast

lemma ar_inv_frame:
  assumes inv: "ar_inv os ar Fs Us qs lv w" and fs: "frame_step G w G' w'"
    and dj: "ar_foot ar Fs lv \<inter> G = {}"
  shows "ar_inv os ar Fs Us qs lv w'"
  using inv dj core_ok_frame [OF _ fs] la_inv_frame [OF _ fs]
  unfolding ar_inv_def ar_foot_def by (simp add: Int_Un_distrib2)

lemma ar_inv_write:
  assumes inv: "ar_inv os ar Fs Us qs lv w" and g: "ar_grants (us_of Us qs) lv U"
    and ag: "agree_on (- granted U) (w_mem w) m'"
  shows "ar_inv os ar Fs Us qs lv (w\<lparr>w_mem := m'\<rparr>)"
proof -
  let ?P = "pool_area (la_pool (ar_large ar) lv)"
  define W where "W = (\<Union>j<40. \<Union>b\<in>dom (us_of Us qs ! j). bytes_of (to_user_ptr b) (unat (kClassSizes ! j)))"
  note I = ar_invD [OF inv]
  have WF: "W \<subseteq> fam Fs" using ar_small_part_fam [OF inv] by (simp only: W_def)
  have dj: "fam Fs \<inter> ?P = {}" using inv by (simp add: ar_inv_def)
  have LP: "granted (la_grants lv) \<subseteq> ?P" by (rule la_granted_pool [OF I(5)])
  have subs: "fam Fs \<subseteq> mapped w" "?P \<subseteq> mapped w" using I(6) by (auto simp: ar_foot_def)
  have parts: "m' x = w_mem w x" if "x \<notin> W" "x \<notin> granted (la_grants lv)" for x
    using ar_granted_parts [OF inv g, of x, folded W_def] that ag unfolding agree_on_def by blast
  define m1 where "m1 = (\<lambda>x. if x \<in> fam Fs then m' x else w_mem w x)"
  define m2 where "m2 = (\<lambda>x. if x \<in> ?P then m' x else w_mem w x)"
  have "agree_on (- W) (w_mem w) m1"
    using parts LP dj unfolding agree_on_def m1_def by auto
  then have c1: "core_ok os (ar_node_id ar) (ar_small ar) (ar_foreign_bins ar) (ar_foreign_bytes ar)
      Fs Us qs (w\<lparr>w_mem := m1\<rparr>)"
    using inv unfolding W_def by (intro core_ok_write) (simp_all add: ar_inv_def)
  have "frame_step ?P (w\<lparr>w_mem := m1\<rparr>) ?P (w\<lparr>w_mem := m1\<rparr>\<lparr>w_mem := m'\<rparr>)"
  proof (rule frame_step_write)
    show "?P \<subseteq> mapped (w\<lparr>w_mem := m1\<rparr>)" using subs by (simp add: mapped_def)
    show "agree_on (- ?P) (w_mem (w\<lparr>w_mem := m1\<rparr>)) m'"
      using parts LP WF by (auto simp: agree_on_def m1_def)
  qed
  from core_ok_frame [OF c1 this dj]
  have c2: "core_ok os (ar_node_id ar) (ar_small ar) (ar_foreign_bins ar) (ar_foreign_bytes ar)
      Fs Us qs (w\<lparr>w_mem := m'\<rparr>)" by simp
  have "agree_on (- granted (la_grants lv)) (w_mem w) m2"
    using parts dj WF by (auto simp: agree_on_def m2_def)
  then have l1: "la_inv os (ar_large ar) lv (w\<lparr>w_mem := m2\<rparr>)" by (rule la_inv_write [OF I(5)])
  have "frame_step (fam Fs) (w\<lparr>w_mem := m2\<rparr>) (fam Fs) (w\<lparr>w_mem := m2\<rparr>\<lparr>w_mem := m'\<rparr>)"
  proof (rule frame_step_write)
    show "fam Fs \<subseteq> mapped (w\<lparr>w_mem := m2\<rparr>)" using subs by (simp add: mapped_def)
    show "agree_on (- fam Fs) (w_mem (w\<lparr>w_mem := m2\<rparr>)) m'"
      using parts LP WF by (auto simp: agree_on_def m2_def)
  qed
  from la_inv_frame [OF l1 this] have "la_inv os (ar_large ar) lv (w\<lparr>w_mem := m'\<rparr>)"
    using dj by (simp add: Int_commute)
  with c2 inv show ?thesis by (simp add: ar_inv_def)
qed

subsection \<open>Allocation by an arena\<close>

text \<open>Both branches to the small allocator: a block that was not in use or an error, and
  what the users hold keeps its bytes, whether or not a bin is drained on the way.\<close>

lemma us_of_add:
  assumes "i < 40" and "length Us = 40" and "b \<notin> set (qs ! i)"
  shows "us_of (Us[i := (Us ! i)(b \<mapsto> A)]) qs = (us_of Us qs)[i := (us_of Us qs ! i)(b \<mapsto> A)]"
proof (rule nth_equalityI)
  fix j assume "j < length (us_of (Us[i := (Us ! i)(b \<mapsto> A)]) qs)"
  then have j: "j < 40" by simp
  show "us_of (Us[i := (Us ! i)(b \<mapsto> A)]) qs ! j = (us_of Us qs)[i := (us_of Us qs ! i)(b \<mapsto> A)] ! j"
    using j assms by (cases "j = i") (auto simp: restrict_map_def fun_eq_iff)
qed simp

definition small_result ::
  "os \<Rightarrow> int \<Rightarrow> nat \<Rightarrow> ptr res \<Rightarrow> nat set list \<Rightarrow> grants list \<Rightarrow> ptr list list \<Rightarrow>
   small_alloc \<Rightarrow> foreign_bin list \<Rightarrow> u64 \<Rightarrow> world \<Rightarrow> world \<Rightarrow> bool" where
  "small_result os node i r Fs Us qs sm bins fbytes w w' \<longleftrightarrow>
    (\<exists>Fs' Us' qs'. core_ok os node sm bins fbytes Fs' Us' qs' w' \<and> frame_step (fam Fs) w (fam Fs') w' \<and>
      agree_on (fam_granted (us_of Us qs)) (w_mem w) (w_mem w') \<and>
      (case r of
         Inl e \<Rightarrow> us_of Us' qs' = us_of Us qs
       | Inr b \<Rightarrow> (us_of Us qs ! i) b = None \<and>
           us_of Us' qs' = (us_of Us qs)[i := (us_of Us qs ! i)(b \<mapsto> client_bytes (kClassSizes ! i) b)]))"

lemma small_resultI:
  assumes core: "core_ok os node sm1 bins fbytes Fs1 Us1 qs1 w1" and i: "i < 40"
    and fs: "frame_step (fam Fs) w (fam Fs1) w1" and ag: "agree_on (fam_granted Us1) (w_mem w) (w_mem w1)"
    and us: "us_of Us1 qs1 = us_of Us qs" and res: "alloc_result os sm1 w1 Fs1 Us1 i r sm' w2"
    and w': "w' = (case r of Inl e \<Rightarrow> w2 | Inr b \<Rightarrow> w2\<lparr>w_mem := set_bh_size b 0
      (set_bh_size_class b (ucast (kClassSizes ! i)) (set_bh_node_id b (of_int node) (w_mem w2)))\<rparr>)"
  shows "small_result os node i r Fs Us qs sm' bins fbytes w w'"
proof -
  have len: "length Us1 = 40" using core by (simp add: core_ok_def sm_owns_def)
  have ag0: "agree_on (fam_granted (us_of Us qs)) (w_mem w) (w_mem w1)"
    unfolding us [symmetric] by (rule agree_on_mono [OF ag us_of_granted [OF len]])
  show ?thesis
  proof (cases r)
    case (Inl e)
    then have "sm_step os sm1 w1 Fs1 Us1 i (Us1 ! i) sm' w2" using res by (simp add: alloc_result_def)
    note C = core_ok_same [OF core i this]
    obtain Fs2 where F2: "core_ok os node sm' bins fbytes Fs2 Us1 qs1 w2"
      "frame_step (fam Fs1) w1 (fam Fs2) w2" using C(1) by blast
    have "agree_on (fam_granted (us_of Us qs)) (w_mem w1) (w_mem w2)"
      unfolding us [symmetric] by (rule agree_on_mono [OF C(2) us_of_granted [OF len]])
    from agree_on_trans [OF ag0 this] F2(1) frame_step_trans [OF fs F2(2)] us show ?thesis
      unfolding small_result_def Inl w' sum.case by blast
  next
    case (Inr b)
    let ?A = "client_bytes (kClassSizes ! i) b"
    have st: "sm_step os sm1 w1 Fs1 Us1 i ((Us1 ! i)(b \<mapsto> ?A)) sm' w2" and new: "(Us1 ! i) b = None"
      using res Inr by (simp_all add: alloc_result_def)
    define m' where "m' = set_bh_size b 0
      (set_bh_size_class b (ucast (kClassSizes ! i)) (set_bh_node_id b (of_int node) (w_mem w2)))"
    note C = core_ok_alloc [OF core i st new m'_def]
    obtain F2 where F2: "core_ok os node sm' bins fbytes (Fs1[i := F2]) (Us1[i := (Us1 ! i)(b \<mapsto> ?A)]) qs1
        (w2\<lparr>w_mem := m'\<rparr>)" "frame_step (fam Fs1) w1 (fam (Fs1[i := F2])) (w2\<lparr>w_mem := m'\<rparr>)"
      using C(1) by blast
    have "set (qs1 ! i) \<subseteq> dom (Us1 ! i)" using core i by (simp add: core_ok_def bins_ok_def)
    then have nq: "b \<notin> set (qs1 ! i)" using new by blast
    have us': "us_of (Us1[i := (Us1 ! i)(b \<mapsto> ?A)]) qs1 = (us_of Us qs)[i := (us_of Us qs ! i)(b \<mapsto> ?A)]"
      using us_of_add [OF i len nq] by (simp only: us)
    have nu: "(us_of Us qs ! i) b = None"
      unfolding us [symmetric] using new i by (simp add: restrict_map_def)
    have "agree_on (fam_granted (us_of Us qs)) (w_mem w1) m'"
      unfolding us [symmetric] by (rule agree_on_mono [OF C(2) us_of_granted [OF len]])
    from agree_on_trans [OF ag0 this] have a: "agree_on (fam_granted (us_of Us qs)) (w_mem w) m'" .
    have we: "w' = w2\<lparr>w_mem := m'\<rparr>" unfolding w' Inr sum.case m'_def ..
    show ?thesis
      unfolding small_result_def Inr sum.case
      using F2(1) frame_step_trans [OF fs F2(2)] a nu us'
      by (intro exI [of _ "Fs1[i := F2]"] exI [of _ "Us1[i := (Us1 ! i)(b \<mapsto> ?A)]"] exI [of _ qs1])
        (simp add: we)
  qed
qed

definition is_small :: "u64 \<Rightarrow> u64 \<Rightarrow> bool" where
  "is_small sz alignment \<longleftrightarrow> sz \<le> SMALL_LARGE_THRESHOLD \<and> alignment \<le> ALIGNMENT"

definition at_least_one :: "u64 \<Rightarrow> u64" where
  "at_least_one sz = (if sz = 0 then 1 else sz)"

lemma at_least_one_pos: "0 < unat (at_least_one sz)"
  by (simp add: at_least_one_def unat_gt_0)

lemma small_class:
  assumes "is_small (at_least_one sz) alignment"
  shows "\<exists>ci. class_index_for_size (at_least_one sz) = Inr ci \<and> unat ci < 40 \<and>
    unat (at_least_one sz) \<le> unat (kClassSizes ! unat ci)"
proof -
  let ?s = "at_least_one sz"
  have le: "unat ?s \<le> 4096" using assms by (simp add: is_small_def size_consts word_le_nat_alt)
  have nz: "?s \<noteq> 0" by (simp add: at_least_one_def)
  obtain ci where ci: "class_index_for_size ?s = Inr ci" "unat ci < 40"
    "kClassSizes ! unat ci = class_size (if ?s = 0 then 1 else ?s)"
    using class_index_for_size_kClass [OF le] by blast
  have "unat ?s \<le> unat (class_size ?s)"
    using class_size_ge [OF at_least_one_pos le] by (simp add: word_le_nat_alt)
  then show ?thesis using ci nz by simp
qed

lemma ar_alloc_small_step:
  assumes core: "core_ok os node sm bins fbytes Fs Us qs w" and i: "unat ci < 40"
  shows "\<exists>r bins' fbytes' sm' w'.
    (if freelist_off then let (r, sm, w1) = sm_allocate_by_class_index os ci sm w in Some (r, (bins, fbytes), sm, w1)
     else sm_allocate_by_class_index_drain os ci (Some (drain_foreign_bin os)) (bins, fbytes) sm w) =
      Some (r, (bins', fbytes'), sm', w') \<and>
    small_result os node (unat ci) r Fs Us qs sm' bins' fbytes' w
      (case r of Inl e \<Rightarrow> w' | Inr b \<Rightarrow> w'\<lparr>w_mem := set_bh_size b 0
        (set_bh_size_class b (ucast (kClassSizes ! unat ci)) (set_bh_node_id b (of_int node) (w_mem w')))\<rparr>)"
proof -
  have owns: "sm_owns os sm w Fs Us" using core by (simp add: core_ok_def)
  have len: "length Us = 40" "length qs = 40" using core by (simp_all add: core_ok_def sm_owns_def bins_ok_def)
  show ?thesis
  proof (cases freelist_off)
    case True
    obtain r sm' w' where al: "sm_allocate_by_class_index os ci sm w = (r, sm', w')" by (metis prod_cases3)
    have "alloc_result os sm w Fs Us (unat ci) r sm' w'" by (rule sm_allocate_result [OF owns i al])
    note R = small_resultI [OF core i frame_step_refl [OF sm_owns_mapped [OF owns]] agree_on_refl refl this refl]
    show ?thesis using True al R by auto
  next
    case False
    obtain r bins' fbytes' sm' w' sm1 w1 Fs1 Us1 qs1 where
      D: "sm_allocate_by_class_index_drain os ci (Some (drain_foreign_bin os)) (bins, fbytes) sm w =
        Some (r, (bins', fbytes'), sm', w')" and
      c1: "core_ok os node sm1 bins' fbytes' Fs1 Us1 qs1 w1" and f1: "frame_step (fam Fs) w (fam Fs1) w1" and
      a1: "agree_on (fam_granted Us1) (w_mem w) (w_mem w1)" and
      q1: "Us1 = Us \<and> qs1 = qs \<or>
        Us1 = Us[unat ci := (Us ! unat ci) |` (- set (qs ! unat ci))] \<and> qs1 = qs[unat ci := []]" and
      r1: "alloc_result os sm1 w1 Fs1 Us1 (unat ci) r sm' w'"
      using sm_allocate_drain_ok [OF core i] by (elim exE conjE)
    have us: "us_of Us1 qs1 = us_of Us qs"
      using q1 us_of_drain [OF i len, of "set (qs ! unat ci)" "[]"] by auto
    note R = small_resultI [OF c1 i f1 a1 us r1 refl]
    show ?thesis using False D R by auto
  qed
qed

lemma ar_allocate_small:
  assumes core: "core_ok os (ar_node_id ar) (ar_small ar) (ar_foreign_bins ar) (ar_foreign_bytes ar) Fs Us qs w"
    and sml: "is_small (at_least_one sz) alignment"
  shows "\<exists>r ar' w' i. i < 40 \<and> unat (at_least_one sz) \<le> unat (kClassSizes ! i) \<and>
    ar_allocate os sz alignment ar w = Some (map_sum id to_user_ptr r, ar', w') \<and>
    ar' = ar\<lparr>ar_small := ar_small ar', ar_foreign_bins := ar_foreign_bins ar',
             ar_foreign_bytes := ar_foreign_bytes ar'\<rparr> \<and>
    small_result os (ar_node_id ar) i r Fs Us qs (ar_small ar') (ar_foreign_bins ar') (ar_foreign_bytes ar') w w'"
proof -
  obtain ci where ci: "class_index_for_size (at_least_one sz) = Inr ci" "unat ci < 40"
    "unat (at_least_one sz) \<le> unat (kClassSizes ! unat ci)" using small_class [OF sml] by blast
  obtain r bins' fbytes' sm' w1 where
    S: "(if \<not> ar_foreign_freelist_enabled ar \<or> ar_foreign_bytes ar = 0
      then let (r, sm, w1) = sm_allocate_by_class_index os ci (ar_small ar) w
        in Some (r, (ar_foreign_bins ar, ar_foreign_bytes ar), sm, w1)
      else sm_allocate_by_class_index_drain os ci (Some (drain_foreign_bin os))
        (ar_foreign_bins ar, ar_foreign_bytes ar) (ar_small ar) w) = Some (r, (bins', fbytes'), sm', w1)" and
    R: "small_result os (ar_node_id ar) (unat ci) r Fs Us qs sm' bins' fbytes' w
      (case r of Inl e \<Rightarrow> w1 | Inr b \<Rightarrow> w1\<lparr>w_mem := set_bh_size b 0
        (set_bh_size_class b (ucast (kClassSizes ! unat ci))
          (set_bh_node_id b (of_int (ar_node_id ar)) (w_mem w1)))\<rparr>)"
    using ar_alloc_small_step [OF core ci(2)] by blast
  define ar' where "ar' = ar\<lparr>ar_small := sm', ar_foreign_bins := bins', ar_foreign_bytes := fbytes'\<rparr>"
  have "ar_allocate os sz alignment ar w = Some (map_sum id to_user_ptr r, ar',
      (case r of Inl e \<Rightarrow> w1 | Inr b \<Rightarrow> w1\<lparr>w_mem := set_bh_size b 0
        (set_bh_size_class b (ucast (kClassSizes ! unat ci))
          (set_bh_node_id b (of_int (ar_node_id ar)) (w_mem w1)))\<rparr>))"
    unfolding ar_allocate_def Let_def [of "if sz = 0 then 1 else sz"] at_least_one_def [symmetric]
      is_small_def [symmetric] if_P [OF sml] ci(1) sum.case Let_def S [unfolded Let_def] option.case prod.case
    by (cases r) (simp_all add: ar'_def)
  then show ?thesis using ci(2,3) R
    by (intro exI [of _ r] exI [of _ ar'] exI [of _ "case r of Inl e \<Rightarrow> w1 | Inr b \<Rightarrow> _ b"] exI [of _ "unat ci"])
      (simp add: ar'_def)
qed

subsection \<open>Steps of an arena\<close>

text \<open>A step of the small part leaves the large part alone, and the other way round.\<close>

lemma ar_small_step:
  assumes inv: "ar_inv os ar Fs Us qs lv w"
    and core: "core_ok os (ar_node_id ar) (ar_small ar') (ar_foreign_bins ar') (ar_foreign_bytes ar') Fs' Us' qs' w'"
    and fs: "frame_step (fam Fs) w (fam Fs') w'"
    and ar': "ar' = ar\<lparr>ar_small := ar_small ar', ar_foreign_bins := ar_foreign_bins ar',
      ar_foreign_bytes := ar_foreign_bytes ar'\<rparr>"
  shows "ar_inv os ar' Fs' Us' qs' lv w'"
    and "frame_step (ar_foot ar Fs lv) w (ar_foot ar' Fs' lv) w'"
    and "agree_on (pool_area (la_pool (ar_large ar) lv)) (w_mem w) (w_mem w')"
proof -
  let ?P = "pool_area (la_pool (ar_large ar) lv)"
  have eqs: "ar_node_id ar' = ar_node_id ar" "ar_large ar' = ar_large ar" by (subst ar', simp)+
  note I = ar_invD [OF inv]
  have dj: "?P \<inter> fam Fs = {}" using inv by (auto simp: ar_inv_def)
  have sub: "?P \<subseteq> mapped w" using I(6) by (simp add: ar_foot_def)
  note K = frame_step_mem [OF dj sub fs]
  have "la_inv os (ar_large ar) lv w'"
    by (rule la_inv_frame [OF I(5) fs dj])
  then show "ar_inv os ar' Fs' Us' qs' lv w'"
    using inv core K by (auto simp: ar_inv_def eqs)
  show "frame_step (ar_foot ar Fs lv) w (ar_foot ar' Fs' lv) w'"
    unfolding ar_foot_def eqs using sub dj by (rule frame_step_extend [OF fs])
  show "agree_on ?P (w_mem w) (w_mem w')" using K by simp
qed

lemma ar_large_step:
  assumes inv: "ar_inv os ar Fs Us qs lv w" and la: "la_inv os la' lv' w'"
    and nd: "la_node_id la' = la_node_id (ar_large ar)"
    and fs: "frame_step (pool_area (la_pool (ar_large ar) lv)) w (pool_area (la_pool la' lv')) w'"
  shows "ar_inv os (ar\<lparr>ar_large := la'\<rparr>) Fs Us qs lv' w'"
    and "frame_step (ar_foot ar Fs lv) w (ar_foot (ar\<lparr>ar_large := la'\<rparr>) Fs lv') w'"
    and "agree_on (fam Fs) (w_mem w) (w_mem w')"
proof -
  note I = ar_invD [OF inv]
  have dj: "fam Fs \<inter> pool_area (la_pool (ar_large ar) lv) = {}" using inv by (simp add: ar_inv_def)
  have sub: "fam Fs \<subseteq> mapped w" using I(6) by (simp add: ar_foot_def)
  note K = frame_step_mem [OF dj sub fs]
  have "core_ok os (ar_node_id ar) (ar_small ar) (ar_foreign_bins ar) (ar_foreign_bytes ar) Fs Us qs w'"
    using inv by (intro core_ok_frame [OF _ fs dj]) (simp add: ar_inv_def)
  then show "ar_inv os (ar\<lparr>ar_large := la'\<rparr>) Fs Us qs lv' w'"
    using inv la nd K by (simp add: ar_inv_def)
  show "frame_step (ar_foot ar Fs lv) w (ar_foot (ar\<lparr>ar_large := la'\<rparr>) Fs lv') w'"
    unfolding ar_foot_def using frame_step_extend [OF fs sub dj] by (simp add: Un_commute)
  show "agree_on (fam Fs) (w_mem w) (w_mem w')" using K by simp
qed

text \<open>What the users hold lies in the small and in the large part.\<close>

lemma ar_granted_sub:
  assumes inv: "ar_inv os ar Fs Us qs lv w" and g: "ar_grants (us_of Us qs) lv U"
  shows "granted U \<subseteq> fam_granted (us_of Us qs) \<union> granted (la_grants lv)"
proof
  fix x assume "x \<in> granted U"
  from ar_granted_parts [OF inv g this]
  show "x \<in> fam_granted (us_of Us qs) \<union> granted (la_grants lv)"
  proof (elim disjE UN_E)
    fix j b assume j: "j \<in> {..<40}" and b: "b \<in> dom (us_of Us qs ! j)"
      and x: "x \<in> bytes_of (to_user_ptr b) (unat (kClassSizes ! j))"
    obtain A where A: "(Us ! j) b = Some A" "bytes_of (to_user_ptr b) (unat (kClassSizes ! j)) \<subseteq> A"
      using ar_small_block(1) [OF inv _ b] j by blast
    have "(us_of Us qs ! j) b = Some A"
      using A(1) j ar_small_block(2) [OF inv _ b] by (simp add: restrict_map_def)
    then have "A \<subseteq> fam_granted (us_of Us qs)" using j by (intro sm_grant_part [of j]) auto
    then show ?thesis using A(2) x by blast
  qed blast
qed

lemma ar_agree:
  assumes inv: "ar_inv os ar Fs Us qs lv w" and g: "ar_grants (us_of Us qs) lv U"
    and "agree_on (fam_granted (us_of Us qs)) m m'" and "agree_on (granted (la_grants lv)) m m'"
  shows "agree_on (granted U) m m'"
  using ar_granted_sub [OF inv g] assms(3,4) by (auto simp: agree_on_def)

text \<open>How the grants follow the four kinds of steps.\<close>

lemma nth_upd: "i < length xs \<Longrightarrow> xs[i := x] ! j = (if j = i then x else xs ! j)"
  by (cases "j = i") auto

lemma ar_grants_take_small:
  assumes g: "ar_grants Vs lv U" and V: "Vs' = Vs[i := (Vs ! i)(b \<mapsto> B)]" and len: "length Vs = 40"
    and i: "i < 40" and A: "A \<subseteq> bytes_of (to_user_ptr b) (unat (kClassSizes ! i))"
    and nl: "la_grants lv (to_user_ptr b) = None"
  shows "ar_grants Vs' lv (U(to_user_ptr b \<mapsto> A))"
proof -
  have nth: "Vs' ! j = (if j = i then (Vs ! i)(b \<mapsto> B) else Vs ! j)" for j
    unfolding V using i len by (intro nth_upd) simp
  have mono: "dom (Vs ! j) \<subseteq> dom (Vs' ! j)" for j by (auto simp: nth)
  have "(\<exists>j<40. from_user_ptr p \<in> dom (Vs' ! j) \<and> C \<subseteq> bytes_of p (unat (kClassSizes ! j))) \<or>
      la_grants lv p = Some C" if p: "(U(to_user_ptr b \<mapsto> A)) p = Some C" for p C
  proof (cases "p = to_user_ptr b")
    case True
    then have "from_user_ptr p \<in> dom (Vs' ! i)" "C \<subseteq> bytes_of p (unat (kClassSizes ! i))"
      using p A by (auto simp: nth)
    then show ?thesis using i by blast
  next
    case False
    then have "U p = Some C" using p by simp
    then have "(\<exists>j<40. from_user_ptr p \<in> dom (Vs ! j) \<and> C \<subseteq> bytes_of p (unat (kClassSizes ! j))) \<or>
        la_grants lv p = Some C" using g unfolding ar_grants_def by blast
    then show ?thesis using mono by (meson subsetD)
  qed
  moreover have "(U(to_user_ptr b \<mapsto> A)) (to_user_ptr c) \<noteq> None" if "j < 40" "c \<in> dom (Vs' ! j)" for j c
  proof (cases "c = b")
    case False
    then have "c \<in> dom (Vs ! j)" using that(2) by (cases "j = i") (auto simp: nth)
    then show ?thesis using g that(1) unfolding ar_grants_def by auto
  qed simp
  moreover have "(U(to_user_ptr b \<mapsto> A)) p = la_grants lv p" if "la_grants lv p \<noteq> None" for p
  proof -
    have "p \<noteq> to_user_ptr b" using that nl by auto
    then show ?thesis using g that unfolding ar_grants_def by auto
  qed
  ultimately show ?thesis unfolding ar_grants_def by blast
qed

lemma from_user_ptr_eq: "from_user_ptr p = b \<longleftrightarrow> p = to_user_ptr b"
  by auto

lemma ar_grants_give_small:
  assumes g: "ar_grants Vs lv U" and V: "Vs' = Vs[i := (Vs ! i)(b := None)]" and len: "length Vs = 40"
    and i: "i < 40" and only: "\<forall>j<40. b \<in> dom (Vs ! j) \<longrightarrow> j = i"
    and nl: "la_grants lv (to_user_ptr b) = None"
  shows "ar_grants Vs' lv (U(to_user_ptr b := None))"
proof -
  have nth: "Vs' ! j = (if j = i then (Vs ! i)(b := None) else Vs ! j)" for j
    unfolding V using i len by (intro nth_upd) simp
  have "(\<exists>j<40. from_user_ptr p \<in> dom (Vs' ! j) \<and> C \<subseteq> bytes_of p (unat (kClassSizes ! j))) \<or>
      la_grants lv p = Some C" if p: "(U(to_user_ptr b := None)) p = Some C" for p C
  proof -
    have "U p = Some C" and ne: "from_user_ptr p \<noteq> b"
      using p by (auto simp: from_user_ptr_eq split: if_splits)
    then consider j where "j < 40" "from_user_ptr p \<in> dom (Vs ! j)" "C \<subseteq> bytes_of p (unat (kClassSizes ! j))"
      | "la_grants lv p = Some C" using g unfolding ar_grants_def by blast
    then show ?thesis
    proof cases
      case (1 j)
      then have "from_user_ptr p \<in> dom (Vs' ! j)" using ne by (cases "j = i") (auto simp: nth domIff)
      then show ?thesis using 1 by blast
    qed simp
  qed
  moreover have "(U(to_user_ptr b := None)) (to_user_ptr c) \<noteq> None" if j: "j < 40" "c \<in> dom (Vs' ! j)" for j c
  proof -
    have c: "c \<in> dom (Vs ! j)" using j(2) by (auto simp: nth split: if_splits)
    have "c \<noteq> b" using only j c by (auto simp: nth)
    then have "to_user_ptr c \<noteq> to_user_ptr b" by (metis from_to_user_ptr)
    then show ?thesis using g j(1) c unfolding ar_grants_def by auto
  qed
  moreover have "(U(to_user_ptr b := None)) p = la_grants lv p" if "la_grants lv p \<noteq> None" for p
  proof -
    have "p \<noteq> to_user_ptr b" using that nl by auto
    then show ?thesis using g that unfolding ar_grants_def by auto
  qed
  ultimately show ?thesis unfolding ar_grants_def by blast
qed

lemma ar_grants_large:
  assumes g: "ar_grants Vs lv U" and L: "la_grants lv' = (la_grants lv)(p := x)" and U': "U' = U(p := x)"
    and ns: "\<forall>j<40. from_user_ptr p \<notin> dom (Vs ! j)"
  shows "ar_grants Vs lv' U'"
proof -
  have "(\<exists>j<40. from_user_ptr q \<in> dom (Vs ! j) \<and> C \<subseteq> bytes_of q (unat (kClassSizes ! j))) \<or>
      la_grants lv' q = Some C" if q: "U' q = Some C" for q C
    using q g unfolding U' L ar_grants_def by (cases "q = p") auto
  moreover have "U' (to_user_ptr c) \<noteq> None" if "j < 40" "c \<in> dom (Vs ! j)" for j c
  proof -
    have "to_user_ptr c \<noteq> p" using ns that by auto
    then show ?thesis using g that unfolding ar_grants_def U' by auto
  qed
  moreover have "U' q = la_grants lv' q" if "la_grants lv' q \<noteq> None" for q
    using that g unfolding U' L ar_grants_def by (cases "q = p") auto
  ultimately show ?thesis unfolding ar_grants_def by blast
qed

subsection \<open>The operations of an arena\<close>

lemma ar_new_owns:
  assumes os: "os_ok os" and nd: "- (2 ^ 31) \<le> node" "node < 2 ^ 31"
  shows "ar_owns os (ar_new node freelist sync route) w {} Map.empty"
proof -
  let ?ar = "ar_new node freelist sync route" and ?Us = "replicate 40 Map.empty" and ?qs = "replicate 40 []"
  have S: "sm_owns os (sm_new node sync) w (replicate 40 {}) ?Us" "fam (replicate 40 {}) = {}"
    by (rule sm_new_owns(1) [OF os], rule sm_new_owns(2) [OF os])
  have "core_ok os node (sm_new node sync) (replicate 40 empty_foreign) 0 (replicate 40 {}) ?Us ?qs w"
    using S(1) by (simp add: core_ok_def bins_ok_def fbin_ok_def headers_ok_def empty_foreign_def sm_new_def
        sum_list_replicate)
  then have inv: "ar_inv os ?ar (replicate 40 {}) ?Us ?qs [] w"
    using la_new_inv(1) [of os node _ _ sync w] S(2) nd by (simp add: ar_inv_def ar_new_def la_new_def)
  have "us_of ?Us ?qs ! j = Map.empty" if "j < 40" for j using that by (simp add: restrict_map_def)
  then have "ar_grants (us_of ?Us ?qs) [] Map.empty" by (simp add: ar_grants_def la_new_inv(2))
  moreover have "{} = ar_foot ?ar (replicate 40 {}) []"
    using S(2) by (simp add: ar_foot_def ar_new_def la_new_inv(3))
  ultimately show ?thesis using inv unfolding ar_owns_def by blast
qed

text \<open>Which block of the arena a granted pointer is.\<close>

lemma ar_small_only:
  assumes inv: "ar_inv os ar Fs Us qs lv w" and i: "i < 40" "b \<in> dom (us_of Us qs ! i)"
    and j: "j < 40" "b \<in> dom (us_of Us qs ! j)"
  shows "j = i"
proof (rule ccontr)
  assume ne: "j \<noteq> i"
  obtain A where A: "(Us ! i) b = Some A" "unat b \<in> A" using ar_small_block(1) [OF inv i] by blast
  obtain B where B: "(Us ! j) b = Some B" "unat b \<in> B" using ar_small_block(1) [OF inv j] by blast
  have "(i, b) \<noteq> (j, b)" using ne by simp
  from sm_blocks_apart [OF ar_invD(2) [OF inv] i(1) j(1) A(1) B(1) this] A(2) B(2) show False by blast
qed

definition ar_area :: "u64 \<times> u64 \<Rightarrow> ptr \<Rightarrow> nat set" where
  "ar_area = (\<lambda>(sz, alignment) p. bytes_of p (unat (at_least_one sz)))"

definition ar_legal :: "os \<Rightarrow> u64 \<times> u64 \<Rightarrow> bool" where
  "ar_legal os = (\<lambda>(sz, alignment). large_legal os (at_least_one sz, alignment))"

text \<open>How a pointer is aligned for a request: for an alignment that is a power of two this is
  divisibility by it.\<close>

definition aligned_for :: "u64 \<Rightarrow> ptr \<Rightarrow> bool" where
  "aligned_for alignment p \<longleftrightarrow>
     max (unat alignment) 8 dvd unat p \<or> unat alignment \<le> 16 \<and> 16 dvd unat p"

lemma aligned_for_power:
  assumes "aligned_for alignment p" and "unat alignment = 2 ^ k"
  shows "2 ^ k dvd unat p"
proof -
  have small: "(2 :: nat) ^ k dvd 2 ^ n" if "(2 :: nat) ^ k \<le> 2 ^ n" for n
    using that by (intro le_imp_power_dvd) simp
  show ?thesis
  proof (cases "(2 :: nat) ^ k \<le> 8")
    case True
    have "(8 :: nat) dvd unat p"
      using assms(1) True dvd_trans [of 8 16 "unat p"] by (auto simp: aligned_for_def assms(2) max_def split: if_splits)
    then show ?thesis using small [of 3] True dvd_trans by force
  next
    case False
    then show ?thesis
      using assms(1) small [of 4] dvd_trans [of "2 ^ k" 16 "unat p"]
      by (auto simp: aligned_for_def assms(2) max_def split: if_splits)
  qed
qed

lemma ar_allocate_large:
  assumes "\<not> is_small (at_least_one sz) alignment"
    and "la_allocate os (at_least_one sz) alignment (ar_large ar) w = (r, la, w')"
  shows "ar_allocate os sz alignment ar w = Some (r, ar\<lparr>ar_large := la\<rparr>, w')"
  unfolding ar_allocate_def Let_def [of "if sz = 0 then 1 else sz"] at_least_one_def [symmetric]
    is_small_def [symmetric] if_not_P [OF assms(1)] assms(2) Let_def prod.case ..

text \<open>The header in front of a granted pointer names the node of the arena, and the class of a
  small block or 0.\<close>

lemma ar_small_header:
  assumes inv: "ar_inv os ar Fs Us qs lv w" and j: "j < 40" and b: "b \<in> dom (us_of Us qs ! j)"
  shows "bh_node_id (w_mem w) b = of_int (ar_node_id ar)"
    and "bh_size_class (w_mem w) b = ucast (kClassSizes ! j)" and "bh_size_class (w_mem w) b \<noteq> 0"
proof -
  have "headers_ok (ar_node_id ar) (w_mem w) Us" using inv by (simp add: ar_inv_def core_ok_def)
  moreover have "b \<in> dom (Us ! j)" using b j by (auto simp: restrict_map_def split: if_splits)
  ultimately show "bh_node_id (w_mem w) b = of_int (ar_node_id ar)"
    and cls: "bh_size_class (w_mem w) b = ucast (kClassSizes ! j)" using j by (simp_all add: headers_ok_def)
  show "bh_size_class (w_mem w) b \<noteq> 0"
  proof
    assume "bh_size_class (w_mem w) b = 0"
    then have "kClassSizes ! j = 0" using ucast_class_size [OF j] cls by simp
    then show False using kClassSizes_bounds(1) [OF j] by simp
  qed
qed

lemma ar_large_header:
  assumes inv: "ar_inv os ar Fs Us qs lv w" and p: "la_grants lv p \<noteq> None"
  shows "bh_node_id (w_mem w) (from_user_ptr p) = of_int (ar_node_id ar)"
    and "bh_size_class (w_mem w) (from_user_ptr p) = 0"
proof -
  obtain b where b: "b \<in> set lv" "fst b = p" using ar_large_block(2) [OF inv p] by blast
  obtain q raw span sz where "b = (q, raw, span, sz)" by (rule prod_cases4)
  then have eq: "b = (p, raw, span, sz)" using b(2) by simp
  have "block_ok (la_node_id (ar_large ar)) (w_mem w) b" by (rule la_inv_block [OF ar_invD(5) [OF inv] b(1)])
  then show "bh_node_id (w_mem w) (from_user_ptr p) = of_int (ar_node_id ar)"
    and "bh_size_class (w_mem w) (from_user_ptr p) = 0"
    using inv by (simp_all add: eq block_ok_def ar_inv_def)
qed

text \<open>The node and the class in the header of a block do not change while the block is in use.\<close>

definition keeps_headers :: "grants \<Rightarrow> mem \<Rightarrow> mem \<Rightarrow> bool" where
  "keeps_headers U m m' \<longleftrightarrow> (\<forall>p. U p \<noteq> None \<longrightarrow>
     bh_node_id m' (from_user_ptr p) = bh_node_id m (from_user_ptr p) \<and>
     bh_size_class m' (from_user_ptr p) = bh_size_class m (from_user_ptr p))"

lemma keeps_headersD: "keeps_headers U m m' \<Longrightarrow> U p \<noteq> None \<Longrightarrow>
    bh_node_id m' (from_user_ptr p) = bh_node_id m (from_user_ptr p) \<and>
    bh_size_class m' (from_user_ptr p) = bh_size_class m (from_user_ptr p)"
  by (simp add: keeps_headers_def)

lemma ar_keeps_headers:
  assumes inv: "ar_inv os ar Fs Us qs lv w" and g: "ar_grants (us_of Us qs) lv U"
    and inv': "ar_inv os ar' Fs' Us' qs' lv' w'" and nd: "ar_node_id ar' = ar_node_id ar"
    and small: "\<And>j b. j < 40 \<Longrightarrow> b \<in> dom (us_of Us qs ! j) \<Longrightarrow> W (to_user_ptr b) \<noteq> None \<Longrightarrow>
      b \<in> dom (us_of Us' qs' ! j)"
    and large: "\<And>p. la_grants lv p \<noteq> None \<Longrightarrow> W p \<noteq> None \<Longrightarrow> la_grants lv' p \<noteq> None"
    and sub: "\<And>p. W p \<noteq> None \<Longrightarrow> U p \<noteq> None"
  shows "keeps_headers W (w_mem w) (w_mem w')"
  unfolding keeps_headers_def
proof (intro allI impI)
  fix p assume p: "W p \<noteq> None"
  then obtain A where A: "U p = Some A" using sub by blast
  show "bh_node_id (w_mem w') (from_user_ptr p) = bh_node_id (w_mem w) (from_user_ptr p) \<and>
      bh_size_class (w_mem w') (from_user_ptr p) = bh_size_class (w_mem w) (from_user_ptr p)"
  proof (cases rule: ar_grants_cases [OF inv g A])
    case (1 j)
    have "W (to_user_ptr (from_user_ptr p)) \<noteq> None" using p by simp
    from small [OF 1(1,2) this] show ?thesis
      using ar_small_header(1,2) [OF inv 1(1,2)] ar_small_header(1,2) [OF inv' 1(1)] nd by simp
  next
    case 2
    then have l: "la_grants lv p \<noteq> None" by simp
    from ar_large_header [OF inv l] ar_large_header [OF inv' large [OF l p]] nd show ?thesis by simp
  qed
qed

lemma ar_allocate_ok:
  assumes inv: "ar_inv os ar Fs Us qs lv w" and g: "ar_grants (us_of Us qs) lv U"
    and legal: "ar_legal os (sz, alignment)"
  shows "\<exists>r ar' w' Fs' Us' qs' lv'. ar_allocate os sz alignment ar w = Some (r, ar', w') \<and>
    ar_inv os ar' Fs' Us' qs' lv' w' \<and> frame_step (ar_foot ar Fs lv) w (ar_foot ar' Fs' lv') w' \<and>
    agree_on (granted U) (w_mem w) (w_mem w') \<and> keeps_headers U (w_mem w) (w_mem w') \<and>
    (case r of Inl e \<Rightarrow> ar_grants (us_of Us' qs') lv' U
     | Inr p \<Rightarrow> U p = None \<and> p \<noteq> nullptr \<and> aligned_for alignment p \<and>
         ar_grants (us_of Us' qs') lv' (U(p \<mapsto> ar_area (sz, alignment) p)))"
proof (cases "is_small (at_least_one sz) alignment")
  case True
  note I = ar_invD [OF inv]
  have core: "core_ok os (ar_node_id ar) (ar_small ar) (ar_foreign_bins ar) (ar_foreign_bytes ar) Fs Us qs w"
    using inv by (simp add: ar_inv_def)
  obtain r ar' w' i where i: "i < 40" "unat (at_least_one sz) \<le> unat (kClassSizes ! i)" and
    al: "ar_allocate os sz alignment ar w = Some (map_sum id to_user_ptr r, ar', w')" and
    ar': "ar' = ar\<lparr>ar_small := ar_small ar', ar_foreign_bins := ar_foreign_bins ar',
             ar_foreign_bytes := ar_foreign_bytes ar'\<rparr>" and
    R: "small_result os (ar_node_id ar) i r Fs Us qs (ar_small ar') (ar_foreign_bins ar') (ar_foreign_bytes ar') w w'"
    using ar_allocate_small [OF core True] by blast
  from R obtain Fs' Us' qs' where
    C: "core_ok os (ar_node_id ar) (ar_small ar') (ar_foreign_bins ar') (ar_foreign_bytes ar') Fs' Us' qs' w'"
      "frame_step (fam Fs) w (fam Fs') w'" "agree_on (fam_granted (us_of Us qs)) (w_mem w) (w_mem w')" and
    us: "case r of Inl e \<Rightarrow> us_of Us' qs' = us_of Us qs
       | Inr b \<Rightarrow> (us_of Us qs ! i) b = None \<and>
           us_of Us' qs' = (us_of Us qs)[i := (us_of Us qs ! i)(b \<mapsto> client_bytes (kClassSizes ! i) b)]"
    unfolding small_result_def by (elim exE conjE)
  note S = ar_small_step [OF inv C(1,2) ar']
  have ag: "agree_on (granted U) (w_mem w) (w_mem w')"
    using ar_agree [OF inv g C(3)] agree_on_mono [OF S(3) la_granted_pool [OF I(5)]] by blast
  have "b \<in> dom (us_of Us' qs' ! j)" if "j < 40" "b \<in> dom (us_of Us qs ! j)" for j b
    using us that i(1) by (cases r; cases "j = i") auto
  moreover have "ar_node_id ar' = ar_node_id ar" by (subst ar') simp
  ultimately have ks: "keeps_headers U (w_mem w) (w_mem w')"
    by (intro ar_keeps_headers [OF inv g S(1)])
  show ?thesis
  proof (cases r)
    case (Inl e)
    then show ?thesis using al S(1,2) ag ks us g
      by (intro exI [of _ "map_sum id to_user_ptr r"] exI [of _ ar'] exI [of _ w'] exI [of _ Fs']
          exI [of _ Us'] exI [of _ qs'] exI [of _ lv]) simp
  next
    case (Inr b)
    let ?p = "to_user_ptr b" and ?V = "us_of Us qs"
    have V': "us_of Us' qs' = ?V[i := (?V ! i)(b \<mapsto> client_bytes (kClassSizes ! i) b)]"
      and new: "(?V ! i) b = None" using us Inr by simp_all
    have b': "b \<in> dom (us_of Us' qs' ! i)" unfolding V' using i by simp
    have nl: "la_grants lv ?p = None" using ar_not_both [OF S(1) i(1), of ?p] b' by simp
    have A: "ar_area (sz, alignment) ?p \<subseteq> bytes_of ?p (unat (kClassSizes ! i))"
      using i(2) by (auto simp: ar_area_def bytes_of_def)
    have "ar_grants (us_of Us' qs') lv (U(?p \<mapsto> ar_area (sz, alignment) ?p))"
      by (rule ar_grants_take_small [OF g V' _ i(1) A nl]) simp
    moreover have "U ?p = None"
    proof (rule ccontr)
      assume "U ?p \<noteq> None"
      then obtain C where "U ?p = Some C" by blast
      then have "(\<exists>j<40. from_user_ptr ?p \<in> dom (?V ! j) \<and> C \<subseteq> bytes_of ?p (unat (kClassSizes ! j))) \<or>
        la_grants lv ?p = Some C" using g unfolding ar_grants_def by blast
      then obtain j where j: "j < 40" "b \<in> dom (?V ! j)"
        unfolding nl from_to_user_ptr by blast
      then have "b \<in> dom (us_of Us' qs' ! j)" unfolding V' using i by (cases "j = i") auto
      from ar_small_only [OF S(1) i(1) b' j(1) this] j(2) new show False by blast
    qed
    moreover note ar_small_block(3,4) [OF S(1) i(1) b']
    moreover have "16 dvd unat ?p"
      using dvd_add [of 16 "unat b" 32] calculation(3,4) by simp
    moreover from this have "aligned_for alignment ?p"
      using True by (simp add: aligned_for_def is_small_def size_consts word_le_nat_alt)
    moreover have "?p \<noteq> nullptr" using calculation(3) by auto
    ultimately show ?thesis using al S(1,2) ag ks Inr
      by (intro exI [of _ "map_sum id to_user_ptr r"] exI [of _ ar'] exI [of _ w'] exI [of _ Fs']
          exI [of _ Us'] exI [of _ qs'] exI [of _ lv]) simp
  qed
next
  case False
  note I = ar_invD [OF inv]
  let ?s = "at_least_one sz"
  have lg: "large_legal os (?s, alignment)" using legal by (simp add: ar_legal_def)
  obtain r la w' where al: "la_allocate os ?s alignment (ar_large ar) w = (r, la, w')" by (metis prod_cases3)
  note run = ar_allocate_large [OF False al]
  show ?thesis
  proof (cases r)
    case (Inl e)
    note A = la_allocate_Inl [OF I(1,5) lg al [unfolded Inl]]
    note L = la_idle [OF I(5) A(3)]
    have "la_inv os la lv w'" "la_node_id la = la_node_id (ar_large ar)"
      "frame_step (pool_area (la_pool (ar_large ar) lv)) w (pool_area (la_pool la lv)) w'"
      using L A(2) by simp_all
    note S = ar_large_step [OF inv this]
    have "agree_on (granted U) (w_mem w) (w_mem w')"
      using ar_agree [OF inv g agree_on_mono [OF S(3)] agree_on_mono [OF L(3) la_granted_pool [OF I(5)]]]
        sm_granted_fam [OF I(2)] us_of_granted [OF I(3)] by blast
    moreover have "keeps_headers U (w_mem w) (w_mem w')" by (rule ar_keeps_headers [OF inv g S(1)]) simp_all
    ultimately show ?thesis using run S(1,2) g Inl
      by (intro exI [of _ r] exI [of _ "ar\<lparr>ar_large := la\<rparr>"] exI [of _ w'] exI [of _ Fs]
          exI [of _ Us] exI [of _ qs] exI [of _ lv]) simp
  next
    case (Inr p)
    note A = la_allocate_Inr [OF I(1,5) lg al [unfolded Inr]]
    obtain raw span where B: "la_inv os la ((p, raw, span, ?s) # lv) w'"
      "frame_step (pool_area (la_pool (ar_large ar) lv)) w (pool_area (la_pool la ((p, raw, span, ?s) # lv))) w'"
      using A(1) by blast
    note S = ar_large_step [OF inv B(1) A(6) B(2)]
    have ag: "agree_on (granted U) (w_mem w) (w_mem w')"
      using ar_agree [OF inv g agree_on_mono [OF S(3)] A(2)]
        sm_granted_fam [OF I(2)] us_of_granted [OF I(3)] by blast
    have lgr: "la_grants ((p, raw, span, ?s) # lv) = (la_grants lv)(p \<mapsto> bytes_of p (unat ?s))"
      by (rule la_grants_Cons)
    have ns: "\<forall>j<40. from_user_ptr p \<notin> dom (us_of Us qs ! j)"
      using ar_not_both [OF S(1), of _ p] lgr by auto
    have "la_grants lv p = None" using A(4) by (simp add: la_grants_None)
    then have new: "U p = None" using g ns unfolding ar_grants_def by (metis not_None_eq)
    have "ar_grants (us_of Us qs) ((p, raw, span, ?s) # lv) (U(p \<mapsto> ar_area (sz, alignment) p))"
      by (rule ar_grants_large [OF g lgr _ ns]) (simp add: ar_area_def)
    moreover have "aligned_for alignment p" using A(5) by (simp add: aligned_for_def)
    moreover have "keeps_headers U (w_mem w) (w_mem w')"
      by (rule ar_keeps_headers [OF inv g S(1)]) (simp_all add: lgr)
    ultimately show ?thesis using run S(1,2) ag new A(3) Inr
      by (intro exI [of _ r] exI [of _ "ar\<lparr>ar_large := la\<rparr>"] exI [of _ w'] exI [of _ Fs]
          exI [of _ Us] exI [of _ qs] exI [of _ "(p, raw, span, ?s) # lv"]) auto
  qed
qed

subsection \<open>Deallocation by an arena\<close>

lemma ar_granted_header:
  assumes inv: "ar_inv os ar Fs Us qs lv w" and g: "ar_grants (us_of Us qs) lv U" and p: "U p = Some A"
  shows "sint (bh_node_id (w_mem w) (from_user_ptr p)) = ar_node_id ar" and "p \<noteq> nullptr"
proof -
  have "bh_node_id (w_mem w) (from_user_ptr p) = of_int (ar_node_id ar) \<and> p \<noteq> nullptr"
  proof (cases rule: ar_grants_cases [OF inv g p])
    case (1 j)
    have "unat p = unat (from_user_ptr p) + 32" using ar_small_block(3) [OF inv 1(1,2)] by simp
    then show ?thesis using ar_small_header(1) [OF inv 1(1,2)] by auto
  next
    case 2
    then have "la_grants lv p \<noteq> None" by simp
    then have "32 \<le> unat p" by (rule ar_large_block(3) [OF inv])
    then have "p \<noteq> nullptr" by auto
    then show ?thesis using ar_large_header(1) [OF inv \<open>la_grants lv p \<noteq> None\<close>] by simp
  qed
  then show "p \<noteq> nullptr" and "sint (bh_node_id (w_mem w) (from_user_ptr p)) = ar_node_id ar"
    using inv by (auto simp: ar_inv_def sint_of_int32)
qed

lemma us_of_del:
  assumes "i < 40" and "length Us = 40"
  shows "us_of (Us[i := (Us ! i)(b := None)]) qs = (us_of Us qs)[i := (us_of Us qs ! i)(b := None)]"
proof (rule nth_equalityI)
  fix j assume "j < length (us_of (Us[i := (Us ! i)(b := None)]) qs)"
  then have j: "j < 40" by simp
  show "us_of (Us[i := (Us ! i)(b := None)]) qs ! j = (us_of Us qs)[i := (us_of Us qs ! i)(b := None)] ! j"
    using j assms by (cases "j = i") (auto simp: restrict_map_def fun_eq_iff)
qed simp

text \<open>Returning a small block, to its class or to its foreign bin: the common conclusion.\<close>

lemma ar_give_small:
  assumes inv: "ar_inv os ar Fs Us qs lv w" and g: "ar_grants (us_of Us qs) lv U"
    and i: "i < 40" and b: "b \<in> dom (us_of Us qs ! i)"
    and core: "core_ok os (ar_node_id ar) (ar_small ar') (ar_foreign_bins ar') (ar_foreign_bytes ar') Fs' Us' qs' w'"
    and fs: "frame_step (fam Fs) w (fam Fs') w'"
    and ar': "ar' = ar\<lparr>ar_small := ar_small ar', ar_foreign_bins := ar_foreign_bins ar',
      ar_foreign_bytes := ar_foreign_bytes ar'\<rparr>"
    and us: "us_of Us' qs' = (us_of Us qs)[i := (us_of Us qs ! i)(b := None)]"
    and ag: "agree_on (fam_granted (us_of Us' qs')) (w_mem w) (w_mem w')"
  shows "ar_inv os ar' Fs' Us' qs' lv w' \<and> frame_step (ar_foot ar Fs lv) w (ar_foot ar' Fs' lv) w' \<and>
    ar_grants (us_of Us' qs') lv (U(to_user_ptr b := None)) \<and>
    agree_on (granted (U(to_user_ptr b := None))) (w_mem w) (w_mem w') \<and>
    keeps_headers (U(to_user_ptr b := None)) (w_mem w) (w_mem w')"
proof -
  note S = ar_small_step [OF inv core fs ar']
  have nl: "la_grants lv (to_user_ptr b) = None" using ar_not_both [OF inv i, of "to_user_ptr b"] b by simp
  have only: "\<forall>j<40. b \<in> dom (us_of Us qs ! j) \<longrightarrow> j = i" using ar_small_only [OF inv i b] by blast
  have g': "ar_grants (us_of Us' qs') lv (U(to_user_ptr b := None))"
    by (rule ar_grants_give_small [OF g us _ i only nl]) simp
  have "agree_on (granted (la_grants lv)) (w_mem w) (w_mem w')"
    by (rule agree_on_mono [OF S(3) la_granted_pool [OF ar_invD(5) [OF inv]]])
  moreover have "keeps_headers (U(to_user_ptr b := None)) (w_mem w) (w_mem w')"
  proof (rule ar_keeps_headers [OF inv g S(1)])
    show "ar_node_id ar' = ar_node_id ar" by (subst ar') simp
    fix j c assume "j < 40" "c \<in> dom (us_of Us qs ! j)" and c: "(U(to_user_ptr b := None)) (to_user_ptr c) \<noteq> None"
    moreover from c have "c \<noteq> b" by auto
    ultimately show "c \<in> dom (us_of Us' qs' ! j)" unfolding us using i by (cases "j = i") auto
  qed (auto split: if_splits)
  ultimately show ?thesis using S(1,2) g' ar_agree [OF S(1) g' ag] by blast
qed

lemma ar_deallocate_small_ok:
  assumes inv: "ar_inv os ar Fs Us qs lv w" and g: "ar_grants (us_of Us qs) lv U"
    and i: "i < 40" and b: "b \<in> dom (us_of Us qs ! i)"
  shows "\<exists>ar' w' Fs' Us'. ar_deallocate_own os (to_user_ptr b) ar w = (Inr (), ar', w') \<and>
    ar_inv os ar' Fs' Us' qs lv w' \<and> frame_step (ar_foot ar Fs lv) w (ar_foot ar' Fs' lv) w' \<and>
    ar_grants (us_of Us' qs) lv (U(to_user_ptr b := None)) \<and>
    agree_on (granted (U(to_user_ptr b := None))) (w_mem w) (w_mem w') \<and>
    keeps_headers (U(to_user_ptr b := None)) (w_mem w) (w_mem w')"
proof -
  note I = ar_invD [OF inv]
  have core: "core_ok os (ar_node_id ar) (ar_small ar) (ar_foreign_bins ar) (ar_foreign_bytes ar) Fs Us qs w"
    using inv by (simp add: ar_inv_def)
  have bin: "(Us ! i) b \<noteq> None" using ar_small_block(1) [OF inv i b] by auto
  note H = ar_small_header [OF inv i b]
  obtain r sm w' where de: "sm_deallocate os b (ar_small ar) w = (r, sm, w')" by (metis prod_cases3)
  note D = sm_deallocate_ok [OF I(2) i bin H(2) de]
  let ?Us' = "Us[i := (Us ! i)(b := None)]" and ?ar' = "ar\<lparr>ar_small := sm\<rparr>"
  have keep: "set (qs ! i) \<subseteq> dom ((Us ! i)(b := None))"
    using core i ar_small_block(2) [OF inv i b] by (auto simp: core_ok_def bins_ok_def)
  have sub: "dom ((Us ! i)(b := None)) \<subseteq> dom (Us ! i)" by auto
  obtain F' where F': "core_ok os (ar_node_id ar) sm (ar_foreign_bins ar) (ar_foreign_bytes ar) (Fs[i := F']) ?Us' qs w'"
    "frame_step (fam Fs) w (fam (Fs[i := F'])) w'"
    using core_ok_step [OF core i D(2) sub keep] by blast
  have "agree_on (fam_granted ?Us') (w_mem w) (w_mem w')"
    using D(2) restrict_dom_del [of "Us ! i" b] by (simp add: sm_step_def)
  then have ag: "agree_on (fam_granted (us_of ?Us' qs)) (w_mem w) (w_mem w')"
    by (rule agree_on_mono [OF _ us_of_granted]) (simp add: I(3))
  have run: "ar_deallocate_own os (to_user_ptr b) ar w = (Inr (), ?ar', w')"
    using H(3) de D(1) by (simp add: ar_deallocate_own_def)
  have core': "core_ok os (ar_node_id ar) (ar_small ?ar') (ar_foreign_bins ?ar') (ar_foreign_bytes ?ar')
      (Fs[i := F']) ?Us' qs w'" using F'(1) by simp
  have "?ar' = ar\<lparr>ar_small := ar_small ?ar', ar_foreign_bins := ar_foreign_bins ?ar',
      ar_foreign_bytes := ar_foreign_bytes ?ar'\<rparr>" by simp
  note R = ar_give_small [OF inv g i b core' F'(2) this us_of_del [OF i I(3)] ag]
  show ?thesis using run R by (intro exI [of _ ?ar'] exI [of _ w'] exI [of _ "Fs[i := F']"] exI [of _ ?Us']) simp
qed

lemma ar_deallocate_large_ok:
  assumes inv: "ar_inv os ar Fs Us qs lv w" and g: "ar_grants (us_of Us qs) lv U"
    and p: "la_grants lv p \<noteq> None"
  shows "\<exists>ar' w' lv'. ar_deallocate_own os p ar w = (Inr (), ar', w') \<and>
    ar_inv os ar' Fs Us qs lv' w' \<and> frame_step (ar_foot ar Fs lv) w (ar_foot ar' Fs lv') w' \<and>
    ar_grants (us_of Us qs) lv' (U(p := None)) \<and>
    agree_on (granted (U(p := None))) (w_mem w) (w_mem w') \<and> keeps_headers (U(p := None)) (w_mem w) (w_mem w')"
proof -
  note I = ar_invD [OF inv]
  obtain b where b: "b \<in> set lv" "fst b = p" using ar_large_block(2) [OF inv p] by blast
  obtain la w' where de: "la_deallocate os (fst b) (ar_large ar) w = (la, w')" by fastforce
  note D = la_deallocate_ok [OF I(1,5) b(1) de]
  let ?lv = "remove1 b lv" and ?ar' = "ar\<lparr>ar_large := la\<rparr>"
  note S = ar_large_step [OF inv D(1) D(4) D(2)]
  have ns: "\<forall>j<40. from_user_ptr p \<notin> dom (us_of Us qs ! j)" 
  proof (intro allI impI notI)
    fix j assume "j < 40" "from_user_ptr p \<in> dom (us_of Us qs ! j)"
    from ar_not_both [OF inv this] p show False by simp
  qed
  have g': "ar_grants (us_of Us qs) ?lv (U(p := None))"
    by (rule ar_grants_large [OF g la_grants_remove1 [OF I(7) b(1), unfolded b(2)] refl ns])
  have "la_inv os (ar_large ar) ?lv w"
    using I(5) distinct_fst_remove1 [OF I(7)] set_remove1_subset [of b lv]
    by (auto simp: la_inv_def la_pool_split [OF b(1)] spans_apart_add)
  then have "granted (la_grants ?lv) \<subseteq> pool_area (la_pool (ar_large ar) ?lv)" by (rule la_granted_pool)
  then have "agree_on (granted (la_grants ?lv)) (w_mem w) (w_mem w')" by (rule agree_on_mono [OF D(3)])
  moreover have "fam_granted (us_of Us qs) \<subseteq> fam Fs"
    using sm_granted_fam [OF I(2)] us_of_granted [OF I(3)] by blast
  then have "agree_on (fam_granted (us_of Us qs)) (w_mem w) (w_mem w')" by (rule agree_on_mono [OF S(3)])
  ultimately have "agree_on (granted (U(p := None))) (w_mem w) (w_mem w')" by (intro ar_agree [OF S(1) g'])
  moreover have "ar_deallocate_own os p ar w = (Inr (), ?ar', w')"
    using ar_large_header(2) [OF inv p] de by (simp add: ar_deallocate_own_def b(2))
  moreover have "keeps_headers (U(p := None)) (w_mem w) (w_mem w')"
    by (rule ar_keeps_headers [OF inv g S(1)])
      (auto simp: la_grants_remove1 [OF I(7) b(1), unfolded b(2)] split: if_splits)
  ultimately show ?thesis using S(1,2) g' by blast
qed

text \<open>A block that comes back to its own arena.\<close>

lemma ar_deallocate_own_ok:
  assumes inv: "ar_inv os ar Fs Us qs lv w" and g: "ar_grants (us_of Us qs) lv U" and p: "U p \<noteq> None"
  shows "\<exists>ar' w' Fs' Us' lv'. ar_deallocate_own os p ar w = (Inr (), ar', w') \<and>
    ar_inv os ar' Fs' Us' qs lv' w' \<and> frame_step (ar_foot ar Fs lv) w (ar_foot ar' Fs' lv') w' \<and>
    ar_grants (us_of Us' qs) lv' (U(p := None)) \<and>
    agree_on (granted (U(p := None))) (w_mem w) (w_mem w') \<and> keeps_headers (U(p := None)) (w_mem w) (w_mem w')"
proof -
  obtain A where A: "U p = Some A" using p by blast
  show ?thesis
  proof (cases rule: ar_grants_cases [OF inv g A])
    case (1 j)
    show ?thesis using ar_deallocate_small_ok [OF inv g 1(1,2)] unfolding to_from_user_ptr by blast
  next
    case 2
    then have "la_grants lv p \<noteq> None" by simp
    from ar_deallocate_large_ok [OF inv g this] show ?thesis by blast
  qed
qed

text \<open>A block that another thread returns: the same, through the foreign bins.\<close>

lemma ar_deallocate_foreign_ok:
  assumes inv: "ar_inv os ar Fs Us qs lv w" and g: "ar_grants (us_of Us qs) lv U" and p: "U p \<noteq> None"
  shows "\<exists>ar' w' Fs' Us' qs' lv'. ar_deallocate_foreign os p ar w = Some (Inr (), ar', w') \<and>
    ar_inv os ar' Fs' Us' qs' lv' w' \<and> frame_step (ar_foot ar Fs lv) w (ar_foot ar' Fs' lv') w' \<and>
    ar_grants (us_of Us' qs') lv' (U(p := None)) \<and>
    agree_on (granted (U(p := None))) (w_mem w) (w_mem w') \<and> keeps_headers (U(p := None)) (w_mem w) (w_mem w')"
proof -
  obtain A where A: "U p = Some A" using p by blast
  consider j where "ar_foreign_freelist_enabled ar" "j < 40" "from_user_ptr p \<in> dom (us_of Us qs ! j)"
    | "ar_deallocate_foreign os p ar w = Some (ar_deallocate_own os p ar w)"
  proof (cases rule: ar_grants_cases [OF inv g A])
    case (1 j)
    with that show thesis by (cases "ar_foreign_freelist_enabled ar") (auto simp: ar_deallocate_foreign_def)
  next
    case 2
    then have "bh_size_class (w_mem w) (from_user_ptr p) = 0" using ar_large_header(2) [OF inv, of p] by simp
    with that(2) show thesis by (simp add: ar_deallocate_foreign_def)
  qed
  then show ?thesis
  proof cases
    case (1 j)
    let ?b = "from_user_ptr p"
    have core: "core_ok os (ar_node_id ar) (ar_small ar) (ar_foreign_bins ar) (ar_foreign_bytes ar) Fs Us qs w"
      using inv by (simp add: ar_inv_def)
    have b: "?b \<in> dom (Us ! j)" "?b \<notin> set (qs ! j)"
      using ar_small_block(1,2) [OF inv 1(2,3)] by auto
    obtain ar' w' Fs' Us' qs' where E: "enqueue_foreign_small os ?b ar w = Some (Inr (), ar', w')"
      "core_ok os (ar_node_id ar) (ar_small ar') (ar_foreign_bins ar') (ar_foreign_bytes ar') Fs' Us' qs' w'"
      "frame_step (fam Fs) w (fam Fs') w'"
      "us_of Us' qs' = (us_of Us qs)[j := (us_of Us qs ! j)(?b := None)]"
      "agree_on (fam_granted (us_of Us' qs')) (w_mem w) (w_mem w')"
      "ar' = ar\<lparr>ar_small := ar_small ar', ar_foreign_bins := ar_foreign_bins ar',
         ar_foreign_bytes := ar_foreign_bytes ar'\<rparr>"
      using enqueue_foreign_small_ok [OF core 1(2) b] by (elim exE conjE)
    have "ar_deallocate_foreign os p ar w = Some (Inr (), ar', w')"
      using 1(1) ar_small_header(3) [OF inv 1(2,3)] E(1) by (simp add: ar_deallocate_foreign_def)
    moreover note ar_give_small [OF inv g 1(2,3) E(2,3,6,4,5), unfolded to_from_user_ptr]
    ultimately show ?thesis by blast
  next
    case 2
    obtain ar' w' Fs' Us' lv' where D: "ar_deallocate_own os p ar w = (Inr (), ar', w')"
      "ar_inv os ar' Fs' Us' qs lv' w'" "frame_step (ar_foot ar Fs lv) w (ar_foot ar' Fs' lv') w'"
      "ar_grants (us_of Us' qs) lv' (U(p := None))"
      "agree_on (granted (U(p := None))) (w_mem w) (w_mem w')" "keeps_headers (U(p := None)) (w_mem w) (w_mem w')"
      using ar_deallocate_own_ok [OF inv g p] by (elim exE conjE)
    then show ?thesis using 2 by (metis (no_types))
  qed
qed

subsection \<open>The arena as an allocator\<close>

definition ar_alloc_req :: "os \<Rightarrow> u64 \<times> u64 \<Rightarrow> arena \<Rightarrow> world \<Rightarrow> (ptr res \<times> arena \<times> world) option" where
  "ar_alloc_req os r ar w = ar_allocate os (fst r) (snd r) ar w"

text \<open>\<open>deallocate\<close> of a block of this arena, whatever the rest of the arenas is.\<close>

definition ar_free_op ::
  "os \<Rightarrow> (int \<Rightarrow> ptr \<Rightarrow> 'm \<Rightarrow> world \<Rightarrow> (unit res \<times> 'm \<times> world) option) \<Rightarrow> 'm \<Rightarrow>
   ptr \<Rightarrow> arena \<Rightarrow> world \<Rightarrow> (unit res \<times> arena \<times> world) option" where
  "ar_free_op os route rest p ar w =
    (case ar_deallocate os route p ar rest w of
       None \<Rightarrow> None
     | Some (r, ar', rest', w') \<Rightarrow> Some (r, ar', w'))"

lemma ar_deallocate_granted:
  assumes inv: "ar_inv os ar Fs Us qs lv w" and g: "ar_grants (us_of Us qs) lv U" and p: "U p \<noteq> None"
  shows "ar_deallocate os route p ar rest w =
    (let (r, ar1, w1) = ar_deallocate_own os p ar w in Some (r, ar1, rest, w1))"
proof -
  obtain A where A: "U p = Some A" using p by blast
  note H = ar_granted_header [OF inv g A]
  show ?thesis using H by (simp add: ar_deallocate_def ar_is_foreign_def)
qed

lemma ar_grants_apart:
  assumes inv: "ar_inv os ar Fs Us qs lv w" and g: "ar_grants (us_of Us qs) lv U"
    and p: "U p = Some A" and q: "U q = Some B" and ne: "p \<noteq> q"
  shows "A \<inter> B = {}"
proof -
  note I = ar_invD [OF inv]
  have dj: "fam Fs \<inter> pool_area (la_pool (ar_large ar) lv) = {}" using inv by (simp add: ar_inv_def)
  have small: "\<exists>C. (Us ! j) (from_user_ptr r) = Some C \<and> D \<subseteq> C \<and> C \<subseteq> fam Fs"
    if "j < 40" "from_user_ptr r \<in> dom (us_of Us qs ! j)" "D \<subseteq> bytes_of r (unat (kClassSizes ! j))" for j r D
    using ar_small_block(1) [OF inv that(1,2)] that(3) by auto
  have large: "C \<subseteq> pool_area (la_pool (ar_large ar) lv)" if "la_grants lv r = Some C" for r C
    using la_granted_pool [OF I(5)] granted_part [of "la_grants lv" r C, OF that] by blast
  show ?thesis
  proof (cases rule: ar_grants_cases [OF inv g p])
    case (1 j)
    note p1 = 1
    obtain C where C: "(Us ! j) (from_user_ptr p) = Some C" "A \<subseteq> C" "C \<subseteq> fam Fs" using small [OF 1] by blast
    show ?thesis
    proof (cases rule: ar_grants_cases [OF inv g q])
      case (1 k)
      obtain D where D: "(Us ! k) (from_user_ptr q) = Some D" "B \<subseteq> D" "D \<subseteq> fam Fs" using small [OF 1] by blast
      have "(j, from_user_ptr p) \<noteq> (k, from_user_ptr q)" using ne by (metis prod.inject to_from_user_ptr)
      from sm_blocks_apart [OF I(2) p1(1) 1(1) C(1) D(1) this] C(2) D(2) show ?thesis by blast
    next
      case 2
      show ?thesis using large [OF 2] C dj by blast
    qed
  next
    case 2
    note p2 = 2
    show ?thesis
    proof (cases rule: ar_grants_cases [OF inv g q])
      case (1 k)
      obtain D where D: "B \<subseteq> D" "D \<subseteq> fam Fs" using small [OF 1] by blast
      show ?thesis using large [OF p2] D dj by blast
    next
      case 2
      have "la_owns os (ar_large ar) w (pool_area (la_pool (ar_large ar) lv)) (la_grants lv)"
        using I(1,5) by (auto simp: la_owns_def)
      from laa.owns_apart [OF this p2 2 ne] show ?thesis .
    qed
  qed
qed

text \<open>The laws that do not depend on how a block comes back.\<close>

lemma ar_owns_laws:
  assumes "ar_owns os ar w F U"
  shows "F \<subseteq> mapped w" and "U p = Some A \<Longrightarrow> A \<subseteq> F \<and> p \<noteq> nullptr"
    and "U p = Some A \<Longrightarrow> U q = Some B \<Longrightarrow> p \<noteq> q \<Longrightarrow> A \<inter> B = {}"
    and "frame_step G w G' w' \<Longrightarrow> F \<inter> G = {} \<Longrightarrow> ar_owns os ar w' F U"
    and "agree_on (- granted U) (w_mem w) m' \<Longrightarrow> ar_owns os ar (w\<lparr>w_mem := m'\<rparr>) F U"
proof -
  obtain Fs Us qs lv where inv: "ar_inv os ar Fs Us qs lv w" and F: "F = ar_foot ar Fs lv"
    and g: "ar_grants (us_of Us qs) lv U" using assms unfolding ar_owns_def by blast
  show "F \<subseteq> mapped w" unfolding F by (rule ar_invD(6) [OF inv])
  show "A \<subseteq> F \<and> p \<noteq> nullptr" if "U p = Some A"
    using ar_granted_foot [OF inv g] granted_part [of U p A, OF that] ar_granted_header(2) [OF inv g that]
    unfolding F by blast
  show "A \<inter> B = {}" if "U p = Some A" "U q = Some B" "p \<noteq> q"
    by (rule ar_grants_apart [OF inv g that])
  show "ar_owns os ar w' F U" if "frame_step G w G' w'" "F \<inter> G = {}"
    using ar_inv_frame [OF inv that(1) that(2) [unfolded F]] g F unfolding ar_owns_def by blast
  show "ar_owns os ar (w\<lparr>w_mem := m'\<rparr>) F U" if "agree_on (- granted U) (w_mem w) m'"
    using ar_inv_write [OF inv g that] g F unfolding ar_owns_def by blast
qed

lemma ar_owns_alloc:
  assumes "ar_owns os ar w F U" and lg: "ar_legal os r"
  shows "\<exists>x ar' w' F'. ar_alloc_req os r ar w = Some (x, ar', w') \<and> frame_step F w F' w' \<and>
    agree_on (granted U) (w_mem w) (w_mem w') \<and> keeps_headers U (w_mem w) (w_mem w') \<and>
    (case x of Inl e \<Rightarrow> ar_owns os ar' w' F' U
     | Inr p \<Rightarrow> U p = None \<and> p \<noteq> nullptr \<and> aligned_for (snd r) p \<and>
         ar_owns os ar' w' F' (U(p \<mapsto> ar_area r p)))"
proof -
  obtain Fs Us qs lv where inv: "ar_inv os ar Fs Us qs lv w" and F: "F = ar_foot ar Fs lv"
    and g: "ar_grants (us_of Us qs) lv U" using assms unfolding ar_owns_def by blast
  obtain sz alignment where r: "r = (sz, alignment)" by (cases r)
  obtain x ar' w' Fs' Us' qs' lv' where A: "ar_allocate os sz alignment ar w = Some (x, ar', w')"
    "ar_inv os ar' Fs' Us' qs' lv' w'" "frame_step (ar_foot ar Fs lv) w (ar_foot ar' Fs' lv') w'"
    "agree_on (granted U) (w_mem w) (w_mem w')" "keeps_headers U (w_mem w) (w_mem w')"
    "case x of Inl e \<Rightarrow> ar_grants (us_of Us' qs') lv' U
     | Inr p \<Rightarrow> U p = None \<and> p \<noteq> nullptr \<and> aligned_for alignment p \<and>
         ar_grants (us_of Us' qs') lv' (U(p \<mapsto> ar_area (sz, alignment) p))"
    using ar_allocate_ok [OF inv g lg [unfolded r]] by (elim exE conjE)
  have "case x of Inl e \<Rightarrow> ar_owns os ar' w' (ar_foot ar' Fs' lv') U
     | Inr p \<Rightarrow> U p = None \<and> p \<noteq> nullptr \<and> aligned_for (snd r) p \<and>
         ar_owns os ar' w' (ar_foot ar' Fs' lv') (U(p \<mapsto> ar_area r p))"
    using A(2,6) unfolding ar_owns_def r by (cases x) auto
  then show ?thesis using A(1,3,4,5) unfolding F r ar_alloc_req_def fst_conv snd_conv
    by (intro exI [of _ x] exI [of _ ar'] exI [of _ w'] exI [of _ "ar_foot ar' Fs' lv'"]) simp
qed

lemma ar_owns_free:
  assumes "ar_owns os ar w F U" and p: "U p \<noteq> None"
  shows "\<exists>ar' w' F'. ar_free_op os route rest p ar w = Some (Inr (), ar', w') \<and> frame_step F w F' w' \<and>
      agree_on (granted (U(p := None))) (w_mem w) (w_mem w') \<and>
      keeps_headers (U(p := None)) (w_mem w) (w_mem w') \<and> ar_owns os ar' w' F' (U(p := None))"
    and "\<exists>ar' w' F'. ar_deallocate_foreign os p ar w = Some (Inr (), ar', w') \<and> frame_step F w F' w' \<and>
      agree_on (granted (U(p := None))) (w_mem w) (w_mem w') \<and>
      keeps_headers (U(p := None)) (w_mem w) (w_mem w') \<and> ar_owns os ar' w' F' (U(p := None))"
proof -
  obtain Fs Us qs lv where inv: "ar_inv os ar Fs Us qs lv w" and F: "F = ar_foot ar Fs lv"
    and g: "ar_grants (us_of Us qs) lv U" using assms unfolding ar_owns_def by blast
  obtain ar' w' Fs' Us' lv' where D: "ar_deallocate_own os p ar w = (Inr (), ar', w')"
    "ar_inv os ar' Fs' Us' qs lv' w'" "frame_step (ar_foot ar Fs lv) w (ar_foot ar' Fs' lv') w'"
    "ar_grants (us_of Us' qs) lv' (U(p := None))" "agree_on (granted (U(p := None))) (w_mem w) (w_mem w')"
    "keeps_headers (U(p := None)) (w_mem w) (w_mem w')"
    using ar_deallocate_own_ok [OF inv g p] by (elim exE conjE)
  have "ar_free_op os route rest p ar w = Some (Inr (), ar', w')"
    using D(1) by (simp add: ar_free_op_def ar_deallocate_granted [OF inv g p])
  moreover have "ar_owns os ar' w' (ar_foot ar' Fs' lv') (U(p := None))" using D(2,4) unfolding ar_owns_def by blast
  ultimately show "\<exists>ar' w' F'. ar_free_op os route rest p ar w = Some (Inr (), ar', w') \<and> frame_step F w F' w' \<and>
      agree_on (granted (U(p := None))) (w_mem w) (w_mem w') \<and>
      keeps_headers (U(p := None)) (w_mem w) (w_mem w') \<and> ar_owns os ar' w' F' (U(p := None))"
    using D(3,5,6) unfolding F by blast
  obtain ar' w' Fs' Us' qs' lv' where E: "ar_deallocate_foreign os p ar w = Some (Inr (), ar', w')"
    "ar_inv os ar' Fs' Us' qs' lv' w'" "frame_step (ar_foot ar Fs lv) w (ar_foot ar' Fs' lv') w'"
    "ar_grants (us_of Us' qs') lv' (U(p := None))" "agree_on (granted (U(p := None))) (w_mem w) (w_mem w')"
    "keeps_headers (U(p := None)) (w_mem w) (w_mem w')"
    using ar_deallocate_foreign_ok [OF inv g p] by (elim exE conjE)
  have "ar_owns os ar' w' (ar_foot ar' Fs' lv') (U(p := None))" using E(2,4) unfolding ar_owns_def by blast
  then show "\<exists>ar' w' F'. ar_deallocate_foreign os p ar w = Some (Inr (), ar', w') \<and> frame_step F w F' w' \<and>
      agree_on (granted (U(p := None))) (w_mem w) (w_mem w') \<and>
      keeps_headers (U(p := None)) (w_mem w) (w_mem w') \<and> ar_owns os ar' w' F' (U(p := None))"
    using E(1,3,5,6) unfolding F by blast
qed

subsection \<open>The class of a block in use\<close>

text \<open>Steps elsewhere and writes of the users leave it alone.\<close>

lemma ar_owns_headers:
  assumes "ar_owns os ar w F U"
  shows "frame_step G w G' w' \<Longrightarrow> F \<inter> G = {} \<Longrightarrow> keeps_headers U (w_mem w) (w_mem w')"
    and "agree_on (- granted U) (w_mem w) m' \<Longrightarrow> keeps_headers U (w_mem w) m'"
proof -
  obtain Fs Us qs lv where inv: "ar_inv os ar Fs Us qs lv w" and F: "F = ar_foot ar Fs lv"
    and g: "ar_grants (us_of Us qs) lv U" using assms unfolding ar_owns_def by blast
  show "keeps_headers U (w_mem w) (w_mem w')" if "frame_step G w G' w'" "F \<inter> G = {}"
    by (rule ar_keeps_headers [OF inv g ar_inv_frame [OF inv that(1) that(2) [unfolded F]] refl])
  show "keeps_headers U (w_mem w) m'" if ag: "agree_on (- granted U) (w_mem w) m'"
    using ar_keeps_headers [OF inv g ar_inv_write [OF inv g ag]] by simp
qed

text \<open>A small block: its class, its alignment, and that its user may be granted any part of
  the class.\<close>

lemma ar_owns_small:
  assumes "ar_owns os ar w F U" and p: "U p = Some A"
    and c: "bh_size_class (w_mem w) (from_user_ptr p) \<noteq> 0"
  shows "\<exists>j<40. bh_size_class (w_mem w) (from_user_ptr p) = ucast (kClassSizes ! j) \<and>
      A \<subseteq> bytes_of p (unat (kClassSizes ! j)) \<and> 16 dvd unat p \<and> from_user_ptr p \<noteq> nullptr \<and>
      unat (from_user_ptr p) + 65536 < 18446744073709551616 \<and>
      (\<forall>B. B \<subseteq> bytes_of p (unat (kClassSizes ! j)) \<longrightarrow> ar_owns os ar w F (U(p \<mapsto> B)))"
proof -
  obtain Fs Us qs lv where inv: "ar_inv os ar Fs Us qs lv w" and F: "F = ar_foot ar Fs lv"
    and g: "ar_grants (us_of Us qs) lv U" using assms(1) unfolding ar_owns_def by blast
  show ?thesis
  proof (cases rule: ar_grants_cases [OF inv g p])
    case (1 j)
    let ?b = "from_user_ptr p"
    note B = ar_small_block [OF inv 1(1,2)]
    obtain C where "(Us ! j) ?b = Some C" using B(1) by blast
    then have nn: "?b \<noteq> nullptr" "unat ?b + 65536 < 18446744073709551616"
      using sc_owns_block(3,4) [OF sm_owns_class(1) [OF ar_invD(2) [OF inv] 1(1)]] by blast+
    have p32: "unat p = unat ?b + 32" using B(3) by simp
    have al: "16 dvd unat p" unfolding p32 using B(4) by simp
    have l: "la_grants lv p = None" by (rule ar_not_both [OF inv 1(1,2)])
    have "ar_grants (us_of Us qs) lv (U(p \<mapsto> D))" if "D \<subseteq> bytes_of p (unat (kClassSizes ! j))" for D
      using g l 1 that unfolding ar_grants_def by auto
    then have "\<forall>D. D \<subseteq> bytes_of p (unat (kClassSizes ! j)) \<longrightarrow> ar_owns os ar w F (U(p \<mapsto> D))"
      using inv F unfolding ar_owns_def by blast
    then show ?thesis using 1 ar_small_header(2) [OF inv 1(1,2)] nn al by (intro exI [of _ j]) simp
  next
    case 2
    then show ?thesis using ar_large_header(2) [OF inv, of p] c by simp
  qed
qed

text \<open>The header of a small block that \<open>allocate\<close> has just handed out.\<close>

lemma header_fields_apart:
  fixes h :: ptr
  shows "bytes_of h 4 \<inter> bytes_of (h + 4) 4 = {}" and "bytes_of h 4 \<inter> bytes_of (h + 8) 8 = {}"
    and "bytes_of (h + 4) 4 \<inter> bytes_of (h + 8) 8 = {}"
proof -
  have u: "unat h < 18446744073709551616" by simp
  have p: "unat (h + 4) = (if unat h + 4 < 18446744073709551616 then unat h + 4 else unat h + 4 - 18446744073709551616)"
    "unat (h + 8) = (if unat h + 8 < 18446744073709551616 then unat h + 8 else unat h + 8 - 18446744073709551616)"
    by (simp_all add: unat_plus_if')
  show "bytes_of h 4 \<inter> bytes_of (h + 4) 4 = {}" and "bytes_of h 4 \<inter> bytes_of (h + 8) 8 = {}"
    and "bytes_of (h + 4) 4 \<inter> bytes_of (h + 8) 8 = {}"
    using u by (auto simp: bytes_of_def p split: if_splits)
qed

lemma header_fields_written:
  assumes "m' = set_bh_size h sz (set_bh_size_class h c (set_bh_node_id h n m))"
  shows "bh_node_id m' h = n" and "bh_size_class m' h = c" and "bh_size m' h = sz"
  using header_fields_apart [of h]
  by (simp_all add: assms header_field_defs load32_store64_apart s32.get_put_apart)

lemma ar_allocate_header:
  assumes al: "ar_allocate os sz alignment ar w = Some (Inr p, ar', w')"
    and sm: "is_small (at_least_one sz) alignment"
  shows "\<exists>ci. class_index_for_size (at_least_one sz) = Inr ci \<and>
    bh_node_id (w_mem w') (from_user_ptr p) = of_int (ar_node_id ar) \<and>
    bh_size_class (w_mem w') (from_user_ptr p) = ucast (kClassSizes ! unat ci) \<and>
    bh_size (w_mem w') (from_user_ptr p) = 0"
proof -
  obtain ci h m where ci: "class_index_for_size (at_least_one sz) = Inr ci" and p: "p = to_user_ptr h"
    and m: "w_mem w' = set_bh_size h 0 (set_bh_size_class h (ucast (kClassSizes ! unat ci))
      (set_bh_node_id h (of_int (ar_node_id ar)) m))"
    using al unfolding ar_allocate_def Let_def [of "if sz = 0 then 1 else sz"]
      at_least_one_def [symmetric] is_small_def [symmetric]
    by (auto simp: Let_def sm split: sum.splits option.splits prod.splits)
  from header_fields_written [OF m] ci show ?thesis by (simp add: p)
qed

subsection \<open>The contract of an arena\<close>

text \<open>An arena is an allocator for the threads of its own node, and, with the foreign
  deallocation in the place of its own, for the threads of any other.\<close>

interpretation aro: owner "ar_owns os" "ar_alloc_req os" "\<lambda>ar. ar_area" "ar_legal os" for os
proof unfold_locales
  fix ar w F U assume o: "ar_owns os ar w F U"
  note laws = ar_owns_laws [OF o]
  show "F \<subseteq> mapped w" by (rule laws(1))
  show "A \<subseteq> F \<and> p \<noteq> nullptr" if "U p = Some A" for p A by (rule laws(2) [OF that])
  show "A \<inter> B = {}" if "U p = Some A" "U q = Some B" "p \<noteq> q" for p q A B by (rule laws(3) [OF that])
  show "ar_owns os ar w' F U" if "frame_step G w G' w'" "F \<inter> G = {}" for G w' G' by (rule laws(4) [OF that])
  show "ar_owns os ar (w\<lparr>w_mem := m'\<rparr>) F U" if "agree_on (- granted U) (w_mem w) m'" for m'
    by (rule laws(5) [OF that])
  show "ar_alloc_req os r ar w \<noteq> None" if "ar_legal os r" for r
    using ar_owns_alloc [OF o that] by (elim exE conjE) simp
  show "U p = None \<and> agree_on (granted U) (w_mem w) (w_mem w') \<and>
      (\<exists>F'. ar_owns os ar' w' F' (U(p \<mapsto> ar_area r p)) \<and> frame_step F w F' w')"
    if "ar_legal os r" "ar_alloc_req os r ar w = Some (Inr p, ar', w')" for r p ar' w'
    using ar_owns_alloc [OF o that(1)] that(2) by auto
  show "agree_on (granted U) (w_mem w) (w_mem w') \<and> (\<exists>F'. ar_owns os ar' w' F' U \<and> frame_step F w F' w')"
    if "ar_legal os r" "ar_alloc_req os r ar w = Some (Inl e, ar', w')" for r e ar' w'
    using ar_owns_alloc [OF o that(1)] that(2) by auto
qed

interpretation ara: allocator "ar_owns os" "ar_alloc_req os" "ar_free_op os route rest"
    "\<lambda>ar. ar_area" "ar_legal os" for os route rest
proof unfold_locales
  fix ar w F U assume o: "ar_owns os ar w F U"
  show "ar_free_op os route rest p ar w \<noteq> None" if "U p \<noteq> None" for p
    using ar_owns_free(1) [OF o that, of route rest] by (elim exE conjE) simp
  show "x = Inr () \<and> agree_on (granted (U(p := None))) (w_mem w) (w_mem w') \<and>
      (\<exists>F'. ar_owns os ar' w' F' (U(p := None)) \<and> frame_step F w F' w')"
    if "U p \<noteq> None" "ar_free_op os route rest p ar w = Some (x, ar', w')" for p x ar' w'
    using ar_owns_free(1) [OF o that(1), of route rest] that(2) by auto
qed

interpretation arf: allocator "ar_owns os" "ar_alloc_req os" "ar_deallocate_foreign os"
    "\<lambda>ar. ar_area" "ar_legal os" for os
proof unfold_locales
  fix ar w F U assume o: "ar_owns os ar w F U"
  show "ar_deallocate_foreign os p ar w \<noteq> None" if "U p \<noteq> None" for p
    using ar_owns_free(2) [OF o that] by (elim exE conjE) simp
  show "x = Inr () \<and> agree_on (granted (U(p := None))) (w_mem w) (w_mem w') \<and>
      (\<exists>F'. ar_owns os ar' w' F' (U(p := None)) \<and> frame_step F w F' w')"
    if "U p \<noteq> None" "ar_deallocate_foreign os p ar w = Some (x, ar', w')" for p x ar' w'
    using ar_owns_free(2) [OF o that(1)] that(2) by auto
qed

end
