(* ===== verification/Arena_Teardown.thy ===== *)
theory Arena_Teardown
  imports Numa_Arena
begin

section \<open>Destruction of an arena\<close>

text \<open>
  What the destructors of \<open>SmallObjectAllocator\<close>, \<open>LargeObjectAllocator\<close> and \<open>NumaArena\<close>
  give back to the kernel. A destructor unmaps only bytes of its object; what it leaves
  mapped (spans still in use, slabs that the vector of their class lost) is part of what the
  object owned. Draining the foreign bins first returns, and leaves every bin empty.
\<close>

subsection \<open>Giving bytes back\<close>

definition gives_back :: "nat set \<Rightarrow> world \<Rightarrow> world \<Rightarrow> bool" where
  "gives_back F w w' \<longleftrightarrow> (\<exists>R. R \<subseteq> F \<and> frame_step F w R w')"

lemma gives_back_all: "frame_step F w {} w' \<Longrightarrow> gives_back F w w'"
  unfolding gives_back_def by blast

lemma gives_back_nothing: "gives_back {} w w' \<Longrightarrow> frame_step {} w {} w'"
  unfolding gives_back_def by auto

lemma gives_back_step:
  assumes "frame_step F w F' w1" and "gives_back F' w1 w'" and "F' \<subseteq> F"
  shows "gives_back F w w'"
proof -
  obtain R where R: "R \<subseteq> F'" "frame_step F' w1 R w'" using assms(2) unfolding gives_back_def by blast
  from frame_step_trans [OF assms(1) R(2)] R(1) assms(3) show ?thesis unfolding gives_back_def by blast
qed

lemma gives_back_Un:
  assumes a: "gives_back F w w1" and b: "gives_back G w1 w2" and dj: "F \<inter> G = {}" and sub: "G \<subseteq> mapped w"
  shows "gives_back (F \<union> G) w w2"
proof -
  obtain R where R: "R \<subseteq> F" "frame_step F w R w1" using a unfolding gives_back_def by blast
  obtain S where S: "S \<subseteq> G" "frame_step G w1 S w2" using b unfolding gives_back_def by blast
  have GF: "G \<inter> F = {}" using dj by blast
  have RG: "R \<inter> G = {}" using R(1) dj by blast
  have "R \<subseteq> mapped w1" using R(2) by (auto simp: frame_step_def)
  from frame_step_extend [OF S(2) this RG] have "frame_step (R \<union> G) w1 (S \<union> R) w2"
    unfolding Un_commute [of G R] .
  with frame_step_extend [OF R(2) sub GF]
  have "frame_step (F \<union> G) w (S \<union> R) w2" by (rule frame_step_trans)
  moreover have "S \<union> R \<subseteq> F \<union> G" using R(1) S(1) by blast
  ultimately show ?thesis unfolding gives_back_def by (intro exI [of _ "S \<union> R"] conjI)
qed

lemma gives_back_kept:
  "gives_back F w w' \<Longrightarrow> A \<inter> F = {} \<Longrightarrow> A \<subseteq> mapped w \<Longrightarrow>
    agree_on A (w_mem w) (w_mem w') \<and> A \<subseteq> mapped w'"
  using frame_step_mem unfolding gives_back_def by blast

subsection \<open>The small allocator\<close>

lemma sc_destroy_gives_back:
  assumes "sc_owns os sc w F U"
  shows "gives_back F w (sc_destroy os sc w)"
proof -
  obtain orph where os: "os_ok os" and inv: "sc_inv os sc orph w" and F: "F = sc_foot os sc orph"
    using assms by (auto simp: sc_owns_def)
  have "slabs_bytes orph \<subseteq> slabs_bytes (sc_all sc orph)" by (auto simp: slabs_bytes_def sc_all_def)
  also have "\<dots> \<subseteq> F" unfolding F by (rule slabs_bytes_in_foot)
  finally show ?thesis using sc_destroy_frame [OF os inv] unfolding gives_back_def F by blast
qed

lemma sm_destroy_classes:
  assumes "\<forall>i\<in>set is. sc_owns os (classes ! i) w (Fs ! i) (Us ! i)" and "distinct is"
    and "\<forall>i\<in>set is. \<forall>j\<in>set is. i \<noteq> j \<longrightarrow> Fs ! i \<inter> Fs ! j = {}"
  shows "gives_back (\<Union>i\<in>set is. Fs ! i) w (fold (\<lambda>i. sc_destroy os (classes ! i)) is w)"
  using assms
proof (induction "is" arbitrary: w)
  case Nil
  have "frame_step {} w {} w" by (rule frame_step_refl) simp
  then show ?case by (simp add: gives_back_all)
next
  case (Cons i "is")
  let ?w1 = "sc_destroy os (classes ! i) w"
  have o: "sc_owns os (classes ! i) w (Fs ! i) (Us ! i)" using Cons.prems(1) by simp
  have b: "gives_back (Fs ! i) w ?w1" by (rule sc_destroy_gives_back [OF o])
  have apart: "Fs ! i \<inter> Fs ! j = {}" if "j \<in> set is" for j using Cons.prems(2,3) that by auto
  have "sc_owns os (classes ! j) ?w1 (Fs ! j) (Us ! j)" if j: "j \<in> set is" for j
  proof -
    have oj: "sc_owns os (classes ! j) w (Fs ! j) (Us ! j)" using Cons.prems(1) j by simp
    have "Fs ! j \<inter> Fs ! i = {}" using apart [OF j] by blast
    with b show ?thesis unfolding gives_back_def by (blast intro: sca.owns_frame [OF oj])
  qed
  then have "gives_back (\<Union>j\<in>set is. Fs ! j) ?w1 (fold (\<lambda>i. sc_destroy os (classes ! i)) is ?w1)"
    using Cons.prems(2,3) by (intro Cons.IH) auto
  moreover have "Fs ! i \<inter> (\<Union>j\<in>set is. Fs ! j) = {}" using apart by blast
  moreover have "(\<Union>j\<in>set is. Fs ! j) \<subseteq> mapped w"
    using Cons.prems(1) sca.owns_mapped by (metis (no_types, lifting) UN_least list.set_intros(2))
  ultimately show ?case using gives_back_Un [OF b] by simp
qed

lemma sm_destroy_gives_back:
  assumes owns: "sm_owns os sm w Fs Us"
  shows "gives_back (fam Fs) w (sm_destroy os sm w)"
proof -
  have len: "length (sm_classes sm) = 40" "length Fs = 40" using owns by (simp_all add: sm_owns_def)
  let ?is = "rev [0..<40]"
  have "rev (sm_classes sm) = map (\<lambda>i. sm_classes sm ! i) ?is"
    using len(1) by (metis map_nth rev_map)
  then have eq: "sm_destroy os sm w = fold (\<lambda>i. sc_destroy os (sm_classes sm ! i)) ?is w"
    by (simp add: sm_destroy_def fold_map comp_def)
  have "gives_back (\<Union>i\<in>set ?is. Fs ! i) w (sm_destroy os sm w)"
    unfolding eq using owns by (intro sm_destroy_classes [where Us = Us]) (auto simp: sm_owns_def)
  moreover have "(\<Union>i\<in>set ?is. Fs ! i) = fam Fs" using len(2) by (auto simp: fam_nth)
  ultimately show ?thesis by simp
qed

subsection \<open>Draining every foreign bin\<close>

lemma drain_foreign_from_ok:
  assumes "core_ok os node sm bins fbytes Fs Us qs w" and "\<forall>i\<in>set is. i < 40"
  shows "\<exists>bins' fbytes' sm' w' Fs' Us' qs'.
    drain_foreign_from os is (bins, fbytes) sm w = Some ((bins', fbytes'), sm', w') \<and>
    core_ok os node sm' bins' fbytes' Fs' Us' qs' w' \<and> frame_step (fam Fs) w (fam Fs') w' \<and>
    us_of Us' qs' = us_of Us qs \<and> agree_on (fam_granted (us_of Us qs)) (w_mem w) (w_mem w') \<and>
    (\<forall>j<40. j \<in> set is \<or> qs ! j = [] \<longrightarrow> qs' ! j = [])"
  using assms
proof (induction "is" arbitrary: bins fbytes sm w Fs Us qs)
  case Nil
  have "frame_step (fam Fs) w (fam Fs) w"
    using Nil.prems(1) sm_owns_mapped [of os sm w Fs Us] frame_step_refl by (simp add: core_ok_def)
  then show ?case using Nil.prems(1)
    by (intro exI [of _ bins] exI [of _ fbytes] exI [of _ sm] exI [of _ w] exI [of _ Fs] exI [of _ Us]
        exI [of _ qs]) simp
next
  case (Cons i "is")
  have i: "i < 40" using Cons.prems(2) by simp
  have ui: "unat (of_nat i :: u64) = i" using i by (simp add: unat_of_nat_u64)
  have i': "unat (of_nat i :: u64) < 40" using i by (simp add: ui)
  have len: "length Us = 40" "length qs = 40"
    using Cons.prems(1) by (simp_all add: core_ok_def sm_owns_def bins_ok_def)
  let ?Us1 = "Us[i := (Us ! i) |` (- set (qs ! i))]" and ?qs1 = "qs[i := []]"
  obtain bins1 fbytes1 sm1 w1 F1 where D: "drain_foreign_bin os (bins, fbytes) (of_nat i) sm w =
      Some (Inr (), (bins1, fbytes1), sm1, w1)"
    "core_ok os node sm1 bins1 fbytes1 (Fs[i := F1]) ?Us1 ?qs1 w1"
    "frame_step (fam Fs) w (fam (Fs[i := F1])) w1"
    "agree_on (fam_granted ?Us1) (w_mem w) (w_mem w1)"
    using drain_foreign_bin_ok [OF Cons.prems(1) i'] unfolding ui by blast
  have us1: "us_of ?Us1 ?qs1 = us_of Us qs" by (rule us_of_drain [OF i len]) simp
  have "length ?Us1 = 40" using len by simp
  from agree_on_mono [OF D(4) us_of_granted [OF this, of ?qs1]]
  have ag1: "agree_on (fam_granted (us_of Us qs)) (w_mem w) (w_mem w1)" unfolding us1 .
  have "\<forall>j\<in>set is. j < 40" using Cons.prems(2) by simp
  from Cons.IH [OF D(2) this] obtain bins' fbytes' sm' w' Fs' Us' qs' where
    R: "drain_foreign_from os is (bins1, fbytes1) sm1 w1 = Some ((bins', fbytes'), sm', w')"
      "core_ok os node sm' bins' fbytes' Fs' Us' qs' w'" "frame_step (fam (Fs[i := F1])) w1 (fam Fs') w'"
      "us_of Us' qs' = us_of ?Us1 ?qs1" "agree_on (fam_granted (us_of ?Us1 ?qs1)) (w_mem w1) (w_mem w')"
      "\<forall>j<40. j \<in> set is \<or> ?qs1 ! j = [] \<longrightarrow> qs' ! j = []"
    by (elim exE conjE)
  have run: "drain_foreign_from os (i # is) (bins, fbytes) sm w = Some ((bins', fbytes'), sm', w')"
    using D(1) R(1) by simp
  have fr: "frame_step (fam Fs) w (fam Fs') w'" using D(3) R(3) by (rule frame_step_trans)
  have ag: "agree_on (fam_granted (us_of Us qs)) (w_mem w) (w_mem w')"
    using ag1 R(5) unfolding us1 by (rule agree_on_trans)
  have em: "\<forall>j<40. j \<in> set (i # is) \<or> qs ! j = [] \<longrightarrow> qs' ! j = []"
  proof (intro allI impI)
    fix j assume "j < 40" and "j \<in> set (i # is) \<or> qs ! j = []"
    then have "j \<in> set is \<or> ?qs1 ! j = []" using len(2) by (cases "j = i") auto
    with \<open>j < 40\<close> show "qs' ! j = []" using R(6) by blast
  qed
  show ?case using run R(2) fr R(4) ag em unfolding us1 by blast
qed

lemma drain_all_foreign_ok:
  assumes inv: "ar_inv os ar Fs Us qs lv w"
  shows "\<exists>ar' w' Fs' Us' qs'. drain_all_foreign os ar w = Some (ar', w') \<and>
    ar_inv os ar' Fs' Us' qs' lv w' \<and> frame_step (ar_foot ar Fs lv) w (ar_foot ar' Fs' lv) w' \<and>
    us_of Us' qs' = us_of Us qs \<and> (\<forall>j<40. qs' ! j = []) \<and> ar_large ar' = ar_large ar \<and>
    ar_foreign_bytes ar' = 0"
proof -
  have core: "core_ok os (ar_node_id ar) (ar_small ar) (ar_foreign_bins ar) (ar_foreign_bytes ar) Fs Us qs w"
    using inv by (simp add: ar_inv_def)
  have lb: "length (ar_foreign_bins ar) = 40" using core by (simp add: core_ok_def bins_ok_def)
  have "\<forall>i\<in>set [0..<40]. i < 40" by simp
  from drain_foreign_from_ok [OF core this] obtain bins' fbytes' sm' w' Fs' Us' qs' where
    D: "drain_foreign_from os [0..<40] (ar_foreign_bins ar, ar_foreign_bytes ar) (ar_small ar) w =
        Some ((bins', fbytes'), sm', w')"
      "core_ok os (ar_node_id ar) sm' bins' fbytes' Fs' Us' qs' w'" "frame_step (fam Fs) w (fam Fs') w'"
      "us_of Us' qs' = us_of Us qs" "\<forall>j<40. j \<in> set [0..<40] \<or> qs ! j = [] \<longrightarrow> qs' ! j = []"
    by (elim exE conjE)
  let ?ar' = "ar\<lparr>ar_foreign_bins := bins', ar_foreign_bytes := fbytes', ar_small := sm'\<rparr>"
  have run: "drain_all_foreign os ar w = Some (?ar', w')"
    using D(1) by (simp add: drain_all_foreign_def lb)
  have core': "core_ok os (ar_node_id ar) (ar_small ?ar') (ar_foreign_bins ?ar') (ar_foreign_bytes ?ar')
      Fs' Us' qs' w'" using D(2) by simp
  have "?ar' = ar\<lparr>ar_small := ar_small ?ar', ar_foreign_bins := ar_foreign_bins ?ar',
      ar_foreign_bytes := ar_foreign_bytes ?ar'\<rparr>" by simp
  note S = ar_small_step [OF inv core' D(3) this]
  have em: "\<forall>j<40. qs' ! j = []" using D(5) by simp
  have B: "bins_ok (w_mem w') bins' fbytes' qs' Us'" using D(2) by (simp add: core_ok_def)
  have "unat (fl_bytes b) = 0" if b: "b \<in> set bins'" for b
  proof -
    obtain j where "j < 40" "b = bins' ! j" using b B unfolding bins_ok_def in_set_conv_nth by auto
    then show ?thesis using B em by (simp add: bins_ok_def fbin_ok_def)
  qed
  then have "sum_list (map (\<lambda>b. unat (fl_bytes b)) bins') = 0" by simp
  then have "unat fbytes' = 0" using B by (simp add: bins_ok_def)
  then have "fbytes' = 0" by (simp add: unat_eq_0)
  with run S D(4) em show ?thesis by auto
qed

subsection \<open>Deallocation only unmaps\<close>

lemma mapped_sys_munmap: "mapped (sys_munmap os p len w) \<subseteq> mapped w"
proof -
  let ?r = "(unat p, unat p + unat len)"
  have "in_ranges (concat (map (cut_range ?r) (w_maps w))) x \<longrightarrow> in_ranges (w_maps w) x" for x
    by (simp add: in_ranges_cut)
  then show ?thesis by (auto simp: sys_munmap_def Let_def mapped_def)
qed

lemma mapped_vm_release: "mapped (vm_release os p sz w) \<subseteq> mapped w"
  using mapped_sys_munmap by (auto simp: vm_release_def)

lemma mapped_release_loop:
  "sc_release_loop os i slabs retained current w = (slabs', retained', current', w') \<Longrightarrow>
   mapped w' \<subseteq> mapped w"
proof (induction os i slabs retained current w rule: sc_release_loop.induct)
  case (1 os i slabs retained current w)
  show ?case
  proof (cases "i < length slabs")
    case False
    then show ?thesis using "1.prems" by (simp add: sc_release_loop.simps)
  next
    case True
    note eq = sc_release_loop.simps [of os i slabs retained current w]
    show ?thesis
    proof (cases "slab_is_empty (w_mem w) (slabs ! i)")
      case False
      then show ?thesis using "1.IH"(1) [OF True refl] "1.prems" True by (simp add: eq)
    next
      case e: True
      show ?thesis
      proof (cases "retained = nullptr")
        case n: True
        have "sc_release_loop os (Suc i) slabs (slabs ! i) current w = (slabs', retained', current', w')"
          using "1.prems" unfolding eq Let_def by (simp only: True e n if_True if_False simp_thms)
        with "1.IH"(2) [OF True refl] e n show ?thesis by simp
      next
        case False
        then have "mapped w' \<subseteq> mapped (vm_release os (slabs ! i) SLAB_SIZE w)"
          using "1.IH"(3) [OF True refl] "1.prems" True e by (simp add: eq Let_def)
        then show ?thesis using mapped_vm_release by blast
      qed
    qed
  qed
qed

lemma mapped_release_extra: "sc_release_extra os sc w = (sc', w') \<Longrightarrow> mapped w' \<subseteq> mapped w"
  by (auto simp: sc_release_extra_def Let_def split: prod.splits dest!: mapped_release_loop)

lemma mapped_batch:
  assumes "sc_deallocate_batch os head sc w = Some (r, sc', w')"
  shows "mapped w' \<subseteq> mapped w"
proof -
  have r: "mapped w' \<subseteq> mapped w" if "sc_release_extra os sc (w\<lparr>w_mem := m\<rparr>) = (sc', w')" for m
    using mapped_release_extra [OF that] by simp
  from assms show ?thesis
    by (auto simp: sc_deallocate_batch_def split: if_splits option.splits sum.splits prod.splits dest: r)
qed

lemma mapped_drain_bin:
  assumes "drain_foreign_bin os ctx ci sm w = Some (r, ctx', sm', w')"
  shows "mapped w' \<subseteq> mapped w"
proof -
  have s: "mapped w' \<subseteq> mapped w" if "sm_deallocate_batch os ci h sm w = Some (r, sm', w')" for h
    using that
    by (auto simp: sm_deallocate_batch_def Let_def dest!: mapped_batch split: if_splits option.splits prod.splits)
  from assms show ?thesis
    by (auto simp: drain_foreign_bin_def drain_foreign_batch_def Let_def dest: s
        split: if_splits option.splits prod.splits)
qed

lemma mapped_drain_from:
  "drain_foreign_from os is ctx sm w = Some (ctx', sm', w') \<Longrightarrow> mapped w' \<subseteq> mapped w"
proof (induction "is" arbitrary: ctx sm w)
  case (Cons i "is")
  obtain r ctx1 sm1 w1 where D: "drain_foreign_bin os ctx (of_nat i) sm w = Some (r, ctx1, sm1, w1)"
    using Cons.prems by (auto split: option.splits)
  then have "mapped w' \<subseteq> mapped w1" using Cons.prems by (intro Cons.IH) simp
  with mapped_drain_bin [OF D] show ?case by blast
qed simp

lemma mapped_drain_all: "drain_all_foreign os ar w = Some (ar', w') \<Longrightarrow> mapped w' \<subseteq> mapped w"
  by (auto simp: drain_all_foreign_def dest: mapped_drain_from split: option.splits prod.splits)

text \<open>So a step that maps nothing stays within what was owned.\<close>

lemma frame_step_shrink: "frame_step F w F' w' \<Longrightarrow> mapped w' \<subseteq> mapped w \<Longrightarrow> F' \<subseteq> F"
  by (auto simp: frame_step_def)

subsection \<open>A slab that leaves its class is unmapped\<close>

lemma mapped_munmap_eq:
  "unat p mod unat (os_page_size os) = 0 \<Longrightarrow> bytes_of p (unat len) \<inter> mapped (sys_munmap os p len w) = {}"
  by (auto simp: sys_munmap_def Let_def mapped_iff in_ranges_cut bytes_of_iff split: if_splits)

lemma vm_release_unmaps:
  assumes "os_ok os" and "p \<noteq> nullptr" and "sz \<noteq> 0" and "fits_page os sz" and "unat (page_size os) dvd unat p"
  shows "bytes_of p (span_bytes os sz) \<inter> mapped (vm_release os p sz w) = {}"
proof -
  have "unat p mod unat (os_page_size os) = 0" using assms(5) by (simp add: page_size_def dvd_eq_mod_eq_0)
  from mapped_munmap_eq [OF this, of "align_up sz (page_size os)" w] show ?thesis
    using assms(2,3) by (simp add: vm_release_def align_up_page [OF assms(1,4)])
qed

definition releasable :: "os \<Rightarrow> ptr list \<Rightarrow> bool" where
  "releasable os slabs \<longleftrightarrow> (\<forall>s\<in>set slabs. s \<noteq> nullptr \<and> unat (page_size os) dvd unat s)"

lemma slab_unmapped:
  "os_ok os \<Longrightarrow> s \<noteq> nullptr \<Longrightarrow> unat (page_size os) dvd unat s \<Longrightarrow>
    bytes_of s 65536 \<inter> mapped (vm_release os s SLAB_SIZE w) = {}"
  using vm_release_unmaps [of os s SLAB_SIZE w] by (simp add: SLAB_SIZE_nz fits_page_slab span_bytes_slab)

lemma swap_pop_members:
  assumes "i < length slabs"
  shows "set (swap_pop i slabs) \<subseteq> set slabs" and "set slabs \<subseteq> insert (slabs ! i) (set (swap_pop i slabs))"
proof -
  have "mset slabs = add_mset (slabs ! i) (mset (swap_pop i slabs))"
    using assms by (simp add: swap_pop_mset)
  then have "set slabs = insert (slabs ! i) (set (swap_pop i slabs))" by (metis set_mset_add_mset_insert set_mset_mset)
  then show "set (swap_pop i slabs) \<subseteq> set slabs" and "set slabs \<subseteq> insert (slabs ! i) (set (swap_pop i slabs))" by auto
qed

lemma release_loop_unmaps:
  "sc_release_loop os i slabs retained current w = (slabs', retained', current', w') \<Longrightarrow> os_ok os \<Longrightarrow> releasable os slabs \<Longrightarrow>
    set slabs' \<subseteq> set slabs \<and> slabs_bytes slabs \<inter> mapped w' \<subseteq> slabs_bytes slabs'"
proof (induction os i slabs retained current w rule: sc_release_loop.induct)
  case (1 os i slabs retained current w)
  note eq = sc_release_loop.simps [of os i slabs retained current w]
  show ?case
  proof (cases "i < length slabs")
    case False
    then show ?thesis using "1.prems" by (simp add: eq)
  next
    case True
    show ?thesis
    proof (cases "slab_is_empty (w_mem w) (slabs ! i)")
      case False
      then show ?thesis using "1.IH"(1) [OF True refl] "1.prems" True by (simp add: eq)
    next
      case e: True
      show ?thesis
      proof (cases "retained = nullptr")
        case n: True
        have "sc_release_loop os (Suc i) slabs (slabs ! i) current w = (slabs', retained', current', w')"
          using "1.prems" unfolding eq Let_def by (simp only: True e n if_True if_False simp_thms)
        with "1.IH"(2) [OF True refl] e n "1.prems"(2,3) show ?thesis by simp
      next
        case False
        let ?w1 = "vm_release os (slabs ! i) SLAB_SIZE w"
        note P = swap_pop_members [OF True]
        have run: "sc_release_loop os i (swap_pop i slabs) retained (if current = slabs ! i then nullptr else current) ?w1 =
            (slabs', retained', current', w')"
          using "1.prems"(1) True e False by (simp add: eq Let_def)
        have rel: "releasable os (swap_pop i slabs)" using "1.prems"(3) P(1) by (auto simp: releasable_def)
        have IH: "set slabs' \<subseteq> set (swap_pop i slabs) \<and> slabs_bytes (swap_pop i slabs) \<inter> mapped w' \<subseteq> slabs_bytes slabs'"
          using "1.IH"(3) [OF True refl] e False run rel "1.prems"(2) by simp
        have "bytes_of (slabs ! i) 65536 \<inter> mapped ?w1 = {}"
          using "1.prems"(3) True by (intro slab_unmapped [OF "1.prems"(2)]) (simp_all add: releasable_def)
        then have "bytes_of (slabs ! i) 65536 \<inter> mapped w' = {}" using mapped_release_loop [OF run] by blast
        moreover have "slabs_bytes slabs \<subseteq> bytes_of (slabs ! i) 65536 \<union> slabs_bytes (swap_pop i slabs)"
          using P(2) by (auto simp: slabs_bytes_def)
        ultimately show ?thesis using IH P(1) by blast
      qed
    qed
  qed
qed

text \<open>What a class has in store: the slabs that it lists and the storage of its vector.\<close>

definition class_store :: "os \<Rightarrow> size_class \<Rightarrow> nat set" where
  "class_store os sc = slabs_bytes (nv_items (sc_slabs sc)) \<union> vec_bytes os (sc_slabs sc)"

definition sheds :: "os \<Rightarrow> size_class \<Rightarrow> size_class \<Rightarrow> world \<Rightarrow> bool" where
  "sheds os sc sc' w' \<longleftrightarrow> set (nv_items (sc_slabs sc')) \<subseteq> set (nv_items (sc_slabs sc)) \<and>
     class_store os sc \<inter> mapped w' \<subseteq> class_store os sc'"

lemma sheds_refl: "sheds os sc sc w"
  by (simp add: sheds_def)

lemma sheds_trans: "sheds os sc sc1 w1 \<Longrightarrow> sheds os sc1 sc2 w2 \<Longrightarrow> mapped w2 \<subseteq> mapped w1 \<Longrightarrow> sheds os sc sc2 w2"
  unfolding sheds_def by blast

lemma release_extra_sheds:
  assumes "sc_release_extra os sc w = (sc', w')" and "os_ok os" and "releasable os (nv_items (sc_slabs sc))"
  shows "sheds os sc sc' w'"
proof -
  obtain slabs retained current where R: "sc_release_loop os 0 (nv_items (sc_slabs sc)) nullptr (sc_current sc) w =
      (slabs, retained, current, w')" and s: "sc_slabs sc' = (sc_slabs sc)\<lparr>nv_items := slabs\<rparr>"
    using assms(1) by (auto simp: sc_release_extra_def Let_def split: prod.splits)
  from release_loop_unmaps [OF R assms(2,3)] show ?thesis
    by (auto simp: sheds_def class_store_def s vec_bytes_def)
qed

lemma batch_sheds:
  assumes "sc_deallocate_batch os head sc w = Some (r, sc', w')" and "os_ok os" and "releasable os (nv_items (sc_slabs sc))"
  shows "sheds os sc sc' w'"
  using assms release_extra_sheds
  by (auto simp: sc_deallocate_batch_def sheds_refl split: if_splits option.splits sum.splits prod.splits)

definition all_shed :: "os \<Rightarrow> small_alloc \<Rightarrow> small_alloc \<Rightarrow> world \<Rightarrow> bool" where
  "all_shed os sm sm' w' \<longleftrightarrow> length (sm_classes sm') = length (sm_classes sm) \<and>
     (\<forall>i<length (sm_classes sm). sheds os (sm_classes sm ! i) (sm_classes sm' ! i) w')"

definition all_releasable :: "os \<Rightarrow> small_alloc \<Rightarrow> bool" where
  "all_releasable os sm \<longleftrightarrow> (\<forall>sc\<in>set (sm_classes sm). releasable os (nv_items (sc_slabs sc)))"

lemma all_shed_refl: "all_shed os sm sm w"
  by (simp add: all_shed_def sheds_refl)

lemma all_shed_trans:
  "all_shed os sm sm1 w1 \<Longrightarrow> all_shed os sm1 sm2 w2 \<Longrightarrow> mapped w2 \<subseteq> mapped w1 \<Longrightarrow> all_shed os sm sm2 w2"
  unfolding all_shed_def using sheds_trans by metis

lemma all_shed_releasable:
  assumes "all_shed os sm sm' w'" and "all_releasable os sm"
  shows "all_releasable os sm'"
  unfolding all_releasable_def
proof
  fix sc assume "sc \<in> set (sm_classes sm')"
  then obtain i where i: "i < length (sm_classes sm)" "sc = sm_classes sm' ! i"
    using assms(1) by (auto simp: in_set_conv_nth all_shed_def)
  then have "set (nv_items (sc_slabs sc)) \<subseteq> set (nv_items (sc_slabs (sm_classes sm ! i)))"
    using assms(1) by (simp add: all_shed_def sheds_def)
  moreover have "releasable os (nv_items (sc_slabs (sm_classes sm ! i)))"
    using assms(2) i(1) by (simp add: all_releasable_def)
  ultimately show "releasable os (nv_items (sc_slabs sc))" unfolding releasable_def by blast
qed

lemma set_class_sheds:
  assumes "sheds os (sm_classes sm ! i) sc w"
  shows "all_shed os sm (set_class i sc sm) w"
  unfolding all_shed_def
proof (intro conjI allI impI)
  fix j assume "j < length (sm_classes sm)"
  then show "sheds os (sm_classes sm ! j) (sm_classes (set_class i sc sm) ! j) w"
    using assms by (cases "j = i") (simp_all add: set_class_def sheds_refl)
qed (simp add: set_class_def)

lemma drain_batch_sheds:
  assumes "drain_foreign_batch os ci batch sm w = Some (r, sm', w')" and "os_ok os" and "all_releasable os sm"
  shows "all_shed os sm sm' w'"
proof -
  have s: "sheds os (sm_classes sm ! i) sc w'"
    if "sc_deallocate_batch os h (sm_classes sm ! i) w = Some (r, sc, w')" "i < length (sm_classes sm)" for h sc i
    using that assms(3) by (intro batch_sheds [OF that(1) assms(2)]) (simp add: all_releasable_def)
  have "all_shed os sm (set_class i sc sm) w'"
    if "sc_deallocate_batch os h (sm_classes sm ! i) w = Some (r, sc, w')" for h sc i
  proof (cases "i < length (sm_classes sm)")
    case True
    from set_class_sheds [OF s [OF that True]] show ?thesis .
  next
    case False
    then show ?thesis by (simp add: set_class_def list_update_beyond all_shed_refl)
  qed
  then show ?thesis using assms(1)
    by (auto simp: drain_foreign_batch_def sm_deallocate_batch_def Let_def all_shed_refl split: if_splits option.splits prod.splits)
qed

lemma drain_from_sheds:
  "drain_foreign_from os is ctx sm w = Some (ctx', sm', w') \<Longrightarrow> os_ok os \<Longrightarrow> all_releasable os sm \<Longrightarrow> all_shed os sm sm' w'"
proof (induction "is" arbitrary: ctx sm w)
  case Nil
  then show ?case by (simp add: all_shed_refl)
next
  case (Cons i "is")
  obtain r ctx1 sm1 w1 where D: "drain_foreign_bin os ctx (of_nat i) sm w = Some (r, ctx1, sm1, w1)"
    and R: "drain_foreign_from os is ctx1 sm1 w1 = Some (ctx', sm', w')" using Cons.prems(1) by (auto split: option.splits)
  have "all_shed os sm sm1 w1"
    using D drain_batch_sheds [OF _ Cons.prems(2,3)]
    by (auto simp: drain_foreign_bin_def Let_def all_shed_refl split: if_splits option.splits prod.splits)
  with Cons.IH [OF R Cons.prems(2)] all_shed_releasable [OF _ Cons.prems(3)] mapped_drain_from [OF R]
  show ?case by (blast intro: all_shed_trans)
qed

subsection \<open>The destructor of an arena\<close>

lemma ar_destroy_gives_back:
  assumes "ar_owns os ar w F U"
  shows "\<exists>w'. ar_destroy os ar w = Some w' \<and> gives_back F w w'"
proof -
  obtain Fs Us qs lv where inv: "ar_inv os ar Fs Us qs lv w" and F: "F = ar_foot ar Fs lv"
    using assms unfolding ar_owns_def by blast
  obtain ar1 w1 Fs1 Us1 qs1 where D: "drain_all_foreign os ar w = Some (ar1, w1)"
    "ar_inv os ar1 Fs1 Us1 qs1 lv w1" "frame_step (ar_foot ar Fs lv) w (ar_foot ar1 Fs1 lv) w1"
    using drain_all_foreign_ok [OF inv] by blast
  note I = ar_invD [OF D(2)]
  let ?P = "pool_area (la_pool (ar_large ar1) lv)" and ?C = "pool_area (la_cached (ar_large ar1))"
    and ?w2 = "la_destroy os (ar_large ar1) w1"
  have CP: "?C \<subseteq> ?P" by (auto simp: la_pool_def pool_area_def)
  have L: "frame_step ?C w1 {} ?w2" by (rule la_destroy_frame [OF I(1,5)])
  have PC: "?P - ?C \<subseteq> mapped w1" "(?P - ?C) \<inter> ?C = {}" using I(6) by (auto simp: ar_foot_def)
  have "frame_step ?P w1 (?P - ?C) ?w2"
    using frame_step_extend [OF L PC] CP by (simp add: Un_absorb1)
  then have gl: "gives_back ?P w1 ?w2" unfolding gives_back_def by blast
  have dj: "fam Fs1 \<inter> ?P = {}" using D(2) by (simp add: ar_inv_def)
  have "sm_owns os (ar_small ar1) ?w2 Fs1 Us1"
    using sm_owns_frame [OF I(2) L] dj CP by blast
  then have gs: "gives_back (fam Fs1) ?w2 (sm_destroy os (ar_small ar1) ?w2)" by (rule sm_destroy_gives_back)
  have "?P \<inter> fam Fs1 = {}" using dj by blast
  moreover have "fam Fs1 \<subseteq> mapped w1" using I(6) by (simp add: ar_foot_def)
  ultimately have "gives_back (?P \<union> fam Fs1) w1 (sm_destroy os (ar_small ar1) ?w2)"
    by (intro gives_back_Un [OF gl gs])
  then have "gives_back (ar_foot ar1 Fs1 lv) w1 (sm_destroy os (ar_small ar1) ?w2)"
    by (simp add: ar_foot_def Un_commute)
  moreover have "ar_destroy os ar w = Some (sm_destroy os (ar_small ar1) ?w2)"
    using D(1) by (simp add: ar_destroy_def)
  ultimately show ?thesis
    using gives_back_step [OF D(3)] frame_step_shrink [OF D(3) mapped_drain_all [OF D(1)]] unfolding F by blast
qed

text \<open>The same over the contract: the bins are empty afterwards, and nothing that users hold changes.\<close>

lemma drain_all_owns:
  assumes "ar_owns os ar w F U"
  shows "\<exists>ar' w' F'. drain_all_foreign os ar w = Some (ar', w') \<and> ar_foreign_bytes ar' = 0 \<and>
    ar_owns os ar' w' F' U \<and> frame_step F w F' w'"
proof -
  obtain Fs Us qs lv where inv: "ar_inv os ar Fs Us qs lv w" and F: "F = ar_foot ar Fs lv"
    and g: "ar_grants (us_of Us qs) lv U" using assms unfolding ar_owns_def by blast
  obtain ar' w' Fs' Us' qs' where D: "drain_all_foreign os ar w = Some (ar', w')" "ar_inv os ar' Fs' Us' qs' lv w'"
    "frame_step (ar_foot ar Fs lv) w (ar_foot ar' Fs' lv) w'" "us_of Us' qs' = us_of Us qs" "ar_foreign_bytes ar' = 0"
    using drain_all_foreign_ok [OF inv] by (elim exE conjE)
  have "ar_owns os ar' w' (ar_foot ar' Fs' lv) U" using D(2,4) g unfolding ar_owns_def by metis
  then show ?thesis using D(1,3,5) F by blast
qed

subsection \<open>Nothing in store stays mapped\<close>

text \<open>What an arena has in store: slabs, the vectors that list them, and cached spans.\<close>

definition arena_store :: "os \<Rightarrow> arena \<Rightarrow> nat set" where
  "arena_store os ar = (\<Union>sc\<in>set (sm_classes (ar_small ar)). class_store os sc) \<union> pool_area (la_cached (ar_large ar))"

lemma mapped_releases: "mapped (fold (\<lambda>slab w. vm_release os slab SLAB_SIZE w) ss w) \<subseteq> mapped w"
proof (induction ss arbitrary: w)
  case (Cons s ss)
  from Cons [of "vm_release os s SLAB_SIZE w"] mapped_vm_release [of os s SLAB_SIZE w] show ?case by auto
qed simp

lemma mapped_sc_destroy: "mapped (sc_destroy os sc w) \<subseteq> mapped w"
proof -
  let ?w1 = "fold (\<lambda>slab w. vm_release os slab SLAB_SIZE w) (nv_items (sc_slabs sc)) w"
  have "mapped (vec_destroy os (sc_slabs sc) ?w1) \<subseteq> mapped ?w1"
    using mapped_vm_release by (auto simp: vec_destroy_def nla_deallocate_def)
  then show ?thesis using mapped_releases unfolding sc_destroy_def Let_def by blast
qed

lemma mapped_sc_destroys: "mapped (fold (sc_destroy os) cs w) \<subseteq> mapped w"
proof (induction cs arbitrary: w)
  case (Cons c cs)
  from Cons [of "sc_destroy os c w"] mapped_sc_destroy [of os c w] show ?case by auto
qed simp

lemma sc_destroy_unmaps:
  assumes "sc_owns os sc w F U"
  shows "class_store os sc \<inter> mapped (sc_destroy os sc w) = {}"
proof -
  obtain orph where os: "os_ok os" and inv: "sc_inv os sc orph w" using assms by (auto simp: sc_owns_def)
  have fs: "frame_step (sc_foot os sc orph) w (slabs_bytes orph) (sc_destroy os sc w)" by (rule sc_destroy_frame [OF os inv])
  have apart: "slabs_apart (nv_items (sc_slabs sc) @ orph)"
    and dv: "slabs_bytes (nv_items (sc_slabs sc) @ orph) \<inter> vec_bytes os (sc_slabs sc) = {}"
    using inv by (simp_all add: sc_inv_def sc_all_def)
  have "bytes_of s 65536 \<inter> bytes_of t 65536 = {}" if "s \<in> set (nv_items (sc_slabs sc))" "t \<in> set orph" for s t
  proof -
    have "s \<noteq> t" using apart that by (auto simp: slabs_apart_def)
    then show ?thesis using apart that by (simp add: slabs_apart_def)
  qed
  then have "class_store os sc \<inter> slabs_bytes orph = {}"
    using dv by (auto simp: class_store_def slabs_bytes_def)
  moreover have "class_store os sc \<subseteq> sc_foot os sc orph" by (auto simp: class_store_def sc_foot_def sc_all_def slabs_bytes_def)
  ultimately show ?thesis using fs by (auto simp: frame_step_def)
qed

text \<open>The classes are destroyed one after the other, each while it is still as it was.\<close>

lemma sm_destroy_unmaps:
  assumes owns: "sm_owns os sm w Fs Us" and sc: "sc \<in> set (sm_classes sm)"
  shows "class_store os sc \<inter> mapped (sm_destroy os sm w) = {}"
proof -
  have len: "length (sm_classes sm) = 40" "length Fs = 40" using owns by (simp_all add: sm_owns_def)
  let ?cs = "sm_classes sm"
  have step: "class_store os (?cs ! i) \<inter> mapped (fold (\<lambda>i. sc_destroy os (?cs ! i)) is w0) = {}"
    if "\<forall>i\<in>set is. sc_owns os (?cs ! i) w0 (Fs ! i) (Us ! i)" and "distinct is" and "set is \<subseteq> {..<40}" and "i \<in> set is"
    for "is" i w0
    using that
  proof (induction "is" arbitrary: w0)
    case (Cons j "is")
    let ?w1 = "sc_destroy os (?cs ! j) w0"
    have oj: "sc_owns os (?cs ! j) w0 (Fs ! j) (Us ! j)" using Cons.prems(1) by simp
    have keep: "fold (\<lambda>i. sc_destroy os (?cs ! i)) is ?w1 = fold (sc_destroy os) (map ((!) ?cs) is) ?w1"
      by (simp add: fold_map comp_def)
    show ?case
    proof (cases "i = j")
      case True
      then show ?thesis using sc_destroy_unmaps [OF oj] mapped_sc_destroys [of os "map ((!) ?cs) is" ?w1] keep by auto
    next
      case False
      have "sc_owns os (?cs ! k) ?w1 (Fs ! k) (Us ! k)" if k: "k \<in> set is" for k
      proof -
        have ok: "sc_owns os (?cs ! k) w0 (Fs ! k) (Us ! k)" and "k \<noteq> j" "k < 40" "j < 40" using Cons.prems k by auto
        then have "Fs ! k \<inter> Fs ! j = {}" using owns by (simp add: sm_owns_def)
        with sc_destroy_gives_back [OF oj] show ?thesis unfolding gives_back_def by (blast intro: sca.owns_frame [OF ok])
      qed
      then show ?thesis using Cons.IH [of ?w1] Cons.prems(2-4) False by simp
    qed
  qed simp
  have "rev ?cs = map (\<lambda>i. ?cs ! i) (rev [0..<40])" using len(1) by (metis map_nth rev_map)
  then have eq: "sm_destroy os sm w = fold (\<lambda>i. sc_destroy os (?cs ! i)) (rev [0..<40]) w"
    by (simp add: sm_destroy_def fold_map comp_def)
  obtain i where "i < 40" "sc = ?cs ! i" using sc len(1) by (auto simp: in_set_conv_nth)
  moreover have "\<forall>i\<in>set (rev [0..<40]). sc_owns os (?cs ! i) w (Fs ! i) (Us ! i)" using owns by (simp add: sm_owns_def)
  moreover have "set (rev [0..<40 :: nat]) \<subseteq> {..<40}" by auto
  ultimately show ?thesis unfolding eq using step [of "rev [0..<40]" w i] by auto
qed

lemma ar_destroy_unmaps:
  assumes o: "ar_owns os ar w F U" and d: "ar_destroy os ar w = Some w'"
  shows "arena_store os ar \<inter> mapped w' = {}" and "mapped w' \<subseteq> mapped w"
proof -
  obtain Fs Us qs lv where inv: "ar_inv os ar Fs Us qs lv w" using o unfolding ar_owns_def by blast
  obtain ar1 w1 Fs1 Us1 qs1 where D: "drain_all_foreign os ar w = Some (ar1, w1)" "ar_inv os ar1 Fs1 Us1 qs1 lv w1"
    "ar_large ar1 = ar_large ar" using drain_all_foreign_ok [OF inv] by blast
  note I = ar_invD [OF inv] and J = ar_invD [OF D(2)]
  let ?C = "pool_area (la_cached (ar_large ar))" and ?w2 = "la_destroy os (ar_large ar1) w1"
  have w': "w' = sm_destroy os (ar_small ar1) ?w2" using d D(1) by (simp add: ar_destroy_def)
  have L: "frame_step ?C w1 {} ?w2" using la_destroy_frame [OF J(1,5)] by (simp add: D(3))
  have s: "mapped w' \<subseteq> mapped ?w2" unfolding w' sm_destroy_def by (rule mapped_sc_destroys)
  have t: "mapped ?w2 \<subseteq> mapped w1" using L by (auto simp: frame_step_def)
  show "mapped w' \<subseteq> mapped w" using s t mapped_drain_all [OF D(1)] by blast
  have "all_releasable os (ar_small ar)"
    unfolding all_releasable_def
  proof
    fix sc assume "sc \<in> set (sm_classes (ar_small ar))"
    then obtain i where "i < 40" "sc = sm_classes (ar_small ar) ! i" using I(2) by (auto simp: in_set_conv_nth sm_owns_def)
    then have "sc_owns os sc w (Fs ! i) (Us ! i)" using sm_owns_class(1) [OF I(2)] by simp
    then obtain orph where "sc_inv os sc orph w" by (auto simp: sc_owns_def)
    then show "releasable os (nv_items (sc_slabs sc))"
      unfolding releasable_def using sc_inv_slab [of os sc orph w] by (auto simp: sc_all_def slab_place_def)
  qed
  then have shed: "all_shed os (ar_small ar) (ar_small ar1) w1"
    using D(1) drain_from_sheds [OF _ I(1)] by (auto simp: drain_all_foreign_def split: option.splits prod.splits)
  have dj: "fam Fs1 \<inter> ?C = {}" using D(2,3) by (auto simp: ar_inv_def la_pool_def pool_area_def)
  have owns: "sm_owns os (ar_small ar1) ?w2 Fs1 Us1" using sm_owns_frame [OF J(2) L] dj by blast
  have "class_store os sc \<inter> mapped w' = {}" if "sc \<in> set (sm_classes (ar_small ar))" for sc
  proof -
    from that obtain i where i: "i < length (sm_classes (ar_small ar))" "sc = sm_classes (ar_small ar) ! i"
      by (auto simp: in_set_conv_nth)
    then have "class_store os sc \<inter> mapped w1 \<subseteq> class_store os (sm_classes (ar_small ar1) ! i)"
      and "sm_classes (ar_small ar1) ! i \<in> set (sm_classes (ar_small ar1))"
      using shed by (simp_all add: all_shed_def sheds_def)
    with sm_destroy_unmaps [OF owns] s t show ?thesis unfolding w' by blast
  qed
  moreover have "?C \<inter> mapped w' = {}" using L s by (auto simp: frame_step_def)
  ultimately show "arena_store os ar \<inter> mapped w' = {}" unfolding arena_store_def by blast
qed

end
