(* ===== verification/Arena_Manager.thy ===== *)
theory Arena_Manager
  imports Arena_Teardown
begin

section \<open>The arenas of all nodes\<close>

text \<open>
  Models class \<open>ArenaManager\<close> of \<open>arena_manager\<close> and \<open>NumaArenaDeleter\<close>: one arena per node,
  in storage bound to that node, and the routing of a block that a thread returns to the
  arena of its own node when it came from another. The theory instantiates the callback
  \<open>route\<close> of \<open>ar_deallocate\<close>, and shows that the arenas together are an allocator for threads
  of any node. \<open>asz\<close> is \<open>sizeof(NumaArena)\<close>, which the compiler chooses; the vector of the
  unique pointers itself lives on the C++ heap and is not part of the model.
\<close>

subsection \<open>Creation, lookup and destruction\<close>

text \<open>A \<open>NumaArenaPtr\<close>: the address of the storage and the arena in it.\<close>

type_synonym arena_ptr = "ptr \<times> arena"

definition create_arena_on_node ::
  "os \<Rightarrow> u64 \<Rightarrow> int \<Rightarrow> bool \<Rightarrow> world \<Rightarrow> arena_ptr res \<times> world" where
  "create_arena_on_node os asz node_id foreign_freelist_enabled w =
    (case vm_alloc_on_node os asz node_id Bind w of
       (Inl e, w1) \<Rightarrow> (Inl e, w1)
     | (Inr p, w1) \<Rightarrow> (Inr (p, ar_new node_id foreign_freelist_enabled True True), w1))"

definition arena_deleter :: "os \<Rightarrow> u64 \<Rightarrow> arena_ptr \<Rightarrow> world \<Rightarrow> world option" where
  "arena_deleter os asz a w =
    (if fst a = nullptr then Some w
     else case ar_destroy os (snd a) w of
       None \<Rightarrow> None
     | Some w1 \<Rightarrow> Some (vm_release os (fst a) asz w1))"

fun delete_arenas :: "os \<Rightarrow> u64 \<Rightarrow> arena_ptr list \<Rightarrow> world \<Rightarrow> world option" where
  "delete_arenas os asz [] w = Some w"
| "delete_arenas os asz (a # as) w =
     (case arena_deleter os asz a w of
        None \<Rightarrow> None
      | Some w1 \<Rightarrow> delete_arenas os asz as w1)"

text \<open>The loop of \<open>init_arenas\<close>; when a creation throws, the constructor is left and the
  arenas created so far are destroyed with the vector.\<close>

fun init_arenas_from ::
  "os \<Rightarrow> u64 \<Rightarrow> bool \<Rightarrow> nat list \<Rightarrow> arena_ptr list \<Rightarrow> world \<Rightarrow> (arena_ptr list res \<times> world) option" where
  "init_arenas_from os asz many [] as w = Some (Inr as, w)"
| "init_arenas_from os asz many (i # is) as w =
     (case create_arena_on_node os asz (int i) many w of
        (Inl e, w1) \<Rightarrow>
          (case delete_arenas os asz as w1 of None \<Rightarrow> None | Some w2 \<Rightarrow> Some (Inl e, w2))
      | (Inr a, w1) \<Rightarrow> init_arenas_from os asz many is (as @ [a]) w1)"

definition init_arenas :: "os \<Rightarrow> u64 \<Rightarrow> int \<Rightarrow> world \<Rightarrow> (arena_ptr list res \<times> world) option" where
  "init_arenas os asz node_count w =
    init_arenas_from os asz (node_count > 1) [0..<nat node_count] [] w"

definition arena_for_node :: "arena_ptr list \<Rightarrow> int \<Rightarrow> nat res" where
  "arena_for_node as node_id =
    (if node_id < 0 \<or> node_id \<ge> int (length as) then Inl Out_of_range else Inr (nat node_id))"

subsection \<open>The operations of the arenas, routed\<close>

definition mg_route ::
  "os \<Rightarrow> int \<Rightarrow> ptr \<Rightarrow> arena_ptr list \<Rightarrow> world \<Rightarrow> (unit res \<times> arena_ptr list \<times> world) option" where
  "mg_route os node_id p as w =
    (case arena_for_node as node_id of
       Inl e \<Rightarrow> Some (Inl e, as, w)
     | Inr i \<Rightarrow>
         (case ar_deallocate_foreign os p (snd (as ! i)) w of
            None \<Rightarrow> None
          | Some (r, ar, w1) \<Rightarrow> Some (r, as[i := (fst (as ! i), ar)], w1)))"

text \<open>\<open>arenas_[i]->allocate\<close> and \<open>arenas_[i]->deallocate\<close>.\<close>

definition mg_allocate ::
  "os \<Rightarrow> nat \<Rightarrow> u64 \<Rightarrow> u64 \<Rightarrow> arena_ptr list \<Rightarrow> world \<Rightarrow> (ptr res \<times> arena_ptr list \<times> world) option" where
  "mg_allocate os i sz alignment as w =
    (case ar_allocate os sz alignment (snd (as ! i)) w of
       None \<Rightarrow> None
     | Some (r, ar, w1) \<Rightarrow> Some (r, as[i := (fst (as ! i), ar)], w1))"

definition mg_deallocate ::
  "os \<Rightarrow> nat \<Rightarrow> ptr \<Rightarrow> arena_ptr list \<Rightarrow> world \<Rightarrow> (unit res \<times> arena_ptr list \<times> world) option" where
  "mg_deallocate os i p as w =
    (case ar_deallocate os (mg_route os) p (snd (as ! i)) as w of
       None \<Rightarrow> None
     | Some (r, ar, as1, w1) \<Rightarrow>
         Some (r, if ar_is_foreign p (snd (as ! i)) (w_mem w) then as1
                  else as1[i := (fst (as ! i), ar)], w1))"

subsection \<open>What an arena keeps, and where its blocks lie\<close>

text \<open>No operation changes the node of an arena or its switches.\<close>

definition same_arena :: "arena \<Rightarrow> arena \<Rightarrow> bool" where
  "same_arena ar' ar \<longleftrightarrow> ar_node_id ar' = ar_node_id ar \<and>
     ar_foreign_freelist_enabled ar' = ar_foreign_freelist_enabled ar \<and>
     ar_route_foreign ar' = ar_route_foreign ar"

lemma same_arena_refl [simp]: "same_arena ar ar"
  by (simp add: same_arena_def)

lemma ar_allocate_same: "ar_allocate os sz al ar w = Some (r, ar', w') \<Longrightarrow> same_arena ar' ar"
  by (auto simp: ar_allocate_def same_arena_def Let_def split: sum.splits option.splits prod.splits if_splits)

lemma ar_deallocate_own_same: "ar_deallocate_own os p ar w = (r, ar', w') \<Longrightarrow> same_arena ar' ar"
  by (auto simp: ar_deallocate_own_def same_arena_def Let_def split: prod.splits if_splits)

lemma enqueue_foreign_small_same: "enqueue_foreign_small os h ar w = Some (r, ar', w') \<Longrightarrow> same_arena ar' ar"
  by (auto simp: enqueue_foreign_small_def same_arena_def Let_def split: sum.splits option.splits prod.splits)

lemma ar_deallocate_foreign_same:
  "ar_deallocate_foreign os p ar w = Some (r, ar', w') \<Longrightarrow> same_arena ar' ar"
  using enqueue_foreign_small_same ar_deallocate_own_same
  by (fastforce simp: ar_deallocate_foreign_def Let_def split: if_splits)

text \<open>The header of a block in use lies in the bytes of its arena and names its node.\<close>

lemma ar_owns_header:
  assumes "ar_owns os ar w F U" and p: "U p = Some A"
  shows "unat (from_user_ptr p) \<in> F"
    and "sint (bh_node_id (w_mem w) (from_user_ptr p)) = ar_node_id ar"
proof -
  obtain Fs Us qs lv where inv: "ar_inv os ar Fs Us qs lv w" and F: "F = ar_foot ar Fs lv"
    and g: "ar_grants (us_of Us qs) lv U" using assms(1) unfolding ar_owns_def by blast
  show "sint (bh_node_id (w_mem w) (from_user_ptr p)) = ar_node_id ar"
    by (rule ar_granted_header(1) [OF inv g p])
  show "unat (from_user_ptr p) \<in> F"
  proof (cases rule: ar_grants_cases [OF inv g p])
    case (1 j)
    from ar_small_block(1) [OF inv 1(1,2)] show ?thesis by (auto simp: F ar_foot_def)
  next
    case 2
    then have "la_grants lv p \<noteq> None" by simp
    from ar_large_block(1) [OF inv this] show ?thesis by (simp add: F ar_foot_def)
  qed
qed

subsection \<open>An arena with its storage\<close>

definition arp_owns :: "os \<Rightarrow> u64 \<Rightarrow> arena_ptr \<Rightarrow> world \<Rightarrow> nat set \<Rightarrow> grants \<Rightarrow> bool" where
  "arp_owns os asz a w F U \<longleftrightarrow>
     (\<exists>F0. ar_owns os (snd a) w F0 U \<and> F = bytes_of (fst a) (span_bytes os asz) \<union> F0 \<and>
        bytes_of (fst a) (span_bytes os asz) \<inter> F0 = {} \<and>
        bytes_of (fst a) (span_bytes os asz) \<subseteq> mapped w \<and>
        fst a \<noteq> nullptr \<and> unat (page_size os) dvd unat (fst a))"

text \<open>A step of the arena is a step of the arena with its storage.\<close>

lemma arp_step:
  assumes o: "arp_owns os asz (mem, ar) w F U"
    and step: "\<And>F0. ar_owns os ar w F0 U \<Longrightarrow> \<exists>F0'. ar_owns os ar' w' F0' U' \<and> frame_step F0 w F0' w'"
  shows "\<exists>F'. arp_owns os asz (mem, ar') w' F' U' \<and> frame_step F w F' w'"
proof -
  let ?S = "bytes_of mem (span_bytes os asz)"
  obtain F0 where F0: "ar_owns os ar w F0 U" "F = ?S \<union> F0" "?S \<inter> F0 = {}" "?S \<subseteq> mapped w"
    "mem \<noteq> nullptr" "unat (page_size os) dvd unat mem" using o by (auto simp: arp_owns_def)
  obtain F0' where F0': "ar_owns os ar' w' F0' U'" "frame_step F0 w F0' w'" using step [OF F0(1)] by blast
  note K = frame_step_mem [OF F0(3,4) F0'(2)]
  have "frame_step F w (?S \<union> F0') w'"
    using frame_step_extend [OF F0'(2) F0(4,3)] by (simp add: F0(2) Un_commute)
  moreover have "arp_owns os asz (mem, ar') w' (?S \<union> F0') U'"
    using F0'(1) F0(5,6) K unfolding arp_owns_def by auto
  ultimately show ?thesis by blast
qed

lemma arp_owns_laws:
  assumes o: "arp_owns os asz a w F U"
  shows "F \<subseteq> mapped w" and "U p = Some A \<Longrightarrow> A \<subseteq> F \<and> p \<noteq> nullptr"
    and "U p = Some A \<Longrightarrow> U q = Some B \<Longrightarrow> p \<noteq> q \<Longrightarrow> A \<inter> B = {}"
    and "frame_step G w G' w' \<Longrightarrow> F \<inter> G = {} \<Longrightarrow> arp_owns os asz a w' F U"
    and "agree_on (- granted U) (w_mem w) m' \<Longrightarrow> arp_owns os asz a (w\<lparr>w_mem := m'\<rparr>) F U"
    and "U p = Some A \<Longrightarrow> unat (from_user_ptr p) \<in> F"
    and "U p = Some A \<Longrightarrow> sint (bh_node_id (w_mem w) (from_user_ptr p)) = ar_node_id (snd a)"
proof -
  let ?S = "bytes_of (fst a) (span_bytes os asz)"
  obtain F0 where F0: "ar_owns os (snd a) w F0 U" "F = ?S \<union> F0" "?S \<inter> F0 = {}" "?S \<subseteq> mapped w"
    and rest: "fst a \<noteq> nullptr" "unat (page_size os) dvd unat (fst a)" using o by (auto simp: arp_owns_def)
  note L = ar_owns_laws [OF F0(1)]
  show "F \<subseteq> mapped w" using L(1) F0 by simp
  show "A \<subseteq> F \<and> p \<noteq> nullptr" if "U p = Some A" using L(2) [OF that] F0(2) by auto
  show "A \<inter> B = {}" if "U p = Some A" "U q = Some B" "p \<noteq> q" by (rule L(3) [OF that])
  show "arp_owns os asz a w' F U" if fs: "frame_step G w G' w'" and dj: "F \<inter> G = {}"
  proof -
    have d: "?S \<inter> G = {}" "F0 \<inter> G = {}" using dj F0(2) by auto
    have "?S \<subseteq> mapped w'" using frame_step_mem [OF d(1) F0(4) fs] by simp
    then show ?thesis using L(4) [OF fs d(2)] F0 rest unfolding arp_owns_def by blast
  qed
  show "arp_owns os asz a (w\<lparr>w_mem := m'\<rparr>) F U" if "agree_on (- granted U) (w_mem w) m'"
    using L(5) [OF that] F0 rest unfolding arp_owns_def mapped_update by blast
  show "unat (from_user_ptr p) \<in> F" if "U p = Some A" using ar_owns_header(1) [OF F0(1) that] F0(2) by simp
  show "sint (bh_node_id (w_mem w) (from_user_ptr p)) = ar_node_id (snd a)" if "U p = Some A"
    by (rule ar_owns_header(2) [OF F0(1) that])
qed

lemma arp_owns_headers:
  assumes o: "arp_owns os asz a w F U"
  shows "frame_step G w G' w' \<Longrightarrow> F \<inter> G = {} \<Longrightarrow> keeps_headers U (w_mem w) (w_mem w')"
    and "agree_on (- granted U) (w_mem w) m' \<Longrightarrow> keeps_headers U (w_mem w) m'"
proof -
  obtain F0 where F0: "ar_owns os (snd a) w F0 U" "F0 \<subseteq> F" using o by (auto simp: arp_owns_def)
  show "keeps_headers U (w_mem w) m'" if "agree_on (- granted U) (w_mem w) m'"
    by (rule ar_owns_headers(2) [OF F0(1) that])
  show "keeps_headers U (w_mem w) (w_mem w')" if "frame_step G w G' w'" "F \<inter> G = {}"
    using that(2) F0(2) by (intro ar_owns_headers(1) [OF F0(1) that(1)]) blast
qed

lemma arp_granted: "arp_owns os asz a w F U \<Longrightarrow> granted U \<subseteq> F"
  using arp_owns_laws(2) by (fastforce simp: granted_def ran_def)

subsection \<open>Families that share the address space\<close>

text \<open>
  What holds of any family of objects that own disjoint parts of the address space, when a step
  of one of them stays inside its part: the others are framed. It is used for the arenas when
  operations run one after the other, and again when threads interleave on them.
\<close>

definition family ::
  "('s \<Rightarrow> world \<Rightarrow> nat set \<Rightarrow> grants \<Rightarrow> bool) \<Rightarrow> 's list \<Rightarrow> world \<Rightarrow> nat set list \<Rightarrow> grants list \<Rightarrow> bool" where
  "family owns xs w Fs Us \<longleftrightarrow> length Fs = length xs \<and> length Us = length xs \<and>
     (\<forall>i<length xs. owns (xs ! i) w (Fs ! i) (Us ! i)) \<and>
     (\<forall>i<length xs. \<forall>j<length xs. i \<noteq> j \<longrightarrow> Fs ! i \<inter> Fs ! j = {})"

locale territory =
  fixes owns :: "'s \<Rightarrow> world \<Rightarrow> nat set \<Rightarrow> grants \<Rightarrow> bool"
  assumes land_mapped: "owns s w F U \<Longrightarrow> F \<subseteq> mapped w"
    and land_part: "owns s w F U \<Longrightarrow> granted U \<subseteq> F"
    and land_frame: "owns s w F U \<Longrightarrow> frame_step G w G' w' \<Longrightarrow> F \<inter> G = {} \<Longrightarrow> owns s w' F U"
    and land_header: "owns s w F U \<Longrightarrow> U p \<noteq> None \<Longrightarrow> unat (from_user_ptr p) \<in> F"
begin

lemma family_mapped: "family owns xs w Fs Us \<Longrightarrow> fam Fs \<subseteq> mapped w"
proof -
  assume fm: "family owns xs w Fs Us"
  have "Fs ! i \<subseteq> mapped w" if "i < length xs" for i
    using fm that by (intro land_mapped [of "xs ! i" w _ "Us ! i"]) (simp add: family_def)
  moreover have "length Fs = length xs" using fm by (simp add: family_def)
  ultimately show ?thesis by (auto simp: fam_nth)
qed

lemma family_home:
  assumes fm: "family owns xs w Fs Us" and "i < length xs" "(Us ! i) p \<noteq> None" "j < length xs" "(Us ! j) p \<noteq> None"
  shows "i = j"
proof (rule ccontr)
  assume "i \<noteq> j"
  then have "Fs ! i \<inter> Fs ! j = {}" using fm assms(2,4) by (simp add: family_def)
  moreover have "unat (from_user_ptr p) \<in> Fs ! k" if "k < length xs" "(Us ! k) p \<noteq> None" for k
    using fm that by (intro land_header [of "xs ! k" w _ "Us ! k"]) (simp_all add: family_def)
  ultimately show False using assms(2-) by blast
qed

lemma family_step:
  assumes fm: "family owns xs w Fs Us" and i: "i < length xs"
    and x': "owns x' w' F' U'" and fs: "frame_step (Fs ! i) w F' w'"
  shows "family owns (xs[i := x']) w' (Fs[i := F']) (Us[i := U'])"
    and "frame_step (fam Fs) w (fam (Fs[i := F'])) w'"
    and "j < length xs \<Longrightarrow> j \<noteq> i \<Longrightarrow> agree_on (Fs ! j) (w_mem w) (w_mem w') \<and> Fs ! j \<inter> F' = {}"
proof -
  have len: "length Fs = length xs" "length Us = length xs"
    and own: "\<And>j. j < length xs \<Longrightarrow> owns (xs ! j) w (Fs ! j) (Us ! j)"
    and apart: "\<And>j k. j < length xs \<Longrightarrow> k < length xs \<Longrightarrow> j \<noteq> k \<Longrightarrow> Fs ! j \<inter> Fs ! k = {}"
    using fm by (simp_all add: family_def)
  have others: "agree_on (Fs ! j) (w_mem w) (w_mem w') \<and> Fs ! j \<inter> F' = {}"
    "owns (xs ! j) w' (Fs ! j) (Us ! j)" if j: "j < length xs" "j \<noteq> i" for j
  proof -
    note dj = apart [OF j(1) i j(2)]
    show "agree_on (Fs ! j) (w_mem w) (w_mem w') \<and> Fs ! j \<inter> F' = {}"
      using frame_step_mem [OF dj land_mapped [OF own [OF j(1)]] fs] by simp
    show "owns (xs ! j) w' (Fs ! j) (Us ! j)" by (rule land_frame [OF own [OF j(1)] fs dj])
  qed
  then show "j < length xs \<Longrightarrow> j \<noteq> i \<Longrightarrow> agree_on (Fs ! j) (w_mem w) (w_mem w') \<and> Fs ! j \<inter> F' = {}" by simp
  have part: "Fs ! i \<subseteq> fam Fs" using i by (auto simp: fam_nth [OF len(1)])
  have rest: "fam (Fs[i := F']) = F' \<union> (fam Fs - Fs ! i)"
    using i len apart [OF i] by (intro fam_update) auto
  have sub: "fam Fs - Fs ! i \<subseteq> mapped w" using family_mapped [OF fm] by auto
  have disj: "(fam Fs - Fs ! i) \<inter> Fs ! i = {}" by auto
  have all: "Fs ! i \<union> (fam Fs - Fs ! i) = fam Fs" using part by auto
  show "frame_step (fam Fs) w (fam (Fs[i := F'])) w'"
    using frame_step_extend [OF fs sub disj] unfolding all rest .
  have "owns (xs[i := x'] ! j) w' (Fs[i := F'] ! j) (Us[i := U'] ! j)" if j: "j < length xs" for j
    using others(2) [OF j] x' i len j by (cases "j = i") simp_all
  moreover have "Fs[i := F'] ! j \<inter> Fs[i := F'] ! k = {}" if jk: "j < length xs" "k < length xs" "j \<noteq> k" for j k
    using others(1) [OF jk(1)] others(1) [OF jk(2)] apart [OF jk] jk i len
    by (cases "j = i"; cases "k = i") (auto simp: Int_commute)
  ultimately show "family owns (xs[i := x']) w' (Fs[i := F']) (Us[i := U'])" using len by (simp add: family_def)
qed

end

interpretation mgf: territory "arp_owns os asz" for os asz
proof unfold_locales
  fix a w F U assume o: "arp_owns os asz a w F U"
  note L = arp_owns_laws [OF o]
  show "F \<subseteq> mapped w" by (rule L(1))
  show "granted U \<subseteq> F" by (rule arp_granted [OF o])
  show "arp_owns os asz a w' F U" if "frame_step G w G' w'" "F \<inter> G = {}" for G w' G' by (rule L(4) [OF that])
  show "unat (from_user_ptr p) \<in> F" if "U p \<noteq> None" for p using L(6) that by blast
qed

subsection \<open>What the manager owns\<close>

definition mg_inv :: "os \<Rightarrow> u64 \<Rightarrow> arena_ptr list \<Rightarrow> world \<Rightarrow> nat set list \<Rightarrow> grants list \<Rightarrow> bool" where
  "mg_inv os asz as w Fs Us \<longleftrightarrow> length Fs = length as \<and> length Us = length as \<and>
     (\<forall>i<length as. arp_owns os asz (as ! i) w (Fs ! i) (Us ! i) \<and>
        ar_node_id (snd (as ! i)) = int i \<and> ar_route_foreign (snd (as ! i))) \<and>
     (\<forall>i<length as. \<forall>j<length as. i \<noteq> j \<longrightarrow> Fs ! i \<inter> Fs ! j = {})"

definition merged :: "grants list \<Rightarrow> grants \<Rightarrow> bool" where
  "merged Us U \<longleftrightarrow> (\<forall>p A. U p = Some A \<longleftrightarrow> (\<exists>i<length Us. (Us ! i) p = Some A))"

definition mg_owns :: "os \<Rightarrow> u64 \<Rightarrow> arena_ptr list \<Rightarrow> world \<Rightarrow> nat set \<Rightarrow> grants \<Rightarrow> bool" where
  "mg_owns os asz as w F U \<longleftrightarrow> (\<exists>Fs Us. mg_inv os asz as w Fs Us \<and> F = fam Fs \<and> merged Us U)"

lemma mg_invD:
  assumes "mg_inv os asz as w Fs Us" and "i < length as"
  shows "arp_owns os asz (as ! i) w (Fs ! i) (Us ! i)" and "ar_node_id (snd (as ! i)) = int i"
    and "ar_route_foreign (snd (as ! i))" and "Fs ! i \<subseteq> fam Fs"
  using assms by (auto simp: mg_inv_def fam_nth)

lemma mg_inv_family:
  "mg_inv os asz as w Fs Us \<longleftrightarrow> family (arp_owns os asz) as w Fs Us \<and>
     (\<forall>i<length as. ar_node_id (snd (as ! i)) = int i \<and> ar_route_foreign (snd (as ! i)))"
  by (auto simp: mg_inv_def family_def)

lemma mg_inv_mapped: "mg_inv os asz as w Fs Us \<Longrightarrow> fam Fs \<subseteq> mapped w"
  unfolding mg_inv_family by (auto dest: mgf.family_mapped)

lemma mg_inv_apart:
  "mg_inv os asz as w Fs Us \<Longrightarrow> i < length as \<Longrightarrow> j < length as \<Longrightarrow> i \<noteq> j \<Longrightarrow> Fs ! i \<inter> Fs ! j = {}"
  by (simp add: mg_inv_def)

text \<open>A block is in use in one arena only.\<close>

lemma mg_inv_home:
  assumes "mg_inv os asz as w Fs Us" and "i < length as" "(Us ! i) p = Some A" and "j < length as" "(Us ! j) p = Some B"
  shows "i = j"
  using mgf.family_home [of os asz as w Fs Us i p j] assms by (auto simp: mg_inv_family)

text \<open>One arena makes a step; the others are framed.\<close>

lemma mg_step:
  assumes inv: "mg_inv os asz as w Fs Us" and i: "i < length as"
    and a': "arp_owns os asz a' w' F' U'" and fs: "frame_step (Fs ! i) w F' w'"
    and same: "same_arena (snd a') (snd (as ! i))"
  shows "mg_inv os asz (as[i := a']) w' (Fs[i := F']) (Us[i := U'])"
    and "frame_step (fam Fs) w (fam (Fs[i := F'])) w'"
    and "j < length as \<Longrightarrow> j \<noteq> i \<Longrightarrow> agree_on (Fs ! j) (w_mem w) (w_mem w') \<and> Fs ! j \<inter> F' = {}"
proof -
  have fm: "family (arp_owns os asz) as w Fs Us" using inv by (simp add: mg_inv_family)
  note S = mgf.family_step [OF fm i a' fs]
  show "mg_inv os asz (as[i := a']) w' (Fs[i := F']) (Us[i := U'])"
    using S(1) inv same i by (simp add: mg_inv_family nth_list_update same_arena_def)
  show "frame_step (fam Fs) w (fam (Fs[i := F'])) w'" by (rule S(2))
  show "j < length as \<Longrightarrow> j \<noteq> i \<Longrightarrow> agree_on (Fs ! j) (w_mem w) (w_mem w') \<and> Fs ! j \<inter> F' = {}" by (rule S(3))
qed

subsection \<open>Grants of the family\<close>

lemma merged_granted: "merged Us U \<Longrightarrow> granted U = fam_granted Us"
  by (fastforce simp: merged_def granted_def ran_def fam_granted_nth [OF refl])

lemma merged_None: "merged Us U \<Longrightarrow> U p = None \<longleftrightarrow> (\<forall>i<length Us. (Us ! i) p = None)"
  unfolding merged_def by (metis not_None_eq)

lemma merged_take:
  assumes m: "merged Us U" and i: "i < length Us" and new: "U p = None"
  shows "merged (Us[i := (Us ! i)(p \<mapsto> A)]) (U(p \<mapsto> A))"
  unfolding merged_def
proof (intro allI)
  fix q B
  have nth: "Us[i := (Us ! i)(p \<mapsto> A)] ! j = (if j = i then (Us ! i)(p \<mapsto> A) else Us ! j)" for j
    by (rule nth_upd [OF i])
  show "((U(p \<mapsto> A)) q = Some B) = (\<exists>j<length (Us[i := (Us ! i)(p \<mapsto> A)]). (Us[i := (Us ! i)(p \<mapsto> A)] ! j) q = Some B)"
  proof (cases "q = p")
    case True
    have "(Us ! j) p = None" if "j < length Us" for j using merged_None [OF m] new that by blast
    then show ?thesis using True i by (auto simp: nth)
  next
    case False
    have "(Us[i := (Us ! i)(p \<mapsto> A)] ! j) q = (Us ! j) q" for j using False by (simp add: nth)
    then show ?thesis using False m unfolding merged_def by simp
  qed
qed

text \<open>Other bytes are granted with a block.\<close>

lemma merged_regrant:
  assumes m: "merged Us U" and i: "i < length Us" and only: "\<forall>j<length Us. (Us ! j) p \<noteq> None \<longrightarrow> j = i"
  shows "merged (Us[i := (Us ! i)(p \<mapsto> A)]) (U(p \<mapsto> A))"
  unfolding merged_def
proof (intro allI)
  fix q B
  have nth: "Us[i := (Us ! i)(p \<mapsto> A)] ! j = (if j = i then (Us ! i)(p \<mapsto> A) else Us ! j)" for j
    by (rule nth_upd [OF i])
  show "((U(p \<mapsto> A)) q = Some B) = (\<exists>j<length (Us[i := (Us ! i)(p \<mapsto> A)]). (Us[i := (Us ! i)(p \<mapsto> A)] ! j) q = Some B)"
  proof (cases "q = p")
    case True
    have "(Us[i := (Us ! i)(p \<mapsto> A)] ! j) p = Some B \<longleftrightarrow> j = i \<and> A = B" if "j < length Us" for j
      using only that by (auto simp: nth)
    then show ?thesis using True i by auto
  next
    case False
    have "(Us[i := (Us ! i)(p \<mapsto> A)] ! j) q = (Us ! j) q" for j using False by (simp add: nth)
    then show ?thesis using False m unfolding merged_def by simp
  qed
qed

lemma merged_give:
  assumes m: "merged Us U" and i: "i < length Us" and only: "\<forall>j<length Us. (Us ! j) p \<noteq> None \<longrightarrow> j = i"
  shows "merged (Us[i := (Us ! i)(p := None)]) (U(p := None))"
  unfolding merged_def
proof (intro allI)
  fix q B
  have nth: "Us[i := (Us ! i)(p := None)] ! j = (if j = i then (Us ! i)(p := None) else Us ! j)" for j
    by (rule nth_upd [OF i])
  show "((U(p := None)) q = Some B) = (\<exists>j<length (Us[i := (Us ! i)(p := None)]). (Us[i := (Us ! i)(p := None)] ! j) q = Some B)"
  proof (cases "q = p")
    case True
    have "(Us[i := (Us ! i)(p := None)] ! j) p = None" if "j < length Us" for j
      using only that by (auto simp: nth)
    then show ?thesis using True by auto
  next
    case False
    have "(Us[i := (Us ! i)(p := None)] ! j) q = (Us ! j) q" for j using False by (simp add: nth)
    then show ?thesis using False m unfolding merged_def by simp
  qed
qed

subsection \<open>The operations of the manager\<close>

text \<open>What keeps its contents: the blocks of the arena that makes the step, as its own contract
  says, and the blocks of the other arenas.\<close>

lemma mg_agree:
  assumes inv: "mg_inv os asz as w Fs Us"
    and others: "\<And>j. j < length as \<Longrightarrow> j \<noteq> i \<Longrightarrow> agree_on (Fs ! j) m m'"
    and V: "agree_on (granted V) m m'"
    and cov: "\<And>p A. W p = Some A \<Longrightarrow> V p = Some A \<or> (\<exists>j<length as. j \<noteq> i \<and> (Us ! j) p = Some A)"
  shows "agree_on (granted W) m m'"
proof (rule agree_onI)
  fix x assume "x \<in> granted W"
  then obtain p A where pA: "W p = Some A" "x \<in> A" by (auto simp: granted_def ran_def)
  from cov [OF pA(1)] show "m' x = m x"
  proof (elim disjE exE conjE)
    assume "V p = Some A"
    then show ?thesis using V granted_part [of V p A] pA(2) by (auto simp: agree_on_def)
  next
    fix j assume j: "j < length as" "j \<noteq> i" "(Us ! j) p = Some A"
    have "A \<subseteq> Fs ! j" using arp_owns_laws(2) [OF mg_invD(1) [OF inv j(1)] j(3)] by simp
    then show ?thesis using others [OF j(1,2)] pA(2) by (auto simp: agree_on_def)
  qed
qed

lemma mg_keeps_headers:
  assumes inv: "mg_inv os asz as w Fs Us" and i: "i < length as" and fs: "frame_step (Fs ! i) w F' w'"
    and V: "keeps_headers V (w_mem w) (w_mem w')"
    and cov: "\<And>p A. W p = Some A \<Longrightarrow> V p = Some A \<or> (\<exists>j<length as. j \<noteq> i \<and> (Us ! j) p = Some A)"
  shows "keeps_headers W (w_mem w) (w_mem w')"
  unfolding keeps_headers_def
proof (intro allI impI)
  fix p assume "W p \<noteq> None"
  then obtain A where "W p = Some A" by blast
  from cov [OF this] show "bh_node_id (w_mem w') (from_user_ptr p) = bh_node_id (w_mem w) (from_user_ptr p) \<and>
      bh_size_class (w_mem w') (from_user_ptr p) = bh_size_class (w_mem w) (from_user_ptr p)"
  proof (elim disjE exE conjE)
    assume "V p = Some A"
    then show ?thesis using keeps_headersD [OF V, of p] by simp
  next
    fix j assume j: "j < length as" "j \<noteq> i" "(Us ! j) p = Some A"
    have "keeps_headers (Us ! j) (w_mem w) (w_mem w')"
      by (rule arp_owns_headers(1) [OF mg_invD(1) [OF inv j(1)] fs mg_inv_apart [OF inv j(1) i j(2)]])
    then show ?thesis using keeps_headersD [of "Us ! j" _ _ p] j(3) by simp
  qed
qed

lemma mg_allocate_ok:
  assumes "mg_owns os asz as w F U" and i: "i < length as" and lg: "ar_legal os (sz, al)"
  shows "\<exists>r as' w' F'. mg_allocate os i sz al as w = Some (r, as', w') \<and> length as' = length as \<and>
    frame_step F w F' w' \<and> agree_on (granted U) (w_mem w) (w_mem w') \<and>
    keeps_headers U (w_mem w) (w_mem w') \<and>
    (case r of
       Inl e \<Rightarrow> mg_owns os asz as' w' F' U
     | Inr p \<Rightarrow> U p = None \<and> p \<noteq> nullptr \<and> aligned_for al p \<and>
         sint (bh_node_id (w_mem w') (from_user_ptr p)) = int i \<and>
         mg_owns os asz as' w' F' (U(p \<mapsto> ar_area (sz, al) p)))"
proof -
  obtain Fs Us where inv: "mg_inv os asz as w Fs Us" and F: "F = fam Fs" and m: "merged Us U"
    using assms(1) unfolding mg_owns_def by blast
  have len: "length Us = length as" using inv by (simp add: mg_inv_def)
  obtain mem ar where a: "as ! i = (mem, ar)" by (cases "as ! i")
  have o: "arp_owns os asz (mem, ar) w (Fs ! i) (Us ! i)" using mg_invD(1) [OF inv i] by (simp add: a)
  obtain F0 where F0: "ar_owns os ar w F0 (Us ! i)" using o by (auto simp: arp_owns_def)
  obtain r ar' w' where al: "ar_allocate os sz al ar w = Some (r, ar', w')"
    using ar_owns_alloc [OF F0 lg] by (auto simp: ar_alloc_req_def)
  define U' where "U' = (case r of Inl e \<Rightarrow> Us ! i | Inr p \<Rightarrow> (Us ! i)(p \<mapsto> ar_area (sz, al) p))"
  have A: "agree_on (granted (Us ! i)) (w_mem w) (w_mem w') \<and> keeps_headers (Us ! i) (w_mem w) (w_mem w') \<and>
      (\<forall>p. r = Inr p \<longrightarrow> (Us ! i) p = None \<and> p \<noteq> nullptr \<and> aligned_for al p) \<and>
      (\<exists>F0'. ar_owns os ar' w' F0' U' \<and> frame_step F0 w F0' w')" if "ar_owns os ar w F0 (Us ! i)" for F0
    using ar_owns_alloc [OF that lg] al by (cases r) (auto simp: ar_alloc_req_def U'_def)
  obtain F' where F': "arp_owns os asz (mem, ar') w' F' U'" "frame_step (Fs ! i) w F' w'"
    using arp_step [OF o, of ar' w' U'] A by blast
  have same: "same_arena (snd (mem, ar')) (snd (as ! i))" using ar_allocate_same [OF al] by (simp add: a)
  note S = mg_step [OF inv i F' same]
  let ?as = "as[i := (mem, ar')]" and ?Us = "Us[i := U']"
  have run: "mg_allocate os i sz al as w = Some (r, ?as, w')" using al by (simp add: mg_allocate_def a)
  have cov: "\<And>p A. U p = Some A \<Longrightarrow> (Us ! i) p = Some A \<or> (\<exists>j<length as. j \<noteq> i \<and> (Us ! j) p = Some A)"
    using m len unfolding merged_def by metis
  have ag: "agree_on (granted U) (w_mem w) (w_mem w')"
  proof (rule mg_agree [OF inv _ _ cov])
    show "agree_on (granted (Us ! i)) (w_mem w) (w_mem w')" using A [OF F0] by simp
    show "\<And>j. j < length as \<Longrightarrow> j \<noteq> i \<Longrightarrow> agree_on (Fs ! j) (w_mem w) (w_mem w')" using S(3) by blast
  qed
  have ks: "keeps_headers U (w_mem w) (w_mem w')"
    using mg_keeps_headers [OF inv i F'(2) _ cov] A [OF F0] by blast
  show ?thesis
  proof (cases r)
    case (Inl e)
    then have "?Us = Us" by (simp add: U'_def)
    then have "mg_owns os asz ?as w' (fam (Fs[i := F'])) U"
      using S(1) m unfolding mg_owns_def by metis
    then show ?thesis using run S(2) ag ks Inl by (auto simp: F)
  next
    case (Inr p)
    have p: "(Us ! i) p = None" "p \<noteq> nullptr" "aligned_for al p" using A [OF F0] Inr by auto
    have U'p: "U' p = Some (ar_area (sz, al) p)" by (simp add: U'_def Inr)
    have "(Us ! j) p = None" if j: "j < length as" "j \<noteq> i" for j
    proof (rule ccontr)
      assume "(Us ! j) p \<noteq> None"
      then obtain B where "(Us ! j) p = Some B" by blast
      then show False
        using arp_owns_laws(6) [OF mg_invD(1) [OF inv j(1)]] arp_owns_laws(6) [OF F'(1) U'p] S(3) [OF j] by blast
    qed
    then have new: "U p = None" using merged_None [OF m] p(1) len by metis
    have hdr: "sint (bh_node_id (w_mem w') (from_user_ptr p)) = int i"
      using arp_owns_laws(7) [OF F'(1) U'p] ar_allocate_same [OF al] mg_invD(2) [OF inv i]
      by (simp add: a same_arena_def)
    have "merged ?Us (U(p \<mapsto> ar_area (sz, al) p))"
      using merged_take [OF m _ new] i len by (simp add: U'_def Inr)
    then have "mg_owns os asz ?as w' (fam (Fs[i := F'])) (U(p \<mapsto> ar_area (sz, al) p))"
      using S(1) unfolding mg_owns_def by blast
    then show ?thesis using run S(2) ag ks Inr new p(2,3) hdr by (auto simp: F)
  qed
qed

text \<open>A thread of any node returns a block of any node: the block reaches its own arena.\<close>

lemma mg_deallocate_ok:
  assumes "mg_owns os asz as w F U" and i: "i < length as" and p: "U p \<noteq> None"
  shows "\<exists>as' w' F'. mg_deallocate os i p as w = Some (Inr (), as', w') \<and> length as' = length as \<and>
    frame_step F w F' w' \<and> agree_on (granted (U(p := None))) (w_mem w) (w_mem w') \<and>
    keeps_headers (U(p := None)) (w_mem w) (w_mem w') \<and> mg_owns os asz as' w' F' (U(p := None))"
proof -
  obtain Fs Us where inv: "mg_inv os asz as w Fs Us" and F: "F = fam Fs" and m: "merged Us U"
    using assms(1) unfolding mg_owns_def by blast
  have len: "length Us = length as" using inv by (simp add: mg_inv_def)
  obtain A where "U p = Some A" using p by blast
  then obtain k where k: "k < length as" "(Us ! k) p = Some A" using m len by (auto simp: merged_def)
  obtain mem ar where a: "as ! k = (mem, ar)" by (cases "as ! k")
  have o: "arp_owns os asz (mem, ar) w (Fs ! k) (Us ! k)" using mg_invD(1) [OF inv k(1)] by (simp add: a)
  have ne: "(Us ! k) p \<noteq> None" using k(2) by simp
  have node: "sint (bh_node_id (w_mem w) (from_user_ptr p)) = int k"
    using arp_owns_laws(7) [OF o k(2)] mg_invD(2) [OF inv k(1)] by (simp add: a)
  have nn: "p \<noteq> nullptr" using arp_owns_laws(2) [OF o k(2)] by simp
  have idi: "ar_node_id (snd (as ! i)) = int i" "ar_route_foreign (snd (as ! i))"
    using mg_invD(2,3) [OF inv i] by simp_all
  have "\<exists>ar' w'. mg_deallocate os i p as w = Some (Inr (), as[k := (mem, ar')], w') \<and> same_arena ar' ar \<and>
    agree_on (granted ((Us ! k)(p := None))) (w_mem w) (w_mem w') \<and>
    keeps_headers ((Us ! k)(p := None)) (w_mem w) (w_mem w') \<and>
    (\<forall>F0. ar_owns os ar w F0 (Us ! k) \<longrightarrow>
      (\<exists>F0'. ar_owns os ar' w' F0' ((Us ! k)(p := None)) \<and> frame_step F0 w F0' w'))"
  proof (cases "k = i")
    case True
    obtain F0 where F0: "ar_owns os ar w F0 (Us ! k)" using o by (auto simp: arp_owns_def)
    have nf: "\<not> ar_is_foreign p (snd (as ! i)) (w_mem w)" using node idi True by (simp add: ar_is_foreign_def)
    obtain r ar' w' where de: "ar_deallocate_own os p ar w = (r, ar', w')" by (metis prod_cases3)
    have own: "ar_deallocate os (mg_route os) p ar as w = Some (r, ar', as, w')"
      using nf nn de a True by (simp add: ar_deallocate_def)
    have f: "ar_free_op os (mg_route os) as p ar w = Some (r, ar', w')" by (simp add: ar_free_op_def own)
    have "r = Inr ()" "agree_on (granted ((Us ! k)(p := None))) (w_mem w) (w_mem w')"
      "keeps_headers ((Us ! k)(p := None)) (w_mem w) (w_mem w')"
      using ar_owns_free(1) [OF F0 ne, of "mg_route os" as] f by auto
    moreover have "\<exists>F1'. ar_owns os ar' w' F1' ((Us ! k)(p := None)) \<and> frame_step F1 w F1' w'"
      if F1: "ar_owns os ar w F1 (Us ! k)" for F1
      using ar_owns_free(1) [OF F1 ne, of "mg_route os" as] f by auto
    moreover have "mg_deallocate os i p as w = Some (r, as[k := (mem, ar')], w')"
      using own nf a True by (simp add: mg_deallocate_def)
    ultimately show ?thesis using ar_deallocate_own_same [OF de] by blast
  next
    case False
    obtain F0 where F0: "ar_owns os ar w F0 (Us ! k)" using o by (auto simp: arp_owns_def)
    have f: "ar_is_foreign p (snd (as ! i)) (w_mem w)" using node idi False by (simp add: ar_is_foreign_def)
    obtain ar' w' where de: "ar_deallocate_foreign os p ar w = Some (Inr (), ar', w')"
      and ag: "agree_on (granted ((Us ! k)(p := None))) (w_mem w) (w_mem w')"
        "keeps_headers ((Us ! k)(p := None)) (w_mem w) (w_mem w')"
      using ar_owns_free(2) [OF F0 ne] by blast
    have "mg_route os (int k) p as w = Some (Inr (), as[k := (mem, ar')], w')"
      using k(1) de by (simp add: mg_route_def arena_for_node_def a)
    then have "mg_deallocate os i p as w = Some (Inr (), as[k := (mem, ar')], w')"
      using f nn node by (simp add: mg_deallocate_def ar_deallocate_def)
    moreover have "\<exists>F1'. ar_owns os ar' w' F1' ((Us ! k)(p := None)) \<and> frame_step F1 w F1' w'"
      if F1: "ar_owns os ar w F1 (Us ! k)" for F1
      using ar_owns_free(2) [OF F1 ne] de by auto
    ultimately show ?thesis using ar_deallocate_foreign_same [OF de] ag by blast
  qed
  then obtain ar' w' where run: "mg_deallocate os i p as w = Some (Inr (), as[k := (mem, ar')], w')"
    and same: "same_arena ar' ar" and ag: "agree_on (granted ((Us ! k)(p := None))) (w_mem w) (w_mem w')"
    and ks: "keeps_headers ((Us ! k)(p := None)) (w_mem w) (w_mem w')"
    and step: "\<And>F0. ar_owns os ar w F0 (Us ! k) \<Longrightarrow>
      \<exists>F0'. ar_owns os ar' w' F0' ((Us ! k)(p := None)) \<and> frame_step F0 w F0' w'" by blast
  obtain F' where F': "arp_owns os asz (mem, ar') w' F' ((Us ! k)(p := None))" "frame_step (Fs ! k) w F' w'"
    using arp_step [OF o step] by blast
  have same': "same_arena (snd (mem, ar')) (snd (as ! k))" using same by (simp add: a)
  note S = mg_step [OF inv k(1) F' same']
  have only: "\<forall>j<length Us. (Us ! j) p \<noteq> None \<longrightarrow> j = k"
    using mg_inv_home [OF inv _ _ k] len by auto
  have m': "merged (Us[k := (Us ! k)(p := None)]) (U(p := None))"
    using merged_give [OF m _ only] k(1) len by simp
  have cov: "((Us ! k)(p := None)) q = Some B \<or> (\<exists>j<length as. j \<noteq> k \<and> (Us ! j) q = Some B)"
    if q: "(U(p := None)) q = Some B" for q B
  proof -
    have ne: "q \<noteq> p" and "U q = Some B" using q by (auto split: if_splits)
    then obtain j where "j < length as" "(Us ! j) q = Some B" using m len unfolding merged_def by auto
    with ne show ?thesis by (cases "j = k") auto
  qed
  have "agree_on (granted (U(p := None))) (w_mem w) (w_mem w')"
    by (rule mg_agree [OF inv _ ag cov]) (use S(3) in blast)+
  moreover have "keeps_headers (U(p := None)) (w_mem w) (w_mem w')"
    by (rule mg_keeps_headers [OF inv k(1) F'(2) ks cov])
  moreover have "mg_owns os asz (as[k := (mem, ar')]) w' (fam (Fs[k := F'])) (U(p := None))"
    using S(1) m' unfolding mg_owns_def by blast
  ultimately show ?thesis using run S(2) unfolding F by (metis length_list_update)
qed

subsection \<open>The arenas as one allocator\<close>

text \<open>A write of the users, seen from one arena.\<close>

lemma mg_write_arena:
  assumes inv: "mg_inv os asz as w Fs Us" and m: "merged Us U"
    and ag: "agree_on (- granted U) (w_mem w) m'" and k: "k < length as"
  shows "arp_owns os asz (as ! k) (w\<lparr>w_mem := m'\<rparr>) (Fs ! k) (Us ! k)"
    and "keeps_headers (Us ! k) (w_mem w) m'"
proof -
  have len: "length Us = length as" "length Fs = length as" using inv by (simp_all add: mg_inv_def)
  have home: "\<exists>k<length as. (Us ! k) p = Some A" if "U p = Some A" for p A
    using m that len by (auto simp: merged_def)
  note K = mg_invD(1) [OF inv k]
  define mk where "mk = (\<lambda>x. if x \<in> Fs ! k then m' x else w_mem w x)"
  have out: "x \<notin> granted U" if x: "x \<in> Fs ! k" "x \<notin> granted (Us ! k)" for x
  proof
    assume "x \<in> granted U"
    then obtain p A where pA: "U p = Some A" "x \<in> A" by (auto simp: granted_def ran_def)
    obtain l where l: "l < length as" "(Us ! l) p = Some A" using home [OF pA(1)] by blast
    have "A \<subseteq> Fs ! l" using arp_owns_laws(2) [OF mg_invD(1) [OF inv l(1)] l(2)] by simp
    then have "l = k" using mg_inv_apart [OF inv l(1) k] x(1) pA(2) by blast
    then show False using l(2) x(2) pA(2) granted_part [of "Us ! k" p A] by blast
  qed
  have "agree_on (- granted (Us ! k)) (w_mem w) mk"
    using ag out by (auto simp: agree_on_def mk_def)
  from arp_owns_laws(5) [OF K this] arp_owns_headers(2) [OF K this]
  have o1: "arp_owns os asz (as ! k) (w\<lparr>w_mem := mk\<rparr>) (Fs ! k) (Us ! k)"
    and k1: "keeps_headers (Us ! k) (w_mem w) mk" .
  let ?G = "mapped w - Fs ! k"
  let ?m2 = "\<lambda>x. if x \<in> mapped w then m' x else mk x"
  have fs: "frame_step ?G (w\<lparr>w_mem := mk\<rparr>) ?G (w\<lparr>w_mem := mk\<rparr>\<lparr>w_mem := ?m2\<rparr>)"
    by (rule frame_step_write) (auto simp: agree_on_def mk_def)
  have m2: "?m2 = m'"
  proof
    fix x
    have "x \<in> mapped w \<or> x \<notin> granted U"
      using mg_inv_mapped [OF inv] mg_invD(4) [OF inv] arp_granted [OF mg_invD(1) [OF inv]] home
      by (force simp: granted_def ran_def dest: arp_owns_laws(2) [OF mg_invD(1) [OF inv]])
    then show "?m2 x = m' x" using ag by (auto simp: agree_on_def mk_def)
  qed
  have dj: "Fs ! k \<inter> ?G = {}" by blast
  show "arp_owns os asz (as ! k) (w\<lparr>w_mem := m'\<rparr>) (Fs ! k) (Us ! k)"
    using arp_owns_laws(4) [OF o1 fs dj] unfolding m2 by simp
  have "keeps_headers (Us ! k) mk m'"
    using arp_owns_headers(1) [OF o1 fs dj] unfolding m2 by simp
  then show "keeps_headers (Us ! k) (w_mem w) m'" using k1 by (simp add: keeps_headers_def)
qed

lemma mg_owns_laws:
  assumes o: "mg_owns os asz as w F U"
  shows "F \<subseteq> mapped w" and "U p = Some A \<Longrightarrow> A \<subseteq> F \<and> p \<noteq> nullptr"
    and "U p = Some A \<Longrightarrow> U q = Some B \<Longrightarrow> p \<noteq> q \<Longrightarrow> A \<inter> B = {}"
    and "frame_step G w G' w' \<Longrightarrow> F \<inter> G = {} \<Longrightarrow> mg_owns os asz as w' F U"
    and "agree_on (- granted U) (w_mem w) m' \<Longrightarrow> mg_owns os asz as (w\<lparr>w_mem := m'\<rparr>) F U"
proof -
  obtain Fs Us where inv: "mg_inv os asz as w Fs Us" and F: "F = fam Fs" and m: "merged Us U"
    using o unfolding mg_owns_def by blast
  have len: "length Us = length as" "length Fs = length as" using inv by (simp_all add: mg_inv_def)
  have home: "\<exists>k<length as. (Us ! k) p = Some A" if "U p = Some A" for p A
    using m that len by (auto simp: merged_def)
  show "F \<subseteq> mapped w" unfolding F by (rule mg_inv_mapped [OF inv])
  show "A \<subseteq> F \<and> p \<noteq> nullptr" if p: "U p = Some A" for p A
  proof -
    obtain k where k: "k < length as" "(Us ! k) p = Some A" using home [OF p] by blast
    from arp_owns_laws(2) [OF mg_invD(1) [OF inv k(1)] k(2)] mg_invD(4) [OF inv k(1)] F
    show ?thesis by blast
  qed
  show "A \<inter> B = {}" if p: "U p = Some A" and q: "U q = Some B" and ne: "p \<noteq> q"
  proof -
    obtain k where k: "k < length as" "(Us ! k) p = Some A" using home [OF p] by blast
    obtain l where l: "l < length as" "(Us ! l) q = Some B" using home [OF q] by blast
    show ?thesis
    proof (cases "k = l")
      case True
      have "(Us ! k) q = Some B" using l(2) True by simp
      from arp_owns_laws(3) [OF mg_invD(1) [OF inv k(1)] k(2) this ne] show ?thesis .
    next
      case False
      have "A \<subseteq> Fs ! k" "B \<subseteq> Fs ! l"
        using arp_owns_laws(2) [OF mg_invD(1) [OF inv k(1)] k(2)]
          arp_owns_laws(2) [OF mg_invD(1) [OF inv l(1)] l(2)] by auto
      with mg_inv_apart [OF inv k(1) l(1) False] show ?thesis by blast
    qed
  qed
  show "mg_owns os asz as w' F U" if fs: "frame_step G w G' w'" and dj: "F \<inter> G = {}"
  proof -
    have "arp_owns os asz (as ! k) w' (Fs ! k) (Us ! k)" if k: "k < length as" for k
      using mg_invD(4) [OF inv k] dj F by (intro arp_owns_laws(4) [OF mg_invD(1) [OF inv k] fs]) blast
    then have "mg_inv os asz as w' Fs Us" using inv by (simp add: mg_inv_def)
    then show ?thesis using F m unfolding mg_owns_def by blast
  qed
  show "mg_owns os asz as (w\<lparr>w_mem := m'\<rparr>) F U" if ag: "agree_on (- granted U) (w_mem w) m'"
  proof -
    have "mg_inv os asz as (w\<lparr>w_mem := m'\<rparr>) Fs Us"
      using mg_write_arena(1) [OF inv m ag] inv by (simp add: mg_inv_def)
    then show ?thesis using F m unfolding mg_owns_def by blast
  qed
qed

text \<open>The classes of the blocks in use, and what a small block is.\<close>

lemma mg_owns_headers:
  assumes o: "mg_owns os asz as w F U"
  shows "frame_step G w G' w' \<Longrightarrow> F \<inter> G = {} \<Longrightarrow> keeps_headers U (w_mem w) (w_mem w')"
    and "agree_on (- granted U) (w_mem w) m' \<Longrightarrow> keeps_headers U (w_mem w) m'"
proof -
  obtain Fs Us where inv: "mg_inv os asz as w Fs Us" and F: "F = fam Fs" and m: "merged Us U"
    using o unfolding mg_owns_def by blast
  have len: "length Us = length as" using inv by (simp add: mg_inv_def)
  have all: "keeps_headers U (w_mem w) mm" if each: "\<And>k. k < length as \<Longrightarrow> keeps_headers (Us ! k) (w_mem w) mm" for mm
    unfolding keeps_headers_def
  proof (intro allI impI)
    fix p assume "U p \<noteq> None"
    then obtain k A where k: "k < length as" "(Us ! k) p = Some A" using m len by (auto simp: merged_def)
    show "bh_node_id mm (from_user_ptr p) = bh_node_id (w_mem w) (from_user_ptr p) \<and>
        bh_size_class mm (from_user_ptr p) = bh_size_class (w_mem w) (from_user_ptr p)"
      using keeps_headersD [OF each [OF k(1)], of p] k(2) by simp
  qed
  show "keeps_headers U (w_mem w) (w_mem w')" if "frame_step G w G' w'" "F \<inter> G = {}"
    using that(2) mg_invD(4) [OF inv] F
    by (intro all arp_owns_headers(1) [OF mg_invD(1) [OF inv] that(1)]) blast+
  show "keeps_headers U (w_mem w) m'" if "agree_on (- granted U) (w_mem w) m'"
    by (rule all) (rule mg_write_arena(2) [OF inv m that])
qed

lemma mg_owns_small:
  assumes o: "mg_owns os asz as w F U" and p: "U p = Some A"
    and c: "bh_size_class (w_mem w) (from_user_ptr p) \<noteq> 0"
  shows "\<exists>j<40. bh_size_class (w_mem w) (from_user_ptr p) = ucast (kClassSizes ! j) \<and>
      A \<subseteq> bytes_of p (unat (kClassSizes ! j)) \<and> 16 dvd unat p \<and> from_user_ptr p \<noteq> nullptr \<and>
      unat (from_user_ptr p) + 65536 < 18446744073709551616 \<and>
      (\<forall>B. B \<subseteq> bytes_of p (unat (kClassSizes ! j)) \<longrightarrow> mg_owns os asz as w F (U(p \<mapsto> B)))"
proof -
  obtain Fs Us where inv: "mg_inv os asz as w Fs Us" and F: "F = fam Fs" and m: "merged Us U"
    using o unfolding mg_owns_def by blast
  have len: "length Us = length as" using inv by (simp add: mg_inv_def)
  obtain k where k: "k < length as" "(Us ! k) p = Some A" using m p len by (auto simp: merged_def)
  let ?S = "bytes_of (fst (as ! k)) (span_bytes os asz)"
  obtain F0 where F0: "ar_owns os (snd (as ! k)) w F0 (Us ! k)"
    and rest: "Fs ! k = ?S \<union> F0 \<and> ?S \<inter> F0 = {} \<and> ?S \<subseteq> mapped w \<and>
      fst (as ! k) \<noteq> nullptr \<and> unat (page_size os) dvd unat (fst (as ! k))"
    using mg_invD(1) [OF inv k(1)] unfolding arp_owns_def by blast
  obtain j where j: "j < 40" "bh_size_class (w_mem w) (from_user_ptr p) = ucast (kClassSizes ! j)"
    "A \<subseteq> bytes_of p (unat (kClassSizes ! j))" "16 dvd unat p" "from_user_ptr p \<noteq> nullptr"
    "unat (from_user_ptr p) + 65536 < 18446744073709551616"
    "\<And>B. B \<subseteq> bytes_of p (unat (kClassSizes ! j)) \<Longrightarrow> ar_owns os (snd (as ! k)) w F0 ((Us ! k)(p \<mapsto> B))"
    using ar_owns_small [OF F0 k(2) c] by blast
  have "mg_owns os asz as w F (U(p \<mapsto> B))" if B: "B \<subseteq> bytes_of p (unat (kClassSizes ! j))" for B
  proof -
    have a: "arp_owns os asz (as ! k) w (Fs ! k) ((Us ! k)(p \<mapsto> B))"
      using j(7) [OF B] rest unfolding arp_owns_def by blast
    have "frame_step (Fs ! k) w (Fs ! k) w"
      by (rule frame_step_refl) (rule arp_owns_laws(1) [OF mg_invD(1) [OF inv k(1)]])
    from mg_step(1) [OF inv k(1) a this same_arena_refl]
    have i1: "mg_inv os asz as w Fs (Us[k := (Us ! k)(p \<mapsto> B)])" by simp
    have "\<forall>i<length Us. (Us ! i) p \<noteq> None \<longrightarrow> i = k"
    proof (intro allI impI)
      fix i assume i: "i < length Us" and "(Us ! i) p \<noteq> None"
      then obtain B where "(Us ! i) p = Some B" by blast
      then show "i = k" using mg_inv_home [OF inv _ _ k] i len by simp
    qed
    then have "merged (Us[k := (Us ! k)(p \<mapsto> B)]) (U(p \<mapsto> B))"
      by (rule merged_regrant [OF m k(1) [folded len]])
    then show ?thesis using i1 F unfolding mg_owns_def by blast
  qed
  then show ?thesis using j(1-6) by blast
qed

text \<open>The view of a thread on node \<open>i\<close>: it allocates from its own arena and returns blocks of
  any arena.\<close>

definition mg_at :: "os \<Rightarrow> u64 \<Rightarrow> nat \<Rightarrow> arena_ptr list \<Rightarrow> world \<Rightarrow> nat set \<Rightarrow> grants \<Rightarrow> bool" where
  "mg_at os asz i as w F U \<longleftrightarrow> i < length as \<and> mg_owns os asz as w F U"

definition mg_alloc_req ::
  "os \<Rightarrow> nat \<Rightarrow> u64 \<times> u64 \<Rightarrow> arena_ptr list \<Rightarrow> world \<Rightarrow> (ptr res \<times> arena_ptr list \<times> world) option" where
  "mg_alloc_req os i r as w = mg_allocate os i (fst r) (snd r) as w"

interpretation mga: allocator "mg_at os asz i" "mg_alloc_req os i" "mg_deallocate os i"
    "\<lambda>as. ar_area" "ar_legal os" for os asz i
proof unfold_locales
  fix as w F U assume at: "mg_at os asz i as w F U"
  then have o: "mg_owns os asz as w F U" and i: "i < length as" by (simp_all add: mg_at_def)
  note laws = mg_owns_laws [OF o]
  show "F \<subseteq> mapped w" by (rule laws(1))
  show "A \<subseteq> F \<and> p \<noteq> nullptr" if "U p = Some A" for p A by (rule laws(2) [OF that])
  show "A \<inter> B = {}" if "U p = Some A" "U q = Some B" "p \<noteq> q" for p q A B by (rule laws(3) [OF that])
  show "mg_at os asz i as w' F U" if "frame_step G w G' w'" "F \<inter> G = {}" for G w' G'
    using laws(4) [OF that] i by (simp add: mg_at_def)
  show "mg_at os asz i as (w\<lparr>w_mem := m'\<rparr>) F U" if "agree_on (- granted U) (w_mem w) m'" for m'
    using laws(5) [OF that] i by (simp add: mg_at_def)
  note A = mg_allocate_ok [OF o i]
  show "mg_alloc_req os i r as w \<noteq> None" if "ar_legal os r" for r
    using A [of "fst r" "snd r"] that by (auto simp: mg_alloc_req_def)
  show "U p = None \<and> agree_on (granted U) (w_mem w) (w_mem w') \<and>
      (\<exists>F'. mg_at os asz i as' w' F' (U(p \<mapsto> ar_area r p)) \<and> frame_step F w F' w')"
    if "ar_legal os r" "mg_alloc_req os i r as w = Some (Inr p, as', w')" for r p as' w'
    using A [of "fst r" "snd r"] that i by (auto simp: mg_alloc_req_def mg_at_def)
  show "agree_on (granted U) (w_mem w) (w_mem w') \<and> (\<exists>F'. mg_at os asz i as' w' F' U \<and> frame_step F w F' w')"
    if "ar_legal os r" "mg_alloc_req os i r as w = Some (Inl e, as', w')" for r e as' w'
    using A [of "fst r" "snd r"] that i by (auto simp: mg_alloc_req_def mg_at_def)
  show "mg_deallocate os i p as w \<noteq> None" if "U p \<noteq> None" for p
    using mg_deallocate_ok [OF o i that] by auto
  show "x = Inr () \<and> agree_on (granted (U(p := None))) (w_mem w) (w_mem w') \<and>
      (\<exists>F'. mg_at os asz i as' w' F' (U(p := None)) \<and> frame_step F w F' w')"
    if "U p \<noteq> None" "mg_deallocate os i p as w = Some (x, as', w')" for p x as' w'
    using mg_deallocate_ok [OF o i that(1)] that(2) i by (auto simp: mg_at_def)
qed

end
