(* ===== verification/Arena_Lifecycle.thy ===== *)
theory Arena_Lifecycle
  imports Arena_Manager
begin

section \<open>From the start of the manager to its last block\<close>

text \<open>
  \<open>ArenaManager::init_arenas\<close>, the deleter of an arena, and everything that threads of all
  nodes do in between: the inductive relation \<open>mg_run\<close> interleaves the operations of threads on
  any node, from the arenas that the constructor made. Every state it reaches satisfies the
  contract of the manager; a constructor that fails leaves no mapping behind.
\<close>

subsection \<open>Creation of one arena\<close>

definition storage :: "os \<Rightarrow> u64 \<Rightarrow> arena_ptr \<Rightarrow> nat set" where
  "storage os asz a = bytes_of (fst a) (span_bytes os asz)"

definition arp_fresh :: "os \<Rightarrow> u64 \<Rightarrow> arena_ptr \<Rightarrow> world \<Rightarrow> bool" where
  "arp_fresh os asz a w \<longleftrightarrow> ar_owns os (snd a) w {} Map.empty \<and> storage os asz a \<subseteq> mapped w \<and>
     fst a \<noteq> nullptr \<and> unat (page_size os) dvd unat (fst a)"

lemma arp_fresh_owns: "arp_fresh os asz a w \<Longrightarrow> arp_owns os asz a w (storage os asz a) Map.empty"
  unfolding arp_fresh_def arp_owns_def storage_def by (intro exI [of _ "{}"]) simp

text \<open>The size of the object: not 0, and far from the top of the address space.\<close>

definition arena_size_ok :: "os \<Rightarrow> u64 \<Rightarrow> bool" where
  "arena_size_ok os asz \<longleftrightarrow> asz \<noteq> 0 \<and> fits_page os asz"

lemma create_arena_Inr:
  assumes os: "os_ok os" and asz: "arena_size_ok os asz" and nd: "- (2 ^ 31) \<le> node" "node < 2 ^ 31"
    and cr: "create_arena_on_node os asz node freelist w = (Inr a, w')"
  shows "arp_fresh os asz a w'" and "frame_step {} w (storage os asz a) w'"
    and "snd a = ar_new node freelist True True"
    and "\<forall>x\<in>storage os asz a. w_policy w' x = node_policy os node"
proof -
  obtain p where al: "vm_alloc_on_node os asz node Bind w = (Inr p, w')"
    and a: "a = (p, ar_new node freelist True True)"
    using cr by (auto simp: create_arena_on_node_def split: prod.splits sum.splits)
  have sz: "asz \<noteq> 0" "fits_page os asz" using asz by (simp_all add: arena_size_ok_def)
  note V = vm_alloc_on_node_Inr [OF os sz al]
  show "frame_step {} w (storage os asz a) w'" using V(1) by (simp add: storage_def a)
  then have "storage os asz a \<subseteq> mapped w'" by (auto simp: frame_step_def)
  then show "arp_fresh os asz a w'"
    using V(2,3) ar_new_owns [OF os nd] by (simp add: arp_fresh_def a)
  show "snd a = ar_new node freelist True True" by (simp add: a)
  show "\<forall>x\<in>storage os asz a. w_policy w' x = node_policy os node" using V(5) by (simp add: storage_def a)
qed

lemma create_arena_Inl:
  assumes os: "os_ok os" and asz: "arena_size_ok os asz"
    and cr: "create_arena_on_node os asz node freelist w = (Inl e, w')"
  shows "e = Bad_alloc" and "frame_step {} w {} w'"
proof -
  have al: "vm_alloc_on_node os asz node Bind w = (Inl e, w')"
    using cr by (auto simp: create_arena_on_node_def split: prod.splits sum.splits)
  have sz: "asz \<noteq> 0" "fits_page os asz" using asz by (simp_all add: arena_size_ok_def)
  show "e = Bad_alloc" and "frame_step {} w {} w'" using vm_alloc_on_node_Inl [OF os sz al] by auto
qed

subsection \<open>The deleter\<close>

lemma release_storage:
  assumes os: "os_ok os" and asz: "arena_size_ok os asz" and a: "fst a \<noteq> nullptr"
    "unat (page_size os) dvd unat (fst a)" "storage os asz a \<subseteq> mapped w"
  shows "frame_step (storage os asz a) w {} (vm_release os (fst a) asz w)"
  using vm_release_frame [OF os a(1) _ _ a(2)] asz a(3) by (simp add: storage_def arena_size_ok_def)

lemma ar_owns_os: "ar_owns os ar w F U \<Longrightarrow> os_ok os"
  unfolding ar_owns_def using ar_invD(1) by blast

text \<open>The storage goes back whole, with what the arena gives back.\<close>

lemma arena_deleter_gives_back:
  assumes o: "arp_owns os asz a w F U" and asz: "arena_size_ok os asz"
  shows "\<exists>w'. arena_deleter os asz a w = Some w' \<and> gives_back F w w' \<and>
    (storage os asz a \<union> arena_store os (snd a)) \<inter> mapped w' = {}"
proof -
  let ?S = "storage os asz a"
  obtain F0 where F0: "ar_owns os (snd a) w F0 U" "F = ?S \<union> F0" "?S \<inter> F0 = {}" "?S \<subseteq> mapped w"
    and p: "fst a \<noteq> nullptr" "unat (page_size os) dvd unat (fst a)"
    using o by (auto simp: arp_owns_def storage_def)
  have os: "os_ok os" by (rule ar_owns_os [OF F0(1)])
  obtain w1 where w1: "ar_destroy os (snd a) w = Some w1" "gives_back F0 w w1"
    using ar_destroy_gives_back [OF F0(1)] by blast
  have S1: "?S \<subseteq> mapped w1" using gives_back_kept [OF w1(2) F0(3,4)] by simp
  note R = release_storage [OF os asz p S1]
  have "F0 \<inter> ?S = {}" using F0(3) by blast
  from gives_back_Un [OF w1(2) gives_back_all [OF R] this F0(4)]
  have "gives_back F w (vm_release os (fst a) asz w1)" by (simp add: F0(2) Un_commute)
  moreover have "?S \<inter> mapped (vm_release os (fst a) asz w1) = {}" using R by (auto simp: frame_step_def)
  moreover have "arena_store os (snd a) \<inter> mapped (vm_release os (fst a) asz w1) = {}"
    using ar_destroy_unmaps(1) [OF F0(1) w1(1)] mapped_vm_release [of os "fst a" asz w1] by blast
  moreover have "arena_deleter os asz a w = Some (vm_release os (fst a) asz w1)"
    using w1(1) p(1) by (simp add: arena_deleter_def)
  ultimately show ?thesis by blast
qed

lemma arena_deleter_fresh:
  assumes f: "arp_fresh os asz a w" and os: "os_ok os" and asz: "arena_size_ok os asz"
  shows "\<exists>w'. arena_deleter os asz a w = Some w' \<and> frame_step (storage os asz a) w {} w'"
proof -
  let ?S = "storage os asz a"
  have o: "ar_owns os (snd a) w {} Map.empty" and S: "?S \<subseteq> mapped w"
    and p: "fst a \<noteq> nullptr" "unat (page_size os) dvd unat (fst a)" using f by (simp_all add: arp_fresh_def)
  obtain w1 where w1: "ar_destroy os (snd a) w = Some w1" "gives_back {} w w1"
    using ar_destroy_gives_back [OF o] by blast
  have n: "frame_step {} w {} w1" by (rule gives_back_nothing [OF w1(2)])
  have "frame_step ?S w ?S w1" using frame_step_extend [OF n S] by simp
  moreover have "?S \<subseteq> mapped w1" using frame_step_mem [OF _ S n] by simp
  ultimately have "frame_step ?S w {} (vm_release os (fst a) asz w1)"
    using frame_step_trans release_storage [OF os asz p] by blast
  then show ?thesis using w1(1) p(1) by (auto simp: arena_deleter_def)
qed

definition storages :: "os \<Rightarrow> u64 \<Rightarrow> arena_ptr list \<Rightarrow> nat set" where
  "storages os asz as = (\<Union>a\<in>set as. storage os asz a)"

definition all_fresh :: "os \<Rightarrow> u64 \<Rightarrow> arena_ptr list \<Rightarrow> world \<Rightarrow> bool" where
  "all_fresh os asz as w \<longleftrightarrow> (\<forall>a\<in>set as. arp_fresh os asz a w) \<and>
     sorted_wrt (\<lambda>a b. storage os asz a \<inter> storage os asz b = {}) as"

lemma arp_fresh_frame:
  assumes f: "arp_fresh os asz a w" and fs: "frame_step G w G' w'" and dj: "storage os asz a \<inter> G = {}"
  shows "arp_fresh os asz a w'"
proof -
  have o: "ar_owns os (snd a) w {} Map.empty" and S: "storage os asz a \<subseteq> mapped w"
    using f by (simp_all add: arp_fresh_def)
  have "ar_owns os (snd a) w' {} Map.empty" by (rule ar_owns_laws(4) [OF o fs]) simp
  moreover have "storage os asz a \<subseteq> mapped w'" using frame_step_mem [OF dj S fs] by simp
  ultimately show ?thesis using f by (simp add: arp_fresh_def)
qed

lemma delete_arenas_fresh:
  assumes "all_fresh os asz as w" and os: "os_ok os" and asz: "arena_size_ok os asz"
  shows "\<exists>w'. delete_arenas os asz as w = Some w' \<and> frame_step (storages os asz as) w {} w'"
  using assms(1)
proof (induction "as" arbitrary: w)
  case Nil
  have "frame_step {} w {} w" by (rule frame_step_refl) simp
  then show ?case by (simp add: storages_def)
next
  case (Cons a "as")
  have f: "arp_fresh os asz a w" and rest: "\<forall>b\<in>set as. arp_fresh os asz b w"
    and apart: "\<forall>b\<in>set as. storage os asz a \<inter> storage os asz b = {}"
    and srt: "sorted_wrt (\<lambda>a b. storage os asz a \<inter> storage os asz b = {}) as"
    using Cons.prems by (auto simp: all_fresh_def)
  obtain w1 where w1: "arena_deleter os asz a w = Some w1" "frame_step (storage os asz a) w {} w1"
    using arena_deleter_fresh [OF f os asz] by blast
  have "arp_fresh os asz b w1" if "b \<in> set as" for b
    using rest apart that by (intro arp_fresh_frame [OF _ w1(2)]) auto
  then have "all_fresh os asz as w1" using srt by (simp add: all_fresh_def)
  then obtain w' where w': "delete_arenas os asz as w1 = Some w'" "frame_step (storages os asz as) w1 {} w'"
    using Cons.IH by blast
  have sub: "storages os asz as \<subseteq> mapped w" using rest by (auto simp: storages_def arp_fresh_def)
  have dj: "storages os asz as \<inter> storage os asz a = {}" using apart by (auto simp: storages_def)
  have "frame_step (storage os asz a \<union> storages os asz as) w (storages os asz as) w1"
    using frame_step_extend [OF w1(2) sub dj] by simp
  then have "frame_step (storage os asz a \<union> storages os asz as) w {} w'"
    using w'(2) by (rule frame_step_trans)
  then show ?case using w1(1) w'(1) by (simp add: storages_def)
qed

subsection \<open>The constructor of the manager\<close>

lemma init_arenas_from_ok:
  assumes os: "os_ok os" and asz: "arena_size_ok os asz" and n: "n \<le> 2 ^ 31"
    and fr: "all_fresh os asz as w" and len: "length as = k" and k: "k \<le> n"
    and id: "\<forall>i<k. snd (as ! i) = ar_new (int i) many True True"
    and fs: "frame_step {} w0 (storages os asz as) w"
  shows "\<exists>r w'. init_arenas_from os asz many [k..<n] as w = Some (r, w') \<and>
    (case r of
       Inl e \<Rightarrow> e = Bad_alloc \<and> frame_step {} w0 {} w'
     | Inr as' \<Rightarrow> length as' = n \<and> all_fresh os asz as' w' \<and> frame_step {} w0 (storages os asz as') w' \<and>
         (\<forall>i<n. snd (as' ! i) = ar_new (int i) many True True))"
  using fr len k id fs
proof (induction "n - k" arbitrary: k "as" w)
  case 0
  then show ?case by simp
next
  case (Suc d)
  then have kn: "k < n" by simp
  then have up: "[k..<n] = k # [Suc k..<n]" by (simp add: upt_rec)
  have nd: "- (2 ^ 31) \<le> int k" "int k < 2 ^ 31" using kn n by simp_all
  obtain r1 w1 where cr: "create_arena_on_node os asz (int k) many w = (r1, w1)" by fastforce
  show ?case
  proof (cases r1)
    case (Inl e)
    note E = create_arena_Inl [OF os asz cr [unfolded Inl]]
    have "arp_fresh os asz a w1" if "a \<in> set as" for a
      using Suc.prems(1) that by (intro arp_fresh_frame [OF _ E(2)]) (simp_all add: all_fresh_def)
    then have "all_fresh os asz as w1" using Suc.prems(1) by (simp add: all_fresh_def)
    then obtain w2 where w2: "delete_arenas os asz as w1 = Some w2" "frame_step (storages os asz as) w1 {} w2"
      using delete_arenas_fresh [OF _ os asz] by blast
    have "storages os asz as \<subseteq> mapped w" using Suc.prems(1) by (auto simp: all_fresh_def arp_fresh_def storages_def)
    then have "frame_step (storages os asz as) w (storages os asz as) w1"
      using frame_step_extend [OF E(2)] by simp
    with Suc.prems(5) have "frame_step {} w0 (storages os asz as) w1" by (rule frame_step_trans)
    then have "frame_step {} w0 {} w2" using w2(2) by (rule frame_step_trans)
    then show ?thesis using cr Inl w2(1) E(1) by (simp add: up)
  next
    case (Inr a)
    note C = create_arena_Inr [OF os asz nd cr [unfolded Inr]]
    have S: "storage os asz b \<subseteq> mapped w" if "b \<in> set as" for b
      using Suc.prems(1) that by (simp add: all_fresh_def arp_fresh_def)
    have old: "arp_fresh os asz b w1 \<and> storage os asz b \<inter> storage os asz a = {}" if b: "b \<in> set as" for b
    proof
      show "arp_fresh os asz b w1"
        using Suc.prems(1) b by (intro arp_fresh_frame [OF _ C(2)]) (simp_all add: all_fresh_def)
      show "storage os asz b \<inter> storage os asz a = {}" using C(2) S [OF b] by (auto simp: frame_step_def)
    qed
    have f1: "all_fresh os asz (as @ [a]) w1"
      using Suc.prems(1) old C(1) by (auto simp: all_fresh_def sorted_wrt_append)
    have sub: "storages os asz as \<subseteq> mapped w" using S by (auto simp: storages_def)
    have "frame_step (storages os asz as) w (storage os asz a \<union> storages os asz as) w1"
      using frame_step_extend [OF C(2) sub] by simp
    with Suc.prems(5) have "frame_step {} w0 (storage os asz a \<union> storages os asz as) w1"
      by (rule frame_step_trans)
    then have fs1: "frame_step {} w0 (storages os asz (as @ [a])) w1" by (simp add: storages_def Un_commute)
    have id1: "\<forall>i<Suc k. snd ((as @ [a]) ! i) = ar_new (int i) many True True"
      using Suc.prems(2,4) C(3) by (auto simp: nth_append less_Suc_eq)
    have "d = n - Suc k" "length (as @ [a]) = Suc k" "Suc k \<le> n" using Suc.hyps(2) Suc.prems(2) kn by simp_all
    from Suc.hyps(1) [OF this(1) f1 this(2,3) id1 fs1] show ?thesis using cr Inr by (simp add: up)
  qed
qed

text \<open>The arenas that the constructor made, for a number of nodes that fits an \<open>int\<close>; a
  constructor that throws has released everything again.\<close>

lemma fresh_mg_owns:
  assumes f: "all_fresh os asz as w" and id: "\<forall>i<length as. snd (as ! i) = ar_new (int i) many True True"
  shows "mg_owns os asz as w (storages os asz as) Map.empty"
proof -
  let ?Fs = "map (storage os asz) as" and ?Us = "replicate (length as) Map.empty"
  have "storage os asz (as ! i) \<inter> storage os asz (as ! j) = {}" if "i < length as" "j < length as" "i \<noteq> j" for i j
  proof (cases "i < j")
    case True
    then show ?thesis using f that by (auto simp: all_fresh_def sorted_wrt_iff_nth_less)
  next
    case False
    then have "j < i" using that by simp
    then have "storage os asz (as ! j) \<inter> storage os asz (as ! i) = {}"
      using f that by (simp add: all_fresh_def sorted_wrt_iff_nth_less)
    then show ?thesis by blast
  qed
  moreover have "arp_owns os asz (as ! i) w (storage os asz (as ! i)) Map.empty" if "i < length as" for i
    using f that by (intro arp_fresh_owns) (simp add: all_fresh_def)
  ultimately have "mg_inv os asz as w ?Fs ?Us" using id by (simp add: mg_inv_def ar_new_def)
  moreover have "merged ?Us Map.empty" by (simp add: merged_def)
  moreover have "storages os asz as = fam ?Fs" by (simp add: storages_def fam_def)
  ultimately show ?thesis unfolding mg_owns_def by blast
qed

lemma init_arenas_ok:
  assumes os: "os_ok os" and asz: "arena_size_ok os asz" and n: "n \<le> 2 ^ 31"
  shows "\<exists>r w'. init_arenas os asz n w = Some (r, w') \<and>
    (case r of
       Inl e \<Rightarrow> e = Bad_alloc \<and> frame_step {} w {} w'
     | Inr as \<Rightarrow> length as = nat n \<and> frame_step {} w (storages os asz as) w' \<and>
         mg_owns os asz as w' (storages os asz as) Map.empty \<and>
         (\<forall>i<length as. snd (as ! i) = ar_new (int i) (n > 1) True True))"
proof -
  have "frame_step {} w (storages os asz []) w" by (simp add: storages_def frame_step_refl)
  moreover have "nat n \<le> 2 ^ 31" using n by simp
  ultimately obtain r w' where R: "init_arenas_from os asz (n > 1) [0..<nat n] [] w = Some (r, w')"
    "case r of
       Inl e \<Rightarrow> e = Bad_alloc \<and> frame_step {} w {} w'
     | Inr as' \<Rightarrow> length as' = nat n \<and> all_fresh os asz as' w' \<and> frame_step {} w (storages os asz as') w' \<and>
         (\<forall>i<nat n. snd (as' ! i) = ar_new (int i) (n > 1) True True)"
    using init_arenas_from_ok [OF os asz, of "nat n" "[]" w 0 "n > 1" w] by (auto simp: all_fresh_def)
  then show ?thesis
  proof (cases r)
    case (Inr b)
    then have b: "length b = nat n" "all_fresh os asz b w'" "frame_step {} w (storages os asz b) w'"
      "\<forall>i<length b. snd (b ! i) = ar_new (int i) (n > 1) True True" using R(2) by simp_all
    have "mg_owns os asz b w' (storages os asz b) Map.empty" by (rule fresh_mg_owns [OF b(2,4)])
    then show ?thesis using R(1) b Inr by (simp add: init_arenas_def)
  qed (auto simp: init_arenas_def)
qed

subsection \<open>Threads of all nodes\<close>

text \<open>
  The states that the program can reach: the arenas, the world, and the blocks in use. A step
  is one operation of one thread, on any node; a block may be returned from any node. Each
  operation holds the locks it needs for its whole critical sections, and those are the steps
  of the model, so that concurrent threads are sequences of such steps.
\<close>

inductive mg_run :: "os \<Rightarrow> u64 \<Rightarrow> int \<Rightarrow> world \<Rightarrow> arena_ptr list \<Rightarrow> world \<Rightarrow> grants \<Rightarrow> bool"
  for os asz n w0
where
  start: "init_arenas os asz n w0 = Some (Inr as, w) \<Longrightarrow> mg_run os asz n w0 as w Map.empty"
| take: "mg_run os asz n w0 as w U \<Longrightarrow> i < length as \<Longrightarrow> ar_legal os (sz, al) \<Longrightarrow>
    mg_allocate os i sz al as w = Some (Inr p, as', w') \<Longrightarrow>
    mg_run os asz n w0 as' w' (U(p \<mapsto> ar_area (sz, al) p))"
| fail: "mg_run os asz n w0 as w U \<Longrightarrow> i < length as \<Longrightarrow> ar_legal os (sz, al) \<Longrightarrow>
    mg_allocate os i sz al as w = Some (Inl e, as', w') \<Longrightarrow> mg_run os asz n w0 as' w' U"
| give: "mg_run os asz n w0 as w U \<Longrightarrow> i < length as \<Longrightarrow> U p \<noteq> None \<Longrightarrow>
    mg_deallocate os i p as w = Some (r, as', w') \<Longrightarrow> mg_run os asz n w0 as' w' (U(p := None))"
| fill: "mg_run os asz n w0 as w U \<Longrightarrow> agree_on (- granted U) (w_mem w) m \<Longrightarrow>
    mg_run os asz n w0 as (w\<lparr>w_mem := m\<rparr>) U"

inductive_cases mg_run_last: "mg_run os asz n w0 as w U"

lemma mg_run_owns:
  assumes run: "mg_run os asz n w0 as w U" and os: "os_ok os" and asz: "arena_size_ok os asz"
    and n: "n \<le> 2 ^ 31"
  shows "\<exists>F. mg_owns os asz as w F U \<and> frame_step {} w0 F w \<and> length as = nat n"
  using run
proof induction
  case (start "as" w)
  then show ?case using init_arenas_ok [OF os asz n, of w0] by auto
next
  case (take "as" w U i sz al p as' w')
  from take.IH obtain F where F: "mg_owns os asz as w F U" "frame_step {} w0 F w" "length as = nat n" by blast
  obtain F' where F': "length as' = length as" "frame_step F w F' w'"
    "mg_owns os asz as' w' F' (U(p \<mapsto> ar_area (sz, al) p))"
    using mg_allocate_ok [OF F(1) take.hyps(2,3)] take.hyps(4) by auto
  have "frame_step {} w0 F' w'" by (rule frame_step_trans [OF F(2) F'(2)])
  with F' F(3) show ?case by (metis (no_types))
next
  case (fail "as" w U i sz al e as' w')
  from fail.IH obtain F where F: "mg_owns os asz as w F U" "frame_step {} w0 F w" "length as = nat n" by blast
  obtain F' where F': "length as' = length as" "frame_step F w F' w'" "mg_owns os asz as' w' F' U"
    using mg_allocate_ok [OF F(1) fail.hyps(2,3)] fail.hyps(4) by auto
  have "frame_step {} w0 F' w'" by (rule frame_step_trans [OF F(2) F'(2)])
  with F' F(3) show ?case by (metis (no_types))
next
  case (give "as" w U i p r as' w')
  from give.IH obtain F where F: "mg_owns os asz as w F U" "frame_step {} w0 F w" "length as = nat n" by blast
  obtain F' where F': "length as' = length as" "frame_step F w F' w'" "mg_owns os asz as' w' F' (U(p := None))"
    using mg_deallocate_ok [OF F(1) give.hyps(2,3)] give.hyps(4) by auto
  have "frame_step {} w0 F' w'" by (rule frame_step_trans [OF F(2) F'(2)])
  with F' F(3) show ?case by (metis (no_types))
next
  case (fill "as" w U m)
  then obtain F where F: "mg_owns os asz as w F U" "frame_step {} w0 F w" "length as = nat n" by blast
  have "granted U \<subseteq> F" using mg_owns_laws(2) [OF F(1)] by (fastforce simp: granted_def ran_def)
  then have "agree_on (- F) (w_mem w) m" by (intro agree_on_mono [OF fill.hyps(2)]) blast
  then have "frame_step F w F (w\<lparr>w_mem := m\<rparr>)" by (rule frame_step_write [OF mg_owns_laws(1) [OF F(1)]])
  with F(2) have "frame_step {} w0 F (w\<lparr>w_mem := m\<rparr>)" by (rule frame_step_trans)
  then show ?case using mg_owns_laws(5) [OF F(1) fill.hyps(2)] F(3) by blast
qed

end
