(* ===== verification/Numa_Topology.thy ===== *)
theory Numa_Topology
  imports Prelude
begin

section \<open>Topology of the machine, and pinning\<close>

text \<open>
  Models \<open>NumaTopologyManager\<close> and \<open>numa_thread_pin_guard\<close> of \<open>numa_topology\<close>. What
  libnuma, the C++ library and the scheduler answer is a parameter: the record \<open>libnuma\<close> for
  the queries of the constructor, the record \<open>scheduler\<close> for the affinity calls. A thread is
  its affinity mask and the CPU it runs on. The lemmas: the tables that \<open>init_topology\<close> builds
  agree with each other, every node that the manager hands out is a valid one, and a guard
  gives the thread the affinity back that it had.
\<close>

subsection \<open>What the libraries answer\<close>

record libnuma =
  numa_available :: int
  numa_num_configured_cpus :: int
  numa_max_node :: int
  numa_all_nodes :: "(nat \<Rightarrow> bool) option"
  numa_node_of_cpu :: "int \<Rightarrow> int"
  hardware_concurrency :: u32

text \<open>A \<open>cpu_set_t\<close> is the set of the CPUs it contains, all below \<open>CPU_SETSIZE\<close>.\<close>

type_synonym cpu_set = "nat set"

definition CPU_SETSIZE :: int where
  "CPU_SETSIZE = 1024"

record thread =
  th_affinity :: cpu_set
  th_cpu :: int

text \<open>The scheduler may refuse either call; \<open>sched_setaffinity\<close> refuses a mask with no usable
  CPU, and may refuse others.\<close>

record scheduler =
  getaffinity_ok :: bool
  setaffinity_ok :: "cpu_set \<Rightarrow> cpu_set \<Rightarrow> bool"
  cpu_after :: "cpu_set \<Rightarrow> int \<Rightarrow> int"

definition sched_getaffinity :: "scheduler \<Rightarrow> thread \<Rightarrow> cpu_set option" where
  "sched_getaffinity sch th = (if getaffinity_ok sch then Some (th_affinity th) else None)"

definition sched_setaffinity :: "scheduler \<Rightarrow> cpu_set \<Rightarrow> thread \<Rightarrow> bool \<times> thread" where
  "sched_setaffinity sch aff th =
    (if setaffinity_ok sch (th_affinity th) aff
     then (True, th\<lparr>th_affinity := aff, th_cpu := cpu_after sch aff (th_cpu th)\<rparr>)
     else (False, th))"

subsection \<open>The tables\<close>

record topology =
  cpu_count :: int
  node_count :: int
  cpu_to_node :: "int list"
  node_to_cpus :: "int list list"
  node_present :: "bool list"

text \<open>The body of the loop over the CPUs: a CPU without a usable node counts to node 0.\<close>

definition place_cpu :: "libnuma \<Rightarrow> int \<Rightarrow> topology \<Rightarrow> topology" where
  "place_cpu ln cpu t =
    (let node = numa_node_of_cpu ln cpu;
         node = (if node < 0 \<or> node \<ge> node_count t \<or> \<not> node_present t ! nat node then 0 else node)
     in t\<lparr>cpu_to_node := (cpu_to_node t)[nat cpu := node],
          node_to_cpus := (node_to_cpus t)[nat node := node_to_cpus t ! nat node @ [cpu]],
          node_present := (node_present t)[nat node := True]\<rparr>)"

definition init_single_node_topology :: "libnuma \<Rightarrow> topology" where
  "init_single_node_topology ln =
    (let cpus = sint (hardware_concurrency ln);
         cpus = (if cpus \<le> 0 then 1 else cpus)
     in \<lparr>cpu_count = cpus, node_count = 1, cpu_to_node = replicate (nat cpus) 0,
         node_to_cpus = [[0..cpus - 1]], node_present = [True]\<rparr>)"

definition init_topology :: "libnuma \<Rightarrow> topology" where
  "init_topology ln =
    (if numa_available ln < 0 then init_single_node_topology ln
     else
       let cpus = numa_num_configured_cpus ln;
           cpus = (if cpus \<le> 0 then 1 else cpus);
           max_node = numa_max_node ln;
           nodes = (if max_node \<ge> 0 then max_node + 1 else 1);
           nodes = (if nodes \<le> 0 then 1 else nodes);
           present = (case numa_all_nodes ln of
             Some isbitset \<Rightarrow> map isbitset [0..<nat nodes]
           | None \<Rightarrow> replicate (nat nodes) True);
           t = \<lparr>cpu_count = cpus, node_count = nodes, cpu_to_node = replicate (nat cpus) 0,
                node_to_cpus = replicate (nat nodes) [], node_present = present\<rparr>
       in fold (place_cpu ln) [0..cpus - 1] t)"

subsection \<open>Queries\<close>

definition current_node_from_cpu :: "topology \<Rightarrow> int \<Rightarrow> int" where
  "current_node_from_cpu t cpu =
    (if cpu < 0 \<or> cpu \<ge> int (length (cpu_to_node t)) then 0 else cpu_to_node t ! nat cpu)"

definition is_valid_node :: "topology \<Rightarrow> int \<Rightarrow> bool" where
  "is_valid_node t node_id =
    (if node_id < 0 \<or> node_id \<ge> node_count t then False
     else if node_id \<ge> int (length (node_present t)) then False
     else node_present t ! nat node_id)"

definition normalize_node_id :: "topology \<Rightarrow> int \<Rightarrow> int \<Rightarrow> int" where
  "normalize_node_id t cpu node_id =
    (if is_valid_node t node_id then node_id else current_node_from_cpu t cpu)"

subsection \<open>Affinity\<close>

definition CPU_COUNT :: "cpu_set \<Rightarrow> nat" where
  "CPU_COUNT cpus = card cpus"

text \<open>The loop that collects the CPUs of a node, and whether it found any.\<close>

definition collect_cpu :: "int \<Rightarrow> cpu_set \<times> bool \<Rightarrow> cpu_set \<times> bool" where
  "collect_cpu cpu = (\<lambda>(affinity, has_cpu).
     if cpu \<ge> 0 \<and> cpu < CPU_SETSIZE then (insert (nat cpu) affinity, True) else (affinity, has_cpu))"

definition apply_affinity_from_cpus :: "scheduler \<Rightarrow> int list \<Rightarrow> thread \<Rightarrow> bool \<times> thread" where
  "apply_affinity_from_cpus sch cpus th =
    (let (affinity, has_cpu) = fold collect_cpu cpus ({}, False) in
     if \<not> has_cpu then (False, th) else sched_setaffinity sch affinity th)"

definition apply_affinity_to_all_cpus :: "scheduler \<Rightarrow> int \<Rightarrow> thread \<Rightarrow> bool \<times> thread" where
  "apply_affinity_to_all_cpus sch cpus th =
    (if cpus \<le> 0 then (False, th)
     else
       let limit = (if cpus < CPU_SETSIZE then cpus else CPU_SETSIZE)
       in sched_setaffinity sch (fold (\<lambda>cpu. insert (nat cpu)) [0..limit - 1] {}) th)"

definition pin_current_thread_to_node :: "topology \<Rightarrow> scheduler \<Rightarrow> int \<Rightarrow> thread \<Rightarrow> cpu_set \<times> thread" where
  "pin_current_thread_to_node t sch node_id th =
    (if \<not> is_valid_node t node_id then ({}, th)
     else if node_id \<ge> int (length (node_to_cpus t)) then ({}, th)
     else case sched_getaffinity sch th of
       None \<Rightarrow> ({}, th)
     | Some previous \<Rightarrow>
         (let (ok, th1) = apply_affinity_from_cpus sch (node_to_cpus t ! nat node_id) th
          in (if ok then previous else {}, th1)))"

definition set_affinity :: "scheduler \<Rightarrow> cpu_set \<Rightarrow> thread \<Rightarrow> bool \<times> thread" where
  "set_affinity sch affinity th =
    (if CPU_COUNT affinity \<noteq> 0 then sched_setaffinity sch affinity th else (False, th))"

definition unpin_current_thread :: "topology \<Rightarrow> scheduler \<Rightarrow> thread \<Rightarrow> bool \<times> thread" where
  "unpin_current_thread t sch th = apply_affinity_to_all_cpus sch (cpu_count t) th"

subsection \<open>The guard\<close>

record pin_guard =
  pg_node_id :: int
  pg_previous :: cpu_set
  pg_active :: bool

definition pin_guard_new :: "topology \<Rightarrow> scheduler \<Rightarrow> int \<Rightarrow> thread \<Rightarrow> pin_guard \<times> thread" where
  "pin_guard_new t sch node_id th =
    (let (previous, th1) = pin_current_thread_to_node t sch node_id th
     in (\<lparr>pg_node_id = node_id, pg_previous = previous, pg_active = CPU_COUNT previous \<noteq> 0\<rparr>, th1))"

definition pin_guard_restore :: "scheduler \<Rightarrow> pin_guard \<Rightarrow> thread \<Rightarrow> bool \<times> pin_guard \<times> thread" where
  "pin_guard_restore sch g th =
    (if \<not> pg_active g then (False, g, th)
     else
       let g1 = g\<lparr>pg_active := False\<rparr>;
           (ok, th1) = set_affinity sch (pg_previous g1) th
       in (ok, g1, th1))"

definition pin_guard_release :: "pin_guard \<Rightarrow> pin_guard" where
  "pin_guard_release g = g\<lparr>pg_active := False\<rparr>"

definition pin_guard_destroy :: "scheduler \<Rightarrow> pin_guard \<Rightarrow> thread \<Rightarrow> thread" where
  "pin_guard_destroy sch g th = (let (ok, g1, th1) = pin_guard_restore sch g th in th1)"

subsection \<open>The tables agree\<close>

text \<open>Every CPU has one node, which exists and is marked present, and the list of a node holds
  exactly its CPUs, in order.\<close>

definition topo_ok :: "topology \<Rightarrow> bool" where
  "topo_ok t \<longleftrightarrow> 1 \<le> cpu_count t \<and> 1 \<le> node_count t \<and>
     length (cpu_to_node t) = nat (cpu_count t) \<and>
     length (node_to_cpus t) = nat (node_count t) \<and> length (node_present t) = nat (node_count t) \<and>
     (\<forall>c<nat (cpu_count t). 0 \<le> cpu_to_node t ! c \<and> cpu_to_node t ! c < node_count t \<and>
        node_present t ! nat (cpu_to_node t ! c)) \<and>
     (\<forall>n<nat (node_count t). node_to_cpus t ! n =
        filter (\<lambda>c. cpu_to_node t ! nat c = int n) [0..cpu_count t - 1])"

text \<open>The loop over the CPUs, after the first \<open>k\<close> of them.\<close>

definition placed :: "topology \<Rightarrow> nat \<Rightarrow> topology \<Rightarrow> bool" where
  "placed t0 k t \<longleftrightarrow> cpu_count t = cpu_count t0 \<and> node_count t = node_count t0 \<and>
     length (cpu_to_node t) = length (cpu_to_node t0) \<and>
     length (node_to_cpus t) = length (node_to_cpus t0) \<and>
     length (node_present t) = length (node_present t0) \<and>
     (\<forall>n. node_present t0 ! n \<longrightarrow> n < length (node_present t0) \<longrightarrow> node_present t ! n) \<and>
     (\<forall>c<k. 0 \<le> cpu_to_node t ! c \<and> cpu_to_node t ! c < node_count t0 \<and>
        node_present t ! nat (cpu_to_node t ! c)) \<and>
     (\<forall>n<nat (node_count t0). node_to_cpus t ! n =
        filter (\<lambda>c. cpu_to_node t ! nat c = int n) [0..int k - 1])"

lemma upto_Suc_int: "[0..int (Suc k) - 1] = [0..int k - 1] @ [int k]"
  using upto_rec2 [of 0 "int k"] by simp

lemma placed_step:
  assumes P: "placed t0 k t" and nodes: "1 \<le> node_count t0"
    and len: "k < length (cpu_to_node t0)" "length (node_to_cpus t0) = nat (node_count t0)"
      "length (node_present t0) = nat (node_count t0)"
  shows "placed t0 (Suc k) (place_cpu ln (int k) t)"
proof -
  define node where "node = (let node = numa_node_of_cpu ln (int k) in
    if node < 0 \<or> node \<ge> node_count t \<or> \<not> node_present t ! nat node then 0 else node)"
  have nc: "node_count t = node_count t0" using P by (simp add: placed_def)
  have node: "0 \<le> node" "node < node_count t" using nodes by (auto simp: node_def Let_def nc)
  have L: "length (cpu_to_node t) = length (cpu_to_node t0)" "length (node_to_cpus t) = nat (node_count t0)"
    "length (node_present t) = nat (node_count t0)" using P len by (simp_all add: placed_def)
  have eq: "place_cpu ln (int k) t = t\<lparr>cpu_to_node := (cpu_to_node t)[k := node],
      node_to_cpus := (node_to_cpus t)[nat node := node_to_cpus t ! nat node @ [int k]],
      node_present := (node_present t)[nat node := True]\<rparr>"
    by (simp add: place_cpu_def node_def Let_def)
  have old: "(cpu_to_node t)[k := node] ! nat c = cpu_to_node t ! nat c" if "c \<in> set [0..int k - 1]" for c
  proof -
    have "nat c \<noteq> k" using that by auto
    then show ?thesis by simp
  qed
  have pres: "(node_present t)[nat node := True] ! n" if "node_present t ! n" for n
    using that node L(3) nc by (cases "n = nat node") auto
  have lists: "(node_to_cpus t)[nat node := node_to_cpus t ! nat node @ [int k]] ! n =
      filter (\<lambda>c. (cpu_to_node t)[k := node] ! nat c = int n) [0..int (Suc k) - 1]"
    if n: "n < nat (node_count t0)" for n
  proof -
    have "filter (\<lambda>c. (cpu_to_node t)[k := node] ! nat c = int n) [0..int k - 1] =
        filter (\<lambda>c. cpu_to_node t ! nat c = int n) [0..int k - 1]"
      by (rule filter_cong [OF refl]) (simp only: old)
    then have f: "filter (\<lambda>c. (cpu_to_node t)[k := node] ! nat c = int n) [0..int k - 1] = node_to_cpus t ! n"
      using P n by (simp add: placed_def)
    have "(cpu_to_node t)[k := node] ! k = node" using len(1) L(1) by simp
    then show ?thesis
      unfolding upto_Suc_int filter_append f using node n L(2) nc by (cases "n = nat node") auto
  qed
  have cpus: "0 \<le> (cpu_to_node t)[k := node] ! c \<and> (cpu_to_node t)[k := node] ! c < node_count t0 \<and>
      (node_present t)[nat node := True] ! nat ((cpu_to_node t)[k := node] ! c)" if "c < Suc k" for c
  proof (cases "c = k")
    case True
    then show ?thesis using node len(1) L nc by simp
  next
    case False
    then show ?thesis using that P pres by (simp add: placed_def)
  qed
  show ?thesis
    unfolding placed_def eq using P lists cpus pres by (simp add: placed_def)
qed

lemma placed_all:
  assumes "1 \<le> node_count t0" and "k \<le> length (cpu_to_node t0)"
    and "length (node_to_cpus t0) = nat (node_count t0)" "length (node_present t0) = nat (node_count t0)"
    and empty: "\<forall>n<nat (node_count t0). node_to_cpus t0 ! n = []"
  shows "placed t0 k (fold (place_cpu ln) [0..int k - 1] t0)"
  using assms(2)
proof (induction k)
  case 0
  then show ?case using empty by (simp add: placed_def)
next
  case (Suc k)
  then have "placed t0 k (fold (place_cpu ln) [0..int k - 1] t0)" by simp
  from placed_step [OF this assms(1) _ assms(3,4)] Suc.prems show ?case
    unfolding upto_Suc_int fold_append by simp
qed

lemma init_single_ok: "topo_ok (init_single_node_topology ln)"
proof -
  define cpus where "cpus = (if sint (hardware_concurrency ln) \<le> 0 then 1 else sint (hardware_concurrency ln))"
  have "1 \<le> cpus" by (simp add: cpus_def)
  moreover from this have "filter (\<lambda>c. replicate (nat cpus) (0 :: int) ! nat c = 0) [0..cpus - 1] = [0..cpus - 1]"
    by (intro filter_True) simp
  ultimately show ?thesis
    by (simp add: topo_ok_def init_single_node_topology_def cpus_def [symmetric] Let_def)
qed

lemma init_topology_ok: "topo_ok (init_topology ln)"
proof (cases "numa_available ln < 0")
  case True
  then show ?thesis by (simp add: init_topology_def init_single_ok)
next
  case False
  define cpus where "cpus = (if numa_num_configured_cpus ln \<le> 0 then 1 else numa_num_configured_cpus ln)"
  define nodes where "nodes = (if numa_max_node ln \<ge> 0 then numa_max_node ln + 1 else 1)"
  have pos: "1 \<le> cpus" "1 \<le> nodes" by (auto simp: cpus_def nodes_def)
  define present where "present = (case numa_all_nodes ln of Some isbitset \<Rightarrow> map isbitset [0..<nat nodes]
    | None \<Rightarrow> replicate (nat nodes) True)"
  define t0 where "t0 = \<lparr>cpu_count = cpus, node_count = nodes, cpu_to_node = replicate (nat cpus) 0,
    node_to_cpus = replicate (nat nodes) [], node_present = present\<rparr>"
  have eq: "init_topology ln = fold (place_cpu ln) [0..cpus - 1] t0"
  proof -
    have "(if nodes \<le> 0 then 1 else nodes) = nodes" using pos by simp
    then show ?thesis
      unfolding init_topology_def Let_def if_not_P [OF False] cpus_def [symmetric] nodes_def [symmetric]
        present_def [symmetric] by (simp only: t0_def present_def)
  qed
  have "length present = nat nodes" by (simp add: present_def split: option.splits)
  then have "placed t0 (nat cpus) (fold (place_cpu ln) [0..int (nat cpus) - 1] t0)"
    using pos by (intro placed_all) (simp_all add: t0_def)
  then have P: "placed t0 (nat cpus) (init_topology ln)" using pos by (simp add: eq)
  have "cpu_count t0 = cpus" "node_count t0 = nodes" "length (cpu_to_node t0) = nat cpus"
    "length (node_to_cpus t0) = nat nodes" "length (node_present t0) = nat nodes"
    using \<open>length present = nat nodes\<close> by (simp_all add: t0_def)
  moreover from this P have "cpu_count (init_topology ln) = cpus" "node_count (init_topology ln) = nodes"
    by (simp_all add: placed_def)
  ultimately show ?thesis using P pos by (simp add: placed_def topo_ok_def)
qed

text \<open>A node that libnuma reports stays marked.\<close>

lemma cpu_node_valid:
  assumes "topo_ok t" and "0 \<le> cpu" and "cpu < cpu_count t"
  shows "is_valid_node t (current_node_from_cpu t cpu)"
    and "cpu \<in> set (node_to_cpus t ! nat (current_node_from_cpu t cpu))"
proof -
  have c: "nat cpu < nat (cpu_count t)" using assms by simp
  have cur: "current_node_from_cpu t cpu = cpu_to_node t ! nat cpu"
    using assms by (simp add: current_node_from_cpu_def topo_ok_def)
  have n: "0 \<le> cpu_to_node t ! nat cpu" "cpu_to_node t ! nat cpu < node_count t"
    "node_present t ! nat (cpu_to_node t ! nat cpu)" using assms(1) c by (simp_all add: topo_ok_def)
  show "is_valid_node t (current_node_from_cpu t cpu)"
    using n assms(1) by (simp add: is_valid_node_def cur topo_ok_def)
  have "node_to_cpus t ! nat (cpu_to_node t ! nat cpu) =
      filter (\<lambda>c. cpu_to_node t ! nat c = cpu_to_node t ! nat cpu) [0..cpu_count t - 1]"
    using assms(1) n by (simp add: topo_ok_def)
  then show "cpu \<in> set (node_to_cpus t ! nat (current_node_from_cpu t cpu))"
    using assms by (simp add: cur)
qed

lemma normalize_valid:
  assumes "topo_ok t" and "0 \<le> cpu" and "cpu < cpu_count t"
  shows "is_valid_node t (normalize_node_id t cpu node)"
    and "is_valid_node t node \<Longrightarrow> normalize_node_id t cpu node = node"
  using cpu_node_valid(1) [OF assms] by (simp_all add: normalize_node_id_def)

text \<open>A CPU number that the tables do not cover counts to node 0, even when that is not a
  valid node: then the fallback of \<open>normalize_node_id\<close> is not valid either.\<close>

lemma normalize_unknown_cpu:
  assumes "cpu < 0" and "\<not> is_valid_node t node" and "\<not> is_valid_node t 0"
  shows "\<not> is_valid_node t (normalize_node_id t cpu node)"
  using assms by (simp add: normalize_node_id_def current_node_from_cpu_def)

subsection \<open>Pinning\<close>

lemma fold_collect_cpu:
  "fold collect_cpu cpus (S, b) =
    (S \<union> {nat c | c. c \<in> set cpus \<and> 0 \<le> c \<and> c < CPU_SETSIZE}, b \<or> (\<exists>c\<in>set cpus. 0 \<le> c \<and> c < CPU_SETSIZE))"
  by (induction cpus arbitrary: S b) (auto simp: collect_cpu_def)

definition node_mask :: "int list \<Rightarrow> cpu_set" where
  "node_mask cpus = {nat c | c. c \<in> set cpus \<and> 0 \<le> c \<and> c < CPU_SETSIZE}"

lemma apply_affinity_from_cpus_eq:
  "apply_affinity_from_cpus sch cpus th =
    (if node_mask cpus = {} then (False, th) else sched_setaffinity sch (node_mask cpus) th)"
  by (auto simp: apply_affinity_from_cpus_def fold_collect_cpu node_mask_def)

text \<open>Pinning succeeds or leaves the thread as it is; the mask it returns says which.\<close>

lemma pin_cases:
  assumes "pin_current_thread_to_node t sch node th = (previous, th')" and "th_affinity th \<noteq> {}"
  shows "previous = {} \<and> th' = th \<or>
    previous = th_affinity th \<and> is_valid_node t node \<and>
    th_affinity th' = node_mask (node_to_cpus t ! nat node) \<and> th_affinity th' \<noteq> {}"
  using assms
  by (auto simp: pin_current_thread_to_node_def apply_affinity_from_cpus_eq sched_getaffinity_def
      sched_setaffinity_def split: if_splits)

lemma finite_node_mask: "finite (node_mask cpus)"
  by (rule finite_subset [of _ "nat ` set cpus"]) (auto simp: node_mask_def)

lemma pin_guard_cases:
  assumes new: "pin_guard_new t sch node th = (g, th1)" and fin: "finite (th_affinity th)" "th_affinity th \<noteq> {}"
  shows "\<not> pg_active g \<and> th1 = th \<or>
    pg_active g \<and> pg_previous g = th_affinity th \<and> is_valid_node t node \<and>
    th_affinity th1 = node_mask (node_to_cpus t ! nat node)"
proof -
  obtain previous where p: "pin_current_thread_to_node t sch node th = (previous, th1)"
    and g: "g = \<lparr>pg_node_id = node, pg_previous = previous, pg_active = CPU_COUNT previous \<noteq> 0\<rparr>"
    using new by (auto simp: pin_guard_new_def split: prod.splits)
  show ?thesis using pin_cases [OF p fin(2)] fin by (auto simp: g CPU_COUNT_def)
qed

text \<open>Construction and destruction: the thread has its affinity back, when the scheduler
  accepts the mask that it reported itself.\<close>

lemma pin_guard_round_trip:
  assumes new: "pin_guard_new t sch node th = (g, th1)" and fin: "finite (th_affinity th)" "th_affinity th \<noteq> {}"
    and acc: "setaffinity_ok sch (th_affinity th2) (th_affinity th)" and same: "pg_active g \<or> th2 = th1"
  shows "th_affinity (pin_guard_destroy sch g th2) = th_affinity th"
proof (cases "pg_active g")
  case True
  then have "pg_previous g = th_affinity th" using pin_guard_cases [OF new fin] by simp
  then show ?thesis
    using True acc fin
    by (simp add: pin_guard_destroy_def pin_guard_restore_def set_affinity_def CPU_COUNT_def
        sched_setaffinity_def Let_def card_gt_0_iff)
next
  case False
  then have "th1 = th" "th2 = th1" using pin_guard_cases [OF new fin] same by auto
  then show ?thesis using False by (simp add: pin_guard_destroy_def pin_guard_restore_def)
qed

text \<open>The destructor acts at most once: after \<open>restore\<close> or \<open>release\<close> it does nothing.\<close>

lemma pin_guard_idle:
  "pin_guard_restore sch g th = (ok, g', th') \<Longrightarrow> pin_guard_destroy sch' g' th'' = th''"
  "pin_guard_destroy sch (pin_guard_release g) th = th"
  by (auto simp: pin_guard_destroy_def pin_guard_restore_def pin_guard_release_def Let_def
      split: prod.splits if_splits)

end
