(* ===== verification/Thread_Cache.thy ===== *)
theory Thread_Cache
  imports Arena_Lifecycle Numa_Topology
begin

section \<open>The cache of a thread\<close>

text \<open>
  Models \<open>thread_local/thread_local_cache\<close>: class \<open>ThreadLocalCache\<close> with its 40 bins of cached
  blocks in front of the arena of the thread's node, and \<open>ThreadNumaContextOwner\<close>, the
  thread-local variable that creates, replaces and destroys it. A cache names its arena by the
  index in the manager. A cached block is still in use in its arena and is linked through
  its user area, so the contract of the manager applies to all blocks that users or caches
  hold; the theory shows that the users alone see an allocator again.
\<close>

subsection \<open>State\<close>

record cache_bin =
  cb_head :: ptr
  cb_count :: u64
  cb_bytes :: u64

definition empty_cache_bin :: cache_bin where
  "empty_cache_bin = \<lparr>cb_head = nullptr, cb_count = 0, cb_bytes = 0\<rparr>"

record tcache =
  tc_node_id :: int
  tc_use :: bool
  tc_arena :: nat
  tc_bins :: "cache_bin list"

definition tc_new :: "nat \<Rightarrow> int \<Rightarrow> bool \<Rightarrow> tcache" where
  "tc_new arena node_id use_thread_cache =
    \<lparr>tc_node_id = node_id, tc_use = use_thread_cache, tc_arena = arena,
     tc_bins = replicate kNumSizeClasses empty_cache_bin\<rparr>"

definition set_use_thread_cache :: "bool \<Rightarrow> tcache \<Rightarrow> tcache" where
  "set_use_thread_cache use_thread_cache t = t\<lparr>tc_use := use_thread_cache\<rparr>"

subsection \<open>The bins\<close>

definition take_cached :: "nat \<Rightarrow> tcache \<Rightarrow> mem \<Rightarrow> ptr \<times> tcache" where
  "take_cached class_index t m =
    (let bin = tc_bins t ! class_index;
         header = cb_head bin
     in if header = nullptr then (nullptr, t)
        else
          let bin = bin\<lparr>cb_head := next_link m header\<rparr>;
              bin = bin\<lparr>cb_count := cb_count bin - 1\<rparr>;
              bin = bin\<lparr>cb_bytes := cb_bytes bin - ucast (bh_size_class m header)\<rparr>
          in (header, t\<lparr>tc_bins := (tc_bins t)[class_index := bin]\<rparr>))"

definition cache_block :: "ptr \<Rightarrow> nat \<Rightarrow> tcache \<Rightarrow> mem \<Rightarrow> bool \<times> tcache \<times> mem" where
  "cache_block header class_index t m =
    (let bin = tc_bins t ! class_index;
         cls = (ucast (bh_size_class m header) :: u64)
     in if cb_bytes bin + cls > max_cached_bytes_for_class cls then (False, t, m)
        else
          let m1 = set_next_link header (cb_head bin) m;
              bin = bin\<lparr>cb_head := header, cb_count := cb_count bin + 1, cb_bytes := cb_bytes bin + cls\<rparr>
          in (True, t\<lparr>tc_bins := (tc_bins t)[class_index := bin]\<rparr>, m1))"

subsection \<open>Allocation and deallocation\<close>

definition tc_allocate ::
  "os \<Rightarrow> u64 \<Rightarrow> u64 \<Rightarrow> tcache \<Rightarrow> arena_ptr list \<Rightarrow> world \<Rightarrow>
   (ptr res \<times> tcache \<times> arena_ptr list \<times> world) option" where
  "tc_allocate os sz alignment t as w =
    (let from_arena = (\<lambda>sz. case mg_allocate os (tc_arena t) sz alignment as w of
           None \<Rightarrow> None
         | Some (r, as1, w1) \<Rightarrow> Some (r, t, as1, w1))
     in if \<not> tc_use t then from_arena sz
        else
          let sz = (if sz = 0 then 1 else sz) in
          if sz \<le> SMALL_LARGE_THRESHOLD \<and> alignment \<le> ALIGNMENT then
            case class_index_for_size sz of
              Inl e \<Rightarrow> Some (Inl e, t, as, w)
            | Inr class_index \<Rightarrow>
                (let cls = kClassSizes ! unat class_index;
                     (header, t1) = take_cached (unat class_index) t (w_mem w)
                 in if header \<noteq> nullptr then Some (Inr (to_user_ptr header), t1, as, w)
                    else case mg_allocate os (tc_arena t) sz alignment as w of
                      None \<Rightarrow> None
                    | Some (Inl e, as1, w1) \<Rightarrow> Some (Inl e, t1, as1, w1)
                    | Some (Inr p, as1, w1) \<Rightarrow>
                        (let header = from_user_ptr p;
                             m1 = set_bh_node_id header (of_int (tc_node_id t)) (w_mem w1);
                             m2 = set_bh_size_class header (ucast cls) m1;
                             m3 = set_bh_size header 0 m2
                         in Some (Inr p, t1, as1, w1\<lparr>w_mem := m3\<rparr>)))
          else from_arena sz)"

definition tc_deallocate ::
  "os \<Rightarrow> ptr \<Rightarrow> tcache \<Rightarrow> arena_ptr list \<Rightarrow> world \<Rightarrow>
   (unit res \<times> tcache \<times> arena_ptr list \<times> world) option" where
  "tc_deallocate os p t as w =
    (let header = from_user_ptr p;
         cls = bh_size_class (w_mem w) header;
         to_arena = (case mg_deallocate os (tc_arena t) p as w of
             None \<Rightarrow> None
           | Some (r, as1, w1) \<Rightarrow> Some (r, t, as1, w1))
     in if p = nullptr then Some (Inr (), t, as, w)
        else if \<not> tc_use t \<or> cls = 0 \<or> sint (bh_node_id (w_mem w) header) \<noteq> tc_node_id t then to_arena
        else case class_index_for_size (ucast cls) of
          Inl e \<Rightarrow> Some (Inl e, t, as, w)
        | Inr class_index \<Rightarrow>
            (case cache_block header (unat class_index) t (w_mem w) of
               (True, t1, m1) \<Rightarrow> Some (Inr (), t1, as, w\<lparr>w_mem := m1\<rparr>)
             | (False, t1, m1) \<Rightarrow> to_arena))"

subsection \<open>Flush, creation and destruction\<close>

text \<open>The loop over one bin; what \<open>deallocate\<close> throws is swallowed.\<close>

partial_function (option) flush_bin ::
  "os \<Rightarrow> nat \<Rightarrow> cache_bin \<Rightarrow> arena_ptr list \<Rightarrow> world \<Rightarrow> (cache_bin \<times> arena_ptr list \<times> world) option"
where
  "flush_bin os arena bin as w =
    (if cb_head bin = nullptr then Some (bin, as, w)
     else
       let header = cb_head bin;
           bin = bin\<lparr>cb_head := next_link (w_mem w) header\<rparr>;
           bin = bin\<lparr>cb_count := cb_count bin - 1\<rparr>;
           bin = bin\<lparr>cb_bytes := cb_bytes bin - ucast (bh_size_class (w_mem w) header)\<rparr>
       in case mg_deallocate os arena (to_user_ptr header) as w of
            None \<Rightarrow> None
          | Some (r, as1, w1) \<Rightarrow> flush_bin os arena bin as1 w1)"

fun flush_bins ::
  "os \<Rightarrow> nat \<Rightarrow> cache_bin list \<Rightarrow> arena_ptr list \<Rightarrow> world \<Rightarrow>
   (cache_bin list \<times> arena_ptr list \<times> world) option" where
  "flush_bins os arena [] as w = Some ([], as, w)"
| "flush_bins os arena (bin # bins) as w =
     (case flush_bin os arena bin as w of
        None \<Rightarrow> None
      | Some (bin1, as1, w1) \<Rightarrow>
          (case flush_bins os arena bins as1 w1 of
             None \<Rightarrow> None
           | Some (bins1, as2, w2) \<Rightarrow> Some (bin1 # bins1, as2, w2)))"

definition tc_flush ::
  "os \<Rightarrow> tcache \<Rightarrow> arena_ptr list \<Rightarrow> world \<Rightarrow> (tcache \<times> arena_ptr list \<times> world) option" where
  "tc_flush os t as w =
    (case flush_bins os (tc_arena t) (tc_bins t) as w of
       None \<Rightarrow> None
     | Some (bins, as1, w1) \<Rightarrow> Some (t\<lparr>tc_bins := bins\<rparr>, as1, w1))"

text \<open>A cache with its storage. \<open>tsz\<close> is \<open>sizeof(ThreadLocalCache)\<close>, and \<open>cpu\<close> what
  \<open>sched_getcpu\<close> answers.\<close>

type_synonym cache_ptr = "ptr \<times> tcache"

definition create_on_current_node ::
  "os \<Rightarrow> u64 \<Rightarrow> topology \<Rightarrow> int \<Rightarrow> bool \<Rightarrow> arena_ptr list \<Rightarrow> world \<Rightarrow> cache_ptr res \<times> world" where
  "create_on_current_node os tsz topo cpu use_thread_cache as w =
    (let node_id = current_node_from_cpu topo cpu in
     case vm_alloc_on_node os tsz node_id Bind w of
       (Inl e, w1) \<Rightarrow> (Inl e, w1)
     | (Inr p, w1) \<Rightarrow>
         (case arena_for_node as node_id of
            Inl e \<Rightarrow> (Inl e, vm_release os p tsz w1)
          | Inr i \<Rightarrow> (Inr (p, tc_new i node_id use_thread_cache), w1)))"

definition tc_destroy ::
  "os \<Rightarrow> u64 \<Rightarrow> cache_ptr option \<Rightarrow> arena_ptr list \<Rightarrow> world \<Rightarrow> (arena_ptr list \<times> world) option" where
  "tc_destroy os tsz c as w =
    (case c of
       None \<Rightarrow> Some (as, w)
     | Some (p, t) \<Rightarrow>
         (case tc_flush os t as w of
            None \<Rightarrow> None
          | Some (t1, as1, w1) \<Rightarrow> Some (as1, vm_release os p tsz w1)))"

subsection \<open>The owner of the cache\<close>

text \<open>\<open>ThreadNumaContextOwner\<close>: its member \<open>cache_\<close> is the state.\<close>

definition ensure_cache ::
  "os \<Rightarrow> u64 \<Rightarrow> topology \<Rightarrow> int \<Rightarrow> bool \<Rightarrow> cache_ptr option \<Rightarrow> arena_ptr list \<Rightarrow> world \<Rightarrow>
   cache_ptr res \<times> cache_ptr option \<times> world" where
  "ensure_cache os tsz topo cpu use_thread_cache c as w =
    (case c of
       Some ct \<Rightarrow> (Inr ct, c, w)
     | None \<Rightarrow>
         (case create_on_current_node os tsz topo cpu use_thread_cache as w of
            (Inl e, w1) \<Rightarrow> (Inl e, None, w1)
          | (Inr ct, w1) \<Rightarrow> (Inr ct, Some ct, w1)))"

definition owner_get ::
  "os \<Rightarrow> u64 \<Rightarrow> topology \<Rightarrow> int \<Rightarrow> cache_ptr option \<Rightarrow> arena_ptr list \<Rightarrow> world \<Rightarrow>
   cache_ptr res \<times> cache_ptr option \<times> world" where
  "owner_get os tsz topo cpu c as w = ensure_cache os tsz topo cpu True c as w"

text \<open>\<open>configure\<close> asks for the CPU up to three times, and the thread may have moved in between:
  \<open>cpu\<close> when a first cache is created, \<open>cpu1\<close> for the comparison, \<open>cpu2\<close> for the replacement.\<close>

definition owner_configure ::
  "os \<Rightarrow> u64 \<Rightarrow> topology \<Rightarrow> int \<times> int \<times> int \<Rightarrow> bool \<Rightarrow> cache_ptr option \<Rightarrow> arena_ptr list \<Rightarrow> world \<Rightarrow>
   (unit res \<times> cache_ptr option \<times> arena_ptr list \<times> world) option" where
  "owner_configure os tsz topo cpus use_thread_cache c as w =
    (let (cpu, cpu1, cpu2) = cpus in
     case ensure_cache os tsz topo cpu use_thread_cache c as w of
       (Inl e, c1, w1) \<Rightarrow> Some (Inl e, c1, as, w1)
     | (Inr (p, t), c1, w1) \<Rightarrow>
         (let current_node = current_node_from_cpu topo cpu1 in
          if tc_node_id t = current_node
          then Some (Inr (), Some (p, set_use_thread_cache use_thread_cache t), as, w1)
          else case create_on_current_node os tsz topo cpu2 use_thread_cache as w1 of
              (Inl e, w2) \<Rightarrow> Some (Inl e, c1, as, w2)
            | (Inr replacement, w2) \<Rightarrow>
                (case tc_destroy os tsz c1 as w2 of
                   None \<Rightarrow> None
                 | Some (as1, w3) \<Rightarrow> Some (Inr (), Some replacement, as1, w3))))"

subsection \<open>What a cache holds\<close>

text \<open>\<open>q\<close> lists the cached blocks of each bin. A cached block is granted to the cache with
  all bytes of its class, and its header names the node of the cache and the class.\<close>

definition cache_bin_ok :: "mem \<Rightarrow> nat \<Rightarrow> cache_bin \<Rightarrow> ptr list \<Rightarrow> bool" where
  "cache_bin_ok m i b hs \<longleftrightarrow> chain (next_link m) (cb_head b) hs \<and> unat (cb_count b) = length hs \<and>
     unat (cb_bytes b) = length hs * unat (kClassSizes ! i) \<and>
     cb_bytes b \<le> max_cached_bytes_for_class (kClassSizes ! i)"

definition class_area :: "nat \<Rightarrow> ptr \<Rightarrow> nat set" where
  "class_area i h = bytes_of (to_user_ptr h) (unat (kClassSizes ! i))"

definition held :: "mem \<Rightarrow> grants \<Rightarrow> int \<Rightarrow> nat \<Rightarrow> ptr \<Rightarrow> bool" where
  "held m V node i h \<longleftrightarrow> V (to_user_ptr h) = Some (class_area i h) \<and>
     bh_node_id m h = of_int node \<and> bh_size_class m h = ucast (kClassSizes ! i)"

definition cache_ok :: "nat \<Rightarrow> tcache \<Rightarrow> mem \<Rightarrow> grants \<Rightarrow> ptr list list \<Rightarrow> bool" where
  "cache_ok n t m V q \<longleftrightarrow> length (tc_bins t) = 40 \<and> length q = 40 \<and>
     tc_arena t < n \<and> tc_node_id t = int (tc_arena t) \<and>
     (\<forall>i<40. cache_bin_ok m i (tc_bins t ! i) (q ! i) \<and> (\<forall>h\<in>set (q ! i). held m V (int (tc_arena t)) i h))"

text \<open>The caches of all threads, the blocks that they hold, and the grants that remain for the
  users.\<close>

definition slot_ok :: "nat \<Rightarrow> cache_ptr option \<Rightarrow> mem \<Rightarrow> grants \<Rightarrow> ptr list list \<Rightarrow> bool" where
  "slot_ok n c m V q \<longleftrightarrow> (case c of None \<Rightarrow> concat q = [] | Some (p, t) \<Rightarrow> cache_ok n t m V q)"

definition held_by :: "ptr list list list \<Rightarrow> ptr set" where
  "held_by Q = (\<Union>q\<in>set Q. set (concat q))"

definition for_users :: "grants \<Rightarrow> ptr list list list \<Rightarrow> grants" where
  "for_users V Q = V |` (- to_user_ptr ` held_by Q)"

definition caches_ok :: "nat \<Rightarrow> cache_ptr option list \<Rightarrow> mem \<Rightarrow> grants \<Rightarrow> ptr list list list \<Rightarrow> bool" where
  "caches_ok n cs m V Q \<longleftrightarrow> length Q = length cs \<and>
     (\<forall>k<length cs. slot_ok n (cs ! k) m V (Q ! k)) \<and>
     (\<forall>k<length cs. \<forall>l<length cs. k \<noteq> l \<longrightarrow> set (concat (Q ! k)) \<inter> set (concat (Q ! l)) = {})"

definition pool_inv ::
  "os \<Rightarrow> u64 \<Rightarrow> cache_ptr option list \<Rightarrow> arena_ptr list \<Rightarrow> world \<Rightarrow> nat set \<Rightarrow> grants \<Rightarrow>
   ptr list list list \<Rightarrow> bool" where
  "pool_inv os asz cs as w F V Q \<longleftrightarrow> mg_owns os asz as w F V \<and> caches_ok (length as) cs (w_mem w) V Q"

lemma class_area_link: "i < 40 \<Longrightarrow> bytes_of (to_user_ptr h) 8 \<subseteq> class_area i h"
  using kClassSizes_bounds(1) [of i] by (auto simp: class_area_def bytes_of_def)

lemma cache_okD:
  assumes "cache_ok n t m V q"
  shows "i < 40 \<Longrightarrow> cache_bin_ok m i (tc_bins t ! i) (q ! i)"
    and "i < 40 \<Longrightarrow> h \<in> set (q ! i) \<Longrightarrow> held m V (int (tc_arena t)) i h"
    and "length q = 40" and "length (tc_bins t) = 40"
    and "tc_arena t < n" and "tc_node_id t = int (tc_arena t)"
  using assms by (simp_all add: cache_ok_def)

lemma cache_ok_held:
  assumes ok: "cache_ok n t m V q" and h: "h \<in> set (concat q)"
  obtains i where "i < 40" and "h \<in> set (q ! i)" and "held m V (int (tc_arena t)) i h"
proof -
  obtain hs where hs: "hs \<in> set q" "h \<in> set hs" using h by auto
  then obtain i where i: "i < length q" "q ! i = hs" by (auto simp: in_set_conv_nth)
  then show thesis using ok hs(2) that [of i] by (simp add: cache_ok_def)
qed

text \<open>A step that leaves the blocks of a cache alone leaves the cache alone.\<close>

lemma cache_ok_step:
  assumes ok: "cache_ok n t m V q"
    and V': "\<And>h. h \<in> set (concat q) \<Longrightarrow> V' (to_user_ptr h) = V (to_user_ptr h)"
    and W: "\<And>h. h \<in> set (concat q) \<Longrightarrow> W (to_user_ptr h) = V (to_user_ptr h)"
    and ag: "agree_on (granted W) m m'" and ks: "keeps_headers W m m'"
  shows "cache_ok n t m' V' q"
proof -
  have each: "cache_bin_ok m' i (tc_bins t ! i) (q ! i) \<and> (\<forall>h\<in>set (q ! i). held m' V' (int (tc_arena t)) i h)" if i: "i < 40" for i
  proof -
    have b: "cache_bin_ok m i (tc_bins t ! i) (q ! i)" and hd: "\<forall>h\<in>set (q ! i). held m V (int (tc_arena t)) i h"
      and len: "length q = 40" using ok i by (simp_all add: cache_ok_def)
    have mem: "h \<in> set (concat q)" if "h \<in> set (q ! i)" for h using that i len by auto
    have Wh: "W (to_user_ptr h) = Some (class_area i h)" if "h \<in> set (q ! i)" for h
      using hd that W [OF mem [OF that]] by (simp add: held_def)
    have lk: "agree_on (bytes_of (to_user_ptr h) 8) m m'" if "h \<in> set (q ! i)" for h
      using class_area_link [OF i] granted_part [of W "to_user_ptr h", OF Wh [OF that]] by (intro agree_on_mono [OF ag]) blast
    have "chain (next_link m') (cb_head (tc_bins t ! i)) (q ! i) = chain (next_link m) (cb_head (tc_bins t ! i)) (q ! i)"
      by (rule fl.chain_frame [OF lk])
    moreover have "held m' V' (int (tc_arena t)) i h" if "h \<in> set (q ! i)" for h
      using hd that V' [OF mem [OF that]] Wh [OF that] keeps_headersD [OF ks, of "to_user_ptr h"]
      by (simp add: held_def)
    ultimately show ?thesis using b by (simp add: cache_bin_ok_def)
  qed
  then show ?thesis using ok by (simp add: cache_ok_def)
qed

lemma slot_ok_step:
  assumes "slot_ok n c m V q"
    and "\<And>h. h \<in> set (concat q) \<Longrightarrow> V' (to_user_ptr h) = V (to_user_ptr h)"
    and "\<And>h. h \<in> set (concat q) \<Longrightarrow> W (to_user_ptr h) = V (to_user_ptr h)"
    and "agree_on (granted W) m m'" and "keeps_headers W m m'"
  shows "slot_ok n c m' V' q"
proof (cases c)
  case None
  then show ?thesis using assms(1) by (simp add: slot_ok_def)
next
  case (Some pt)
  then obtain p t where c: "c = Some (p, t)" by (cases pt) auto
  then have "cache_ok n t m V q" using assms(1) by (simp add: slot_ok_def)
  from cache_ok_step [OF this assms(2-5)] show ?thesis by (simp add: c slot_ok_def)
qed

subsection \<open>Taking from a bin and adding to it\<close>

lemma max_cached_small: "i < 40 \<Longrightarrow> unat (max_cached_bytes_for_class (kClassSizes ! i)) \<le> 2097152"
  using high_watermark_value(1) [of i] by (simp add: foreign_high_watermark_def)

lemma take_cached_miss: "take_cached i t m = (h, t') \<Longrightarrow> h = nullptr \<Longrightarrow> t' = t"
  by (auto simp: take_cached_def Let_def split: if_splits)

lemma take_cached_hit:
  assumes ok: "cache_ok n t m V q" and i: "i < 40" and tk: "take_cached i t m = (h, t')" and h: "h \<noteq> nullptr"
  shows "\<exists>hs. q ! i = h # hs \<and> h \<notin> set hs \<and> cache_ok n t' m V (q[i := hs]) \<and>
    tc_arena t' = tc_arena t \<and> tc_node_id t' = tc_node_id t \<and> tc_use t' = tc_use t"
proof -
  let ?b = "tc_bins t ! i"
  have b: "cache_bin_ok m i ?b (q ! i)" and hd: "\<forall>h\<in>set (q ! i). held m V (int (tc_arena t)) i h"
    and len: "length (tc_bins t) = 40" "length q = 40" using ok i by (simp_all add: cache_ok_def)
  have hb: "h = cb_head ?b" and t': "t' = t\<lparr>tc_bins := (tc_bins t)[i := ?b\<lparr>cb_head := next_link m h,
      cb_count := cb_count ?b - 1, cb_bytes := cb_bytes ?b - ucast (bh_size_class m h)\<rparr>]\<rparr>"
    using tk h by (auto simp: take_cached_def Let_def split: if_splits)
  have ch: "chain (next_link m) h (q ! i)" using b hb by (simp add: cache_bin_ok_def)
  define hs where "hs = tl (q ! i)"
  have q: "q ! i = h # hs" and tl: "chain (next_link m) (next_link m h) hs"
    using fl.chain_pop [OF ch h] by (simp_all add: hs_def)
  have cls: "ucast (bh_size_class m h) = kClassSizes ! i"
    using hd ucast_class_size [OF i] by (simp add: q held_def)
  have cnt: "unat (cb_count ?b) = Suc (length hs)" and byt: "unat (cb_bytes ?b) = Suc (length hs) * unat (kClassSizes ! i)"
    and mx: "cb_bytes ?b \<le> max_cached_bytes_for_class (kClassSizes ! i)" using b by (simp_all add: cache_bin_ok_def q)
  have le: "kClassSizes ! i \<le> cb_bytes ?b" using byt by (simp add: word_le_nat_alt)
  have u: "unat (cb_bytes ?b - kClassSizes ! i) = length hs * unat (kClassSizes ! i)"
    using le byt by (simp add: unat_sub)
  have "1 \<le> cb_count ?b" using cnt by (simp add: word_le_nat_alt)
  then have c: "unat (cb_count ?b - 1) = length hs" using cnt by (simp add: unat_sub)
  have "cb_bytes ?b - kClassSizes ! i \<le> max_cached_bytes_for_class (kClassSizes ! i)"
    using mx u byt by (simp add: word_le_nat_alt)
  then have "cache_bin_ok m i (tc_bins t' ! i) hs" using tl u c i len by (simp add: t' cache_bin_ok_def cls)
  moreover have "h \<notin> set hs" using chain_distinct [OF ch] by (simp add: q)
  ultimately have "cache_ok n t' m V (q[i := hs])"
    using ok i hd len by (auto simp: cache_ok_def t' nth_list_update q)
  then show ?thesis using q \<open>h \<notin> set hs\<close> by (auto simp: t')
qed

lemma cache_block_ok:
  assumes ok: "cache_ok n t m V q" and i: "i < 40"
    and hd: "held m V (int (tc_arena t)) i h" and h: "h \<noteq> nullptr" and new: "h \<notin> set (concat q)"
    and apart: "\<And>g. g \<in> set (concat q) \<Longrightarrow> V (to_user_ptr g) \<noteq> None \<and>
      (\<forall>A. V (to_user_ptr g) = Some A \<longrightarrow> A \<inter> class_area i h = {})"
    and ks: "keeps_headers V m (set_next_link h (cb_head (tc_bins t ! i)) m)"
    and cb: "cache_block h i t m = (True, t', m')"
  shows "m' = set_next_link h (cb_head (tc_bins t ! i)) m" and "cache_ok n t' m' V (q[i := h # q ! i])"
    and "tc_arena t' = tc_arena t" and "tc_node_id t' = tc_node_id t" and "tc_use t' = tc_use t"
proof -
  let ?b = "tc_bins t ! i"
  have b: "cache_bin_ok m i ?b (q ! i)" and hd': "\<forall>h\<in>set (q ! i). held m V (int (tc_arena t)) i h"
    and len: "length (tc_bins t) = 40" "length q = 40" using ok i by (simp_all add: cache_ok_def)
  have cls: "ucast (bh_size_class m h) = kClassSizes ! i" using hd ucast_class_size [OF i] by (simp add: held_def)
  have room: "\<not> cb_bytes ?b + kClassSizes ! i > max_cached_bytes_for_class (kClassSizes ! i)"
    and m': "m' = set_next_link h (cb_head ?b) m"
    and t': "t' = t\<lparr>tc_bins := (tc_bins t)[i := ?b\<lparr>cb_head := h, cb_count := cb_count ?b + 1,
      cb_bytes := cb_bytes ?b + kClassSizes ! i\<rparr>]\<rparr>"
    using cb by (auto simp: cache_block_def Let_def cls split: if_splits)
  show "m' = set_next_link h (cb_head ?b) m" by (rule m')
  show "tc_arena t' = tc_arena t" "tc_node_id t' = tc_node_id t" "tc_use t' = tc_use t" by (simp_all add: t')
  let ?W = "V |` (to_user_ptr ` set (concat q))"
  have "agree_on (granted ?W) m m'"
  proof (rule agree_onI)
    fix x assume "x \<in> granted ?W"
    then obtain g A where g: "g \<in> set (concat q)" "V (to_user_ptr g) = Some A" "x \<in> A"
      by (auto simp: granted_def ran_def restrict_map_def split: if_splits)
    have "A \<inter> class_area i h = {}" using apart [OF g(1)] g(2) by blast
    then have "x \<notin> bytes_of (to_user_ptr h) 8" using class_area_link [OF i] g(3) by blast
    then show "m' x = m x" unfolding m' by (rule fl.set_link_local)
  qed
  moreover have "keeps_headers ?W m m'"
    using ks unfolding keeps_headers_def m' by (auto simp: restrict_map_def)
  ultimately have ok': "cache_ok n t m' V q"
    by (intro cache_ok_step [OF ok]) (auto simp: restrict_map_def)
  have cells: "bytes_of (to_user_ptr g) 8 \<inter> bytes_of (to_user_ptr h) 8 = {}" if g: "g \<in> set (q ! i)" for g
  proof -
    have gq: "g \<in> set (concat q)" using g i len by auto
    have "V (to_user_ptr g) = Some (class_area i g)" using hd' g by (simp add: held_def)
    then have "class_area i g \<inter> class_area i h = {}" using apart [OF gq] by blast
    then show ?thesis using class_area_link [OF i] by blast
  qed
  have ch: "chain (next_link m') h (h # q ! i)"
    unfolding m' using b cells by (intro fl.chain_push [OF _ h]) (simp_all add: cache_bin_ok_def)
  have mx: "unat (cb_bytes ?b) \<le> 2097152"
    using b max_cached_small [OF i] by (auto simp: cache_bin_ok_def word_le_nat_alt)
  have "unat (kClassSizes ! i) \<le> 4096" by (rule kClassSizes_bounds(2) [OF i])
  then have u: "unat (cb_bytes ?b + kClassSizes ! i) = unat (cb_bytes ?b) + unat (kClassSizes ! i)"
    using mx by (simp add: unat_add_u64)
  have cnt: "unat (cb_count ?b) = length (q ! i)" using b by (simp add: cache_bin_ok_def)
  have "length (q ! i) * 1 \<le> length (q ! i) * unat (kClassSizes ! i)"
    using kClassSizes_bounds(1) [OF i] by (intro mult_le_mono2) simp
  also have "\<dots> \<le> 2097152" using b mx by (simp add: cache_bin_ok_def)
  finally have "length (q ! i) \<le> 2097152" by simp
  then have c: "unat (cb_count ?b + 1) = Suc (length (q ! i))"
    using unat_add_u64 [of "cb_count ?b" 1] cnt by simp
  have "cache_bin_ok m' i (tc_bins t' ! i) (h # q ! i)"
    using ch u c b room i len by (simp add: t' cache_bin_ok_def not_less)
  moreover have "held m' V (int (tc_arena t)) i h"
    using hd keeps_headersD [OF ks, of "to_user_ptr h"] by (simp add: held_def m')
  ultimately show "cache_ok n t' m' V (q[i := h # q ! i])"
    using ok' i len by (auto simp: cache_ok_def t' nth_list_update)
qed

subsection \<open>The caches of all threads\<close>

lemma held_by_nth: "held_by Q = (\<Union>l<length Q. set (concat (Q ! l)))"
proof -
  have "set Q = (\<lambda>l. Q ! l) ` {..<length Q}" by (auto simp: set_conv_nth)
  then show ?thesis by (simp add: held_by_def del: set_concat)
qed

lemma held_byI: "l < length Q \<Longrightarrow> h \<in> set (concat (Q ! l)) \<Longrightarrow> h \<in> held_by Q"
  unfolding held_by_def by (rule UN_I [OF nth_mem])

lemma caches_okD:
  assumes "caches_ok n cs m V Q"
  shows "length Q = length cs" and "k < length cs \<Longrightarrow> slot_ok n (cs ! k) m V (Q ! k)"
    and "k < length cs \<Longrightarrow> l < length cs \<Longrightarrow> k \<noteq> l \<Longrightarrow> set (concat (Q ! k)) \<inter> set (concat (Q ! l)) = {}"
    and "k < length cs \<Longrightarrow> cs ! k = Some (p, t) \<Longrightarrow> cache_ok n t m V (Q ! k)"
  using assms by (auto simp: caches_ok_def slot_ok_def simp del: set_concat dest!: spec [of _ k])

lemma pool_invD:
  assumes "pool_inv os asz cs as w F V Q"
  shows "mg_owns os asz as w F V" and "length Q = length cs"
    and "k < length cs \<Longrightarrow> slot_ok (length as) (cs ! k) (w_mem w) V (Q ! k)"
    and "k < length cs \<Longrightarrow> l < length cs \<Longrightarrow> k \<noteq> l \<Longrightarrow> set (concat (Q ! k)) \<inter> set (concat (Q ! l)) = {}"
    and "caches_ok (length as) cs (w_mem w) V Q"
proof -
  show o: "mg_owns os asz as w F V" and c: "caches_ok (length as) cs (w_mem w) V Q" using assms by (simp_all add: pool_inv_def)
  show "length Q = length cs" by (rule caches_okD(1) [OF c])
  show "k < length cs \<Longrightarrow> slot_ok (length as) (cs ! k) (w_mem w) V (Q ! k)" by (rule caches_okD(2) [OF c])
  show "k < length cs \<Longrightarrow> l < length cs \<Longrightarrow> k \<noteq> l \<Longrightarrow> set (concat (Q ! k)) \<inter> set (concat (Q ! l)) = {}"
    by (rule caches_okD(3) [OF c])
qed

lemma pool_cache:
  assumes "pool_inv os asz cs as w F V Q" and "k < length cs" and "cs ! k = Some (p, t)"
  shows "cache_ok (length as) t (w_mem w) V (Q ! k)"
  using caches_okD(4) [OF pool_invD(5) [OF assms(1)] assms(2,3)] .

text \<open>Every block of a cache is granted, with all bytes of a class.\<close>

lemma caches_held:
  assumes inv: "caches_ok n cs m V Q" and h: "h \<in> held_by Q"
  shows "\<exists>i<40. V (to_user_ptr h) = Some (class_area i h)"
proof -
  obtain l where l: "l < length cs" "h \<in> set (concat (Q ! l))"
    using h caches_okD(1) [OF inv] by (auto simp: held_by_nth)
  have s: "slot_ok n (cs ! l) m V (Q ! l)" by (rule caches_okD(2) [OF inv l(1)])
  then obtain p t where "cs ! l = Some (p, t)" using l(2) by (cases "cs ! l") (auto simp: slot_ok_def)
  with s have "cache_ok n t m V (Q ! l)" by (simp add: slot_ok_def)
  from this l(2) obtain i where "i < 40" "held m V (int (tc_arena t)) i h" by (rule cache_ok_held)
  then show ?thesis by (auto simp: held_def)
qed

text \<open>One cache and the grants change; the other caches keep their blocks.\<close>

lemma caches_change:
  assumes inv: "caches_ok n cs m V Q" and k: "k < length cs" and slot: "slot_ok n c' m' V' q'"
    and dj: "\<And>l. l < length cs \<Longrightarrow> l \<noteq> k \<Longrightarrow> set (concat q') \<inter> set (concat (Q ! l)) = {}"
    and keep: "\<And>l h. l < length cs \<Longrightarrow> l \<noteq> k \<Longrightarrow> h \<in> set (concat (Q ! l)) \<Longrightarrow>
      V' (to_user_ptr h) = V (to_user_ptr h) \<and> W (to_user_ptr h) = V (to_user_ptr h)"
    and ag: "agree_on (granted W) m m'" and ks: "keeps_headers W m m'"
  shows "caches_ok n (cs[k := c']) m' V' (Q[k := q'])"
proof -
  note I = caches_okD [OF inv]
  have "slot_ok n (cs[k := c'] ! l) m' V' (Q[k := q'] ! l)" if l: "l < length cs" for l
  proof (cases "l = k")
    case True
    then show ?thesis using slot k I(1) by simp
  next
    case False
    have a: "V' (to_user_ptr h) = V (to_user_ptr h)" and b: "W (to_user_ptr h) = V (to_user_ptr h)"
      if "h \<in> set (concat (Q ! l))" for h using keep [OF l False that] by simp_all
    have "slot_ok n (cs ! l) m' V' (Q ! l)"
      by (rule slot_ok_step [of _ _ m V _ V' W, OF I(2) [OF l] a b ag ks])
    then show ?thesis using False by simp
  qed
  moreover have "set (concat (Q[k := q'] ! l)) \<inter> set (concat (Q[k := q'] ! j)) = {}"
    if lj: "l < length cs" "j < length cs" "l \<noteq> j" for l j
    using I(3) [OF lj] dj [OF lj(1)] dj [OF lj(2)] k I(1) lj(3)
    by (cases "l = k"; cases "j = k") (simp_all add: Int_commute)
  ultimately show ?thesis using I(1) by (simp add: caches_ok_def)
qed

text \<open>No cache changes.\<close>

lemma caches_step:
  assumes inv: "caches_ok n cs m V Q"
    and keep: "\<And>h. h \<in> held_by Q \<Longrightarrow> V' (to_user_ptr h) = V (to_user_ptr h) \<and> W (to_user_ptr h) = V (to_user_ptr h)"
    and ag: "agree_on (granted W) m m'" and ks: "keeps_headers W m m'"
  shows "caches_ok n cs m' V' Q"
proof -
  note I = caches_okD [OF inv]
  have "slot_ok n (cs ! l) m' V' (Q ! l)" if l: "l < length cs" for l
  proof -
    have hl: "h \<in> held_by Q" if "h \<in> set (concat (Q ! l))" for h
      using that l I(1) by (intro held_byI) simp_all
    have a: "V' (to_user_ptr h) = V (to_user_ptr h)" and b: "W (to_user_ptr h) = V (to_user_ptr h)"
      if "h \<in> set (concat (Q ! l))" for h using keep [OF hl [OF that]] by simp_all
    show ?thesis by (rule slot_ok_step [of _ _ m V _ V' W, OF I(2) [OF l] a b ag ks])
  qed
  then show ?thesis using I(1,3) by (simp add: caches_ok_def)
qed

text \<open>What remains for the users when one cache changes.\<close>

lemma held_by_update:
  assumes "k < length Q"
  shows "held_by (Q[k := q']) = set (concat q') \<union> (\<Union>l\<in>{..<length Q} - {k}. set (concat (Q ! l)))"
proof -
  have "{..<length Q} = insert k ({..<length Q} - {k})" using assms by blast
  then have "held_by (Q[k := q']) = (\<Union>l\<in>insert k ({..<length Q} - {k}). set (concat (Q[k := q'] ! l)))"
    by (simp only: held_by_nth length_list_update)
  moreover have "(\<Union>l\<in>{..<length Q} - {k}. set (concat (Q[k := q'] ! l))) =
    (\<Union>l\<in>{..<length Q} - {k}. set (concat (Q ! l)))"
    by (rule SUP_cong [OF refl]) (simp del: set_concat)
  ultimately show ?thesis using assms by (simp only: UN_insert nth_list_update_eq)
qed

lemma for_users_granted: "granted (for_users V Q) \<subseteq> granted V"
  by (auto simp: for_users_def granted_def ran_def restrict_map_def split: if_splits)

lemma for_users_Some: "for_users V Q p = Some A \<Longrightarrow> V p = Some A \<and> from_user_ptr p \<notin> held_by Q"
  by (force simp: for_users_def restrict_map_def split: if_splits)

lemma for_users_iff: "for_users V Q p = (if from_user_ptr p \<in> held_by Q then None else V p)"
  by (force simp: for_users_def restrict_map_def)

lemma for_users_upd:
  "from_user_ptr p \<notin> held_by Q \<Longrightarrow> for_users (V(p \<mapsto> A)) Q = (for_users V Q)(p \<mapsto> A)"
  "for_users (V(p := None)) Q = (for_users V Q)(p := None)"
  by (rule ext; simp add: for_users_iff)+

lemma at_least_one_idem [simp]: "at_least_one (at_least_one sz) = at_least_one sz"
  by (simp add: at_least_one_def)

lemma pool_arena_step:
  assumes inv: "pool_inv os asz cs as w F V Q" and own: "mg_owns os asz as' w' F' V'"
    and len: "length as' = length as"
    and keep: "\<And>h. h \<in> held_by Q \<Longrightarrow> V' (to_user_ptr h) = V (to_user_ptr h) \<and> W (to_user_ptr h) = V (to_user_ptr h)"
    and ag: "agree_on (granted W) (w_mem w) (w_mem w')" and ks: "keeps_headers W (w_mem w) (w_mem w')"
  shows "pool_inv os asz cs as' w' F' V' Q"
  using own caches_step [OF pool_invD(5) [OF inv] keep ag ks] by (simp add: pool_inv_def len)

text \<open>The arena serves the request: the caches see a block that none of them holds.\<close>

lemma pool_mg_allocate:
  assumes inv: "pool_inv os asz cs as w F V Q" and i: "i < length as" and lg: "ar_legal os (sz, al)"
  shows "\<exists>r as' w' F' V'. mg_allocate os i sz al as w = Some (r, as', w') \<and> length as' = length as \<and>
    pool_inv os asz cs as' w' F' V' Q \<and> frame_step F w F' w' \<and>
    agree_on (granted (for_users V Q)) (w_mem w) (w_mem w') \<and>
    (case r of
       Inl e \<Rightarrow> for_users V' Q = for_users V Q
     | Inr p \<Rightarrow> for_users V Q p = None \<and> p \<noteq> nullptr \<and> aligned_for al p \<and>
         sint (bh_node_id (w_mem w') (from_user_ptr p)) = int i \<and>
         for_users V' Q = (for_users V Q)(p \<mapsto> ar_area (sz, al) p))"
proof -
  note I = pool_invD [OF inv]
  obtain r as' w' F' where A: "mg_allocate os i sz al as w = Some (r, as', w')" "length as' = length as"
    "frame_step F w F' w'" "agree_on (granted V) (w_mem w) (w_mem w')" "keeps_headers V (w_mem w) (w_mem w')"
    "case r of
       Inl e \<Rightarrow> mg_owns os asz as' w' F' V
     | Inr p \<Rightarrow> V p = None \<and> p \<noteq> nullptr \<and> aligned_for al p \<and>
         sint (bh_node_id (w_mem w') (from_user_ptr p)) = int i \<and>
         mg_owns os asz as' w' F' (V(p \<mapsto> ar_area (sz, al) p))"
    using mg_allocate_ok [OF I(1) i lg] by (elim exE conjE)
  have ag: "agree_on (granted (for_users V Q)) (w_mem w) (w_mem w')"
    by (rule agree_on_mono [OF A(4) for_users_granted])
  show ?thesis
  proof (cases r)
    case (Inl e)
    then have own: "mg_owns os asz as' w' F' V" using A(6) by simp
    have "pool_inv os asz cs as' w' F' V Q"
      by (rule pool_arena_step [OF inv own A(2) _ A(4,5)]) simp
    then show ?thesis using A(1,2,3) ag Inl by auto
  next
    case (Inr p)
    let ?V' = "V(p \<mapsto> ar_area (sz, al) p)"
    have B: "V p = None" "p \<noteq> nullptr" "aligned_for al p"
      "sint (bh_node_id (w_mem w') (from_user_ptr p)) = int i" "mg_owns os asz as' w' F' ?V'"
      using A(6) Inr by simp_all
    have nh: "to_user_ptr h \<noteq> p" if "h \<in> held_by Q" for h using caches_held [OF I(5) that] B(1) by auto
    then have nq: "from_user_ptr p \<notin> held_by Q" by force
    have "pool_inv os asz cs as' w' F' ?V' Q"
      by (rule pool_arena_step [OF inv B(5) A(2) _ A(4,5)]) (use nh in simp)
    moreover have "for_users V Q p = None" using B(1) by (simp add: for_users_iff)
    ultimately show ?thesis using A(1,2,3) ag B(2-4) for_users_upd(1) [OF nq, of V] Inr
      by (intro exI [of _ r] exI [of _ as'] exI [of _ w'] exI [of _ F'] exI [of _ ?V']) simp
  qed
qed

lemma pool_mg_deallocate:
  assumes inv: "pool_inv os asz cs as w F V Q" and i: "i < length as" and p: "for_users V Q p \<noteq> None"
  shows "\<exists>as' w' F' V'. mg_deallocate os i p as w = Some (Inr (), as', w') \<and> length as' = length as \<and>
    pool_inv os asz cs as' w' F' V' Q \<and> frame_step F w F' w' \<and>
    agree_on (granted ((for_users V Q)(p := None))) (w_mem w) (w_mem w') \<and>
    for_users V' Q = (for_users V Q)(p := None)"
proof -
  note I = pool_invD [OF inv]
  have Vp: "V p \<noteq> None" and nq: "from_user_ptr p \<notin> held_by Q" using p by (auto simp: for_users_iff split: if_splits)
  obtain as' w' F' where D: "mg_deallocate os i p as w = Some (Inr (), as', w')" "length as' = length as"
    "frame_step F w F' w'" "agree_on (granted (V(p := None))) (w_mem w) (w_mem w')"
    "keeps_headers (V(p := None)) (w_mem w) (w_mem w')" "mg_owns os asz as' w' F' (V(p := None))"
    using mg_deallocate_ok [OF I(1) i Vp] by (elim exE conjE)
  have nh: "to_user_ptr h \<noteq> p" if "h \<in> held_by Q" for h using that nq by auto
  have "pool_inv os asz cs as' w' F' (V(p := None)) Q"
    by (rule pool_arena_step [OF inv D(6,2) _ D(4,5)]) (use nh in simp)
  moreover have "granted ((for_users V Q)(p := None)) \<subseteq> granted (V(p := None))"
    unfolding for_users_upd(2) [symmetric] by (rule for_users_granted)
  then have "agree_on (granted ((for_users V Q)(p := None))) (w_mem w) (w_mem w')" by (rule agree_on_mono [OF D(4)])
  ultimately show ?thesis using D(1-3) for_users_upd(2) [of V p Q] by blast
qed

lemma in_concat_nth: "x \<in> set (concat q) \<longleftrightarrow> (\<exists>j<length q. x \<in> set (q ! j))"
proof -
  have "x \<in> set (concat q) \<longleftrightarrow> (\<exists>ys\<in>set q. x \<in> set ys)" by simp
  also have "\<dots> \<longleftrightarrow> (\<exists>j<length q. x \<in> set (q ! j))" by (metis in_set_conv_nth)
  finally show ?thesis .
qed

lemma cache_bin_unique:
  assumes ok: "cache_ok n t m V q" and i: "i < 40" "h \<in> set (q ! i)" and j: "j < 40" "h \<in> set (q ! j)"
  shows "i = j"
proof -
  have "bh_size_class m h = ucast (kClassSizes ! i)" "bh_size_class m h = ucast (kClassSizes ! j)"
    using cache_okD(2) [OF ok i] cache_okD(2) [OF ok j] by (simp_all add: held_def)
  then show ?thesis using ucast_class_inj [OF i(1) j(1)] by simp
qed

lemma held_by_pop:
  assumes inv: "caches_ok n cs m V Q" and k: "k < length cs" "cs ! k = Some (s, t)"
    and i: "i < 40" and q: "(Q ! k) ! i = h # hs" and new: "h \<notin> set hs"
  shows "set (concat ((Q ! k)[i := hs])) = set (concat (Q ! k)) - {h}"
    and "held_by (Q[k := (Q ! k)[i := hs]]) = held_by Q - {h}"
proof -
  have ok: "cache_ok n t m V (Q ! k)" by (rule caches_okD(4) [OF inv k])
  then have len: "length (Q ! k) = 40" by (simp add: cache_ok_def)
  have hi: "h \<in> set ((Q ! k) ! i)" by (simp add: q)
  have "x \<in> set (concat ((Q ! k)[i := hs])) \<longleftrightarrow> x \<in> set (concat (Q ! k)) - {h}" for x
  proof -
    have "x \<in> set ((Q ! k)[i := hs] ! j) \<longleftrightarrow> x \<in> set (Q ! k ! j) \<and> x \<noteq> h" if "j < 40" for j
      using cache_bin_unique [OF ok i hi that] q new that len by (cases "j = i") auto
    then show ?thesis unfolding in_concat_nth Diff_iff using len by auto
  qed
  then show c: "set (concat ((Q ! k)[i := hs])) = set (concat (Q ! k)) - {h}" by blast
  have kQ: "k < length Q" using caches_okD(1) [OF inv] k by simp
  have hk: "h \<in> set (concat (Q ! k))" using hi i len unfolding in_concat_nth by auto
  have no: "h \<notin> set (concat (Q ! l))" if "l \<in> {..<length Q} - {k}" for l
  proof -
    have "l < length cs" "k \<noteq> l" using that caches_okD(1) [OF inv] by auto
    from caches_okD(3) [OF inv k(1) this] hk show ?thesis by blast
  qed
  have "held_by Q = held_by (Q[k := Q ! k])" by simp
  also have "\<dots> = set (concat (Q ! k)) \<union> (\<Union>l\<in>{..<length Q} - {k}. set (concat (Q ! l)))"
    by (rule held_by_update [OF kQ])
  finally have hb: "held_by Q = \<dots>" .
  show "held_by (Q[k := (Q ! k)[i := hs]]) = held_by Q - {h}"
    unfolding held_by_update [OF kQ] hb c using no by blast
qed

lemma held_mono: "set (concat q') \<subseteq> set (concat q) \<Longrightarrow> set (concat q) \<inter> B = {} \<Longrightarrow> set (concat q') \<inter> B = {}"
  by blast

lemma class_nz: "i < 40 \<Longrightarrow> (ucast (kClassSizes ! i) :: u32) \<noteq> 0"
  using ucast_class_size [of i] kClassSizes_bounds(1) [of i] by auto

text \<open>
  What the caches ask of the store that their blocks come from, so that blocks may enter and leave
  a bin: the laws of the grants, and that the bytes granted with a small block may be any part of
  its class. The store is the manager when operations run one after the other, and
  the arenas in the middle of the calls of other threads when they do not.
\<close>

locale stock =
  fixes owns :: "world \<Rightarrow> nat set \<Rightarrow> grants \<Rightarrow> bool"
  assumes stock_mapped: "owns w F V \<Longrightarrow> F \<subseteq> mapped w"
    and stock_part: "owns w F V \<Longrightarrow> V p = Some A \<Longrightarrow> A \<subseteq> F \<and> p \<noteq> nullptr"
    and stock_apart: "owns w F V \<Longrightarrow> V p = Some A \<Longrightarrow> V q = Some B \<Longrightarrow> p \<noteq> q \<Longrightarrow> A \<inter> B = {}"
    and stock_write: "owns w F V \<Longrightarrow> V p = Some A \<Longrightarrow> agree_on (- A) (w_mem w) m' \<Longrightarrow>
      owns (w\<lparr>w_mem := m'\<rparr>) F V \<and> keeps_headers V (w_mem w) m'"
    and stock_small: "owns w F V \<Longrightarrow> V p = Some A \<Longrightarrow> bh_size_class (w_mem w) (from_user_ptr p) \<noteq> 0 \<Longrightarrow>
      \<exists>j<40. bh_size_class (w_mem w) (from_user_ptr p) = ucast (kClassSizes ! j) \<and>
        16 dvd unat p \<and> from_user_ptr p \<noteq> nullptr \<and>
        (\<forall>B. B \<subseteq> bytes_of p (unat (kClassSizes ! j)) \<longrightarrow> owns w F (V(p \<mapsto> B)))"
begin

text \<open>A block leaves its bin: its user may get any part of the class.\<close>

lemma take:
  assumes own: "owns w F V" and inv: "caches_ok n cs (w_mem w) V Q" and k: "k < length cs" "cs ! k = Some (s, t)"
    and i: "i < 40" and tk: "take_cached i t (w_mem w) = (h, t')" and h: "h \<noteq> nullptr"
    and A: "A \<subseteq> class_area i h"
  shows "\<exists>V' Q'. Q' = Q[k := (Q ! k)[i := tl (Q ! k ! i)]] \<and> h = hd (Q ! k ! i) \<and>
    tc_arena t' = tc_arena t \<and> owns w F V' \<and> caches_ok n (cs[k := Some (s, t')]) (w_mem w) V' Q' \<and>
    V (to_user_ptr h) = Some (class_area i h) \<and> V' = V(to_user_ptr h \<mapsto> A) \<and> for_users V Q (to_user_ptr h) = None \<and> for_users V' Q' = (for_users V Q)(to_user_ptr h \<mapsto> A) \<and>
    to_user_ptr h \<noteq> nullptr \<and> 16 dvd unat (to_user_ptr h) \<and> bh_node_id (w_mem w) h = of_int (tc_node_id t)"
proof -
  note I = caches_okD [OF inv]
  have ok: "cache_ok n t (w_mem w) V (Q ! k)" by (rule I(4) [OF k])
  obtain hs where hs: "Q ! k ! i = h # hs" "h \<notin> set hs" "cache_ok n t' (w_mem w) V ((Q ! k)[i := hs])"
    and same: "tc_arena t' = tc_arena t"
    using take_cached_hit [OF ok i tk h] by blast
  note P = held_by_pop [OF inv k i hs(1,2)]
  have hd: "held (w_mem w) V (int (tc_arena t)) i h" using ok i hs(1) by (simp add: cache_ok_def)
  then have Vh: "V (to_user_ptr h) = Some (class_area i h)" by (simp add: held_def)
  have ne: "bh_size_class (w_mem w) (from_user_ptr (to_user_ptr h)) \<noteq> 0"
  proof
    assume "bh_size_class (w_mem w) (from_user_ptr (to_user_ptr h)) = 0"
    then have "kClassSizes ! i = 0" using hd ucast_class_size [OF i] by (simp add: held_def)
    then show False using kClassSizes_bounds(1) [OF i] by simp
  qed
  obtain j where j: "j < 40" "bh_size_class (w_mem w) h = ucast (kClassSizes ! j)" "16 dvd unat (to_user_ptr h)"
    and re: "\<And>B. B \<subseteq> class_area j h \<Longrightarrow> owns w F (V(to_user_ptr h \<mapsto> B))"
    using stock_small [OF own Vh ne] by (auto simp: class_area_def)
  have "j = i" using hd j(2) ucast_class_inj [OF i j(1)] by (simp add: held_def)
  then have own': "owns w F (V(to_user_ptr h \<mapsto> A))" using re [of A] A by simp
  let ?V' = "V(to_user_ptr h \<mapsto> A)" and ?Q' = "Q[k := (Q ! k)[i := hs]]"
  have diff: "to_user_ptr g \<noteq> to_user_ptr h" if "g \<noteq> h" for g using that by (metis from_to_user_ptr)
  have slot: "cache_ok n t' (w_mem w) ?V' ((Q ! k)[i := hs])"
  proof (rule cache_ok_step [OF hs(3), where W = V])
    show "?V' (to_user_ptr g) = V (to_user_ptr g)" if "g \<in> set (concat ((Q ! k)[i := hs]))" for g
      using that diff [of g] unfolding P(1) by simp
  qed (simp_all add: agree_on_def keeps_headers_def)
  have "caches_ok n (cs[k := Some (s, t')]) (w_mem w) ?V' ?Q'"
  proof (rule caches_change [OF inv k(1), where W = V])
    show "slot_ok n (Some (s, t')) (w_mem w) ?V' ((Q ! k)[i := hs])" using slot by (simp add: slot_ok_def)
    show "set (concat ((Q ! k)[i := hs])) \<inter> set (concat (Q ! l)) = {}" if "l < length cs" "l \<noteq> k" for l
      using I(3) [OF k(1) that(1)] that(2) unfolding P(1) by blast
    show "?V' (to_user_ptr g) = V (to_user_ptr g) \<and> V (to_user_ptr g) = V (to_user_ptr g)"
      if l: "l < length cs" "l \<noteq> k" and g: "g \<in> set (concat (Q ! l))" for l g
    proof -
      have "h \<in> set (concat (Q ! k))" using hs(1) i ok unfolding in_concat_nth by (auto simp: cache_ok_def)
      then have "g \<noteq> h" using I(3) [OF k(1) l(1)] l(2) g by blast
      then show ?thesis using diff by simp
    qed
  qed (simp_all add: agree_on_def keeps_headers_def)
  moreover have hin: "h \<in> held_by Q"
    using hs(1) i ok k I(1) unfolding in_concat_nth
    by (intro held_byI [of k]) (auto simp: cache_ok_def in_concat_nth simp del: set_concat)
  then have "for_users V Q (to_user_ptr h) = None" by (simp add: for_users_iff)
  moreover have "for_users ?V' ?Q' = (for_users V Q)(to_user_ptr h \<mapsto> A)"
    by (rule ext) (auto simp: for_users_iff P(2) from_user_ptr_eq)
  moreover have "to_user_ptr h \<noteq> nullptr" using stock_part [OF own Vh] by simp
  ultimately show ?thesis using j(3) hd ok hs(1) same own' Vh
    by (intro exI [of _ ?V'] exI [of _ ?Q']) (simp add: held_def cache_ok_def)
qed

text \<open>A block that its user returns enters the bin of its class.\<close>

lemma push:
  assumes own0: "owns w F V" and inv: "caches_ok n cs (w_mem w) V Q" and k: "k < length cs" "cs ! k = Some (s, t)"
    and p: "for_users V Q p \<noteq> None" and h: "h = from_user_ptr p" and i: "i < 40"
    and sz: "bh_size_class (w_mem w) h = ucast (kClassSizes ! i)"
    and nd: "bh_node_id (w_mem w) h = of_int (tc_node_id t)"
    and cb: "cache_block h i t (w_mem w) = (True, t', m')"
  shows "\<exists>V' Q'. owns (w\<lparr>w_mem := m'\<rparr>) F V' \<and> caches_ok n (cs[k := Some (s, t')]) m' V' Q' \<and>
    V' = V(p \<mapsto> class_area i h) \<and>
    frame_step F w F (w\<lparr>w_mem := m'\<rparr>) \<and>
    agree_on (granted ((for_users V Q)(p := None))) (w_mem w) m' \<and>
    for_users V' Q' = (for_users V Q)(p := None)"
proof -
  note I = caches_okD [OF inv]
  have ok: "cache_ok n t (w_mem w) V (Q ! k)" by (rule I(4) [OF k])
  have ph: "p = to_user_ptr h" by (simp add: h)
  obtain A where Vp: "V p = Some A" and nq: "h \<notin> held_by Q"
    using p by (auto simp: for_users_iff h split: if_splits)
  have ne: "bh_size_class (w_mem w) (from_user_ptr p) \<noteq> 0" using sz class_nz [OF i] by (simp add: h)
  obtain j where j: "j < 40" "bh_size_class (w_mem w) h = ucast (kClassSizes ! j)" "h \<noteq> nullptr"
    and re: "owns w F (V(p \<mapsto> class_area j h))"
    using stock_small [OF own0 Vp ne] by (auto simp: class_area_def h)
  have "j = i" using sz j(2) ucast_class_inj [OF i j(1)] by simp
  define V' where "V' = V(p \<mapsto> class_area i h)"
  have own: "owns w F V'" using re by (simp add: V'_def \<open>j = i\<close>)
  have V'h: "V' (to_user_ptr h) = Some (class_area i h)" by (simp add: V'_def ph)
  have new: "h \<notin> set (concat (Q ! l))" if "l < length cs" for l
    using nq held_byI [of l Q h] that I(1) by auto
  have old: "V' (to_user_ptr g) = V (to_user_ptr g)" if "g \<noteq> h" for g
    using that by (auto simp: V'_def ph) (metis from_to_user_ptr)
  have apart: "B \<inter> class_area i h = {}" if "V (to_user_ptr g) = Some B" "g \<noteq> h" for g B
  proof -
    have "V' (to_user_ptr g) = Some B" using old [OF that(2)] that(1) by simp
    moreover have "to_user_ptr g \<noteq> to_user_ptr h" using that(2) by (metis from_to_user_ptr)
    ultimately show ?thesis using stock_apart [OF own _ V'h] by blast
  qed
  have ok': "cache_ok n t (w_mem w) V' (Q ! k)"
  proof (rule cache_ok_step [OF ok, where W = V])
    show "V' (to_user_ptr g) = V (to_user_ptr g)" if "g \<in> set (concat (Q ! k))" for g
      using old [of g] new [OF k(1)] that by blast
  qed (simp_all add: agree_on_def keeps_headers_def)
  let ?m = "set_next_link h (cb_head (tc_bins t ! i)) (w_mem w)"
  have out: "agree_on (- bytes_of (to_user_ptr h) 8) (w_mem w) ?m"
    by (rule agree_onI) (simp add: fl.set_link_local)
  then have "agree_on (- class_area i h) (w_mem w) ?m" by (rule agree_on_mono) (use class_area_link [OF i] in blast)
  from stock_write [OF own V'h this] have own1: "owns (w\<lparr>w_mem := ?m\<rparr>) F V'" and ks: "keeps_headers V' (w_mem w) ?m" by simp_all
  have held: "held (w_mem w) V' (int (tc_arena t)) i h"
    using V'h sz nd cache_okD(6) [OF ok] by (simp add: held_def)
  note C = cache_block_ok [OF ok' i held j(3) new [OF k(1)] _ ks cb]
  have pre: "V' (to_user_ptr g) \<noteq> None \<and> (\<forall>A. V' (to_user_ptr g) = Some A \<longrightarrow> A \<inter> class_area i h = {})"
    if g: "g \<in> set (concat (Q ! k))" for g
  proof -
    have gh: "g \<noteq> h" using g new [OF k(1)] by blast
    have "V' (to_user_ptr g) \<noteq> None" using ok' g by (rule cache_ok_held) (simp add: held_def)
    then show ?thesis using apart [OF _ gh] old [OF gh] by auto
  qed
  note C = C [OF pre]
  have m': "m' = ?m" by (rule C(1))
  let ?q = "(Q ! k)[i := h # Q ! k ! i]" and ?w = "w\<lparr>w_mem := m'\<rparr>"
  have cc: "set (concat ?q) = insert h (set (concat (Q ! k)))"
  proof -
    have "x \<in> set (concat ?q) \<longleftrightarrow> x = h \<or> x \<in> set (concat (Q ! k))" for x
      unfolding in_concat_nth using i cache_okD(3) [OF ok] by (auto simp: nth_list_update)
    then show ?thesis by blast
  qed
  have own': "owns ?w F V'" unfolding m' by (rule own1)
  let ?W = "V(p := None)"
  have agW: "agree_on (granted ?W) (w_mem w) m'"
  proof (rule agree_onI)
    fix x assume "x \<in> granted ?W"
    then obtain g B where g: "?W g = Some B" "x \<in> B" by (auto simp: granted_def ran_def)
    then have "V (to_user_ptr (from_user_ptr g)) = Some B" "from_user_ptr g \<noteq> h"
      by (auto simp: h from_user_ptr_eq split: if_splits)
    from apart [OF this] g(2) class_area_link [OF i, of h] have "x \<notin> bytes_of (to_user_ptr h) 8" by blast
    then show "m' x = w_mem w x" unfolding m' by (rule fl.set_link_local)
  qed
  have ksW: "keeps_headers ?W (w_mem w) m'"
    using ks unfolding keeps_headers_def m' V'_def by (auto split: if_splits)
  have "caches_ok n (cs[k := Some (s, t')]) m' V' (Q[k := ?q])"
  proof (rule caches_change [OF inv k(1), where W = ?W])
    show "slot_ok n (Some (s, t')) m' V' ?q" using C(2) by (simp add: slot_ok_def)
    show "set (concat ?q) \<inter> set (concat (Q ! l)) = {}" if "l < length cs" "l \<noteq> k" for l
      using I(3) [OF k(1) that(1)] that(2) new [OF that(1)] unfolding cc by blast
    show "V' (to_user_ptr g) = V (to_user_ptr g) \<and> ?W (to_user_ptr g) = V (to_user_ptr g)"
      if l: "l < length cs" "l \<noteq> k" and g: "g \<in> set (concat (Q ! l))" for l g
    proof -
      have gh: "g \<noteq> h" using new [OF l(1)] g by blast
      then have "to_user_ptr g \<noteq> p" unfolding ph by (metis from_to_user_ptr)
      then show ?thesis using old [OF gh] by simp
    qed
  qed (use agW ksW in simp_all)
  moreover have "frame_step F w F ?w"
  proof (rule frame_step_write [OF stock_mapped [OF own0]])
    have "class_area i h \<subseteq> F" using stock_part [OF own V'h] by simp
    then show "agree_on (- F) (w_mem w) m'"
      using class_area_link [OF i, of h] unfolding m' by (intro agree_on_mono [OF out]) blast
  qed
  moreover have "granted ((for_users V Q)(p := None)) \<subseteq> granted ?W"
    unfolding for_users_upd(2) [symmetric] by (rule for_users_granted)
  then have "agree_on (granted ((for_users V Q)(p := None))) (w_mem w) m'" by (rule agree_on_mono [OF agW])
  moreover have kQ: "k < length Q" using k I(1) by simp
  have hb: "held_by (Q[k := ?q]) = insert h (held_by Q)"
  proof -
    have "held_by Q = held_by (Q[k := Q ! k])" by simp
    also have "\<dots> = set (concat (Q ! k)) \<union> (\<Union>l\<in>{..<length Q} - {k}. set (concat (Q ! l)))"
      by (rule held_by_update [OF kQ])
    finally show ?thesis unfolding held_by_update [OF kQ] cc by blast
  qed
  have "for_users V' (Q[k := ?q]) = (for_users V Q)(p := None)"
  proof
    fix x
    show "for_users V' (Q[k := ?q]) x = ((for_users V Q)(p := None)) x"
      unfolding for_users_iff fun_upd_apply hb V'_def by (auto simp: h from_user_ptr_eq)
  qed
  ultimately show ?thesis using own' V'_def by blast
qed

end

interpretation mgs: stock "mg_owns os asz as" for os asz as
proof unfold_locales
  fix w F V assume o: "mg_owns os asz as w F V"
  note L = mg_owns_laws [OF o]
  show "F \<subseteq> mapped w" by (rule L(1))
  show "A \<subseteq> F \<and> p \<noteq> nullptr" if "V p = Some A" for p A by (rule L(2) [OF that])
  show "A \<inter> B = {}" if "V p = Some A" "V q = Some B" "p \<noteq> q" for p q A B by (rule L(3) [OF that])
  show "mg_owns os asz as (w\<lparr>w_mem := m'\<rparr>) F V \<and> keeps_headers V (w_mem w) m'"
    if p: "V p = Some A" and ag: "agree_on (- A) (w_mem w) m'" for p A m'
  proof -
    have "agree_on (- granted V) (w_mem w) m'"
      using granted_part [of V p A, OF p] by (intro agree_on_mono [OF ag]) blast
    then show ?thesis using L(5) mg_owns_headers(2) [OF o] by blast
  qed
  show "\<exists>j<40. bh_size_class (w_mem w) (from_user_ptr p) = ucast (kClassSizes ! j) \<and>
      16 dvd unat p \<and> from_user_ptr p \<noteq> nullptr \<and>
      (\<forall>B. B \<subseteq> bytes_of p (unat (kClassSizes ! j)) \<longrightarrow> mg_owns os asz as w F (V(p \<mapsto> B)))"
    if "V p = Some A" "bh_size_class (w_mem w) (from_user_ptr p) \<noteq> 0" for p A
    using mg_owns_small [OF o that] by blast
qed

subsection \<open>The operations of a cache\<close>

text \<open>The header that the cache writes in a fresh block is the one that the arena wrote.\<close>

lemma rewrite_header:
  assumes "bh_node_id m h = n" and "bh_size_class m h = c" and "bh_size m h = z"
  shows "set_bh_size h z (set_bh_size_class h c (set_bh_node_id h n m)) = m"
proof -
  have "set_bh_node_id h n m = m" "set_bh_size_class h c m = m" "set_bh_size h z m = m"
    by (simp_all add: assms [symmetric] header_field_defs store32_same store64_same)
  then show ?thesis by simp
qed

lemma mg_allocate_header:
  assumes o: "mg_owns os asz as w F U" and i: "i < length as" and sm: "is_small (at_least_one sz) al"
    and ci: "class_index_for_size (at_least_one sz) = Inr ci"
    and ml: "mg_allocate os i sz al as w = Some (Inr p, as', w')"
  shows "bh_node_id (w_mem w') (from_user_ptr p) = of_int (int i)"
    and "bh_size_class (w_mem w') (from_user_ptr p) = ucast (kClassSizes ! unat ci)"
    and "bh_size (w_mem w') (from_user_ptr p) = 0"
proof -
  obtain ar' where a: "ar_allocate os sz al (snd (as ! i)) w = Some (Inr p, ar', w')"
    using ml by (auto simp: mg_allocate_def split: option.splits)
  have "ar_node_id (snd (as ! i)) = int i"
    using o i unfolding mg_owns_def mg_inv_def by auto
  with ar_allocate_header [OF a sm] ci
  show "bh_node_id (w_mem w') (from_user_ptr p) = of_int (int i)"
    and "bh_size_class (w_mem w') (from_user_ptr p) = ucast (kClassSizes ! unat ci)"
    and "bh_size (w_mem w') (from_user_ptr p) = 0" by auto
qed

lemma ar_legal_at_least_one [simp]: "ar_legal os (at_least_one sz, al) = ar_legal os (sz, al)"
  by (simp add: ar_legal_def)

lemma ar_area_at_least_one [simp]: "ar_area (at_least_one sz, al) p = ar_area (sz, al) p"
  by (simp add: ar_area_def)

lemma pool_allocate:
  assumes inv: "pool_inv os asz cs as w F V Q" and k: "k < length cs" "cs ! k = Some (s, t)"
    and lg: "ar_legal os (sz, al)" and nd: "length as \<le> 2 ^ 31"
  shows "\<exists>r t' as' w' F' V' Q'. tc_allocate os sz al t as w = Some (r, t', as', w') \<and> length as' = length as \<and>
    pool_inv os asz (cs[k := Some (s, t')]) as' w' F' V' Q' \<and> frame_step F w F' w' \<and>
    agree_on (granted (for_users V Q)) (w_mem w) (w_mem w') \<and>
    (case r of
       Inl e \<Rightarrow> for_users V' Q' = for_users V Q
     | Inr p \<Rightarrow> for_users V Q p = None \<and> p \<noteq> nullptr \<and> aligned_for al p \<and>
         sint (bh_node_id (w_mem w') (from_user_ptr p)) = tc_node_id t \<and>
         for_users V' Q' = (for_users V Q)(p \<mapsto> ar_area (sz, al) p))"
proof -
  note I = pool_invD [OF inv]
  have ok: "cache_ok (length as) t (w_mem w) V (Q ! k)" by (rule pool_cache [OF inv k])
  have i: "tc_arena t < length as" and node: "tc_node_id t = int (tc_arena t)"
    using cache_okD(5,6) [OF ok] by simp_all
  have self: "cs[k := Some (s, t)] = cs" using k(2) list_update_id [of cs k] by simp
  have arena: ?thesis
    if run: "\<And>r as' w'. mg_allocate os (tc_arena t) sz' al as w = Some (r, as', w') \<Longrightarrow>
        tc_allocate os sz al t as w = Some (r, t, as', w')"
      and sz': "sz' = sz \<or> sz' = at_least_one sz" for sz'
  proof -
    have lg': "ar_legal os (sz', al)" and ar': "ar_area (sz', al) = ar_area (sz, al)"
      using lg sz' by (auto simp: fun_eq_iff)
    obtain r as' w' F' V' where M: "mg_allocate os (tc_arena t) sz' al as w = Some (r, as', w')"
      "length as' = length as" "pool_inv os asz cs as' w' F' V' Q" "frame_step F w F' w'"
      "agree_on (granted (for_users V Q)) (w_mem w) (w_mem w')"
      "case r of
         Inl e \<Rightarrow> for_users V' Q = for_users V Q
       | Inr p \<Rightarrow> for_users V Q p = None \<and> p \<noteq> nullptr \<and> aligned_for al p \<and>
           sint (bh_node_id (w_mem w') (from_user_ptr p)) = int (tc_arena t) \<and>
           for_users V' Q = (for_users V Q)(p \<mapsto> ar_area (sz', al) p)"
      using pool_mg_allocate [OF inv i lg'] by (elim exE conjE)
    show ?thesis using run [OF M(1)] M(2-6) self unfolding ar' node
      by (intro exI [of _ r] exI [of _ t] exI [of _ as'] exI [of _ w'] exI [of _ F'] exI [of _ V'] exI [of _ Q]) simp
  qed
  let ?n = "at_least_one sz"
  consider "\<not> tc_use t" | "tc_use t" "\<not> is_small ?n al" | "tc_use t" "is_small ?n al" by blast
  then show ?thesis
  proof cases
    case 1
    show ?thesis by (rule arena [of sz]) (use 1 in \<open>simp_all add: tc_allocate_def\<close>)
  next
    case 2
    have "tc_allocate os sz al t as w = Some (r, t, as', w')"
      if "mg_allocate os (tc_arena t) ?n al as w = Some (r, as', w')" for r as' w'
      using 2 that by (simp add: tc_allocate_def at_least_one_def [symmetric] is_small_def [symmetric] Let_def)
    then show ?thesis by (rule arena [of ?n]) simp_all
  next
    case 3
    obtain ci where ci: "class_index_for_size ?n = Inr ci" "unat ci < 40" "unat ?n \<le> unat (kClassSizes ! unat ci)"
      using small_class [OF 3(2)] by blast
    obtain h t1 where tk: "take_cached (unat ci) t (w_mem w) = (h, t1)" by fastforce
    have sm: "?n \<le> SMALL_LARGE_THRESHOLD \<and> al \<le> ALIGNMENT" using 3(2) by (simp add: is_small_def)
    show ?thesis
    proof (cases "h = nullptr")
      case True
      have t1: "t1 = t" by (rule take_cached_miss [OF tk True])
      show ?thesis
      proof (rule arena [of ?n])
        fix r as' w' assume M: "mg_allocate os (tc_arena t) ?n al as w = Some (r, as', w')"
        show "tc_allocate os sz al t as w = Some (r, t, as', w')"
        proof (cases r)
          case (Inl e)
          then show ?thesis using 3 ci sm tk t1 True M by (simp add: tc_allocate_def at_least_one_def [symmetric])
        next
          case (Inr p)
          have s': "is_small (at_least_one ?n) al" "class_index_for_size (at_least_one ?n) = Inr ci"
            using 3 ci by simp_all
          note H = mg_allocate_header [OF I(1) i s' M [unfolded Inr]]
          have "set_bh_size (from_user_ptr p) 0 (set_bh_size_class (from_user_ptr p) (ucast (kClassSizes ! unat ci))
              (set_bh_node_id (from_user_ptr p) (of_int (tc_node_id t)) (w_mem w'))) = w_mem w'"
            unfolding node by (rule rewrite_header [OF H])
          then show ?thesis using 3 ci sm tk t1 True M Inr
            by (simp add: tc_allocate_def at_least_one_def [symmetric])
        qed
      qed simp
    next
      case False
      have A: "ar_area (sz, al) (to_user_ptr h) \<subseteq> class_area (unat ci) h"
        using ci(3) by (auto simp: ar_area_def class_area_def bytes_of_def)
      obtain V' Q' where "Q' = Q[k := (Q ! k)[unat ci := tl (Q ! k ! unat ci)]]" "h = hd (Q ! k ! unat ci)"
        "tc_arena t1 = tc_arena t" and P: "pool_inv os asz (cs[k := Some (s, t1)]) as w F V' Q'"
        "for_users V Q (to_user_ptr h) = None"
        "for_users V' Q' = (for_users V Q)(to_user_ptr h \<mapsto> ar_area (sz, al) (to_user_ptr h))"
        "to_user_ptr h \<noteq> nullptr" "16 dvd unat (to_user_ptr h)" "bh_node_id (w_mem w) h = of_int (tc_node_id t)"
        using mgs.take [OF I(1,5) k ci(2) tk False A] by (auto simp: pool_inv_def)
      have run: "tc_allocate os sz al t as w = Some (Inr (to_user_ptr h), t1, as, w)"
        using 3 ci sm tk False by (simp add: tc_allocate_def at_least_one_def [symmetric])
      have "aligned_for al (to_user_ptr h)"
        using P(5) sm by (simp add: aligned_for_def size_consts word_le_nat_alt)
      moreover have "sint (bh_node_id (w_mem w) h) = tc_node_id t"
        unfolding P(6) using node i nd by (intro sint_of_int32) simp_all
      moreover have "frame_step F w F w" by (rule frame_step_refl [OF mg_owns_laws(1) [OF I(1)]])
      ultimately show ?thesis using run P(1-4)
        by (intro exI [of _ "Inr (to_user_ptr h)"] exI [of _ t1] exI [of _ as] exI [of _ w] exI [of _ F]
            exI [of _ V'] exI [of _ Q']) simp
    qed
  qed
qed

lemma pool_deallocate:
  assumes inv: "pool_inv os asz cs as w F V Q" and k: "k < length cs" "cs ! k = Some (s, t)"
    and p: "for_users V Q p \<noteq> None"
  shows "\<exists>t' as' w' F' V' Q'. tc_deallocate os p t as w = Some (Inr (), t', as', w') \<and> length as' = length as \<and>
    pool_inv os asz (cs[k := Some (s, t')]) as' w' F' V' Q' \<and> frame_step F w F' w' \<and>
    agree_on (granted ((for_users V Q)(p := None))) (w_mem w) (w_mem w') \<and>
    for_users V' Q' = (for_users V Q)(p := None)"
proof -
  note I = pool_invD [OF inv]
  have ok: "cache_ok (length as) t (w_mem w) V (Q ! k)" by (rule pool_cache [OF inv k])
  have i: "tc_arena t < length as" and node: "tc_node_id t = int (tc_arena t)"
    using cache_okD(5,6) [OF ok] by simp_all
  have self: "cs[k := Some (s, t)] = cs" using k(2) list_update_id [of cs k] by simp
  obtain A where Vp: "V p = Some A" using p by (auto simp: for_users_iff split: if_splits)
  have nn: "p \<noteq> nullptr" using mg_owns_laws(2) [OF I(1) Vp] by simp
  let ?h = "from_user_ptr p"
  have arena: ?thesis
    if run: "\<And>r as' w'. mg_deallocate os (tc_arena t) p as w = Some (r, as', w') \<Longrightarrow>
        tc_deallocate os p t as w = Some (r, t, as', w')"
  proof -
    obtain as' w' F' V' where M: "mg_deallocate os (tc_arena t) p as w = Some (Inr (), as', w')"
      "length as' = length as" "pool_inv os asz cs as' w' F' V' Q" "frame_step F w F' w'"
      "agree_on (granted ((for_users V Q)(p := None))) (w_mem w) (w_mem w')"
      "for_users V' Q = (for_users V Q)(p := None)"
      using pool_mg_deallocate [OF inv i p] by (elim exE conjE)
    show ?thesis using run [OF M(1)] M(2-6) self
      by (intro exI [of _ t] exI [of _ as'] exI [of _ w'] exI [of _ F'] exI [of _ V'] exI [of _ Q]) simp
  qed
  show ?thesis
  proof (cases "\<not> tc_use t \<or> bh_size_class (w_mem w) ?h = 0 \<or> sint (bh_node_id (w_mem w) ?h) \<noteq> tc_node_id t")
    case True
    show ?thesis by (rule arena) (use True nn in \<open>simp add: tc_deallocate_def\<close>)
  next
    case False
    then have ne: "bh_size_class (w_mem w) ?h \<noteq> 0" and nd: "sint (bh_node_id (w_mem w) ?h) = tc_node_id t" by simp_all
    obtain j where j: "j < 40" "bh_size_class (w_mem w) ?h = ucast (kClassSizes ! j)"
      using mg_owns_small [OF I(1) Vp ne] by blast
    have ci: "class_index_for_size (ucast (bh_size_class (w_mem w) ?h)) = Inr (of_nat j)"
      using ucast_class_size [OF j(1)] class_index_of_class [OF j(1)] by (simp add: j(2))
    have ju: "unat (of_nat j :: u64) = j" using j(1) by (simp add: unat_of_nat_u64)
    obtain b t1 m1 where cb: "cache_block ?h j t (w_mem w) = (b, t1, m1)" by (metis prod_cases3)
    show ?thesis
    proof (cases b)
      case True
      have nd': "bh_node_id (w_mem w) ?h = of_int (tc_node_id t)"
        using arg_cong [OF nd, of "of_int :: int \<Rightarrow> u32"] by simp
      have cb': "cache_block ?h j t (w_mem w) = (True, t1, m1)" using cb True by simp
      obtain V' Q' where P: "pool_inv os asz (cs[k := Some (s, t1)]) as (w\<lparr>w_mem := m1\<rparr>) F V' Q'"
        "frame_step F w F (w\<lparr>w_mem := m1\<rparr>)" "agree_on (granted ((for_users V Q)(p := None))) (w_mem w) m1"
        "for_users V' Q' = (for_users V Q)(p := None)"
        using mgs.push [OF I(1,5) k p refl j nd' cb'] by (auto simp: pool_inv_def)
      have "tc_deallocate os p t as w = Some (Inr (), t1, as, w\<lparr>w_mem := m1\<rparr>)"
        using False nn ci ju cb True by (simp add: tc_deallocate_def)
      then show ?thesis using P
        by (intro exI [of _ t1] exI [of _ as] exI [of _ "w\<lparr>w_mem := m1\<rparr>"] exI [of _ F] exI [of _ V'] exI [of _ Q']) simp
    next
      case full: False
      show ?thesis by (rule arena) (use False full nn ci ju cb in \<open>simp add: tc_deallocate_def\<close>)
    qed
  qed
qed

subsection \<open>Flushing a cache\<close>

lemma take_cached_bin:
  assumes "take_cached i t m = (h, t')" and "h \<noteq> nullptr"
  shows "h = cb_head (tc_bins t ! i)"
    and "t' = t\<lparr>tc_bins := (tc_bins t)[i := (tc_bins t ! i)\<lparr>cb_head := next_link m h,
      cb_count := cb_count (tc_bins t ! i) - 1,
      cb_bytes := cb_bytes (tc_bins t ! i) - ucast (bh_size_class m h)\<rparr>]\<rparr>"
  using assms by (auto simp: take_cached_def Let_def split: if_splits)

lemma flush_bin_ok:
  assumes "pool_inv os asz cs as w F V Q" and "k < length cs" and "cs ! k = Some (s, t)" and "i < 40"
  shows "\<exists>as' w' F' V'. flush_bin os (tc_arena t) (tc_bins t ! i) as w = Some (empty_cache_bin, as', w') \<and>
    length as' = length as \<and>
    pool_inv os asz (cs[k := Some (s, t\<lparr>tc_bins := (tc_bins t)[i := empty_cache_bin]\<rparr>)]) as' w' F' V'
      (Q[k := (Q ! k)[i := []]]) \<and>
    frame_step F w F' w' \<and> agree_on (granted (for_users V Q)) (w_mem w) (w_mem w') \<and>
    for_users V' (Q[k := (Q ! k)[i := []]]) = for_users V Q"
  using assms
proof (induction "length (Q ! k ! i)" arbitrary: cs "as" w F V Q t)
  case 0
  note inv = "0.prems"(1) and k = "0.prems"(2,3) and i = "0.prems"(4)
  have ok: "cache_ok (length as) t (w_mem w) V (Q ! k)" by (rule pool_cache [OF inv k])
  have q: "Q ! k ! i = []" using 0 by simp
  have b: "cache_bin_ok (w_mem w) i (tc_bins t ! i) []" using cache_okD(1) [OF ok i] by (simp add: q)
  have e: "tc_bins t ! i = empty_cache_bin"
    using b by (cases "tc_bins t ! i") (simp add: cache_bin_ok_def empty_cache_bin_def unat_eq_0)
  have self: "(tc_bins t)[i := empty_cache_bin] = tc_bins t" "(Q ! k)[i := []] = Q ! k" "Q[k := Q ! k] = Q"
    using list_update_id [of "tc_bins t" i] list_update_id [of "Q ! k" i] by (simp_all add: e q)
  have self': "cs[k := Some (s, t\<lparr>tc_bins := (tc_bins t)[i := empty_cache_bin]\<rparr>)] = cs"
    unfolding self(1) using k(2) list_update_id [of cs k] by simp
  have "flush_bin os (tc_arena t) (tc_bins t ! i) as w = Some (empty_cache_bin, as, w)"
    by (subst flush_bin.simps) (simp add: e empty_cache_bin_def)
  moreover have "frame_step F w F w" by (rule frame_step_refl [OF mg_owns_laws(1) [OF pool_invD(1) [OF inv]]])
  moreover have "agree_on (granted (for_users V Q)) (w_mem w) (w_mem w)" by (simp add: agree_on_def)
  ultimately show ?case using inv unfolding self' self(2,3) by blast
next
  case (Suc d)
  note inv = Suc.prems(1) and k = Suc.prems(2,3) and i = Suc.prems(4)
  note I = pool_invD [OF inv]
  have ok: "cache_ok (length as) t (w_mem w) V (Q ! k)" by (rule pool_cache [OF inv k])
  have kQ: "k < length Q" using k(1) I(2) by simp
  have lenq: "length (Q ! k) = 40" by (rule cache_okD(3) [OF ok])
  obtain h hs where q: "Q ! k ! i = h # hs" using Suc.hyps(2) by (cases "Q ! k ! i") auto
  have b: "cache_bin_ok (w_mem w) i (tc_bins t ! i) (h # hs)" using cache_okD(1) [OF ok i] by (simp add: q)
  then have hd: "cb_head (tc_bins t ! i) = h" "h \<noteq> nullptr" by (auto simp: cache_bin_ok_def)
  obtain t1 where tk: "take_cached i t (w_mem w) = (h, t1)"
    using hd by (auto simp: take_cached_def Let_def)
  note T = take_cached_bin [OF tk hd(2)]
  obtain V1 where P: "pool_inv os asz (cs[k := Some (s, t1)]) as w F V1 (Q[k := (Q ! k)[i := hs]])"
    "for_users V Q (to_user_ptr h) = None"
    "for_users V1 (Q[k := (Q ! k)[i := hs]]) = (for_users V Q)(to_user_ptr h \<mapsto> class_area i h)"
    using mgs.take [OF pool_invD(1,5) [OF inv] k i tk hd(2) subset_refl] unfolding q list.sel by (auto simp: pool_inv_def)
  let ?cs = "cs[k := Some (s, t1)]" and ?Q = "Q[k := (Q ! k)[i := hs]]"
  have ar: "tc_arena t1 = tc_arena t" by (simp add: T(2))
  have al: "tc_arena t < length as" by (rule cache_okD(5) [OF ok])
  have "for_users V1 ?Q (to_user_ptr h) \<noteq> None" by (simp add: P(3))
  from pool_mg_deallocate [OF P(1) al this] obtain as2 w2 F2 V2 where
    M: "mg_deallocate os (tc_arena t) (to_user_ptr h) as w = Some (Inr (), as2, w2)" "length as2 = length as"
    "pool_inv os asz ?cs as2 w2 F2 V2 ?Q" "frame_step F w F2 w2"
    "agree_on (granted ((for_users V1 ?Q)(to_user_ptr h := None))) (w_mem w) (w_mem w2)"
    "for_users V2 ?Q = (for_users V1 ?Q)(to_user_ptr h := None)" by (elim exE conjE)
  have same: "(for_users V1 ?Q)(to_user_ptr h := None) = for_users V Q"
    unfolding P(3) using P(2) by (auto simp: fun_eq_iff)
  have k1: "k < length ?cs" "?cs ! k = Some (s, t1)" using k(1) by simp_all
  have qk: "?Q ! k = (Q ! k)[i := hs]" "?Q ! k ! i = hs" using kQ lenq i by simp_all
  have "d = length (?Q ! k ! i)" using Suc.hyps(2) unfolding qk(2) q by simp
  from Suc.hyps(1) [OF this M(3) k1 i] obtain as' w' F' V' where
    R: "flush_bin os (tc_arena t1) (tc_bins t1 ! i) as2 w2 = Some (empty_cache_bin, as', w')"
    "length as' = length as2"
    "pool_inv os asz (?cs[k := Some (s, t1\<lparr>tc_bins := (tc_bins t1)[i := empty_cache_bin]\<rparr>)]) as' w' F' V'
      (?Q[k := (?Q ! k)[i := []]])"
    "frame_step F2 w2 F' w'" "agree_on (granted (for_users V2 ?Q)) (w_mem w2) (w_mem w')"
    "for_users V' (?Q[k := (?Q ! k)[i := []]]) = for_users V2 ?Q" by (elim exE conjE)
  have lb: "length (tc_bins t) = 40" by (rule cache_okD(4) [OF ok])
  have "flush_bin os (tc_arena t) (tc_bins t ! i) as w = flush_bin os (tc_arena t1) (tc_bins t1 ! i) as2 w2"
    using hd M(1) i lb by (subst flush_bin.simps) (simp add: T(2) Let_def)
  moreover have e1: "?Q[k := (?Q ! k)[i := []]] = Q[k := (Q ! k)[i := []]]" using kQ by (simp add: qk)
  moreover have e2: "?cs[k := Some (s, t1\<lparr>tc_bins := (tc_bins t1)[i := empty_cache_bin]\<rparr>)] =
    cs[k := Some (s, t\<lparr>tc_bins := (tc_bins t)[i := empty_cache_bin]\<rparr>)]" by (simp add: T(2))
  moreover have "frame_step F w F' w'" by (rule frame_step_trans [OF M(4) R(4)])
  moreover have "agree_on (granted (for_users V Q)) (w_mem w) (w_mem w')"
    using agree_on_trans [OF M(5) R(5) [unfolded M(6)]] unfolding same .
  ultimately show ?case using R(1-3,6) M(2,6) same
    by (intro exI [of _ as'] exI [of _ w'] exI [of _ F'] exI [of _ V']) simp
qed

lemma flush_bins_ok:
  assumes "pool_inv os asz cs as w F V Q" and "k < length cs" and "cs ! k = Some (s, t)" and "i \<le> 40"
  shows "\<exists>as' w' F' V'. flush_bins os (tc_arena t) (drop i (tc_bins t)) as w =
      Some (replicate (40 - i) empty_cache_bin, as', w') \<and> length as' = length as \<and>
    pool_inv os asz (cs[k := Some (s, t\<lparr>tc_bins := take i (tc_bins t) @ replicate (40 - i) empty_cache_bin\<rparr>)])
      as' w' F' V' (Q[k := take i (Q ! k) @ replicate (40 - i) []]) \<and>
    frame_step F w F' w' \<and> agree_on (granted (for_users V Q)) (w_mem w) (w_mem w') \<and>
    for_users V' (Q[k := take i (Q ! k) @ replicate (40 - i) []]) = for_users V Q"
  using assms
proof (induction "40 - i" arbitrary: i cs "as" w F V Q t)
  case 0
  then have i: "i = 40" by simp
  note inv = "0.prems"(1) and k = "0.prems"(2,3)
  have ok: "cache_ok (length as) t (w_mem w) V (Q ! k)" by (rule pool_cache [OF inv k])
  have len: "length (Q ! k) = 40" "length (tc_bins t) = 40" using cache_okD(3,4) [OF ok] by simp_all
  have self: "cs[k := Some (s, t)] = cs" using k(2) list_update_id [of cs k] by simp
  have "frame_step F w F w" by (rule frame_step_refl [OF mg_owns_laws(1) [OF pool_invD(1) [OF inv]]])
  then show ?case using inv len self i
    by (intro exI [of _ as] exI [of _ w] exI [of _ F] exI [of _ V]) (simp add: agree_on_def)
next
  case (Suc d)
  note inv = Suc.prems(1) and k = Suc.prems(2,3)
  have i: "i < 40" using Suc.hyps(2) by simp
  have ok: "cache_ok (length as) t (w_mem w) V (Q ! k)" by (rule pool_cache [OF inv k])
  have len: "length (Q ! k) = 40" "length (tc_bins t) = 40" using cache_okD(3,4) [OF ok] by simp_all
  have kQ: "k < length Q" using k(1) pool_invD(2) [OF inv] by simp
  let ?t = "t\<lparr>tc_bins := (tc_bins t)[i := empty_cache_bin]\<rparr>" and ?Q = "Q[k := (Q ! k)[i := []]]"
  let ?cs = "cs[k := Some (s, ?t)]"
  obtain as1 w1 F1 V1 where B: "flush_bin os (tc_arena t) (tc_bins t ! i) as w = Some (empty_cache_bin, as1, w1)"
    "length as1 = length as" "pool_inv os asz ?cs as1 w1 F1 V1 ?Q" "frame_step F w F1 w1"
    "agree_on (granted (for_users V Q)) (w_mem w) (w_mem w1)" "for_users V1 ?Q = for_users V Q"
    using flush_bin_ok [OF inv k i] by (elim exE conjE)
  have k1: "k < length ?cs" "?cs ! k = Some (s, ?t)" and d: "d = 40 - Suc i" "Suc i \<le> 40"
    using k(1) Suc.hyps(2) by simp_all
  have bins: "drop (Suc i) (tc_bins ?t) = drop (Suc i) (tc_bins t)"
    "take (Suc i) (tc_bins ?t) @ replicate (40 - Suc i) empty_cache_bin = take i (tc_bins t) @ replicate (40 - i) empty_cache_bin"
    using i len d Suc.hyps(2) by (simp_all add: take_Suc_conv_app_nth flip: replicate_Suc)
  have qs: "take (Suc i) (?Q ! k) @ replicate (40 - Suc i) [] = take i (Q ! k) @ replicate (40 - i) []"
    using i len d Suc.hyps(2) kQ by (simp add: take_Suc_conv_app_nth flip: replicate_Suc)
  obtain as' w' F' V' where R: "flush_bins os (tc_arena ?t) (drop (Suc i) (tc_bins ?t)) as1 w1 =
      Some (replicate (40 - Suc i) empty_cache_bin, as', w')" "length as' = length as1"
    "pool_inv os asz (?cs[k := Some (s, ?t\<lparr>tc_bins := take (Suc i) (tc_bins ?t) @ replicate (40 - Suc i) empty_cache_bin\<rparr>)])
      as' w' F' V' (?Q[k := take (Suc i) (?Q ! k) @ replicate (40 - Suc i) []])"
    "frame_step F1 w1 F' w'" "agree_on (granted (for_users V1 ?Q)) (w_mem w1) (w_mem w')"
    "for_users V' (?Q[k := take (Suc i) (?Q ! k) @ replicate (40 - Suc i) []]) = for_users V1 ?Q"
    using Suc.hyps(1) [OF d(1) B(3) k1 d(2)] by (elim exE conjE)
  have "drop i (tc_bins t) = tc_bins t ! i # drop (Suc i) (tc_bins t)" using i len by (simp add: Cons_nth_drop_Suc)
  then have "flush_bins os (tc_arena t) (drop i (tc_bins t)) as w =
      Some (replicate (40 - i) empty_cache_bin, as', w')"
    using B(1) R(1) Suc.hyps(2) d by (simp add: bins flip: replicate_Suc)
  moreover have "frame_step F w F' w'" by (rule frame_step_trans [OF B(4) R(4)])
  moreover have "agree_on (granted (for_users V Q)) (w_mem w) (w_mem w')"
    using agree_on_trans [OF B(5) R(5) [unfolded B(6)]] .
  ultimately show ?case using R(2,3,6) B(2,6) unfolding bins qs list_update_overwrite by auto
qed

text \<open>\<open>flush\<close> returns every cached block to its arena; the users notice nothing.\<close>

lemma tc_flush_ok:
  assumes inv: "pool_inv os asz cs as w F V Q" and k: "k < length cs" "cs ! k = Some (s, t)"
  shows "\<exists>as' w' F' V' Q'. tc_flush os t as w = Some (t\<lparr>tc_bins := replicate 40 empty_cache_bin\<rparr>, as', w') \<and>
    length as' = length as \<and> concat (Q' ! k) = [] \<and>
    pool_inv os asz (cs[k := Some (s, t\<lparr>tc_bins := replicate 40 empty_cache_bin\<rparr>)]) as' w' F' V' Q' \<and>
    frame_step F w F' w' \<and> agree_on (granted (for_users V Q)) (w_mem w) (w_mem w') \<and>
    for_users V' Q' = for_users V Q"
proof -
  have kQ: "k < length Q" using k(1) pool_invD(2) [OF inv] by simp
  from flush_bins_ok [OF inv k, of 0] obtain as' w' F' V' where
    "flush_bins os (tc_arena t) (tc_bins t) as w = Some (replicate 40 empty_cache_bin, as', w')"
    "length as' = length as"
    "pool_inv os asz (cs[k := Some (s, t\<lparr>tc_bins := replicate 40 empty_cache_bin\<rparr>)]) as' w' F' V' (Q[k := replicate 40 []])"
    "frame_step F w F' w'" "agree_on (granted (for_users V Q)) (w_mem w) (w_mem w')"
    "for_users V' (Q[k := replicate 40 []]) = for_users V Q" by auto
  moreover have "concat (Q[k := replicate 40 []] ! k) = []" using kQ by simp
  ultimately show ?thesis by (auto simp: tc_flush_def)
qed

lemma slot_holds:
  assumes s: "slot_ok n c m V q" and h: "i < length q" "from_user_ptr p \<in> set (q ! i)"
  shows "V p = Some (class_area i (from_user_ptr p))"
proof (cases c)
  case None
  then have "q ! i = []" using s nth_mem [OF h(1)] by (simp add: slot_ok_def)
  then show ?thesis using h(2) by simp
next
  case (Some a)
  then have "held m V (int (tc_arena (snd a))) i (from_user_ptr p)" using s h
    by (cases a) (auto simp: slot_ok_def cache_ok_def)
  then show ?thesis by (simp add: held_def)
qed

text \<open>\<open>flush\<close> returns the blocks of its cache, these and no others.\<close>

lemma tc_flush_exact:
  assumes inv: "pool_inv os asz cs as w F V Q" and k: "k < length cs" "cs ! k = Some (s, t)"
  shows "\<exists>as' w' F'. tc_flush os t as w = Some (t\<lparr>tc_bins := replicate 40 empty_cache_bin\<rparr>, as', w') \<and>
    length as' = length as \<and>
    pool_inv os asz (cs[k := Some (s, t\<lparr>tc_bins := replicate 40 empty_cache_bin\<rparr>)]) as' w' F'
      (V |` (- to_user_ptr ` set (concat (Q ! k)))) (Q[k := replicate 40 []]) \<and>
    frame_step F w F' w' \<and> agree_on (granted (for_users V Q)) (w_mem w) (w_mem w')"
proof -
  let ?Q = "Q[k := replicate 40 []]" and ?t = "t\<lparr>tc_bins := replicate 40 empty_cache_bin\<rparr>"
  let ?W = "V |` (- to_user_ptr ` set (concat (Q ! k)))"
  have kQ: "k < length Q" using k(1) pool_invD(2) [OF inv] by simp
  from flush_bins_ok [OF inv k, of 0] obtain as' w' F' V' where R:
    "flush_bins os (tc_arena t) (tc_bins t) as w = Some (replicate 40 empty_cache_bin, as', w')"
    "length as' = length as" "pool_inv os asz (cs[k := Some (s, ?t)]) as' w' F' V' ?Q"
    "frame_step F w F' w'" "agree_on (granted (for_users V Q)) (w_mem w) (w_mem w')" "for_users V' ?Q = for_users V Q" by auto
  note C = pool_invD(5) [OF inv] and C' = pool_invD(5) [OF R(3)]
  have H: "held_by Q = held_by ?Q \<union> set (concat (Q ! k))" using held_by_update [OF kQ, of "Q ! k"] held_by_update [OF kQ, of "replicate 40 []"] by auto
  have at: "(p \<in> to_user_ptr ` X) = (from_user_ptr p \<in> X)" for p X by force
  have "V' p = ?W p" for p
  proof (cases "from_user_ptr p \<in> held_by ?Q")
    case False
    then have "V' p = for_users V Q p" using R(6) by (metis for_users_iff)
    then show ?thesis using False by (simp add: for_users_iff H restrict_map_def at)
  next
    case True
    then obtain l i where l0: "l < length Q" "i < length (?Q ! l)" "from_user_ptr p \<in> set (?Q ! l ! i)"
      by (auto simp: held_by_def in_set_conv_nth [of _ ?Q] in_set_conv_nth [of _ "?Q ! _"])
    then have "l \<noteq> k" using kQ by auto
    with l0 have l: "l < length Q" "l \<noteq> k" "i < length (Q ! l)" "from_user_ptr p \<in> set (Q ! l ! i)" by simp_all
    then have x: "?Q ! l = Q ! l" "l < length cs" using pool_invD(2) [OF inv] by simp_all
    have "from_user_ptr p \<in> set (concat (Q ! l))" using l(3,4) by auto
    then have n: "from_user_ptr p \<notin> set (concat (Q ! k))" using C k(1) l(2) x(2) unfolding caches_ok_def by blast
    have "slot_ok (length as) (cs ! l) (w_mem w) V (Q ! l)" using C x(2) by (simp add: caches_ok_def)
    from slot_holds [OF this l(3,4)] have a: "V p = Some (class_area i (from_user_ptr p))" .
    have "slot_ok (length as') (cs ! l) (w_mem w') V' (Q ! l)" using C' x(2) l(2) x(1) by (fastforce simp: caches_ok_def)
    from slot_holds [OF this l(3,4)] have "V' p = Some (class_area i (from_user_ptr p))" .
    with a n show ?thesis by (simp add: restrict_map_def at)
  qed
  then have "V' = ?W" ..
  with R show ?thesis by (auto simp: tc_flush_def)
qed

text \<open>A cache that holds nothing can be forgotten.\<close>

lemma caches_drop:
  assumes inv: "caches_ok n cs m V Q" and k: "k < length cs" and e: "concat (Q ! k) = []"
  shows "caches_ok n (cs[k := None]) m V Q"
proof -
  have "caches_ok n (cs[k := None]) m V (Q[k := Q ! k])"
  proof (rule caches_change [OF inv k, where W = V])
    show "slot_ok n None m V (Q ! k)" using e by (simp add: slot_ok_def)
    show "set (concat (Q ! k)) \<inter> set (concat (Q ! l)) = {}" for l unfolding e by simp
  qed (simp_all add: agree_on_def keeps_headers_def)
  then show ?thesis by simp
qed

lemma pool_drop:
  assumes "pool_inv os asz cs as w F V Q" and "k < length cs" and "concat (Q ! k) = []"
  shows "pool_inv os asz (cs[k := None]) as w F V Q"
  using caches_drop [OF pool_invD(5) [OF assms(1)] assms(2,3)] assms(1) by (simp add: pool_inv_def)

text \<open>A new cache holds nothing.\<close>

lemma tc_new_ok:
  assumes "i < n"
  shows "cache_ok n (tc_new i (int i) use) m V (replicate 40 [])"
  using assms by (simp add: cache_ok_def tc_new_def cache_bin_ok_def empty_cache_bin_def)

lemma caches_create:
  assumes inv: "caches_ok n cs m V Q" and k: "k < length cs" and e: "concat (Q ! k) = []" and i: "i < n"
  shows "caches_ok n (cs[k := Some (s, tc_new i (int i) use)]) m V (Q[k := replicate 40 []])"
    and "for_users V (Q[k := replicate 40 []]) = for_users V Q"
proof -
  have kQ: "k < length Q" using k caches_okD(1) [OF inv] by simp
  show "caches_ok n (cs[k := Some (s, tc_new i (int i) use)]) m V (Q[k := replicate 40 []])"
  proof (rule caches_change [OF inv k, where W = V])
    show "slot_ok n (Some (s, tc_new i (int i) use)) m V (replicate 40 [])"
      using tc_new_ok [OF i] by (simp add: slot_ok_def)
  qed (simp_all add: agree_on_def keeps_headers_def)
  have "held_by Q = held_by (Q[k := Q ! k])" by simp
  also have "\<dots> = held_by (Q[k := replicate 40 []])" unfolding held_by_update [OF kQ] e by simp
  finally show "for_users V (Q[k := replicate 40 []]) = for_users V Q" by (simp add: for_users_def)
qed

lemma pool_create:
  assumes inv: "pool_inv os asz cs as w F V Q" and k: "k < length cs" and e: "concat (Q ! k) = []"
    and i: "i < length as"
  shows "pool_inv os asz (cs[k := Some (s, tc_new i (int i) use)]) as w F V (Q[k := replicate 40 []])"
    and "for_users V (Q[k := replicate 40 []]) = for_users V Q"
  using caches_create [OF pool_invD(5) [OF inv] k e i] pool_invD(1) [OF inv] by (simp_all add: pool_inv_def)

text \<open>The switch of a cache.\<close>

lemma caches_switch:
  assumes inv: "caches_ok n cs m V Q" and k: "k < length cs" "cs ! k = Some (s, t)"
  shows "caches_ok n (cs[k := Some (s, set_use_thread_cache use t)]) m V Q"
proof -
  have "caches_ok n (cs[k := Some (s, set_use_thread_cache use t)]) m V (Q[k := Q ! k])"
  proof (rule caches_change [OF inv k(1), where W = V])
    show "slot_ok n (Some (s, set_use_thread_cache use t)) m V (Q ! k)"
      using caches_okD(4) [OF inv k] by (simp add: slot_ok_def cache_ok_def set_use_thread_cache_def)
    show "set (concat (Q ! k)) \<inter> set (concat (Q ! l)) = {}" if "l < length cs" "l \<noteq> k" for l
      using caches_okD(3) [OF inv k(1) that(1)] that(2) by blast
  qed (simp_all add: agree_on_def keeps_headers_def)
  then show ?thesis by simp
qed

subsection \<open>Steps elsewhere and writes of the users\<close>

lemma pool_frame:
  assumes inv: "pool_inv os asz cs as w F V Q" and fs: "frame_step G w G' w'" and dj: "F \<inter> G = {}"
  shows "pool_inv os asz cs as w' F V Q"
proof (rule pool_arena_step [OF inv, where W = V])
  note o = pool_invD(1) [OF inv]
  show "mg_owns os asz as w' F V" by (rule mg_owns_laws(4) [OF o fs dj])
  have "granted V \<subseteq> F" using mg_owns_laws(2) [OF o] by (fastforce simp: granted_def ran_def)
  then show "agree_on (granted V) (w_mem w) (w_mem w')"
    using frame_step_mem [OF dj mg_owns_laws(1) [OF o] fs] by (blast intro: agree_on_mono)
  show "keeps_headers V (w_mem w) (w_mem w')" by (rule mg_owns_headers(1) [OF o fs dj])
qed simp_all

lemma pool_write:
  assumes inv: "pool_inv os asz cs as w F V Q" and ag: "agree_on (- granted (for_users V Q)) (w_mem w) m'"
  shows "pool_inv os asz cs as (w\<lparr>w_mem := m'\<rparr>) F V Q"
proof -
  note o = pool_invD(1) [OF inv]
  have agV: "agree_on (- granted V) (w_mem w) m'"
    by (rule agree_on_mono [OF ag]) (use for_users_granted [of V Q] in blast)
  let ?W = "V |` (to_user_ptr ` held_by Q)"
  show ?thesis
  proof (rule pool_arena_step [OF inv, where W = ?W])
    show "mg_owns os asz as (w\<lparr>w_mem := m'\<rparr>) F V" by (rule mg_owns_laws(5) [OF o agV])
    show "agree_on (granted ?W) (w_mem w) (w_mem (w\<lparr>w_mem := m'\<rparr>))"
    proof (rule agree_onI)
      fix x assume "x \<in> granted ?W"
      then obtain h A where h: "h \<in> held_by Q" "V (to_user_ptr h) = Some A" "x \<in> A"
        by (auto simp: granted_def ran_def restrict_map_def split: if_splits)
      have "x \<notin> granted (for_users V Q)"
      proof
        assume "x \<in> granted (for_users V Q)"
        then obtain p B where p: "for_users V Q p = Some B" "x \<in> B" by (auto simp: granted_def ran_def)
        have "V p = Some B" "from_user_ptr p \<notin> held_by Q" using for_users_Some [OF p(1)] by simp_all
        moreover from this h(1) have "p \<noteq> to_user_ptr h" by auto
        ultimately show False using mg_owns_laws(3) [OF o _ h(2)] h(3) p(2) by blast
      qed
      then show "w_mem (w\<lparr>w_mem := m'\<rparr>) x = w_mem w x" using ag by (simp add: agree_on_def)
    qed
    show "keeps_headers ?W (w_mem w) (w_mem (w\<lparr>w_mem := m'\<rparr>))"
      using mg_owns_headers(2) [OF o agV] by (auto simp: keeps_headers_def restrict_map_def)
    show "V (to_user_ptr h) = V (to_user_ptr h) \<and> ?W (to_user_ptr h) = V (to_user_ptr h)"
      if "h \<in> held_by Q" for h using that by (simp add: restrict_map_def)
  qed simp
qed

end
