(* ===== verification/Thread_Owner.thy ===== *)
theory Thread_Owner
  imports Thread_Cache
begin

section \<open>Threads that come, move and go\<close>

text \<open>
  The storage of the caches and the operations of \<open>ThreadNumaContextOwner\<close> and of the resource
  \<open>numa_memory_resource\<close> on it: the first use of a thread creates its cache, \<open>configure\<close> may
  replace it when the thread has moved to another node, and the end of the thread returns
  what the cache holds. The state is the list of the owners of all threads and the arenas;
  the theory shows that every thread sees an allocator, and by rule induction that every
  run of all threads, with blocks returned from any thread, stays inside the contract.
\<close>

subsection \<open>The resource\<close>

text \<open>\<open>numa_memory_resource\<close>, on the thread whose owner is \<open>c\<close>.\<close>

definition numa_do_allocate ::
  "os \<Rightarrow> u64 \<Rightarrow> topology \<Rightarrow> int \<Rightarrow> u64 \<Rightarrow> u64 \<Rightarrow> cache_ptr option \<Rightarrow> arena_ptr list \<Rightarrow> world \<Rightarrow>
   (ptr res \<times> cache_ptr option \<times> arena_ptr list \<times> world) option" where
  "numa_do_allocate os tsz topo cpu bytes alignment c as w =
    (case owner_get os tsz topo cpu c as w of
       (Inl e, c1, w1) \<Rightarrow> Some (Inl e, c1, as, w1)
     | (Inr (p, t), c1, w1) \<Rightarrow>
         (case tc_allocate os bytes alignment t as w1 of
            None \<Rightarrow> None
          | Some (r, t1, as1, w2) \<Rightarrow> Some (r, Some (p, t1), as1, w2)))"

definition numa_do_deallocate ::
  "os \<Rightarrow> u64 \<Rightarrow> topology \<Rightarrow> int \<Rightarrow> ptr \<Rightarrow> u64 \<Rightarrow> u64 \<Rightarrow> cache_ptr option \<Rightarrow> arena_ptr list \<Rightarrow> world \<Rightarrow>
   (unit res \<times> cache_ptr option \<times> arena_ptr list \<times> world) option" where
  "numa_do_deallocate os tsz topo cpu p bytes alignment c as w =
    (if p = nullptr then Some (Inr (), c, as, w)
     else case owner_get os tsz topo cpu c as w of
       (Inl e, c1, w1) \<Rightarrow> Some (Inl e, c1, as, w1)
     | (Inr (s, t), c1, w1) \<Rightarrow>
         (case tc_deallocate os p t as w1 of
            None \<Rightarrow> None
          | Some (r, t1, as1, w2) \<Rightarrow> Some (r, Some (s, t1), as1, w2)))"

text \<open>The constructor, and \<open>node_id\<close>.\<close>

definition numa_resource_new ::
  "os \<Rightarrow> u64 \<Rightarrow> topology \<Rightarrow> int \<times> int \<times> int \<Rightarrow> bool \<Rightarrow> cache_ptr option \<Rightarrow> arena_ptr list \<Rightarrow> world \<Rightarrow>
   (unit res \<times> cache_ptr option \<times> arena_ptr list \<times> world) option" where
  "numa_resource_new os tsz topo cpus use_thread_cache c as w =
    owner_configure os tsz topo cpus use_thread_cache c as w"

definition numa_node_id ::
  "os \<Rightarrow> u64 \<Rightarrow> topology \<Rightarrow> int \<Rightarrow> cache_ptr option \<Rightarrow> arena_ptr list \<Rightarrow> world \<Rightarrow>
   int res \<times> cache_ptr option \<times> world" where
  "numa_node_id os tsz topo cpu c as w =
    (case owner_get os tsz topo cpu c as w of
       (Inl e, c1, w1) \<Rightarrow> (Inl e, c1, w1)
     | (Inr (p, t), c1, w1) \<Rightarrow> (Inr (tc_node_id t), c1, w1))"

subsection \<open>The storage of the caches\<close>

definition slot_area :: "os \<Rightarrow> u64 \<Rightarrow> ptr option \<Rightarrow> nat set" where
  "slot_area os tsz p = (case p of None \<Rightarrow> {} | Some q \<Rightarrow> bytes_of q (span_bytes os tsz))"

definition shell_area :: "os \<Rightarrow> u64 \<Rightarrow> ptr option list \<Rightarrow> nat set" where
  "shell_area os tsz ps = (\<Union>k<length ps. slot_area os tsz (ps ! k))"

definition shell :: "os \<Rightarrow> u64 \<Rightarrow> ptr option list \<Rightarrow> world \<Rightarrow> nat set \<Rightarrow> bool" where
  "shell os tsz ps w F \<longleftrightarrow> shell_area os tsz ps \<subseteq> mapped w \<and> shell_area os tsz ps \<inter> F = {} \<and>
     (\<forall>k<length ps. \<forall>l<length ps. k \<noteq> l \<longrightarrow> slot_area os tsz (ps ! k) \<inter> slot_area os tsz (ps ! l) = {}) \<and>
     (\<forall>k<length ps. \<forall>q. ps ! k = Some q \<longrightarrow> q \<noteq> nullptr \<and> unat (page_size os) dvd unat q)"

lemma shell_step:
  assumes sh: "shell os tsz ps w F" and fs: "frame_step F w F' w'"
  shows "shell os tsz ps w' F'" and "frame_step (F \<union> shell_area os tsz ps) w (F' \<union> shell_area os tsz ps) w'"
proof -
  have s: "shell_area os tsz ps \<subseteq> mapped w" "shell_area os tsz ps \<inter> F = {}" using sh by (simp_all add: shell_def)
  from frame_step_mem [OF s(2,1) fs] show "shell os tsz ps w' F'" using sh by (simp add: shell_def)
  show "frame_step (F \<union> shell_area os tsz ps) w (F' \<union> shell_area os tsz ps) w'"
    by (rule frame_step_extend [OF fs s])
qed

lemma shell_area_update:
  assumes "k < length ps"
  shows "shell_area os tsz (ps[k := p]) = slot_area os tsz p \<union> (\<Union>l\<in>{..<length ps} - {k}. slot_area os tsz (ps ! l))"
proof -
  have "{..<length ps} = insert k ({..<length ps} - {k})" using assms by blast
  then have "shell_area os tsz (ps[k := p]) = (\<Union>l\<in>insert k ({..<length ps} - {k}). slot_area os tsz (ps[k := p] ! l))"
    by (simp only: shell_area_def length_list_update)
  moreover have "(\<Union>l\<in>{..<length ps} - {k}. slot_area os tsz (ps[k := p] ! l)) =
    (\<Union>l\<in>{..<length ps} - {k}. slot_area os tsz (ps ! l))" by (rule SUP_cong [OF refl]) simp
  ultimately show ?thesis using assms by (simp only: UN_insert nth_list_update_eq)
qed

lemma shell_area_split:
  assumes "k < length ps"
  shows "shell_area os tsz ps = slot_area os tsz (ps ! k) \<union> (\<Union>l\<in>{..<length ps} - {k}. slot_area os tsz (ps ! l))"
  using shell_area_update [OF assms, of os tsz "ps ! k"] by simp

text \<open>A thread gets storage, and loses it.\<close>

lemma shell_add:
  assumes sh: "shell os tsz ps w F" and k: "k < length ps" "ps ! k = None"
    and q: "q \<noteq> nullptr" "unat (page_size os) dvd unat q"
    and A: "bytes_of q (span_bytes os tsz) \<subseteq> mapped w" "bytes_of q (span_bytes os tsz) \<inter> (F \<union> shell_area os tsz ps) = {}"
  shows "shell os tsz (ps[k := Some q]) w F"
    and "shell_area os tsz (ps[k := Some q]) = bytes_of q (span_bytes os tsz) \<union> shell_area os tsz ps"
proof -
  let ?A = "bytes_of q (span_bytes os tsz)"
  have sp: "shell_area os tsz ps = (\<Union>l\<in>{..<length ps} - {k}. slot_area os tsz (ps ! l))"
    using shell_area_split [OF k(1)] k(2) by (simp add: slot_area_def)
  show ar: "shell_area os tsz (ps[k := Some q]) = ?A \<union> shell_area os tsz ps"
    unfolding shell_area_update [OF k(1)] sp by (simp add: slot_area_def)
  have out: "slot_area os tsz (ps ! l) \<inter> ?A = {}" if "l < length ps" for l
    using A(2) that by (auto simp: shell_area_def)
  have "slot_area os tsz (ps[k := Some q] ! i) \<inter> slot_area os tsz (ps[k := Some q] ! j) = {}"
    if ij: "i < length ps" "j < length ps" "i \<noteq> j" for i j
    using sh out [OF ij(1)] out [OF ij(2)] ij k(1)
    by (cases "i = k"; cases "j = k") (auto simp: shell_def slot_area_def)
  moreover have "shell_area os tsz (ps[k := Some q]) \<subseteq> mapped w"
    "shell_area os tsz (ps[k := Some q]) \<inter> F = {}" unfolding ar using sh A by (auto simp: shell_def)
  moreover have "r \<noteq> nullptr \<and> unat (page_size os) dvd unat r" if "l < length ps" "ps[k := Some q] ! l = Some r" for l r
    using that sh q k(1) by (cases "l = k") (auto simp: shell_def)
  ultimately show "shell os tsz (ps[k := Some q]) w F" by (simp add: shell_def)
qed

lemma shell_forget:
  assumes sh: "shell os tsz ps w F" and k: "k < length ps"
  shows "shell os tsz (ps[k := None]) w F"
    and "shell_area os tsz ps = slot_area os tsz (ps ! k) \<union> shell_area os tsz (ps[k := None])"
    and "slot_area os tsz (ps ! k) \<inter> shell_area os tsz (ps[k := None]) = {}"
proof -
  let ?R = "\<Union>l\<in>{..<length ps} - {k}. slot_area os tsz (ps ! l)"
  have up: "shell_area os tsz (ps[k := None]) = ?R" using shell_area_update [OF k] by (simp add: slot_area_def)
  show sp: "shell_area os tsz ps = slot_area os tsz (ps ! k) \<union> shell_area os tsz (ps[k := None])"
    unfolding up by (rule shell_area_split [OF k])
  have "slot_area os tsz (ps ! k) \<inter> slot_area os tsz (ps ! l) = {}" if "l \<in> {..<length ps} - {k}" for l
    using sh k that unfolding shell_def by blast
  then show "slot_area os tsz (ps ! k) \<inter> shell_area os tsz (ps[k := None]) = {}" unfolding up by blast
  have "slot_area os tsz (ps[k := None] ! i) \<inter> slot_area os tsz (ps[k := None] ! j) = {}"
    if "i < length ps" "j < length ps" "i \<noteq> j" for i j
    using sh that k by (cases "i = k"; cases "j = k") (auto simp: shell_def slot_area_def)
  moreover have "r \<noteq> nullptr \<and> unat (page_size os) dvd unat r" if "l < length ps" "ps[k := None] ! l = Some r" for l r
    using that sh k by (cases "l = k") (auto simp: shell_def)
  moreover have "shell_area os tsz (ps[k := None]) \<subseteq> mapped w" "shell_area os tsz (ps[k := None]) \<inter> F = {}"
    using sh sp by (auto simp: shell_def)
  ultimately show "shell os tsz (ps[k := None]) w F" by (simp add: shell_def)
qed

lemma shell_remove:
  assumes sh: "shell os tsz ps w F" and k: "k < length ps" "ps ! k = Some q"
    and os: "os_ok os" and tsz: "arena_size_ok os tsz" and F: "F \<subseteq> mapped w"
  shows "shell os tsz (ps[k := None]) (vm_release os q tsz w) F"
    and "frame_step (F \<union> shell_area os tsz ps) w (F \<union> shell_area os tsz (ps[k := None])) (vm_release os q tsz w)"
    and "frame_step (bytes_of q (span_bytes os tsz)) w {} (vm_release os q tsz w)"
    and "bytes_of q (span_bytes os tsz) \<inter> F = {}"
proof -
  let ?A = "bytes_of q (span_bytes os tsz)" and ?R = "shell_area os tsz (ps[k := None])"
  note G = shell_forget [OF sh k(1), unfolded k(2) slot_area_def option.case]
  have m: "?A \<union> ?R \<subseteq> mapped w" "(?A \<union> ?R) \<inter> F = {}" using sh by (simp_all add: shell_def G(2))
  have q: "q \<noteq> nullptr" "unat (page_size os) dvd unat q" using sh k by (simp_all add: shell_def)
  show fs: "frame_step ?A w {} (vm_release os q tsz w)"
    using vm_release_frame [OF os q(1) _ _ q(2)] tsz m(1) by (simp add: arena_size_ok_def)
  show "?A \<inter> F = {}" using m(2) by blast
  have rest: "(F \<union> ?R) \<inter> ?A = {}" "F \<union> ?R \<subseteq> mapped w" using m G(3) F by auto
  from frame_step_extend [OF fs rest(2,1)]
  show "frame_step (F \<union> shell_area os tsz ps) w (F \<union> ?R) (vm_release os q tsz w)"
    unfolding G(2) by (simp add: Un_ac)
  have "?R \<subseteq> mapped (vm_release os q tsz w)" using frame_step_mem [OF rest fs] by blast
  then show "shell os tsz (ps[k := None]) (vm_release os q tsz w) F" using G(1) by (simp add: shell_def)
qed

text \<open>Storage may change its place in the list.\<close>

lemma shell_move:
  assumes sh: "shell os tsz ps w F" and k: "k < length ps" "ps ! k = None" and l: "l < length ps" "l \<noteq> k"
  shows "shell os tsz (ps[k := ps ! l, l := None]) w F"
    and "shell_area os tsz (ps[k := ps ! l, l := None]) = shell_area os tsz ps"
proof -
  let ?qs = "ps[k := ps ! l, l := None]"
  define f where "f = (\<lambda>i. if i = k then l else if i = l then k else i)"
  have at: "?qs ! i = ps ! f i" "f i < length ps" if "i < length ps" for i
    using k l that by (auto simp: f_def nth_list_update)
  have inj: "f i = f j \<Longrightarrow> i = j" for i j by (auto simp: f_def split: if_splits)
  have ff: "f (f i) = i" for i by (simp add: f_def)
  show ar: "shell_area os tsz ?qs = shell_area os tsz ps"
  proof -
    have "f ` {..<length ps} = {..<length ps}"
    proof
      show "f ` {..<length ps} \<subseteq> {..<length ps}" using at(2) by auto
      show "{..<length ps} \<subseteq> f ` {..<length ps}"
      proof
        fix i assume "i \<in> {..<length ps}"
        then have "f i \<in> {..<length ps}" using at(2) by simp
        then show "i \<in> f ` {..<length ps}" using ff [of i] by (intro image_eqI [of i f "f i"]) simp_all
      qed
    qed
    then have "(\<Union>i<length ps. slot_area os tsz (ps ! i)) = (\<Union>i<length ps. slot_area os tsz (ps ! f i))"
      by (metis (no_types, lifting) SUP_cong image_image)
    also have "\<dots> = (\<Union>i<length ps. slot_area os tsz (?qs ! i))"
      by (rule SUP_cong [OF refl]) (simp only: lessThan_iff at(1))
    finally show ?thesis by (simp add: shell_area_def)
  qed
  have "\<forall>i<length ?qs. \<forall>j<length ?qs. i \<noteq> j \<longrightarrow> slot_area os tsz (?qs ! i) \<inter> slot_area os tsz (?qs ! j) = {}"
    using sh at inj unfolding shell_def length_list_update by metis
  moreover have "\<forall>i<length ?qs. \<forall>q. ?qs ! i = Some q \<longrightarrow> q \<noteq> nullptr \<and> unat (page_size os) dvd unat q"
    using sh at unfolding shell_def length_list_update by metis
  ultimately show "shell os tsz ?qs w F" using sh unfolding shell_def ar by blast
qed

text \<open>Slots without storage do not count.\<close>

lemma shell_pad:
  "shell_area os tsz (ps @ replicate n None) = shell_area os tsz ps"
  "shell os tsz (ps @ replicate n None) w F = shell os tsz ps w F"
proof -
  let ?ps = "ps @ replicate n None"
  have at: "slot_area os tsz (?ps ! l) = (if l < length ps then slot_area os tsz (ps ! l) else {})" if "l < length ?ps" for l
    using that by (simp add: nth_append slot_area_def)
  have "{..<length ?ps} = {..<length ps} \<union> {length ps..<length ?ps}" by auto
  then have "shell_area os tsz ?ps = (\<Union>l\<in>{..<length ps} \<union> {length ps..<length ?ps}. slot_area os tsz (?ps ! l))"
    by (simp only: shell_area_def)
  also have "\<dots> = (\<Union>l<length ps. slot_area os tsz (?ps ! l)) \<union> (\<Union>l\<in>{length ps..<length ?ps}. slot_area os tsz (?ps ! l))"
    by (rule UN_Un)
  also have "(\<Union>l\<in>{length ps..<length ?ps}. slot_area os tsz (?ps ! l)) = {}" using at by auto
  also have "(\<Union>l<length ps. slot_area os tsz (?ps ! l)) = shell_area os tsz ps"
    unfolding shell_area_def by (rule SUP_cong [OF refl]) (simp add: nth_append)
  finally show ar: "shell_area os tsz ?ps = shell_area os tsz ps" by simp
  have pa: "(\<forall>k<length ?ps. \<forall>l<length ?ps. k \<noteq> l \<longrightarrow> slot_area os tsz (?ps ! k) \<inter> slot_area os tsz (?ps ! l) = {}) \<longleftrightarrow>
      (\<forall>k<length ps. \<forall>l<length ps. k \<noteq> l \<longrightarrow> slot_area os tsz (ps ! k) \<inter> slot_area os tsz (ps ! l) = {})"
    (is "?A \<longleftrightarrow> ?B")
  proof
    assume a: ?A
    show ?B
    proof (intro allI impI)
      fix k l assume "k < length ps" "l < length ps" "k \<noteq> l"
      then show "slot_area os tsz (ps ! k) \<inter> slot_area os tsz (ps ! l) = {}"
        using a [rule_format, of k l] by (simp add: nth_append)
    qed
  next
    assume ?B
    then show ?A using at by (metis inf_bot_left inf_bot_right)
  qed
  have pb: "(\<forall>k<length ?ps. \<forall>q. ?ps ! k = Some q \<longrightarrow> q \<noteq> nullptr \<and> unat (page_size os) dvd unat q) \<longleftrightarrow>
      (\<forall>k<length ps. \<forall>q. ps ! k = Some q \<longrightarrow> q \<noteq> nullptr \<and> unat (page_size os) dvd unat q)"
    (is "?C \<longleftrightarrow> ?D")
  proof
    assume c: ?C
    show ?D
    proof (intro allI impI)
      fix k q assume "k < length ps" "ps ! k = Some q"
      then show "q \<noteq> nullptr \<and> unat (page_size os) dvd unat q" using c [rule_format, of k q] by (simp add: nth_append)
    qed
  next
    assume d: ?D
    show ?C
    proof (intro allI impI)
      fix k q assume k: "k < length ?ps" "?ps ! k = Some q"
      then have "k < length ps" by (cases "k < length ps") (simp_all add: nth_append)
      then show "q \<noteq> nullptr \<and> unat (page_size os) dvd unat q" using d k(2) by (simp add: nth_append)
    qed
  qed
  show "shell os tsz ?ps w F = shell os tsz ps w F" by (simp only: shell_def ar pa pb)
qed

subsection \<open>What threads and arenas own together\<close>

definition ptrs :: "cache_ptr option list \<Rightarrow> ptr option list" where
  "ptrs cs = map (map_option fst) cs"

definition tl_inv ::
  "os \<Rightarrow> u64 \<Rightarrow> u64 \<Rightarrow> cache_ptr option list \<Rightarrow> arena_ptr list \<Rightarrow> world \<Rightarrow> nat set \<Rightarrow> nat set \<Rightarrow> grants \<Rightarrow>
   ptr list list list \<Rightarrow> bool" where
  "tl_inv os asz tsz cs as w F Fm V Q \<longleftrightarrow> pool_inv os asz cs as w Fm V Q \<and> shell os tsz (ptrs cs) w Fm \<and>
     F = Fm \<union> shell_area os tsz (ptrs cs)"

definition tl_owns ::
  "os \<Rightarrow> u64 \<Rightarrow> u64 \<Rightarrow> cache_ptr option list \<Rightarrow> arena_ptr list \<Rightarrow> world \<Rightarrow> nat set \<Rightarrow> grants \<Rightarrow> bool" where
  "tl_owns os asz tsz cs as w F U \<longleftrightarrow> os_ok os \<and> arena_size_ok os tsz \<and> length as \<le> 2 ^ 31 \<and>
     (\<exists>Fm V Q. tl_inv os asz tsz cs as w F Fm V Q \<and> U = for_users V Q)"

lemma ptrs_length [simp]: "length (ptrs cs) = length cs"
  by (simp add: ptrs_def)

lemma ptrs_nth [simp]: "k < length cs \<Longrightarrow> ptrs cs ! k = map_option fst (cs ! k)"
  by (simp add: ptrs_def)

lemma ptrs_update: "ptrs (cs[k := c]) = (ptrs cs)[k := map_option fst c]"
  by (simp add: ptrs_def map_update)

lemma ptrs_same: "k < length cs \<Longrightarrow> cs ! k = Some (s, t) \<Longrightarrow> ptrs (cs[k := Some (s, t')]) = ptrs cs"
  using list_update_id [of "ptrs cs" k] by (simp add: ptrs_update)

lemma tl_owns_laws:
  assumes o: "tl_owns os asz tsz cs as w F U"
  shows "F \<subseteq> mapped w" and "U p = Some A \<Longrightarrow> A \<subseteq> F \<and> p \<noteq> nullptr"
    and "U p = Some A \<Longrightarrow> U q = Some B \<Longrightarrow> p \<noteq> q \<Longrightarrow> A \<inter> B = {}"
    and "frame_step G w G' w' \<Longrightarrow> F \<inter> G = {} \<Longrightarrow> tl_owns os asz tsz cs as w' F U"
    and "agree_on (- granted U) (w_mem w) m' \<Longrightarrow> tl_owns os asz tsz cs as (w\<lparr>w_mem := m'\<rparr>) F U"
proof -
  obtain Fm V Q where inv: "pool_inv os asz cs as w Fm V Q" and sh: "shell os tsz (ptrs cs) w Fm"
    and F: "F = Fm \<union> shell_area os tsz (ptrs cs)" and U: "U = for_users V Q"
    and c: "os_ok os" "arena_size_ok os tsz" "length as \<le> 2 ^ 31"
    using o unfolding tl_owns_def tl_inv_def by blast
  note L = mg_owns_laws [OF pool_invD(1) [OF inv]]
  have SA: "shell_area os tsz (ptrs cs) \<subseteq> mapped w" using sh by (simp add: shell_def)
  show "F \<subseteq> mapped w" using L(1) SA by (simp add: F)
  have V: "V p = Some A" if "U p = Some A" for p A using for_users_Some that unfolding U by blast
  show "A \<subseteq> F \<and> p \<noteq> nullptr" if "U p = Some A" using L(2) [OF V [OF that]] F by blast
  show "A \<inter> B = {}" if "U p = Some A" "U q = Some B" "p \<noteq> q" by (rule L(3) [OF V [OF that(1)] V [OF that(2)] that(3)])
  show "tl_owns os asz tsz cs as w' F U" if fs: "frame_step G w G' w'" and dj: "F \<inter> G = {}"
  proof -
    have d: "Fm \<inter> G = {}" "shell_area os tsz (ptrs cs) \<inter> G = {}" using dj F by auto
    have "shell os tsz (ptrs cs) w' Fm" using frame_step_mem [OF d(2) SA fs] sh by (simp add: shell_def)
    then show ?thesis using pool_frame [OF inv fs d(1)] F U c unfolding tl_owns_def tl_inv_def by blast
  qed
  show "tl_owns os asz tsz cs as (w\<lparr>w_mem := m'\<rparr>) F U" if ag: "agree_on (- granted U) (w_mem w) m'"
  proof -
    have "pool_inv os asz cs as (w\<lparr>w_mem := m'\<rparr>) Fm V Q" using pool_write [OF inv] ag by (simp add: U)
    moreover have "shell os tsz (ptrs cs) (w\<lparr>w_mem := m'\<rparr>) Fm" using sh by (simp add: shell_def)
    ultimately show ?thesis using F U c unfolding tl_owns_def tl_inv_def by blast
  qed
qed

lemma tl_owns_granted: "tl_owns os asz tsz cs as w F U \<Longrightarrow> granted U \<subseteq> F"
  using tl_owns_laws(2) by (fastforce simp: granted_def ran_def)

text \<open>A step of one cache and the arenas, with the cache where it was.\<close>

lemma tl_step:
  assumes o: "tl_owns os asz tsz cs as w F U" and inv: "tl_inv os asz tsz cs as w F Fm V Q"
    and k: "k < length cs" "cs ! k = Some (s, t)"
    and p: "pool_inv os asz (cs[k := Some (s, t')]) as' w' Fm' V' Q'" and fs: "frame_step Fm w Fm' w'"
    and len: "length as' = length as"
  shows "\<exists>F'. tl_owns os asz tsz (cs[k := Some (s, t')]) as' w' F' (for_users V' Q') \<and> frame_step F w F' w' \<and>
    tl_inv os asz tsz (cs[k := Some (s, t')]) as' w' F' Fm' V' Q'"
proof -
  have sh: "shell os tsz (ptrs cs) w Fm" and F: "F = Fm \<union> shell_area os tsz (ptrs cs)"
    using inv by (simp_all add: tl_inv_def)
  note S = shell_step [OF sh fs]
  have "tl_inv os asz tsz (cs[k := Some (s, t')]) as' w' (Fm' \<union> shell_area os tsz (ptrs cs)) Fm' V' Q'"
    using p S(1) by (simp add: tl_inv_def ptrs_same [OF k])
  then show ?thesis using S(2) o len unfolding F tl_owns_def by auto
qed

lemma tl_allocate:
  assumes o: "tl_owns os asz tsz cs as w F U" and k: "k < length cs" "cs ! k = Some (s, t)"
    and lg: "ar_legal os (sz, al)"
  shows "\<exists>r t' as' w' F'. tc_allocate os sz al t as w = Some (r, t', as', w') \<and> length as' = length as \<and>
    frame_step F w F' w' \<and> agree_on (granted U) (w_mem w) (w_mem w') \<and>
    (case r of
       Inl e \<Rightarrow> tl_owns os asz tsz (cs[k := Some (s, t')]) as' w' F' U
     | Inr p \<Rightarrow> U p = None \<and> p \<noteq> nullptr \<and> aligned_for al p \<and>
         sint (bh_node_id (w_mem w') (from_user_ptr p)) = tc_node_id t \<and>
         tl_owns os asz tsz (cs[k := Some (s, t')]) as' w' F' (U(p \<mapsto> ar_area (sz, al) p)))"
proof -
  obtain Fm V Q where inv: "tl_inv os asz tsz cs as w F Fm V Q" and U: "U = for_users V Q"
    and nd: "length as \<le> 2 ^ 31" using o unfolding tl_owns_def by blast
  have pi: "pool_inv os asz cs as w Fm V Q" using inv by (simp add: tl_inv_def)
  obtain r t' as' w' Fm' V' Q' where A: "tc_allocate os sz al t as w = Some (r, t', as', w')" "length as' = length as"
    "pool_inv os asz (cs[k := Some (s, t')]) as' w' Fm' V' Q'" "frame_step Fm w Fm' w'"
    "agree_on (granted (for_users V Q)) (w_mem w) (w_mem w')"
    "case r of
       Inl e \<Rightarrow> for_users V' Q' = for_users V Q
     | Inr p \<Rightarrow> for_users V Q p = None \<and> p \<noteq> nullptr \<and> aligned_for al p \<and>
         sint (bh_node_id (w_mem w') (from_user_ptr p)) = tc_node_id t \<and>
         for_users V' Q' = (for_users V Q)(p \<mapsto> ar_area (sz, al) p)"
    using pool_allocate [OF pi k lg nd] by (elim exE conjE)
  obtain F' where "tl_owns os asz tsz (cs[k := Some (s, t')]) as' w' F' (for_users V' Q')" "frame_step F w F' w'"
    using tl_step [OF o inv k A(3,4,2)] by blast
  then show ?thesis using A(1,2,5,6) unfolding U
    by (intro exI [of _ r] exI [of _ t'] exI [of _ as'] exI [of _ w'] exI [of _ F']) (cases r; simp)
qed

lemma tl_deallocate:
  assumes o: "tl_owns os asz tsz cs as w F U" and k: "k < length cs" "cs ! k = Some (s, t)" and p: "U p \<noteq> None"
  shows "\<exists>t' as' w' F'. tc_deallocate os p t as w = Some (Inr (), t', as', w') \<and> length as' = length as \<and>
    frame_step F w F' w' \<and> agree_on (granted (U(p := None))) (w_mem w) (w_mem w') \<and>
    tl_owns os asz tsz (cs[k := Some (s, t')]) as' w' F' (U(p := None))"
proof -
  obtain Fm V Q where inv: "tl_inv os asz tsz cs as w F Fm V Q" and U: "U = for_users V Q"
    using o unfolding tl_owns_def by blast
  have pi: "pool_inv os asz cs as w Fm V Q" using inv by (simp add: tl_inv_def)
  obtain t' as' w' Fm' V' Q' where D: "tc_deallocate os p t as w = Some (Inr (), t', as', w')" "length as' = length as"
    "pool_inv os asz (cs[k := Some (s, t')]) as' w' Fm' V' Q'" "frame_step Fm w Fm' w'"
    "agree_on (granted ((for_users V Q)(p := None))) (w_mem w) (w_mem w')"
    "for_users V' Q' = (for_users V Q)(p := None)"
    using pool_deallocate [OF pi k p [unfolded U]] by (elim exE conjE)
  obtain F' where "tl_owns os asz tsz (cs[k := Some (s, t')]) as' w' F' (for_users V' Q')" "frame_step F w F' w'"
    using tl_step [OF o inv k D(3,4,2)] by blast
  then show ?thesis using D(1,2,5,6) unfolding U by auto
qed

subsection \<open>Creation\<close>

lemma create_Inr:
  assumes os: "os_ok os" and tsz: "arena_size_ok os tsz"
    and cr: "create_on_current_node os tsz topo cpu use as w = (Inr (q, t), w')"
  shows "frame_step {} w (bytes_of q (span_bytes os tsz)) w'" and "q \<noteq> nullptr" and "unat (page_size os) dvd unat q"
    and "\<exists>i<length as. int i = current_node_from_cpu topo cpu \<and> t = tc_new i (int i) use"
    and "\<forall>x\<in>bytes_of q (span_bytes os tsz). w_policy w' x = node_policy os (tc_node_id t)"
proof -
  have sz: "tsz \<noteq> 0" "fits_page os tsz" using tsz by (simp_all add: arena_size_ok_def)
  obtain i where al: "vm_alloc_on_node os tsz (current_node_from_cpu topo cpu) Bind w = (Inr q, w')"
    and i: "arena_for_node as (current_node_from_cpu topo cpu) = Inr i"
    and t: "t = tc_new i (current_node_from_cpu topo cpu) use"
    using cr by (auto simp: create_on_current_node_def Let_def split: prod.splits sum.splits)
  note V = vm_alloc_on_node_Inr [OF os sz al]
  show "frame_step {} w (bytes_of q (span_bytes os tsz)) w'" "q \<noteq> nullptr" "unat (page_size os) dvd unat q"
    by (rule V(1-3))+
  have "int i = current_node_from_cpu topo cpu" "i < length as"
    using i by (auto simp: arena_for_node_def split: if_splits)
  then show "\<exists>i<length as. int i = current_node_from_cpu topo cpu \<and> t = tc_new i (int i) use" using t by auto
  show "\<forall>x\<in>bytes_of q (span_bytes os tsz). w_policy w' x = node_policy os (tc_node_id t)"
    using V(5) by (simp add: t tc_new_def)
qed

text \<open>A creation that throws leaves no mapping behind.\<close>

lemma create_Inl:
  assumes os: "os_ok os" and tsz: "arena_size_ok os tsz"
    and cr: "create_on_current_node os tsz topo cpu use as w = (Inl e, w')"
  shows "frame_step {} w {} w'"
    and "e = Bad_alloc \<or> e = Out_of_range \<and> \<not> (0 \<le> current_node_from_cpu topo cpu \<and>
      current_node_from_cpu topo cpu < int (length as))"
proof -
  let ?n = "current_node_from_cpu topo cpu"
  have sz: "tsz \<noteq> 0" "fits_page os tsz" using tsz by (simp_all add: arena_size_ok_def)
  obtain r w1 where al: "vm_alloc_on_node os tsz ?n Bind w = (r, w1)" by fastforce
  have "frame_step {} w {} w' \<and> (e = Bad_alloc \<or> e = Out_of_range \<and> \<not> (0 \<le> ?n \<and> ?n < int (length as)))"
  proof (cases r)
    case (Inl e')
    note V = vm_alloc_on_node_Inl [OF os sz al [unfolded Inl]]
    then show ?thesis using cr al Inl by (simp add: create_on_current_node_def)
  next
    case (Inr q)
    note V = vm_alloc_on_node_Inr [OF os sz al [unfolded Inr]]
    have out: "\<not> (0 \<le> ?n \<and> ?n < int (length as))" and e: "e = Out_of_range" and w': "w' = vm_release os q tsz w1"
      using cr al Inr by (auto simp: create_on_current_node_def arena_for_node_def Let_def split: sum.splits if_splits)
    have "bytes_of q (span_bytes os tsz) \<subseteq> mapped w1" using V(1) by (auto simp: frame_step_def)
    from vm_release_frame [OF os V(2) sz V(3) this]
    have "frame_step {} w {} w'" unfolding w' by (rule frame_step_trans [OF V(1)])
    then show ?thesis using out e by simp
  qed
  then show "frame_step {} w {} w'"
    and "e = Bad_alloc \<or> e = Out_of_range \<and> \<not> (0 \<le> ?n \<and> ?n < int (length as))" by simp_all
qed

lemma frame_step_nothing:
  assumes "frame_step {} w {} w'" and "F \<subseteq> mapped w"
  shows "frame_step F w F w'" and "agree_on F (w_mem w) (w_mem w')"
  using frame_step_extend [OF assms(1,2)] frame_step_mem [of F "{}" w "{}" w'] assms by auto

text \<open>A slot without a cache receives one whose storage has just been mapped.\<close>

lemma tl_put:
  assumes o: "tl_owns os asz tsz cs as w F U" and k: "k < length cs" "cs ! k = None" and i: "i < length as"
    and q: "q \<noteq> nullptr" "unat (page_size os) dvd unat q"
    and A: "bytes_of q (span_bytes os tsz) \<subseteq> mapped w" "bytes_of q (span_bytes os tsz) \<inter> F = {}"
  shows "tl_owns os asz tsz (cs[k := Some (q, tc_new i (int i) use)]) as w (bytes_of q (span_bytes os tsz) \<union> F) U"
proof -
  obtain Fm V Q where inv: "pool_inv os asz cs as w Fm V Q" and sh: "shell os tsz (ptrs cs) w Fm"
    and F: "F = Fm \<union> shell_area os tsz (ptrs cs)" and U: "U = for_users V Q"
    using o unfolding tl_owns_def tl_inv_def by blast
  have e: "concat (Q ! k) = []" using pool_invD(3) [OF inv k(1)] k(2) by (simp add: slot_ok_def)
  note P = pool_create(1) [OF inv k(1) e i, of q use] pool_create(2) [OF inv k(1) e i]
  have pk: "k < length (ptrs cs)" "ptrs cs ! k = None" using k by simp_all
  note S = shell_add [OF sh pk q A(1) A(2) [unfolded F]]
  have "tl_inv os asz tsz (cs[k := Some (q, tc_new i (int i) use)]) as w (bytes_of q (span_bytes os tsz) \<union> F) Fm V
      (Q[k := replicate 40 []])"
    using P(1) S(1) by (simp add: tl_inv_def ptrs_update S(2) F Un_ac)
  then show ?thesis using o U P(2) unfolding tl_owns_def by metis
qed

text \<open>The first use of a thread.\<close>

lemma tl_ensure:
  assumes o: "tl_owns os asz tsz cs as w F U" and k: "k < length cs"
  shows "\<exists>r c' w' F'. ensure_cache os tsz topo cpu use (cs ! k) as w = (r, c', w') \<and>
    tl_owns os asz tsz (cs[k := c']) as w' F' U \<and> frame_step F w F' w' \<and> agree_on (granted U) (w_mem w) (w_mem w') \<and>
    (case r of Inl e \<Rightarrow> cs ! k = None \<and> c' = None \<and> F' = F | Inr qt \<Rightarrow> c' = Some qt)"
proof (cases "cs ! k")
  case (Some qt)
  have "cs[k := Some qt] = cs" using Some list_update_id [of cs k] by simp
  moreover have "frame_step F w F w" by (rule frame_step_refl [OF tl_owns_laws(1) [OF o]])
  ultimately show ?thesis using o Some
    by (intro exI [of _ "Inr qt"] exI [of _ "Some qt"] exI [of _ w] exI [of _ F]) (simp add: ensure_cache_def agree_on_def)
next
  case None
  note L = tl_owns_laws [OF o]
  have os: "os_ok os" and tsz: "arena_size_ok os tsz" using o by (simp_all add: tl_owns_def)
  obtain r w' where cr: "create_on_current_node os tsz topo cpu use as w = (r, w')" by fastforce
  show ?thesis
  proof (cases r)
    case (Inl e)
    note C = create_Inl [OF os tsz cr [unfolded Inl]]
    note N = frame_step_nothing [OF C(1) L(1)]
    have "tl_owns os asz tsz cs as w' F U" by (rule L(4) [OF C(1)]) simp
    moreover have "cs[k := None] = cs" using None list_update_id [of cs k] by simp
    moreover have "agree_on (granted U) (w_mem w) (w_mem w')" by (rule agree_on_mono [OF N(2) tl_owns_granted [OF o]])
    moreover have "ensure_cache os tsz topo cpu use (cs ! k) as w = (Inl e, None, w')"
      using None cr Inl by (simp add: ensure_cache_def)
    ultimately show ?thesis using N(1) None by (intro exI [of _ "Inl e"] exI [of _ None] exI [of _ w'] exI [of _ F]) simp
  next
    case (Inr qt)
    obtain q t where qt: "qt = (q, t)" by (cases qt)
    note C = create_Inr [OF os tsz cr [unfolded Inr qt]]
    let ?A = "bytes_of q (span_bytes os tsz)"
    obtain i where i: "i < length as" "t = tc_new i (int i) use" using C(4) by blast
    have o1: "tl_owns os asz tsz cs as w' F U" by (rule L(4) [OF C(1)]) simp
    have fs: "frame_step F w (?A \<union> F) w'" using frame_step_extend [OF C(1) L(1)] by simp
    have M: "agree_on F (w_mem w) (w_mem w') \<and> ?A \<inter> F = {}"
      using frame_step_mem [OF _ L(1) C(1)] by (simp add: Int_commute)
    have "?A \<subseteq> mapped w'" using C(1) by (auto simp: frame_step_def)
    then have "tl_owns os asz tsz (cs[k := Some (q, t)]) as w' (?A \<union> F) U"
      unfolding i(2) using M by (intro tl_put [OF o1 k None i(1) C(2,3)]) simp_all
    moreover have "agree_on (granted U) (w_mem w) (w_mem w')" using M agree_on_mono [OF _ tl_owns_granted [OF o]] by blast
    moreover have "ensure_cache os tsz topo cpu use (cs ! k) as w = (Inr (q, t), Some (q, t), w')"
      using None cr Inr qt by (simp add: ensure_cache_def)
    ultimately show ?thesis using fs
      by (intro exI [of _ "Inr (q, t)"] exI [of _ "Some (q, t)"] exI [of _ w'] exI [of _ "?A \<union> F"]) simp
  qed
qed

subsection \<open>Destruction\<close>

text \<open>The end of a thread, and the old cache in \<open>configure\<close>: every cached block goes back to its
  arena, the storage to the kernel.\<close>

lemma tl_destroy:
  assumes o: "tl_owns os asz tsz cs as w F U" and k: "k < length cs"
  shows "\<exists>as' w' F'. tc_destroy os tsz (cs ! k) as w = Some (as', w') \<and> length as' = length as \<and>
    tl_owns os asz tsz (cs[k := None]) as' w' F' U \<and> frame_step F w F' w' \<and>
    agree_on (granted U) (w_mem w) (w_mem w')"
proof (cases "cs ! k")
  case None
  have "cs[k := None] = cs" using None list_update_id [of cs k] by simp
  moreover have "frame_step F w F w" by (rule frame_step_refl [OF tl_owns_laws(1) [OF o]])
  ultimately show ?thesis using o None
    by (intro exI [of _ as] exI [of _ w] exI [of _ F]) (simp add: tc_destroy_def agree_on_def)
next
  case (Some qt)
  obtain q t where c: "cs ! k = Some (q, t)" using Some by (cases qt) auto
  obtain Fm V Q where inv: "pool_inv os asz cs as w Fm V Q" and sh: "shell os tsz (ptrs cs) w Fm"
    and F: "F = Fm \<union> shell_area os tsz (ptrs cs)" and U: "U = for_users V Q"
    and os: "os_ok os" and tsz: "arena_size_ok os tsz" and nd: "length as \<le> 2 ^ 31"
    using o unfolding tl_owns_def tl_inv_def by blast
  let ?t = "t\<lparr>tc_bins := replicate 40 empty_cache_bin\<rparr>"
  let ?cs = "cs[k := Some (q, ?t)]" and ?A = "bytes_of q (span_bytes os tsz)"
  obtain as' w1 F1 V' Q' where T: "tc_flush os t as w = Some (?t, as', w1)" "length as' = length as"
    "concat (Q' ! k) = []" "pool_inv os asz ?cs as' w1 F1 V' Q'" "frame_step Fm w F1 w1"
    "agree_on (granted (for_users V Q)) (w_mem w) (w_mem w1)" "for_users V' Q' = for_users V Q"
    using tc_flush_ok [OF inv k c] by (elim exE conjE)
  note S = shell_step [OF sh T(5)]
  let ?w = "vm_release os q tsz w1"
  have pk: "k < length (ptrs cs)" "ptrs cs ! k = Some q" using k c by simp_all
  note o1 = pool_invD(1) [OF T(4)]
  note R = shell_remove [OF S(1) pk os tsz mg_owns_laws(1) [OF o1]]
  have "k < length ?cs" using k by simp
  from pool_drop [OF T(4) this T(3)] have "pool_inv os asz (cs[k := None]) as' w1 F1 V' Q'" by simp
  then have "pool_inv os asz (cs[k := None]) as' ?w F1 V' Q'"
    by (rule pool_frame [OF _ R(3)]) (use R(4) in blast)
  then have o': "tl_owns os asz tsz (cs[k := None]) as' ?w (F1 \<union> shell_area os tsz ((ptrs cs)[k := None])) U"
    using R(1) os tsz nd T(2,7) U unfolding tl_owns_def tl_inv_def ptrs_update option.map by metis
  have fs: "frame_step F w (F1 \<union> shell_area os tsz ((ptrs cs)[k := None])) ?w"
    unfolding F by (rule frame_step_trans [OF S(2) R(2)])
  have gU: "granted U \<subseteq> F1"
    using for_users_granted [of V' Q'] mg_owns_laws(2) [OF o1] unfolding U T(7) [symmetric]
    by (fastforce simp: granted_def ran_def)
  have "agree_on (granted U) (w_mem w1) (w_mem ?w)"
    using frame_step_mem [OF _ _ R(3), of "granted U"] gU R(4) mg_owns_laws(1) [OF o1] by blast
  with T(6) have "agree_on (granted U) (w_mem w) (w_mem ?w)" unfolding U by (rule agree_on_trans)
  then show ?thesis using o' fs T(1,2) c
    by (intro exI [of _ as'] exI [of _ ?w] exI [of _ "F1 \<union> shell_area os tsz ((ptrs cs)[k := None])"])
      (simp add: tc_destroy_def)
qed

subsection \<open>\<open>configure\<close>\<close>

text \<open>Setting the switch changes nothing else.\<close>

lemma tl_switch:
  assumes o: "tl_owns os asz tsz cs as w F U" and k: "k < length cs" "cs ! k = Some (s, t)"
  shows "tl_owns os asz tsz (cs[k := Some (s, set_use_thread_cache use t)]) as w F U"
proof -
  obtain Fm V Q where inv: "tl_inv os asz tsz cs as w F Fm V Q" and U: "U = for_users V Q"
    using o unfolding tl_owns_def by blast
  have pi: "pool_inv os asz cs as w Fm V Q" using inv by (simp add: tl_inv_def)
  let ?t = "set_use_thread_cache use t"
  have "pool_inv os asz (cs[k := Some (s, ?t)]) as w Fm V Q"
    using caches_switch [OF pool_invD(5) [OF pi] k] pool_invD(1) [OF pi] by (simp add: pool_inv_def)
  then have "tl_inv os asz tsz (cs[k := Some (s, ?t)]) as w F Fm V Q"
    using inv by (simp add: tl_inv_def ptrs_same [OF k])
  then show ?thesis using o U unfolding tl_owns_def by blast
qed

text \<open>\<open>configure\<close> returns; the caches of the others, the blocks of all users and the rest of the
  memory are as before, also when it throws.\<close>

lemma tl_configure:
  assumes o: "tl_owns os asz tsz cs as w F U" and k: "k < length cs"
  shows "\<exists>r c' as' w' F'. owner_configure os tsz topo cpus use (cs ! k) as w = Some (r, c', as', w') \<and>
    length as' = length as \<and> tl_owns os asz tsz (cs[k := c']) as' w' F' U \<and> frame_step F w F' w' \<and>
    agree_on (granted U) (w_mem w) (w_mem w') \<and> (r = Inr () \<longrightarrow> (\<exists>p t. c' = Some (p, t) \<and> tc_use t = use))"
proof -
  obtain cpu cpu1 cpu2 where cpus: "cpus = (cpu, cpu1, cpu2)" by (metis prod_cases3)
  have os: "os_ok os" and tsz: "arena_size_ok os tsz" using o by (simp_all add: tl_owns_def)
  obtain r c1 w1 F1 where E: "ensure_cache os tsz topo cpu use (cs ! k) as w = (r, c1, w1)"
    "tl_owns os asz tsz (cs[k := c1]) as w1 F1 U" "frame_step F w F1 w1" "agree_on (granted U) (w_mem w) (w_mem w1)"
    "case r of Inl e \<Rightarrow> cs ! k = None \<and> c1 = None \<and> F1 = F | Inr qt \<Rightarrow> c1 = Some qt"
    using tl_ensure [OF o k, of topo cpu use] by (elim exE conjE)
  show ?thesis
  proof (cases r)
    case (Inl e)
    then have "owner_configure os tsz topo cpus use (cs ! k) as w = Some (Inl e, c1, as, w1)"
      using E(1) by (simp add: owner_configure_def cpus)
    then show ?thesis using E(2-4) by auto
  next
    case (Inr pt)
    obtain p t where pt: "pt = (p, t)" by (cases pt)
    have c1: "c1 = Some (p, t)" using E(5) by (simp add: Inr pt)
    let ?cs = "cs[k := Some (p, t)]"
    have o1: "tl_owns os asz tsz ?cs as w1 F1 U" using E(2) by (simp add: c1)
    have k1: "k < length ?cs" "?cs ! k = Some (p, t)" using k by simp_all
    note L = tl_owns_laws [OF o1]
    show ?thesis
    proof (cases "tc_node_id t = current_node_from_cpu topo cpu1")
      case True
      then have "owner_configure os tsz topo cpus use (cs ! k) as w =
          Some (Inr (), Some (p, set_use_thread_cache use t), as, w1)"
        using E(1) Inr by (simp add: owner_configure_def cpus pt)
      moreover have "tl_owns os asz tsz (cs[k := Some (p, set_use_thread_cache use t)]) as w1 F1 U"
        using tl_switch [OF o1 k1] by simp
      ultimately show ?thesis using E(3,4)
        by (intro exI [of _ "Inr ()"] exI [of _ "Some (p, set_use_thread_cache use t)"] exI [of _ as] exI [of _ w1]
            exI [of _ F1]) (simp add: set_use_thread_cache_def)
    next
      case False
      obtain r2 w2 where cr: "create_on_current_node os tsz topo cpu2 use as w1 = (r2, w2)" by fastforce
      show ?thesis
      proof (cases r2)
        case (Inl e)
        note C = create_Inl [OF os tsz cr [unfolded Inl]]
        note N = frame_step_nothing [OF C(1) L(1)]
        have "tl_owns os asz tsz ?cs as w2 F1 U" by (rule L(4) [OF C(1)]) simp
        moreover have "owner_configure os tsz topo cpus use (cs ! k) as w = Some (Inl e, Some (p, t), as, w2)"
          using E(1) Inr False cr Inl by (simp add: owner_configure_def cpus pt c1)
        moreover have "frame_step F w F1 w2" by (rule frame_step_trans [OF E(3) N(1)])
        moreover have "agree_on (granted U) (w_mem w) (w_mem w2)"
          by (rule agree_on_trans [OF E(4) agree_on_mono [OF N(2) tl_owns_granted [OF o1]]])
        ultimately show ?thesis by auto
      next
        case new: (Inr qt)
        obtain q t2 where qt: "qt = (q, t2)" by (cases qt)
        note C = create_Inr [OF os tsz cr [unfolded new qt]]
        let ?A = "bytes_of q (span_bytes os tsz)"
        obtain i where i: "i < length as" "t2 = tc_new i (int i) use" using C(4) by blast
        have o2: "tl_owns os asz tsz ?cs as w2 F1 U" by (rule L(4) [OF C(1)]) simp
        obtain as3 w3 F3 where D: "tc_destroy os tsz (?cs ! k) as w2 = Some (as3, w3)" "length as3 = length as"
          "tl_owns os asz tsz (?cs[k := None]) as3 w3 F3 U" "frame_step F1 w2 F3 w3"
          "agree_on (granted U) (w_mem w2) (w_mem w3)"
          using tl_destroy [OF o2 k1(1)] by (elim exE conjE)
        have A2: "?A \<subseteq> mapped w2" "F1 \<inter> ?A = {}" "agree_on F1 (w_mem w1) (w_mem w2)"
          using C(1) frame_step_mem [OF _ L(1) C(1)] by (auto simp: frame_step_def)
        then have dj: "?A \<inter> F1 = {}" by blast
        note A3 = frame_step_mem [OF dj A2(1) D(4)]
        have "tl_owns os asz tsz (?cs[k := None, k := Some (q, tc_new i (int i) use)]) as3 w3 (?A \<union> F3) U"
          using k A3 i(1) D(2) by (intro tl_put [OF D(3) _ _ _ C(2,3)]) simp_all
        then have "tl_owns os asz tsz (cs[k := Some (q, t2)]) as3 w3 (?A \<union> F3) U" by (simp add: i(2))
        moreover have "owner_configure os tsz topo cpus use (cs ! k) as w = Some (Inr (), Some (q, t2), as3, w3)"
          using E(1) Inr False cr new D(1) k by (simp add: owner_configure_def cpus pt qt c1)
        moreover have "frame_step F1 w1 (?A \<union> F1) w2" using frame_step_extend [OF C(1) L(1)] by simp
        then have "frame_step F w (F1 \<union> ?A) w2" using frame_step_trans [OF E(3)] by (simp add: Un_commute)
        then have "frame_step F w (F3 \<union> ?A) w3"
          by (rule frame_step_trans [OF _ frame_step_extend [OF D(4) A2(1) dj]])
        moreover have "agree_on (granted U) (w_mem w1) (w_mem w2)" by (rule agree_on_mono [OF A2(3) tl_owns_granted [OF o1]])
        then have "agree_on (granted U) (w_mem w) (w_mem w3)" using agree_on_trans E(4) D(5) by blast
        moreover have "tc_use t2 = use" by (simp add: i(2) tc_new_def)
        ultimately show ?thesis using D(2) by (metis Un_commute)
      qed
    qed
  qed
qed

subsection \<open>The resource as an allocator\<close>

text \<open>A thread that has a cache: both operations of the resource keep the contract.\<close>

lemma tl_get:
  assumes "cs ! k = Some (s, t)"
  shows "owner_get os tsz topo cpu (cs ! k) as w = (Inr (s, t), Some (s, t), w)"
  using assms by (simp add: owner_get_def ensure_cache_def)

type_synonym threads = "cache_ptr option list \<times> arena_ptr list"

definition thread_alloc ::
  "os \<Rightarrow> u64 \<Rightarrow> topology \<Rightarrow> int \<Rightarrow> nat \<Rightarrow> u64 \<times> u64 \<Rightarrow> threads \<Rightarrow> world \<Rightarrow> (ptr res \<times> threads \<times> world) option" where
  "thread_alloc os tsz topo cpu k r s w =
    (case numa_do_allocate os tsz topo cpu (fst r) (snd r) (fst s ! k) (snd s) w of
       None \<Rightarrow> None
     | Some (x, c, as, w1) \<Rightarrow> Some (x, ((fst s)[k := c], as), w1))"

definition thread_free ::
  "os \<Rightarrow> u64 \<Rightarrow> topology \<Rightarrow> int \<Rightarrow> nat \<Rightarrow> ptr \<Rightarrow> threads \<Rightarrow> world \<Rightarrow> (unit res \<times> threads \<times> world) option" where
  "thread_free os tsz topo cpu k p s w =
    (case numa_do_deallocate os tsz topo cpu p 0 0 (fst s ! k) (snd s) w of
       None \<Rightarrow> None
     | Some (x, c, as, w1) \<Rightarrow> Some (x, ((fst s)[k := c], as), w1))"

definition thread_owns :: "os \<Rightarrow> u64 \<Rightarrow> u64 \<Rightarrow> nat \<Rightarrow> threads \<Rightarrow> world \<Rightarrow> nat set \<Rightarrow> grants \<Rightarrow> bool" where
  "thread_owns os asz tsz k s w F U \<longleftrightarrow> k < length (fst s) \<and> fst s ! k \<noteq> None \<and>
     tl_owns os asz tsz (fst s) (snd s) w F U"

interpretation tla: allocator "thread_owns os asz tsz k" "thread_alloc os tsz topo cpu k"
    "thread_free os tsz topo cpu k" "\<lambda>s. ar_area" "ar_legal os" for os asz tsz topo cpu k
proof unfold_locales
  fix s :: threads and w F U assume own: "thread_owns os asz tsz k s w F U"
  obtain cs "as" where s: "s = (cs, as)" by (cases s)
  have o: "tl_owns os asz tsz cs as w F U" and k: "k < length cs" and ne: "cs ! k \<noteq> None"
    using own by (simp_all add: thread_owns_def s)
  obtain q t where c: "cs ! k = Some (q, t)" using ne by auto
  note laws = tl_owns_laws [OF o]
  show "F \<subseteq> mapped w" by (rule laws(1))
  show "A \<subseteq> F \<and> p \<noteq> nullptr" if "U p = Some A" for p A by (rule laws(2) [OF that])
  show "A \<inter> B = {}" if "U p = Some A" "U p' = Some B" "p \<noteq> p'" for p p' A B by (rule laws(3) [OF that])
  show "thread_owns os asz tsz k s w' F U" if "frame_step G w G' w'" "F \<inter> G = {}" for G w' G'
    using laws(4) [OF that] k ne by (simp add: thread_owns_def s)
  show "thread_owns os asz tsz k s (w\<lparr>w_mem := m'\<rparr>) F U" if "agree_on (- granted U) (w_mem w) m'" for m'
    using laws(5) [OF that] k ne by (simp add: thread_owns_def s)
  have run: "thread_alloc os tsz topo cpu k r s w =
      (case tc_allocate os (fst r) (snd r) t as w of None \<Rightarrow> None
       | Some (x, t1, as1, w1) \<Rightarrow> Some (x, (cs[k := Some (q, t1)], as1), w1))" for r
    by (simp add: thread_alloc_def numa_do_allocate_def s tl_get [OF c] split: option.split)
  note A = tl_allocate [OF o k c]
  show "thread_alloc os tsz topo cpu k r s w \<noteq> None" if lg: "ar_legal os r" for r
    using A [of "fst r" "snd r"] lg by (auto simp: run)
  show "U p = None \<and> agree_on (granted U) (w_mem w) (w_mem w') \<and>
      (\<exists>F'. thread_owns os asz tsz k s' w' F' (U(p \<mapsto> ar_area r p)) \<and> frame_step F w F' w')"
    if "ar_legal os r" "thread_alloc os tsz topo cpu k r s w = Some (Inr p, s', w')" for r p s' w'
    using A [of "fst r" "snd r"] that k by (auto simp: run thread_owns_def) blast
  show "agree_on (granted U) (w_mem w) (w_mem w') \<and>
      (\<exists>F'. thread_owns os asz tsz k s' w' F' U \<and> frame_step F w F' w')"
    if "ar_legal os r" "thread_alloc os tsz topo cpu k r s w = Some (Inl e, s', w')" for r e s' w'
    using A [of "fst r" "snd r"] that k by (auto simp: run thread_owns_def) blast
  have free: "thread_free os tsz topo cpu k p s w =
      (case tc_deallocate os p t as w of None \<Rightarrow> None
       | Some (x, t1, as1, w1) \<Rightarrow> Some (x, (cs[k := Some (q, t1)], as1), w1))" if "p \<noteq> nullptr" for p
    using that by (simp add: thread_free_def numa_do_deallocate_def s tl_get [OF c] split: option.split)
  have nn: "p \<noteq> nullptr" if "U p \<noteq> None" for p using laws(2) that by blast
  show "thread_free os tsz topo cpu k p s w \<noteq> None" if "U p \<noteq> None" for p
    using tl_deallocate [OF o k c that] free [OF nn [OF that]] by auto
  show "x = Inr () \<and> agree_on (granted (U(p := None))) (w_mem w) (w_mem w') \<and>
      (\<exists>F'. thread_owns os asz tsz k s' w' F' (U(p := None)) \<and> frame_step F w F' w')"
    if "U p \<noteq> None" "thread_free os tsz topo cpu k p s w = Some (x, s', w')" for p x s' w'
    using tl_deallocate [OF o k c that(1)] that(2) free [OF nn [OF that(1)]] k
    by (auto simp: thread_owns_def) blast
qed

text \<open>A thread with or without a cache. An error of the first use leaves every block in use.\<close>

lemma tl_do_allocate:
  assumes o: "tl_owns os asz tsz cs as w F U" and k: "k < length cs" and lg: "ar_legal os (sz, al)"
  shows "\<exists>r c' as' w' F'. numa_do_allocate os tsz topo cpu sz al (cs ! k) as w = Some (r, c', as', w') \<and>
    length as' = length as \<and> frame_step F w F' w' \<and> agree_on (granted U) (w_mem w) (w_mem w') \<and>
    (case r of
       Inl e \<Rightarrow> tl_owns os asz tsz (cs[k := c']) as' w' F' U
     | Inr p \<Rightarrow> U p = None \<and> p \<noteq> nullptr \<and> aligned_for al p \<and>
         (\<exists>s t. c' = Some (s, t) \<and> sint (bh_node_id (w_mem w') (from_user_ptr p)) = tc_node_id t) \<and>
         tl_owns os asz tsz (cs[k := c']) as' w' F' (U(p \<mapsto> ar_area (sz, al) p)))"
proof -
  obtain r c1 w1 F1 where E: "ensure_cache os tsz topo cpu True (cs ! k) as w = (r, c1, w1)"
    "tl_owns os asz tsz (cs[k := c1]) as w1 F1 U" "frame_step F w F1 w1" "agree_on (granted U) (w_mem w) (w_mem w1)"
    "case r of Inl e \<Rightarrow> cs ! k = None \<and> c1 = None \<and> F1 = F | Inr qt \<Rightarrow> c1 = Some qt"
    using tl_ensure [OF o k, of topo cpu True] by (elim exE conjE)
  show ?thesis
  proof (cases r)
    case (Inl e)
    then have "numa_do_allocate os tsz topo cpu sz al (cs ! k) as w = Some (Inl e, c1, as, w1)"
      using E(1) by (simp add: numa_do_allocate_def owner_get_def)
    then show ?thesis using E(2-4)
      by (intro exI [of _ "Inl e"] exI [of _ c1] exI [of _ as] exI [of _ w1] exI [of _ F1]) simp
  next
    case (Inr st)
    obtain s t where st: "st = (s, t)" by (cases st)
    have c1: "c1 = Some (s, t)" using E(5) by (simp add: Inr st)
    have k1: "k < length (cs[k := c1])" "cs[k := c1] ! k = Some (s, t)" using k by (simp_all add: c1)
    obtain x t' as' w' F' where A: "tc_allocate os sz al t as w1 = Some (x, t', as', w')" "length as' = length as"
      "frame_step F1 w1 F' w'" "agree_on (granted U) (w_mem w1) (w_mem w')"
      "case x of
         Inl e \<Rightarrow> tl_owns os asz tsz (cs[k := c1, k := Some (s, t')]) as' w' F' U
       | Inr p \<Rightarrow> U p = None \<and> p \<noteq> nullptr \<and> aligned_for al p \<and>
           sint (bh_node_id (w_mem w') (from_user_ptr p)) = tc_node_id t \<and>
           tl_owns os asz tsz (cs[k := c1, k := Some (s, t')]) as' w' F' (U(p \<mapsto> ar_area (sz, al) p))"
      using tl_allocate [OF E(2) k1 lg] by (elim exE conjE)
    have "tc_node_id t' = tc_node_id t"
      using A(1) by (auto simp: tc_allocate_def take_cached_def Let_def
          split: if_splits option.splits sum.splits prod.splits)
    moreover have "numa_do_allocate os tsz topo cpu sz al (cs ! k) as w = Some (x, Some (s, t'), as', w')"
      using E(1) A(1) by (simp add: numa_do_allocate_def owner_get_def Inr st)
    moreover have "frame_step F w F' w'" by (rule frame_step_trans [OF E(3) A(3)])
    moreover have "agree_on (granted U) (w_mem w) (w_mem w')" by (rule agree_on_trans [OF E(4) A(4)])
    ultimately show ?thesis using A(2,5)
      by (intro exI [of _ x] exI [of _ "Some (s, t')"] exI [of _ as'] exI [of _ w'] exI [of _ F']) (cases x; simp)
  qed
qed

lemma tl_do_deallocate:
  assumes o: "tl_owns os asz tsz cs as w F U" and k: "k < length cs" and p: "U p \<noteq> None"
  shows "\<exists>r c' as' w' F'. numa_do_deallocate os tsz topo cpu p bytes al (cs ! k) as w = Some (r, c', as', w') \<and>
    length as' = length as \<and> frame_step F w F' w' \<and> agree_on (granted (U(p := None))) (w_mem w) (w_mem w') \<and>
    (case r of
       Inl e \<Rightarrow> cs ! k = None \<and> tl_owns os asz tsz (cs[k := c']) as' w' F' U
     | Inr u \<Rightarrow> tl_owns os asz tsz (cs[k := c']) as' w' F' (U(p := None)))"
proof -
  obtain r c1 w1 F1 where E: "ensure_cache os tsz topo cpu True (cs ! k) as w = (r, c1, w1)"
    "tl_owns os asz tsz (cs[k := c1]) as w1 F1 U" "frame_step F w F1 w1" "agree_on (granted U) (w_mem w) (w_mem w1)"
    "case r of Inl e \<Rightarrow> cs ! k = None \<and> c1 = None \<and> F1 = F | Inr qt \<Rightarrow> c1 = Some qt"
    using tl_ensure [OF o k, of topo cpu True] by (elim exE conjE)
  have ag: "agree_on (granted (U(p := None))) (w_mem w) (w_mem w1)"
    by (rule agree_on_mono [OF E(4) granted_upd_None])
  have nn: "p \<noteq> nullptr" using tl_owns_laws(2) [OF o] p by blast
  show ?thesis
  proof (cases r)
    case (Inl e)
    then have "numa_do_deallocate os tsz topo cpu p bytes al (cs ! k) as w = Some (Inl e, c1, as, w1)"
      using E(1) nn by (simp add: numa_do_deallocate_def owner_get_def)
    then show ?thesis using E(2,3,5) ag Inl
      by (intro exI [of _ "Inl e"] exI [of _ c1] exI [of _ as] exI [of _ w1] exI [of _ F1]) simp
  next
    case (Inr st)
    obtain s t where st: "st = (s, t)" by (cases st)
    have c1: "c1 = Some (s, t)" using E(5) by (simp add: Inr st)
    have k1: "k < length (cs[k := c1])" "cs[k := c1] ! k = Some (s, t)" using k by (simp_all add: c1)
    obtain t' as' w' F' where D: "tc_deallocate os p t as w1 = Some (Inr (), t', as', w')" "length as' = length as"
      "frame_step F1 w1 F' w'" "agree_on (granted (U(p := None))) (w_mem w1) (w_mem w')"
      "tl_owns os asz tsz (cs[k := c1, k := Some (s, t')]) as' w' F' (U(p := None))"
      using tl_deallocate [OF E(2) k1 p] by (elim exE conjE)
    have "numa_do_deallocate os tsz topo cpu p bytes al (cs ! k) as w = Some (Inr (), Some (s, t'), as', w')"
      using E(1) D(1) nn by (simp add: numa_do_deallocate_def owner_get_def Inr st)
    moreover have "frame_step F w F' w'" by (rule frame_step_trans [OF E(3) D(3)])
    moreover have "agree_on (granted (U(p := None))) (w_mem w) (w_mem w')" by (rule agree_on_trans [OF ag D(4)])
    ultimately show ?thesis using D(2,5)
      by (intro exI [of _ "Inr ()"] exI [of _ "Some (s, t')"] exI [of _ as'] exI [of _ w'] exI [of _ F']) simp
  qed
qed

subsection \<open>Runs of all threads\<close>

text \<open>
  The program: \<open>n\<close> arenas, then any interleaving of the operations of the threads, each on the
  CPU where it happens to be. Blocks may be returned by any thread. A thread that ends gives
  its slot back and may come again.
\<close>

inductive tl_run ::
  "os \<Rightarrow> u64 \<Rightarrow> u64 \<Rightarrow> topology \<Rightarrow> nat \<Rightarrow> int \<Rightarrow> world \<Rightarrow> cache_ptr option list \<Rightarrow> arena_ptr list \<Rightarrow> world \<Rightarrow> grants \<Rightarrow> bool"
  for os asz tsz topo threads n w0
where
  start: "init_arenas os asz n w0 = Some (Inr as, w) \<Longrightarrow>
    tl_run os asz tsz topo threads n w0 (replicate threads None) as w Map.empty"
| take: "tl_run os asz tsz topo threads n w0 cs as w U \<Longrightarrow> k < length cs \<Longrightarrow> ar_legal os (sz, al) \<Longrightarrow>
    numa_do_allocate os tsz topo cpu sz al (cs ! k) as w = Some (Inr p, c', as', w') \<Longrightarrow>
    tl_run os asz tsz topo threads n w0 (cs[k := c']) as' w' (U(p \<mapsto> ar_area (sz, al) p))"
| fail: "tl_run os asz tsz topo threads n w0 cs as w U \<Longrightarrow> k < length cs \<Longrightarrow> ar_legal os (sz, al) \<Longrightarrow>
    numa_do_allocate os tsz topo cpu sz al (cs ! k) as w = Some (Inl e, c', as', w') \<Longrightarrow>
    tl_run os asz tsz topo threads n w0 (cs[k := c']) as' w' U"
| give: "tl_run os asz tsz topo threads n w0 cs as w U \<Longrightarrow> k < length cs \<Longrightarrow> U p \<noteq> None \<Longrightarrow>
    numa_do_deallocate os tsz topo cpu p bytes al (cs ! k) as w = Some (r, c', as', w') \<Longrightarrow>
    tl_run os asz tsz topo threads n w0 (cs[k := c']) as' w' (case r of Inl e \<Rightarrow> U | Inr u \<Rightarrow> U(p := None))"
| configure: "tl_run os asz tsz topo threads n w0 cs as w U \<Longrightarrow> k < length cs \<Longrightarrow>
    owner_configure os tsz topo cpus use (cs ! k) as w = Some (r, c', as', w') \<Longrightarrow>
    tl_run os asz tsz topo threads n w0 (cs[k := c']) as' w' U"
| exit: "tl_run os asz tsz topo threads n w0 cs as w U \<Longrightarrow> k < length cs \<Longrightarrow>
    tc_destroy os tsz (cs ! k) as w = Some (as', w') \<Longrightarrow>
    tl_run os asz tsz topo threads n w0 (cs[k := None]) as' w' U"
| fill: "tl_run os asz tsz topo threads n w0 cs as w U \<Longrightarrow> agree_on (- granted U) (w_mem w) m \<Longrightarrow>
    tl_run os asz tsz topo threads n w0 cs as (w\<lparr>w_mem := m\<rparr>) U"

lemma pool_start:
  assumes "mg_owns os asz as w F V"
  shows "pool_inv os asz (replicate n None) as w F V (replicate n [])"
    and "for_users V (replicate n []) = V"
proof -
  have "held_by (replicate n []) = {}" by (auto simp: held_by_def)
  then show "for_users V (replicate n []) = V" by (simp add: for_users_def restrict_map_def)
  show "pool_inv os asz (replicate n None) as w F V (replicate n [])" using assms by (simp add: pool_inv_def caches_ok_def slot_ok_def)
qed

lemma tl_start:
  assumes os: "os_ok os" and tsz: "arena_size_ok os tsz" and o: "mg_owns os asz as w F V" and n: "length as \<le> 2 ^ 31"
  shows "tl_owns os asz tsz (replicate threads None) as w F V"
proof -
  have ps: "ptrs (replicate threads None) = replicate threads None" by (simp add: ptrs_def)
  have a: "shell_area os tsz (replicate threads None) = {}" by (auto simp: shell_area_def slot_area_def)
  have "shell os tsz (replicate threads None) w F" by (simp add: shell_def a) (simp add: slot_area_def)
  then have "tl_inv os asz tsz (replicate threads None) as w F F V (replicate threads [])"
    using pool_start(1) [OF o] by (simp add: tl_inv_def ps a)
  then show ?thesis using os tsz n pool_start(2) [OF o, of threads] unfolding tl_owns_def by metis
qed

lemma tl_run_owns:
  assumes run: "tl_run os asz tsz topo threads n w0 cs as w U" and os: "os_ok os"
    and asz: "arena_size_ok os asz" and tsz: "arena_size_ok os tsz" and n: "n \<le> 2 ^ 31"
  shows "\<exists>F. tl_owns os asz tsz cs as w F U \<and> frame_step {} w0 F w \<and> length cs = threads \<and> length as = nat n"
  using run
proof induction
  case (start "as" w)
  from init_arenas_ok [OF os asz n, of w0] start have I: "length as = nat n" "frame_step {} w0 (storages os asz as) w"
    "mg_owns os asz as w (storages os asz as) Map.empty" by auto
  have "length as \<le> 2 ^ 31" using I(1) n by simp
  from tl_start [OF os tsz I(3) this, of threads] I show ?case by auto
next
  case (take cs "as" w U k sz al cpu p c' as' w')
  from take.IH obtain F where F: "tl_owns os asz tsz cs as w F U" "frame_step {} w0 F w" "length cs = threads"
    "length as = nat n" by blast
  obtain F' where F': "length as' = length as" "frame_step F w F' w'"
    "tl_owns os asz tsz (cs[k := c']) as' w' F' (U(p \<mapsto> ar_area (sz, al) p))"
    using tl_do_allocate [OF F(1) take.hyps(2,3), of topo cpu] take.hyps(4) by auto
  have "frame_step {} w0 F' w'" by (rule frame_step_trans [OF F(2) F'(2)])
  with F' F(3,4) show ?case by (metis length_list_update)
next
  case (fail cs "as" w U k sz al cpu e c' as' w')
  from fail.IH obtain F where F: "tl_owns os asz tsz cs as w F U" "frame_step {} w0 F w" "length cs = threads"
    "length as = nat n" by blast
  obtain F' where F': "length as' = length as" "frame_step F w F' w'" "tl_owns os asz tsz (cs[k := c']) as' w' F' U"
    using tl_do_allocate [OF F(1) fail.hyps(2,3), of topo cpu] fail.hyps(4) by auto
  have "frame_step {} w0 F' w'" by (rule frame_step_trans [OF F(2) F'(2)])
  with F' F(3,4) show ?case by (metis length_list_update)
next
  case (give cs "as" w U k p cpu bytes al r c' as' w')
  from give.IH obtain F where F: "tl_owns os asz tsz cs as w F U" "frame_step {} w0 F w" "length cs = threads"
    "length as = nat n" by blast
  obtain F' where F': "length as' = length as" "frame_step F w F' w'"
    "tl_owns os asz tsz (cs[k := c']) as' w' F' (case r of Inl e \<Rightarrow> U | Inr u \<Rightarrow> U(p := None))"
    using tl_do_deallocate [OF F(1) give.hyps(2,3), of topo cpu bytes al] give.hyps(4) by (cases r) auto
  have "frame_step {} w0 F' w'" by (rule frame_step_trans [OF F(2) F'(2)])
  with F' F(3,4) show ?case by (metis length_list_update)
next
  case (configure cs "as" w U k cpus use r c' as' w')
  from configure.IH obtain F where F: "tl_owns os asz tsz cs as w F U" "frame_step {} w0 F w" "length cs = threads"
    "length as = nat n" by blast
  obtain F' where F': "length as' = length as" "frame_step F w F' w'" "tl_owns os asz tsz (cs[k := c']) as' w' F' U"
    using tl_configure [OF F(1) configure.hyps(2), of topo cpus use] configure.hyps(3) by auto
  have "frame_step {} w0 F' w'" by (rule frame_step_trans [OF F(2) F'(2)])
  with F' F(3,4) show ?case by (metis length_list_update)
next
  case (exit cs "as" w U k as' w')
  from exit.IH obtain F where F: "tl_owns os asz tsz cs as w F U" "frame_step {} w0 F w" "length cs = threads"
    "length as = nat n" by blast
  obtain F' where F': "length as' = length as" "frame_step F w F' w'" "tl_owns os asz tsz (cs[k := None]) as' w' F' U"
    using tl_destroy [OF F(1) exit.hyps(2)] exit.hyps(3) by auto
  have "frame_step {} w0 F' w'" by (rule frame_step_trans [OF F(2) F'(2)])
  with F' F(3,4) show ?case by (metis length_list_update)
next
  case (fill cs "as" w U m)
  then obtain F where F: "tl_owns os asz tsz cs as w F U" "frame_step {} w0 F w" "length cs = threads" "length as = nat n"
    by blast
  have "agree_on (- F) (w_mem w) m" by (rule agree_on_mono [OF fill.hyps(2)]) (use tl_owns_granted [OF F(1)] in blast)
  then have "frame_step F w F (w\<lparr>w_mem := m\<rparr>)" by (rule frame_step_write [OF tl_owns_laws(1) [OF F(1)]])
  with F(2) have "frame_step {} w0 F (w\<lparr>w_mem := m\<rparr>)" by (rule frame_step_trans)
  then show ?case using tl_owns_laws(5) [OF F(1) fill.hyps(2)] F(3,4) by blast
qed

end
