(* ===== verification/Program_Runs.thy ===== *)
theory Program_Runs
  imports Thread_Owner
begin

section \<open>The whole program\<close>

text \<open>
  Where the components meet: \<open>get_numa_memory_resource\<close> with its two static resources, the
  topology that decides how many arenas there are and on which node a thread is, and the end
  of the program, when all threads and then the arenas go.
\<close>

subsection \<open>The default resources\<close>

text \<open>The two static objects of \<open>get_numa_memory_resource\<close> are constructed by the first call that
  reaches them; a constructor that throws leaves its object unconstructed for the next call.
  A resource is its member \<open>use_thread_cache_\<close>.\<close>

record numa_statics =
  st_default_resource :: "bool option"
  st_no_cache_resource :: "bool option"

type_synonym cpus = "int \<times> int \<times> int"

definition static_resource ::
  "os \<Rightarrow> u64 \<Rightarrow> topology \<Rightarrow> cpus \<Rightarrow> bool \<Rightarrow> bool option \<Rightarrow> cache_ptr option \<Rightarrow> arena_ptr list \<Rightarrow> world \<Rightarrow>
   (bool res \<times> cache_ptr option \<times> arena_ptr list \<times> world) option" where
  "static_resource os tsz topo cpus use_thread_cache st c as w =
    (case st of
       Some r \<Rightarrow> Some (Inr r, c, as, w)
     | None \<Rightarrow>
         (case numa_resource_new os tsz topo cpus use_thread_cache c as w of
            None \<Rightarrow> None
          | Some (Inl e, c1, as1, w1) \<Rightarrow> Some (Inl e, c1, as1, w1)
          | Some (Inr u, c1, as1, w1) \<Rightarrow> Some (Inr use_thread_cache, c1, as1, w1)))"

definition get_numa_memory_resource ::
  "os \<Rightarrow> u64 \<Rightarrow> topology \<Rightarrow> cpus \<times> cpus \<times> cpus \<Rightarrow> bool \<Rightarrow> numa_statics \<Rightarrow> cache_ptr option \<Rightarrow> arena_ptr list \<Rightarrow> world \<Rightarrow>
   (bool res \<times> numa_statics \<times> cache_ptr option \<times> arena_ptr list \<times> world) option" where
  "get_numa_memory_resource os tsz topo cpus use_thread_cache st c as w =
    (let (cpus1, cpus2, cpus3) = cpus in
     case static_resource os tsz topo cpus1 True (st_default_resource st) c as w of
       None \<Rightarrow> None
     | Some (Inl e, c1, as1, w1) \<Rightarrow> Some (Inl e, st, c1, as1, w1)
     | Some (Inr default_resource, c1, as1, w1) \<Rightarrow>
         (let st1 = st\<lparr>st_default_resource := Some default_resource\<rparr> in
          case static_resource os tsz topo cpus2 False (st_no_cache_resource st1) c1 as1 w1 of
            None \<Rightarrow> None
          | Some (Inl e, c2, as2, w2) \<Rightarrow> Some (Inl e, st1, c2, as2, w2)
          | Some (Inr no_cache_resource, c2, as2, w2) \<Rightarrow>
              (let st2 = st1\<lparr>st_no_cache_resource := Some no_cache_resource\<rparr> in
               case owner_configure os tsz topo cpus3 use_thread_cache c2 as2 w2 of
                 None \<Rightarrow> None
               | Some (Inl e, c3, as3, w3) \<Rightarrow> Some (Inl e, st2, c3, as3, w3)
               | Some (Inr u, c3, as3, w3) \<Rightarrow>
                   Some (Inr (if use_thread_cache then default_resource else no_cache_resource),
                     st2, c3, as3, w3))))"

definition statics_ok :: "numa_statics \<Rightarrow> bool" where
  "statics_ok st \<longleftrightarrow> st_default_resource st \<in> {None, Some True} \<and> st_no_cache_resource st \<in> {None, Some False}"

lemma static_resource_ok:
  assumes o: "tl_owns os asz tsz cs as w F U" and k: "k < length cs" and st: "st \<in> {None, Some use}"
  shows "\<exists>r c' as' w' F'. static_resource os tsz topo cpus use st (cs ! k) as w = Some (r, c', as', w') \<and>
    length as' = length as \<and> tl_owns os asz tsz (cs[k := c']) as' w' F' U \<and> frame_step F w F' w' \<and>
    agree_on (granted U) (w_mem w) (w_mem w') \<and> (\<forall>b. r = Inr b \<longrightarrow> b = use)"
proof (cases st)
  case None
  obtain r c' as' w' F' where C: "owner_configure os tsz topo cpus use (cs ! k) as w = Some (r, c', as', w')"
    "length as' = length as" "tl_owns os asz tsz (cs[k := c']) as' w' F' U" "frame_step F w F' w'"
    "agree_on (granted U) (w_mem w) (w_mem w')"
    using tl_configure [OF o k, of topo cpus use] by (elim exE conjE)
  define r' where "r' = (case r of Inl e \<Rightarrow> Inl e | Inr u \<Rightarrow> Inr use)"
  have "static_resource os tsz topo cpus use st (cs ! k) as w = Some (r', c', as', w')"
    using C(1) by (cases r) (simp_all add: static_resource_def numa_resource_new_def None r'_def)
  moreover have "\<forall>b. r' = Inr b \<longrightarrow> b = use" by (cases r) (simp_all add: r'_def)
  ultimately show ?thesis using C(2-5) by blast
next
  case (Some b)
  then have "b = use" using st by simp
  then show ?thesis using o k frame_step_refl [OF tl_owns_laws(1) [OF o]]
    by (intro exI [of _ "Inr use"] exI [of _ "cs ! k"] exI [of _ as] exI [of _ w] exI [of _ F])
      (simp add: static_resource_def Some)
qed

text \<open>The resource that is returned is the one asked for and the thread is configured for it;
  no block of a user is touched, whichever step throws.\<close>

lemma get_numa_memory_resource_ok:
  assumes o: "tl_owns os asz tsz cs as w F U" and k: "k < length cs" and st: "statics_ok st"
  shows "\<exists>r st' c' as' w' F'. get_numa_memory_resource os tsz topo cpus use st (cs ! k) as w = Some (r, st', c', as', w') \<and>
    statics_ok st' \<and> length as' = length as \<and> tl_owns os asz tsz (cs[k := c']) as' w' F' U \<and> frame_step F w F' w' \<and>
    agree_on (granted U) (w_mem w) (w_mem w') \<and>
    (\<forall>b. r = Inr b \<longrightarrow> b = use \<and> (\<exists>p t. c' = Some (p, t) \<and> tc_use t = use))"
proof -
  obtain cp1 cp2 cp3 where cpus: "cpus = (cp1, cp2, cp3)" by (metis prod_cases3)
  have s: "st_default_resource st \<in> {None, Some True}" "st_no_cache_resource st \<in> {None, Some False}"
    using st by (simp_all add: statics_ok_def)
  obtain r1 c1 as1 w1 F1 where A: "static_resource os tsz topo cp1 True (st_default_resource st) (cs ! k) as w = Some (r1, c1, as1, w1)"
    "length as1 = length as" "tl_owns os asz tsz (cs[k := c1]) as1 w1 F1 U" "frame_step F w F1 w1"
    "agree_on (granted U) (w_mem w) (w_mem w1)" "\<forall>b. r1 = Inr b \<longrightarrow> b = True"
    using static_resource_ok [OF o k s(1), of topo cp1] by (elim exE conjE)
  show ?thesis
  proof (cases r1)
    case (Inl e)
    then show ?thesis using A st
      by (intro exI [of _ "Inl e"] exI [of _ st] exI [of _ c1] exI [of _ as1] exI [of _ w1] exI [of _ F1])
        (simp add: get_numa_memory_resource_def cpus)
  next
    case (Inr b1)
    then have b1: "b1 = True" using A(6) by simp
    define st1 where "st1 = st\<lparr>st_default_resource := Some True\<rparr>"
    have s1: "statics_ok st1" "st_no_cache_resource st1 \<in> {None, Some False}"
      using s by (simp_all add: st1_def statics_ok_def)
    have k1: "k < length (cs[k := c1])" and at1: "cs[k := c1] ! k = c1" using k by simp_all
    obtain r2 c2 as2 w2 F2 where B: "static_resource os tsz topo cp2 False (st_no_cache_resource st1) c1 as1 w1 = Some (r2, c2, as2, w2)"
      "length as2 = length as1" "tl_owns os asz tsz (cs[k := c2]) as2 w2 F2 U" "frame_step F1 w1 F2 w2"
      "agree_on (granted U) (w_mem w1) (w_mem w2)" "\<forall>b. r2 = Inr b \<longrightarrow> b = False"
      using static_resource_ok [OF A(3) k1 s1(2), of topo cp2] unfolding at1 list_update_overwrite by (elim exE conjE)
    note fs2 = frame_step_trans [OF A(4) B(4)] and ag2 = agree_on_trans [OF A(5) B(5)]
    show ?thesis
    proof (cases r2)
      case r2: (Inl e)
      have "get_numa_memory_resource os tsz topo cpus use st (cs ! k) as w = Some (Inl e, st1, c2, as2, w2)"
        using A(1) B(1) by (simp add: get_numa_memory_resource_def cpus Inr b1 r2 st1_def)
      then show ?thesis using A(2) B(2,3) fs2 ag2 s1(1) by auto
    next
      case r2: (Inr b2)
      then have b2: "b2 = False" using B(6) by simp
      define st2 where "st2 = st1\<lparr>st_no_cache_resource := Some False\<rparr>"
      have s2: "statics_ok st2" by (simp add: st2_def st1_def statics_ok_def)
      have k2: "k < length (cs[k := c2])" and at2: "cs[k := c2] ! k = c2" using k by simp_all
      obtain r3 c3 as3 w3 F3 where C: "owner_configure os tsz topo cp3 use c2 as2 w2 = Some (r3, c3, as3, w3)"
        "length as3 = length as2" "tl_owns os asz tsz (cs[k := c3]) as3 w3 F3 U" "frame_step F2 w2 F3 w3"
        "agree_on (granted U) (w_mem w2) (w_mem w3)" "r3 = Inr () \<longrightarrow> (\<exists>p t. c3 = Some (p, t) \<and> tc_use t = use)"
        using tl_configure [OF B(3) k2, of topo cp3 use] unfolding at2 list_update_overwrite by (elim exE conjE)
      note fs3 = frame_step_trans [OF fs2 C(4)] and ag3 = agree_on_trans [OF ag2 C(5)]
      define r where "r = (case r3 of Inl e \<Rightarrow> Inl e | Inr u \<Rightarrow> Inr use)"
      have "get_numa_memory_resource os tsz topo cpus use st (cs ! k) as w = Some (r, st2, c3, as3, w3)"
        using A(1) B(1) C(1)
        by (cases r3) (simp_all add: get_numa_memory_resource_def cpus Inr b1 r2 b2 st1_def st2_def r_def Let_def)
      moreover have "\<forall>b. r = Inr b \<longrightarrow> b = use \<and> (\<exists>p t. c3 = Some (p, t) \<and> tc_use t = use)"
        using C(6) by (cases r3) (simp_all add: r_def)
      ultimately show ?thesis using A(2) B(2) C(2,3) fs3 ag3 s2 by auto
    qed
  qed
qed

subsection \<open>Topology and arenas\<close>

text \<open>With as many arenas as the topology has nodes, a thread on a known CPU finds the arena of
  its node: the only error of the first use is \<open>bad_alloc\<close>.\<close>

lemma cpu_node_range:
  assumes "topo_ok topo"
  shows "0 \<le> current_node_from_cpu topo cpu" and "current_node_from_cpu topo cpu < node_count topo"
proof -
  have "0 \<le> current_node_from_cpu topo cpu \<and> current_node_from_cpu topo cpu < node_count topo"
  proof (cases "0 \<le> cpu \<and> cpu < cpu_count topo")
    case True
    then have "is_valid_node topo (current_node_from_cpu topo cpu)" using cpu_node_valid(1) [OF assms] by simp
    then show ?thesis by (auto simp: is_valid_node_def split: if_splits)
  next
    case False
    then show ?thesis using assms by (auto simp: current_node_from_cpu_def topo_ok_def)
  qed
  then show "0 \<le> current_node_from_cpu topo cpu" "current_node_from_cpu topo cpu < node_count topo" by simp_all
qed

lemma create_finds_arena:
  assumes os: "os_ok os" and tsz: "arena_size_ok os tsz" and topo: "topo_ok topo" and n: "int (length as) = node_count topo"
    and cr: "create_on_current_node os tsz topo cpu use as w = (Inl e, w')"
  shows "e = Bad_alloc" and "frame_step {} w {} w'"
proof -
  have sz: "tsz \<noteq> 0" "fits_page os tsz" using tsz by (simp_all add: arena_size_ok_def)
  have "arena_for_node as (current_node_from_cpu topo cpu) = Inr (nat (current_node_from_cpu topo cpu))"
    using cpu_node_range [OF topo, of cpu] n by (simp add: arena_for_node_def)
  then have "vm_alloc_on_node os tsz (current_node_from_cpu topo cpu) Bind w = (Inl e, w')"
    using cr by (auto simp: create_on_current_node_def Let_def split: prod.splits sum.splits)
  from vm_alloc_on_node_Inl [OF os sz this] show "e = Bad_alloc" "frame_step {} w {} w'" by simp_all
qed

subsection \<open>The end\<close>

text \<open>The threads end one after the other, and the destructor of the manager deletes the arenas.\<close>

fun exit_threads ::
  "os \<Rightarrow> u64 \<Rightarrow> cache_ptr option list \<Rightarrow> arena_ptr list \<Rightarrow> world \<Rightarrow> (arena_ptr list \<times> world) option" where
  "exit_threads os tsz [] as w = Some (as, w)"
| "exit_threads os tsz (c # cs) as w =
     (case tc_destroy os tsz c as w of
        None \<Rightarrow> None
      | Some (as1, w1) \<Rightarrow> exit_threads os tsz cs as1 w1)"

lemma exit_threads_ok:
  assumes "tl_owns os asz tsz (replicate n None @ cs) as w F U"
  shows "\<exists>as' w' F'. exit_threads os tsz cs as w = Some (as', w') \<and> length as' = length as \<and>
    tl_owns os asz tsz (replicate (n + length cs) None) as' w' F' U \<and> frame_step F w F' w' \<and>
    agree_on (granted U) (w_mem w) (w_mem w')"
  using assms
proof (induction cs arbitrary: n "as" w F)
  case Nil
  then show ?case using frame_step_refl [OF tl_owns_laws(1) [OF Nil]] by auto
next
  case (Cons c cs)
  have k: "n < length (replicate n None @ c # cs)" "(replicate n None @ c # cs) ! n = c" by (simp_all add: nth_append)
  obtain as1 w1 F1 where D: "tc_destroy os tsz c as w = Some (as1, w1)" "length as1 = length as"
    "tl_owns os asz tsz ((replicate n None @ c # cs)[n := None]) as1 w1 F1 U" "frame_step F w F1 w1"
    "agree_on (granted U) (w_mem w) (w_mem w1)"
    using tl_destroy [OF Cons.prems k(1)] unfolding k(2) by (elim exE conjE)
  have "(replicate n None @ c # cs)[n := None] = replicate (Suc n) None @ cs"
    by (simp add: list_update_append replicate_append_same [symmetric])
  then have o1: "tl_owns os asz tsz (replicate (Suc n) None @ cs) as1 w1 F1 U" using D(3) by simp
  obtain as' w' F' where E: "exit_threads os tsz cs as1 w1 = Some (as', w')" "length as' = length as1"
    "tl_owns os asz tsz (replicate (Suc n + length cs) None) as' w' F' U" "frame_step F1 w1 F' w'"
    "agree_on (granted U) (w_mem w1) (w_mem w')"
    using Cons.IH [OF o1] by (elim exE conjE)
  from frame_step_trans [OF D(4) E(4)] agree_on_trans [OF D(5) E(5)] D(1,2) E(1-3)
  show ?case by (intro exI [of _ as'] exI [of _ w'] exI [of _ F']) simp
qed

text \<open>Returning blocks maps nothing.\<close>

lemma mapped_own:
  assumes "ar_deallocate_own os p ar w = (r, ar', w')"
  shows "mapped w' \<subseteq> mapped w"
proof -
  have c: "mapped w' \<subseteq> mapped w" if "sc_deallocate os h sc w = (r, sc', w')" for h sc r sc'
  proof -
    have "mapped w' \<subseteq> mapped w" if "sc_release_extra os sc (w\<lparr>w_mem := m\<rparr>) = (sc', w')" for m
      using mapped_release_extra [OF that] by simp
    with that show ?thesis by (auto simp: sc_deallocate_def Let_def split: if_splits prod.splits)
  qed
  have l: "mapped w' \<subseteq> mapped w" if "la_deallocate os p la w = (la', w')" for la la'
    using that by (auto simp: la_deallocate_def Let_def split: if_splits prod.splits bool.splits
        dest: subsetD [OF mapped_vm_release])
  show ?thesis using assms
    by (auto simp: ar_deallocate_own_def sm_deallocate_def Let_def dest: c l split: if_splits prod.splits sum.splits)
qed

lemma mapped_drain_batch:
  assumes "drain_foreign_batch os ci batch sm w = Some (r, sm', w')"
  shows "mapped w' \<subseteq> mapped w"
  using assms
  by (auto simp: drain_foreign_batch_def sm_deallocate_batch_def Let_def dest!: mapped_batch split: if_splits option.splits prod.splits)

lemma mapped_foreign:
  assumes "ar_deallocate_foreign os p ar w = Some (r, ar', w')"
  shows "mapped w' \<subseteq> mapped w"
proof -
  have "mapped w' \<subseteq> mapped w" if "drain_foreign_batch os ci batch sm (w\<lparr>w_mem := m\<rparr>) = Some (r, sm', w')" for ci batch sm m sm'
    using mapped_drain_batch [OF that] by simp
  moreover have "mapped w' \<subseteq> mapped w" if "ar_deallocate_own os p ar w = (r, ar', w')"
    by (rule mapped_own [OF that])
  ultimately show ?thesis using assms
    by (auto simp: ar_deallocate_foreign_def enqueue_foreign_small_def Let_def split: if_splits option.splits prod.splits sum.splits)
qed

lemma mapped_mg_deallocate:
  assumes "mg_deallocate os i p as w = Some (r, as', w')"
  shows "mapped w' \<subseteq> mapped w"
  using assms
  by (auto simp: mg_deallocate_def ar_deallocate_def mg_route_def Let_def dest: mapped_own mapped_foreign
      split: if_splits option.splits prod.splits sum.splits)

lemma mapped_flush_bin:
  assumes "flush_bin os arena bin as w = Some y"
  shows "mapped (snd (snd y)) \<subseteq> mapped w"
proof (rule flush_bin.raw_induct [of "\<lambda>os arena bin as w y. mapped (snd (snd y)) \<subseteq> mapped w", OF _ assms])
  fix f os arena bin "as" w y
  assume 1: "\<And>os arena bin as w y. f os arena bin as w = Some y \<Longrightarrow> mapped (snd (snd y)) \<subseteq> mapped w"
    "(if cb_head bin = nullptr then Some (bin, as, w)
     else
       let header = cb_head bin;
           bin = bin\<lparr>cb_head := next_link (w_mem w) header\<rparr>;
           bin = bin\<lparr>cb_count := cb_count bin - 1\<rparr>;
           bin = bin\<lparr>cb_bytes := cb_bytes bin - ucast (bh_size_class (w_mem w) header)\<rparr>
       in case mg_deallocate os arena (to_user_ptr header) as w of
            None \<Rightarrow> None
          | Some (r, as1, w1) \<Rightarrow> f os arena bin as1 w1) = Some y"
  show "mapped (snd (snd y)) \<subseteq> mapped w"
  proof (cases "cb_head bin = nullptr")
    case True
    then show ?thesis using 1(2) by auto
  next
    case False
    then obtain r as1 w1 b where D: "mg_deallocate os arena (to_user_ptr (cb_head bin)) as w = Some (r, as1, w1)"
      and F: "f os arena b as1 w1 = Some y" using 1(2) by (auto simp: Let_def split: option.splits prod.splits)
    from 1(1) [OF F] mapped_mg_deallocate [OF D] show ?thesis by blast
  qed
qed

lemma mapped_flush_bins: "flush_bins os arena bins as w = Some (bins', as', w') \<Longrightarrow> mapped w' \<subseteq> mapped w"
proof (induction bins arbitrary: bins' "as" w)
  case (Cons bin bins)
  obtain b as1 w1 bs where D: "flush_bin os arena bin as w = Some (b, as1, w1)"
    and F: "flush_bins os arena bins as1 w1 = Some (bs, as', w')" using Cons.prems by (auto split: option.splits)
  from Cons.IH [OF F] mapped_flush_bin [OF D] show ?case by auto
qed simp

lemma mapped_tc_destroy: "tc_destroy os tsz c as w = Some (as', w') \<Longrightarrow> mapped w' \<subseteq> mapped w"
  using mapped_flush_bins mapped_vm_release
  by (fastforce simp: tc_destroy_def tc_flush_def split: option.splits prod.splits)

lemma mapped_exit_threads: "exit_threads os tsz cs as w = Some (as', w') \<Longrightarrow> mapped w' \<subseteq> mapped w"
proof (induction cs arbitrary: "as" w)
  case (Cons c cs)
  obtain as1 w1 where D: "tc_destroy os tsz c as w = Some (as1, w1)" "exit_threads os tsz cs as1 w1 = Some (as', w')"
    using Cons.prems by (auto split: option.splits)
  from Cons.IH [OF D(2)] mapped_tc_destroy [OF D(1)] show ?case by blast
qed simp

lemma tc_destroy_unmaps:
  assumes o: "tl_owns os asz tsz cs as w F U" and k: "k < length cs" and d: "tc_destroy os tsz (cs ! k) as w = Some (as', w')"
  shows "slot_area os tsz (ptrs cs ! k) \<inter> mapped w' = {}"
proof (cases "cs ! k")
  case None
  then show ?thesis using k by (simp add: slot_area_def)
next
  case (Some qt)
  obtain q t where c: "cs ! k = Some (q, t)" using Some by (cases qt) auto
  obtain Fm where sh: "shell os tsz (ptrs cs) w Fm" and os: "os_ok os" and tsz: "arena_size_ok os tsz"
    using o unfolding tl_owns_def tl_inv_def by blast
  have "ptrs cs ! k = Some q" "k < length (ptrs cs)" using k c by simp_all
  then have q: "q \<noteq> nullptr" "unat (page_size os) dvd unat q" using sh by (auto simp: shell_def)
  obtain w1 where "w' = vm_release os q tsz w1" using d c by (auto simp: tc_destroy_def split: option.splits prod.splits)
  then show ?thesis
    using vm_release_unmaps [OF os q(1) _ _ q(2), of tsz w1] tsz \<open>ptrs cs ! k = Some q\<close>
    by (simp add: slot_area_def arena_size_ok_def)
qed

lemma exit_threads_unmaps:
  assumes "tl_owns os asz tsz (replicate n None @ cs) as w F U" and "exit_threads os tsz cs as w = Some (as', w')"
  shows "shell_area os tsz (ptrs cs) \<inter> mapped w' = {}"
  using assms
proof (induction cs arbitrary: n "as" w F)
  case Nil
  then show ?case by (simp add: ptrs_def shell_area_def)
next
  case (Cons c cs)
  have k: "n < length (replicate n None @ c # cs)" "(replicate n None @ c # cs) ! n = c" by (simp_all add: nth_append)
  obtain as1 w1 where D: "tc_destroy os tsz c as w = Some (as1, w1)" and E: "exit_threads os tsz cs as1 w1 = Some (as', w')"
    using Cons.prems(2) by (auto split: option.splits)
  obtain F1 where o1: "tl_owns os asz tsz ((replicate n None @ c # cs)[n := None]) as1 w1 F1 U"
    using tl_destroy [OF Cons.prems(1) k(1)] D unfolding k(2) by auto
  have "(replicate n None @ c # cs)[n := None] = replicate (Suc n) None @ cs"
    by (simp add: list_update_append replicate_append_same)
  with o1 have IH: "shell_area os tsz (ptrs cs) \<inter> mapped w' = {}" using Cons.IH E by metis
  have "slot_area os tsz (map_option fst c) \<inter> mapped w1 = {}"
    using tc_destroy_unmaps [OF Cons.prems(1) k(1)] D k by simp
  then have "slot_area os tsz (map_option fst c) \<inter> mapped w' = {}" using mapped_exit_threads [OF E] by blast
  moreover have "shell_area os tsz (ptrs (c # cs)) = slot_area os tsz (map_option fst c) \<union> shell_area os tsz (ptrs cs)"
    by (auto simp: shell_area_def ptrs_def less_Suc_eq_0_disj)
  ultimately show ?case using IH by blast
qed

text \<open>What the arenas have in store is unmapped when they are deleted.\<close>

definition arenas_store :: "os \<Rightarrow> arena_ptr list \<Rightarrow> nat set" where
  "arenas_store os as = (\<Union>a\<in>set as. arena_store os (snd a))"

lemma delete_arenas_gives_back:
  assumes "\<forall>i<length as. \<exists>U. arp_owns os asz (as ! i) w (Fs ! i) U" and "length Fs = length as"
    and "\<forall>i<length as. \<forall>j<length as. i \<noteq> j \<longrightarrow> Fs ! i \<inter> Fs ! j = {}"
    and asz: "arena_size_ok os asz"
  shows "\<exists>w'. delete_arenas os asz as w = Some w' \<and> gives_back (fam Fs) w w' \<and>
    (storages os asz as \<union> arenas_store os as) \<inter> mapped w' = {}"
  using assms(1-3)
proof (induction "as" arbitrary: w Fs)
  case Nil
  have "frame_step {} w {} w" by (rule frame_step_refl) simp
  then have "gives_back {} w w" by (rule gives_back_all)
  moreover have "fam Fs = {}" using Nil.prems(2) by (simp add: fam_def)
  ultimately show ?case by (simp add: storages_def arenas_store_def)
next
  case (Cons a "as")
  obtain G Gs where Fs: "Fs = G # Gs" "length Gs = length as" using Cons.prems(2) by (cases Fs) auto
  obtain U where o: "arp_owns os asz a w G U" using Cons.prems(1) by (auto simp: Fs)
  obtain w1 where w1: "arena_deleter os asz a w = Some w1" "gives_back G w w1"
    "(storage os asz a \<union> arena_store os (snd a)) \<inter> mapped w1 = {}"
    using arena_deleter_gives_back [OF o asz] by blast
  obtain R where R: "R \<subseteq> G" "frame_step G w R w1" using w1(2) unfolding gives_back_def by blast
  have dj: "Gs ! i \<inter> G = {}" if "i < length as" for i
    using Cons.prems(3) [rule_format, of "Suc i" 0] that by (simp add: Fs)
  have rest: "\<exists>U. arp_owns os asz (as ! i) w (Gs ! i) U" if "i < length as" for i
    using Cons.prems(1) [rule_format, of "Suc i"] that by (simp add: Fs)
  have rest1: "\<forall>i<length as. \<exists>U. arp_owns os asz (as ! i) w1 (Gs ! i) U"
    using rest arp_owns_laws(4) [OF _ R(2) dj] by blast
  have ap: "\<forall>i<length as. \<forall>j<length as. i \<noteq> j \<longrightarrow> Gs ! i \<inter> Gs ! j = {}"
    using Cons.prems(3) [rule_format, of "Suc _" "Suc _"] by (simp add: Fs)
  obtain w' where w': "delete_arenas os asz as w1 = Some w'" "gives_back (fam Gs) w1 w'"
    "(storages os asz as \<union> arenas_store os as) \<inter> mapped w' = {}"
    using Cons.IH [OF rest1 Fs(2) ap] by blast
  have GG: "G \<inter> fam Gs = {}" using dj fam_nth [OF Fs(2)] by blast
  have sub: "fam Gs \<subseteq> mapped w"
    unfolding fam_nth [OF Fs(2)] using rest by (auto dest: arp_owns_laws(1))
  have "gives_back (fam Fs) w w'"
    using gives_back_Un [OF w1(2) w'(2) GG sub] by (simp add: Fs fam_def)
  moreover have sub1: "fam Gs \<subseteq> mapped w1"
    unfolding fam_nth [OF Fs(2)] using rest1 by (auto dest: arp_owns_laws(1))
  obtain S where "S \<subseteq> fam Gs" "frame_step (fam Gs) w1 S w'" using w'(2) unfolding gives_back_def by blast
  then have "mapped w' \<subseteq> mapped w1" using sub1 unfolding frame_step_def by blast
  then have "(storages os asz (a # as) \<union> arenas_store os (a # as)) \<inter> mapped w' = {}"
    using w1(3) w'(3) unfolding storages_def arenas_store_def by auto
  ultimately show ?case using w1(1) w'(1) by simp
qed

text \<open>At the end of the program the threads return what their caches hold, so that the arenas have
  exactly the blocks of the users in use; then they go with all that they have in store. Memory of others
  is as it was.\<close>

lemma program_end:
  assumes o: "tl_owns os asz tsz cs as w F U" and asz: "arena_size_ok os asz"
  shows "\<exists>as' w1 w' F'. exit_threads os tsz cs as w = Some (as', w1) \<and> delete_arenas os asz as' w1 = Some w' \<and>
    mg_owns os asz as' w1 F' U \<and> frame_step F w F' w1 \<and> gives_back F' w1 w' \<and>
    (shell_area os tsz (ptrs cs) \<union> storages os asz as' \<union> arenas_store os as') \<inter> mapped w' = {}"
proof -
  have o0: "tl_owns os asz tsz (replicate 0 None @ cs) as w F U" using o by simp
  from exit_threads_ok [OF this] obtain as' w1 F' where E: "exit_threads os tsz cs as w = Some (as', w1)"
    "tl_owns os asz tsz (replicate (0 + length cs) None) as' w1 F' U" "frame_step F w F' w1"
    by (elim exE conjE)
  obtain Fm V Q where inv: "tl_inv os asz tsz (replicate (length cs) None) as' w1 F' Fm V Q" and U: "U = for_users V Q"
    using E(2) unfolding tl_owns_def by auto
  have "F' = Fm" using inv by (auto simp: tl_inv_def shell_area_def slot_area_def ptrs_def)
  then have mV: "mg_owns os asz as' w1 F' V" and ok: "caches_ok (length as') (replicate (length cs) None) (w_mem w1) V Q"
    using inv by (simp_all add: tl_inv_def pool_inv_def)
  have "concat q = []" if q: "q \<in> set Q" for q
  proof -
    obtain k where k: "k < length Q" "q = Q ! k" using q by (auto simp: in_set_conv_nth)
    then show ?thesis using ok by (auto simp: caches_ok_def slot_ok_def)
  qed
  then have "held_by Q = {}" by (auto simp: held_by_def)
  then have VU: "V = U" by (simp add: U for_users_def restrict_map_def)
  obtain Fs Us where mg: "mg_inv os asz as' w1 Fs Us" "F' = fam Fs" using mV unfolding mg_owns_def by blast
  have "\<exists>w'. delete_arenas os asz as' w1 = Some w' \<and> gives_back (fam Fs) w1 w' \<and>
      (storages os asz as' \<union> arenas_store os as') \<inter> mapped w' = {}"
    using mg(1) by (intro delete_arenas_gives_back [OF _ _ _ asz]) (auto simp: mg_inv_def)
  then obtain w' where D: "delete_arenas os asz as' w1 = Some w'" "gives_back F' w1 w'"
    "(storages os asz as' \<union> arenas_store os as') \<inter> mapped w' = {}" using mg(2) by blast
  have "F' \<subseteq> mapped w1" by (rule mg_owns_laws(1) [OF mV])
  moreover obtain S where "S \<subseteq> F'" "frame_step F' w1 S w'" using D(2) unfolding gives_back_def by blast
  ultimately have "mapped w' \<subseteq> mapped w1" unfolding frame_step_def by blast
  with exit_threads_unmaps [OF o0 E(1)] have "shell_area os tsz (ptrs cs) \<inter> mapped w' = {}" by blast
  then show ?thesis using E(1,3) D mV VU by (intro exI [of _ as'] exI [of _ w1] exI [of _ w'] exI [of _ F']) auto
qed

end
