(* ===== verification/Reuse.thy ===== *)
theory Reuse
  imports Class_Runs Program_Runs
begin

section \<open>What comes back is handed out again\<close>

text \<open>
  The round trips of the three stores of free memory: a slab, the bin of a thread's cache and
  the span cache of the large allocator are stacks. What was returned last is taken next, the
  counters are what they were, and neither the arena nor the kernel is asked. The theory
  also collects the bounds on the memory that the stores may hold back.
\<close>

subsection \<open>A slab\<close>

text \<open>Taking a block and returning it leaves the list of free blocks as it was.\<close>

lemma slab_take_give:
  assumes place: "slab_place s bs" and ok: "slab_ok m bs s" and hf: "slab_has_free m s"
    and al: "slab_allocate_block s m = (b, m1)"
  shows "slab_free (slab_free_block s b m1) s = slab_free m s"
    and "slab_live (slab_free_block s b m1) bs s = slab_live m bs s"
    and "slab_ok (slab_free_block s b m1) bs s"
proof -
  note A = slab_allocate_block_ok [OF place ok hf al]
  have b: "b \<in> slab_live m1 bs s" using A(5) by simp
  note G = slab_free_block_ok [OF place A(2) b]
  show "slab_free (slab_free_block s b m1) s = slab_free m s" using G(1) A(1) by simp
  show "slab_live (slab_free_block s b m1) bs s = slab_live m bs s" using G(3) A(4,5) by auto
  show "slab_ok (slab_free_block s b m1) bs s" by (rule G(2))
qed

text \<open>Returning a block and taking one yields the same block.\<close>

lemma slab_give_take:
  assumes place: "slab_place s bs" and ok: "slab_ok m bs s" and b: "b \<in> slab_live m bs s"
    and m1: "m1 = slab_free_block s b m" and al: "slab_allocate_block s m1 = (c, m2)"
  shows "c = b" and "slab_free m2 s = slab_free m s" and "slab_live m2 bs s = slab_live m bs s"
proof -
  note G = slab_free_block_ok [OF place ok b, folded m1]
  have "slab_has_free m1 s" using G(1) slab_has_free_iff [OF place G(2)] by simp
  note A = slab_allocate_block_ok [OF place G(2) this al]
  show "c = b" and "slab_free m2 s = slab_free m s" using A(1) G(1) by simp_all
  then show "slab_live m2 bs s = slab_live m bs s" using A(5) G(3) b by auto
qed

subsection \<open>The cache of a thread\<close>

lemma link_keeps_class:
  assumes "unat h + 40 \<le> 18446744073709551616"
  shows "bh_size_class (set_next_link h v m) h = bh_size_class m h"
proof -
  have "unat (h + 4) = unat h + 4" "unat (h + 32) = unat h + 32"
    using assms by (intro unat_plus_numeral; simp)+
  then have "bytes_of (h + 4) 4 \<inter> bytes_of (h + 32) 8 = {}" by (auto simp: bytes_of_def)
  then show ?thesis by (simp add: header_field_defs user_ptr_defs load32_store64_apart)
qed

lemma cache_take_back:
  assumes h: "h \<noteq> nullptr" "unat h + 40 \<le> 18446744073709551616" and i: "i < length (tc_bins t)"
    and cb: "cache_block h i t m = (True, t1, m1)"
  shows "take_cached i t1 m1 = (h, t)"
proof -
  let ?b = "tc_bins t ! i" and ?c = "ucast (bh_size_class m h) :: u64"
  have t1: "t1 = t\<lparr>tc_bins := (tc_bins t)[i := ?b\<lparr>cb_head := h, cb_count := cb_count ?b + 1, cb_bytes := cb_bytes ?b + ?c\<rparr>]\<rparr>"
    and m1: "m1 = set_next_link h (cb_head ?b) m"
    using cb by (auto simp: cache_block_def Let_def split: if_splits)
  have "next_link m1 h = cb_head ?b" unfolding m1 by (rule fl.link_set_same)
  moreover have "bh_size_class m1 h = bh_size_class m h" unfolding m1 by (rule link_keeps_class [OF h(2)])
  ultimately show ?thesis
    using h(1) i by (simp add: take_cached_def t1 Let_def)
qed

text \<open>A block that the cache keeps serves the next request of its class on the same thread:
  the arenas are not touched, and of the memory only the link in the block is written.\<close>

lemma cache_serves_next:
  assumes use: "tc_use t" and len: "length (tc_bins t) = 40"
    and p: "unat p + 8 \<le> 18446744073709551616" "32 < unat p" and h: "h = from_user_ptr p"
    and hd: "sint (bh_node_id (w_mem w) h) = tc_node_id t" "bh_size_class (w_mem w) h = ucast (kClassSizes ! i)" "i < 40"
    and cb: "cache_block h i t (w_mem w) = (True, t1, m1)"
    and rq: "class_index_for_size (at_least_one sz) = Inr (of_nat i)" "is_small (at_least_one sz) al"
  shows "tc_deallocate os p t as w = Some (Inr (), t1, as, w\<lparr>w_mem := m1\<rparr>)"
    and "tc_allocate os sz al t1 as (w\<lparr>w_mem := m1\<rparr>) = Some (Inr p, t, as, w\<lparr>w_mem := m1\<rparr>)"
proof -
  have nn: "p \<noteq> nullptr" using p by auto
  have uh: "unat h = unat p - 32" unfolding h user_ptr_defs using p by (subst unat_sub_u64) simp_all
  have hn: "h \<noteq> nullptr" "unat h + 40 \<le> 18446744073709551616" using uh p by auto
  have cls: "(ucast (ucast (kClassSizes ! i) :: u32) :: u64) = kClassSizes ! i" by (rule ucast_class_size [OF hd(3)])
  have ui: "unat (of_nat i :: u64) = i" using hd(3) by (simp add: unat_of_nat_u64)
  note nz = class_nz [OF hd(3)] and ci = class_index_of_class [OF hd(3)]
  show "tc_deallocate os p t as w = Some (Inr (), t1, as, w\<lparr>w_mem := m1\<rparr>)"
    using nn use hd(1,2) nz ci cb by (simp add: tc_deallocate_def h [symmetric] cls ui)
  have "take_cached i t1 m1 = (h, t)" using len hd(3) by (intro cache_take_back [OF hn _ cb]) simp
  moreover have "tc_use t1" using cb use by (auto simp: cache_block_def Let_def split: if_splits)
  moreover have "to_user_ptr h = p" by (simp add: h)
  ultimately show "tc_allocate os sz al t1 as (w\<lparr>w_mem := m1\<rparr>) = Some (Inr p, t, as, w\<lparr>w_mem := m1\<rparr>)"
    using hn(1) rq
    unfolding tc_allocate_def Let_def [of "if sz = 0 then 1 else sz"] at_least_one_def [symmetric] is_small_def
    by (simp add: ui)
qed

text \<open>What a cache may hold back, per class: at most the limit of \<open>SizeClassConfig\<close>, and its
  counters say so exactly.\<close>

lemma cache_counts:
  assumes c: "cache_ok n t m V q" and i: "i < 40"
  shows "\<exists>hs. chain (next_link m) (cb_head (tc_bins t ! i)) hs \<and> unat (cb_count (tc_bins t ! i)) = length hs \<and>
    unat (cb_bytes (tc_bins t ! i)) = length hs * unat (kClassSizes ! i)"
    and "cb_bytes (tc_bins t ! i) \<le> max_cached_bytes_for_class (kClassSizes ! i)"
    and "unat (cb_bytes (tc_bins t ! i)) \<le> 2097152"
proof -
  have b: "cache_bin_ok m i (tc_bins t ! i) (q ! i)" using c i by (simp add: cache_ok_def)
  then show "\<exists>hs. chain (next_link m) (cb_head (tc_bins t ! i)) hs \<and> unat (cb_count (tc_bins t ! i)) = length hs \<and>
      unat (cb_bytes (tc_bins t ! i)) = length hs * unat (kClassSizes ! i)"
    and le: "cb_bytes (tc_bins t ! i) \<le> max_cached_bytes_for_class (kClassSizes ! i)"
    by (auto simp: cache_bin_ok_def)
  show "unat (cb_bytes (tc_bins t ! i)) \<le> 2097152"
    using le max_cached_small [OF i] by (simp add: word_le_nat_alt)
qed

lemma cached_head:
  assumes c: "cache_ok n t m V q" and i: "i < 40" and h: "cb_count (tc_bins t ! i) \<noteq> 0"
  shows "cb_head (tc_bins t ! i) \<in> set (concat q) \<and> V (to_user_ptr (cb_head (tc_bins t ! i))) \<noteq> None"
proof -
  have b: "cache_bin_ok m i (tc_bins t ! i) (q ! i)" and l: "i < length q"
    and hd: "\<forall>h\<in>set (q ! i). held m V (int (tc_arena t)) i h" using c i by (auto simp: cache_ok_def)
  have "q ! i \<noteq> []" using b h by (auto simp: cache_bin_ok_def unat_eq_0)
  then obtain hs where "q ! i = cb_head (tc_bins t ! i) # hs"
    using b by (cases "q ! i") (auto simp: cache_bin_ok_def)
  then have m: "cb_head (tc_bins t ! i) \<in> set (q ! i)" by simp
  then have "cb_head (tc_bins t ! i) \<in> set (concat q)" using l by auto
  with m hd show ?thesis by (auto simp: held_def)
qed

subsection \<open>The span cache\<close>

lemma span_take_back:
  assumes wf: "la_wf la" and rel: "la_release_to_cache raw sz la = (True, la1)"
  shows "\<exists>la2. la_acquire_span os sz la1 w = (Inr (raw, sz), la2, w) \<and> la_wf la2 \<and>
    la_cached la2 = la_cached la \<and> la_node_id la2 = la_node_id la"
proof -
  note R = la_release_to_cache_ok [OF wf rel]
  have "sz \<in> set kLargeBinSizes" using R(5) by simp
  then obtain i where i: "i < 16" "sz = kLargeBinSizes ! i" by (auto simp: in_set_conv_nth)
  have ui: "unat (of_nat i :: u64) = i" using i(1) by (simp add: unat_of_nat_u64)
  have bi: "bin_index_for sz = of_nat i" and np: "(of_nat i :: u64) \<noteq> npos"
    using i bin_index_for_nth [OF i(1)] bin_index_for_cases [of sz] by auto
  let ?b = "la_bins la ! i"
  have len: "length (la_bins la) = 16" and bw: "bin_wf i ?b" using wf i(1) by (simp_all add: la_wf_def)
  define b1 where "b1 = ?b\<lparr>sb_spans := (sb_spans ?b)[unat (sb_count ?b) := (raw, sz)], sb_count := sb_count ?b + 1,
    sb_bytes := sb_bytes ?b + sz\<rparr>"
  have cnt: "unat (sb_count ?b) < 8" and la1: "la_bins la1 = (la_bins la)[i := b1]"
    using rel np ui
    by (auto simp: la_release_to_cache_def Let_def bi b1_def kMaxSpansPerLargeBin_def not_le word_less_nat_alt
        split: if_splits)
  have nb: "la_bins la1 ! i = b1" using i(1) len by (simp add: la1)
  have "unat (sb_count ?b + 1) = unat (sb_count ?b) + 1" using cnt by (subst unat_add_u64) auto
  then have ne: "sb_count b1 \<noteq> 0" by (auto simp: b1_def)
  have "find_bin (la_bins la1) i (Suc n) = Some i" for n using ne nb by simp
  moreover have "Suc (min 15 (i + 3)) - i = Suc (min 15 (i + 3) - i)" using i(1) by simp
  ultimately have hit: "find_bin (la_bins la1) i (Suc (min 15 (i + 3)) - i) = Some i" by simp
  obtain span la2 where tk: "take_cached_span i la1 = (span, la2)" by fastforce
  have sp: "span = (raw, sz)"
    using tk bw cnt by (auto simp: take_cached_span_def Let_def nb b1_def bin_wf_def)
  have acq: "la_acquire_span os sz la1 w = (Inr (raw, sz), la2, w)"
    using hit tk np by (simp add: la_acquire_span_def bi ui kLargeBinSearchLimit_def Let_def sp)
  have ne1: "sb_count (la_bins la1 ! i) \<noteq> 0" using ne nb by simp
  note T = take_cached_span_ok [OF R(1) i(1) ne1 tk]
  have "la_cached la2 = la_cached la" using T(2) R(2) by (simp add: sp)
  then show ?thesis using T(1,4) R(4) acq by auto
qed

text \<open>A large block that goes to the cache serves the next request with the same span class: the
  new block lies in the same span, and no system call is made, neither for the one nor for the
  other. Of the memory only the new header is written.\<close>

lemma large_reuse:
  assumes os: "os_ok os" and wf: "la_wf la" and p: "p \<noteq> nullptr" and hd: "raw = bh_raw_ptr (w_mem w) (from_user_ptr p)"
    "span = bh_total_size (w_mem w) (from_user_ptr p)" and place: "unat raw + unat span \<le> 2 ^ 63"
    and rel: "la_release_to_cache raw span la = (True, la1)"
    and legal: "large_legal os (sz, al)" and alignment: "alignment = (if al < 8 then 8 else al)"
    and cls: "span_class_size_for os (sz + alignment + sizeof_BlockHeader) = span"
  shows "la_deallocate os p la w = (la1, w)"
    and "\<exists>q la2 m. la_allocate os sz al la1 w = (Inr q, la2, w\<lparr>w_mem := m\<rparr>) \<and> la_cached la2 = la_cached la \<and>
      bh_raw_ptr m (from_user_ptr q) = raw \<and> bh_total_size m (from_user_ptr q) = span \<and>
      unat alignment dvd unat q \<and> unat raw + 32 \<le> unat q \<and> unat q + unat sz \<le> unat raw + unat span \<and>
      agree_on (- {unat q - 32 ..< unat q}) (w_mem w) m"
proof -
  show "la_deallocate os p la w = (la1, w)" using p rel by (simp add: la_deallocate_def Let_def hd)
  note T = large_total [OF os legal, folded alignment]
  obtain la2 where acq: "la_acquire_span os span la1 w = (Inr (raw, span), la2, w)" "la_cached la2 = la_cached la"
    using span_take_back [OF wf rel] by blast
  have "unat (sz + alignment + sizeof_BlockHeader) \<le> unat span"
  proof -
    have "sz + alignment + sizeof_BlockHeader \<noteq> 0" using T(1) by auto
    from span_class_size_for_ok(1) [OF os T(3) this] show ?thesis by (simp only: cls)
  qed
  then have fits: "unat sz + unat alignment + 32 \<le> unat span" by (simp only: T(1))
  obtain r m where fs: "la_allocate_from_span (la_node_id la1) sz alignment span raw (w_mem w) = (r, m)" by fastforce
  from la_allocate_from_span_ok [OF place T(4) fits fs] obtain q where
    P: "r = Inr q" "unat q = round_up (unat raw + 32) (unat alignment)" "unat raw + 32 \<le> unat q"
      "unat q + unat sz \<le> unat raw + unat span" "bh_raw_ptr m (from_user_ptr q) = raw"
      "bh_total_size m (from_user_ptr q) = span" "agree_on (- {unat q - 32 ..< unat q}) (w_mem w) m"
    by metis
  have "la_allocate os sz al la1 w = (r, la2, w\<lparr>w_mem := m\<rparr>)"
    unfolding la_allocate_def Let_def [of "if al < 8 then 8 else al"] alignment [symmetric] if_not_P [OF T(2)]
      Let_def cls acq(1) prod.case sum.case fst_conv snd_conv fs ..
  then show "\<exists>q la2 m. la_allocate os sz al la1 w = (Inr q, la2, w\<lparr>w_mem := m\<rparr>) \<and> la_cached la2 = la_cached la \<and>
      bh_raw_ptr m (from_user_ptr q) = raw \<and> bh_total_size m (from_user_ptr q) = span \<and>
      unat alignment dvd unat q \<and> unat raw + 32 \<le> unat q \<and> unat q + unat sz \<le> unat raw + unat span \<and>
      agree_on (- {unat q - 32 ..< unat q}) (w_mem w) m"
    using acq(2) P round_up_dvd [of "unat alignment" "unat raw + 32"] by auto
qed

subsection \<open>The foreign bins\<close>

text \<open>The loop that empties a bin to its low watermark stops at the first block that is below it.\<close>

lemma detach_low_loop_ends:
  assumes "detach_low_loop cls low batch bin m = Some (batch', bin', m')"
    and "unat (fl_bytes bin) = n * unat cls" and "cls \<noteq> 0"
  shows "(fl_head bin' = nullptr \<or> fl_bytes bin' \<le> low) \<and>
    (low < fl_bytes bin \<longrightarrow> unat low < unat (fl_bytes bin') + unat cls)"
  using assms
proof (induction n arbitrary: batch bin m)
  case 0
  then have "fl_bytes bin = 0" by (simp add: unat_eq_0)
  with 0 show ?case by (simp add: detach_low_loop.simps [of cls low batch bin m])
next
  case (Suc k)
  show ?case
  proof (cases "fl_head bin \<noteq> nullptr \<and> fl_bytes bin > low")
    case False
    then show ?thesis using Suc.prems(1)
      by (auto simp: detach_low_loop.simps [of cls low batch bin m] word_less_nat_alt word_le_nat_alt)
  next
    case True
    define bin1 where "bin1 = bin\<lparr>fl_head := next_link m (fl_head bin), fl_count := fl_count bin - 1, fl_bytes := fl_bytes bin - cls\<rparr>"
    obtain b1 m1 where F: "detach_low_loop cls low b1 bin1 m1 = Some (batch', bin', m')"
      using True Suc.prems(1) by (auto simp: detach_low_loop.simps [of cls low batch bin m] Let_def bin1_def)
    have b: "unat (fl_bytes bin1) = k * unat cls" using Suc.prems(2) by (simp add: bin1_def unat_sub_u64)
    note R = Suc.IH [OF F b Suc.prems(3)]
    show ?thesis
    proof (cases "low < fl_bytes bin1")
      case False
      then have "bin' = bin1" using F by (simp add: detach_low_loop.simps [of cls low b1 bin1 m1])
      then show ?thesis using False True Suc.prems(2) b by (simp add: word_less_nat_alt word_le_nat_alt)
    qed (use R in simp)
  qed
qed

lemma enqueue_levels:
  assumes core: "core_ok os node (ar_small ar) (ar_foreign_bins ar) (ar_foreign_bytes ar) Fs Us qs w"
    and i: "i < 40" and b: "b \<in> dom (Us ! i)" "b \<notin> set (qs ! i)"
    and run: "enqueue_foreign_small os b ar w = Some (r, ar', w')"
  defines "cs \<equiv> kClassSizes ! i" and "bin \<equiv> ar_foreign_bins ar ! i" and "bin' \<equiv> ar_foreign_bins ar' ! i"
  shows "(if unat (fl_bytes bin) + unat cs \<le> unat (foreign_high_watermark cs)
      then bin' = \<lparr>fl_head = b, fl_count = fl_count bin + 1, fl_bytes = fl_bytes bin + cs\<rparr> \<and>
        ar_small ar' = ar_small ar \<and> w' = w\<lparr>w_mem := set_next_link b (fl_head bin) (w_mem w)\<rparr>
      else unat (fl_bytes bin') \<le> unat (foreign_low_watermark cs) \<and>
        unat (foreign_low_watermark cs) < unat (fl_bytes bin') + unat cs) \<and>
    ar_foreign_bins ar' = (ar_foreign_bins ar)[i := bin'] \<and>
    unat (ar_foreign_bytes ar') + unat (fl_bytes bin) = unat (ar_foreign_bytes ar) + unat (fl_bytes bin')"
proof -
  define m1 where "m1 = set_next_link b (fl_head bin) (w_mem w)"
  define bin1 where "bin1 = bin\<lparr>fl_head := b, fl_count := fl_count bin + 1, fl_bytes := fl_bytes bin + cs\<rparr>"
  define fb1 where "fb1 = ar_foreign_bytes ar + cs"
  have owns: "sm_owns os (ar_small ar) w Fs Us"
    and bins: "bins_ok (w_mem w) (ar_foreign_bins ar) (ar_foreign_bytes ar) qs Us"
    and hdr: "headers_ok node (w_mem w) Us" using core by (simp_all add: core_ok_def)
  have sub: "set (qs ! i) \<subseteq> dom (Us ! i)" and ok0: "fbin_ok (w_mem w) i bin (qs ! i)" and len: "length (ar_foreign_bins ar) = 40"
    using bins i by (simp_all add: bins_ok_def bin_def)
  have hcs: "ucast (bh_size_class (w_mem w) b) = cs"
    using hdr i b(1) ucast_class_size [OF i] by (simp add: headers_ok_def cs_def)
  have ui: "unat (of_nat i :: u64) = i" using i by (simp add: unat_of_nat_u64)
  obtain k batch bin2 m2 where E: "k \<le> Suc (length (qs ! i))"
    "(if fl_bytes bin1 > foreign_high_watermark cs
      then detach_foreign_until_low_locked bin1 cs (foreign_low_watermark cs) m1
      else Some (empty_foreign, bin1, m1)) = Some (batch, bin2, m2)"
    "fbin_ok m2 i bin2 (drop k (b # qs ! i))" "unat (fl_bytes batch) = k * unat cs"
    "unat (fl_bytes bin2) + k * unat cs = unat (fl_bytes bin) + unat cs"
    using enqueue_bin_ok [OF owns i ok0 sub b] unfolding cs_def [symmetric] m1_def [symmetric] bin1_def [symmetric]
    by (elim exE conjE)
  define fb2 where "fb2 = (if fl_bytes batch \<noteq> 0 then fb1 - fl_bytes batch else fb1)"
  have cs4: "16 \<le> unat cs" "unat cs \<le> 4096" using kClassSizes_bounds(1,2) [OF i] by (simp_all add: cs_def)
  have fb1: "unat fb1 = unat (ar_foreign_bytes ar) + unat cs"
    unfolding fb1_def using bins_ok_bound [OF bins] cs4 by (intro unat_add_u64) simp
  have ble: "unat (fl_bytes bin) \<le> unat (ar_foreign_bytes ar)"
    using bins i nth_le_sum_list [of i "map (\<lambda>b. unat (fl_bytes b)) (ar_foreign_bins ar)"]
    by (simp add: bins_ok_def bin_def)
  have kle: "unat (fl_bytes batch) \<le> unat fb1" using E(4,5) ble fb1 by linarith
  have fb2: "unat fb2 = unat fb1 - unat (fl_bytes batch)" using kle by (simp add: fb2_def unat_sub_u64)
  have "\<exists>sm3 w3. drain_foreign_batch os (of_nat i) batch (ar_small ar) (w\<lparr>w_mem := m2\<rparr>) = Some (r, sm3, w3) \<and>
      ar' = ar\<lparr>ar_foreign_bins := (ar_foreign_bins ar)[i := bin2], ar_foreign_bytes := fb2, ar_small := sm3\<rparr> \<and> w' = w3"
    using run unfolding enqueue_foreign_small_def Let_def hcs class_index_of_class [OF i, folded cs_def] sum.case ui
      bin_def [symmetric] m1_def [symmetric] bin1_def [symmetric] E(2) fb1_def [symmetric]
    by (auto simp: fb2_def split: option.splits prod.splits)
  then obtain sm3 where D: "drain_foreign_batch os (of_nat i) batch (ar_small ar) (w\<lparr>w_mem := m2\<rparr>) = Some (r, sm3, w')"
    "ar' = ar\<lparr>ar_foreign_bins := (ar_foreign_bins ar)[i := bin2], ar_foreign_bytes := fb2, ar_small := sm3\<rparr>" by blast
  have b2: "bin' = bin2" using i len by (simp add: bin'_def D(2))
  have u1: "unat (fl_bytes bin1) = Suc (length (qs ! i)) * unat cs" "unat (fl_bytes bin1) = unat (fl_bytes bin) + unat cs"
    using ok0 bins_ok_bound [OF bins] ble cs4 by (simp_all add: bin1_def unat_add_u64 fbin_ok_def cs_def)
  have sum: "unat (ar_foreign_bytes ar') + unat (fl_bytes bin) = unat (ar_foreign_bytes ar) + unat (fl_bytes bin')"
    using fb2 fb1 E(4,5) kle unfolding b2 by (simp add: D(2))
  have cnz: "cs \<noteq> 0" using cs4 by auto
  have lev: "if unat (fl_bytes bin) + unat cs \<le> unat (foreign_high_watermark cs)
      then bin' = \<lparr>fl_head = b, fl_count = fl_count bin + 1, fl_bytes = fl_bytes bin + cs\<rparr> \<and>
        ar_small ar' = ar_small ar \<and> w' = w\<lparr>w_mem := m1\<rparr>
      else unat (fl_bytes bin') \<le> unat (foreign_low_watermark cs) \<and>
        unat (foreign_low_watermark cs) < unat (fl_bytes bin') + unat cs"
  proof (cases "fl_bytes bin1 > foreign_high_watermark cs")
    case False
    then have "batch = empty_foreign" "bin2 = bin1" "m2 = m1" using E(2) by simp_all
    then show ?thesis using False D u1(2)
      by (simp add: b2 bin1_def word_less_nat_alt drain_foreign_batch_def empty_foreign_def)
  next
    case True
    have low: "foreign_low_watermark cs \<le> foreign_high_watermark cs"
      by (simp add: foreign_low_watermark_def word_le_nat_alt unat_div)
    have "detach_low_loop cs (foreign_low_watermark cs) empty_foreign bin1 m1 = Some (batch, bin2, m2)"
      using True E(2) by (simp add: detach_foreign_until_low_locked_def)
    note R = detach_low_loop_ends [OF this u1(1) cnz]
    have "fl_head bin2 = nullptr \<Longrightarrow> fl_bytes bin2 = 0" using E(3) by (cases "drop k (b # qs ! i)") (auto simp: fbin_ok_def unat_eq_0)
    then show ?thesis using True R u1(2) low by (auto simp: b2 word_less_nat_alt word_le_nat_alt)
  qed
  show ?thesis using lev sum b2 unfolding m1_def by (simp add: D(2))
qed

text \<open>What a block that comes from another node does to its bin: below the high watermark it is
  queued and that is all; above it the bin is drained to the low watermark.\<close>

lemma foreign_return_levels:
  assumes o: "ar_owns os ar w F U" and p: "U p \<noteq> None" and en: "ar_foreign_freelist_enabled ar" and i: "i < 40"
    and c: "bh_size_class (w_mem w) (from_user_ptr p) = ucast (kClassSizes ! i)"
  shows "\<exists>ar' w' F'. ar_deallocate_foreign os p ar w = Some (Inr (), ar', w') \<and> ar_owns os ar' w' F' (U(p := None)) \<and>
    frame_step F w F' w' \<and> agree_on (granted (U(p := None))) (w_mem w) (w_mem w') \<and>
    (let cs = kClassSizes ! i; bin = ar_foreign_bins ar ! i; bin' = ar_foreign_bins ar' ! i in
     (if unat (fl_bytes bin) + unat cs \<le> unat (foreign_high_watermark cs)
      then bin' = \<lparr>fl_head = from_user_ptr p, fl_count = fl_count bin + 1, fl_bytes = fl_bytes bin + cs\<rparr> \<and>
        ar_small ar' = ar_small ar \<and> w' = w\<lparr>w_mem := set_next_link (from_user_ptr p) (fl_head bin) (w_mem w)\<rparr>
      else unat (fl_bytes bin') \<le> unat (foreign_low_watermark cs) \<and>
        unat (foreign_low_watermark cs) < unat (fl_bytes bin') + unat cs) \<and>
     ar_foreign_bins ar' = (ar_foreign_bins ar)[i := bin'] \<and>
     unat (ar_foreign_bytes ar') + unat (fl_bytes bin) = unat (ar_foreign_bytes ar) + unat (fl_bytes bin'))"
proof -
  obtain Fs Us qs lv where inv: "ar_inv os ar Fs Us qs lv w" and g: "ar_grants (us_of Us qs) lv U"
    and F: "F = ar_foot ar Fs lv" using o unfolding ar_owns_def by blast
  have nz: "bh_size_class (w_mem w) (from_user_ptr p) \<noteq> 0"
  proof
    assume "bh_size_class (w_mem w) (from_user_ptr p) = 0"
    then have "kClassSizes ! i = 0" using ucast_class_size [OF i] c by simp
    then show False using kClassSizes_bounds(1) [OF i] by simp
  qed
  obtain A where A: "U p = Some A" using p by blast
  have b: "from_user_ptr p \<in> dom (us_of Us qs ! i)"
  proof (cases rule: ar_grants_cases [OF inv g A])
    case (1 j)
    then show ?thesis using ucast_class_inj [OF i 1(1)] ar_small_header(2) [OF inv 1(1,2)] c by metis
  next
    case 2
    then show ?thesis using ar_large_header(2) [OF inv, of p] nz by simp
  qed
  have core: "core_ok os (ar_node_id ar) (ar_small ar) (ar_foreign_bins ar) (ar_foreign_bytes ar) Fs Us qs w"
    using inv by (simp add: ar_inv_def)
  have b': "from_user_ptr p \<in> dom (Us ! i)" "from_user_ptr p \<notin> set (qs ! i)" using ar_small_block(1,2) [OF inv i b] by auto
  obtain ar' w' Fs' Us' qs' lv' where D: "ar_deallocate_foreign os p ar w = Some (Inr (), ar', w')"
    "ar_inv os ar' Fs' Us' qs' lv' w'" "frame_step F w (ar_foot ar' Fs' lv') w'"
    "ar_grants (us_of Us' qs') lv' (U(p := None))" "agree_on (granted (U(p := None))) (w_mem w) (w_mem w')" unfolding F
    using ar_deallocate_foreign_ok [OF inv g p] by (elim exE conjE)
  have o': "ar_owns os ar' w' (ar_foot ar' Fs' lv') (U(p := None))" using D(2,4) unfolding ar_owns_def by blast
  have E: "enqueue_foreign_small os (from_user_ptr p) ar w = Some (Inr (), ar', w')"
    using D(1) en nz by (simp add: ar_deallocate_foreign_def Let_def)
  from enqueue_levels [OF core i b' E] D(1,3,5) o' show ?thesis unfolding Let_def by blast
qed

end
