(* ===== verification/Memory_Resources.thy ===== *)
theory Memory_Resources
  imports Arena_Lifecycle Numa_Topology
begin

section \<open>The standalone resources\<close>

text \<open>
  Models the two resources that do without \<open>ArenaManager\<close> and \<open>ThreadLocalCache\<close>:
  \<open>numa_arena_memory_resource\<close>, which owns one arena, and \<open>numa_simple_memory_resource\<close>, which maps a span for
  every block. The polymorphic interface \<open>std::pmr::memory_resource\<close> is the standard library's;
  the overrides \<open>do_allocate\<close>, \<open>do_deallocate\<close> and \<open>do_is_equal\<close> are the operations.
\<close>

subsection \<open>The arena resource\<close>

record arena_resource =
  rs_node_id :: int
  rs_sync :: bool
  rs_arena :: arena_ptr

definition create_arena :: "os \<Rightarrow> u64 \<Rightarrow> bool \<Rightarrow> int \<Rightarrow> world \<Rightarrow> arena_ptr res \<times> world" where
  "create_arena os asz sync node_id w =
    (case vm_alloc_on_node os asz node_id Bind w of
       (Inl e, w1) \<Rightarrow> (Inl e, w1)
     | (Inr p, w1) \<Rightarrow> (Inr (p, ar_new node_id False sync False), w1))"

definition rs_new_on_node ::
  "os \<Rightarrow> u64 \<Rightarrow> topology \<Rightarrow> int \<Rightarrow> int \<Rightarrow> bool \<Rightarrow> world \<Rightarrow> arena_resource res \<times> world" where
  "rs_new_on_node os asz topo cpu node_id sync w =
    (let node = normalize_node_id topo cpu node_id in
     case create_arena os asz sync node w of
       (Inl e, w1) \<Rightarrow> (Inl e, w1)
     | (Inr a, w1) \<Rightarrow> (Inr \<lparr>rs_node_id = node, rs_sync = sync, rs_arena = a\<rparr>, w1))"

text \<open>The default constructor reads the CPU once for the node that it delegates with, and
  \<open>normalize_node_id\<close> may read it again.\<close>

definition rs_new ::
  "os \<Rightarrow> u64 \<Rightarrow> topology \<Rightarrow> int \<times> int \<Rightarrow> bool \<Rightarrow> world \<Rightarrow> arena_resource res \<times> world" where
  "rs_new os asz topo cpus sync w =
    rs_new_on_node os asz topo (snd cpus) (current_node_from_cpu topo (fst cpus)) sync w"

definition rs_do_allocate ::
  "os \<Rightarrow> u64 \<Rightarrow> u64 \<Rightarrow> arena_resource \<Rightarrow> world \<Rightarrow> (ptr res \<times> arena_resource \<times> world) option" where
  "rs_do_allocate os bytes alignment r w =
    (case ar_allocate os bytes alignment (snd (rs_arena r)) w of
       None \<Rightarrow> None
     | Some (x, ar, w1) \<Rightarrow> Some (x, r\<lparr>rs_arena := (fst (rs_arena r), ar)\<rparr>, w1))"

text \<open>\<open>as\<close> are the arenas of the manager, which \<open>NumaArena::deallocate\<close> could reach.\<close>

definition rs_do_deallocate ::
  "os \<Rightarrow> ptr \<Rightarrow> u64 \<Rightarrow> u64 \<Rightarrow> arena_resource \<Rightarrow> arena_ptr list \<Rightarrow> world \<Rightarrow>
   (unit res \<times> arena_resource \<times> arena_ptr list \<times> world) option" where
  "rs_do_deallocate os p bytes alignment r as w =
    (if p = nullptr then Some (Inr (), r, as, w)
     else case ar_deallocate os (mg_route os) p (snd (rs_arena r)) as w of
       None \<Rightarrow> None
     | Some (x, ar, as1, w1) \<Rightarrow> Some (x, r\<lparr>rs_arena := (fst (rs_arena r), ar)\<rparr>, as1, w1))"

definition rs_destroy :: "os \<Rightarrow> u64 \<Rightarrow> arena_resource \<Rightarrow> world \<Rightarrow> world option" where
  "rs_destroy os asz r w = arena_deleter os asz (rs_arena r) w"

text \<open>\<open>do_is_equal\<close> compares the addresses of the resources.\<close>

definition rs_do_is_equal :: "ptr \<Rightarrow> ptr \<Rightarrow> bool" where
  "rs_do_is_equal this other \<longleftrightarrow> this = other"

subsection \<open>The arena resource as an allocator\<close>

definition rs_owns :: "os \<Rightarrow> u64 \<Rightarrow> arena_resource \<Rightarrow> world \<Rightarrow> nat set \<Rightarrow> grants \<Rightarrow> bool" where
  "rs_owns os asz r w F U \<longleftrightarrow> arp_owns os asz (rs_arena r) w F U \<and> \<not> ar_route_foreign (snd (rs_arena r)) \<and>
     ar_node_id (snd (rs_arena r)) = rs_node_id r"

lemma rs_new_ok:
  assumes os: "os_ok os" and asz: "arena_size_ok os asz"
    and nd: "- (2 ^ 31) \<le> normalize_node_id topo cpu node" "normalize_node_id topo cpu node < 2 ^ 31"
    and cr: "rs_new_on_node os asz topo cpu node sync w = (x, w')"
  shows "case x of
     Inl e \<Rightarrow> e = Bad_alloc \<and> frame_step {} w {} w'
   | Inr r \<Rightarrow> frame_step {} w (storage os asz (rs_arena r)) w' \<and>
       rs_owns os asz r w' (storage os asz (rs_arena r)) Map.empty \<and>
       (\<forall>a\<in>storage os asz (rs_arena r). w_policy w' a = node_policy os (rs_node_id r))"
proof -
  let ?n = "normalize_node_id topo cpu node"
  have sz: "asz \<noteq> 0" "fits_page os asz" using asz by (simp_all add: arena_size_ok_def)
  obtain v w1 where al: "vm_alloc_on_node os asz ?n Bind w = (v, w1)" by fastforce
  show ?thesis
  proof (cases v)
    case (Inl e)
    then have "x = Inl e" "w' = w1" using cr al by (simp_all add: rs_new_on_node_def create_arena_def)
    then show ?thesis using vm_alloc_on_node_Inl [OF os sz al [unfolded Inl]] by simp
  next
    case (Inr p)
    note V = vm_alloc_on_node_Inr [OF os sz al [unfolded Inr]]
    let ?r = "\<lparr>rs_node_id = ?n, rs_sync = sync, rs_arena = (p, ar_new ?n False sync False)\<rparr>"
    have x: "x = Inr ?r" "w' = w1" using cr al Inr by (simp_all add: rs_new_on_node_def create_arena_def Let_def)
    have "arp_fresh os asz (p, ar_new ?n False sync False) w1"
      using V(1-3) ar_new_owns [OF os nd] by (auto simp: arp_fresh_def storage_def frame_step_def)
    then have "rs_owns os asz ?r w1 (storage os asz (rs_arena ?r)) Map.empty"
      using arp_fresh_owns by (simp add: rs_owns_def ar_new_def)
    then show ?thesis using V(1,5) by (simp add: x storage_def)
  qed
qed

lemma rs_allocate:
  assumes o: "rs_owns os asz r w F U" and lg: "ar_legal os (sz, al)"
  shows "\<exists>x r' w' F'. rs_do_allocate os sz al r w = Some (x, r', w') \<and> frame_step F w F' w' \<and>
    agree_on (granted U) (w_mem w) (w_mem w') \<and> rs_node_id r' = rs_node_id r \<and>
    (case x of
       Inl e \<Rightarrow> rs_owns os asz r' w' F' U
     | Inr p \<Rightarrow> U p = None \<and> p \<noteq> nullptr \<and> aligned_for al p \<and>
         sint (bh_node_id (w_mem w') (from_user_ptr p)) = rs_node_id r \<and>
         rs_owns os asz r' w' F' (U(p \<mapsto> ar_area (sz, al) p)))"
proof -
  obtain s ar where a: "rs_arena r = (s, ar)" by (cases "rs_arena r")
  have ow: "arp_owns os asz (s, ar) w F U" and nr: "\<not> ar_route_foreign ar" and nd: "ar_node_id ar = rs_node_id r"
    using o by (simp_all add: rs_owns_def a)
  obtain F0 where F0: "ar_owns os ar w F0 U" using ow by (auto simp: arp_owns_def)
  obtain x ar' w' where al': "ar_allocate os sz al ar w = Some (x, ar', w')"
    using ar_owns_alloc [OF F0 lg] by (auto simp: ar_alloc_req_def)
  define U' where "U' = (case x of Inl e \<Rightarrow> U | Inr p \<Rightarrow> U(p \<mapsto> ar_area (sz, al) p))"
  have A: "agree_on (granted U) (w_mem w) (w_mem w') \<and>
      (\<forall>p. x = Inr p \<longrightarrow> U p = None \<and> p \<noteq> nullptr \<and> aligned_for al p) \<and>
      (\<exists>F0'. ar_owns os ar' w' F0' U' \<and> frame_step F0 w F0' w')" if "ar_owns os ar w F0 U" for F0
    using ar_owns_alloc [OF that lg] al' by (cases x) (auto simp: ar_alloc_req_def U'_def)
  obtain F' where F': "arp_owns os asz (s, ar') w' F' U'" "frame_step F w F' w'"
    using arp_step [OF ow, of ar' w' U'] A by blast
  let ?r = "r\<lparr>rs_arena := (s, ar')\<rparr>"
  have same: "same_arena ar' ar" by (rule ar_allocate_same [OF al'])
  have ro: "rs_owns os asz ?r w' F' U'" using F'(1) nr nd same by (simp add: rs_owns_def same_arena_def)
  have "sint (bh_node_id (w_mem w') (from_user_ptr p)) = rs_node_id r" if "x = Inr p" for p
    using arp_owns_laws(7) [OF F'(1), of p] same nd that by (simp add: U'_def same_arena_def)
  then show ?thesis using al' F'(2) A [OF F0] ro
    by (intro exI [of _ x] exI [of _ ?r] exI [of _ w'] exI [of _ F'])
      (cases x; simp add: rs_do_allocate_def a U'_def)
qed

text \<open>A block comes back to the arena of the resource, on whatever node the thread runs; the
  arenas of the manager are not touched.\<close>

lemma rs_deallocate:
  assumes o: "rs_owns os asz r w F U" and p: "U p \<noteq> None"
  shows "\<exists>r' w' F'. rs_do_deallocate os p bytes al r as w = Some (Inr (), r', as, w') \<and> frame_step F w F' w' \<and>
    agree_on (granted (U(p := None))) (w_mem w) (w_mem w') \<and> rs_owns os asz r' w' F' (U(p := None))"
proof -
  obtain s ar where a: "rs_arena r = (s, ar)" by (cases "rs_arena r")
  have ow: "arp_owns os asz (s, ar) w F U" and nr: "\<not> ar_route_foreign ar" and nd: "ar_node_id ar = rs_node_id r"
    using o by (simp_all add: rs_owns_def a)
  obtain F0 where F0: "ar_owns os ar w F0 U" using ow by (auto simp: arp_owns_def)
  obtain A where "U p = Some A" using p by blast
  then have nn: "p \<noteq> nullptr" using ar_owns_laws(2) [OF F0] by blast
  obtain x ar' w' where de: "ar_deallocate_own os p ar w = (x, ar', w')" by (metis prod_cases3)
  have run: "ar_deallocate os (mg_route os) p ar as w = Some (x, ar', as, w')"
    using nn nr de by (simp add: ar_deallocate_def ar_is_foreign_def)
  then have f: "ar_free_op os (mg_route os) as p ar w = Some (x, ar', w')" by (simp add: ar_free_op_def)
  have x: "x = Inr ()" "agree_on (granted (U(p := None))) (w_mem w) (w_mem w')"
    using ar_owns_free(1) [OF F0 p, of "mg_route os" as] f by auto
  have "\<exists>F1'. ar_owns os ar' w' F1' (U(p := None)) \<and> frame_step F1 w F1' w'" if F1: "ar_owns os ar w F1 U" for F1
    using ar_owns_free(1) [OF F1 p, of "mg_route os" as] f by auto
  from arp_step [OF ow this] obtain F' where F': "arp_owns os asz (s, ar') w' F' (U(p := None))" "frame_step F w F' w'"
    by blast
  have "rs_owns os asz (r\<lparr>rs_arena := (s, ar')\<rparr>) w' F' (U(p := None))"
    using F'(1) nr nd ar_deallocate_own_same [OF de] by (simp add: rs_owns_def same_arena_def)
  then show ?thesis using run nn x F'(2) by (auto simp: rs_do_deallocate_def a)
qed

definition rs_alloc_op ::
  "os \<Rightarrow> u64 \<times> u64 \<Rightarrow> arena_resource \<Rightarrow> world \<Rightarrow> (ptr res \<times> arena_resource \<times> world) option" where
  "rs_alloc_op os q r w = rs_do_allocate os (fst q) (snd q) r w"

definition rs_free_op :: "os \<Rightarrow> arena_ptr list \<Rightarrow> ptr \<Rightarrow> arena_resource \<Rightarrow> world \<Rightarrow>
    (unit res \<times> arena_resource \<times> world) option" where
  "rs_free_op os as p r w =
    (case rs_do_deallocate os p 0 0 r as w of None \<Rightarrow> None | Some (x, r', as', w') \<Rightarrow> Some (x, r', w'))"

interpretation rsa: allocator "rs_owns os asz" "rs_alloc_op os" "rs_free_op os as" "\<lambda>r. ar_area" "ar_legal os"
  for os asz as
proof unfold_locales
  fix r w F U assume o: "rs_owns os asz r w F U"
  then have ow: "arp_owns os asz (rs_arena r) w F U" by (simp add: rs_owns_def)
  note laws = arp_owns_laws [OF ow]
  show "F \<subseteq> mapped w" by (rule laws(1))
  show "A \<subseteq> F \<and> p \<noteq> nullptr" if "U p = Some A" for p A by (rule laws(2) [OF that])
  show "A \<inter> B = {}" if "U p = Some A" "U q = Some B" "p \<noteq> q" for p q A B by (rule laws(3) [OF that])
  show "rs_owns os asz r w' F U" if "frame_step G w G' w'" "F \<inter> G = {}" for G w' G'
    using laws(4) [OF that] o by (simp add: rs_owns_def)
  show "rs_owns os asz r (w\<lparr>w_mem := m'\<rparr>) F U" if "agree_on (- granted U) (w_mem w) m'" for m'
    using laws(5) [OF that] o by (simp add: rs_owns_def)
  note A = rs_allocate [OF o]
  show "rs_alloc_op os q r w \<noteq> None" if "ar_legal os q" for q
    using A [of "fst q" "snd q"] that by (auto simp: rs_alloc_op_def)
  show "U p = None \<and> agree_on (granted U) (w_mem w) (w_mem w') \<and>
      (\<exists>F'. rs_owns os asz r' w' F' (U(p \<mapsto> ar_area q p)) \<and> frame_step F w F' w')"
    if "ar_legal os q" "rs_alloc_op os q r w = Some (Inr p, r', w')" for q p r' w'
    using A [of "fst q" "snd q"] that by (auto simp: rs_alloc_op_def)
  show "agree_on (granted U) (w_mem w) (w_mem w') \<and> (\<exists>F'. rs_owns os asz r' w' F' U \<and> frame_step F w F' w')"
    if "ar_legal os q" "rs_alloc_op os q r w = Some (Inl e, r', w')" for q e r' w'
    using A [of "fst q" "snd q"] that by (auto simp: rs_alloc_op_def)
  show "rs_free_op os as p r w \<noteq> None" if "U p \<noteq> None" for p
    using rs_deallocate [OF o that, of 0 0 as] by (auto simp: rs_free_op_def)
  show "x = Inr () \<and> agree_on (granted (U(p := None))) (w_mem w) (w_mem w') \<and>
      (\<exists>F'. rs_owns os asz r' w' F' (U(p := None)) \<and> frame_step F w F' w')"
    if "U p \<noteq> None" "rs_free_op os as p r w = Some (x, r', w')" for p x r' w'
    using rs_deallocate [OF o that(1), of 0 0 as] that(2) by (auto simp: rs_free_op_def)
qed

text \<open>The destructor gives everything back, storage included.\<close>

lemma rs_destroy_gives_back:
  assumes "rs_owns os asz r w F U" and "arena_size_ok os asz"
  shows "\<exists>w'. rs_destroy os asz r w = Some w' \<and> gives_back F w w' \<and>
    (storage os asz (rs_arena r) \<union> arena_store os (snd (rs_arena r))) \<inter> mapped w' = {}"
  using arena_deleter_gives_back [of os asz "rs_arena r" w F U] assms by (simp add: rs_destroy_def rs_owns_def)

end
