(* ===== verification/Simple_Resource.thy ===== *)
theory Simple_Resource
  imports Memory_Resources
begin

section \<open>The simple resource\<close>

text \<open>
  Models \<open>numa_simple_memory_resource\<close>: every allocation maps a span of its own, bound to a
  node, with a header of 16 bytes in front of the block that remembers the span; every
  deallocation unmaps it. The contract holds for the legal requests; the last lemma is the
  exact behaviour of the requests that pass the guard but wrap in the rounding.
\<close>

subsection \<open>State and operations\<close>

record simple_resource =
  sr_node_id :: int
  sr_exact_calculate :: bool

definition sr_new_default :: "topology \<Rightarrow> int \<Rightarrow> simple_resource" where
  "sr_new_default topo cpu = \<lparr>sr_node_id = current_node_from_cpu topo cpu, sr_exact_calculate = False\<rparr>"

definition sr_new_on_node :: "topology \<Rightarrow> int \<Rightarrow> int \<Rightarrow> simple_resource" where
  "sr_new_on_node topo cpu node_id =
    \<lparr>sr_node_id = normalize_node_id topo cpu node_id, sr_exact_calculate = False\<rparr>"

text \<open>The private constructor, and the factory that uses it.\<close>

definition sr_new_private :: "int \<Rightarrow> bool \<Rightarrow> simple_resource" where
  "sr_new_private node_id exact_calculate = \<lparr>sr_node_id = node_id, sr_exact_calculate = exact_calculate\<rparr>"

definition current_node_per_allocation :: "topology \<Rightarrow> int \<Rightarrow> simple_resource" where
  "current_node_per_allocation topo cpu = sr_new_private (current_node_from_cpu topo cpu) True"

definition sizeof_AllocationHeader :: u64 where
  "sizeof_AllocationHeader = 16"

definition ah_raw_ptr :: "mem \<Rightarrow> ptr \<Rightarrow> ptr" where
  "ah_raw_ptr m h = load64 m h"

definition ah_total_size :: "mem \<Rightarrow> ptr \<Rightarrow> u64" where
  "ah_total_size m h = load64 m (h + 8)"

definition set_ah_raw_ptr :: "ptr \<Rightarrow> ptr \<Rightarrow> mem \<Rightarrow> mem" where
  "set_ah_raw_ptr h v m = store64 m h v"

definition set_ah_total_size :: "ptr \<Rightarrow> u64 \<Rightarrow> mem \<Rightarrow> mem" where
  "set_ah_total_size h v m = store64 m (h + 8) v"

definition sr_allocate_from_span ::
  "os \<Rightarrow> ptr \<Rightarrow> u64 \<Rightarrow> u64 \<Rightarrow> u64 \<Rightarrow> world \<Rightarrow> ptr res \<times> world" where
  "sr_allocate_from_span os raw total_size bytes alignment w =
    (let start = align_up (raw + sizeof_AllocationHeader) alignment in
     if start + bytes > raw + total_size then (Inl Bad_alloc, vm_release os raw total_size w)
     else
       let header = start - sizeof_AllocationHeader;
           m1 = set_ah_raw_ptr header raw (w_mem w);
           m2 = set_ah_total_size header total_size m1
       in (Inr start, w\<lparr>w_mem := m2\<rparr>))"

definition sr_do_allocate ::
  "os \<Rightarrow> topology \<Rightarrow> int \<Rightarrow> u64 \<Rightarrow> u64 \<Rightarrow> simple_resource \<Rightarrow> world \<Rightarrow> ptr res \<times> world" where
  "sr_do_allocate os topo cpu bytes alignment r w =
    (let bytes = (if bytes = 0 then 1 else bytes);
         alignment = (if alignment < 8 then 8 else alignment)
     in if alignment > size_max - sizeof_AllocationHeader \<or>
           bytes > size_max - alignment - sizeof_AllocationHeader then (Inl Bad_alloc, w)
        else
          let total_size = align_up (bytes + alignment + sizeof_AllocationHeader) (page_size os);
              node = (if sr_exact_calculate r then current_node_from_cpu topo cpu else sr_node_id r)
          in case vm_alloc_on_node os total_size node Bind w of
               (Inl e, w1) \<Rightarrow> (Inl e, w1)
             | (Inr raw, w1) \<Rightarrow> sr_allocate_from_span os raw total_size bytes alignment w1)"

definition sr_do_deallocate :: "os \<Rightarrow> ptr \<Rightarrow> u64 \<Rightarrow> u64 \<Rightarrow> world \<Rightarrow> world" where
  "sr_do_deallocate os p bytes alignment w =
    (if p = nullptr then w
     else let header = p - sizeof_AllocationHeader
          in vm_release os (ah_raw_ptr (w_mem w) header) (ah_total_size (w_mem w) header) w)"

text \<open>\<open>do_is_equal\<close>: the dynamic type of the other resource decides.\<close>

datatype resource_kind = Numa_resource | Arena_resource | Simple_resource | Other_resource

definition sr_do_is_equal :: "resource_kind \<Rightarrow> bool" where
  "sr_do_is_equal other \<longleftrightarrow> other = Simple_resource"

definition numa_do_is_equal :: "resource_kind \<Rightarrow> bool" where
  "numa_do_is_equal other \<longleftrightarrow> other = Numa_resource"

subsection \<open>One block and its span\<close>

text \<open>A span, the size that the header remembers, and the number of bytes granted.\<close>

type_synonym sr_block = "ptr \<times> u64 \<times> nat"

definition sr_span :: "os \<Rightarrow> sr_block \<Rightarrow> nat set" where
  "sr_span os = (\<lambda>(raw, len, n). bytes_of raw (span_bytes os len))"

definition sr_placed :: "os \<Rightarrow> ptr \<Rightarrow> sr_block \<Rightarrow> bool" where
  "sr_placed os p = (\<lambda>(raw, len, n). raw \<noteq> nullptr \<and> unat (page_size os) dvd unat raw \<and> len \<noteq> 0 \<and>
     fits_page os len \<and> unat raw + span_bytes os len \<le> 2 ^ 63 \<and> unat raw + 16 \<le> unat p \<and>
     unat p + n \<le> unat raw + span_bytes os len)"

definition sr_header :: "mem \<Rightarrow> ptr \<Rightarrow> sr_block \<Rightarrow> bool" where
  "sr_header m p = (\<lambda>(raw, len, n). ah_raw_ptr m (p - 16) = raw \<and> ah_total_size m (p - 16) = len)"

lemma sr_header_bytes:
  assumes "unat raw + 16 \<le> unat p" and "unat p \<le> 2 ^ 63"
  shows "bytes_of (p - 16) n = {unat p - 16 ..< unat p - 16 + n}"
    and "bytes_of (p - 8) n = {unat p - 8 ..< unat p - 8 + n}" and "p - 16 + 8 = p - 8"
proof -
  have "unat (p - 16) = unat p - 16" "unat (p - 8) = unat p - 8"
    using assms by (subst unat_sub_u64; simp)+
  then show "bytes_of (p - 16) n = {unat p - 16 ..< unat p - 16 + n}"
    and "bytes_of (p - 8) n = {unat p - 8 ..< unat p - 8 + n}" by (simp_all add: bytes_of_def)
qed simp

lemma sr_header_local:
  assumes pl: "sr_placed os p b" and h: "sr_header m p b" and ag: "agree_on {unat p - 16 ..< unat p} m m'"
  shows "sr_header m' p b"
proof -
  obtain raw len n where b: "b = (raw, len, n)" by (metis prod_cases3)
  have bd: "unat raw + 16 \<le> unat p" "unat p \<le> 2 ^ 63" using pl by (simp_all add: sr_placed_def b)
  note B = sr_header_bytes [OF bd]
  have "ah_raw_ptr m' (p - 16) = ah_raw_ptr m (p - 16)"
    unfolding ah_raw_ptr_def using bd
    by (intro s64.get_local agree_on_mono [OF ag]) (auto simp: B)
  moreover have "ah_total_size m' (p - 16) = ah_total_size m (p - 16)"
    unfolding ah_total_size_def using bd
    by (intro s64.get_local agree_on_mono [OF ag]) (auto simp: B)
  ultimately show ?thesis using h by (simp add: sr_header_def b)
qed

lemma sr_header_write:
  assumes "unat raw + 16 \<le> unat p" and "unat p \<le> 2 ^ 63"
    and m': "m' = set_ah_total_size (p - 16) len (set_ah_raw_ptr (p - 16) raw m)"
  shows "sr_header m' p (raw, len, n)" and "agree_on (- {unat p - 16 ..< unat p}) m m'"
proof -
  note B = sr_header_bytes [OF assms(1,2)]
  have "load64 (store64 (store64 m (p - 16) raw) (p - 8) len) (p - 16) = raw"
    using assms(1) by (subst s64.get_put_apart) (auto simp: B(1,2))
  then show "sr_header m' p (raw, len, n)"
    by (simp add: sr_header_def m' ah_raw_ptr_def ah_total_size_def set_ah_raw_ptr_def set_ah_total_size_def)
  show "agree_on (- {unat p - 16 ..< unat p}) m m'"
    unfolding m' set_ah_raw_ptr_def set_ah_total_size_def using assms(1)
    by (intro agree_onI, subst s64.put_local, simp add: B, arith?, subst s64.put_local) (auto simp: B)
qed

subsection \<open>What the blocks of the resource own\<close>

type_synonym sr_blocks = "ptr \<Rightarrow> sr_block option"

definition sr_inv :: "os \<Rightarrow> sr_blocks \<Rightarrow> world \<Rightarrow> bool" where
  "sr_inv os B w \<longleftrightarrow> os_ok os \<and>
     (\<forall>p b. B p = Some b \<longrightarrow> sr_placed os p b \<and> sr_header (w_mem w) p b \<and> sr_span os b \<subseteq> mapped w) \<and>
     (\<forall>p q b c. B p = Some b \<longrightarrow> B q = Some c \<longrightarrow> p \<noteq> q \<longrightarrow> sr_span os b \<inter> sr_span os c = {})"

definition sr_spans :: "os \<Rightarrow> sr_blocks \<Rightarrow> nat set" where
  "sr_spans os B = (\<Union>b\<in>ran B. sr_span os b)"

definition sr_grants :: "sr_blocks \<Rightarrow> grants" where
  "sr_grants B = (\<lambda>p. case B p of None \<Rightarrow> None | Some (raw, len, n) \<Rightarrow> Some (bytes_of p n))"

definition sr_owns :: "os \<Rightarrow> simple_resource \<Rightarrow> world \<Rightarrow> nat set \<Rightarrow> grants \<Rightarrow> bool" where
  "sr_owns os r w F U \<longleftrightarrow> (\<exists>B. sr_inv os B w \<and> F = sr_spans os B \<and> U = sr_grants B)"

lemma sr_invD:
  assumes "sr_inv os B w"
  shows "os_ok os" and "B p = Some b \<Longrightarrow> sr_placed os p b" and "B p = Some b \<Longrightarrow> sr_header (w_mem w) p b"
    and "B p = Some b \<Longrightarrow> sr_span os b \<subseteq> mapped w"
    and "B p = Some b \<Longrightarrow> B q = Some c \<Longrightarrow> p \<noteq> q \<Longrightarrow> sr_span os b \<inter> sr_span os c = {}"
  using assms unfolding sr_inv_def by blast+

lemma sr_spans_part: "B p = Some b \<Longrightarrow> sr_span os b \<subseteq> sr_spans os B"
  unfolding sr_spans_def by (blast intro: ranI)

lemma sr_grants_Some:
  assumes "sr_grants B p = Some A"
  obtains raw len n where "B p = Some (raw, len, n)" and "A = bytes_of p n"
  using assms by (auto simp: sr_grants_def split: option.splits)

text \<open>The header and the user area are separate parts of the span.\<close>

lemma sr_placed_parts:
  assumes "sr_placed os p (raw, len, n)"
  shows "{unat p - 16 ..< unat p} \<subseteq> sr_span os (raw, len, n)" and "bytes_of p n \<subseteq> sr_span os (raw, len, n)"
    and "bytes_of p n \<inter> {unat p - 16 ..< unat p} = {}" and "p \<noteq> nullptr"
proof -
  have u: "unat raw + 16 \<le> unat p" "unat p + n \<le> unat raw + span_bytes os len"
    using assms by (simp_all add: sr_placed_def)
  then show "{unat p - 16 ..< unat p} \<subseteq> sr_span os (raw, len, n)" "bytes_of p n \<subseteq> sr_span os (raw, len, n)"
    "bytes_of p n \<inter> {unat p - 16 ..< unat p} = {}" by (auto simp: sr_span_def bytes_of_def)
  show "p \<noteq> nullptr" using u by auto
qed

lemma sr_inv_step:
  assumes inv: "sr_inv os B w"
    and m: "sr_spans os B \<subseteq> mapped w'"
    and ag: "\<And>p b. B p = Some b \<Longrightarrow> agree_on {unat p - 16 ..< unat p} (w_mem w) (w_mem w')"
  shows "sr_inv os B w'"
proof -
  have "sr_header (w_mem w') p b" if "B p = Some b" for p b
    by (rule sr_header_local [OF sr_invD(2,3) [OF inv that] ag [OF that]])
  moreover have "sr_span os b \<subseteq> mapped w'" if "B p = Some b" for p b using sr_spans_part [of B p b os, OF that] m by blast
  ultimately show ?thesis using inv unfolding sr_inv_def by blast
qed

lemma sr_laws:
  assumes inv: "sr_inv os B w"
  shows "sr_spans os B \<subseteq> mapped w" and "sr_grants B p = Some A \<Longrightarrow> A \<subseteq> sr_spans os B \<and> p \<noteq> nullptr"
    and "sr_grants B p = Some A \<Longrightarrow> sr_grants B q = Some C \<Longrightarrow> p \<noteq> q \<Longrightarrow> A \<inter> C = {}"
    and "frame_step G w G' w' \<Longrightarrow> sr_spans os B \<inter> G = {} \<Longrightarrow> sr_inv os B w'"
    and "agree_on (- granted (sr_grants B)) (w_mem w) m' \<Longrightarrow> sr_inv os B (w\<lparr>w_mem := m'\<rparr>)"
proof -
  show mp: "sr_spans os B \<subseteq> mapped w"
    unfolding sr_spans_def ran_def using sr_invD(4) [OF inv] by blast
  show part: "A \<subseteq> sr_spans os B \<and> p \<noteq> nullptr" if g: "sr_grants B p = Some A" for p A
  proof -
    obtain raw len n where b: "B p = Some (raw, len, n)" "A = bytes_of p n" using g by (rule sr_grants_Some)
    from sr_placed_parts(2,4) [OF sr_invD(2) [OF inv b(1)]] sr_spans_part [of B p _ os, OF b(1)] b(2) show ?thesis by blast
  qed
  show "A \<inter> C = {}" if p: "sr_grants B p = Some A" and q: "sr_grants B q = Some C" and ne: "p \<noteq> q"
  proof -
    obtain raw len n where b: "B p = Some (raw, len, n)" "A = bytes_of p n" using p by (rule sr_grants_Some)
    obtain raw' len' n' where c: "B q = Some (raw', len', n')" "C = bytes_of q n'" using q by (rule sr_grants_Some)
    show ?thesis
      using sr_placed_parts(2) [OF sr_invD(2) [OF inv b(1)]] sr_placed_parts(2) [OF sr_invD(2) [OF inv c(1)]]
        sr_invD(5) [OF inv b(1) c(1) ne] b(2) c(2) by blast
  qed
  have head: "{unat p - 16 ..< unat p} \<subseteq> sr_spans os B" if b: "B p = Some b" for p b
  proof -
    obtain raw len n where "b = (raw, len, n)" by (metis prod_cases3)
    then show ?thesis using sr_placed_parts(1) [of os p raw len n] sr_invD(2) [OF inv b] sr_spans_part [of B p b os, OF b] by blast
  qed
  show "sr_inv os B w'" if fs: "frame_step G w G' w'" and dj: "sr_spans os B \<inter> G = {}"
    using frame_step_mem [OF dj mp fs] head by (intro sr_inv_step [OF inv]) (blast intro: agree_on_mono)+
  show "sr_inv os B (w\<lparr>w_mem := m'\<rparr>)" if ag: "agree_on (- granted (sr_grants B)) (w_mem w) m'"
  proof (rule sr_inv_step [OF inv])
    show "sr_spans os B \<subseteq> mapped (w\<lparr>w_mem := m'\<rparr>)" using mp by simp
    fix p b assume b: "B p = Some b"
    obtain raw len n where bb: "b = (raw, len, n)" by (metis prod_cases3)
    have pl: "sr_placed os p (raw, len, n)" using sr_invD(2) [OF inv b] by (simp add: bb)
    note P = sr_placed_parts [OF pl]
    have "x \<notin> granted (sr_grants B)" if x: "x \<in> {unat p - 16 ..< unat p}" for x
    proof
      assume "x \<in> granted (sr_grants B)"
      then obtain q A where q: "sr_grants B q = Some A" "x \<in> A" by (auto simp: granted_def ran_def)
      obtain raw' len' n' where c: "B q = Some (raw', len', n')" "A = bytes_of q n'" using q(1) by (rule sr_grants_Some)
      show False
      proof (cases "q = p")
        case True
        then have "n' = n" using c(1) b by (simp add: bb)
        then show False using P(3) x q(2) c(2) True by blast
      next
        case False
        then have "sr_span os (raw', len', n') \<inter> sr_span os (raw, len, n) = {}"
          using sr_invD(5) [OF inv c(1) b] by (simp add: bb)
        then show False using P(1) x sr_placed_parts(2) [OF sr_invD(2) [OF inv c(1)]] q(2) c(2) by blast
      qed
    qed
    then have "{unat p - 16 ..< unat p} \<subseteq> - granted (sr_grants B)" by blast
    then show "agree_on {unat p - 16 ..< unat p} (w_mem w) (w_mem (w\<lparr>w_mem := m'\<rparr>))"
      using agree_on_mono [OF ag] by simp
  qed
qed

subsection \<open>Allocation and deallocation\<close>

definition sr_area :: "u64 \<times> u64 \<Rightarrow> ptr \<Rightarrow> nat set" where
  "sr_area = (\<lambda>(bytes, alignment) p. bytes_of p (unat (at_least_one bytes)))"

definition sr_alignment :: "u64 \<Rightarrow> u64" where
  "sr_alignment alignment = (if alignment < 8 then 8 else alignment)"

text \<open>A request is legal when its total, rounded up to pages, is a size.\<close>

definition sr_legal :: "os \<Rightarrow> u64 \<times> u64 \<Rightarrow> bool" where
  "sr_legal os = (\<lambda>(bytes, alignment).
     unat (at_least_one bytes) + unat (sr_alignment alignment) + 16 + 2 * unat (page_size os) \<le> 18446744073709551616)"

definition sr_node :: "topology \<Rightarrow> int \<Rightarrow> simple_resource \<Rightarrow> int" where
  "sr_node topo cpu r = (if sr_exact_calculate r then current_node_from_cpu topo cpu else sr_node_id r)"

definition sr_total :: "os \<Rightarrow> u64 \<Rightarrow> u64 \<Rightarrow> u64" where
  "sr_total os bytes alignment = align_up (at_least_one bytes + sr_alignment alignment + 16) (page_size os)"

text \<open>What \<open>do_allocate\<close> does with a request that passes the guard.\<close>

lemma sr_do_allocate_guard:
  assumes "unat (at_least_one bytes) + unat (sr_alignment al) + 16 < 18446744073709551616"
  shows "sr_do_allocate os topo cpu bytes al r w =
    (case vm_alloc_on_node os (sr_total os bytes al) (sr_node topo cpu r) Bind w of
       (Inl e, w1) \<Rightarrow> (Inl e, w1)
     | (Inr raw, w1) \<Rightarrow>
         sr_allocate_from_span os raw (sr_total os bytes al) (at_least_one bytes) (sr_alignment al) w1)"
proof -
  have a8: "8 \<le> unat (sr_alignment al)" by (simp add: sr_alignment_def word_less_nat_alt)
  have m16: "unat (size_max - 16 :: u64) = 18446744073709551599"
    by (subst unat_sub_u64) (simp_all only: unat_size_max, simp_all)
  have m1: "unat (size_max - sr_alignment al :: u64) = 18446744073709551615 - unat (sr_alignment al)"
    using assms by (subst unat_sub_u64) (simp_all only: unat_size_max)
  have m2: "unat (size_max - sr_alignment al - 16 :: u64) = 18446744073709551599 - unat (sr_alignment al)"
    using assms m1 by (subst unat_sub_u64) simp_all
  have g: "\<not> (sr_alignment al > size_max - 16 \<or> at_least_one bytes > size_max - sr_alignment al - 16)"
    unfolding word_less_nat_alt m16 m2 using assms by simp
  show ?thesis
    unfolding sr_do_allocate_def Let_def [of "if bytes = 0 then 1 else bytes"] at_least_one_def [symmetric]
      Let_def [of "if al < 8 then 8 else al"] sr_alignment_def [symmetric] sizeof_AllocationHeader_def
      if_not_P [OF g] sr_node_def [symmetric] sr_total_def [symmetric] Let_def ..
qed

lemma sr_allocate_from_span_ok:
  assumes place: "unat raw + span_bytes os len \<le> 2 ^ 63" and len: "unat len = span_bytes os len"
    and al: "8 \<le> unat al" and fits: "unat bytes + unat al + 16 \<le> span_bytes os len"
  shows "\<exists>p m. sr_allocate_from_span os raw len bytes al w = (Inr p, w\<lparr>w_mem := m\<rparr>) \<and>
    unat p = round_up (unat raw + 16) (unat al) \<and> unat raw + 16 \<le> unat p \<and>
    unat p + unat bytes \<le> unat raw + span_bytes os len \<and> sr_header m p (raw, len, n) \<and>
    agree_on (- {unat p - 16 ..< unat p}) (w_mem w) m"
proof -
  define p where "p = align_up (raw + 16) al"
  have a: "0 < unat al" "al \<noteq> 0" using al by auto
  have r16: "unat (raw + 16) = unat raw + 16" using place fits by (intro unat_plus_numeral) simp
  have up: "unat p = round_up (unat raw + 16) (unat al)"
    unfolding p_def using place fits a by (subst unat_align_up) (auto simp: r16)
  have lo: "unat raw + 16 \<le> unat p" unfolding up by (rule round_up_ge [OF a(1)])
  have "unat p < unat raw + 16 + unat al" unfolding up by (rule round_up_less [OF a(1)])
  then have hi: "unat p + unat bytes \<le> unat raw + span_bytes os len" using fits by linarith
  have s1: "unat (p + bytes) = unat p + unat bytes" using hi place by (intro unat_add_u64) simp
  have s2: "unat (raw + len) = unat raw + unat len" using place len by (intro unat_add_u64) simp
  have ok: "\<not> p + bytes > raw + len" using hi by (simp add: word_less_nat_alt s1 s2 len)
  define m where "m = set_ah_total_size (p - 16) len (set_ah_raw_ptr (p - 16) raw (w_mem w))"
  have "unat p \<le> 2 ^ 63" using hi place by simp
  note W = sr_header_write [OF lo this m_def]
  have "sr_allocate_from_span os raw len bytes al w = (Inr p, w\<lparr>w_mem := m\<rparr>)"
    using ok by (simp add: sr_allocate_from_span_def Let_def p_def [symmetric] m_def sizeof_AllocationHeader_def)
  then show ?thesis using up lo hi W by blast
qed

lemma sr_total_ok:
  assumes os: "os_ok os" and lg: "sr_legal os (bytes, al)"
  shows "unat (sr_total os bytes al) = span_bytes os (sr_total os bytes al)" and "fits_page os (sr_total os bytes al)"
    and "sr_total os bytes al \<noteq> 0"
    and "unat (at_least_one bytes) + unat (sr_alignment al) + 16 \<le> span_bytes os (sr_total os bytes al)"
proof -
  let ?x = "at_least_one bytes + sr_alignment al + 16" and ?p = "unat (page_size os)"
  let ?n = "unat (at_least_one bytes) + unat (sr_alignment al) + 16"
  have lg': "?n + 2 * ?p \<le> 18446744073709551616" using lg by (simp add: sr_legal_def)
  have p: "0 < ?p" "page_size os \<noteq> 0" using os_ok_page_ge [OF os] os_ok_page_nz [OF os] by simp_all
  have s: "unat (at_least_one bytes + sr_alignment al) = unat (at_least_one bytes) + unat (sr_alignment al)"
    using lg' p by (intro unat_add_u64) linarith
  have x: "unat ?x = ?n" using lg' p by (subst unat_plus_numeral) (simp_all add: s)
  have t: "unat (sr_total os bytes al) = round_up ?n ?p"
    unfolding sr_total_def using lg' p x by (subst unat_align_up) simp_all
  have ge: "?n \<le> round_up ?n ?p" and lt: "round_up ?n ?p < ?n + ?p"
    using round_up_ge [OF p(1)] round_up_less [OF p(1)] by auto
  show sp: "unat (sr_total os bytes al) = span_bytes os (sr_total os bytes al)"
    using round_up_id [of ?p "round_up ?n ?p"] p(1) by (simp add: span_bytes_def t)
  show "fits_page os (sr_total os bytes al)" unfolding fits_page_def t using lg' lt by linarith
  show "?n \<le> span_bytes os (sr_total os bytes al)" unfolding sp [symmetric] t by (rule ge)
  have "unat (sr_total os bytes al) \<noteq> 0" using t ge by simp
  then show "sr_total os bytes al \<noteq> 0" by auto
qed

text \<open>The map of the blocks gains one span that is new.\<close>

lemma sr_spans_upd:
  assumes "B p = None"
  shows "sr_spans os (B(p \<mapsto> b)) = sr_spans os B \<union> sr_span os b"
    and "sr_grants (B(p \<mapsto> (raw, len, n))) = (sr_grants B)(p \<mapsto> bytes_of p n)"
proof -
  have "ran (B(p \<mapsto> b)) = insert b (ran B)" using assms by simp
  then show "sr_spans os (B(p \<mapsto> b)) = sr_spans os B \<union> sr_span os b" by (auto simp: sr_spans_def)
  show "sr_grants (B(p \<mapsto> (raw, len, n))) = (sr_grants B)(p \<mapsto> bytes_of p n)"
    by (rule ext) (simp add: sr_grants_def)
qed

lemma sr_inv_add:
  assumes inv: "sr_inv os B w" and m: "sr_spans os B \<union> sr_span os b \<subseteq> mapped w"
    and dj: "sr_spans os B \<inter> sr_span os b = {}" and b: "sr_placed os p b" "sr_header (w_mem w) p b"
  shows "sr_inv os (B(p \<mapsto> b)) w"
proof -
  have ap: "sr_span os b \<inter> sr_span os c = {}" if "B q = Some c" for q c
    using sr_spans_part [of B q c os, OF that] dj by blast
  have "sr_placed os q c \<and> sr_header (w_mem w) q c \<and> sr_span os c \<subseteq> mapped w" if "(B(p \<mapsto> b)) q = Some c" for q c
    using that b m sr_invD(2-4) [OF inv] by (cases "q = p") simp_all
  moreover have "sr_span os c \<inter> sr_span os d = {}"
    if q: "(B(p \<mapsto> b)) q = Some c" and r: "(B(p \<mapsto> b)) r = Some d" and ne: "q \<noteq> r" for q r c d
  proof -
    consider "q = p" "c = b" "B r = Some d" | "r = p" "d = b" "B q = Some c" | "B q = Some c" "B r = Some d"
      using q r ne by (cases "q = p"; cases "r = p") auto
    then show ?thesis
    proof cases
      case 1
      then show ?thesis using ap by simp
    next
      case 2
      then show ?thesis using ap [of q c] by (simp add: Int_commute)
    next
      case 3
      then show ?thesis by (rule sr_invD(5) [OF inv _ _ ne])
    qed
  qed
  ultimately show ?thesis using sr_invD(1) [OF inv] unfolding sr_inv_def by blast
qed

text \<open>\<open>do_allocate\<close> of a legal request.\<close>

lemma sr_allocate:
  assumes inv: "sr_inv os B w" and lg: "sr_legal os (bytes, al)"
    and run: "sr_do_allocate os topo cpu bytes al r w = (x, w')"
  shows "case x of
      Inl e \<Rightarrow> e = Bad_alloc \<and> frame_step {} w {} w'
    | Inr p \<Rightarrow> \<exists>raw len. B p = None \<and> p \<noteq> nullptr \<and> aligned_for al p \<and>
        sr_inv os (B(p \<mapsto> (raw, len, unat (at_least_one bytes)))) w' \<and>
        frame_step {} w (sr_span os (raw, len, unat (at_least_one bytes))) w' \<and>
        (\<forall>a\<in>sr_span os (raw, len, unat (at_least_one bytes)). w_policy w' a = node_policy os (sr_node topo cpu r))"
proof -
  note os = sr_invD(1) [OF inv]
  note T = sr_total_ok [OF os lg]
  let ?t = "sr_total os bytes al" and ?n = "unat (at_least_one bytes)" and ?node = "sr_node topo cpu r"
  have g: "?n + unat (sr_alignment al) + 16 < 18446744073709551616"
    using lg os_ok_page_ge [OF os] by (simp add: sr_legal_def)
  note run = run [unfolded sr_do_allocate_guard [OF g]]
  obtain v w1 where v: "vm_alloc_on_node os ?t ?node Bind w = (v, w1)" by fastforce
  show ?thesis
  proof (cases v)
    case (Inl e)
    then have "x = Inl e" "w' = w1" using run v by simp_all
    then show ?thesis using vm_alloc_on_node_Inl [OF os T(3,2) v [unfolded Inl]] by simp
  next
    case (Inr raw)
    note V = vm_alloc_on_node_Inr [OF os T(3,2) v [unfolded Inr]]
    have a8: "8 \<le> unat (sr_alignment al)" by (simp add: sr_alignment_def word_less_nat_alt)
    obtain p m where P: "sr_allocate_from_span os raw ?t (at_least_one bytes) (sr_alignment al) w1 = (Inr p, w1\<lparr>w_mem := m\<rparr>)"
      "unat p = round_up (unat raw + 16) (unat (sr_alignment al))" "unat raw + 16 \<le> unat p"
      "unat p + ?n \<le> unat raw + span_bytes os ?t" "sr_header m p (raw, ?t, ?n)"
      "agree_on (- {unat p - 16 ..< unat p}) (w_mem w1) m"
      using sr_allocate_from_span_ok [OF V(4) T(1) a8 T(4), of w1 ?n] by blast
    have x: "x = Inr p" "w' = w1\<lparr>w_mem := m\<rparr>" using run v Inr P(1) by simp_all
    let ?b = "(raw, ?t, ?n)"
    have S: "sr_span os ?b = bytes_of raw (span_bytes os ?t)" by (simp add: sr_span_def)
    have pl: "sr_placed os p ?b" using V(2-4) T P(3,4) by (simp add: sr_placed_def)
    note parts = sr_placed_parts [OF pl]
    have fs1: "frame_step {} w (sr_span os ?b) w1" using V(1) by (simp add: S)
    have sm: "sr_span os ?b \<subseteq> mapped w1" using fs1 by (auto simp: frame_step_def)
    have "frame_step (sr_span os ?b) w1 (sr_span os ?b) w'"
      unfolding x(2) using parts(1) by (intro frame_step_write sm agree_on_mono [OF P(6)]) blast
    with fs1 have fs: "frame_step {} w (sr_span os ?b) w'" by (rule frame_step_trans)
    note L = sr_laws [OF inv]
    have "mapped w' = sr_span os ?b \<union> mapped w" and dj: "sr_spans os B \<inter> sr_span os ?b = {}"
      using fs L(1) by (auto simp: frame_step_def)
    then have m': "sr_spans os B \<union> sr_span os ?b \<subseteq> mapped w'" using L(1) by blast
    have inv': "sr_inv os B w'" by (rule L(4) [OF fs]) simp
    have h: "sr_header (w_mem w') p ?b" using P(5) by (simp add: x)
    have new: "B p = None"
    proof (rule ccontr)
      assume "B p \<noteq> None"
      then obtain c where c: "B p = Some c" by blast
      obtain raw' len' n' where cc: "c = (raw', len', n')" by (metis prod_cases3)
      have "unat p - 1 \<in> sr_span os c" "unat p - 1 \<in> sr_span os ?b"
        using sr_placed_parts(1) [OF sr_invD(2) [OF inv c, unfolded cc]] parts(1) P(3) by (auto simp: cc)
      then show False using sr_spans_part [of B p c os, OF c] dj by blast
    qed
    have "unat (sr_alignment al) dvd unat p" using P(2) by simp
    moreover have "unat (sr_alignment al) = max (unat al) 8"
      by (simp add: sr_alignment_def word_less_nat_alt max_def)
    ultimately have "aligned_for al p" by (simp add: aligned_for_def)
    moreover have "\<forall>a\<in>sr_span os ?b. w_policy w' a = node_policy os ?node" using V(5) by (simp add: x S)
    ultimately show ?thesis using new parts(4) sr_inv_add [OF inv' m' dj pl h] fs unfolding x by auto
  qed
qed

text \<open>\<open>do_deallocate\<close> reads the header and unmaps the span.\<close>

lemma sr_spans_del:
  assumes inv: "sr_inv os B w" and b: "B p = Some b"
  shows "sr_spans os B = sr_span os b \<union> sr_spans os (B(p := None))"
    and "sr_span os b \<inter> sr_spans os (B(p := None)) = {}"
proof -
  have "sr_spans os (B(p := None)) \<inter> sr_span os b = {}"
    using sr_invD(5) [OF inv _ b] by (fastforce simp: sr_spans_def ran_def split: if_splits)
  then show "sr_span os b \<inter> sr_spans os (B(p := None)) = {}" by blast
  show "sr_spans os B = sr_span os b \<union> sr_spans os (B(p := None))"
  proof (intro set_eqI iffI)
    fix x assume "x \<in> sr_spans os B"
    then obtain q c where q: "B q = Some c" "x \<in> sr_span os c" by (auto simp: sr_spans_def ran_def)
    show "x \<in> sr_span os b \<union> sr_spans os (B(p := None))"
      using q b sr_spans_part [of "B(p := None)" q c os] by (cases "q = p") auto
  next
    fix x assume "x \<in> sr_span os b \<union> sr_spans os (B(p := None))"
    then show "x \<in> sr_spans os B"
      using sr_spans_part [of B p b os, OF b] unfolding sr_spans_def ran_def by (fastforce split: if_splits)
  qed
qed

lemma sr_deallocate:
  assumes inv: "sr_inv os B w" and b: "B p = Some b" and w': "w' = sr_do_deallocate os p bytes al w"
  shows "sr_inv os (B(p := None)) w'" and "frame_step (sr_span os b) w {} w'"
    and "frame_step (sr_spans os B) w (sr_spans os (B(p := None))) w'"
proof -
  obtain raw len n where bb: "b = (raw, len, n)" by (metis prod_cases3)
  note os = sr_invD(1) [OF inv]
  have pl: "sr_placed os p (raw, len, n)" and h: "sr_header (w_mem w) p (raw, len, n)"
    and m: "bytes_of raw (span_bytes os len) \<subseteq> mapped w"
    using sr_invD(2-4) [OF inv b] by (simp_all add: bb sr_span_def)
  have "w' = vm_release os raw len w"
    using sr_placed_parts(4) [OF pl] h
    by (simp add: w' sr_do_deallocate_def Let_def sr_header_def sizeof_AllocationHeader_def)
  then show fs: "frame_step (sr_span os b) w {} w'"
    using pl m os by (auto simp: bb sr_span_def sr_placed_def intro!: vm_release_frame)
  note D = sr_spans_del [OF inv b]
  have mp: "sr_spans os B \<subseteq> mapped w" by (rule sr_laws(1) [OF inv])
  have "frame_step (sr_span os b \<union> sr_spans os (B(p := None))) w ({} \<union> sr_spans os (B(p := None))) w'"
    using D mp by (intro frame_step_extend [OF fs]) blast+
  then show "frame_step (sr_spans os B) w (sr_spans os (B(p := None))) w'" by (simp only: D(1) Un_empty_left)
  have "sr_inv os (B(p := None)) w"
    using inv unfolding sr_inv_def by (auto split: if_splits)
  from sr_laws(4) [OF this fs] D(2) show "sr_inv os (B(p := None)) w'" by blast
qed

subsection \<open>The simple resource as an allocator\<close>

definition sr_alloc_op ::
  "os \<Rightarrow> topology \<Rightarrow> int \<Rightarrow> u64 \<times> u64 \<Rightarrow> simple_resource \<Rightarrow> world \<Rightarrow> (ptr res \<times> simple_resource \<times> world) option" where
  "sr_alloc_op os topo cpu q r w = (case sr_do_allocate os topo cpu (fst q) (snd q) r w of (x, w') \<Rightarrow> Some (x, r, w'))"

definition sr_free_op ::
  "os \<Rightarrow> ptr \<Rightarrow> simple_resource \<Rightarrow> world \<Rightarrow> (unit res \<times> simple_resource \<times> world) option" where
  "sr_free_op os p r w = Some (Inr (), r, sr_do_deallocate os p 0 0 w)"

lemma sr_owns_allocate:
  assumes o: "sr_owns os r w F U" and lg: "sr_legal os (bytes, al)"
    and run: "sr_do_allocate os topo cpu bytes al r w = (x, w')"
  shows "agree_on F (w_mem w) (w_mem w') \<and>
    (case x of Inl e \<Rightarrow> e = Bad_alloc \<and> sr_owns os r w' F U \<and> frame_step {} w {} w'
     | Inr p \<Rightarrow> U p = None \<and> p \<noteq> nullptr \<and> aligned_for al p \<and>
         (\<exists>S. frame_step {} w S w' \<and> F \<inter> S = {} \<and> sr_area (bytes, al) p \<subseteq> S \<and>
           (\<forall>a\<in>S. w_policy w' a = node_policy os (sr_node topo cpu r)) \<and>
           sr_owns os r w' (F \<union> S) (U(p \<mapsto> sr_area (bytes, al) p))))"
proof -
  obtain B where inv: "sr_inv os B w" and F: "F = sr_spans os B" and U: "U = sr_grants B"
    using o by (auto simp: sr_owns_def)
  note A = sr_allocate [OF inv lg run]
  note L = sr_laws [OF inv]
  show ?thesis
  proof (cases x)
    case (Inl e)
    then have fs: "frame_step {} w {} w'" and e: "e = Bad_alloc" using A by simp_all
    have "agree_on F (w_mem w) (w_mem w')" using frame_step_mem [OF _ L(1) fs] by (simp add: F)
    moreover have "sr_inv os B w'" by (rule L(4) [OF fs]) simp
    ultimately show ?thesis using fs e unfolding sr_owns_def F U Inl by auto
  next
    case (Inr p)
    define n where "n = unat (at_least_one bytes)"
    obtain raw len where P: "B p = None" "p \<noteq> nullptr" "aligned_for al p" "sr_inv os (B(p \<mapsto> (raw, len, n))) w'"
      "frame_step {} w (sr_span os (raw, len, n)) w'"
      "\<forall>a\<in>sr_span os (raw, len, n). w_policy w' a = node_policy os (sr_node topo cpu r)"
      using A by (auto simp: Inr n_def)
    let ?S = "sr_span os (raw, len, n)"
    have area: "sr_area (bytes, al) p = bytes_of p n" by (simp add: sr_area_def n_def)
    have "agree_on F (w_mem w) (w_mem w')" using frame_step_mem [OF _ L(1) P(5)] by (simp add: F)
    moreover have "F \<inter> ?S = {}" using P(5) L(1) by (auto simp: F frame_step_def)
    moreover have "bytes_of p n \<subseteq> ?S" using sr_placed_parts(2) [of os p raw len n] sr_invD(2) [OF P(4), of p] by simp
    moreover have "sr_owns os r w' (F \<union> ?S) (U(p \<mapsto> bytes_of p n))"
      using P(4) sr_spans_upd [of B p, OF P(1)] unfolding sr_owns_def F U by (intro exI [of _ "B(p \<mapsto> (raw, len, n))"]) simp
    moreover have "U p = None" using P(1) by (simp add: U sr_grants_def)
    ultimately show ?thesis using P(2,3,5,6) by (simp add: Inr area) blast
  qed
qed

lemma sr_owns_deallocate:
  assumes o: "sr_owns os r w F U" and p: "U p \<noteq> None" and w': "w' = sr_do_deallocate os p bytes al w"
  shows "\<exists>F'. sr_owns os r w' F' (U(p := None)) \<and> frame_step F w F' w' \<and> F' \<subseteq> F \<and> agree_on F' (w_mem w) (w_mem w')"
proof -
  obtain B where inv: "sr_inv os B w" and F: "F = sr_spans os B" and U: "U = sr_grants B"
    using o by (auto simp: sr_owns_def)
  obtain b where b: "B p = Some b" using p by (auto simp: U sr_grants_def split: option.splits)
  note D = sr_deallocate [OF inv b w'] and S = sr_spans_del [OF inv b]
  have "sr_grants (B(p := None)) = U(p := None)" by (rule ext) (simp add: U sr_grants_def)
  moreover have "sr_spans os (B(p := None)) \<subseteq> mapped w" using sr_laws(1) [OF inv] S(1) by blast
  then have "agree_on (sr_spans os (B(p := None))) (w_mem w) (w_mem w')"
    using frame_step_mem [OF _ _ D(2)] S(2) by blast
  ultimately have "agree_on (sr_spans os (B(p := None))) (w_mem w) (w_mem w')"
    and "sr_owns os r w' (sr_spans os (B(p := None))) (U(p := None))"
    using D(1) unfolding sr_owns_def by (simp, intro exI [of _ "B(p := None)"]) simp
  then show ?thesis using D(3) S(1) by (intro exI [of _ "sr_spans os (B(p := None))"]) (simp add: F)
qed

interpretation sra: allocator "sr_owns os" "sr_alloc_op os topo cpu" "sr_free_op os" "\<lambda>r. sr_area" "sr_legal os"
  for os topo cpu
proof unfold_locales
  fix r w F U assume o: "sr_owns os r w F U"
  then obtain B where inv: "sr_inv os B w" and F: "F = sr_spans os B" and U: "U = sr_grants B"
    unfolding sr_owns_def by (elim exE conjE)
  note L = sr_laws [OF inv]
  show mp: "F \<subseteq> mapped w" unfolding F by (rule L(1))
  show part: "A \<subseteq> F \<and> p \<noteq> nullptr" if "U p = Some A" for p A unfolding F by (rule L(2) [OF that [unfolded U]])
  show "A \<inter> C = {}" if "U p = Some A" "U q = Some C" "p \<noteq> q" for p q A C
    by (rule L(3) [OF that(1,2) [unfolded U] that(3)])
  show "sr_owns os r w' F U" if "frame_step G w G' w'" "F \<inter> G = {}" for G w' G'
    using L(4) [OF that(1)] that(2) unfolding sr_owns_def F U by blast
  show "sr_owns os r (w\<lparr>w_mem := m'\<rparr>) F U" if "agree_on (- granted U) (w_mem w) m'" for m'
    using L(5) [OF that [unfolded U]] unfolding sr_owns_def F U by blast
  have gr: "granted U \<subseteq> F" using part unfolding granted_def ran_def by blast
  note A = sr_owns_allocate [OF o]
  show "sr_alloc_op os topo cpu q r w \<noteq> None" for q by (simp add: sr_alloc_op_def split: prod.splits)
  show "U p = None \<and> agree_on (granted U) (w_mem w) (w_mem w') \<and>
      (\<exists>F'. sr_owns os r' w' F' (U(p \<mapsto> sr_area q p)) \<and> frame_step F w F' w')"
    if lg: "sr_legal os q" and run: "sr_alloc_op os topo cpu q r w = Some (Inr p, r', w')" for q p r' w'
  proof -
    have lg': "sr_legal os (fst q, snd q)" using lg by simp
    have run': "sr_do_allocate os topo cpu (fst q) (snd q) r w = (Inr p, w')" and r': "r' = r"
      using run by (auto simp: sr_alloc_op_def split: prod.splits)
    obtain S where S: "agree_on F (w_mem w) (w_mem w')" "U p = None" "frame_step {} w S w'" "F \<inter> S = {}"
      "sr_owns os r w' (F \<union> S) (U(p \<mapsto> sr_area q p))"
      using A [OF lg' run'] by auto
    have "frame_step ({} \<union> F) w (S \<union> F) w'" by (rule frame_step_extend [OF S(3) mp]) simp
    then have "frame_step F w (F \<union> S) w'" by (simp add: Un_commute)
    then show ?thesis using S agree_on_mono [OF S(1) gr] r' by blast
  qed
  show "agree_on (granted U) (w_mem w) (w_mem w') \<and> (\<exists>F'. sr_owns os r' w' F' U \<and> frame_step F w F' w')"
    if lg: "sr_legal os q" and run: "sr_alloc_op os topo cpu q r w = Some (Inl e, r', w')" for q e r' w'
  proof -
    have lg': "sr_legal os (fst q, snd q)" using lg by simp
    have run': "sr_do_allocate os topo cpu (fst q) (snd q) r w = (Inl e, w')" and r': "r' = r"
      using run by (auto simp: sr_alloc_op_def split: prod.splits)
    have S: "agree_on F (w_mem w) (w_mem w')" "sr_owns os r w' F U" "frame_step {} w {} w'"
      using A [OF lg' run'] by auto
    have "frame_step ({} \<union> F) w ({} \<union> F) w'" by (rule frame_step_extend [OF S(3) mp]) simp
    then show ?thesis using S agree_on_mono [OF S(1) gr] r' by auto
  qed
  show "sr_free_op os p r w \<noteq> None" for p by (simp add: sr_free_op_def)
  show "x = Inr () \<and> agree_on (granted (U(p := None))) (w_mem w) (w_mem w') \<and>
      (\<exists>F'. sr_owns os r' w' F' (U(p := None)) \<and> frame_step F w F' w')"
    if p: "U p \<noteq> None" and run: "sr_free_op os p r w = Some (x, r', w')" for p x r' w'
  proof -
    have w': "w' = sr_do_deallocate os p 0 0 w" and x: "x = Inr ()" "r' = r" using run by (auto simp: sr_free_op_def)
    obtain F' where F': "sr_owns os r w' F' (U(p := None))" "frame_step F w F' w'" "agree_on F' (w_mem w) (w_mem w')"
      using sr_owns_deallocate [OF o p w'] by blast
    obtain B' where B': "sr_inv os B' w'" "F' = sr_spans os B'" "U(p := None) = sr_grants B'"
      using F'(1) by (auto simp: sr_owns_def)
    have "granted (U(p := None)) \<subseteq> F'"
      unfolding B'(2,3) granted_def ran_def using sr_laws(2) [OF B'(1)] by blast
    then show ?thesis using F' agree_on_mono [OF F'(3)] x by blast
  qed
qed

text \<open>Taking a block and returning it leaves the address space as it was.\<close>

lemma sr_round_trip:
  assumes o: "sr_owns os r w F U" and lg: "sr_legal os (bytes, al)"
    and al: "sr_do_allocate os topo cpu bytes al r w = (Inr p, w1)"
  shows "mapped (sr_do_deallocate os p bytes' al' w1) = mapped w"
    and "agree_on (mapped w) (w_mem w) (w_mem (sr_do_deallocate os p bytes' al' w1))"
proof -
  obtain B where inv: "sr_inv os B w" using o by (auto simp: sr_owns_def)
  define n where "n = unat (at_least_one bytes)"
  obtain raw len where P: "sr_inv os (B(p \<mapsto> (raw, len, n))) w1" "frame_step {} w (sr_span os (raw, len, n)) w1"
    using sr_allocate [OF inv lg al] by (auto simp: n_def)
  let ?S = "sr_span os (raw, len, n)" and ?w2 = "sr_do_deallocate os p bytes' al' w1"
  have "frame_step ?S w1 {} ?w2" by (rule sr_deallocate(2) [OF P(1) _ refl]) simp
  from frame_step_trans [OF P(2) this] have "frame_step {} w {} ?w2" .
  then show "mapped ?w2 = mapped w" and "agree_on (mapped w) (w_mem w) (w_mem ?w2)"
    by (simp_all add: frame_step_def agree_on_def)
qed

text \<open>With no block in use the resource owns nothing: there is nothing to destroy.\<close>

lemma sr_owns_empty [simp]: "os_ok os \<Longrightarrow> sr_owns os r w {} Map.empty"
  unfolding sr_owns_def by (intro exI [of _ Map.empty]) (simp add: sr_inv_def sr_spans_def sr_grants_def fun_eq_iff)

lemma sr_owns_all_back: "sr_owns os r w F Map.empty \<Longrightarrow> F = {}"
proof -
  assume "sr_owns os r w F Map.empty"
  then obtain B where B: "F = sr_spans os B" "Map.empty = sr_grants B" by (auto simp: sr_owns_def)
  have "B p = None" for p
  proof -
    have "sr_grants B p = None" using B(2) by metis
    then show ?thesis by (simp add: sr_grants_def split: option.splits prod.splits)
  qed
  then show "F = {}" by (auto simp: B(1) sr_spans_def ran_def)
qed

subsection \<open>Requests that wrap\<close>

text \<open>
  The guard bounds \<open>bytes + alignment + 16\<close>, not its rounding to pages: for a total in the
  last page below \<open>2 ^ 64\<close>, \<open>align_up\<close> gives 0, \<open>alloc_on_node\<close> maps one page for it, the
  test of \<open>allocate_from_span\<close> wraps as well, and a pointer is returned for almost \<open>2 ^ 64\<close>
  bytes. Returning the block unmaps nothing, because the remembered size is 0.
\<close>

lemma sr_allocate_wraps:
  assumes os: "os_ok os"
    and guard: "unat (at_least_one bytes) + unat (sr_alignment al) + 16 < 18446744073709551616"
    and big: "18446744073709551616 < unat (at_least_one bytes) + unat (sr_alignment al) + 16 + unat (page_size os)"
    and vm: "vm_alloc_on_node os 0 (sr_node topo cpu r) Bind w = (Inr raw, w1)"
    and hi: "unat (sr_alignment al) + unat (page_size os) \<le> unat raw" "unat raw < 2 ^ 63"
  shows "\<exists>p m. sr_do_allocate os topo cpu bytes al r w = (Inr p, w1\<lparr>w_mem := m\<rparr>) \<and> p \<noteq> nullptr \<and>
    unat p = round_up (unat raw + 16) (unat (sr_alignment al)) \<and>
    sr_do_deallocate os p bytes al (w1\<lparr>w_mem := m\<rparr>) = w1\<lparr>w_mem := m\<rparr>"
proof -
  let ?b = "at_least_one bytes" and ?a = "sr_alignment al"
  have a8: "8 \<le> unat ?a" by (simp add: sr_alignment_def word_less_nat_alt)
  have s: "unat (?b + ?a) = unat ?b + unat ?a" using guard by (intro unat_add_u64) linarith
  have x: "unat (?b + ?a + 16) = unat ?b + unat ?a + 16" using guard by (subst unat_plus_numeral) (simp_all add: s)
  have t: "sr_total os bytes al = 0"
    unfolding sr_total_def by (rule align_up_wraps [OF os_ok_page_nz [OF os]]) (simp only: x big)
  define p where "p = align_up (raw + 16) ?a"
  have r16: "unat (raw + 16) = unat raw + 16" using hi(2) by (intro unat_plus_numeral) simp
  have anz: "?a \<noteq> 0" using a8 by auto
  have up: "unat p = round_up (unat raw + 16) (unat ?a)"
    unfolding p_def using hi anz os_ok_page_ge [OF os] by (subst unat_align_up) (simp_all add: r16)
  have lo: "unat raw + 16 \<le> unat p" and pl: "unat p < unat raw + 16 + unat ?a"
    unfolding up using a8 by (auto intro: round_up_ge round_up_less)
  have ge: "18446744073709551616 \<le> unat p + unat ?b" using lo big hi(1) by linarith
  have "unat (p + ?b) = (unat p + unat ?b) mod 18446744073709551616" by (rule unat_add_mod_u64)
  also have "\<dots> = unat p + unat ?b - 18446744073709551616"
  proof -
    have "unat p + unat ?b - 18446744073709551616 < 18446744073709551616"
      using unat_u64_bound [of p] unat_u64_bound [of ?b] by linarith
    then show ?thesis by (simp only: le_mod_geq [OF ge] mod_less)
  qed
  also have "\<dots> \<le> unat raw" using pl guard by linarith
  finally have ok: "\<not> p + ?b > raw" by (simp add: word_less_nat_alt)
  define m where "m = set_ah_total_size (p - 16) 0 (set_ah_raw_ptr (p - 16) raw (w_mem w1))"
  have h: "ah_total_size m (p - 16) = 0"
    by (simp add: m_def ah_total_size_def set_ah_total_size_def set_ah_raw_ptr_def)
  have nn: "p \<noteq> nullptr" using lo by auto
  have "sr_do_allocate os topo cpu bytes al r w = (Inr p, w1\<lparr>w_mem := m\<rparr>)"
    using ok by (simp add: sr_do_allocate_guard [OF guard] t vm sr_allocate_from_span_def Let_def
        p_def [symmetric] m_def sizeof_AllocationHeader_def)
  moreover have "sr_do_deallocate os p bytes al (w1\<lparr>w_mem := m\<rparr>) = w1\<lparr>w_mem := m\<rparr>"
    using nn h by (simp add: sr_do_deallocate_def Let_def sizeof_AllocationHeader_def vm_release_def)
  ultimately show ?thesis using nn up by blast
qed

text \<open>So the page stays mapped after the block was returned. For an alignment that divides the page
  the header lies in the page; for a larger one the code may store it behind the page.\<close>

lemma sr_wraps_leak:
  assumes os: "os_ok os"
    and guard: "unat (at_least_one bytes) + unat (sr_alignment al) + 16 < 18446744073709551616"
    and big: "18446744073709551616 < unat (at_least_one bytes) + unat (sr_alignment al) + 16 + unat (page_size os)"
    and vm: "vm_alloc_on_node os 0 (sr_node topo cpu r) Bind w = (Inr raw, w1)"
    and al: "unat (sr_alignment al) dvd unat (page_size os)" and hi: "2 * unat (page_size os) \<le> unat raw"
  shows "\<exists>p w2. sr_do_allocate os topo cpu bytes al r w = (Inr p, w2) \<and> p \<noteq> nullptr \<and>
    {unat p - 16 ..< unat p} \<subseteq> bytes_of raw (unat (page_size os)) \<and>
    sr_do_deallocate os p bytes al w2 = w2 \<and>
    mapped w2 = bytes_of raw (unat (page_size os)) \<union> mapped w \<and> bytes_of raw (unat (page_size os)) \<inter> mapped w = {}"
proof -
  obtain q w0 where rs: "vm_reserve os 0 w = (Inr q, w0)"
    using vm by (auto simp: vm_alloc_on_node_def split: prod.splits sum.splits)
  note V = vm_alloc_0 [OF os vm rs]
  have q: "q = raw" using V(3) by simp
  let ?a = "unat (sr_alignment al)" and ?pg = "unat (page_size os)"
  have pg: "0 < ?pg" "16 \<le> ?pg" using os_ok_page_ge [OF os] by simp_all
  have a: "?a \<le> ?pg" using al pg(1) by (rule dvd_imp_le)
  then have hi': "?a + ?pg \<le> unat raw" using hi by simp
  have "unat raw < 2 ^ 63" using V(4) os_ok_page_ge [OF os] by (simp add: q)
  from sr_allocate_wraps [OF os guard big vm hi' this] obtain p m where
    P: "sr_do_allocate os topo cpu bytes al r w = (Inr p, w1\<lparr>w_mem := m\<rparr>)" "p \<noteq> nullptr"
      "unat p = round_up (unat raw + 16) ?a" "sr_do_deallocate os p bytes al (w1\<lparr>w_mem := m\<rparr>) = w1\<lparr>w_mem := m\<rparr>"
    by blast
  have a0: "0 < ?a" by (simp add: sr_alignment_def word_less_nat_alt unat_gt_0_u64)
  have lo: "unat raw + 16 \<le> unat p" unfolding P(3) by (rule round_up_ge [OF a0])
  have "?a dvd unat raw + ?pg" using al V(4) dvd_trans [OF al] by (simp add: q)
  then have "unat p \<le> unat raw + ?pg" unfolding P(3) using pg(2) by (intro round_up_least) simp_all
  then have "{unat p - 16 ..< unat p} \<subseteq> bytes_of raw ?pg" using lo by (auto simp: bytes_of_iff)
  with P V(1,2) show ?thesis by (auto simp: q)
qed

end
