(* ===== verification/Large_Threads.thy ===== *)
theory Large_Threads
  imports Large_Object
begin

section \<open>A large object allocator shared by threads\<close>

text \<open>
  \<open>LargeObjectAllocator\<close> holds its mutex only while it searches or fills the cache of spans; the
  mapping, the header and the unmapping are done without it. As \<open>Arena_Threads\<close> does for small
  blocks, this theory splits its functions at the points where the mutex is not held, and
  follows the span that a thread has in its hands between two sections.
\<close>

subsection \<open>Tasks\<close>

text \<open>The arguments of a request are its size, its alignment and the size of its span.\<close>

datatype large_task =
    La_acquire u64 u64 u64
  | La_map u64 u64 u64
  | La_place u64 u64 cached_span
  | La_allocated u64 "ptr res"
  | La_release ptr u64
  | La_unmap ptr u64
  | La_released

text \<open>The search of \<open>acquire_span\<close> under the mutex.\<close>

definition la_hit :: "u64 \<Rightarrow> large_alloc \<Rightarrow> nat option" where
  "la_hit sz la =
    (let bin_index = bin_index_for sz in
     if bin_index \<noteq> npos then
       let last_bin = min (kNumLargeBins - 1) (unat bin_index + kLargeBinSearchLimit)
       in find_bin (la_bins la) (unat bin_index) (Suc last_bin - unat bin_index)
     else None)"

fun la_advance :: "os \<Rightarrow> large_task \<Rightarrow> large_alloc \<Rightarrow> world \<Rightarrow> large_task \<times> large_alloc \<times> world" where
  "la_advance os (La_acquire sz alignment span_size) la w =
     (case la_hit span_size la of
        Some i \<Rightarrow> (let (span, la1) = take_cached_span i la in (La_place sz alignment span, la1, w))
      | None \<Rightarrow> (La_map sz alignment span_size, la, w))"
| "la_advance os (La_map sz alignment span_size) la w =
     (case vm_alloc_on_node os span_size (la_node_id la) Bind w of
        (Inl e, w1) \<Rightarrow> (La_allocated sz (Inl e), la, w1)
      | (Inr raw, w1) \<Rightarrow> (La_place sz alignment (raw, span_size), la, w1))"
| "la_advance os (La_place sz alignment span) la w =
     (let (r, m) = la_allocate_from_span (la_node_id la) sz alignment (snd span) (fst span) (w_mem w)
      in (La_allocated sz r, la, w\<lparr>w_mem := m\<rparr>))"
| "la_advance os (La_allocated sz r) la w = (La_allocated sz r, la, w)"
| "la_advance os (La_release raw total_size) la w =
     (case la_release_to_cache raw total_size la of
        (True, la1) \<Rightarrow> (La_released, la1, w)
      | (False, la1) \<Rightarrow> (La_unmap raw total_size, la1, w))"
| "la_advance os (La_unmap raw total_size) la w = (La_released, la, vm_release os raw total_size w)"
| "la_advance os La_released la w = (La_released, la, w)"

definition la_begin_allocate :: "os \<Rightarrow> u64 \<Rightarrow> u64 \<Rightarrow> large_task" where
  "la_begin_allocate os sz alignment =
    (let alignment = (if alignment < 8 then 8 else alignment) in
     if alignment > size_max - sizeof_BlockHeader \<or>
        sz > size_max - alignment - sizeof_BlockHeader
     then La_allocated sz (Inl Bad_alloc)
     else
       let total = sz + alignment + sizeof_BlockHeader;
           span_size = span_class_size_for os total
       in La_acquire sz alignment span_size)"

definition la_begin_deallocate :: "ptr \<Rightarrow> mem \<Rightarrow> large_task" where
  "la_begin_deallocate p m =
    (if p = nullptr then La_released
     else
       let header = from_user_ptr p
       in La_release (bh_raw_ptr m header) (bh_total_size m header))"

subsection \<open>One thread alone\<close>

fun la_alone :: "os \<Rightarrow> nat \<Rightarrow> large_task \<times> large_alloc \<times> world \<Rightarrow> large_task \<times> large_alloc \<times> world" where
  "la_alone os 0 st = st"
| "la_alone os (Suc n) (task, la, w) = la_alone os n (la_advance os task la w)"

lemma la_alone_allocated [simp]: "la_alone os n (La_allocated sz r, la, w) = (La_allocated sz r, la, w)"
  and la_alone_released [simp]: "la_alone os n (La_released, la, w) = (La_released, la, w)"
  by (induction n) simp_all

lemma la_acquire_by_hit:
  "la_acquire_span os sz la w = (case la_hit sz la of
     Some i \<Rightarrow> (let (span, la1) = take_cached_span i la in (Inr span, la1, w))
   | None \<Rightarrow> (case vm_alloc_on_node os sz (la_node_id la) Bind w of
       (Inl e, w1) \<Rightarrow> (Inl e, la, w1)
     | (Inr raw, w1) \<Rightarrow> (Inr (raw, sz), la, w1)))"
  by (simp add: la_acquire_span_def la_hit_def Let_def)

lemma la_node_take_cached: "take_cached_span i la = (span, la1) \<Longrightarrow> la_node_id la1 = la_node_id la"
  by (auto simp: take_cached_span_def Let_def)

lemma la_alone_allocate:
  "la_alone os 3 (la_begin_allocate os sz alignment, la, w) =
    (case la_allocate os sz alignment la w of (r, la', w') \<Rightarrow> (La_allocated sz r, la', w'))"
proof -
  define a where "a = (if alignment < 8 then 8 else alignment)"
  define ss where "ss = span_class_size_for os (sz + a + sizeof_BlockHeader)"
  show ?thesis
  proof (cases "a > size_max - sizeof_BlockHeader \<or> sz > size_max - a - sizeof_BlockHeader")
    case True
    then show ?thesis by (simp add: la_begin_allocate_def la_allocate_def a_def [symmetric] Let_def)
  next
    case False
    then have start: "la_begin_allocate os sz alignment = La_acquire sz a ss"
      and al: "la_allocate os sz alignment la w = (case la_acquire_span os ss la w of
            (Inl e, la1, w1) \<Rightarrow> (Inl e, la1, w1)
          | (Inr span, la1, w1) \<Rightarrow>
              (let (r, m) = la_allocate_from_span (la_node_id la) sz a (snd span) (fst span) (w_mem w1)
               in (r, la1, w1\<lparr>w_mem := m\<rparr>)))"
      by (simp_all add: la_begin_allocate_def la_allocate_def a_def [symmetric] ss_def [symmetric] Let_def)
    show ?thesis
      unfolding start al la_acquire_by_hit
      by (auto simp: numeral_3_eq_3 Let_def dest: la_node_take_cached split: option.split prod.split sum.split)
  qed
qed

lemma la_alone_deallocate:
  "la_alone os 2 (la_begin_deallocate p (w_mem w), la, w) =
    (case la_deallocate os p la w of (la', w') \<Rightarrow> (La_released, la', w'))"
  by (auto simp: la_begin_deallocate_def la_deallocate_def numeral_2_eq_2 Let_def split: prod.split bool.split)

subsection \<open>The span in the hands of a thread\<close>

definition request_ok :: "os \<Rightarrow> u64 \<Rightarrow> u64 \<Rightarrow> u64 \<Rightarrow> bool" where
  "request_ok os sz alignment span_size \<longleftrightarrow> alignment \<noteq> 0 \<and> span_size \<noteq> 0 \<and>
     unat (page_size os) dvd unat span_size \<and> fits_page os span_size \<and>
     unat sz + unat alignment + 32 \<le> unat span_size"

definition harea :: "cached_span option \<Rightarrow> nat set" where
  "harea h = (case h of None \<Rightarrow> {} | Some s \<Rightarrow> span_area s)"

lemma harea_simps [simp]: "harea None = {}" "harea (Some s) = span_area s"
  by (simp_all add: harea_def)

definition hand_ok :: "os \<Rightarrow> int \<Rightarrow> world \<Rightarrow> cached_span option \<Rightarrow> bool" where
  "hand_ok os node w h \<longleftrightarrow> (\<forall>s. h = Some s \<longrightarrow> span_ok os node w s) \<and> harea h \<subseteq> mapped w"

fun large_task_ok :: "os \<Rightarrow> int \<Rightarrow> mem \<Rightarrow> large_task \<Rightarrow> cached_span option \<Rightarrow> bool" where
  "large_task_ok os node m (La_acquire sz alignment span_size) h = (h = None \<and> request_ok os sz alignment span_size)"
| "large_task_ok os node m (La_map sz alignment span_size) h = (h = None \<and> request_ok os sz alignment span_size)"
| "large_task_ok os node m (La_place sz alignment span) h =
     (h = Some span \<and> alignment \<noteq> 0 \<and> unat sz + unat alignment + 32 \<le> unat (snd span))"
| "large_task_ok os node m (La_allocated sz r) h =
     (case r of
        Inl e \<Rightarrow> h = None
      | Inr p \<Rightarrow> \<exists>raw span. h = Some (raw, span) \<and> block_ok node m (p, raw, span, sz))"
| "large_task_ok os node m (La_release raw total_size) h = (h = Some (raw, total_size))"
| "large_task_ok os node m (La_unmap raw total_size) h = (h = Some (raw, total_size))"
| "large_task_ok os node m La_released h = (h = None)"

text \<open>What one section of one thread does to the cache, to its hands and to the memory.\<close>

definition la_section ::
  "os \<Rightarrow> large_alloc \<Rightarrow> la_block list \<Rightarrow> world \<Rightarrow> cached_span option \<Rightarrow>
   large_task \<Rightarrow> large_alloc \<Rightarrow> world \<Rightarrow> cached_span option \<Rightarrow> bool" where
  "la_section os la lv w h task' la' w' h' \<longleftrightarrow>
     la_inv os la' lv w' \<and> la_node_id la' = la_node_id la \<and>
     large_task_ok os (la_node_id la) (w_mem w') task' h' \<and> hand_ok os (la_node_id la) w' h' \<and>
     harea h' \<inter> pool_area (la_pool la' lv) = {} \<and>
     frame_step (pool_area (la_pool la lv) \<union> harea h) w (pool_area (la_pool la' lv) \<union> harea h') w' \<and>
     agree_on (pool_area (la_pool la lv)) (w_mem w) (w_mem w')"

lemma la_section_idle:
  assumes "la_inv os la lv w" and "hand_ok os (la_node_id la) w h" and "harea h \<inter> pool_area (la_pool la lv) = {}"
    and "large_task_ok os (la_node_id la) (w_mem w) task' h"
  shows "la_section os la lv w h task' la w h"
  using assms by (simp add: la_section_def frame_step_refl la_inv_def hand_ok_def)

lemma la_pool_hit: "la_cached la = add_mset s (la_cached la') \<Longrightarrow> la_pool la lv = add_mset s (la_pool la' lv)"
  by (simp add: la_pool_def)

lemma la_section_hit:
  assumes inv: "la_inv os la lv w" and rq: "request_ok os sz alignment ss" and hit: "la_hit ss la = Some i"
    and take: "take_cached_span i la = (span, la1)"
  shows "la_section os la lv w None (La_place sz alignment span) la1 w (Some span)"
proof -
  have acq: "la_acquire_span os ss la w = (Inr span, la1, w)" by (simp add: la_acquire_by_hit hit take)
  have wf: "la_wf la" using inv by (simp add: la_inv_def)
  have "la_cached la = add_mset span (la_cached la1) \<and> unat ss \<le> unat (snd span) \<and> la_wf la1"
  proof (cases rule: la_acquire_span_cases [OF wf acq])
    case (1 s k j)
    have "unat (kLargeBinSizes ! k) \<le> unat (kLargeBinSizes ! j)"
    proof (cases "k = j")
      case False
      have "sorted_wrt (<) (map unat kLargeBinSizes)" by (simp add: kLargeBinSizes_list)
      from sorted_wrt_nth_less [OF this, of k j] False 1(7,9) show ?thesis by simp
    qed simp
    then show ?thesis using 1 by simp
  next
    case (2 raw)
    have np: "bin_index_for ss \<noteq> npos" and f: "find_bin (la_bins la) (unat (bin_index_for ss))
        (Suc (min 15 (unat (bin_index_for ss) + kLargeBinSearchLimit)) - unat (bin_index_for ss)) = Some i"
      using hit by (auto simp: la_hit_def Let_def split: if_splits)
    have "unat (bin_index_for ss) < 16" using np bin_index_for_cases [of ss] by auto
    then have "i < 16" "sb_count (la_bins la ! i) \<noteq> 0" using find_bin_Some [OF f] by auto
    from take_cached_span_ok [OF wf this take] 2(2) show ?thesis by simp
  qed simp
  then have pool: "la_pool la lv = add_mset span (la_pool la1 lv)" and le: "unat ss \<le> unat (snd span)" and wf1: "la_wf la1"
    by (simp_all add: la_pool_hit)
  note nd = la_node_take_cached [OF take]
  have "la_inv os la1 lv w" and sp: "span_ok os (la_node_id la) w span"
    and dj: "span_area span \<inter> pool_area (la_pool la1 lv) = {}" and sub: "span_area span \<union> pool_area (la_pool la1 lv) \<subseteq> mapped w"
    using inv wf1 nd unfolding la_inv_def pool by (simp_all add: spans_apart_add)
  moreover have "pool_area (la_pool la1 lv) \<union> span_area span = span_area span \<union> pool_area (la_pool la1 lv)" by (rule Un_commute)
  ultimately show ?thesis
    using rq le nd by (simp add: la_section_def pool hand_ok_def request_ok_def frame_step_refl)
qed

lemma la_section_map:
  assumes os: "os_ok os" and inv: "la_inv os la lv w" and rq: "request_ok os sz alignment ss"
    and v: "vm_alloc_on_node os ss (la_node_id la) Bind w = (r, w1)"
    and task': "task' = (case r of Inl e \<Rightarrow> La_allocated sz (Inl e) | Inr raw \<Rightarrow> La_place sz alignment (raw, ss))"
  shows "la_section os la lv w None task' la w1 (case r of Inl e \<Rightarrow> None | Inr raw \<Rightarrow> Some (raw, ss))"
proof (cases r)
  case (Inl e)
  have nz: "ss \<noteq> 0" "fits_page os ss" using rq by (simp_all add: request_ok_def)
  have "frame_step {} w {} w1" using vm_alloc_on_node_Inl [OF os nz v [unfolded Inl]] by simp
  note I = la_idle [OF inv this]
  then show ?thesis by (simp add: la_section_def task' Inl hand_ok_def)
next
  case (Inr raw)
  have nz: "ss \<noteq> 0" "fits_page os ss" and dv: "unat (page_size os) dvd unat ss" and al: "alignment \<noteq> 0"
    and fit: "unat sz + unat alignment + 32 \<le> unat ss" using rq by (simp_all add: request_ok_def)
  note V = vm_alloc_on_node_Inr [OF os nz v [unfolded Inr]]
  have sb: "span_bytes os ss = unat ss" using dv os_ok_page_ge [OF os] by (simp add: span_bytes_def round_up_id)
  have area: "bytes_of raw (span_bytes os ss) = span_area (raw, ss)" by (simp add: span_area_def sb)
  have inv1: "la_inv os la lv w1" by (rule la_inv_frame [OF inv V(1)]) simp
  have sub: "pool_area (la_pool la lv) \<subseteq> mapped w" using inv by (simp add: la_inv_def)
  note K = frame_step_mem [OF Int_empty_right sub V(1)]
  have "span_ok os (la_node_id la) w1 (raw, ss)" using V nz dv by (simp add: span_ok_def sb)
  then have h: "hand_ok os (la_node_id la) w1 (Some (raw, ss))"
    using V(1) by (auto simp: hand_ok_def area frame_step_def)
  have dj: "span_area (raw, ss) \<inter> pool_area (la_pool la lv) = {}" using K by (auto simp: area)
  have "frame_step (pool_area (la_pool la lv)) w (pool_area (la_pool la lv) \<union> span_area (raw, ss)) w1"
    using frame_step_extend [OF V(1) sub Int_empty_right] by (simp add: area Un_commute)
  then show ?thesis using inv1 h dj K al fit by (simp add: la_section_def task' Inr)
qed

lemma la_section_place:
  assumes inv: "la_inv os la lv w" and h: "hand_ok os (la_node_id la) w (Some span)"
    and dj: "span_area span \<inter> pool_area (la_pool la lv) = {}" and al: "alignment \<noteq> 0"
    and fit: "unat sz + unat alignment + 32 \<le> unat (snd span)"
    and pl: "la_allocate_from_span (la_node_id la) sz alignment (snd span) (fst span) (w_mem w) = (r, m)"
  shows "la_section os la lv w (Some span) (La_allocated sz r) la (w\<lparr>w_mem := m\<rparr>) (Some span)"
proof -
  obtain raw n where s: "span = (raw, n)" by (cases span)
  have held: "la_held os la lv (raw, n) w" using inv h dj by (simp add: la_held_def hand_ok_def s)
  have sub: "pool_area (la_pool la lv) \<subseteq> mapped w" using inv by (simp add: la_inv_def)
  obtain p where P: "r = Inr p" "la_inv os la ((p, raw, n, sz) # lv) (w\<lparr>w_mem := m\<rparr>)"
    "frame_step (span_area (raw, n)) w (span_area (raw, n)) (w\<lparr>w_mem := m\<rparr>)"
    using la_place_ok [OF held al, of sz r m] fit pl unfolding s by auto
  have dj': "pool_area (la_pool la lv) \<inter> span_area (raw, n) = {}" using dj by (auto simp: s)
  have inv': "la_inv os la lv (w\<lparr>w_mem := m\<rparr>)" by (rule la_inv_frame [OF inv P(3) dj'])
  have "block_ok (la_node_id la) m (p, raw, n, sz)" using la_inv_block [OF P(2), of "(p, raw, n, sz)"] by simp
  moreover have "hand_ok os (la_node_id la) (w\<lparr>w_mem := m\<rparr>) (Some span)"
    using h by (simp add: hand_ok_def span_ok_def s)
  moreover have "frame_step (pool_area (la_pool la lv) \<union> span_area span) w (pool_area (la_pool la lv) \<union> span_area span)
      (w\<lparr>w_mem := m\<rparr>)"
    using frame_step_extend [OF P(3) sub dj'] by (simp add: s Un_commute)
  ultimately show ?thesis
    using inv' dj frame_step_mem [OF dj' sub P(3)] by (simp add: la_section_def P(1) s)
qed

lemma la_section_release:
  assumes inv: "la_inv os la lv w" and h: "hand_ok os (la_node_id la) w (Some (raw, n))"
    and dj: "span_area (raw, n) \<inter> pool_area (la_pool la lv) = {}"
    and rel: "la_release_to_cache raw n la = (r, la1)"
  shows "la_section os la lv w (Some (raw, n)) (if r then La_released else La_unmap raw n) la1 w
    (if r then None else Some (raw, n))"
proof -
  have wf: "la_wf la" using inv by (simp add: la_inv_def)
  note R = la_release_to_cache_ok [OF wf rel]
  show ?thesis
  proof (cases r)
    case False
    then show ?thesis using R(3) la_section_idle [OF inv h, of "La_unmap raw n"] dj by simp
  next
    case True
    then have pool: "la_pool la1 lv = add_mset (raw, n) (la_pool la lv)" using R(2) by (simp add: la_pool_def)
    have "la_inv os la1 lv w"
      using inv h dj R(1,4) unfolding la_inv_def pool hand_ok_def by (simp add: spans_apart_add)
    moreover have "frame_step (pool_area (la_pool la lv) \<union> span_area (raw, n)) w
        (span_area (raw, n) \<union> pool_area (la_pool la lv)) w"
      unfolding Un_commute [of "span_area (raw, n)"] using inv h
      by (intro frame_step_refl) (simp add: la_inv_def hand_ok_def)
    ultimately show ?thesis using True R(4) by (simp add: la_section_def pool hand_ok_def)
  qed
qed

lemma la_section_unmap:
  assumes os: "os_ok os" and inv: "la_inv os la lv w" and h: "hand_ok os (la_node_id la) w (Some (raw, n))"
    and dj: "span_area (raw, n) \<inter> pool_area (la_pool la lv) = {}"
  shows "la_section os la lv w (Some (raw, n)) La_released la (vm_release os raw n w) None"
proof -
  have sp: "raw \<noteq> nullptr" "n \<noteq> 0" "unat (page_size os) dvd unat raw" "unat (page_size os) dvd unat n"
    "unat raw + unat n \<le> 2 ^ 63" and sub: "span_area (raw, n) \<subseteq> mapped w"
    using h by (simp_all add: hand_ok_def span_ok_def)
  have sb: "span_bytes os n = unat n" using sp(4) os_ok_page_ge [OF os] by (simp add: span_bytes_def round_up_id)
  have fit: "fits_page os n" using sp(5) os_ok_page_le [OF os] by (simp add: fits_page_def)
  have fs: "frame_step (span_area (raw, n)) w {} (vm_release os raw n w)"
    using vm_release_frame [OF os sp(1,2) fit sp(3)] sub by (simp add: span_area_def sb)
  have dj': "pool_area (la_pool la lv) \<inter> span_area (raw, n) = {}" using dj by auto
  have psub: "pool_area (la_pool la lv) \<subseteq> mapped w" using inv by (simp add: la_inv_def)
  have "frame_step (pool_area (la_pool la lv) \<union> span_area (raw, n)) w (pool_area (la_pool la lv)) (vm_release os raw n w)"
    using frame_step_extend [OF fs psub dj'] by (simp add: Un_commute)
  then show ?thesis
    using la_inv_frame [OF inv fs dj'] frame_step_mem [OF dj' psub fs] by (simp add: la_section_def hand_ok_def)
qed

theorem la_advance_section:
  assumes os: "os_ok os" and inv: "la_inv os la lv w" and t: "large_task_ok os (la_node_id la) (w_mem w) task h"
    and h: "hand_ok os (la_node_id la) w h" and dj: "harea h \<inter> pool_area (la_pool la lv) = {}"
    and adv: "la_advance os task la w = (task', la', w')"
  shows "\<exists>h'. la_section os la lv w h task' la' w' h'"
proof (cases task)
  case (La_acquire sz al ss)
  then have rq: "h = None" "request_ok os sz al ss" using t by simp_all
  show ?thesis
  proof (cases "la_hit ss la")
    case None
    then show ?thesis using adv rq la_section_idle [OF inv h dj, of "La_map sz al ss"] La_acquire by auto
  next
    case (Some i)
    obtain span la1 where take: "take_cached_span i la = (span, la1)" by fastforce
    from la_section_hit [OF inv rq(2) Some take] show ?thesis using adv Some take rq La_acquire by auto
  qed
next
  case (La_map sz al ss)
  then have rq: "h = None" "request_ok os sz al ss" using t by simp_all
  obtain r w1 where v: "vm_alloc_on_node os ss (la_node_id la) Bind w = (r, w1)" by fastforce
  from la_section_map [OF os inv rq(2) v refl] show ?thesis using adv v rq La_map by (cases r) auto
next
  case (La_place sz al span)
  then have rq: "h = Some span" "al \<noteq> 0" "unat sz + unat al + 32 \<le> unat (snd span)" using t by simp_all
  obtain r m where pl: "la_allocate_from_span (la_node_id la) sz al (snd span) (fst span) (w_mem w) = (r, m)" by fastforce
  have "harea (Some span) \<inter> pool_area (la_pool la lv) = {}" using dj rq(1) by simp
  from la_section_place [OF inv h [unfolded rq(1)] this [unfolded harea_simps] rq(2,3) pl]
  show ?thesis using adv pl rq(1) La_place by auto
next
  case (La_release raw n)
  then have rq: "h = Some (raw, n)" using t by simp
  obtain r la1 where rel: "la_release_to_cache raw n la = (r, la1)" by fastforce
  from la_section_release [OF inv h [unfolded rq] _ rel] show ?thesis using adv rel rq dj La_release by (cases r) auto
next
  case (La_unmap raw n)
  then have rq: "h = Some (raw, n)" using t by simp
  from la_section_unmap [OF os inv h [unfolded rq]] show ?thesis using adv rq dj La_unmap by auto
next
  case (La_allocated sz r)
  then show ?thesis using adv la_section_idle [OF inv h dj t] by auto
next
  case La_released
  then show ?thesis using adv la_section_idle [OF inv h dj t] by auto
qed

subsection \<open>Requests and returns\<close>

lemma la_begin_allocate_ok:
  assumes os: "os_ok os" and legal: "large_legal os (sz, alignment)"
  shows "large_task_ok os node m (la_begin_allocate os sz alignment) None"
proof -
  define a where "a = (if alignment < 8 then 8 else alignment)"
  define total where "total = sz + a + sizeof_BlockHeader"
  note T = large_total [OF os legal, folded a_def, folded total_def]
  have tnz: "total \<noteq> 0" using T(1) by auto
  note S = span_class_size_for_ok [OF os T(3) tnz]
  have "la_begin_allocate os sz alignment = La_acquire sz a (span_class_size_for os total)"
    using T(2) by (simp add: la_begin_allocate_def a_def [symmetric] total_def [symmetric] Let_def)
  moreover have "request_ok os sz a (span_class_size_for os total)" using S T(1,4) by (simp add: request_ok_def)
  ultimately show ?thesis by simp
qed

text \<open>A block that is returned goes to the hands of the thread.\<close>

lemma la_give:
  assumes inv: "la_inv os la lv w" and b: "(p, raw, span, sz) \<in> set lv"
  shows "la_inv os la (remove1 (p, raw, span, sz) lv) w" and "hand_ok os (la_node_id la) w (Some (raw, span))"
    and "span_area (raw, span) \<inter> pool_area (la_pool la (remove1 (p, raw, span, sz) lv)) = {}"
    and "pool_area (la_pool la lv) = pool_area (la_pool la (remove1 (p, raw, span, sz) lv)) \<union> span_area (raw, span)"
    and "la_begin_deallocate p (w_mem w) = La_release raw span"
proof -
  let ?b = "(p, raw, span, sz)"
  note split = la_pool_split [OF b, of la, unfolded block_span_def prod.case]
  have d: "distinct (map fst lv)" using inv by (simp add: la_inv_def)
  have "\<forall>c\<in>set (remove1 ?b lv). block_ok (la_node_id la) (w_mem w) c"
    using inv set_remove1_subset [of ?b lv] by (auto simp: la_inv_def)
  then show "la_inv os la (remove1 ?b lv) w"
    using inv distinct_fst_remove1 [OF d] unfolding la_inv_def split by (simp add: spans_apart_add)
  show "hand_ok os (la_node_id la) w (Some (raw, span))"
    using inv unfolding la_inv_def split by (simp add: hand_ok_def)
  show "span_area (raw, span) \<inter> pool_area (la_pool la (remove1 ?b lv)) = {}"
    using inv unfolding la_inv_def split by (simp add: spans_apart_add)
  show "pool_area (la_pool la lv) = pool_area (la_pool la (remove1 ?b lv)) \<union> span_area (raw, span)"
    by (simp add: split Un_commute)
  have bok: "block_ok (la_node_id la) (w_mem w) ?b" by (rule la_inv_block [OF inv b])
  then have "p \<noteq> nullptr" by (auto simp: block_ok_def)
  then show "la_begin_deallocate p (w_mem w) = La_release raw span"
    using bok by (simp add: la_begin_deallocate_def block_ok_def Let_def)
qed

text \<open>A block that a thread has placed goes to the users.\<close>

lemma la_take:
  assumes inv: "la_inv os la lv w" and h: "hand_ok os (la_node_id la) w (Some (raw, span))"
    and dj: "span_area (raw, span) \<inter> pool_area (la_pool la lv) = {}"
    and b: "block_ok (la_node_id la) (w_mem w) (p, raw, span, sz)"
  shows "la_inv os la ((p, raw, span, sz) # lv) w" and "p \<notin> fst ` set lv"
    and "pool_area (la_pool la ((p, raw, span, sz) # lv)) = pool_area (la_pool la lv) \<union> span_area (raw, span)"
    and "p \<noteq> nullptr" and "bytes_of p (unat sz) \<subseteq> span_area (raw, span)"
proof -
  have pool: "la_pool la ((p, raw, span, sz) # lv) = add_mset (raw, span) (la_pool la lv)"
    by (simp add: la_pool_def block_span_def)
  then show "pool_area (la_pool la ((p, raw, span, sz) # lv)) = pool_area (la_pool la lv) \<union> span_area (raw, span)"
    by (simp add: Un_commute)
  have lo: "unat raw + 32 \<le> unat p" using b by (simp add: block_ok_def)
  then show "p \<noteq> nullptr" by auto
  have area: "{unat p - 32 ..< unat p + unat sz} \<subseteq> span_area (raw, span)"
    using block_area [OF b refl] by (simp add: block_span_def)
  moreover have "bytes_of p (unat sz) \<subseteq> {unat p - 32 ..< unat p + unat sz}" by (auto simp: bytes_of_def)
  ultimately show "bytes_of p (unat sz) \<subseteq> span_area (raw, span)" by blast
  show new: "p \<notin> fst ` set lv"
  proof
    assume "p \<in> fst ` set lv"
    then obtain raw' span' sz' where c: "(p, raw', span', sz') \<in> set lv" by auto
    have "unat p - 32 \<in> {unat p - 32 ..< unat p + unat sz'}" using lo by simp
    then have "unat p - 32 \<in> pool_area (la_pool la lv)"
      using block_area [OF la_inv_block [OF inv c] refl] la_inv_span_pool [OF inv c] by blast
    moreover have "unat p - 32 \<in> {unat p - 32 ..< unat p + unat sz}" using lo by simp
    ultimately show False using area dj by blast
  qed
  show "la_inv os la ((p, raw, span, sz) # lv) w"
    using inv h dj b new by (auto simp: la_inv_def pool spans_apart_add hand_ok_def)
qed

subsection \<open>The hands of all threads\<close>

definition hands :: "(nat \<Rightarrow> cached_span option) \<Rightarrow> nat set" where
  "hands hs = (\<Union>t. harea (hs t))"

text \<open>\<open>P\<close> are the bytes of the allocator: no thread has one of them in its hands.\<close>

definition hands_ok ::
  "os \<Rightarrow> int \<Rightarrow> world \<Rightarrow> nat set \<Rightarrow> large_task list \<Rightarrow> (nat \<Rightarrow> cached_span option) \<Rightarrow> bool" where
  "hands_ok os node w P tasks hs \<longleftrightarrow>
     (\<forall>t<length tasks. large_task_ok os node (w_mem w) (tasks ! t) (hs t)) \<and>
     (\<forall>t. length tasks \<le> t \<longrightarrow> hs t = None) \<and>
     (\<forall>t. hand_ok os node w (hs t) \<and> harea (hs t) \<inter> P = {}) \<and>
     (\<forall>s t. s \<noteq> t \<longrightarrow> harea (hs s) \<inter> harea (hs t) = {})"

lemma hands_split: "hands hs = harea (hs t) \<union> (\<Union>s\<in>- {t}. harea (hs s))"
  by (auto simp: hands_def)

lemma hands_upd: "hands (hs(t := h)) = harea h \<union> (\<Union>s\<in>- {t}. harea (hs s))"
  by (auto simp: hands_def split: if_splits)

lemma large_task_ok_local:
  assumes "large_task_ok os node (w_mem w) task h" and "hand_ok os node w h"
    and "agree_on (harea h) (w_mem w) m'"
  shows "large_task_ok os node m' task h"
proof (cases "\<exists>sz p. task = La_allocated sz (Inr p)")
  case True
  then obtain sz p where task: "task = La_allocated sz (Inr p)" by blast
  obtain raw span where h: "h = Some (raw, span)" and b: "block_ok node (w_mem w) (p, raw, span, sz)"
    using assms(1) by (auto simp: task)
  have sp: "span_ok os node w (block_span (p, raw, span, sz))" using assms(2) by (simp add: h hand_ok_def block_span_def)
  have "{unat p - 32 ..< unat p} \<subseteq> harea h" using block_area [OF b refl] by (auto simp: h block_span_def)
  then have "block_ok node m' (p, raw, span, sz)"
    by (intro block_ok_local [OF b sp]) (simp add: agree_on_mono [OF assms(3)])
  then show ?thesis by (simp add: task h)
next
  case False
  then show ?thesis using assms(1) by (cases task) (auto split: sum.splits)
qed

lemma hand_frame:
  assumes h: "hand_ok os node w h" and fs: "frame_step G w G' w'" and dj: "harea h \<inter> G = {}"
  shows "hand_ok os node w' h" and "harea h \<inter> G' = {}" and "agree_on (harea h) (w_mem w) (w_mem w')"
proof -
  have sub: "harea h \<subseteq> mapped w" using h by (simp add: hand_ok_def)
  note K = frame_step_mem [OF dj sub fs]
  then show "harea h \<inter> G' = {}" "agree_on (harea h) (w_mem w) (w_mem w')" by simp_all
  have "span_ok os node w' s" if s: "h = Some s" for s
  proof -
    have "span_ok os node w s" using h s by (simp add: hand_ok_def)
    moreover have "\<forall>x\<in>span_area s. w_policy w' x = w_policy w x" using K s by simp
    ultimately show ?thesis by (auto simp: span_ok_def span_area_def split: prod.splits)
  qed
  then show "hand_ok os node w' h" using K by (simp add: hand_ok_def)
qed

text \<open>A step of a thread with its own hands, or of the allocator without any.\<close>

lemma hands_step:
  assumes ok: "hands_ok os node w P tasks hs" and t: "t < length tasks"
    and P: "P \<subseteq> mapped w"
    and fs: "frame_step (P \<union> harea (hs t)) w (P' \<union> harea h') w'" and dj: "harea h' \<inter> P' = {}"
    and task: "large_task_ok os node (w_mem w') task' h'" and h': "hand_ok os node w' h'"
  shows "hands_ok os node w' P' (tasks[t := task']) (hs(t := h'))"
    and "frame_step (P \<union> hands hs) w (P' \<union> hands (hs(t := h'))) w'"
proof -
  let ?R = "\<Union>s\<in>- {t}. harea (hs s)"
  have out: "harea (hs s) \<inter> (P \<union> harea (hs t)) = {}" if "s \<noteq> t" for s
    using ok that by (simp add: hands_ok_def Int_Un_distrib)
  have hok: "hand_ok os node w (hs s)" for s using ok by (simp add: hands_ok_def)
  note F = hand_frame [OF hok fs out]
  have tk: "large_task_ok os node (w_mem w') (tasks ! s) (hs s)" if "s < length tasks" "s \<noteq> t" for s
  proof -
    have "large_task_ok os node (w_mem w) (tasks ! s) (hs s)" using ok that(1) by (simp add: hands_ok_def)
    from large_task_ok_local [OF this hok F(3) [OF that(2)]] show ?thesis .
  qed
  have apart: "harea (hs s) \<inter> P' = {}" "harea (hs s) \<inter> harea h' = {}" "harea h' \<inter> harea (hs s) = {}" if "s \<noteq> t" for s
    using F(2) [OF that] by auto
  have old: "\<forall>s u. s \<noteq> u \<longrightarrow> harea (hs s) \<inter> harea (hs u) = {}" "\<forall>s. length tasks \<le> s \<longrightarrow> hs s = None"
    using ok by (simp_all add: hands_ok_def)
  show "hands_ok os node w' P' (tasks[t := task']) (hs(t := h'))"
    unfolding hands_ok_def
  proof (intro conjI allI impI)
    fix s assume "s < length (tasks[t := task'])"
    then show "large_task_ok os node (w_mem w') (tasks[t := task'] ! s) ((hs(t := h')) s)"
      using tk [of s] task t by (cases "s = t") simp_all
  next
    fix s assume "length (tasks[t := task']) \<le> s"
    then show "(hs(t := h')) s = None" using old(2) t by auto
  next
    fix s show "hand_ok os node w' ((hs(t := h')) s)" using F(1) h' by (cases "s = t") simp_all
    show "harea ((hs(t := h')) s) \<inter> P' = {}" using apart(1) dj by (cases "s = t") simp_all
  next
    fix s u :: nat assume "s \<noteq> u"
    then show "harea ((hs(t := h')) s) \<inter> harea ((hs(t := h')) u) = {}"
      using apart(2,3) old(1) by (cases "s = t"; cases "u = t") simp_all
  qed
  have R: "?R \<subseteq> mapped w" using hok by (auto simp: hand_ok_def)
  have "?R \<inter> (P \<union> harea (hs t)) = {}" using out by blast
  from frame_step_extend [OF fs R this]
  have "frame_step (P \<union> harea (hs t) \<union> ?R) w (P' \<union> harea h' \<union> ?R) w'" .
  then show "frame_step (P \<union> hands hs) w (P' \<union> hands (hs(t := h'))) w'"
    by (simp only: hands_upd hands_split [of hs t] Un_assoc)
qed

lemma hands_frame:
  assumes ok: "hands_ok os node w P tasks hs" and fs: "frame_step P w P' w'"
  shows "hands_ok os node w' P' tasks hs" and "frame_step (P \<union> hands hs) w (P' \<union> hands hs) w'"
proof -
  have hok: "hand_ok os node w (hs s)" and out: "harea (hs s) \<inter> P = {}" for s
    using ok by (simp_all add: hands_ok_def)
  note F = hand_frame [OF hok fs out]
  have "large_task_ok os node (w_mem w') (tasks ! s) (hs s)" if "s < length tasks" for s
    using ok that large_task_ok_local [OF _ hok F(3)] by (simp add: hands_ok_def)
  then show "hands_ok os node w' P' tasks hs" using ok F(1,2) by (simp add: hands_ok_def)
  have "hands hs \<subseteq> mapped w" using hok by (auto simp: hands_def hand_ok_def)
  moreover have "hands hs \<inter> P = {}" using out by (auto simp: hands_def)
  ultimately show "frame_step (P \<union> hands hs) w (P' \<union> hands hs) w'" by (rule frame_step_extend [OF fs])
qed

lemma hands_okD:
  assumes "hands_ok os node w P tasks hs"
  shows "hands hs \<subseteq> mapped w" and "hands hs \<inter> P = {}"
    and "t < length tasks \<Longrightarrow> large_task_ok os node (w_mem w) (tasks ! t) (hs t)"
    and "hand_ok os node w (hs t)" and "harea (hs t) \<inter> P = {}"
  using assms by (auto simp: hands_ok_def hands_def hand_ok_def)

lemma hands_none [simp]: "hands (\<lambda>_. None) = {}"
  by (simp add: hands_def)

lemma hands_ok_idle: "hands_ok os node w P (replicate n La_released) (\<lambda>_. None)"
  by (simp add: hands_ok_def hand_ok_def)

lemma hands_retask:
  assumes "hands_ok os node w P tasks hs" and "t < length tasks" and "large_task_ok os node (w_mem w) task' (hs t)"
  shows "hands_ok os node w P (tasks[t := task']) hs"
  using assms by (auto simp: hands_ok_def nth_list_update)

text \<open>A step elsewhere in the address space.\<close>

lemma hands_outside:
  assumes ok: "hands_ok os node w P tasks hs" and fs: "frame_step G w G' w'" and dj: "hands hs \<inter> G = {}"
  shows "hands_ok os node w' P tasks hs"
proof -
  have hok: "hand_ok os node w (hs s)" for s using ok by (simp add: hands_ok_def)
  have "harea (hs s) \<inter> G = {}" for s using dj by (auto simp: hands_def)
  note F = hand_frame [OF hok fs this]
  have "large_task_ok os node (w_mem w') (tasks ! s) (hs s)" if "s < length tasks" for s
    using ok that large_task_ok_local [OF _ hok F(3)] by (simp add: hands_ok_def)
  then show ?thesis using ok F(1) by (simp add: hands_ok_def)
qed

end
