(* ===== verification/Arena_Threads.thy ===== *)
theory Arena_Threads
  imports Numa_Arena Large_Threads
begin

section \<open>An arena shared by threads\<close>

text \<open>
  The functions of \<open>NumaArena\<close> are not atomic: a mutex is held for one section at a time, and
  other threads run between two sections. This theory splits the path of a small block
  through \<open>allocate\<close>, \<open>deallocate\<close> and \<open>deallocate_foreign\<close> at every point where no mutex is
  held. A \<open>task\<close> is such a point of one thread, with the local variables that are still needed
  there; \<open>advance\<close> runs one section. The sections are the locked regions of the bins of
  \<open>numa_arena.cpp\<close> and those of \<open>SizeClass\<close>, the single updates of the atomic
  \<open>foreign_bytes_\<close>, and the unlocked writes to a header that only one thread knows.
  A schedule interleaves the sections of any number of threads in any order.
\<close>

subsection \<open>Tasks\<close>

datatype task =
    At_idle
  | At_load u64
  | At_allocate u64
  | At_existing u64
  | At_detach u64
  | At_uncount bool u64 foreign_batch
  | At_drain bool u64 foreign_batch
  | At_retry u64
  | At_new_slab u64
  | At_header u64 ptr
  | At_allocated u64 "ptr res"
  | At_enqueue ptr
  | At_deallocate ptr
  | At_freed "unit res"

text \<open>The locked region of \<open>enqueue_foreign_small\<close>.\<close>

definition enqueue_section ::
  "ptr \<Rightarrow> u64 \<Rightarrow> u64 \<Rightarrow> arena \<Rightarrow> mem \<Rightarrow> (foreign_batch \<times> arena \<times> mem) option" where
  "enqueue_section header cls class_index ar m =
    (let high = foreign_high_watermark cls;
         low = foreign_low_watermark cls;
         i = unat class_index;
         bin = ar_foreign_bins ar ! i;
         m = set_next_link header (fl_head bin) m;
         bin = bin\<lparr>fl_head := header, fl_count := fl_count bin + 1, fl_bytes := fl_bytes bin + cls\<rparr>
     in case (if fl_bytes bin > high
              then detach_foreign_until_low_locked bin cls low m
              else Some (empty_foreign, bin, m)) of
          None \<Rightarrow> None
        | Some (batch, bin, m) \<Rightarrow>
            Some (batch, ar\<lparr>ar_foreign_bins := (ar_foreign_bins ar)[i := bin],
                            ar_foreign_bytes := ar_foreign_bytes ar + cls\<rparr>, m))"

text \<open>A locked region of the class \<open>class_index\<close> in which a block is taken, or not.\<close>

definition try_section ::
  "u64 \<Rightarrow> (u64 \<Rightarrow> task) \<Rightarrow> arena \<Rightarrow> world \<Rightarrow> task \<times> arena \<times> world" where
  "try_section class_index fail ar w =
    (let i = unat class_index;
         (b, sc, w1) = sc_allocate_existing (sm_classes (ar_small ar) ! i) w
     in (if b \<noteq> nullptr then At_header class_index b else fail class_index,
         ar\<lparr>ar_small := set_class i sc (ar_small ar)\<rparr>, w1))"

definition got_block :: "u64 \<Rightarrow> ptr res \<Rightarrow> task" where
  "got_block class_index r =
    (case r of Inl e \<Rightarrow> At_allocated class_index (Inl e) | Inr b \<Rightarrow> At_header class_index b)"

fun advance :: "os \<Rightarrow> task \<Rightarrow> arena \<Rightarrow> world \<Rightarrow> (task \<times> arena \<times> world) option" where
  "advance os At_idle ar w = Some (At_idle, ar, w)"
| "advance os (At_load class_index) ar w =
     Some (if \<not> ar_foreign_freelist_enabled ar \<or> ar_foreign_bytes ar = 0
           then At_allocate class_index else At_existing class_index, ar, w)"
| "advance os (At_allocate class_index) ar w =
     (let (r, sm, w1) = sm_allocate_by_class_index os class_index (ar_small ar) w
      in Some (got_block class_index r, ar\<lparr>ar_small := sm\<rparr>, w1))"
| "advance os (At_existing class_index) ar w =
     (if class_index \<ge> of_nat kNumSizeClasses then Some (At_allocated class_index (Inl Out_of_range), ar, w)
      else Some (try_section class_index At_detach ar w))"
| "advance os (At_detach class_index) ar w =
     (if class_index \<ge> of_nat kNumSizeClasses then Some (At_allocated class_index (Inl Out_of_range), ar, w)
      else
        let i = unat class_index;
            (batch, bin) = detach_all_foreign_locked (ar_foreign_bins ar ! i)
        in Some (At_uncount True class_index batch,
                 ar\<lparr>ar_foreign_bins := (ar_foreign_bins ar)[i := bin]\<rparr>, w))"
| "advance os (At_uncount allocating class_index batch) ar w =
     Some (At_drain allocating class_index batch,
           (if fl_bytes batch \<noteq> 0 then ar\<lparr>ar_foreign_bytes := ar_foreign_bytes ar - fl_bytes batch\<rparr> else ar), w)"
| "advance os (At_drain allocating class_index batch) ar w =
     (case drain_foreign_batch os class_index batch (ar_small ar) w of
        None \<Rightarrow> None
      | Some (r, sm, w1) \<Rightarrow>
          Some (if allocating
                then (case r of Inl e \<Rightarrow> At_allocated class_index (Inl e) | Inr _ \<Rightarrow> At_retry class_index)
                else At_freed r, ar\<lparr>ar_small := sm\<rparr>, w1))"
| "advance os (At_retry class_index) ar w = Some (try_section class_index At_new_slab ar w)"
| "advance os (At_new_slab class_index) ar w =
     (let i = unat class_index;
          (r, sc, w1) = sc_allocate_new_slab os (sm_classes (ar_small ar) ! i) w
      in Some (got_block class_index r, ar\<lparr>ar_small := set_class i sc (ar_small ar)\<rparr>, w1))"
| "advance os (At_header class_index header) ar w =
     (let cls = kClassSizes ! unat class_index;
          m1 = set_bh_node_id header (of_int (ar_node_id ar)) (w_mem w);
          m2 = set_bh_size_class header (ucast cls) m1;
          m3 = set_bh_size header 0 m2
      in Some (At_allocated class_index (Inr (to_user_ptr header)), ar, w\<lparr>w_mem := m3\<rparr>))"
| "advance os (At_allocated class_index r) ar w = Some (At_allocated class_index r, ar, w)"
| "advance os (At_enqueue header) ar w =
     (let cls = ucast (bh_size_class (w_mem w) header) in
      case class_index_for_size cls of
        Inl e \<Rightarrow> Some (At_freed (Inl e), ar, w)
      | Inr class_index \<Rightarrow>
          (case enqueue_section header cls class_index ar (w_mem w) of
             None \<Rightarrow> None
           | Some (batch, ar1, m) \<Rightarrow> Some (At_uncount False class_index batch, ar1, w\<lparr>w_mem := m\<rparr>)))"
| "advance os (At_deallocate header) ar w =
     (let (r, sm, w1) = sm_deallocate os header (ar_small ar) w
      in Some (At_freed r, ar\<lparr>ar_small := sm\<rparr>, w1))"
| "advance os (At_freed r) ar w = Some (At_freed r, ar, w)"

lemma advance_node:
  assumes "advance os task ar w = Some (task', ar', w')"
  shows "ar_node_id ar' = ar_node_id ar"
  using assms
  by (cases task)
    (auto simp: try_section_def got_block_def enqueue_section_def Let_def split: if_splits sum.splits option.splits prod.splits)

text \<open>The sections of a thread, whichever allocator of the arena its call leads to. The sections
  of the large allocator are those of \<open>Large_Threads\<close>.\<close>

datatype activity = On_small task | On_large large_task

fun advance_activity :: "os \<Rightarrow> activity \<Rightarrow> arena \<Rightarrow> world \<Rightarrow> (activity \<times> arena \<times> world) option" where
  "advance_activity os (On_small task) ar w =
     (case advance os task ar w of
        None \<Rightarrow> None
      | Some (task', ar', w') \<Rightarrow> Some (On_small task', ar', w'))"
| "advance_activity os (On_large task) ar w =
     (let (task', la, w') = la_advance os task (ar_large ar) w
      in Some (On_large task', ar\<lparr>ar_large := la\<rparr>, w'))"

text \<open>The beginning of a call, up to its first section: \<open>allocate\<close>, and the two ways back of a block.\<close>

definition small_request :: "u64 \<Rightarrow> task" where
  "small_request sz =
    (case class_index_for_size sz of
       Inl e \<Rightarrow> At_allocated 0 (Inl e)
     | Inr class_index \<Rightarrow> At_load class_index)"

definition begin_allocate :: "os \<Rightarrow> u64 \<Rightarrow> u64 \<Rightarrow> activity" where
  "begin_allocate os sz alignment =
    (let sz = (if sz = 0 then 1 else sz) in
     if sz \<le> SMALL_LARGE_THRESHOLD \<and> alignment \<le> ALIGNMENT then On_small (small_request sz)
     else On_large (la_begin_allocate os sz alignment))"

definition small_return :: "bool \<Rightarrow> ptr \<Rightarrow> arena \<Rightarrow> task" where
  "small_return foreign header ar =
    (if foreign \<and> ar_foreign_freelist_enabled ar then At_enqueue header else At_deallocate header)"

definition begin_deallocate :: "bool \<Rightarrow> ptr \<Rightarrow> arena \<Rightarrow> mem \<Rightarrow> activity" where
  "begin_deallocate foreign p ar m =
    (let header = from_user_ptr p in
     if bh_size_class m header \<noteq> 0 then On_small (small_return foreign header ar)
     else On_large (la_begin_deallocate p m))"

text \<open>What a call that has ended returns.\<close>

fun allocated :: "activity \<Rightarrow> ptr res option" where
  "allocated (On_small (At_allocated class_index r)) = Some r"
| "allocated (On_large (La_allocated sz r)) = Some r"
| "allocated call = None"

fun freed :: "activity \<Rightarrow> unit res option" where
  "freed (On_small (At_freed r)) = Some r"
| "freed (On_large La_released) = Some (Inr ())"
| "freed call = None"

subsection \<open>One thread alone\<close>

text \<open>Without interference the sections of a call are the call: \<open>alone n\<close> runs \<open>n\<close> of them.\<close>

fun alone :: "os \<Rightarrow> nat \<Rightarrow> task \<times> arena \<times> world \<Rightarrow> (task \<times> arena \<times> world) option" where
  "alone os 0 st = Some st"
| "alone os (Suc n) (task, ar, w) =
     (case advance os task ar w of None \<Rightarrow> None | Some st \<Rightarrow> alone os n st)"

lemma alone_freed [simp]: "alone os n (At_freed r, ar, w) = Some (At_freed r, ar, w)"
  and alone_allocated [simp]: "alone os n (At_allocated ci x, ar, w) = Some (At_allocated ci x, ar, w)"
  by (induction n) simp_all

lemma alone_step: "advance os task ar w = Some st \<Longrightarrow> 0 < n \<Longrightarrow> alone os n (task, ar, w) = alone os (n - 1) st"
  by (cases n) simp_all

lemma enqueue_by_sections:
  assumes "class_index_for_size (ucast (bh_size_class (w_mem w) h)) = Inr ci"
  shows "enqueue_foreign_small os h ar w =
    (case enqueue_section h (ucast (bh_size_class (w_mem w) h)) ci ar (w_mem w) of
       None \<Rightarrow> None
     | Some (batch, ar1, m) \<Rightarrow>
         (let ar2 = (if fl_bytes batch \<noteq> 0 then ar1\<lparr>ar_foreign_bytes := ar_foreign_bytes ar1 - fl_bytes batch\<rparr>
                     else ar1)
          in case drain_foreign_batch os ci batch (ar_small ar2) (w\<lparr>w_mem := m\<rparr>) of
               None \<Rightarrow> None
             | Some (r, sm, w1) \<Rightarrow> Some (r, ar2\<lparr>ar_small := sm\<rparr>, w1)))"
proof -
  let ?cls = "ucast (bh_size_class (w_mem w) h) :: u64" and ?bin = "ar_foreign_bins ar ! unat ci"
  define m1 where "m1 = set_next_link h (fl_head ?bin) (w_mem w)"
  define bin1 where "bin1 = ?bin\<lparr>fl_head := h, fl_count := fl_count ?bin + 1, fl_bytes := fl_bytes ?bin + ?cls\<rparr>"
  define X where "X = (if fl_bytes bin1 > foreign_high_watermark ?cls
    then detach_foreign_until_low_locked bin1 ?cls (foreign_low_watermark ?cls) m1
    else Some (empty_foreign, bin1, m1))"
  show ?thesis
    unfolding enqueue_foreign_small_def enqueue_section_def Let_def assms sum.case
      m1_def [symmetric] bin1_def [symmetric] X_def [symmetric]
    by (cases X) (auto split: option.split prod.split)
qed

lemma alone_small_foreign:
  assumes "bh_size_class (w_mem w) (from_user_ptr p) \<noteq> 0"
  shows "alone os 3 (small_return True (from_user_ptr p) ar, ar, w) =
    map_option (\<lambda>(r, ar', w'). (At_freed r, ar', w')) (ar_deallocate_foreign os p ar w)"
proof (cases "ar_foreign_freelist_enabled ar")
  case False
  then show ?thesis
    using assms by (simp add: small_return_def ar_deallocate_foreign_def ar_deallocate_own_def
        numeral_3_eq_3 split: prod.splits)
next
  case True
  show ?thesis
  proof (cases "class_index_for_size (ucast (bh_size_class (w_mem w) (from_user_ptr p)))")
    case (Inl e)
    then show ?thesis
      using assms True by (simp add: small_return_def ar_deallocate_foreign_def enqueue_foreign_small_def
          numeral_3_eq_3)
  next
    case (Inr ci)
    then show ?thesis
      using assms True enqueue_by_sections [OF Inr]
      by (simp add: small_return_def ar_deallocate_foreign_def Let_def numeral_3_eq_3 split: option.split prod.split)
  qed
qed

lemma alone_small_own:
  assumes "bh_size_class (w_mem w) (from_user_ptr p) \<noteq> 0"
  shows "alone os 1 (small_return False (from_user_ptr p) ar, ar, w) =
    Some (case ar_deallocate_own os p ar w of (r, ar', w') \<Rightarrow> (At_freed r, ar', w'))"
  using assms by (simp add: small_return_def ar_deallocate_own_def split: prod.splits)

definition header_written :: "int \<Rightarrow> u64 \<Rightarrow> ptr res \<Rightarrow> world \<Rightarrow> world" where
  "header_written node cls r w =
    (case r of
       Inl e \<Rightarrow> w
     | Inr h \<Rightarrow> w\<lparr>w_mem := set_bh_size h 0 (set_bh_size_class h (ucast cls)
         (set_bh_node_id h (of_int node) (w_mem w)))\<rparr>)"

lemma advance_got_block:
  "advance os (got_block ci r) ar w = Some (At_allocated ci (map_sum id to_user_ptr r), ar,
     header_written (ar_node_id ar) (kClassSizes ! unat ci) r w)"
  by (cases r) (simp_all add: got_block_def header_written_def Let_def)

lemma alone_small_allocate:
  assumes small: "is_small (at_least_one sz) alignment" and ci: "class_index_for_size (at_least_one sz) = Inr ci"
    and i: "unat ci < 40"
  shows "alone os 8 (small_request (at_least_one sz), ar, w) =
    map_option (\<lambda>(r, ar', w'). (At_allocated ci r, ar', w')) (ar_allocate os sz alignment ar w)"
proof -
  have bc: "\<not> ci \<ge> of_nat kNumSizeClasses" by (rule class_index_ok [OF i])
  have start: "small_request (at_least_one sz) = At_load ci" using ci by (simp add: small_request_def)
  have e8: "8 = Suc (Suc (Suc (Suc (Suc (Suc (Suc (Suc 0)))))))" by simp
  show ?thesis
  proof (cases "\<not> ar_foreign_freelist_enabled ar \<or> ar_foreign_bytes ar = 0")
    case True
    obtain r sm w1 where al: "sm_allocate_by_class_index os ci (ar_small ar) w = (r, sm, w1)"
      by (metis prod_cases3)
    have "ar_allocate os sz alignment ar w = Some (map_sum id to_user_ptr r, ar\<lparr>ar_small := sm\<rparr>,
      header_written (ar_node_id ar) (kClassSizes ! unat ci) r w1)"
      using True small ci al unfolding ar_allocate_def is_small_def at_least_one_def [symmetric] Let_def
      by (cases r) (simp_all add: header_written_def)
    then show ?thesis unfolding start e8 using True al by (simp add: advance_got_block)
  next
    case False
    let ?i = "unat ci" and ?bins = "ar_foreign_bins ar"
    obtain b sc w1 where e1: "sc_allocate_existing (sm_classes (ar_small ar) ! ?i) w = (b, sc, w1)"
      by (metis prod_cases3)
    define sm1 where "sm1 = set_class ?i sc (ar_small ar)"
    define batch where "batch = fst (detach_all_foreign_locked (?bins ! ?i))"
    define bin where "bin = snd (detach_all_foreign_locked (?bins ! ?i))"
    define fb where "fb = (if fl_bytes batch \<noteq> 0 then ar_foreign_bytes ar - fl_bytes batch else ar_foreign_bytes ar)"
    define D where "D = drain_foreign_batch os ci batch sm1 w1"
    have det: "detach_all_foreign_locked (?bins ! ?i) = (batch, bin)" by (simp add: batch_def bin_def)
    have drain: "drain_foreign_bin os (?bins, ar_foreign_bytes ar) ci sm1 w1 =
      (case D of None \<Rightarrow> None | Some (r, sm2, w2) \<Rightarrow> Some (r, (?bins[?i := bin], fb), sm2, w2))"
      using bc unfolding drain_foreign_bin_def Let_def prod.case det fb_def [symmetric] D_def [symmetric] by simp
    define al where "al = sm_allocate_by_class_index_drain os ci (Some (drain_foreign_bin os))
      (?bins, ar_foreign_bytes ar) (ar_small ar) w"
    have run: "ar_allocate os sz alignment ar w = (case al of None \<Rightarrow> None | Some (r, (bins, fbytes), sm, w') \<Rightarrow>
      Some (map_sum id to_user_ptr r, ar\<lparr>ar_small := sm, ar_foreign_bins := bins, ar_foreign_bytes := fbytes\<rparr>,
        header_written (ar_node_id ar) (kClassSizes ! ?i) r w'))"
      using False small ci unfolding ar_allocate_def is_small_def at_least_one_def [symmetric] Let_def al_def
      by (simp add: header_written_def split: option.split prod.split sum.split)
    show ?thesis
    proof (cases "b = nullptr")
      case nb: False
      then have "al = Some (Inr b, (?bins, ar_foreign_bytes ar), sm1, w1)"
        using bc e1 by (simp add: al_def sm_allocate_by_class_index_drain_def sm1_def)
      then show ?thesis
        unfolding start e8 run using False bc nb e1
        by (simp add: try_section_def Let_def header_written_def sm1_def)
    next
      case n1: True
      let ?ar1 = "ar\<lparr>ar_small := sm1, ar_foreign_bins := ?bins[?i := bin], ar_foreign_bytes := fb\<rparr>"
      have "alone os (Suc (Suc (Suc (Suc k)))) (small_request (at_least_one sz), ar, w) =
          alone os k (At_drain True ci batch, ?ar1, w1)" for k
        unfolding start using False bc n1 e1 det
        by (simp add: try_section_def Let_def sm1_def fb_def)
      from this [of 4] have three: "alone os 8 (small_request (at_least_one sz), ar, w) =
          alone os 4 (At_drain True ci batch, ?ar1, w1)" by simp
      show ?thesis
      proof (cases D)
        case None
        then have "al = None"
          using bc e1 n1 drain by (simp add: al_def sm_allocate_by_class_index_drain_def sm1_def)
        then show ?thesis unfolding three run using None by (simp add: numeral_eq_Suc D_def)
      next
        case (Some x)
        obtain d sm2 w2 where x: "x = (d, sm2, w2)" by (metis prod_cases3)
        note D = Some [unfolded x]
        show ?thesis
        proof (cases d)
          case (Inl e)
          then have "al = Some (Inl e, (?bins[?i := bin], fb), sm2, w2)"
            using bc e1 n1 drain D by (simp add: al_def sm_allocate_by_class_index_drain_def sm1_def)
          then show ?thesis
            unfolding three run using D Inl by (simp add: numeral_eq_Suc D_def header_written_def)
        next
          case (Inr u)
          obtain b3 sc3 w3 where e3: "sc_allocate_existing (sm_classes sm2 ! ?i) w2 = (b3, sc3, w3)"
            by (metis prod_cases3)
          obtain r sc4 w4 where e4: "sc_allocate_new_slab os (sm_classes (set_class ?i sc3 sm2) ! ?i) w3 = (r, sc4, w4)"
            by (metis prod_cases3)
          have al: "al = (if b3 \<noteq> nullptr then Some (Inr b3, (?bins[?i := bin], fb), set_class ?i sc3 sm2, w3)
              else Some (r, (?bins[?i := bin], fb), set_class ?i sc4 (set_class ?i sc3 sm2), w4))"
            using bc e1 n1 drain D Inr e3 e4
            by (simp add: al_def sm_allocate_by_class_index_drain_def sm1_def Let_def)
          show ?thesis
            unfolding three run al using D Inr e3 e4
            by (simp add: numeral_eq_Suc D_def try_section_def Let_def advance_got_block
                header_written_def)
        qed
      qed
    qed
  qed
qed

text \<open>The same for a call that may lead to either allocator.\<close>

fun alone_call :: "os \<Rightarrow> nat \<Rightarrow> activity \<times> arena \<times> world \<Rightarrow> (activity \<times> arena \<times> world) option" where
  "alone_call os 0 st = Some st"
| "alone_call os (Suc n) (call, ar, w) =
     (case advance_activity os call ar w of None \<Rightarrow> None | Some st \<Rightarrow> alone_call os n st)"

lemma alone_call_small:
  "alone_call os n (On_small task, ar, w) =
    (case alone os n (task, ar, w) of None \<Rightarrow> None | Some (task', ar', w') \<Rightarrow> Some (On_small task', ar', w'))"
  by (induction n arbitrary: task ar w) (auto split: option.splits)

lemma alone_call_large:
  "alone_call os n (On_large task, ar, w) =
    (case la_alone os n (task, ar_large ar, w) of (task', la, w') \<Rightarrow> Some (On_large task', ar\<lparr>ar_large := la\<rparr>, w'))"
proof (induction n arbitrary: task ar w)
  case (Suc n)
  obtain task' la w' where "la_advance os task (ar_large ar) w = (task', la, w')" by (metis prod_cases3)
  then show ?case using Suc [of task' "ar\<lparr>ar_large := la\<rparr>" w'] by simp
qed simp

lemma la_alone_more: "la_alone os (m + n) (task, la, w) = la_alone os n (la_alone os m (task, la, w))"
proof (induction m arbitrary: task la w)
  case (Suc m)
  obtain task' la' w' where "la_advance os task la w = (task', la', w')" by (metis prod_cases3)
  then show ?case using Suc by simp
qed simp

theorem alone_allocate:
  "(case alone_call os 8 (begin_allocate os sz alignment, ar, w) of
      None \<Rightarrow> None | Some (call, ar', w') \<Rightarrow> Some (allocated call, ar', w')) =
    (case ar_allocate os sz alignment ar w of None \<Rightarrow> None | Some (r, ar', w') \<Rightarrow> Some (Some r, ar', w'))"
proof (cases "is_small (at_least_one sz) alignment")
  case True
  then have start: "begin_allocate os sz alignment = On_small (small_request (at_least_one sz))"
    unfolding begin_allocate_def is_small_def at_least_one_def [symmetric] Let_def by simp
  obtain ci where ci: "class_index_for_size (at_least_one sz) = Inr ci" "unat ci < 40"
    using small_class [OF True] by blast
  show ?thesis unfolding start alone_call_small alone_small_allocate [OF True ci]
    by (simp split: option.split prod.split)
next
  case False
  then have start: "begin_allocate os sz alignment = On_large (la_begin_allocate os (at_least_one sz) alignment)"
    and al: "ar_allocate os sz alignment ar w =
      (let (r, la, w1) = la_allocate os (at_least_one sz) alignment (ar_large ar) w in Some (r, ar\<lparr>ar_large := la\<rparr>, w1))"
    unfolding begin_allocate_def ar_allocate_def at_least_one_def [symmetric] Let_def
    by (simp_all only: False [unfolded is_small_def] if_False)
  have "la_alone os 8 st = la_alone os 5 (la_alone os 3 st)" for st
    using la_alone_more [of os 3 5] by (cases st) simp
  then show ?thesis unfolding start al alone_call_large la_alone_allocate
    by (simp add: la_alone_allocate split: prod.split)
qed

lemma alone_deallocate_large:
  assumes "bh_size_class (w_mem w) (from_user_ptr p) = 0"
  shows "alone_call os 3 (begin_deallocate foreign p ar (w_mem w), ar, w) =
      (case ar_deallocate_own os p ar w of (r, ar', w') \<Rightarrow> Some (On_large La_released, ar', w'))"
    and "ar_deallocate_foreign os p ar w = Some (ar_deallocate_own os p ar w)"
    and "fst (ar_deallocate_own os p ar w) = Inr ()"
proof -
  have "la_alone os 3 st = la_alone os 1 (la_alone os 2 st)" for st
    using la_alone_more [of os 2 1] by (cases st) (simp add: numeral_3_eq_3 numeral_2_eq_2)
  then show "alone_call os 3 (begin_deallocate foreign p ar (w_mem w), ar, w) =
      (case ar_deallocate_own os p ar w of (r, ar', w') \<Rightarrow> Some (On_large La_released, ar', w'))"
    using assms by (simp add: begin_deallocate_def alone_call_large la_alone_deallocate ar_deallocate_own_def split: prod.split)
  show "ar_deallocate_foreign os p ar w = Some (ar_deallocate_own os p ar w)"
    using assms by (simp add: ar_deallocate_foreign_def)
  show "fst (ar_deallocate_own os p ar w) = Inr ()"
    using assms by (simp add: ar_deallocate_own_def split: prod.split)
qed

theorem alone_deallocate_foreign:
  "(case alone_call os 3 (begin_deallocate True p ar (w_mem w), ar, w) of
      None \<Rightarrow> None | Some (call, ar', w') \<Rightarrow> Some (freed call, ar', w')) =
    (case ar_deallocate_foreign os p ar w of None \<Rightarrow> None | Some (r, ar', w') \<Rightarrow> Some (Some r, ar', w'))"
proof (cases "bh_size_class (w_mem w) (from_user_ptr p) = 0")
  case True
  note L = alone_deallocate_large [OF True]
  obtain r ar' w' where d: "ar_deallocate_own os p ar w = (r, ar', w')" by (metis prod_cases3)
  have "r = Inr ()" using L(3) [where os = os and ar = ar] d by simp
  then show ?thesis by (simp add: L(1,2) d)
next
  case False
  then show ?thesis
    by (simp add: begin_deallocate_def alone_call_small alone_small_foreign [OF False] split: option.split prod.split)
qed

theorem alone_deallocate_own:
  "(case alone_call os 3 (begin_deallocate False p ar (w_mem w), ar, w) of
      None \<Rightarrow> None | Some (call, ar', w') \<Rightarrow> Some (freed call, ar', w')) =
    (case ar_deallocate_own os p ar w of (r, ar', w') \<Rightarrow> Some (Some r, ar', w'))"
proof (cases "bh_size_class (w_mem w) (from_user_ptr p) = 0")
  case True
  note L = alone_deallocate_large [OF True]
  obtain r ar' w' where d: "ar_deallocate_own os p ar w = (r, ar', w')" by (metis prod_cases3)
  have "r = Inr ()" using L(3) [where os = os and ar = ar] d by simp
  then show ?thesis by (simp add: L(1) d)
next
  case False
  obtain r ar' w' where d: "ar_deallocate_own os p ar w = (r, ar', w')" by (metis prod_cases3)
  have "advance os (small_return False (from_user_ptr p) ar) ar w = Some (At_freed r, ar', w')"
    using alone_small_own [OF False, of os ar] by (simp add: d split: option.splits prod.splits)
  then have "alone os 3 (small_return False (from_user_ptr p) ar, ar, w) = Some (At_freed r, ar', w')"
    by (simp add: numeral_3_eq_3)
  then show ?thesis using False by (simp add: begin_deallocate_def alone_call_small d)
qed

text \<open>No section changes the node of the arena or its switches.\<close>

lemma advance_activity_keeps:
  assumes "advance_activity os call ar w = Some (call', ar', w')"
  shows "ar_node_id ar' = ar_node_id ar" and "ar_route_foreign ar' = ar_route_foreign ar"
    and "ar_foreign_freelist_enabled ar' = ar_foreign_freelist_enabled ar"
proof -
  have "ar_route_foreign ar' = ar_route_foreign ar \<and> ar_foreign_freelist_enabled ar' = ar_foreign_freelist_enabled ar"
    if "advance os task ar w = Some (task', ar', w')" for task task'
    using that by (cases task)
      (auto simp: try_section_def got_block_def enqueue_section_def Let_def split: if_splits sum.splits option.splits prod.splits)
  then show "ar_node_id ar' = ar_node_id ar" and "ar_route_foreign ar' = ar_route_foreign ar"
    and "ar_foreign_freelist_enabled ar' = ar_foreign_freelist_enabled ar"
    using assms advance_node by (cases call; force simp: Let_def split: option.splits prod.splits)+
qed

end
