(* ===== verification/Arena_Interleavings.thy ===== *)
theory Arena_Interleavings
  imports Arena_Threads
begin

section \<open>Interleavings of threads on an arena\<close>

text \<open>
  The invariant of an arena in the middle of the operations of any number of threads. It says,
  for every block of the small allocator, who has it at the moment: the users, a foreign bin,
  or one thread. A section of one thread may change what is in its own hands and in the bins;
  the blocks of the users and of the other threads stay with them, unchanged. Every section
  returns and keeps the invariant.
\<close>

subsection \<open>Who has a block\<close>

datatype holder = Held | Queued | Inside nat

definition holding :: "(nat \<Rightarrow> ptr \<Rightarrow> holder) \<Rightarrow> grants list \<Rightarrow> holder \<Rightarrow> nat \<Rightarrow> ptr set" where
  "holding own Us h i = {b \<in> dom (Us ! i). own i b = h}"

definition only :: "(nat \<Rightarrow> ptr set) \<Rightarrow> nat \<Rightarrow> ptr set \<Rightarrow> bool" where
  "only H i B \<longleftrightarrow> (\<forall>j<40. H j = (if j = i then B else {}))"

definition nothing :: "(nat \<Rightarrow> ptr set) \<Rightarrow> bool" where
  "nothing H \<longleftrightarrow> (\<forall>j<40. H j = {})"

definition header_ok :: "int \<Rightarrow> mem \<Rightarrow> nat \<Rightarrow> ptr \<Rightarrow> bool" where
  "header_ok node m i b \<longleftrightarrow> bh_node_id m b = of_int node \<and> bh_size_class m b = ucast (kClassSizes ! i)"

definition batch_in_hand :: "mem \<Rightarrow> nat \<Rightarrow> foreign_batch \<Rightarrow> (nat \<Rightarrow> ptr set) \<Rightarrow> bool" where
  "batch_in_hand m i batch H \<longleftrightarrow> i < 40 \<and> (\<exists>bs. chain (next_link m) (fl_head batch) bs \<and> only H i (set bs) \<and>
     unat (fl_bytes batch) = length bs * unat (kClassSizes ! i)) \<and> unat (fl_bytes batch) \<le> 2101248"

text \<open>What a thread has in its hands in the middle of an operation.\<close>

fun task_ok :: "mem \<Rightarrow> int \<Rightarrow> task \<Rightarrow> (nat \<Rightarrow> ptr set) \<Rightarrow> bool" where
  "task_ok m node At_idle H = nothing H"
| "task_ok m node (At_load ci) H = (unat ci < 40 \<and> nothing H)"
| "task_ok m node (At_allocate ci) H = (unat ci < 40 \<and> nothing H)"
| "task_ok m node (At_existing ci) H = (unat ci < 40 \<and> nothing H)"
| "task_ok m node (At_detach ci) H = (unat ci < 40 \<and> nothing H)"
| "task_ok m node (At_uncount a ci batch) H = batch_in_hand m (unat ci) batch H"
| "task_ok m node (At_drain a ci batch) H = batch_in_hand m (unat ci) batch H"
| "task_ok m node (At_retry ci) H = (unat ci < 40 \<and> nothing H)"
| "task_ok m node (At_new_slab ci) H = (unat ci < 40 \<and> nothing H)"
| "task_ok m node (At_header ci h) H = (unat ci < 40 \<and> only H (unat ci) {h})"
| "task_ok m node (At_allocated ci r) H =
     (case r of
        Inl e \<Rightarrow> nothing H
      | Inr p \<Rightarrow> unat ci < 40 \<and> only H (unat ci) {from_user_ptr p} \<and> header_ok node m (unat ci) (from_user_ptr p))"
| "task_ok m node (At_enqueue h) H = (\<exists>i<40. only H i {h} \<and> header_ok node m i h)"
| "task_ok m node (At_deallocate h) H = (\<exists>i<40. only H i {h} \<and> header_ok node m i h)"
| "task_ok m node (At_freed r) H = (nothing H \<and> r = Inr ())"

fun pending :: "task \<Rightarrow> u64" where
  "pending (At_uncount a ci batch) = fl_bytes batch"
| "pending task = 0"

definition threads_ok :: "mem \<Rightarrow> int \<Rightarrow> task list \<Rightarrow> (nat \<Rightarrow> ptr \<Rightarrow> holder) \<Rightarrow> grants list \<Rightarrow> bool" where
  "threads_ok m node tasks own Us \<longleftrightarrow>
     (\<forall>t<length tasks. task_ok m node (tasks ! t) (holding own Us (Inside t))) \<and>
     (\<forall>t. length tasks \<le> t \<longrightarrow> nothing (holding own Us (Inside t)))"

definition queues_ok :: "mem \<Rightarrow> foreign_bin list \<Rightarrow> (nat \<Rightarrow> ptr \<Rightarrow> holder) \<Rightarrow> grants list \<Rightarrow> bool" where
  "queues_ok m bins own Us \<longleftrightarrow> length bins = 40 \<and>
     (\<forall>i<40. \<exists>q. fbin_ok m i (bins ! i) q \<and> set q = holding own Us Queued i)"

definition labels_ok :: "int \<Rightarrow> mem \<Rightarrow> (nat \<Rightarrow> ptr \<Rightarrow> holder) \<Rightarrow> grants list \<Rightarrow> bool" where
  "labels_ok node m own Us \<longleftrightarrow>
     (\<forall>i<40. \<forall>b. b \<in> holding own Us Held i \<or> b \<in> holding own Us Queued i \<longrightarrow> header_ok node m i b)"

text \<open>The atomic total counts what is queued, and what was detached but not yet subtracted.\<close>

definition counted :: "arena \<Rightarrow> task list \<Rightarrow> bool" where
  "counted ar tasks \<longleftrightarrow>
     ar_foreign_bytes ar = sum_list (map fl_bytes (ar_foreign_bins ar)) + sum_list (map pending tasks)"

definition user_blocks :: "(nat \<Rightarrow> ptr \<Rightarrow> holder) \<Rightarrow> grants list \<Rightarrow> grants list" where
  "user_blocks own Us = map (\<lambda>i. (Us ! i) |` holding own Us Held i) [0..<40]"

definition il_ok ::
  "os \<Rightarrow> arena \<Rightarrow> world \<Rightarrow> task list \<Rightarrow> grants \<Rightarrow> nat set list \<Rightarrow> grants list \<Rightarrow>
   (nat \<Rightarrow> ptr \<Rightarrow> holder) \<Rightarrow> la_block list \<Rightarrow> bool" where
  "il_ok os ar w tasks U Fs Us own lv \<longleftrightarrow>
     sm_owns os (ar_small ar) w Fs Us \<and> sm_node_id (ar_small ar) = ar_node_id ar \<and>
     queues_ok (w_mem w) (ar_foreign_bins ar) own Us \<and>
     threads_ok (w_mem w) (ar_node_id ar) tasks own Us \<and>
     labels_ok (ar_node_id ar) (w_mem w) own Us \<and> counted ar tasks \<and>
     la_inv os (ar_large ar) lv w \<and> la_node_id (ar_large ar) = ar_node_id ar \<and>
     fam Fs \<inter> pool_area (la_pool (ar_large ar) lv) = {} \<and>
     - (2 ^ 31) \<le> ar_node_id ar \<and> ar_node_id ar < 2 ^ 31 \<and>
     ar_grants (user_blocks own Us) lv U"

lemma user_blocks_nth [simp]: "i < 40 \<Longrightarrow> user_blocks own Us ! i = (Us ! i) |` holding own Us Held i"
  and length_user_blocks [simp]: "length (user_blocks own Us) = 40"
  by (simp_all add: user_blocks_def)

lemma holdingD: "b \<in> holding own Us h i \<Longrightarrow> b \<in> dom (Us ! i) \<and> own i b = h"
  by (simp add: holding_def)

lemma task_ok_cong:
  assumes "task_ok m node task H" and "\<And>i. i < 40 \<Longrightarrow> H' i = H i"
    and "\<And>i b. i < 40 \<Longrightarrow> b \<in> H i \<Longrightarrow> bh_node_id m' b = bh_node_id m b \<and>
      bh_size_class m' b = bh_size_class m b \<and> next_link m' b = next_link m b"
  shows "task_ok m' node task H'"
proof -
  have n: "nothing H' = nothing H" using assms(2) by (simp add: nothing_def)
  have o: "only H' i B = only H i B" for i B using assms(2) by (simp add: only_def)
  have hd: "header_ok node m' i b = header_ok node m i b" if "only H i {b}" "i < 40" for i b
    using that assms(3) [of i b] by (simp add: only_def header_ok_def)
  have ch: "chain (next_link m') p bs = chain (next_link m) p bs" if "only H i (set bs)" "i < 40" for i p bs
    using that assms(3) [of i] by (intro chain_cong) (simp add: only_def)
  have b: "batch_in_hand m i batch H \<Longrightarrow> batch_in_hand m' i batch H'" for i batch
    unfolding batch_in_hand_def o using ch by blast
  show ?thesis
    using assms(1) by (cases task) (auto simp: n o hd b split: sum.splits)
qed

text \<open>One thread takes a step, the others keep their blocks and see the same fields in them.\<close>

lemma threads_ok_section:
  assumes thr: "threads_ok m node tasks own Us" and t: "t < length tasks"
    and stay: "\<And>s i. s \<noteq> t \<Longrightarrow> i < 40 \<Longrightarrow> holding own' Us' (Inside s) i = holding own Us (Inside s) i"
    and fields: "\<And>s i b. s \<noteq> t \<Longrightarrow> i < 40 \<Longrightarrow> b \<in> holding own Us (Inside s) i \<Longrightarrow>
      bh_node_id m' b = bh_node_id m b \<and> bh_size_class m' b = bh_size_class m b \<and> next_link m' b = next_link m b"
    and mine: "task_ok m' node task' (holding own' Us' (Inside t))"
  shows "threads_ok m' node (tasks[t := task']) own' Us'"
  unfolding threads_ok_def
proof (intro conjI allI impI)
  fix s assume s: "s < length (tasks[t := task'])"
  show "task_ok m' node (tasks[t := task'] ! s) (holding own' Us' (Inside s))"
  proof (cases "s = t")
    case True
    then show ?thesis using mine t by simp
  next
    case False
    have "task_ok m node (tasks ! s) (holding own Us (Inside s))" using thr s by (simp add: threads_ok_def)
    then have "task_ok m' node (tasks ! s) (holding own' Us' (Inside s))"
      by (rule task_ok_cong) (rule stay [OF False], assumption, rule fields [OF False])
    then show ?thesis using False by simp
  qed
next
  fix s assume "length (tasks[t := task']) \<le> s"
  then have "s \<noteq> t" "nothing (holding own Us (Inside s))" using t thr by (auto simp: threads_ok_def)
  then show "nothing (holding own' Us' (Inside s))" using stay by (simp add: nothing_def)
qed

subsection \<open>The bytes of a block\<close>

lemma small_block_area:
  assumes owns: "sm_owns os sm w Fs Us" and i: "i < 40" and b: "(Us ! i) b = Some A"
  shows "bytes_of (to_user_ptr b) (unat (kClassSizes ! i)) \<subseteq> A" and "unat b \<in> A" and "A \<subseteq> fam Fs"
    and "{unat b ..< unat b + 16} \<subseteq> A" and "cell b \<subseteq> A" and "unat b + 65536 < 18446744073709551616"
    and "unat (to_user_ptr b) = unat b + 32" and "b \<noteq> nullptr"
proof -
  note B = sc_owns_block [OF sm_owns_class(1) [OF owns i] b] sm_owns_class(2) [OF owns i]
  have c: "unat (kClassSizes ! i) \<le> 4096" by (rule kClassSizes_bounds(2) [OF i])
  have len: "length Us = 40" using owns by (simp add: sm_owns_def)
  show "bytes_of (to_user_ptr b) (unat (kClassSizes ! i)) \<subseteq> A" and "unat b \<in> A"
    and "{unat b ..< unat b + 16} \<subseteq> A" and "cell b \<subseteq> A"
    using B slab_stride_bounds(1,4) [OF c] by (auto simp: client_bytes_def bh_bytes [OF B(3)])
  show "A \<subseteq> fam Fs" using sm_grant_part [OF i len b] sm_granted_fam [OF owns] by blast
  show "unat b + 65536 < 18446744073709551616" using B(3) .
  then show "unat (to_user_ptr b) = unat b + 32" by (simp add: user_ptr_defs unat_plus_numeral)
  show "b \<noteq> nullptr" using B(4) .
qed

lemma small_block_class:
  assumes owns: "sm_owns os sm w Fs Us" and "i < 40" and "j < 40"
    and "b \<in> dom (Us ! i)" and "b \<in> dom (Us ! j)"
  shows "i = j"
proof (rule ccontr)
  assume ne: "i \<noteq> j"
  obtain A B where A: "(Us ! i) b = Some A" and B: "(Us ! j) b = Some B" using assms(4,5) by blast
  have "A \<inter> B = {}" using ne by (intro sm_blocks_apart [OF owns assms(2,3) A B]) simp
  then show False using small_block_area(2) [OF owns assms(2) A] small_block_area(2) [OF owns assms(3) B] by blast
qed

lemma il_granted:
  assumes ok: "il_ok os ar w tasks U Fs Us own lv" and x: "x \<in> granted U"
  shows "(\<exists>i<40. \<exists>b A. (Us ! i) b = Some A \<and> own i b = Held \<and>
      x \<in> bytes_of (to_user_ptr b) (unat (kClassSizes ! i)) \<and> x \<in> A) \<or> x \<in> granted (la_grants lv)"
proof -
  have g: "ar_grants (user_blocks own Us) lv U" and owns: "sm_owns os (ar_small ar) w Fs Us"
    using ok by (simp_all add: il_ok_def)
  obtain p C where p: "U p = Some C" "x \<in> C" using x by (auto simp: granted_def ran_def)
  from g p(1) consider j where "j < 40" "from_user_ptr p \<in> dom (user_blocks own Us ! j)"
      "C \<subseteq> bytes_of p (unat (kClassSizes ! j))" | "la_grants lv p = Some C"
    unfolding ar_grants_def by blast
  then show ?thesis
  proof cases
    case (1 j)
    then obtain A where A: "(Us ! j) (from_user_ptr p) = Some A" "own j (from_user_ptr p) = Held"
      by (auto simp: restrict_map_def holding_def split: if_splits)
    have "x \<in> bytes_of (to_user_ptr (from_user_ptr p)) (unat (kClassSizes ! j))" using 1(3) p(2) by auto
    with A 1(1) small_block_area(1) [OF owns 1(1) A(1)] show ?thesis by blast
  next
    case 2
    then show ?thesis using granted_part [of "la_grants lv" p C] p(2) by blast
  qed
qed

lemma il_foot:
  assumes ok: "il_ok os ar w tasks U Fs Us own lv"
  shows "ar_foot ar Fs lv \<subseteq> mapped w" and "granted U \<subseteq> ar_foot ar Fs lv"
    and "granted (la_grants lv) \<subseteq> pool_area (la_pool (ar_large ar) lv)"
proof -
  have owns: "sm_owns os (ar_small ar) w Fs Us" and l: "la_inv os (ar_large ar) lv w"
    using ok by (simp_all add: il_ok_def)
  show "ar_foot ar Fs lv \<subseteq> mapped w"
    using sm_owns_mapped [OF owns] l by (simp add: ar_foot_def la_inv_def)
  show p: "granted (la_grants lv) \<subseteq> pool_area (la_pool (ar_large ar) lv)" by (rule la_granted_pool [OF l])
  show "granted U \<subseteq> ar_foot ar Fs lv"
    using il_granted [OF ok] small_block_area(3) [OF owns] p unfolding ar_foot_def by blast
qed

text \<open>What nobody has changed, in front of the users: the bytes of their blocks, and the node and the
  class in the headers.\<close>

definition untouched :: "grants \<Rightarrow> mem \<Rightarrow> mem \<Rightarrow> bool" where
  "untouched U m m' \<longleftrightarrow> agree_on (granted U) m m' \<and> keeps_headers U m m'"

lemma untouched_refl: "untouched U m m"
  by (simp add: untouched_def keeps_headers_def)

lemma untouchedD: "untouched U m m' \<Longrightarrow> agree_on (granted U) m m'"
  by (simp add: untouched_def)

lemma untouched_trans: "untouched U m m' \<Longrightarrow> untouched U m' m'' \<Longrightarrow> untouched U m m''"
  by (auto simp: untouched_def keeps_headers_def agree_on_def)

lemma il_keeps_headers:
  assumes ok: "il_ok os ar w tasks U Fs Us own lv"
    and small: "\<And>i b. i < 40 \<Longrightarrow> b \<in> holding own Us Held i \<Longrightarrow>
      bh_node_id m' b = bh_node_id (w_mem w) b \<and> bh_size_class m' b = bh_size_class (w_mem w) b"
    and large: "agree_on (pool_area (la_pool (ar_large ar) lv)) (w_mem w) m'"
  shows "keeps_headers U (w_mem w) m'"
  unfolding keeps_headers_def
proof (intro allI impI)
  fix p assume "U p \<noteq> None"
  then obtain A where p: "U p = Some A" by blast
  have g: "ar_grants (user_blocks own Us) lv U" and l: "la_inv os (ar_large ar) lv w" using ok by (simp_all add: il_ok_def)
  from g p consider j where "j < 40" "from_user_ptr p \<in> dom (user_blocks own Us ! j)" | "la_grants lv p = Some A"
    unfolding ar_grants_def by blast
  then show "bh_node_id m' (from_user_ptr p) = bh_node_id (w_mem w) (from_user_ptr p) \<and>
      bh_size_class m' (from_user_ptr p) = bh_size_class (w_mem w) (from_user_ptr p)"
  proof cases
    case (1 j)
    then have "from_user_ptr p \<in> holding own Us Held j" by (auto simp: restrict_map_def split: if_splits)
    with small [OF 1(1)] show ?thesis .
  next
    case 2
    have "distinct (map fst lv)" using l by (simp add: la_inv_def)
    with 2 obtain raw span sz where b: "(p, raw, span, sz) \<in> set lv" using la_grants_iff by blast
    note bok = la_inv_block [OF l b]
    have "{unat p - 32 ..< unat p} \<subseteq> pool_area (la_pool (ar_large ar) lv)"
      using block_area [OF bok refl] la_inv_span_pool [OF l b] by force
    then have "block_ok (la_node_id (ar_large ar)) m' (p, raw, span, sz)"
      by (intro block_ok_local [OF bok la_inv_span [OF l b]] agree_on_mono [OF large]) simp
    then show ?thesis using bok by (simp add: block_ok_def)
  qed
qed

subsection \<open>A section of one thread\<close>

text \<open>What a thread runs in one section may change what it has in its own hands and what is in
  the bins; the blocks of the users and of the other threads stay with them, unchanged.\<close>

lemma il_section:
  assumes ok: "il_ok os ar w tasks U Fs Us own lv" and t: "t < length tasks"
    and owns': "sm_owns os (ar_small ar') w' Fs' Us'" and node: "sm_node_id (ar_small ar') = sm_node_id (ar_small ar)"
    and fs: "frame_step (fam Fs) w (fam Fs') w'"
    and ar': "ar' = ar\<lparr>ar_small := ar_small ar', ar_foreign_bins := ar_foreign_bins ar',
      ar_foreign_bytes := ar_foreign_bytes ar'\<rparr>"
    and stay: "\<And>h i. i < 40 \<Longrightarrow> h \<noteq> Inside t \<Longrightarrow> h \<noteq> Queued \<Longrightarrow> holding own' Us' h i = holding own Us h i"
    and keep: "\<And>i b A. i < 40 \<Longrightarrow> (Us ! i) b = Some A \<Longrightarrow> own i b \<noteq> Inside t \<Longrightarrow> own i b \<noteq> Queued \<Longrightarrow>
      agree_on A (w_mem w) (w_mem w')"
    and queues: "queues_ok (w_mem w') (ar_foreign_bins ar') own' Us'"
    and labels: "\<And>i b. i < 40 \<Longrightarrow> b \<in> holding own' Us' Queued i \<Longrightarrow> header_ok (ar_node_id ar) (w_mem w') i b"
    and mine: "task_ok (w_mem w') (ar_node_id ar) task' (holding own' Us' (Inside t))"
    and cnt: "counted ar' (tasks[t := task'])"
  shows "il_ok os ar' w' (tasks[t := task']) U Fs' Us' own' lv \<and>
    frame_step (ar_foot ar Fs lv) w (ar_foot ar' Fs' lv) w' \<and> untouched U (w_mem w) (w_mem w')"
proof -
  let ?P = "pool_area (la_pool (ar_large ar) lv)"
  have eqs: "ar_node_id ar' = ar_node_id ar" "ar_large ar' = ar_large ar" by (subst ar', simp)+
  have owns: "sm_owns os (ar_small ar) w Fs Us" and l: "la_inv os (ar_large ar) lv w"
    and dj: "fam Fs \<inter> ?P = {}" and g: "ar_grants (user_blocks own Us) lv U"
    and thr: "threads_ok (w_mem w) (ar_node_id ar) tasks own Us"
    and lab: "labels_ok (ar_node_id ar) (w_mem w) own Us"
    using ok by (simp_all add: il_ok_def)
  have dj': "?P \<inter> fam Fs = {}" using dj by auto
  have sub: "?P \<subseteq> mapped w" using l by (simp add: la_inv_def)
  have K: "agree_on ?P (w_mem w) (w_mem w')" "fam Fs' \<inter> ?P = {}"
    using frame_step_mem [OF dj' sub fs] by blast+
  have l': "la_inv os (ar_large ar) lv w'" by (rule la_inv_frame [OF l fs dj'])
  have fields: "bh_node_id (w_mem w') b = bh_node_id (w_mem w) b \<and>
      bh_size_class (w_mem w') b = bh_size_class (w_mem w) b \<and> next_link (w_mem w') b = next_link (w_mem w) b"
    if b: "i < 40" "b \<in> holding own Us h i" "h \<noteq> Inside t" "h \<noteq> Queued" for i b h
  proof -
    obtain A where A: "(Us ! i) b = Some A" "own i b = h" using holdingD [OF b(2)] by blast
    have "agree_on A (w_mem w) (w_mem w')" using keep [OF b(1) A(1)] A(2) b(3,4) by simp
    from sm_block_local [OF owns b(1) A(1) this] show ?thesis by simp
  qed
  have thr': "threads_ok (w_mem w') (ar_node_id ar) (tasks[t := task']) own' Us'"
    using stay fields by (intro threads_ok_section [OF thr t _ _ mine]) simp_all
  have lab': "labels_ok (ar_node_id ar) (w_mem w') own' Us'"
    unfolding labels_ok_def
  proof (intro allI impI, elim disjE)
    fix i b assume i: "i < 40" and b: "b \<in> holding own' Us' Held i"
    then have "b \<in> holding own Us Held i" using stay by simp
    then show "header_ok (ar_node_id ar) (w_mem w') i b"
      using fields [OF i] lab i by (simp add: labels_ok_def header_ok_def)
  qed (rule labels)
  have "user_blocks own' Us' = user_blocks own Us"
  proof (rule nth_equalityI)
    fix i assume "i < length (user_blocks own' Us')"
    then have i: "i < 40" by simp
    have "((Us' ! i) |` holding own' Us' Held i) b = ((Us ! i) |` holding own Us Held i) b" for b
    proof (cases "b \<in> holding own Us Held i")
      case True
      then have "b \<in> holding own' Us' Held i" using stay i by simp
      then obtain A B where "(Us ! i) b = Some A" "(Us' ! i) b = Some B"
        using True holdingD by blast
      with sm_same_area [OF owns owns' i this] True stay i show ?thesis by simp
    next
      case False
      then show ?thesis using stay i by simp
    qed
    then show "user_blocks own' Us' ! i = user_blocks own Us ! i" using i by auto
  qed simp
  then have ok': "il_ok os ar' w' (tasks[t := task']) U Fs' Us' own' lv"
    using ok owns' node queues thr' lab' cnt l' K(2) by (auto simp: il_ok_def eqs)
  have "frame_step (ar_foot ar Fs lv) w (ar_foot ar' Fs' lv) w'"
    unfolding ar_foot_def eqs by (rule frame_step_extend [OF fs sub dj'])
  moreover have "agree_on (granted U) (w_mem w) (w_mem w')"
  proof (rule agree_onI)
    fix x assume "x \<in> granted U"
    from il_granted [OF ok this] show "w_mem w' x = w_mem w x"
    proof
      assume "\<exists>i<40. \<exists>b A. (Us ! i) b = Some A \<and> own i b = Held \<and>
        x \<in> bytes_of (to_user_ptr b) (unat (kClassSizes ! i)) \<and> x \<in> A"
      then obtain i b A where "i < 40" "(Us ! i) b = Some A" "own i b = Held" "x \<in> A" by blast
      with keep [of i b A] show ?thesis by (simp add: agree_on_def)
    next
      assume "x \<in> granted (la_grants lv)"
      then show ?thesis using il_foot(3) [OF ok] K(1) by (auto simp: agree_on_def)
    qed
  qed
  moreover have "keeps_headers U (w_mem w) (w_mem w')"
    using fields by (intro il_keeps_headers [OF ok _ K(1)]) simp
  ultimately show ?thesis using ok' by (simp add: untouched_def)
qed

text \<open>A section of the small allocator: one operation on the class \<open>i\<close>, in which only blocks
  in the hands of the thread come or go.\<close>

lemma counted_small:
  assumes "counted ar tasks" and "t < length tasks" and "pending task' = pending (tasks ! t)"
    and "ar_foreign_bins ar' = ar_foreign_bins ar" and "ar_foreign_bytes ar' = ar_foreign_bytes ar"
  shows "counted ar' (tasks[t := task'])"
proof -
  have "map pending (tasks[t := task']) = map pending tasks"
    using assms(2,3) by (simp add: map_update list_update_same_conv)
  then show ?thesis using assms(1,4,5) by (simp add: counted_def)
qed

lemma il_small_section:
  assumes ok: "il_ok os ar w tasks U Fs Us own lv" and t: "t < length tasks" and i: "i < 40"
    and step: "sm_step os (ar_small ar) w Fs Us i U' sm' w'"
    and gone: "\<And>b. b \<in> dom (Us ! i) \<Longrightarrow> b \<notin> dom U' \<Longrightarrow> own i b = Inside t"
    and come: "\<And>b. b \<in> dom U' \<Longrightarrow> b \<notin> dom (Us ! i) \<Longrightarrow> own' i b = Inside t"
    and same: "\<And>j b. j < 40 \<Longrightarrow> b \<in> dom (Us ! j) \<Longrightarrow> own' j b = own j b"
    and mine: "task_ok (w_mem w') (ar_node_id ar) task' (holding own' (Us[i := U']) (Inside t))"
    and pend: "pending task' = pending (tasks ! t)"
  shows "\<exists>F'. il_ok os (ar\<lparr>ar_small := sm'\<rparr>) w' (tasks[t := task']) U (Fs[i := F']) (Us[i := U']) own' lv \<and>
    frame_step (ar_foot ar Fs lv) w (ar_foot (ar\<lparr>ar_small := sm'\<rparr>) (Fs[i := F']) lv) w' \<and>
    untouched U (w_mem w) (w_mem w')"
proof -
  have owns: "sm_owns os (ar_small ar) w Fs Us" and cnt: "counted ar tasks"
    and qok: "queues_ok (w_mem w) (ar_foreign_bins ar) own Us"
    and lab: "labels_ok (ar_node_id ar) (w_mem w) own Us" using ok by (simp_all add: il_ok_def)
  have len: "length Us = 40" using owns by (simp add: sm_owns_def)
  obtain F' where F': "sm_owns os sm' w' (Fs[i := F']) (Us[i := U'])"
    "frame_step (fam Fs) w (fam (Fs[i := F'])) w'" and nd: "sm_node_id sm' = sm_node_id (ar_small ar)"
    and ag: "agree_on (fam_granted (Us[i := (Us ! i) |` dom U'])) (w_mem w) (w_mem w')"
    using step unfolding sm_step_def by blast
  have nth: "Us[i := V] ! j = (if j = i then V else Us ! j)" for j V using i len by (intro nth_upd) simp
  have keep: "agree_on A (w_mem w) (w_mem w')"
    if b: "j < 40" "(Us ! j) b = Some A" "own j b \<noteq> Inside t" for j b A
  proof -
    have "(Us[i := (Us ! i) |` dom U'] ! j) b = Some A"
      using gone [of b] b by (cases "j = i") (auto simp: nth restrict_map_def)
    from sm_grant_part [OF b(1) _ this] len show ?thesis by (intro agree_on_mono [OF ag]) simp
  qed
  have stay: "holding own' (Us[i := U']) h j = holding own Us h j" if j: "j < 40" "h \<noteq> Inside t" for h j
  proof (cases "j = i")
    case True
    then show ?thesis using gone come same [OF j(1)] j(2) i
      by (intro set_eqI) (metis (mono_tags, lifting) holding_def mem_Collect_eq nth)
  next
    case False
    then have "own' j b = h \<longleftrightarrow> own j b = h" if "b \<in> dom (Us ! j)" for b using same [OF j(1) that] by simp
    with False show ?thesis by (auto simp: holding_def nth)
  qed
  have link: "next_link (w_mem w') b = next_link (w_mem w) b \<and> header_ok (ar_node_id ar) (w_mem w') j b"
    if b: "j < 40" "b \<in> holding own Us Queued j" for j b
  proof -
    obtain A where A: "(Us ! j) b = Some A" "own j b = Queued" using holdingD [OF b(2)] by blast
    have "agree_on A (w_mem w) (w_mem w')" using keep [OF b(1) A(1)] A(2) by simp
    from sm_block_local [OF owns b(1) A(1) this] lab b show ?thesis
      by (simp add: labels_ok_def header_ok_def)
  qed
  have queues: "queues_ok (w_mem w') (ar_foreign_bins ar) own' (Us[i := U'])"
    unfolding queues_ok_def
  proof (intro conjI allI impI)
    show "length (ar_foreign_bins ar) = 40" using qok by (simp add: queues_ok_def)
    fix j :: nat assume j: "j < 40"
    obtain q where q: "fbin_ok (w_mem w) j (ar_foreign_bins ar ! j) q" "set q = holding own Us Queued j"
      using qok j unfolding queues_ok_def by blast
    have "chain (next_link (w_mem w')) p q = chain (next_link (w_mem w)) p q" for p
      using link [OF j] q(2) by (intro chain_cong) blast
    then have "fbin_ok (w_mem w') j (ar_foreign_bins ar ! j) q" using q(1) by (simp add: fbin_ok_def)
    then show "\<exists>q. fbin_ok (w_mem w') j (ar_foreign_bins ar ! j) q \<and>
        set q = holding own' (Us[i := U']) Queued j" using q(2) stay [OF j] by auto
  qed
  have "il_ok os (ar\<lparr>ar_small := sm'\<rparr>) w' (tasks[t := task']) U (Fs[i := F']) (Us[i := U']) own' lv \<and>
    frame_step (ar_foot ar Fs lv) w (ar_foot (ar\<lparr>ar_small := sm'\<rparr>) (Fs[i := F']) lv) w' \<and>
    untouched U (w_mem w) (w_mem w')"
  proof (rule il_section [OF ok t _ _ F'(2)])
    show "counted (ar\<lparr>ar_small := sm'\<rparr>) (tasks[t := task'])" using pend by (intro counted_small [OF cnt t]) simp_all
  qed (use F' nd stay keep queues link mine in simp_all)
  then show ?thesis by blast
qed

text \<open>What every section leaves: the invariant, with some new assignment of the blocks, and the
  memory of everybody else.\<close>

definition il_goes ::
  "os \<Rightarrow> arena \<Rightarrow> world \<Rightarrow> grants \<Rightarrow> nat set list \<Rightarrow> la_block list \<Rightarrow> arena \<Rightarrow> world \<Rightarrow> task list \<Rightarrow> bool" where
  "il_goes os ar w U Fs lv ar' w' tasks' \<longleftrightarrow> (\<exists>Fs' Us' own'. il_ok os ar' w' tasks' U Fs' Us' own' lv \<and>
     frame_step (ar_foot ar Fs lv) w (ar_foot ar' Fs' lv) w' \<and> untouched U (w_mem w) (w_mem w'))"

lemma il_task:
  assumes ok: "il_ok os ar w tasks U Fs Us own lv" and t: "t < length tasks"
  shows "task_ok (w_mem w) (ar_node_id ar) (tasks ! t) (holding own Us (Inside t))"
  using ok t by (simp add: il_ok_def threads_ok_def)

lemma il_retask:
  assumes ok: "il_ok os ar w tasks U Fs Us own lv" and t: "t < length tasks"
    and mine: "task_ok (w_mem w) (ar_node_id ar) task' (holding own Us (Inside t))"
    and pend: "pending task' = pending (tasks ! t)"
  shows "il_ok os ar w (tasks[t := task']) U Fs Us own lv"
proof -
  have "threads_ok (w_mem w) (ar_node_id ar) (tasks[t := task']) own Us"
    using ok mine by (auto simp: il_ok_def threads_ok_def nth_upd [OF t])
  then show ?thesis using ok counted_small [OF _ t pend refl refl] by (simp add: il_ok_def)
qed

lemma il_quiet:
  assumes ok: "il_ok os ar w tasks U Fs Us own lv" and t: "t < length tasks"
    and mine: "task_ok (w_mem w) (ar_node_id ar) task' (holding own Us (Inside t))"
    and pend: "pending task' = pending (tasks ! t)"
  shows "il_goes os ar w U Fs lv ar w (tasks[t := task'])"
proof -
  have "il_ok os ar w (tasks[t := task']) U Fs Us own lv" using assms by (rule il_retask)
  then show ?thesis
    using frame_step_refl [OF il_foot(1) [OF ok]] untouched_refl unfolding il_goes_def by blast
qed

lemma nothing_holding: "nothing (holding own Us h) \<longleftrightarrow> (\<forall>j<40. \<forall>b\<in>dom (Us ! j). own j b \<noteq> h)"
  by (auto simp: nothing_def holding_def)

lemma il_same_blocks:
  assumes ok: "il_ok os ar w tasks U Fs Us own lv" and t: "t < length tasks" and i: "i < 40"
    and step: "sm_step os (ar_small ar) w Fs Us i (Us ! i) sm' w'"
    and none: "nothing (holding own Us (Inside t))"
    and mine: "\<And>m H. nothing H \<Longrightarrow> task_ok m (ar_node_id ar) task' H" and pend: "pending task' = pending (tasks ! t)"
  shows "il_goes os ar w U Fs lv (ar\<lparr>ar_small := sm'\<rparr>) w' (tasks[t := task'])"
proof -
  have "task_ok (w_mem w') (ar_node_id ar) task' (holding own (Us[i := Us ! i]) (Inside t))"
    using none by (intro mine) simp
  from il_small_section [OF ok t i step _ _ refl this pend] show ?thesis unfolding il_goes_def by blast
qed

text \<open>A block is taken: from now on the thread has it in its hands.\<close>

lemma il_take_block:
  assumes ok: "il_ok os ar w tasks U Fs Us own lv" and t: "t < length tasks" and i: "unat ci < 40"
    and step: "sm_step os (ar_small ar) w Fs Us (unat ci) ((Us ! unat ci)(b \<mapsto> A)) sm' w'"
    and new: "(Us ! unat ci) b = None" and none: "nothing (holding own Us (Inside t))"
    and pend: "pending (tasks ! t) = 0"
  shows "il_goes os ar w U Fs lv (ar\<lparr>ar_small := sm'\<rparr>) w' (tasks[t := At_header ci b])"
proof -
  let ?i = "unat ci" and ?own = "own(unat ci := (own (unat ci))(b := Inside t))"
  let ?Us = "Us[unat ci := (Us ! unat ci)(b \<mapsto> A)]"
  have len: "length Us = 40" using ok by (simp add: il_ok_def sm_owns_def)
  have "only (holding ?own ?Us (Inside t)) ?i {b}"
    unfolding only_def
  proof (intro allI impI)
    fix j :: nat assume j: "j < 40"
    have "own j c \<noteq> Inside t" if "c \<in> dom (Us ! j)" for c using none j that by (simp add: nothing_holding)
    then show "holding ?own ?Us (Inside t) j = (if j = ?i then {b} else {})"
      using j len by (cases "j = ?i") (auto simp: holding_def)
  qed
  then have "task_ok (w_mem w') (ar_node_id ar) (At_header ci b) (holding ?own ?Us (Inside t))" using i by simp
  moreover have "own ?i c = Inside t" if "c \<in> dom (Us ! ?i)" "c \<notin> dom ((Us ! ?i)(b \<mapsto> A))" for c
    using that by simp
  moreover have "?own ?i c = Inside t" if "c \<in> dom ((Us ! ?i)(b \<mapsto> A))" "c \<notin> dom (Us ! ?i)" for c
    using that by (auto split: if_splits)
  moreover have "?own j c = own j c" if "j < 40" "c \<in> dom (Us ! j)" for j c
    using that new by auto
  moreover have "pending (At_header ci b) = pending (tasks ! t)" using pend by simp
  ultimately show ?thesis
    using il_small_section [OF ok t i step, where own' = ?own and task' = "At_header ci b"]
    unfolding il_goes_def by blast
qed

lemma il_got_block:
  assumes ok: "il_ok os ar w tasks U Fs Us own lv" and t: "t < length tasks" and i: "unat ci < 40"
    and res: "alloc_result os (ar_small ar) w Fs Us (unat ci) r sm' w'"
    and none: "nothing (holding own Us (Inside t))" and pend: "pending (tasks ! t) = 0"
  shows "il_goes os ar w U Fs lv (ar\<lparr>ar_small := sm'\<rparr>) w' (tasks[t := got_block ci r])"
proof (cases r)
  case (Inl e)
  then have "sm_step os (ar_small ar) w Fs Us (unat ci) (Us ! unat ci) sm' w'"
    using res by (simp add: alloc_result_def)
  from il_same_blocks [OF ok t i this none, of "At_allocated ci (Inl e)"] pend show ?thesis
    by (simp add: Inl got_block_def)
next
  case (Inr b)
  have "(Us ! unat ci) b = None"
    "sm_step os (ar_small ar) w Fs Us (unat ci) ((Us ! unat ci)(b \<mapsto> client_bytes (kClassSizes ! unat ci) b)) sm' w'"
    using res by (simp_all add: Inr alloc_result_def)
  from il_take_block [OF ok t i this(2,1) none pend] show ?thesis by (simp add: Inr got_block_def)
qed

subsection \<open>The sections of the small allocator\<close>

lemma il_allocate:
  assumes ok: "il_ok os ar w tasks U Fs Us own lv" and t: "t < length tasks"
    and i: "unat ci < 40" and none: "nothing (holding own Us (Inside t))" and pend: "pending (tasks ! t) = 0"
    and al: "sm_allocate_by_class_index os ci (ar_small ar) w = (r, sm', w')"
  shows "il_goes os ar w U Fs lv (ar\<lparr>ar_small := sm'\<rparr>) w' (tasks[t := got_block ci r])"
  using ok by (intro il_got_block [OF ok t i sm_allocate_result [OF _ i al] none pend]) (simp add: il_ok_def)

lemma il_try:
  assumes ok: "il_ok os ar w tasks U Fs Us own lv" and t: "t < length tasks"
    and i: "unat ci < 40" and none: "nothing (holding own Us (Inside t))" and pend: "pending (tasks ! t) = 0"
    and sec: "try_section ci fail ar w = (task', ar', w')"
    and fail: "\<And>m H. nothing H \<Longrightarrow> task_ok m (ar_node_id ar) (fail ci) H" "pending (fail ci) = 0"
  shows "il_goes os ar w U Fs lv ar' w' (tasks[t := task'])"
proof -
  obtain b sc where e: "sc_allocate_existing (sm_classes (ar_small ar) ! unat ci) w = (b, sc, w')"
    and r: "task' = (if b \<noteq> nullptr then At_header ci b else fail ci)"
      "ar' = ar\<lparr>ar_small := set_class (unat ci) sc (ar_small ar)\<rparr>"
    using sec by (auto simp: try_section_def Let_def split: prod.splits)
  have owns: "sm_owns os (ar_small ar) w Fs Us" using ok by (simp add: il_ok_def)
  note T = sm_try_ok [OF owns i e]
  show ?thesis
  proof (cases "b = nullptr")
    case True
    with T(1) have "sm_step os (ar_small ar) w Fs Us (unat ci) (Us ! unat ci) (set_class (unat ci) sc (ar_small ar)) w'"
      by simp
    from il_same_blocks [OF ok t i this none fail(1)] fail(2) pend True show ?thesis by (simp add: r)
  next
    case False
    with T(1) have "sm_step os (ar_small ar) w Fs Us (unat ci)
        ((Us ! unat ci)(b \<mapsto> client_bytes (kClassSizes ! unat ci) b)) (set_class (unat ci) sc (ar_small ar)) w'"
      by (simp only: if_False)
    from il_take_block [OF ok t i this T(2) [OF False] none pend] False show ?thesis by (simp add: r)
  qed
qed

text \<open>Blocks in the hands of the thread go back to their class.\<close>

lemma il_give_blocks:
  assumes ok: "il_ok os ar w tasks U Fs Us own lv" and t: "t < length tasks" and i: "i < 40"
    and mine: "only (holding own Us (Inside t)) i B"
    and step: "sm_step os (ar_small ar) w Fs Us i ((Us ! i) |` (- B)) sm' w'"
    and none: "\<And>m H. nothing H \<Longrightarrow> task_ok m (ar_node_id ar) task' H" and pend: "pending task' = pending (tasks ! t)"
  shows "il_goes os ar w U Fs lv (ar\<lparr>ar_small := sm'\<rparr>) w' (tasks[t := task'])"
proof -
  let ?Us = "Us[i := (Us ! i) |` (- B)]"
  have len: "length Us = 40" using ok by (simp add: il_ok_def sm_owns_def)
  have B: "holding own Us (Inside t) i = B" using mine i by (simp add: only_def)
  have "nothing (holding own ?Us (Inside t))"
    unfolding nothing_def
  proof (intro allI impI)
    fix j :: nat assume j: "j < 40"
    have "holding own Us (Inside t) j = (if j = i then B else {})" using mine j by (simp add: only_def)
    then show "holding own ?Us (Inside t) j = {}"
      using i len by (cases "j = i") (auto simp: holding_def)
  qed
  then have "task_ok (w_mem w') (ar_node_id ar) task' (holding own ?Us (Inside t))" by (rule none)
  moreover have "own i b = Inside t" if "b \<in> dom (Us ! i)" "b \<notin> dom ((Us ! i) |` (- B))" for b
    using that B holdingD [of b own Us "Inside t" i] by auto
  moreover have "own i b = Inside t" if "b \<in> dom ((Us ! i) |` (- B))" "b \<notin> dom (Us ! i)" for b
    using that by simp
  ultimately show ?thesis
    using il_small_section [OF ok t i step, where own' = own and task' = task'] pend unfolding il_goes_def by blast
qed

lemma only_nothing: "only H i {} = nothing H"
  by (simp add: only_def nothing_def)

lemma il_drain:
  assumes ok: "il_ok os ar w tasks U Fs Us own lv" and t: "t < length tasks"
    and mine: "batch_in_hand (w_mem w) (unat ci) batch (holding own Us (Inside t))" and pend: "pending (tasks ! t) = 0"
    and none: "\<And>m H. nothing H \<Longrightarrow> task_ok m (ar_node_id ar) task' H" "pending task' = 0"
  shows "\<exists>sm' w'. drain_foreign_batch os ci batch (ar_small ar) w = Some (Inr (), sm', w') \<and>
    il_goes os ar w U Fs lv (ar\<lparr>ar_small := sm'\<rparr>) w' (tasks[t := task'])"
proof -
  obtain bs where i: "unat ci < 40" and ch: "chain (next_link (w_mem w)) (fl_head batch) bs"
    and o: "only (holding own Us (Inside t)) (unat ci) (set bs)" using mine by (auto simp: batch_in_hand_def)
  have owns: "sm_owns os (ar_small ar) w Fs Us" using ok by (simp add: il_ok_def)
  have pd: "pending task' = pending (tasks ! t)" using pend none(2) by simp
  show ?thesis
  proof (cases "fl_head batch = nullptr")
    case True
    then have "nothing (holding own Us (Inside t))" using ch o by (simp add: only_nothing)
    from il_quiet [OF ok t none(1) [OF this] pd] True show ?thesis by (simp add: drain_foreign_batch_def)
  next
    case False
    have "set bs \<subseteq> dom (Us ! unat ci)" using o i unfolding only_def holding_def by (auto dest!: spec [of _ "unat ci"])
    from sm_deallocate_batch_ok [OF owns i ch this] obtain sm' w' where
      D: "sm_deallocate_batch os ci (fl_head batch) (ar_small ar) w = Some (Inr (), sm', w')" and
      step: "sm_step os (ar_small ar) w Fs Us (unat ci) ((Us ! unat ci) |` (- set bs)) sm' w'" by blast
    from il_give_blocks [OF ok t i o step none(1) pd] D False show ?thesis
      by (simp add: drain_foreign_batch_def)
  qed
qed

lemma il_deallocate:
  assumes ok: "il_ok os ar w tasks U Fs Us own lv" and t: "t < length tasks" and i: "i < 40"
    and mine: "only (holding own Us (Inside t)) i {h}" and hd: "header_ok (ar_node_id ar) (w_mem w) i h"
    and pend: "pending (tasks ! t) = 0"
    and de: "sm_deallocate os h (ar_small ar) w = (r, sm', w')"
  shows "r = Inr ()" and "il_goes os ar w U Fs lv (ar\<lparr>ar_small := sm'\<rparr>) w' (tasks[t := At_freed r])"
proof -
  have owns: "sm_owns os (ar_small ar) w Fs Us" using ok by (simp add: il_ok_def)
  have "h \<in> holding own Us (Inside t) i" using mine i by (simp add: only_def)
  then have b: "(Us ! i) h \<noteq> None" using holdingD by blast
  note D = sm_deallocate_ok [OF owns i b _ de]
  have sc: "bh_size_class (w_mem w) h = ucast (kClassSizes ! i)" using hd by (simp add: header_ok_def)
  show "r = Inr ()" by (rule D(1) [OF sc])
  then have none: "nothing H \<Longrightarrow> task_ok m (ar_node_id ar) (At_freed r) H" for m H by simp
  have "(Us ! i)(h := None) = (Us ! i) |` (- {h})" by (auto simp: restrict_map_def fun_eq_iff)
  from il_give_blocks [OF ok t i mine D(2) [OF sc, unfolded this] none] pend
  show "il_goes os ar w U Fs lv (ar\<lparr>ar_small := sm'\<rparr>) w' (tasks[t := At_freed r])" by simp
qed

subsection \<open>The sections of the foreign bins\<close>

lemma sum_list_upd_group:
  "i < length xs \<Longrightarrow> sum_list (xs[i := x]) = sum_list xs - xs ! i + (x :: 'a :: ab_group_add)"
  by (induction xs arbitrary: i) (auto split: nat.split simp: algebra_simps)

lemma counted_section:
  assumes "counted ar tasks" and "t < length tasks" and "i < length (ar_foreign_bins ar)"
    and "ar_foreign_bins ar' = (ar_foreign_bins ar)[i := bin]"
    and "ar_foreign_bytes ar' + fl_bytes (ar_foreign_bins ar ! i) + pending (tasks ! t) =
      ar_foreign_bytes ar + fl_bytes bin + pending task'"
  shows "counted ar' (tasks[t := task'])"
proof -
  have "ar_foreign_bytes ar = sum_list (map fl_bytes (ar_foreign_bins ar)) + sum_list (map pending tasks)"
    using assms(1) by (simp add: counted_def)
  then show ?thesis
    using assms(2-5) by (simp add: counted_def map_update sum_list_upd_group algebra_simps)
qed

text \<open>A section of the bin of class \<open>i\<close>: it moves blocks between the bin and the hands of the
  thread, and writes to the links of those blocks only.\<close>

lemma il_bin_section:
  assumes ok: "il_ok os ar w tasks U Fs Us own lv" and t: "t < length tasks" and i: "i < 40"
    and q: "set q = holding own Us Queued i \<union> holding own Us (Inside t) i"
    and ag: "agree_on (- (\<Union>x\<in>set q. cell x)) (w_mem w) m'"
    and bin: "fbin_ok m' i bin' q'" and q': "set q' \<subseteq> set q"
    and hd: "\<And>b. b \<in> set q' \<Longrightarrow> header_ok (ar_node_id ar) (w_mem w) i b"
    and own': "own' = own(i := \<lambda>b. if b \<in> set q' then Queued else if b \<in> set q then Inside t else own i b)"
    and ar': "ar' = ar\<lparr>ar_foreign_bins := (ar_foreign_bins ar)[i := bin'], ar_foreign_bytes := fb'\<rparr>"
    and mine: "task_ok m' (ar_node_id ar) task' (holding own' Us (Inside t))"
    and cnt: "fb' + fl_bytes (ar_foreign_bins ar ! i) + pending (tasks ! t) =
      ar_foreign_bytes ar + fl_bytes bin' + pending task'"
  shows "il_goes os ar w U Fs lv ar' (w\<lparr>w_mem := m'\<rparr>) (tasks[t := task'])"
proof -
  have owns: "sm_owns os (ar_small ar) w Fs Us" and c: "counted ar tasks"
    and qok: "queues_ok (w_mem w) (ar_foreign_bins ar) own Us"
    and lab: "labels_ok (ar_node_id ar) (w_mem w) own Us" using ok by (simp_all add: il_ok_def)
  have qd: "set q \<subseteq> dom (Us ! i)" using q holdingD by blast
  have qo: "own i b = Queued \<or> own i b = Inside t" if "b \<in> set q" for b using that q holdingD by blast
  note L = link_writes [OF owns i qd ag]
  have lb: "length (ar_foreign_bins ar) = 40" using qok by (simp add: queues_ok_def)
  have qi: "holding own' Us Queued i = set q'"
    using q' qd q by (auto simp: own' holding_def split: if_splits)
  have stay: "holding own' Us h j = holding own Us h j" if h: "h \<noteq> Inside t" "h \<noteq> Queued" for h j
  proof (cases "j = i")
    case True
    have "own' i b = h \<longleftrightarrow> own i b = h" if "b \<in> dom (Us ! i)" for b
      using qo [of b] q' h by (auto simp: own')
    then show ?thesis unfolding True by (auto simp: holding_def)
  qed (simp add: own' holding_def)
  have keep: "agree_on A (w_mem w) m'"
    if b: "j < 40" "(Us ! j) b = Some A" "own j b \<noteq> Inside t" "own j b \<noteq> Queued" for j b A
  proof (rule L(3) [OF b(1,2)])
    show "j \<noteq> i \<or> b \<notin> set q" using qo [of b] b(3,4) by auto
  qed
  have qj: "holding own' Us Queued j = holding own Us Queued j" if "j \<noteq> i" for j
    using that by (simp add: own' holding_def)
  have queues: "queues_ok m' ((ar_foreign_bins ar)[i := bin']) own' Us"
    unfolding queues_ok_def
  proof (intro conjI allI impI)
    show "length ((ar_foreign_bins ar)[i := bin']) = 40" using lb by simp
    fix j :: nat assume j: "j < 40"
    show "\<exists>q. fbin_ok m' j ((ar_foreign_bins ar)[i := bin'] ! j) q \<and> set q = holding own' Us Queued j"
    proof (cases "j = i")
      case True
      then show ?thesis using bin qi i lb by auto
    next
      case False
      obtain p where p: "fbin_ok (w_mem w) j (ar_foreign_bins ar ! j) p" "set p = holding own Us Queued j"
        using qok j unfolding queues_ok_def by blast
      have "next_link m' b = next_link (w_mem w) b" if b: "b \<in> set p" for b
      proof -
        obtain A where A: "(Us ! j) b = Some A" using b p(2) holdingD by blast
        have "agree_on A (w_mem w) m'" by (rule L(3) [OF j A]) (use False in simp)
        then show ?thesis by (rule sm_block_local(3) [OF owns j A])
      qed
      then have "chain (next_link m') x p = chain (next_link (w_mem w)) x p" for x by (rule chain_cong)
      then have "fbin_ok m' j (ar_foreign_bins ar ! j) p" using p(1) by (simp add: fbin_ok_def)
      then show ?thesis using False p(2) qj by auto
    qed
  qed
  have labels: "header_ok (ar_node_id ar) m' j b" if j: "j < 40" "b \<in> holding own' Us Queued j" for j b
  proof -
    have "header_ok (ar_node_id ar) (w_mem w) j b"
      using hd lab j qi qj [of j] by (cases "j = i") (auto simp: labels_ok_def)
    with L(4) [OF j(1)] holdingD [OF j(2)] show ?thesis by (simp add: header_ok_def)
  qed
  have "il_ok os ar' (w\<lparr>w_mem := m'\<rparr>) (tasks[t := task']) U Fs Us own' lv \<and>
    frame_step (ar_foot ar Fs lv) w (ar_foot ar' Fs lv) (w\<lparr>w_mem := m'\<rparr>) \<and>
    untouched U (w_mem w) (w_mem (w\<lparr>w_mem := m'\<rparr>))"
  proof (rule il_section [OF ok t _ _ L(2)])
    show "counted ar' (tasks[t := task'])"
      using i lb cnt by (intro counted_section [OF c t, of i _ bin']) (simp_all add: ar')
    show "ar' = ar\<lparr>ar_small := ar_small ar', ar_foreign_bins := ar_foreign_bins ar',
      ar_foreign_bytes := ar_foreign_bytes ar'\<rparr>" by (simp add: ar')
  qed (use L(1) stay keep queues labels mine in \<open>simp_all add: ar'\<close>)
  then show ?thesis unfolding il_goes_def by blast
qed

lemma bin_hands:
  assumes mine: "only (holding own Us (Inside t)) i B" and i: "i < 40"
    and q: "set q = holding own Us Queued i \<union> B" and qs: "set q' \<subseteq> set q"
  shows "only (holding (own(i := \<lambda>b. if b \<in> set q' then Queued else if b \<in> set q then Inside t else own i b))
      Us (Inside t)) i (set q - set q')"
    and "set q = holding own Us Queued i \<union> holding own Us (Inside t) i"
proof -
  have B: "holding own Us (Inside t) i = B" using mine i by (simp add: only_def)
  then show "set q = holding own Us Queued i \<union> holding own Us (Inside t) i" using q by simp
  have qd: "set q \<subseteq> dom (Us ! i)" using q B holdingD by blast
  have qi: "b \<in> set q" if "b \<in> dom (Us ! i)" "own i b = Inside t" for b
    using that q B by (auto simp: holding_def)
  show "only (holding (own(i := \<lambda>b. if b \<in> set q' then Queued else if b \<in> set q then Inside t else own i b))
      Us (Inside t)) i (set q - set q')"
    unfolding only_def
  proof (intro allI impI)
    fix j :: nat assume j: "j < 40"
    show "holding (own(i := \<lambda>b. if b \<in> set q' then Queued else if b \<in> set q then Inside t else own i b))
      Us (Inside t) j = (if j = i then set q - set q' else {})"
    proof (cases "j = i")
      case True
      then show ?thesis using qd qi by (auto simp: holding_def split: if_splits)
    next
      case False
      then show ?thesis using mine j by (simp add: only_def holding_def)
    qed
  qed
qed

lemma il_detach:
  assumes ok: "il_ok os ar w tasks U Fs Us own lv" and t: "t < length tasks"
    and i: "unat ci < 40" and none: "nothing (holding own Us (Inside t))" and pend: "pending (tasks ! t) = 0"
    and det: "detach_all_foreign_locked (ar_foreign_bins ar ! unat ci) = (batch, bin)"
  shows "il_goes os ar w U Fs lv (ar\<lparr>ar_foreign_bins := (ar_foreign_bins ar)[unat ci := bin]\<rparr>) w
    (tasks[t := At_uncount True ci batch])"
proof -
  let ?i = "unat ci" and ?ar = "ar\<lparr>ar_foreign_bins := (ar_foreign_bins ar)[unat ci := bin]\<rparr>"
  obtain q where q: "fbin_ok (w_mem w) ?i (ar_foreign_bins ar ! ?i) q" "set q = holding own Us Queued ?i"
    using ok i unfolding il_ok_def queues_ok_def by blast
  have b: "fl_head batch = fl_head (ar_foreign_bins ar ! ?i)" "fl_bytes batch = fl_bytes (ar_foreign_bins ar ! ?i)"
    "fl_head bin = nullptr" "fl_bytes bin = 0" "fl_count bin = 0"
    using det by (auto simp: detach_all_foreign_locked_def)
  have small: "unat (fl_bytes (ar_foreign_bins ar ! ?i)) \<le> 2101248"
    using q(1) high_watermark_value(1) [OF i] by (simp add: fbin_ok_def word_le_nat_alt)
  have o: "only (holding own Us (Inside t)) ?i {}" using none by (simp add: only_nothing)
  have qe: "set q = holding own Us Queued ?i \<union> {}" using q(2) by simp
  have "set [] \<subseteq> set q" by simp
  note H = bin_hands [OF o i qe this]
  define own' where "own' = own(?i := \<lambda>b. if b \<in> set [] then Queued else if b \<in> set q then Inside t else own ?i b)"
  have mine: "task_ok (w_mem w) (ar_node_id ar) (At_uncount True ci batch) (holding own' Us (Inside t))"
    using H(1) q(1) i small by (auto simp: batch_in_hand_def fbin_ok_def b own'_def)
  have bin0: "fbin_ok (w_mem w) ?i bin []" by (simp add: fbin_ok_def b)
  have "il_goes os ar w U Fs lv ?ar (w\<lparr>w_mem := w_mem w\<rparr>) (tasks[t := At_uncount True ci batch])"
    by (rule il_bin_section [OF ok t i H(2) agree_on_refl bin0 _ _ own'_def _ mine]) (simp_all add: b pend)
  then show ?thesis by simp
qed

lemma il_uncount:
  assumes ok: "il_ok os ar w tasks U Fs Us own lv" and t: "t < length tasks"
    and task: "tasks ! t = At_uncount a ci batch"
    and ar': "ar' = (if fl_bytes batch \<noteq> 0 then ar\<lparr>ar_foreign_bytes := ar_foreign_bytes ar - fl_bytes batch\<rparr> else ar)"
  shows "il_goes os ar w U Fs lv ar' w (tasks[t := At_drain a ci batch])"
proof -
  have eq: "ar' = ar\<lparr>ar_foreign_bytes := ar_foreign_bytes ar - fl_bytes batch\<rparr>" by (simp add: ar')
  have mine: "task_ok (w_mem w) (ar_node_id ar) (At_drain a ci batch) (holding own Us (Inside t))"
    using il_task [OF ok t] by (simp add: task)
  have bins: "0 < length (ar_foreign_bins ar)" using ok by (simp add: il_ok_def queues_ok_def)
  have "counted ar tasks" using ok by (simp add: il_ok_def)
  then have "counted ar' (tasks[t := At_drain a ci batch])"
    by (rule counted_section [OF _ t bins, of _ "ar_foreign_bins ar ! 0"]) (simp_all add: task eq)
  moreover have "threads_ok (w_mem w) (ar_node_id ar) (tasks[t := At_drain a ci batch]) own Us"
    using ok mine by (auto simp: il_ok_def threads_ok_def nth_upd [OF t])
  ultimately have "il_ok os ar' w (tasks[t := At_drain a ci batch]) U Fs Us own lv"
    using ok by (simp add: il_ok_def eq)
  moreover have "ar_foot ar' Fs lv = ar_foot ar Fs lv" by (simp add: eq ar_foot_def)
  ultimately show ?thesis
    using frame_step_refl [OF il_foot(1) [OF ok]] untouched_refl unfolding il_goes_def by metis
qed

lemma il_enqueue:
  assumes ok: "il_ok os ar w tasks U Fs Us own lv" and t: "t < length tasks" and i: "i < 40"
    and mine: "only (holding own Us (Inside t)) i {h}" and hd: "header_ok (ar_node_id ar) (w_mem w) i h"
    and pend: "pending (tasks ! t) = 0"
  shows "\<exists>batch ar' m'. enqueue_section h (kClassSizes ! i) (of_nat i) ar (w_mem w) = Some (batch, ar', m') \<and>
    il_goes os ar w U Fs lv ar' (w\<lparr>w_mem := m'\<rparr>) (tasks[t := At_uncount False (of_nat i) batch])"
proof -
  let ?bin = "ar_foreign_bins ar ! i" and ?cs = "kClassSizes ! i"
  have owns: "sm_owns os (ar_small ar) w Fs Us" and lab: "labels_ok (ar_node_id ar) (w_mem w) own Us"
    using ok by (simp_all add: il_ok_def)
  have ui: "unat (of_nat i :: u64) = i" using i by (simp add: unat_of_nat_u64)
  obtain q where q: "fbin_ok (w_mem w) i ?bin q" "set q = holding own Us Queued i"
    using ok i unfolding il_ok_def queues_ok_def by blast
  have "h \<in> holding own Us (Inside t) i" using mine i by (simp add: only_def)
  then have h: "h \<in> dom (Us ! i)" "h \<notin> set q" unfolding q(2) holding_def by simp_all
  have sub: "set q \<subseteq> dom (Us ! i)" using q(2) holdingD by blast
  define m1 where "m1 = set_next_link h (fl_head ?bin) (w_mem w)"
  define bin1 where "bin1 = ?bin\<lparr>fl_head := h, fl_count := fl_count ?bin + 1, fl_bytes := fl_bytes ?bin + ?cs\<rparr>"
  obtain k batch bin2 m2 where E: "k \<le> Suc (length q)"
    "(if fl_bytes bin1 > foreign_high_watermark ?cs
      then detach_foreign_until_low_locked bin1 ?cs (foreign_low_watermark ?cs) m1
      else Some (empty_foreign, bin1, m1)) = Some (batch, bin2, m2)"
    "fbin_ok m2 i bin2 (drop k (h # q))" "chain (next_link m2) (fl_head batch) (rev (take k (h # q)))"
    "unat (fl_bytes batch) = k * unat ?cs" "unat (fl_bytes bin2) + k * unat ?cs = unat (fl_bytes ?bin) + unat ?cs"
    "agree_on (- (\<Union>x\<in>set (h # q). cell x)) (w_mem w) m2"
    using enqueue_bin_ok [OF owns i q(1) sub h] unfolding m1_def [symmetric] bin1_def [symmetric]
    by (elim exE conjE)
  let ?q' = "drop k (h # q)" and ?ar = "ar\<lparr>ar_foreign_bins := (ar_foreign_bins ar)[i := bin2],
    ar_foreign_bytes := ar_foreign_bytes ar + ?cs\<rparr>"
  have run: "enqueue_section h ?cs (of_nat i) ar (w_mem w) = Some (batch, ?ar, m2)"
    unfolding enqueue_section_def Let_def ui m1_def [symmetric] bin1_def [symmetric] E(2) by simp
  have qe: "set (h # q) = holding own Us Queued i \<union> {h}" using q(2) by auto
  have qs: "set ?q' \<subseteq> set (h # q)" by (rule set_drop_subset)
  note H = bin_hands [OF mine i qe qs]
  define own' where "own' = own(i := \<lambda>b. if b \<in> set ?q' then Queued else if b \<in> set (h # q) then Inside t else own i b)"
  have d: "distinct (h # q)" using q(1) h(2) by (auto simp: fbin_ok_def dest: chain_distinct)
  have "set (h # q) - set ?q' = set (rev (take k (h # q)))"
    using set_take_disj_set_drop_if_distinct [OF d order_refl, of k] set_append [of "take k (h # q)" ?q']
    by (auto simp del: set_append)
  moreover have "unat (fl_bytes batch) \<le> 2101248"
    using E(5,6) q(1) high_watermark_value(1) [OF i] kClassSizes_bounds(2) [OF i]
    by (simp add: fbin_ok_def word_le_nat_alt)
  ultimately have mine': "task_ok m2 (ar_node_id ar) (At_uncount False (of_nat i) batch) (holding own' Us (Inside t))"
    using H(1) E(4,5) i E(1) unfolding task_ok.simps batch_in_hand_def ui own'_def
    by (intro conjI exI [of _ "rev (take k (h # q))"]) (simp_all add: min_def)
  have hd': "header_ok (ar_node_id ar) (w_mem w) i b" if "b \<in> set ?q'" for b
  proof -
    have "b \<in> set (h # q)" using that qs by blast
    then show ?thesis using hd lab i q(2) by (auto simp: labels_ok_def)
  qed
  have "fl_bytes bin2 + fl_bytes batch = fl_bytes ?bin + ?cs"
  proof -
    have "fl_bytes bin2 + fl_bytes batch = of_nat (unat (fl_bytes bin2) + unat (fl_bytes batch))" by simp
    also have "\<dots> = of_nat (unat (fl_bytes ?bin) + unat ?cs)" using E(5,6) by (simp only:)
    also have "\<dots> = fl_bytes ?bin + ?cs" by simp
    finally show ?thesis .
  qed
  then have "ar_foreign_bytes ar + (fl_bytes ?bin + ?cs) = ar_foreign_bytes ar + (fl_bytes bin2 + fl_bytes batch)"
    by simp
  then have "ar_foreign_bytes ar + ?cs + fl_bytes ?bin + pending (tasks ! t) =
      ar_foreign_bytes ar + fl_bytes bin2 + pending (At_uncount False (of_nat i) batch)"
    by (simp add: pend add.assoc add.commute [of ?cs])
  then have "il_goes os ar w U Fs lv ?ar (w\<lparr>w_mem := m2\<rparr>) (tasks[t := At_uncount False (of_nat i) batch])"
    by (intro il_bin_section [OF ok t i H(2) E(7,3) qs hd' own'_def refl mine'])
  with run show ?thesis by blast
qed

subsection \<open>The header of a new block\<close>

lemma il_header:
  assumes ok: "il_ok os ar w tasks U Fs Us own lv" and t: "t < length tasks" and i: "unat ci < 40"
    and mine: "only (holding own Us (Inside t)) (unat ci) {h}" and pend: "pending (tasks ! t) = 0"
    and m': "m' = set_bh_size h 0 (set_bh_size_class h (ucast (kClassSizes ! unat ci))
      (set_bh_node_id h (of_int (ar_node_id ar)) (w_mem w)))"
  shows "il_goes os ar w U Fs lv ar (w\<lparr>w_mem := m'\<rparr>) (tasks[t := At_allocated ci (Inr (to_user_ptr h))])"
proof -
  let ?i = "unat ci" and ?task = "At_allocated ci (Inr (to_user_ptr h))"
  have owns: "sm_owns os (ar_small ar) w Fs Us" and cnt: "counted ar tasks"
    and qok: "queues_ok (w_mem w) (ar_foreign_bins ar) own Us"
    and lab: "labels_ok (ar_node_id ar) (w_mem w) own Us" using ok by (simp_all add: il_ok_def)
  have len: "length Us = 40" using owns by (simp add: sm_owns_def)
  have "h \<in> holding own Us (Inside t) ?i" using mine i by (simp add: only_def)
  then obtain A where A: "(Us ! ?i) h = Some A" and oh: "own ?i h = Inside t" using holdingD by blast
  note B = small_block_area [OF owns i A]
  note W = arena_header_writes [OF B(6) m']
  have agA: "agree_on (- A) (w_mem w) m'" using B(4) by (intro agree_on_mono [OF W(4)]) auto
  have AF: "A \<subseteq> fam_granted Us" by (rule sm_grant_part [OF i len A])
  have owns': "sm_owns os (ar_small ar) (w\<lparr>w_mem := m'\<rparr>) Fs Us"
    using AF by (intro sm_owns_write [OF owns] agree_on_mono [OF agA]) auto
  have fs: "frame_step (fam Fs) w (fam Fs) (w\<lparr>w_mem := m'\<rparr>)"
    using B(3) by (intro frame_step_write sm_owns_mapped [OF owns] agree_on_mono [OF agA]) auto
  have keep: "agree_on C (w_mem w) m'" if b: "j < 40" "(Us ! j) b = Some C" "own j b \<noteq> Inside t" for j b C
  proof -
    have "(j, b) \<noteq> (?i, h)" using oh b(3) by auto
    from sm_blocks_apart [OF owns b(1) i b(2) A this] show ?thesis by (intro agree_on_mono [OF agA]) auto
  qed
  have link: "next_link m' b = next_link (w_mem w) b \<and> header_ok (ar_node_id ar) m' j b"
    if b: "j < 40" "b \<in> holding own Us Queued j" for j b
  proof -
    obtain C where C: "(Us ! j) b = Some C" "own j b = Queued" using holdingD [OF b(2)] by blast
    have "agree_on C (w_mem w) m'" using keep [OF b(1) C(1)] C(2) by simp
    from sm_block_local [OF owns b(1) C(1) this] lab b show ?thesis by (simp add: labels_ok_def header_ok_def)
  qed
  have queues: "queues_ok m' (ar_foreign_bins ar) own Us"
    unfolding queues_ok_def
  proof (intro conjI allI impI)
    show "length (ar_foreign_bins ar) = 40" using qok by (simp add: queues_ok_def)
    fix j :: nat assume j: "j < 40"
    obtain q where q: "fbin_ok (w_mem w) j (ar_foreign_bins ar ! j) q" "set q = holding own Us Queued j"
      using qok j unfolding queues_ok_def by blast
    have "chain (next_link m') p q = chain (next_link (w_mem w)) p q" for p
      using link [OF j] q(2) by (intro chain_cong) blast
    then show "\<exists>q. fbin_ok m' j (ar_foreign_bins ar ! j) q \<and> set q = holding own Us Queued j"
      using q by (auto simp: fbin_ok_def)
  qed
  have mine': "task_ok m' (ar_node_id ar) ?task (holding own Us (Inside t))"
    using mine i W(1,2) by (simp add: header_ok_def)
  have "il_ok os ar (w\<lparr>w_mem := m'\<rparr>) (tasks[t := ?task]) U Fs Us own lv \<and>
    frame_step (ar_foot ar Fs lv) w (ar_foot ar Fs lv) (w\<lparr>w_mem := m'\<rparr>) \<and>
    untouched U (w_mem w) (w_mem (w\<lparr>w_mem := m'\<rparr>))"
    by (rule il_section [OF ok t owns' _ fs])
      (use keep queues link mine' counted_small [OF cnt t, of ?task ar] pend in simp_all)
  then show ?thesis unfolding il_goes_def by blast
qed

subsection \<open>Every section returns and keeps the invariant\<close>

theorem il_advance:
  assumes ok: "il_ok os ar w tasks U Fs Us own lv" and t: "t < length tasks"
  shows "\<exists>task' ar' w'. advance os (tasks ! t) ar w = Some (task', ar', w') \<and>
    il_goes os ar w U Fs lv ar' w' (tasks[t := task'])"
proof (cases "tasks ! t")
  case At_idle
  then show ?thesis using il_quiet [OF ok t il_task [OF ok t] refl] by simp
next
  case (At_load ci)
  then show ?thesis using il_task [OF ok t] by (auto intro!: il_quiet [OF ok t])
next
  case (At_allocate ci)
  obtain r sm w1 where al: "sm_allocate_by_class_index os ci (ar_small ar) w = (r, sm, w1)" by (metis prod_cases3)
  from il_allocate [OF ok t _ _ _ al] il_task [OF ok t] At_allocate al show ?thesis by simp
next
  case (At_existing ci)
  obtain task' ar' w' where sec: "try_section ci At_detach ar w = (task', ar', w')" by (metis prod_cases3)
  have i: "unat ci < 40" and none: "nothing (holding own Us (Inside t))"
    using il_task [OF ok t] by (simp_all add: At_existing)
  from il_try [OF ok t i none _ sec] i sec class_index_ok [OF i] show ?thesis by (simp add: At_existing)
next
  case (At_detach ci)
  obtain batch bin where d: "detach_all_foreign_locked (ar_foreign_bins ar ! unat ci) = (batch, bin)"
    by (metis surj_pair)
  have i: "unat ci < 40" and none: "nothing (holding own Us (Inside t))"
    using il_task [OF ok t] by (simp_all add: At_detach)
  from il_detach [OF ok t i none _ d] class_index_ok [OF i] d show ?thesis by (simp add: At_detach Let_def)
next
  case (At_uncount a ci batch)
  then show ?thesis using il_uncount [OF ok t At_uncount refl] by simp
next
  case (At_drain a ci batch)
  have b: "batch_in_hand (w_mem w) (unat ci) batch (holding own Us (Inside t))"
    using il_task [OF ok t] by (simp add: At_drain)
  let ?task = "if a then At_retry ci else At_freed (Inr ())"
  have i: "unat ci < 40" using b by (simp add: batch_in_hand_def)
  have "task_ok m (ar_node_id ar) ?task H" if "nothing H" for m H using that i by simp
  moreover have "pending ?task = 0" by simp
  ultimately obtain sm' w' where "drain_foreign_batch os ci batch (ar_small ar) w = Some (Inr (), sm', w')"
    "il_goes os ar w U Fs lv (ar\<lparr>ar_small := sm'\<rparr>) w' (tasks[t := ?task])"
    using il_drain [OF ok t b, of ?task] At_drain by auto
  then show ?thesis by (cases a) (simp_all add: At_drain)
next
  case (At_retry ci)
  obtain task' ar' w' where sec: "try_section ci At_new_slab ar w = (task', ar', w')" by (metis prod_cases3)
  have i: "unat ci < 40" and none: "nothing (holding own Us (Inside t))"
    using il_task [OF ok t] by (simp_all add: At_retry)
  from il_try [OF ok t i none _ sec] i sec show ?thesis by (simp add: At_retry)
next
  case (At_new_slab ci)
  obtain r sm w1 where al: "sm_allocate_by_class_index os ci (ar_small ar) w = (r, sm, w1)" by (metis prod_cases3)
  have i: "unat ci < 40" and none: "nothing (holding own Us (Inside t))"
    using il_task [OF ok t] by (simp_all add: At_new_slab)
  have "advance os (tasks ! t) ar w = Some (got_block ci r, ar\<lparr>ar_small := sm\<rparr>, w1)"
    using al class_index_ok [OF i]
    by (auto simp: At_new_slab sm_allocate_by_class_index_def sc_allocate_new_slab_eq Let_def split: prod.splits)
  with il_allocate [OF ok t i none _ al] show ?thesis by (simp add: At_new_slab)
next
  case (At_header ci h)
  have "unat ci < 40" "only (holding own Us (Inside t)) (unat ci) {h}"
    using il_task [OF ok t] by (simp_all add: At_header)
  from il_header [OF ok t this _ refl] show ?thesis by (simp add: At_header Let_def)
next
  case (At_allocated ci r)
  then show ?thesis using il_quiet [OF ok t il_task [OF ok t] refl] by simp
next
  case (At_enqueue h)
  obtain i where i: "i < 40" "only (holding own Us (Inside t)) i {h}" "header_ok (ar_node_id ar) (w_mem w) i h"
    using il_task [OF ok t] by (auto simp: At_enqueue)
  have cls: "ucast (bh_size_class (w_mem w) h) = kClassSizes ! i"
    using i(3) ucast_class_size [OF i(1)] by (simp add: header_ok_def)
  have ci: "class_index_for_size (kClassSizes ! i) = Inr (of_nat i)" by (rule class_index_of_class [OF i(1)])
  from il_enqueue [OF ok t i] At_enqueue obtain batch ar' m' where
    E: "enqueue_section h (kClassSizes ! i) (of_nat i) ar (w_mem w) = Some (batch, ar', m')"
    "il_goes os ar w U Fs lv ar' (w\<lparr>w_mem := m'\<rparr>) (tasks[t := At_uncount False (of_nat i) batch])" by auto
  then show ?thesis by (simp add: At_enqueue cls ci)
next
  case (At_deallocate h)
  obtain i where i: "i < 40" "only (holding own Us (Inside t)) i {h}" "header_ok (ar_node_id ar) (w_mem w) i h"
    using il_task [OF ok t] by (auto simp: At_deallocate)
  obtain r sm w1 where de: "sm_deallocate os h (ar_small ar) w = (r, sm, w1)" by (metis prod_cases3)
  from il_deallocate(2) [OF ok t i _ de] de show ?thesis by (simp add: At_deallocate)
next
  case (At_freed r)
  then show ?thesis using il_quiet [OF ok t il_task [OF ok t] refl] by simp
qed

subsection \<open>Calls and returns\<close>

text \<open>A block changes hands between the users and a thread.\<close>

lemma il_change_hands:
  assumes ok: "il_ok os ar w tasks U Fs Us own lv" and t: "t < length tasks" and i: "i < 40"
    and b: "b \<in> dom (Us ! i)" and own': "own' = own(i := (own i)(b := h'))"
    and h: "own i b = Held \<and> h' = Inside t \<or> own i b = Inside t \<and> h' = Held"
    and hd: "header_ok (ar_node_id ar) (w_mem w) i b"
    and mine: "task_ok (w_mem w) (ar_node_id ar) task' (holding own' Us (Inside t))"
    and pend: "pending task' = pending (tasks ! t)"
    and g: "ar_grants (user_blocks own' Us) lv U'"
  shows "il_ok os ar w (tasks[t := task']) U' Fs Us own' lv"
proof -
  have other: "holding own' Us x j = holding own Us x j" if "x \<noteq> Held" "x \<noteq> Inside t" for x j
    using h that by (auto simp: own' holding_def)
  have q: "queues_ok (w_mem w) (ar_foreign_bins ar) own' Us"
    using ok other [of Queued] by (simp add: il_ok_def queues_ok_def)
  have "threads_ok (w_mem w) (ar_node_id ar) tasks own Us" using ok by (simp add: il_ok_def)
  then have thr: "threads_ok (w_mem w) (ar_node_id ar) (tasks[t := task']) own' Us"
    by (rule threads_ok_section [OF _ t _ _ mine]) (simp_all add: other)
  have lab: "labels_ok (ar_node_id ar) (w_mem w) own' Us"
    unfolding labels_ok_def
  proof (intro allI impI)
    fix j c assume j: "j < 40" and c: "c \<in> holding own' Us Held j \<or> c \<in> holding own' Us Queued j"
    show "header_ok (ar_node_id ar) (w_mem w) j c"
    proof (cases "j = i \<and> c = b")
      case True
      then show ?thesis using hd by simp
    next
      case False
      then have "own' j c = own j c" by (auto simp: own')
      then have "c \<in> holding own Us Held j \<or> c \<in> holding own Us Queued j" using c by (simp add: holding_def)
      then show ?thesis using ok j by (auto simp: il_ok_def labels_ok_def)
    qed
  qed
  have "counted ar (tasks[t := task'])" using ok pend by (intro counted_small [OF _ t]) (simp_all add: il_ok_def)
  then show ?thesis using ok q thr lab g by (simp add: il_ok_def)
qed

lemma il_not_both:
  assumes ok: "il_ok os ar w tasks U Fs Us own lv" and j: "j < 40" and b: "b \<in> dom (Us ! j)"
  shows "la_grants lv (to_user_ptr b) = None"
proof (rule ccontr)
  have owns: "sm_owns os (ar_small ar) w Fs Us" and l: "la_inv os (ar_large ar) lv w"
    and dj: "fam Fs \<inter> pool_area (la_pool (ar_large ar) lv) = {}" using ok by (simp_all add: il_ok_def)
  obtain A where A: "(Us ! j) b = Some A" using b by blast
  note B = small_block_area [OF owns j A]
  assume "la_grants lv (to_user_ptr b) \<noteq> None"
  moreover have "distinct (map fst lv)" using l by (simp add: la_inv_def)
  ultimately obtain raw span sz where p: "(to_user_ptr b, raw, span, sz) \<in> set lv"
    using la_grants_iff [of lv "to_user_ptr b"] by auto
  have bok: "block_ok (la_node_id (ar_large ar)) (w_mem w) (to_user_ptr b, raw, span, sz)"
    by (rule la_inv_block [OF l p])
  have "unat b \<in> {unat (to_user_ptr b) - 32 ..< unat (to_user_ptr b) + unat sz}" using B(7) by simp
  then have "unat b \<in> pool_area (la_pool (ar_large ar) lv)"
    using block_area [OF bok refl] la_inv_span_pool [OF l p] by auto
  then show False using B(2,3) dj by blast
qed

lemma il_held:
  assumes ok: "il_ok os ar w tasks U Fs Us own lv" and p: "U p \<noteq> None"
    and hd: "bh_size_class (w_mem w) (from_user_ptr p) \<noteq> 0"
  shows "\<exists>i<40. from_user_ptr p \<in> dom (Us ! i) \<and> own i (from_user_ptr p) = Held"
proof -
  have g: "ar_grants (user_blocks own Us) lv U" and l: "la_inv os (ar_large ar) lv w"
    using ok by (simp_all add: il_ok_def)
  obtain A where A: "U p = Some A" using p by blast
  from g A consider j where "j < 40" "from_user_ptr p \<in> dom (user_blocks own Us ! j)"
    | "la_grants lv p \<noteq> None" unfolding ar_grants_def by blast
  then show ?thesis
  proof cases
    case (1 j)
    then show ?thesis by (auto simp: holding_def)
  next
    case 2
    have "distinct (map fst lv)" using l by (simp add: la_inv_def)
    then obtain raw span sz where p: "(p, raw, span, sz) \<in> set lv" using 2 la_grants_iff [of lv p] by auto
    have "block_ok (la_node_id (ar_large ar)) (w_mem w) (p, raw, span, sz)" by (rule la_inv_block [OF l p])
    then show ?thesis using hd by (simp add: block_ok_def)
  qed
qed

subsection \<open>Writes of the users and steps elsewhere\<close>

text \<open>Another world in which the blocks look the same, but for the links in those of the users.\<close>

lemma il_parts:
  assumes ok: "il_ok os ar w tasks U Fs Us own lv"
    and owns': "sm_owns os (ar_small ar) w' Fs Us" and l': "la_inv os la' lv' w'"
    and la': "la_node_id la' = la_node_id (ar_large ar)" "fam Fs \<inter> pool_area (la_pool la' lv') = {}"
    and g': "ar_grants (user_blocks own Us) lv' U'"
    and fields: "\<And>i b. i < 40 \<Longrightarrow> b \<in> dom (Us ! i) \<Longrightarrow>
      bh_node_id (w_mem w') b = bh_node_id (w_mem w) b \<and> bh_size_class (w_mem w') b = bh_size_class (w_mem w) b \<and>
      (own i b \<noteq> Held \<longrightarrow> next_link (w_mem w') b = next_link (w_mem w) b)"
  shows "il_ok os (ar\<lparr>ar_large := la'\<rparr>) w' tasks U' Fs Us own lv'"
proof -
  have thr: "threads_ok (w_mem w) (ar_node_id ar) tasks own Us" using ok by (simp add: il_ok_def)
  have "threads_ok (w_mem w') (ar_node_id ar) tasks own Us"
    unfolding threads_ok_def
  proof (intro conjI allI impI)
    fix s assume "s < length tasks"
    then have "task_ok (w_mem w) (ar_node_id ar) (tasks ! s) (holding own Us (Inside s))"
      using thr by (simp add: threads_ok_def)
    then show "task_ok (w_mem w') (ar_node_id ar) (tasks ! s) (holding own Us (Inside s))"
    proof (rule task_ok_cong [OF _ refl])
      fix i b assume "i < 40" "b \<in> holding own Us (Inside s) i"
      with fields [of i b] holdingD [of b own Us "Inside s" i]
      show "bh_node_id (w_mem w') b = bh_node_id (w_mem w) b \<and>
        bh_size_class (w_mem w') b = bh_size_class (w_mem w) b \<and> next_link (w_mem w') b = next_link (w_mem w) b" by simp
    qed
  next
    fix s assume "length tasks \<le> s"
    then show "nothing (holding own Us (Inside s))" using thr by (simp add: threads_ok_def)
  qed
  moreover have "queues_ok (w_mem w') (ar_foreign_bins ar) own Us"
    unfolding queues_ok_def
  proof (intro conjI allI impI)
    show "length (ar_foreign_bins ar) = 40" using ok by (simp add: il_ok_def queues_ok_def)
    fix j :: nat assume j: "j < 40"
    obtain q where q: "fbin_ok (w_mem w) j (ar_foreign_bins ar ! j) q" "set q = holding own Us Queued j"
      using ok j unfolding il_ok_def queues_ok_def by blast
    have "next_link (w_mem w') b = next_link (w_mem w) b" if "b \<in> set q" for b
      using fields [OF j] holdingD [of b own Us Queued j] that q(2) by simp
    then have "chain (next_link (w_mem w')) p q = chain (next_link (w_mem w)) p q" for p by (rule chain_cong)
    then show "\<exists>q. fbin_ok (w_mem w') j (ar_foreign_bins ar ! j) q \<and> set q = holding own Us Queued j"
      using q by (auto simp: fbin_ok_def)
  qed
  moreover have "labels_ok (ar_node_id ar) (w_mem w') own Us"
    unfolding labels_ok_def
  proof (intro allI impI)
    fix i b assume i: "i < 40" and b: "b \<in> holding own Us Held i \<or> b \<in> holding own Us Queued i"
    then have "b \<in> dom (Us ! i)" using holdingD by blast
    moreover have "header_ok (ar_node_id ar) (w_mem w) i b" using ok i b unfolding il_ok_def labels_ok_def by blast
    ultimately show "header_ok (ar_node_id ar) (w_mem w') i b" using fields [OF i] by (simp add: header_ok_def)
  qed
  ultimately show ?thesis using ok owns' l' la' g' by (simp add: il_ok_def counted_def)
qed

lemma il_memory:
  assumes ok: "il_ok os ar w tasks U Fs Us own lv"
    and owns': "sm_owns os (ar_small ar) w' Fs Us" and l': "la_inv os (ar_large ar) lv w'"
    and fields: "\<And>i b. i < 40 \<Longrightarrow> b \<in> dom (Us ! i) \<Longrightarrow>
      bh_node_id (w_mem w') b = bh_node_id (w_mem w) b \<and> bh_size_class (w_mem w') b = bh_size_class (w_mem w) b \<and>
      (own i b \<noteq> Held \<longrightarrow> next_link (w_mem w') b = next_link (w_mem w) b)"
  shows "il_ok os ar w' tasks U Fs Us own lv"
proof -
  have "fam Fs \<inter> pool_area (la_pool (ar_large ar) lv) = {}" "ar_grants (user_blocks own Us) lv U"
    using ok by (simp_all add: il_ok_def)
  from il_parts [OF ok owns' l' refl this fields] show ?thesis by simp
qed

text \<open>The large allocator changes, and with it bytes that no block of the classes has.\<close>

lemma il_large:
  assumes ok: "il_ok os ar w tasks U Fs Us own lv" and fs: "frame_step G w G' w'" and dj: "fam Fs \<inter> G = {}"
    and l': "la_inv os la' lv' w'" and node: "la_node_id la' = la_node_id (ar_large ar)"
    and pool: "pool_area (la_pool la' lv') \<subseteq> G'" and g': "ar_grants (user_blocks own Us) lv' U'"
  shows "il_ok os (ar\<lparr>ar_large := la'\<rparr>) w' tasks U' Fs Us own lv'"
proof -
  have owns: "sm_owns os (ar_small ar) w Fs Us" using ok by (simp add: il_ok_def)
  note K = frame_step_mem [OF dj sm_owns_mapped [OF owns] fs]
  have "fam Fs \<inter> pool_area (la_pool la' lv') = {}" using K pool by blast
  then show ?thesis
  proof (rule il_parts [OF ok sm_owns_frame [OF owns fs dj] l' node _ g'])
    fix i b assume i: "i < 40" and "b \<in> dom (Us ! i)"
    then obtain A where A: "(Us ! i) b = Some A" by blast
    have "agree_on A (w_mem w) (w_mem w')" using small_block_area(3) [OF owns i A] K agree_on_mono by blast
    from sm_block_local [OF owns i A this]
    show "bh_node_id (w_mem w') b = bh_node_id (w_mem w) b \<and> bh_size_class (w_mem w') b = bh_size_class (w_mem w) b \<and>
      (own i b \<noteq> Held \<longrightarrow> next_link (w_mem w') b = next_link (w_mem w) b)" by simp
  qed
qed

lemma il_frame:
  assumes ok: "il_ok os ar w tasks U Fs Us own lv" and fs: "frame_step G w G' w'"
    and dj: "fam Fs \<inter> G = {}" and l': "la_inv os (ar_large ar) lv w'"
  shows "il_ok os ar w' tasks U Fs Us own lv"
proof -
  have owns: "sm_owns os (ar_small ar) w Fs Us" using ok by (simp add: il_ok_def)
  note K = frame_step_mem [OF dj sm_owns_mapped [OF owns] fs]
  show ?thesis
  proof (rule il_memory [OF ok sm_owns_frame [OF owns fs dj] l'])
    fix i b assume i: "i < 40" and "b \<in> dom (Us ! i)"
    then obtain A where A: "(Us ! i) b = Some A" by blast
    have "agree_on A (w_mem w) (w_mem w')" using small_block_area(3) [OF owns i A] K agree_on_mono by blast
    from sm_block_local [OF owns i A this]
    show "bh_node_id (w_mem w') b = bh_node_id (w_mem w) b \<and> bh_size_class (w_mem w') b = bh_size_class (w_mem w) b \<and>
      (own i b \<noteq> Held \<longrightarrow> next_link (w_mem w') b = next_link (w_mem w) b)" by simp
  qed
qed

text \<open>A user writes to the bytes of a block. The field \<open>size\<close> of a small header is free as well:
  nothing depends on it.\<close>

lemma il_fill_small:
  assumes ok: "il_ok os ar w tasks U Fs Us own lv" and i: "i < 40" and b: "b \<in> dom (Us ! i)" "own i b = Held"
    and ag: "agree_on (- (bytes_of (to_user_ptr b) (unat (kClassSizes ! i)) \<union> {unat b + 8 ..< unat b + 16})) (w_mem w) m'"
  shows "il_ok os ar (w\<lparr>w_mem := m'\<rparr>) tasks U Fs Us own lv"
    and "frame_step (ar_foot ar Fs lv) w (ar_foot ar Fs lv) (w\<lparr>w_mem := m'\<rparr>)"
proof -
  let ?C = "bytes_of (to_user_ptr b) (unat (kClassSizes ! i)) \<union> {unat b + 8 ..< unat b + 16}" and ?P = "pool_area (la_pool (ar_large ar) lv)"
  have owns: "sm_owns os (ar_small ar) w Fs Us" and l: "la_inv os (ar_large ar) lv w"
    and dj: "fam Fs \<inter> ?P = {}" using ok by (simp_all add: il_ok_def)
  have len: "length Us = 40" using owns by (simp add: sm_owns_def)
  obtain A where A: "(Us ! i) b = Some A" using b(1) by blast
  note B = small_block_area [OF owns i A]
  have agA: "agree_on (- A) (w_mem w) m'" using B(1,4) by (intro agree_on_mono [OF ag]) auto
  have AF: "A \<subseteq> fam_granted Us" by (rule sm_grant_part [OF i len A])
  have owns': "sm_owns os (ar_small ar) (w\<lparr>w_mem := m'\<rparr>) Fs Us"
    using AF by (intro sm_owns_write [OF owns] agree_on_mono [OF agA]) auto
  have fs: "frame_step (fam Fs) w (fam Fs) (w\<lparr>w_mem := m'\<rparr>)"
    using B(3) by (intro frame_step_write sm_owns_mapped [OF owns] agree_on_mono [OF agA]) auto
  have "?P \<inter> fam Fs = {}" using dj by auto
  then have l': "la_inv os (ar_large ar) lv (w\<lparr>w_mem := m'\<rparr>)" by (rule la_inv_frame [OF l fs])
  have agC: "agree_on (- A \<union> {unat b ..< unat b + 8}) (w_mem w) m'"
  proof (rule agree_onI)
    fix x assume "x \<in> - A \<union> {unat b ..< unat b + 8}"
    moreover have "{unat b + 8 ..< unat b + 16} \<subseteq> A" using B(4) by (intro subset_trans [OF _ B(4)]) auto
    ultimately have "x \<notin> ?C" using B(1,7) by (auto simp: bytes_of_def)
    then show "m' x = w_mem w x" using ag by (simp add: agree_on_def)
  qed
  show "il_ok os ar (w\<lparr>w_mem := m'\<rparr>) tasks U Fs Us own lv"
  proof (rule il_memory [OF ok owns' l'])
    fix j c assume j: "j < 40" and "c \<in> dom (Us ! j)"
    then obtain D where D: "(Us ! j) c = Some D" by blast
    show "bh_node_id (w_mem (w\<lparr>w_mem := m'\<rparr>)) c = bh_node_id (w_mem w) c \<and>
      bh_size_class (w_mem (w\<lparr>w_mem := m'\<rparr>)) c = bh_size_class (w_mem w) c \<and>
      (own j c \<noteq> Held \<longrightarrow> next_link (w_mem (w\<lparr>w_mem := m'\<rparr>)) c = next_link (w_mem w) c)"
    proof (cases "(j, c) = (i, b)")
      case True
      have h: "agree_on {unat b ..< unat b + 8} (w_mem w) m'" by (rule agree_on_mono [OF agC]) auto
      have "bh_node_id m' b = bh_node_id (w_mem w) b \<and> bh_size_class m' b = bh_size_class (w_mem w) b"
        unfolding header_field_defs
        by (intro conjI; rule s32.get_local, rule agree_on_mono [OF h], simp add: bh_bytes [OF B(6)])
      then show ?thesis using True b(2) by simp
    next
      case False
      have "D \<inter> A = {}" by (rule sm_blocks_apart [OF owns j i D A False])
      then have "agree_on D (w_mem w) m'" by (intro agree_on_mono [OF agA]) auto
      from sm_block_local [OF owns j D this] show ?thesis by simp
    qed
  qed
  show "frame_step (ar_foot ar Fs lv) w (ar_foot ar Fs lv) (w\<lparr>w_mem := m'\<rparr>)"
    using B(3) by (intro frame_step_write il_foot(1) [OF ok] agree_on_mono [OF agA]) (auto simp: ar_foot_def)
qed

lemma il_fill_large:
  assumes ok: "il_ok os ar w tasks U Fs Us own lv" and p: "la_grants lv p = Some A"
    and ag: "agree_on (- A) (w_mem w) m'"
  shows "il_ok os ar (w\<lparr>w_mem := m'\<rparr>) tasks U Fs Us own lv"
    and "frame_step (ar_foot ar Fs lv) w (ar_foot ar Fs lv) (w\<lparr>w_mem := m'\<rparr>)"
proof -
  let ?P = "pool_area (la_pool (ar_large ar) lv)"
  have l: "la_inv os (ar_large ar) lv w" and dj: "fam Fs \<inter> ?P = {}" using ok by (simp_all add: il_ok_def)
  have A: "A \<subseteq> granted (la_grants lv)" by (rule granted_part [of "la_grants lv" p, OF p])
  have AP: "A \<subseteq> ?P" using A il_foot(3) [OF ok] by blast
  have "agree_on (- granted (la_grants lv)) (w_mem w) m'" using A by (intro agree_on_mono [OF ag]) auto
  then have l': "la_inv os (ar_large ar) lv (w\<lparr>w_mem := m'\<rparr>)" by (rule la_inv_write [OF l])
  have "?P \<subseteq> mapped w" using l by (simp add: la_inv_def)
  then have fs: "frame_step ?P w ?P (w\<lparr>w_mem := m'\<rparr>)"
    using AP by (intro frame_step_write agree_on_mono [OF ag]) auto
  from il_frame [OF ok fs dj l'] show "il_ok os ar (w\<lparr>w_mem := m'\<rparr>) tasks U Fs Us own lv" .
  show "frame_step (ar_foot ar Fs lv) w (ar_foot ar Fs lv) (w\<lparr>w_mem := m'\<rparr>)"
    using AP by (intro frame_step_write il_foot(1) [OF ok] agree_on_mono [OF ag]) (auto simp: ar_foot_def)
qed

end
