(* ===== verification/Arena_Calls.thy ===== *)
theory Arena_Calls
  imports Arena_Interleavings
begin

section \<open>Calls of threads on an arena\<close>

text \<open>
  The invariant of an arena whose threads are in the middle of calls to either of its
  allocators: that of \<open>Arena_Interleavings\<close> for the small blocks, and that of \<open>Large_Threads\<close> for
  the spans in the hands of the threads, which no other part of the arena has. The beginning
  of a call, one section of it, its return and the writes of the users keep it.
\<close>

fun small_part :: "activity \<Rightarrow> task" where
  "small_part (On_small task) = task"
| "small_part (On_large task) = At_idle"

fun large_part :: "activity \<Rightarrow> large_task" where
  "large_part (On_small task) = La_released"
| "large_part (On_large task) = task"

definition shared_ok :: "os \<Rightarrow> arena \<Rightarrow> world \<Rightarrow> activity list \<Rightarrow> grants \<Rightarrow> nat set \<Rightarrow> bool" where
  "shared_ok os ar w calls U F \<longleftrightarrow> (\<exists>Fs Us own lv hs.
     il_ok os ar w (map small_part calls) U Fs Us own lv \<and>
     hands_ok os (ar_node_id ar) w (ar_foot ar Fs lv) (map large_part calls) hs \<and>
     F = ar_foot ar Fs lv \<union> hands hs)"

lemma shared_okI:
  assumes "il_ok os ar w (map small_part calls) U Fs Us own lv"
    and "hands_ok os (ar_node_id ar) w (ar_foot ar Fs lv) (map large_part calls) hs"
  shows "shared_ok os ar w calls U (ar_foot ar Fs lv \<union> hands hs)"
  using assms unfolding shared_ok_def by blast

lemma shared_okE:
  assumes "shared_ok os ar w calls U F"
  obtains Fs Us own lv hs where "il_ok os ar w (map small_part calls) U Fs Us own lv"
    and "hands_ok os (ar_node_id ar) w (ar_foot ar Fs lv) (map large_part calls) hs"
    and "F = ar_foot ar Fs lv \<union> hands hs"
  using assms unfolding shared_ok_def by blast

lemma shared_mapped: "shared_ok os ar w calls U F \<Longrightarrow> F \<subseteq> mapped w"
  by (elim shared_okE) (simp add: il_foot(1) hands_okD(1))

lemma shared_granted: "shared_ok os ar w calls U F \<Longrightarrow> granted U \<subseteq> F"
  using il_foot(2) by (elim shared_okE) blast

subsection \<open>The blocks of the users\<close>

text \<open>The node and the class in a header are determined by where the block belongs.\<close>

lemma il_same_headers:
  assumes ok: "il_ok os ar w tasks U Fs Us own lv" and ok': "il_ok os ar' w' tasks' U Fs' Us own lv"
    and node: "ar_node_id ar' = ar_node_id ar"
  shows "keeps_headers U (w_mem w) (w_mem w')"
  unfolding keeps_headers_def
proof (intro allI impI)
  fix p assume "U p \<noteq> None"
  then obtain A where p: "U p = Some A" by blast
  have g: "ar_grants (user_blocks own Us) lv U" and l: "la_inv os (ar_large ar) lv w" "la_inv os (ar_large ar') lv w'"
    and lab: "labels_ok (ar_node_id ar) (w_mem w) own Us" "labels_ok (ar_node_id ar) (w_mem w') own Us"
    and nd: "la_node_id (ar_large ar) = ar_node_id ar" "la_node_id (ar_large ar') = ar_node_id ar"
    using ok ok' node by (simp_all add: il_ok_def)
  from g p consider j where "j < 40" "from_user_ptr p \<in> dom (user_blocks own Us ! j)" | "la_grants lv p = Some A"
    unfolding ar_grants_def by blast
  then show "bh_node_id (w_mem w') (from_user_ptr p) = bh_node_id (w_mem w) (from_user_ptr p) \<and>
      bh_size_class (w_mem w') (from_user_ptr p) = bh_size_class (w_mem w) (from_user_ptr p)"
  proof cases
    case (1 j)
    then have "from_user_ptr p \<in> holding own Us Held j" by (auto simp: restrict_map_def split: if_splits)
    then show ?thesis using lab 1(1) by (simp add: labels_ok_def header_ok_def)
  next
    case 2
    have "distinct (map fst lv)" using l(1) by (simp add: la_inv_def)
    with 2 obtain raw span sz where b: "(p, raw, span, sz) \<in> set lv" using la_grants_iff by blast
    show ?thesis using la_inv_block [OF l(1) b] la_inv_block [OF l(2) b] by (simp add: block_ok_def nd)
  qed
qed

lemma user_blocks_give:
  assumes "i < 40" and "length Us = 40"
  shows "user_blocks (own(i := (own i)(b := Inside t))) Us = (user_blocks own Us)[i := (user_blocks own Us ! i)(b := None)]"
proof (rule nth_equalityI)
  fix j assume "j < length (user_blocks (own(i := (own i)(b := Inside t))) Us)"
  then have j: "j < 40" by simp
  show "user_blocks (own(i := (own i)(b := Inside t))) Us ! j =
      (user_blocks own Us)[i := (user_blocks own Us ! i)(b := None)] ! j"
    using j assms(1) by (cases "j = i") (auto simp: restrict_map_def holding_def fun_eq_iff)
qed simp

lemma user_blocks_take:
  assumes "i < 40" and "(Us ! i) b = Some A"
  shows "user_blocks (own(i := (own i)(b := Held))) Us = (user_blocks own Us)[i := (user_blocks own Us ! i)(b \<mapsto> A)]"
proof (rule nth_equalityI)
  fix j assume "j < length (user_blocks (own(i := (own i)(b := Held))) Us)"
  then have j: "j < 40" by simp
  show "user_blocks (own(i := (own i)(b := Held))) Us ! j =
      (user_blocks own Us)[i := (user_blocks own Us ! i)(b \<mapsto> A)] ! j"
    using j assms by (cases "j = i") (auto simp: restrict_map_def holding_def fun_eq_iff)
qed simp

lemma il_grants_cases:
  assumes ok: "il_ok os ar w tasks U Fs Us own lv" and p: "U p = Some A"
  obtains (small) i B where "i < 40" and "(Us ! i) (from_user_ptr p) = Some B" and "own i (from_user_ptr p) = Held"
      and "A \<subseteq> bytes_of p (unat (kClassSizes ! i))" and "A \<subseteq> B" and "B \<subseteq> fam Fs"
  | (large) "la_grants lv p = Some A" and "A \<subseteq> pool_area (la_pool (ar_large ar) lv)"
proof -
  have g: "ar_grants (user_blocks own Us) lv U" and owns: "sm_owns os (ar_small ar) w Fs Us"
    using ok by (simp_all add: il_ok_def)
  from g p consider j where "j < 40" "from_user_ptr p \<in> dom (user_blocks own Us ! j)"
      "A \<subseteq> bytes_of p (unat (kClassSizes ! j))" | "la_grants lv p = Some A" unfolding ar_grants_def by blast
  then show thesis
  proof cases
    case (1 j)
    then obtain B where B: "(Us ! j) (from_user_ptr p) = Some B" "own j (from_user_ptr p) = Held"
      by (auto simp: restrict_map_def holding_def split: if_splits)
    note S = small_block_area [OF owns 1(1) B(1)]
    have "A \<subseteq> B" using S(1) 1(3) by simp
    then show thesis using small [OF 1(1) B 1(3)] S(3) by blast
  next
    case 2
    then have "A \<subseteq> granted (la_grants lv)" by (rule granted_part [of "la_grants lv" p])
    with il_foot(3) [OF ok] show thesis by (intro large [OF 2]) blast
  qed
qed

lemma il_apart:
  assumes ok: "il_ok os ar w tasks U Fs Us own lv" and p: "U p = Some A" and q: "U q = Some B" and ne: "p \<noteq> q"
  shows "A \<inter> B = {}"
proof -
  have owns: "sm_owns os (ar_small ar) w Fs Us" and l: "la_inv os (ar_large ar) lv w"
    and dj: "fam Fs \<inter> pool_area (la_pool (ar_large ar) lv) = {}" using ok by (simp_all add: il_ok_def)
  show ?thesis
  proof (cases rule: il_grants_cases [OF ok p])
    case (1 i C)
    note p1 = 1
    show ?thesis
    proof (cases rule: il_grants_cases [OF ok q])
      case (1 j D)
      have "(i, from_user_ptr p) \<noteq> (j, from_user_ptr q)" using ne by (metis prod.inject to_from_user_ptr)
      from sm_blocks_apart [OF owns p1(1) 1(1) p1(2) 1(2) this] p1(5) 1(5) show ?thesis by blast
    next
      case 2
      then show ?thesis using p1(5,6) dj by blast
    qed
  next
    case 2
    note p2 = 2
    show ?thesis
    proof (cases rule: il_grants_cases [OF ok q])
      case (1 j D)
      then show ?thesis using p2(2) dj by blast
    next
      case 2
      have "la_owns os (ar_large ar) w (pool_area (la_pool (ar_large ar) lv)) (la_grants lv)"
        using sm_owns_os [OF owns] l by (auto simp: la_owns_def)
      from laa.owns_apart [OF this p2(1) 2(1) ne] show ?thesis .
    qed
  qed
qed

lemma shared_apart: "shared_ok os ar w calls U F \<Longrightarrow> grants_apart U"
  using il_apart unfolding grants_apart_def by (elim shared_okE) blast

subsection \<open>The beginning of a call\<close>

lemma shared_retask:
  assumes il: "il_ok os ar w (map small_part calls) U Fs Us own lv"
    and hd: "hands_ok os (ar_node_id ar) w (ar_foot ar Fs lv) (map large_part calls) hs" and t: "t < length calls"
    and mine: "task_ok (w_mem w) (ar_node_id ar) (small_part call) (holding own Us (Inside t))"
    and pend: "pending (small_part call) = pending (small_part (calls ! t))"
    and large: "large_task_ok os (ar_node_id ar) (w_mem w) (large_part call) (hs t)"
  shows "shared_ok os ar w (calls[t := call]) U (ar_foot ar Fs lv \<union> hands hs)"
proof (rule shared_okI)
  show "il_ok os ar w (map small_part (calls[t := call])) U Fs Us own lv"
    using il_retask [OF il _ mine] t pend by (simp add: map_update)
  show "hands_ok os (ar_node_id ar) w (ar_foot ar Fs lv) (map large_part (calls[t := call])) hs"
    using hands_retask [OF hd _ large] t by (simp add: map_update)
qed

lemma il_calls_task:
  assumes "il_ok os ar w (map small_part calls) U Fs Us own lv" and "t < length calls"
  shows "task_ok (w_mem w) (ar_node_id ar) (small_part (calls ! t)) (holding own Us (Inside t))"
  using il_task [OF assms(1), of t] assms(2) by simp

lemma hands_calls_task:
  assumes "hands_ok os node w P (map large_part calls) hs" and "t < length calls"
  shows "large_task_ok os node (w_mem w) (large_part (calls ! t)) (hs t)"
  using hands_okD(3) [OF assms(1), of t] assms(2) by simp

lemma shared_request:
  assumes sh: "shared_ok os ar w calls U F" and t: "t < length calls" and idle: "calls ! t = On_small At_idle"
    and legal: "ar_legal os (sz, alignment)"
  shows "shared_ok os ar w (calls[t := begin_allocate os sz alignment]) U F"
  using sh
proof (rule shared_okE)
  fix Fs Us own lv hs
  assume il: "il_ok os ar w (map small_part calls) U Fs Us own lv"
    and hd: "hands_ok os (ar_node_id ar) w (ar_foot ar Fs lv) (map large_part calls) hs"
    and F: "F = ar_foot ar Fs lv \<union> hands hs"
  have os: "os_ok os" using il by (auto simp: il_ok_def intro: sm_owns_os)
  have none: "nothing (holding own Us (Inside t))" "hs t = None"
    using il_calls_task [OF il t] hands_calls_task [OF hd t] by (simp_all add: idle)
  show ?thesis
    unfolding F
  proof (rule shared_retask [OF il hd t])
    show "task_ok (w_mem w) (ar_node_id ar) (small_part (begin_allocate os sz alignment)) (holding own Us (Inside t))"
      and "pending (small_part (begin_allocate os sz alignment)) = pending (small_part (calls ! t))"
    proof -
      let ?call = "begin_allocate os sz alignment"
      have "small_part ?call = At_idle \<or> (\<exists>ci. small_part ?call = At_load ci \<and> unat ci < 40)"
      proof (cases "is_small (at_least_one sz) alignment")
        case True
        with small_class [OF True] show ?thesis
          unfolding begin_allocate_def small_request_def is_small_def at_least_one_def [symmetric] Let_def by auto
      next
        case False
        then show ?thesis
          unfolding begin_allocate_def is_small_def at_least_one_def [symmetric] Let_def by auto
      qed
      then show "task_ok (w_mem w) (ar_node_id ar) (small_part ?call) (holding own Us (Inside t))"
        "pending (small_part ?call) = pending (small_part (calls ! t))" using none(1) idle by auto
    qed
    show "large_task_ok os (ar_node_id ar) (w_mem w) (large_part (begin_allocate os sz alignment)) (hs t)"
      using la_begin_allocate_ok [OF os, of "at_least_one sz" alignment] legal none(2)
      unfolding begin_allocate_def at_least_one_def [symmetric] Let_def by (simp add: ar_legal_def)
  qed
qed

lemma map_update_same: "t < length xs \<Longrightarrow> f y = f (xs ! t) \<Longrightarrow> map f (xs[t := y]) = map f xs"
  by (simp add: map_update list_update_same_conv)

text \<open>A block of the small allocator that is returned is in the hands of the thread.\<close>

lemma il_return_small:
  assumes ok: "il_ok os ar w tasks U Fs Us own lv" and t: "t < length tasks" and idle: "tasks ! t = At_idle"
    and p: "U p \<noteq> None" and small: "bh_size_class (w_mem w) (from_user_ptr p) \<noteq> 0"
  shows "\<exists>own'. il_ok os ar w (tasks[t := small_return foreign (from_user_ptr p) ar]) (U(p := None)) Fs Us own' lv"
proof -
  let ?b = "from_user_ptr p" and ?m = "w_mem w" and ?node = "ar_node_id ar"
  let ?task = "small_return foreign ?b ar"
  obtain i where i: "i < 40" and b: "?b \<in> dom (Us ! i)" and h: "own i ?b = Held"
    using il_held [OF ok p small] by blast
  have owns: "sm_owns os (ar_small ar) w Fs Us" using ok by (simp add: il_ok_def)
  have len: "length Us = 40" using owns by (simp add: sm_owns_def)
  have hd: "header_ok ?node ?m i ?b"
    using ok i b h unfolding il_ok_def labels_ok_def holding_def by blast
  have none: "nothing (holding own Us (Inside t))" using il_task [OF ok t] idle by simp
  let ?own = "own(i := (own i)(?b := Inside t))"
  have "only (holding ?own Us (Inside t)) i {?b}"
    unfolding only_def
  proof (intro allI impI)
    fix j :: nat assume j: "j < 40"
    have "own j c \<noteq> Inside t" if "c \<in> dom (Us ! j)" for c using none j that by (simp add: nothing_holding)
    then show "holding ?own Us (Inside t) j = (if j = i then {?b} else {})"
      using b by (cases "j = i") (auto simp: holding_def)
  qed
  then have mine: "task_ok ?m ?node ?task (holding ?own Us (Inside t))"
    using i hd by (auto simp: small_return_def)
  have pend: "pending ?task = pending (tasks ! t)" by (simp add: small_return_def idle)
  have g: "ar_grants (user_blocks own Us) lv U" using ok by (simp add: il_ok_def)
  have only1: "\<forall>j<40. ?b \<in> dom (user_blocks own Us ! j) \<longrightarrow> j = i"
    using small_block_class [OF owns _ i _ b] by auto
  have nl: "la_grants lv (to_user_ptr ?b) = None" by (rule il_not_both [OF ok i b])
  have "ar_grants (user_blocks ?own Us) lv (U(to_user_ptr ?b := None))"
    by (rule ar_grants_give_small [OF g user_blocks_give [OF i len] _ i only1 nl]) simp
  then have g': "ar_grants (user_blocks ?own Us) lv (U(p := None))" by simp
  have "own i ?b = Held \<and> Inside t = Inside t \<or> own i ?b = Inside t \<and> Inside t = Held" using h by simp
  from il_change_hands [OF ok t i b refl this hd mine pend g'] show ?thesis by blast
qed

text \<open>One of the large allocator leaves its span in the hands of the thread.\<close>

lemma il_held_large:
  assumes ok: "il_ok os ar w tasks U Fs Us own lv" and p: "U p \<noteq> None"
    and hd: "bh_size_class (w_mem w) (from_user_ptr p) = 0"
  shows "\<exists>raw span sz. (p, raw, span, sz) \<in> set lv" and "\<forall>j<40. from_user_ptr p \<notin> dom (user_blocks own Us ! j)"
proof -
  obtain A where A: "U p = Some A" using p by blast
  have lab: "labels_ok (ar_node_id ar) (w_mem w) own Us" and l: "la_inv os (ar_large ar) lv w"
    using ok by (simp_all add: il_ok_def)
  show ns: "\<forall>j<40. from_user_ptr p \<notin> dom (user_blocks own Us ! j)"
  proof (intro allI impI notI)
    fix j :: nat assume j: "j < 40" and "from_user_ptr p \<in> dom (user_blocks own Us ! j)"
    then have "from_user_ptr p \<in> holding own Us Held j" by (auto simp: restrict_map_def split: if_splits)
    then have "header_ok (ar_node_id ar) (w_mem w) j (from_user_ptr p)" using lab j by (simp add: labels_ok_def)
    then show False using hd ucast_class_size [OF j] kClassSizes_bounds(1) [OF j] by (auto simp: header_ok_def)
  qed
  have "ar_grants (user_blocks own Us) lv U" using ok by (simp add: il_ok_def)
  then have "la_grants lv p = Some A" using A ns unfolding ar_grants_def by blast
  moreover have "distinct (map fst lv)" using l by (simp add: la_inv_def)
  ultimately show "\<exists>raw span sz. (p, raw, span, sz) \<in> set lv" using la_grants_iff [of lv p A] by blast
qed

lemma shared_return:
  assumes sh: "shared_ok os ar w calls U F" and t: "t < length calls" and idle: "calls ! t = On_small At_idle"
    and p: "U p \<noteq> None"
  shows "shared_ok os ar w (calls[t := begin_deallocate foreign p ar (w_mem w)]) (U(p := None)) F"
  using sh
proof (rule shared_okE)
  fix Fs Us own lv hs
  assume il: "il_ok os ar w (map small_part calls) U Fs Us own lv"
    and hd: "hands_ok os (ar_node_id ar) w (ar_foot ar Fs lv) (map large_part calls) hs"
    and F: "F = ar_foot ar Fs lv \<union> hands hs"
  let ?call = "begin_deallocate foreign p ar (w_mem w)"
  have t': "t < length (map small_part calls)" "map small_part calls ! t = At_idle" using t idle by simp_all
  show ?thesis
  proof (cases "bh_size_class (w_mem w) (from_user_ptr p) = 0")
    case False
    then have call: "?call = On_small (small_return foreign (from_user_ptr p) ar)" by (simp add: begin_deallocate_def)
    obtain own' where il': "il_ok os ar w (map small_part (calls[t := ?call])) (U(p := None)) Fs Us own' lv"
      using il_return_small [OF il t' p False, of foreign] by (auto simp: call map_update)
    have "map large_part (calls[t := ?call]) = map large_part calls"
      using t idle by (intro map_update_same) (simp_all add: call)
    then show ?thesis unfolding F using il' hd by (intro shared_okI) simp_all
  next
    case True
    have l: "la_inv os (ar_large ar) lv w" and nd: "la_node_id (ar_large ar) = ar_node_id ar"
      and dj: "fam Fs \<inter> pool_area (la_pool (ar_large ar) lv) = {}" and g: "ar_grants (user_blocks own Us) lv U"
      using il by (simp_all add: il_ok_def)
    obtain raw span sz where b: "(p, raw, span, sz) \<in> set lv" using il_held_large(1) [OF il p True] by blast
    let ?lv = "remove1 (p, raw, span, sz) lv"
    note G = la_give [OF l b, unfolded nd]
    have call: "?call = On_large (La_release raw span)" using True G(5) by (simp add: begin_deallocate_def)
    have dist: "distinct (map fst lv)" using l by (simp add: la_inv_def)
    have "la_grants ?lv = (la_grants lv)(p := None)" using la_grants_remove1 [OF dist b] by simp
    from ar_grants_large [OF g this refl il_held_large(2) [OF il p True]]
    have g': "ar_grants (user_blocks own Us) ?lv (U(p := None))" .
    have pool: "frame_step (pool_area (la_pool (ar_large ar) lv)) w (pool_area (la_pool (ar_large ar) lv)) w"
      using l by (intro frame_step_refl) (simp add: la_inv_def)
    have "il_ok os (ar\<lparr>ar_large := ar_large ar\<rparr>) w (map small_part calls) (U(p := None)) Fs Us own ?lv"
      using G(4) by (intro il_large [OF il pool dj G(1) refl _ g']) blast
    moreover have "map small_part (calls[t := ?call]) = map small_part calls"
      using t idle by (intro map_update_same) (simp_all add: call)
    ultimately have il': "il_ok os ar w (map small_part (calls[t := ?call])) (U(p := None)) Fs Us own ?lv" by simp
    have none: "hs t = None" using hands_calls_task [OF hd t] by (simp add: idle)
    have foot: "ar_foot ar Fs lv = ar_foot ar Fs ?lv \<union> span_area (raw, span)"
      using G(4) by (simp add: ar_foot_def Un_assoc)
    have fs: "frame_step (ar_foot ar Fs lv \<union> harea (hs t)) w (ar_foot ar Fs ?lv \<union> harea (Some (raw, span))) w"
      using frame_step_refl [OF il_foot(1) [OF il]] by (simp add: none foot)
    have "harea (Some (raw, span)) \<inter> ar_foot ar Fs ?lv = {}" using G(3,4) dj by (auto simp: ar_foot_def)
    from hands_step(1) [OF hd _ il_foot(1) [OF il] fs this _ G(2), of "La_release raw span"] t
    have hd': "hands_ok os (ar_node_id ar) w (ar_foot ar Fs ?lv) (map large_part (calls[t := ?call])) (hs(t := Some (raw, span)))"
      by (simp add: call map_update)
    have "hands (hs(t := Some (raw, span))) = hands hs \<union> span_area (raw, span)"
      unfolding hands_upd hands_split [of hs t] none by (simp add: Un_commute)
    then have "F = ar_foot ar Fs ?lv \<union> hands (hs(t := Some (raw, span)))" unfolding F foot by auto
    with shared_okI [OF il' hd'] show ?thesis by simp
  qed
qed

subsection \<open>The end of a call\<close>

text \<open>The block that a call returns, with the bytes that its user may write.\<close>

fun taken :: "activity \<Rightarrow> (ptr \<times> nat set) option" where
  "taken (On_small (At_allocated class_index (Inr p))) = Some (p, bytes_of p (unat (kClassSizes ! unat class_index)))"
| "taken (On_large (La_allocated sz (Inr p))) = Some (p, bytes_of p (unat sz))"
| "taken call = None"

lemma taken_cases:
  assumes "taken call = Some (p, A)"
  obtains (small) ci where "call = On_small (At_allocated ci (Inr p))" and "A = bytes_of p (unat (kClassSizes ! unat ci))"
  | (large) sz where "call = On_large (La_allocated sz (Inr p))" and "A = bytes_of p (unat sz)"
  using assms by (cases call rule: taken.cases) auto

lemma il_take_small:
  assumes ok: "il_ok os ar w tasks U Fs Us own lv" and t: "t < length tasks" and task: "tasks ! t = At_allocated ci (Inr p)"
    and A: "A = bytes_of p (unat (kClassSizes ! unat ci))"
  shows "\<exists>own'. il_ok os ar w (tasks[t := At_idle]) (U(p \<mapsto> A)) Fs Us own' lv" and "U p = None"
proof -
  let ?b = "from_user_ptr p" and ?m = "w_mem w" and ?node = "ar_node_id ar"
  note T = il_task [OF ok t]
  have i: "unat ci < 40" and o: "only (holding own Us (Inside t)) (unat ci) {?b}"
    and hd: "header_ok ?node ?m (unat ci) ?b" using T by (simp_all add: task)
  have "?b \<in> holding own Us (Inside t) (unat ci)" using o i by (simp add: only_def)
  then have b: "?b \<in> dom (Us ! unat ci)" "own (unat ci) ?b = Inside t" using holdingD by blast+
  then obtain B where B: "(Us ! unat ci) ?b = Some B" by blast
  let ?own = "own(unat ci := (own (unat ci))(?b := Held))"
  have "nothing (holding ?own Us (Inside t))"
    unfolding nothing_def
  proof (intro allI impI)
    fix j :: nat assume j: "j < 40"
    have "holding own Us (Inside t) j = (if j = unat ci then {?b} else {})" using o j by (simp add: only_def)
    then show "holding ?own Us (Inside t) j = {}"
      by (cases "j = unat ci") (auto simp: holding_def)
  qed
  then have mine: "task_ok ?m ?node At_idle (holding ?own Us (Inside t))" by simp
  have g: "ar_grants (user_blocks own Us) lv U" using ok by (simp add: il_ok_def)
  have nl: "la_grants lv (to_user_ptr ?b) = None" by (rule il_not_both [OF ok i b(1)])
  have "ar_grants (user_blocks ?own Us) lv (U(to_user_ptr ?b \<mapsto> A))"
    by (rule ar_grants_take_small [OF g user_blocks_take [OF i B] _ i _ nl]) (simp_all add: A)
  then have g': "ar_grants (user_blocks ?own Us) lv (U(p \<mapsto> A))" by simp
  have "own (unat ci) ?b = Held \<and> Held = Inside t \<or> own (unat ci) ?b = Inside t \<and> Held = Held" using b by simp
  from il_change_hands [OF ok t i b(1) refl this hd mine _ g']
  show "\<exists>own'. il_ok os ar w (tasks[t := At_idle]) (U(p \<mapsto> A)) Fs Us own' lv" by (auto simp: task)
  show "U p = None"
  proof (rule ccontr)
    assume "U p \<noteq> None"
    moreover have "unat (kClassSizes ! unat ci) \<noteq> 0" using kClassSizes_bounds(1) [OF i] by auto
    then have "bh_size_class ?m ?b \<noteq> 0"
      using hd ucast_class_size [OF i] by (auto simp: header_ok_def)
    ultimately obtain j where j: "j < 40" "?b \<in> dom (Us ! j)" "own j ?b = Held" using il_held [OF ok] by blast
    have "sm_owns os (ar_small ar) w Fs Us" using ok by (simp add: il_ok_def)
    from small_block_class [OF this j(1) i j(2) b(1)] j(3) b(2) show False by simp
  qed
qed

lemma shared_take:
  assumes sh: "shared_ok os ar w calls U F" and t: "t < length calls" and res: "taken (calls ! t) = Some (p, A)"
  shows "shared_ok os ar w (calls[t := On_small At_idle]) (U(p \<mapsto> A)) F \<and> U p = None"
  using sh
proof (rule shared_okE)
  fix Fs Us own lv hs
  assume il: "il_ok os ar w (map small_part calls) U Fs Us own lv"
    and hd: "hands_ok os (ar_node_id ar) w (ar_foot ar Fs lv) (map large_part calls) hs"
    and F: "F = ar_foot ar Fs lv \<union> hands hs"
  show ?thesis
    using res
  proof (cases rule: taken_cases)
    case (small ci)
    have t': "t < length (map small_part calls)" "map small_part calls ! t = At_allocated ci (Inr p)"
      using t small by simp_all
    note T = il_take_small [OF il t' small(2)]
    obtain own' where il': "il_ok os ar w (map small_part (calls[t := On_small At_idle])) (U(p \<mapsto> A)) Fs Us own' lv"
      using T(1) by (auto simp: map_update)
    have "map large_part (calls[t := On_small At_idle]) = map large_part calls"
      using t small by (intro map_update_same) simp_all
    then have "shared_ok os ar w (calls[t := On_small At_idle]) (U(p \<mapsto> A)) F"
      unfolding F using il' hd by (intro shared_okI) simp_all
    then show ?thesis using T(2) by simp
  next
    case (large sz)
    have l: "la_inv os (ar_large ar) lv w" and nd: "la_node_id (ar_large ar) = ar_node_id ar"
      and dj: "fam Fs \<inter> pool_area (la_pool (ar_large ar) lv) = {}" and g: "ar_grants (user_blocks own Us) lv U"
      and owns: "sm_owns os (ar_small ar) w Fs Us" using il by (simp_all add: il_ok_def)
    obtain raw span where h: "hs t = Some (raw, span)" and b: "block_ok (ar_node_id ar) (w_mem w) (p, raw, span, sz)"
      using hands_calls_task [OF hd t] large by auto
    have hok: "hand_ok os (ar_node_id ar) w (Some (raw, span))" using hands_okD(4) [OF hd, of t] h by simp
    have apart: "span_area (raw, span) \<inter> ar_foot ar Fs lv = {}" using hands_okD(5) [OF hd, of t] h by simp
    then have djp: "span_area (raw, span) \<inter> pool_area (la_pool (ar_large ar) lv) = {}" by (auto simp: ar_foot_def)
    note T = la_take [OF l hok [folded nd] djp b [folded nd]]
    let ?lv = "(p, raw, span, sz) # lv"
    have in_span: "unat (from_user_ptr p) \<in> span_area (raw, span)"
    proof -
      have "32 \<le> unat p" "{unat p - 32 ..< unat p + unat sz} \<subseteq> span_area (raw, span)"
        using b block_area [OF b refl] by (simp_all add: block_ok_def block_span_def)
      moreover have "unat (from_user_ptr p) = unat p - 32" using \<open>32 \<le> unat p\<close> by (simp add: user_ptr_defs unat_sub_u64)
      ultimately show ?thesis by auto
    qed
    have ns: "\<forall>j<40. from_user_ptr p \<notin> dom (user_blocks own Us ! j)"
    proof (intro allI impI notI)
      fix j :: nat assume j: "j < 40" and "from_user_ptr p \<in> dom (user_blocks own Us ! j)"
      then obtain B where B: "(Us ! j) (from_user_ptr p) = Some B" by (auto simp: restrict_map_def split: if_splits)
      have "unat (from_user_ptr p) \<in> fam Fs" using small_block_area(2,3) [OF owns j B] by blast
      then show False using in_span apart by (auto simp: ar_foot_def)
    qed
    have new: "la_grants lv p = None" using T(2) by (simp add: la_grants_None)
    have U: "U p = None"
    proof (rule ccontr)
      assume "U p \<noteq> None"
      then obtain B where "U p = Some B" by blast
      with g have "(\<exists>j<40. from_user_ptr p \<in> dom (user_blocks own Us ! j)) \<or> la_grants lv p = Some B"
        unfolding ar_grants_def by blast
      then show False using ns new by (metis option.distinct(1))
    qed
    have g': "ar_grants (user_blocks own Us) ?lv (U(p \<mapsto> A))"
      by (rule ar_grants_large [OF g la_grants_Cons _ ns]) (simp add: large(2))
    have fam: "fam Fs \<inter> (pool_area (la_pool (ar_large ar) lv) \<union> span_area (raw, span)) = {}"
      using dj apart by (auto simp: ar_foot_def)
    have sub: "span_area (raw, span) \<subseteq> mapped w" using hok by (simp add: hand_ok_def)
    have pool: "frame_step (pool_area (la_pool (ar_large ar) lv) \<union> span_area (raw, span)) w
        (pool_area (la_pool (ar_large ar) lv) \<union> span_area (raw, span)) w"
      using l sub by (intro frame_step_refl) (simp add: la_inv_def)
    have "il_ok os (ar\<lparr>ar_large := ar_large ar\<rparr>) w (map small_part calls) (U(p \<mapsto> A)) Fs Us own ?lv"
      using T(3) by (intro il_large [OF il pool fam T(1) refl _ g']) simp
    moreover have "map small_part (calls[t := On_small At_idle]) = map small_part calls"
      using t large by (intro map_update_same) simp_all
    ultimately have il': "il_ok os ar w (map small_part (calls[t := On_small At_idle])) (U(p \<mapsto> A)) Fs Us own ?lv" by simp
    have foot: "ar_foot ar Fs ?lv = ar_foot ar Fs lv \<union> span_area (raw, span)"
      unfolding ar_foot_def T(3) by (rule Un_assoc [symmetric])
    have "ar_foot ar Fs lv \<union> harea (hs t) \<subseteq> mapped w" using il_foot(1) [OF il] sub by (simp add: h)
    then have fs: "frame_step (ar_foot ar Fs lv \<union> harea (hs t)) w (ar_foot ar Fs ?lv \<union> harea None) w"
      using frame_step_refl by (simp add: h foot)
    from hands_step(1) [OF hd _ il_foot(1) [OF il] fs, of La_released] t
    have hd': "hands_ok os (ar_node_id ar) w (ar_foot ar Fs ?lv) (map large_part (calls[t := On_small At_idle])) (hs(t := None))"
      by (simp add: map_update hand_ok_def)
    have "F = ar_foot ar Fs ?lv \<union> hands (hs(t := None))"
      unfolding F foot hands_upd hands_split [of hs t] h by auto
    with shared_okI [OF il' hd'] U show ?thesis by simp
  qed
qed

lemma shared_done:
  assumes sh: "shared_ok os ar w calls U F" and t: "t < length calls"
    and res: "allocated (calls ! t) = Some (Inl e) \<or> freed (calls ! t) = Some r"
  shows "shared_ok os ar w (calls[t := On_small At_idle]) U F"
  using sh
proof (rule shared_okE)
  fix Fs Us own lv hs
  assume il: "il_ok os ar w (map small_part calls) U Fs Us own lv"
    and hd: "hands_ok os (ar_node_id ar) w (ar_foot ar Fs lv) (map large_part calls) hs"
    and F: "F = ar_foot ar Fs lv \<union> hands hs"
  have "(\<exists>ci. calls ! t = On_small (At_allocated ci (Inl e))) \<or> (\<exists>sz. calls ! t = On_large (La_allocated sz (Inl e))) \<or>
      calls ! t = On_small (At_freed r) \<or> calls ! t = On_large La_released"
    using res by (cases "calls ! t" rule: allocated.cases) (auto elim!: freed.elims)
  then show ?thesis
    unfolding F using il_calls_task [OF il t] hands_calls_task [OF hd t]
    by (intro shared_retask [OF il hd t]) auto
qed

subsection \<open>Writes of the users\<close>

lemma shared_fill:
  assumes sh: "shared_ok os ar w calls U F" and p: "U p = Some A" and ag: "agree_on (- A) (w_mem w) m'"
  shows "shared_ok os ar (w\<lparr>w_mem := m'\<rparr>) calls U F" and "frame_step F w F (w\<lparr>w_mem := m'\<rparr>)"
    and "keeps_headers U (w_mem w) m'"
proof -
  obtain Fs Us own lv hs where il: "il_ok os ar w (map small_part calls) U Fs Us own lv"
    and hd: "hands_ok os (ar_node_id ar) w (ar_foot ar Fs lv) (map large_part calls) hs"
    and F: "F = ar_foot ar Fs lv \<union> hands hs" using sh by (rule shared_okE)
  have "il_ok os ar (w\<lparr>w_mem := m'\<rparr>) (map small_part calls) U Fs Us own lv \<and>
    frame_step (ar_foot ar Fs lv) w (ar_foot ar Fs lv) (w\<lparr>w_mem := m'\<rparr>)"
  proof (cases rule: il_grants_cases [OF il p])
    case (1 i B)
    have "agree_on (- (bytes_of (to_user_ptr (from_user_ptr p)) (unat (kClassSizes ! i)) \<union>
        {unat (from_user_ptr p) + 8 ..< unat (from_user_ptr p) + 16})) (w_mem w) m'"
      using 1(4) by (intro agree_on_mono [OF ag]) auto
    from il_fill_small [OF il 1(1) _ 1(3) this] 1(2) show ?thesis by auto
  next
    case 2
    from il_fill_large [OF il 2(1) ag] show ?thesis by simp
  qed
  then have il': "il_ok os ar (w\<lparr>w_mem := m'\<rparr>) (map small_part calls) U Fs Us own lv"
    and fs: "frame_step (ar_foot ar Fs lv) w (ar_foot ar Fs lv) (w\<lparr>w_mem := m'\<rparr>)" by simp_all
  note H = hands_frame [OF hd fs]
  show "shared_ok os ar (w\<lparr>w_mem := m'\<rparr>) calls U F" unfolding F by (rule shared_okI [OF il' H(1)])
  show "frame_step F w F (w\<lparr>w_mem := m'\<rparr>)" unfolding F by (rule H(2))
  show "keeps_headers U (w_mem w) m'" using il_same_headers [OF il il' refl] by simp
qed

subsection \<open>A section of a call\<close>

text \<open>The large allocator runs one section, in its own bytes and in the span of the thread.\<close>

lemma shared_large_section:
  assumes il: "il_ok os ar w (map small_part calls) U Fs Us own lv"
    and hd: "hands_ok os (ar_node_id ar) w (ar_foot ar Fs lv) (map large_part calls) hs"
    and t: "t < length calls" and call: "calls ! t = On_large task"
    and adv: "la_advance os task (ar_large ar) w = (task', la, w')"
  shows "\<exists>F'. shared_ok os (ar\<lparr>ar_large := la\<rparr>) w' (calls[t := On_large task']) U F' \<and>
    frame_step (ar_foot ar Fs lv \<union> hands hs) w F' w' \<and> untouched U (w_mem w) (w_mem w')"
proof -
  let ?P = "pool_area (la_pool (ar_large ar) lv)" and ?ar = "ar\<lparr>ar_large := la\<rparr>"
  have l: "la_inv os (ar_large ar) lv w" and nd: "la_node_id (ar_large ar) = ar_node_id ar"
    and dj: "fam Fs \<inter> ?P = {}" and g: "ar_grants (user_blocks own Us) lv U"
    and owns: "sm_owns os (ar_small ar) w Fs Us" using il by (simp_all add: il_ok_def)
  note os = sm_owns_os [OF owns]
  have task: "large_task_ok os (la_node_id (ar_large ar)) (w_mem w) task (hs t)"
    using hands_calls_task [OF hd t] by (simp add: call nd)
  have hok: "hand_ok os (la_node_id (ar_large ar)) w (hs t)" using hands_okD(4) [OF hd] by (simp add: nd)
  have apart: "harea (hs t) \<inter> ar_foot ar Fs lv = {}" by (rule hands_okD(5) [OF hd])
  then have "harea (hs t) \<inter> ?P = {}" by (auto simp: ar_foot_def)
  from la_advance_section [OF os l task hok this adv]
  obtain h' where S: "la_inv os la lv w'" "la_node_id la = la_node_id (ar_large ar)"
    "large_task_ok os (ar_node_id ar) (w_mem w') task' h'" "hand_ok os (ar_node_id ar) w' h'"
    "harea h' \<inter> pool_area (la_pool la lv) = {}"
    "frame_step (?P \<union> harea (hs t)) w (pool_area (la_pool la lv) \<union> harea h') w'" "agree_on ?P (w_mem w) (w_mem w')"
    unfolding la_section_def nd by blast
  have fam: "fam Fs \<inter> (?P \<union> harea (hs t)) = {}" using dj apart by (auto simp: ar_foot_def)
  have "il_ok os ?ar w' (map small_part calls) U Fs Us own lv"
    by (rule il_large [OF il S(6) fam S(1,2) _ g]) simp
  moreover have "map small_part (calls[t := On_large task']) = map small_part calls"
    using t call by (intro map_update_same) simp_all
  ultimately have il': "il_ok os ?ar w' (map small_part (calls[t := On_large task'])) U Fs Us own lv" by simp
  note K = frame_step_mem [OF fam sm_owns_mapped [OF owns] S(6)]
  have foot: "ar_foot ?ar Fs lv = fam Fs \<union> pool_area (la_pool la lv)" by (simp add: ar_foot_def)
  have "frame_step (?P \<union> harea (hs t) \<union> fam Fs) w (pool_area (la_pool la lv) \<union> harea h' \<union> fam Fs) w'"
    by (rule frame_step_extend [OF S(6) sm_owns_mapped [OF owns] fam])
  moreover have "?P \<union> harea (hs t) \<union> fam Fs = ar_foot ar Fs lv \<union> harea (hs t)" by (auto simp: ar_foot_def)
  moreover have "pool_area (la_pool la lv) \<union> harea h' \<union> fam Fs = ar_foot ?ar Fs lv \<union> harea h'" by (auto simp: foot)
  ultimately have fs: "frame_step (ar_foot ar Fs lv \<union> harea (hs t)) w (ar_foot ?ar Fs lv \<union> harea h') w'" by simp
  have "harea h' \<inter> ar_foot ?ar Fs lv = {}" using S(5) K by (auto simp: foot)
  note H = hands_step [OF hd _ il_foot(1) [OF il] fs this S(3,4)]
  have "hands_ok os (ar_node_id ?ar) w' (ar_foot ?ar Fs lv) (map large_part (calls[t := On_large task'])) (hs(t := h'))"
    using H(1) t by (simp add: map_update)
  note sh' = shared_okI [OF il' this]
  have "agree_on (granted U) (w_mem w) (w_mem w')"
    using K S(7) il_foot(2) [OF il] by (auto simp: agree_on_def ar_foot_def)
  moreover have "keeps_headers U (w_mem w) (w_mem w')" by (rule il_same_headers [OF il il']) simp
  ultimately show ?thesis using sh' H(2) t by (auto simp: untouched_def)
qed

theorem shared_advance:
  assumes sh: "shared_ok os ar w calls U F" and t: "t < length calls"
  shows "\<exists>call ar' w' F'. advance_activity os (calls ! t) ar w = Some (call, ar', w') \<and>
    shared_ok os ar' w' (calls[t := call]) U F' \<and> frame_step F w F' w' \<and> untouched U (w_mem w) (w_mem w')"
proof -
  obtain Fs Us own lv hs where il: "il_ok os ar w (map small_part calls) U Fs Us own lv"
    and hd: "hands_ok os (ar_node_id ar) w (ar_foot ar Fs lv) (map large_part calls) hs"
    and F: "F = ar_foot ar Fs lv \<union> hands hs" using sh by (rule shared_okE)
  show ?thesis
  proof (cases "calls ! t")
    case (On_large task)
    obtain task' la w' where adv: "la_advance os task (ar_large ar) w = (task', la, w')" by (metis prod_cases3)
    from shared_large_section [OF il hd t On_large adv] show ?thesis by (simp add: On_large adv F)
  next
    case (On_small task)
    have t': "t < length (map small_part calls)" using t by simp
    obtain task' ar' w' where A: "advance os task ar w = Some (task', ar', w')"
      and G: "il_goes os ar w U Fs lv ar' w' ((map small_part calls)[t := task'])"
      using il_advance [OF il t'] t On_small by auto
    obtain Fs' Us' own' where il': "il_ok os ar' w' (map small_part (calls[t := On_small task'])) U Fs' Us' own' lv"
      and fs: "frame_step (ar_foot ar Fs lv) w (ar_foot ar' Fs' lv) w'"
      and ag: "untouched U (w_mem w) (w_mem w')"
      using G unfolding il_goes_def by (auto simp: map_update)
    have node: "ar_node_id ar' = ar_node_id ar" by (rule advance_node [OF A])
    note H = hands_frame [OF hd fs]
    have "map large_part (calls[t := On_small task']) = map large_part calls"
      using t On_small by (intro map_update_same) simp_all
    then have "shared_ok os ar' w' (calls[t := On_small task']) U (ar_foot ar' Fs' lv \<union> hands hs)"
      using H(1) by (intro shared_okI [OF il']) (simp add: node)
    then show ?thesis using H(2) ag A by (auto simp: On_small F)
  qed
qed

subsection \<open>Steps elsewhere, and the headers of the blocks in use\<close>

lemma shared_frame:
  assumes sh: "shared_ok os ar w calls U F" and fs: "frame_step G w G' w'" and dj: "F \<inter> G = {}"
  shows "shared_ok os ar w' calls U F" and "untouched U (w_mem w) (w_mem w')"
proof -
  have "shared_ok os ar w' calls U F \<and> keeps_headers U (w_mem w) (w_mem w')"
    using sh
  proof (rule shared_okE)
    fix Fs Us own lv hs
    assume il: "il_ok os ar w (map small_part calls) U Fs Us own lv"
      and hd: "hands_ok os (ar_node_id ar) w (ar_foot ar Fs lv) (map large_part calls) hs"
      and F: "F = ar_foot ar Fs lv \<union> hands hs"
    have "fam Fs \<inter> G = {}" "pool_area (la_pool (ar_large ar) lv) \<inter> G = {}" "hands hs \<inter> G = {}"
      using dj by (auto simp: F ar_foot_def)
    moreover have "la_inv os (ar_large ar) lv w" using il by (simp add: il_ok_def)
    ultimately have il': "il_ok os ar w' (map small_part calls) U Fs Us own lv"
      and hd': "hands_ok os (ar_node_id ar) w' (ar_foot ar Fs lv) (map large_part calls) hs"
      using il_frame [OF il fs] la_inv_frame [OF _ fs] hands_outside [OF hd fs] by simp_all
    show ?thesis unfolding F using shared_okI [OF il' hd'] il_same_headers [OF il il' refl] by simp
  qed
  moreover have "agree_on (granted U) (w_mem w) (w_mem w')"
    using frame_step_mem [OF dj shared_mapped [OF sh] fs] shared_granted [OF sh] agree_on_mono by blast
  ultimately show "shared_ok os ar w' calls U F" and "untouched U (w_mem w) (w_mem w')" by (simp_all add: untouched_def)
qed

lemma shared_header:
  assumes sh: "shared_ok os ar w calls U F" and p: "U p \<noteq> None"
  shows "sint (bh_node_id (w_mem w) (from_user_ptr p)) = ar_node_id ar" and "unat (from_user_ptr p) \<in> F" and "p \<noteq> nullptr"
proof -
  obtain Fs Us own lv hs where il: "il_ok os ar w (map small_part calls) U Fs Us own lv"
    and F: "F = ar_foot ar Fs lv \<union> hands hs" using sh by (rule shared_okE)
  have owns: "sm_owns os (ar_small ar) w Fs Us" and l: "la_inv os (ar_large ar) lv w"
    and lab: "labels_ok (ar_node_id ar) (w_mem w) own Us"
    and nd: "la_node_id (ar_large ar) = ar_node_id ar" "- (2 ^ 31) \<le> ar_node_id ar" "ar_node_id ar < 2 ^ 31"
    using il by (simp_all add: il_ok_def)
  have "bh_node_id (w_mem w) (from_user_ptr p) = of_int (ar_node_id ar) \<and> unat (from_user_ptr p) \<in> ar_foot ar Fs lv \<and> 32 \<le> unat p"
  proof (cases "bh_size_class (w_mem w) (from_user_ptr p) = 0")
    case False
    obtain i A where i: "i < 40" "(Us ! i) (from_user_ptr p) = Some A" "own i (from_user_ptr p) = Held"
      using il_held [OF il p False] by blast
    then have "header_ok (ar_node_id ar) (w_mem w) i (from_user_ptr p)"
      using lab by (auto simp: labels_ok_def holding_def)
    with small_block_area(2,3,7) [OF owns i(1,2)] show ?thesis by (auto simp: header_ok_def ar_foot_def)
  next
    case True
    obtain raw span sz where b: "(p, raw, span, sz) \<in> set lv" using il_held_large(1) [OF il p True] by blast
    have bok: "block_ok (la_node_id (ar_large ar)) (w_mem w) (p, raw, span, sz)" by (rule la_inv_block [OF l b])
    then have u: "32 \<le> unat p" by (simp add: block_ok_def)
    have "unat (from_user_ptr p) = unat p - 32" using u by (simp add: user_ptr_defs unat_sub_u64)
    moreover have "unat p - 32 \<in> {unat p - 32 ..< unat p + unat sz}" using u by simp
    ultimately show ?thesis
      using block_area [OF bok refl] la_inv_span_pool [OF l b] u bok nd(1) by (auto simp: ar_foot_def block_ok_def)
  qed
  then show "unat (from_user_ptr p) \<in> F" "p \<noteq> nullptr" "sint (bh_node_id (w_mem w) (from_user_ptr p)) = ar_node_id ar"
    using nd(2,3) by (auto simp: F sint_of_int32)
qed

text \<open>The bytes granted with a small block may be any part of its class.\<close>

lemma shared_small:
  assumes sh: "shared_ok os ar w calls U F" and p: "U p = Some A" and c: "bh_size_class (w_mem w) (from_user_ptr p) \<noteq> 0"
  shows "\<exists>j<40. bh_size_class (w_mem w) (from_user_ptr p) = ucast (kClassSizes ! j) \<and>
    16 dvd unat p \<and> from_user_ptr p \<noteq> nullptr \<and>
    (\<forall>B. B \<subseteq> bytes_of p (unat (kClassSizes ! j)) \<longrightarrow> shared_ok os ar w calls (U(p \<mapsto> B)) F)"
  using sh
proof (rule shared_okE)
  fix Fs Us own lv hs
  assume il: "il_ok os ar w (map small_part calls) U Fs Us own lv"
    and hd: "hands_ok os (ar_node_id ar) w (ar_foot ar Fs lv) (map large_part calls) hs"
    and F: "F = ar_foot ar Fs lv \<union> hands hs"
  let ?b = "from_user_ptr p"
  have owns: "sm_owns os (ar_small ar) w Fs Us" and lab: "labels_ok (ar_node_id ar) (w_mem w) own Us"
    and g: "ar_grants (user_blocks own Us) lv U" using il by (simp_all add: il_ok_def)
  obtain j C where j: "j < 40" "(Us ! j) ?b = Some C" "own j ?b = Held" using il_held [OF il _ c] p by blast
  note S = small_block_area [OF owns j(1,2)]
  have "16 dvd unat ?b" using sc_owns_block [OF sm_owns_class(1) [OF owns j(1)] j(2)] by simp
  then have al: "16 dvd unat p" using S(7) by simp
  have cls: "bh_size_class (w_mem w) ?b = ucast (kClassSizes ! j)"
    using lab j by (auto simp: labels_ok_def holding_def header_ok_def)
  have "?b \<in> dom (Us ! j)" using j(2) by blast
  from il_not_both [OF il j(1) this] have l: "la_grants lv p = None" by simp
  have dom: "?b \<in> dom (user_blocks own Us ! j)" using j by (auto simp: restrict_map_def holding_def)
  have "shared_ok os ar w calls (U(p \<mapsto> B)) F" if B: "B \<subseteq> bytes_of p (unat (kClassSizes ! j))" for B
  proof -
    have "ar_grants (user_blocks own Us) lv (U(p \<mapsto> B))"
      using g l j(1) dom B unfolding ar_grants_def by auto
    then have "il_ok os ar w (map small_part calls) (U(p \<mapsto> B)) Fs Us own lv" using il by (simp add: il_ok_def)
    from shared_okI [OF this hd] show ?thesis by (simp add: F)
  qed
  then show ?thesis using j(1) cls al S(8) by blast
qed

lemma shared_resize:
  assumes sh: "shared_ok os ar w calls U F" and p: "U p \<noteq> None" and c: "bh_size_class (w_mem w) (from_user_ptr p) \<noteq> 0"
    and m': "m' = set_bh_size (from_user_ptr p) sz (w_mem w)"
  shows "shared_ok os ar (w\<lparr>w_mem := m'\<rparr>) calls U F" and "frame_step F w F (w\<lparr>w_mem := m'\<rparr>)"
    and "untouched U (w_mem w) m'"
proof -
  let ?b = "from_user_ptr p"
  obtain Fs Us own lv hs where il: "il_ok os ar w (map small_part calls) U Fs Us own lv"
    and hd: "hands_ok os (ar_node_id ar) w (ar_foot ar Fs lv) (map large_part calls) hs"
    and F: "F = ar_foot ar Fs lv \<union> hands hs" using sh by (rule shared_okE)
  have owns: "sm_owns os (ar_small ar) w Fs Us" using il by (simp add: il_ok_def)
  obtain j C where j: "j < 40" "(Us ! j) ?b = Some C" "own j ?b = Held" using il_held [OF il p c] by blast
  note S = small_block_area [OF owns j(1,2)]
  have field: "{unat ?b + 8 ..< unat ?b + 16} \<subseteq> C" by (rule subset_trans [OF _ S(4)]) auto
  have out: "agree_on (- {unat ?b + 8 ..< unat ?b + 16}) (w_mem w) m'"
    unfolding m' header_field_defs
    by (rule s64.put_agree_outside) (simp add: bh_bytes [OF S(6)])
  have "agree_on (- (bytes_of (to_user_ptr ?b) (unat (kClassSizes ! j)) \<union> {unat ?b + 8 ..< unat ?b + 16})) (w_mem w) m'"
    by (rule agree_on_mono [OF out]) blast
  from il_fill_small [OF il j(1) _ j(3) this] j(2)
  have il': "il_ok os ar (w\<lparr>w_mem := m'\<rparr>) (map small_part calls) U Fs Us own lv"
    and fs: "frame_step (ar_foot ar Fs lv) w (ar_foot ar Fs lv) (w\<lparr>w_mem := m'\<rparr>)" by auto
  note H = hands_frame [OF hd fs]
  show "shared_ok os ar (w\<lparr>w_mem := m'\<rparr>) calls U F" unfolding F by (rule shared_okI [OF il' H(1)])
  show "frame_step F w F (w\<lparr>w_mem := m'\<rparr>)" unfolding F by (rule H(2))
  have "x \<notin> {unat ?b + 8 ..< unat ?b + 16}" if "x \<in> granted U" for x
    using il_granted [OF il that]
  proof
    assume "\<exists>i<40. \<exists>c A. (Us ! i) c = Some A \<and> own i c = Held \<and>
        x \<in> bytes_of (to_user_ptr c) (unat (kClassSizes ! i)) \<and> x \<in> A"
    then obtain i c A where x: "i < 40" "(Us ! i) c = Some A" "x \<in> bytes_of (to_user_ptr c) (unat (kClassSizes ! i))" "x \<in> A" by blast
    show ?thesis
    proof (cases "(i, c) = (j, ?b)")
      case True
      then show ?thesis using x(3) S(7) by (auto simp: bytes_of_def)
    next
      case False
      from sm_blocks_apart [OF owns x(1) j(1) x(2) j(2) this] field x(4) show ?thesis by blast
    qed
  next
    assume "x \<in> granted (la_grants lv)"
    then have "x \<notin> fam Fs" using il_foot(3) [OF il] il by (auto simp: il_ok_def)
    then show ?thesis using S(3) field by blast
  qed
  then have "agree_on (granted U) (w_mem w) m'" by (intro agree_on_mono [OF out]) blast
  then show "untouched U (w_mem w) m'" using il_same_headers [OF il il' refl] by (simp add: untouched_def)
qed

end
