(* ===== verification/Arena_Schedules.thy ===== *)
theory Arena_Schedules
  imports Arena_Calls
begin

section \<open>Schedules of threads on an arena\<close>

text \<open>
  A system is an arena, the world, one call per thread and the blocks that the users hold. An
  event is the beginning or the end of a call on some thread, one section of a thread, or
  a write of a user to a block. A schedule is any list of events, so every interleaving of the
  sections of the threads is one. No schedule gets stuck or makes two users share a byte, and
  whenever no thread is in the middle of an operation the arena is in a state of the contract
  of \<open>Numa_Arena\<close> again.
\<close>

subsection \<open>Schedules\<close>

record system =
  sy_arena :: arena
  sy_world :: world
  sy_calls :: "activity list"
  sy_held :: grants

datatype event =
    Call_allocate nat u64 u64
  | Call_deallocate nat bool ptr
  | Fill_block ptr mem
  | Run_section nat
  | Take_result nat

text \<open>A call on a thread that is busy, and the return or the use of a block that is not held, are
  no events of a client and are skipped.\<close>

definition is_idle :: "system \<Rightarrow> nat \<Rightarrow> bool" where
  "is_idle sy t \<longleftrightarrow> t < length (sy_calls sy) \<and> sy_calls sy ! t = On_small At_idle"

fun occur :: "os \<Rightarrow> event \<Rightarrow> system \<Rightarrow> system option" where
  "occur os (Call_allocate t sz alignment) sy =
     Some (if is_idle sy t then sy\<lparr>sy_calls := (sy_calls sy)[t := begin_allocate os sz alignment]\<rparr> else sy)"
| "occur os (Call_deallocate t foreign p) sy =
     Some (if is_idle sy t \<and> sy_held sy p \<noteq> None
           then sy\<lparr>sy_calls := (sy_calls sy)[t := begin_deallocate foreign p (sy_arena sy) (w_mem (sy_world sy))],
                   sy_held := (sy_held sy)(p := None)\<rparr>
           else sy)"
| "occur os (Fill_block p f) sy =
     Some (case sy_held sy p of
             None \<Rightarrow> sy
           | Some A \<Rightarrow> sy\<lparr>sy_world := (sy_world sy)\<lparr>w_mem :=
               (\<lambda>x. if x \<in> A then f x else w_mem (sy_world sy) x)\<rparr>\<rparr>)"
| "occur os (Run_section t) sy =
     (if t < length (sy_calls sy) then
        case advance_activity os (sy_calls sy ! t) (sy_arena sy) (sy_world sy) of
          None \<Rightarrow> None
        | Some (call, ar, w) \<Rightarrow>
            Some (sy\<lparr>sy_arena := ar, sy_world := w, sy_calls := (sy_calls sy)[t := call]\<rparr>)
      else Some sy)"
| "occur os (Take_result t) sy =
     Some (if t < length (sy_calls sy) then
             case taken (sy_calls sy ! t) of
               Some (p, A) \<Rightarrow> sy\<lparr>sy_calls := (sy_calls sy)[t := On_small At_idle], sy_held := (sy_held sy)(p \<mapsto> A)\<rparr>
             | None \<Rightarrow>
                 (if allocated (sy_calls sy ! t) \<noteq> None \<or> freed (sy_calls sy ! t) \<noteq> None
                  then sy\<lparr>sy_calls := (sy_calls sy)[t := On_small At_idle]\<rparr> else sy)
           else sy)"

fun run_schedule :: "os \<Rightarrow> event list \<Rightarrow> system \<Rightarrow> system option" where
  "run_schedule os [] sy = Some sy"
| "run_schedule os (e # es) sy =
     (case occur os e sy of None \<Rightarrow> None | Some sy' \<Rightarrow> run_schedule os es sy')"

definition idle_threads :: "nat \<Rightarrow> arena \<Rightarrow> world \<Rightarrow> grants \<Rightarrow> system" where
  "idle_threads n ar w U = \<lparr>sy_arena = ar, sy_world = w, sy_calls = replicate n (On_small At_idle), sy_held = U\<rparr>"

definition names_block :: "ptr \<Rightarrow> event \<Rightarrow> bool" where
  "names_block p e \<longleftrightarrow> (case e of Call_deallocate t f q \<Rightarrow> q = p | Fill_block q f \<Rightarrow> q = p | _ \<Rightarrow> False)"

text \<open>The requests of the clients are legal.\<close>

definition legal_event :: "os \<Rightarrow> event \<Rightarrow> bool" where
  "legal_event os e \<longleftrightarrow> (case e of Call_allocate t sz alignment \<Rightarrow> ar_legal os (sz, alignment) | _ \<Rightarrow> True)"

subsection \<open>Events\<close>

definition sys_ok :: "os \<Rightarrow> system \<Rightarrow> nat set \<Rightarrow> bool" where
  "sys_ok os sy F \<longleftrightarrow> shared_ok os (sy_arena sy) (sy_world sy) (sy_calls sy) (sy_held sy) F"

text \<open>What an event keeps, in front of the users: the grants it does not name, and the bytes of
  the blocks and of everybody else.\<close>

definition event_ok :: "os \<Rightarrow> event \<Rightarrow> system \<Rightarrow> nat set \<Rightarrow> system \<Rightarrow> bool" where
  "event_ok os e sy F sy' \<longleftrightarrow> (\<exists>F'. sys_ok os sy' F' \<and> frame_step F (sy_world sy) F' (sy_world sy')) \<and>
     (\<forall>p A. sy_held sy p = Some A \<and> \<not> names_block p e \<longrightarrow>
        sy_held sy' p = Some A \<and> agree_on A (w_mem (sy_world sy)) (w_mem (sy_world sy')))"

text \<open>Most events leave the world alone.\<close>

lemma event_ok_grants:
  assumes "shared_ok os (sy_arena sy') (sy_world sy) (sy_calls sy') (sy_held sy') F" and "sy_world sy' = sy_world sy"
    and "\<And>p A. sy_held sy p = Some A \<Longrightarrow> \<not> names_block p e \<Longrightarrow> sy_held sy' p = Some A"
  shows "event_ok os e sy F sy'"
proof -
  have "sys_ok os sy' F" using assms(1,2) by (simp add: sys_ok_def)
  moreover have "frame_step F (sy_world sy) F (sy_world sy')"
    using frame_step_refl [OF shared_mapped [OF assms(1)]] assms(2) by simp
  ultimately show ?thesis unfolding event_ok_def using assms(2,3) by auto
qed

lemma event_ok_refl: "sys_ok os sy F \<Longrightarrow> event_ok os e sy F sy"
  by (intro event_ok_grants) (simp_all add: sys_ok_def)

theorem occur_ok:
  assumes ok: "sys_ok os sy F" and legal: "legal_event os e"
  shows "\<exists>sy'. occur os e sy = Some sy' \<and> event_ok os e sy F sy'"
proof -
  let ?ar = "sy_arena sy" and ?w = "sy_world sy" and ?U = "sy_held sy" and ?cs = "sy_calls sy"
  have sh: "shared_ok os ?ar ?w ?cs ?U F" using ok by (simp add: sys_ok_def)
  note same = event_ok_refl [OF ok]
  show ?thesis
  proof (cases e)
    case (Call_allocate t sz alignment)
    show ?thesis
    proof (cases "is_idle sy t")
      case True
      have "shared_ok os ?ar ?w (?cs[t := begin_allocate os sz alignment]) ?U F"
        using True legal by (intro shared_request [OF sh]) (simp_all add: is_idle_def legal_event_def Call_allocate)
      then show ?thesis using True by (auto simp: Call_allocate intro!: event_ok_grants)
    qed (use same in \<open>simp add: Call_allocate\<close>)
  next
    case (Call_deallocate t foreign p)
    show ?thesis
    proof (cases "is_idle sy t \<and> ?U p \<noteq> None")
      case True
      have "shared_ok os ?ar ?w (?cs[t := begin_deallocate foreign p ?ar (w_mem ?w)]) (?U(p := None)) F"
        using True by (intro shared_return [OF sh]) (simp_all add: is_idle_def)
      then show ?thesis using True by (auto simp: Call_deallocate names_block_def intro!: event_ok_grants)
    qed (use same in \<open>auto simp: Call_deallocate\<close>)
  next
    case (Fill_block p f)
    show ?thesis
    proof (cases "?U p")
      case None
      then show ?thesis using same by (simp add: Fill_block)
    next
      case (Some A)
      define m' where "m' = (\<lambda>x. if x \<in> A then f x else w_mem ?w x)"
      let ?sy = "sy\<lparr>sy_world := ?w\<lparr>w_mem := m'\<rparr>\<rparr>"
      have ag: "agree_on (- A) (w_mem ?w) m'" by (simp add: agree_on_def m'_def)
      note W = shared_fill [OF sh Some ag]
      have "agree_on B (w_mem ?w) m'" if q: "?U q = Some B" "q \<noteq> p" for q B
      proof (rule agree_on_mono [OF ag])
        have "B \<inter> A = {}" using shared_apart [OF sh] Some q unfolding grants_apart_def by blast
        then show "B \<subseteq> - A" by blast
      qed
      moreover have "sys_ok os ?sy F" using W(1) by (simp add: sys_ok_def)
      ultimately have "event_ok os e sy F ?sy"
        using W(2) unfolding event_ok_def by (auto simp: Fill_block names_block_def)
      then show ?thesis using Some by (simp add: Fill_block m'_def)
    qed
  next
    case (Run_section t)
    show ?thesis
    proof (cases "t < length ?cs")
      case True
      obtain call ar' w' F' where A: "advance_activity os (?cs ! t) ?ar ?w = Some (call, ar', w')"
        "shared_ok os ar' w' (?cs[t := call]) ?U F'" "frame_step F ?w F' w'" "agree_on (granted ?U) (w_mem ?w) (w_mem w')"
        using shared_advance [OF sh True] untouchedD by blast
      let ?sy = "sy\<lparr>sy_arena := ar', sy_world := w', sy_calls := ?cs[t := call]\<rparr>"
      have "sys_ok os ?sy F'" using A(2) by (simp add: sys_ok_def)
      then have "event_ok os e sy F ?sy"
        using A(3) agree_on_mono [OF A(4) granted_part] unfolding event_ok_def by auto
      then show ?thesis using True A(1) by (simp add: Run_section)
    qed (use same in \<open>simp add: Run_section\<close>)
  next
    case (Take_result t)
    show ?thesis
    proof (cases "t < length ?cs")
      case t: True
      show ?thesis
      proof (cases "taken (?cs ! t)")
        case (Some pA)
        obtain p A where pA: "pA = (p, A)" by (cases pA)
        from shared_take [OF sh t Some [unfolded pA]] show ?thesis
          using t Some by (auto simp: Take_result pA intro!: event_ok_grants)
      next
        case None
        show ?thesis
        proof (cases "allocated (?cs ! t) \<noteq> None \<or> freed (?cs ! t) \<noteq> None")
          case True
          then obtain ex r where "allocated (?cs ! t) = Some (Inl ex) \<or> freed (?cs ! t) = Some r"
            using None by (cases "?cs ! t" rule: taken.cases) auto
          from shared_done [OF sh t this] show ?thesis
            using t None True by (auto simp: Take_result intro!: event_ok_grants)
        qed (use same t None in \<open>simp add: Take_result\<close>)
      qed
    qed (use same in \<open>simp add: Take_result\<close>)
  qed
qed

theorem run_schedule_ok:
  assumes "sys_ok os sy F" and "\<forall>e\<in>set es. legal_event os e"
  shows "\<exists>sy' F'. run_schedule os es sy = Some sy' \<and> sys_ok os sy' F' \<and>
    frame_step F (sy_world sy) F' (sy_world sy') \<and>
    (\<forall>p A. sy_held sy p = Some A \<and> (\<forall>e\<in>set es. \<not> names_block p e) \<longrightarrow>
       sy_held sy' p = Some A \<and> agree_on A (w_mem (sy_world sy)) (w_mem (sy_world sy')))"
  using assms
proof (induction es arbitrary: sy F)
  case Nil
  then have "F \<subseteq> mapped (sy_world sy)" by (simp add: sys_ok_def shared_mapped)
  then show ?case using Nil frame_step_refl by auto
next
  case (Cons e es)
  obtain sy1 where o1: "occur os e sy = Some sy1" "event_ok os e sy F sy1" using occur_ok [OF Cons.prems(1)] Cons.prems(2) by auto
  obtain F1 where F1: "sys_ok os sy1 F1" "frame_step F (sy_world sy) F1 (sy_world sy1)"
    using o1(2) unfolding event_ok_def by blast
  obtain sy' F' where R: "run_schedule os es sy1 = Some sy'" "sys_ok os sy' F'"
    "frame_step F1 (sy_world sy1) F' (sy_world sy')"
    "\<And>p A. sy_held sy1 p = Some A \<Longrightarrow> \<forall>e\<in>set es. \<not> names_block p e \<Longrightarrow>
       sy_held sy' p = Some A \<and> agree_on A (w_mem (sy_world sy1)) (w_mem (sy_world sy'))"
    using Cons.IH [OF F1(1)] Cons.prems(2) by auto
  have "sy_held sy' p = Some A \<and> agree_on A (w_mem (sy_world sy)) (w_mem (sy_world sy'))"
    if p: "sy_held sy p = Some A" "\<forall>e\<in>set (e # es). \<not> names_block p e" for p A
  proof -
    have a: "sy_held sy1 p = Some A" "agree_on A (w_mem (sy_world sy)) (w_mem (sy_world sy1))"
      using o1(2) p unfolding event_ok_def by auto
    from R(4) [OF a(1)] p(2) agree_on_trans [OF a(2)] show ?thesis by auto
  qed
  with o1(1) R(1,2) frame_step_trans [OF F1(2) R(3)] show ?case by auto
qed

subsection \<open>From a quiet arena to a quiet arena\<close>

lemma of_nat_sum_list_u64:
  "of_nat (sum_list (map (\<lambda>x. unat (f x)) xs)) = (sum_list (map f xs) :: u64)"
  by (induction xs) simp_all

lemma start_ok:
  assumes "ar_owns os ar w F U"
  shows "sys_ok os (idle_threads n ar w U) F"
proof -
  obtain Fs Us qs lv where inv: "ar_inv os ar Fs Us qs lv w" and F: "F = ar_foot ar Fs lv"
    and g: "ar_grants (us_of Us qs) lv U" using assms by (auto simp: ar_owns_def)
  define own where "own = (\<lambda>i b. if b \<in> set (qs ! i) then Queued else Held)"
  have bins: "bins_ok (w_mem w) (ar_foreign_bins ar) (ar_foreign_bytes ar) qs Us"
    and hd: "headers_ok (ar_node_id ar) (w_mem w) Us" and nd: "sm_node_id (ar_small ar) = ar_node_id ar"
    using inv by (simp_all add: ar_inv_def core_ok_def)
  have q: "holding own Us Queued i = set (qs ! i)" if "i < 40" for i
    using bins that by (auto simp: bins_ok_def own_def holding_def)
  have "queues_ok (w_mem w) (ar_foreign_bins ar) own Us"
    using bins q unfolding queues_ok_def bins_ok_def by blast
  moreover have "nothing (holding own Us (Inside t))" for t
    by (simp add: nothing_def holding_def own_def)
  then have "threads_ok (w_mem w) (ar_node_id ar) (replicate n At_idle) own Us" by (simp add: threads_ok_def)
  moreover have "labels_ok (ar_node_id ar) (w_mem w) own Us"
    using hd by (auto simp: labels_ok_def headers_ok_def header_ok_def holding_def)
  moreover have "counted ar (replicate n At_idle)"
  proof -
    have "of_nat (unat (ar_foreign_bytes ar)) = (of_nat (sum_list (map (\<lambda>b. unat (fl_bytes b)) (ar_foreign_bins ar))) :: u64)"
      using bins by (simp add: bins_ok_def)
    also have "\<dots> = sum_list (map fl_bytes (ar_foreign_bins ar))" by (rule of_nat_sum_list_u64)
    finally show ?thesis by (simp add: counted_def sum_list_replicate)
  qed
  moreover have "user_blocks own Us = us_of Us qs"
  proof (rule nth_equalityI)
    fix i assume "i < length (user_blocks own Us)"
    then have i: "i < 40" by simp
    have "(Us ! i) |` holding own Us Held i = (Us ! i) |` (- set (qs ! i))"
      by (rule ext) (auto simp: restrict_map_def holding_def own_def)
    then show "user_blocks own Us ! i = us_of Us qs ! i" using i by simp
  qed simp
  ultimately have "il_ok os ar w (replicate n At_idle) U Fs Us own lv"
    using inv nd g by (simp add: il_ok_def ar_inv_def core_ok_def)
  then have "il_ok os ar w (map small_part (replicate n (On_small At_idle))) U Fs Us own lv" by simp
  moreover have "hands_ok os (ar_node_id ar) w (ar_foot ar Fs lv) (map large_part (replicate n (On_small At_idle))) (\<lambda>_. None)"
    using hands_ok_idle by simp
  ultimately show ?thesis using shared_okI by (fastforce simp: sys_ok_def idle_threads_def F)
qed

text \<open>The total of the foreign bytes is exact: it never wraps, for any number of threads that
  there can be.\<close>

lemma unat_sum_list_u64:
  "sum_list (map (\<lambda>x. unat (f x)) xs) < 18446744073709551616 \<Longrightarrow>
    unat (sum_list (map f xs) :: u64) = sum_list (map (\<lambda>x. unat (f x)) xs)"
  by (induction xs) (simp_all add: unat_add_u64)

lemma pending_bound: "task_ok m node task H \<Longrightarrow> unat (pending task) \<le> 2101248"
  by (cases task) (simp_all add: batch_in_hand_def)

lemma il_bins_bound:
  assumes ok: "il_ok os ar w tasks U Fs Us own lv"
  shows "sum_list (map (\<lambda>b. unat (fl_bytes b)) (ar_foreign_bins ar)) \<le> 83886080"
proof -
  have len: "length (ar_foreign_bins ar) = 40" using ok by (simp add: il_ok_def queues_ok_def)
  have "unat (fl_bytes b) \<le> 2097152" if b: "b \<in> set (ar_foreign_bins ar)" for b
  proof -
    obtain i where i: "i < 40" "b = ar_foreign_bins ar ! i" using b len by (auto simp: in_set_conv_nth)
    then obtain q where "fbin_ok (w_mem w) i b q" using ok unfolding il_ok_def queues_ok_def by blast
    then have "unat (fl_bytes b) \<le> unat (foreign_high_watermark (kClassSizes ! i))"
      by (simp add: fbin_ok_def word_le_nat_alt)
    with high_watermark_value(1) [OF i(1)] show ?thesis by linarith
  qed
  then have "sum_list (map (\<lambda>b. unat (fl_bytes b)) (ar_foreign_bins ar)) \<le> length (ar_foreign_bins ar) * 2097152"
    by (rule sum_list_bound)
  then show ?thesis using len by simp
qed

lemma il_total:
  assumes ok: "il_ok os ar w tasks U Fs Us own lv" and n: "length tasks \<le> 2 ^ 40"
  shows "unat (ar_foreign_bytes ar) = sum_list (map (\<lambda>b. unat (fl_bytes b)) (ar_foreign_bins ar)) +
    sum_list (map (\<lambda>task. unat (pending task)) tasks)"
proof -
  have "unat (pending task) \<le> 2101248" if "task \<in> set tasks" for task
    using that il_task [OF ok] by (auto simp: in_set_conv_nth intro: pending_bound)
  then have p: "sum_list (map (\<lambda>task. unat (pending task)) tasks) \<le> length tasks * 2101248"
    by (rule sum_list_bound)
  have "length tasks * 2101248 \<le> 1099511627776 * 2101248" using n by simp
  note B = il_bins_bound [OF ok] and P = order_trans [OF p this]
  have "unat (sum_list (map fl_bytes (ar_foreign_bins ar))) = sum_list (map (\<lambda>b. unat (fl_bytes b)) (ar_foreign_bins ar))"
    using B by (intro unat_sum_list_u64) linarith
  moreover have "unat (sum_list (map pending tasks)) = sum_list (map (\<lambda>task. unat (pending task)) tasks)"
    using P by (intro unat_sum_list_u64) linarith
  moreover have "ar_foreign_bytes ar = sum_list (map fl_bytes (ar_foreign_bins ar)) + sum_list (map pending tasks)"
    using ok by (simp add: il_ok_def counted_def)
  ultimately show ?thesis using B P by (subst \<open>ar_foreign_bytes ar = _\<close>, subst unat_add_u64) linarith+
qed

lemma il_quiet_owns:
  assumes ok: "il_ok os ar w tasks U Fs Us own lv" and idle: "\<forall>task\<in>set tasks. task = At_idle"
  shows "ar_owns os ar w (ar_foot ar Fs lv) U"
proof -
  have thr: "threads_ok (w_mem w) (ar_node_id ar) tasks own Us"
    and qok: "queues_ok (w_mem w) (ar_foreign_bins ar) own Us"
    and lab: "labels_ok (ar_node_id ar) (w_mem w) own Us" using ok by (simp_all add: il_ok_def)
  have none: "nothing (holding own Us (Inside t))" for t
  proof (cases "t < length tasks")
    case True
    then have "tasks ! t = At_idle" using idle by simp
    then show ?thesis using il_task [OF ok True] by simp
  next
    case False
    then show ?thesis using thr by (simp add: threads_ok_def)
  qed
  have who: "own i b = Held \<or> own i b = Queued" if "i < 40" "b \<in> dom (Us ! i)" for i b
    using none that by (cases "own i b") (auto simp: nothing_holding)
  obtain q where q: "\<forall>i<40. fbin_ok (w_mem w) i (ar_foreign_bins ar ! i) (q i) \<and> set (q i) = holding own Us Queued i"
    using qok unfolding queues_ok_def by metis
  define qs where "qs = map q [0..<40]"
  have qs: "qs ! i = q i" if "i < 40" for i using that by (simp add: qs_def)
  have zero: "\<forall>task\<in>set tasks. pending task = 0" using idle by fastforce
  then have "sum_list (map pending tasks) = 0" by (simp cong: map_cong)
  then have "ar_foreign_bytes ar = sum_list (map fl_bytes (ar_foreign_bins ar))"
    using ok by (simp add: il_ok_def counted_def)
  then have "unat (ar_foreign_bytes ar) = sum_list (map (\<lambda>b. unat (fl_bytes b)) (ar_foreign_bins ar))"
    using il_bins_bound [OF ok] by (simp add: unat_sum_list_u64)
  then have "bins_ok (w_mem w) (ar_foreign_bins ar) (ar_foreign_bytes ar) qs Us"
    using q qok by (auto simp: bins_ok_def queues_ok_def qs_def holding_def)
  moreover have "headers_ok (ar_node_id ar) (w_mem w) Us"
    using lab who unfolding headers_ok_def labels_ok_def header_ok_def holding_def by blast
  ultimately have inv: "ar_inv os ar Fs Us qs lv w"
    using ok by (simp add: il_ok_def ar_inv_def core_ok_def)
  have "user_blocks own Us = us_of Us qs"
  proof (rule nth_equalityI)
    fix i assume "i < length (user_blocks own Us)"
    then have i: "i < 40" by simp
    have "(Us ! i) |` holding own Us Held i = (Us ! i) |` (- set (qs ! i))"
    proof
      fix b
      show "((Us ! i) |` holding own Us Held i) b = ((Us ! i) |` (- set (qs ! i))) b"
      proof (cases "(Us ! i) b")
        case None
        then show ?thesis by (simp add: restrict_map_def)
      next
        case (Some A)
        then show ?thesis using who [OF i, of b] q i qs [OF i] by (auto simp: restrict_map_def holding_def)
      qed
    qed
    then show "user_blocks own Us ! i = us_of Us qs ! i" using i by simp
  qed simp
  then have "ar_grants (us_of Us qs) lv U" using ok by (simp add: il_ok_def)
  then show ?thesis using inv unfolding ar_owns_def by blast
qed

lemma quiet_owns:
  assumes "sys_ok os sy F" and idle: "\<forall>call\<in>set (sy_calls sy). call = On_small At_idle"
  shows "ar_owns os (sy_arena sy) (sy_world sy) F (sy_held sy)"
proof -
  let ?ar = "sy_arena sy" and ?w = "sy_world sy" and ?cs = "sy_calls sy"
  obtain Fs Us own lv hs where il: "il_ok os ?ar ?w (map small_part ?cs) (sy_held sy) Fs Us own lv"
    and hd: "hands_ok os (ar_node_id ?ar) ?w (ar_foot ?ar Fs lv) (map large_part ?cs) hs"
    and F: "F = ar_foot ?ar Fs lv \<union> hands hs" using assms(1) unfolding sys_ok_def by (rule shared_okE)
  have "hs t = None" for t
  proof (cases "t < length ?cs")
    case True
    then have "?cs ! t = On_small At_idle" using idle by simp
    then show ?thesis using hands_calls_task [OF hd True] by simp
  next
    case False
    then show ?thesis using hd by (simp add: hands_ok_def)
  qed
  then have "hands hs = {}" by (simp add: hands_def)
  moreover have "\<forall>task\<in>set (map small_part ?cs). task = At_idle" using idle by fastforce
  ultimately show ?thesis using il_quiet_owns [OF il] F by simp
qed

subsection \<open>Progress\<close>

text \<open>How many sections an operation has ahead of it at most.\<close>

fun sections_left :: "task \<Rightarrow> nat" where
  "sections_left At_idle = 0"
| "sections_left (At_load ci) = 8"
| "sections_left (At_existing ci) = 7"
| "sections_left (At_detach ci) = 6"
| "sections_left (At_uncount allocating ci batch) = (if allocating then 5 else 2)"
| "sections_left (At_drain allocating ci batch) = (if allocating then 4 else 1)"
| "sections_left (At_retry ci) = 3"
| "sections_left (At_allocate ci) = 2"
| "sections_left (At_new_slab ci) = 2"
| "sections_left (At_header ci h) = 1"
| "sections_left (At_allocated ci r) = 0"
| "sections_left (At_enqueue h) = 3"
| "sections_left (At_deallocate h) = 1"
| "sections_left (At_freed r) = 0"

fun large_sections_left :: "large_task \<Rightarrow> nat" where
  "large_sections_left (La_acquire sz alignment span_size) = 3"
| "large_sections_left (La_map sz alignment span_size) = 2"
| "large_sections_left (La_place sz alignment span) = 1"
| "large_sections_left (La_allocated sz r) = 0"
| "large_sections_left (La_release raw total_size) = 2"
| "large_sections_left (La_unmap raw total_size) = 1"
| "large_sections_left La_released = 0"

fun call_left :: "activity \<Rightarrow> nat" where
  "call_left (On_small task) = sections_left task"
| "call_left (On_large task) = large_sections_left task"

definition runs_thread :: "nat \<Rightarrow> event \<Rightarrow> bool" where
  "runs_thread t e \<longleftrightarrow> (case e of Run_section s \<Rightarrow> s = t | _ \<Rightarrow> False)"

lemma sections_left_advance:
  assumes "advance os task ar w = Some (task', ar', w')"
  shows "sections_left task' \<le> sections_left task - 1"
  using assms
  by (cases task) (auto simp: try_section_def got_block_def Let_def split: if_splits sum.splits option.splits prod.splits)

lemma call_left_advance:
  assumes "advance_activity os call ar w = Some (call', ar', w')"
  shows "call_left call' \<le> call_left call - 1"
proof (cases call)
  case (On_small task)
  then show ?thesis using assms sections_left_advance by (auto split: option.splits prod.splits)
next
  case (On_large task)
  then show ?thesis
    using assms by (cases task) (auto simp: Let_def split: option.splits prod.splits sum.splits bool.splits)
qed

text \<open>Calls and returns of the thread aside, an event leaves its task alone unless it runs it.\<close>

definition calls_thread :: "nat \<Rightarrow> event \<Rightarrow> bool" where
  "calls_thread t e \<longleftrightarrow> (case e of Call_allocate s sz al \<Rightarrow> s = t | Call_deallocate s f p \<Rightarrow> s = t
     | Take_result s \<Rightarrow> s = t | _ \<Rightarrow> False)"

lemma occur_call_left:
  assumes o: "occur os e sy = Some sy'" and t: "t < length (sy_calls sy)" and c: "\<not> calls_thread t e"
  shows "length (sy_calls sy') = length (sy_calls sy)"
    and "call_left (sy_calls sy' ! t) \<le> call_left (sy_calls sy ! t) - (if runs_thread t e then 1 else 0)"
proof -
  have "length (sy_calls sy') = length (sy_calls sy) \<and>
    call_left (sy_calls sy' ! t) \<le> call_left (sy_calls sy ! t) - (if runs_thread t e then 1 else 0)"
  proof (cases e)
    case (Run_section s)
    then show ?thesis
      using o t call_left_advance
      by (cases "s = t") (fastforce simp: runs_thread_def split: if_splits option.splits prod.splits)+
  next
    case (Take_result s)
    then show ?thesis
      using o c by (auto simp: runs_thread_def calls_thread_def split: option.splits prod.splits if_splits)
  qed (use o c in \<open>auto simp: runs_thread_def calls_thread_def split: option.splits\<close>)
  then show "length (sy_calls sy') = length (sy_calls sy)"
    and "call_left (sy_calls sy' ! t) \<le> call_left (sy_calls sy ! t) - (if runs_thread t e then 1 else 0)"
    by simp_all
qed

lemma run_schedule_call_left:
  assumes "run_schedule os es sy = Some sy'" and "t < length (sy_calls sy)" and "\<forall>e\<in>set es. \<not> calls_thread t e"
  shows "call_left (sy_calls sy' ! t) \<le> call_left (sy_calls sy ! t) - length (filter (runs_thread t) es)"
  using assms
proof (induction es arbitrary: sy)
  case (Cons e es)
  obtain sy1 where o1: "occur os e sy = Some sy1" "run_schedule os es sy1 = Some sy'"
    using Cons.prems(1) by (auto split: option.splits)
  have c: "\<not> calls_thread t e" using Cons.prems(3) by simp
  note O = occur_call_left [OF o1(1) Cons.prems(2) c]
  have "call_left (sy_calls sy' ! t) \<le> call_left (sy_calls sy1 ! t) - length (filter (runs_thread t) es)"
    using Cons.IH [OF o1(2)] O(1) Cons.prems(2,3) by simp
  then show ?case using O(2) by (auto split: if_splits)
qed simp

lemma call_left_zero:
  assumes "call_left call = 0"
  shows "call = On_small At_idle \<or> allocated call \<noteq> None \<or> freed call \<noteq> None"
proof (cases call)
  case (On_small task)
  then show ?thesis using assms by (cases task) (auto split: if_splits)
next
  case (On_large task)
  then show ?thesis using assms by (cases task) auto
qed

lemma call_left_bound: "call_left call \<le> 8"
proof (cases call)
  case (On_small task)
  then show ?thesis by (cases task) simp_all
next
  case (On_large task)
  then show ?thesis by (cases task) simp_all
qed

lemma run_schedule_length:
  "run_schedule os es sy = Some sy' \<Longrightarrow> length (sy_calls sy') = length (sy_calls sy)"
proof (induction es arbitrary: sy)
  case (Cons e es)
  then obtain sy1 where o1: "occur os e sy = Some sy1" "run_schedule os es sy1 = Some sy'"
    by (auto split: option.splits)
  have "length (sy_calls sy1) = length (sy_calls sy)"
    using o1(1) by (cases e) (auto split: option.splits if_splits prod.splits)
  then show ?case using Cons.IH [OF o1(2)] by simp
qed simp

subsection \<open>What every schedule guarantees\<close>

fun pending_bytes :: "activity \<Rightarrow> u64" where
  "pending_bytes (On_small task) = pending task"
| "pending_bytes (On_large task) = 0"

lemma pending_small_part: "map pending (map small_part calls) = map pending_bytes calls"
proof -
  have "pending (small_part call) = pending_bytes call" for call by (cases call) simp_all
  then show ?thesis by simp
qed

lemma schedule_from_quiet:
  assumes "ar_owns os ar w F U" and "\<forall>e\<in>set es. legal_event os e"
  shows "\<exists>sy' F'. run_schedule os es (idle_threads n ar w U) = Some sy' \<and> sys_ok os sy' F' \<and>
    frame_step F w F' (sy_world sy') \<and> length (sy_calls sy') = n \<and>
    (\<forall>p A. U p = Some A \<and> (\<forall>e\<in>set es. \<not> names_block p e) \<longrightarrow>
       sy_held sy' p = Some A \<and> agree_on A (w_mem w) (w_mem (sy_world sy')))"
proof -
  obtain sy' F' where R: "run_schedule os es (idle_threads n ar w U) = Some sy'" "sys_ok os sy' F'"
    "frame_step F w F' (sy_world sy')"
    "\<forall>p A. U p = Some A \<and> (\<forall>e\<in>set es. \<not> names_block p e) \<longrightarrow>
       sy_held sy' p = Some A \<and> agree_on A (w_mem w) (w_mem (sy_world sy'))"
    using run_schedule_ok [OF start_ok [OF assms(1), of n] assms(2)] by (auto simp: idle_threads_def)
  then show ?thesis using run_schedule_length [OF R(1)] by (auto simp: idle_threads_def)
qed

lemma sys_ok_grants:
  assumes "sys_ok os sy F"
  shows "grants_apart (sy_held sy)" and "granted (sy_held sy) \<subseteq> F" and "F \<subseteq> mapped (sy_world sy)"
    and "call \<in> set (sy_calls sy) \<Longrightarrow> freed call = Some r \<Longrightarrow> r = Inr ()"
    and "length (sy_calls sy) \<le> 2 ^ 40 \<Longrightarrow> unat (ar_foreign_bytes (sy_arena sy)) =
      sum_list (map (\<lambda>b. unat (fl_bytes b)) (ar_foreign_bins (sy_arena sy))) +
      sum_list (map (\<lambda>call. unat (pending_bytes call)) (sy_calls sy))"
proof -
  have sh: "shared_ok os (sy_arena sy) (sy_world sy) (sy_calls sy) (sy_held sy) F" using assms by (simp add: sys_ok_def)
  obtain Fs Us own lv where ok: "il_ok os (sy_arena sy) (sy_world sy) (map small_part (sy_calls sy)) (sy_held sy) Fs Us own lv"
    using sh by (rule shared_okE)
  show "grants_apart (sy_held sy)" "granted (sy_held sy) \<subseteq> F" "F \<subseteq> mapped (sy_world sy)"
    using shared_apart [OF sh] shared_granted [OF sh] shared_mapped [OF sh] by simp_all
  show "r = Inr ()" if "call \<in> set (sy_calls sy)" "freed call = Some r"
    using that il_calls_task [OF ok] by (auto simp: in_set_conv_nth elim!: freed.elims) fastforce
  assume "length (sy_calls sy) \<le> 2 ^ 40"
  moreover have "sum_list (map (\<lambda>task. unat (pending task)) (map small_part (sy_calls sy))) =
      sum_list (map (\<lambda>call. unat (pending_bytes call)) (sy_calls sy))"
    using pending_small_part [of "sy_calls sy"] by (metis (no_types, lifting) map_map comp_def map_eq_conv)
  ultimately show "unat (ar_foreign_bytes (sy_arena sy)) =
      sum_list (map (\<lambda>b. unat (fl_bytes b)) (ar_foreign_bins (sy_arena sy))) +
      sum_list (map (\<lambda>call. unat (pending_bytes call)) (sy_calls sy))"
    using il_total [OF ok] by simp
qed

text \<open>What the arena holds back, at any moment.\<close>

lemma sys_ok_bounds:
  assumes "sys_ok os sy F"
  shows "i < 40 \<Longrightarrow> fl_bytes (ar_foreign_bins (sy_arena sy) ! i) \<le> foreign_high_watermark (kClassSizes ! i)"
    and "sum_list (map (\<lambda>b. unat (fl_bytes b)) (ar_foreign_bins (sy_arena sy))) \<le> 83886080"
    and "la_wf (ar_large (sy_arena sy))"
proof -
  obtain Fs Us own lv where ok: "il_ok os (sy_arena sy) (sy_world sy) (map small_part (sy_calls sy)) (sy_held sy) Fs Us own lv"
    using assms unfolding sys_ok_def by (rule shared_okE)
  then show "la_wf (ar_large (sy_arena sy))" by (simp add: il_ok_def la_inv_def)
  let ?bins = "ar_foreign_bins (sy_arena sy)"
  have len: "length ?bins = 40" and bin: "fl_bytes (?bins ! i) \<le> foreign_high_watermark (kClassSizes ! i)" if "i < 40" for i
    using ok that by (auto simp: il_ok_def queues_ok_def fbin_ok_def)
  then show "i < 40 \<Longrightarrow> fl_bytes (?bins ! i) \<le> foreign_high_watermark (kClassSizes ! i)" by blast
  have l40: "length ?bins = 40" using len [of 0] by simp
  have "unat (fl_bytes b) \<le> 2097152" if b: "b \<in> set ?bins" for b
  proof -
    obtain i where i: "i < 40" "b = ?bins ! i" using b l40 by (auto simp: in_set_conv_nth)
    from high_watermark_value(1) [OF i(1)] bin [OF i(1)] show ?thesis by (simp add: i(2) word_le_nat_alt)
  qed
  then have "sum_list (map (\<lambda>b. unat (fl_bytes b)) ?bins) \<le> length ?bins * 2097152" by (rule sum_list_bound)
  then show "sum_list (map (\<lambda>b. unat (fl_bytes b)) ?bins) \<le> 83886080" by (simp add: l40)
qed

end
