(* ===== verification/Section_Locks.thy ===== *)
theory Section_Locks
  imports Arena_Schedules
begin

section \<open>The mutexes around the sections\<close>

text \<open>
  \<open>Arena_Schedules\<close> runs a section in one step. Here a section takes several: it begins, constructs its
  guards one after the other (an \<open>OptionalMutexLock\<close> or a \<open>std::lock_guard\<close>) and may have to wait for
  each, loads the fields of the object that it works on, and at its end stores what it made of them
  and destroys the guards. Other threads take steps in between. A section without its guard
  would store over what others stored since it loaded; that this never happens, and that running
  a section in one step loses nothing, is proved from the guards that the code constructs. So is
  the absence of deadlock. The bytes of slabs and blocks are read and written when a section ends.
\<close>

subsection \<open>OptionalMutexLock\<close>

text \<open>A mutex is free or held by a thread. The constructor does not return while a thread
  holds it; the guard remembers whether it locked.\<close>

definition optional_lock :: "nat \<Rightarrow> bool \<Rightarrow> nat option \<Rightarrow> (bool \<times> nat option) option" where
  "optional_lock t should_lock m =
    (if should_lock then (case m of None \<Rightarrow> Some (True, Some t) | Some s \<Rightarrow> None)
     else Some (False, m))"

definition optional_unlock :: "bool \<Rightarrow> nat option \<Rightarrow> nat option" where
  "optional_unlock locked m = (if locked then None else m)"

subsection \<open>The objects that threads share, and the guards of each function\<close>

text \<open>Each of these objects has a mutex of its own, which stands for it below.\<close>

datatype part = Class_part nat | Bin_part nat | Cache_part

text \<open>What the functions with a locked region construct: the guard's mutex, and whether it locks.\<close>

definition allocate_guards :: "nat \<Rightarrow> size_class \<Rightarrow> (part \<times> bool) list" where
  "allocate_guards i sc = [(Class_part i, sc_sync sc)]"

definition allocate_existing_guards :: "nat \<Rightarrow> size_class \<Rightarrow> (part \<times> bool) list" where
  "allocate_existing_guards i sc = [(Class_part i, sc_sync sc)]"

definition allocate_new_slab_guards :: "nat \<Rightarrow> size_class \<Rightarrow> (part \<times> bool) list" where
  "allocate_new_slab_guards i sc = [(Class_part i, sc_sync sc)]"

definition deallocate_guards :: "nat \<Rightarrow> size_class \<Rightarrow> (part \<times> bool) list" where
  "deallocate_guards i sc = [(Class_part i, sc_sync sc)]"

definition deallocate_batch_guards :: "ptr \<Rightarrow> nat \<Rightarrow> size_class \<Rightarrow> (part \<times> bool) list" where
  "deallocate_batch_guards head i sc = (if head = nullptr then [] else [(Class_part i, sc_sync sc)])"

definition enqueue_guards :: "nat \<Rightarrow> (part \<times> bool) list" where
  "enqueue_guards i = [(Bin_part i, True)]"

definition drain_guards :: "nat \<Rightarrow> (part \<times> bool) list" where
  "drain_guards i = [(Bin_part i, True)]"

definition acquire_guards :: "large_alloc \<Rightarrow> (part \<times> bool) list" where
  "acquire_guards la = [(Cache_part, la_sync la)]"

definition release_guards :: "large_alloc \<Rightarrow> (part \<times> bool) list" where
  "release_guards la = [(Cache_part, la_sync la)]"

text \<open>The class or the bin that an index names.\<close>

definition of_class :: "(nat \<Rightarrow> size_class \<Rightarrow> 'a list) \<Rightarrow> nat \<Rightarrow> arena \<Rightarrow> 'a list" where
  "of_class f i ar =
    (let classes = sm_classes (ar_small ar) in if i < length classes then f i (classes ! i) else [])"

definition of_bin :: "(nat \<Rightarrow> 'a list) \<Rightarrow> nat \<Rightarrow> arena \<Rightarrow> 'a list" where
  "of_bin f i ar = (if i < length (ar_foreign_bins ar) then f i else [])"

text \<open>The guards of a section: those of the function that it runs.\<close>

fun section_guards :: "activity \<Rightarrow> arena \<Rightarrow> mem \<Rightarrow> (part \<times> bool) list" where
  "section_guards (On_small (At_allocate class_index)) ar m =
     (if class_index \<ge> of_nat kNumSizeClasses then [] else of_class allocate_guards (unat class_index) ar)"
| "section_guards (On_small (At_existing class_index)) ar m =
     (if class_index \<ge> of_nat kNumSizeClasses then [] else of_class allocate_existing_guards (unat class_index) ar)"
| "section_guards (On_small (At_detach class_index)) ar m =
     (if class_index \<ge> of_nat kNumSizeClasses then [] else of_bin drain_guards (unat class_index) ar)"
| "section_guards (On_small (At_drain allocating class_index batch)) ar m =
     (if fl_head batch = nullptr \<or> class_index \<ge> of_nat kNumSizeClasses then []
      else of_class (deallocate_batch_guards (fl_head batch)) (unat class_index) ar)"
| "section_guards (On_small (At_retry class_index)) ar m = of_class allocate_existing_guards (unat class_index) ar"
| "section_guards (On_small (At_new_slab class_index)) ar m = of_class allocate_new_slab_guards (unat class_index) ar"
| "section_guards (On_small (At_enqueue header)) ar m =
     (case class_index_for_size (ucast (bh_size_class m header)) of
        Inl e \<Rightarrow> []
      | Inr class_index \<Rightarrow> of_bin enqueue_guards (unat class_index) ar)"
| "section_guards (On_small (At_deallocate header)) ar m =
     (case sm_get_size_class (ucast (bh_size_class m header)) of
        Inl e \<Rightarrow> []
      | Inr i \<Rightarrow> of_class deallocate_guards i ar)"
| "section_guards (On_large (La_acquire sz alignment span_size)) ar m = acquire_guards (ar_large ar)"
| "section_guards (On_large (La_release raw total_size)) ar m = release_guards (ar_large ar)"
| "section_guards call ar m = []"

text \<open>The object whose fields a section reads and writes, whatever guards there are.\<close>

fun section_part :: "activity \<Rightarrow> arena \<Rightarrow> mem \<Rightarrow> part list" where
  "section_part (On_small (At_allocate class_index)) ar m =
     (if class_index \<ge> of_nat kNumSizeClasses then [] else of_class (\<lambda>i sc. [Class_part i]) (unat class_index) ar)"
| "section_part (On_small (At_existing class_index)) ar m =
     (if class_index \<ge> of_nat kNumSizeClasses then [] else of_class (\<lambda>i sc. [Class_part i]) (unat class_index) ar)"
| "section_part (On_small (At_detach class_index)) ar m =
     (if class_index \<ge> of_nat kNumSizeClasses then [] else of_bin (\<lambda>i. [Bin_part i]) (unat class_index) ar)"
| "section_part (On_small (At_drain allocating class_index batch)) ar m =
     (if fl_head batch = nullptr \<or> class_index \<ge> of_nat kNumSizeClasses then []
      else of_class (\<lambda>i sc. [Class_part i]) (unat class_index) ar)"
| "section_part (On_small (At_retry class_index)) ar m = of_class (\<lambda>i sc. [Class_part i]) (unat class_index) ar"
| "section_part (On_small (At_new_slab class_index)) ar m = of_class (\<lambda>i sc. [Class_part i]) (unat class_index) ar"
| "section_part (On_small (At_enqueue header)) ar m =
     (case class_index_for_size (ucast (bh_size_class m header)) of
        Inl e \<Rightarrow> []
      | Inr class_index \<Rightarrow> of_bin (\<lambda>i. [Bin_part i]) (unat class_index) ar)"
| "section_part (On_small (At_deallocate header)) ar m =
     (case sm_get_size_class (ucast (bh_size_class m header)) of
        Inl e \<Rightarrow> []
      | Inr i \<Rightarrow> of_class (\<lambda>i sc. [Class_part i]) i ar)"
| "section_part (On_large (La_acquire sz alignment span_size)) ar m = [Cache_part]"
| "section_part (On_large (La_release raw total_size)) ar m = [Cache_part]"
| "section_part call ar m = []"

text \<open>The fields of an object, as a section loads them and stores them back.\<close>

datatype contents = Class_contents size_class | Bin_contents foreign_bin | Cache_contents large_alloc

fun load_part :: "part \<Rightarrow> arena \<Rightarrow> contents" where
  "load_part (Class_part i) ar = Class_contents (sm_classes (ar_small ar) ! i)"
| "load_part (Bin_part i) ar = Bin_contents (ar_foreign_bins ar ! i)"
| "load_part Cache_part ar = Cache_contents (ar_large ar)"

fun store_part :: "part \<times> contents \<Rightarrow> arena \<Rightarrow> arena" where
  "store_part (Class_part i, Class_contents sc) ar = ar\<lparr>ar_small := set_class i sc (ar_small ar)\<rparr>"
| "store_part (Bin_part i, Bin_contents bin) ar = ar\<lparr>ar_foreign_bins := (ar_foreign_bins ar)[i := bin]\<rparr>"
| "store_part (Cache_part, Cache_contents la) ar = ar\<lparr>ar_large := la\<rparr>"
| "store_part kc ar = ar"

lemma store_load [simp]: "store_part (k, load_part k ar) ar = ar"
  by (cases k) (simp_all add: set_class_def)

lemma store_load_all [simp]: "fold store_part (map (\<lambda>k. (k, load_part k ar)) ks) ar = ar"
  by (induction ks) simp_all

subsection \<open>Steps\<close>

text \<open>A section in progress: the guards constructed so far, each with whether it locked, those still to
  be constructed, and the fields once they are loaded. Beside the system: who holds each
  mutex, and which threads are in a section.\<close>

record progress =
  pr_held :: "(part \<times> bool) list"
  pr_wanted :: "(part \<times> bool) list"
  pr_loaded :: "(part \<times> contents) list option"

record guarded =
  gd_system :: system
  gd_mutex :: "part \<Rightarrow> nat option"
  gd_inside :: "nat \<Rightarrow> progress option"

datatype step = Client event | Enter nat | Acquire nat | Load nat | Leave nat

text \<open>\<open>None\<close> means that the step cannot happen now.\<close>

fun take_step :: "os \<Rightarrow> step \<Rightarrow> guarded \<Rightarrow> guarded option" where
  "take_step os (Client e) g =
     (if (\<exists>t. e = Run_section t) \<or> (\<exists>t<length (sy_calls (gd_system g)). calls_thread t e \<and> gd_inside g t \<noteq> None) then None
      else case occur os e (gd_system g) of
        None \<Rightarrow> None
      | Some sy \<Rightarrow> Some (g\<lparr>gd_system := sy\<rparr>))"
| "take_step os (Enter t) g =
     (if t < length (sy_calls (gd_system g)) \<and> gd_inside g t = None then
        let sy = gd_system g in
        Some (g\<lparr>gd_inside := (gd_inside g)(t \<mapsto>
          \<lparr>pr_held = [], pr_wanted = section_guards (sy_calls sy ! t) (sy_arena sy) (w_mem (sy_world sy)), pr_loaded = None\<rparr>)\<rparr>)
      else None)"
| "take_step os (Acquire t) g =
     (case gd_inside g t of
        None \<Rightarrow> None
      | Some pr \<Rightarrow>
          (case pr_wanted pr of
             [] \<Rightarrow> None
           | (k, sync) # rest \<Rightarrow>
               (case optional_lock t sync (gd_mutex g k) of
                  None \<Rightarrow> None
                | Some (locked, m) \<Rightarrow>
                    Some (g\<lparr>gd_mutex := (gd_mutex g)(k := m),
                            gd_inside := (gd_inside g)(t \<mapsto> pr\<lparr>pr_held := (k, locked) # pr_held pr, pr_wanted := rest\<rparr>)\<rparr>))))"
| "take_step os (Load t) g =
     (case gd_inside g t of
        None \<Rightarrow> None
      | Some pr \<Rightarrow>
          (if pr_wanted pr = [] \<and> pr_loaded pr = None then
             let sy = gd_system g; ar = sy_arena sy;
                 ks = section_part (sy_calls sy ! t) ar (w_mem (sy_world sy))
             in Some (g\<lparr>gd_inside := (gd_inside g)(t \<mapsto> pr\<lparr>pr_loaded := Some (map (\<lambda>k. (k, load_part k ar)) ks)\<rparr>)\<rparr>)
           else None))"
| "take_step os (Leave t) g =
     (case gd_inside g t of
        None \<Rightarrow> None
      | Some pr \<Rightarrow>
          (case pr_loaded pr of
             None \<Rightarrow> None
           | Some loaded \<Rightarrow>
               let sy = gd_system g in
               (case occur os (Run_section t) (sy\<lparr>sy_arena := fold store_part loaded (sy_arena sy)\<rparr>) of
                  None \<Rightarrow> None
                | Some sy1 \<Rightarrow>
                    Some (g\<lparr>gd_system := sy1, gd_inside := (gd_inside g)(t := None),
                            gd_mutex := (\<lambda>k. optional_unlock ((k, True) \<in> set (pr_held pr)) (gd_mutex g k))\<rparr>))))"

fun take_steps :: "os \<Rightarrow> step list \<Rightarrow> guarded \<Rightarrow> guarded option" where
  "take_steps os [] g = Some g"
| "take_steps os (s # ss) g = (case take_step os s g of None \<Rightarrow> None | Some g' \<Rightarrow> take_steps os ss g')"

definition unguarded :: "system \<Rightarrow> guarded" where
  "unguarded sy = \<lparr>gd_system = sy, gd_mutex = (\<lambda>_. None), gd_inside = (\<lambda>_. None)\<rparr>"

text \<open>The schedule that a list of steps should amount to: each section at its end.\<close>

fun events_of :: "step list \<Rightarrow> event list" where
  "events_of [] = []"
| "events_of (Client e # ss) = e # events_of ss"
| "events_of (Leave t # ss) = Run_section t # events_of ss"
| "events_of (s # ss) = events_of ss"

text \<open>What a thread could do next in its section, and the mutex that it waits for.\<close>

definition can_go :: "os \<Rightarrow> guarded \<Rightarrow> nat \<Rightarrow> bool" where
  "can_go os g t \<longleftrightarrow> (\<exists>s\<in>{Enter t, Acquire t, Load t, Leave t}. take_step os s g \<noteq> None)"

definition waits_for :: "guarded \<Rightarrow> nat \<Rightarrow> part \<Rightarrow> bool" where
  "waits_for g t k \<longleftrightarrow> (\<exists>pr rest. gd_inside g t = Some pr \<and> pr_wanted pr = (k, True) # rest \<and> gd_mutex g k \<noteq> None)"

subsection \<open>A section works on what it has locked\<close>

lemmas guard_defs = allocate_guards_def allocate_existing_guards_def allocate_new_slab_guards_def deallocate_guards_def
  deallocate_batch_guards_def enqueue_guards_def drain_guards_def acquire_guards_def release_guards_def

lemma section_part_guarded:
  "section_part call ar m = map fst (section_guards call ar m)"
  by (cases "(call, ar, m)" rule: section_part.cases)
    (auto simp: of_class_def of_bin_def guard_defs Let_def split: sum.splits)

lemma one_guard: "length (section_guards call ar m) \<le> 1"
  by (cases "(call, ar, m)" rule: section_guards.cases)
    (auto simp: of_class_def of_bin_def guard_defs Let_def split: sum.splits)

text \<open>Whatever else a section does, it leaves the fields of the other objects alone.\<close>

lemma set_class_other: "i \<noteq> j \<Longrightarrow> sm_classes (set_class i sc sm) ! j = sm_classes sm ! j"
  "\<not> i < length (sm_classes sm) \<Longrightarrow> set_class i sc sm = sm"
  by (simp_all add: set_class_def list_update_beyond)

lemma class_elsewhere:
  "k \<notin> set (of_class (\<lambda>i sc. [Class_part i]) i ar) \<Longrightarrow> load_part k (ar\<lparr>ar_small := set_class i sc (ar_small ar)\<rparr>) = load_part k ar"
  by (cases k; cases "i < length (sm_classes (ar_small ar))") (auto simp: of_class_def set_class_other)

lemma bin_elsewhere:
  "k \<notin> set (of_bin (\<lambda>i. [Bin_part i]) i ar) \<Longrightarrow>
    load_part k (ar\<lparr>ar_foreign_bins := (ar_foreign_bins ar)[i := bin], ar_foreign_bytes := n\<rparr>) = load_part k ar"
  "k \<notin> set (of_bin (\<lambda>i. [Bin_part i]) i ar) \<Longrightarrow>
    load_part k (ar\<lparr>ar_foreign_bins := (ar_foreign_bins ar)[i := bin]\<rparr>) = load_part k ar"
  by (cases k; cases "i < length (ar_foreign_bins ar)"; auto simp: of_bin_def list_update_beyond)+

lemma advance_elsewhere:
  assumes adv: "advance os task ar w = Some (task', ar', w')" and k: "k \<notin> set (section_part (On_small task) ar (w_mem w))"
  shows "load_part k ar' = load_part k ar"
proof (cases task)
  case (At_uncount allocating class_index batch)
  then show ?thesis using adv by (cases k) auto
next
  case (At_enqueue header)
  then show ?thesis using adv k
    by (auto simp: enqueue_section_def Let_def bin_elsewhere split: sum.splits option.splits prod.splits if_splits)
next
  case (At_deallocate header)
  then show ?thesis using adv k
    by (auto simp: sm_deallocate_def class_elsewhere Let_def split: sum.splits prod.splits)
next
  case (At_drain allocating class_index batch)
  then show ?thesis using adv k
    by (auto simp: drain_foreign_batch_def sm_deallocate_batch_def class_elsewhere Let_def
        split: sum.splits prod.splits option.splits if_splits)
qed (use adv k in \<open>auto simp: sm_allocate_by_class_index_def try_section_def class_elsewhere bin_elsewhere Let_def
       split: sum.splits prod.splits option.splits if_splits\<close>)

lemma la_advance_elsewhere:
  assumes "la_advance os task la w = (task', la', w')" and "section_part (On_large task) ar m = []"
  shows "la' = la"
  using assms by (cases task) (auto simp: Let_def split: sum.splits option.splits prod.splits bool.splits)

lemma section_elsewhere:
  assumes adv: "advance_activity os call ar w = Some (call', ar', w')" and k: "k \<notin> set (section_part call ar (w_mem w))"
  shows "load_part k ar' = load_part k ar"
proof (cases call)
  case (On_small task)
  then show ?thesis using adv k advance_elsewhere by (auto split: option.splits prod.splits)
next
  case (On_large task)
  obtain task' la w1 where la: "la_advance os task (ar_large ar) w = (task', la, w1)" by (metis prod_cases3)
  have ar': "ar' = ar\<lparr>ar_large := la\<rparr>" using adv by (simp add: On_large la)
  have "k = Cache_part \<Longrightarrow> la = ar_large ar"
    using k la_advance_elsewhere [OF la, of ar "w_mem w"] unfolding On_large by (cases task) auto
  then show ?thesis by (cases k) (auto simp: ar')
qed

subsection \<open>What others leave as it is\<close>

text \<open>The flags of the mutexes, the number of classes and bins and the limits of the span cache never change,
  so in an arena made for several threads every guard locks.\<close>

definition la_fixed :: "large_alloc \<Rightarrow> bool \<times> u64 \<times> u64" where
  "la_fixed la = (la_sync la, la_max_cached_spans la, la_max_cached_bytes la)"

definition sync_flags :: "arena \<Rightarrow> bool list \<times> (bool \<times> u64 \<times> u64) \<times> nat" where
  "sync_flags ar = (map sc_sync (sm_classes (ar_small ar)), la_fixed (ar_large ar), length (ar_foreign_bins ar))"

lemma sc_sync_simps:
  "sc_scan sc w = Some (b, sc', w') \<Longrightarrow> sc_sync sc' = sc_sync sc"
  "sc_allocate_existing sc w = (b, sc', w') \<Longrightarrow> sc_sync sc' = sc_sync sc"
  "sc_allocate os sc w = (r, sc', w') \<Longrightarrow> sc_sync sc' = sc_sync sc"
  "sc_allocate_new_slab os sc w = (r, sc', w') \<Longrightarrow> sc_sync sc' = sc_sync sc"
  "sc_deallocate os p sc w = (d, sc', w') \<Longrightarrow> sc_sync sc' = sc_sync sc"
  "sc_deallocate_batch os p sc w = Some (d, sc', w') \<Longrightarrow> sc_sync sc' = sc_sync sc"
proof -
  show scan: "sc_sync sc' = sc_sync sc" if "sc_scan sc w = Some (b, sc', w')" for b sc' w'
    using that by (auto simp: sc_scan_def sc_take_from_def split: if_splits option.splits prod.splits)
  have grow: "sc_sync sc' = sc_sync sc" if "sc_grow os sc w = (r, sc', w')" for r :: "ptr res" and sc' w'
    using that by (auto simp: sc_grow_def sc_take_from_def Let_def split: sum.splits prod.splits)
  show "sc_sync sc' = sc_sync sc" if "sc_allocate_existing sc w = (b, sc', w')"
    using that scan by (auto simp: sc_allocate_existing_def split: option.splits)
  show "sc_sync sc' = sc_sync sc" if "sc_allocate os sc w = (r, sc', w')"
    using that scan grow by (auto simp: sc_allocate_def split: option.splits)
  show "sc_sync sc' = sc_sync sc" if "sc_allocate_new_slab os sc w = (r, sc', w')"
    using that scan grow by (auto simp: sc_allocate_new_slab_def split: option.splits)
  show "sc_sync sc' = sc_sync sc" if "sc_deallocate os p sc w = (d, sc', w')"
    using that by (auto simp: sc_deallocate_def sc_release_extra_def Let_def split: if_splits prod.splits)
  show "sc_sync sc' = sc_sync sc" if "sc_deallocate_batch os p sc w = Some (d, sc', w')"
    using that
    by (auto simp: sc_deallocate_batch_def sc_release_extra_def Let_def split: if_splits prod.splits option.splits sum.splits bool.splits)
qed

lemma map_update_same': "f y = f (xs ! i) \<Longrightarrow> map f (xs[i := y]) = map f xs"
  by (cases "i < length xs") (simp_all add: map_update_same list_update_beyond)

lemma sm_sync_simps:
  "sm_allocate_by_class_index os ci sm w = (r, sm', w') \<Longrightarrow> map sc_sync (sm_classes sm') = map sc_sync (sm_classes sm)"
  "sm_deallocate os p sm w = (d, sm', w') \<Longrightarrow> map sc_sync (sm_classes sm') = map sc_sync (sm_classes sm)"
  "drain_foreign_batch os ci batch sm w = Some (d, sm', w') \<Longrightarrow> map sc_sync (sm_classes sm') = map sc_sync (sm_classes sm)"
  by (auto simp: sm_allocate_by_class_index_def sm_deallocate_def drain_foreign_batch_def sm_deallocate_batch_def
      set_class_def Let_def intro!: map_update_same' dest: sc_sync_simps split: if_splits prod.splits sum.splits option.splits)

lemma advance_flags:
  assumes "advance os task ar w = Some (task', ar', w')"
  shows "sync_flags ar' = sync_flags ar"
  using assms
  by (cases task)
    (auto simp: sync_flags_def try_section_def enqueue_section_def set_class_def Let_def
      dest: sm_sync_simps sc_sync_simps intro!: map_update_same' split: if_splits sum.splits option.splits prod.splits)

lemma la_fixed_simps:
  "take_cached_span i la = (span, la') \<Longrightarrow> la_fixed la' = la_fixed la"
  "la_release_to_cache raw n la = (r, la') \<Longrightarrow> la_fixed la' = la_fixed la"
proof -
  show "la_fixed la' = la_fixed la" if "take_cached_span i la = (span, la')"
  proof -
    from that have "la' = snd (take_cached_span i la)" by simp
    then show ?thesis by (simp add: take_cached_span_def la_fixed_def Let_def)
  qed
  assume "la_release_to_cache raw n la = (r, la')"
  then have "la' = snd (la_release_to_cache raw n la)" by simp
  then show "la_fixed la' = la_fixed la" by (simp add: la_release_to_cache_def la_fixed_def Let_def)
qed

lemma la_advance_flags:
  assumes "la_advance os task la w = (task', la', w')"
  shows "la_fixed la' = la_fixed la"
  using assms
  by (cases task) (auto dest: la_fixed_simps split: sum.splits option.splits prod.splits bool.splits)

lemma occur_flags:
  assumes "occur os e sy = Some sy'"
  shows "sync_flags (sy_arena sy') = sync_flags (sy_arena sy)"
proof (cases e)
  case (Run_section t)
  show ?thesis
  proof (cases "t < length (sy_calls sy)")
    case True
    then obtain call ar w where A: "advance_activity os (sy_calls sy ! t) (sy_arena sy) (sy_world sy) = Some (call, ar, w)"
      and sy': "sy_arena sy' = ar" using assms Run_section by (auto split: option.splits)
    have "sync_flags ar = sync_flags (sy_arena sy)"
      using A by (cases "sy_calls sy ! t")
        (auto simp: sync_flags_def Let_def dest: advance_flags [unfolded sync_flags_def] la_advance_flags
          split: option.splits prod.splits)
    then show ?thesis by (simp add: sy')
  next
    case False
    then show ?thesis using assms Run_section by simp
  qed
qed (use assms in \<open>auto split: option.splits if_splits\<close>)

definition synchronized :: "arena \<Rightarrow> bool" where
  "synchronized ar \<longleftrightarrow> (\<forall>sc\<in>set (sm_classes (ar_small ar)). sc_sync sc) \<and> la_sync (ar_large ar)"

lemma synchronized_flags: "synchronized ar \<longleftrightarrow> (\<forall>b\<in>set (fst (sync_flags ar)). b) \<and> fst (fst (snd (sync_flags ar)))"
  by (simp add: synchronized_def sync_flags_def la_fixed_def)

lemma schedule_flags:
  "run_schedule os es sy = Some sy' \<Longrightarrow> sync_flags (sy_arena sy') = sync_flags (sy_arena sy)"
proof (induction es arbitrary: sy)
  case (Cons e es)
  obtain sy1 where "occur os e sy = Some sy1" "run_schedule os es sy1 = Some sy'"
    using Cons.prems by (auto split: option.splits)
  with Cons.IH occur_flags show ?case by metis
qed simp

lemma synchronized_new: "synchronized (ar_new node ff True route)"
  by (simp add: synchronized_def ar_new_def sm_new_def la_new_def sc_new_def)

lemma guards_lock:
  assumes "synchronized ar" and "(k, sync) \<in> set (section_guards call ar m)"
  shows sync
  using assms
  by (cases "(call, ar, m)" rule: section_guards.cases)
    (auto simp: synchronized_def of_class_def of_bin_def guard_defs Let_def split: if_splits sum.splits)

text \<open>The header of a block that a thread returns belongs to that thread: the others do not touch its
  class. To see it, let the thread be idle and the block be in use again.\<close>

fun returned_block :: "activity \<Rightarrow> ptr option" where
  "returned_block (On_small (At_enqueue h)) = Some h"
| "returned_block (On_small (At_deallocate h)) = Some h"
| "returned_block call = None"

lemma returned_cases:
  assumes "returned_block call = Some h"
  shows "call = On_small (At_enqueue h) \<or> call = On_small (At_deallocate h)"
  using assms by (cases call rule: returned_block.cases) auto

lemma shared_ungive:
  assumes sh: "shared_ok os ar w calls U F" and s: "s < length calls" and h: "returned_block (calls ! s) = Some h"
  shows "\<exists>A. shared_ok os ar w (calls[s := On_small At_idle]) (U(to_user_ptr h \<mapsto> A)) F \<and> U (to_user_ptr h) = None"
  using sh
proof (rule shared_okE)
  fix Fs Us own lv hs
  assume il: "il_ok os ar w (map small_part calls) U Fs Us own lv"
    and hd: "hands_ok os (ar_node_id ar) w (ar_foot ar Fs lv) (map large_part calls) hs"
    and F: "F = ar_foot ar Fs lv \<union> hands hs"
  note c = returned_cases [OF h]
  obtain i where i: "i < 40" "only (holding own Us (Inside s)) i {h}" "header_ok (ar_node_id ar) (w_mem w) i h"
    using il_calls_task [OF il s] c by auto
  let ?call = "On_small (At_allocated (of_nat i) (Inr (to_user_ptr h)))"
  have ui: "unat (of_nat i :: u64) = i" using i(1) by (simp add: unat_of_nat_u64)
  have "shared_ok os ar w (calls[s := ?call]) U F"
    unfolding F
  proof (rule shared_retask [OF il hd s])
    show "task_ok (w_mem w) (ar_node_id ar) (small_part ?call) (holding own Us (Inside s))" using i ui by simp
    show "pending (small_part ?call) = pending (small_part (calls ! s))" using c by auto
    show "large_task_ok os (ar_node_id ar) (w_mem w) (large_part ?call) (hs s)"
      using hands_calls_task [OF hd s] c by auto
  qed
  from shared_take [OF this, of s] s show ?thesis by auto
qed

lemma returned_class_stays:
  assumes ok: "sys_ok os sy F" and s: "s < length (sy_calls sy)" and h: "returned_block (sy_calls sy ! s) = Some h"
    and o: "occur os e sy = Some sy'" and e: "e \<noteq> Run_section s"
  shows "bh_size_class (w_mem (sy_world sy')) h = bh_size_class (w_mem (sy_world sy)) h"
proof -
  let ?U = "sy_held sy" and ?w = "sy_world sy" and ?cs = "(sy_calls sy)[s := On_small At_idle]" and ?p = "to_user_ptr h"
  obtain A where sh: "shared_ok os (sy_arena sy) ?w ?cs (?U(?p \<mapsto> A)) F" and new: "?U ?p = None"
    using shared_ungive [OF _ s h] ok unfolding sys_ok_def by blast
  have keeps: "bh_size_class m' h = bh_size_class (w_mem ?w) h" if "keeps_headers (?U(?p \<mapsto> A)) (w_mem ?w) m'" for m'
    using that unfolding keeps_headers_def by (drule_tac x = ?p in spec) simp
  show ?thesis
  proof (cases e)
    case (Fill_block p f)
    show ?thesis
    proof (cases "?U p")
      case None
      then show ?thesis using o by (simp add: Fill_block)
    next
      case (Some B)
      let ?m = "\<lambda>x. if x \<in> B then f x else w_mem ?w x"
      have "agree_on (- B) (w_mem ?w) ?m" by (simp add: agree_on_def)
      moreover have "(?U(?p \<mapsto> A)) p = Some B" using Some new by auto
      ultimately have "keeps_headers (?U(?p \<mapsto> A)) (w_mem ?w) ?m" using shared_fill(3) [OF sh] by blast
      from keeps [OF this] show ?thesis using o Some by (auto simp: Fill_block)
    qed
  next
    case (Run_section t)
    show ?thesis
    proof (cases "t < length (sy_calls sy)")
      case True
      then have t: "t < length ?cs" and call: "?cs ! t = sy_calls sy ! t" using e by (auto simp: Run_section)
      from shared_advance [OF sh t] o True call keeps show ?thesis by (auto simp: Run_section untouched_def)
    qed (use o in \<open>simp add: Run_section\<close>)
  qed (use o in \<open>auto split: option.splits if_splits\<close>)
qed

lemma section_local:
  assumes "sync_flags ar' = sync_flags ar"
    and "\<And>h. returned_block call = Some h \<Longrightarrow> bh_size_class m' h = bh_size_class m h"
  shows "section_guards call ar' m' = section_guards call ar m"
proof -
  have len: "length (sm_classes (ar_small ar')) = length (sm_classes (ar_small ar))"
    and sc: "map sc_sync (sm_classes (ar_small ar')) = map sc_sync (sm_classes (ar_small ar))"
    using assms(1) by (auto simp: sync_flags_def dest: map_eq_imp_length_eq)
  then have "i < length (sm_classes (ar_small ar)) \<Longrightarrow>
      sc_sync (sm_classes (ar_small ar') ! i) = sc_sync (sm_classes (ar_small ar) ! i)" for i
    by (metis nth_map)
  with len assms show ?thesis
    by (cases "(call, ar, m)" rule: section_guards.cases)
      (auto simp: of_class_def of_bin_def guard_defs sync_flags_def la_fixed_def Let_def split: sum.splits)
qed

subsection \<open>No update is lost\<close>

text \<open>Of a section in progress: its guards are those of its function, all lock, and what it has loaded
  is what is there.\<close>

definition progress_ok :: "system \<Rightarrow> nat \<Rightarrow> progress \<Rightarrow> bool" where
  "progress_ok sy t pr \<longleftrightarrow> t < length (sy_calls sy) \<and>
     rev (pr_held pr) @ pr_wanted pr = section_guards (sy_calls sy ! t) (sy_arena sy) (w_mem (sy_world sy)) \<and>
     (pr_loaded pr \<noteq> None \<longrightarrow> pr_wanted pr = [] \<and>
        pr_loaded pr = Some (map (\<lambda>k. (k, load_part k (sy_arena sy)))
          (section_part (sy_calls sy ! t) (sy_arena sy) (w_mem (sy_world sy)))))"

text \<open>A mutex is held by the thread whose guard locked it, and by no other.\<close>

definition locks_ok :: "guarded \<Rightarrow> bool" where
  "locks_ok g \<longleftrightarrow> (\<forall>k t. gd_mutex g k = Some t \<longleftrightarrow> (\<exists>pr. gd_inside g t = Some pr \<and> (k, True) \<in> set (pr_held pr)))"

definition sections_ok :: "os \<Rightarrow> guarded \<Rightarrow> bool" where
  "sections_ok os g \<longleftrightarrow> (\<exists>F. sys_ok os (gd_system g) F) \<and> synchronized (sy_arena (gd_system g)) \<and> locks_ok g \<and>
     (\<forall>t pr. gd_inside g t = Some pr \<longrightarrow> progress_ok (gd_system g) t pr)"

lemma sections_okD:
  assumes "sections_ok os g"
  shows "\<exists>F. sys_ok os (gd_system g) F" and "synchronized (sy_arena (gd_system g))" and "locks_ok g"
    and "gd_inside g t = Some pr \<Longrightarrow> progress_ok (gd_system g) t pr"
  using assms by (simp_all add: sections_ok_def)

lemma progress_locks:
  assumes ok: "sections_ok os g" and pr: "gd_inside g t = Some pr" and k: "(k, b) \<in> set (pr_held pr) \<union> set (pr_wanted pr)"
  shows b
proof -
  have "set (rev (pr_held pr) @ pr_wanted pr) =
      set (section_guards (sy_calls (gd_system g) ! t) (sy_arena (gd_system g)) (w_mem (sy_world (gd_system g))))"
    using sections_okD(4) [OF ok pr] unfolding progress_ok_def by metis
  then show ?thesis using guards_lock [OF sections_okD(2) [OF ok]] k by auto
qed

text \<open>Once all guards are there, the mutex of the object that the section works on is held.\<close>

lemma part_held:
  assumes ok: "sections_ok os g" and pr: "gd_inside g t = Some pr" "pr_wanted pr = []"
    and k: "k \<in> set (section_part (sy_calls (gd_system g) ! t) (sy_arena (gd_system g)) (w_mem (sy_world (gd_system g))))"
  shows "gd_mutex g k = Some t"
proof -
  have "rev (pr_held pr) = section_guards (sy_calls (gd_system g) ! t) (sy_arena (gd_system g)) (w_mem (sy_world (gd_system g)))"
    using sections_okD(4) [OF ok pr(1)] pr(2) by (simp add: progress_ok_def)
  then have "k \<in> fst ` set (pr_held pr)" using k unfolding section_part_guarded by (metis set_map set_rev)
  then obtain b where "(k, b) \<in> set (pr_held pr)" by auto
  moreover from this have b using progress_locks [OF ok pr(1)] by blast
  ultimately show ?thesis using sections_okD(3) [OF ok] pr(1) by (auto simp: locks_ok_def)
qed

text \<open>Events that are no part of the section of a thread leave its progress true.\<close>

lemma occur_call_same:
  assumes "occur os e sy = Some sy'" and "\<not> calls_thread s e" and "e \<noteq> Run_section s"
  shows "sy_calls sy' ! s = sy_calls sy ! s" and "length (sy_calls sy') = length (sy_calls sy)"
  using assms by (cases e; auto simp: calls_thread_def split: option.splits if_splits prod.splits)+

lemma progress_stays:
  assumes ok: "sys_ok os sy F" and pr: "progress_ok sy s pr" and o: "occur os e sy = Some sy'"
    and e: "\<not> calls_thread s e" "e \<noteq> Run_section s"
    and same: "\<And>k. pr_loaded pr \<noteq> None \<Longrightarrow> k \<in> set (section_part (sy_calls sy ! s) (sy_arena sy) (w_mem (sy_world sy))) \<Longrightarrow>
      load_part k (sy_arena sy') = load_part k (sy_arena sy)"
  shows "progress_ok sy' s pr"
proof -
  note C = occur_call_same [OF o e]
  have s: "s < length (sy_calls sy)" using pr by (simp add: progress_ok_def)
  have g: "section_guards (sy_calls sy ! s) (sy_arena sy') (w_mem (sy_world sy')) =
      section_guards (sy_calls sy ! s) (sy_arena sy) (w_mem (sy_world sy))"
    using returned_class_stays [OF ok s _ o e(2)] by (intro section_local occur_flags [OF o])
  then have p: "section_part (sy_calls sy ! s) (sy_arena sy') (w_mem (sy_world sy')) =
      section_part (sy_calls sy ! s) (sy_arena sy) (w_mem (sy_world sy))" by (simp only: section_part_guarded)
  show ?thesis
    using pr same unfolding progress_ok_def C g p by (auto cong: map_cong)
qed

lemma event_elsewhere:
  assumes o: "occur os e sy = Some sy'"
    and k: "\<And>t. e = Run_section t \<Longrightarrow> t < length (sy_calls sy) \<Longrightarrow>
      k \<notin> set (section_part (sy_calls sy ! t) (sy_arena sy) (w_mem (sy_world sy)))"
  shows "load_part k (sy_arena sy') = load_part k (sy_arena sy)"
proof (cases e)
  case (Run_section t)
  then show ?thesis using o k section_elsewhere by (fastforce split: if_splits option.splits prod.splits)
qed (use o in \<open>auto split: option.splits if_splits\<close>)

lemma legal_section: "legal_event os (Run_section t)"
  by (simp add: legal_event_def)

lemma sections_ok_event:
  assumes ok: "sections_ok os g" and o: "occur os e (gd_system g) = Some sy'" and legal: "legal_event os e"
  shows "(\<exists>F. sys_ok os sy' F) \<and> synchronized (sy_arena sy')"
proof -
  obtain F where "sys_ok os (gd_system g) F" using sections_okD(1) [OF ok] by blast
  from occur_ok [OF this legal] o have "\<exists>F. sys_ok os sy' F" unfolding event_ok_def by auto
  then show ?thesis using sections_okD(2) [OF ok] unfolding synchronized_flags occur_flags [OF o] by blast
qed

lemma sections_ok_client:
  assumes ok: "sections_ok os g" and st: "take_step os (Client e) g = Some g'" and legal: "legal_event os e"
  shows "sections_ok os g' \<and> occur os e (gd_system g) = Some (gd_system g')"
proof -
  obtain sy' where o: "occur os e (gd_system g) = Some sy'" and g': "g' = g\<lparr>gd_system := sy'\<rparr>"
    and no: "\<And>t. e \<noteq> Run_section t" "\<And>t. t < length (sy_calls (gd_system g)) \<Longrightarrow> calls_thread t e \<Longrightarrow> gd_inside g t = None"
    using st by (auto split: if_splits option.splits)
  obtain F where F: "sys_ok os (gd_system g) F" using sections_okD(1) [OF ok] by blast
  have "progress_ok sy' t pr" if pr: "gd_inside g t = Some pr" for t pr
  proof (rule progress_stays [OF F sections_okD(4) [OF ok pr] o _ no(1)])
    show "\<not> calls_thread t e" using no(2) [of t] pr sections_okD(4) [OF ok pr] by (auto simp: progress_ok_def)
    show "load_part k (sy_arena sy') = load_part k (sy_arena (gd_system g))" for k
      using no(1) by (intro event_elsewhere [OF o]) blast
  qed
  with sections_ok_event [OF ok o legal] sections_okD(3) [OF ok] show ?thesis
    by (simp add: sections_ok_def locks_ok_def g' o)
qed

lemma sections_ok_enter:
  assumes ok: "sections_ok os g" and st: "take_step os (Enter t) g = Some g'"
  shows "sections_ok os g' \<and> gd_system g' = gd_system g"
proof -
  let ?sy = "gd_system g"
  let ?pr = "\<lparr>pr_held = [], pr_wanted = section_guards (sy_calls ?sy ! t) (sy_arena ?sy) (w_mem (sy_world ?sy)), pr_loaded = None\<rparr>"
  have t: "t < length (sy_calls ?sy)" "gd_inside g t = None" and g': "g' = g\<lparr>gd_inside := (gd_inside g)(t \<mapsto> ?pr)\<rparr>"
    using st by (auto simp: Let_def split: if_splits)
  have "progress_ok ?sy t ?pr" using t by (simp add: progress_ok_def)
  moreover have "locks_ok g'" using sections_okD(3) [OF ok] t(2) by (auto simp: locks_ok_def g')
  ultimately show ?thesis using ok by (auto simp: sections_ok_def g')
qed

lemma sections_ok_acquire:
  assumes ok: "sections_ok os g" and st: "take_step os (Acquire t) g = Some g'"
  shows "sections_ok os g' \<and> gd_system g' = gd_system g"
proof -
  let ?sy = "gd_system g"
  obtain pr k sync rest where pr: "gd_inside g t = Some pr" "pr_wanted pr = (k, sync) # rest"
    and l: "optional_lock t sync (gd_mutex g k) \<noteq> None" using st by (auto split: option.splits list.splits)
  have True: sync using progress_locks [OF ok pr(1), of k sync] pr(2) by simp
  then have free: "gd_mutex g k = None" using l by (auto simp: optional_lock_def split: option.splits)
  let ?pr = "pr\<lparr>pr_held := (k, True) # pr_held pr, pr_wanted := rest\<rparr>"
  have g': "g' = g\<lparr>gd_mutex := (gd_mutex g)(k \<mapsto> t), gd_inside := (gd_inside g)(t \<mapsto> ?pr)\<rparr>"
    using st pr True free by (simp add: optional_lock_def)
  have "progress_ok ?sy t ?pr" using sections_okD(4) [OF ok pr(1)] pr(2) True by (auto simp: progress_ok_def)
  moreover have "gd_mutex g' j = Some s \<longleftrightarrow> (\<exists>p. gd_inside g' s = Some p \<and> (j, True) \<in> set (pr_held p))" for j s
  proof -
    have "gd_mutex g j = Some s \<longleftrightarrow> (\<exists>p. gd_inside g s = Some p \<and> (j, True) \<in> set (pr_held p))"
      using sections_okD(3) [OF ok] by (simp add: locks_ok_def)
    then show ?thesis using pr(1) free by (cases "s = t"; cases "j = k") (auto simp: g')
  qed
  ultimately show ?thesis using ok by (auto simp: sections_ok_def locks_ok_def g')
qed

lemma sections_ok_load:
  assumes ok: "sections_ok os g" and st: "take_step os (Load t) g = Some g'"
  shows "sections_ok os g' \<and> gd_system g' = gd_system g"
proof -
  let ?sy = "gd_system g"
  let ?fields = "map (\<lambda>k. (k, load_part k (sy_arena ?sy))) (section_part (sy_calls ?sy ! t) (sy_arena ?sy) (w_mem (sy_world ?sy)))"
  obtain pr where pr: "gd_inside g t = Some pr" "pr_wanted pr = []"
    and g': "g' = g\<lparr>gd_inside := (gd_inside g)(t \<mapsto> pr\<lparr>pr_loaded := Some ?fields\<rparr>)\<rparr>"
    using st by (auto simp: Let_def split: option.splits if_splits)
  have "progress_ok ?sy t (pr\<lparr>pr_loaded := Some ?fields\<rparr>)"
    using sections_okD(4) [OF ok pr(1)] pr(2) by (auto simp: progress_ok_def)
  moreover have "locks_ok g'" using sections_okD(3) [OF ok] pr(1) by (auto simp: locks_ok_def g')
  ultimately show ?thesis using ok by (auto simp: sections_ok_def g')
qed

text \<open>The end of a section: what it stores is what is there, so it is a section of the schedule, and
  the sections of the other threads, which work on other objects, do not notice.\<close>

lemma sections_ok_leave:
  assumes ok: "sections_ok os g" and st: "take_step os (Leave t) g = Some g'"
  shows "sections_ok os g' \<and> occur os (Run_section t) (gd_system g) = Some (gd_system g')"
proof -
  let ?sy = "gd_system g" and ?part = "\<lambda>s. set (section_part (sy_calls (gd_system g) ! s) (sy_arena (gd_system g)) (w_mem (sy_world (gd_system g))))"
  obtain pr loaded where pr: "gd_inside g t = Some pr" "pr_loaded pr = Some loaded" using st by (auto split: option.splits)
  have w: "pr_wanted pr = []" and "fold store_part loaded (sy_arena ?sy) = sy_arena ?sy"
    using sections_okD(4) [OF ok pr(1)] pr(2) by (auto simp: progress_ok_def)
  then obtain sy' where o: "occur os (Run_section t) ?sy = Some sy'"
    and g': "g' = g\<lparr>gd_system := sy', gd_inside := (gd_inside g)(t := None),
      gd_mutex := (\<lambda>k. optional_unlock ((k, True) \<in> set (pr_held pr)) (gd_mutex g k))\<rparr>"
    using st pr by (auto simp: Let_def simp del: occur.simps split: option.splits)
  obtain F where F: "sys_ok os ?sy F" using sections_okD(1) [OF ok] by blast
  have "progress_ok sy' s p" if s: "s \<noteq> t" and p: "gd_inside g s = Some p" for s p
  proof (rule progress_stays [OF F sections_okD(4) [OF ok p] o])
    show "\<not> calls_thread s (Run_section t)" "Run_section t \<noteq> Run_section s" using s by (simp_all add: calls_thread_def)
    show "load_part k (sy_arena sy') = load_part k (sy_arena ?sy)" if "pr_loaded p \<noteq> None" and k: "k \<in> ?part s" for k
    proof (rule event_elsewhere [OF o])
      have "pr_wanted p = []" using that(1) sections_okD(4) [OF ok p] by (simp add: progress_ok_def)
      from part_held [OF ok p this k] have "gd_mutex g k = Some s" .
      then show "k \<notin> ?part r" if "Run_section t = Run_section r" for r
        using part_held [OF ok pr(1) w] s that by auto
    qed
  qed
  then have "\<forall>s p. gd_inside g' s = Some p \<longrightarrow> progress_ok sy' s p" by (simp add: g')
  moreover have "gd_mutex g' k = Some s \<longleftrightarrow> (\<exists>p. gd_inside g' s = Some p \<and> (k, True) \<in> set (pr_held p))" for k s
  proof -
    have l: "gd_mutex g k = Some r \<longleftrightarrow> (\<exists>p. gd_inside g r = Some p \<and> (k, True) \<in> set (pr_held p))" for r
      using sections_okD(3) [OF ok] by (simp add: locks_ok_def)
    show ?thesis using l [of s] l [of t] pr(1) by (cases "s = t") (auto simp: g' optional_unlock_def)
  qed
  ultimately show ?thesis
    using sections_ok_event [OF ok o legal_section] o unfolding sections_ok_def locks_ok_def by (simp add: g' del: occur.simps)
qed

lemma sections_ok_steps:
  assumes "take_steps os ss g = Some g'" and "sections_ok os g" and "\<forall>e. Client e \<in> set ss \<longrightarrow> legal_event os e"
  shows "sections_ok os g' \<and> run_schedule os (events_of ss) (gd_system g) = Some (gd_system g')"
  using assms
proof (induction ss arbitrary: g)
  case (Cons s ss)
  then obtain g1 where g1: "take_step os s g = Some g1" "take_steps os ss g1 = Some g'" by (auto split: option.splits)
  have legal: "\<forall>e. Client e \<in> set ss \<longrightarrow> legal_event os e" using Cons.prems(3) by simp
  note ok = Cons.prems(2) and IH = Cons.IH [OF g1(2) _ legal]
  show ?case
  proof (cases s)
    case (Client e)
    have "legal_event os e" using Cons.prems(3) Client by simp
    from sections_ok_client [OF ok g1(1) [unfolded Client] this] IH show ?thesis by (simp add: Client)
  next
    case (Enter t)
    from sections_ok_enter [OF ok g1(1) [unfolded Enter]] IH show ?thesis by (simp add: Enter)
  next
    case (Acquire t)
    from sections_ok_acquire [OF ok g1(1) [unfolded Acquire]] IH show ?thesis by (simp add: Acquire)
  next
    case (Load t)
    from sections_ok_load [OF ok g1(1) [unfolded Load]] IH show ?thesis by (simp add: Load)
  next
    case (Leave t)
    from sections_ok_leave [OF ok g1(1) [unfolded Leave]] IH show ?thesis by (simp add: Leave del: occur.simps)
  qed
qed simp

lemma sections_ok_unguarded: "sys_ok os sy F \<Longrightarrow> synchronized (sy_arena sy) \<Longrightarrow> sections_ok os (unguarded sy)"
  by (auto simp: sections_ok_def locks_ok_def unguarded_def)

lemma steps_from_quiet:
  assumes "ar_owns os ar w F U" and "synchronized ar" and "\<forall>e. Client e \<in> set ss \<longrightarrow> legal_event os e"
    and "take_steps os ss (unguarded (idle_threads n ar w U)) = Some g"
  shows "sections_ok os g" and "run_schedule os (events_of ss) (idle_threads n ar w U) = Some (gd_system g)"
    and "length (sy_calls (gd_system g)) = n"
proof -
  have "synchronized (sy_arena (idle_threads n ar w U))" using assms(2) by (simp add: idle_threads_def)
  from sections_ok_steps [OF assms(4) sections_ok_unguarded [OF start_ok [OF assms(1)] this] assms(3)]
  show "sections_ok os g" and r: "run_schedule os (events_of ss) (idle_threads n ar w U) = Some (gd_system g)"
    by (simp_all add: unguarded_def)
  show "length (sy_calls (gd_system g)) = n" using run_schedule_length [OF r] by (simp add: idle_threads_def)
qed

text \<open>A section that has loaded is alone with its object, and sees it as it is.\<close>

lemma loaded_fields:
  assumes ok: "sections_ok os g" and pr: "gd_inside g t = Some pr" and l: "pr_loaded pr = Some loaded" "(k, c) \<in> set loaded"
  shows "c = load_part k (sy_arena (gd_system g))" and "gd_mutex g k = Some t"
proof -
  have P: "pr_wanted pr = []" "loaded = map (\<lambda>k. (k, load_part k (sy_arena (gd_system g))))
      (section_part (sy_calls (gd_system g) ! t) (sy_arena (gd_system g)) (w_mem (sy_world (gd_system g))))"
    using sections_okD(4) [OF ok pr] l(1) by (auto simp: progress_ok_def)
  then show "c = load_part k (sy_arena (gd_system g))" using l(2) by auto
  show "gd_mutex g k = Some t" using l(2) P by (intro part_held [OF ok pr]) auto
qed

subsection \<open>No deadlock\<close>

lemma holds_or_waits:
  assumes ok: "sections_ok os g" and pr: "gd_inside g t = Some pr"
  shows "pr_held pr = [] \<or> pr_wanted pr = []"
proof -
  have "length (rev (pr_held pr) @ pr_wanted pr) \<le> 1"
    using sections_okD(4) [OF ok pr] one_guard unfolding progress_ok_def by metis
  then show ?thesis by (cases "pr_held pr"; cases "pr_wanted pr") auto
qed

text \<open>A thread that waits holds no mutex.\<close>

lemma waits_empty_handed:
  assumes ok: "sections_ok os g" and w: "waits_for g t k"
  shows "gd_mutex g j \<noteq> Some t"
proof -
  obtain pr rest where pr: "gd_inside g t = Some pr" "pr_wanted pr = (k, True) # rest" using w by (auto simp: waits_for_def)
  then have "pr_held pr = []" using holds_or_waits [OF ok pr(1)] by simp
  then show ?thesis using sections_okD(3) [OF ok] pr(1) by (auto simp: locks_ok_def)
qed

lemma can_go_on:
  assumes ok: "sections_ok os g" and pr: "gd_inside g t = Some pr" "pr_wanted pr = []"
  shows "can_go os g t"
proof (cases "pr_loaded pr")
  case None
  then have "take_step os (Load t) g \<noteq> None" using pr by (simp add: Let_def)
  then show ?thesis unfolding can_go_def by blast
next
  case (Some loaded)
  let ?sy = "gd_system g"
  obtain F where F: "sys_ok os ?sy F" using sections_okD(1) [OF ok] by blast
  obtain sy' where "occur os (Run_section t) ?sy = Some sy'" using occur_ok [OF F legal_section] by blast
  moreover have "fold store_part loaded (sy_arena ?sy) = sy_arena ?sy"
    using sections_okD(4) [OF ok pr(1)] Some by (auto simp: progress_ok_def)
  ultimately have "take_step os (Leave t) g \<noteq> None" using pr Some by (simp add: Let_def del: occur.simps)
  then show ?thesis unfolding can_go_def by blast
qed

lemma steps_progress:
  assumes ok: "sections_ok os g" and t: "t < length (sy_calls (gd_system g))"
  shows "can_go os g t \<or> (\<exists>k r. waits_for g t k \<and> gd_mutex g k = Some r \<and> can_go os g r)"
proof (cases "gd_inside g t")
  case None
  then have "take_step os (Enter t) g \<noteq> None" using t by (simp add: Let_def)
  then show ?thesis unfolding can_go_def by blast
next
  case (Some pr)
  show ?thesis
  proof (cases "pr_wanted pr")
    case Nil
    then show ?thesis using can_go_on [OF ok Some] by blast
  next
    case (Cons ks rest)
    obtain k sync where ks: "ks = (k, sync)" by (cases ks)
    have True: sync using progress_locks [OF ok Some, of k sync] Cons ks by simp
    show ?thesis
    proof (cases "gd_mutex g k")
      case None
      then have "take_step os (Acquire t) g \<noteq> None" using Some Cons ks True by (simp add: optional_lock_def)
      then show ?thesis unfolding can_go_def by blast
    next
      case r: (Some r)
      then obtain p where p: "gd_inside g r = Some p" "(k, True) \<in> set (pr_held p)"
        using sections_okD(3) [OF ok] by (auto simp: locks_ok_def)
      then have "pr_wanted p = []" using holds_or_waits [OF ok p(1)] by auto
      from can_go_on [OF ok p(1) this] have "can_go os g r" .
      moreover have "waits_for g t k" using Some Cons ks True r by (simp add: waits_for_def)
      ultimately show ?thesis using r by blast
    qed
  qed
qed

end
