(* ===== verification/Manager_Schedules.thy ===== *)
theory Manager_Schedules
  imports Arena_Manager Arena_Schedules
begin

section \<open>Threads on the arenas of all nodes\<close>

text \<open>
  A machine has the arenas of the manager, and threads each of which may be in the middle of a
  call to one of them. A thread that returns a block of another node reads the node in its header
  and goes on in that arena, while other threads run there and everywhere else. This theory
  composes the schedules of \<open>Arena_Schedules\<close> over the family of the arenas: a section of a
  thread stays inside the part of the address space that its arena owns or takes from the
  kernel, so the others are framed. Between schedules the manager is in a state of its contract.
\<close>

subsection \<open>Machines\<close>

text \<open>A thread is the index of the arena that it is in, and its activity there.\<close>

record machine =
  mc_arenas :: "arena_ptr list"
  mc_world :: world
  mc_threads :: "(nat \<times> activity) list"
  mc_held :: grants

datatype move =
    Request nat nat u64 u64
  | Return nat nat ptr
  | Write ptr mem
  | Section nat
  | Collect nat

text \<open>The beginning of \<open>NumaArena::deallocate\<close> on the arena \<open>i\<close>, up to the first section.\<close>

definition begin_return :: "arena_ptr list \<Rightarrow> nat \<Rightarrow> ptr \<Rightarrow> mem \<Rightarrow> nat \<times> activity" where
  "begin_return as i p m =
    (if p = nullptr then (i, On_small (At_freed (Inr ())))
     else if ar_is_foreign p (snd (as ! i)) m then
       case arena_for_node as (sint (bh_node_id m (from_user_ptr p))) of
         Inl e \<Rightarrow> (i, On_small (At_freed (Inl e)))
       | Inr k \<Rightarrow> (k, begin_deallocate True p (snd (as ! k)) m)
     else (i, begin_deallocate False p (snd (as ! i)) m))"

definition at_rest :: "machine \<Rightarrow> nat \<Rightarrow> bool" where
  "at_rest mc t \<longleftrightarrow> t < length (mc_threads mc) \<and> snd (mc_threads mc ! t) = On_small At_idle"

fun happen :: "os \<Rightarrow> move \<Rightarrow> machine \<Rightarrow> machine option" where
  "happen os (Request t i sz alignment) mc =
     Some (if at_rest mc t \<and> i < length (mc_arenas mc)
           then mc\<lparr>mc_threads := (mc_threads mc)[t := (i, begin_allocate os sz alignment)]\<rparr> else mc)"
| "happen os (Return t i p) mc =
     Some (if at_rest mc t \<and> i < length (mc_arenas mc) \<and> mc_held mc p \<noteq> None
           then mc\<lparr>mc_threads := (mc_threads mc)[t := begin_return (mc_arenas mc) i p (w_mem (mc_world mc))],
                   mc_held := (mc_held mc)(p := None)\<rparr>
           else mc)"
| "happen os (Write p f) mc =
     Some (case mc_held mc p of
             None \<Rightarrow> mc
           | Some A \<Rightarrow> mc\<lparr>mc_world := (mc_world mc)\<lparr>w_mem :=
               (\<lambda>x. if x \<in> A then f x else w_mem (mc_world mc) x)\<rparr>\<rparr>)"
| "happen os (Section t) mc =
     (if t < length (mc_threads mc) then
        case mc_threads mc ! t of (k, call) \<Rightarrow>
          (case advance_activity os call (snd (mc_arenas mc ! k)) (mc_world mc) of
             None \<Rightarrow> None
           | Some (call', ar, w) \<Rightarrow>
               Some (mc\<lparr>mc_arenas := (mc_arenas mc)[k := (fst (mc_arenas mc ! k), ar)], mc_world := w,
                        mc_threads := (mc_threads mc)[t := (k, call')]\<rparr>))
      else Some mc)"
| "happen os (Collect t) mc =
     Some (if t < length (mc_threads mc) then
             case mc_threads mc ! t of (k, call) \<Rightarrow>
               (case taken call of
                  Some (p, A) \<Rightarrow> mc\<lparr>mc_threads := (mc_threads mc)[t := (k, On_small At_idle)],
                                    mc_held := (mc_held mc)(p \<mapsto> A)\<rparr>
                | None \<Rightarrow>
                    (if allocated call \<noteq> None \<or> freed call \<noteq> None
                     then mc\<lparr>mc_threads := (mc_threads mc)[t := (k, On_small At_idle)]\<rparr> else mc))
           else mc)"

fun run_moves :: "os \<Rightarrow> move list \<Rightarrow> machine \<Rightarrow> machine option" where
  "run_moves os [] mc = Some mc"
| "run_moves os (v # vs) mc = (case happen os v mc of None \<Rightarrow> None | Some mc' \<Rightarrow> run_moves os vs mc')"

definition machine_at_rest :: "nat \<Rightarrow> arena_ptr list \<Rightarrow> world \<Rightarrow> grants \<Rightarrow> machine" where
  "machine_at_rest n as w U =
    \<lparr>mc_arenas = as, mc_world = w, mc_threads = replicate n (0, On_small At_idle), mc_held = U\<rparr>"

definition move_names :: "ptr \<Rightarrow> move \<Rightarrow> bool" where
  "move_names p v \<longleftrightarrow> (case v of Return t i q \<Rightarrow> q = p | Write q f \<Rightarrow> q = p | _ \<Rightarrow> False)"

definition legal_move :: "os \<Rightarrow> move \<Rightarrow> bool" where
  "legal_move os v \<longleftrightarrow> (case v of Request t i sz alignment \<Rightarrow> ar_legal os (sz, alignment) | _ \<Rightarrow> True)"

subsection \<open>One arena and its threads\<close>

definition calls_on :: "nat \<Rightarrow> (nat \<times> activity) list \<Rightarrow> activity list" where
  "calls_on k threads = map (\<lambda>(i, call). if i = k then call else On_small At_idle) threads"

lemma length_calls_on [simp]: "length (calls_on k threads) = length threads"
  by (simp add: calls_on_def)

lemma calls_on_nth:
  "t < length threads \<Longrightarrow> calls_on k threads ! t = (if fst (threads ! t) = k then snd (threads ! t) else On_small At_idle)"
  by (simp add: calls_on_def split: prod.split)

text \<open>A thread that is in arena \<open>k\<close> or at rest does something there: the other arenas do not notice.\<close>

lemma calls_on_update:
  assumes "t < length threads" and "fst (threads ! t) = k \<or> snd (threads ! t) = On_small At_idle"
  shows "calls_on j (threads[t := (k, call)]) = (if j = k then (calls_on k threads)[t := call] else calls_on j threads)"
  using assms by (intro nth_equalityI) (auto simp: calls_on_nth nth_list_update)

definition stored :: "os \<Rightarrow> u64 \<Rightarrow> arena_ptr \<times> activity list \<Rightarrow> world \<Rightarrow> nat set \<Rightarrow> grants \<Rightarrow> bool" where
  "stored os asz c w F U \<longleftrightarrow>
     (\<exists>F0. shared_ok os (snd (fst c)) w (snd c) U F0 \<and> F = bytes_of (fst (fst c)) (span_bytes os asz) \<union> F0 \<and>
        bytes_of (fst (fst c)) (span_bytes os asz) \<inter> F0 = {} \<and>
        bytes_of (fst (fst c)) (span_bytes os asz) \<subseteq> mapped w \<and>
        fst (fst c) \<noteq> nullptr \<and> unat (page_size os) dvd unat (fst (fst c)))"

lemma stored_step:
  assumes o: "stored os asz ((mem, ar), calls) w F U"
    and step: "\<And>F0. shared_ok os ar w calls U F0 \<Longrightarrow> \<exists>F0'. shared_ok os ar' w' calls' U' F0' \<and> frame_step F0 w F0' w'"
  shows "\<exists>F'. stored os asz ((mem, ar'), calls') w' F' U' \<and> frame_step F w F' w'"
proof -
  let ?S = "bytes_of mem (span_bytes os asz)"
  obtain F0 where F0: "shared_ok os ar w calls U F0" "F = ?S \<union> F0" "?S \<inter> F0 = {}" "?S \<subseteq> mapped w"
    "mem \<noteq> nullptr" "unat (page_size os) dvd unat mem" using o by (auto simp: stored_def)
  obtain F0' where F0': "shared_ok os ar' w' calls' U' F0'" "frame_step F0 w F0' w'" using step [OF F0(1)] by blast
  note K = frame_step_mem [OF F0(3,4) F0'(2)]
  have "frame_step F w (?S \<union> F0') w'"
    using frame_step_extend [OF F0'(2) F0(4,3)] by (simp add: F0(2) Un_commute)
  moreover have "stored os asz ((mem, ar'), calls') w' (?S \<union> F0') U'"
    using F0'(1) F0(5,6) K unfolding stored_def by auto
  ultimately show ?thesis by blast
qed

text \<open>What leaves the arena and the world alone.\<close>

lemma stored_calls:
  assumes o: "stored os asz ((mem, ar), calls) w F U"
    and step: "\<And>F0. shared_ok os ar w calls U F0 \<Longrightarrow> shared_ok os ar w calls' U' F0"
  shows "stored os asz ((mem, ar), calls') w F U'"
  using assms unfolding stored_def by auto

lemma storedE:
  assumes "stored os asz c w F U"
  obtains F0 where "shared_ok os (snd (fst c)) w (snd c) U F0" and "F0 \<subseteq> F"
  using assms unfolding stored_def by blast

interpretation cell: territory "stored os asz" for os asz
proof unfold_locales
  fix c w F U assume o: "stored os asz c w F U"
  obtain F0 where F0: "shared_ok os (snd (fst c)) w (snd c) U F0" "F0 \<subseteq> F" using o by (rule storedE)
  show "F \<subseteq> mapped w" using o unfolding stored_def by (auto dest!: shared_mapped)
  show "granted U \<subseteq> F" using shared_granted [OF F0(1)] F0(2) by simp
  show "unat (from_user_ptr p) \<in> F" if "U p \<noteq> None" for p using shared_header(2) [OF F0(1) that] F0(2) by auto
  fix G w' G' assume fs: "frame_step G w G' w'" and dj: "F \<inter> G = {}"
  let ?S = "bytes_of (fst (fst c)) (span_bytes os asz)"
  have "?S \<subseteq> mapped w" "?S \<inter> G = {}" using o dj unfolding stored_def by auto
  then have "?S \<subseteq> mapped w'" using frame_step_mem [OF _ _ fs] by blast
  then show "stored os asz c w' F U"
    using o shared_frame [OF _ fs] dj unfolding stored_def Int_Un_distrib2 Un_empty by blast
qed

subsection \<open>The family of the arenas\<close>

definition cells :: "machine \<Rightarrow> (arena_ptr \<times> activity list) list" where
  "cells mc = map (\<lambda>k. (mc_arenas mc ! k, calls_on k (mc_threads mc))) [0..<length (mc_arenas mc)]"

lemma length_cells [simp]: "length (cells mc) = length (mc_arenas mc)"
  by (simp add: cells_def)

lemma cells_nth [simp]:
  "k < length (mc_arenas mc) \<Longrightarrow> cells mc ! k = (mc_arenas mc ! k, calls_on k (mc_threads mc))"
  by (simp add: cells_def)

definition nodes_ok :: "arena_ptr list \<Rightarrow> bool" where
  "nodes_ok as \<longleftrightarrow> (\<forall>i<length as. ar_node_id (snd (as ! i)) = int i \<and> ar_route_foreign (snd (as ! i)))"

text \<open>A machine with the parts and the grants of its arenas.\<close>

definition machine_inv :: "os \<Rightarrow> u64 \<Rightarrow> machine \<Rightarrow> nat set list \<Rightarrow> grants list \<Rightarrow> bool" where
  "machine_inv os asz mc Fs Us \<longleftrightarrow> family (stored os asz) (cells mc) (mc_world mc) Fs Us \<and>
     nodes_ok (mc_arenas mc) \<and> (\<forall>th\<in>set (mc_threads mc). fst th < length (mc_arenas mc)) \<and> merged Us (mc_held mc)"

definition machine_ok :: "os \<Rightarrow> u64 \<Rightarrow> machine \<Rightarrow> nat set \<Rightarrow> bool" where
  "machine_ok os asz mc F \<longleftrightarrow> (\<exists>Fs Us. machine_inv os asz mc Fs Us \<and> F = fam Fs)"

lemma machine_invD:
  assumes "machine_inv os asz mc Fs Us"
  shows "family (stored os asz) (cells mc) (mc_world mc) Fs Us"
    and "k < length (mc_arenas mc) \<Longrightarrow> ar_node_id (snd (mc_arenas mc ! k)) = int k \<and> ar_route_foreign (snd (mc_arenas mc ! k))"
    and "t < length (mc_threads mc) \<Longrightarrow> fst (mc_threads mc ! t) < length (mc_arenas mc)"
    and "merged Us (mc_held mc)" and "length Us = length (mc_arenas mc)"
    and "k < length (mc_arenas mc) \<Longrightarrow>
      stored os asz (mc_arenas mc ! k, calls_on k (mc_threads mc)) (mc_world mc) (Fs ! k) (Us ! k)"
  using assms by (auto simp: machine_inv_def nodes_ok_def family_def)

text \<open>A thread does something in one arena.\<close>

lemma machine_step:
  assumes inv: "machine_inv os asz mc Fs Us" and t: "t < length (mc_threads mc)" and k: "k < length (mc_arenas mc)"
    and who: "fst (mc_threads mc ! t) = k \<or> snd (mc_threads mc ! t) = On_small At_idle"
    and arena: "mc_arenas mc' = (mc_arenas mc)[k := (fst (mc_arenas mc ! k), ar')]"
    and thread: "mc_threads mc' = (mc_threads mc)[t := (k, call)]"
    and x': "stored os asz ((fst (mc_arenas mc ! k), ar'), (calls_on k (mc_threads mc))[t := call]) (mc_world mc') F' U'"
    and fs: "frame_step (Fs ! k) (mc_world mc) F' (mc_world mc')"
    and keeps: "ar_node_id ar' = ar_node_id (snd (mc_arenas mc ! k))" "ar_route_foreign ar' = ar_route_foreign (snd (mc_arenas mc ! k))"
    and m': "merged (Us[k := U']) (mc_held mc')"
  shows "machine_inv os asz mc' (Fs[k := F']) (Us[k := U'])"
    and "frame_step (fam Fs) (mc_world mc) (fam (Fs[k := F'])) (mc_world mc')"
    and "j < length (mc_arenas mc) \<Longrightarrow> j \<noteq> k \<Longrightarrow> agree_on (Fs ! j) (w_mem (mc_world mc)) (w_mem (mc_world mc'))"
proof -
  note D = machine_invD [OF inv]
  note S = cell.family_step [OF D(1) _ x' fs, unfolded length_cells, OF k]
  have "cells mc' = (cells mc)[k := ((fst (mc_arenas mc ! k), ar'), (calls_on k (mc_threads mc))[t := call])]"
  proof (rule nth_equalityI)
    fix j assume "j < length (cells mc')"
    then have j: "j < length (mc_arenas mc)" by (simp add: arena)
    then show "cells mc' ! j = (cells mc)[k := ((fst (mc_arenas mc ! k), ar'), (calls_on k (mc_threads mc))[t := call])] ! j"
      using calls_on_update [OF t who] by (simp add: arena thread nth_list_update)
  qed (simp add: arena)
  moreover have "nodes_ok (mc_arenas mc')" using D(2) keeps k by (simp add: nodes_ok_def arena nth_list_update)
  moreover have "fst th < length (mc_arenas mc)" if "th \<in> set (mc_threads mc')" for th
    using that D(3) k t by (auto simp: thread in_set_conv_nth nth_list_update split: if_splits)
  ultimately show "machine_inv os asz mc' (Fs[k := F']) (Us[k := U'])"
    using S(1) m' by (simp add: machine_inv_def arena)
  show "frame_step (fam Fs) (mc_world mc) (fam (Fs[k := F'])) (mc_world mc')" by (rule S(2))
  show "j < length (mc_arenas mc) \<Longrightarrow> j \<noteq> k \<Longrightarrow> agree_on (Fs ! j) (w_mem (mc_world mc)) (w_mem (mc_world mc'))"
    using S(3) by simp
qed

text \<open>A thread begins a call or ends it: the arenas and the world stay as they are.\<close>

lemma machine_calls:
  assumes inv: "machine_inv os asz mc Fs Us" and t: "t < length (mc_threads mc)" and k: "k < length (mc_arenas mc)"
    and who: "fst (mc_threads mc ! t) = k \<or> snd (mc_threads mc ! t) = On_small At_idle"
    and mc': "mc_arenas mc' = mc_arenas mc" "mc_world mc' = mc_world mc" "mc_threads mc' = (mc_threads mc)[t := (k, call)]"
    and step: "\<And>F0. shared_ok os (snd (mc_arenas mc ! k)) (mc_world mc) (calls_on k (mc_threads mc)) (Us ! k) F0 \<Longrightarrow>
      shared_ok os (snd (mc_arenas mc ! k)) (mc_world mc) ((calls_on k (mc_threads mc))[t := call]) U' F0"
    and m': "merged (Us[k := U']) (mc_held mc')"
  shows "machine_inv os asz mc' Fs (Us[k := U'])"
proof -
  obtain mem ar where a: "mc_arenas mc ! k = (mem, ar)" by (cases "mc_arenas mc ! k")
  note o = machine_invD(6) [OF inv k]
  have "stored os asz ((mem, ar), (calls_on k (mc_threads mc))[t := call]) (mc_world mc) (Fs ! k) U'"
    using o step unfolding a snd_conv by (rule stored_calls)
  then have "machine_inv os asz mc' (Fs[k := Fs ! k]) (Us[k := U'])"
    using frame_step_refl [OF cell.land_mapped [OF o]] m' list_update_id [of "mc_arenas mc" k]
    by (intro machine_step(1) [OF inv t k who, of mc' ar]) (simp_all add: mc' a)
  then show ?thesis by simp
qed

lemma machine_home:
  assumes "machine_inv os asz mc Fs Us" and "mc_held mc p = Some A"
  obtains k where "k < length (mc_arenas mc)" and "(Us ! k) p = Some A"
  using machine_invD(4,5) [OF assms(1)] assms(2) unfolding merged_def by metis

lemma machine_part:
  assumes "machine_inv os asz mc Fs Us" and "k < length (mc_arenas mc)" and "(Us ! k) p = Some A"
  shows "A \<subseteq> Fs ! k"
  using cell.land_part [OF machine_invD(6) [OF assms(1,2)]] granted_part [of "Us ! k" p A, OF assms(3)] by blast

lemma machine_only:
  assumes "machine_inv os asz mc Fs Us" and "k < length (mc_arenas mc)" and "(Us ! k) p \<noteq> None"
  shows "\<forall>j<length Us. (Us ! j) p \<noteq> None \<longrightarrow> j = k"
  using cell.family_home [OF machine_invD(1) [OF assms(1)], of _ p k] assms(2,3) machine_invD(5) [OF assms(1)] by simp

subsection \<open>Moves\<close>

text \<open>What a move keeps, in front of the users.\<close>

definition move_ok :: "os \<Rightarrow> u64 \<Rightarrow> move \<Rightarrow> machine \<Rightarrow> nat set \<Rightarrow> machine \<Rightarrow> bool" where
  "move_ok os asz v mc F mc' \<longleftrightarrow>
     (\<exists>F'. machine_ok os asz mc' F' \<and> frame_step F (mc_world mc) F' (mc_world mc')) \<and>
     length (mc_threads mc') = length (mc_threads mc) \<and> length (mc_arenas mc') = length (mc_arenas mc) \<and>
     keeps_headers (mc_held mc) (w_mem (mc_world mc)) (w_mem (mc_world mc')) \<and>
     (\<forall>p A. mc_held mc p = Some A \<and> \<not> move_names p v \<longrightarrow>
        mc_held mc' p = Some A \<and> agree_on A (w_mem (mc_world mc)) (w_mem (mc_world mc')))"

lemma machine_mapped: "machine_ok os asz mc F \<Longrightarrow> F \<subseteq> mapped (mc_world mc)"
  unfolding machine_ok_def by (auto dest: cell.family_mapped [OF machine_invD(1)])

lemma move_ok_same_world:
  assumes "machine_ok os asz mc' F" and "mc_world mc' = mc_world mc"
    and "length (mc_threads mc') = length (mc_threads mc)" "length (mc_arenas mc') = length (mc_arenas mc)"
    and "\<And>p A. mc_held mc p = Some A \<Longrightarrow> \<not> move_names p v \<Longrightarrow> mc_held mc' p = Some A"
  shows "move_ok os asz v mc F mc'"
proof -
  have "frame_step F (mc_world mc) F (mc_world mc')"
    using frame_step_refl [OF machine_mapped [OF assms(1)]] assms(2) by simp
  then show ?thesis unfolding move_ok_def using assms by (auto simp: keeps_headers_def)
qed

lemma move_ok_refl: "machine_ok os asz mc F \<Longrightarrow> move_ok os asz v mc F mc"
  by (intro move_ok_same_world) simp_all

lemma idle_calls_on:
  "at_rest mc t \<Longrightarrow> calls_on k (mc_threads mc) ! t = On_small At_idle"
  by (simp add: at_rest_def calls_on_nth)

lemma request_ok:
  assumes inv: "machine_inv os asz mc Fs Us" and r: "at_rest mc t" and k: "k < length (mc_arenas mc)"
    and legal: "ar_legal os (sz, alignment)"
  shows "machine_inv os asz (mc\<lparr>mc_threads := (mc_threads mc)[t := (k, begin_allocate os sz alignment)]\<rparr>) Fs Us"
proof -
  have t: "t < length (mc_threads mc)" using r by (simp add: at_rest_def)
  note D = machine_invD(4,5) [OF inv]
  have "machine_inv os asz (mc\<lparr>mc_threads := (mc_threads mc)[t := (k, begin_allocate os sz alignment)]\<rparr>) Fs (Us[k := Us ! k])"
  proof (rule machine_calls [OF inv t k])
    fix F0 assume "shared_ok os (snd (mc_arenas mc ! k)) (mc_world mc) (calls_on k (mc_threads mc)) (Us ! k) F0"
    then show "shared_ok os (snd (mc_arenas mc ! k)) (mc_world mc)
        ((calls_on k (mc_threads mc))[t := begin_allocate os sz alignment]) (Us ! k) F0"
      using t by (rule shared_request [OF _ _ idle_calls_on [OF r] legal, unfolded length_calls_on])
  qed (use r D in \<open>simp_all add: at_rest_def\<close>)
  then show ?thesis by simp
qed

text \<open>The header of a block in use leads back to the arena that has it.\<close>

lemma begin_return_home:
  assumes inv: "machine_inv os asz mc Fs Us" and i: "i < length (mc_arenas mc)"
    and k: "k < length (mc_arenas mc)" "(Us ! k) p = Some A"
  shows "begin_return (mc_arenas mc) i p (w_mem (mc_world mc)) =
    (k, begin_deallocate (i \<noteq> k) p (snd (mc_arenas mc ! k)) (w_mem (mc_world mc)))"
proof -
  obtain F0 where "shared_ok os (snd (mc_arenas mc ! k)) (mc_world mc) (calls_on k (mc_threads mc)) (Us ! k) F0"
    using machine_invD(6) [OF inv k(1)] by (rule storedE) simp
  note H = shared_header [OF this, of p]
  have node: "sint (bh_node_id (w_mem (mc_world mc)) (from_user_ptr p)) = int k" and nn: "p \<noteq> nullptr"
    using H(1,3) k machine_invD(2) [OF inv k(1)] by simp_all
  have "ar_is_foreign p (snd (mc_arenas mc ! i)) (w_mem (mc_world mc)) \<longleftrightarrow> i \<noteq> k"
    using machine_invD(2) [OF inv i] by (auto simp: ar_is_foreign_def node)
  moreover have "arena_for_node (mc_arenas mc) (int k) = Inr k" using k(1) by (simp add: arena_for_node_def)
  ultimately show ?thesis using nn by (simp add: begin_return_def node)
qed

lemma return_ok:
  assumes inv: "machine_inv os asz mc Fs Us" and r: "at_rest mc t" and i: "i < length (mc_arenas mc)"
    and p: "mc_held mc p = Some A"
  shows "\<exists>Us'. machine_inv os asz (mc\<lparr>mc_threads := (mc_threads mc)[t := begin_return (mc_arenas mc) i p (w_mem (mc_world mc))],
    mc_held := (mc_held mc)(p := None)\<rparr>) Fs Us'"
proof -
  have t: "t < length (mc_threads mc)" "snd (mc_threads mc ! t) = On_small At_idle" using r by (simp_all add: at_rest_def)
  obtain k where k: "k < length (mc_arenas mc)" "(Us ! k) p = Some A" using machine_home [OF inv p] by blast
  note D = machine_invD(4,5) [OF inv]
  have m': "merged (Us[k := (Us ! k)(p := None)]) ((mc_held mc)(p := None))"
    by (rule merged_give [OF D(1)]) (use k D(2) machine_only [OF inv k(1)] in auto)
  show ?thesis
    unfolding begin_return_home [OF inv i k]
  proof (intro exI, rule machine_calls [OF inv t(1) k(1)])
    fix F0 assume "shared_ok os (snd (mc_arenas mc ! k)) (mc_world mc) (calls_on k (mc_threads mc)) (Us ! k) F0"
    then show "shared_ok os (snd (mc_arenas mc ! k)) (mc_world mc) ((calls_on k (mc_threads mc))
        [t := begin_deallocate (i \<noteq> k) p (snd (mc_arenas mc ! k)) (w_mem (mc_world mc))]) ((Us ! k)(p := None)) F0"
      using t(1) k(2) by (intro shared_return idle_calls_on [OF r]) simp_all
  qed (use t m' in simp_all)
qed

lemma collect_ok:
  assumes inv: "machine_inv os asz mc Fs Us" and t: "t < length (mc_threads mc)" and th: "mc_threads mc ! t = (k, call)"
    and res: "taken call = Some (p, A)"
  shows "\<exists>Us'. machine_inv os asz (mc\<lparr>mc_threads := (mc_threads mc)[t := (k, On_small At_idle)],
    mc_held := (mc_held mc)(p \<mapsto> A)\<rparr>) Fs Us'" and "mc_held mc p = None"
proof -
  note D = machine_invD(4,5) [OF inv]
  have k: "k < length (mc_arenas mc)" using machine_invD(3) [OF inv t] th by simp
  have call: "calls_on k (mc_threads mc) ! t = call" using t th by (simp add: calls_on_nth)
  note T = shared_take [OF _ _ res [folded call], unfolded length_calls_on, OF _ t]
  let ?U' = "(Us ! k)(p \<mapsto> A)"
  obtain F0 where F0: "shared_ok os (snd (mc_arenas mc ! k)) (mc_world mc) (calls_on k (mc_threads mc)) (Us ! k) F0"
    "F0 \<subseteq> Fs ! k" using machine_invD(6) [OF inv k] by (rule storedE) simp
  have mine: "unat (from_user_ptr p) \<in> Fs ! k"
    using shared_header(2) [of os _ _ _ ?U' F0 p] T [OF F0(1)] F0(2) by auto
  have none: "(Us ! j) p = None" if j: "j < length Us" for j
  proof (cases "j = k")
    case True
    then show ?thesis using T [OF F0(1)] by simp
  next
    case False
    have j': "j < length (mc_arenas mc)" using j D(2) by simp
    then have "Fs ! j \<inter> Fs ! k = {}" using machine_invD(1) [OF inv] k False by (simp add: family_def)
    then show ?thesis using cell.land_header [OF machine_invD(6) [OF inv j'], of p] mine by blast
  qed
  then show new: "mc_held mc p = None" using D(1) by (simp add: merged_None)
  have m': "merged (Us[k := ?U']) ((mc_held mc)(p \<mapsto> A))" using merged_take [OF D(1) _ new] k D(2) by simp
  show "\<exists>Us'. machine_inv os asz (mc\<lparr>mc_threads := (mc_threads mc)[t := (k, On_small At_idle)],
      mc_held := (mc_held mc)(p \<mapsto> A)\<rparr>) Fs Us'"
  proof (intro exI, rule machine_calls [OF inv t k])
    fix F0 assume "shared_ok os (snd (mc_arenas mc ! k)) (mc_world mc) (calls_on k (mc_threads mc)) (Us ! k) F0"
    from T [OF this] show "shared_ok os (snd (mc_arenas mc ! k)) (mc_world mc)
        ((calls_on k (mc_threads mc))[t := On_small At_idle]) ?U' F0" by simp
  qed (use th m' in simp_all)
qed

lemma finish_ok:
  assumes inv: "machine_inv os asz mc Fs Us" and t: "t < length (mc_threads mc)" and th: "mc_threads mc ! t = (k, call)"
    and res: "allocated call = Some (Inl e) \<or> freed call = Some r"
  shows "machine_inv os asz (mc\<lparr>mc_threads := (mc_threads mc)[t := (k, On_small At_idle)]\<rparr>) Fs Us"
proof -
  have k: "k < length (mc_arenas mc)" using machine_invD(3) [OF inv t] th by simp
  have call: "calls_on k (mc_threads mc) ! t = call" using t th by (simp add: calls_on_nth)
  have "machine_inv os asz (mc\<lparr>mc_threads := (mc_threads mc)[t := (k, On_small At_idle)]\<rparr>) Fs (Us[k := Us ! k])"
    by (rule machine_calls [OF inv t k])
      (use th t machine_invD(4) [OF inv] shared_done [OF _ _ res [folded call]] in simp_all)
  then show ?thesis by simp
qed

text \<open>Blocks of the arena that moves keep their contents by its own account, the others are framed.\<close>

lemma machine_agree:
  assumes inv: "machine_inv os asz mc Fs Us" and p: "mc_held mc p = Some A"
    and mine: "(Us ! k) p = Some A \<Longrightarrow> agree_on A (w_mem (mc_world mc)) m'"
    and others: "\<And>j. j < length (mc_arenas mc) \<Longrightarrow> j \<noteq> k \<Longrightarrow> agree_on (Fs ! j) (w_mem (mc_world mc)) m'"
  shows "agree_on A (w_mem (mc_world mc)) m'"
proof -
  obtain j where j: "j < length (mc_arenas mc)" "(Us ! j) p = Some A" using machine_home [OF inv p] by blast
  show ?thesis
  proof (cases "j = k")
    case True
    then show ?thesis using mine j(2) by simp
  next
    case False
    from others [OF j(1) this] machine_part [OF inv j] show ?thesis by (rule agree_on_mono)
  qed
qed

lemma machine_headers:
  assumes inv: "machine_inv os asz mc Fs Us" and k: "k < length (mc_arenas mc)"
    and fs: "frame_step (Fs ! k) (mc_world mc) F' w'" and ks: "keeps_headers (Us ! k) (w_mem (mc_world mc)) (w_mem w')"
  shows "keeps_headers (mc_held mc) (w_mem (mc_world mc)) (w_mem w')"
  unfolding keeps_headers_def
proof (intro allI impI)
  fix p assume "mc_held mc p \<noteq> None"
  then obtain A where "mc_held mc p = Some A" by blast
  then obtain j where j: "j < length (mc_arenas mc)" "(Us ! j) p = Some A" using machine_home [OF inv] by blast
  have "keeps_headers (Us ! j) (w_mem (mc_world mc)) (w_mem w')"
  proof (cases "j = k")
    case False
    obtain F0 where F0: "shared_ok os (snd (mc_arenas mc ! j)) (mc_world mc) (calls_on j (mc_threads mc)) (Us ! j) F0"
      "F0 \<subseteq> Fs ! j" using machine_invD(6) [OF inv j(1)] by (rule storedE) simp
    have "Fs ! j \<inter> Fs ! k = {}" using machine_invD(1) [OF inv] j(1) k False by (simp add: family_def)
    then have "F0 \<inter> Fs ! k = {}" using F0(2) by blast
    from shared_frame(2) [OF F0(1) fs this] show ?thesis by (simp add: untouched_def)
  qed (use ks in simp)
  from keeps_headersD [OF this, of p] j(2)
  show "bh_node_id (w_mem w') (from_user_ptr p) = bh_node_id (w_mem (mc_world mc)) (from_user_ptr p) \<and>
      bh_size_class (w_mem w') (from_user_ptr p) = bh_size_class (w_mem (mc_world mc)) (from_user_ptr p)" by simp
qed

lemma section_ok:
  assumes inv: "machine_inv os asz mc Fs Us" and t: "t < length (mc_threads mc)"
  shows "\<exists>mc'. happen os (Section t) mc = Some mc' \<and> move_ok os asz (Section t) mc (fam Fs) mc'"
proof -
  obtain k call where th: "mc_threads mc ! t = (k, call)" by (cases "mc_threads mc ! t")
  have k: "k < length (mc_arenas mc)" using machine_invD(3) [OF inv t] th by simp
  obtain mem ar where a: "mc_arenas mc ! k = (mem, ar)" by (cases "mc_arenas mc ! k")
  let ?cs = "calls_on k (mc_threads mc)" and ?w = "mc_world mc"
  have call: "?cs ! t = call" using t th by (simp add: calls_on_nth)
  have o: "stored os asz ((mem, ar), ?cs) ?w (Fs ! k) (Us ! k)" using machine_invD(6) [OF inv k] by (simp add: a)
  obtain F0 where F0: "shared_ok os ar ?w ?cs (Us ! k) F0" using o unfolding stored_def by auto
  have adv: "\<exists>call' ar' w' F0'. advance_activity os call ar ?w = Some (call', ar', w') \<and>
      shared_ok os ar' w' (?cs[t := call']) (Us ! k) F0' \<and> frame_step F0 ?w F0' w' \<and>
      untouched (Us ! k) (w_mem ?w) (w_mem w')" if "shared_ok os ar ?w ?cs (Us ! k) F0" for F0
    using shared_advance [OF that, of t] t by (simp add: call)
  obtain call' ar' w' where A: "advance_activity os call ar ?w = Some (call', ar', w')"
    and un: "untouched (Us ! k) (w_mem ?w) (w_mem w')" using adv [OF F0] by blast
  have ag: "agree_on (granted (Us ! k)) (w_mem ?w) (w_mem w')" and ks: "keeps_headers (Us ! k) (w_mem ?w) (w_mem w')"
    using un by (simp_all add: untouched_def)
  obtain F' where F': "stored os asz ((mem, ar'), ?cs[t := call']) w' F' (Us ! k)" "frame_step (Fs ! k) ?w F' w'"
    using stored_step [OF o, of ar' w' "?cs[t := call']" "Us ! k"] adv A by auto
  define mc' where "mc' = mc\<lparr>mc_arenas := (mc_arenas mc)[k := (mem, ar')], mc_world := w',
    mc_threads := (mc_threads mc)[t := (k, call')]\<rparr>"
  have run: "happen os (Section t) mc = Some mc'" using t by (simp add: th a A mc'_def)
  have S: "machine_inv os asz mc' (Fs[k := F']) (Us[k := Us ! k]) \<and> frame_step (fam Fs) ?w (fam (Fs[k := F'])) w' \<and>
      (\<forall>j<length (mc_arenas mc). j \<noteq> k \<longrightarrow> agree_on (Fs ! j) (w_mem ?w) (w_mem w'))"
    using machine_step [OF inv t k, of mc' ar' call' F' "Us ! k"] F' th advance_activity_keeps [OF A] machine_invD(4) [OF inv]
    by (simp add: mc'_def a)
  then have "machine_ok os asz mc' (fam (Fs[k := F']))" unfolding machine_ok_def by blast
  moreover have "agree_on B (w_mem ?w) (w_mem w')" if "mc_held mc p = Some B" for p B
  proof (rule machine_agree [OF inv that, of k])
    show "agree_on B (w_mem ?w) (w_mem w')" if "(Us ! k) p = Some B"
      by (rule agree_on_mono [OF ag]) (rule granted_part [of "Us ! k" p B, OF that])
  qed (use S in blast)
  moreover have "keeps_headers (mc_held mc) (w_mem ?w) (w_mem w')" by (rule machine_headers [OF inv k F'(2) ks])
  ultimately have "move_ok os asz (Section t) mc (fam Fs) mc'"
    using S unfolding move_ok_def by (simp add: mc'_def) blast
  with run show ?thesis by blast
qed

text \<open>A write in one arena while no thread moves, and a change of what it has granted.\<close>

lemma machine_regroup:
  assumes inv: "machine_inv os asz mc Fs Us" and k: "k < length (mc_arenas mc)"
    and x': "stored os asz (mc_arenas mc ! k, calls_on k (mc_threads mc)) w' F' U'"
    and fs: "frame_step (Fs ! k) (mc_world mc) F' w'" and m': "merged (Us[k := U']) V'"
  shows "machine_inv os asz (mc\<lparr>mc_world := w', mc_held := V'\<rparr>) (Fs[k := F']) (Us[k := U'])"
    and "frame_step (fam Fs) (mc_world mc) (fam (Fs[k := F'])) w'"
    and "j < length (mc_arenas mc) \<Longrightarrow> j \<noteq> k \<Longrightarrow> agree_on (Fs ! j) (w_mem (mc_world mc)) (w_mem w')"
proof -
  note S = cell.family_step [OF machine_invD(1) [OF inv] _ x' fs, unfolded length_cells, OF k]
  have "cells mc ! k = (mc_arenas mc ! k, calls_on k (mc_threads mc))" using k by simp
  then have "family (stored os asz) (cells (mc\<lparr>mc_world := w', mc_held := V'\<rparr>)) w' (Fs[k := F']) (Us[k := U'])"
    using S(1) list_update_id [of "cells mc" k] by (simp add: cells_def)
  then show "machine_inv os asz (mc\<lparr>mc_world := w', mc_held := V'\<rparr>) (Fs[k := F']) (Us[k := U'])"
    using inv m' by (simp add: machine_inv_def)
  show "frame_step (fam Fs) (mc_world mc) (fam (Fs[k := F'])) w'" by (rule S(2))
  show "j < length (mc_arenas mc) \<Longrightarrow> j \<noteq> k \<Longrightarrow> agree_on (Fs ! j) (w_mem (mc_world mc)) (w_mem w')" using S(3) by simp
qed

text \<open>Any write to the bytes of one block.\<close>

lemma machine_write:
  assumes ok: "machine_ok os asz mc F" and p: "mc_held mc p = Some A"
    and ag: "agree_on (- A) (w_mem (mc_world mc)) m'"
  shows "machine_ok os asz (mc\<lparr>mc_world := (mc_world mc)\<lparr>w_mem := m'\<rparr>\<rparr>) F"
    and "keeps_headers (mc_held mc) (w_mem (mc_world mc)) m'"
    and "mc_held mc q = Some B \<Longrightarrow> q \<noteq> p \<Longrightarrow> agree_on B (w_mem (mc_world mc)) m'"
    and "frame_step F (mc_world mc) F ((mc_world mc)\<lparr>w_mem := m'\<rparr>)"
proof -
  let ?w = "mc_world mc" and ?w' = "(mc_world mc)\<lparr>w_mem := m'\<rparr>"
  obtain Fs Us where inv: "machine_inv os asz mc Fs Us" and F: "F = fam Fs" using ok unfolding machine_ok_def by blast
  obtain k where k: "k < length (mc_arenas mc)" "(Us ! k) p = Some A" using machine_home [OF inv p] by blast
  obtain mem ar where a: "mc_arenas mc ! k = (mem, ar)" by (cases "mc_arenas mc ! k")
  have o: "stored os asz ((mem, ar), calls_on k (mc_threads mc)) ?w (Fs ! k) (Us ! k)"
    using machine_invD(6) [OF inv k(1)] by (simp add: a)
  have fill: "shared_ok os ar ?w' (calls_on k (mc_threads mc)) (Us ! k) F0 \<and> frame_step F0 ?w F0 ?w' \<and>
      keeps_headers (Us ! k) (w_mem ?w) m'" if "shared_ok os ar ?w (calls_on k (mc_threads mc)) (Us ! k) F0" for F0
    using shared_fill [of os ar ?w _ "Us ! k" F0 p A m', OF that k(2) ag] by simp
  obtain F0 where F0: "shared_ok os ar ?w (calls_on k (mc_threads mc)) (Us ! k) F0" "F0 \<subseteq> Fs ! k"
    using o unfolding stored_def by auto
  have o': "stored os asz ((mem, ar), calls_on k (mc_threads mc)) ?w' (Fs ! k) (Us ! k)"
    using o fill unfolding stored_def by (simp add: mapped_update) blast
  have sub: "A \<subseteq> Fs ! k" by (rule machine_part [OF inv k])
  have "agree_on (- (Fs ! k)) (w_mem ?w) m'" using sub by (intro agree_on_mono [OF ag]) blast
  then have fs: "frame_step (Fs ! k) ?w (Fs ! k) ?w'" by (intro frame_step_write cell.land_mapped [OF o])
  have mg: "merged (Us[k := Us ! k]) (mc_held mc)" using machine_invD(4) [OF inv] by simp
  note R = machine_regroup [OF inv k(1) o' [folded a] fs mg]
  show "machine_ok os asz (mc\<lparr>mc_world := ?w'\<rparr>) F" using R(1) unfolding machine_ok_def F by auto
  show "frame_step F ?w F ?w'" using R(2) by (simp add: F)
  show "keeps_headers (mc_held mc) (w_mem ?w) m'"
    using machine_headers [OF inv k(1) fs] fill [OF F0(1)] by simp
  show "agree_on B (w_mem ?w) m'" if q: "mc_held mc q = Some B" "q \<noteq> p"
  proof (rule machine_agree [OF inv q(1), of k])
    assume B: "(Us ! k) q = Some B"
    have "B \<inter> A = {}" using shared_apart [OF F0(1)] k(2) B q(2) unfolding grants_apart_def by blast
    then show "agree_on B (w_mem ?w) m'" by (intro agree_on_mono [OF ag]) blast
  qed (use R(3) in simp)
qed

lemma write_ok:
  fixes f :: mem
  assumes ok: "machine_ok os asz mc F" and p: "mc_held mc p = Some A"
  defines "m' \<equiv> \<lambda>x. if x \<in> A then f x else w_mem (mc_world mc) x"
  shows "move_ok os asz (Write p f) mc F (mc\<lparr>mc_world := (mc_world mc)\<lparr>w_mem := m'\<rparr>\<rparr>)"
proof -
  have ag: "agree_on (- A) (w_mem (mc_world mc)) m'" by (simp add: agree_on_def m'_def)
  from machine_write [OF ok p ag] show ?thesis unfolding move_ok_def by (auto simp: move_names_def)
qed

text \<open>The bytes granted with a small block may be any part of its class, and nothing depends on the
  field \<open>size\<close> of its header.\<close>

lemma machine_small:
  assumes ok: "machine_ok os asz mc F" and p: "mc_held mc p = Some A"
    and c: "bh_size_class (w_mem (mc_world mc)) (from_user_ptr p) \<noteq> 0"
  shows "\<exists>j<40. bh_size_class (w_mem (mc_world mc)) (from_user_ptr p) = ucast (kClassSizes ! j) \<and>
    16 dvd unat p \<and> from_user_ptr p \<noteq> nullptr \<and>
    (\<forall>B. B \<subseteq> bytes_of p (unat (kClassSizes ! j)) \<longrightarrow> machine_ok os asz (mc\<lparr>mc_held := (mc_held mc)(p \<mapsto> B)\<rparr>) F)"
proof -
  let ?w = "mc_world mc"
  obtain Fs Us where inv: "machine_inv os asz mc Fs Us" and F: "F = fam Fs" using ok unfolding machine_ok_def by blast
  note D = machine_invD [OF inv]
  obtain k where k: "k < length (mc_arenas mc)" "(Us ! k) p = Some A" using machine_home [OF inv p] by blast
  obtain mem ar where a: "mc_arenas mc ! k = (mem, ar)" by (cases "mc_arenas mc ! k")
  have o: "stored os asz ((mem, ar), calls_on k (mc_threads mc)) ?w (Fs ! k) (Us ! k)" using D(6) [OF k(1)] by (simp add: a)
  obtain F0 where F0: "shared_ok os ar ?w (calls_on k (mc_threads mc)) (Us ! k) F0" using o unfolding stored_def by auto
  obtain j where j: "j < 40" "bh_size_class (w_mem ?w) (from_user_ptr p) = ucast (kClassSizes ! j)"
    "16 dvd unat p" "from_user_ptr p \<noteq> nullptr" using shared_small [of os ar ?w _ "Us ! k" _ p A, OF F0 k(2) c] by blast
  have "machine_ok os asz (mc\<lparr>mc_held := (mc_held mc)(p \<mapsto> B)\<rparr>) F" if B: "B \<subseteq> bytes_of p (unat (kClassSizes ! j))" for B
  proof -
    have "shared_ok os ar ?w (calls_on k (mc_threads mc)) ((Us ! k)(p \<mapsto> B)) F1"
      if sh: "shared_ok os ar ?w (calls_on k (mc_threads mc)) (Us ! k) F1" for F1
    proof -
      obtain i where "i < 40" "bh_size_class (w_mem ?w) (from_user_ptr p) = ucast (kClassSizes ! i)"
        "\<forall>B. B \<subseteq> bytes_of p (unat (kClassSizes ! i)) \<longrightarrow> shared_ok os ar ?w (calls_on k (mc_threads mc)) ((Us ! k)(p \<mapsto> B)) F1"
        using shared_small [of os ar ?w _ "Us ! k" _ p A, OF sh k(2) c] by blast
      moreover from this j(1,2) have "i = j" using ucast_class_inj [of i j] by simp
      ultimately show ?thesis using B by blast
    qed
    then have o': "stored os asz ((mem, ar), calls_on k (mc_threads mc)) ?w (Fs ! k) ((Us ! k)(p \<mapsto> B))"
      by (rule stored_calls [OF o])
    have "frame_step (Fs ! k) ?w (Fs ! k) ?w" by (rule frame_step_refl [OF cell.land_mapped [OF o]])
    moreover have "merged (Us[k := (Us ! k)(p \<mapsto> B)]) ((mc_held mc)(p \<mapsto> B))"
      by (rule merged_regrant [OF D(4) _ machine_only [OF inv k(1)]]) (use k D(5) in simp_all)
    ultimately have "machine_inv os asz (mc\<lparr>mc_world := ?w, mc_held := (mc_held mc)(p \<mapsto> B)\<rparr>) (Fs[k := Fs ! k]) (Us[k := (Us ! k)(p \<mapsto> B)])"
      by (rule machine_regroup(1) [OF inv k(1) o' [folded a]])
    then show ?thesis unfolding machine_ok_def F by auto
  qed
  then show ?thesis using j by blast
qed

lemma machine_resize:
  assumes ok: "machine_ok os asz mc F" and p: "mc_held mc p \<noteq> None"
    and c: "bh_size_class (w_mem (mc_world mc)) (from_user_ptr p) \<noteq> 0"
    and m': "m' = set_bh_size (from_user_ptr p) sz (w_mem (mc_world mc))"
  shows "machine_ok os asz (mc\<lparr>mc_world := (mc_world mc)\<lparr>w_mem := m'\<rparr>\<rparr>) F"
    and "frame_step F (mc_world mc) F ((mc_world mc)\<lparr>w_mem := m'\<rparr>)"
    and "untouched (mc_held mc) (w_mem (mc_world mc)) m'"
proof -
  let ?w = "mc_world mc" and ?w' = "(mc_world mc)\<lparr>w_mem := m'\<rparr>"
  obtain Fs Us where inv: "machine_inv os asz mc Fs Us" and F: "F = fam Fs" using ok unfolding machine_ok_def by blast
  obtain A where "mc_held mc p = Some A" using p by blast
  then obtain k where k: "k < length (mc_arenas mc)" "(Us ! k) p = Some A" using machine_home [OF inv] by blast
  obtain mem ar where a: "mc_arenas mc ! k = (mem, ar)" by (cases "mc_arenas mc ! k")
  have o: "stored os asz ((mem, ar), calls_on k (mc_threads mc)) ?w (Fs ! k) (Us ! k)"
    using machine_invD(6) [OF inv k(1)] by (simp add: a)
  have up: "(Us ! k) p \<noteq> None" using k(2) by simp
  have re: "shared_ok os ar ?w' (calls_on k (mc_threads mc)) (Us ! k) F0 \<and> frame_step F0 ?w F0 ?w' \<and>
      untouched (Us ! k) (w_mem ?w) m'" if "shared_ok os ar ?w (calls_on k (mc_threads mc)) (Us ! k) F0" for F0
    using shared_resize [OF that up c m'] by simp
  obtain F0 where F0: "shared_ok os ar ?w (calls_on k (mc_threads mc)) (Us ! k) F0" "F0 \<subseteq> Fs ! k"
    using o unfolding stored_def by auto
  have o': "stored os asz ((mem, ar), calls_on k (mc_threads mc)) ?w' (Fs ! k) (Us ! k)"
    using o re unfolding stored_def by (simp add: mapped_update) blast
  have "frame_step (F0 \<union> (Fs ! k - F0)) ?w (F0 \<union> (Fs ! k - F0)) ?w'"
    using re [OF F0(1)] cell.land_mapped [OF o] by (intro frame_step_extend) auto
  then have fs: "frame_step (Fs ! k) ?w (Fs ! k) ?w'" using F0(2) by (simp add: Un_absorb1)
  have mg: "merged (Us[k := Us ! k]) (mc_held mc)" using machine_invD(4) [OF inv] by simp
  note R = machine_regroup [OF inv k(1) o' [folded a] fs mg]
  show "machine_ok os asz (mc\<lparr>mc_world := ?w'\<rparr>) F" using R(1) unfolding machine_ok_def F by auto
  show "frame_step F ?w F ?w'" using R(2) by (simp add: F)
  have un: "agree_on (granted (Us ! k)) (w_mem ?w) m'" "keeps_headers (Us ! k) (w_mem ?w) m'"
    using re [OF F0(1)] by (simp_all add: untouched_def)
  have "agree_on B (w_mem ?w) m'" if "mc_held mc q = Some B" for q B
  proof (rule machine_agree [OF inv that, of k])
    show "agree_on B (w_mem ?w) m'" if "(Us ! k) q = Some B"
      by (rule agree_on_mono [OF un(1)]) (rule granted_part [of "Us ! k" q B, OF that])
  qed (use R(3) in simp)
  then have "agree_on (granted (mc_held mc)) (w_mem ?w) m'" by (fastforce simp: agree_on_def granted_def ran_def)
  moreover have "keeps_headers (mc_held mc) (w_mem ?w) m'" using machine_headers [OF inv k(1) fs] un(2) by simp
  ultimately show "untouched (mc_held mc) (w_mem ?w) m'" by (simp add: untouched_def)
qed

theorem happen_ok:
  assumes ok: "machine_ok os asz mc F" and legal: "legal_move os v"
  shows "\<exists>mc'. happen os v mc = Some mc' \<and> move_ok os asz v mc F mc'"
proof -
  obtain Fs Us where inv: "machine_inv os asz mc Fs Us" and F: "F = fam Fs" using ok unfolding machine_ok_def by blast
  note same = move_ok_refl [OF ok]
  have good: "machine_ok os asz mc' F" if "machine_inv os asz mc' Fs Us'" for mc' Us'
    using that F unfolding machine_ok_def by blast
  show ?thesis
  proof (cases v)
    case (Request t i sz alignment)
    show ?thesis
    proof (cases "at_rest mc t \<and> i < length (mc_arenas mc)")
      case True
      note R = request_ok [OF inv, of t i sz alignment]
      show ?thesis using True legal good [OF R]
        by (auto simp: Request legal_move_def intro!: move_ok_same_world)
    qed (use same in \<open>auto simp: Request\<close>)
  next
    case (Return t i p)
    show ?thesis
    proof (cases "at_rest mc t \<and> i < length (mc_arenas mc) \<and> mc_held mc p \<noteq> None")
      case True
      then obtain A where "mc_held mc p = Some A" by blast
      then obtain Us' where "machine_inv os asz (mc\<lparr>mc_threads := (mc_threads mc)[t := begin_return (mc_arenas mc) i p (w_mem (mc_world mc))],
        mc_held := (mc_held mc)(p := None)\<rparr>) Fs Us'" using return_ok [OF inv] True by blast
      from good [OF this] show ?thesis using True
        by (auto simp: Return move_names_def intro!: move_ok_same_world)
    qed (use same in \<open>auto simp: Return\<close>)
  next
    case (Write p f)
    show ?thesis
    proof (cases "mc_held mc p")
      case None
      then show ?thesis using same by (simp add: Write)
    next
      case (Some A)
      from write_ok [OF ok this, of f] show ?thesis by (simp add: Write Some)
    qed
  next
    case (Section t)
    show ?thesis
    proof (cases "t < length (mc_threads mc)")
      case True
      from section_ok [OF inv True] show ?thesis by (simp add: Section F)
    qed (use same in \<open>simp add: Section\<close>)
  next
    case (Collect t)
    show ?thesis
    proof (cases "t < length (mc_threads mc)")
      case t: True
      obtain k call where th: "mc_threads mc ! t = (k, call)" by (cases "mc_threads mc ! t")
      show ?thesis
      proof (cases "taken call")
        case (Some pA)
        obtain p A where pA: "pA = (p, A)" by (cases pA)
        note C = collect_ok [OF inv t th Some [unfolded pA]]
        obtain Us' where "machine_inv os asz (mc\<lparr>mc_threads := (mc_threads mc)[t := (k, On_small At_idle)],
          mc_held := (mc_held mc)(p \<mapsto> A)\<rparr>) Fs Us'" using C(1) by blast
        from good [OF this] show ?thesis using t th Some C(2)
          by (auto simp: Collect pA intro!: move_ok_same_world)
      next
        case None
        show ?thesis
        proof (cases "allocated call \<noteq> None \<or> freed call \<noteq> None")
          case True
          then obtain e r where "allocated call = Some (Inl e) \<or> freed call = Some r"
            using None by (cases call rule: taken.cases) auto
          from good [OF finish_ok [OF inv t th this]] show ?thesis
            using t th None True by (auto simp: Collect intro!: move_ok_same_world)
        qed (use same t th None in \<open>simp add: Collect\<close>)
      qed
    qed (use same in \<open>simp add: Collect\<close>)
  qed
qed

theorem run_moves_ok:
  assumes "machine_ok os asz mc F" and "\<forall>v\<in>set vs. legal_move os v"
  shows "\<exists>mc' F'. run_moves os vs mc = Some mc' \<and> machine_ok os asz mc' F' \<and>
    frame_step F (mc_world mc) F' (mc_world mc') \<and> length (mc_threads mc') = length (mc_threads mc) \<and>
    length (mc_arenas mc') = length (mc_arenas mc) \<and>
    (\<forall>p A. mc_held mc p = Some A \<and> (\<forall>v\<in>set vs. \<not> move_names p v) \<longrightarrow>
       mc_held mc' p = Some A \<and> agree_on A (w_mem (mc_world mc)) (w_mem (mc_world mc')))"
  using assms
proof (induction vs arbitrary: mc F)
  case Nil
  then show ?case using frame_step_refl [OF machine_mapped] by auto
next
  case (Cons v vs)
  obtain mc1 where o1: "happen os v mc = Some mc1" "move_ok os asz v mc F mc1"
    using happen_ok [OF Cons.prems(1)] Cons.prems(2) by auto
  obtain F1 where F1: "machine_ok os asz mc1 F1" "frame_step F (mc_world mc) F1 (mc_world mc1)"
    using o1(2) unfolding move_ok_def by blast
  have len: "length (mc_threads mc1) = length (mc_threads mc)" "length (mc_arenas mc1) = length (mc_arenas mc)"
    using o1(2) by (simp_all add: move_ok_def)
  obtain mc' F' where R: "run_moves os vs mc1 = Some mc'" "machine_ok os asz mc' F'"
    "frame_step F1 (mc_world mc1) F' (mc_world mc')" "length (mc_threads mc') = length (mc_threads mc1)"
    "length (mc_arenas mc') = length (mc_arenas mc1)"
    "\<And>p A. mc_held mc1 p = Some A \<Longrightarrow> \<forall>v\<in>set vs. \<not> move_names p v \<Longrightarrow>
       mc_held mc' p = Some A \<and> agree_on A (w_mem (mc_world mc1)) (w_mem (mc_world mc'))"
    using Cons.IH [OF F1(1)] Cons.prems(2) by auto
  have "mc_held mc' p = Some A \<and> agree_on A (w_mem (mc_world mc)) (w_mem (mc_world mc'))"
    if p: "mc_held mc p = Some A" "\<forall>v\<in>set (v # vs). \<not> move_names p v" for p A
  proof -
    have a: "mc_held mc1 p = Some A" "agree_on A (w_mem (mc_world mc)) (w_mem (mc_world mc1))"
      using o1(2) p unfolding move_ok_def by auto
    from R(6) [OF a(1)] p(2) agree_on_trans [OF a(2)] show ?thesis by auto
  qed
  with o1(1) R(1,2,4,5) len frame_step_trans [OF F1(2) R(3)] show ?case by auto
qed

subsection \<open>From the contract of the manager and back\<close>

lemma calls_at_rest: "\<forall>th\<in>set threads. snd th = On_small At_idle \<Longrightarrow> calls_on k threads = replicate (length threads) (On_small At_idle)"
  by (intro nth_equalityI) (auto simp: calls_on_nth)

text \<open>What an arena owns when no thread is in it is what the contract of the arena says.\<close>

lemma stored_at_rest:
  "stored os asz (a, replicate n (On_small At_idle)) w F U \<longleftrightarrow> arp_owns os asz a w F U"
proof -
  have "shared_ok os ar w (replicate n (On_small At_idle)) U F0 \<longleftrightarrow> ar_owns os ar w F0 U" for ar F0
  proof
    assume "shared_ok os ar w (replicate n (On_small At_idle)) U F0"
    then have s: "sys_ok os (idle_threads n ar w U) F0" by (simp add: sys_ok_def idle_threads_def)
    have "\<forall>call\<in>set (sy_calls (idle_threads n ar w U)). call = On_small At_idle" by (simp add: idle_threads_def)
    from quiet_owns [OF s this] show "ar_owns os ar w F0 U" by (simp add: idle_threads_def)
  next
    assume "ar_owns os ar w F0 U"
    from start_ok [OF this, of n] show "shared_ok os ar w (replicate n (On_small At_idle)) U F0"
      by (simp add: sys_ok_def idle_threads_def)
  qed
  then show ?thesis by (simp add: stored_def arp_owns_def)
qed

lemma machine_at_rest_cells:
  assumes "\<forall>th\<in>set (mc_threads mc). snd th = On_small At_idle"
  shows "family (stored os asz) (cells mc) (mc_world mc) Fs Us \<longleftrightarrow> family (arp_owns os asz) (mc_arenas mc) (mc_world mc) Fs Us"
proof -
  have "stored os asz (cells mc ! k) (mc_world mc) (Fs ! k) (Us ! k) = arp_owns os asz (mc_arenas mc ! k) (mc_world mc) (Fs ! k) (Us ! k)"
    if "k < length (mc_arenas mc)" for k using that calls_at_rest [OF assms] by (simp add: stored_at_rest)
  then show ?thesis by (simp add: family_def)
qed

lemma machine_start:
  assumes "mg_owns os asz as w F U" and "as \<noteq> []"
  shows "machine_ok os asz (machine_at_rest n as w U) F"
proof -
  obtain Fs Us where inv: "mg_inv os asz as w Fs Us" and F: "F = fam Fs" and m: "merged Us U"
    using assms(1) unfolding mg_owns_def by blast
  let ?mc = "machine_at_rest n as w U"
  have rest: "\<forall>th\<in>set (mc_threads ?mc). snd th = On_small At_idle" by (simp add: machine_at_rest_def)
  have "machine_inv os asz ?mc Fs Us"
    using inv m assms(2) machine_at_rest_cells [OF rest, of os asz Fs Us]
    by (auto simp: mg_inv_family machine_inv_def machine_at_rest_def nodes_ok_def)
  then show ?thesis unfolding machine_ok_def F by blast
qed

lemma machine_quiet_owns:
  assumes "machine_ok os asz mc F" and rest: "\<forall>th\<in>set (mc_threads mc). snd th = On_small At_idle"
  shows "mg_owns os asz (mc_arenas mc) (mc_world mc) F (mc_held mc)"
  using assms(1) machine_at_rest_cells [OF rest]
  by (auto simp: machine_ok_def machine_inv_def mg_owns_def mg_inv_family nodes_ok_def)

lemma machine_ok_grants:
  assumes "machine_ok os asz mc F"
  shows "grants_apart (mc_held mc)" and "granted (mc_held mc) \<subseteq> F" and "F \<subseteq> mapped (mc_world mc)"
    and "(k, call) \<in> set (mc_threads mc) \<Longrightarrow> freed call = Some r \<Longrightarrow> r = Inr ()"
proof -
  obtain Fs Us where inv: "machine_inv os asz mc Fs Us" and F: "F = fam Fs" using assms unfolding machine_ok_def by blast
  note D = machine_invD [OF inv]
  have shared: "\<exists>F0. shared_ok os (snd (mc_arenas mc ! k)) (mc_world mc) (calls_on k (mc_threads mc)) (Us ! k) F0"
    if "k < length (mc_arenas mc)" for k using D(6) [OF that] unfolding stored_def by auto
  show "F \<subseteq> mapped (mc_world mc)" by (rule machine_mapped [OF assms])
  show "granted (mc_held mc) \<subseteq> F"
  proof
    fix x assume "x \<in> granted (mc_held mc)"
    then obtain p A where pA: "mc_held mc p = Some A" "x \<in> A" by (auto simp: granted_def ran_def)
    obtain k where k: "k < length (mc_arenas mc)" "(Us ! k) p = Some A" using machine_home [OF inv pA(1)] by blast
    have "length Fs = length (mc_arenas mc)" using D(1) by (simp add: family_def)
    then show "x \<in> F" using machine_part [OF inv k] pA(2) k(1) by (auto simp: F fam_nth)
  qed
  show "grants_apart (mc_held mc)"
    unfolding grants_apart_def
  proof (intro allI impI)
    fix p q A B assume pq: "mc_held mc p = Some A \<and> mc_held mc q = Some B \<and> p \<noteq> q"
    obtain i where i: "i < length (mc_arenas mc)" "(Us ! i) p = Some A" using machine_home [OF inv] pq by blast
    obtain j where j: "j < length (mc_arenas mc)" "(Us ! j) q = Some B" using machine_home [OF inv] pq by blast
    show "A \<inter> B = {}"
    proof (cases "i = j")
      case True
      then show ?thesis using shared_apart shared [OF i(1)] i(2) j(2) pq unfolding grants_apart_def by blast
    next
      case False
      then have "Fs ! i \<inter> Fs ! j = {}" using D(1) i(1) j(1) by (simp add: family_def)
      then show ?thesis using machine_part [OF inv i] machine_part [OF inv j] by blast
    qed
  qed
  assume th: "(k, call) \<in> set (mc_threads mc)" and r: "freed call = Some r"
  then obtain t where t: "t < length (mc_threads mc)" "mc_threads mc ! t = (k, call)" by (auto simp: in_set_conv_nth)
  then have "k < length (mc_arenas mc)" using D(3) [OF t(1)] by simp
  then obtain F0 where "shared_ok os (snd (mc_arenas mc ! k)) (mc_world mc) (calls_on k (mc_threads mc)) (Us ! k) F0"
    using shared by blast
  then have "sys_ok os \<lparr>sy_arena = snd (mc_arenas mc ! k), sy_world = mc_world mc,
      sy_calls = calls_on k (mc_threads mc), sy_held = Us ! k\<rparr> F0" by (simp add: sys_ok_def)
  moreover have "call \<in> set (calls_on k (mc_threads mc))"
    using t calls_on_nth [OF t(1), of k] by (metis fst_conv length_calls_on nth_mem snd_conv)
  ultimately show "r = Inr ()" using sys_ok_grants(4) r by fastforce
qed

text \<open>A step elsewhere in the address space.\<close>

lemma machine_frame:
  assumes ok: "machine_ok os asz mc F" and fs: "frame_step G (mc_world mc) G' w'" and dj: "F \<inter> G = {}"
  shows "machine_ok os asz (mc\<lparr>mc_world := w'\<rparr>) F" and "untouched (mc_held mc) (w_mem (mc_world mc)) (w_mem w')"
proof -
  obtain Fs Us where inv: "machine_inv os asz mc Fs Us" and F: "F = fam Fs" using ok unfolding machine_ok_def by blast
  note D = machine_invD [OF inv]
  have apart: "Fs ! k \<inter> G = {}" if "k < length (mc_arenas mc)" for k
    using dj that D(1) unfolding F by (auto simp: fam_nth family_def)
  have "family (stored os asz) (cells (mc\<lparr>mc_world := w'\<rparr>)) w' Fs Us"
    using D(1) cell.land_frame [OF D(6) fs apart] by (simp add: family_def)
  then have "machine_inv os asz (mc\<lparr>mc_world := w'\<rparr>) Fs Us" using inv by (simp add: machine_inv_def)
  then show "machine_ok os asz (mc\<lparr>mc_world := w'\<rparr>) F" unfolding machine_ok_def F by blast
  have "agree_on (granted (mc_held mc)) (w_mem (mc_world mc)) (w_mem w')"
    using frame_step_mem [OF dj machine_mapped [OF ok] fs] machine_ok_grants(2) [OF ok] agree_on_mono by blast
  moreover have "keeps_headers (mc_held mc) (w_mem (mc_world mc)) (w_mem w')"
    unfolding keeps_headers_def
  proof (intro allI impI)
    fix p assume "mc_held mc p \<noteq> None"
    then obtain A where "mc_held mc p = Some A" by blast
    then obtain k where k: "k < length (mc_arenas mc)" "(Us ! k) p = Some A" using machine_home [OF inv] by blast
    obtain F0 where F0: "shared_ok os (snd (mc_arenas mc ! k)) (mc_world mc) (calls_on k (mc_threads mc)) (Us ! k) F0"
      "F0 \<subseteq> Fs ! k" using D(6) [OF k(1)] by (rule storedE) simp
    have "F0 \<inter> G = {}" using F0(2) apart [OF k(1)] by blast
    from shared_frame(2) [OF F0(1) fs this] have "keeps_headers (Us ! k) (w_mem (mc_world mc)) (w_mem w')"
      by (simp add: untouched_def)
    from keeps_headersD [OF this, of p] k(2)
    show "bh_node_id (w_mem w') (from_user_ptr p) = bh_node_id (w_mem (mc_world mc)) (from_user_ptr p) \<and>
        bh_size_class (w_mem w') (from_user_ptr p) = bh_size_class (w_mem (mc_world mc)) (from_user_ptr p)" by simp
  qed
  ultimately show "untouched (mc_held mc) (w_mem (mc_world mc)) (w_mem w')" by (simp add: untouched_def)
qed

lemma machine_not_null:
  assumes ok: "machine_ok os asz mc F" and p: "mc_held mc p \<noteq> None"
  shows "p \<noteq> nullptr"
proof -
  obtain Fs Us where inv: "machine_inv os asz mc Fs Us" using ok unfolding machine_ok_def by blast
  obtain A where "mc_held mc p = Some A" using p by blast
  then obtain k where k: "k < length (mc_arenas mc)" "(Us ! k) p = Some A" using machine_home [OF inv] by blast
  obtain F0 where F0: "shared_ok os (snd (mc_arenas mc ! k)) (mc_world mc) (calls_on k (mc_threads mc)) (Us ! k) F0"
    using machine_invD(6) [OF inv k(1)] by (rule storedE) simp
  show ?thesis using shared_header(3) [OF F0, of p] k(2) by simp
qed

text \<open>The header of a small block that an arena has just allocated names the arena and the class.\<close>

lemma machine_fresh_header:
  assumes ok: "machine_ok os asz mc F" and t: "t < length (mc_threads mc)"
    and th: "mc_threads mc ! t = (k, On_small (At_allocated ci (Inr p)))"
  shows "bh_node_id (w_mem (mc_world mc)) (from_user_ptr p) = of_int (int k)"
    and "bh_size_class (w_mem (mc_world mc)) (from_user_ptr p) = ucast (kClassSizes ! unat ci)" and "unat ci < 40"
proof -
  obtain Fs Us where inv: "machine_inv os asz mc Fs Us" using ok unfolding machine_ok_def by blast
  have k: "k < length (mc_arenas mc)" using machine_invD(3) [OF inv t] th by simp
  have call: "calls_on k (mc_threads mc) ! t = On_small (At_allocated ci (Inr p))" using t th by (simp add: calls_on_nth)
  obtain F0 where "shared_ok os (snd (mc_arenas mc ! k)) (mc_world mc) (calls_on k (mc_threads mc)) (Us ! k) F0"
    using machine_invD(6) [OF inv k] by (rule storedE) simp
  then obtain Fs0 Us0 own lv where "il_ok os (snd (mc_arenas mc ! k)) (mc_world mc)
      (map small_part (calls_on k (mc_threads mc))) (Us ! k) Fs0 Us0 own lv" by (rule shared_okE)
  from il_calls_task [OF this, of t] t
  have "unat ci < 40 \<and> header_ok (int k) (w_mem (mc_world mc)) (unat ci) (from_user_ptr p)"
    using machine_invD(2) [OF inv k] by (simp add: call)
  then show "bh_node_id (w_mem (mc_world mc)) (from_user_ptr p) = of_int (int k)"
    and "bh_size_class (w_mem (mc_world mc)) (from_user_ptr p) = ucast (kClassSizes ! unat ci)" and "unat ci < 40"
    by (simp_all add: header_ok_def)
qed

theorem moves_from_quiet:
  assumes "mg_owns os asz as w F U" and "as \<noteq> []" and "\<forall>v\<in>set vs. legal_move os v"
  shows "\<exists>mc F'. run_moves os vs (machine_at_rest n as w U) = Some mc \<and> machine_ok os asz mc F' \<and>
    frame_step F w F' (mc_world mc) \<and> length (mc_threads mc) = n \<and>
    (\<forall>p A. U p = Some A \<and> (\<forall>v\<in>set vs. \<not> move_names p v) \<longrightarrow>
       mc_held mc p = Some A \<and> agree_on A (w_mem w) (w_mem (mc_world mc)))"
  using run_moves_ok [OF machine_start [OF assms(1,2), of n] assms(3)] by (auto simp: machine_at_rest_def)

subsection \<open>Progress\<close>

definition runs_in_move :: "nat \<Rightarrow> move \<Rightarrow> bool" where
  "runs_in_move t v \<longleftrightarrow> (case v of Section s \<Rightarrow> s = t | _ \<Rightarrow> False)"

definition calls_in_move :: "nat \<Rightarrow> move \<Rightarrow> bool" where
  "calls_in_move t v \<longleftrightarrow> (case v of Request s i sz al \<Rightarrow> s = t | Return s i p \<Rightarrow> s = t | Collect s \<Rightarrow> s = t | _ \<Rightarrow> False)"

lemma happen_call_left:
  assumes h: "happen os v mc = Some mc'" and t: "t < length (mc_threads mc)" and c: "\<not> calls_in_move t v"
  shows "call_left (snd (mc_threads mc' ! t)) \<le> call_left (snd (mc_threads mc ! t)) - (if runs_in_move t v then 1 else 0)"
proof (cases v)
  case (Section s)
  show ?thesis
  proof (cases "s = t")
    case True
    obtain k call where "mc_threads mc ! t = (k, call)" by (cases "mc_threads mc ! t")
    then show ?thesis using h t True call_left_advance
      by (auto simp: Section runs_in_move_def split: option.splits)
  next
    case False
    then show ?thesis using h by (auto simp: Section runs_in_move_def split: option.splits prod.splits if_splits)
  qed
next
  case (Collect s)
  then show ?thesis using h c
    by (auto simp: runs_in_move_def calls_in_move_def split: option.splits prod.splits if_splits)
qed (use h c in \<open>auto simp: runs_in_move_def calls_in_move_def split: option.splits\<close>)

lemma happen_length: "happen os v mc = Some mc' \<Longrightarrow> length (mc_threads mc') = length (mc_threads mc)"
  by (cases v) (auto split: option.splits if_splits prod.splits)

lemma run_moves_length: "run_moves os vs mc = Some mc' \<Longrightarrow> length (mc_threads mc') = length (mc_threads mc)"
  by (induction vs arbitrary: mc) (auto split: option.splits dest!: happen_length)

lemma run_moves_call_left:
  assumes "run_moves os vs mc = Some mc'" and "t < length (mc_threads mc)" and "\<forall>v\<in>set vs. \<not> calls_in_move t v"
  shows "call_left (snd (mc_threads mc' ! t)) \<le> call_left (snd (mc_threads mc ! t)) - length (filter (runs_in_move t) vs)"
  using assms
proof (induction vs arbitrary: mc)
  case (Cons v vs)
  obtain mc1 where o1: "happen os v mc = Some mc1" "run_moves os vs mc1 = Some mc'"
    using Cons.prems(1) by (auto split: option.splits)
  have c: "\<not> calls_in_move t v" using Cons.prems(3) by simp
  have "call_left (snd (mc_threads mc' ! t)) \<le> call_left (snd (mc_threads mc1 ! t)) - length (filter (runs_in_move t) vs)"
    using Cons.IH [OF o1(2)] happen_length [OF o1(1)] Cons.prems(2,3) by simp
  then show ?case using happen_call_left [OF o1(1) Cons.prems(2) c] by (auto split: if_splits)
qed simp

end
