(* ===== verification/Cache_Schedules.thy ===== *)
theory Cache_Schedules
  imports Manager_Schedules Thread_Owner
begin

section \<open>Threads with caches, their sections interleaved\<close>

text \<open>
  The whole allocator under concurrency: threads that come and go, each with its cache in front
  of the arenas, and other threads between any two sections of what one of them does. A cache is
  touched by its own thread only, so what a thread does on its cache up to the call of an arena
  is one step; the call runs section by section in the machine of \<open>Manager_Schedules\<close>, and its
  result is taken in another step. A flush is a loop of such calls. Cached blocks are in use in
  their arenas, the users are in front of the caches.
\<close>

subsection \<open>The operations of a cache, cut at the calls of the arena\<close>

text \<open>\<open>allocate\<close> up to the call: a cached block, an exception, or the request that goes to the
  arena, with the class whose header is to be written in the block that comes back.\<close>

datatype answer = Cached nat ptr | Refused exn | From_arena u64 "nat option"

definition cache_request :: "u64 \<Rightarrow> u64 \<Rightarrow> tcache \<Rightarrow> mem \<Rightarrow> answer \<times> tcache" where
  "cache_request sz alignment t m =
    (if \<not> tc_use t then (From_arena sz None, t)
     else
       let sz = (if sz = 0 then 1 else sz) in
       if sz \<le> SMALL_LARGE_THRESHOLD \<and> alignment \<le> ALIGNMENT then
         case class_index_for_size sz of
           Inl e \<Rightarrow> (Refused e, t)
         | Inr class_index \<Rightarrow>
             (let (header, t1) = take_cached (unat class_index) t m
              in (if header \<noteq> nullptr then Cached (unat class_index) header
                  else From_arena sz (Some (unat class_index)), t1))
       else (From_arena sz None, t))"

text \<open>\<open>allocate\<close> after the call.\<close>

definition label_fresh :: "tcache \<Rightarrow> nat option \<Rightarrow> ptr \<Rightarrow> mem \<Rightarrow> mem" where
  "label_fresh t c p m =
    (case c of
       None \<Rightarrow> m
     | Some class_index \<Rightarrow>
         (let header = from_user_ptr p;
              m1 = set_bh_node_id header (of_int (tc_node_id t)) m;
              m2 = set_bh_size_class header (ucast (kClassSizes ! class_index)) m1
          in set_bh_size header 0 m2))"

text \<open>\<open>deallocate\<close> up to the call: what it returns if there is none.\<close>

definition cache_return :: "ptr \<Rightarrow> tcache \<Rightarrow> mem \<Rightarrow> unit res option \<times> tcache \<times> mem" where
  "cache_return p t m =
    (let header = from_user_ptr p;
         cls = bh_size_class m header
     in if p = nullptr then (Some (Inr ()), t, m)
        else if \<not> tc_use t \<or> cls = 0 \<or> sint (bh_node_id m header) \<noteq> tc_node_id t then (None, t, m)
        else case class_index_for_size (ucast cls) of
          Inl e \<Rightarrow> (Some (Inl e), t, m)
        | Inr class_index \<Rightarrow>
            (let (cached, t1, m1) = cache_block header (unat class_index) t m
             in (if cached then Some (Inr ()) else None, t1, m1)))"

text \<open>One round of the loops in \<open>flush\<close>: the next block, and the cache without it.\<close>

fun first_head :: "cache_bin list \<Rightarrow> nat option" where
  "first_head [] = None"
| "first_head (bin # bins) = (if cb_head bin \<noteq> nullptr then Some 0 else map_option Suc (first_head bins))"

definition flush_next :: "tcache \<Rightarrow> mem \<Rightarrow> (ptr \<times> tcache) option" where
  "flush_next t m =
    (case first_head (tc_bins t) of
       None \<Rightarrow> None
     | Some i \<Rightarrow> Some (take_cached i t m))"

lemma tc_allocate_cut:
  "tc_allocate os sz alignment t as w =
    (case cache_request sz alignment t (w_mem w) of
       (Cached i header, t1) \<Rightarrow> Some (Inr (to_user_ptr header), t1, as, w)
     | (Refused e, t1) \<Rightarrow> Some (Inl e, t1, as, w)
     | (From_arena sz c, t1) \<Rightarrow>
         (case mg_allocate os (tc_arena t1) sz alignment as w of
            None \<Rightarrow> None
          | Some (Inl e, as1, w1) \<Rightarrow> Some (Inl e, t1, as1, w1)
          | Some (Inr p, as1, w1) \<Rightarrow> Some (Inr p, t1, as1, w1\<lparr>w_mem := label_fresh t1 c p (w_mem w1)\<rparr>)))"
proof -
  have miss: "t1 = t" if "take_cached i t (w_mem w) = (nullptr, t1)" for i t1
    using take_cached_miss [OF that] by simp
  have none: "label_fresh t1 None p m = m" for t1 p m by (simp add: label_fresh_def)
  have same: "w1\<lparr>w_mem := w_mem w1\<rparr> = w1" for w1 :: world by simp
  let ?n = "at_least_one sz"
  note defs = tc_allocate_def cache_request_def at_least_one_def [symmetric] is_small_def [symmetric] Let_def
  consider "\<not> tc_use t" | "tc_use t" "\<not> is_small ?n alignment"
    | e where "tc_use t" "is_small ?n alignment" "class_index_for_size ?n = Inl e"
    | ci where "tc_use t" "is_small ?n alignment" "class_index_for_size ?n = Inr ci"
    by (cases "class_index_for_size ?n") blast+
  then show ?thesis
  proof cases
    case 4
    obtain h t1 where tk: "take_cached (unat ci) t (w_mem w) = (h, t1)" by fastforce
    show ?thesis
    proof (cases "h = nullptr")
      case True
      then have "t1 = t" using miss tk by simp
      then show ?thesis using 4 tk True
        unfolding defs by (simp add: label_fresh_def Let_def split: option.split sum.split prod.split)
    next
      case False
      then show ?thesis using 4 tk unfolding defs by simp
    qed
  qed (simp_all add: defs none same split: option.split sum.split prod.split)
qed

lemma tc_deallocate_cut:
  "tc_deallocate os p t as w =
    (case cache_return p t (w_mem w) of
       (Some r, t1, m1) \<Rightarrow> Some (r, t1, as, w\<lparr>w_mem := m1\<rparr>)
     | (None, t1, m1) \<Rightarrow>
         (case mg_deallocate os (tc_arena t1) p as w of
            None \<Rightarrow> None
          | Some (r, as1, w1) \<Rightarrow> Some (r, t1, as1, w1)))"
proof -
  have full: "t1 = t \<and> m1 = m" if "cache_block h i t m = (False, t1, m1)" for h i t1 m m1
    using that by (auto simp: cache_block_def Let_def split: if_splits)
  show ?thesis
    by (auto simp: tc_deallocate_def cache_return_def Let_def dest!: full
        split: sum.splits option.splits prod.splits bool.splits)
qed

lemma first_headD: "first_head bins = Some i \<Longrightarrow> i < length bins \<and> cb_head (bins ! i) \<noteq> nullptr"
  by (induction bins arbitrary: i) (auto split: if_splits)

lemma flush_bins_cut:
  "flush_bins os arena bins as w =
    (case first_head bins of
       None \<Rightarrow> Some (bins, as, w)
     | Some i \<Rightarrow>
         (let bin = bins ! i; header = cb_head bin in
          case mg_deallocate os arena (to_user_ptr header) as w of
            None \<Rightarrow> None
          | Some (r, as1, w1) \<Rightarrow>
              flush_bins os arena (bins[i := bin\<lparr>cb_head := next_link (w_mem w) header,
                cb_count := cb_count bin - 1, cb_bytes := cb_bytes bin - ucast (bh_size_class (w_mem w) header)\<rparr>]) as1 w1))"
proof (induction bins)
  case (Cons bin bins)
  show ?case
  proof (cases "cb_head bin = nullptr")
    case True
    then have skip: "flush_bin os arena bin as w = Some (bin, as, w)" for "as" w by (subst flush_bin.simps) simp
    show ?thesis
    proof (cases "first_head bins")
      case None
      then show ?thesis using Cons True skip by simp
    next
      case (Some i)
      then show ?thesis using Cons True skip by (simp add: Let_def split: option.split)
    qed
  next
    case False
    then show ?thesis by (simp add: Let_def) (subst flush_bin.simps, simp add: Let_def split: option.split prod.split)
  qed
qed simp

lemma tc_flush_cut:
  "tc_flush os t as w =
    (case flush_next t (w_mem w) of
       None \<Rightarrow> Some (t, as, w)
     | Some (header, t1) \<Rightarrow>
         (case mg_deallocate os (tc_arena t1) (to_user_ptr header) as w of
            None \<Rightarrow> None
          | Some (r, as1, w1) \<Rightarrow> tc_flush os t1 as1 w1))"
proof (cases "first_head (tc_bins t)")
  case None
  then show ?thesis by (simp add: tc_flush_def flush_next_def flush_bins_cut [of _ _ "tc_bins t"])
next
  case (Some i)
  then show ?thesis using first_headD [OF Some]
    by (simp add: tc_flush_def flush_next_def flush_bins_cut [of _ _ "tc_bins t"] take_cached_def Let_def
        split: option.split prod.split)
qed

subsection \<open>The machine under the caches\<close>

text \<open>The machine is a stock for the caches.\<close>

definition machine_owns :: "os \<Rightarrow> u64 \<Rightarrow> machine \<Rightarrow> world \<Rightarrow> nat set \<Rightarrow> grants \<Rightarrow> bool" where
  "machine_owns os asz mc w F V \<longleftrightarrow> machine_ok os asz (mc\<lparr>mc_world := w, mc_held := V\<rparr>) F"

interpretation mcs: stock "machine_owns os asz mc" for os asz mc
proof unfold_locales
  fix w F V assume "machine_owns os asz mc w F V"
  then have o: "machine_ok os asz (mc\<lparr>mc_world := w, mc_held := V\<rparr>) F" by (simp add: machine_owns_def)
  note G = machine_ok_grants [OF o]
  show "F \<subseteq> mapped w" using G(3) by simp
  show "A \<subseteq> F \<and> p \<noteq> nullptr" if "V p = Some A" for p A
    using G(2) granted_part [of V p A, OF that] machine_not_null [OF o, of p] that by auto
  show "A \<inter> B = {}" if "V p = Some A" "V q = Some B" "p \<noteq> q" for p q A B
    using G(1) that by (auto simp: grants_apart_def)
  show "machine_owns os asz mc (w\<lparr>w_mem := m'\<rparr>) F V \<and> keeps_headers V (w_mem w) m'"
    if "V p = Some A" "agree_on (- A) (w_mem w) m'" for p A m'
  proof -
    have swap: "mc\<lparr>mc_world := w\<lparr>w_mem := m'\<rparr>, mc_held := V\<rparr> = mc\<lparr>mc_held := V, mc_world := w\<lparr>w_mem := m'\<rparr>\<rparr>" by simp
    show ?thesis unfolding machine_owns_def swap using machine_write(1,2) [OF o, of p A m'] that by simp
  qed
  show "\<exists>j<40. bh_size_class (w_mem w) (from_user_ptr p) = ucast (kClassSizes ! j) \<and>
      16 dvd unat p \<and> from_user_ptr p \<noteq> nullptr \<and>
      (\<forall>B. B \<subseteq> bytes_of p (unat (kClassSizes ! j)) \<longrightarrow> machine_owns os asz mc w F (V(p \<mapsto> B)))"
    if "V p = Some A" "bh_size_class (w_mem w) (from_user_ptr p) \<noteq> 0" for p A
    using machine_small [OF o, of p A] that by (simp add: machine_owns_def)
qed

subsection \<open>Crews\<close>

text \<open>
  A crew is the machine with the owner of each thread: its cache, the replacement that waits while
  \<open>configure\<close> flushes the old one, and what the thread is in the middle of. \<open>cw_users\<close> says what the
  users have, \<open>mc_held\<close> of the machine what users and caches have together.
\<close>

datatype job = Job_idle | Job_request "nat option" | Job_return | Job_flush

record crew =
  cw_machine :: machine
  cw_caches :: "cache_ptr option list"
  cw_next :: "cache_ptr option list"
  cw_jobs :: "job list"
  cw_users :: grants

datatype duty =
    Join nat int bool
  | Adapt nat int int bool
  | Quit nat
  | Ask nat u64 u64
  | Hand_back nat ptr
  | Use ptr mem
  | Go nat
  | Settle nat

definition at_leisure :: "nat \<Rightarrow> crew \<Rightarrow> bool" where
  "at_leisure t cw \<longleftrightarrow> t < length (cw_jobs cw) \<and> cw_jobs cw ! t = Job_idle"

text \<open>A thread that is at leisure begins something. \<open>Join\<close> is \<open>ensure_cache\<close>; \<open>Adapt\<close> is the rest of
  \<open>configure\<close>, and \<open>Quit\<close> the end of the thread, both up to the loops of \<open>flush\<close>.\<close>

definition join ::
  "os \<Rightarrow> u64 \<Rightarrow> topology \<Rightarrow> nat \<Rightarrow> int \<Rightarrow> bool \<Rightarrow> crew \<Rightarrow> crew" where
  "join os tsz topo t cpu use cw =
    (let mc = cw_machine cw;
         (r, c, w) = ensure_cache os tsz topo cpu use (cw_caches cw ! t) (mc_arenas mc) (mc_world mc)
     in cw\<lparr>cw_machine := mc\<lparr>mc_world := w\<rparr>, cw_caches := (cw_caches cw)[t := c]\<rparr>)"

definition adapt ::
  "os \<Rightarrow> u64 \<Rightarrow> topology \<Rightarrow> nat \<Rightarrow> int \<Rightarrow> int \<Rightarrow> bool \<Rightarrow> ptr \<times> tcache \<Rightarrow> crew \<Rightarrow> crew" where
  "adapt os tsz topo t cpu1 cpu2 use c cw =
    (let mc = cw_machine cw; (s, tc) = c in
     if tc_node_id tc = current_node_from_cpu topo cpu1
     then cw\<lparr>cw_caches := (cw_caches cw)[t := Some (s, set_use_thread_cache use tc)]\<rparr>
     else case create_on_current_node os tsz topo cpu2 use (mc_arenas mc) (mc_world mc) of
         (Inl e, w) \<Rightarrow> cw\<lparr>cw_machine := mc\<lparr>mc_world := w\<rparr>\<rparr>
       | (Inr replacement, w) \<Rightarrow>
           cw\<lparr>cw_machine := mc\<lparr>mc_world := w\<rparr>, cw_next := (cw_next cw)[t := Some replacement],
             cw_jobs := (cw_jobs cw)[t := Job_flush]\<rparr>)"

definition ask :: "os \<Rightarrow> nat \<Rightarrow> u64 \<Rightarrow> u64 \<Rightarrow> ptr \<times> tcache \<Rightarrow> crew \<Rightarrow> crew option" where
  "ask os t sz alignment c cw =
    (let mc = cw_machine cw; (s, tc) = c in
     case cache_request sz alignment tc (w_mem (mc_world mc)) of
       (Cached i header, tc1) \<Rightarrow>
         (let p = to_user_ptr header; A = class_area i header in
          Some (cw\<lparr>cw_machine := mc\<lparr>mc_held := (mc_held mc)(p \<mapsto> A)\<rparr>,
            cw_caches := (cw_caches cw)[t := Some (s, tc1)], cw_users := (cw_users cw)(p \<mapsto> A)\<rparr>))
     | (Refused e, tc1) \<Rightarrow> Some (cw\<lparr>cw_caches := (cw_caches cw)[t := Some (s, tc1)]\<rparr>)
     | (From_arena sz k, tc1) \<Rightarrow>
         (case happen os (Request t (tc_arena tc1) sz alignment) mc of
            None \<Rightarrow> None
          | Some mc1 \<Rightarrow>
              Some (cw\<lparr>cw_machine := mc1, cw_caches := (cw_caches cw)[t := Some (s, tc1)],
                cw_jobs := (cw_jobs cw)[t := Job_request k]\<rparr>)))"

definition give :: "os \<Rightarrow> nat \<Rightarrow> ptr \<Rightarrow> ptr \<times> tcache \<Rightarrow> crew \<Rightarrow> crew option" where
  "give os t p c cw =
    (let mc = cw_machine cw; (s, tc) = c;
         header = from_user_ptr p;
         cls = ucast (bh_size_class (w_mem (mc_world mc)) header) :: u64
     in case cache_return p tc (w_mem (mc_world mc)) of
          (Some (Inl e), tc1, m) \<Rightarrow> Some (cw\<lparr>cw_caches := (cw_caches cw)[t := Some (s, tc1)]\<rparr>)
        | (Some (Inr _), tc1, m) \<Rightarrow>
            Some (cw\<lparr>cw_machine := mc\<lparr>mc_world := (mc_world mc)\<lparr>w_mem := m\<rparr>,
                mc_held := (mc_held mc)(p \<mapsto> bytes_of p (unat cls))\<rparr>,
              cw_caches := (cw_caches cw)[t := Some (s, tc1)], cw_users := (cw_users cw)(p := None)\<rparr>)
        | (None, tc1, m) \<Rightarrow>
            (case happen os (Return t (tc_arena tc1) p) mc of
               None \<Rightarrow> None
             | Some mc1 \<Rightarrow>
                 Some (cw\<lparr>cw_machine := mc1, cw_caches := (cw_caches cw)[t := Some (s, tc1)],
                   cw_jobs := (cw_jobs cw)[t := Job_return], cw_users := (cw_users cw)(p := None)\<rparr>)))"

text \<open>What a thread does with the result of its call; in a flush an exception is swallowed and the
  next round begins, and after the last one the storage of the cache goes back to the kernel.\<close>

definition settle_request :: "os \<Rightarrow> nat \<Rightarrow> nat option \<Rightarrow> ptr \<times> tcache \<Rightarrow> crew \<Rightarrow> crew option" where
  "settle_request os t k c cw =
    (case allocated (snd (mc_threads (cw_machine cw) ! t)) of
       None \<Rightarrow> Some cw
     | Some r \<Rightarrow>
         (case happen os (Collect t) (cw_machine cw) of
            None \<Rightarrow> None
          | Some mc \<Rightarrow>
              (let cw1 = cw\<lparr>cw_machine := mc, cw_jobs := (cw_jobs cw)[t := Job_idle]\<rparr>; w = mc_world mc in
               case r of
                 Inl e \<Rightarrow> Some cw1
               | Inr p \<Rightarrow>
                   Some (cw1\<lparr>cw_machine := mc\<lparr>mc_world := w\<lparr>w_mem := label_fresh (snd c) k p (w_mem w)\<rparr>\<rparr>,
                     cw_users := (cw_users cw)(p := mc_held mc p)\<rparr>))))"

definition settle_return :: "os \<Rightarrow> nat \<Rightarrow> job \<Rightarrow> crew \<Rightarrow> crew option" where
  "settle_return os t job cw =
    (case freed (snd (mc_threads (cw_machine cw) ! t)) of
       None \<Rightarrow> Some cw
     | Some r \<Rightarrow>
         (case happen os (Collect t) (cw_machine cw) of
            None \<Rightarrow> None
          | Some mc \<Rightarrow> Some (cw\<lparr>cw_machine := mc, cw_jobs := (cw_jobs cw)[t := job]\<rparr>)))"

definition flush_round :: "os \<Rightarrow> u64 \<Rightarrow> nat \<Rightarrow> ptr \<times> tcache \<Rightarrow> crew \<Rightarrow> crew option" where
  "flush_round os tsz t c cw =
    (let mc = cw_machine cw; (s, tc) = c in
     case flush_next tc (w_mem (mc_world mc)) of
       Some (header, tc1) \<Rightarrow>
         (case happen os (Return t (tc_arena tc1) (to_user_ptr header)) mc of
            None \<Rightarrow> None
          | Some mc1 \<Rightarrow> Some (cw\<lparr>cw_machine := mc1, cw_caches := (cw_caches cw)[t := Some (s, tc1)]\<rparr>))
     | None \<Rightarrow>
         Some (cw\<lparr>cw_machine := mc\<lparr>mc_world := vm_release os s tsz (mc_world mc)\<rparr>,
           cw_caches := (cw_caches cw)[t := cw_next cw ! t], cw_next := (cw_next cw)[t := None],
           cw_jobs := (cw_jobs cw)[t := Job_idle]\<rparr>))"

definition settle :: "os \<Rightarrow> u64 \<Rightarrow> nat \<Rightarrow> ptr \<times> tcache \<Rightarrow> crew \<Rightarrow> crew option" where
  "settle os tsz t c cw =
    (case cw_jobs cw ! t of
       Job_idle \<Rightarrow> Some cw
     | Job_request k \<Rightarrow> settle_request os t k c cw
     | Job_return \<Rightarrow> settle_return os t Job_idle cw
     | Job_flush \<Rightarrow>
         (if at_rest (cw_machine cw) t then flush_round os tsz t c cw else settle_return os t Job_flush cw))"

fun serve :: "os \<Rightarrow> u64 \<Rightarrow> topology \<Rightarrow> duty \<Rightarrow> crew \<Rightarrow> crew option" where
  "serve os tsz topo (Join t cpu use) cw = Some (if at_leisure t cw then join os tsz topo t cpu use cw else cw)"
| "serve os tsz topo (Adapt t cpu1 cpu2 use) cw =
     (case cw_caches cw ! t of
        Some c \<Rightarrow> Some (if at_leisure t cw then adapt os tsz topo t cpu1 cpu2 use c cw else cw)
      | None \<Rightarrow> Some cw)"
| "serve os tsz topo (Quit t) cw =
     Some (if at_leisure t cw \<and> cw_caches cw ! t \<noteq> None
           then cw\<lparr>cw_jobs := (cw_jobs cw)[t := Job_flush]\<rparr> else cw)"
| "serve os tsz topo (Ask t sz alignment) cw =
     (case cw_caches cw ! t of
        Some c \<Rightarrow> if at_leisure t cw then ask os t sz alignment c cw else Some cw
      | None \<Rightarrow> Some cw)"
| "serve os tsz topo (Hand_back t p) cw =
     (case cw_caches cw ! t of
        Some c \<Rightarrow> if at_leisure t cw \<and> cw_users cw p \<noteq> None then give os t p c cw else Some cw
      | None \<Rightarrow> Some cw)"
| "serve os tsz topo (Use p f) cw =
     (if cw_users cw p \<noteq> None then
        case happen os (Write p f) (cw_machine cw) of
          None \<Rightarrow> None
        | Some mc \<Rightarrow> Some (cw\<lparr>cw_machine := mc\<rparr>)
      else Some cw)"
| "serve os tsz topo (Go t) cw =
     (case happen os (Section t) (cw_machine cw) of
        None \<Rightarrow> None
      | Some mc \<Rightarrow> Some (cw\<lparr>cw_machine := mc\<rparr>))"
| "serve os tsz topo (Settle t) cw =
     (case cw_caches cw ! t of
        Some c \<Rightarrow> if t < length (cw_jobs cw) then settle os tsz t c cw else Some cw
      | None \<Rightarrow> Some cw)"

fun run_duties :: "os \<Rightarrow> u64 \<Rightarrow> topology \<Rightarrow> duty list \<Rightarrow> crew \<Rightarrow> crew option" where
  "run_duties os tsz topo [] cw = Some cw"
| "run_duties os tsz topo (d # ds) cw =
     (case serve os tsz topo d cw of None \<Rightarrow> None | Some cw' \<Rightarrow> run_duties os tsz topo ds cw')"

definition crew_at_rest :: "cache_ptr option list \<Rightarrow> arena_ptr list \<Rightarrow> world \<Rightarrow> grants \<Rightarrow> grants \<Rightarrow> crew" where
  "crew_at_rest cs as w V U =
    \<lparr>cw_machine = machine_at_rest (length cs) as w V, cw_caches = cs, cw_next = replicate (length cs) None,
     cw_jobs = replicate (length cs) Job_idle, cw_users = U\<rparr>"

definition duty_names :: "ptr \<Rightarrow> duty \<Rightarrow> bool" where
  "duty_names p d \<longleftrightarrow> (case d of Hand_back t q \<Rightarrow> q = p | Use q f \<Rightarrow> q = p | _ \<Rightarrow> False)"

definition legal_duty :: "os \<Rightarrow> duty \<Rightarrow> bool" where
  "legal_duty os d \<longleftrightarrow> (case d of Ask t sz alignment \<Rightarrow> ar_legal os (sz, alignment) | _ \<Rightarrow> True)"

subsection \<open>What a call is for\<close>

text \<open>A call that allocates: \<open>Some i\<close> is the class of a small request.\<close>

fun small_seeks :: "task \<Rightarrow> nat option" where
  "small_seeks (At_load ci) = Some (unat ci)"
| "small_seeks (At_allocate ci) = Some (unat ci)"
| "small_seeks (At_existing ci) = Some (unat ci)"
| "small_seeks (At_detach ci) = Some (unat ci)"
| "small_seeks (At_uncount allocating ci batch) = (if allocating then Some (unat ci) else None)"
| "small_seeks (At_drain allocating ci batch) = (if allocating then Some (unat ci) else None)"
| "small_seeks (At_retry ci) = Some (unat ci)"
| "small_seeks (At_new_slab ci) = Some (unat ci)"
| "small_seeks (At_header ci header) = Some (unat ci)"
| "small_seeks (At_allocated ci r) = Some (unat ci)"
| "small_seeks task = None"

fun large_seeks :: "large_task \<Rightarrow> bool" where
  "large_seeks (La_release raw n) = False"
| "large_seeks (La_unmap raw n) = False"
| "large_seeks La_released = False"
| "large_seeks task = True"

fun seeks :: "activity \<Rightarrow> nat option option" where
  "seeks (On_small task) = map_option Some (small_seeks task)"
| "seeks (On_large task) = (if large_seeks task then Some None else None)"

text \<open>A call that returns a block.\<close>

fun gives :: "activity \<Rightarrow> bool" where
  "gives (On_small task) = (small_seeks task = None \<and> task \<noteq> At_idle)"
| "gives (On_large task) = (\<not> large_seeks task)"

lemma small_seeks_advance:
  assumes "advance os task ar w = Some (task', ar', w')"
  shows "small_seeks task' = small_seeks task" and "task \<noteq> At_idle \<Longrightarrow> task' \<noteq> At_idle"
  using assms
  by (cases task; auto simp: try_section_def got_block_def Let_def split: if_splits sum.splits option.splits prod.splits)+

lemma seeks_advance:
  assumes "advance_activity os call ar w = Some (call', ar', w')"
  shows "seeks call' = seeks call" and "gives call \<Longrightarrow> gives call'"
proof -
  have large: "large_seeks task' = large_seeks task" if "la_advance os task la v = (task', la', v')" for task task' la la' v v'
    using that by (cases task) (auto simp: Let_def split: option.splits prod.splits sum.splits bool.splits)
  show "seeks call' = seeks call" and "gives call \<Longrightarrow> gives call'"
    using assms small_seeks_advance large by (cases call; fastforce split: option.splits prod.splits)+
qed

lemma seeks_ends: "seeks call \<noteq> None \<Longrightarrow> freed call = None" "gives call \<Longrightarrow> allocated call = None"
  by (cases call rule: freed.cases; simp)+

lemma seeks_not_idle: "seeks call = Some k \<Longrightarrow> call \<noteq> On_small At_idle" "gives call \<Longrightarrow> call \<noteq> On_small At_idle"
  by auto

lemma seeks_begin: "seeks (begin_allocate os sz alignment) \<noteq> None"
  by (simp add: begin_allocate_def small_request_def la_begin_allocate_def Let_def split: sum.split)

lemma seeks_begin_small:
  assumes "is_small (at_least_one sz) alignment" and "class_index_for_size (at_least_one sz) = Inr ci"
  shows "seeks (begin_allocate os (at_least_one sz) alignment) = Some (Some (unat ci))"
proof -
  have "begin_allocate os (at_least_one sz) alignment = On_small (small_request (at_least_one sz))"
    using assms(1) at_least_one_idem [of sz] unfolding begin_allocate_def is_small_def at_least_one_def [symmetric] Let_def
    by simp
  then show ?thesis using assms(2) by (simp add: small_request_def)
qed

lemma gives_begin: "gives (snd (begin_return as i p m))"
  by (simp add: begin_return_def begin_deallocate_def small_return_def la_begin_deallocate_def Let_def split: sum.split)

lemma cache_request_seeks:
  assumes "cache_request sz alignment t m = (From_arena n k, t1)"
  shows "t1 = t" and "k = Some i \<Longrightarrow> seeks (begin_allocate os n alignment) = Some (Some i)"
    and "n = sz \<or> n = at_least_one sz"
proof -
  have "t1 = t \<and> (k = Some i \<longrightarrow> seeks (begin_allocate os n alignment) = Some (Some i)) \<and> (n = sz \<or> n = at_least_one sz)"
    using assms seeks_begin_small unfolding cache_request_def at_least_one_def [symmetric] is_small_def [symmetric] Let_def
    by (auto dest: take_cached_miss split: if_splits sum.splits prod.splits)
  then show "t1 = t" and "k = Some i \<Longrightarrow> seeks (begin_allocate os n alignment) = Some (Some i)"
    and "n = sz \<or> n = at_least_one sz" by simp_all
qed

lemma cache_request_cached:
  assumes "cache_request sz alignment t m = (Cached i h, t1)"
  shows "take_cached i t m = (h, t1)" and "h \<noteq> nullptr" and "i < 40"
proof -
  have "take_cached i t m = (h, t1) \<and> h \<noteq> nullptr \<and> i < 40"
    using assms small_class [of "at_least_one sz" alignment]
    unfolding cache_request_def at_least_one_def [symmetric] is_small_def [symmetric] Let_def
    by (auto split: if_splits sum.splits prod.splits)
  then show "take_cached i t m = (h, t1)" and "h \<noteq> nullptr" and "i < 40" by simp_all
qed

lemma cache_request_refused: "cache_request sz alignment t m = (Refused e, t1) \<Longrightarrow> t1 = t"
  by (auto simp: cache_request_def Let_def split: if_splits sum.splits prod.splits)

subsection \<open>The invariant of a crew\<close>

fun job_ok :: "nat \<times> activity \<Rightarrow> cache_ptr option \<Rightarrow> cache_ptr option \<Rightarrow> job \<Rightarrow> bool" where
  "job_ok th c r Job_idle = (snd th = On_small At_idle \<and> r = None)"
| "job_ok th c r (Job_request k) = (r = None \<and> seeks (snd th) \<noteq> None \<and>
     (\<exists>s t. c = Some (s, t) \<and> (\<forall>i. k = Some i \<longrightarrow> seeks (snd th) = Some (Some i) \<and> fst th = tc_arena t)))"
| "job_ok th c r Job_return = (r = None \<and> c \<noteq> None \<and> gives (snd th))"
| "job_ok th c r Job_flush = (c \<noteq> None \<and> (snd th = On_small At_idle \<or> gives (snd th)))"

definition crew_inv ::
  "os \<Rightarrow> u64 \<Rightarrow> u64 \<Rightarrow> crew \<Rightarrow> nat set \<Rightarrow> nat set \<Rightarrow> ptr list list list \<Rightarrow> bool" where
  "crew_inv os asz tsz cw F Fm Q \<longleftrightarrow> os_ok os \<and> arena_size_ok os tsz \<and>
     length (mc_arenas (cw_machine cw)) \<le> 2 ^ 31 \<and> machine_ok os asz (cw_machine cw) Fm \<and>
     caches_ok (length (mc_arenas (cw_machine cw))) (cw_caches cw) (w_mem (mc_world (cw_machine cw)))
       (mc_held (cw_machine cw)) Q \<and>
     shell os tsz (ptrs (cw_caches cw @ cw_next cw)) (mc_world (cw_machine cw)) Fm \<and>
     F = Fm \<union> shell_area os tsz (ptrs (cw_caches cw @ cw_next cw)) \<and>
     cw_users cw = for_users (mc_held (cw_machine cw)) Q \<and>
     length (mc_threads (cw_machine cw)) = length (cw_jobs cw) \<and>
     length (cw_caches cw) = length (cw_jobs cw) \<and> length (cw_next cw) = length (cw_jobs cw) \<and>
     (\<forall>t<length (cw_jobs cw). job_ok (mc_threads (cw_machine cw) ! t) (cw_caches cw ! t) (cw_next cw ! t) (cw_jobs cw ! t)) \<and>
     (\<forall>t<length (cw_jobs cw). \<forall>q tc. cw_next cw ! t = Some (q, tc) \<longrightarrow>
       (\<exists>i<length (mc_arenas (cw_machine cw)). \<exists>use. tc = tc_new i (int i) use))"

definition crew_ok :: "os \<Rightarrow> u64 \<Rightarrow> u64 \<Rightarrow> crew \<Rightarrow> nat set \<Rightarrow> bool" where
  "crew_ok os asz tsz cw F \<longleftrightarrow> (\<exists>Fm Q. crew_inv os asz tsz cw F Fm Q)"

lemma crew_okI: "crew_inv os asz tsz cw F Fm Q \<Longrightarrow> crew_ok os asz tsz cw F"
  unfolding crew_ok_def by blast

text \<open>What a duty keeps, in front of the users.\<close>

definition duty_ok :: "os \<Rightarrow> u64 \<Rightarrow> u64 \<Rightarrow> duty \<Rightarrow> crew \<Rightarrow> nat set \<Rightarrow> crew \<Rightarrow> bool" where
  "duty_ok os asz tsz d cw F cw' \<longleftrightarrow>
     (\<exists>F'. crew_ok os asz tsz cw' F' \<and> frame_step F (mc_world (cw_machine cw)) F' (mc_world (cw_machine cw'))) \<and>
     length (cw_jobs cw') = length (cw_jobs cw) \<and>
     (\<forall>p A. cw_users cw p = Some A \<and> \<not> duty_names p d \<longrightarrow>
        cw_users cw' p = Some A \<and> agree_on A (w_mem (mc_world (cw_machine cw))) (w_mem (mc_world (cw_machine cw'))))"

lemma crew_invD:
  assumes "crew_inv os asz tsz cw F Fm Q"
  shows "os_ok os" and "arena_size_ok os tsz" and "length (mc_arenas (cw_machine cw)) \<le> 2 ^ 31"
    and "machine_ok os asz (cw_machine cw) Fm"
    and "caches_ok (length (mc_arenas (cw_machine cw))) (cw_caches cw) (w_mem (mc_world (cw_machine cw)))
       (mc_held (cw_machine cw)) Q"
    and "shell os tsz (ptrs (cw_caches cw @ cw_next cw)) (mc_world (cw_machine cw)) Fm"
    and "F = Fm \<union> shell_area os tsz (ptrs (cw_caches cw @ cw_next cw))"
    and "cw_users cw = for_users (mc_held (cw_machine cw)) Q"
    and "length (mc_threads (cw_machine cw)) = length (cw_jobs cw)"
    and "length (cw_caches cw) = length (cw_jobs cw)" and "length (cw_next cw) = length (cw_jobs cw)"
    and "t < length (cw_jobs cw) \<Longrightarrow>
      job_ok (mc_threads (cw_machine cw) ! t) (cw_caches cw ! t) (cw_next cw ! t) (cw_jobs cw ! t)"
    and "t < length (cw_jobs cw) \<Longrightarrow> cw_next cw ! t = Some (q, tc) \<Longrightarrow>
      \<exists>i<length (mc_arenas (cw_machine cw)). \<exists>use. tc = tc_new i (int i) use"
  using assms unfolding crew_inv_def by - blast+

text \<open>The machine moves, one cache changes, all storage stays where it is.\<close>

lemma crew_step:
  assumes inv: "crew_inv os asz tsz cw F Fm Q"
    and m: "machine_ok os asz (cw_machine cw') Fm'" and fs: "frame_step Fm (mc_world (cw_machine cw)) Fm' (mc_world (cw_machine cw'))"
    and len: "length (mc_arenas (cw_machine cw')) = length (mc_arenas (cw_machine cw))"
    and cs: "caches_ok (length (mc_arenas (cw_machine cw))) (cw_caches cw') (w_mem (mc_world (cw_machine cw')))
       (mc_held (cw_machine cw')) Q'"
    and us: "cw_users cw' = for_users (mc_held (cw_machine cw')) Q'"
    and t: "t < length (cw_jobs cw)"
    and threads: "mc_threads (cw_machine cw') = (mc_threads (cw_machine cw))[t := th]"
    and caches: "cw_caches cw' = (cw_caches cw)[t := c]" "map_option fst c = map_option fst (cw_caches cw ! t)"
    and jobs: "cw_jobs cw' = (cw_jobs cw)[t := job]" and nxt: "cw_next cw' = cw_next cw"
    and job: "job_ok th c (cw_next cw ! t) job"
    and keep: "\<And>p A. cw_users cw p = Some A \<Longrightarrow> \<not> duty_names p d \<Longrightarrow>
      cw_users cw' p = Some A \<and> agree_on A (w_mem (mc_world (cw_machine cw))) (w_mem (mc_world (cw_machine cw')))"
  shows "duty_ok os asz tsz d cw F cw'"
proof -
  note I = crew_invD [OF inv]
  have ps: "ptrs (cw_caches cw' @ cw_next cw') = ptrs (cw_caches cw @ cw_next cw)"
    using t I(10) caches(2) list_update_id [of "ptrs (cw_caches cw)" t]
    by (simp add: caches(1) nxt ptrs_def map_update)
  note S = shell_step [OF I(6) fs]
  have "job_ok (mc_threads (cw_machine cw') ! s) (cw_caches cw' ! s) (cw_next cw' ! s) (cw_jobs cw' ! s)"
    if "s < length (cw_jobs cw')" for s
    using I(12) [of s] job that t I(9,10) unfolding threads caches(1) jobs nxt by (cases "s = t") simp_all
  then have "crew_inv os asz tsz cw' (Fm' \<union> shell_area os tsz (ptrs (cw_caches cw @ cw_next cw))) Fm' Q'"
    using inv m cs us S(1) unfolding crew_inv_def len ps by (simp add: threads caches(1) jobs nxt)
  moreover have "length (cw_jobs cw') = length (cw_jobs cw)" by (simp add: jobs)
  ultimately show ?thesis using S(2) keep unfolding duty_ok_def crew_ok_def I(7) by blast
qed

lemma duty_ok_refl:
  assumes "crew_ok os asz tsz cw F"
  shows "duty_ok os asz tsz d cw F cw"
proof -
  obtain Fm Q where inv: "crew_inv os asz tsz cw F Fm Q" using assms unfolding crew_ok_def by blast
  note I = crew_invD [OF inv]
  have "F \<subseteq> mapped (mc_world (cw_machine cw))" using machine_mapped [OF I(4)] I(6,7) by (simp add: shell_def)
  then show ?thesis using assms unfolding duty_ok_def by (auto intro: frame_step_refl)
qed

text \<open>A move of the machine that names no cached block leaves the caches alone.\<close>

lemma crew_move:
  assumes cs: "caches_ok n cs (w_mem (mc_world mc)) (mc_held mc) Q" and mv: "move_ok os asz v mc Fm mc'"
    and names: "\<And>h. h \<in> held_by Q \<Longrightarrow> \<not> move_names (to_user_ptr h) v"
  shows "caches_ok n cs (w_mem (mc_world mc')) (mc_held mc') Q"
    and "for_users (mc_held mc) Q p = Some A \<Longrightarrow> \<not> move_names p v \<Longrightarrow>
      for_users (mc_held mc') Q p = Some A \<and> agree_on A (w_mem (mc_world mc)) (w_mem (mc_world mc'))"
proof -
  let ?V = "mc_held mc" and ?W = "mc_held mc |` (to_user_ptr ` held_by Q)"
  have keep: "mc_held mc' p = Some A \<and> agree_on A (w_mem (mc_world mc)) (w_mem (mc_world mc'))"
    if "?V p = Some A" "\<not> move_names p v" for p A
    using mv that unfolding move_ok_def by blast
  have ks: "keeps_headers ?V (w_mem (mc_world mc)) (w_mem (mc_world mc'))" using mv by (simp add: move_ok_def)
  have same: "mc_held mc' (to_user_ptr h) = ?V (to_user_ptr h)" if "h \<in> held_by Q" for h
    using caches_held [OF cs that] keep [OF _ names [OF that]] by auto
  show "caches_ok n cs (w_mem (mc_world mc')) (mc_held mc') Q"
  proof (rule caches_step [OF cs, where W = ?W])
    show "mc_held mc' (to_user_ptr h) = ?V (to_user_ptr h) \<and> ?W (to_user_ptr h) = ?V (to_user_ptr h)"
      if "h \<in> held_by Q" for h using same [OF that] that by (simp add: restrict_map_def)
    show "agree_on (granted ?W) (w_mem (mc_world mc)) (w_mem (mc_world mc'))"
    proof (rule agree_onI)
      fix x assume "x \<in> granted ?W"
      then obtain h A where h: "h \<in> held_by Q" "?V (to_user_ptr h) = Some A" "x \<in> A"
        by (auto simp: granted_def ran_def restrict_map_def split: if_splits)
      then show "w_mem (mc_world mc') x = w_mem (mc_world mc) x"
        using keep [OF h(2) names [OF h(1)]] by (simp add: agree_on_def)
    qed
    show "keeps_headers ?W (w_mem (mc_world mc)) (w_mem (mc_world mc'))"
      using ks by (auto simp: keeps_headers_def restrict_map_def)
  qed
  show "for_users (mc_held mc') Q p = Some A \<and> agree_on A (w_mem (mc_world mc)) (w_mem (mc_world mc'))"
    if "for_users ?V Q p = Some A" "\<not> move_names p v"
    using for_users_Some [OF that(1)] keep [OF _ that(2)] by (simp add: for_users_iff)
qed

lemma move_ok_machine:
  assumes "move_ok os asz v mc Fm mc'"
  obtains Fm' where "machine_ok os asz mc' Fm'" and "frame_step Fm (mc_world mc) Fm' (mc_world mc')"
    and "length (mc_arenas mc') = length (mc_arenas mc)" and "length (mc_threads mc') = length (mc_threads mc)"
  using assms unfolding move_ok_def by blast

subsection \<open>Sections, writes and results\<close>

lemma header_same:
  "bh_node_id m h = n \<Longrightarrow> set_bh_node_id h n m = m" "bh_size_class m h = c \<Longrightarrow> set_bh_size_class h c m = m"
  by (auto simp: header_field_defs store32_same)

lemma job_advance:
  assumes "job_ok (k, call) c r job" and "advance_activity os call ar w = Some (call', ar', w')"
  shows "job_ok (k, call') c r job"
  using assms(1) seeks_advance [OF assms(2)] assms(2) by (cases job) auto

lemma go_ok:
  assumes inv: "crew_inv os asz tsz cw F Fm Q"
  shows "\<exists>cw'. serve os tsz topo (Go t) cw = Some cw' \<and> duty_ok os asz tsz (Go t) cw F cw'"
proof -
  note I = crew_invD [OF inv]
  let ?mc = "cw_machine cw"
  obtain mc' where h: "happen os (Section t) ?mc = Some mc'" and mv: "move_ok os asz (Section t) ?mc Fm mc'"
    using happen_ok [OF I(4), of "Section t"] by (auto simp: legal_move_def)
  have run: "serve os tsz topo (Go t) cw = Some (cw\<lparr>cw_machine := mc'\<rparr>)" by (simp add: h del: happen.simps)
  show ?thesis
  proof (cases "t < length (cw_jobs cw)")
    case True
    obtain k call where th: "mc_threads ?mc ! t = (k, call)" by (cases "mc_threads ?mc ! t")
    obtain call' ar' w' where A: "advance_activity os call (snd (mc_arenas ?mc ! k)) (mc_world ?mc) = Some (call', ar', w')"
      and mc': "mc_threads mc' = (mc_threads ?mc)[t := (k, call')]" "mc_held mc' = mc_held ?mc"
      using h True I(9) by (auto simp: th split: option.splits)
    obtain Fm' where M: "machine_ok os asz mc' Fm'" "frame_step Fm (mc_world ?mc) Fm' (mc_world mc')"
      "length (mc_arenas mc') = length (mc_arenas ?mc)" using mv by (rule move_ok_machine)
    have names: "\<not> move_names q (Section t)" for q by (simp add: move_names_def)
    note C = crew_move [OF I(5) mv names, unfolded mc'(2)]
    have "duty_ok os asz tsz (Go t) cw F (cw\<lparr>cw_machine := mc'\<rparr>)"
    proof (rule crew_step [OF inv])
      show "job_ok (k, call') (cw_caches cw ! t) (cw_next cw ! t) (cw_jobs cw ! t)"
        using job_advance [OF _ A] I(12) [OF True] by (simp add: th)
      show "caches_ok (length (mc_arenas ?mc)) (cw_caches (cw\<lparr>cw_machine := mc'\<rparr>)) (w_mem (mc_world (cw_machine (cw\<lparr>cw_machine := mc'\<rparr>))))
          (mc_held (cw_machine (cw\<lparr>cw_machine := mc'\<rparr>))) Q" using C(1) mc'(2) by simp
    qed (use M mc' True I(8) C(2) names in simp_all)
    then show ?thesis using run by blast
  next
    case False
    then have "mc' = ?mc" using h I(9) by simp
    then have "duty_ok os asz tsz (Go t) cw F (cw\<lparr>cw_machine := mc'\<rparr>)"
      using duty_ok_refl [of os asz tsz cw F] inv by (auto simp: crew_ok_def)
    then show ?thesis using run by blast
  qed
qed

lemma use_ok:
  assumes inv: "crew_inv os asz tsz cw F Fm Q"
  shows "\<exists>cw'. serve os tsz topo (Use p f) cw = Some cw' \<and> duty_ok os asz tsz (Use p f) cw F cw'"
proof (cases "cw_users cw p")
  case None
  then show ?thesis using duty_ok_refl [of os asz tsz cw F] inv by (auto simp: crew_ok_def)
next
  case (Some A)
  note I = crew_invD [OF inv]
  let ?mc = "cw_machine cw"
  obtain mc' where h: "happen os (Write p f) ?mc = Some mc'" and mv: "move_ok os asz (Write p f) ?mc Fm mc'"
    using happen_ok [OF I(4), of "Write p f"] by (auto simp: legal_move_def)
  have mc': "mc_threads mc' = mc_threads ?mc" "mc_held mc' = mc_held ?mc"
    using h by (auto split: option.splits)
  obtain Fm' where M: "machine_ok os asz mc' Fm'" "frame_step Fm (mc_world ?mc) Fm' (mc_world mc')"
    "length (mc_arenas mc') = length (mc_arenas ?mc)" using mv by (rule move_ok_machine)
  have nq: "from_user_ptr p \<notin> held_by Q" using Some I(8) for_users_Some by simp
  have names: "\<not> move_names (to_user_ptr h) (Write p f)" if "h \<in> held_by Q" for h
    using that nq by (auto simp: move_names_def)
  note C = crew_move [OF I(5) mv names, unfolded mc'(2)]
  let ?cw = "cw\<lparr>cw_machine := mc'\<rparr>"
  note S = shell_step [OF I(6) M(2)]
  have "crew_inv os asz tsz ?cw (Fm' \<union> shell_area os tsz (ptrs (cw_caches cw @ cw_next cw))) Fm' Q"
    using inv M C(1) S(1) unfolding crew_inv_def by (simp add: mc')
  moreover have "cw_users ?cw q = Some B \<and> agree_on B (w_mem (mc_world ?mc)) (w_mem (mc_world mc'))"
    if "cw_users cw q = Some B" "q \<noteq> p" for q B
    using C(2) [of q B] that I(8) by (simp add: move_names_def)
  ultimately have "duty_ok os asz tsz (Use p f) cw F ?cw"
    using S(2) unfolding duty_ok_def crew_ok_def I(7) by (auto simp: duty_names_def)
  moreover have "serve os tsz topo (Use p f) cw = Some ?cw" using Some by (simp add: h del: happen.simps)
  ultimately show ?thesis by blast
qed

text \<open>A call that has ended without a block.\<close>

lemma finish_job:
  assumes inv: "crew_inv os asz tsz cw F Fm Q" and t: "t < length (cw_jobs cw)"
    and th: "mc_threads (cw_machine cw) ! t = (k, call)"
    and res: "allocated call = Some (Inl e) \<or> freed call = Some r"
    and job: "job_ok (k, On_small At_idle) (cw_caches cw ! t) (cw_next cw ! t) job"
  shows "\<exists>mc'. happen os (Collect t) (cw_machine cw) = Some mc' \<and>
    duty_ok os asz tsz (Settle t) cw F (cw\<lparr>cw_machine := mc', cw_jobs := (cw_jobs cw)[t := job]\<rparr>)"
proof -
  note I = crew_invD [OF inv]
  let ?mc = "cw_machine cw"
  obtain mc' where h: "happen os (Collect t) ?mc = Some mc'" and mv: "move_ok os asz (Collect t) ?mc Fm mc'"
    using happen_ok [OF I(4), of "Collect t"] by (auto simp: legal_move_def)
  have "taken call = None" using res by (cases call rule: taken.cases) auto
  then have mc': "mc_threads mc' = (mc_threads ?mc)[t := (k, On_small At_idle)]" "mc_held mc' = mc_held ?mc"
    using h t th I(9) res by auto
  obtain Fm' where M: "machine_ok os asz mc' Fm'" "frame_step Fm (mc_world ?mc) Fm' (mc_world mc')"
    "length (mc_arenas mc') = length (mc_arenas ?mc)" using mv by (rule move_ok_machine)
  have names: "\<not> move_names q (Collect t)" for q by (simp add: move_names_def)
  note C = crew_move [OF I(5) mv names, unfolded mc'(2)]
  let ?cw = "cw\<lparr>cw_machine := mc', cw_jobs := (cw_jobs cw)[t := job]\<rparr>"
  have "duty_ok os asz tsz (Settle t) cw F ?cw"
  proof (rule crew_step [OF inv])
    show "job_ok (k, On_small At_idle) (cw_caches cw ! t) (cw_next cw ! t) job" by (rule job)
    show "caches_ok (length (mc_arenas ?mc)) (cw_caches ?cw) (w_mem (mc_world (cw_machine ?cw)))
        (mc_held (cw_machine ?cw)) Q" using C(1) mc'(2) by simp
  qed (use M mc' t I(8) C(2) names in simp_all)
  with h show ?thesis by blast
qed

lemma settle_return_ok:
  assumes inv: "crew_inv os asz tsz cw F Fm Q" and t: "t < length (cw_jobs cw)"
    and job: "\<And>k. job_ok (k, On_small At_idle) (cw_caches cw ! t) (cw_next cw ! t) job"
  shows "\<exists>cw'. settle_return os t job cw = Some cw' \<and> duty_ok os asz tsz (Settle t) cw F cw'"
proof -
  obtain k call where th: "mc_threads (cw_machine cw) ! t = (k, call)" by (cases "mc_threads (cw_machine cw) ! t")
  show ?thesis
  proof (cases "freed call")
    case None
    then show ?thesis using duty_ok_refl [of os asz tsz cw F] inv by (auto simp: crew_ok_def settle_return_def th)
  next
    case (Some r)
    from finish_job [OF inv t th disjI2 [OF Some] job] show ?thesis
      using Some by (auto simp: settle_return_def th simp del: happen.simps)
  qed
qed

text \<open>A call that has ended with a block, and the header that the cache writes again.\<close>

lemma settle_request_ok:
  assumes inv: "crew_inv os asz tsz cw F Fm Q" and t: "t < length (cw_jobs cw)"
    and j: "cw_jobs cw ! t = Job_request kc" and c: "cw_caches cw ! t = Some (s, tc)"
  shows "\<exists>cw'. settle_request os t kc (s, tc) cw = Some cw' \<and> duty_ok os asz tsz (Settle t) cw F cw'"
proof -
  note I = crew_invD [OF inv]
  let ?mc = "cw_machine cw"
  obtain k call where th: "mc_threads ?mc ! t = (k, call)" by (cases "mc_threads ?mc ! t")
  have nx: "cw_next cw ! t = None" and jk: "\<And>i. kc = Some i \<Longrightarrow> seeks call = Some (Some i) \<and> k = tc_arena tc"
    using I(12) [OF t] by (auto simp: j c th)
  have idle: "job_ok (k, On_small At_idle) (cw_caches cw ! t) (cw_next cw ! t) Job_idle" by (simp add: nx)
  consider "allocated call = None" | e where "allocated call = Some (Inl e)" | p where "allocated call = Some (Inr p)"
    by (cases "allocated call") (auto, metis sum.exhaust)
  then show ?thesis
  proof cases
    case 1
    then show ?thesis using duty_ok_refl [of os asz tsz cw F] inv by (auto simp: crew_ok_def settle_request_def th)
  next
    case (2 e)
    from finish_job [OF inv t th disjI1 [OF 2] idle] show ?thesis
      using 2 by (auto simp: settle_request_def th Let_def simp del: happen.simps)
  next
    case (3 p)
    obtain mc' where h: "happen os (Collect t) ?mc = Some mc'" and mv: "move_ok os asz (Collect t) ?mc Fm mc'"
      using happen_ok [OF I(4), of "Collect t"] by (auto simp: legal_move_def)
    obtain A where A: "taken call = Some (p, A)" using 3 by (cases call rule: taken.cases) auto
    have mc': "mc_threads mc' = (mc_threads ?mc)[t := (k, On_small At_idle)]" "mc_held mc' = (mc_held ?mc)(p \<mapsto> A)"
      "mc_arenas mc' = mc_arenas ?mc" "mc_world mc' = mc_world ?mc"
      using h t th I(9) A by auto
    obtain Fm' where M: "machine_ok os asz mc' Fm'" "frame_step Fm (mc_world ?mc) Fm' (mc_world mc')"
      using mv by (rule move_ok_machine)
    have fresh: "mc_held ?mc p = None"
    proof -
      obtain Fs Us where "machine_inv os asz ?mc Fs Us" using I(4) unfolding machine_ok_def by blast
      from collect_ok(2) [OF this _ th A] t I(9) show ?thesis by simp
    qed
    have nq: "from_user_ptr p \<notin> held_by Q"
    proof
      assume "from_user_ptr p \<in> held_by Q"
      from caches_held [OF I(5) this] fresh show False by auto
    qed
    have names: "\<not> move_names q (Collect t)" for q by (simp add: move_names_def)
    note C = crew_move [OF I(5) mv names]
    define m where "m = label_fresh tc kc p (w_mem (mc_world mc'))"
    let ?w = "(mc_world mc')\<lparr>w_mem := m\<rparr>"
    have L: "machine_ok os asz (mc'\<lparr>mc_world := ?w\<rparr>) Fm' \<and> frame_step Fm' (mc_world mc') Fm' ?w \<and>
        untouched (mc_held mc') (w_mem (mc_world mc')) m"
    proof (cases kc)
      case None
      then have "m = w_mem (mc_world mc')" by (simp add: m_def label_fresh_def)
      then show ?thesis using M(1) frame_step_refl [OF machine_mapped [OF M(1)]] untouched_refl by simp
    next
      case (Some i)
      obtain ci where call: "call = On_small (At_allocated ci (Inr p))" "unat ci = i"
        using 3 jk [OF Some] by (cases call rule: allocated.cases) auto
      note H = machine_fresh_header [OF I(4) _ th [unfolded call(1)], unfolded I(9), OF t]
      have node: "tc_node_id tc = int k"
        using caches_okD(4) [OF I(5) _ c] t I(10) jk [OF Some] by (auto dest: cache_okD(6))
      have m: "m = set_bh_size (from_user_ptr p) 0 (w_mem (mc_world mc'))"
        using header_same(1) [OF H(1)] header_same(2) [OF H(2)] unfolding m_def Some label_fresh_def mc'(4)
        by (simp add: Let_def node call(2))
      have "mc_held mc' p \<noteq> None" by (simp add: mc'(2))
      moreover have "bh_size_class (w_mem (mc_world mc')) (from_user_ptr p) \<noteq> 0"
        using H(2,3) class_nz by (simp add: mc'(4))
      ultimately show ?thesis using machine_resize [OF M(1) _ _ m] by simp
    qed
    let ?cw = "cw\<lparr>cw_jobs := (cw_jobs cw)[t := Job_idle], cw_machine := mc'\<lparr>mc_world := ?w\<rparr>,
      cw_users := (cw_users cw)(p := mc_held mc' p)\<rparr>"
    have "duty_ok os asz tsz (Settle t) cw F ?cw"
    proof (rule crew_step [OF inv])
      show "job_ok (k, On_small At_idle) (cw_caches cw ! t) (cw_next cw ! t) Job_idle" by (rule idle)
      show "frame_step Fm (mc_world ?mc) Fm' (mc_world (cw_machine ?cw))"
        using frame_step_trans [OF M(2)] L by simp
      show "caches_ok (length (mc_arenas ?mc)) (cw_caches ?cw) (w_mem (mc_world (cw_machine ?cw)))
          (mc_held (cw_machine ?cw)) Q"
        using caches_step [OF C(1), where W = "mc_held mc'" and V' = "mc_held mc'" and m' = m] L by (simp add: untouched_def)
      show "cw_users ?cw = for_users (mc_held (cw_machine ?cw)) Q"
        using for_users_upd(1) [OF nq] by (simp add: I(8) mc'(2))
      show "cw_users ?cw q = Some B \<and> agree_on B (w_mem (mc_world ?mc)) (w_mem (mc_world (cw_machine ?cw)))"
        if q: "cw_users cw q = Some B" for q B
      proof -
        have "mc_held ?mc q = Some B" using q for_users_Some by (simp add: I(8))
        then have "q \<noteq> p" "mc_held mc' q = Some B" using fresh by (auto simp: mc'(2))
        moreover have "agree_on (granted (mc_held mc')) (w_mem (mc_world ?mc)) m"
          using L by (simp add: untouched_def mc'(4))
        ultimately show ?thesis using q granted_part [of "mc_held mc'" q B] by (auto intro: agree_on_mono)
      qed
    qed (use M L mc' t in simp_all)
    then show ?thesis using 3 h by (simp add: settle_request_def th Let_def m_def del: happen.simps)
  qed
qed

subsection \<open>Threads come, move and go\<close>

text \<open>A step elsewhere in the address space.\<close>

lemma crew_frame:
  assumes inv: "crew_inv os asz tsz cw F Fm Q" and fs: "frame_step G (mc_world (cw_machine cw)) G' w'" and dj: "F \<inter> G = {}"
  shows "crew_inv os asz tsz (cw\<lparr>cw_machine := (cw_machine cw)\<lparr>mc_world := w'\<rparr>\<rparr>) F Fm Q"
    and "agree_on (granted (cw_users cw)) (w_mem (mc_world (cw_machine cw))) (w_mem w')"
    and "frame_step (G \<union> F) (mc_world (cw_machine cw)) (G' \<union> F) w'"
proof -
  note I = crew_invD [OF inv]
  let ?S = "shell_area os tsz (ptrs (cw_caches cw @ cw_next cw))"
  have d: "Fm \<inter> G = {}" "?S \<inter> G = {}" using dj I(7) by auto
  note M = machine_frame [OF I(4) fs d(1)]
  have S: "?S \<subseteq> mapped (mc_world (cw_machine cw))" using I(6) by (simp add: shell_def)
  have ag: "agree_on (granted (mc_held (cw_machine cw))) (w_mem (mc_world (cw_machine cw))) (w_mem w')"
    and ks: "keeps_headers (mc_held (cw_machine cw)) (w_mem (mc_world (cw_machine cw))) (w_mem w')"
    using M(2) by (simp_all add: untouched_def)
  have "caches_ok (length (mc_arenas (cw_machine cw))) (cw_caches cw) (w_mem w') (mc_held (cw_machine cw)) Q"
    by (rule caches_step [OF I(5) _ ag ks]) simp
  moreover have "shell os tsz (ptrs (cw_caches cw @ cw_next cw)) w' Fm"
    using frame_step_mem [OF d(2) S fs] I(6) by (simp add: shell_def)
  ultimately show "crew_inv os asz tsz (cw\<lparr>cw_machine := (cw_machine cw)\<lparr>mc_world := w'\<rparr>\<rparr>) F Fm Q"
    using inv M(1) by (simp add: crew_inv_def)
  show "agree_on (granted (cw_users cw)) (w_mem (mc_world (cw_machine cw))) (w_mem w')"
    unfolding I(8) by (rule agree_on_mono [OF ag for_users_granted])
  show "frame_step (G \<union> F) (mc_world (cw_machine cw)) (G' \<union> F) w'"
    using machine_mapped [OF I(4)] S dj by (intro frame_step_extend [OF fs]) (auto simp: I(7))
qed

text \<open>The owner of one thread changes, nothing else.\<close>

lemma crew_slots:
  assumes inv: "crew_inv os asz tsz cw F Fm Q" and t: "t < length (cw_jobs cw)"
    and cs: "caches_ok (length (mc_arenas (cw_machine cw))) ((cw_caches cw)[t := c]) (w_mem (mc_world (cw_machine cw)))
       (mc_held (cw_machine cw)) Q'"
    and us: "for_users (mc_held (cw_machine cw)) Q' = for_users (mc_held (cw_machine cw)) Q"
    and sh: "shell os tsz (ptrs ((cw_caches cw)[t := c] @ (cw_next cw)[t := r])) (mc_world (cw_machine cw)) Fm"
    and job: "job_ok (mc_threads (cw_machine cw) ! t) c r job"
    and nx: "\<And>q tc. r = Some (q, tc) \<Longrightarrow> \<exists>i<length (mc_arenas (cw_machine cw)). \<exists>use. tc = tc_new i (int i) use"
  shows "crew_inv os asz tsz (cw\<lparr>cw_caches := (cw_caches cw)[t := c], cw_next := (cw_next cw)[t := r],
      cw_jobs := (cw_jobs cw)[t := job]\<rparr>) (Fm \<union> shell_area os tsz (ptrs ((cw_caches cw)[t := c] @ (cw_next cw)[t := r]))) Fm Q'"
proof -
  note I = crew_invD [OF inv]
  have "job_ok (mc_threads (cw_machine cw) ! s) ((cw_caches cw)[t := c] ! s) ((cw_next cw)[t := r] ! s) ((cw_jobs cw)[t := job] ! s)"
    if "s < length (cw_jobs cw)" for s using I(12) [OF that] job t I(10,11) by (cases "s = t") simp_all
  moreover have "\<exists>i<length (mc_arenas (cw_machine cw)). \<exists>use. tc = tc_new i (int i) use"
    if "s < length (cw_jobs cw)" "(cw_next cw)[t := r] ! s = Some (q, tc)" for s q tc
    using I(13) [OF that(1), of q tc] nx that t I(11) by (cases "s = t") simp_all
  ultimately show ?thesis
    using I(1-4,8-11) cs us sh unfolding crew_inv_def by simp
qed

lemma ptrs_append: "ptrs (cs @ rs) = ptrs cs @ ptrs rs"
  by (simp add: ptrs_def)

lemma crew_users_step:
  assumes ok: "crew_ok os asz tsz cw' F'" and fs: "frame_step F (mc_world (cw_machine cw)) F' (mc_world (cw_machine cw'))"
    and len: "length (cw_jobs cw') = length (cw_jobs cw)" and us: "cw_users cw' = cw_users cw"
    and ag: "agree_on (granted (cw_users cw)) (w_mem (mc_world (cw_machine cw))) (w_mem (mc_world (cw_machine cw')))"
  shows "duty_ok os asz tsz d cw F cw'"
proof -
  have "agree_on A (w_mem (mc_world (cw_machine cw))) (w_mem (mc_world (cw_machine cw')))" if "cw_users cw p = Some A" for p A
    by (rule agree_on_mono [OF ag]) (rule granted_part [of "cw_users cw" p A, OF that])
  then show ?thesis using ok fs len us unfolding duty_ok_def by auto
qed

lemma crew_mapped:
  assumes inv: "crew_inv os asz tsz cw F Fm Q"
  shows "F \<subseteq> mapped (mc_world (cw_machine cw))"
  using machine_mapped [OF crew_invD(4) [OF inv]] crew_invD(6,7) [OF inv] by (simp add: shell_def)

lemma crew_fresh:
  assumes inv: "crew_inv os asz tsz cw F Fm Q" and fs: "frame_step {} (mc_world (cw_machine cw)) A w'"
  shows "A \<subseteq> mapped w'" and "A \<inter> F = {}"
proof -
  from frame_step_mem [OF _ crew_mapped [OF inv] fs] show "A \<inter> F = {}" by auto
  show "A \<subseteq> mapped w'" using fs by (auto simp: frame_step_def)
qed

lemma join_ok:
  assumes inv: "crew_inv os asz tsz cw F Fm Q" and l: "at_leisure t cw"
  shows "duty_ok os asz tsz (Join t cpu use) cw F (join os tsz topo t cpu use cw)"
proof (cases "cw_caches cw ! t")
  case (Some c)
  have "(cw_caches cw)[t := Some c] = cw_caches cw" using Some list_update_id [of "cw_caches cw" t] by simp
  then have "join os tsz topo t cpu use cw = cw" using Some by (simp add: join_def ensure_cache_def Let_def)
  then show ?thesis using duty_ok_refl [of os asz tsz cw F] inv by (auto simp: crew_ok_def)
next
  case None
  note I = crew_invD [OF inv]
  let ?mc = "cw_machine cw" and ?n = "length (mc_arenas (cw_machine cw))"
  have t: "t < length (cw_jobs cw)" and j: "cw_jobs cw ! t = Job_idle" using l by (simp_all add: at_leisure_def)
  have r: "cw_next cw ! t = None" and rest: "snd (mc_threads ?mc ! t) = On_small At_idle" using I(12) [OF t] by (simp_all add: j)
  obtain x w' where cr: "create_on_current_node os tsz topo cpu use (mc_arenas ?mc) (mc_world ?mc) = (x, w')" by fastforce
  let ?cw1 = "cw\<lparr>cw_machine := ?mc\<lparr>mc_world := w'\<rparr>\<rparr>"
  show ?thesis
  proof (cases x)
    case (Inl e)
    note C = create_Inl [OF I(1,2) cr [unfolded Inl]]
    note K = crew_frame [OF inv C(1)]
    have "join os tsz topo t cpu use cw = ?cw1"
      using None cr Inl list_update_id [of "cw_caches cw" t] by (simp add: join_def ensure_cache_def Let_def)
    then show ?thesis using K(2,3) crew_okI [OF K(1)] by (auto intro!: crew_users_step [where F' = F])
  next
    case (Inr qt)
    obtain q tc where qt: "qt = (q, tc)" by (cases qt)
    note C = create_Inr [OF I(1,2) cr [unfolded Inr qt]]
    let ?A = "bytes_of q (span_bytes os tsz)"
    obtain i where i: "i < ?n" "tc = tc_new i (int i) use" using C(4) by blast
    note K = crew_frame [OF inv C(1)]
    note I1 = crew_invD [OF K(1), simplified]
    have e: "concat (Q ! t) = []" using caches_okD(2) [OF I(5), of t] t I(10) None by (simp add: slot_ok_def)
    note P = caches_create(1) [OF I1(5) _ e i(1), of q use, folded i(2)] caches_create(2) [OF I1(5) _ e i(1)]
    have tc: "t < length (cw_caches cw)" using t I(10) by simp
    have FA: "?A \<subseteq> mapped w'" "?A \<inter> F = {}" by (rule crew_fresh [OF inv C(1)])+
    have ps: "t < length (ptrs (cw_caches cw @ cw_next cw))" "ptrs (cw_caches cw @ cw_next cw) ! t = None"
      using t I(10,11) None by (simp_all add: ptrs_append nth_append)
    have up: "(ptrs (cw_caches cw @ cw_next cw))[t := Some q] = ptrs ((cw_caches cw)[t := Some (q, tc)] @ (cw_next cw)[t := cw_next cw ! t])"
      using tc by (simp add: ptrs_append ptrs_update list_update_append)
    note S = shell_add [OF I1(6) ps C(2,3) FA(1) FA(2) [unfolded I(7)], unfolded up]
    have "crew_inv os asz tsz (?cw1\<lparr>cw_caches := (cw_caches cw)[t := Some (q, tc)],
        cw_next := (cw_next cw)[t := cw_next cw ! t], cw_jobs := (cw_jobs cw)[t := Job_idle]\<rparr>)
        (Fm \<union> shell_area os tsz (ptrs ((cw_caches cw)[t := Some (q, tc)] @ (cw_next cw)[t := cw_next cw ! t]))) Fm (Q[t := replicate 40 []])"
      using crew_slots [OF K(1), of t "Some (q, tc)" "Q[t := replicate 40 []]" "cw_next cw ! t" Job_idle] t P tc S(1) r rest by simp
    moreover have "(cw_jobs cw)[t := Job_idle] = cw_jobs cw" using j list_update_id [of "cw_jobs cw" t] by simp
    ultimately have "crew_ok os asz tsz (?cw1\<lparr>cw_caches := (cw_caches cw)[t := Some (q, tc)]\<rparr>) (?A \<union> F)"
      using S(2) unfolding crew_ok_def by (auto simp: I(7) Un_ac)
    moreover have "join os tsz topo t cpu use cw = ?cw1\<lparr>cw_caches := (cw_caches cw)[t := Some (q, tc)]\<rparr>"
      using None cr Inr qt by (simp add: join_def ensure_cache_def Let_def)
    ultimately show ?thesis using K(2,3) by (auto intro!: crew_users_step [where F' = "?A \<union> F"])
  qed
qed

lemma at_leisureD:
  assumes inv: "crew_inv os asz tsz cw F Fm Q" and l: "at_leisure t cw"
  shows "t < length (cw_jobs cw)" and "cw_next cw ! t = None"
    and "snd (mc_threads (cw_machine cw) ! t) = On_small At_idle" and "at_rest (cw_machine cw) t"
    and "(cw_jobs cw)[t := Job_idle] = cw_jobs cw"
proof -
  have t: "t < length (cw_jobs cw)" and j: "cw_jobs cw ! t = Job_idle" using l by (simp_all add: at_leisure_def)
  then show "t < length (cw_jobs cw)" "(cw_jobs cw)[t := Job_idle] = cw_jobs cw"
    using list_update_id [of "cw_jobs cw" t] by simp_all
  show "cw_next cw ! t = None" and "snd (mc_threads (cw_machine cw) ! t) = On_small At_idle" and "at_rest (cw_machine cw) t"
    using crew_invD(9) [OF inv] crew_invD(12) [OF inv, of t] t by (simp_all add: j at_rest_def)
qed

lemma adapt_ok:
  assumes inv: "crew_inv os asz tsz cw F Fm Q" and l: "at_leisure t cw" and c: "cw_caches cw ! t = Some (s, tc)"
  shows "duty_ok os asz tsz (Adapt t cpu1 cpu2 use) cw F (adapt os tsz topo t cpu1 cpu2 use (s, tc) cw)"
proof -
  note I = crew_invD [OF inv]
  note L = at_leisureD [OF inv l]
  let ?mc = "cw_machine cw" and ?n = "length (mc_arenas (cw_machine cw))"
  have tc: "t < length (cw_caches cw)" using L(1) I(10) by simp
  show ?thesis
  proof (cases "tc_node_id tc = current_node_from_cpu topo cpu1")
    case True
    let ?c = "Some (s, set_use_thread_cache use tc)"
    have "duty_ok os asz tsz (Adapt t cpu1 cpu2 use) cw F (cw\<lparr>cw_caches := (cw_caches cw)[t := ?c]\<rparr>)"
    proof (rule crew_step [OF inv])
      show "job_ok (mc_threads ?mc ! t) ?c (cw_next cw ! t) (cw_jobs cw ! t)"
        using I(12) [OF L(1)] l by (simp add: at_leisure_def)
      show "caches_ok ?n (cw_caches (cw\<lparr>cw_caches := (cw_caches cw)[t := ?c]\<rparr>))
          (w_mem (mc_world (cw_machine (cw\<lparr>cw_caches := (cw_caches cw)[t := ?c]\<rparr>))))
          (mc_held (cw_machine (cw\<lparr>cw_caches := (cw_caches cw)[t := ?c]\<rparr>))) Q"
        using caches_switch [OF I(5) tc c] by simp
      show "frame_step Fm (mc_world ?mc) Fm (mc_world (cw_machine (cw\<lparr>cw_caches := (cw_caches cw)[t := ?c]\<rparr>)))"
        using frame_step_refl [OF machine_mapped [OF I(4)]] by simp
    qed (use I(4,8) L(1) c in simp_all)
    then show ?thesis using True by (simp add: adapt_def)
  next
    case False
    obtain x w' where cr: "create_on_current_node os tsz topo cpu2 use (mc_arenas ?mc) (mc_world ?mc) = (x, w')" by fastforce
    let ?cw1 = "cw\<lparr>cw_machine := ?mc\<lparr>mc_world := w'\<rparr>\<rparr>"
    show ?thesis
    proof (cases x)
      case (Inl e)
      note C = create_Inl [OF I(1,2) cr [unfolded Inl]]
      note K = crew_frame [OF inv C(1)]
      have "adapt os tsz topo t cpu1 cpu2 use (s, tc) cw = ?cw1" using False cr Inl by (simp add: adapt_def)
      then show ?thesis using K(2,3) crew_okI [OF K(1)] by (auto intro!: crew_users_step [where F' = F])
    next
      case (Inr qt)
      obtain q tc2 where qt: "qt = (q, tc2)" by (cases qt)
      note C = create_Inr [OF I(1,2) cr [unfolded Inr qt]]
      let ?A = "bytes_of q (span_bytes os tsz)"
      note K = crew_frame [OF inv C(1)]
      note I1 = crew_invD [OF K(1), simplified]
      have FA: "?A \<subseteq> mapped w'" "?A \<inter> F = {}" by (rule crew_fresh [OF inv C(1)])+
      let ?k = "length (cw_caches cw) + t"
      have ps: "?k < length (ptrs (cw_caches cw @ cw_next cw))" "ptrs (cw_caches cw @ cw_next cw) ! ?k = None"
        using L(1,2) I(10,11) by (simp_all add: ptrs_append nth_append)
      have up: "(ptrs (cw_caches cw @ cw_next cw))[?k := Some q] = ptrs ((cw_caches cw)[t := Some (s, tc)] @ (cw_next cw)[t := Some (q, tc2)])"
        using ptrs_same [OF tc c, of tc] by (simp add: ptrs_append ptrs_update list_update_append)
      note S = shell_add [OF I1(6) ps C(2,3) FA(1) FA(2) [unfolded I(7)], unfolded up]
      have same: "(cw_caches cw)[t := Some (s, tc)] = cw_caches cw" using c list_update_id [of "cw_caches cw" t] by simp
      have new: "\<exists>i<?n. \<exists>use. tc2 = tc_new i (int i) use" using C(4) by blast
      let ?cw2 = "?cw1\<lparr>cw_caches := (cw_caches cw)[t := Some (s, tc)], cw_next := (cw_next cw)[t := Some (q, tc2)],
        cw_jobs := (cw_jobs cw)[t := Job_flush]\<rparr>"
      have "crew_inv os asz tsz ?cw2
          (Fm \<union> shell_area os tsz (ptrs ((cw_caches cw)[t := Some (s, tc)] @ (cw_next cw)[t := Some (q, tc2)]))) Fm Q"
        using crew_slots [OF K(1), of t "Some (s, tc)" Q "Some (q, tc2)" Job_flush] L(1,3) I1(5) S(1) new same by simp
      moreover have "Fm \<union> shell_area os tsz (ptrs ((cw_caches cw)[t := Some (s, tc)] @ (cw_next cw)[t := Some (q, tc2)])) = ?A \<union> F"
        unfolding S(2) I(7) by (simp add: Un_ac)
      ultimately have "crew_ok os asz tsz ?cw2 (?A \<union> F)" using crew_okI by metis
      moreover have "adapt os tsz topo t cpu1 cpu2 use (s, tc) cw = ?cw2"
        using False cr Inr qt same by (simp add: adapt_def)
      ultimately show ?thesis using K(2,3) by (auto intro!: crew_users_step [where F' = "?A \<union> F"])
    qed
  qed
qed

lemma quit_ok:
  assumes inv: "crew_inv os asz tsz cw F Fm Q" and l: "at_leisure t cw" and c: "cw_caches cw ! t = Some (s, tc)"
  shows "duty_ok os asz tsz (Quit t) cw F (cw\<lparr>cw_jobs := (cw_jobs cw)[t := Job_flush]\<rparr>)"
proof (rule crew_step [OF inv])
  note I = crew_invD [OF inv]
  note L = at_leisureD [OF inv l]
  show "job_ok (mc_threads (cw_machine cw) ! t) (cw_caches cw ! t) (cw_next cw ! t) Job_flush" using L by (simp add: c)
  show "frame_step Fm (mc_world (cw_machine cw)) Fm (mc_world (cw_machine (cw\<lparr>cw_jobs := (cw_jobs cw)[t := Job_flush]\<rparr>)))"
    using frame_step_refl [OF machine_mapped [OF I(4)]] by simp
  show "caches_ok (length (mc_arenas (cw_machine cw))) (cw_caches (cw\<lparr>cw_jobs := (cw_jobs cw)[t := Job_flush]\<rparr>))
      (w_mem (mc_world (cw_machine (cw\<lparr>cw_jobs := (cw_jobs cw)[t := Job_flush]\<rparr>))))
      (mc_held (cw_machine (cw\<lparr>cw_jobs := (cw_jobs cw)[t := Job_flush]\<rparr>))) Q" using I(5) by simp
qed (use crew_invD [OF inv] at_leisureD [OF inv l] in simp_all)

subsection \<open>Blocks enter and leave the caches\<close>

lemma crew_owns: "crew_inv os asz tsz cw F Fm Q \<Longrightarrow>
    machine_owns os asz (cw_machine cw) (mc_world (cw_machine cw)) Fm (mc_held (cw_machine cw))"
  using crew_invD(4) by (fastforce simp: machine_owns_def)

lemma ask_ok:
  assumes inv: "crew_inv os asz tsz cw F Fm Q" and l: "at_leisure t cw" and c: "cw_caches cw ! t = Some (s, tc)"
    and legal: "ar_legal os (sz, alignment)"
  shows "\<exists>cw'. ask os t sz alignment (s, tc) cw = Some cw' \<and> duty_ok os asz tsz (Ask t sz alignment) cw F cw'"
proof -
  note I = crew_invD [OF inv]
  note L = at_leisureD [OF inv l]
  let ?mc = "cw_machine cw"
  have tc: "t < length (cw_caches cw)" using L(1) I(10) by simp
  have same: "(cw_caches cw)[t := Some (s, tc)] = cw_caches cw" using c list_update_id [of "cw_caches cw" t] by simp
  have idle: "job_ok (mc_threads ?mc ! t) x (cw_next cw ! t) (cw_jobs cw ! t)" for x
    using l L(2,3) by (simp add: at_leisure_def)
  obtain a tc1 where r: "cache_request sz alignment tc (w_mem (mc_world ?mc)) = (a, tc1)" by fastforce
  show ?thesis
  proof (cases a)
    case (Refused e)
    have "ask os t sz alignment (s, tc) cw = Some cw"
      using r cache_request_refused [OF r [unfolded Refused]] same by (simp add: ask_def Refused)
    then show ?thesis using duty_ok_refl [OF crew_okI [OF inv]] by blast
  next
    case (Cached i h)
    note R = cache_request_cached [OF r [unfolded Cached]]
    let ?p = "to_user_ptr h" and ?A = "class_area i h"
    obtain V' Q' where T: "tc_arena tc1 = tc_arena tc" "machine_owns os asz ?mc (mc_world ?mc) Fm V'"
      "caches_ok (length (mc_arenas ?mc)) ((cw_caches cw)[t := Some (s, tc1)]) (w_mem (mc_world ?mc)) V' Q'"
      "V' = (mc_held ?mc)(?p \<mapsto> ?A)" "for_users (mc_held ?mc) Q ?p = None"
      "for_users V' Q' = (for_users (mc_held ?mc) Q)(?p \<mapsto> ?A)"
      using mcs.take [OF crew_owns [OF inv] I(5) tc c R(3,1,2) subset_refl] by blast
    let ?cw = "cw\<lparr>cw_machine := ?mc\<lparr>mc_held := (mc_held ?mc)(?p \<mapsto> ?A)\<rparr>, cw_caches := (cw_caches cw)[t := Some (s, tc1)],
      cw_users := (cw_users cw)(?p \<mapsto> ?A)\<rparr>"
    have "duty_ok os asz tsz (Ask t sz alignment) cw F ?cw"
    proof (rule crew_step [OF inv])
      show "job_ok (mc_threads ?mc ! t) (Some (s, tc1)) (cw_next cw ! t) (cw_jobs cw ! t)" by (rule idle)
      show "machine_ok os asz (cw_machine ?cw) Fm" using T(2) by (simp add: machine_owns_def T(4))
      show "frame_step Fm (mc_world ?mc) Fm (mc_world (cw_machine ?cw))"
        using frame_step_refl [OF machine_mapped [OF I(4)]] by simp
      show "caches_ok (length (mc_arenas ?mc)) (cw_caches ?cw) (w_mem (mc_world (cw_machine ?cw))) (mc_held (cw_machine ?cw)) Q'"
        using T(3,4) by simp
      show "cw_users ?cw = for_users (mc_held (cw_machine ?cw)) Q'" using T(4,6) I(8) by simp
      show "cw_users ?cw q = Some B \<and> agree_on B (w_mem (mc_world ?mc)) (w_mem (mc_world (cw_machine ?cw)))"
        if "cw_users cw q = Some B" for q B using that T(5) I(8) by auto
    qed (use L(1) c in simp_all)
    then show ?thesis using r by (simp add: ask_def Cached Let_def)
  next
    case (From_arena n k)
    note R = cache_request_seeks [OF r [unfolded From_arena]]
    have i: "tc_arena tc < length (mc_arenas ?mc)" by (rule cache_okD(5) [OF caches_okD(4) [OF I(5) tc c]])
    have "ar_legal os (n, alignment)" using R(3) legal by auto
    then obtain mc' where h: "happen os (Request t (tc_arena tc) n alignment) ?mc = Some mc'"
      and mv: "move_ok os asz (Request t (tc_arena tc) n alignment) ?mc Fm mc'"
      using happen_ok [OF I(4), of "Request t (tc_arena tc) n alignment"] by (auto simp: legal_move_def)
    have mc': "mc_threads mc' = (mc_threads ?mc)[t := (tc_arena tc, begin_allocate os n alignment)]" "mc_held mc' = mc_held ?mc"
      using h L(4) i by auto
    obtain Fm' where M: "machine_ok os asz mc' Fm'" "frame_step Fm (mc_world ?mc) Fm' (mc_world mc')"
      "length (mc_arenas mc') = length (mc_arenas ?mc)" using mv by (rule move_ok_machine)
    have names: "\<not> move_names q (Request t (tc_arena tc) n alignment)" for q by (simp add: move_names_def)
    note C = crew_move [OF I(5) mv names, unfolded mc'(2)]
    let ?cw = "cw\<lparr>cw_machine := mc', cw_jobs := (cw_jobs cw)[t := Job_request k]\<rparr>"
    have "duty_ok os asz tsz (Ask t sz alignment) cw F ?cw"
    proof (rule crew_step [OF inv])
      show "job_ok (tc_arena tc, begin_allocate os n alignment) (cw_caches cw ! t) (cw_next cw ! t) (Job_request k)"
        using R(2) seeks_begin [of os n alignment] by (simp add: c L(2))
      show "caches_ok (length (mc_arenas ?mc)) (cw_caches ?cw) (w_mem (mc_world (cw_machine ?cw))) (mc_held (cw_machine ?cw)) Q"
        using C(1) mc'(2) by simp
    qed (use M mc' L(1) I(8) C(2) names in simp_all)
    moreover have "ask os t sz alignment (s, tc) cw = Some ?cw"
      using r R(1) h same by (simp add: ask_def From_arena del: happen.simps)
    ultimately show ?thesis by blast
  qed
qed

text \<open>A block goes back to an arena, from its user or out of a bin that is flushed: whatever the grants
  of the caches are, the block is not theirs any more.\<close>

lemma send_back:
  assumes inv: "crew_inv os asz tsz cw F Fm Q" and t: "t < length (cw_jobs cw)" and rest: "at_rest (cw_machine cw) t"
    and c: "cw_caches cw ! t = Some (s, tc)" and ar: "tc_arena tc1 = tc_arena tc"
    and cs: "caches_ok (length (mc_arenas (cw_machine cw))) ((cw_caches cw)[t := Some (s, tc1)])
       (w_mem (mc_world (cw_machine cw))) (mc_held (cw_machine cw)) Q'"
    and p: "for_users (mc_held (cw_machine cw)) Q' p \<noteq> None"
    and us: "for_users (mc_held (cw_machine cw)) Q' = U \<and> U' = U(p := None)"
    and only: "\<And>q A. cw_users cw q = Some A \<Longrightarrow> \<not> duty_names q d \<Longrightarrow> U q = Some A \<and> q \<noteq> p"
    and job: "\<And>th. gives (snd th) \<Longrightarrow> job_ok th (Some (s, tc1)) (cw_next cw ! t) job"
  shows "\<exists>mc'. happen os (Return t (tc_arena tc1) p) (cw_machine cw) = Some mc' \<and>
    duty_ok os asz tsz d cw F (cw\<lparr>cw_machine := mc', cw_caches := (cw_caches cw)[t := Some (s, tc1)],
      cw_jobs := (cw_jobs cw)[t := job], cw_users := U'\<rparr>)"
proof -
  note I = crew_invD [OF inv]
  let ?mc = "cw_machine cw" and ?v = "Return t (tc_arena tc1) p"
  have "t < length (cw_caches cw)" using t I(10) by simp
  then have i: "tc_arena tc1 < length (mc_arenas ?mc)" using cache_okD(5) [OF caches_okD(4) [OF I(5) _ c]] ar by simp
  obtain mc' where h: "happen os ?v ?mc = Some mc'" and mv: "move_ok os asz ?v ?mc Fm mc'"
    using happen_ok [OF I(4), of ?v] by (auto simp: legal_move_def)
  obtain A where A: "for_users (mc_held ?mc) Q' p = Some A" using p by blast
  note V = for_users_Some [OF A]
  let ?th = "begin_return (mc_arenas ?mc) (tc_arena tc1) p (w_mem (mc_world ?mc))"
  have mc': "mc_threads mc' = (mc_threads ?mc)[t := ?th]" "mc_held mc' = (mc_held ?mc)(p := None)"
    using h rest i V by auto
  obtain Fm' where M: "machine_ok os asz mc' Fm'" "frame_step Fm (mc_world ?mc) Fm' (mc_world mc')"
    "length (mc_arenas mc') = length (mc_arenas ?mc)" using mv by (rule move_ok_machine)
  have names: "\<not> move_names (to_user_ptr g) ?v" if "g \<in> held_by Q'" for g
    using that V by (auto simp: move_names_def)
  note C = crew_move [OF cs mv names]
  let ?cw = "cw\<lparr>cw_machine := mc', cw_caches := (cw_caches cw)[t := Some (s, tc1)],
      cw_jobs := (cw_jobs cw)[t := job], cw_users := U'\<rparr>"
  have "duty_ok os asz tsz d cw F ?cw"
  proof (rule crew_step [OF inv])
    show "job_ok ?th (Some (s, tc1)) (cw_next cw ! t) job" by (rule job [OF gives_begin])
    show "caches_ok (length (mc_arenas ?mc)) (cw_caches ?cw) (w_mem (mc_world (cw_machine ?cw))) (mc_held (cw_machine ?cw)) Q'"
      using C(1) by simp
    show "cw_users ?cw = for_users (mc_held (cw_machine ?cw)) Q'" using us for_users_upd(2) by (simp add: mc'(2))
    show "cw_users ?cw q = Some B \<and> agree_on B (w_mem (mc_world ?mc)) (w_mem (mc_world (cw_machine ?cw)))"
      if q: "cw_users cw q = Some B" "\<not> duty_names q d" for q B
    proof -
      have "for_users (mc_held ?mc) Q' q = Some B" "\<not> move_names q ?v"
        using only [OF q] us by (auto simp: move_names_def)
      from C(2) [OF _ this] only [OF q] us show ?thesis by simp
    qed
  qed (use M mc' t c in simp_all)
  with h show ?thesis by blast
qed

lemma cache_return_stays:
  "cache_return p t m = (None, t1, m1) \<Longrightarrow> t1 = t"
  "cache_return p t m = (Some (Inl e), t1, m1) \<Longrightarrow> t1 = t"
  by (auto simp: cache_return_def cache_block_def Let_def split: if_splits sum.splits prod.splits)

lemma cache_return_cached:
  assumes "cache_return p t m = (Some (Inr u), t1, m1)" and "p \<noteq> nullptr"
  obtains ci where "class_index_for_size (ucast (bh_size_class m (from_user_ptr p))) = Inr ci"
    and "cache_block (from_user_ptr p) (unat ci) t m = (True, t1, m1)"
    and "bh_size_class m (from_user_ptr p) \<noteq> 0" and "bh_node_id m (from_user_ptr p) = of_int (tc_node_id t)"
proof -
  have "\<exists>ci. class_index_for_size (ucast (bh_size_class m (from_user_ptr p))) = Inr ci \<and>
      cache_block (from_user_ptr p) (unat ci) t m = (True, t1, m1) \<and>
      bh_size_class m (from_user_ptr p) \<noteq> 0 \<and> sint (bh_node_id m (from_user_ptr p)) = tc_node_id t"
    using assms by (auto simp: cache_return_def Let_def split: if_splits sum.splits prod.splits)
  then obtain ci where C: "class_index_for_size (ucast (bh_size_class m (from_user_ptr p))) = Inr ci"
    "cache_block (from_user_ptr p) (unat ci) t m = (True, t1, m1)"
    "bh_size_class m (from_user_ptr p) \<noteq> 0" "sint (bh_node_id m (from_user_ptr p)) = tc_node_id t" by blast
  have "bh_node_id m (from_user_ptr p) = of_int (tc_node_id t)"
    using arg_cong [OF C(4), of "of_int :: int \<Rightarrow> u32"] by simp
  with C show thesis by (intro that) simp_all
qed

lemma give_ok:
  assumes inv: "crew_inv os asz tsz cw F Fm Q" and l: "at_leisure t cw" and c: "cw_caches cw ! t = Some (s, tc)"
    and p: "cw_users cw p \<noteq> None"
  shows "\<exists>cw'. give os t p (s, tc) cw = Some cw' \<and> duty_ok os asz tsz (Hand_back t p) cw F cw'"
proof -
  note I = crew_invD [OF inv]
  note L = at_leisureD [OF inv l]
  let ?mc = "cw_machine cw" and ?h = "from_user_ptr p"
  have tc: "t < length (cw_caches cw)" using L(1) I(10) by simp
  have same: "(cw_caches cw)[t := Some (s, tc)] = cw_caches cw" using c list_update_id [of "cw_caches cw" t] by simp
  obtain A where Vp: "mc_held ?mc p = Some A" using p for_users_Some by (fastforce simp: I(8))
  have nn: "p \<noteq> nullptr" using machine_not_null [OF I(4), of p] Vp by simp
  obtain x tc1 m1 where r: "cache_return p tc (w_mem (mc_world ?mc)) = (x, tc1, m1)" by (metis prod_cases3)
  consider "x = None" | e where "x = Some (Inl e)" | "x = Some (Inr ())" by (cases x) (auto, metis sum.exhaust old.unit.exhaust)
  then show ?thesis
  proof cases
    case 1
    have r1: "tc1 = tc" by (rule cache_return_stays(1) [OF r [unfolded 1]])
    have "\<exists>mc'. happen os (Return t (tc_arena tc) p) ?mc = Some mc' \<and>
        duty_ok os asz tsz (Hand_back t p) cw F (cw\<lparr>cw_machine := mc', cw_caches := (cw_caches cw)[t := Some (s, tc)],
          cw_jobs := (cw_jobs cw)[t := Job_return], cw_users := (cw_users cw)(p := None)\<rparr>)"
      by (rule send_back [OF inv L(1,4) c refl, where Q' = Q and U = "cw_users cw"])
        (use I(5,8) same p L(2) in \<open>auto simp: duty_names_def\<close>)
    then show ?thesis using r by (auto simp: give_def 1 r1 simp del: happen.simps)
  next
    case (2 e)
    have "give os t p (s, tc) cw = Some cw"
      using r cache_return_stays(2) [OF r [unfolded 2]] same by (simp add: give_def 2)
    then show ?thesis using duty_ok_refl [OF crew_okI [OF inv]] by blast
  next
    case 3
    obtain ci where R: "class_index_for_size (ucast (bh_size_class (w_mem (mc_world ?mc)) ?h)) = Inr ci"
      "cache_block ?h (unat ci) tc (w_mem (mc_world ?mc)) = (True, tc1, m1)"
      "bh_size_class (w_mem (mc_world ?mc)) ?h \<noteq> 0" "bh_node_id (w_mem (mc_world ?mc)) ?h = of_int (tc_node_id tc)"
      using r nn unfolding 3 by (rule cache_return_cached)
    obtain j where j: "j < 40" "bh_size_class (w_mem (mc_world ?mc)) ?h = ucast (kClassSizes ! j)"
      using machine_small [OF I(4) Vp R(3)] by blast
    have cls: "ucast (bh_size_class (w_mem (mc_world ?mc)) ?h) = kClassSizes ! j" using ucast_class_size [OF j(1)] by (simp add: j(2))
    then have ci: "unat ci = j" using R(1) class_index_of_class [OF j(1)] j(1) by (auto simp: unat_of_nat_u64)
    have up: "for_users (mc_held ?mc) Q p \<noteq> None" using p I(8) by simp
    let ?A = "bytes_of p (unat (kClassSizes ! j))"
    obtain V' Q' where P: "machine_owns os asz ?mc ((mc_world ?mc)\<lparr>w_mem := m1\<rparr>) Fm V'"
      "caches_ok (length (mc_arenas ?mc)) ((cw_caches cw)[t := Some (s, tc1)]) m1 V' Q'"
      "V' = (mc_held ?mc)(p \<mapsto> class_area j ?h)" "frame_step Fm (mc_world ?mc) Fm ((mc_world ?mc)\<lparr>w_mem := m1\<rparr>)"
      "agree_on (granted ((for_users (mc_held ?mc) Q)(p := None))) (w_mem (mc_world ?mc)) m1"
      "for_users V' Q' = (for_users (mc_held ?mc) Q)(p := None)"
      using mcs.push [OF crew_owns [OF inv] I(5) tc c up refl j R(4) R(2) [unfolded ci]] by blast
    have V': "V' = (mc_held ?mc)(p \<mapsto> ?A)" by (simp add: P(3) class_area_def)
    let ?cw = "cw\<lparr>cw_machine := ?mc\<lparr>mc_world := (mc_world ?mc)\<lparr>w_mem := m1\<rparr>, mc_held := (mc_held ?mc)(p \<mapsto> ?A)\<rparr>,
      cw_caches := (cw_caches cw)[t := Some (s, tc1)], cw_users := (cw_users cw)(p := None)\<rparr>"
    have "duty_ok os asz tsz (Hand_back t p) cw F ?cw"
    proof (rule crew_step [OF inv])
      show "job_ok (mc_threads ?mc ! t) (Some (s, tc1)) (cw_next cw ! t) (cw_jobs cw ! t)"
        using l L(2,3) by (simp add: at_leisure_def)
      show "machine_ok os asz (cw_machine ?cw) Fm" using P(1) by (simp add: machine_owns_def V')
      show "caches_ok (length (mc_arenas ?mc)) (cw_caches ?cw) (w_mem (mc_world (cw_machine ?cw))) (mc_held (cw_machine ?cw)) Q'"
        using P(2) by (simp add: V')
      show "cw_users ?cw = for_users (mc_held (cw_machine ?cw)) Q'" using P(6) I(8) by (simp add: V')
      show "cw_users ?cw q = Some B \<and> agree_on B (w_mem (mc_world ?mc)) (w_mem (mc_world (cw_machine ?cw)))"
        if q: "cw_users cw q = Some B" "\<not> duty_names q (Hand_back t p)" for q B
      proof -
        have g: "((for_users (mc_held ?mc) Q)(p := None)) q = Some B" using q I(8) by (auto simp: duty_names_def)
        from agree_on_mono [OF P(5) granted_part [of "(for_users (mc_held ?mc) Q)(p := None)" q B, OF g]] g I(8)
        show ?thesis by simp
      qed
    qed (use P(4) L(1) c in simp_all)
    then show ?thesis using r cls by (simp add: give_def 3 Let_def)
  qed
qed

text \<open>When no bin has a head any more, the cache holds nothing.\<close>

lemma first_head_None: "first_head bins = None \<Longrightarrow> b \<in> set bins \<Longrightarrow> cb_head b = nullptr"
  by (induction bins) (auto split: if_splits)

lemma flushed_empty:
  assumes ok: "cache_ok n t m V q" and f: "first_head (tc_bins t) = None"
  shows "concat q = []"
proof -
  have "q ! i = []" if "i < 40" for i
  proof -
    have "tc_bins t ! i \<in> set (tc_bins t)" using that cache_okD(4) [OF ok] by simp
    then have "cb_head (tc_bins t ! i) = nullptr" by (rule first_head_None [OF f])
    then show ?thesis using cache_okD(1) [OF ok that] by (cases "q ! i") (simp_all add: cache_bin_ok_def)
  qed
  then show ?thesis using cache_okD(3) [OF ok] by (auto simp: in_set_conv_nth)
qed

lemma flush_next_take:
  assumes "flush_next t m = Some (h, t1)" and "length (tc_bins t) = 40"
  obtains i where "i < 40" and "take_cached i t m = (h, t1)" and "h \<noteq> nullptr"
proof -
  obtain i where i: "first_head (tc_bins t) = Some i" "take_cached i t m = (h, t1)"
    using assms(1) by (auto simp: flush_next_def split: option.splits)
  note H = first_headD [OF i(1)]
  then have h: "h \<noteq> nullptr" using i(2) by (auto simp: take_cached_def Let_def split: if_splits)
  have "i < 40" using H assms(2) by simp
  then show thesis using i(2) h by (rule that)
qed

lemma flush_round_ok:
  assumes inv: "crew_inv os asz tsz cw F Fm Q" and t: "t < length (cw_jobs cw)" and j: "cw_jobs cw ! t = Job_flush"
    and rest: "at_rest (cw_machine cw) t" and c: "cw_caches cw ! t = Some (s, tc)"
  shows "\<exists>cw'. flush_round os tsz t (s, tc) cw = Some cw' \<and> duty_ok os asz tsz (Settle t) cw F cw'"
proof -
  note I = crew_invD [OF inv]
  let ?mc = "cw_machine cw" and ?n = "length (mc_arenas (cw_machine cw))"
  have tc: "t < length (cw_caches cw)" using t I(10) by simp
  have ok: "cache_ok ?n tc (w_mem (mc_world ?mc)) (mc_held ?mc) (Q ! t)" by (rule caches_okD(4) [OF I(5) tc c])
  show ?thesis
  proof (cases "flush_next tc (w_mem (mc_world ?mc))")
    case (Some ht)
    obtain h tc1 where ht: "ht = (h, tc1)" by (cases ht)
    obtain i where i: "i < 40" "take_cached i tc (w_mem (mc_world ?mc)) = (h, tc1)" "h \<noteq> nullptr"
      using Some [unfolded ht] cache_okD(4) [OF ok] by (rule flush_next_take)
    let ?p = "to_user_ptr h" and ?A = "class_area i h"
    obtain V' Q' where T: "tc_arena tc1 = tc_arena tc"
      "caches_ok ?n ((cw_caches cw)[t := Some (s, tc1)]) (w_mem (mc_world ?mc)) V' Q'"
      "mc_held ?mc ?p = Some ?A" "V' = (mc_held ?mc)(?p \<mapsto> ?A)" "for_users (mc_held ?mc) Q ?p = None"
      "for_users V' Q' = (for_users (mc_held ?mc) Q)(?p \<mapsto> ?A)"
      using mcs.take [OF crew_owns [OF inv] I(5) tc c i subset_refl] by blast
    have V': "V' = mc_held ?mc" using T(3,4) by (auto simp: fun_eq_iff)
    have "\<exists>mc'. happen os (Return t (tc_arena tc1) ?p) ?mc = Some mc' \<and>
        duty_ok os asz tsz (Settle t) cw F (cw\<lparr>cw_machine := mc', cw_caches := (cw_caches cw)[t := Some (s, tc1)],
          cw_jobs := (cw_jobs cw)[t := Job_flush], cw_users := cw_users cw\<rparr>)"
    proof (rule send_back [OF inv t rest c T(1), where Q' = Q' and U = "(cw_users cw)(?p \<mapsto> ?A)"])
      show "caches_ok ?n ((cw_caches cw)[t := Some (s, tc1)]) (w_mem (mc_world ?mc)) (mc_held ?mc) Q'" using T(2) by (simp add: V')
      show "for_users (mc_held ?mc) Q' ?p \<noteq> None" using T(6) by (simp add: V')
      show "for_users (mc_held ?mc) Q' = (cw_users cw)(?p \<mapsto> ?A) \<and> cw_users cw = ((cw_users cw)(?p \<mapsto> ?A))(?p := None)"
        using T(5,6) I(8) by (auto simp: V' fun_eq_iff)
      show "((cw_users cw)(?p \<mapsto> ?A)) q = Some B \<and> q \<noteq> ?p" if "cw_users cw q = Some B" for q B
        using that T(5) I(8) by auto
    qed simp
    moreover have "(cw_jobs cw)[t := Job_flush] = cw_jobs cw" using j list_update_id [of "cw_jobs cw" t] by simp
    ultimately show ?thesis using Some by (auto simp: flush_round_def ht simp del: happen.simps)
  next
    case None
    then have "first_head (tc_bins tc) = None" by (simp add: flush_next_def split: option.splits)
    note e = flushed_empty [OF ok this]
    let ?r = "cw_next cw ! t" and ?ps = "ptrs (cw_caches cw @ cw_next cw)" and ?k = "length (cw_caches cw) + t"
    let ?B = "bytes_of s (span_bytes os tsz)" and ?ps' = "ptrs ((cw_caches cw)[t := cw_next cw ! t] @ (cw_next cw)[t := None])"
    have nt: "t < length (cw_next cw)" using t I(11) by simp
    have ps: "t < length ?ps" "?ps ! t = Some s" "?k < length ?ps" "?k \<noteq> t"
      using tc nt c by (auto simp: ptrs_append nth_append)
    note G = shell_forget [OF I(6) ps(1), unfolded ps(2) slot_area_def option.case]
    note H = shell_move [OF G(1), of t ?k]
    have "?ps[t := None, t := ?ps[t := None] ! ?k, ?k := None] = ?ps'"
      using tc nt by (simp add: ptrs_append ptrs_update list_update_append nth_append)
    then have S: "shell os tsz ?ps' (mc_world ?mc) Fm" "shell_area os tsz ?ps' = shell_area os tsz (?ps[t := None])"
      using H ps by simp_all
    have drop: "caches_ok ?n ((cw_caches cw)[t := None]) (w_mem (mc_world ?mc)) (mc_held ?mc) Q"
      by (rule caches_drop [OF I(5) tc e])
    obtain Q' where Q': "caches_ok ?n ((cw_caches cw)[t := ?r]) (w_mem (mc_world ?mc)) (mc_held ?mc) Q'"
      "for_users (mc_held ?mc) Q' = for_users (mc_held ?mc) Q"
    proof (cases ?r)
      case None
      then show thesis using that [of Q] drop by simp
    next
      case (Some qt)
      obtain q tc2 where qt: "qt = (q, tc2)" by (cases qt)
      obtain i u where i: "i < ?n" "tc2 = tc_new i (int i) u" using I(13) [OF t Some [unfolded qt]] by blast
      have "t < length ((cw_caches cw)[t := None])" using tc by simp
      note P = caches_create(1) [OF drop this e i(1), of q u] caches_create(2) [OF drop this e i(1)]
      then show thesis using that [of "Q[t := replicate 40 []]"] by (simp add: Some qt i(2))
    qed
    let ?cw1 = "cw\<lparr>cw_caches := (cw_caches cw)[t := ?r], cw_next := (cw_next cw)[t := None], cw_jobs := (cw_jobs cw)[t := Job_idle]\<rparr>"
    let ?F1 = "Fm \<union> shell_area os tsz ?ps'"
    have inv1: "crew_inv os asz tsz ?cw1 ?F1 Fm Q'"
      using rest by (intro crew_slots [OF inv t Q' S(1)]) (simp_all add: at_rest_def)
    have F: "F = ?B \<union> ?F1" unfolding I(7) G(2) S(2) by auto
    have dj: "?F1 \<inter> ?B = {}" using I(6) G(2,3) unfolding S(2) shell_def by auto
    have B: "?B \<subseteq> mapped (mc_world ?mc)" using I(6) G(2) unfolding shell_def by blast
    have s: "s \<noteq> nullptr" "unat (page_size os) dvd unat s" using I(6) ps(1,2) unfolding shell_def by blast+
    have fs: "frame_step ?B (mc_world (cw_machine ?cw1)) {} (vm_release os s tsz (mc_world ?mc))"
      using vm_release_frame [OF I(1) s(1) _ _ s(2)] I(2) B by (simp add: arena_size_ok_def)
    note K = crew_frame [OF inv1 fs dj]
    let ?cw2 = "?cw1\<lparr>cw_machine := ?mc\<lparr>mc_world := vm_release os s tsz (mc_world ?mc)\<rparr>\<rparr>"
    have "duty_ok os asz tsz (Settle t) cw F ?cw2"
      using K(2,3) crew_okI [OF K(1)] F by (auto intro!: crew_users_step [where F' = ?F1])
    moreover have "flush_round os tsz t (s, tc) cw = Some ?cw2" using None by (simp add: flush_round_def Let_def)
    ultimately show ?thesis by blast
  qed
qed

subsection \<open>Duties\<close>

lemma settle_ok:
  assumes inv: "crew_inv os asz tsz cw F Fm Q" and t: "t < length (cw_jobs cw)" and c: "cw_caches cw ! t = Some (s, tc)"
  shows "\<exists>cw'. settle os tsz t (s, tc) cw = Some cw' \<and> duty_ok os asz tsz (Settle t) cw F cw'"
proof (cases "cw_jobs cw ! t")
  case Job_idle
  then show ?thesis using duty_ok_refl [OF crew_okI [OF inv]] by (simp add: settle_def)
next
  case (Job_request k)
  then show ?thesis using settle_request_ok [OF inv t Job_request c] by (simp add: settle_def)
next
  case Job_return
  then have "cw_next cw ! t = None" using crew_invD(12) [OF inv t] by simp
  then show ?thesis using settle_return_ok [OF inv t, of Job_idle] Job_return by (simp add: settle_def)
next
  case Job_flush
  then show ?thesis
    using flush_round_ok [OF inv t Job_flush _ c] settle_return_ok [OF inv t, of Job_flush] c by (auto simp: settle_def)
qed

theorem serve_ok:
  assumes ok: "crew_ok os asz tsz cw F" and legal: "legal_duty os d"
  shows "\<exists>cw'. serve os tsz topo d cw = Some cw' \<and> duty_ok os asz tsz d cw F cw'"
proof -
  obtain Fm Q where inv: "crew_inv os asz tsz cw F Fm Q" using ok unfolding crew_ok_def by blast
  note same = duty_ok_refl [OF ok]
  show ?thesis
  proof (cases d)
    case (Join t cpu use)
    then show ?thesis using same join_ok [OF inv] by simp
  next
    case (Adapt t cpu1 cpu2 use)
    then show ?thesis using same adapt_ok [OF inv, of t] by (auto split: option.split)
  next
    case (Quit t)
    then show ?thesis using same quit_ok [OF inv, of t] by auto
  next
    case (Ask t sz alignment)
    then show ?thesis using same ask_ok [OF inv, of t] legal by (auto simp: legal_duty_def split: option.split)
  next
    case (Hand_back t p)
    then show ?thesis using same give_ok [OF inv, of t _ _ p] by (auto split: option.split)
  next
    case (Use p f)
    then show ?thesis using use_ok [OF inv] by simp
  next
    case (Go t)
    then show ?thesis using go_ok [OF inv] by simp
  next
    case (Settle t)
    then show ?thesis using same settle_ok [OF inv, of t] by (auto split: option.split)
  qed
qed

theorem run_duties_ok:
  assumes "crew_ok os asz tsz cw F" and "\<forall>d\<in>set ds. legal_duty os d"
  shows "\<exists>cw' F'. run_duties os tsz topo ds cw = Some cw' \<and> crew_ok os asz tsz cw' F' \<and>
    frame_step F (mc_world (cw_machine cw)) F' (mc_world (cw_machine cw')) \<and>
    length (cw_jobs cw') = length (cw_jobs cw) \<and>
    (\<forall>p A. cw_users cw p = Some A \<and> (\<forall>d\<in>set ds. \<not> duty_names p d) \<longrightarrow>
       cw_users cw' p = Some A \<and> agree_on A (w_mem (mc_world (cw_machine cw))) (w_mem (mc_world (cw_machine cw'))))"
  using assms
proof (induction ds arbitrary: cw F)
  case Nil
  then obtain Fm Q where "crew_inv os asz tsz cw F Fm Q" unfolding crew_ok_def by blast
  then show ?case using frame_step_refl [OF crew_mapped] Nil by auto
next
  case (Cons d ds)
  obtain cw1 where o1: "serve os tsz topo d cw = Some cw1" "duty_ok os asz tsz d cw F cw1"
    using serve_ok [OF Cons.prems(1)] Cons.prems(2) by fastforce
  obtain F1 where F1: "crew_ok os asz tsz cw1 F1" "frame_step F (mc_world (cw_machine cw)) F1 (mc_world (cw_machine cw1))"
    using o1(2) unfolding duty_ok_def by blast
  have len: "length (cw_jobs cw1) = length (cw_jobs cw)" using o1(2) by (simp add: duty_ok_def)
  obtain cw' F' where R: "run_duties os tsz topo ds cw1 = Some cw'" "crew_ok os asz tsz cw' F'"
    "frame_step F1 (mc_world (cw_machine cw1)) F' (mc_world (cw_machine cw'))" "length (cw_jobs cw') = length (cw_jobs cw1)"
    "\<And>p A. cw_users cw1 p = Some A \<Longrightarrow> \<forall>d\<in>set ds. \<not> duty_names p d \<Longrightarrow>
       cw_users cw' p = Some A \<and> agree_on A (w_mem (mc_world (cw_machine cw1))) (w_mem (mc_world (cw_machine cw')))"
    using Cons.IH [OF F1(1)] Cons.prems(2) by auto
  have "cw_users cw' p = Some A \<and> agree_on A (w_mem (mc_world (cw_machine cw))) (w_mem (mc_world (cw_machine cw')))"
    if p: "cw_users cw p = Some A" "\<forall>d\<in>set (d # ds). \<not> duty_names p d" for p A
  proof -
    have a: "cw_users cw1 p = Some A" "agree_on A (w_mem (mc_world (cw_machine cw))) (w_mem (mc_world (cw_machine cw1)))"
      using o1(2) p unfolding duty_ok_def by auto
    from R(5) [OF a(1)] p(2) agree_on_trans [OF a(2)] show ?thesis by auto
  qed
  with o1(1) R(1,2,4) len frame_step_trans [OF F1(2) R(3)] show ?case by auto
qed

subsection \<open>From the contract of the threads and back\<close>

text \<open>A state of the sequential contract is one where every thread is at leisure.\<close>

lemma crew_start:
  assumes o: "tl_owns os asz tsz cs as w F U" and ne: "as \<noteq> []"
  shows "\<exists>V. crew_ok os asz tsz (crew_at_rest cs as w V U) F"
proof -
  obtain Fm V Q where c: "os_ok os" "arena_size_ok os tsz" "length as \<le> 2 ^ 31"
    and inv: "pool_inv os asz cs as w Fm V Q" "shell os tsz (ptrs cs) w Fm" "F = Fm \<union> shell_area os tsz (ptrs cs)"
    and U: "U = for_users V Q"
    using o unfolding tl_owns_def tl_inv_def by blast
  let ?N = "replicate (length cs) None"
  have P: "ptrs (cs @ ?N) = ptrs cs @ replicate (length cs) None" by (simp add: ptrs_def)
  have ar: "shell_area os tsz (ptrs (cs @ ?N)) = shell_area os tsz (ptrs cs)" unfolding P by (rule shell_pad(1))
  have "shell os tsz (ptrs (cs @ ?N)) w Fm" unfolding P shell_pad(2) by (rule inv(2))
  then have "crew_inv os asz tsz (crew_at_rest cs as w V U) F Fm Q"
    using c inv(1,3) U machine_start [OF pool_invD(1) [OF inv(1)] ne, of "length cs"] pool_invD(5) [OF inv(1)]
    by (simp add: crew_inv_def crew_at_rest_def machine_at_rest_def ar)
  then show ?thesis unfolding crew_ok_def by blast
qed

lemma crew_quiet_owns:
  assumes ok: "crew_ok os asz tsz cw F" and rest: "\<forall>job\<in>set (cw_jobs cw). job = Job_idle"
  shows "tl_owns os asz tsz (cw_caches cw) (mc_arenas (cw_machine cw)) (mc_world (cw_machine cw)) F (cw_users cw)"
proof -
  obtain Fm Q where inv: "crew_inv os asz tsz cw F Fm Q" using ok unfolding crew_ok_def by blast
  note I = crew_invD [OF inv]
  have each: "snd (mc_threads (cw_machine cw) ! t) = On_small At_idle \<and> cw_next cw ! t = None" if "t < length (cw_jobs cw)" for t
  proof -
    have "cw_jobs cw ! t = Job_idle" using rest that by simp
    then show ?thesis using I(12) [OF that] by simp
  qed
  have "\<forall>th\<in>set (mc_threads (cw_machine cw)). snd th = On_small At_idle"
    using each I(9) unfolding in_set_conv_nth Ball_def by metis
  note M = machine_quiet_owns [OF I(4) this]
  have nx: "cw_next cw = replicate (length (cw_caches cw)) None"
    using each I(10,11) by (intro nth_equalityI) simp_all
  have P: "ptrs (cw_caches cw @ cw_next cw) = ptrs (cw_caches cw) @ replicate (length (cw_caches cw)) None"
    by (simp add: ptrs_def nx)
  have ar: "shell_area os tsz (ptrs (cw_caches cw @ cw_next cw)) = shell_area os tsz (ptrs (cw_caches cw))"
    unfolding P by (rule shell_pad(1))
  have sh: "shell os tsz (ptrs (cw_caches cw)) (mc_world (cw_machine cw)) Fm" using I(6) unfolding P shell_pad(2) .
  have "tl_inv os asz tsz (cw_caches cw) (mc_arenas (cw_machine cw)) (mc_world (cw_machine cw)) F Fm (mc_held (cw_machine cw)) Q"
    using M I(5,7) sh by (simp add: tl_inv_def pool_inv_def ar)
  then show ?thesis using I(1-3,8) unfolding tl_owns_def by blast
qed

text \<open>Threads without caches on arenas that nobody is in, as after the program has started.\<close>

lemma crew_boot:
  assumes "os_ok os" and "arena_size_ok os tsz" and "mg_owns os asz as w F U" and "as \<noteq> []" and "length as \<le> 2 ^ 31"
  shows "crew_ok os asz tsz (crew_at_rest (replicate n None) as w U U) F"
proof -
  have ps: "ptrs (replicate n None @ replicate n None) = [] @ replicate (n + n) None"
    by (simp add: ptrs_def replicate_add)
  have e: "shell_area os tsz [] = {}" by (simp add: shell_area_def)
  have a: "shell_area os tsz (ptrs (replicate n None @ replicate n None)) = {}" unfolding ps shell_pad(1) by (rule e)
  have "shell os tsz (ptrs (replicate n None @ replicate n None)) w F"
    unfolding ps shell_pad(2) by (simp add: shell_def e)
  then have "crew_inv os asz tsz (crew_at_rest (replicate n None) as w U U) F F (replicate n [])"
    using assms(1,2,5) machine_start [OF assms(3,4), of n] pool_invD(5) [OF pool_start(1) [OF assms(3), of n]]
      pool_start(2) [OF assms(3), of n] a
    by (simp add: crew_inv_def crew_at_rest_def machine_at_rest_def)
  then show ?thesis by (rule crew_okI)
qed

lemma crew_ok_grants:
  assumes ok: "crew_ok os asz tsz cw F"
  shows "grants_apart (cw_users cw)" and "granted (cw_users cw) \<subseteq> F" and "F \<subseteq> mapped (mc_world (cw_machine cw))"
    and "(k, call) \<in> set (mc_threads (cw_machine cw)) \<Longrightarrow> freed call = Some r \<Longrightarrow> r = Inr ()"
proof -
  obtain Fm Q where inv: "crew_inv os asz tsz cw F Fm Q" using ok unfolding crew_ok_def by blast
  note I = crew_invD [OF inv]
  note G = machine_ok_grants [OF I(4)]
  show "F \<subseteq> mapped (mc_world (cw_machine cw))" by (rule crew_mapped [OF inv])
  show "granted (cw_users cw) \<subseteq> F" using G(2) for_users_granted I(7) unfolding I(8) by blast
  show "grants_apart (cw_users cw)"
    using G(1) for_users_Some unfolding I(8) grants_apart_def by blast
  show "(k, call) \<in> set (mc_threads (cw_machine cw)) \<Longrightarrow> freed call = Some r \<Longrightarrow> r = Inr ()" by (rule G(4))
qed

lemma crew_cache_ok:
  assumes ok: "crew_ok os asz tsz cw F" and t: "t < length (cw_jobs cw)" and c: "cw_caches cw ! t = Some (p, tc)"
  shows "\<exists>V q. cache_ok (length (mc_arenas (cw_machine cw))) tc (w_mem (mc_world (cw_machine cw))) V q"
proof -
  obtain Fm Q where inv: "crew_inv os asz tsz cw F Fm Q" using ok unfolding crew_ok_def by blast
  note I = crew_invD [OF inv]
  have "slot_ok (length (mc_arenas (cw_machine cw))) (cw_caches cw ! t) (w_mem (mc_world (cw_machine cw)))
      (mc_held (cw_machine cw)) (Q ! t)" using I(5,10) t by (simp add: caches_ok_def)
  then show ?thesis by (auto simp: slot_ok_def c)
qed

subsection \<open>Progress\<close>

text \<open>
  What a thread still has to do: the sections of its call, and in a flush a call for every block
  in the bins. A turn of the thread is a section and a look at the result; each turn leaves less to
  do, and the duties of the others leave it alone.
\<close>

definition cached_blocks :: "cache_ptr option \<Rightarrow> nat" where
  "cached_blocks c = (case c of None \<Rightarrow> 0 | Some (s, t) \<Rightarrow> sum_list (map (\<lambda>bin. unat (cb_count bin)) (tc_bins t)))"

fun job_left :: "job \<Rightarrow> activity \<Rightarrow> cache_ptr option \<Rightarrow> nat" where
  "job_left Job_idle call c = 0"
| "job_left (Job_request k) call c = Suc (call_left call)"
| "job_left Job_return call c = Suc (call_left call)"
| "job_left Job_flush call c = 10 * cached_blocks c + (if call = On_small At_idle then 1 else call_left call + 2)"

definition work_left :: "nat \<Rightarrow> crew \<Rightarrow> nat" where
  "work_left t cw = job_left (cw_jobs cw ! t) (snd (mc_threads (cw_machine cw) ! t)) (cw_caches cw ! t)"

definition mine :: "nat \<Rightarrow> duty \<Rightarrow> bool" where
  "mine t d \<longleftrightarrow> (case d of Join s cpu u \<Rightarrow> s = t | Adapt s a b u \<Rightarrow> s = t | Quit s \<Rightarrow> s = t | Ask s sz al \<Rightarrow> s = t
     | Hand_back s p \<Rightarrow> s = t | Use p f \<Rightarrow> False | Go s \<Rightarrow> s = t | Settle s \<Rightarrow> s = t)"

definition turns :: "nat \<Rightarrow> nat \<Rightarrow> duty list" where
  "turns t n = concat (replicate n [Go t, Settle t])"

lemma work_left_bound: "cw_jobs cw ! t \<noteq> Job_flush \<Longrightarrow> work_left t cw \<le> 9"
  using call_left_bound [of "snd (mc_threads (cw_machine cw) ! t)"] by (cases "cw_jobs cw ! t") (simp_all add: work_left_def)

lemma work_left_flush: "cw_jobs cw ! t = Job_flush \<Longrightarrow> work_left t cw \<le> 10 * cached_blocks (cw_caches cw ! t) + 10"
  using call_left_bound [of "snd (mc_threads (cw_machine cw) ! t)"] by (simp add: work_left_def)

lemma work_left_zero: "work_left t cw = 0 \<Longrightarrow> cw_jobs cw ! t = Job_idle"
  by (cases "cw_jobs cw ! t") (auto simp: work_left_def split: if_splits)

lemma happen_other:
  assumes "happen os v mc = Some mc'"
    and "case v of Request s i sz al \<Rightarrow> s \<noteq> t | Return s i p \<Rightarrow> s \<noteq> t | Write p f \<Rightarrow> True | Section s \<Rightarrow> s \<noteq> t | Collect s \<Rightarrow> s \<noteq> t"
  shows "mc_threads mc' ! t = mc_threads mc ! t"
  using assms by (cases v) (auto split: option.splits if_splits prod.splits)

lemma serve_other:
  assumes "serve os tsz topo d cw = Some cw'" and "\<not> mine t d"
  shows "cw_jobs cw' ! t = cw_jobs cw ! t" and "mc_threads (cw_machine cw') ! t = mc_threads (cw_machine cw) ! t"
    and "cw_caches cw' ! t = cw_caches cw ! t"
proof -
  have "cw_jobs cw' ! t = cw_jobs cw ! t \<and> mc_threads (cw_machine cw') ! t = mc_threads (cw_machine cw) ! t \<and>
      cw_caches cw' ! t = cw_caches cw ! t"
  proof (cases d)
    case (Join s cpu u)
    then show ?thesis using assms by (auto simp: mine_def join_def Let_def split: prod.splits)
  next
    case (Adapt s a b u)
    then show ?thesis using assms by (auto simp: mine_def adapt_def Let_def split: option.splits prod.splits sum.splits if_splits)
  next
    case (Quit s)
    then show ?thesis using assms by (auto simp: mine_def)
  next
    case (Ask s sz al)
    then show ?thesis using assms happen_other [of os _ "cw_machine cw" _ t]
      by (fastforce simp: mine_def ask_def Let_def simp del: happen.simps split: option.splits prod.splits answer.splits if_splits)
  next
    case (Hand_back s p)
    then show ?thesis using assms happen_other [of os _ "cw_machine cw" _ t]
      by (fastforce simp: mine_def give_def Let_def simp del: happen.simps split: option.splits prod.splits sum.splits if_splits)
  next
    case (Use p f)
    then show ?thesis using assms happen_other [of os _ "cw_machine cw" _ t]
      by (fastforce simp del: happen.simps split: option.splits if_splits)
  next
    case (Go s)
    then show ?thesis using assms happen_other [of os _ "cw_machine cw" _ t]
      by (fastforce simp: mine_def simp del: happen.simps split: option.splits)
  next
    case (Settle s)
    then show ?thesis using assms happen_other [of os _ "cw_machine cw" _ t]
      by (fastforce simp: mine_def settle_def settle_request_def settle_return_def flush_round_def Let_def
          simp del: happen.simps split: option.splits prod.splits sum.splits if_splits job.splits)
  qed
  then show "cw_jobs cw' ! t = cw_jobs cw ! t" and "mc_threads (cw_machine cw') ! t = mc_threads (cw_machine cw) ! t"
    and "cw_caches cw' ! t = cw_caches cw ! t" by simp_all
qed

lemma go_left:
  assumes inv: "crew_inv os asz tsz cw F Fm Q" and t: "t < length (cw_jobs cw)" and run: "serve os tsz topo (Go t) cw = Some cw'"
  shows "work_left t cw' \<le> work_left t cw"
    and "call_left (snd (mc_threads (cw_machine cw) ! t)) = 0 \<Longrightarrow> call_left (snd (mc_threads (cw_machine cw') ! t)) = 0"
    and "call_left (snd (mc_threads (cw_machine cw) ! t)) \<noteq> 0 \<Longrightarrow> work_left t cw \<noteq> 0 \<Longrightarrow> work_left t cw' < work_left t cw"
proof -
  note I = crew_invD [OF inv]
  let ?mc = "cw_machine cw"
  obtain k call where th: "mc_threads ?mc ! t = (k, call)" by (cases "mc_threads ?mc ! t")
  obtain mc' where h: "happen os (Section t) ?mc = Some mc'" and cw': "cw' = cw\<lparr>cw_machine := mc'\<rparr>"
    using run by (auto simp del: happen.simps split: option.splits)
  obtain call' ar' w' where A: "advance_activity os call (snd (mc_arenas ?mc ! k)) (mc_world ?mc) = Some (call', ar', w')"
    and mc': "mc_threads mc' = (mc_threads ?mc)[t := (k, call')]"
    using h t I(9) by (auto simp: th split: option.splits)
  have th': "mc_threads mc' ! t = (k, call')" using t I(9) by (simp add: mc')
  note le = call_left_advance [OF A]
  have job: "job_ok (k, call) (cw_caches cw ! t) (cw_next cw ! t) (cw_jobs cw ! t)" using I(12) [OF t] by (simp add: th)
  have idle: "call' = On_small At_idle" if "call = On_small At_idle" using A that by simp
  have flush: "call' \<noteq> On_small At_idle" if "cw_jobs cw ! t = Job_flush" "call \<noteq> On_small At_idle"
    using job that seeks_advance(2) [OF A] seeks_not_idle(2) by auto
  have "work_left t cw' \<le> work_left t cw \<and>
      (call_left call \<noteq> 0 \<longrightarrow> work_left t cw \<noteq> 0 \<longrightarrow> work_left t cw' < work_left t cw)"
    using le idle flush by (cases "cw_jobs cw ! t") (auto simp: work_left_def th th' cw')
  then show "work_left t cw' \<le> work_left t cw"
    and "call_left (snd (mc_threads ?mc ! t)) \<noteq> 0 \<Longrightarrow> work_left t cw \<noteq> 0 \<Longrightarrow> work_left t cw' < work_left t cw"
    by (simp_all add: th)
  show "call_left (snd (mc_threads ?mc ! t)) = 0 \<Longrightarrow> call_left (snd (mc_threads (cw_machine cw') ! t)) = 0"
    using le by (simp add: th th' cw')
qed

lemma take_cached_blocks:
  assumes ok: "cache_ok n t m V q" and i: "i < 40" and tk: "take_cached i t m = (h, t1)" and h: "h \<noteq> nullptr"
  shows "Suc (cached_blocks (Some (s, t1))) = cached_blocks (Some (s, t))"
proof -
  note T = take_cached_bin [OF tk h]
  have b: "cache_bin_ok m i (tc_bins t ! i) (q ! i)" by (rule cache_okD(1) [OF ok i])
  have len: "i < length (tc_bins t)" using cache_okD(4) [OF ok] i by simp
  let ?f = "\<lambda>bin. unat (cb_count bin)" and ?b = "tc_bins t ! i" and ?b1 = "tc_bins t1 ! i"
  have "q ! i \<noteq> []" using b T(1) h by (auto simp: cache_bin_ok_def)
  then have pos: "0 < unat (cb_count ?b)" using b by (simp add: cache_bin_ok_def)
  then have "1 \<le> cb_count ?b" by (simp add: word_le_nat_alt)
  then have c: "?f ?b1 = ?f ?b - 1" using len by (simp add: T(2) unat_sub)
  have "map ?f (tc_bins t1) = (map ?f (tc_bins t))[i := ?f ?b - 1]"
    using c len by (intro nth_equalityI) (auto simp: T(2) nth_list_update)
  then have "sum_list (map ?f (tc_bins t1)) = sum_list (map ?f (tc_bins t)) + (?f ?b - 1) - ?f ?b"
    using sum_list_update [of i "map ?f (tc_bins t)" "?f ?b - 1"] len by simp
  moreover have "?f ?b \<le> sum_list (map ?f (tc_bins t))" using elem_le_sum_list [of i "map ?f (tc_bins t)"] len by simp
  ultimately show ?thesis using pos by (simp add: cached_blocks_def)
qed

lemma settle_left:
  assumes inv: "crew_inv os asz tsz cw F Fm Q" and t: "t < length (cw_jobs cw)" and run: "serve os tsz topo (Settle t) cw = Some cw'"
  shows "work_left t cw' \<le> work_left t cw"
    and "call_left (snd (mc_threads (cw_machine cw) ! t)) = 0 \<Longrightarrow> work_left t cw \<noteq> 0 \<Longrightarrow> work_left t cw' < work_left t cw"
proof -
  note I = crew_invD [OF inv]
  let ?mc = "cw_machine cw"
  obtain k call where th: "mc_threads ?mc ! t = (k, call)" by (cases "mc_threads ?mc ! t")
  have job: "job_ok (k, call) (cw_caches cw ! t) (cw_next cw ! t) (cw_jobs cw ! t)" using I(12) [OF t] by (simp add: th)
  have len: "t < length (mc_threads ?mc)" "t < length (cw_caches cw)" using t I(9,10) by simp_all
  have "work_left t cw' \<le> work_left t cw \<and> (call_left call = 0 \<longrightarrow> work_left t cw \<noteq> 0 \<longrightarrow> work_left t cw' < work_left t cw)"
  proof (cases "cw_jobs cw ! t")
    case Job_idle
    then show ?thesis using run t by (auto simp: settle_def work_left_def split: option.splits)
  next
    case (Job_request kc)
    obtain s tc where c: "cw_caches cw ! t = Some (s, tc)" using job by (auto simp: Job_request)
    have sk: "seeks call \<noteq> None" using job by (simp add: Job_request)
    then have ni: "call \<noteq> On_small At_idle" by auto
    have set: "settle_request os t kc (s, tc) cw = Some cw'" using run t by (simp add: c settle_def Job_request)
    show ?thesis
    proof (cases "allocated call")
      case None
      then have "cw' = cw" using set by (simp add: settle_request_def th)
      moreover have "call_left call \<noteq> 0" using call_left_zero [of call] None seeks_ends(1) [OF sk] ni by auto
      ultimately show ?thesis by simp
    next
      case (Some r)
      then have "cw_jobs cw' ! t = Job_idle"
        using set t by (auto simp: settle_request_def th Let_def simp del: happen.simps split: option.splits sum.splits)
      then show ?thesis by (simp add: work_left_def Job_request)
    qed
  next
    case Job_return
    obtain c where c: "cw_caches cw ! t = Some c" using job by (auto simp: Job_return)
    have gv: "gives call" using job by (simp add: Job_return)
    have set: "settle_return os t Job_idle cw = Some cw'" using run t by (simp add: c settle_def Job_return)
    show ?thesis
    proof (cases "freed call")
      case None
      then have "cw' = cw" using set by (simp add: settle_return_def th)
      moreover have "call_left call \<noteq> 0" using call_left_zero [of call] None seeks_ends(2) [OF gv] seeks_not_idle(2) [OF gv] by auto
      ultimately show ?thesis by simp
    next
      case (Some r)
      then have "cw_jobs cw' ! t = Job_idle"
        using set t by (auto simp: settle_return_def th simp del: happen.simps split: option.splits)
      then show ?thesis by (simp add: work_left_def Job_return)
    qed
  next
    case Job_flush
    obtain s tc where c: "cw_caches cw ! t = Some (s, tc)" using job by (auto simp: Job_flush)
    show ?thesis
    proof (cases "call = On_small At_idle")
      case False
      then have gv: "gives call" using job by (simp add: Job_flush)
      have set: "settle_return os t Job_flush cw = Some cw'" using run t False by (simp add: c settle_def Job_flush at_rest_def th)
      show ?thesis
      proof (cases "freed call")
        case None
        then have "cw' = cw" using set by (simp add: settle_return_def th)
        moreover have "call_left call \<noteq> 0" using call_left_zero [of call] None seeks_ends(2) [OF gv] False by auto
        ultimately show ?thesis by simp
      next
        case (Some r)
        obtain mc' where h: "happen os (Collect t) ?mc = Some mc'" and cw': "cw' = cw\<lparr>cw_machine := mc', cw_jobs := (cw_jobs cw)[t := Job_flush]\<rparr>"
          using set Some by (auto simp: settle_return_def th simp del: happen.simps split: option.splits)
        have "taken call = None" using Some by (cases call rule: taken.cases) auto
        then have "mc_threads mc' = (mc_threads ?mc)[t := (k, On_small At_idle)]" using h th len Some by auto
        then show ?thesis using t len False by (simp add: work_left_def Job_flush th cw')
      qed
    next
      case True
      have set: "flush_round os tsz t (s, tc) cw = Some cw'" using run t len True by (simp add: c settle_def Job_flush at_rest_def th)
      show ?thesis
      proof (cases "flush_next tc (w_mem (mc_world ?mc))")
        case None
        then have "cw_jobs cw' ! t = Job_idle" using set t by (auto simp: flush_round_def Let_def)
        then show ?thesis by (simp add: work_left_def Job_flush th True)
      next
        case (Some ht)
        obtain h tc1 where ht: "ht = (h, tc1)" by (cases ht)
        have ok: "cache_ok (length (mc_arenas ?mc)) tc (w_mem (mc_world ?mc)) (mc_held ?mc) (Q ! t)"
          by (rule caches_okD(4) [OF I(5) len(2) c])
        obtain i where i: "i < 40" "take_cached i tc (w_mem (mc_world ?mc)) = (h, tc1)" "h \<noteq> nullptr"
          using Some [unfolded ht] cache_okD(4) [OF ok] by (rule flush_next_take)
        note B = take_cached_blocks [OF ok i, of s]
        obtain mc1 where h: "happen os (Return t (tc_arena tc1) (to_user_ptr h)) ?mc = Some mc1"
          and cw': "cw' = cw\<lparr>cw_machine := mc1, cw_caches := (cw_caches cw)[t := Some (s, tc1)]\<rparr>"
          using set Some by (auto simp: flush_round_def ht simp del: happen.simps split: option.splits)
        have "job_left Job_flush (snd (mc_threads mc1 ! t)) (Some (s, tc1)) < 10 * cached_blocks (Some (s, tc)) + 1"
          using B call_left_bound [of "snd (mc_threads mc1 ! t)"] by simp
        then show ?thesis using len by (simp add: work_left_def Job_flush th cw' c True)
      qed
    qed
  qed
  then show "work_left t cw' \<le> work_left t cw"
    and "call_left (snd (mc_threads ?mc ! t)) = 0 \<Longrightarrow> work_left t cw \<noteq> 0 \<Longrightarrow> work_left t cw' < work_left t cw"
    by (simp_all add: th)
qed

theorem turns_end:
  assumes "crew_ok os asz tsz cw F" and "t < length (cw_jobs cw)" and "\<forall>d\<in>set ds. legal_duty os d"
    and "run_duties os tsz topo ds cw = Some cw'"
    and "filter (mine t) ds = turns t n \<and> work_left t cw \<le> n \<or>
      filter (mine t) ds = Settle t # turns t n \<and>
        (work_left t cw \<le> n \<or> call_left (snd (mc_threads (cw_machine cw) ! t)) = 0 \<and> work_left t cw \<le> Suc n)"
  shows "cw_jobs cw' ! t = Job_idle"
  using assms
proof (induction ds arbitrary: cw F n)
  case Nil
  then have "work_left t cw = 0" by (cases n) (simp_all add: turns_def)
  then show ?case using work_left_zero Nil.prems(4) by auto
next
  case (Cons d ds)
  obtain cw1 where o1: "serve os tsz topo d cw = Some cw1" "duty_ok os asz tsz d cw F cw1"
    using serve_ok [OF Cons.prems(1)] Cons.prems(3) by fastforce
  obtain F1 where ok1: "crew_ok os asz tsz cw1 F1" using o1(2) unfolding duty_ok_def by blast
  have len: "t < length (cw_jobs cw1)" using o1(2) Cons.prems(2) by (simp add: duty_ok_def)
  have run: "run_duties os tsz topo ds cw1 = Some cw'" using Cons.prems(4) o1(1) by simp
  have legal: "\<forall>d\<in>set ds. legal_duty os d" using Cons.prems(3) by simp
  obtain Fm Q where inv: "crew_inv os asz tsz cw F Fm Q" using Cons.prems(1) unfolding crew_ok_def by blast
  note IH = Cons.IH [OF ok1 len legal run]
  show ?case
  proof (cases "mine t d")
    case False
    note S = serve_other [OF o1(1) False]
    have "work_left t cw1 = work_left t cw" by (simp add: work_left_def S)
    then show ?thesis using Cons.prems(5) False S(2) by (intro IH [of n]) simp
  next
    case True
    from Cons.prems(5) show ?thesis
    proof (elim disjE conjE)
      assume f: "filter (mine t) (d # ds) = turns t n" and le: "work_left t cw \<le> n"
      obtain m where n: "n = Suc m" using f True by (cases n) (simp_all add: turns_def)
      have d: "d = Go t" and f': "filter (mine t) ds = Settle t # turns t m" using f True by (simp_all add: n turns_def)
      note G = go_left [OF inv Cons.prems(2) o1(1) [unfolded d]]
      have "work_left t cw1 \<le> m \<or> call_left (snd (mc_threads (cw_machine cw1) ! t)) = 0 \<and> work_left t cw1 \<le> Suc m"
      proof (cases "call_left (snd (mc_threads (cw_machine cw) ! t)) = 0")
        case True
        then show ?thesis using G(1,2) le n by simp
      next
        case False
        then show ?thesis using G(1,3) le n by (cases "work_left t cw = 0") auto
      qed
      then show ?thesis using f' by (intro IH [of m]) simp
    next
      assume f: "filter (mine t) (d # ds) = Settle t # turns t n"
        and le: "work_left t cw \<le> n"
      have d: "d = Settle t" and f': "filter (mine t) ds = turns t n" using f True by simp_all
      note S = settle_left [OF inv Cons.prems(2) o1(1) [unfolded d]]
      then show ?thesis using f' le by (intro IH [of n]) simp
    next
      assume f: "filter (mine t) (d # ds) = Settle t # turns t n"
        and z: "call_left (snd (mc_threads (cw_machine cw) ! t)) = 0" and le: "work_left t cw \<le> Suc n"
      have d: "d = Settle t" and f': "filter (mine t) ds = turns t n" using f True by simp_all
      note S = settle_left [OF inv Cons.prems(2) o1(1) [unfolded d]]
      have "work_left t cw1 \<le> n" using S(1) S(2) [OF z] le by (cases "work_left t cw = 0") simp_all
      then show ?thesis using f' by (intro IH [of n]) simp
    qed
  qed
qed

lemma run_duties_append:
  "run_duties os tsz topo (ds @ es) cw = Some cw' \<Longrightarrow>
    \<exists>cw1. run_duties os tsz topo ds cw = Some cw1 \<and> run_duties os tsz topo es cw1 = Some cw'"
  by (induction ds arbitrary: cw) (auto split: option.splits)

text \<open>Only \<open>Adapt\<close> and \<open>Quit\<close> begin a flush.\<close>

lemma serve_no_flush:
  assumes "serve os tsz topo d cw = Some cw'" and "case d of Adapt s a b u \<Rightarrow> False | Quit s \<Rightarrow> False | _ \<Rightarrow> True"
  shows "length (cw_jobs cw') = length (cw_jobs cw)"
    and "t < length (cw_jobs cw) \<Longrightarrow> cw_jobs cw ! t \<noteq> Job_flush \<Longrightarrow> cw_jobs cw' ! t \<noteq> Job_flush"
proof -
  have upd: "s = t \<and> j = Job_flush \<or> js ! t = Job_flush" if "js[s := j] ! t = Job_flush" for js :: "job list" and s j
    using that by (cases "s = t"; cases "s < length js") (simp_all add: list_update_beyond)
  have "length (cw_jobs cw') = length (cw_jobs cw) \<and>
      (t < length (cw_jobs cw) \<longrightarrow> cw_jobs cw ! t \<noteq> Job_flush \<longrightarrow> cw_jobs cw' ! t \<noteq> Job_flush)"
  proof (cases d)
    case (Join s cpu u)
    then show ?thesis using assms(1) by (auto simp: join_def Let_def split: prod.splits if_splits)
  next
    case (Ask s sz al)
    then show ?thesis using assms(1)
      by (auto simp: ask_def Let_def simp del: happen.simps dest!: upd split: option.splits prod.splits answer.splits if_splits)
  next
    case (Hand_back s p)
    then show ?thesis using assms(1)
      by (auto simp: give_def Let_def simp del: happen.simps dest!: upd split: option.splits prod.splits sum.splits if_splits)
  next
    case (Settle s)
    then show ?thesis using assms(1)
      by (auto simp: settle_def settle_request_def settle_return_def flush_round_def Let_def
          simp del: happen.simps dest!: upd split: option.splits prod.splits sum.splits if_splits job.splits)
  qed (use assms in \<open>auto simp del: happen.simps split: option.splits if_splits\<close>)
  then show "length (cw_jobs cw') = length (cw_jobs cw)"
    and "t < length (cw_jobs cw) \<Longrightarrow> cw_jobs cw ! t \<noteq> Job_flush \<Longrightarrow> cw_jobs cw' ! t \<noteq> Job_flush" by simp_all
qed

end
