(* ===== verification/Sample_States.thy ===== *)
theory Sample_States
  imports Reuse Simple_Resource Section_Locks Cache_Schedules
begin

section \<open>Concrete states\<close>

text \<open>
  One small run of the program, evaluated: a machine without NUMA and with two CPUs, the arenas of
  its single node, the cache of a first thread and a large block that it takes. The hypotheses
  of the properties are discharged on these states.
\<close>

definition sample_libnuma :: libnuma where
  "sample_libnuma = \<lparr>numa_available = -1, numa_num_configured_cpus = 0, numa_max_node = 0, numa_all_nodes = None,
     numa_node_of_cpu = (\<lambda>_. 0), hardware_concurrency = 2\<rparr>"

definition sample_topology :: topology where
  "sample_topology = init_topology sample_libnuma"

lemma sample_topology_eq:
  "sample_topology = \<lparr>cpu_count = 2, node_count = 1, cpu_to_node = [0, 0], node_to_cpus = [[0..1]], node_present = [True]\<rparr>"
  by (simp add: sample_topology_def init_topology_def init_single_node_topology_def sample_libnuma_def
      numeral_eq_Suc replicate_def)

lemma sample_topology_ok: "topo_ok sample_topology"
  by (simp add: sample_topology_def init_topology_ok)

lemma sample_node [simp]: "current_node_from_cpu sample_topology 0 = 0" "node_count sample_topology = 1"
  by (simp_all add: sample_topology_eq current_node_from_cpu_def)

lemma sample_size_ok [simp]: "arena_size_ok bump_os 4096"
  by (simp add: arena_size_ok_def fits_page_def page_size_def bump_os_def)

lemmas vm_eval =
  vm_alloc_on_node_def vm_reserve_def sys_mmap_def bump_os_def bump_mmap_def vm_bind_to_node_def align_up_def
  page_size_def max_nodes_def numa_is_available_def sys_mbind_def round_up_def Let_def

definition sample_start :: "arena_ptr list \<times> world" where
  "sample_start = (case init_arenas bump_os 4096 1 empty_world of
     Some (Inr as, w) \<Rightarrow> (as, w) | _ \<Rightarrow> ([], empty_world))"

lemma sample_start:
  "init_arenas bump_os 4096 1 empty_world = Some (Inr (fst sample_start), snd sample_start)"
  "fst sample_start = [(65536, ar_new 0 False True True)]" "w_maps (snd sample_start) = [(65536, 69632)]"
  by (simp_all add: sample_start_def init_arenas_def create_arena_on_node_def empty_world_def vm_eval)

abbreviation sample_arenas :: "arena_ptr list" where
  "sample_arenas \<equiv> fst sample_start"

definition sample_create :: "cache_ptr res \<times> world" where
  "sample_create = create_on_current_node bump_os 4096 sample_topology 0 True sample_arenas (snd sample_start)"

definition sample_cache :: cache_ptr where
  "sample_cache = (69632, tc_new 0 0 True)"

lemma sample_create:
  "create_on_current_node bump_os 4096 sample_topology 0 True sample_arenas (snd sample_start) = (Inr sample_cache, snd sample_create)"
  "w_maps (snd sample_create) = [(69632, 73728), (65536, 69632)]"
  by (simp_all add: sample_create_def create_on_current_node_def sample_start sample_cache_def arena_for_node_def vm_eval)

text \<open>The block of 5000 bytes is a large one: a new span of 8192 bytes, with the header in front of
  the first address above it that is a multiple of 64.\<close>

lemma sample_span: "span_class_size_for bump_os (5000 + 64 + sizeof_BlockHeader) = 8192"
  by (simp add: span_class_size_for_def page_size_for_def large_class_size_for_def kLargeBinSizes_def
      sizeof_BlockHeader_def align_up_def page_size_def bump_os_def)

lemma sample_map:
  "w_maps w = [(69632, 73728), (65536, 69632)] \<Longrightarrow> \<exists>w'. vm_alloc_on_node bump_os 8192 0 Bind w = (Inr 73728, w')"
  by (simp add: vm_eval)

lemma find_bin_empty: "i + n \<le> k \<Longrightarrow> find_bin (replicate k empty_bin) i n = None"
  by (induction n arbitrary: i) (simp_all add: empty_bin_def)

lemma sample_acquire:
  "w_maps w = [(69632, 73728), (65536, 69632)] \<Longrightarrow>
    \<exists>w'. la_acquire_span bump_os 8192 (la_new 0 ms mb sync) w = (Inr (73728, 8192), la_new 0 ms mb sync, w')"
proof -
  assume "w_maps w = [(69632, 73728), (65536, 69632)]"
  then obtain w' where w': "vm_alloc_on_node bump_os 8192 0 Bind w = (Inr 73728, w')" using sample_map by blast
  have "bin_index_for 8192 = 0" using bin_index_for_nth [of 0] by (simp add: kLargeBinSizes_def)
  then show ?thesis using w'
    by (simp add: la_acquire_span_def Let_def npos_def kLargeBinSearchLimit_def la_new_def find_bin_empty
        del: find_bin.simps)
qed

lemma sample_large:
  assumes "w_maps w = [(69632, 73728), (65536, 69632)]"
  shows "\<exists>la w'. la_allocate bump_os 5000 64 (la_new 0 ms mb sync) w = (Inr 73792, la, w')"
proof -
  obtain w' where w': "la_acquire_span bump_os 8192 (la_new 0 ms mb sync) w = (Inr (73728, 8192), la_new 0 ms mb sync, w')"
    using sample_acquire [OF assms] by blast
  show ?thesis
    by (simp add: la_allocate_def sample_span [unfolded sizeof_BlockHeader_def, simplified] w' Let_def
        la_allocate_from_span_def sizeof_BlockHeader_def align_up_def)
qed

lemma sample_take:
  "\<exists>as w. numa_do_allocate bump_os 4096 sample_topology 0 5000 64 (Some sample_cache) sample_arenas (snd sample_create) =
    Some (Inr 73792, Some sample_cache, as, w)"
proof -
  obtain la w' where "la_allocate bump_os 5000 64 (la_new 0 (of_nat kMaxLargeCachedSpans) kMaxLargeCacheBytes True)
      (snd sample_create) = (Inr 73792, la, w')" using sample_large [OF sample_create(2)] by blast
  then show ?thesis
    by (simp add: numa_do_allocate_def owner_get_def ensure_cache_def sample_cache_def tc_allocate_def tc_new_def
        mg_allocate_def ar_allocate_def sample_start ar_new_def SMALL_LARGE_THRESHOLD_def ALIGNMENT_def Let_def)
qed

text \<open>A class without slabs.\<close>

lemma fresh_scan: "sc_scan (sc_new bs node sync) w = None"
  by (simp add: sc_scan_def sc_new_def empty_vec_def)

subsection \<open>The contract on these states\<close>

lemma sample_start_owns: "\<exists>F. tl_owns bump_os 4096 4096 [None, None] sample_arenas (snd sample_start) F Map.empty"
proof -
  have "mg_owns bump_os 4096 sample_arenas (snd sample_start) (storages bump_os 4096 sample_arenas) Map.empty \<and>
      length sample_arenas = 1"
    using init_arenas_ok [OF os_ok_bump sample_size_ok, of 1 empty_world] unfolding sample_start(1) by simp
  then have o: "mg_owns bump_os 4096 sample_arenas (snd sample_start) (storages bump_os 4096 sample_arenas) Map.empty"
    and n: "length sample_arenas \<le> 2 ^ 31" by simp_all
  have "replicate 2 None = [None, None :: cache_ptr option]" by (simp add: numeral_eq_Suc)
  with tl_start [OF os_ok_bump sample_size_ok o n, of 2] show ?thesis by auto
qed

definition sample_threads :: "cache_ptr option list" where
  "sample_threads = [Some sample_cache, None]"

lemma sample_threads_own: "\<exists>F. tl_owns bump_os 4096 4096 sample_threads sample_arenas (snd sample_create) F Map.empty"
proof -
  obtain F where "tl_owns bump_os 4096 4096 [None, None] sample_arenas (snd sample_start) F Map.empty"
    using sample_start_owns by blast
  from tl_ensure [OF this, of 0 sample_topology 0 True] show ?thesis
    by (auto simp: ensure_cache_def sample_create(1) sample_threads_def)
qed

lemma sample_legal: "ar_legal bump_os (5000, 64)" "ar_legal bump_os (100, 8)"
  by (simp_all add: ar_legal_def large_legal_def at_least_one_def page_size_def bump_os_def)

lemma sample_block_owns:
  "\<exists>as w F. tl_owns bump_os 4096 4096 sample_threads as w F [73792 \<mapsto> ar_area (5000, 64) 73792]"
proof -
  obtain F where F: "tl_owns bump_os 4096 4096 sample_threads sample_arenas (snd sample_create) F Map.empty"
    using sample_threads_own by blast
  obtain as w where t: "numa_do_allocate bump_os 4096 sample_topology 0 5000 64 (Some sample_cache) sample_arenas (snd sample_create) =
    Some (Inr 73792, Some sample_cache, as, w)" using sample_take by blast
  have "0 < length sample_threads" by (simp add: sample_threads_def)
  from tl_do_allocate [OF F this sample_legal(1), of sample_topology 0] t show ?thesis
    by (auto simp: sample_threads_def)
qed

text \<open>The run of the program that leads there.\<close>

lemma sample_run:
  "\<exists>as w. tl_run bump_os 4096 4096 sample_topology 2 1 empty_world sample_threads as w [73792 \<mapsto> ar_area (5000, 64) 73792]"
proof -
  have s: "tl_run bump_os 4096 4096 sample_topology 2 1 empty_world [None, None] sample_arenas (snd sample_start) Map.empty"
    using tl_run.start [OF sample_start(1), of 4096 sample_topology 2] by (simp add: numeral_eq_Suc)
  obtain as w where t: "numa_do_allocate bump_os 4096 sample_topology 0 5000 64 None sample_arenas (snd sample_start) =
    Some (Inr 73792, Some sample_cache, as, w)"
    using sample_take by (auto simp: numa_do_allocate_def owner_get_def ensure_cache_def sample_create(1))
  have "tl_run bump_os 4096 4096 sample_topology 2 1 empty_world ([None, None][0 := Some sample_cache]) as w
      (Map.empty(73792 \<mapsto> ar_area (5000, 64) 73792))"
    by (rule tl_run.take [OF s _ sample_legal(1)]) (use t in simp_all)
  then show ?thesis by (auto simp: sample_threads_def)
qed

subsection \<open>Two threads on an arena\<close>

text \<open>Two threads allocate at the same time, a small and a large block, their sections alternating.\<close>

definition sample_sections :: "event list" where
  "sample_sections = concat (replicate 8 [Run_section 0, Run_section 1])"

definition sample_schedule :: "event list" where
  "sample_schedule = [Call_allocate 0 100 8, Call_allocate 1 5000 64] @ sample_sections @ [Take_result 0, Take_result 1]"

lemma sample_schedule_legal: "\<forall>e\<in>set sample_schedule. legal_event bump_os e"
  using sample_legal by (auto simp: sample_schedule_def sample_sections_def legal_event_def)

lemma sample_sections:
  "\<forall>e\<in>set sample_sections. \<not> calls_thread t e" "t < 2 \<Longrightarrow> length (filter (runs_thread t) sample_sections) = 8"
  "\<forall>e\<in>set sample_sections. legal_event os e"
  by (auto simp: sample_sections_def numeral_eq_Suc calls_thread_def runs_thread_def legal_event_def less_Suc_eq)

lemma sample_arena_owns: "ar_owns bump_os (ar_new 0 True True True) empty_world {} Map.empty"
  by (rule ar_new_owns [OF os_ok_bump]) simp_all

lemma sample_schedule_runs:
  "\<exists>sy. run_schedule bump_os sample_schedule (idle_threads 2 (ar_new 0 True True True) empty_world Map.empty) = Some sy"
  using schedule_from_quiet [OF sample_arena_owns sample_schedule_legal, of 2] by blast

text \<open>A large block is taken and returned; its span stays in the cache.\<close>

definition sample_cached_span :: "event list" where
  "sample_cached_span = [Call_allocate 0 5000 64, Run_section 0, Run_section 0, Run_section 0, Take_result 0,
     Call_deallocate 0 False 65600, Run_section 0, Take_result 0]"

lemma sample_cached_span_run:
  "\<exists>sy. run_schedule bump_os sample_cached_span (idle_threads 1 (ar_new 0 True True True) empty_world Map.empty) = Some sy \<and>
    la_cached_spans (ar_large (sy_arena sy)) = 1 \<and> la_cached_bytes (ar_large (sy_arena sy)) = 8192"
proof -
  let ?la = "la_new 0 (of_nat kMaxLargeCachedSpans) kMaxLargeCacheBytes True"
  have b: "begin_allocate bump_os 5000 64 = On_large (La_acquire 5000 64 8192)"
    using sample_span by (simp add: begin_allocate_def la_begin_allocate_def size_consts sizeof_BlockHeader_def Let_def)
  have bi: "bin_index_for 8192 = 0" using bin_index_for_nth [of 0] by (simp add: kLargeBinSizes_def)
  have h: "la_hit 8192 ?la = None"
    by (simp add: la_hit_def bi Let_def npos_def kLargeBinSearchLimit_def la_new_def find_bin_empty del: find_bin.simps)
  obtain w1 where a: "vm_alloc_on_node bump_os 8192 0 Bind empty_world = (Inr 65536, w1)"
    by (simp add: empty_world_def vm_eval)
  obtain r m where f: "la_allocate_from_span 0 5000 64 8192 65536 (w_mem w1) = (r, m)" by fastforce
  have p: "r = Inr 65600" using f by (auto simp: la_allocate_from_span_def sizeof_BlockHeader_def align_up_def Let_def)
  obtain q where q: "r = Inr q" "bh_size_class m (from_user_ptr q) = 0" "bh_raw_ptr m (from_user_ptr q) = 65536"
    "bh_total_size m (from_user_ptr q) = 8192" using la_allocate_from_span_ok [OF _ _ _ f] by auto
  obtain la2 where rel: "la_release_to_cache 65536 8192 ?la = (True, la2)" "la_cached_spans la2 = 1" "la_cached_bytes la2 = 8192"
    by (simp add: la_release_to_cache_def bi la_new_def npos_def empty_bin_def Let_def size_consts kMaxLargeCachedSpans_def
        kNumLargeBins_def kMaxSpansPerLargeBin_def kMaxLargeCacheBytes_def)
  have n: "la_node_id ?la = 0" by (simp add: la_new_def)
  show ?thesis using q p
    by (simp add: sample_cached_span_def idle_threads_def is_idle_def b ar_new_def h a n f rel begin_deallocate_def
        la_begin_deallocate_def)
qed

text \<open>Two threads begin a large request; one has locked the cache of spans, the other waits for it.\<close>

definition sample_steps :: "step list" where
  "sample_steps = [Client (Call_allocate 0 5000 64), Client (Call_allocate 1 5000 64),
     Enter 0, Acquire 0, Load 0, Enter 1]"

lemma sample_steps_legal: "\<forall>e. Client e \<in> set sample_steps \<longrightarrow> legal_event bump_os e"
  using sample_legal(1) by (auto simp: sample_steps_def legal_event_def)

lemma sample_begin: "\<exists>ss. begin_allocate bump_os 5000 64 = On_large (La_acquire 5000 64 ss)"
  by (simp add: begin_allocate_def la_begin_allocate_def size_consts sizeof_BlockHeader_def Let_def)

lemma sample_steps_run:
  "\<exists>g pr c. take_steps bump_os sample_steps (unguarded (idle_threads 2 (ar_new 0 True True True) empty_world Map.empty)) = Some g \<and>
    gd_inside g 0 = Some pr \<and> pr_loaded pr = Some [(Cache_part, c)] \<and>
    waits_for g 1 Cache_part \<and> \<not> can_go bump_os g 1 \<and> gd_mutex g Cache_part = Some 0"
proof -
  obtain ss where b: "begin_allocate bump_os 5000 64 = On_large (La_acquire 5000 64 ss)" using sample_begin by blast
  show ?thesis
    by (simp add: sample_steps_def unguarded_def idle_threads_def is_idle_def b optional_lock_def ar_new_def la_new_def
        calls_thread_def acquire_guards_def waits_for_def can_go_def Let_def numeral_2_eq_2)
qed

subsection \<open>A kernel that has room for a slab, but not for the vector of slabs\<close>

definition tight_os :: os where
  "tight_os = bump_os\<lparr>os_mmap := (\<lambda>t maps n. if n \<le> 4096 then None else bump_mmap 4096 t maps n)\<rparr>"

lemma os_ok_fewer:
  assumes "os_ok os" and "\<And>t maps n p. f t maps n = Some p \<Longrightarrow> os_mmap os t maps n = Some p"
  shows "os_ok (os\<lparr>os_mmap := f\<rparr>)"
  using assms unfolding os_ok_def by fastforce

lemma os_ok_tight: "os_ok tight_os"
  unfolding tight_os_def by (rule os_ok_fewer [OF os_ok_bump]) (auto simp: bump_os_def split: if_splits)

lemma tight_slab:
  "\<exists>w. slab_create tight_os 112 0 empty_world = (Inr 65536, w)"
  by (simp add: slab_create_def tight_os_def SLAB_SIZE_def empty_world_def vm_eval)

lemma tight_vector:
  "\<exists>w'. vec_push_back tight_os 0 empty_vec s w = (Inl Bad_alloc, w')"
  by (simp add: vec_push_back_def empty_vec_def vec_max_def nla_allocate_def tight_os_def vm_eval)

subsection \<open>A cache with a block\<close>

text \<open>A small request makes a slab, behind the storage of the arena, and the vector of slabs behind it.\<close>

lemma sample_slab:
  "\<exists>w. slab_create bump_os 112 0 (snd sample_start) = (Inr 69632, w) \<and> w_maps w = [(69632, 135168), (65536, 69632)]"
  using sample_start(3) by (simp add: slab_create_def SLAB_SIZE_def vm_eval)

lemma sample_vector:
  "w_maps w = [(69632, 135168), (65536, 69632)] \<Longrightarrow>
    \<exists>v w'. vec_push_back bump_os 0 empty_vec s w = (Inr v, w') \<and> w_maps w' = [(135168, 139264), (69632, 135168), (65536, 69632)]"
  by (simp add: vec_push_back_def empty_vec_def vec_max_def nla_allocate_def vm_eval)

lemma class_112: "kClassSizes ! 6 = 112" "class_index_for_size 100 = Inr 6" "class_index_for_size 112 = Inr 6"
proof -
  show "kClassSizes ! 6 = 112" by (simp add: ptr_eq_iff_unat unat_kClassSizes_nth nat_size_of_class_def)
  show "class_index_for_size 100 = Inr 6" "class_index_for_size 112 = Inr 6"
    by (simp_all add: class_index_for_size_def align_up_def size_consts Let_def)
qed

lemma sample_small_arena:
  "\<exists>p ar w. ar_allocate bump_os 100 8 (ar_new 0 ff True True) (snd sample_start) = Some (Inr p, ar, w) \<and>
    w_maps w = [(135168, 139264), (69632, 135168), (65536, 69632)] \<and> bh_node_id (w_mem w) (from_user_ptr p) = 0 \<and>
    bh_size_class (w_mem w) (from_user_ptr p) = 112 \<and> ar_foreign_freelist_enabled ar = ff \<and>
    ar_foreign_bins ar = replicate 40 empty_foreign \<and> ar_foreign_bytes ar = 0"
proof -
  obtain w1 where s: "slab_create bump_os 112 0 (snd sample_start) = (Inr 69632, w1)"
    "w_maps w1 = [(69632, 135168), (65536, 69632)]" using sample_slab by blast
  obtain v w2 where v: "vec_push_back bump_os 0 empty_vec 69632 w1 = (Inr v, w2)"
    "w_maps w2 = [(135168, 139264), (69632, 135168), (65536, 69632)]" using sample_vector [OF s(2)] by blast
  obtain b m where b: "slab_allocate_block 69632 (w_mem w2) = (b, m)" by fastforce
  have sc: "\<exists>sc. sc_allocate bump_os (sc_new 112 0 True) (snd sample_start) = (Inr b, sc, w2\<lparr>w_mem := m\<rparr>)"
    unfolding sc_allocate_def fresh_scan option.case using s v b
    by (simp add: sc_grow_def sc_new_def) (simp add: sc_take_from_def)
  obtain p ar w where a: "ar_allocate bump_os 100 8 (ar_new 0 ff True True) (snd sample_start) = Some (Inr p, ar, w)"
    "w_maps w = w_maps w2" "ar_foreign_freelist_enabled ar = ff" "ar_foreign_bins ar = replicate 40 empty_foreign"
    "ar_foreign_bytes ar = 0"
    using sc by (auto simp: ar_allocate_def ar_new_def class_112 sm_allocate_by_class_index_def sm_new_def
        SMALL_LARGE_THRESHOLD_def ALIGNMENT_def Let_def size_consts)
  from ar_allocate_header [OF a(1)] have "bh_node_id (w_mem w) (from_user_ptr p) = 0"
    "bh_size_class (w_mem w) (from_user_ptr p) = 112"
    by (auto simp: at_least_one_def is_small_def size_consts class_112 ar_new_def)
  with a v(2) show ?thesis by simp
qed

lemma sample_small:
  "\<exists>p as w. mg_allocate bump_os 0 100 8 sample_arenas (snd sample_start) = Some (Inr p, as, w) \<and>
    w_maps w = [(135168, 139264), (69632, 135168), (65536, 69632)] \<and>
    bh_node_id (w_mem w) (from_user_ptr p) = 0 \<and> bh_size_class (w_mem w) (from_user_ptr p) = 112"
  using sample_small_arena [of False] by (auto simp: mg_allocate_def sample_start(2))

lemma sample_foreign:
  "\<exists>p ar w F. ar_owns bump_os ar w F [p \<mapsto> ar_area (100, 8) p] \<and> ar_foreign_freelist_enabled ar \<and>
    bh_size_class (w_mem w) (from_user_ptr p) = ucast (kClassSizes ! 6) \<and>
    ar_foreign_bins ar = replicate 40 empty_foreign \<and> ar_foreign_bytes ar = 0"
proof -
  obtain p ar w where a: "ar_allocate bump_os 100 8 (ar_new 0 True True True) (snd sample_start) = Some (Inr p, ar, w)"
    "bh_size_class (w_mem w) (from_user_ptr p) = 112" "ar_foreign_freelist_enabled ar"
    "ar_foreign_bins ar = replicate 40 empty_foreign" "ar_foreign_bytes ar = 0" using sample_small_arena [of True] by auto
  have "ar_owns bump_os (ar_new 0 True True True) (snd sample_start) {} Map.empty" by (rule ar_new_owns [OF os_ok_bump]) simp_all
  from ar_owns_alloc [OF this sample_legal(2)] a show ?thesis by (auto simp: ar_alloc_req_def class_112)
qed

text \<open>A thread with a cache hands the block back, and the cache keeps it.\<close>

definition sample_cached :: "ptr \<Rightarrow> duty list" where
  "sample_cached p = [Join 0 0 True, Hand_back 0 p]"

lemma sample_cached_run:
  "\<exists>p as w F A t cw. mg_owns bump_os 4096 as w F [p \<mapsto> A] \<and> as \<noteq> [] \<and> length as \<le> 2 ^ 31 \<and>
    run_duties bump_os 4096 sample_topology (sample_cached p) (crew_at_rest (replicate 1 None) as w [p \<mapsto> A] [p \<mapsto> A]) = Some cw \<and>
    cw_caches cw = [Some (139264, t)] \<and> cb_count (tc_bins t ! 6) = 1 \<and> cw_jobs cw = [Job_idle]"
proof -
  have o: "mg_owns bump_os 4096 sample_arenas (snd sample_start) (storages bump_os 4096 sample_arenas) Map.empty"
    using init_arenas_ok [OF os_ok_bump sample_size_ok, of 1 empty_world] unfolding sample_start(1) by simp
  have i: "0 < length sample_arenas" by (simp add: sample_start(2))
  obtain p as w where a: "mg_allocate bump_os 0 100 8 sample_arenas (snd sample_start) = Some (Inr p, as, w)"
    "w_maps w = [(135168, 139264), (69632, 135168), (65536, 69632)]"
    "bh_node_id (w_mem w) (from_user_ptr p) = 0" "bh_size_class (w_mem w) (from_user_ptr p) = 112"
    using sample_small by blast
  obtain F where F: "mg_owns bump_os 4096 as w F [p \<mapsto> ar_area (100, 8) p]" and len: "length as = 1" and p: "p \<noteq> nullptr"
    using mg_allocate_ok [OF o i sample_legal(2)] a(1) by (auto simp: sample_start(2))
  obtain w1 where j: "create_on_current_node bump_os 4096 sample_topology 0 True as w = (Inr (139264, tc_new 0 0 True), w1)"
    using a(2) len by (simp add: create_on_current_node_def arena_for_node_def vm_eval)
  have "bh_node_id (w_mem w1) (from_user_ptr p) = 0" "bh_size_class (w_mem w1) (from_user_ptr p) = 112"
    using keeps_headersD [OF mg_owns_headers(1) [OF F create_Inr(1) [OF os_ok_bump sample_size_ok j]], of p] a(3,4) by simp_all
  moreover from this obtain t m where "cache_return p (tc_new 0 0 True) (w_mem w1) = (Some (Inr ()), t, m)"
    "cb_count (tc_bins t ! 6) = 1" using p
    by (simp add: cache_return_def cache_block_def tc_new_def class_112 empty_cache_bin_def Let_def
        max_cached_bytes_for_class_def size_consts)
  ultimately have "\<exists>cw. run_duties bump_os 4096 sample_topology (sample_cached p)
      (crew_at_rest (replicate 1 None) as w [p \<mapsto> ar_area (100, 8) p] [p \<mapsto> ar_area (100, 8) p]) = Some cw \<and>
    cw_caches cw = [Some (139264, t)] \<and> cw_jobs cw = [Job_idle]"
    by (simp add: sample_cached_def join_def at_leisure_def crew_at_rest_def machine_at_rest_def ensure_cache_def j give_def)
  with F len \<open>cb_count (tc_bins t ! 6) = 1\<close> show ?thesis
    by (intro exI [of _ p] exI [of _ "as"] exI [of _ w] exI [of _ F] exI [of _ "ar_area (100, 8) p"] exI [of _ t]) auto
qed

subsection \<open>Two nodes\<close>

definition two_nodes :: "arena_ptr list \<times> world" where
  "two_nodes = (case init_arenas bump_os 4096 2 empty_world of
     Some (Inr as, w) \<Rightarrow> (as, w) | _ \<Rightarrow> ([], empty_world))"

lemma two_nodes:
  "init_arenas bump_os 4096 2 empty_world = Some (Inr (fst two_nodes), snd two_nodes)"
  "fst two_nodes = [(65536, ar_new 0 True True True), (69632, ar_new 1 True True True)]"
proof -
  have e: "[0..<2] = [0, 1]" by (simp add: numeral_eq_Suc)
  show "init_arenas bump_os 4096 2 empty_world = Some (Inr (fst two_nodes), snd two_nodes)"
    "fst two_nodes = [(65536, ar_new 0 True True True), (69632, ar_new 1 True True True)]"
    by (simp_all add: two_nodes_def init_arenas_def e create_arena_on_node_def empty_world_def vm_eval word_le_nat_alt)
qed

lemma two_nodes_own:
  "mg_owns bump_os 4096 (fst two_nodes) (snd two_nodes) (storages bump_os 4096 (fst two_nodes)) Map.empty"
  using init_arenas_ok [OF os_ok_bump sample_size_ok, of 2 empty_world] unfolding two_nodes(1) by simp

subsection \<open>Two threads with caches\<close>

definition two_topology :: topology where
  "two_topology = \<lparr>cpu_count = 2, node_count = 2, cpu_to_node = [0, 1], node_to_cpus = [[0], [1]], node_present = [True, True]\<rparr>"

text \<open>Both get a cache and ask for a block, a small one and a large one; then their sections alternate.\<close>

definition sample_requests :: "duty list" where
  "sample_requests = [Join 0 0 True, Join 1 1 True, Ask 0 100 8, Ask 1 5000 64]"

definition sample_turns :: "duty list" where
  "sample_turns = concat (replicate 9 [Go 0, Go 1, Settle 0, Settle 1])"

abbreviation two_threads :: crew where
  "two_threads \<equiv> crew_at_rest (replicate 2 None) (fst two_nodes) (snd two_nodes) Map.empty Map.empty"

lemma sample_duties_legal: "\<forall>d\<in>set (sample_requests @ sample_turns). legal_duty bump_os d"
  using sample_legal by (auto simp: sample_requests_def sample_turns_def legal_duty_def)

lemma sample_turns: "t < 2 \<Longrightarrow> filter (mine t) sample_turns = turns t 9"
  by (auto simp: sample_turns_def turns_def mine_def numeral_eq_Suc less_Suc_eq)

lemma two_threads_ok: "crew_ok bump_os 4096 4096 two_threads (storages bump_os 4096 (fst two_nodes))"
  by (rule crew_boot [OF os_ok_bump sample_size_ok two_nodes_own]) (simp_all add: two_nodes(2))

lemma sample_requests_run:
  "\<exists>cw. run_duties bump_os 4096 two_topology sample_requests two_threads = Some cw"
  using run_duties_ok [OF two_threads_ok, of sample_requests two_topology] sample_duties_legal by auto

lemma sample_requests_jobs:
  assumes "run_duties os tsz topo sample_requests two_threads = Some cw"
  shows "length (cw_jobs cw) = 2" and "t < 2 \<Longrightarrow> cw_jobs cw ! t \<noteq> Job_flush"
proof -
  have step: "length (cw_jobs cw') = length (cw_jobs cw0) \<and> (\<forall>t<length (cw_jobs cw0). cw_jobs cw' ! t \<noteq> Job_flush)"
    if "serve os tsz topo d cw0 = Some cw'" "\<forall>t<length (cw_jobs cw0). cw_jobs cw0 ! t \<noteq> Job_flush"
      "d \<in> set sample_requests" for d cw0 cw'
    using serve_no_flush [OF that(1)] that(2,3) by (auto simp: sample_requests_def)
  have run: "length (cw_jobs cw') = length (cw_jobs cw0) \<and> (\<forall>t<length (cw_jobs cw0). cw_jobs cw' ! t \<noteq> Job_flush)"
    if "run_duties os tsz topo ds cw0 = Some cw'" "\<forall>t<length (cw_jobs cw0). cw_jobs cw0 ! t \<noteq> Job_flush"
      "set ds \<subseteq> set sample_requests" for ds cw0 cw'
    using that
  proof (induction ds arbitrary: cw0)
    case (Cons d ds)
    obtain cw1 where c: "serve os tsz topo d cw0 = Some cw1" "run_duties os tsz topo ds cw1 = Some cw'"
      using Cons.prems(1) by (auto split: option.splits)
    from step [OF c(1) Cons.prems(2)] Cons.prems(3) Cons.IH [OF c(2)] show ?case by auto
  qed simp
  from run [OF assms] show "length (cw_jobs cw) = 2" and "t < 2 \<Longrightarrow> cw_jobs cw ! t \<noteq> Job_flush"
    by (auto simp: crew_at_rest_def less_2_cases_iff)
qed

lemma sample_duties_rest:
  assumes run: "run_duties bump_os 4096 two_topology (sample_requests @ sample_turns) two_threads = Some cw"
  shows "\<forall>job\<in>set (cw_jobs cw). job = Job_idle"
proof -
  obtain cw1 where c: "run_duties bump_os 4096 two_topology sample_requests two_threads = Some cw1"
    "run_duties bump_os 4096 two_topology sample_turns cw1 = Some cw"
    using run_duties_append [OF run] by blast
  have legal: "\<forall>d\<in>set sample_requests. legal_duty bump_os d" "\<forall>d\<in>set sample_turns. legal_duty bump_os d"
    using sample_duties_legal by simp_all
  obtain F1 where ok1: "crew_ok bump_os 4096 4096 cw1 F1"
    using run_duties_ok [OF two_threads_ok legal(1), of two_topology] c(1) by auto
  note J = sample_requests_jobs [OF c(1)]
  have idle: "cw_jobs cw ! t = Job_idle" if t: "t < 2" for t
    by (rule turns_end [OF ok1 _ legal(2) c(2)]) (use J t work_left_bound sample_turns in auto)
  have "length (cw_jobs cw) = 2" using run_duties_ok [OF ok1 legal(2), of two_topology] c(2) J(1) by auto
  then show ?thesis using idle by (auto simp: in_set_conv_nth)
qed

end
