(* ===== verification/Spec2Isabelle.thy ===== *)
theory Spec2Isabelle
  imports Sample_States
begin

text \<open>
  A development about the NUMA-aware memory resources of this repository (C++20, under
  \<open>src/src\<close>): the definitions model the code, the theorems say what makes it correct.

  THE PROGRAM. A user asks a polymorphic memory resource for memory. \<open>numa_memory_resource\<close>
  goes to the \<open>ThreadLocalCache\<close> of the calling thread, which \<open>ThreadNumaContextOwner\<close> creates on
  first use for the node of the CPU; the cache serves small requests from its bins and
  otherwise asks the \<open>NumaArena\<close> of its node, which \<open>ArenaManager\<close> owns. An arena has a
  \<open>SmallObjectAllocator\<close> (one \<open>SizeClass\<close> for each of 40 sizes, each a list of 64 KiB slabs) and a
  \<open>LargeObjectAllocator\<close> (mapped spans with a bounded cache). All memory comes from
  \<open>VirtualMemory\<close>, which calls the kernel. A block that another node's thread returns goes through
  \<open>ArenaManager::deallocate_foreign\<close> to the foreign bins of its arena, and the owner drains a bin
  when one of its classes needs memory. \<open>numa_arena_memory_resource\<close> and
  \<open>numa_simple_memory_resource\<close> do without caches and without the manager.

  THE MODEL. State is passed explicitly. The memory of the process is the record \<open>world\<close> (mapped
  ranges, bytes, NUMA policies, count of system calls), so headers, free lists and links are
  bytes at their offsets, and aliasing is aliasing. Integers and pointers are words of their width and wrap. An operation
  that may throw returns \<open>error + value\<close>, with the state at the throw. A loop that follows links
  through memory is a \<open>partial_function (option)\<close>: \<open>None\<close> means that it does not return, and the
  properties prove \<open>Some\<close>. All other loops are total functions.

  THE THEORIES, with the code they model (paths below \<open>src/src\<close>).
  \<^item> \<open>Prelude\<close>, \<open>Byte_Memory\<close>: machine types, results, little-endian scalars; the locale
    \<open>scalar_store\<close>, interpreted as \<open>s32\<close> and \<open>s64\<close>.
  \<^item> \<open>Virtual_Memory\<close>: \<open>virtual_memory/*\<close>. Every function, over a model of \<open>mmap\<close>, \<open>munmap\<close>,
    \<open>mbind\<close>, \<open>madvise\<close>.
  \<^item> \<open>Allocator_Contract\<close>: the abstract specification, locales \<open>owner\<close> and \<open>allocator\<close>. The
    abstract state is the map from blocks in use to the bytes granted with them; any client script
    of requests, returns and writes runs to its end, with blocks that never overlap.
  \<^item> \<open>Size_Tables\<close>, \<open>Block_List\<close>: \<open>size_divide/block.hpp\<close> and the tables of
    \<open>small_object_allocator.hpp\<close>; locale \<open>linked_store\<close>, interpreted as \<open>fl\<close> on the link word.
  \<^item> \<open>Slab\<close>, \<open>Size_Class\<close>, \<open>Small_Object\<close>: the classes of those names in
    \<open>size_divide/small_object/*\<close>, with \<open>NodeLocalAllocator\<close> (interpretations \<open>sca\<close>, \<open>scb\<close>).
    \<open>Class_Runs\<close>: all states a size class reaches, errors included, and what failures cost.
  \<^item> \<open>Large_Object\<close>: \<open>size_divide/large_object/*\<close> (interpretation \<open>laa\<close>).
  \<^item> \<open>Numa_Arena\<close>, \<open>Arena_Teardown\<close>: \<open>numa_arena/*\<close> with every operation run as a whole
    (\<open>aro\<close>, \<open>ara\<close>, \<open>arf\<close>), and its destructors.
  \<^item> \<open>Large_Threads\<close>, \<open>Arena_Threads\<close>: the operations of \<open>numa_arena/*\<close> and \<open>large_object/*\<close>
    section by section. A task is a point of a thread at which it holds no mutex, with its live local
    variables. \<open>Arena_Interleavings\<close>, \<open>Arena_Calls\<close>: the invariant that says in whose hands each
    block and span is, kept by every section. \<open>Arena_Schedules\<close>: schedules of calls and sections of
    any number of threads. \<open>Section_Locks\<close>: \<open>OptionalMutexLock\<close>, the guards that each function
    constructs, and why a section may be run in one step. \<open>Manager_Schedules\<close>: the same for threads on the arenas of all nodes, a block of
    another node followed to the arena that its header names (locale \<open>territory\<close>, interpretations
    \<open>mgf\<close> and \<open>cell\<close>).
  \<^item> \<open>Arena_Manager\<close>, \<open>Arena_Lifecycle\<close>: \<open>arena_manager/*\<close> (\<open>mga\<close>), construction, deleter,
    and the runs of threads in between.
  \<^item> \<open>Numa_Topology\<close>: \<open>numa_topology/*\<close>, the tables and the pin guard.
  \<^item> \<open>Thread_Cache\<close>, \<open>Thread_Owner\<close>, \<open>Program_Runs\<close>: \<open>thread_local/*\<close> and
    \<open>numa_memory_resource.hpp\<close> (\<open>tla\<close>), the creation, replacement and end of caches, and the runs
    of the whole program, where a step is a whole operation of one thread; its end, with what is
    unmapped then (\<open>arena_store\<close>, \<open>storages\<close>, \<open>shell_area\<close>).
  \<^item> \<open>Cache_Schedules\<close>: the same program with the threads interleaved section by section. Each
    operation of a cache is cut where it calls the arena (the cuts are proved equal to the
    operations). A \<open>crew\<close> is the machine of \<open>Manager_Schedules\<close> with the cache and the pending job of
    every thread; its duties are the requests, returns and accesses of users, the creation,
    replacement and end of caches, and single sections. The locale \<open>stock\<close> of \<open>Thread_Cache\<close> says
    what a cache needs from whoever owns its blocks; it is interpreted on the manager's arenas
    (\<open>mgs\<close>) and on the machine (\<open>mcs\<close>).
  \<^item> \<open>Memory_Resources\<close>, \<open>Simple_Resource\<close>: the two standalone resources (\<open>rsa\<close>, \<open>sra\<close>).
  \<^item> \<open>Reuse\<close>: round trips through the stores of free memory, and what they hold back. \<open>Sample_States\<close>: the concrete states
    on which the witnesses evaluate the properties.

  The C++ names are kept, with a prefix for the class where one name serves several:
  \<open>sc_\<close> for \<open>SizeClass\<close>, \<open>so_\<close> and \<open>la_\<close> for the two allocators, \<open>ar_\<close> for \<open>NumaArena\<close>, \<open>mg_\<close>
  for \<open>ArenaManager\<close>, \<open>sr_\<close> and \<open>rs_\<close> for the standalone resources.

  WHAT THE LEMMAS SHOW. Each component has an invariant on its bytes and counters (\<open>slab_ok\<close>,
  \<open>sc_inv\<close>, \<open>la_inv\<close>, and so on), the effect of every operation on every branch, and an
  abstraction to the blocks in use. The locales carry the consequences upwards: a layer proves
  the laws of \<open>allocator\<close> once and has the theorem on scripts. Runs of several threads are
  inductive relations or schedules, and their properties are rule inductions. Further groups:
  bounds on what the stores hold back, agreement of optimised with reference computations,
  round trips, and the exact behaviour of errors.

  PARAMETERS. \<open>os\<close> answers the system calls; \<open>os_ok\<close> is their documented behaviour
  (\<open>mmap\<close> returns a fresh page-aligned range below 2 ^ 63 or fails; the count of calls so far is
  one of its arguments, so any pattern of failures is an instance; \<open>munmap\<close> of an aligned
  range of a mapping succeeds, its \<open>ENOMEM\<close> when it splits a mapping beyond the limit of the process
  is not represented, and the code ignores what it returns), and says how a
  \<open>std::vector\<close> of the C++ library grows. \<open>libnuma\<close> and
  \<open>scheduler\<close> answer the topology and affinity calls. \<open>asz\<close> and \<open>tsz\<close> are \<open>sizeof(NumaArena)\<close>
  and \<open>sizeof(ThreadLocalCache)\<close>, \<open>cpu\<close> the CPU on which a thread runs. A request is legal when its
  total, headers and alignment included, leaves room for one page below 2 ^ 64; what the
  code does with requests beyond that is the subject of properties of their own.

  CONCURRENCY. In the theories of threads a section is a locked region, or a stretch of code that
  touches only what one thread knows. \<open>Section_Locks\<close> takes a section apart: it begins, constructs
  the guards of its function one by one, loads the fields of the object that it works on, and stores
  them at its end, with other threads in between; the bytes of slabs and blocks are read and written
  at the end. For an arena made for several threads it proves that what was loaded is still
  there when it is stored, so that overlapping sections amount to whole ones, and that no deadlock arises.
  The atomic counters are sequentially consistent, and an update of \<open>foreign_bytes_\<close> belongs to
  the section it stands in. What a thread does with its own cache between two calls of an arena is
  one step, because no other thread reaches that cache or the blocks in it. Bounds: eight sections are enough for any operation, because
  a call has at most eight points without a mutex; with a cache in front, nine turns of the thread
  end a request or a return, and ten more for each cached block end a flush; 2 ^ 40 threads are few enough for the sum of
  \<open>foreign_bytes_\<close> not to wrap, since each has at most one bin of 2 MiB in its hands.

  NOT MODELLED. Faults: a load or a store of an unmapped address does not stop the definitions, and
  the properties say instead that headers and blocks lie in mapped memory of their owner. The range
  of \<open>int\<close> in the tables of the topology, whose indices are CPU and node numbers. The vectors of unique pointers and the other objects on the C++ heap, apart from
  the ways in which they can fail that the code reacts to; the queue of a mutex (only who holds
  it); weaker memory orders than sequential consistency;
  \<open>std::pmr::memory_resource\<close> itself, which forwards to the overrides; static
  initialisation; the build files, tests, sanitizer scripts and the demo
  \<open>src/tools/allocator_playground.cpp\<close>, which are clients of the library without logic of its own.
\<close>

text \<open>The inputs that the witnesses run: small client scripts, legal for the kernel \<open>bump_os\<close>.\<close>

definition two_blocks :: "(u64 \<times> u64) action list" where
  "two_blocks = [Take (100, 8), Take (5000, 64), Give 65568]"

definition one_span :: "(u64 \<times> u64) action list" where
  "one_span = [Take (5000, 64), Give 65600]"

definition class_script :: "unit action list" where
  "class_script = [Take (), Take (), Give 65568]"

lemma legal_two_blocks: "\<forall>r. Take r \<in> set two_blocks \<longrightarrow> ar_legal bump_os r"
  by (simp add: two_blocks_def ar_legal_def large_legal_def at_least_one_def page_size_def bump_os_def)

lemma legal_one_span: "\<forall>r. Take r \<in> set one_span \<longrightarrow> large_legal bump_os r"
  by (simp add: one_span_def large_legal_def page_size_def bump_os_def)

lemma legal_small [simp]: "ar_legal bump_os (100, 8)"
  by (simp add: ar_legal_def large_legal_def at_least_one_def page_size_def bump_os_def)


section \<open>The program\<close>

text \<open>C1: Take any run of the program: the arenas are created, then threads allocate, return blocks
  (their own or those of other threads), write to the blocks they hold, move between CPUs,
  reconfigure and end, in any order and with any \<open>mmap\<close> or \<open>mbind\<close> failing. In every state that is
  reached, no two blocks in use share a byte, every granted byte is mapped and none of it
  belonged to others before, and what others had mapped is mapped and unchanged.\<close>

theorem program_runs_safe:
  assumes "tl_run os asz tsz topo threads n w0 cs as w U" and "os_ok os"
    and "arena_size_ok os asz" and "arena_size_ok os tsz" and "n \<le> 2 ^ 31"
  shows "grants_apart U \<and> granted U \<subseteq> mapped w \<and> granted U \<inter> mapped w0 = {} \<and> mapped w0 \<subseteq> mapped w \<and>
    agree_on (mapped w0) (w_mem w0) (w_mem w)"
proof -
  obtain F where F: "tl_owns os asz tsz cs as w F U" "frame_step {} w0 F w" using tl_run_owns [OF assms] by blast
  note L = tl_owns_laws [OF F(1)] and G = tl_owns_granted [OF F(1)]
  have "grants_apart U" unfolding grants_apart_def using L(3) by blast
  with L(1) G F(2) show ?thesis by (auto simp: frame_step_def agree_on_def)
qed

theorem program_runs_safe_witness:
  "\<exists>as w. grants_apart [73792 \<mapsto> ar_area (5000, 64) 73792] \<and> granted [73792 \<mapsto> ar_area (5000, 64) 73792] \<subseteq> mapped w \<and>
    granted [73792 \<mapsto> ar_area (5000, 64) 73792] \<inter> mapped empty_world = {} \<and> mapped empty_world \<subseteq> mapped w \<and>
    agree_on (mapped empty_world) (w_mem empty_world) (w_mem w) \<and>
    tl_run bump_os 4096 4096 sample_topology 2 1 empty_world sample_threads as w [73792 \<mapsto> ar_area (5000, 64) 73792]"
proof -
  obtain as w where run: "tl_run bump_os 4096 4096 sample_topology 2 1 empty_world sample_threads as w
    [73792 \<mapsto> ar_area (5000, 64) 73792]" using sample_run by blast
  from program_runs_safe [OF run os_ok_bump sample_size_ok sample_size_ok] run show ?thesis by auto
qed

text \<open>C2: No operation of the program hangs: in every state that a run reaches, a legal request, the
  return of a block in use, \<open>configure\<close> and the end of a thread all return, on any thread and CPU.\<close>

theorem program_never_stuck:
  assumes "tl_run os asz tsz topo threads n w0 cs as w U" and "os_ok os"
    and "arena_size_ok os asz" and "arena_size_ok os tsz" and "n \<le> 2 ^ 31" and "k < threads"
  shows "(ar_legal os (sz, al) \<longrightarrow> numa_do_allocate os tsz topo cpu sz al (cs ! k) as w \<noteq> None) \<and>
    (U p \<noteq> None \<longrightarrow> numa_do_deallocate os tsz topo cpu p bytes al (cs ! k) as w \<noteq> None) \<and>
    owner_configure os tsz topo cpus use (cs ! k) as w \<noteq> None \<and> tc_destroy os tsz (cs ! k) as w \<noteq> None"
proof -
  obtain F where o: "tl_owns os asz tsz cs as w F U" and k: "k < length cs"
    using tl_run_owns [OF assms(1-5)] assms(6) by blast
  have "numa_do_allocate os tsz topo cpu sz al (cs ! k) as w \<noteq> None" if "ar_legal os (sz, al)"
    using tl_do_allocate [OF o k that, of topo cpu] by auto
  moreover have "numa_do_deallocate os tsz topo cpu p bytes al (cs ! k) as w \<noteq> None" if "U p \<noteq> None"
    using tl_do_deallocate [OF o k that, of topo cpu bytes al] by auto
  moreover have "owner_configure os tsz topo cpus use (cs ! k) as w \<noteq> None"
    using tl_configure [OF o k, of topo cpus use] by auto
  moreover have "tc_destroy os tsz (cs ! k) as w \<noteq> None" using tl_destroy [OF o k] by auto
  ultimately show ?thesis by blast
qed

theorem program_never_stuck_witness:
  "\<exists>as w. numa_do_allocate bump_os 4096 sample_topology 1 100 8 (sample_threads ! 1) as w \<noteq> None \<and>
    numa_do_deallocate bump_os 4096 sample_topology 1 73792 5000 8 (sample_threads ! 1) as w \<noteq> None \<and>
    owner_configure bump_os 4096 sample_topology (1, 0, 1) False (sample_threads ! 1) as w \<noteq> None"
proof -
  obtain as w where run: "tl_run bump_os 4096 4096 sample_topology 2 1 empty_world sample_threads as w
    [73792 \<mapsto> ar_area (5000, 64) 73792]" using sample_run by blast
  have n: "(1 :: int) \<le> 2 ^ 31" "(1 :: nat) < 2" by simp_all
  show ?thesis
    using program_never_stuck [OF run os_ok_bump sample_size_ok sample_size_ok n, of 100 8 1 73792 5000 "(1, 0, 1)" False]
      sample_legal(2) by (intro exI [of _ as] exI [of _ w]) simp
qed

section \<open>Threads that share arenas\<close>

text \<open>C3: Any schedule of any number of threads, each with a cache, on the arenas of all nodes: threads
  come, move to another node, use the cache or not, and end with a flush; they ask for blocks and return
  blocks, small and large, of their own node or another, with the locked sections of the arenas interleaved in any
  order. No step gets stuck; no two blocks in the hands of the users share a byte; a return never
  fails; a block that no step names keeps its grant and its contents; and the rest of the address
  space is not touched.\<close>

theorem interleavings_safe:
  assumes "os_ok os" and "arena_size_ok os tsz" and "mg_owns os asz as w F U" and "as \<noteq> []" and "length as \<le> 2 ^ 31"
    and "\<forall>d\<in>set ds. legal_duty os d"
  shows "\<exists>cw F'. run_duties os tsz topo ds (crew_at_rest (replicate n None) as w U U) = Some cw \<and>
    frame_step F w F' (mc_world (cw_machine cw)) \<and>
    grants_apart (cw_users cw) \<and> granted (cw_users cw) \<subseteq> F' \<and> F' \<subseteq> mapped (mc_world (cw_machine cw)) \<and>
    (\<forall>(k, call)\<in>set (mc_threads (cw_machine cw)). \<forall>r. freed call = Some r \<longrightarrow> r = Inr ()) \<and>
    (\<forall>p A. U p = Some A \<and> (\<forall>d\<in>set ds. \<not> duty_names p d) \<longrightarrow>
       cw_users cw p = Some A \<and> agree_on A (w_mem w) (w_mem (mc_world (cw_machine cw))))"
proof -
  let ?cw = "crew_at_rest (replicate n None) as w U U"
  have start: "cw_users ?cw = U" "mc_world (cw_machine ?cw) = w" by (simp_all add: crew_at_rest_def machine_at_rest_def)
  obtain cw F' where R: "run_duties os tsz topo ds ?cw = Some cw" "crew_ok os asz tsz cw F'"
    "frame_step F w F' (mc_world (cw_machine cw))"
    "\<forall>p A. U p = Some A \<and> (\<forall>d\<in>set ds. \<not> duty_names p d) \<longrightarrow>
       cw_users cw p = Some A \<and> agree_on A (w_mem w) (w_mem (mc_world (cw_machine cw)))"
    using run_duties_ok [OF crew_boot [OF assms(1-5)] assms(6), of topo n] unfolding start by blast
  have "\<forall>(k, call)\<in>set (mc_threads (cw_machine cw)). \<forall>r. freed call = Some r \<longrightarrow> r = Inr ()"
    using crew_ok_grants(4) [OF R(2)] by blast
  then show ?thesis using R crew_ok_grants(1-3) [OF R(2)] by blast
qed

theorem interleavings_safe_witness:
  "\<exists>cw F'. run_duties bump_os 4096 two_topology (sample_requests @ sample_turns) two_threads = Some cw \<and>
    grants_apart (cw_users cw) \<and> granted (cw_users cw) \<subseteq> F' \<and> F' \<subseteq> mapped (mc_world (cw_machine cw))"
proof -
  have "fst two_nodes \<noteq> []" "length (fst two_nodes) \<le> 2 ^ 31" by (simp_all add: two_nodes(2))
  from interleavings_safe [OF os_ok_bump sample_size_ok two_nodes_own this sample_duties_legal, of two_topology 2]
  show ?thesis by blast
qed

text \<open>C4: Interleaving refines the contract of the threads: after any schedule at whose end no thread is
  in the middle of anything, the caches and the arenas are in a state of the contract that operations
  one at a time keep, with the blocks that the users then hold. So all that is proved of whole operations
  and of runs of the program holds from there on.\<close>

theorem interleavings_refine_contract:
  assumes "os_ok os" and "arena_size_ok os tsz" and "mg_owns os asz as w F U" and "as \<noteq> []" and "length as \<le> 2 ^ 31"
    and "\<forall>d\<in>set ds. legal_duty os d"
    and "run_duties os tsz topo ds (crew_at_rest (replicate n None) as w U U) = Some cw"
    and "\<forall>job\<in>set (cw_jobs cw). job = Job_idle"
  shows "\<exists>F'. tl_owns os asz tsz (cw_caches cw) (mc_arenas (cw_machine cw)) (mc_world (cw_machine cw)) F' (cw_users cw) \<and>
    frame_step F w F' (mc_world (cw_machine cw))"
proof -
  have start: "mc_world (cw_machine (crew_at_rest (replicate n None) as w U U)) = w"
    by (simp add: crew_at_rest_def machine_at_rest_def)
  obtain F' where "crew_ok os asz tsz cw F'" "frame_step F w F' (mc_world (cw_machine cw))"
    using run_duties_ok [OF crew_boot [OF assms(1-5)] assms(6), of topo n] assms(7) unfolding start by auto
  with crew_quiet_owns [OF _ assms(8)] show ?thesis by blast
qed

theorem interleavings_refine_contract_witness:
  "\<exists>cw F'. run_duties bump_os 4096 two_topology (sample_requests @ sample_turns) two_threads = Some cw \<and>
    tl_owns bump_os 4096 4096 (cw_caches cw) (mc_arenas (cw_machine cw)) (mc_world (cw_machine cw)) F' (cw_users cw)"
proof -
  obtain cw where cw: "run_duties bump_os 4096 two_topology (sample_requests @ sample_turns) two_threads = Some cw"
    using run_duties_ok [OF two_threads_ok sample_duties_legal, of two_topology] by blast
  have "fst two_nodes \<noteq> []" "length (fst two_nodes) \<le> 2 ^ 31" by (simp_all add: two_nodes(2))
  from interleavings_refine_contract [OF os_ok_bump sample_size_ok two_nodes_own this sample_duties_legal cw sample_duties_rest [OF cw]] cw
  show ?thesis by blast
qed

text \<open>C5: No thread is held up by the others: a thread that takes turns, a section and a look at the
  result each, finishes what it is in the middle of, whatever the other threads do in between. Nine turns
  end a request or a return; the flush of a cache that ends or is replaced takes at most ten more for each
  block in it.\<close>

theorem operation_ends:
  assumes "os_ok os" and "arena_size_ok os tsz" and "mg_owns os asz as w F U" and "as \<noteq> []" and "length as \<le> 2 ^ 31"
    and "\<forall>d\<in>set (ds @ es). legal_duty os d" and "t < n"
    and "run_duties os tsz topo ds (crew_at_rest (replicate n None) as w U U) = Some cw"
    and "run_duties os tsz topo es cw = Some cw'" and "filter (mine t) es = turns t k"
    and "if cw_jobs cw ! t = Job_flush then 10 * cached_blocks (cw_caches cw ! t) + 10 \<le> k else 9 \<le> k"
  shows "cw_jobs cw' ! t = Job_idle"
proof -
  have legal: "\<forall>d\<in>set ds. legal_duty os d" "\<forall>d\<in>set es. legal_duty os d" using assms(6) by simp_all
  obtain F' where ok: "crew_ok os asz tsz cw F'" and len: "length (cw_jobs cw) = n"
    using run_duties_ok [OF crew_boot [OF assms(1-5)] legal(1), of topo n] assms(8) by (auto simp: crew_at_rest_def)
  have "work_left t cw \<le> k" using assms(11) work_left_bound [of cw t] work_left_flush [of cw t] by (simp split: if_splits)
  then show ?thesis using assms(7,10) len by (intro turns_end [OF ok _ legal(2) assms(9), of t k]) simp_all
qed

theorem operation_ends_witness:
  "\<exists>cw cw'. run_duties bump_os 4096 two_topology sample_requests two_threads = Some cw \<and>
    run_duties bump_os 4096 two_topology sample_turns cw = Some cw' \<and> cw_jobs cw' ! 1 = Job_idle"
proof -
  obtain cw where cw: "run_duties bump_os 4096 two_topology sample_requests two_threads = Some cw"
    using sample_requests_run by blast
  have all: "\<exists>cw'. run_duties bump_os 4096 two_topology (sample_requests @ sample_turns) two_threads = Some cw'"
    using run_duties_ok [OF two_threads_ok sample_duties_legal, of two_topology] by blast
  then obtain cw' where cw': "run_duties bump_os 4096 two_topology sample_turns cw = Some cw'"
    using cw run_duties_append by fastforce
  have "fst two_nodes \<noteq> []" "length (fst two_nodes) \<le> 2 ^ 31" by (simp_all add: two_nodes(2))
  from operation_ends [OF os_ok_bump sample_size_ok two_nodes_own this sample_duties_legal _ cw cw' sample_turns]
    sample_requests_jobs(2) [OF cw, of 1] cw cw' show ?thesis by simp
qed

text \<open>C6: No update is lost: in an arena made for several threads, let every section begin, construct the
  guards of its function, load the fields of the object that it works on, and store them at its end, in
  steps that the threads interleave in any way that the guards allow. Then what a section has loaded is
  what is there for as long as the section lasts, only its own thread holding the mutex of the object, and
  the run is the schedule of whole sections in the order of their ends.\<close>

theorem no_update_lost:
  assumes "ar_owns os ar w F U" and "synchronized ar" and "\<forall>e. Client e \<in> set ss \<longrightarrow> legal_event os e"
    and "take_steps os ss (unguarded (idle_threads n ar w U)) = Some g"
  shows "run_schedule os (events_of ss) (idle_threads n ar w U) = Some (gd_system g) \<and>
    (\<forall>t pr loaded k c. gd_inside g t = Some pr \<and> pr_loaded pr = Some loaded \<and> (k, c) \<in> set loaded \<longrightarrow>
      c = load_part k (sy_arena (gd_system g)) \<and> gd_mutex g k = Some t)"
  using steps_from_quiet(2) [OF assms] loaded_fields [OF steps_from_quiet(1) [OF assms]] by blast

theorem no_update_lost_witness:
  "\<exists>g pr c. take_steps bump_os sample_steps (unguarded (idle_threads 2 (ar_new 0 True True True) empty_world Map.empty)) = Some g \<and>
    gd_inside g 0 = Some pr \<and> pr_loaded pr = Some [(Cache_part, c)] \<and> c = load_part Cache_part (sy_arena (gd_system g)) \<and>
    gd_mutex g Cache_part = Some 0"
proof -
  obtain g pr c where g: "take_steps bump_os sample_steps (unguarded (idle_threads 2 (ar_new 0 True True True) empty_world Map.empty)) = Some g"
    "gd_inside g 0 = Some pr" "pr_loaded pr = Some [(Cache_part, c)]" using sample_steps_run by blast
  from no_update_lost [OF sample_arena_owns synchronized_new sample_steps_legal g(1)] g show ?thesis by fastforce
qed

text \<open>C7: There is no deadlock: at any moment every thread can take the next step of the section that it is
  in or begin one, or it waits for a mutex whose holder can take its next step. A thread that waits for a
  mutex holds none.\<close>

theorem no_deadlock:
  assumes "ar_owns os ar w F U" and "synchronized ar" and "\<forall>e. Client e \<in> set ss \<longrightarrow> legal_event os e"
    and "take_steps os ss (unguarded (idle_threads n ar w U)) = Some g" and "t < n"
  shows "(can_go os g t \<or> (\<exists>k r. waits_for g t k \<and> gd_mutex g k = Some r \<and> can_go os g r)) \<and>
    (\<forall>s k j. waits_for g s k \<longrightarrow> gd_mutex g j \<noteq> Some s)"
  using steps_progress [OF steps_from_quiet(1) [OF assms(1-4)]] steps_from_quiet(3) [OF assms(1-4)] assms(5)
    waits_empty_handed [OF steps_from_quiet(1) [OF assms(1-4)]] by blast

theorem no_deadlock_witness:
  "\<exists>g. take_steps bump_os sample_steps (unguarded (idle_threads 2 (ar_new 0 True True True) empty_world Map.empty)) = Some g \<and>
    waits_for g 1 Cache_part \<and> gd_mutex g Cache_part = Some 0 \<and> can_go bump_os g 0 \<and> \<not> can_go bump_os g 1"
proof -
  obtain g where g: "take_steps bump_os sample_steps (unguarded (idle_threads 2 (ar_new 0 True True True) empty_world Map.empty)) = Some g"
    "waits_for g 1 Cache_part" "\<not> can_go bump_os g 1" "gd_mutex g Cache_part = Some 0" using sample_steps_run by blast
  from no_deadlock [OF sample_arena_owns synchronized_new sample_steps_legal g(1), of 1] g(2-4)
  have "can_go bump_os g 0" by (auto simp: waits_for_def)
  with g show ?thesis by blast
qed

text \<open>C8: The atomic \<open>foreign_bytes_\<close> is exact at every moment of every schedule, with up to \<open>2 ^ 40\<close>
  threads: it is the sum of the bytes in the bins and of the bytes that some thread has detached
  and not yet subtracted. It never wraps, although it is not updated together with the bins.\<close>

theorem foreign_total_exact:
  assumes "ar_owns os ar w F U" and "\<forall>e\<in>set es. legal_event os e"
    and "run_schedule os es (idle_threads n ar w U) = Some sy" and "n \<le> 2 ^ 40"
  shows "unat (ar_foreign_bytes (sy_arena sy)) =
    sum_list (map (\<lambda>b. unat (fl_bytes b)) (ar_foreign_bins (sy_arena sy))) +
    sum_list (map (\<lambda>call. unat (pending_bytes call)) (sy_calls sy))"
proof -
  obtain F' where "sys_ok os sy F'" "length (sy_calls sy) = n"
    using schedule_from_quiet [OF assms(1,2), of n] assms(3) by auto
  with sys_ok_grants(5) assms(4) show ?thesis by simp
qed

theorem foreign_total_exact_witness:
  "\<exists>sy. run_schedule bump_os sample_schedule (idle_threads 2 (ar_new 0 True True True) empty_world Map.empty) = Some sy \<and>
    unat (ar_foreign_bytes (sy_arena sy)) =
      sum_list (map (\<lambda>b. unat (fl_bytes b)) (ar_foreign_bins (sy_arena sy))) +
      sum_list (map (\<lambda>call. unat (pending_bytes call)) (sy_calls sy))"
proof -
  obtain sy where sy: "run_schedule bump_os sample_schedule (idle_threads 2 (ar_new 0 True True True) empty_world Map.empty) = Some sy"
    using sample_schedule_runs by blast
  have "(2 :: nat) \<le> 2 ^ 40" by simp
  from foreign_total_exact [OF sample_arena_owns sample_schedule_legal sy this] sy show ?thesis by blast
qed

section \<open>Threads\<close>

text \<open>C9: \<open>numa_memory_resource::do_allocate\<close> on a thread with or without a cache: it returns; a block
  is not null, was not in use, is aligned as asked, and its header names the node of the
  thread's cache, so it is local memory; blocks in use and the rest of the memory are as
  before, also when it throws.\<close>

theorem thread_allocate_correct:
  assumes "tl_owns os asz tsz cs as w F U" and "k < length cs" and "ar_legal os (sz, al)"
  shows "\<exists>r c' as' w' F'. numa_do_allocate os tsz topo cpu sz al (cs ! k) as w = Some (r, c', as', w') \<and>
    length as' = length as \<and> frame_step F w F' w' \<and> agree_on (granted U) (w_mem w) (w_mem w') \<and>
    (case r of
       Inl e \<Rightarrow> tl_owns os asz tsz (cs[k := c']) as' w' F' U
     | Inr p \<Rightarrow> U p = None \<and> p \<noteq> nullptr \<and> aligned_for al p \<and>
         (\<exists>s t. c' = Some (s, t) \<and> sint (bh_node_id (w_mem w') (from_user_ptr p)) = tc_node_id t) \<and>
         tl_owns os asz tsz (cs[k := c']) as' w' F' (U(p \<mapsto> ar_area (sz, al) p)))"
  using assms by (rule tl_do_allocate)

theorem thread_allocate_correct_witness:
  "\<exists>F r c' as' w' F'. numa_do_allocate bump_os 4096 sample_topology 0 100 8 (sample_threads ! 0) sample_arenas
      (snd sample_create) = Some (r, c', as', w') \<and> length as' = length sample_arenas \<and>
    frame_step F (snd sample_create) F' w'"
proof -
  obtain F where F: "tl_owns bump_os 4096 4096 sample_threads sample_arenas (snd sample_create) F Map.empty"
    using sample_threads_own by blast
  have "0 < length sample_threads" by (simp add: sample_threads_def)
  from thread_allocate_correct [OF F this sample_legal(2), of sample_topology 0]
  obtain r c' as' w' F' where "numa_do_allocate bump_os 4096 sample_topology 0 100 8 (sample_threads ! 0) sample_arenas
      (snd sample_create) = Some (r, c', as', w')" "length as' = length sample_arenas" "frame_step F (snd sample_create) F' w'"
    by (elim exE conjE)
  then show ?thesis by blast
qed

text \<open>C10: \<open>do_deallocate\<close> of a block in use, from any thread: it returns, the block is free, and the
  other blocks keep their contents. The one error there is comes from the creation of the
  cache of a thread that has none, and then the block is still in use.\<close>

theorem thread_deallocate_correct:
  assumes "tl_owns os asz tsz cs as w F U" and "k < length cs" and "U p \<noteq> None"
  shows "\<exists>r c' as' w' F'. numa_do_deallocate os tsz topo cpu p bytes al (cs ! k) as w = Some (r, c', as', w') \<and>
    length as' = length as \<and> frame_step F w F' w' \<and> agree_on (granted (U(p := None))) (w_mem w) (w_mem w') \<and>
    (case r of
       Inl e \<Rightarrow> cs ! k = None \<and> tl_owns os asz tsz (cs[k := c']) as' w' F' U
     | Inr u \<Rightarrow> tl_owns os asz tsz (cs[k := c']) as' w' F' (U(p := None)))"
  using assms by (rule tl_do_deallocate)

theorem thread_deallocate_correct_witness:
  "\<exists>as w F r c' as' w'. numa_do_deallocate bump_os 4096 sample_topology 1 73792 5000 64 (sample_threads ! 1) as w =
      Some (r, c', as', w') \<and> (\<exists>F'. frame_step F w F' w')"
proof -
  obtain as w F where o: "tl_owns bump_os 4096 4096 sample_threads as w F [73792 \<mapsto> ar_area (5000, 64) 73792]"
    using sample_block_owns by blast
  have "1 < length sample_threads" "[73792 \<mapsto> ar_area (5000, 64) 73792] 73792 \<noteq> None" by (simp_all add: sample_threads_def)
  from thread_deallocate_correct [OF o this, of sample_topology 1 5000 64] show ?thesis by blast
qed

text \<open>C11: For a thread that has a cache the resource is an allocator, whatever the other threads hold:
  any script of legal requests, returns and writes runs to its end with blocks that never
  overlap, are mapped, and keep what the script does not name.\<close>

theorem thread_scripts_safe:
  assumes "thread_owns os asz tsz k s w F U" and "\<forall>r. Take r \<in> set script \<longrightarrow> ar_legal os r"
  shows "\<exists>s' w' U' F'. run_script (thread_alloc os tsz topo cpu k) (thread_free os tsz topo cpu k) (\<lambda>s. ar_area)
      script (s, w, U) = Some (s', w', U') \<and>
    thread_owns os asz tsz k s' w' F' U' \<and> frame_step F w F' w' \<and> granted U' \<subseteq> mapped w' \<and> grants_apart U' \<and>
    undisturbed script U w U' w'"
  using assms by (rule tla.run_spec)

theorem thread_scripts_safe_witness:
  "\<exists>F s' w' U' F'. run_script (thread_alloc bump_os 4096 sample_topology 0 0) (thread_free bump_os 4096 sample_topology 0 0)
      (\<lambda>s. ar_area) two_blocks ((sample_threads, sample_arenas), snd sample_create, Map.empty) = Some (s', w', U') \<and>
    thread_owns bump_os 4096 4096 0 s' w' F' U' \<and> frame_step F (snd sample_create) F' w' \<and> granted U' \<subseteq> mapped w' \<and>
    grants_apart U' \<and> undisturbed two_blocks Map.empty (snd sample_create) U' w'"
proof -
  obtain F where F: "tl_owns bump_os 4096 4096 sample_threads sample_arenas (snd sample_create) F Map.empty"
    using sample_threads_own by blast
  then have "thread_owns bump_os 4096 4096 0 (sample_threads, sample_arenas) (snd sample_create) F Map.empty"
    by (simp add: thread_owns_def sample_threads_def)
  from thread_scripts_safe [OF this legal_two_blocks, of sample_topology 0] show ?thesis by blast
qed

text \<open>C12: \<open>configure\<close> returns, and when it succeeds the thread has a cache in the mode asked for. It may
  create a cache, or replace it after the thread has moved to another node; the blocks of
  all users, the caches of the other threads and the rest of the memory are as before, also
  when a step of it throws.\<close>

theorem configure_keeps_blocks:
  assumes "tl_owns os asz tsz cs as w F U" and "k < length cs"
  shows "\<exists>r c' as' w' F'. owner_configure os tsz topo cpus use (cs ! k) as w = Some (r, c', as', w') \<and>
    length as' = length as \<and> tl_owns os asz tsz (cs[k := c']) as' w' F' U \<and> frame_step F w F' w' \<and>
    agree_on (granted U) (w_mem w) (w_mem w') \<and> (r = Inr () \<longrightarrow> (\<exists>p t. c' = Some (p, t) \<and> tc_use t = use))"
  using assms by (rule tl_configure)

theorem configure_keeps_blocks_witness:
  "\<exists>as w F r c' as' w'. owner_configure bump_os 4096 sample_topology (0, 1, 0) False (sample_threads ! 0) as w =
      Some (r, c', as', w') \<and> (\<exists>F'. frame_step F w F' w') \<and>
    agree_on (granted [73792 \<mapsto> ar_area (5000, 64) 73792]) (w_mem w) (w_mem w')"
proof -
  obtain as w F where o: "tl_owns bump_os 4096 4096 sample_threads as w F [73792 \<mapsto> ar_area (5000, 64) 73792]"
    using sample_block_owns by blast
  have "0 < length sample_threads" by (simp add: sample_threads_def)
  from configure_keeps_blocks [OF o this, of sample_topology "(0, 1, 0)" False] show ?thesis by blast
qed

text \<open>C13: \<open>get_numa_memory_resource\<close> returns; on success the resource is the one asked for and the
  calling thread has a cache in that mode, whichever of the two static resources had to be
  constructed on the way. No block of a user is touched, whichever step throws.\<close>

theorem default_resource_configures:
  assumes "tl_owns os asz tsz cs as w F U" and "k < length cs" and "statics_ok st"
  shows "\<exists>r st' c' as' w' F'.
    get_numa_memory_resource os tsz topo cpus use st (cs ! k) as w = Some (r, st', c', as', w') \<and>
    statics_ok st' \<and> length as' = length as \<and> tl_owns os asz tsz (cs[k := c']) as' w' F' U \<and> frame_step F w F' w' \<and>
    agree_on (granted U) (w_mem w) (w_mem w') \<and>
    (\<forall>b. r = Inr b \<longrightarrow> b = use \<and> (\<exists>p t. c' = Some (p, t) \<and> tc_use t = use))"
  using assms by (rule get_numa_memory_resource_ok)

theorem default_resource_configures_witness:
  "\<exists>F r st' c' as' w' F'.
    get_numa_memory_resource bump_os 4096 sample_topology ((0, 0, 0), (0, 0, 0), (0, 0, 0)) False
      \<lparr>st_default_resource = None, st_no_cache_resource = None\<rparr> (sample_threads ! 0) sample_arenas (snd sample_create) =
      Some (r, st', c', as', w') \<and> statics_ok st' \<and> frame_step F (snd sample_create) F' w' \<and>
    (\<forall>b. r = Inr b \<longrightarrow> b = False \<and> (\<exists>p t. c' = Some (p, t) \<and> tc_use t = False))"
proof -
  obtain F where F: "tl_owns bump_os 4096 4096 sample_threads sample_arenas (snd sample_create) F Map.empty"
    using sample_threads_own by blast
  have "0 < length sample_threads" "statics_ok \<lparr>st_default_resource = None, st_no_cache_resource = None\<rparr>"
    by (simp_all add: sample_threads_def statics_ok_def)
  from default_resource_configures [OF F this, of sample_topology "((0, 0, 0), (0, 0, 0), (0, 0, 0))" False]
  show ?thesis by blast
qed

text \<open>C14: With one arena for each node of the topology, a thread always finds the arena of the node of
  its CPU: when the creation of its cache fails it is for want of memory, never with
  \<open>out_of_range\<close>, and nothing stays mapped.\<close>

theorem first_use_finds_arena:
  assumes "os_ok os" and "arena_size_ok os tsz" and "topo_ok topo" and "int (length as) = node_count topo"
    and "create_on_current_node os tsz topo cpu use as w = (Inl e, w')"
  shows "e = Bad_alloc \<and> frame_step {} w {} w'"
  using create_finds_arena [OF assms] by blast

theorem first_use_finds_arena_witness:
  "\<exists>e w'. create_on_current_node (bump_os\<lparr>os_mmap := \<lambda>_ _ _. None\<rparr>) 4096 sample_topology 0 True sample_arenas empty_world =
      (Inl e, w') \<and> e = Bad_alloc \<and> frame_step {} empty_world {} w'"
proof -
  let ?os = "bump_os\<lparr>os_mmap := \<lambda>_ _ _. None\<rparr>"
  have os: "os_ok ?os" using os_ok_bump by (simp add: os_ok_def)
  have sz: "arena_size_ok ?os 4096" using sample_size_ok by (simp add: arena_size_ok_def fits_page_def page_size_def)
  obtain w' where c: "create_on_current_node ?os 4096 sample_topology 0 True sample_arenas empty_world = (Inl Bad_alloc, w')"
    by (simp add: create_on_current_node_def vm_alloc_on_node_def vm_reserve_def sys_mmap_def empty_world_def
        page_size_def bump_os_def align_up_def)
  have n: "int (length sample_arenas) = node_count sample_topology" by (simp add: sample_start(2))
  from first_use_finds_arena [OF os sz sample_topology_ok n c] c show ?thesis by blast
qed

text \<open>C15: When a thread ends, its cache goes: the destructor returns, every block that users hold, in
  whatever thread, stays in use with its contents, and the others keep their caches.\<close>

theorem thread_exit_keeps_blocks:
  assumes "tl_owns os asz tsz cs as w F U" and "k < length cs"
  shows "\<exists>as' w' F'. tc_destroy os tsz (cs ! k) as w = Some (as', w') \<and> length as' = length as \<and>
    tl_owns os asz tsz (cs[k := None]) as' w' F' U \<and> frame_step F w F' w' \<and>
    agree_on (granted U) (w_mem w) (w_mem w')"
  using assms by (rule tl_destroy)

theorem thread_exit_keeps_blocks_witness:
  "\<exists>as w F as' w' F'. tc_destroy bump_os 4096 (sample_threads ! 0) as w = Some (as', w') \<and>
    tl_owns bump_os 4096 4096 (sample_threads[0 := None]) as' w' F' [73792 \<mapsto> ar_area (5000, 64) 73792] \<and>
    frame_step F w F' w'"
proof -
  obtain as w F where o: "tl_owns bump_os 4096 4096 sample_threads as w F [73792 \<mapsto> ar_area (5000, 64) 73792]"
    using sample_block_owns by blast
  have "0 < length sample_threads" by (simp add: sample_threads_def)
  from thread_exit_keeps_blocks [OF o this] show ?thesis by blast
qed

text \<open>C16: The end of the program: all threads end and the arenas are deleted. Both return. Once the threads
  are gone the arenas have exactly the blocks of the users in use, none that a cache held. In the end the
  storage of every cache and of every arena is unmapped, every slab that a class lists, the vectors that
  list them and every cached span; no byte outside what the program owned is touched.\<close>

theorem program_end_gives_back:
  assumes "tl_owns os asz tsz cs as w F U" and "arena_size_ok os asz"
  shows "\<exists>as' w1 w' F'. exit_threads os tsz cs as w = Some (as', w1) \<and> delete_arenas os asz as' w1 = Some w' \<and>
    mg_owns os asz as' w1 F' U \<and> frame_step F w F' w1 \<and> gives_back F' w1 w' \<and>
    (shell_area os tsz (ptrs cs) \<union> storages os asz as' \<union> arenas_store os as') \<inter> mapped w' = {}"
  using assms by (rule program_end)

theorem program_end_gives_back_witness:
  "\<exists>as w F as' w1 w' F'. exit_threads bump_os 4096 sample_threads as w = Some (as', w1) \<and>
    delete_arenas bump_os 4096 as' w1 = Some w' \<and> mg_owns bump_os 4096 as' w1 F' [73792 \<mapsto> ar_area (5000, 64) 73792] \<and>
    frame_step F w F' w1 \<and> gives_back F' w1 w' \<and>
    (shell_area bump_os 4096 (ptrs sample_threads) \<union> storages bump_os 4096 as' \<union> arenas_store bump_os as') \<inter> mapped w' = {}"
proof -
  obtain as w F where o: "tl_owns bump_os 4096 4096 sample_threads as w F [73792 \<mapsto> ar_area (5000, 64) 73792]"
    using sample_block_owns by blast
  from program_end_gives_back [OF o sample_size_ok] show ?thesis by blast
qed

text \<open>C17: What a thread's cache holds back is bounded, at every moment of every interleaving from the start
  of the program: for every class the linked list from the head has \<open>count\<close> blocks, the bytes are their
  number times the class size, and they stay within the limit of \<open>SizeClassConfig\<close>, 2 MiB at most.\<close>

theorem cache_bounds:
  assumes "os_ok os" and "arena_size_ok os tsz" and "mg_owns os asz as w F U" and "as \<noteq> []" and "length as \<le> 2 ^ 31"
    and "\<forall>d\<in>set ds. legal_duty os d"
    and "run_duties os tsz topo ds (crew_at_rest (replicate n None) as w U U) = Some cw"
    and "t < n" and "cw_caches cw ! t = Some (p, tc)" and "i < kNumSizeClasses"
  shows "(\<exists>hs. chain (next_link (w_mem (mc_world (cw_machine cw)))) (cb_head (tc_bins tc ! i)) hs \<and>
      unat (cb_count (tc_bins tc ! i)) = length hs \<and>
      unat (cb_bytes (tc_bins tc ! i)) = length hs * unat (kClassSizes ! i)) \<and>
    cb_bytes (tc_bins tc ! i) \<le> max_cached_bytes_for_class (kClassSizes ! i) \<and>
    unat (cb_bytes (tc_bins tc ! i)) \<le> 2097152"
proof -
  obtain F' where ok: "crew_ok os asz tsz cw F'" and len: "length (cw_jobs cw) = n"
    using run_duties_ok [OF crew_boot [OF assms(1-5)] assms(6), of topo n] assms(7) by (auto simp: crew_at_rest_def)
  obtain m V q where "cache_ok (length (mc_arenas (cw_machine cw))) tc (w_mem (mc_world (cw_machine cw))) V q"
    using crew_cache_ok [OF ok, of t p tc] len assms(8,9) by blast
  from cache_counts [OF this, of i] assms(10) show ?thesis by simp
qed

theorem cache_bounds_witness:
  "\<exists>p as w A t cw. run_duties bump_os 4096 sample_topology (sample_cached p)
      (crew_at_rest (replicate 1 None) as w [p \<mapsto> A] [p \<mapsto> A]) = Some cw \<and>
    cw_caches cw ! 0 = Some (139264, t) \<and> cb_count (tc_bins t ! 6) = 1 \<and> unat (cb_bytes (tc_bins t ! 6)) = 112"
proof -
  obtain p as w F A t cw where r: "mg_owns bump_os 4096 as w F [p \<mapsto> A]" "as \<noteq> []" "length as \<le> 2 ^ 31"
    "run_duties bump_os 4096 sample_topology (sample_cached p) (crew_at_rest (replicate 1 None) as w [p \<mapsto> A] [p \<mapsto> A]) = Some cw"
    "cw_caches cw = [Some (139264, t)]" "cb_count (tc_bins t ! 6) = 1" using sample_cached_run by blast
  have legal: "\<forall>d\<in>set (sample_cached p). legal_duty bump_os d" by (simp add: sample_cached_def legal_duty_def)
  have c: "cw_caches cw ! 0 = Some (139264, t)" using r(5) by simp
  from cache_bounds [OF os_ok_bump sample_size_ok r(1-3) legal r(4) _ c, of 6] r(6)
  have "unat (cb_bytes (tc_bins t ! 6)) = 112" by (auto simp: class_112)
  with r(4,6) c show ?thesis by blast
qed





text \<open>C19: \<open>flush\<close> ends with every bin empty, whatever the cached lists are, and each cached block is then
  back in its arena: of the blocks in use, the arenas have lost those that this cache held and no
  others. The blocks of the users and of the other caches are as they were.\<close>

theorem flush_empties:
  assumes "pool_inv os asz cs as w F V Q" and "k < length cs" and "cs ! k = Some (p, t)"
  shows "\<exists>as' w' F'. tc_flush os t as w = Some (t\<lparr>tc_bins := replicate kNumSizeClasses empty_cache_bin\<rparr>, as', w') \<and>
    length as' = length as \<and> mg_owns os asz as' w' F' (V |` (- to_user_ptr ` set (concat (Q ! k)))) \<and>
    pool_inv os asz (cs[k := Some (p, t\<lparr>tc_bins := replicate kNumSizeClasses empty_cache_bin\<rparr>)]) as' w' F'
      (V |` (- to_user_ptr ` set (concat (Q ! k)))) (Q[k := replicate kNumSizeClasses []]) \<and>
    frame_step F w F' w' \<and> agree_on (granted (for_users V Q)) (w_mem w) (w_mem w')"
proof -
  have P: "pool_inv os asz cs as w F V Q \<Longrightarrow> mg_owns os asz as w F V" for cs "as" w F V Q by (rule pool_invD(1))
  from tc_flush_exact [OF assms] show ?thesis by (elim exE conjE, intro exI conjI) (use P in simp_all)
qed

theorem flush_empties_witness:
  "\<exists>p t as w F V Q as' w' F'. cb_count (tc_bins t ! 6) = 1 \<and> mg_owns bump_os 4096 as w F V \<and>
    tc_flush bump_os t as w = Some (t\<lparr>tc_bins := replicate kNumSizeClasses empty_cache_bin\<rparr>, as', w') \<and>
    cb_head (tc_bins t ! 6) \<in> set (concat (Q ! 0)) \<and> V (to_user_ptr (cb_head (tc_bins t ! 6))) \<noteq> None \<and>
    mg_owns bump_os 4096 as' w' F' (V |` (- to_user_ptr ` set (concat (Q ! 0))))"
proof -
  obtain p as w F A t cw where r: "mg_owns bump_os 4096 as w F [p \<mapsto> A]" "as \<noteq> []" "length as \<le> 2 ^ 31"
    "run_duties bump_os 4096 sample_topology (sample_cached p) (crew_at_rest (replicate 1 None) as w [p \<mapsto> A] [p \<mapsto> A]) = Some cw"
    "cw_caches cw = [Some (139264, t)]" "cb_count (tc_bins t ! 6) = 1" "cw_jobs cw = [Job_idle]"
    using sample_cached_run by blast
  have legal: "\<forall>d\<in>set (sample_cached p). legal_duty bump_os d" by (simp add: sample_cached_def legal_duty_def)
  obtain F' where ok: "crew_ok bump_os 4096 4096 cw F'"
    using run_duties_ok [OF crew_boot [OF os_ok_bump sample_size_ok r(1-3)] legal, of sample_topology 1] r(4) by auto
  have "\<forall>job\<in>set (cw_jobs cw). job = Job_idle" using r(7) by simp
  from crew_quiet_owns [OF ok this] obtain Fm V Q where
    inv: "pool_inv bump_os 4096 [Some (139264, t)] (mc_arenas (cw_machine cw)) (mc_world (cw_machine cw)) Fm V Q"
    unfolding tl_owns_def tl_inv_def r(5) by blast
  have k: "0 < length [Some (139264 :: ptr, t)]" "[Some (139264, t)] ! 0 = Some (139264, t)" by simp_all
  have "\<exists>h. cb_head (tc_bins t ! 6) = h \<and> h \<in> set (concat (Q ! 0)) \<and> V (to_user_ptr h) \<noteq> None"
    using cached_head [OF pool_cache [OF inv k], of 6] r(6) by simp
  with flush_empties [OF inv k] pool_invD(1) [OF inv] r(6) show ?thesis by blast
qed

section \<open>Arenas\<close>

text \<open>C20: \<open>NumaArena::allocate\<close> returns; when it succeeds, the pointer is not null, was not in
  use, is aligned as asked, and at least the requested bytes (one byte for a request of none)
  are granted with it; when it throws, nothing is lost. Blocks in use keep their contents
  either way.\<close>

theorem arena_allocate_correct:
  assumes "ar_owns os ar w F U" and "ar_legal os (sz, alignment)"
  shows "\<exists>r ar' w' F'. ar_allocate os sz alignment ar w = Some (r, ar', w') \<and> frame_step F w F' w' \<and>
    agree_on (granted U) (w_mem w) (w_mem w') \<and>
    (case r of
       Inl e \<Rightarrow> ar_owns os ar' w' F' U
     | Inr p \<Rightarrow> U p = None \<and> p \<noteq> nullptr \<and> aligned_for alignment p \<and>
         ar_owns os ar' w' F' (U(p \<mapsto> bytes_of p (unat (if sz = 0 then 1 else sz)))))"
proof -
  obtain x ar' w' F' where "ar_alloc_req os (sz, alignment) ar w = Some (x, ar', w')" "frame_step F w F' w'"
    "agree_on (granted U) (w_mem w) (w_mem w')"
    "case x of Inl e \<Rightarrow> ar_owns os ar' w' F' U
     | Inr p \<Rightarrow> U p = None \<and> p \<noteq> nullptr \<and> aligned_for alignment p \<and>
         ar_owns os ar' w' F' (U(p \<mapsto> ar_area (sz, alignment) p))"
    using ar_owns_alloc [OF assms] unfolding snd_conv by blast
  then show ?thesis
    unfolding ar_alloc_req_def ar_area_def at_least_one_def prod.case fst_conv snd_conv by blast
qed

theorem arena_allocate_correct_witness:
  "\<exists>r ar' w' F'. ar_allocate bump_os 100 8 (ar_new 0 True True True) empty_world = Some (r, ar', w') \<and>
    frame_step {} empty_world F' w' \<and> agree_on (granted Map.empty) (w_mem empty_world) (w_mem w') \<and>
    (case r of
       Inl e \<Rightarrow> ar_owns bump_os ar' w' F' Map.empty
     | Inr p \<Rightarrow> (Map.empty :: grants) p = None \<and> p \<noteq> nullptr \<and> aligned_for 8 p \<and>
         ar_owns bump_os ar' w' F' (Map.empty(p \<mapsto> bytes_of p (unat (if (100 :: u64) = 0 then 1 else 100 :: u64)))))"
  by (rule arena_allocate_correct [OF ar_new_owns [OF os_ok_bump]]) simp_all

text \<open>C21: The constructor of \<open>ArenaManager\<close> is all or nothing: it returns; either there is one empty arena
  for each node, in storage of its own, that together are an allocator with no block in use,
  or it throws \<open>bad_alloc\<close> and everything that was mapped on the way is unmapped.\<close>

theorem init_arenas_all_or_nothing:
  assumes "os_ok os" and "arena_size_ok os asz" and "n \<le> 2 ^ 31"
  shows "\<exists>r w'. init_arenas os asz n w = Some (r, w') \<and>
    (case r of
       Inl e \<Rightarrow> e = Bad_alloc \<and> frame_step {} w {} w'
     | Inr as \<Rightarrow> length as = nat n \<and> frame_step {} w (storages os asz as) w' \<and>
         mg_owns os asz as w' (storages os asz as) Map.empty \<and>
         (\<forall>i<length as. snd (as ! i) = ar_new (int i) (n > 1) True True))"
  using assms by (rule init_arenas_ok)

theorem init_arenas_all_or_nothing_witness:
  "\<exists>as w'. init_arenas bump_os 4096 1 empty_world = Some (Inr as, w') \<and> length as = 1 \<and>
    mg_owns bump_os 4096 as w' (storages bump_os 4096 as) Map.empty"
proof -
  have "(1 :: int) \<le> 2 ^ 31" by simp
  from init_arenas_all_or_nothing [OF os_ok_bump sample_size_ok this, of empty_world] sample_start(1)
  show ?thesis by (intro exI [of _ sample_arenas] exI [of _ "snd sample_start"]) simp
qed

text \<open>C22: What an arena holds back is bounded at every moment of every schedule, from its constructor on: each
  foreign bin by its high watermark, all of them together by 80 MiB, and the cache of spans by 128 spans
  and by the 64 MiB of \<open>kMaxLargeCacheBytes\<close>. The counters of the cache are the sums over its bins.\<close>

theorem arena_bounds:
  assumes "os_ok os" and "- (2 ^ 31) \<le> node" and "node < 2 ^ 31" and "\<forall>e\<in>set es. legal_event os e"
    and "run_schedule os es (idle_threads n (ar_new node ff sync route) w Map.empty) = Some sy"
  shows "(\<forall>i<kNumSizeClasses.
      fl_bytes (ar_foreign_bins (sy_arena sy) ! i) \<le> foreign_high_watermark (kClassSizes ! i)) \<and>
    sum_list (map (\<lambda>b. unat (fl_bytes b)) (ar_foreign_bins (sy_arena sy))) \<le> 83886080 \<and>
    unat (la_cached_spans (ar_large (sy_arena sy))) \<le> 128 \<and>
    unat (la_cached_bytes (ar_large (sy_arena sy))) \<le> 64 * 1024 * 1024 \<and>
    unat (la_cached_spans (ar_large (sy_arena sy))) =
      sum_list (map (\<lambda>b. unat (sb_count b)) (la_bins (ar_large (sy_arena sy)))) \<and>
    unat (la_cached_bytes (ar_large (sy_arena sy))) =
      sum_list (map (\<lambda>b. unat (sb_bytes b)) (la_bins (ar_large (sy_arena sy))))"
proof -
  obtain F' where ok: "sys_ok os sy F'"
    using schedule_from_quiet [OF ar_new_owns [OF assms(1-3)] assms(4), of n ff sync route w] assms(5) by auto
  note B = sys_ok_bounds [OF ok]
  have "la_fixed (ar_large (sy_arena sy)) = la_fixed (ar_large (ar_new node ff sync route))"
    using schedule_flags [OF assms(5)] by (simp add: sync_flags_def idle_threads_def)
  then have "la_max_cached_bytes (ar_large (sy_arena sy)) = 67108864"
    by (simp add: la_fixed_def ar_new_def la_new_def kMaxLargeCacheBytes_def)
  then have "unat (la_cached_bytes (ar_large (sy_arena sy))) \<le> 64 * 1024 * 1024"
    using B(3) by (simp add: la_wf_def word_le_nat_alt)
  with B la_wf_bounds(1) [OF B(3)] show ?thesis by (simp add: la_wf_def)
qed

theorem arena_bounds_witness:
  "\<exists>sy. run_schedule bump_os sample_cached_span (idle_threads 1 (ar_new 0 True True True) empty_world Map.empty) = Some sy \<and>
    la_cached_spans (ar_large (sy_arena sy)) = 1 \<and>
    sum_list (map (\<lambda>b. unat (sb_bytes b)) (la_bins (ar_large (sy_arena sy)))) = 8192"
proof -
  obtain sy where sy: "run_schedule bump_os sample_cached_span (idle_threads 1 (ar_new 0 True True True) empty_world Map.empty) = Some sy"
    "la_cached_spans (ar_large (sy_arena sy)) = 1" "la_cached_bytes (ar_large (sy_arena sy)) = 8192"
    using sample_cached_span_run by blast
  have "\<forall>e\<in>set sample_cached_span. legal_event bump_os e"
    using sample_legal(1) by (auto simp: sample_cached_span_def legal_event_def)
  from arena_bounds [OF os_ok_bump _ _ this sy(1)] sy show ?thesis by simp
qed

text \<open>C23: What \<open>deallocate_foreign\<close> does to the bin of a small block's class. Below the high watermark the
  block becomes the head of the bin, counted and with its bytes added, one link is written and that is all.
  Above it the bin is drained, no further than to the low watermark. The other bins stay as they are,
  and \<open>foreign_bytes_\<close> follows the bin exactly. The block is free, and all others keep their contents.\<close>

theorem foreign_return_queued:
  assumes "ar_owns os ar w F U" and "U p \<noteq> None" and "ar_foreign_freelist_enabled ar" and "i < kNumSizeClasses"
    and "bh_size_class (w_mem w) (from_user_ptr p) = ucast (kClassSizes ! i)"
  shows "\<exists>ar' w' F'. ar_deallocate_foreign os p ar w = Some (Inr (), ar', w') \<and> ar_owns os ar' w' F' (U(p := None)) \<and>
    frame_step F w F' w' \<and> agree_on (granted (U(p := None))) (w_mem w) (w_mem w') \<and>
    (let cs = kClassSizes ! i; bin = ar_foreign_bins ar ! i; bin' = ar_foreign_bins ar' ! i in
     (if unat (fl_bytes bin) + unat cs \<le> unat (foreign_high_watermark cs)
      then bin' = \<lparr>fl_head = from_user_ptr p, fl_count = fl_count bin + 1, fl_bytes = fl_bytes bin + cs\<rparr> \<and>
        ar_small ar' = ar_small ar \<and> w' = w\<lparr>w_mem := set_next_link (from_user_ptr p) (fl_head bin) (w_mem w)\<rparr>
      else unat (fl_bytes bin') \<le> unat (foreign_low_watermark cs) \<and>
        unat (foreign_low_watermark cs) < unat (fl_bytes bin') + unat cs) \<and>
     ar_foreign_bins ar' = (ar_foreign_bins ar)[i := bin'] \<and>
     unat (ar_foreign_bytes ar') + unat (fl_bytes bin) = unat (ar_foreign_bytes ar) + unat (fl_bytes bin'))"
  using foreign_return_levels [OF assms(1-3) _ assms(5)] assms(4) by simp

theorem foreign_return_queued_witness:
  "\<exists>p ar w ar' w'. ar_deallocate_foreign bump_os p ar w = Some (Inr (), ar', w') \<and>
    ar_foreign_bins ar' ! 6 = \<lparr>fl_head = from_user_ptr p, fl_count = 1, fl_bytes = 112\<rparr> \<and> ar_foreign_bytes ar' = 112"
proof -
  obtain p ar w F where s: "ar_owns bump_os ar w F [p \<mapsto> ar_area (100, 8) p]" "ar_foreign_freelist_enabled ar"
    "bh_size_class (w_mem w) (from_user_ptr p) = ucast (kClassSizes ! 6)"
    "ar_foreign_bins ar = replicate 40 empty_foreign" "ar_foreign_bytes ar = 0" using sample_foreign by blast
  have h: "unat (foreign_high_watermark (112 :: u64)) = 131072"
    by (simp add: foreign_high_watermark_def max_cached_bytes_for_class_def size_consts)
  have p: "[p \<mapsto> ar_area (100, 8) p] p \<noteq> None" and i: "6 < kNumSizeClasses" by simp_all
  obtain ar' w' where d: "ar_deallocate_foreign bump_os p ar w = Some (Inr (), ar', w')"
    "ar_foreign_bins ar' = (replicate 40 empty_foreign)[6 := \<lparr>fl_head = from_user_ptr p, fl_count = 1, fl_bytes = 112\<rparr>]"
    "unat (ar_foreign_bytes ar') = 112"
    using foreign_return_queued [OF s(1) p s(2) i s(3)] by (auto simp: Let_def s(4,5) class_112 h empty_foreign_def)
  have "ar_foreign_bytes ar' = 112" using d(3) by (simp add: ptr_eq_iff_unat)
  with d(1,2) show ?thesis by (intro exI [of _ p] exI [of _ ar] exI [of _ w] exI [of _ ar'] exI [of _ w']) simp
qed

text \<open>C24: \<open>numa_arena_memory_resource\<close> is an allocator: for every script of legal requests, returns and
  writes the same guarantee holds, whatever arenas the manager has.\<close>

theorem arena_resource_scripts_safe:
  assumes "rs_owns os asz r w F U" and "\<forall>q. Take q \<in> set script \<longrightarrow> ar_legal os q"
  shows "\<exists>r' w' U' F'. run_script (rs_alloc_op os) (rs_free_op os as) (\<lambda>r. ar_area) script (r, w, U) = Some (r', w', U') \<and>
    rs_owns os asz r' w' F' U' \<and> frame_step F w F' w' \<and> granted U' \<subseteq> mapped w' \<and> grants_apart U' \<and>
    undisturbed script U w U' w'"
  using assms by (rule rsa.run_spec)

theorem arena_resource_scripts_safe_witness:
  "\<exists>r w r' w' U'. rs_new bump_os 4096 sample_topology (0, 0) True empty_world = (Inr r, w) \<and>
    run_script (rs_alloc_op bump_os) (rs_free_op bump_os []) (\<lambda>r. ar_area) two_blocks (r, w, Map.empty) = Some (r', w', U') \<and>
    granted U' \<subseteq> mapped w' \<and> grants_apart U' \<and> undisturbed two_blocks Map.empty w U' w'"
proof -
  have node: "normalize_node_id sample_topology 0 0 = 0"
    by (simp add: normalize_node_id_def)
  obtain r w where new: "rs_new_on_node bump_os 4096 sample_topology 0 0 True empty_world = (Inr r, w)"
    by (simp add: rs_new_on_node_def node create_arena_def empty_world_def vm_eval)
  then have r: "rs_new bump_os 4096 sample_topology (0, 0) True empty_world = (Inr r, w)" by (simp add: rs_new_def)
  obtain F where "rs_owns bump_os 4096 r w F Map.empty"
    using rs_new_ok [OF os_ok_bump sample_size_ok _ _ new] by (auto simp: node)
  from arena_resource_scripts_safe [OF this legal_two_blocks, of "[]"] r show ?thesis by blast
qed

section \<open>Small objects\<close>

text \<open>C25: A \<open>SizeClass\<close> refines a set of blocks: whatever operations ran, errors included, the blocks in
  use that its slabs record are the set that the client has, a new block is not in it, at most one
  of the slabs it lists is without a block in use, and memory of others is untouched.\<close>

theorem class_run_refines:
  assumes "class_run os bs node sync w0 sc w L n" and "os_ok os" and "0 < unat bs" and "unat bs \<le> 4096"
  shows "\<exists>orph. sc_inv os sc orph w \<and> sc_live sc orph (w_mem w) = L \<and> frame_step {} w0 (sc_foot os sc orph) w \<and>
    length (filter (slab_is_empty (w_mem w)) (nv_items (sc_slabs sc))) \<le> 1 \<and>
    (\<forall>b sc' w'. sc_allocate os sc w = (Inr b, sc', w') \<longrightarrow> b \<noteq> nullptr \<and> b \<notin> L)"
proof -
  obtain orph where c: "class_state os bs w0 sc w L orph" using class_run_state [OF assms] by blast
  then have inv: "sc_inv os sc orph w" by (simp add: class_state_def)
  have "b \<noteq> nullptr \<and> b \<notin> L" if "sc_allocate os sc w = (Inr b, sc', w')" for b sc' w'
    using sc_allocate_Inr(2,3) [OF assms(2) inv that] c by (simp add: class_state_def)
  then show ?thesis using c class_run_slabs [OF assms] unfolding class_state_def by blast
qed

lemma sample_class_run:
  "\<exists>sc w L n. class_run bump_os 112 0 True empty_world sc w L n \<and>
    (L \<noteq> {} \<or> (\<exists>e. sc_allocate bump_os (sc_new 112 0 True) empty_world = (Inl e, sc, w)))"
proof -
  obtain x sc w where al: "sc_allocate bump_os (sc_new 112 0 True) empty_world = (x, sc, w)" by (metis prod_cases3)
  note s = class_run.start [of bump_os 112 0 True empty_world]
  show ?thesis
  proof (cases x)
    case (Inr b)
    from class_run.take [OF s al [unfolded Inr]] show ?thesis by blast
  next
    case (Inl e)
    show ?thesis using class_run.fail [OF s al [unfolded Inl]] al Inl by blast
  qed
qed

theorem class_run_refines_witness:
  "\<exists>sc w L n orph. class_run bump_os 112 0 True empty_world sc w L n \<and> sc_inv bump_os sc orph w \<and> sc_live sc orph (w_mem w) = L"
proof -
  obtain sc w L n where run: "class_run bump_os 112 0 True empty_world sc w L n" using sample_class_run by blast
  have "0 < unat (112 :: u64)" "unat (112 :: u64) \<le> 4096" by simp_all
  from class_run_refines [OF run os_ok_bump this] run show ?thesis by blast
qed

text \<open>C26: What a size class costs its arena for ever is bounded by its failures: after the destructor the
  address space is what it was before the class was made, and at most one slab of 64 KiB for every
  allocation that failed. No memory of others is changed.\<close>

theorem class_leaks_bounded:
  assumes "class_run os bs node sync w0 sc w L n" and "os_ok os" and "0 < unat bs" and "unat bs \<le> 4096"
  shows "\<exists>orph. length orph \<le> n \<and> mapped (sc_destroy os sc w) = slabs_bytes orph \<union> mapped w0 \<and>
    agree_on (mapped w0) (w_mem w0) (w_mem (sc_destroy os sc w))"
  using assms by (rule class_run_destroyed)

theorem class_leaks_bounded_witness:
  "\<exists>sc w L n orph. class_run bump_os 112 0 True empty_world sc w L n \<and> length orph \<le> n \<and>
    mapped (sc_destroy bump_os sc w) = slabs_bytes orph \<union> mapped empty_world"
proof -
  obtain sc w L n where run: "class_run bump_os 112 0 True empty_world sc w L n" using sample_class_run by blast
  have "0 < unat (112 :: u64)" "unat (112 :: u64) \<le> 4096" by simp_all
  from class_leaks_bounded [OF run os_ok_bump this] run show ?thesis by blast
qed

text \<open>C27: The bound is reached: when a slab can be mapped but the vector of the slabs cannot grow, the
  request throws after the slab has become the current one. No list holds it, so the destructor does
  not release it: its 64 KiB, not mapped before the request, stay mapped.\<close>

theorem growth_failure_leaks:
  assumes "class_run os bs node sync w0 sc w L n" and "os_ok os" and "0 < unat bs" and "unat bs \<le> 4096"
    and "sc_scan sc w = None" and "slab_create os (sc_block_size sc) (sc_node_id sc) w = (Inr slab, w1)"
    and "vec_push_back os (sc_node_id sc) (sc_slabs sc) slab w1 = (Inl e, w2)"
  shows "\<exists>sc'. sc_allocate os sc w = (Inl e, sc', w2) \<and> bytes_of slab 65536 \<subseteq> mapped (sc_destroy os sc' w2) \<and>
    bytes_of slab 65536 \<inter> mapped w = {}"
  using class_growth_leaks [OF assms] by (intro exI [of _ "sc\<lparr>sc_current := slab\<rparr>"]) blast

theorem growth_failure_leaks_witness:
  "\<exists>sc' w2. sc_allocate tight_os (sc_new 112 0 True) empty_world = (Inl Bad_alloc, sc', w2) \<and>
    bytes_of 65536 65536 \<subseteq> mapped (sc_destroy tight_os sc' w2)"
proof -
  note run = class_run.start [of tight_os 112 0 True empty_world]
  have bs: "0 < unat (112 :: u64)" "unat (112 :: u64) \<le> 4096" by simp_all
  obtain w1 where cr: "slab_create tight_os (sc_block_size (sc_new 112 0 True)) (sc_node_id (sc_new 112 0 True)) empty_world =
      (Inr 65536, w1)" using tight_slab by (auto simp: sc_new_def)
  obtain w2 where push: "vec_push_back tight_os (sc_node_id (sc_new 112 0 True)) (sc_slabs (sc_new 112 0 True)) 65536 w1 =
      (Inl Bad_alloc, w2)" using tight_vector by (auto simp: sc_new_def)
  from growth_failure_leaks [OF run os_ok_tight bs fresh_scan cr push] show ?thesis by blast
qed

text \<open>C28: \<open>Slab::init\<close> cuts the 64 KiB of a slab into blocks: all of them are free, they lie apart inside
  the slab and behind its header, and no byte outside the slab is written.\<close>

theorem slab_init_correct:
  assumes "slab_place s bs"
  shows "slab_ok (slab_init s bs node m) bs s \<and> slab_live (slab_init s bs node m) bs s = {} \<and>
    set (slab_free (slab_init s bs node m) s) = set (slab_blocks s bs) \<and>
    sh_node_id (slab_init s bs node m) s = of_int node \<and> agree_on (- bytes_of s 65536) m (slab_init s bs node m)"
  using slab_init_ok [OF assms, where node = node and m = m] by simp

lemma sample_place: "slab_place 65536 112"
  by (simp add: slab_place_def)

theorem slab_init_correct_witness:
  "slab_ok (slab_init 65536 112 0 (\<lambda>_. 7)) 112 65536 \<and> slab_live (slab_init 65536 112 0 (\<lambda>_. 7)) 112 65536 = {}"
  using slab_init_correct [OF sample_place, where node = 0 and m = "\<lambda>_. 7"] by blast

text \<open>C29: Taking a block from a slab and returning it is a round trip: the free list and the blocks in
  use are as before, and the next block taken is the same one.\<close>

theorem slab_round_trip:
  assumes "slab_place s bs" and "slab_ok m bs s" and "slab_has_free m s" and "slab_allocate_block s m = (b, m1)"
  shows "slab_free (slab_free_block s b m1) s = slab_free m s \<and>
    slab_live (slab_free_block s b m1) bs s = slab_live m bs s \<and>
    fst (slab_allocate_block s (slab_free_block s b m1)) = b"
proof -
  note A = slab_allocate_block_ok [OF assms]
  obtain c m2 where al: "slab_allocate_block s (slab_free_block s b m1) = (c, m2)" by fastforce
  have b: "b \<in> slab_live m1 bs s" using A(5) by simp
  from slab_give_take(1) [OF assms(1) A(2) b refl al] slab_take_give [OF assms] al show ?thesis by simp
qed

theorem slab_round_trip_witness:
  "\<exists>b m1. slab_allocate_block 65536 (slab_init 65536 112 0 (\<lambda>_. 0)) = (b, m1) \<and>
    fst (slab_allocate_block 65536 (slab_free_block 65536 b m1)) = b"
proof -
  let ?m = "slab_init 65536 112 0 (\<lambda>_. 0)"
  note I = slab_init_ok [OF sample_place, where node = 0 and m = "\<lambda>_. 0"]
  have "0 < slab_cap 112" using slab_cap_bounds [of 112] by simp
  then have "0 < length (slab_free ?m 65536)" by (simp add: I(2))
  then have "slab_free ?m 65536 \<noteq> []" by simp
  then have hf: "slab_has_free ?m 65536" using slab_has_free_iff [OF sample_place I(1)] by simp
  obtain b m1 where al: "slab_allocate_block 65536 ?m = (b, m1)" by fastforce
  from slab_round_trip [OF sample_place I(1) hf al] al show ?thesis by blast
qed

section \<open>Size classes\<close>

text \<open>C30: For every size a small request can have, the class index is in range, and the class
  stored there is \<open>class_size\<close> of the size: it is large enough, and no smaller class is.\<close>

theorem class_index_matches_class_size:
  assumes "0 < unat sz" and "unat sz \<le> 4096"
  shows "\<exists>i. class_index_for_size sz = Inr i \<and> unat i < kNumSizeClasses \<and>
    kClassSizes ! unat i = class_size sz \<and> sz \<le> class_size sz \<and>
    (\<forall>c\<in>set kClassSizes. sz \<le> c \<longrightarrow> class_size sz \<le> c)"
proof -
  have "sz \<noteq> 0" using assms by auto
  then show ?thesis
    using class_index_for_size_kClass [OF assms(2)] class_size_ge [OF assms] class_size_least [OF assms] by auto
qed

theorem class_index_matches_class_size_witness:
  "\<exists>i. class_index_for_size 300 = Inr i \<and> unat i < kNumSizeClasses \<and>
    kClassSizes ! unat i = class_size 300 \<and> 300 \<le> class_size 300 \<and>
    (\<forall>c\<in>set kClassSizes. 300 \<le> c \<longrightarrow> class_size 300 \<le> c)"
  by (rule class_index_matches_class_size) simp_all

section \<open>Large objects\<close>

text \<open>C31: The large allocator keeps the same guarantee, whatever spans it reuses from its cache.\<close>

theorem large_scripts_safe:
  assumes "la_owns os la w F U" and "\<forall>r. Take r \<in> set script \<longrightarrow> large_legal os r"
  shows "\<exists>la' w' U' F'. run_script (la_alloc_req os) (la_free_ptr os)
      (\<lambda>la (sz, alignment) p. bytes_of p (unat sz)) script (la, w, U) = Some (la', w', U') \<and>
    la_owns os la' w' F' U' \<and> frame_step F w F' w' \<and> granted U' \<subseteq> mapped w' \<and> grants_apart U' \<and>
    undisturbed script U w U' w'"
  using assms by (rule laa.run_spec)

lemma la_new_owns: "os_ok os \<Longrightarrow> la_owns os (la_new node ms mb sync) w {} Map.empty"
  unfolding la_owns_def by (intro conjI exI [of _ "[]"]) (simp_all add: la_new_inv)

theorem large_scripts_safe_witness:
  "\<exists>la' w' U' F'. run_script (la_alloc_req bump_os) (la_free_ptr bump_os)
      (\<lambda>la (sz, alignment) p. bytes_of p (unat sz)) one_span
      (la_new 0 128 67108864 True, empty_world, Map.empty) = Some (la', w', U') \<and>
    la_owns bump_os la' w' F' U' \<and> frame_step {} empty_world F' w' \<and> granted U' \<subseteq> mapped w' \<and> grants_apart U' \<and>
    undisturbed one_span Map.empty empty_world U' w'"
  by (rule large_scripts_safe [OF la_new_owns [OF os_ok_bump] legal_one_span])

text \<open>C32: A large block whose span fits the cache of spans is cached when it is returned, and the span
  serves the next request of its class: that request succeeds, its block is aligned, lies behind its
  header in that span, the cache is as it was, no system call is made, and only the header is written.\<close>

theorem large_round_trip:
  assumes "os_ok os" and "la_wf la" and "p \<noteq> nullptr" and "raw = bh_raw_ptr (w_mem w) (from_user_ptr p)"
    and "span = bh_total_size (w_mem w) (from_user_ptr p)" and "unat raw + unat span \<le> 2 ^ 63"
    and "la_release_to_cache raw span la = (True, la1)"
    and "large_legal os (sz, al)" and "alignment = (if al < 8 then 8 else al)"
    and "span_class_size_for os (sz + alignment + sizeof_BlockHeader) = span"
  shows "la_deallocate os p la w = (la1, w) \<and>
    (\<exists>q la2 m. la_allocate os sz al la1 w = (Inr q, la2, w\<lparr>w_mem := m\<rparr>) \<and> la_cached la2 = la_cached la \<and>
      bh_raw_ptr m (from_user_ptr q) = raw \<and> bh_total_size m (from_user_ptr q) = span \<and>
      unat alignment dvd unat q \<and> unat raw + 32 \<le> unat q \<and> unat q + unat sz \<le> unat raw + unat span \<and>
      agree_on (- {unat q - 32 ..< unat q}) (w_mem w) m)"
  using large_reuse [OF assms] by blast

definition sample_large_block :: world where
  "sample_large_block =
    empty_world\<lparr>w_mem := set_bh_total_size 65536 8192 (set_bh_raw_ptr 65536 65536 (w_mem empty_world))\<rparr>"

theorem large_round_trip_witness:
  "\<exists>la1 q la2 m. la_deallocate bump_os 65568 (la_new 0 128 67108864 True) sample_large_block = (la1, sample_large_block) \<and>
    la_allocate bump_os 5000 64 la1 sample_large_block = (Inr q, la2, sample_large_block\<lparr>w_mem := m\<rparr>) \<and>
    bh_raw_ptr m (from_user_ptr q) = 65536 \<and> bh_total_size m (from_user_ptr q) = 8192 \<and>
    unat q \<in> {65568 .. 68728} \<and> 64 dvd unat q"
proof -
  let ?la = "la_new 0 128 67108864 True"
  have h: "from_user_ptr 65568 = 65536" by (simp add: from_user_ptr_def sub_bytes_def sizeof_BlockHeader_def)
  have hd: "65536 = bh_raw_ptr (w_mem sample_large_block) (from_user_ptr 65568)"
    "8192 = bh_total_size (w_mem sample_large_block) (from_user_ptr 65568)"
    by (simp_all add: h sample_large_block_def header_field_defs s64.get_put_apart bytes_of_def)
  have "bin_index_for 8192 = 0" using bin_index_for_nth [of 0] by (simp add: kLargeBinSizes_def)
  then obtain la1 where rel: "la_release_to_cache 65536 8192 ?la = (True, la1)"
    by (simp add: la_release_to_cache_def npos_def la_new_def empty_bin_def kMaxSpansPerLargeBin_def Let_def)
  have al: "(64 :: u64) = (if (64 :: u64) < 8 then 8 else 64)" by simp
  have lg: "large_legal bump_os (5000, 64)" by (simp add: large_legal_def page_size_def bump_os_def)
  from large_round_trip [OF os_ok_bump la_new_wf(1) _ hd _ rel lg al sample_span] show ?thesis by auto
qed

text \<open>C33: The guard of \<open>LargeObjectAllocator::allocate\<close> bounds the sum of size, alignment and header, not
  its rounding to pages. For a request in the last page below \<open>2 ^ 64\<close> the rounding wraps, a
  span of the smallest class is taken, the comparison with its end wraps too, and a pointer
  is returned to a span that is smaller than the block.\<close>

theorem large_request_wraps:
  assumes "os_ok os" and "8 \<le> unat alignment" and "unat alignment \<le> 4096"
    and "unat sz + unat alignment + 32 < 18446744073709551616"
    and "18446744073709551616 < unat sz + unat alignment + 32 + unat (page_size os)"
    and "la_acquire_span os (page_size_for os 8192) la w = (Inr (raw, span), la1, w1)"
    and "span_ok os (la_node_id la) w1 (raw, span)" and "8192 \<le> unat span" and "131072 \<le> unat raw"
  shows "\<exists>p m. la_allocate os sz alignment la w = (Inr p, la1, w1\<lparr>w_mem := m\<rparr>) \<and>
    bh_raw_ptr m (from_user_ptr p) = raw \<and> bh_total_size m (from_user_ptr p) = span \<and> unat span < unat sz"
proof -
  have "unat raw + unat span \<le> 9223372036854775808" using assms(7) by (simp add: span_ok_def)
  moreover have "unat (page_size os) \<le> 65536" by (rule os_ok_page_le [OF assms(1)])
  ultimately have "unat span < unat sz" using assms(3,5) by linarith
  then show ?thesis using la_allocate_wraps [OF assms] by blast
qed

theorem large_request_wraps_witness:
  "\<exists>p la1 w'. la_allocate bump_os 18446744073709550616 8 (la_new 0 128 67108864 True)
    (empty_world\<lparr>w_maps := [(65536, 131072)]\<rparr>) = (Inr p, la1, w')"
proof -
  let ?la = "la_new 0 128 67108864 True" and ?w = "empty_world\<lparr>w_maps := [(65536, 131072)]\<rparr>"
  have ps: "page_size_for bump_os 8192 = 8192" by (simp add: page_size_for_def align_up_def page_size_def bump_os_def)
  have nz: "(8192 :: u64) \<noteq> 0" and fit: "fits_page bump_os 8192" by (simp_all add: fits_page_def page_size_def bump_os_def)
  obtain w1 where v: "vm_alloc_on_node bump_os 8192 0 Bind ?w = (Inr 131072, w1)" by (simp add: vm_eval)
  note V = vm_alloc_on_node_Inr [OF os_ok_bump nz fit v]
  have sb: "span_bytes bump_os 8192 = 8192" by (simp add: span_bytes_def page_size_def bump_os_def round_up_def)
  have "bin_index_for 8192 = 0" using bin_index_for_nth [of 0] by (simp add: kLargeBinSizes_def)
  then have acq: "la_acquire_span bump_os (page_size_for bump_os 8192) ?la ?w = (Inr (131072, 8192), ?la, w1)"
    using v by (simp add: ps la_acquire_span_def Let_def npos_def kLargeBinSearchLimit_def la_new_def find_bin_empty
        del: find_bin.simps)
  have sp: "span_ok bump_os (la_node_id ?la) w1 (131072, 8192)"
    using V by (simp add: span_ok_def sb la_new_def) (simp add: page_size_def bump_os_def)
  have pg: "unat (page_size bump_os) = 4096" by (simp add: page_size_def bump_os_def)
  from large_request_wraps [OF os_ok_bump _ _ _ _ acq sp, of 8 18446744073709550616] show ?thesis
    by (auto simp: pg)
qed

section \<open>Virtual memory\<close>

text \<open>C34: \<open>VirtualMemory::alloc_on_node\<close> of a size that is not 0: success is one new mapping, page-aligned,
  zeroed, of the size rounded up to pages and placed on the node; failure is \<open>bad_alloc\<close> with
  every mapping as it was. Nothing else changes.\<close>

theorem alloc_on_node_correct:
  assumes "os_ok os" and "sz \<noteq> 0" and "fits_page os sz" and "vm_alloc_on_node os sz node Bind w = (r, w')"
  shows "case r of
      Inl e \<Rightarrow> e = Bad_alloc \<and> frame_step {} w {} w'
    | Inr p \<Rightarrow> p \<noteq> nullptr \<and> unat (page_size os) dvd unat p \<and> unat p + span_bytes os sz \<le> 2 ^ 63 \<and>
        unat sz \<le> span_bytes os sz \<and> frame_step {} w (bytes_of p (span_bytes os sz)) w' \<and>
        (\<forall>x \<in> bytes_of p (span_bytes os sz). w_mem w' x = 0 \<and> w_policy w' x = node_policy os node)"
  using vm_alloc_on_node_Inr [OF assms(1-3), of node w _ w'] vm_alloc_on_node_Inl [OF assms(1-3), of node w _ w']
    span_bytes_ge [OF assms(1)] assms(4) by (cases r) auto

theorem alloc_on_node_correct_witness:
  "\<exists>p w'. vm_alloc_on_node bump_os 5000 0 Bind empty_world = (Inr p, w') \<and> p \<noteq> nullptr \<and>
    frame_step {} empty_world (bytes_of p (span_bytes bump_os 5000)) w'"
proof -
  obtain p w' where v: "vm_alloc_on_node bump_os 5000 0 Bind empty_world = (Inr p, w')" by (simp add: empty_world_def vm_eval)
  have "(5000 :: u64) \<noteq> 0" "fits_page bump_os 5000" by (simp_all add: fits_page_def page_size_def bump_os_def)
  from alloc_on_node_correct [OF os_ok_bump this v] v show ?thesis by auto
qed

text \<open>C35: A request for 0 bytes that cannot be placed leaks a page: \<open>reserve\<close> maps a page for size 0, the
  binding fails, \<open>release\<close> ignores size 0, and \<open>alloc_on_node\<close> throws with the page mapped.\<close>

theorem zero_size_leaks:
  assumes "os_ok os" and "vm_reserve os 0 w = (Inr p, w1)" and "vm_alloc_on_node os 0 node policy w = (Inl e, w')"
  shows "mapped w' = bytes_of p (unat (page_size os)) \<union> mapped w \<and> bytes_of p (unat (page_size os)) \<inter> mapped w = {} \<and>
    bytes_of p (unat (page_size os)) \<noteq> {}"
proof -
  note V = vm_alloc_0 [OF assms(1,3,2)]
  have "unat p \<in> bytes_of p (unat (page_size os))" using os_ok_page_ge [OF assms(1)] by (simp add: bytes_of_iff)
  then show ?thesis using V(1,2) by blast
qed

theorem zero_size_leaks_witness:
  "\<exists>p w1 e w'. vm_reserve bump_os 0 empty_world = (Inr p, w1) \<and>
    vm_alloc_on_node bump_os 0 64 Bind empty_world = (Inl e, w') \<and> mapped w' = bytes_of p (unat (page_size bump_os)) \<union> mapped empty_world"
proof -
  obtain p w1 where r: "vm_reserve bump_os 0 empty_world = (Inr p, w1)" by (simp add: empty_world_def vm_eval)
  obtain e w' where v: "vm_alloc_on_node bump_os 0 64 Bind empty_world = (Inl e, w')" by (simp add: empty_world_def vm_eval)
  from zero_size_leaks [OF os_ok_bump r v] r v show ?thesis by blast
qed

section \<open>The simple resource\<close>

text \<open>C36: \<open>numa_simple_memory_resource\<close> is an allocator: the same guarantee for every script of requests
  whose total is a size after rounding to pages.\<close>

theorem simple_scripts_safe:
  assumes "sr_owns os r w F U" and "\<forall>q. Take q \<in> set script \<longrightarrow> sr_legal os q"
  shows "\<exists>r' w' U' F'. run_script (sr_alloc_op os topo cpu) (sr_free_op os) (\<lambda>r. sr_area) script (r, w, U) =
      Some (r', w', U') \<and>
    sr_owns os r' w' F' U' \<and> frame_step F w F' w' \<and> granted U' \<subseteq> mapped w' \<and> grants_apart U' \<and>
    undisturbed script U w U' w'"
  using assms by (rule sra.run_spec)

lemma sample_simple_legal: "sr_legal bump_os (100, 8)" "sr_legal bump_os (5000, 64)"
  by (simp_all add: sr_legal_def at_least_one_def sr_alignment_def page_size_def bump_os_def)

theorem simple_scripts_safe_witness:
  "\<exists>r' w' U' F'. run_script (sr_alloc_op bump_os sample_topology 0) (sr_free_op bump_os) (\<lambda>r. sr_area) two_blocks
      (sr_new_default sample_topology 0, empty_world, Map.empty) = Some (r', w', U') \<and>
    sr_owns bump_os r' w' F' U' \<and> granted U' \<subseteq> mapped w' \<and> grants_apart U'"
proof -
  have "\<forall>q. Take q \<in> set two_blocks \<longrightarrow> sr_legal bump_os q"
    using sample_simple_legal by (auto simp: two_blocks_def)
  from simple_scripts_safe [OF sr_owns_empty [OF os_ok_bump] this, where topo = sample_topology and cpu = 0 and
    r = "sr_new_default sample_topology 0" and w = empty_world]
  show ?thesis by blast
qed

text \<open>C37: With the simple resource a block that is taken and returned leaves the address space as it
  was, and no memory of others changes.\<close>

theorem simple_round_trip:
  assumes "sr_owns os r w F U" and "sr_legal os (bytes, al)"
    and "sr_do_allocate os topo cpu bytes al r w = (Inr p, w1)"
  shows "mapped (sr_do_deallocate os p bytes' al' w1) = mapped w \<and>
    agree_on (mapped w) (w_mem w) (w_mem (sr_do_deallocate os p bytes' al' w1))"
  using sr_round_trip [OF assms] by blast

theorem simple_round_trip_witness:
  "\<exists>p w1. sr_do_allocate bump_os sample_topology 0 5000 64 (sr_new_default sample_topology 0) empty_world = (Inr p, w1) \<and>
    mapped (sr_do_deallocate bump_os p 5000 64 w1) = mapped empty_world"
proof -
  let ?r = "sr_new_default sample_topology 0"
  have g: "unat (at_least_one 5000) + unat (sr_alignment 64) + 16 < 18446744073709551616"
    by (simp add: at_least_one_def sr_alignment_def)
  have t: "sr_total bump_os 5000 64 = 8192"
    by (simp add: sr_total_def at_least_one_def sr_alignment_def align_up_def page_size_def bump_os_def)
  obtain w0 where v: "vm_alloc_on_node bump_os 8192 0 Bind empty_world = (Inr 65536, w0)" by (simp add: empty_world_def vm_eval)
  have n: "sr_node sample_topology 0 ?r = 0" by (simp add: sr_node_def sr_new_default_def)
  obtain p w1 where al: "sr_do_allocate bump_os sample_topology 0 5000 64 ?r empty_world = (Inr p, w1)"
    by (simp add: sr_do_allocate_guard [OF g] t n v sr_allocate_from_span_def Let_def at_least_one_def sr_alignment_def
        sizeof_AllocationHeader_def align_up_def)
  from simple_round_trip [OF sr_owns_empty [OF os_ok_bump] sample_simple_legal(2) al] al show ?thesis by blast
qed

text \<open>C38: The guard of the simple resource has the gap of the large allocator: for a total in the last
  page below \<open>2 ^ 64\<close>, at an alignment that divides the page, one page is mapped, a pointer is
  returned for almost \<open>2 ^ 64\<close> bytes, with its header inside the page, and returning the block
  does nothing, because the remembered size is 0: the page leaks.\<close>

theorem simple_request_wraps:
  assumes "os_ok os"
    and "unat (at_least_one bytes) + unat (sr_alignment al) + 16 < 18446744073709551616"
    and "18446744073709551616 < unat (at_least_one bytes) + unat (sr_alignment al) + 16 + unat (page_size os)"
    and "vm_alloc_on_node os 0 (sr_node topo cpu r) Bind w = (Inr raw, w1)"
    and "unat (sr_alignment al) dvd unat (page_size os)" and "2 * unat (page_size os) \<le> unat raw"
  shows "\<exists>p w2. sr_do_allocate os topo cpu bytes al r w = (Inr p, w2) \<and> p \<noteq> nullptr \<and>
    {unat p - 16 ..< unat p} \<subseteq> bytes_of raw (unat (page_size os)) \<and>
    sr_do_deallocate os p bytes al w2 = w2 \<and>
    mapped w2 = bytes_of raw (unat (page_size os)) \<union> mapped w \<and> bytes_of raw (unat (page_size os)) \<inter> mapped w = {}"
  using assms by (rule sr_wraps_leak)

theorem simple_request_wraps_witness:
  "\<exists>p w2. sr_do_allocate bump_os sample_topology 0 18446744073709550616 8 (sr_new_default sample_topology 0) empty_world =
      (Inr p, w2) \<and> sr_do_deallocate bump_os p 18446744073709550616 8 w2 = w2 \<and> mapped w2 \<noteq> mapped empty_world"
proof -
  let ?r = "sr_new_default sample_topology 0"
  have n: "sr_node sample_topology 0 ?r = 0" by (simp add: sr_node_def sr_new_default_def)
  obtain w1 where v: "vm_alloc_on_node bump_os 0 (sr_node sample_topology 0 ?r) Bind empty_world = (Inr 65536, w1)"
    by (simp add: n empty_world_def vm_eval)
  have g: "unat (at_least_one 18446744073709550616) + unat (sr_alignment 8) + 16 < 18446744073709551616"
    "18446744073709551616 < unat (at_least_one 18446744073709550616) + unat (sr_alignment 8) + 16 + unat (page_size bump_os)"
    "unat (sr_alignment 8) dvd unat (page_size bump_os)" "2 * unat (page_size bump_os) \<le> unat (65536 :: u64)"
    by (simp_all add: at_least_one_def sr_alignment_def page_size_def bump_os_def)
  have "65536 \<in> bytes_of (65536 :: u64) (unat (page_size bump_os))"
    using os_ok_page_ge [OF os_ok_bump] by (simp add: bytes_of_iff)
  with simple_request_wraps [OF os_ok_bump g(1,2) v g(3,4)] show ?thesis by auto
qed

section \<open>Topology\<close>

text \<open>C39: Whatever libnuma answers, the tables that the constructor builds agree: every CPU of the machine
  has a node that exists and is marked present, and the list of that node holds the CPU; for a thread
  on such a CPU a node id is normalised to itself when it is valid, else to the node of the CPU, and so
  to a valid node either way.\<close>

theorem topology_tables_agree:
  assumes "0 \<le> cpu" and "cpu < cpu_count (init_topology ln)"
  shows "is_valid_node (init_topology ln) (current_node_from_cpu (init_topology ln) cpu) \<and>
    cpu \<in> set (node_to_cpus (init_topology ln) ! nat (current_node_from_cpu (init_topology ln) cpu)) \<and>
    normalize_node_id (init_topology ln) cpu node =
      (if is_valid_node (init_topology ln) node then node else current_node_from_cpu (init_topology ln) cpu) \<and>
    is_valid_node (init_topology ln) (normalize_node_id (init_topology ln) cpu node)"
  using cpu_node_valid [OF init_topology_ok assms] normalize_valid(1) [OF init_topology_ok assms]
  by (simp add: normalize_node_id_def)

theorem topology_tables_agree_witness:
  "is_valid_node (init_topology sample_libnuma) (normalize_node_id (init_topology sample_libnuma) 1 17)"
proof -
  have c: "(0 :: int) \<le> 1" "1 < cpu_count (init_topology sample_libnuma)"
    using sample_topology_eq by (simp_all add: sample_topology_def)
  show ?thesis using topology_tables_agree [OF c, of 17] by blast
qed

text \<open>C40: \<open>numa_thread_pin_guard\<close> is a round trip: after construction and destruction the thread has the
  affinity that it had, whether the pinning succeeded or not, as long as the scheduler takes
  the mask back that it reported itself.\<close>

theorem pin_guard_restores:
  assumes "pin_guard_new t sch node th = (g, th1)" and "finite (th_affinity th)" and "th_affinity th \<noteq> {}"
    and "setaffinity_ok sch (th_affinity th2) (th_affinity th)" and "pg_active g \<or> th2 = th1"
  shows "th_affinity (pin_guard_destroy sch g th2) = th_affinity th"
  using assms by (rule pin_guard_round_trip)

definition sample_scheduler :: scheduler where
  "sample_scheduler = \<lparr>getaffinity_ok = True, setaffinity_ok = (\<lambda>_ _. True), cpu_after = (\<lambda>_ c. c)\<rparr>"

theorem pin_guard_restores_witness:
  "\<exists>g th1. pin_guard_new sample_topology sample_scheduler 0 \<lparr>th_affinity = {1}, th_cpu = 1\<rparr> = (g, th1) \<and>
    th_affinity (pin_guard_destroy sample_scheduler g th1) = {1}"
proof -
  obtain g th1 where new: "pin_guard_new sample_topology sample_scheduler 0 \<lparr>th_affinity = {1}, th_cpu = 1\<rparr> = (g, th1)"
    by fastforce
  have "setaffinity_ok sample_scheduler (th_affinity th1) {1}" by (simp add: sample_scheduler_def)
  with pin_guard_restores [OF new, of th1] new show ?thesis by auto
qed

end
